(* ===== verification/CS_Prelude.thy ===== *)
theory CS_Prelude
  imports Main "HOL-Library.Word"
begin

unbundle bit_operations_syntax

text \<open>
  The vocabulary shared by all components: the machine types of the program (an LP64
  little-endian target, so \<open>size_t\<close> has 64 bits), the exceptions it raises, a result
  type for operations that may raise, the sequencing of operations that read and change
  a state, and the generic lemmas on bytes and words.
\<close>

section \<open>Machine types and exceptions\<close>

type_synonym byte = "8 word"
type_synonym bytes = "8 word list"
type_synonym u16 = "16 word"
type_synonym u32 = "32 word"
type_synonym u64 = "64 word"

text \<open>
  The exception kinds of \<open>stx/exception.h\<close> the modelled code raises, the two
  exceptions of \<open>std::stoull\<close>, and \<open>Undefined\<close>: the C++ program has no defined
  result there (it reads outside an allocation, reads bytes that were never written, or
  shifts by at least the width of the type).
\<close>

datatype error_kind =
    RuntimeError
  | EOFError
  | BufferOverflowError
  | IllegalArgumentError
  | IllegalStateError
  | IndexError
  | NotFoundError
  | NotImplementedError
  | NotYetImplementedError
  | TypeError
  | AssertionError
  | IOError
  | EncodingError
  | ParseError
  | StdInvalidArgument
  | StdOutOfRange
  | Undefined

type_synonym 'a res = "error_kind + 'a"

text \<open>
  \<open>res_bind\<close> runs the continuation on a value and passes an exception on;
  \<open>act_bind\<close> does the same for operations on a state: an operation takes the state
  and yields a value with the next state, or the exception it raised.
\<close>

definition res_bind :: "'a res \<Rightarrow> ('a \<Rightarrow> 'b res) \<Rightarrow> 'b res" where
  "res_bind m f = (case m of Inl e \<Rightarrow> Inl e | Inr a \<Rightarrow> f a)"

definition act_bind ::
  "('s \<Rightarrow> ('a \<times> 's) res) \<Rightarrow> ('a \<Rightarrow> 's \<Rightarrow> ('b \<times> 's) res) \<Rightarrow> 's \<Rightarrow> ('b \<times> 's) res" where
  "act_bind m f s = (case m s of Inl e \<Rightarrow> Inl e | Inr (a, s') \<Rightarrow> f a s')"

definition act_return :: "'a \<Rightarrow> 's \<Rightarrow> ('a \<times> 's) res" where
  "act_return a s = Inr (a, s)"

lemma res_bind_simps [simp]:
  "res_bind (Inl e) f = Inl e"
  "res_bind (Inr a) f = f a"
  by (simp_all add: res_bind_def)

lemma res_bind_Inr: "res_bind m f = Inr b \<longleftrightarrow> (\<exists>a. m = Inr a \<and> f a = Inr b)"
  by (cases m) simp_all

lemma res_bind_cong [fundef_cong]:
  assumes "m = m'" and "\<And>a. m' = Inr a \<Longrightarrow> f a = f' a"
  shows "res_bind m f = res_bind m' f'"
  using assms by (cases m') simp_all

lemma act_bind_Inr [simp]: "m s = Inr (a, s') \<Longrightarrow> act_bind m f s = f a s'"
  by (simp add: act_bind_def)

lemma act_bind_Inl [simp]: "m s = Inl e \<Longrightarrow> act_bind m f s = Inl e"
  by (simp add: act_bind_def)

lemma act_return_simp [simp]: "act_return a s = Inr (a, s)"
  by (simp add: act_return_def)

lemma act_bind_eq_Inr:
  "act_bind m f s = Inr r \<longleftrightarrow> (\<exists>a s'. m s = Inr (a, s') \<and> f a s' = Inr r)"
  by (auto simp: act_bind_def split: sum.splits prod.splits)

lemma act_bind_cong [fundef_cong]:
  assumes "m s = m' s'" and "s = s'" and "\<And>a t. m' s' = Inr (a, t) \<Longrightarrow> f a t = f' a t"
  shows "act_bind m f s = act_bind m' f' s'"
  using assms by (auto simp: act_bind_def split: sum.splits)

text \<open>
  \<open>res_fold\<close> performs an operation for every element of a list, as the loops of the program
  do; \<open>act_repeat\<close> reads a number of values one by one. Both stop at the first exception.
\<close>

fun res_fold :: "('a \<Rightarrow> 's \<Rightarrow> 's res) \<Rightarrow> 'a list \<Rightarrow> 's \<Rightarrow> 's res" where
  "res_fold f [] s = Inr s"
| "res_fold f (x # xs) s = res_bind (f x s) (res_fold f xs)"

fun act_repeat :: "nat \<Rightarrow> ('s \<Rightarrow> ('v \<times> 's) res) \<Rightarrow> 's \<Rightarrow> ('v list \<times> 's) res" where
  "act_repeat 0 f s = Inr ([], s)"
| "act_repeat (Suc n) f s = act_bind f (\<lambda>v. act_bind (act_repeat n f) (\<lambda>vs. act_return (v # vs))) s"

lemma res_bind_assoc: "res_bind (res_bind m f) g = res_bind m (\<lambda>x. res_bind (f x) g)"
  by (simp add: res_bind_def split: sum.splits)

lemma res_bind_return [simp]: "res_bind m Inr = m" "res_bind m (\<lambda>x. Inr x) = m"
  by (simp_all add: res_bind_def split: sum.splits)

lemma res_fold_single: "res_fold f [x] s = f x s"
  by (simp add: res_bind_def split: sum.splits)

lemma res_fold_append: "res_fold f (xs @ ys) s = res_bind (res_fold f xs s) (res_fold f ys)"
  by (induction xs arbitrary: s) (auto simp: res_bind_def split: sum.splits)

lemma res_fold_cong [fundef_cong]:
  assumes "xs = ys" and "s = t" and "\<And>x s. x \<in> set ys \<Longrightarrow> f x s = g x s"
  shows "res_fold f xs s = res_fold g ys t"
proof -
  have "res_fold f ys t = res_fold g ys t"
    using assms(3) by (induction ys arbitrary: t) (auto simp: res_bind_def split: sum.splits)
  then show ?thesis using assms(1,2) by simp
qed

lemma res_fold_rel:
  assumes "R s us" and "\<forall>v \<in> set vs. ok v"
    and step: "\<And>s us v. R s us \<Longrightarrow> ok v \<Longrightarrow> \<exists>s'. f v s = Inr s' \<and> R s' (us @ [v])"
  shows "\<exists>s'. res_fold f vs s = Inr s' \<and> R s' (us @ vs)"
  using assms(1,2)
proof (induction vs arbitrary: s us)
  case (Cons v vs)
  then obtain s' where s': "f v s = Inr s'" "R s' (us @ [v])" using step by force
  with Cons.IH [OF s'(2)] Cons.prems(2) show ?case by simp
qed simp

lemma act_repeat_rel:
  assumes "R s (vs @ us)"
    and step: "\<And>s v vs. R s (v # vs) \<Longrightarrow> \<exists>s'. f s = Inr (g v, s') \<and> R s' vs"
  shows "\<exists>s'. act_repeat (length vs) f s = Inr (map g vs, s') \<and> R s' us"
  using assms(1)
proof (induction vs arbitrary: s)
  case (Cons v vs)
  then obtain s' where s': "f s = Inr (g v, s')" "R s' (vs @ us)" using step by force
  with Cons.IH [OF s'(2)] show ?case by auto
qed simp

section \<open>Little-endian bytes\<close>

text \<open>
  The memory image of an unsigned integer of \<open>n\<close> bytes on a little-endian machine, as
  \<open>append(&value, sizeof(value))\<close> copies it, and the integer read back from it.
\<close>

fun le_bytes :: "nat \<Rightarrow> nat \<Rightarrow> bytes" where
  "le_bytes 0 v = []"
| "le_bytes (Suc n) v = word_of_nat (v mod 256) # le_bytes n (v div 256)"

fun le_val :: "bytes \<Rightarrow> nat" where
  "le_val [] = 0"
| "le_val (b # bs) = unat b + 256 * le_val bs"

lemma length_le_bytes [simp]: "length (le_bytes n v) = n"
  by (induction n arbitrary: v) simp_all

lemma unat_less_exp: "unat (w :: 'a::len word) < 2 ^ LENGTH('a)"
  by (rule unsigned_less)

lemma unat_byte_less [simp]: "unat (b :: byte) < 256"
  using unat_less_exp [of b] by simp

lemma unat_word_less:
  "unat (a :: u16) < 65536" "unat (b :: u32) < 4294967296" "unat (c :: u64) < 18446744073709551616"
  using unat_less_exp [of a] unat_less_exp [of b] unat_less_exp [of c] by simp_all

lemma unat_of_nat_byte [simp]: "unat (word_of_nat v :: byte) = v mod 256"
  by (simp add: unat_of_nat)

lemma le_val_le_bytes: "le_val (le_bytes n v) = v mod 256 ^ n"
proof (induction n arbitrary: v)
  case 0
  then show ?case by simp
next
  case (Suc n)
  have "v mod 256 + 256 * (v div 256 mod 256 ^ n) = v mod (256 * 256 ^ n)"
    by (metis add.commute mod_mult2_eq)
  then show ?case by (simp add: Suc)
qed

lemma le_val_less: "le_val bs < 256 ^ length bs"
proof (induction bs)
  case (Cons b bs)
  have "unat b + 256 * le_val bs < 256 * (le_val bs + 1)"
    using unat_byte_less [of b] by simp
  also have "\<dots> \<le> 256 * 256 ^ length bs" using Cons by simp
  finally show ?case by simp
qed simp

lemma le_bytes_le_val: "le_bytes (length bs) (le_val bs) = bs"
proof (induction bs)
  case (Cons b bs)
  have "(unat b + 256 * le_val bs) div 256 = le_val bs"
    using unat_byte_less [of b] by simp
  moreover have "(unat b + 256 * le_val bs) mod 256 = unat b"
    using unat_byte_less [of b] by simp
  ultimately show ?case using Cons by simp
qed simp

lemma le_bytes_unfold:
  "le_bytes 2 v = [word_of_nat (v mod 256), word_of_nat (v div 256 mod 256)]"
  "le_bytes 4 v = [word_of_nat (v mod 256), word_of_nat (v div 256 mod 256),
     word_of_nat (v div 256 div 256 mod 256), word_of_nat (v div 256 div 256 div 256 mod 256)]"
proof -
  have n: "(2::nat) = Suc (Suc 0)" "(4::nat) = Suc (Suc (Suc (Suc 0)))" by simp_all
  show "le_bytes 2 v = [word_of_nat (v mod 256), word_of_nat (v div 256 mod 256)]"
    unfolding n(1) by (simp only: le_bytes.simps)
  show "le_bytes 4 v = [word_of_nat (v mod 256), word_of_nat (v div 256 mod 256),
     word_of_nat (v div 256 div 256 mod 256), word_of_nat (v div 256 div 256 div 256 mod 256)]"
    unfolding n(2) by (simp only: le_bytes.simps)
qed

definition u16_bytes :: "u16 \<Rightarrow> bytes" where "u16_bytes w = le_bytes 2 (unat w)"
definition u32_bytes :: "u32 \<Rightarrow> bytes" where "u32_bytes w = le_bytes 4 (unat w)"
definition u64_bytes :: "u64 \<Rightarrow> bytes" where "u64_bytes w = le_bytes 8 (unat w)"
definition bytes_u16 :: "bytes \<Rightarrow> u16" where "bytes_u16 bs = word_of_nat (le_val bs)"
definition bytes_u32 :: "bytes \<Rightarrow> u32" where "bytes_u32 bs = word_of_nat (le_val bs)"
definition bytes_u64 :: "bytes \<Rightarrow> u64" where "bytes_u64 bs = word_of_nat (le_val bs)"

lemma length_word_bytes [simp]:
  "length (u16_bytes a) = 2" "length (u32_bytes b) = 4" "length (u64_bytes c) = 8"
  by (simp_all add: u16_bytes_def u32_bytes_def u64_bytes_def)

lemma bytes_word_inverse [simp]:
  "bytes_u16 (u16_bytes a) = a" "bytes_u32 (u32_bytes b) = b" "bytes_u64 (u64_bytes c) = c"
  by (simp_all add: unat_word_less u16_bytes_def u32_bytes_def u64_bytes_def
      bytes_u16_def bytes_u32_def bytes_u64_def le_val_le_bytes)

lemma word_bytes_inverse:
  "length bs = 4 \<Longrightarrow> u32_bytes (bytes_u32 bs) = bs"
  "length bs = 8 \<Longrightarrow> u64_bytes (bytes_u64 bs) = bs"
  using le_val_less [of bs] le_bytes_le_val [of bs]
  by (simp_all add: u32_bytes_def u64_bytes_def bytes_u32_def bytes_u64_def unat_of_nat)

lemma word_bytes_inject [simp]:
  "u32_bytes a = u32_bytes b \<longleftrightarrow> a = b" "u64_bytes c = u64_bytes d \<longleftrightarrow> c = d"
  by (metis bytes_word_inverse(2)) (metis bytes_word_inverse(3))

section \<open>Lists\<close>

lemma take_drop_append_parts:
  "take (length xs) (xs @ ys) = xs" "drop (length xs) (xs @ ys) = ys"
  by simp_all

lemma take_add_drop: "take (m + n) xs = take m xs @ take n (drop m xs)"
  by (simp add: take_add)

lemma list_update_last_snoc: "(xs @ [y])[length xs := z] = xs @ [z]"
  by simp

lemma length_concat_le: "(\<And>x. x \<in> set xs \<Longrightarrow> length (f x) \<le> n) \<Longrightarrow> length (concat (map f xs)) \<le> n * length xs"
proof (induction xs)
  case (Cons x xs)
  then have "length (f x) \<le> n" "length (concat (map f xs)) \<le> n * length xs" by simp_all
  then show ?case by simp
qed simp

lemma unat_ucast_u32_u64: "unat (ucast (x :: u32) :: u64) = unat x"
  using unat_word_less(2) [of x] by (simp add: unsigned_ucast_eq take_bit_eq_mod)

lemma ucast_u32_u64 [simp]: "ucast (ucast (x :: u32) :: u64) = x"
proof -
  have "unat (ucast (ucast x :: u64) :: u32) = unat x mod 2 ^ 32"
    by (simp only: unsigned_ucast_eq [of "ucast x :: u64"] unat_ucast_u32_u64 take_bit_eq_mod) simp
  then show ?thesis using unat_word_less(2) [of x] by (simp add: word_unat_eq_iff)
qed

end
