(* ===== verification/CS_File.thy ===== *)
theory CS_File
  imports CS_Prelude
begin

text \<open>
  Opening files (\<open>stx/io/file.cc\<close>): the flags of \<open>File\<close>, their translation to those of POSIX
  \<open>open\<close>, and what \<open>open\<close> answers for a path that holds a file or none. The descriptor of an
  open file is its content and its offset.
\<close>

section \<open>POSIX open\<close>

datatype access_mode = O_RDONLY | O_WRONLY | O_RDWR

record open_flags =
  of_mode :: access_mode
  of_creat :: bool
  of_excl :: bool
  of_trunc :: bool

text \<open>
  \<open>None\<close> is the answer -1: a missing file without \<open>O_CREAT\<close>, an existing one with \<open>O_CREAT | O_EXCL\<close>.
  Otherwise it is the content the file has then. Permissions suffice and the disk has room.
\<close>

definition posix_open :: "open_flags \<Rightarrow> bytes option \<Rightarrow> bytes option" where
  "posix_open flags disk =
     (case disk of
        None \<Rightarrow> if of_creat flags then Some [] else None
      | Some content \<Rightarrow> if of_creat flags \<and> of_excl flags then None
                        else Some (if of_trunc flags then [] else content))"

section \<open>File\<close>

definition O_READ :: u32 where "O_READ = 1"
definition O_WRITE :: u32 where "O_WRITE = 2"
definition O_CREATE :: u32 where "O_CREATE = 4"
definition O_CREATEOROPEN :: u32 where "O_CREATEOROPEN = 8"
definition O_APPEND :: u32 where "O_APPEND = 16"
definition O_TRUNCATE :: u32 where "O_TRUNCATE = 32"
definition O_AUTODELETE :: u32 where "O_AUTODELETE = 64"

record open_file =
  file_content :: bytes
  file_offset :: nat
  file_flags :: u32

text \<open>The result is what the path holds afterwards and the open file.\<close>

definition File_openFile :: "u32 \<Rightarrow> bytes option \<Rightarrow> (bytes option \<times> open_file) res" where
  "File_openFile flags disk =
     (let access = flags AND (O_READ OR O_WRITE)
      in res_bind (if access = O_READ then Inr O_RDONLY
                   else if access = O_WRITE then Inr O_WRONLY
                   else if access = (O_READ OR O_WRITE) then Inr O_RDWR
                   else Inl IllegalArgumentError) (\<lambda>mode.
         let createoropen = flags AND O_CREATEOROPEN \<noteq> 0;
             create = \<not> createoropen \<and> flags AND O_CREATE \<noteq> 0;
             open_flags = \<lparr>of_mode = mode, of_creat = createoropen \<or> create, of_excl = create,
                           of_trunc = (flags AND O_TRUNCATE \<noteq> 0)\<rparr>
         in case posix_open open_flags disk of
              None \<Rightarrow> Inl IOError
            | Some content \<Rightarrow>
                Inr (if flags AND O_AUTODELETE \<noteq> 0 then None else Some content,
                     \<lparr>file_content = content,
                      file_offset = (if flags AND O_APPEND \<noteq> 0 then length content else 0),
                      file_flags = flags\<rparr>)))"

lemmas file_flag_defs = O_READ_def O_WRITE_def O_CREATE_def O_CREATEOROPEN_def O_APPEND_def
  O_TRUNCATE_def O_AUTODELETE_def

text \<open>The two ways a table file is opened.\<close>

lemma openFile_read [simp]:
  "File_openFile O_READ (Some content) = Inr (Some content, \<lparr>file_content = content, file_offset = 0, file_flags = O_READ\<rparr>)"
  "File_openFile O_READ None = Inl IOError"
  by (simp_all add: File_openFile_def file_flag_defs posix_open_def)

lemma openFile_create [simp]:
  "File_openFile (O_WRITE OR O_CREATE) None =
     Inr (Some [], \<lparr>file_content = [], file_offset = 0, file_flags = O_WRITE OR O_CREATE\<rparr>)"
  "File_openFile (O_WRITE OR O_CREATE) (Some content) = Inl IOError"
  by (simp_all add: File_openFile_def file_flag_defs posix_open_def)

end
