(* ===== verification/CS_SimdComp.thy ===== *)
theory CS_SimdComp
  imports CS_Prelude
begin

text \<open>
  The bit packing of simdcomp (\<open>simdbitpacking.c\<close>, \<open>simdcomputil.c\<close>) as the bit-pack
  encoder and decoder use it: 128 integers, read as 32 vectors of four 32-bit lanes, are
  packed into \<open>bit\<close> vectors. The C code is one unrolled function per width; the loops here
  are those functions rolled up, with the width as an argument: the shift grows by the width
  and a full output (or used up input) vector is stored (or loaded) when it passes 32. The
  main lemma is that unpacking undoes packing for values that fit in the width.
\<close>

section \<open>Vectors of four lanes\<close>

datatype 'a lanes = Lanes (lane0: 'a) (lane1: 'a) (lane2: 'a) (lane3: 'a)

type_synonym m128 = "u32 lanes"

fun lane :: "nat \<Rightarrow> 'a lanes \<Rightarrow> 'a" where
  "lane k (Lanes a b c d) = [a, b, c, d] ! k"

definition mm_or :: "m128 \<Rightarrow> m128 \<Rightarrow> m128" where
  "mm_or x y = Lanes (lane0 x OR lane0 y) (lane1 x OR lane1 y) (lane2 x OR lane2 y) (lane3 x OR lane3 y)"

definition mm_slli :: "m128 \<Rightarrow> nat \<Rightarrow> m128" where
  "mm_slli x n = map_lanes (push_bit n) x"

definition mm_srli :: "m128 \<Rightarrow> nat \<Rightarrow> m128" where
  "mm_srli x n = map_lanes (drop_bit n) x"

definition mm_and_mask :: "nat \<Rightarrow> m128 \<Rightarrow> m128" where
  "mm_and_mask width x = map_lanes (\<lambda>v. v AND mask width) x"

fun vectors :: "'a list \<Rightarrow> 'a lanes list" where
  "vectors (a # b # c # d # xs) = Lanes a b c d # vectors xs"
| "vectors _ = []"

fun unvectors :: "'a lanes list \<Rightarrow> 'a list" where
  "unvectors [] = []"
| "unvectors (Lanes a b c d # xs) = a # b # c # d # unvectors xs"

section \<open>The number of bits of a value\<close>

definition builtin_clz :: "u32 \<Rightarrow> nat" where
  "builtin_clz v = length (takeWhile Not (map (bit v) (rev [0..<32])))"

definition bits :: "u32 \<Rightarrow> nat" where
  "bits v = (if v = 0 then 0 else 32 - builtin_clz v)"

section \<open>Packing and unpacking\<close>

text \<open>
  \<open>shift\<close> is the number of bits of \<open>OutReg\<close> already in use. Values are not masked: bits
  above the width spill into the neighbouring value.
\<close>

fun fastpackwithoutmask :: "nat \<Rightarrow> nat \<Rightarrow> m128 \<Rightarrow> m128 list \<Rightarrow> m128 list" where
  "fastpackwithoutmask width shift OutReg [] = []"
| "fastpackwithoutmask width shift OutReg (InReg # ins) =
     (let OutReg' = (if shift = 0 then InReg else mm_or OutReg (mm_slli InReg shift))
      in if shift + width < 32 then fastpackwithoutmask width (shift + width) OutReg' ins
         else OutReg' # fastpackwithoutmask width (shift + width - 32)
                (mm_srli InReg (width - (shift + width - 32))) ins)"

text \<open>
  \<open>n\<close> values are still to be stored; the head of the list is the loaded vector. The
  equation for the empty list is never reached: \<open>n\<close> values of \<open>width\<close> bits lie within the
  vectors that hold them.
\<close>

fun fastunpack :: "nat \<Rightarrow> nat \<Rightarrow> nat \<Rightarrow> m128 list \<Rightarrow> m128 list" where
  "fastunpack width 0 shift ins = []"
| "fastunpack width (Suc n) shift [] = []"
| "fastunpack width (Suc n) shift (InReg # ins) =
     (if shift + width < 32
      then mm_and_mask width (mm_srli InReg shift) # fastunpack width n (shift + width) (InReg # ins)
      else if shift + width = 32
      then mm_srli InReg shift # fastunpack width n 0 ins
      else (case ins of
              [] \<Rightarrow> []
            | InReg' # _ \<Rightarrow>
                mm_or (mm_srli InReg shift)
                  (mm_and_mask width (mm_slli InReg' (width - (shift + width - 32))))
                # fastunpack width n (shift + width - 32) ins))"

definition simdpackwithoutmask :: "u32 list \<Rightarrow> nat \<Rightarrow> u32 list" where
  "simdpackwithoutmask inp width =
     (if width = 0 \<or> width > 32 then []
      else unvectors (fastpackwithoutmask width 0 (Lanes 0 0 0 0) (vectors inp)))"

definition simdunpack :: "u32 list \<Rightarrow> nat \<Rightarrow> u32 list" where
  "simdunpack inp width =
     (if width = 0 then replicate 128 0
      else if width > 32 then []
      else unvectors (fastunpack width 32 0 (vectors inp)))"

section \<open>One lane\<close>

fun lane_pack :: "nat \<Rightarrow> nat \<Rightarrow> u32 \<Rightarrow> u32 list \<Rightarrow> u32 list" where
  "lane_pack b s out [] = []"
| "lane_pack b s out (v # vs) =
     (let out' = (if s = 0 then v else out OR push_bit s v)
      in if s + b < 32 then lane_pack b (s + b) out' vs
         else out' # lane_pack b (s + b - 32) (drop_bit (b - (s + b - 32)) v) vs)"

fun lane_unpack :: "nat \<Rightarrow> nat \<Rightarrow> nat \<Rightarrow> u32 list \<Rightarrow> u32 list" where
  "lane_unpack b 0 s ws = []"
| "lane_unpack b (Suc n) s [] = []"
| "lane_unpack b (Suc n) s (w # ws) =
     (if s + b < 32 then (drop_bit s w AND mask b) # lane_unpack b n (s + b) (w # ws)
      else if s + b = 32 then drop_bit s w # lane_unpack b n 0 ws
      else (case ws of
              [] \<Rightarrow> []
            | w' # _ \<Rightarrow> (drop_bit s w OR (push_bit (b - (s + b - 32)) w' AND mask b))
                        # lane_unpack b n (s + b - 32) ws))"

lemma lane_mm [simp]:
  "k < 4 \<Longrightarrow> lane k (mm_or x y) = lane k x OR lane k y"
  "k < 4 \<Longrightarrow> lane k (mm_slli x n) = push_bit n (lane k x)"
  "k < 4 \<Longrightarrow> lane k (mm_srli x n) = drop_bit n (lane k x)"
  "k < 4 \<Longrightarrow> lane k (mm_and_mask n x) = lane k x AND mask n"
  by (cases x; cases y; auto simp: mm_or_def mm_slli_def mm_srli_def mm_and_mask_def
      less_Suc_eq numeral_eq_Suc)+

lemma lanes_eqI: "(\<And>k. k < 4 \<Longrightarrow> lane k x = lane k y) \<Longrightarrow> x = y"
proof (cases x; cases y)
  fix a b c d a' b' c' d'
  assume eq: "\<And>k. k < 4 \<Longrightarrow> lane k x = lane k y" and "x = Lanes a b c d" "y = Lanes a' b' c' d'"
  then show "x = y" using eq [of 0] eq [of 1] eq [of 2] eq [of 3] by simp
qed

lemma lane_fastpack:
  "k < 4 \<Longrightarrow> map (lane k) (fastpackwithoutmask b s out ins) = lane_pack b s (lane k out) (map (lane k) ins)"
  by (induction b s out ins rule: fastpackwithoutmask.induct) (simp_all add: Let_def)

lemma lane_fastunpack:
  "k < 4 \<Longrightarrow> map (lane k) (fastunpack b n s ins) = lane_unpack b n s (map (lane k) ins)"
  by (induction b n s ins rule: fastunpack.induct) (auto split: list.splits)

lemma length_lane_pack:
  "0 < b \<Longrightarrow> b \<le> 32 \<Longrightarrow> s < 32 \<Longrightarrow> length (lane_pack b s out vs) = (s + b * length vs) div 32"
proof (induction b s out vs rule: lane_pack.induct)
  case (2 b s out v vs)
  show ?case
  proof (cases "s + b < 32")
    case True
    with 2 show ?thesis by (simp add: Let_def algebra_simps)
  next
    case False
    with 2 have "length (lane_pack b s out (v # vs)) = Suc ((s + b - 32 + b * length vs) div 32)"
      by (simp add: Let_def)
    also have "\<dots> = (32 + (s + b - 32 + b * length vs)) div 32" by simp
    also have "32 + (s + b - 32 + b * length vs) = s + b * length (v # vs)"
      using False by (simp add: algebra_simps)
    finally show ?thesis .
  qed
qed simp

lemma lane_pack_low:
  assumes "s < 32" and "0 < b" and "b \<le> 32" and "lane_pack b s out vs \<noteq> []"
  shows "take_bit s (hd (lane_pack b s out vs)) = take_bit s out"
  using assms
proof (induction b s out vs rule: lane_pack.induct)
  case (2 b s out v vs)
  let ?out = "if s = 0 then v else out OR push_bit s v"
  have low: "take_bit s ?out = take_bit s out"
    by (rule bit_word_eqI) (auto simp: bit_simps)
  show ?case
  proof (cases "s + b < 32")
    case True
    with 2 have "take_bit (s + b) (hd (lane_pack b (s + b) ?out vs)) = take_bit (s + b) ?out"
      by (simp add: Let_def)
    then have "take_bit s (take_bit (s + b) (hd (lane_pack b (s + b) ?out vs))) =
        take_bit s (take_bit (s + b) ?out)" by simp
    with True low show ?thesis by (simp add: Let_def min_def)
  next
    case False
    with low show ?thesis by (simp add: Let_def)
  qed
qed simp

lemma word_less_take_bit: "unat (w :: u32) < 2 ^ n \<longleftrightarrow> take_bit n w = w"
proof -
  have "take_bit n w = w \<longleftrightarrow> take_bit n (unat w) = unat w"
    by (metis unsigned_take_bit_eq word_unat_eq_iff)
  then show ?thesis by (simp add: take_bit_nat_eq_self_iff)
qed

lemma take_bit_bit_False: "take_bit n (w :: u32) = w \<Longrightarrow> n \<le> k \<Longrightarrow> \<not> bit w k"
  by (metis bit_take_bit_iff leD)

lemma lane_unpack_pack:
  assumes "0 < b" and "b \<le> 32" and "s < 32" and "s = 0 \<or> take_bit s out = out"
    and "\<forall>v \<in> set vs. take_bit b v = v" and "(s + b * length vs) mod 32 = 0"
  shows "lane_unpack b (length vs) s (lane_pack b s out vs) = vs"
  using assms
proof (induction b s out vs rule: lane_pack.induct)
  case (2 b s out v vs)
  let ?out = "if s = 0 then v else out OR push_bit s v"
  have v: "take_bit b v = v" and vs: "\<forall>v \<in> set vs. take_bit b v = v" using "2.prems" by simp_all
  have out_high: "\<not> bit ?out k" if "s + b \<le> k" for k
    using that "2.prems"(4) take_bit_bit_False [OF v] take_bit_bit_False [of s out]
    by (auto simp: bit_simps)
  have out_mid: "bit ?out (k + s) \<longleftrightarrow> bit v k" if "k + s < 32" for k
    using that "2.prems"(4) take_bit_bit_False [of s out] by (auto simp: bit_simps)
  consider (lt) "s + b < 32" | (eq) "s + b = 32" | (gt) "32 < s + b" by linarith
  then show ?case
  proof cases
    case lt
    let ?P = "lane_pack b (s + b) ?out vs"
    have mod: "(s + b + b * length vs) mod 32 = 0" using "2.prems"(6) by (simp add: algebra_simps)
    have "length ?P = (s + b + b * length vs) div 32"
      using "2.prems" lt by (simp add: length_lane_pack)
    moreover have "0 < (s + b + b * length vs) div 32"
      using mod "2.prems"(1) by (simp add: div_greater_zero_iff) (use gr0I mod_less in fastforce)
    ultimately obtain w ws where P: "?P = w # ws" by (cases ?P) auto
    have "take_bit (s + b) w = take_bit (s + b) ?out"
      using lane_pack_low [of "s + b" b ?out vs] P lt "2.prems" by simp
    then have w: "bit w k \<longleftrightarrow> bit ?out k" if "k < s + b" for k
      using that by (metis bit_take_bit_iff)
    have "drop_bit s w AND mask b = v"
    proof (rule bit_word_eqI)
      fix k assume "k < LENGTH(32)"
      then show "bit (drop_bit s w AND mask b) k \<longleftrightarrow> bit v k"
        using w [of "k + s"] out_mid [of k] take_bit_bit_False [OF v, of k] lt
        by (cases "k < b") (auto simp: bit_simps add.commute)
    qed
    moreover have "lane_unpack b (length vs) (s + b) ?P = vs"
    proof -
      have "take_bit (s + b) ?out = ?out"
        by (rule bit_word_eqI) (metis bit_take_bit_iff not_le out_high)
      with "2.IH"(1) [OF refl lt] "2.prems" lt vs mod show ?thesis by simp
    qed
    ultimately show ?thesis using lt P by (simp add: Let_def)
  next
    case eq
    let ?P = "lane_pack b 0 (drop_bit b v) vs"
    have "drop_bit s ?out = v"
    proof (rule bit_word_eqI)
      fix k assume "k < LENGTH(32)"
      have "bit (drop_bit s ?out) k \<longleftrightarrow> bit ?out (k + s)"
        by (simp only: bit_drop_bit_eq o_apply add.commute)
      also have "\<dots> \<longleftrightarrow> bit v k"
      proof (cases "k < b")
        case True
        with eq show ?thesis by (intro out_mid) simp
      next
        case False
        with eq out_high [of "k + s"] take_bit_bit_False [OF v, of k] show ?thesis by simp
      qed
      finally show "bit (drop_bit s ?out) k \<longleftrightarrow> bit v k" .
    qed
    moreover have "lane_unpack b (length vs) 0 ?P = vs"
    proof -
      have "b * length vs mod 32 = 0"
      proof -
        have "s + b * length (v # vs) = 32 + b * length vs" using eq by (simp add: algebra_simps)
        with "2.prems"(6) have "(32 + b * length vs) mod 32 = 0" by (simp only:)
        then show ?thesis by simp
      qed
      with "2.IH"(2) [OF refl] eq "2.prems" vs show ?thesis by simp
    qed
    ultimately show ?thesis using eq by (simp add: Let_def)
  next
    case gt
    define s' where "s' = s + b - 32"
    have s': "s' < 32" "0 < s'" "b - s' = 32 - s" "s' \<le> b" "b = s' + (32 - s)"
      using gt "2.prems" by (auto simp: s'_def)
    let ?out' = "drop_bit (32 - s) v"
    let ?P = "lane_pack b s' ?out' vs"
    have out': "take_bit s' ?out' = ?out'"
    proof (rule bit_word_eqI)
      fix n show "bit (take_bit s' ?out') n \<longleftrightarrow> bit ?out' n"
        using take_bit_bit_False [OF v, of "32 - s + n"] s'
        by (cases "n < s'") (auto simp: bit_simps)
    qed
    have tot: "32 + (s' + b * length vs) = s + b * length (v # vs)"
      using gt by (simp add: s'_def algebra_simps)
    have mod: "(s' + b * length vs) mod 32 = 0"
    proof -
      from "2.prems"(6) have "(32 + (s' + b * length vs)) mod 32 = 0" by (simp only: tot)
      then show ?thesis by simp
    qed
    have "length ?P = (s' + b * length vs) div 32"
      using "2.prems" s' by (simp add: length_lane_pack)
    moreover have "0 < (s' + b * length vs) div 32"
      using mod s' by (simp add: div_greater_zero_iff) (use gr0I mod_less in fastforce)
    ultimately obtain w ws where P: "?P = w # ws" by (cases ?P) auto
    have "take_bit s' w = ?out'"
      using lane_pack_low [of s' b ?out' vs] P s' "2.prems" out' by simp
    then have w: "bit w k \<longleftrightarrow> bit ?out' k" if "k < s'" for k
      using that by (metis bit_take_bit_iff)
    have "drop_bit s ?out OR (push_bit (32 - s) w AND mask b) = v"
    proof (rule bit_word_eqI)
      fix k assume k: "k < LENGTH(32)"
      show "bit (drop_bit s ?out OR (push_bit (32 - s) w AND mask b)) k \<longleftrightarrow> bit v k"
      proof (cases "k + s < 32")
        case True
        then have "\<not> 32 - s \<le> k" using "2.prems"(3) by linarith
        with True out_mid [of k] show ?thesis by (simp add: bit_simps add.commute)
      next
        case False
        then have "\<not> bit ?out (s + k)" by (simp add: bit_word.rep_eq impossible_bit)
        with False k s' w [of "k - (32 - s)"] take_bit_bit_False [OF v, of k] show ?thesis
          by (cases "k < b") (auto simp: bit_simps add.commute)
      qed
    qed
    moreover have "lane_unpack b (length vs) s' ?P = vs"
      using "2.IH"(2) [OF refl] gt "2.prems" vs mod out' s' by (simp add: s'_def [symmetric])
    moreover have "s + b - 32 = s'" by (simp add: s'_def)
    ultimately show ?thesis
      using gt P s'(3) by (simp add: Let_def)
  qed
qed simp

section \<open>A block of 128 values\<close>

lemma lane_lanes [simp]:
  "lane 0 (Lanes a b c d) = a" "lane (Suc 0) (Lanes a b c d) = b"
  "lane 2 (Lanes a b c d) = c" "lane 3 (Lanes a b c d) = d"
  by simp_all

lemma vectors_unvectors [simp]: "vectors (unvectors ls) = ls"
  by (induction ls rule: unvectors.induct) simp_all

lemma unvectors_vectors: "4 dvd length xs \<Longrightarrow> unvectors (vectors xs) = xs"
proof (induction xs rule: vectors.induct)
  case (1 a b c d xs)
  then have "4 dvd length xs" by (simp, presburger)
  with "1.IH" show ?case by simp
qed (simp_all, presburger+)

lemma length_vectors: "length (vectors xs) = length xs div 4"
  by (induction xs rule: vectors.induct) simp_all

lemma length_unvectors [simp]: "length (unvectors ls) = 4 * length ls"
  by (induction ls rule: unvectors.induct) simp_all

lemma set_vectors: "l \<in> set (vectors xs) \<Longrightarrow> k < 4 \<Longrightarrow> lane k l \<in> set xs"
  by (induction xs rule: vectors.induct) (auto simp: less_Suc_eq numeral_eq_Suc)

lemma lanes_list_eqI:
  assumes "\<And>k. k < 4 \<Longrightarrow> map (lane k) ls = map (lane k) ms"
  shows "ls = ms"
proof (rule nth_equalityI)
  show len: "length ls = length ms"
    using assms [of 0] by (metis length_map zero_less_numeral)
  fix i assume i: "i < length ls"
  show "ls ! i = ms ! i"
  proof (rule lanes_eqI)
    fix k :: nat assume "k < 4"
    then have "map (lane k) ls ! i = map (lane k) ms ! i" by (simp only: assms)
    with i len show "lane k (ls ! i) = lane k (ms ! i)" by simp
  qed
qed

lemma fastunpack_pack:
  assumes "0 < b" and "b \<le> 32" and "length ins = 32" and "\<forall>l \<in> set ins. \<forall>k < 4. take_bit b (lane k l) = lane k l"
  shows "fastunpack b 32 0 (fastpackwithoutmask b 0 out ins) = ins"
proof (rule lanes_list_eqI)
  fix k :: nat assume k: "k < 4"
  have "lane_unpack b (length (map (lane k) ins)) 0 (lane_pack b 0 (lane k out) (map (lane k) ins)) =
      map (lane k) ins"
    using assms k by (intro lane_unpack_pack) auto
  with k assms(3) show "map (lane k) (fastunpack b 32 0 (fastpackwithoutmask b 0 out ins)) = map (lane k) ins"
    by (simp add: lane_fastunpack lane_fastpack)
qed

lemma length_fastpack:
  assumes "0 < b" and "b \<le> 32" and "length ins = 32"
  shows "length (fastpackwithoutmask b 0 out ins) = b"
proof -
  have "length (fastpackwithoutmask b 0 out ins) = length (lane_pack b 0 (lane 0 out) (map (lane 0) ins))"
    by (simp flip: lane_fastpack)
  with assms show ?thesis by (simp add: length_lane_pack)
qed

lemma length_simdpack:
  "b \<le> 32 \<Longrightarrow> length inp = 128 \<Longrightarrow> length (simdpackwithoutmask inp b) = 4 * b"
  by (simp add: simdpackwithoutmask_def length_fastpack length_vectors)

lemma simdunpack_simdpack:
  assumes "0 < b" and "b \<le> 32" and "length inp = 128" and "\<forall>v \<in> set inp. take_bit b v = v"
  shows "simdunpack (simdpackwithoutmask inp b) b = inp"
proof -
  have "fastunpack b 32 0 (fastpackwithoutmask b 0 (Lanes 0 0 0 0) (vectors inp)) = vectors inp"
    using assms set_vectors by (intro fastunpack_pack) (auto simp: length_vectors)
  with assms show ?thesis
    by (simp add: simdunpack_def simdpackwithoutmask_def unvectors_vectors)
qed

section \<open>Values up to a maximum fit in its number of bits\<close>

lemma builtin_clz_high:
  assumes "32 - builtin_clz v \<le> k"
  shows "\<not> bit v k"
proof (cases "k < 32")
  case True
  let ?bs = "map (bit v) (rev [0..<32])"
  have "31 - k < length (takeWhile Not ?bs)" using assms True by (simp add: builtin_clz_def)
  then have "\<not> takeWhile Not ?bs ! (31 - k)"
    using set_takeWhileD nth_mem by metis
  with \<open>31 - k < length (takeWhile Not ?bs)\<close> have "\<not> ?bs ! (31 - k)"
    using takeWhile_nth [of "31 - k" Not ?bs] by simp
  with True show ?thesis by (simp add: rev_nth)
qed (simp add: bit_word.rep_eq impossible_bit)

lemma bits_le_32 [simp]: "bits v \<le> 32"
  by (simp add: bits_def)

lemma bits_eq_0_iff: "bits v = 0 \<longleftrightarrow> v = 0"
proof
  assume "bits v = 0"
  then show "v = 0"
    by (intro bit_word_eqI) (use builtin_clz_high [of v] in \<open>auto simp: bits_def split: if_splits\<close>)
qed (simp add: bits_def)

lemma take_bit_bits: "take_bit (bits v) v = v"
proof (rule bit_word_eqI)
  fix k assume "k < LENGTH(32)"
  show "bit (take_bit (bits v) v) k \<longleftrightarrow> bit v k"
    using builtin_clz_high [of v k]
    by (cases "v = 0"; cases "32 - builtin_clz v \<le> k") (auto simp: bit_simps bits_def)
qed

lemma fits_bits:
  assumes "v \<le> m"
  shows "take_bit (bits m) v = v"
proof -
  have "unat m < 2 ^ bits m" using take_bit_bits by (simp add: word_less_take_bit)
  with assms have "unat v < 2 ^ bits m" by (simp add: word_le_nat_alt)
  then show ?thesis by (simp add: word_less_take_bit)
qed

end
