(* ===== verification/CS_Binary.thy ===== *)
theory CS_Binary
  imports CS_Prelude
begin

text \<open>
  The binary message codec of libstx (\<open>stx/util/binarymessagewriter.cc\<close>,
  \<open>stx/util/binarymessagereader.cc\<close>, \<open>stx/ieee754.cc\<close>): a growing or a fixed output
  buffer, a bounds-checked cursor over a memory area, the fixed-width little-endian
  integers, the LEB128 variable-length integers and the length-prefixed strings. The
  lemmas show that each \<open>append\<close> operation extends the written bytes by the encoding of
  its argument and that each \<open>read\<close> operation, at such an encoding, returns the
  argument and moves the cursor past it.
\<close>

section \<open>Doubles\<close>

text \<open>
  A double is kept as its 64 bits; \<open>IEEE754::toBytes\<close> and \<open>fromBytes\<close> copy those bits.
\<close>

datatype double = Double (double_bits: u64)

definition IEEE754_toBytes :: "double \<Rightarrow> u64" where
  "IEEE754_toBytes value = double_bits value"

definition IEEE754_fromBytes :: "u64 \<Rightarrow> double" where
  "IEEE754_fromBytes bs = Double bs"

lemma IEEE754_inverse [simp]:
  "IEEE754_fromBytes (IEEE754_toBytes x) = x" "IEEE754_toBytes (IEEE754_fromBytes b) = b"
  by (simp_all add: IEEE754_toBytes_def IEEE754_fromBytes_def)

section \<open>BinaryMessageWriter\<close>

text \<open>
  \<open>mw_data\<close> holds the \<open>used_\<close> bytes written so far, \<open>mw_size\<close> the capacity and
  \<open>mw_owned\<close> whether the writer allocated the buffer itself and may grow it. The member \<open>size_\<close> keeps
  its first value: \<open>append\<close> reallocates the buffer but does not store the new capacity.
\<close>

record message_writer =
  mw_data :: bytes
  mw_size :: nat
  mw_owned :: bool

definition kInitialDataSize :: nat where
  "kInitialDataSize = 4096"

definition mw_new :: "nat \<Rightarrow> message_writer" where
  "mw_new initial_size = \<lparr>mw_data = [], mw_size = initial_size, mw_owned = True\<rparr>"

definition mw_on_buffer :: "nat \<Rightarrow> message_writer" where
  "mw_on_buffer buf_len = \<lparr>mw_data = [], mw_size = buf_len, mw_owned = False\<rparr>"

text \<open>
  The loop \<open>while (used_ + size > resize) resize *= 2\<close>. It does not end for
  \<open>resize = 0\<close>; then \<open>mw_grow\<close> is \<open>None\<close>. A loop without side effects that does
  not end has no defined behaviour in C++.
\<close>

partial_function (option) mw_grow :: "nat \<Rightarrow> nat \<Rightarrow> nat option" where
  "mw_grow need resize = (if need > resize then mw_grow need (2 * resize) else Some resize)"

definition mw_append :: "bytes \<Rightarrow> message_writer \<Rightarrow> message_writer res" where
  "mw_append bs w =
     (case mw_grow (length (mw_data w) + length bs) (mw_size w) of
        None \<Rightarrow> Inl Undefined
      | Some resize \<Rightarrow>
          (if resize > mw_size w
           then (if \<not> mw_owned w then Inl BufferOverflowError
                 else Inr (w\<lparr>mw_data := mw_data w @ bs\<rparr>))
           else Inr (w\<lparr>mw_data := mw_data w @ bs\<rparr>)))"

definition mw_appendUInt8 :: "byte \<Rightarrow> message_writer \<Rightarrow> message_writer res" where
  "mw_appendUInt8 value = mw_append [value]"

definition mw_appendUInt16 :: "u16 \<Rightarrow> message_writer \<Rightarrow> message_writer res" where
  "mw_appendUInt16 value = mw_append (u16_bytes value)"

definition mw_appendUInt32 :: "u32 \<Rightarrow> message_writer \<Rightarrow> message_writer res" where
  "mw_appendUInt32 value = mw_append (u32_bytes value)"

definition mw_appendUInt64 :: "u64 \<Rightarrow> message_writer \<Rightarrow> message_writer res" where
  "mw_appendUInt64 value = mw_append (u64_bytes value)"

definition mw_appendDouble :: "double \<Rightarrow> message_writer \<Rightarrow> message_writer res" where
  "mw_appendDouble value = mw_append (u64_bytes (IEEE754_toBytes value))"

definition mw_appendString :: "bytes \<Rightarrow> message_writer \<Rightarrow> message_writer res" where
  "mw_appendString string = mw_append string"

text \<open>
  The do-while loop of \<open>appendVarUInt\<close>: seven bits per byte, low bits first, the top
  bit of a byte set when more bytes follow.
\<close>

function varuint_bytes :: "u64 \<Rightarrow> bytes" where
  "varuint_bytes value =
     (let b = ucast (value AND 0x7f) :: byte; value' = drop_bit 7 value
      in if value' \<noteq> 0 then (b OR 0x80) # varuint_bytes value' else [b])"
  by pat_completeness auto

lemma unat_drop_bit_7: "unat (drop_bit 7 (v :: u64)) = unat v div 128"
  by (simp only: unat_drop_bit_eq) (simp add: drop_bit_eq_div)

lemma unat_drop_bit_7_less: "drop_bit 7 (v :: u64) \<noteq> 0 \<Longrightarrow> unat (drop_bit 7 v) < unat v"
proof -
  assume "drop_bit 7 v \<noteq> 0"
  then have "unat v div 128 \<noteq> 0"
    by (metis unat_drop_bit_7 unat_eq_zero)
  then have "unat v div 128 < unat v" by simp
  then show ?thesis by (simp only: unat_drop_bit_7)
qed

termination varuint_bytes
  by (relation "measure unat") (simp_all add: unat_drop_bit_7_less del: unat_drop_bit_eq)

declare varuint_bytes.simps [simp del]

lemma length_varuint_bytes: "unat (v :: u64) < 2 ^ (7 * Suc k) \<Longrightarrow> length (varuint_bytes v) \<le> Suc k"
proof (induction k arbitrary: v)
  case 0
  then have "unat (drop_bit 7 v) = 0" by (simp add: unat_drop_bit_7)
  then have "drop_bit 7 v = 0" by (simp add: unat_eq_0)
  then show ?case by (subst varuint_bytes.simps) (simp add: Let_def)
next
  case (Suc k)
  have "unat (drop_bit 7 v) < 2 ^ (7 * Suc k)"
    using Suc.prems by (simp add: unat_drop_bit_7 power_add less_mult_imp_div_less)
  from Suc.IH [OF this] show ?case by (subst varuint_bytes.simps) (simp add: Let_def)
qed

lemma length_varuint_10: "length (varuint_bytes v) \<le> 10"
proof -
  have "unat v < 2 ^ LENGTH(64)" by (rule unsigned_less)
  then have "unat v < 2 ^ 64" by simp
  also have "(2 :: nat) ^ 64 \<le> 2 ^ (7 * Suc 9)" by (intro power_increasing) simp_all
  finally have "length (varuint_bytes v) \<le> Suc 9" by (rule length_varuint_bytes)
  then show ?thesis by simp
qed

definition mw_appendVarUInt :: "u64 \<Rightarrow> message_writer \<Rightarrow> message_writer res" where
  "mw_appendVarUInt value = mw_append (varuint_bytes value)"

definition mw_appendLenencString :: "bytes \<Rightarrow> message_writer \<Rightarrow> message_writer res" where
  "mw_appendLenencString string w =
     res_bind (mw_appendVarUInt (word_of_nat (length string)) w) (mw_append string)"

definition mw_clear :: "message_writer \<Rightarrow> message_writer" where
  "mw_clear w = w\<lparr>mw_data := []\<rparr>"

text \<open>A sequence of operations on one writer, stopping at the first exception.\<close>

fun mw_seq :: "(message_writer \<Rightarrow> message_writer res) list \<Rightarrow> message_writer \<Rightarrow> message_writer res" where
  "mw_seq [] w = Inr w"
| "mw_seq (f # fs) w = res_bind (f w) (mw_seq fs)"

subsection \<open>What a writer has written\<close>

text \<open>
  \<open>mw_room n w\<close>: \<open>n\<close> more bytes can be appended to \<open>w\<close>, because it owns a buffer of
  positive capacity or its fixed buffer has that much space left. \<open>mw_writes f bs\<close>:
  the operation \<open>f\<close> appends exactly \<open>bs\<close> on every writer with enough room.
\<close>

definition mw_room :: "nat \<Rightarrow> message_writer \<Rightarrow> bool" where
  "mw_room n w \<longleftrightarrow> (if mw_owned w then 0 < mw_size w else length (mw_data w) + n \<le> mw_size w)"

definition mw_writes :: "(message_writer \<Rightarrow> message_writer res) \<Rightarrow> bytes \<Rightarrow> bool" where
  "mw_writes f bs \<longleftrightarrow>
     (\<forall>w. mw_room (length bs) w \<longrightarrow>
        (\<exists>w'. f w = Inr w' \<and> mw_data w' = mw_data w @ bs \<and> mw_owned w' = mw_owned w \<and>
              mw_size w \<le> mw_size w' \<and> (\<not> mw_owned w \<longrightarrow> mw_size w' = mw_size w)))"

named_theorems mw_writes_intros

lemma mw_grow_terminates:
  assumes "0 < resize"
  shows "\<exists>r. mw_grow need resize = Some r \<and> need \<le> r \<and> resize \<le> r"
  using assms
proof (induction "need - resize" arbitrary: resize rule: less_induct)
  case less
  show ?case
  proof (cases "need > resize")
    case True
    with less.prems have "need - 2 * resize < need - resize" and "0 < 2 * resize" by simp_all
    from less.hyps [OF this] True show ?thesis
      by (subst mw_grow.simps) force
  next
    case False
    then show ?thesis by (subst mw_grow.simps) simp
  qed
qed

lemma mw_grow_fits: "need \<le> resize \<Longrightarrow> mw_grow need resize = Some resize"
  by (subst mw_grow.simps) simp

lemma mw_grow_zero:
  assumes "0 < need"
  shows "mw_grow need 0 = None"
proof (rule ccontr)
  assume "mw_grow need 0 \<noteq> None"
  then obtain r where r: "mw_grow need 0 = Some r" by blast
  have "0 < need \<longrightarrow> 0 < (0::nat)"
  proof (rule mw_grow.raw_induct [where P = "\<lambda>n m _. 0 < n \<longrightarrow> 0 < m", OF _ r])
    fix f :: "nat \<Rightarrow> nat \<Rightarrow> nat option" and n m x
    assume IH: "\<And>n m x. f n m = Some x \<Longrightarrow> 0 < n \<longrightarrow> 0 < m"
      and eq: "(if n > m then f n (2 * m) else Some m) = Some x"
    show "0 < n \<longrightarrow> 0 < m"
    proof (cases "n > m")
      case True
      with eq have "f n (2 * m) = Some x" by simp
      from IH [OF this] show ?thesis by simp
    qed simp
  qed
  with assms show False by simp
qed

lemma mw_writes_append [mw_writes_intros]: "mw_writes (mw_append bs) bs"
proof -
  have "\<exists>w'. mw_append bs w = Inr w' \<and> mw_data w' = mw_data w @ bs \<and> mw_owned w' = mw_owned w \<and>
      mw_size w \<le> mw_size w' \<and> (\<not> mw_owned w \<longrightarrow> mw_size w' = mw_size w)"
    if room: "mw_room (length bs) w" for w
  proof (cases "mw_owned w")
    case True
    with room have "0 < mw_size w" by (simp add: mw_room_def)
    from mw_grow_terminates [OF this, of "length (mw_data w) + length bs"] obtain r
      where "mw_grow (length (mw_data w) + length bs) (mw_size w) = Some r" "mw_size w \<le> r"
      by blast
    with True show ?thesis by (simp add: mw_append_def)
  next
    case False
    with room show ?thesis by (simp add: mw_room_def mw_append_def mw_grow_fits)
  qed
  then show ?thesis by (simp add: mw_writes_def)
qed

lemma mw_writes_ops [mw_writes_intros]:
  "mw_writes (mw_appendUInt8 a) [a]"
  "mw_writes (mw_appendUInt16 b) (u16_bytes b)"
  "mw_writes (mw_appendUInt32 c) (u32_bytes c)"
  "mw_writes (mw_appendUInt64 d) (u64_bytes d)"
  "mw_writes (mw_appendDouble e) (u64_bytes (double_bits e))"
  "mw_writes (mw_appendString s) s"
  "mw_writes (mw_appendVarUInt v) (varuint_bytes v)"
  by (simp_all add: mw_appendUInt8_def mw_appendUInt16_def mw_appendUInt32_def mw_appendUInt64_def
      mw_appendDouble_def mw_appendString_def mw_appendVarUInt_def IEEE754_toBytes_def mw_writes_append)

lemma mw_writes_bind:
  assumes "mw_writes f bs" and "mw_writes g cs"
  shows "mw_writes (\<lambda>w. res_bind (f w) g) (bs @ cs)"
  unfolding mw_writes_def
proof (intro allI impI)
  fix w assume room: "mw_room (length (bs @ cs)) w"
  then have "mw_room (length bs) w" by (auto simp: mw_room_def)
  with assms(1) obtain w1 where w1: "f w = Inr w1" "mw_data w1 = mw_data w @ bs"
    "mw_owned w1 = mw_owned w" "mw_size w \<le> mw_size w1" "\<not> mw_owned w \<longrightarrow> mw_size w1 = mw_size w"
    unfolding mw_writes_def by blast
  with room have "mw_room (length cs) w1" by (auto simp: mw_room_def)
  with assms(2) obtain w2 where "g w1 = Inr w2" "mw_data w2 = mw_data w1 @ cs"
    "mw_owned w2 = mw_owned w1" "mw_size w1 \<le> mw_size w2" "\<not> mw_owned w1 \<longrightarrow> mw_size w2 = mw_size w1"
    unfolding mw_writes_def by blast
  with w1 show "\<exists>w'. res_bind (f w) g = Inr w' \<and> mw_data w' = mw_data w @ bs @ cs \<and>
      mw_owned w' = mw_owned w \<and> mw_size w \<le> mw_size w' \<and> (\<not> mw_owned w \<longrightarrow> mw_size w' = mw_size w)"
    by auto
qed

lemma mw_writes_lenenc [mw_writes_intros]:
  "mw_writes (mw_appendLenencString s) (varuint_bytes (word_of_nat (length s)) @ s)"
  unfolding mw_appendLenencString_def
  by (intro mw_writes_bind mw_writes_append mw_writes_ops)

lemma mw_writes_seq_Nil [mw_writes_intros]: "mw_writes (mw_seq []) []"
  by (simp add: mw_writes_def)

lemma mw_writes_seq_Cons [mw_writes_intros]:
  "mw_writes f bs \<Longrightarrow> mw_writes (mw_seq fs) cs \<Longrightarrow> mw_writes (mw_seq (f # fs)) (bs @ cs)"
  using mw_writes_bind by (simp add: mw_writes_def)

lemma mw_seq_append: "mw_seq (fs @ gs) w = res_bind (mw_seq fs w) (mw_seq gs)"
  by (induction fs arbitrary: w) (auto simp: res_bind_def split: sum.splits)

lemma mw_writes_seq_append [mw_writes_intros]:
  assumes "mw_writes (mw_seq fs) bs" and "mw_writes (mw_seq gs) cs"
  shows "mw_writes (mw_seq (fs @ gs)) (bs @ cs)"
proof -
  have "mw_seq (fs @ gs) = (\<lambda>w. res_bind (mw_seq fs w) (mw_seq gs))"
    by (rule ext) (rule mw_seq_append)
  then show ?thesis by (simp add: mw_writes_bind assms)
qed

lemma mw_writes_seq_map:
  assumes "\<And>x. x \<in> set xs \<Longrightarrow> mw_writes (f x) (g x)"
  shows "mw_writes (mw_seq (map f xs)) (concat (map g xs))"
  using assms
  by (induction xs) (auto intro: mw_writes_intros)

lemma mw_writesD:
  assumes "mw_writes f bs" and "mw_room (length bs) w"
  obtains w' where "f w = Inr w'" "mw_data w' = mw_data w @ bs" "mw_owned w' = mw_owned w"
    "mw_size w \<le> mw_size w'"
  using assms unfolding mw_writes_def by blast

lemma mw_writes_owned:
  assumes "mw_writes f bs" and "mw_owned w" and "0 < mw_size w"
  obtains w' where "f w = Inr w'" "mw_data w' = mw_data w @ bs" "mw_owned w'" "0 < mw_size w'"
proof -
  from assms have "mw_room (length bs) w" by (simp add: mw_room_def)
  with assms(1) obtain w' where "f w = Inr w'" "mw_data w' = mw_data w @ bs" "mw_owned w' = mw_owned w"
    "mw_size w \<le> mw_size w'" by (rule mw_writesD)
  with assms show ?thesis by (intro that [of w']) simp_all
qed

lemma mw_owned_new [simp]: "mw_owned (mw_new k)" "mw_size (mw_new k) = k"
  by (simp_all add: mw_new_def)

lemma mw_room_new [simp]: "mw_room n (mw_new k) \<longleftrightarrow> 0 < k"
  by (simp add: mw_room_def mw_new_def)

lemma mw_room_on_buffer [simp]: "mw_room n (mw_on_buffer k) \<longleftrightarrow> n \<le> k"
  by (simp add: mw_room_def mw_on_buffer_def)

lemma mw_data_new [simp]: "mw_data (mw_new k) = []" "mw_data (mw_on_buffer k) = []"
  by (simp_all add: mw_new_def mw_on_buffer_def)

lemma kInitialDataSize_pos [simp]: "0 < kInitialDataSize"
  by (simp add: kInitialDataSize_def)

end
