(* ===== verification/CS_Reader.thy ===== *)
theory CS_Reader
  imports CS_Binary
begin

text \<open>
  \<open>BinaryMessageReader\<close> (\<open>stx/util/binarymessagereader.cc\<close>) and the decoding loop of the
  LEB128 integers, which the reader shares with the input streams. A reader is a cursor
  over a memory area. The lemmas give the exact outcome of every read: the bytes at the
  cursor, the exception at the end of the area, and the two cases in which the code has no
  defined behaviour.
\<close>

section \<open>BinaryMessageReader\<close>

text \<open>
  \<open>mr_mem\<close> is the memory from \<open>ptr_\<close> to the end of its allocation, \<open>mr_size\<close> the size
  the reader was told, \<open>mr_pos\<close> the cursor. The guard \<open>pos_ + size > size_\<close> is
  evaluated in 64 bits, so the sum may wrap; a read that passes it and leaves the
  allocation is undefined.
\<close>

record message_reader =
  mr_mem :: bytes
  mr_size :: nat
  mr_pos :: nat

definition mr_open :: "bytes \<Rightarrow> nat \<Rightarrow> message_reader" where
  "mr_open mem n = \<lparr>mr_mem = mem, mr_size = n, mr_pos = 0\<rparr>"

definition mr_readString :: "nat \<Rightarrow> message_reader \<Rightarrow> (bytes \<times> message_reader) res" where
  "mr_readString n r =
     (if (mr_pos r + n) mod 2 ^ 64 > mr_size r then Inl BufferOverflowError
      else if mr_pos r + n > length (mr_mem r) then Inl Undefined
      else Inr (take n (drop (mr_pos r) (mr_mem r)), r\<lparr>mr_pos := mr_pos r + n\<rparr>))"

definition mr_read :: "nat \<Rightarrow> message_reader \<Rightarrow> (bytes \<times> message_reader) res" where
  "mr_read n = mr_readString n"

definition mr_readUInt8 :: "message_reader \<Rightarrow> (byte \<times> message_reader) res" where
  "mr_readUInt8 = act_bind (mr_read 1) (\<lambda>bs. act_return (hd bs))"

definition mr_readUInt16 :: "message_reader \<Rightarrow> (u16 \<times> message_reader) res" where
  "mr_readUInt16 = act_bind (mr_read 2) (\<lambda>bs. act_return (bytes_u16 bs))"

definition mr_readUInt32 :: "message_reader \<Rightarrow> (u32 \<times> message_reader) res" where
  "mr_readUInt32 = act_bind (mr_read 4) (\<lambda>bs. act_return (bytes_u32 bs))"

definition mr_readUInt64 :: "message_reader \<Rightarrow> (u64 \<times> message_reader) res" where
  "mr_readUInt64 = act_bind (mr_read 8) (\<lambda>bs. act_return (bytes_u64 bs))"

definition mr_readDouble :: "message_reader \<Rightarrow> (double \<times> message_reader) res" where
  "mr_readDouble = act_bind (mr_read 8) (\<lambda>bs. act_return (IEEE754_fromBytes (bytes_u64 bs)))"

text \<open>
  The loop of \<open>readVarUInt\<close> over a source of single bytes. The shift
  \<open>(b \<and> 0x7f) << (7 * i)\<close> of a 64-bit value is undefined for \<open>7 * i \<ge> 64\<close>, that is
  from the eleventh byte on.
\<close>

function varuint_loop ::
  "('s \<Rightarrow> (byte \<times> 's) res) \<Rightarrow> nat \<Rightarrow> u64 \<Rightarrow> 's \<Rightarrow> (u64 \<times> 's) res" where
  "varuint_loop next i val s =
     act_bind next (\<lambda>b s'.
       if 7 * i \<ge> 64 then Inl Undefined
       else let val' = val OR push_bit (7 * i) (ucast (b AND 0x7f))
            in if b AND 0x80 = 0 then Inr (val', s') else varuint_loop next (i + 1) val' s') s"
  by pat_completeness auto
termination by (relation "measure (\<lambda>(_, i, _, _). 10 - i)") auto

declare varuint_loop.simps [simp del]

definition mr_readVarUInt :: "message_reader \<Rightarrow> (u64 \<times> message_reader) res" where
  "mr_readVarUInt = varuint_loop mr_readUInt8 0 0"

definition mr_readLenencString :: "message_reader \<Rightarrow> (bytes \<times> message_reader) res" where
  "mr_readLenencString = act_bind mr_readVarUInt (\<lambda>len. mr_read (unat len))"

definition mr_rewind :: "message_reader \<Rightarrow> message_reader" where
  "mr_rewind r = r\<lparr>mr_pos := 0\<rparr>"

definition mr_seekTo :: "nat \<Rightarrow> message_reader \<Rightarrow> message_reader res" where
  "mr_seekTo pos r =
     (if pos > mr_size r then Inl BufferOverflowError else Inr (r\<lparr>mr_pos := pos\<rparr>))"

definition mr_remaining :: "message_reader \<Rightarrow> nat" where
  "mr_remaining r = mr_size r - mr_pos r"

section \<open>What is left to read\<close>

text \<open>
  \<open>mr_ok r\<close>: the cursor lies within the area the reader was told about, that area lies
  within the allocation, and sizes fit in 63 bits, as those of every allocation do.
  \<open>mr_rest r\<close> is what is left of the area.
\<close>

definition mr_ok :: "message_reader \<Rightarrow> bool" where
  "mr_ok r \<longleftrightarrow> mr_pos r \<le> mr_size r \<and> mr_size r \<le> length (mr_mem r) \<and> length (mr_mem r) < 2 ^ 63"

definition mr_rest :: "message_reader \<Rightarrow> bytes" where
  "mr_rest r = take (mr_size r - mr_pos r) (drop (mr_pos r) (mr_mem r))"

definition mr_advance :: "nat \<Rightarrow> message_reader \<Rightarrow> message_reader" where
  "mr_advance n r = r\<lparr>mr_pos := mr_pos r + n\<rparr>"

lemma length_mr_rest: "mr_ok r \<Longrightarrow> length (mr_rest r) = mr_size r - mr_pos r"
  by (auto simp: mr_ok_def mr_rest_def)

lemma mr_advance_ok [simp]: "mr_ok r \<Longrightarrow> n \<le> length (mr_rest r) \<Longrightarrow> mr_ok (mr_advance n r)"
  by (auto simp: mr_advance_def length_mr_rest mr_ok_def)

lemma mr_rest_advance [simp]: "mr_rest (mr_advance n r) = drop n (mr_rest r)"
  by (simp add: mr_advance_def mr_rest_def drop_take add.commute)

lemma mr_advance_advance [simp]: "mr_advance m (mr_advance n r) = mr_advance (n + m) r"
  by (simp add: mr_advance_def add.assoc)

lemma mr_read_ok:
  assumes "mr_ok r" and "n \<le> length (mr_rest r)"
  shows "mr_read n r = Inr (take n (mr_rest r), mr_advance n r)"
proof -
  from assms have le: "mr_pos r + n \<le> mr_size r" and "mr_size r \<le> length (mr_mem r)"
    and "length (mr_mem r) < 2 ^ 63"
    by (auto simp: length_mr_rest mr_ok_def)
  then have "(mr_pos r + n) mod 2 ^ 64 = mr_pos r + n" and "mr_pos r + n \<le> length (mr_mem r)" by auto
  with le show ?thesis
    by (simp add: mr_read_def mr_readString_def mr_advance_def mr_rest_def min_def)
qed

lemma mr_read_short:
  assumes "mr_ok r" and "length (mr_rest r) < n" and "n < 2 ^ 63"
  shows "mr_read n r = Inl BufferOverflowError"
proof -
  from assms have "mr_size r < mr_pos r + n" and "mr_pos r < 2 ^ 63"
    by (auto simp: length_mr_rest mr_ok_def)
  with assms(3) have "(mr_pos r + n) mod 2 ^ 64 = mr_pos r + n" by auto
  with \<open>mr_size r < mr_pos r + n\<close> show ?thesis
    by (simp add: mr_read_def mr_readString_def)
qed

text \<open>
  \<open>mr_reads f bs v\<close>: with the bytes \<open>bs\<close> at the cursor, the operation \<open>f\<close> returns
  \<open>v\<close> and moves the cursor past them.
\<close>

definition mr_reads :: "(message_reader \<Rightarrow> ('v \<times> message_reader) res) \<Rightarrow> bytes \<Rightarrow> 'v \<Rightarrow> bool" where
  "mr_reads f bs v \<longleftrightarrow>
     (\<forall>r xs. mr_ok r \<longrightarrow> mr_rest r = bs @ xs \<longrightarrow> f r = Inr (v, mr_advance (length bs) r))"

named_theorems mr_reads_intros

lemma mr_readsD: "mr_reads f bs v \<Longrightarrow> mr_ok r \<Longrightarrow> mr_rest r = bs @ xs \<Longrightarrow> f r = Inr (v, mr_advance (length bs) r)"
  by (simp add: mr_reads_def)

lemma mr_reads_read [mr_reads_intros]: "length bs = n \<Longrightarrow> mr_reads (mr_read n) bs bs"
  by (auto simp: mr_reads_def mr_read_ok)

lemma mr_reads_return: "mr_reads (act_return v) [] v"
  by (simp add: mr_reads_def mr_advance_def)

lemma mr_reads_bind:
  assumes "mr_reads f bs v" and "mr_reads (g v) cs u"
  shows "mr_reads (act_bind f g) (bs @ cs) u"
  unfolding mr_reads_def
proof (intro allI impI)
  fix r xs assume r: "mr_ok r" "mr_rest r = (bs @ cs) @ xs"
  then have "f r = Inr (v, mr_advance (length bs) r)" by (intro mr_readsD [OF assms(1)]) simp_all
  moreover from r have "g v (mr_advance (length bs) r) =
      Inr (u, mr_advance (length cs) (mr_advance (length bs) r))"
    by (intro mr_readsD [OF assms(2)]) simp_all
  ultimately show "act_bind f g r = Inr (u, mr_advance (length (bs @ cs)) r)" by simp
qed

lemma mr_reads_bind_return:
  "mr_reads f bs v \<Longrightarrow> mr_reads (act_bind f (\<lambda>x. act_return (h x))) bs (h v)"
  using mr_reads_bind [of f bs v "\<lambda>x. act_return (h x)" "[]" "h v"] by (simp add: mr_reads_return)

lemma mr_reads_ops [mr_reads_intros]:
  "mr_reads mr_readUInt8 [a] a"
  "mr_reads mr_readUInt16 (u16_bytes b) b"
  "mr_reads mr_readUInt32 (u32_bytes c) c"
  "mr_reads mr_readUInt64 (u64_bytes d) d"
  "mr_reads mr_readDouble (u64_bytes (double_bits e)) e"
  using mr_reads_bind_return [OF mr_reads_read, of "[a]" 1 hd]
    mr_reads_bind_return [OF mr_reads_read, of "u16_bytes b" 2 bytes_u16]
    mr_reads_bind_return [OF mr_reads_read, of "u32_bytes c" 4 bytes_u32]
    mr_reads_bind_return [OF mr_reads_read, of "u64_bytes d" 8 bytes_u64]
    mr_reads_bind_return [OF mr_reads_read, of "u64_bytes (double_bits e)" 8 "\<lambda>x. IEEE754_fromBytes (bytes_u64 x)"]
  by (simp_all add: mr_readUInt8_def mr_readUInt16_def mr_readUInt32_def mr_readUInt64_def
      mr_readDouble_def IEEE754_fromBytes_def)

section \<open>Variable-length integers\<close>

text \<open>
  The decoding loop undoes the encoding loop over any source of bytes: \<open>deliver s bs s'\<close>
  says that reading bytes one by one from \<open>s\<close> gives \<open>bs\<close> and ends in \<open>s'\<close>.
\<close>

fun deliver :: "('s \<Rightarrow> (byte \<times> 's) res) \<Rightarrow> 's \<Rightarrow> bytes \<Rightarrow> 's \<Rightarrow> bool" where
  "deliver next s [] s' \<longleftrightarrow> s = s'"
| "deliver next s (b # bs) s' \<longleftrightarrow> (\<exists>t. next s = Inr (b, t) \<and> deliver next t bs s')"

lemma bit_0x7f: "bit (0x7f :: int) n \<longleftrightarrow> n < 7"
proof -
  have "(0x7f :: int) = mask 7" by (simp add: mask_eq_exp_minus_1)
  then show ?thesis by (simp only: bit_mask_iff) simp
qed

lemma bit_0x80: "bit (0x80 :: int) n \<longleftrightarrow> n = 7"
proof -
  have "(0x80 :: int) = 2 ^ 7" by simp
  then show ?thesis by (simp only: bit_exp_iff) auto
qed

lemmas varuint_bit_simps = bit_simps bit_0x7f bit_0x80

lemma push_bit_split_7:
  "push_bit k (v AND 0x7f) OR push_bit (k + 7) (drop_bit 7 v) = push_bit k (v :: u64)"
proof (rule bit_word_eqI)
  fix n assume "n < LENGTH(64)"
  show "bit (push_bit k (v AND 0x7f) OR push_bit (k + 7) (drop_bit 7 v)) n \<longleftrightarrow> bit (push_bit k v) n"
  proof (cases "k + 7 \<le> n")
    case True
    with \<open>n < LENGTH(64)\<close> show ?thesis by (auto simp: varuint_bit_simps)
  next
    case False
    with \<open>n < LENGTH(64)\<close> show ?thesis by (auto simp: varuint_bit_simps)
  qed
qed

lemma low7_bits:
  "ucast ((ucast ((v :: u64) AND 0x7f) :: byte) AND 0x7f) = v AND 0x7f"
  "ucast (((ucast (v AND 0x7f) :: byte) OR 0x80) AND 0x7f) = v AND 0x7f"
  "(ucast (v AND 0x7f) :: byte) AND 0x80 = 0"
  "((ucast (v AND 0x7f) :: byte) OR 0x80) AND 0x80 = 0x80"
  by (rule bit_word_eqI; auto simp: varuint_bit_simps)+

lemma varuint_loop_bytes:
  assumes "deliver next s (varuint_bytes v) s'" and "unat v < 2 ^ (64 - 7 * i)" and "7 * i < 64"
  shows "varuint_loop next i val s = Inr (val OR push_bit (7 * i) v, s')"
  using assms
proof (induction v arbitrary: i val s rule: varuint_bytes.induct)
  case (1 v)
  let ?b = "ucast (v AND 0x7f) :: byte" and ?v' = "drop_bit 7 v"
  show ?case
  proof (cases "?v' = 0")
    case True
    with "1.prems"(1) have "next s = Inr (?b, s')"
      by (subst (asm) varuint_bytes.simps) (simp add: Let_def)
    moreover from True have "push_bit (7 * i) (v AND 0x7f) = push_bit (7 * i) v"
      using push_bit_split_7 [of "7 * i" v] by simp
    ultimately show ?thesis using "1.prems"(3)
      by (subst varuint_loop.simps) (simp add: Let_def low7_bits)
  next
    case False
    with "1.prems"(1) obtain t where t: "next s = Inr (?b OR 0x80, t)"
      "deliver next t (varuint_bytes ?v') s'"
      by (subst (asm) varuint_bytes.simps) (auto simp: Let_def)
    have "unat ?v' \<noteq> 0" using False by (simp add: unat_eq_zero)
    then have "unat v div 128 \<noteq> 0" by (simp only: unat_drop_bit_7 simp_thms)
    then have "2 ^ 7 \<le> unat v" by simp
    with "1.prems"(2) have "(2::nat) ^ 7 < 2 ^ (64 - 7 * i)" by linarith
    then have i: "7 < 64 - 7 * i" using power_less_imp_less_exp [of "2 :: nat" 7 "64 - 7 * i"] by simp
    have "unat v < 2 ^ 7 * 2 ^ (64 - 7 * (i + 1))"
    proof -
      have "64 - 7 * i = 7 + (64 - 7 * (i + 1))" using i by simp
      then show ?thesis using "1.prems"(2) by (metis power_add)
    qed
    then have small: "unat ?v' < 2 ^ (64 - 7 * (i + 1))"
      by (simp only: unat_drop_bit_7) (simp add: less_mult_imp_div_less mult.commute)
    have "varuint_loop next (i + 1) (val OR push_bit (7 * i) (v AND 0x7f)) t =
        Inr ((val OR push_bit (7 * i) (v AND 0x7f)) OR push_bit (7 * (i + 1)) ?v', s')"
      using t(2) small i False by (intro "1.IH") simp_all
    moreover have "(val OR push_bit (7 * i) (v AND 0x7f)) OR push_bit (7 * (i + 1)) ?v' =
        val OR push_bit (7 * i) v"
      using push_bit_split_7 [of "7 * i" v] by (simp add: or.assoc algebra_simps)
    ultimately show ?thesis using t(1) "1.prems"(3)
      by (subst varuint_loop.simps) (simp add: Let_def low7_bits)
  qed
qed

lemma varuint_loop_inverse:
  "deliver next s (varuint_bytes v) s' \<Longrightarrow> varuint_loop next 0 0 s = Inr (v, s')"
  using varuint_loop_bytes [of "next" s v s' 0 0] unat_less_exp [of v] by simp

lemma deliver_reader:
  "mr_ok r \<Longrightarrow> mr_rest r = bs @ xs \<Longrightarrow> deliver mr_readUInt8 r bs (mr_advance (length bs) r)"
proof (induction bs arbitrary: r)
  case Nil
  then show ?case by (simp add: mr_advance_def)
next
  case (Cons b bs)
  then have "mr_readUInt8 r = Inr (b, mr_advance 1 r)"
    using mr_readsD [OF mr_reads_ops(1), of r b "bs @ xs"] by simp
  moreover from Cons.prems have "deliver mr_readUInt8 (mr_advance 1 r) bs (mr_advance (length bs) (mr_advance 1 r))"
    by (intro Cons.IH) simp_all
  ultimately show ?case by simp
qed

lemma mr_reads_varuint [mr_reads_intros]: "mr_reads mr_readVarUInt (varuint_bytes v) v"
  by (auto simp: mr_reads_def mr_readVarUInt_def intro!: varuint_loop_inverse deliver_reader)

lemma mr_reads_lenenc [mr_reads_intros]:
  "length s < 2 ^ 64 \<Longrightarrow> mr_reads mr_readLenencString (varuint_bytes (word_of_nat (length s)) @ s) s"
  unfolding mr_readLenencString_def
  by (rule mr_reads_bind [OF mr_reads_varuint]) (simp add: mr_reads_read unat_of_nat)

end
