(* ===== verification/CS_Codec.thy ===== *)
theory CS_Codec
  imports CS_Reader
begin

text \<open>
  The contract of the value streams a column is made of (repetition levels, definition
  levels, values), as a locale: what was put into a writer comes out of a reader opened on
  the bytes of the writer. Everything written with a \<open>BinaryMessageWriter\<close> and read with a
  \<open>BinaryMessageReader\<close> keeps it, which is proved once in the locale \<open>message_codec\<close>; the
  bit-packed streams interpret the contract in \<open>CS_BitPack\<close>.
\<close>

section \<open>The contract of a stream of values\<close>

text \<open>
  \<open>written w vs\<close>: the writer has been given \<open>vs\<close>; \<open>holds r vs\<close>: the reader will
  deliver \<open>vs\<close>, and perhaps more. A reader may be opened with a size that exceeds what was
  written, as the fixed-width columns do; \<open>valid\<close> are the values the encoding can carry.
\<close>

locale value_codec =
  fixes put :: "'v \<Rightarrow> 'w \<Rightarrow> 'w res"
    and out :: "'w \<Rightarrow> bytes"
    and open_mem :: "bytes \<Rightarrow> nat \<Rightarrow> 'r res"
    and get :: "'r \<Rightarrow> ('v \<times> 'r) res"
    and valid :: "'v \<Rightarrow> bool"
    and written :: "'w \<Rightarrow> 'v list \<Rightarrow> bool"
    and holds :: "'r \<Rightarrow> 'v list \<Rightarrow> bool"
  assumes put_written: "written w vs \<Longrightarrow> valid v \<Longrightarrow> \<exists>w'. put v w = Inr w' \<and> written w' (vs @ [v])"
    and open_holds: "written w vs \<Longrightarrow> length (out w) \<le> n \<Longrightarrow> n \<le> length mem \<Longrightarrow>
      length mem < 2 ^ 63 \<Longrightarrow> take (length (out w)) mem = out w \<Longrightarrow> \<exists>r. open_mem mem n = Inr r \<and> holds r vs"
    and get_holds: "holds r (v # vs) \<Longrightarrow> \<exists>r'. get r = Inr (v, r') \<and> holds r' vs"
begin

lemma put_all_written:
  "written w us \<Longrightarrow> \<forall>v \<in> set vs. valid v \<Longrightarrow> \<exists>w'. res_fold put vs w = Inr w' \<and> written w' (us @ vs)"
  using res_fold_rel [of written w us vs valid put] put_written by blast

lemma get_n_holds: "holds r (vs @ us) \<Longrightarrow> \<exists>r'. act_repeat (length vs) get r = Inr (vs, r') \<and> holds r' us"
  using act_repeat_rel [of holds r vs us get id] get_holds by simp

lemma put_get_all:
  assumes "written w []" and "\<forall>v \<in> set vs. valid v"
  shows "\<exists>w'. res_fold put vs w = Inr w' \<and> written w' vs \<and>
    (length (out w') < 2 ^ 63 \<longrightarrow>
       (\<exists>r r'. open_mem (out w') (length (out w')) = Inr r \<and> act_repeat (length vs) get r = Inr (vs, r')))"
proof -
  from put_all_written [OF assms] obtain w' where w': "res_fold put vs w = Inr w'" "written w' vs" by auto
  moreover have "\<exists>r r'. open_mem (out w') (length (out w')) = Inr r \<and> act_repeat (length vs) get r = Inr (vs, r')"
    if "length (out w') < 2 ^ 63"
  proof -
    from open_holds [OF w'(2), of "length (out w')" "out w'"] that obtain r
      where "open_mem (out w') (length (out w')) = Inr r" "holds r vs" by auto
    with get_n_holds [of r vs "[]"] show ?thesis by auto
  qed
  ultimately show ?thesis by blast
qed

end

section \<open>Streams of messages\<close>

text \<open>
  \<open>mw_holds enc w vs\<close>: the writer owns its buffer and holds the encodings of \<open>vs\<close>;
  \<open>mr_holds enc r vs\<close>: they are next in the reader.
\<close>

definition mw_holds :: "('v \<Rightarrow> bytes) \<Rightarrow> message_writer \<Rightarrow> 'v list \<Rightarrow> bool" where
  "mw_holds enc w vs \<longleftrightarrow> mw_owned w \<and> 0 < mw_size w \<and> mw_data w = concat (map enc vs)"

definition mr_holds :: "('v \<Rightarrow> bytes) \<Rightarrow> ('v \<Rightarrow> bool) \<Rightarrow> message_reader \<Rightarrow> 'v list \<Rightarrow> bool" where
  "mr_holds enc ok r vs \<longleftrightarrow>
     mr_ok r \<and> (\<forall>v \<in> set vs. ok v) \<and> (\<exists>junk. mr_rest r = concat (map enc vs) @ junk)"

lemma mw_holds_new [simp]: "0 < n \<Longrightarrow> mw_holds enc (mw_new n) []"
  by (simp add: mw_holds_def mw_new_def)

locale message_codec =
  fixes app :: "'v \<Rightarrow> message_writer \<Rightarrow> message_writer res"
    and rd :: "message_reader \<Rightarrow> ('v \<times> message_reader) res"
    and enc :: "'v \<Rightarrow> bytes"
    and valid :: "'v \<Rightarrow> bool"
  assumes app_writes: "valid v \<Longrightarrow> mw_writes (app v) (enc v)"
    and rd_reads: "valid v \<Longrightarrow> mr_reads rd (enc v) v"
begin

definition written :: "message_writer \<Rightarrow> 'v list \<Rightarrow> bool" where
  "written w vs \<longleftrightarrow> mw_holds enc w vs \<and> (\<forall>v \<in> set vs. valid v)"

end

sublocale message_codec \<subseteq> codec: value_codec app mw_data "\<lambda>mem n. Inr (mr_open mem n)" rd valid
  written "mr_holds enc valid"
proof unfold_locales
  fix w vs v
  assume w: "written w vs" "valid v"
  then have "mw_room (length (enc v)) w" by (simp add: written_def mw_holds_def mw_room_def)
  from mw_writesD [OF app_writes [OF w(2)] this] obtain w' where
    "app v w = Inr w'" "mw_data w' = mw_data w @ enc v" "mw_owned w' = mw_owned w" "mw_size w \<le> mw_size w'" .
  with w show "\<exists>w'. app v w = Inr w' \<and> written w' (vs @ [v])"
    by (auto simp: written_def mw_holds_def)
next
  fix w vs n and mem :: bytes
  assume w: "written w vs" and n: "length (mw_data w) \<le> n" "n \<le> length mem" "length mem < 2 ^ 63"
    and mem: "take (length (mw_data w)) mem = mw_data w"
  have "take n mem = take (length (mw_data w)) mem @ take (n - length (mw_data w)) (drop (length (mw_data w)) mem)"
    using n(1) by (metis le_add_diff_inverse take_add)
  with mem w have "mr_rest (mr_open mem n) = concat (map enc vs) @ take (n - length (mw_data w)) (drop (length (mw_data w)) mem)"
    by (simp add: mr_rest_def mr_open_def written_def mw_holds_def)
  moreover have "mr_ok (mr_open mem n)" using n by (simp add: mr_ok_def mr_open_def)
  ultimately show "\<exists>r. Inr (mr_open mem n) = Inr r \<and> mr_holds enc valid r vs"
    using w by (auto simp: mr_holds_def written_def)
next
  fix r v vs
  assume "mr_holds enc valid r (v # vs)"
  then obtain junk where r: "mr_ok r" "valid v" "\<forall>v \<in> set vs. valid v"
    "mr_rest r = enc v @ (concat (map enc vs) @ junk)"
    by (auto simp: mr_holds_def)
  then have "rd r = Inr (v, mr_advance (length (enc v)) r)" by (intro mr_readsD [OF rd_reads])
  moreover have "mr_holds enc valid (mr_advance (length (enc v)) r) vs"
    using r by (auto simp: mr_holds_def)
  ultimately show "\<exists>r'. rd r = Inr (v, r') \<and> mr_holds enc valid r' vs" by blast
qed

text \<open>The encodings of the fixed-width and the variable-length column values.\<close>

interpretation u32_codec: message_codec mw_appendUInt32 mr_readUInt32 u32_bytes "\<lambda>_. True"
  by unfold_locales (intro mw_writes_intros mr_reads_intros)+

interpretation u64_codec: message_codec mw_appendUInt64 mr_readUInt64 u64_bytes "\<lambda>_. True"
  by unfold_locales (intro mw_writes_intros mr_reads_intros)+

interpretation varuint_codec: message_codec mw_appendVarUInt mr_readVarUInt varuint_bytes "\<lambda>_. True"
  by unfold_locales (intro mw_writes_intros mr_reads_intros)+

interpretation double_codec: message_codec mw_appendDouble mr_readDouble "\<lambda>v. u64_bytes (double_bits v)" "\<lambda>_. True"
  by unfold_locales (intro mw_writes_intros mr_reads_intros)+

interpretation lenenc_codec: message_codec mw_appendLenencString mr_readLenencString
  "\<lambda>s. varuint_bytes (word_of_nat (length s)) @ s" "\<lambda>s. length s < 2 ^ 64"
  by unfold_locales (simp_all add: mw_writes_intros mr_reads_intros)

end
