(* ===== verification/CS_BitPack.thy ===== *)
theory CS_BitPack
  imports CS_SimdComp CS_Codec
begin

text \<open>
  The bit-pack encoder and decoder of libstx (\<open>stx/util/BitPackEncoder.cc\<close>,
  \<open>stx/util/BitPackDecoder.cc\<close>): integers up to a maximum, packed in blocks of 128. The
  pair keeps the contract \<open>value_codec\<close>: what was encoded and flushed is what a decoder
  opened on those bytes returns, one by one.
\<close>

section \<open>BitPackEncoder\<close>

record bp_encoder =
  be_inbuf :: "u32 list"
  be_maxbits :: nat
  be_buf :: bytes

definition be_new :: "u32 \<Rightarrow> bp_encoder" where
  "be_new max_val =
     \<lparr>be_inbuf = [], be_maxbits = (if max_val > 0 then bits max_val else 0), be_buf = []\<rparr>"

definition be_flush :: "bp_encoder \<Rightarrow> bp_encoder" where
  "be_flush e =
     (if length (be_inbuf e) = 0 then e
      else let inbuf = be_inbuf e @ replicate (128 - length (be_inbuf e)) 0;
               outbuf = simdpackwithoutmask inbuf (be_maxbits e)
           in e\<lparr>be_buf := be_buf e @ take (16 * be_maxbits e) (concat (map u32_bytes outbuf)),
               be_inbuf := []\<rparr>)"

definition be_encode :: "u32 \<Rightarrow> bp_encoder \<Rightarrow> bp_encoder" where
  "be_encode value e =
     (if be_maxbits e = 0 then e
      else let e' = e\<lparr>be_inbuf := be_inbuf e @ [value]\<rparr>
           in if length (be_inbuf e') = 128 then be_flush e' else e')"

definition be_data :: "bp_encoder \<Rightarrow> bytes" where
  "be_data e = be_buf e"

definition be_size :: "bp_encoder \<Rightarrow> nat" where
  "be_size e = length (be_buf e)"

section \<open>BitPackDecoder\<close>

text \<open>
  \<open>bd_mem\<close> is the memory from \<open>data_\<close> to the end of its allocation and \<open>bd_size\<close> the
  size the decoder was told; unpacking a block that passes the size check and leaves the
  allocation is undefined.
\<close>

record bp_decoder =
  bd_mem :: bytes
  bd_size :: nat
  bd_maxbits :: nat
  bd_pos :: nat
  bd_outbuf :: "u32 list"
  bd_outbuf_pos :: nat

definition bd_new :: "bytes \<Rightarrow> nat \<Rightarrow> u32 \<Rightarrow> bp_decoder" where
  "bd_new mem n max_val =
     \<lparr>bd_mem = mem, bd_size = n, bd_maxbits = (if max_val > 0 then bits max_val else 0),
      bd_pos = 0, bd_outbuf = [], bd_outbuf_pos = 128\<rparr>"

fun u32_of_bytes :: "bytes \<Rightarrow> u32 list" where
  "u32_of_bytes (a # b # c # d # bs) = bytes_u32 [a, b, c, d] # u32_of_bytes bs"
| "u32_of_bytes _ = []"

definition bd_fetch :: "bool \<Rightarrow> bp_decoder \<Rightarrow> (u32 \<times> bp_decoder) res" where
  "bd_fetch advance d =
     (if bd_maxbits d = 0 then Inr (0, d)
      else if bd_outbuf_pos d = 128 then
        (let new_pos = bd_pos d + 16 * bd_maxbits d
         in if new_pos > bd_size d then
              (if \<not> advance then Inr (0, d) else Inl BufferOverflowError)
            else if new_pos > length (bd_mem d) then Inl Undefined
            else let outbuf = simdunpack
                       (u32_of_bytes (take (16 * bd_maxbits d) (drop (bd_pos d) (bd_mem d))))
                       (bd_maxbits d)
                 in Inr (outbuf ! 0, d\<lparr>bd_outbuf := outbuf, bd_pos := new_pos,
                                       bd_outbuf_pos := (if advance then 1 else 0)\<rparr>))
      else if advance
      then Inr (bd_outbuf d ! bd_outbuf_pos d, d\<lparr>bd_outbuf_pos := bd_outbuf_pos d + 1\<rparr>)
      else Inr (bd_outbuf d ! bd_outbuf_pos d, d))"

definition bd_next :: "bp_decoder \<Rightarrow> (u32 \<times> bp_decoder) res" where
  "bd_next = bd_fetch True"

definition bd_peek :: "bp_decoder \<Rightarrow> (u32 \<times> bp_decoder) res" where
  "bd_peek = bd_fetch False"

section \<open>The packed blocks of a list\<close>

definition bp_block :: "nat \<Rightarrow> u32 list \<Rightarrow> bytes" where
  "bp_block b xs = concat (map u32_bytes (simdpackwithoutmask (xs @ replicate (128 - length xs) 0) b))"

function bp_blocks :: "nat \<Rightarrow> u32 list \<Rightarrow> bytes" where
  "bp_blocks b ws = (if ws = [] then [] else bp_block b (take 128 ws) @ bp_blocks b (drop 128 ws))"
  by pat_completeness auto
termination by (relation "measure (\<lambda>(_, ws). length ws)") auto

declare bp_blocks.simps [simp del]

definition bp_fits :: "nat \<Rightarrow> u32 list \<Rightarrow> bool" where
  "bp_fits b vs \<longleftrightarrow> b \<le> 32 \<and> (\<forall>v \<in> set vs. take_bit b v = v)"

lemma bp_blocks_Nil [simp]: "bp_blocks b [] = []"
  by (subst bp_blocks.simps) simp

lemma bp_blocks_append:
  "128 dvd length xs \<Longrightarrow> bp_blocks b (xs @ ys) = bp_blocks b xs @ bp_blocks b ys"
proof (induction "length xs" arbitrary: xs rule: less_induct)
  case less
  show ?case
  proof (cases "xs = []")
    case False
    with less.prems have l: "128 \<le> length xs" by (simp add: dvd_imp_le)
    with less.prems have "128 dvd length (drop 128 xs)" by (simp add: dvd_diff_nat)
    moreover from l False have "length (drop 128 xs) < length xs" by simp
    ultimately have "bp_blocks b (drop 128 xs @ ys) = bp_blocks b (drop 128 xs) @ bp_blocks b ys"
      by (intro less.hyps)
    with False l show ?thesis
      by (subst (1 2) bp_blocks.simps) simp
  qed simp
qed

lemma bp_blocks_block: "xs \<noteq> [] \<Longrightarrow> length xs \<le> 128 \<Longrightarrow> bp_blocks b xs = bp_block b xs"
  by (subst bp_blocks.simps) simp

lemma length_u32_list: "length (concat (map u32_bytes xs)) = 4 * length xs"
  by (induction xs) simp_all

lemma u32_of_bytes_inverse [simp]: "u32_of_bytes (concat (map u32_bytes xs)) = xs"
proof (induction xs)
  case (Cons x xs)
  obtain a b c d where abcd: "u32_bytes x = [a, b, c, d]"
    using length_word_bytes(2) [of x] by (auto simp: length_Suc_conv eval_nat_numeral simp del: length_word_bytes)
  then have "bytes_u32 [a, b, c, d] = x" by (metis bytes_word_inverse(2))
  with Cons abcd show ?case by simp
qed simp

lemma length_bp_block: "b \<le> 32 \<Longrightarrow> length xs \<le> 128 \<Longrightarrow> length (bp_block b xs) = 16 * b"
  by (simp add: bp_block_def length_u32_list length_simdpack)

lemma length_bp_blocks: "b \<le> 32 \<Longrightarrow> length (bp_blocks b xs) = 16 * b * ((length xs + 127) div 128)"
proof (induction "length xs" arbitrary: xs rule: less_induct)
  case less
  show ?case
  proof (cases "xs = []")
    case False
    with less have "length (bp_blocks b (drop 128 xs)) = 16 * b * ((length (drop 128 xs) + 127) div 128)"
      by simp
    moreover have "1 + (length (drop 128 xs) + 127) div 128 = (length xs + 127) div 128"
    proof (cases "128 \<le> length xs")
      case False
      with \<open>xs \<noteq> []\<close> have "1 \<le> length xs" "length xs < 128" by (simp_all add: Suc_leI)
      then have "(length xs + 127) div 128 = 1" by linarith
      with False show ?thesis by simp
    qed simp
    moreover have "length (bp_blocks b xs) = 16 * b + length (bp_blocks b (drop 128 xs))"
      using False less.prems by (subst bp_blocks.simps) (simp add: length_bp_block)
    ultimately show ?thesis by (metis mult.right_neutral distrib_left)
  qed simp
qed

section \<open>The encoder writes blocks, the decoder reads them\<close>

definition be_written :: "u32 \<Rightarrow> bp_encoder \<Rightarrow> u32 list \<Rightarrow> bool" where
  "be_written m e vs \<longleftrightarrow>
     be_maxbits e = bits m \<and> bp_fits (bits m) vs \<and>
     (if bits m = 0 then be_inbuf e = [] \<and> be_buf e = []
      else \<exists>full. vs = full @ be_inbuf e \<and> 128 dvd length full \<and> length (be_inbuf e) < 128 \<and>
             be_buf e = bp_blocks (bits m) full)"

definition bd_cached :: "bp_decoder \<Rightarrow> u32 list" where
  "bd_cached d = drop (bd_outbuf_pos d) (bd_outbuf d)"

definition bd_holds :: "u32 \<Rightarrow> bp_decoder \<Rightarrow> u32 list \<Rightarrow> bool" where
  "bd_holds m d vs \<longleftrightarrow>
     bd_maxbits d = bits m \<and>
     (if bits m = 0 then \<forall>v \<in> set vs. v = 0
      else bd_outbuf_pos d \<le> 128 \<and> length (bd_outbuf d) \<le> 128 \<and>
           (bd_outbuf_pos d \<noteq> 128 \<longrightarrow> length (bd_outbuf d) = 128) \<and>
           bd_pos d \<le> bd_size d \<and> bd_size d \<le> length (bd_mem d) \<and>
           (\<exists>ws us junk. vs @ us = bd_cached d @ ws \<and> bp_fits (bits m) ws \<and>
              take (bd_size d - bd_pos d) (drop (bd_pos d) (bd_mem d)) = bp_blocks (bits m) ws @ junk))"

lemma bp_fits_append [simp]: "bp_fits b (xs @ ys) \<longleftrightarrow> bp_fits b xs \<and> bp_fits b ys"
  by (auto simp: bp_fits_def)

lemma be_new_written: "be_written m (be_new m) []"
  by (auto simp: be_written_def be_new_def bp_fits_def bits_eq_0_iff word_gt_0)

lemma be_flush_buf:
  assumes "be_written m e vs"
  shows "be_buf (be_flush e) = (if bits m = 0 then [] else bp_blocks (bits m) vs)" "be_inbuf (be_flush e) = []"
    "be_maxbits (be_flush e) = bits m"
proof -
  show "be_inbuf (be_flush e) = []" "be_maxbits (be_flush e) = bits m"
    using assms by (auto simp: be_written_def be_flush_def Let_def)
  show "be_buf (be_flush e) = (if bits m = 0 then [] else bp_blocks (bits m) vs)"
  proof (cases "bits m = 0 \<or> be_inbuf e = []")
    case True
    with assms show ?thesis by (auto simp: be_written_def be_flush_def)
  next
    case False
    with assms obtain full where full: "vs = full @ be_inbuf e" "128 dvd length full"
      "length (be_inbuf e) < 128" "be_buf e = bp_blocks (bits m) full" "be_maxbits e = bits m"
      by (auto simp: be_written_def)
    have "take (16 * bits m) (bp_block (bits m) (be_inbuf e)) = bp_block (bits m) (be_inbuf e)"
      using full(3) by (simp add: length_bp_block)
    with False full show ?thesis
      by (simp add: be_flush_def Let_def bp_blocks_append bp_blocks_block flip: bp_block_def)
  qed
qed

lemma be_encode_written:
  assumes "be_written m e vs" and "v \<le> m"
  shows "be_written m (be_encode v e) (vs @ [v])"
proof (cases "bits m = 0")
  case True
  with assms fits_bits [of v m] show ?thesis
    by (simp add: be_written_def be_encode_def bp_fits_def)
next
  case False
  from assms False obtain full where full: "vs = full @ be_inbuf e" "128 dvd length full"
    "length (be_inbuf e) < 128" "be_buf e = bp_blocks (bits m) full" "be_maxbits e = bits m"
    "bp_fits (bits m) vs"
    by (auto simp: be_written_def)
  have fit: "bp_fits (bits m) (vs @ [v])"
    using full(6) fits_bits [OF assms(2)] by (simp add: bp_fits_def)
  let ?xs = "be_inbuf e @ [v]"
  show ?thesis
  proof (cases "length ?xs = 128")
    case True
    have "take (16 * bits m) (bp_block (bits m) ?xs) = bp_block (bits m) ?xs"
      using True by (simp add: length_bp_block)
    with True have "be_buf (be_encode v e) = bp_blocks (bits m) (full @ ?xs)" "be_inbuf (be_encode v e) = []"
      "be_maxbits (be_encode v e) = bits m"
      using full False
      by (simp_all add: be_encode_def be_flush_def Let_def bp_blocks_append bp_blocks_block bp_block_def)
    moreover have "128 dvd length (full @ ?xs)" using True full(2) by simp
    ultimately show ?thesis using fit False full(1) by (simp add: be_written_def)
  next
    case len: False
    with full False fit show ?thesis
      by (auto simp: be_encode_def Let_def be_written_def)
  qed
qed

lemma bd_new_holds:
  assumes "be_written m e vs" and "be_size (be_flush e) \<le> n" and "n \<le> length mem"
    and "take (be_size (be_flush e)) mem = be_data (be_flush e)"
  shows "bd_holds m (bd_new mem n m) vs"
proof (cases "bits m = 0")
  case True
  with assms(1) show ?thesis
    by (auto simp: bd_holds_def bd_new_def be_written_def bp_fits_def bits_eq_0_iff)
next
  case False
  then have buf: "be_data (be_flush e) = bp_blocks (bits m) vs"
    using be_flush_buf [OF assms(1)] by (simp add: be_data_def)
  have "take n mem = take (be_size (be_flush e)) mem @ take (n - be_size (be_flush e)) (drop (be_size (be_flush e)) mem)"
    using assms(2) by (metis le_add_diff_inverse take_add)
  with assms(4) buf have "take n mem = bp_blocks (bits m) vs @ take (n - be_size (be_flush e)) (drop (be_size (be_flush e)) mem)"
    by simp
  moreover have "bp_fits (bits m) vs" using assms(1) by (simp add: be_written_def)
  ultimately have "\<exists>ws us junk. vs @ us = drop 128 [] @ ws \<and> bp_fits (bits m) ws \<and>
      take n mem = bp_blocks (bits m) ws @ junk"
    by (intro exI [of _ vs] exI [of _ "[]"] exI [of _ "take (n - be_size (be_flush e)) (drop (be_size (be_flush e)) mem)"]) simp
  moreover have "0 < m" using False by (simp add: bits_eq_0_iff word_gt_0)
  ultimately show ?thesis using False assms(3)
    by (simp add: bd_holds_def bd_new_def bd_cached_def)
qed

text \<open>One block, as \<open>fetch\<close> loads it.\<close>

lemma simdunpack_block:
  assumes "0 < b" and "bp_fits b xs" and "length xs \<le> 128"
  shows "simdunpack (u32_of_bytes (bp_block b xs)) b = xs @ replicate (128 - length xs) 0"
  using assms by (auto simp: bp_block_def bp_fits_def intro!: simdunpack_simdpack)

lemma bd_load:
  assumes "bd_holds m d (v # vs)" and "bits m \<noteq> 0" and "bd_outbuf_pos d = 128"
  obtains outbuf where "bd_fetch adv d = Inr (v, d\<lparr>bd_outbuf := outbuf, bd_pos := bd_pos d + 16 * bits m,
        bd_outbuf_pos := (if adv then 1 else 0)\<rparr>)" "outbuf \<noteq> []" "hd outbuf = v"
    "bd_holds m (d\<lparr>bd_outbuf := outbuf, bd_pos := bd_pos d + 16 * bits m, bd_outbuf_pos := 0\<rparr>) (v # vs)"
proof -
  let ?b = "bits m"
  from assms obtain ws us junk where d: "bd_maxbits d = ?b" "bd_pos d \<le> bd_size d"
    "bd_size d \<le> length (bd_mem d)" "(v # vs) @ us = ws" "bp_fits ?b ws"
    "take (bd_size d - bd_pos d) (drop (bd_pos d) (bd_mem d)) = bp_blocks ?b ws @ junk"
    by (auto simp: bd_holds_def bd_cached_def)
  let ?xs = "take 128 ws" and ?ws' = "drop 128 ws"
  let ?out = "?xs @ replicate (128 - length ?xs) 0"
  let ?d = "d\<lparr>bd_outbuf := ?out, bd_pos := bd_pos d + 16 * ?b, bd_outbuf_pos := 0\<rparr>"
  from d(4) have ne: "ws \<noteq> []" "hd ws = v" by auto
  have blocks: "bp_blocks ?b ws = bp_block ?b ?xs @ bp_blocks ?b ?ws'"
    using ne(1) by (subst bp_blocks.simps) simp
  have len: "length (bp_block ?b ?xs) = 16 * ?b" by (simp add: length_bp_block)
  have fits: "bp_fits ?b ?xs" "bp_fits ?b ?ws'"
    using d(5) by (metis append_take_drop_id bp_fits_append)+
  let ?rest = "take (bd_size d - bd_pos d) (drop (bd_pos d) (bd_mem d))"
  have rest: "?rest = bp_block ?b ?xs @ (bp_blocks ?b ?ws' @ junk)" by (simp add: d(6) blocks)
  then have "length ?rest = 16 * ?b + length (bp_blocks ?b ?ws' @ junk)" by (simp only: length_append len)
  moreover have "length ?rest = bd_size d - bd_pos d" using d(2,3) by simp
  ultimately have new: "bd_pos d + 16 * ?b \<le> bd_size d" using d(2) by linarith
  have tk: "take (16 * ?b) (drop (bd_pos d) (bd_mem d)) = bp_block ?b ?xs"
  proof -
    have "take (16 * ?b) ?rest = bp_block ?b ?xs" by (simp only: rest) (simp add: len)
    with new show ?thesis by (simp add: min_absorb1)
  qed
  have unp: "simdunpack (u32_of_bytes (bp_block ?b ?xs)) ?b = ?out"
    using assms(2) fits(1) by (intro simdunpack_block) simp_all
  have out: "?out ! 0 = v" "?out \<noteq> []" "hd ?out = v" using ne by (auto simp: nth_append hd_conv_nth)
  have "bd_fetch adv d = Inr (v, d\<lparr>bd_outbuf := ?out, bd_pos := bd_pos d + 16 * ?b,
      bd_outbuf_pos := (if adv then 1 else 0)\<rparr>)"
    using assms d new out by (simp only: bd_fetch_def tk d(1) unp Let_def) auto
  moreover have "bd_holds m ?d (v # vs)"
  proof -
    have "(v # vs) @ (us @ replicate (128 - length ?xs) 0) = ?out @ ?ws'"
    proof (cases "128 \<le> length ws")
      case True
      with d(4) show ?thesis by simp
    next
      case False
      with d(4) show ?thesis by (metis append.assoc append.right_neutral drop_all nat_le_linear take_all)
    qed
    moreover have "take (bd_size d - (bd_pos d + 16 * ?b)) (drop (bd_pos d + 16 * ?b) (bd_mem d)) =
        bp_blocks ?b ?ws' @ junk"
    proof -
      have "drop (16 * ?b) ?rest = bp_blocks ?b ?ws' @ junk" by (simp only: rest) (simp add: len)
      then show ?thesis by (simp add: drop_take add.commute)
    qed
    ultimately have "\<exists>ws us junk. (v # vs) @ us = ?out @ ws \<and> bp_fits ?b ws \<and>
        take (bd_size d - (bd_pos d + 16 * ?b)) (drop (bd_pos d + 16 * ?b) (bd_mem d)) = bp_blocks ?b ws @ junk"
      using fits(2) by blast
    with assms(2) d(1,3) new show ?thesis by (simp add: bd_holds_def bd_cached_def)
  qed
  ultimately show ?thesis using out by (intro that) auto
qed

lemma bd_cached_hit:
  assumes "bd_holds m d (v # vs)" and "bits m \<noteq> 0" and "bd_outbuf_pos d \<noteq> 128"
  shows "bd_outbuf d ! bd_outbuf_pos d = v" "bd_outbuf_pos d < 128"
    "bd_holds m (d\<lparr>bd_outbuf_pos := bd_outbuf_pos d + 1\<rparr>) vs"
proof -
  from assms obtain ws us junk where d: "bd_maxbits d = bits m" "bd_outbuf_pos d \<le> 128"
    "length (bd_outbuf d) = 128" "(v # vs) @ us = bd_cached d @ ws" "bp_fits (bits m) ws"
    "take (bd_size d - bd_pos d) (drop (bd_pos d) (bd_mem d)) = bp_blocks (bits m) ws @ junk"
    "bd_pos d \<le> bd_size d" "bd_size d \<le> length (bd_mem d)"
    by (auto simp: bd_holds_def)
  with assms(3) have lt: "bd_outbuf_pos d < length (bd_outbuf d)" by simp
  then have c: "bd_cached d = bd_outbuf d ! bd_outbuf_pos d # drop (bd_outbuf_pos d + 1) (bd_outbuf d)"
    by (simp add: bd_cached_def Cons_nth_drop_Suc)
  with d(4) show "bd_outbuf d ! bd_outbuf_pos d = v" by simp
  show "bd_outbuf_pos d < 128" using lt d(3) by simp
  from c d(4) have "vs @ us = drop (bd_outbuf_pos d + 1) (bd_outbuf d) @ ws" by simp
  with d assms(2) lt show "bd_holds m (d\<lparr>bd_outbuf_pos := bd_outbuf_pos d + 1\<rparr>) vs"
    by (auto simp: bd_holds_def bd_cached_def)
qed

lemma bd_holds_zero: "bits m = 0 \<Longrightarrow> bd_holds m d (v # vs) \<Longrightarrow> bd_fetch adv d = Inr (v, d) \<and> bd_holds m d vs"
  by (auto simp: bd_holds_def bd_fetch_def)

lemma bd_next_holds:
  assumes "bd_holds m d (v # vs)"
  shows "\<exists>d'. bd_next d = Inr (v, d') \<and> bd_holds m d' vs"
proof (cases "bits m = 0")
  case True
  with bd_holds_zero [OF True assms, of True] show ?thesis by (simp add: bd_next_def)
next
  case nz: False
  show ?thesis
  proof (cases "bd_outbuf_pos d = 128")
    case True
    from bd_load [OF assms nz True, of True] obtain outbuf where l:
      "bd_fetch True d = Inr (v, d\<lparr>bd_outbuf := outbuf, bd_pos := bd_pos d + 16 * bits m, bd_outbuf_pos := 1\<rparr>)"
      "bd_holds m (d\<lparr>bd_outbuf := outbuf, bd_pos := bd_pos d + 16 * bits m, bd_outbuf_pos := 0\<rparr>) (v # vs)"
      by auto
    from bd_cached_hit(3) [OF l(2) nz] have
      "bd_holds m (d\<lparr>bd_outbuf := outbuf, bd_pos := bd_pos d + 16 * bits m, bd_outbuf_pos := 1\<rparr>) vs"
      by simp
    with l(1) show ?thesis by (simp add: bd_next_def)
  next
    case False
    with bd_cached_hit [OF assms nz False] nz assms show ?thesis
      by (auto simp: bd_next_def bd_fetch_def bd_holds_def)
  qed
qed

lemma bd_peek_holds:
  assumes "bd_holds m d (v # vs)"
  shows "\<exists>d'. bd_peek d = Inr (v, d') \<and> bd_holds m d' (v # vs)"
proof (cases "bits m = 0")
  case True
  with bd_holds_zero [OF True assms, of False] assms show ?thesis by (simp add: bd_peek_def)
next
  case nz: False
  show ?thesis
  proof (cases "bd_outbuf_pos d = 128")
    case True
    from bd_load [OF assms nz True, of False] show ?thesis by (auto simp: bd_peek_def)
  next
    case False
    with bd_cached_hit(1) [OF assms nz False] nz assms show ?thesis
      by (auto simp: bd_peek_def bd_fetch_def bd_holds_def)
  qed
qed

lemma bd_next_exhausted:
  assumes "bd_maxbits d \<noteq> 0" and "bd_outbuf_pos d = 128" and "bd_size d < bd_pos d + 16 * bd_maxbits d"
  shows "bd_next d = Inl BufferOverflowError" "bd_peek d = Inr (0, d)"
  using assms by (simp_all add: bd_next_def bd_peek_def bd_fetch_def)

section \<open>The end of the data\<close>

lemma length_fastunpack:
  assumes "0 < b" and "b \<le> 32" and "s < 32" and "s + n * b \<le> 32 * length ins"
  shows "length (fastunpack b n s ins) = n"
  using assms
proof (induction b n s ins rule: fastunpack.induct)
  case (3 b n s w ws)
  consider "s + b < 32" | "s + b = 32" | "s + b > 32" by linarith
  then show ?case
  proof cases
    case 3
    then have "ws \<noteq> []" using "3.prems" by (cases ws) auto
    then obtain w' ws' where ws: "ws = w' # ws'" by (cases ws) auto
    have "length (fastunpack b n (s + b - 32) ws) = n"
      using 3 "3.prems" by (intro "3.IH"(3)) (auto simp: ws)
    with 3 show ?thesis by (simp add: ws)
  qed (use 3 in auto)
qed auto

lemma length_simdunpack:
  assumes "0 < b" and "b \<le> 32" and "length ws = 4 * b"
  shows "length (simdunpack ws b) = 128"
  using assms by (simp add: simdunpack_def length_fastunpack length_vectors)

lemma length_u32_of_bytes: "length (u32_of_bytes bs) = length bs div 4"
  by (induction bs rule: u32_of_bytes.induct) auto

text \<open>What the decoder makes of memory it did not write: the values of a block, block by block.\<close>

definition bp_values :: "nat \<Rightarrow> bytes \<Rightarrow> nat \<Rightarrow> u32 list" where
  "bp_values b mem i = simdunpack (u32_of_bytes (take (16 * b) (drop (16 * b * i) mem))) b"

lemma length_bp_values:
  "0 < b \<Longrightarrow> b \<le> 32 \<Longrightarrow> 16 * b * Suc i \<le> length mem \<Longrightarrow> length (bp_values b mem i) = 128"
  unfolding bp_values_def by (rule length_simdunpack) (simp_all add: length_u32_of_bytes min_absorb2 min_absorb1)

lemma act_repeat_add:
  assumes "act_repeat m f s = Inr (vs, s')" and "act_repeat n f s' = Inr (us, s'')"
  shows "act_repeat (m + n) f s = Inr (vs @ us, s'')"
  using assms(1)
proof (induction m arbitrary: s vs)
  case (Suc m)
  then show ?case by (auto simp: act_bind_def res_bind_def act_return_def split: sum.splits prod.splits)
qed (use assms(2) in simp)

lemma bd_next_cached:
  assumes "bd_maxbits d \<noteq> 0" and "length (bd_outbuf d) = 128" and "bd_outbuf_pos d + k \<le> 128"
  shows "act_repeat k bd_next d =
    Inr (take k (drop (bd_outbuf_pos d) (bd_outbuf d)), d\<lparr>bd_outbuf_pos := bd_outbuf_pos d + k\<rparr>)"
  using assms
proof (induction k arbitrary: d)
  case (Suc k)
  let ?d = "d\<lparr>bd_outbuf_pos := bd_outbuf_pos d + 1\<rparr>"
  have "bd_next d = Inr (bd_outbuf d ! bd_outbuf_pos d, ?d)" using Suc.prems by (simp add: bd_next_def bd_fetch_def)
  moreover have "drop (bd_outbuf_pos d) (bd_outbuf d) =
      bd_outbuf d ! bd_outbuf_pos d # drop (bd_outbuf_pos d + 1) (bd_outbuf d)"
    using Suc.prems by (simp add: Cons_nth_drop_Suc)
  ultimately show ?case using Suc.IH [of ?d] Suc.prems by simp
qed simp

lemma bd_next_block:
  assumes "bd_maxbits d = b" and "0 < b" and "b \<le> 32" and "bd_outbuf_pos d = 128" and "bd_pos d = 16 * b * i"
    and "16 * b * Suc i \<le> bd_size d" and "bd_size d \<le> length (bd_mem d)"
  shows "act_repeat 128 bd_next d =
    Inr (bp_values b (bd_mem d) i, d\<lparr>bd_outbuf := bp_values b (bd_mem d) i, bd_pos := 16 * b * Suc i, bd_outbuf_pos := 128\<rparr>)"
proof -
  let ?out = "bp_values b (bd_mem d) i"
  let ?d = "d\<lparr>bd_outbuf := ?out, bd_pos := 16 * b * Suc i, bd_outbuf_pos := 1\<rparr>"
  have len: "length ?out = 128" using assms by (intro length_bp_values) auto
  have "bd_next d = Inr (?out ! 0, ?d)"
    using assms by (simp add: bd_next_def bd_fetch_def bp_values_def Let_def mult.commute)
  then have "act_repeat 1 bd_next d = Inr ([?out ! 0], ?d)" by (simp add: act_bind_def act_return_def)
  moreover have "act_repeat 127 bd_next ?d = Inr (take 127 (drop 1 ?out), ?d\<lparr>bd_outbuf_pos := 128\<rparr>)"
    using bd_next_cached [of ?d 127] assms(1,2) len by simp
  moreover have "[?out ! 0] @ take 127 (drop 1 ?out) = ?out"
    using len by (cases ?out) simp_all
  ultimately show ?thesis using act_repeat_add [of 1 bd_next d _ _ 127] by simp
qed

lemma bd_next_blocks:
  assumes "bits m \<noteq> 0" and "16 * bits m * k \<le> n" and "n \<le> length mem"
  shows "\<exists>d. act_repeat (128 * k) bd_next (bd_new mem n m) = Inr (concat (map (bp_values (bits m) mem) [0..<k]), d) \<and>
    bd_mem d = mem \<and> bd_size d = n \<and> bd_maxbits d = bits m \<and> bd_pos d = 16 * bits m * k \<and> bd_outbuf_pos d = 128"
  using assms(2)
proof (induction k)
  case 0
  show ?case using assms(1) by (simp add: bd_new_def bits_eq_0_iff word_gt_0)
next
  case (Suc k)
  then obtain d where d: "act_repeat (128 * k) bd_next (bd_new mem n m) = Inr (concat (map (bp_values (bits m) mem) [0..<k]), d)"
    "bd_mem d = mem" "bd_size d = n" "bd_maxbits d = bits m" "bd_pos d = 16 * bits m * k" "bd_outbuf_pos d = 128"
    by auto
  have b: "0 < bits m" "bits m \<le> 32" using assms(1) by simp_all
  have s: "16 * bits m * Suc k \<le> bd_size d" "bd_size d \<le> length (bd_mem d)"
    using Suc.prems assms(3) d(2,3) by simp_all
  show ?case
    using act_repeat_add [OF d(1) bd_next_block [OF d(4) b d(6,5) s]] d by (auto simp: add.commute)
qed

lemma bd_next_end:
  assumes "bits m \<noteq> 0" and "n \<le> length mem"
  shows "\<exists>d. act_repeat (128 * (n div (16 * bits m))) bd_next (bd_new mem n m) =
      Inr (concat (map (bp_values (bits m) mem) [0..<n div (16 * bits m)]), d) \<and>
    bd_next d = Inl BufferOverflowError \<and> bd_peek d = Inr (0, d)"
proof -
  let ?k = "n div (16 * bits m)"
  have "16 * bits m * ?k \<le> n" by (rule times_div_less_eq_dividend)
  from bd_next_blocks [OF assms(1) this assms(2)] obtain d where
    d: "act_repeat (128 * ?k) bd_next (bd_new mem n m) = Inr (concat (map (bp_values (bits m) mem) [0..<?k]), d)"
    "bd_size d = n" "bd_maxbits d = bits m" "bd_pos d = 16 * bits m * ?k" "bd_outbuf_pos d = 128" by auto
  have "n < 16 * bits m * ?k + 16 * bits m"
    using assms(1) dividend_less_times_div [of "16 * bits m" n] by simp
  with d bd_next_exhausted [of d] assms(1) show ?thesis by auto
qed

interpretation bitpack: value_codec "\<lambda>v e. Inr (be_encode v e)" "\<lambda>e. be_data (be_flush e)"
  "\<lambda>mem n. Inr (bd_new mem n m)" bd_next "\<lambda>v. v \<le> m" "be_written m" "bd_holds m" for m
  by unfold_locales
     (auto simp: be_encode_written be_size_def be_data_def bd_next_holds intro!: bd_new_holds)

text \<open>The size of a flushed encoder: whole blocks of \<open>16 * maxbits\<close> bytes.\<close>

lemma be_flush_size:
  "be_written m e vs \<Longrightarrow> be_size (be_flush e) = 16 * bits m * ((length vs + 127) div 128)"
  by (simp add: be_size_def be_flush_buf length_bp_blocks)

end
