(* ===== verification/CS_ColumnV1.thy ===== *)
theory CS_ColumnV1
  imports CS_BitPack
begin

text \<open>
  The base classes of the columns of the first file format
  (\<open>cstable/columns/v1/ColumnWriter.cc\<close>, \<open>cstable/columns/v1/ColumnReader.h\<close>): a column is
  a header of four 64-bit integers, the bit-packed repetition levels, the bit-packed
  definition levels and the values. The subclasses differ in the stream of values only,
  which is a parameter here. The locale \<open>v1_column\<close> shows, for any stream of values that
  keeps the contract \<open>value_codec\<close>, that a reader opened on a written column delivers the
  levels and values of its cells in order.
\<close>

section \<open>ColumnWriter\<close>

record 'w v1_writer =
  cw_r_max :: u64
  cw_d_max :: u64
  cw_rlvl_writer :: bp_encoder
  cw_dlvl_writer :: bp_encoder
  cw_num_vals :: nat
  cw_data_writer :: 'w

definition v1_ColumnWriter :: "u64 \<Rightarrow> u64 \<Rightarrow> 'w \<Rightarrow> 'w v1_writer" where
  "v1_ColumnWriter r_max d_max data =
     \<lparr>cw_r_max = r_max, cw_d_max = d_max, cw_rlvl_writer = be_new (ucast r_max),
      cw_dlvl_writer = be_new (ucast d_max), cw_num_vals = 0, cw_data_writer = data\<rparr>"

definition v1_writeNull :: "u64 \<Rightarrow> u64 \<Rightarrow> 'w v1_writer \<Rightarrow> 'w v1_writer" where
  "v1_writeNull rlvl dlvl w =
     w\<lparr>cw_rlvl_writer := be_encode (ucast rlvl) (cw_rlvl_writer w),
       cw_dlvl_writer := be_encode (ucast dlvl) (cw_dlvl_writer w),
       cw_num_vals := cw_num_vals w + 1\<rparr>"

text \<open>
  The typed \<open>addDatum\<close> of every subclass: both levels, then the value with the append
  operation of its stream.
\<close>

definition v1_add :: "('w \<Rightarrow> 'w res) \<Rightarrow> u64 \<Rightarrow> u64 \<Rightarrow> 'w v1_writer \<Rightarrow> 'w v1_writer res" where
  "v1_add put rlvl dlvl w =
     res_bind (put (cw_data_writer w)) (\<lambda>data.
       Inr ((v1_writeNull rlvl dlvl w)\<lparr>cw_data_writer := data\<rparr>))"

definition v1_commit :: "('w \<Rightarrow> 'w) \<Rightarrow> 'w v1_writer \<Rightarrow> 'w v1_writer" where
  "v1_commit flush w =
     w\<lparr>cw_rlvl_writer := be_flush (cw_rlvl_writer w), cw_dlvl_writer := be_flush (cw_dlvl_writer w),
       cw_data_writer := flush (cw_data_writer w)\<rparr>"

definition v1_bodySize :: "('w \<Rightarrow> nat) \<Rightarrow> 'w v1_writer \<Rightarrow> nat" where
  "v1_bodySize sz w = 32 + be_size (cw_rlvl_writer w) + be_size (cw_dlvl_writer w) + sz (cw_data_writer w)"

definition v1_write ::
  "('w \<Rightarrow> nat) \<Rightarrow> ('w \<Rightarrow> message_writer \<Rightarrow> message_writer res) \<Rightarrow> nat \<Rightarrow> 'w v1_writer \<Rightarrow> message_writer res" where
  "v1_write sz write_data buf_len w =
     mw_seq
       [mw_appendUInt64 (word_of_nat (cw_num_vals w)),
        mw_appendUInt64 (word_of_nat (be_size (cw_rlvl_writer w))),
        mw_appendUInt64 (word_of_nat (be_size (cw_dlvl_writer w))),
        mw_appendUInt64 (word_of_nat (sz (cw_data_writer w))),
        mw_append (be_data (cw_rlvl_writer w)),
        mw_append (be_data (cw_dlvl_writer w)),
        write_data (cw_data_writer w)]
       (mw_on_buffer buf_len)"

section \<open>ColumnReader\<close>

record 'r v1_reader =
  cr_r_max :: u64
  cr_d_max :: u64
  cr_vals_total :: u64
  cr_vals_read :: nat
  cr_rlvl_size :: u64
  cr_dlvl_size :: u64
  cr_data_size :: u64
  cr_rlvl_reader :: bp_decoder
  cr_dlvl_reader :: bp_decoder
  cr_data_reader :: 'r

text \<open>
  \<open>mem\<close> is the memory from the \<open>data\<close> pointer to the end of its mapping. The subclass
  opens its stream on the rest of the memory with the size the header gives.
\<close>

definition v1_ColumnReader ::
  "(bytes \<Rightarrow> nat \<Rightarrow> 'r res) \<Rightarrow> u64 \<Rightarrow> u64 \<Rightarrow> bytes \<Rightarrow> nat \<Rightarrow> 'r v1_reader res" where
  "v1_ColumnReader open_data r_max d_max mem n =
     res_bind (mr_readUInt64 (mr_open mem n)) (\<lambda>(vals_total, rd).
     res_bind (mr_readUInt64 rd) (\<lambda>(rlvl_size, rd).
     res_bind (mr_readUInt64 rd) (\<lambda>(dlvl_size, rd).
     res_bind (mr_readUInt64 rd) (\<lambda>(data_size, rd).
     res_bind (open_data (drop (32 + unat rlvl_size + unat dlvl_size) mem) (unat data_size)) (\<lambda>data.
       Inr \<lparr>cr_r_max = r_max, cr_d_max = d_max, cr_vals_total = vals_total, cr_vals_read = 0,
            cr_rlvl_size = rlvl_size, cr_dlvl_size = dlvl_size, cr_data_size = data_size,
            cr_rlvl_reader = bd_new (drop 32 mem) (unat rlvl_size) (ucast r_max),
            cr_dlvl_reader = bd_new (drop (32 + unat rlvl_size) mem) (unat dlvl_size) (ucast d_max),
            cr_data_reader = data\<rparr>)))))"

definition v1_nextRepetitionLevel :: "'r v1_reader \<Rightarrow> (u64 \<times> 'r v1_reader) res" where
  "v1_nextRepetitionLevel cr =
     res_bind (bd_peek (cr_rlvl_reader cr)) (\<lambda>(r, rd). Inr (ucast r, cr\<lparr>cr_rlvl_reader := rd\<rparr>))"

definition v1_eofReached :: "'r v1_reader \<Rightarrow> bool" where
  "v1_eofReached cr \<longleftrightarrow> cr_vals_read cr \<ge> unat (cr_vals_total cr)"

text \<open>
  The read method of a subclass for the type of its stream: the result says whether there
  is a value, and gives the repetition level, the definition level and the value (or the
  value that stands for null). The other read methods convert that value.
\<close>

type_synonym 'v cell_read = "bool \<times> u64 \<times> u64 \<times> 'v"

definition v1_read :: "('r \<Rightarrow> ('v \<times> 'r) res) \<Rightarrow> 'v \<Rightarrow> 'r v1_reader \<Rightarrow> ('v cell_read \<times> 'r v1_reader) res" where
  "v1_read get null cr =
     res_bind (bd_next (cr_rlvl_reader cr)) (\<lambda>(r, rlvl_reader).
     res_bind (bd_next (cr_dlvl_reader cr)) (\<lambda>(d, dlvl_reader).
       let cr = cr\<lparr>cr_rlvl_reader := rlvl_reader, cr_dlvl_reader := dlvl_reader,
                   cr_vals_read := cr_vals_read cr + 1\<rparr>
       in if ucast d = cr_d_max cr
          then res_bind (get (cr_data_reader cr)) (\<lambda>(v, data).
                 Inr ((True, ucast r, ucast d, v), cr\<lparr>cr_data_reader := data\<rparr>))
          else Inr ((False, ucast r, ucast d, null), cr)))"

definition v1_convert ::
  "('s \<Rightarrow> ('v cell_read \<times> 's) res) \<Rightarrow> ('v \<Rightarrow> 'u res) \<Rightarrow> 'u \<Rightarrow> 's \<Rightarrow> ('u cell_read \<times> 's) res" where
  "v1_convert read f null =
     act_bind read (\<lambda>(present, r, d, tmp) s.
       if present then res_bind (f tmp) (\<lambda>v. Inr ((True, r, d, v), s))
       else Inr ((False, r, d, null), s))"

section \<open>Cells\<close>

text \<open>
  A cell is a repetition level, a definition level and a value; there is no value exactly
  when the definition level is below its maximum.
\<close>

type_synonym 'v cell = "u64 \<times> u64 \<times> 'v option"

definition cell_ok :: "u64 \<Rightarrow> u64 \<Rightarrow> 'v cell \<Rightarrow> bool" where
  "cell_ok r_max d_max c \<longleftrightarrow>
     (case c of (r, d, v) \<Rightarrow> r \<le> r_max \<and> d \<le> d_max \<and> (v = None \<longleftrightarrow> d \<noteq> d_max))"

definition cell_values :: "'v cell list \<Rightarrow> 'v list" where
  "cell_values cs = List.map_filter (\<lambda>(r, d, v). v) cs"

definition cell_result :: "'v \<Rightarrow> 'v cell \<Rightarrow> 'v cell_read" where
  "cell_result null c =
     (case c of (r, d, Some v) \<Rightarrow> (True, r, d, v) | (r, d, None) \<Rightarrow> (False, r, d, null))"

lemma cell_values_simps [simp]:
  "cell_values [] = []"
  "cell_values ((r, d, Some v) # cs) = v # cell_values cs"
  "cell_values ((r, d, None) # cs) = cell_values cs"
  "cell_values (cs @ ds) = cell_values cs @ cell_values ds"
  by (simp_all add: cell_values_def map_filter_def)

text \<open>Levels are truncated to 32 bits by the encoders; the maximum levels fit in 32 bits.\<close>

definition level_max :: "u64 \<Rightarrow> bool" where
  "level_max m \<longleftrightarrow> unat m < 2 ^ 32"

lemma ucast_level:
  assumes "level_max m" and "r \<le> m"
  shows "ucast (ucast r :: u32) = r" "(ucast r :: u32) \<le> ucast m"
proof -
  have "unat r < 2 ^ 32" using assms by (simp add: level_max_def word_le_nat_alt)
  then have r: "unat (ucast r :: u32) = unat r" by (simp add: unsigned_ucast_eq take_bit_eq_mod)
  have m: "unat (ucast m :: u32) = unat m" using assms(1) by (simp add: level_max_def unsigned_ucast_eq take_bit_eq_mod)
  show "(ucast r :: u32) \<le> ucast m" using assms(2) by (simp add: word_le_nat_alt r m)
  show "ucast (ucast r :: u32) = r"
    using \<open>unat r < 2 ^ 32\<close>
    by (intro word_unat_eq_iff [THEN iffD2]) (simp add: unsigned_ucast_eq take_bit_eq_mod unat_mod_distrib)
qed

definition level_codes :: "u64 list \<Rightarrow> u32 list" where
  "level_codes rs = map ucast rs"

text \<open>
  \<open>v1_levels w cs\<close>: the level encoders of \<open>w\<close> hold the levels of the cells \<open>cs\<close>;
  \<open>v1_cells cr cs\<close>: the level decoders of \<open>cr\<close> deliver them and the counters fit.
\<close>

definition v1_levels :: "'w v1_writer \<Rightarrow> 'v cell list \<Rightarrow> bool" where
  "v1_levels w cs \<longleftrightarrow>
     level_max (cw_r_max w) \<and> level_max (cw_d_max w) \<and>
     (\<forall>c \<in> set cs. cell_ok (cw_r_max w) (cw_d_max w) c) \<and> cw_num_vals w = length cs \<and>
     be_written (ucast (cw_r_max w)) (cw_rlvl_writer w) (map (\<lambda>(r, d, v). ucast r) cs) \<and>
     be_written (ucast (cw_d_max w)) (cw_dlvl_writer w) (map (\<lambda>(r, d, v). ucast d) cs)"

definition v1_cells :: "'r v1_reader \<Rightarrow> 'v cell list \<Rightarrow> bool" where
  "v1_cells cr cs \<longleftrightarrow>
     level_max (cr_r_max cr) \<and> level_max (cr_d_max cr) \<and>
     (\<forall>c \<in> set cs. cell_ok (cr_r_max cr) (cr_d_max cr) c) \<and>
     cr_vals_read cr + length cs = unat (cr_vals_total cr) \<and>
     bd_holds (ucast (cr_r_max cr)) (cr_rlvl_reader cr) (map (\<lambda>(r, d, v). ucast r) cs) \<and>
     bd_holds (ucast (cr_d_max cr)) (cr_dlvl_reader cr) (map (\<lambda>(r, d, v). ucast d) cs)"

lemma v1_levels_new: "level_max r_max \<Longrightarrow> level_max d_max \<Longrightarrow> v1_levels (v1_ColumnWriter r_max d_max w) []"
  by (simp add: v1_levels_def v1_ColumnWriter_def be_new_written)

lemma v1_levels_writeNull:
  assumes "v1_levels w cs" and "cell_ok (cw_r_max w) (cw_d_max w) (r, d, v)"
  shows "v1_levels (v1_writeNull r d w) (cs @ [(r, d, v)])"
  using assms by (auto simp: v1_levels_def v1_writeNull_def cell_ok_def ucast_level(2)
      intro!: be_encode_written)

lemma v1_levels_data [simp]: "v1_levels (w\<lparr>cw_data_writer := data\<rparr>) cs \<longleftrightarrow> v1_levels w cs"
  by (simp add: v1_levels_def)

lemma v1_eof: "v1_cells cr cs \<Longrightarrow> v1_eofReached cr \<longleftrightarrow> cs = []"
  by (cases cs) (auto simp: v1_cells_def v1_eofReached_def)

lemma v1_peek:
  assumes "v1_cells cr ((r, d, v) # cs)"
  shows "\<exists>cr'. v1_nextRepetitionLevel cr = Inr (r, cr') \<and> v1_cells cr' ((r, d, v) # cs) \<and>
    cr_data_reader cr' = cr_data_reader cr \<and> cr_r_max cr' = cr_r_max cr \<and> cr_d_max cr' = cr_d_max cr"
proof -
  from assms have "bd_holds (ucast (cr_r_max cr)) (cr_rlvl_reader cr) (ucast r # map (\<lambda>(r, d, v). ucast r) cs)"
    by (simp add: v1_cells_def)
  from bd_peek_holds [OF this] obtain rd where "bd_peek (cr_rlvl_reader cr) = Inr (ucast r, rd)"
    "bd_holds (ucast (cr_r_max cr)) rd (ucast r # map (\<lambda>(r, d, v). ucast r) cs)" by blast
  moreover have "ucast (ucast r :: u32) = r"
    using assms ucast_level(1) [of "cr_r_max cr" r] by (simp add: v1_cells_def cell_ok_def)
  ultimately show ?thesis
    using assms by (auto simp: v1_nextRepetitionLevel_def v1_cells_def)
qed

section \<open>Any column\<close>

text \<open>The bytes of a committed column.\<close>

definition v1_image :: "('w \<Rightarrow> nat) \<Rightarrow> ('w \<Rightarrow> bytes) \<Rightarrow> 'w v1_writer \<Rightarrow> bytes" where
  "v1_image sz body w =
     u64_bytes (word_of_nat (cw_num_vals w)) @ u64_bytes (word_of_nat (be_size (cw_rlvl_writer w))) @
     u64_bytes (word_of_nat (be_size (cw_dlvl_writer w))) @ u64_bytes (word_of_nat (sz (cw_data_writer w))) @
     be_data (cw_rlvl_writer w) @ be_data (cw_dlvl_writer w) @ body (cw_data_writer w)"

lemma length_be_data [simp]: "length (be_data e) = be_size e"
  by (simp add: be_data_def be_size_def)

lemma v1_write_writes:
  assumes "mw_writes (write_data (cw_data_writer w)) (body (cw_data_writer w))"
    and "length (body (cw_data_writer w)) \<le> sz (cw_data_writer w)"
  shows "\<exists>m. v1_write sz write_data (v1_bodySize sz w) w = Inr m \<and> mw_data m = v1_image sz body w \<and>
    length (v1_image sz body w) \<le> v1_bodySize sz w"
proof -
  let ?fs = "[mw_appendUInt64 (word_of_nat (cw_num_vals w)),
        mw_appendUInt64 (word_of_nat (be_size (cw_rlvl_writer w))),
        mw_appendUInt64 (word_of_nat (be_size (cw_dlvl_writer w))),
        mw_appendUInt64 (word_of_nat (sz (cw_data_writer w))),
        mw_append (be_data (cw_rlvl_writer w)),
        mw_append (be_data (cw_dlvl_writer w)),
        write_data (cw_data_writer w)]"
  have "mw_writes (mw_seq ?fs) (v1_image sz body w @ [])"
    unfolding v1_image_def append_assoc
    by (intro mw_writes_seq_Cons mw_writes_seq_Nil mw_writes_ops mw_writes_append assms(1))
  then have wr: "mw_writes (mw_seq ?fs) (v1_image sz body w)" by simp
  have len: "length (v1_image sz body w) \<le> v1_bodySize sz w"
    using assms(2) by (simp add: v1_image_def v1_bodySize_def)
  then have "mw_room (length (v1_image sz body w)) (mw_on_buffer (v1_bodySize sz w))" by simp
  from mw_writesD [OF wr this] len show ?thesis by (auto simp: v1_write_def)
qed

text \<open>What the constructor of a reader finds at the start of a column.\<close>

lemma v1_ColumnReader_opens:
  assumes mem: "mem = u64_bytes a @ u64_bytes b @ u64_bytes c @ u64_bytes e @ rest"
    and n: "32 \<le> n" "n \<le> length mem" "length mem < 2 ^ 63"
  shows "v1_ColumnReader open_data r_max d_max mem n =
    res_bind (open_data (drop (32 + unat b + unat c) mem) (unat e)) (\<lambda>data.
      Inr \<lparr>cr_r_max = r_max, cr_d_max = d_max, cr_vals_total = a, cr_vals_read = 0,
           cr_rlvl_size = b, cr_dlvl_size = c, cr_data_size = e,
           cr_rlvl_reader = bd_new (drop 32 mem) (unat b) (ucast r_max),
           cr_dlvl_reader = bd_new (drop (32 + unat b) mem) (unat c) (ucast d_max),
           cr_data_reader = data\<rparr>)"
proof -
  define r0 where "r0 = mr_open mem n"
  have ok: "mr_ok r0" using n by (simp add: r0_def mr_ok_def mr_open_def)
  have r: "mr_rest r0 = u64_bytes a @ u64_bytes b @ u64_bytes c @ u64_bytes e @ take (n - 32) rest"
    using n(1) by (simp add: r0_def mr_rest_def mr_open_def mem)
  have rd: "mr_readUInt64 q = Inr (x, mr_advance 8 q)" if "mr_ok q" "mr_rest q = u64_bytes x @ xs" for q x xs
    using mr_readsD [OF mr_reads_ops(4) that] by simp
  have "mr_readUInt64 r0 = Inr (a, mr_advance 8 r0)" using ok r by (rule rd)
  moreover have "mr_readUInt64 (mr_advance 8 r0) = Inr (b, mr_advance 16 r0)"
    using rd [of "mr_advance 8 r0" b] ok by (simp add: r)
  moreover have "mr_readUInt64 (mr_advance 16 r0) = Inr (c, mr_advance 24 r0)"
    using rd [of "mr_advance 16 r0" c] ok by (simp add: r)
  moreover have "mr_readUInt64 (mr_advance 24 r0) = Inr (e, mr_advance 32 r0)"
    using rd [of "mr_advance 24 r0" e] ok by (simp add: r)
  ultimately show ?thesis by (simp add: v1_ColumnReader_def flip: r0_def)
qed

locale v1_column = value_codec put "\<lambda>w. body (fin w)" open_mem get valid written holds
  for put :: "'v \<Rightarrow> 'w \<Rightarrow> 'w res" and fin :: "'w \<Rightarrow> 'w" and body :: "'w \<Rightarrow> bytes"
    and open_mem :: "bytes \<Rightarrow> nat \<Rightarrow> 'r res" and get :: "'r \<Rightarrow> ('v \<times> 'r) res"
    and valid :: "'v \<Rightarrow> bool" and written :: "'w \<Rightarrow> 'v list \<Rightarrow> bool" and holds :: "'r \<Rightarrow> 'v list \<Rightarrow> bool" +
  fixes sz :: "'w \<Rightarrow> nat" and write_data :: "'w \<Rightarrow> message_writer \<Rightarrow> message_writer res"
  assumes write_body: "mw_writes (write_data w) (body w)"
    and body_size: "length (body (fin w)) \<le> sz (fin w)"
begin

definition column :: "u64 \<Rightarrow> u64 \<Rightarrow> 'w v1_writer \<Rightarrow> 'v cell list \<Rightarrow> bool" where
  "column r_max d_max w cs \<longleftrightarrow> cw_r_max w = r_max \<and> cw_d_max w = d_max \<and>
     v1_levels w cs \<and> written (cw_data_writer w) (cell_values cs)"

definition delivers :: "u64 \<Rightarrow> u64 \<Rightarrow> 'r v1_reader \<Rightarrow> 'v cell list \<Rightarrow> bool" where
  "delivers r_max d_max cr cs \<longleftrightarrow> cr_r_max cr = r_max \<and> cr_d_max cr = d_max \<and>
     v1_cells cr cs \<and> holds (cr_data_reader cr) (cell_values cs)"

lemma column_new:
  "level_max r_max \<Longrightarrow> level_max d_max \<Longrightarrow> written w [] \<Longrightarrow> column r_max d_max (v1_ColumnWriter r_max d_max w) []"
  by (simp add: column_def v1_levels_new) (simp add: v1_ColumnWriter_def)

lemma column_null:
  assumes "column r_max d_max w cs" and "cell_ok r_max d_max (r, d, None :: 'v option)"
  shows "column r_max d_max (v1_writeNull r d w) (cs @ [(r, d, None)])"
  using assms v1_levels_writeNull [of w cs r d None] by (simp add: column_def) (simp add: v1_writeNull_def)

lemma column_add:
  assumes "column r_max d_max w cs" and "cell_ok r_max d_max (r, d, Some v)" and "valid v"
  shows "\<exists>w'. v1_add (put v) r d w = Inr w' \<and> column r_max d_max w' (cs @ [(r, d, Some v)])"
proof -
  from assms put_written [of "cw_data_writer w" "cell_values cs" v] obtain data where
    "put v (cw_data_writer w) = Inr data" "written data (cell_values cs @ [v])"
    by (auto simp: column_def)
  moreover have "v1_levels (v1_writeNull r d w) (cs @ [(r, d, Some v)])"
    using assms by (intro v1_levels_writeNull) (auto simp: column_def)
  ultimately show ?thesis using assms(1)
    by (auto simp: v1_add_def column_def v1_writeNull_def)
qed

lemma column_write:
  "\<exists>m. v1_write sz write_data (v1_bodySize sz (v1_commit fin w)) (v1_commit fin w) = Inr m \<and>
     mw_data m = v1_image sz body (v1_commit fin w) \<and>
     length (v1_image sz body (v1_commit fin w)) \<le> v1_bodySize sz (v1_commit fin w)"
  using write_body body_size by (intro v1_write_writes) (simp_all add: v1_commit_def)

lemma column_open:
  assumes w: "column r_max d_max w cs" and count: "length cs < 2 ^ 64"
    and n: "n = v1_bodySize sz (v1_commit fin w)" "n \<le> length mem" "length mem < 2 ^ 63"
    and mem: "take (length (v1_image sz body (v1_commit fin w))) mem = v1_image sz body (v1_commit fin w)"
  shows "\<exists>cr. v1_ColumnReader open_mem r_max d_max mem n = Inr cr \<and> delivers r_max d_max cr cs"
proof -
  define w' where "w' = v1_commit fin w"
  define R where "R = be_data (cw_rlvl_writer w')"
  define D where "D = be_data (cw_dlvl_writer w')"
  define B where "B = body (fin (cw_data_writer w))"
  define k where "k = sz (fin (cw_data_writer w))"
  let ?I = "v1_image sz body w'"
  from mem obtain junk where "mem = ?I @ junk" by (metis append_take_drop_id w'_def)
  then have m: "mem = u64_bytes (word_of_nat (length cs)) @ u64_bytes (word_of_nat (length R)) @
      u64_bytes (word_of_nat (length D)) @ u64_bytes (word_of_nat k) @ (R @ D @ B @ junk)"
    using w by (simp add: v1_image_def w'_def v1_commit_def column_def v1_levels_def R_def D_def B_def k_def)
  have nk: "n = 32 + length R + length D + k"
    by (simp add: n(1) v1_bodySize_def R_def D_def k_def w'_def v1_commit_def)
  have Bk: "length B \<le> k" by (simp add: B_def k_def body_size)
  have u: "unat (word_of_nat (length R) :: u64) = length R" "unat (word_of_nat (length D) :: u64) = length D"
    "unat (word_of_nat k :: u64) = k" "unat (word_of_nat (length cs) :: u64) = length cs"
    using nk n(2,3) count by (simp_all add: unat_of_nat)
  have mD: "drop (32 + length R) mem = D @ B @ junk" and mB: "drop (32 + length R + length D) mem = B @ junk"
    and mR: "drop 32 mem = R @ D @ B @ junk"
    by (simp_all add: m)
  have "\<exists>data. open_mem (B @ junk) k = Inr data \<and> holds data (cell_values cs)"
  proof (rule open_holds)
    show "written (cw_data_writer w) (cell_values cs)" using w by (simp add: column_def)
    have "length (B @ junk) = length mem - (32 + length R + length D)" by (simp flip: mB)
    then show "k \<le> length (B @ junk)" "length (B @ junk) < 2 ^ 63" using nk n(2,3) by linarith+
  qed (use Bk in \<open>simp_all add: B_def\<close>)
  then obtain data where data: "open_mem (B @ junk) k = Inr data" "holds data (cell_values cs)" by blast
  let ?cr = "\<lparr>cr_r_max = r_max, cr_d_max = d_max, cr_vals_total = word_of_nat (length cs), cr_vals_read = 0,
      cr_rlvl_size = word_of_nat (length R), cr_dlvl_size = word_of_nat (length D), cr_data_size = word_of_nat k,
      cr_rlvl_reader = bd_new (R @ D @ B @ junk) (length R) (ucast r_max),
      cr_dlvl_reader = bd_new (D @ B @ junk) (length D) (ucast d_max), cr_data_reader = data\<rparr>"
  have "v1_ColumnReader open_mem r_max d_max mem n = Inr ?cr"
    using v1_ColumnReader_opens [OF m, of n open_mem r_max d_max] nk n(2,3) data(1)
    by (simp add: u mR mD mB)
  moreover have "delivers r_max d_max ?cr cs"
  proof -
    from w have lv: "v1_levels w cs" "cw_r_max w = r_max" "cw_d_max w = d_max" by (simp_all add: column_def)
    have "bd_holds (ucast r_max) (bd_new (R @ D @ B @ junk) (length R) (ucast r_max)) (map (\<lambda>(r, d, v). ucast r) cs)"
      by (rule bd_new_holds [where e = "cw_rlvl_writer w"])
         (use lv in \<open>simp_all add: v1_levels_def R_def w'_def v1_commit_def\<close>)
    moreover have "bd_holds (ucast d_max) (bd_new (D @ B @ junk) (length D) (ucast d_max)) (map (\<lambda>(r, d, v). ucast d) cs)"
      by (rule bd_new_holds [where e = "cw_dlvl_writer w"])
         (use lv in \<open>simp_all add: v1_levels_def D_def w'_def v1_commit_def\<close>)
    ultimately show ?thesis using lv data(2) by (simp add: delivers_def v1_cells_def v1_levels_def u)
  qed
  ultimately show ?thesis by blast
qed

lemma delivers_read:
  assumes "delivers r_max d_max cr (c # cs)"
  shows "\<exists>cr'. v1_read get null cr = Inr (cell_result null c, cr') \<and> delivers r_max d_max cr' cs"
proof -
  obtain r d v where c: "c = (r, d, v)" by (cases c)
  from assms have cr: "v1_cells cr ((r, d, v) # cs)" "cr_r_max cr = r_max" "cr_d_max cr = d_max"
    "holds (cr_data_reader cr) (cell_values ((r, d, v) # cs))"
    by (simp_all add: delivers_def c)
  then have "bd_holds (ucast r_max) (cr_rlvl_reader cr) (ucast r # map (\<lambda>(r, d, v). ucast r) cs)"
    "bd_holds (ucast d_max) (cr_dlvl_reader cr) (ucast d # map (\<lambda>(r, d, v). ucast d) cs)"
    by (simp_all add: v1_cells_def)
  then obtain rl dl where lv: "bd_next (cr_rlvl_reader cr) = Inr (ucast r, rl)"
    "bd_holds (ucast r_max) rl (map (\<lambda>(r, d, v). ucast r) cs)"
    "bd_next (cr_dlvl_reader cr) = Inr (ucast d, dl)"
    "bd_holds (ucast d_max) dl (map (\<lambda>(r, d, v). ucast d) cs)"
    using bd_next_holds by meson
  from cr have ok: "level_max r_max" "level_max d_max" "cell_ok r_max d_max (r, d, v)"
    by (simp_all add: v1_cells_def)
  then have uc: "ucast (ucast r :: u32) = r" "ucast (ucast d :: u32) = d" "v = None \<longleftrightarrow> d \<noteq> d_max"
    using ucast_level(1) by (auto simp: cell_ok_def)
  show ?thesis
  proof (cases v)
    case None
    with uc cr lv show ?thesis
      by (auto simp: v1_read_def Let_def c cell_result_def delivers_def v1_cells_def)
  next
    case (Some x)
    with cr(4) obtain data where "get (cr_data_reader cr) = Inr (x, data)" "holds data (cell_values cs)"
      using get_holds [of "cr_data_reader cr" x "cell_values cs"] by auto
    with Some uc cr lv show ?thesis
      by (auto simp: v1_read_def Let_def c cell_result_def delivers_def v1_cells_def)
  qed
qed

lemma delivers_repeat:
  "delivers r_max d_max cr cs \<Longrightarrow>
   \<exists>cr'. act_repeat (length cs) (v1_read get null) cr = Inr (map (cell_result null) cs, cr') \<and>
     delivers r_max d_max cr' []"
  using act_repeat_rel [of "delivers r_max d_max" cr cs "[]" "v1_read get null" "cell_result null"]
    delivers_read by simp

end

end
