(* ===== verification/CS_Convert.thy ===== *)
theory CS_Convert
  imports CS_Binary
begin

text \<open>
  The conversions between the value types of a column: decimal strings
  (\<open>StringUtil::toString\<close> in \<open>stx/stringutil.cc\<close>, and \<open>std::stoull\<close>, \<open>std::stoll\<close>), and
  the built-in conversions and comparisons of C++ between 64-bit integers and doubles,
  written on the bits of the double. Characters are bytes in ASCII.
\<close>

section \<open>Decimal strings\<close>

definition digit_char :: "nat \<Rightarrow> byte" where
  "digit_char n = word_of_nat (48 + n)"

fun digits :: "nat \<Rightarrow> bytes" where
  "digits n = (if n < 10 then [digit_char n] else digits (n div 10) @ [digit_char (n mod 10)])"

declare digits.simps [simp del]

definition toString_u64 :: "u64 \<Rightarrow> bytes" where
  "toString_u64 value = digits (unat value)"

definition is_digit :: "byte \<Rightarrow> bool" where
  "is_digit c \<longleftrightarrow> 48 \<le> unat c \<and> unat c \<le> 57"

definition is_space :: "byte \<Rightarrow> bool" where
  "is_space c \<longleftrightarrow> c = 32 \<or> (9 \<le> unat c \<and> unat c \<le> 13)"

text \<open>
  The subject sequence of \<open>strtoull\<close> and \<open>strtoll\<close> in base 10: white space, a sign and a
  non-empty run of digits; what follows is ignored.
\<close>

definition digits_value :: "bytes \<Rightarrow> nat" where
  "digits_value = foldl (\<lambda>n c. 10 * n + (unat c - 48)) 0"

definition strtol_parse :: "bytes \<Rightarrow> (bool \<times> nat) option" where
  "strtol_parse s =
     (let s' = dropWhile is_space s;
          neg = (s' \<noteq> [] \<and> hd s' = 45);
          s'' = (if s' \<noteq> [] \<and> (hd s' = 45 \<or> hd s' = 43) then tl s' else s');
          ds = takeWhile is_digit s''
      in if ds = [] then None else Some (neg, digits_value ds))"

definition stoull :: "bytes \<Rightarrow> u64 res" where
  "stoull s =
     (case strtol_parse s of
        None \<Rightarrow> Inl StdInvalidArgument
      | Some (neg, n) \<Rightarrow>
          (if n \<ge> 2 ^ 64 then Inl StdOutOfRange
           else Inr (if neg then - word_of_nat n else word_of_nat n)))"

text \<open>A signed 64-bit integer is kept as its word.\<close>

definition stoll :: "bytes \<Rightarrow> u64 res" where
  "stoll s =
     (case strtol_parse s of
        None \<Rightarrow> Inl StdInvalidArgument
      | Some (neg, n) \<Rightarrow>
          (if n > (if neg then 2 ^ 63 else 2 ^ 63 - 1) then Inl StdOutOfRange
           else Inr (if neg then - word_of_nat n else word_of_nat n)))"

section \<open>Doubles and integers\<close>

fun bit_length :: "nat \<Rightarrow> nat" where
  "bit_length n = (if n = 0 then 0 else Suc (bit_length (n div 2)))"

declare bit_length.simps [simp del]

text \<open>
  The conversion of an unsigned integer rounds to the nearest double, ties to even; a carry
  out of the significand moves into the exponent.
\<close>

definition round_div :: "nat \<Rightarrow> nat \<Rightarrow> nat" where
  "round_div n d =
     (let q = n div d; r = n mod d
      in if 2 * r > d \<or> (2 * r = d \<and> odd q) then q + 1 else q)"

definition u64_to_double :: "u64 \<Rightarrow> double" where
  "u64_to_double v =
     (if v = 0 then Double 0
      else let n = unat v; e = bit_length n - 1;
               q = (if e \<le> 52 then n * 2 ^ (52 - e) else round_div n (2 ^ (e - 52)))
           in Double (word_of_nat ((1023 + e) * 2 ^ 52 + (q - 2 ^ 52))))"

definition double_sign :: "double \<Rightarrow> bool" where
  "double_sign x \<longleftrightarrow> unat (double_bits x) \<ge> 2 ^ 63"

definition double_exp :: "double \<Rightarrow> nat" where
  "double_exp x = unat (double_bits x) div 2 ^ 52 mod 2048"

definition double_frac :: "double \<Rightarrow> nat" where
  "double_frac x = unat (double_bits x) mod 2 ^ 52"

text \<open>The magnitude of a finite double of at least 1, rounded towards zero.\<close>

definition double_trunc :: "double \<Rightarrow> nat" where
  "double_trunc x =
     (let m = 2 ^ 52 + double_frac x; e = double_exp x
      in if e < 1023 then 0
         else if e \<ge> 1075 then m * 2 ^ (e - 1075) else m div 2 ^ (1075 - e))"

definition double_to_u64 :: "double \<Rightarrow> u64 res" where
  "double_to_u64 x =
     (if double_exp x = 2047 \<or> (double_sign x \<and> double_trunc x \<noteq> 0) \<or> double_trunc x \<ge> 2 ^ 64
      then Inl Undefined else Inr (word_of_nat (double_trunc x)))"

definition double_to_i64 :: "double \<Rightarrow> u64 res" where
  "double_to_i64 x =
     (if double_exp x = 2047 \<or> double_trunc x > (if double_sign x then 2 ^ 63 else 2 ^ 63 - 1)
      then Inl Undefined
      else Inr (if double_sign x then - word_of_nat (double_trunc x) else word_of_nat (double_trunc x)))"

definition double_gt_1 :: "double \<Rightarrow> bool" where
  "double_gt_1 x \<longleftrightarrow>
     1023 * 2 ^ 52 < unat (double_bits x) \<and> unat (double_bits x) \<le> 2047 * 2 ^ 52"

text \<open>
  \<open>toString(double)\<close> prints with \<open>"%f"\<close> into a buffer of 128 bytes and strips trailing zeros.
  A longer text is cut by \<open>snprintf\<close>, whose result still is the full length: the loop then
  reads behind the buffer.
\<close>

fun pad_digits :: "nat \<Rightarrow> nat \<Rightarrow> bytes" where
  "pad_digits 0 n = []"
| "pad_digits (Suc k) n = pad_digits k (n div 10) @ [digit_char (n mod 10)]"

definition printf_f :: "double \<Rightarrow> bytes" where
  "printf_f x =
     (let m = (if double_exp x = 0 then double_frac x else 2 ^ 52 + double_frac x);
          e = max 1 (double_exp x);
          q = (if e \<ge> 1075 then m * 10 ^ 6 * 2 ^ (e - 1075) else round_div (m * 10 ^ 6) (2 ^ (1075 - e)))
      in (if double_sign x then [45] else []) @
         (if double_exp x = 2047 then (if double_frac x = 0 then [105, 110, 102] else [110, 97, 110])
          else digits (q div 10 ^ 6) @ [46] @ pad_digits 6 (q mod 10 ^ 6)))"

fun strip_zeros :: "bytes \<Rightarrow> bytes" where
  "strip_zeros (a # b # c # cs) = (if a = 48 \<and> b \<noteq> 46 then strip_zeros (b # c # cs) else a # b # c # cs)"
| "strip_zeros cs = cs"

definition toString_double :: "double \<Rightarrow> bytes res" where
  "toString_double x =
     (let s = printf_f x
      in if length s > 127 then Inl Undefined else Inr (rev (strip_zeros (rev s))))"

section \<open>Printing and parsing\<close>

lemma digits_value_snoc: "digits_value (ds @ [c]) = 10 * digits_value ds + (unat c - 48)"
  by (simp add: digits_value_def)

lemma unat_digit_char [simp]: "n < 10 \<Longrightarrow> unat (digit_char n) = 48 + n"
  unfolding digit_char_def unat_of_nat by simp

lemma digits_props: "digits n \<noteq> [] \<and> (\<forall>c \<in> set (digits n). is_digit c) \<and> digits_value (digits n) = n"
proof (induction n rule: digits.induct)
  case (1 n)
  show ?case
  proof (cases "n < 10")
    case True
    then have "digits n = [digit_char n]" by (subst digits.simps) simp
    with True show ?thesis by (simp add: is_digit_def digits_value_def)
  next
    case False
    then have d: "digits n = digits (n div 10) @ [digit_char (n mod 10)]"
      by (subst digits.simps) simp
    have u: "unat (digit_char (n mod 10)) = 48 + n mod 10" by simp
    from 1 [OF False] have IH: "\<forall>c \<in> set (digits (n div 10)). is_digit c" "digits_value (digits (n div 10)) = n div 10"
      by auto
    have "is_digit (digit_char (n mod 10))"
      unfolding is_digit_def u using mod_less_divisor [of 10 n] by linarith
    with IH show ?thesis unfolding d digits_value_snoc u by auto
  qed
qed

lemma strtol_parse_digits: "strtol_parse (digits n) = Some (False, n)"
proof -
  from digits_props [of n] obtain c cs where c: "digits n = c # cs" "is_digit c" "\<forall>x \<in> set cs. is_digit x"
    "digits_value (c # cs) = n"
    by (cases "digits n") auto
  have ns: "\<not> is_space c" "c \<noteq> 45" "c \<noteq> 43"
    using c(2) by (auto simp: is_digit_def is_space_def)
  have "strtol_parse (c # cs) = Some (False, digits_value (c # takeWhile is_digit cs))"
    using c(2) ns by (simp add: strtol_parse_def)
  moreover have "takeWhile is_digit cs = cs" using c(3) by (simp add: takeWhile_eq_all_conv)
  ultimately show ?thesis using c(1,4) by (simp only:)
qed

lemma stoull_toString: "stoull (toString_u64 v) = Inr v"
  using unat_less_exp [of v] by (simp add: stoull_def toString_u64_def strtol_parse_digits)

lemma bit_length_Suc: "0 < n \<Longrightarrow> bit_length n = Suc (bit_length (n div 2))"
  by (subst bit_length.simps) simp

lemma bit_length_bounds: "0 < n \<Longrightarrow> 2 ^ (bit_length n - 1) \<le> n \<and> n < 2 ^ bit_length n"
proof (induction n rule: less_induct)
  case (less n)
  show ?case
  proof (cases "n = 1")
    case True
    then show ?thesis by (simp add: bit_length.simps)
  next
    case False
    with less.prems have h: "0 < n div 2" "n div 2 < n" by auto
    obtain k where k: "bit_length (n div 2) = Suc k" using bit_length_Suc [OF h(1)] by blast
    from less.IH [OF h(2,1)] have "2 ^ k \<le> n div 2" "n div 2 < 2 * 2 ^ k" by (simp_all add: k)
    then have "2 * 2 ^ k \<le> n" "n < 4 * 2 ^ k" by linarith+
    then show ?thesis using bit_length_Suc [OF less.prems] by (simp add: k)
  qed
qed

text \<open>Integers below \<open>2 ^ 53\<close> survive the way through a double.\<close>

lemma u64_double_exact:
  assumes "unat v < 2 ^ 53"
  shows "double_to_u64 (u64_to_double v) = Inr v"
proof (cases "v = 0")
  case True
  then show ?thesis
    by (simp add: u64_to_double_def double_to_u64_def double_exp_def double_sign_def double_trunc_def)
next
  case False
  define n where "n = unat v"
  define e where "e = bit_length n - 1"
  define f where "f = n * 2 ^ (52 - e) - 2 ^ 52"
  have n0: "0 < n" using False by (simp add: n_def unat_gt_0)
  from bit_length_bounds [OF n0] have b: "2 ^ e \<le> n" "n < 2 ^ bit_length n" by (simp_all add: e_def)
  have bl: "bit_length n = Suc e" using bit_length_Suc [OF n0] by (simp add: e_def)
  have "(2::nat) ^ e < 2 ^ 53" using b(1) assms by (simp add: n_def)
  then have "e < 53" using power_less_imp_less_exp [of "2 :: nat" e 53] by simp
  then have e: "e \<le> 52" by simp
  have p: "(2::nat) ^ e * 2 ^ (52 - e) = 2 ^ 52" using e by (simp flip: power_add)
  have lo: "2 ^ 52 \<le> n * 2 ^ (52 - e)" using mult_le_mono1 [OF b(1), of "2 ^ (52 - e)"] p by simp
  have "n * 2 ^ (52 - e) < 2 * 2 ^ e * 2 ^ (52 - e)"
    using b(2) by (intro mult_strict_right_mono) (simp_all add: bl)
  also have "\<dots> = 2 * 2 ^ 52" using p by (simp only: mult.assoc)
  finally have hi: "n * 2 ^ (52 - e) < 2 * 2 ^ 52" .
  have f: "f < 2 ^ 52" "2 ^ 52 + f = n * 2 ^ (52 - e)" using lo hi by (simp_all add: f_def)
  let ?w = "(1023 + e) * 2 ^ 52 + f"
  have "u64_to_double v = Double (word_of_nat ?w)"
    unfolding u64_to_double_def Let_def n_def [symmetric] e_def [symmetric] f_def
    using False e by (simp only: if_False if_True)
  moreover have w: "?w < 2 ^ 63" using f(1) e by simp
  then have "?w < 2 ^ LENGTH(64)" by simp
  then have uw: "unat (word_of_nat ?w :: u64) = ?w" by (simp only: unat_of_nat mod_less)
  have "?w mod 2 ^ 52 = f mod 2 ^ 52" by (simp only: mod_mult_self3)
  with f(1) have d: "?w div 2 ^ 52 = 1023 + e" "?w mod 2 ^ 52 = f" by simp_all
  have "double_exp (Double (word_of_nat ?w)) = 1023 + e" "double_frac (Double (word_of_nat ?w)) = f"
    "\<not> double_sign (Double (word_of_nat ?w))"
    unfolding double_exp_def double_frac_def double_sign_def double.sel uw d using e w by simp_all
  moreover from this have "double_trunc (Double (word_of_nat ?w)) = n"
    using e f(2) by (simp add: double_trunc_def Let_def)
  ultimately show ?thesis
    using e assms by (simp add: double_to_u64_def n_def)
qed

end
