(* ===== verification/CS_Columns.thy ===== *)
theory CS_Columns
  imports CS_ColumnV1 CS_Convert
begin

text \<open>
  The seven column classes of the first file format (\<open>cstable/columns/v1/*\<close>) over the base
  classes of \<open>CS_ColumnV1\<close>: the stream of values of each, the typed and the untyped
  \<open>addDatum\<close>, the conversions of the read methods, and virtual dispatch. Every class is an
  interpretation of \<open>v1_column\<close>. Of the methods that convert to or from text in floating
  point notation, \<open>StringColumnReader::readFloat\<close> (\<open>std::stod\<close>) is not modelled.
\<close>

section \<open>Conversions shared by the readers\<close>

definition uint_to_bool :: "u64 \<Rightarrow> bool res" where
  "uint_to_bool tmp = Inr (tmp > 1)"

definition uint_to_signed :: "u64 \<Rightarrow> u64 res" where
  "uint_to_signed tmp = Inr tmp"

definition uint_to_float :: "u64 \<Rightarrow> double res" where
  "uint_to_float tmp = Inr (u64_to_double tmp)"

definition uint_to_string :: "u64 \<Rightarrow> bytes res" where
  "uint_to_string tmp = Inr (toString_u64 tmp)"

definition ascii_true :: bytes where "ascii_true = [116, 114, 117, 101]"
definition ascii_false :: bytes where "ascii_false = [102, 97, 108, 115, 101]"

definition v1_skipValue :: "('s \<Rightarrow> ('v cell_read \<times> 's) res) \<Rightarrow> 's \<Rightarrow> 's res" where
  "v1_skipValue read s = res_bind (read s) (\<lambda>(_, s'). Inr s')"

text \<open>
  \<open>copyValue(ColumnWriter*)\<close> calls one write method of the target, or \<open>writeNull\<close>; both are
  virtual and come as arguments.
\<close>

definition v1_copyValue ::
  "('r v1_reader \<Rightarrow> ('v cell_read \<times> 'r v1_reader) res) \<Rightarrow> (u64 \<Rightarrow> u64 \<Rightarrow> 'v \<Rightarrow> 'w \<Rightarrow> 'w res) \<Rightarrow>
   (u64 \<Rightarrow> u64 \<Rightarrow> 'w \<Rightarrow> 'w res) \<Rightarrow> 'r v1_reader \<Rightarrow> 'w \<Rightarrow> ('w \<times> 'r v1_reader) res" where
  "v1_copyValue read write_value write_null cr w =
     res_bind (read cr) (\<lambda>((_, r, d, v), cr').
       res_bind (if d = cr_d_max cr then write_value r d v w else write_null r d w) (\<lambda>w'. Inr (w', cr')))"

section \<open>UInt32Column\<close>

type_synonym uint32_writer = "message_writer v1_writer"

definition UInt32ColumnWriter :: "u64 \<Rightarrow> u64 \<Rightarrow> uint32_writer" where
  "UInt32ColumnWriter r_max d_max = v1_ColumnWriter r_max d_max (mw_new kInitialDataSize)"

definition UInt32ColumnWriter_add :: "u64 \<Rightarrow> u64 \<Rightarrow> u32 \<Rightarrow> uint32_writer \<Rightarrow> uint32_writer res" where
  "UInt32ColumnWriter_add rlvl dlvl value = v1_add (mw_appendUInt32 value) rlvl dlvl"

definition UInt32ColumnWriter_addDatum :: "u64 \<Rightarrow> u64 \<Rightarrow> bytes \<Rightarrow> uint32_writer \<Rightarrow> uint32_writer res" where
  "UInt32ColumnWriter_addDatum rlvl dlvl data w =
     (if length data = 1 then UInt32ColumnWriter_add rlvl dlvl (ucast (hd data)) w
      else if length data = 4 then UInt32ColumnWriter_add rlvl dlvl (bytes_u32 data) w
      else if length data = 8 then UInt32ColumnWriter_add rlvl dlvl (ucast (bytes_u64 data)) w
      else Inl IllegalArgumentError)"

definition UInt32ColumnWriter_write :: "message_writer \<Rightarrow> message_writer \<Rightarrow> message_writer res" where
  "UInt32ColumnWriter_write data = mw_append (mw_data data)"

definition UInt32ColumnWriter_size :: "message_writer \<Rightarrow> nat" where
  "UInt32ColumnWriter_size data = 4 + length (mw_data data)"

definition UInt32ColumnReader :: "u64 \<Rightarrow> u64 \<Rightarrow> bytes \<Rightarrow> nat \<Rightarrow> message_reader v1_reader res" where
  "UInt32ColumnReader = v1_ColumnReader (\<lambda>data n. Inr (mr_open data n))"

definition UInt32ColumnReader_readUnsignedInt ::
  "message_reader v1_reader \<Rightarrow> (u64 cell_read \<times> message_reader v1_reader) res" where
  "UInt32ColumnReader_readUnsignedInt = v1_convert (v1_read mr_readUInt32 0) (\<lambda>v. Inr (ucast v)) 0"

definition UInt32ColumnReader_readBoolean ::
  "message_reader v1_reader \<Rightarrow> (bool cell_read \<times> message_reader v1_reader) res" where
  "UInt32ColumnReader_readBoolean = v1_convert UInt32ColumnReader_readUnsignedInt uint_to_bool False"

definition UInt32ColumnReader_readSignedInt ::
  "message_reader v1_reader \<Rightarrow> (u64 cell_read \<times> message_reader v1_reader) res" where
  "UInt32ColumnReader_readSignedInt = v1_convert UInt32ColumnReader_readUnsignedInt uint_to_signed 0"

definition UInt32ColumnReader_readFloat ::
  "message_reader v1_reader \<Rightarrow> (double cell_read \<times> message_reader v1_reader) res" where
  "UInt32ColumnReader_readFloat = v1_convert UInt32ColumnReader_readUnsignedInt uint_to_float (Double 0)"

definition UInt32ColumnReader_readString ::
  "message_reader v1_reader \<Rightarrow> (bytes cell_read \<times> message_reader v1_reader) res" where
  "UInt32ColumnReader_readString = v1_convert UInt32ColumnReader_readUnsignedInt uint_to_string []"

definition UInt32ColumnReader_skipValue :: "message_reader v1_reader \<Rightarrow> message_reader v1_reader res" where
  "UInt32ColumnReader_skipValue = v1_skipValue UInt32ColumnReader_readUnsignedInt"

definition UInt32ColumnReader_copyValue where
  "UInt32ColumnReader_copyValue write_uint write_null =
     v1_copyValue UInt32ColumnReader_readUnsignedInt write_uint write_null"

section \<open>UInt64Column\<close>

type_synonym uint64_writer = "message_writer v1_writer"

definition UInt64ColumnWriter :: "u64 \<Rightarrow> u64 \<Rightarrow> uint64_writer" where
  "UInt64ColumnWriter r_max d_max = v1_ColumnWriter r_max d_max (mw_new kInitialDataSize)"

definition UInt64ColumnWriter_add :: "u64 \<Rightarrow> u64 \<Rightarrow> u64 \<Rightarrow> uint64_writer \<Rightarrow> uint64_writer res" where
  "UInt64ColumnWriter_add rlvl dlvl value = v1_add (mw_appendUInt64 value) rlvl dlvl"

definition UInt64ColumnWriter_addDatum :: "u64 \<Rightarrow> u64 \<Rightarrow> bytes \<Rightarrow> uint64_writer \<Rightarrow> uint64_writer res" where
  "UInt64ColumnWriter_addDatum rlvl dlvl data w =
     (if length data \<noteq> 8 then Inl IllegalArgumentError
      else UInt64ColumnWriter_add rlvl dlvl (bytes_u64 data) w)"

definition UInt64ColumnWriter_write :: "message_writer \<Rightarrow> message_writer \<Rightarrow> message_writer res" where
  "UInt64ColumnWriter_write data = mw_append (mw_data data)"

definition UInt64ColumnWriter_size :: "message_writer \<Rightarrow> nat" where
  "UInt64ColumnWriter_size data = 8 + length (mw_data data)"

definition UInt64ColumnReader :: "u64 \<Rightarrow> u64 \<Rightarrow> bytes \<Rightarrow> nat \<Rightarrow> message_reader v1_reader res" where
  "UInt64ColumnReader = v1_ColumnReader (\<lambda>data n. Inr (mr_open data n))"

definition UInt64ColumnReader_readUnsignedInt ::
  "message_reader v1_reader \<Rightarrow> (u64 cell_read \<times> message_reader v1_reader) res" where
  "UInt64ColumnReader_readUnsignedInt = v1_read mr_readUInt64 0"

definition UInt64ColumnReader_readBoolean ::
  "message_reader v1_reader \<Rightarrow> (bool cell_read \<times> message_reader v1_reader) res" where
  "UInt64ColumnReader_readBoolean = v1_convert UInt64ColumnReader_readUnsignedInt uint_to_bool False"

definition UInt64ColumnReader_readSignedInt ::
  "message_reader v1_reader \<Rightarrow> (u64 cell_read \<times> message_reader v1_reader) res" where
  "UInt64ColumnReader_readSignedInt = v1_convert UInt64ColumnReader_readUnsignedInt uint_to_signed 0"

definition UInt64ColumnReader_readFloat ::
  "message_reader v1_reader \<Rightarrow> (double cell_read \<times> message_reader v1_reader) res" where
  "UInt64ColumnReader_readFloat = v1_convert UInt64ColumnReader_readUnsignedInt uint_to_float (Double 0)"

definition UInt64ColumnReader_readString ::
  "message_reader v1_reader \<Rightarrow> (bytes cell_read \<times> message_reader v1_reader) res" where
  "UInt64ColumnReader_readString = v1_convert UInt64ColumnReader_readUnsignedInt uint_to_string []"

definition UInt64ColumnReader_skipValue :: "message_reader v1_reader \<Rightarrow> message_reader v1_reader res" where
  "UInt64ColumnReader_skipValue = v1_skipValue UInt64ColumnReader_readUnsignedInt"

definition UInt64ColumnReader_copyValue where
  "UInt64ColumnReader_copyValue write_uint write_null =
     v1_copyValue UInt64ColumnReader_readUnsignedInt write_uint write_null"

section \<open>LEB128Column\<close>

type_synonym leb128_writer = "message_writer v1_writer"

definition LEB128ColumnWriter :: "u64 \<Rightarrow> u64 \<Rightarrow> leb128_writer" where
  "LEB128ColumnWriter r_max d_max = v1_ColumnWriter r_max d_max (mw_new kInitialDataSize)"

definition LEB128ColumnWriter_add :: "u64 \<Rightarrow> u64 \<Rightarrow> u64 \<Rightarrow> leb128_writer \<Rightarrow> leb128_writer res" where
  "LEB128ColumnWriter_add rlvl dlvl value = v1_add (mw_appendVarUInt value) rlvl dlvl"

definition LEB128ColumnWriter_addDatum :: "u64 \<Rightarrow> u64 \<Rightarrow> bytes \<Rightarrow> leb128_writer \<Rightarrow> leb128_writer res" where
  "LEB128ColumnWriter_addDatum rlvl dlvl data w =
     (if length data \<noteq> 4 \<and> length data \<noteq> 8 then Inl IllegalArgumentError
      else LEB128ColumnWriter_add rlvl dlvl
             (if length data = 4 then ucast (bytes_u32 data) else bytes_u64 data) w)"

definition LEB128ColumnWriter_write :: "message_writer \<Rightarrow> message_writer \<Rightarrow> message_writer res" where
  "LEB128ColumnWriter_write data = mw_append (mw_data data)"

definition LEB128ColumnWriter_size :: "message_writer \<Rightarrow> nat" where
  "LEB128ColumnWriter_size data = length (mw_data data)"

definition LEB128ColumnReader :: "u64 \<Rightarrow> u64 \<Rightarrow> bytes \<Rightarrow> nat \<Rightarrow> message_reader v1_reader res" where
  "LEB128ColumnReader = v1_ColumnReader (\<lambda>data n. Inr (mr_open data n))"

definition LEB128ColumnReader_readUnsignedInt ::
  "message_reader v1_reader \<Rightarrow> (u64 cell_read \<times> message_reader v1_reader) res" where
  "LEB128ColumnReader_readUnsignedInt = v1_read mr_readVarUInt 0"

definition LEB128ColumnReader_readBoolean ::
  "message_reader v1_reader \<Rightarrow> (bool cell_read \<times> message_reader v1_reader) res" where
  "LEB128ColumnReader_readBoolean = v1_convert LEB128ColumnReader_readUnsignedInt uint_to_bool False"

definition LEB128ColumnReader_readSignedInt ::
  "message_reader v1_reader \<Rightarrow> (u64 cell_read \<times> message_reader v1_reader) res" where
  "LEB128ColumnReader_readSignedInt = v1_convert LEB128ColumnReader_readUnsignedInt uint_to_signed 0"

definition LEB128ColumnReader_readFloat ::
  "message_reader v1_reader \<Rightarrow> (double cell_read \<times> message_reader v1_reader) res" where
  "LEB128ColumnReader_readFloat = v1_convert LEB128ColumnReader_readUnsignedInt uint_to_float (Double 0)"

definition LEB128ColumnReader_readString ::
  "message_reader v1_reader \<Rightarrow> (bytes cell_read \<times> message_reader v1_reader) res" where
  "LEB128ColumnReader_readString = v1_convert LEB128ColumnReader_readUnsignedInt uint_to_string []"

definition LEB128ColumnReader_skipValue :: "message_reader v1_reader \<Rightarrow> message_reader v1_reader res" where
  "LEB128ColumnReader_skipValue = v1_skipValue LEB128ColumnReader_readUnsignedInt"

definition LEB128ColumnReader_copyValue where
  "LEB128ColumnReader_copyValue write_uint write_null =
     v1_copyValue LEB128ColumnReader_readUnsignedInt write_uint write_null"

section \<open>BitPackedIntColumn\<close>

text \<open>The stream starts with the maximum value, which the reader uses to open its decoder.\<close>

record bp_int_data =
  bi_max_value :: u32
  bi_data_writer :: bp_encoder

definition BitPackedIntColumnWriter :: "u64 \<Rightarrow> u64 \<Rightarrow> u32 \<Rightarrow> bp_int_data v1_writer" where
  "BitPackedIntColumnWriter r_max d_max max_value =
     v1_ColumnWriter r_max d_max \<lparr>bi_max_value = max_value, bi_data_writer = be_new max_value\<rparr>"

definition bi_encode :: "u32 \<Rightarrow> bp_int_data \<Rightarrow> bp_int_data res" where
  "bi_encode value b = Inr (b\<lparr>bi_data_writer := be_encode value (bi_data_writer b)\<rparr>)"

definition BitPackedIntColumnWriter_add ::
  "u64 \<Rightarrow> u64 \<Rightarrow> u32 \<Rightarrow> bp_int_data v1_writer \<Rightarrow> bp_int_data v1_writer res" where
  "BitPackedIntColumnWriter_add rlvl dlvl value = v1_add (bi_encode value) rlvl dlvl"

definition BitPackedIntColumnWriter_addDatum ::
  "u64 \<Rightarrow> u64 \<Rightarrow> bytes \<Rightarrow> bp_int_data v1_writer \<Rightarrow> bp_int_data v1_writer res" where
  "BitPackedIntColumnWriter_addDatum rlvl dlvl data w =
     (if length data = 1 then BitPackedIntColumnWriter_add rlvl dlvl (ucast (hd data)) w
      else if length data = 4 then BitPackedIntColumnWriter_add rlvl dlvl (bytes_u32 data) w
      else if length data = 8 then BitPackedIntColumnWriter_add rlvl dlvl (ucast (bytes_u64 data)) w
      else Inl IllegalArgumentError)"

definition BitPackedIntColumnWriter_flush :: "bp_int_data \<Rightarrow> bp_int_data" where
  "BitPackedIntColumnWriter_flush b = b\<lparr>bi_data_writer := be_flush (bi_data_writer b)\<rparr>"

definition BitPackedIntColumnWriter_write :: "bp_int_data \<Rightarrow> message_writer \<Rightarrow> message_writer res" where
  "BitPackedIntColumnWriter_write b =
     mw_seq [mw_appendUInt32 (bi_max_value b), mw_append (be_data (bi_data_writer b))]"

definition BitPackedIntColumnWriter_size :: "bp_int_data \<Rightarrow> nat" where
  "BitPackedIntColumnWriter_size b = 4 + be_size (bi_data_writer b)"

text \<open>\<open>data_size_ - sizeof(uint32_t)\<close> is computed in 64 bits and may wrap.\<close>

definition bi_open :: "bytes \<Rightarrow> nat \<Rightarrow> bp_decoder res" where
  "bi_open data n =
     (if length data < 4 then Inl Undefined
      else Inr (bd_new (drop 4 data) ((n + 2 ^ 64 - 4) mod 2 ^ 64) (bytes_u32 (take 4 data))))"

definition BitPackedIntColumnReader :: "u64 \<Rightarrow> u64 \<Rightarrow> bytes \<Rightarrow> nat \<Rightarrow> bp_decoder v1_reader res" where
  "BitPackedIntColumnReader = v1_ColumnReader (bi_open)"

definition BitPackedIntColumnReader_readUnsignedInt ::
  "bp_decoder v1_reader \<Rightarrow> (u64 cell_read \<times> bp_decoder v1_reader) res" where
  "BitPackedIntColumnReader_readUnsignedInt = v1_convert (v1_read bd_next 0) (\<lambda>v. Inr (ucast v)) 0"

definition BitPackedIntColumnReader_readBoolean ::
  "bp_decoder v1_reader \<Rightarrow> (bool cell_read \<times> bp_decoder v1_reader) res" where
  "BitPackedIntColumnReader_readBoolean = v1_convert BitPackedIntColumnReader_readUnsignedInt uint_to_bool False"

definition BitPackedIntColumnReader_readSignedInt ::
  "bp_decoder v1_reader \<Rightarrow> (u64 cell_read \<times> bp_decoder v1_reader) res" where
  "BitPackedIntColumnReader_readSignedInt = v1_convert BitPackedIntColumnReader_readUnsignedInt uint_to_signed 0"

definition BitPackedIntColumnReader_readFloat ::
  "bp_decoder v1_reader \<Rightarrow> (double cell_read \<times> bp_decoder v1_reader) res" where
  "BitPackedIntColumnReader_readFloat = v1_convert BitPackedIntColumnReader_readUnsignedInt uint_to_float (Double 0)"

definition BitPackedIntColumnReader_readString ::
  "bp_decoder v1_reader \<Rightarrow> (bytes cell_read \<times> bp_decoder v1_reader) res" where
  "BitPackedIntColumnReader_readString = v1_convert BitPackedIntColumnReader_readUnsignedInt uint_to_string []"

definition BitPackedIntColumnReader_skipValue :: "bp_decoder v1_reader \<Rightarrow> bp_decoder v1_reader res" where
  "BitPackedIntColumnReader_skipValue = v1_skipValue BitPackedIntColumnReader_readUnsignedInt"

definition BitPackedIntColumnReader_copyValue where
  "BitPackedIntColumnReader_copyValue write_uint write_null =
     v1_copyValue BitPackedIntColumnReader_readUnsignedInt write_uint write_null"

section \<open>BooleanColumn\<close>

definition BooleanColumnWriter :: "u64 \<Rightarrow> u64 \<Rightarrow> bp_encoder v1_writer" where
  "BooleanColumnWriter r_max d_max = v1_ColumnWriter r_max d_max (be_new 1)"

definition BooleanColumnWriter_add :: "u64 \<Rightarrow> u64 \<Rightarrow> bool \<Rightarrow> bp_encoder v1_writer \<Rightarrow> bp_encoder v1_writer res" where
  "BooleanColumnWriter_add rlvl dlvl value =
     v1_add (\<lambda>e. Inr (be_encode (if value then 1 else 0) e)) rlvl dlvl"

definition BooleanColumnWriter_addDatum ::
  "u64 \<Rightarrow> u64 \<Rightarrow> bytes \<Rightarrow> bp_encoder v1_writer \<Rightarrow> bp_encoder v1_writer res" where
  "BooleanColumnWriter_addDatum rlvl dlvl data w =
     (if length data = 0 then BooleanColumnWriter_add rlvl dlvl False w
      else if length data = 1 then BooleanColumnWriter_add rlvl dlvl (hd data > 0) w
      else if length data = 4 then BooleanColumnWriter_add rlvl dlvl (bytes_u32 data > 0) w
      else if length data = 8 then BooleanColumnWriter_add rlvl dlvl (bytes_u64 data > 0) w
      else Inl IllegalArgumentError)"

definition BooleanColumnWriter_write :: "bp_encoder \<Rightarrow> message_writer \<Rightarrow> message_writer res" where
  "BooleanColumnWriter_write e = mw_append (be_data e)"

definition BooleanColumnWriter_size :: "bp_encoder \<Rightarrow> nat" where
  "BooleanColumnWriter_size e = be_size e"

text \<open>
  \<open>readString\<close> compares the output pointer, not the value read: \<open>value > 0\<close> holds for every
  pointer a caller passes, so the text is \<open>true\<close> for every value.
\<close>

definition BooleanColumnReader :: "u64 \<Rightarrow> u64 \<Rightarrow> bytes \<Rightarrow> nat \<Rightarrow> bp_decoder v1_reader res" where
  "BooleanColumnReader = v1_ColumnReader (\<lambda>data n. Inr (bd_new data n 1))"

definition BooleanColumnReader_readUnsignedInt ::
  "bp_decoder v1_reader \<Rightarrow> (u64 cell_read \<times> bp_decoder v1_reader) res" where
  "BooleanColumnReader_readUnsignedInt = v1_convert (v1_read bd_next 0) (\<lambda>v. Inr (ucast v)) 0"

definition BooleanColumnReader_readBoolean ::
  "bp_decoder v1_reader \<Rightarrow> (bool cell_read \<times> bp_decoder v1_reader) res" where
  "BooleanColumnReader_readBoolean = v1_convert BooleanColumnReader_readUnsignedInt (\<lambda>tmp. Inr (tmp > 0)) False"

definition BooleanColumnReader_readSignedInt ::
  "bp_decoder v1_reader \<Rightarrow> (u64 cell_read \<times> bp_decoder v1_reader) res" where
  "BooleanColumnReader_readSignedInt = v1_convert BooleanColumnReader_readUnsignedInt uint_to_signed 0"

definition BooleanColumnReader_readFloat ::
  "bp_decoder v1_reader \<Rightarrow> (double cell_read \<times> bp_decoder v1_reader) res" where
  "BooleanColumnReader_readFloat = v1_convert BooleanColumnReader_readUnsignedInt uint_to_float (Double 0)"

definition BooleanColumnReader_readString ::
  "bp_decoder v1_reader \<Rightarrow> (bytes cell_read \<times> bp_decoder v1_reader) res" where
  "BooleanColumnReader_readString = v1_convert BooleanColumnReader_readUnsignedInt (\<lambda>tmp. Inr ascii_true) []"

definition BooleanColumnReader_skipValue :: "bp_decoder v1_reader \<Rightarrow> bp_decoder v1_reader res" where
  "BooleanColumnReader_skipValue = v1_skipValue BooleanColumnReader_readBoolean"

definition BooleanColumnReader_copyValue where
  "BooleanColumnReader_copyValue write_boolean write_null =
     v1_copyValue BooleanColumnReader_readBoolean write_boolean write_null"

section \<open>DoubleColumn\<close>

type_synonym double_writer = "message_writer v1_writer"
type_synonym double_reader = "message_reader v1_reader"

definition DoubleColumnWriter :: "u64 \<Rightarrow> u64 \<Rightarrow> double_writer" where
  "DoubleColumnWriter r_max d_max = v1_ColumnWriter r_max d_max (mw_new kInitialDataSize)"

definition DoubleColumnWriter_add :: "u64 \<Rightarrow> u64 \<Rightarrow> double \<Rightarrow> double_writer \<Rightarrow> double_writer res" where
  "DoubleColumnWriter_add rlvl dlvl value = v1_add (mw_appendDouble value) rlvl dlvl"

definition DoubleColumnWriter_addDatum :: "u64 \<Rightarrow> u64 \<Rightarrow> bytes \<Rightarrow> double_writer \<Rightarrow> double_writer res" where
  "DoubleColumnWriter_addDatum rlvl dlvl data w =
     (if length data \<noteq> 8 then Inl IllegalArgumentError
      else DoubleColumnWriter_add rlvl dlvl (Double (bytes_u64 data)) w)"

definition DoubleColumnWriter_write :: "message_writer \<Rightarrow> message_writer \<Rightarrow> message_writer res" where
  "DoubleColumnWriter_write data = mw_append (mw_data data)"

definition DoubleColumnWriter_size :: "message_writer \<Rightarrow> nat" where
  "DoubleColumnWriter_size data = 8 + length (mw_data data)"

definition DoubleColumnReader :: "u64 \<Rightarrow> u64 \<Rightarrow> bytes \<Rightarrow> nat \<Rightarrow> double_reader res" where
  "DoubleColumnReader = v1_ColumnReader (\<lambda>data n. Inr (mr_open data n))"

definition DoubleColumnReader_readFloat :: "double_reader \<Rightarrow> (double cell_read \<times> double_reader) res" where
  "DoubleColumnReader_readFloat = v1_read mr_readDouble (Double 0)"

definition DoubleColumnReader_readBoolean :: "double_reader \<Rightarrow> (bool cell_read \<times> double_reader) res" where
  "DoubleColumnReader_readBoolean =
     v1_convert DoubleColumnReader_readFloat (\<lambda>tmp. Inr (double_gt_1 tmp)) False"

definition DoubleColumnReader_readUnsignedInt :: "double_reader \<Rightarrow> (u64 cell_read \<times> double_reader) res" where
  "DoubleColumnReader_readUnsignedInt = v1_convert DoubleColumnReader_readFloat double_to_u64 0"

definition DoubleColumnReader_readSignedInt :: "double_reader \<Rightarrow> (u64 cell_read \<times> double_reader) res" where
  "DoubleColumnReader_readSignedInt = v1_convert DoubleColumnReader_readFloat double_to_i64 0"

definition DoubleColumnReader_readString :: "double_reader \<Rightarrow> (bytes cell_read \<times> double_reader) res" where
  "DoubleColumnReader_readString = v1_convert DoubleColumnReader_readFloat toString_double []"

definition DoubleColumnReader_skipValue :: "double_reader \<Rightarrow> double_reader res" where
  "DoubleColumnReader_skipValue = v1_skipValue DoubleColumnReader_readFloat"

definition DoubleColumnReader_copyValue where
  "DoubleColumnReader_copyValue write_float write_null =
     v1_copyValue DoubleColumnReader_readFloat write_float write_null"

section \<open>StringColumn\<close>

type_synonym string_writer = "message_writer v1_writer"
type_synonym string_reader = "message_reader v1_reader"

definition StringColumnWriter :: "u64 \<Rightarrow> u64 \<Rightarrow> string_writer" where
  "StringColumnWriter r_max d_max = v1_ColumnWriter r_max d_max (mw_new kInitialDataSize)"

definition string_append :: "bytes \<Rightarrow> message_writer \<Rightarrow> message_writer res" where
  "string_append value = mw_seq [mw_appendUInt32 (word_of_nat (length value)), mw_append value]"

definition StringColumnWriter_add :: "u64 \<Rightarrow> u64 \<Rightarrow> bytes \<Rightarrow> string_writer \<Rightarrow> string_writer res" where
  "StringColumnWriter_add rlvl dlvl value = v1_add (string_append value) rlvl dlvl"

definition StringColumnWriter_addDatum :: "u64 \<Rightarrow> u64 \<Rightarrow> bytes \<Rightarrow> string_writer \<Rightarrow> string_writer res" where
  "StringColumnWriter_addDatum rlvl dlvl data = StringColumnWriter_add rlvl dlvl data"

definition StringColumnWriter_write :: "message_writer \<Rightarrow> message_writer \<Rightarrow> message_writer res" where
  "StringColumnWriter_write data = mw_append (mw_data data)"

definition StringColumnWriter_size :: "message_writer \<Rightarrow> nat" where
  "StringColumnWriter_size data = length (mw_data data)"

definition StringColumnReader :: "u64 \<Rightarrow> u64 \<Rightarrow> bytes \<Rightarrow> nat \<Rightarrow> string_reader res" where
  "StringColumnReader = v1_ColumnReader (\<lambda>data n. Inr (mr_open data n))"

definition string_read :: "message_reader \<Rightarrow> (bytes \<times> message_reader) res" where
  "string_read = act_bind mr_readUInt32 (\<lambda>data_len. mr_readString (unat data_len))"

definition StringColumnReader_readString :: "string_reader \<Rightarrow> (bytes cell_read \<times> string_reader) res" where
  "StringColumnReader_readString = v1_read string_read []"

definition StringColumnReader_readBoolean :: "string_reader \<Rightarrow> (bool cell_read \<times> string_reader) res" where
  "StringColumnReader_readBoolean =
     v1_convert StringColumnReader_readString (\<lambda>tmp. Inr (tmp = ascii_true)) False"

definition StringColumnReader_readUnsignedInt :: "string_reader \<Rightarrow> (u64 cell_read \<times> string_reader) res" where
  "StringColumnReader_readUnsignedInt = v1_convert StringColumnReader_readString stoull 0"

definition StringColumnReader_readSignedInt :: "string_reader \<Rightarrow> (u64 cell_read \<times> string_reader) res" where
  "StringColumnReader_readSignedInt = v1_convert StringColumnReader_readString stoll 0"

definition StringColumnReader_skipValue :: "string_reader \<Rightarrow> string_reader res" where
  "StringColumnReader_skipValue = v1_skipValue StringColumnReader_readString"

definition StringColumnReader_copyValue where
  "StringColumnReader_copyValue write_string write_null =
     v1_copyValue StringColumnReader_readString write_string write_null"

section \<open>Every class is a column\<close>

lemma v1_column_message:
  assumes "value_codec app mw_data opn rd valid wr holds"
    and "\<And>w. write_data w = mw_append (mw_data w)" and "\<And>w. length (mw_data w) \<le> sz w"
  shows "v1_column app (\<lambda>w. w) mw_data opn rd valid wr holds sz write_data"
  using assms unfolding v1_column_def v1_column_axioms_def by (simp add: mw_writes_append)

interpretation uint32_column: v1_column mw_appendUInt32 "\<lambda>w. w" mw_data "\<lambda>data n. Inr (mr_open data n)"
  mr_readUInt32 "\<lambda>_. True" u32_codec.written "mr_holds u32_bytes (\<lambda>_. True)"
  UInt32ColumnWriter_size UInt32ColumnWriter_write
  by (rule v1_column_message [OF u32_codec.codec.value_codec_axioms])
     (simp_all add: UInt32ColumnWriter_write_def UInt32ColumnWriter_size_def)

interpretation uint64_column: v1_column mw_appendUInt64 "\<lambda>w. w" mw_data "\<lambda>data n. Inr (mr_open data n)"
  mr_readUInt64 "\<lambda>_. True" u64_codec.written "mr_holds u64_bytes (\<lambda>_. True)"
  UInt64ColumnWriter_size UInt64ColumnWriter_write
  by (rule v1_column_message [OF u64_codec.codec.value_codec_axioms])
     (simp_all add: UInt64ColumnWriter_write_def UInt64ColumnWriter_size_def)

interpretation leb128_column: v1_column mw_appendVarUInt "\<lambda>w. w" mw_data "\<lambda>data n. Inr (mr_open data n)"
  mr_readVarUInt "\<lambda>_. True" varuint_codec.written "mr_holds varuint_bytes (\<lambda>_. True)"
  LEB128ColumnWriter_size LEB128ColumnWriter_write
  by (rule v1_column_message [OF varuint_codec.codec.value_codec_axioms])
     (simp_all add: LEB128ColumnWriter_write_def LEB128ColumnWriter_size_def)

interpretation double_column: v1_column mw_appendDouble "\<lambda>w. w" mw_data "\<lambda>data n. Inr (mr_open data n)"
  mr_readDouble "\<lambda>_. True" double_codec.written "mr_holds (\<lambda>v. u64_bytes (double_bits v)) (\<lambda>_. True)"
  DoubleColumnWriter_size DoubleColumnWriter_write
  by (rule v1_column_message [OF double_codec.codec.value_codec_axioms])
     (simp_all add: DoubleColumnWriter_write_def DoubleColumnWriter_size_def)

interpretation string_codec: message_codec string_append string_read
  "\<lambda>s. u32_bytes (word_of_nat (length s)) @ s" "\<lambda>s. length s < 2 ^ 32"
proof unfold_locales
  fix s :: bytes assume s: "length s < 2 ^ 32"
  have "mw_writes (string_append s) (u32_bytes (word_of_nat (length s)) @ s @ [])"
    unfolding string_append_def by (intro mw_writes_intros)
  then show "mw_writes (string_append s) (u32_bytes (word_of_nat (length s)) @ s)" by simp
  have "unat (word_of_nat (length s) :: u32) = length s" using s by (simp add: unat_of_nat)
  then show "mr_reads string_read (u32_bytes (word_of_nat (length s)) @ s) s"
    unfolding string_read_def
    using mr_reads_read [of s "length s"] by (intro mr_reads_bind [OF mr_reads_ops(3)]) (simp add: mr_read_def)
qed

interpretation string_column: v1_column string_append "\<lambda>w. w" mw_data "\<lambda>data n. Inr (mr_open data n)"
  string_read "\<lambda>s. length s < 2 ^ 32" string_codec.written
  "mr_holds (\<lambda>s. u32_bytes (word_of_nat (length s)) @ s) (\<lambda>s. length s < 2 ^ 32)"
  StringColumnWriter_size StringColumnWriter_write
  by (rule v1_column_message [OF string_codec.codec.value_codec_axioms])
     (simp_all add: StringColumnWriter_write_def StringColumnWriter_size_def)

interpretation boolean_column: v1_column "\<lambda>v e. Inr (be_encode v e)" be_flush be_data
  "\<lambda>data n. Inr (bd_new data n 1)" bd_next "\<lambda>v. v \<le> 1" "be_written 1" "bd_holds 1"
  BooleanColumnWriter_size BooleanColumnWriter_write
  using bitpack.value_codec_axioms [of 1] unfolding v1_column_def v1_column_axioms_def
  by (simp add: BooleanColumnWriter_write_def BooleanColumnWriter_size_def mw_writes_append)

text \<open>The stream of a bit-packed integer column is its maximum and the packed blocks.\<close>

definition bi_body :: "bp_int_data \<Rightarrow> bytes" where
  "bi_body b = u32_bytes (bi_max_value b) @ be_data (bi_data_writer b)"

definition bi_written :: "u32 \<Rightarrow> bp_int_data \<Rightarrow> u32 list \<Rightarrow> bool" where
  "bi_written m b vs \<longleftrightarrow> bi_max_value b = m \<and> be_written m (bi_data_writer b) vs"

lemma bi_body_writes: "mw_writes (BitPackedIntColumnWriter_write b) (bi_body b)"
proof -
  have "mw_writes (BitPackedIntColumnWriter_write b)
      (u32_bytes (bi_max_value b) @ be_data (bi_data_writer b) @ [])"
    unfolding BitPackedIntColumnWriter_write_def by (intro mw_writes_intros)
  then show ?thesis by (simp add: bi_body_def)
qed

interpretation bitpacked_column: v1_column bi_encode BitPackedIntColumnWriter_flush bi_body bi_open bd_next
  "\<lambda>v. v \<le> m" "bi_written m" "bd_holds m" BitPackedIntColumnWriter_size BitPackedIntColumnWriter_write for m
proof unfold_locales
  fix b vs v
  show "bi_written m b vs \<Longrightarrow> v \<le> m \<Longrightarrow> \<exists>b'. bi_encode v b = Inr b' \<and> bi_written m b' (vs @ [v])"
    by (simp add: bi_encode_def bi_written_def be_encode_written)
next
  fix b vs n and mem :: bytes
  let ?b = "BitPackedIntColumnWriter_flush b"
  assume b: "bi_written m b vs" and n: "length (bi_body ?b) \<le> n" "n \<le> length mem" "length mem < 2 ^ 63"
    and mem: "take (length (bi_body ?b)) mem = bi_body ?b"
  let ?E = "be_data (be_flush (bi_data_writer b))"
  have body: "bi_body ?b = u32_bytes m @ ?E"
    using b by (simp add: bi_body_def BitPackedIntColumnWriter_flush_def bi_written_def)
  obtain junk where "mem = bi_body ?b @ junk" using mem by (metis append_take_drop_id)
  then have m: "mem = u32_bytes m @ ?E @ junk" by (simp add: body)
  have len: "4 \<le> n" "length ?E \<le> n - 4" using n(1) by (simp_all add: body)
  have "(n + 2 ^ 64 - 4) mod 2 ^ 64 = n - 4"
  proof -
    have "n + 2 ^ 64 - 4 = (n - 4) + 2 ^ 64" using len by simp
    moreover have "n - 4 < 2 ^ 64" using n(2,3) by simp
    ultimately show ?thesis by (simp only: mod_add_self2 mod_less)
  qed
  moreover have "bd_holds m (bd_new (?E @ junk) (n - 4) m) vs"
    using b len n(2) by (intro bd_new_holds [where e = "bi_data_writer b"]) (simp_all add: bi_written_def m)
  ultimately show "\<exists>r. bi_open mem n = Inr r \<and> bd_holds m r vs"
    by (simp add: bi_open_def m)
next
  fix d v vs
  show "bd_holds m d (v # vs) \<Longrightarrow> \<exists>d'. bd_next d = Inr (v, d') \<and> bd_holds m d' vs"
    by (rule bd_next_holds)
next
  fix b
  show "mw_writes (BitPackedIntColumnWriter_write b) (bi_body b)" by (rule bi_body_writes)
  show "length (bi_body (BitPackedIntColumnWriter_flush b)) \<le> BitPackedIntColumnWriter_size (BitPackedIntColumnWriter_flush b)"
    by (simp add: bi_body_def BitPackedIntColumnWriter_size_def)
qed

end
