(* ===== verification/CS_TableSchema.thy ===== *)
theory CS_TableSchema
  imports CS_Prelude "HOL-Library.Multiset"
begin

text \<open>
  The types of \<open>cstable/cstable.h\<close> and the table schema (\<open>cstable/TableSchema.cc\<close>): a tree
  of columns, its construction, its copy, and the flattening into the list of leaf columns
  with their maximum repetition and definition levels. The lemmas describe the flat columns
  by the path of optional and repeated fields above each leaf.
\<close>

section \<open>Column types and encodings\<close>

text \<open>
  The enumerations have the underlying type \<open>uint8_t\<close>: a cast from an integer keeps the
  low eight bits and may give a value that is not an enumerator.
\<close>

datatype ColumnType =
    SUBRECORD | BOOLEAN | UNSIGNED_INT | SIGNED_INT | STRING | FLOAT | DATETIME
  | OtherType byte

datatype ColumnEncoding =
    BOOLEAN_BITPACKED | UINT32_BITPACKED | UINT32_PLAIN | UINT64_PLAIN | UINT64_LEB128
  | FLOAT_IEEE754 | STRING_PLAIN
  | OtherEncoding byte

fun type_code :: "ColumnType \<Rightarrow> byte" where
  "type_code SUBRECORD = 0"
| "type_code BOOLEAN = 1"
| "type_code UNSIGNED_INT = 2"
| "type_code SIGNED_INT = 3"
| "type_code STRING = 4"
| "type_code FLOAT = 5"
| "type_code DATETIME = 6"
| "type_code (OtherType b) = b"

definition type_of_code :: "byte \<Rightarrow> ColumnType" where
  "type_of_code b =
     (if b = 0 then SUBRECORD else if b = 1 then BOOLEAN else if b = 2 then UNSIGNED_INT
      else if b = 3 then SIGNED_INT else if b = 4 then STRING else if b = 5 then FLOAT
      else if b = 6 then DATETIME else OtherType b)"

fun enc_code :: "ColumnEncoding \<Rightarrow> byte" where
  "enc_code BOOLEAN_BITPACKED = 1"
| "enc_code UINT32_BITPACKED = 10"
| "enc_code UINT32_PLAIN = 11"
| "enc_code UINT64_PLAIN = 12"
| "enc_code UINT64_LEB128 = 13"
| "enc_code FLOAT_IEEE754 = 14"
| "enc_code STRING_PLAIN = 100"
| "enc_code (OtherEncoding b) = b"

definition enc_of_code :: "byte \<Rightarrow> ColumnEncoding" where
  "enc_of_code b =
     (if b = 1 then BOOLEAN_BITPACKED else if b = 10 then UINT32_BITPACKED
      else if b = 11 then UINT32_PLAIN else if b = 12 then UINT64_PLAIN
      else if b = 13 then UINT64_LEB128 else if b = 14 then FLOAT_IEEE754
      else if b = 100 then STRING_PLAIN else OtherEncoding b)"

definition known_type :: "ColumnType \<Rightarrow> bool" where
  "known_type t \<longleftrightarrow> (case t of OtherType _ \<Rightarrow> False | _ \<Rightarrow> True)"

definition known_encoding :: "ColumnEncoding \<Rightarrow> bool" where
  "known_encoding e \<longleftrightarrow> (case e of OtherEncoding _ \<Rightarrow> False | _ \<Rightarrow> True)"

lemma type_code_inverse: "known_type t \<Longrightarrow> type_of_code (type_code t) = t"
  by (cases t) (simp_all add: known_type_def type_of_code_def)

lemma enc_code_inverse: "known_encoding e \<Longrightarrow> enc_of_code (enc_code e) = e"
  by (cases e) (simp_all add: known_encoding_def enc_of_code_def)

lemma code_of_code: "type_code (type_of_code b) = b" "enc_code (enc_of_code b) = b"
  by (simp_all add: type_of_code_def enc_of_code_def)

record ColumnConfig =
  cc_column_id :: u32
  cc_column_name :: bytes
  cc_storage_type :: ColumnEncoding
  cc_logical_type :: ColumnType
  cc_rlevel_max :: u64
  cc_dlevel_max :: u64
  cc_body_offset :: u64
  cc_body_size :: u64

section \<open>TableSchema\<close>

text \<open>
  A schema is the list \<open>columns_\<close> of pointers to columns that the map \<open>columns_by_name_\<close>
  owns. Adding a name a second time leaves the map as it is and destroys the new column, so
  its pointer dangles: \<open>None\<close>. The live columns are the entries of the map.
\<close>

datatype schema_column =
  Column
    (col_name: bytes)
    (col_type: ColumnType)
    (col_encoding: ColumnEncoding)
    (col_type_size: u64)
    (col_repeated: bool)
    (col_optional: bool)
    (col_subschema: "schema_column option list option")

type_synonym table_schema = "schema_column option list"

definition live :: "'a option list \<Rightarrow> 'a list" where
  "live xs = List.map_filter id xs"

lemma live_simps [simp]:
  "live [] = []" "live (None # xs) = live xs" "live (Some x # xs) = x # live xs"
  "live (xs @ ys) = live xs @ live ys" "live (map Some zs) = zs"
  by (simp_all add: live_def map_filter_def o_def)

definition ts_add :: "schema_column \<Rightarrow> table_schema \<Rightarrow> table_schema" where
  "ts_add col ts =
     (if col_name col \<in> col_name ` set (live ts) then ts @ [None] else ts @ [Some col])"

definition TableSchema_addBool :: "bytes \<Rightarrow> bool \<Rightarrow> ColumnEncoding \<Rightarrow> table_schema \<Rightarrow> table_schema" where
  "TableSchema_addBool name optional enc = ts_add (Column name BOOLEAN enc 0 False optional None)"

definition TableSchema_addBoolArray :: "bytes \<Rightarrow> bool \<Rightarrow> ColumnEncoding \<Rightarrow> table_schema \<Rightarrow> table_schema" where
  "TableSchema_addBoolArray name optional enc = ts_add (Column name BOOLEAN enc 0 True optional None)"

definition TableSchema_addUnsignedInteger ::
  "bytes \<Rightarrow> bool \<Rightarrow> ColumnEncoding \<Rightarrow> u64 \<Rightarrow> table_schema \<Rightarrow> table_schema" where
  "TableSchema_addUnsignedInteger name optional enc max_value =
     ts_add (Column name UNSIGNED_INT enc max_value False optional None)"

definition TableSchema_addUnsignedIntegerArray ::
  "bytes \<Rightarrow> bool \<Rightarrow> ColumnEncoding \<Rightarrow> u64 \<Rightarrow> table_schema \<Rightarrow> table_schema" where
  "TableSchema_addUnsignedIntegerArray name optional enc max_value =
     ts_add (Column name UNSIGNED_INT enc max_value True optional None)"

definition TableSchema_addFloat :: "bytes \<Rightarrow> bool \<Rightarrow> ColumnEncoding \<Rightarrow> table_schema \<Rightarrow> table_schema" where
  "TableSchema_addFloat name optional enc = ts_add (Column name FLOAT enc 0 False optional None)"

definition TableSchema_addFloatArray :: "bytes \<Rightarrow> bool \<Rightarrow> ColumnEncoding \<Rightarrow> table_schema \<Rightarrow> table_schema" where
  "TableSchema_addFloatArray name optional enc = ts_add (Column name FLOAT enc 0 True optional None)"

definition TableSchema_addString ::
  "bytes \<Rightarrow> bool \<Rightarrow> ColumnEncoding \<Rightarrow> u64 \<Rightarrow> table_schema \<Rightarrow> table_schema" where
  "TableSchema_addString name optional enc max_len =
     ts_add (Column name STRING enc max_len False optional None)"

definition TableSchema_addStringArray ::
  "bytes \<Rightarrow> bool \<Rightarrow> ColumnEncoding \<Rightarrow> u64 \<Rightarrow> table_schema \<Rightarrow> table_schema" where
  "TableSchema_addStringArray name optional enc max_len =
     ts_add (Column name STRING enc max_len True optional None)"

definition TableSchema_addColumn ::
  "bytes \<Rightarrow> ColumnType \<Rightarrow> ColumnEncoding \<Rightarrow> bool \<Rightarrow> bool \<Rightarrow> u64 \<Rightarrow> table_schema \<Rightarrow> table_schema" where
  "TableSchema_addColumn name type enc repeated optional type_size =
     ts_add (Column name type enc type_size repeated optional None)"

text \<open>
  The copy constructor walks \<open>columns_by_name_\<close>, a \<open>std::unordered_map\<close>, so the copies come
  in the order of its buckets: \<open>order\<close> is that order, a permutation the standard library
  chooses. Dangling entries are not copied.
\<close>

fun column_copy :: "(schema_column list \<Rightarrow> schema_column list) \<Rightarrow> schema_column \<Rightarrow> schema_column" where
  "column_copy order (Column name type enc type_size repeated optional sub) =
     Column name type enc type_size repeated optional
       (map_option (\<lambda>cs. map Some (order (live (map (map_option (column_copy order)) cs)))) sub)"

definition TableSchema_copy :: "(schema_column list \<Rightarrow> schema_column list) \<Rightarrow> table_schema \<Rightarrow> table_schema" where
  "TableSchema_copy order other = map Some (order (live (map (map_option (column_copy order)) other)))"

text \<open>\<open>new Column()\<close> zero-initialises the members that \<open>addSubrecord\<close> does not set.\<close>

definition TableSchema_addSubrecord ::
  "(schema_column list \<Rightarrow> schema_column list) \<Rightarrow> bytes \<Rightarrow> table_schema \<Rightarrow> bool \<Rightarrow> table_schema \<Rightarrow> table_schema" where
  "TableSchema_addSubrecord order name schema optional =
     ts_add (Column name SUBRECORD (OtherEncoding 0) 0 False optional (Some (TableSchema_copy order schema)))"

definition TableSchema_addSubrecordArray ::
  "(schema_column list \<Rightarrow> schema_column list) \<Rightarrow> bytes \<Rightarrow> table_schema \<Rightarrow> bool \<Rightarrow> table_schema \<Rightarrow> table_schema" where
  "TableSchema_addSubrecordArray order name schema optional =
     ts_add (Column name SUBRECORD (OtherEncoding 0) 0 True optional (Some (TableSchema_copy order schema)))"

section \<open>Flat columns\<close>

fun concat_res :: "'a list res list \<Rightarrow> 'a list res" where
  "concat_res [] = Inr []"
| "concat_res (r # rs) = res_bind r (\<lambda>xs. res_bind (concat_res rs) (\<lambda>ys. Inr (xs @ ys)))"

definition deref :: "('a \<Rightarrow> 'b res) \<Rightarrow> 'a option \<Rightarrow> 'b res" where
  "deref f p = (case p of None \<Rightarrow> Inl Undefined | Some x \<Rightarrow> f x)"

lemma deref_simps [simp]: "deref f None = Inl Undefined" "deref f (Some x) = f x"
  by (simp_all add: deref_def)

lemma deref_cong [fundef_cong]: "p = q \<Longrightarrow> (\<And>x. q = Some x \<Longrightarrow> f x = g x) \<Longrightarrow> deref f p = deref g q"
  by (cases q) simp_all

text \<open>
  \<open>listFlatColumns\<close> fills five members of a local \<open>ColumnConfig\<close>; the other members keep
  whatever the stack held, \<open>junk\<close>. A subrecord column without a subschema, which \<open>addColumn\<close>
  can make, dereferences a null pointer.
\<close>

fun listFlatColumns ::
  "(bytes \<Rightarrow> ColumnConfig) \<Rightarrow> bytes \<Rightarrow> u32 \<Rightarrow> u32 \<Rightarrow> schema_column \<Rightarrow> ColumnConfig list res" where
  "listFlatColumns junk prefix r_max d_max (Column name type enc type_size repeated optional sub) =
     (let colname = prefix @ name;
          r_max' = (if repeated then r_max + 1 else r_max);
          d_max' = (if repeated \<or> optional then d_max + 1 else d_max)
      in if type = SUBRECORD
         then deref (\<lambda>fs. concat_res (map (deref (listFlatColumns junk (colname @ [46]) r_max' d_max')) fs)) sub
         else Inr [(junk colname)\<lparr>cc_column_name := colname, cc_storage_type := enc,
                cc_logical_type := type, cc_rlevel_max := ucast r_max', cc_dlevel_max := ucast d_max'\<rparr>])"

definition TableSchema_flatColumns :: "(bytes \<Rightarrow> ColumnConfig) \<Rightarrow> table_schema \<Rightarrow> ColumnConfig list res" where
  "TableSchema_flatColumns junk ts = concat_res (map (deref (listFlatColumns junk [] 0 0)) ts)"

section \<open>The path of a leaf\<close>

text \<open>
  What flattening should compute, stated on paths: a leaf has the names of the fields on its
  path, joined with dots; its maximum repetition level counts the repeated fields on the
  path and its maximum definition level those that are repeated or optional.
\<close>

type_synonym path_step = "bytes \<times> bool \<times> bool"

fun leaf_paths :: "schema_column \<Rightarrow> (path_step list \<times> ColumnEncoding \<times> ColumnType) list" where
  "leaf_paths (Column name type enc type_size repeated optional sub) =
     (if type = SUBRECORD
      then concat (map (\<lambda>fs. map (\<lambda>(ps, l). ((name, repeated, optional) # ps, l))
             (concat (map (\<lambda>f. case f of None \<Rightarrow> [] | Some c \<Rightarrow> leaf_paths c) fs)))
             (case sub of None \<Rightarrow> [] | Some fs \<Rightarrow> [fs]))
      else [([(name, repeated, optional)], enc, type)])"

fun wf_column :: "schema_column \<Rightarrow> bool" where
  "wf_column (Column name type enc type_size repeated optional sub) \<longleftrightarrow>
     (type = SUBRECORD \<longrightarrow>
        (case sub of None \<Rightarrow> False
         | Some fs \<Rightarrow> list_all (\<lambda>f. case f of None \<Rightarrow> False | Some c \<Rightarrow> wf_column c) fs))"

definition wf_schema :: "table_schema \<Rightarrow> bool" where
  "wf_schema ts \<longleftrightarrow> list_all (\<lambda>f. case f of None \<Rightarrow> False | Some c \<Rightarrow> wf_column c) ts"

fun path_name :: "path_step list \<Rightarrow> bytes" where
  "path_name [] = []"
| "path_name [(n, _)] = n"
| "path_name ((n, _) # ps) = n @ [46] @ path_name ps"

definition path_rlevel :: "path_step list \<Rightarrow> nat" where
  "path_rlevel ps = length (filter (\<lambda>(n, repeated, optional). repeated) ps)"

definition path_dlevel :: "path_step list \<Rightarrow> nat" where
  "path_dlevel ps = length (filter (\<lambda>(n, repeated, optional). repeated \<or> optional) ps)"

definition path_config ::
  "(bytes \<Rightarrow> ColumnConfig) \<Rightarrow> bytes \<Rightarrow> u32 \<Rightarrow> u32 \<Rightarrow> path_step list \<times> ColumnEncoding \<times> ColumnType \<Rightarrow> ColumnConfig" where
  "path_config junk prefix r d l =
     (case l of (ps, enc, type) \<Rightarrow>
        (junk (prefix @ path_name ps))\<lparr>cc_column_name := prefix @ path_name ps, cc_storage_type := enc,
           cc_logical_type := type, cc_rlevel_max := ucast (r + word_of_nat (path_rlevel ps)),
           cc_dlevel_max := ucast (d + word_of_nat (path_dlevel ps))\<rparr>)"

definition schema_paths :: "table_schema \<Rightarrow> (path_step list \<times> ColumnEncoding \<times> ColumnType) list" where
  "schema_paths ts = concat (map leaf_paths (live ts))"

lemma leaf_paths_nonempty: "l \<in> set (leaf_paths c) \<Longrightarrow> fst l \<noteq> []"
  by (cases c) (auto split: if_splits option.splits)

lemma concat_map_live: "concat (map (\<lambda>f. case f of None \<Rightarrow> [] | Some c \<Rightarrow> g c) fs) = concat (map g (live fs))"
  by (induction fs) (auto split: option.splits)

lemma leaf_paths_record:
  "leaf_paths (Column name SUBRECORD enc n repeated optional (Some fs)) =
     map (\<lambda>(ps, l). ((name, repeated, optional) # ps, l)) (schema_paths fs)"
  by (simp add: concat_map_live schema_paths_def)

lemma path_name_Cons: "ps \<noteq> [] \<Longrightarrow> path_name ((n, x) # ps) = n @ [46] @ path_name ps"
  by (cases ps) simp_all

lemma path_config_Cons:
  assumes "fst l \<noteq> []"
  shows "path_config junk prefix r d ((name, repeated, optional) # fst l, snd l) =
    path_config junk ((prefix @ name) @ [46]) (if repeated then r + 1 else r)
      (if repeated \<or> optional then d + 1 else d) l"
proof -
  obtain ps e t where l: "l = (ps, e, t)" by (cases l)
  with assms have "ps \<noteq> []" by simp
  then show ?thesis
    by (simp add: l path_config_def path_name_Cons path_rlevel_def path_dlevel_def algebra_simps)
qed

lemma concat_res_map:
  "\<forall>x \<in> set xs. f x = Inr (g x) \<Longrightarrow> concat_res (map f xs) = Inr (concat (map g xs))"
  by (induction xs) simp_all

lemma wf_entries: "wf_schema fs \<longleftrightarrow> (\<exists>cs. fs = map Some cs \<and> (\<forall>c \<in> set cs. wf_column c))"
proof
  assume wf: "wf_schema fs"
  then have "fs = map Some (live fs)"
    by (induction fs) (auto simp: wf_schema_def split: option.splits)
  moreover from wf have "\<forall>c \<in> set (live fs). wf_column c"
    by (induction fs) (auto simp: wf_schema_def split: option.splits)
  ultimately show "\<exists>cs. fs = map Some cs \<and> (\<forall>c \<in> set cs. wf_column c)" by blast
qed (auto simp: wf_schema_def list_all_iff)

lemma listFlatColumns_paths:
  "wf_column c \<Longrightarrow> listFlatColumns junk prefix r d c = Inr (map (path_config junk prefix r d) (leaf_paths c))"
proof (induction c arbitrary: prefix r d)
  case (Column name type enc n repeated optional sub)
  show ?case
  proof (cases "type = SUBRECORD")
    case False
    then show ?thesis
      by (simp add: Let_def path_config_def path_rlevel_def path_dlevel_def)
  next
    case True
    with Column.prems obtain fs where "sub = Some fs" "wf_schema fs"
      by (auto simp: wf_schema_def split: option.splits)
    then obtain cs where fs: "sub = Some (map Some cs)" "\<forall>c \<in> set cs. wf_column c"
      by (auto simp: wf_entries)
    let ?p = "(prefix @ name) @ [46]" and ?r = "if repeated then r + 1 else r"
      and ?d = "if repeated \<or> optional then d + 1 else d"
    have "concat_res (map (deref (listFlatColumns junk ?p ?r ?d)) (map Some cs)) =
        Inr (concat (map (\<lambda>c. map (path_config junk ?p ?r ?d) (leaf_paths c)) cs))"
      using Column.IH fs by (simp add: o_def concat_res_map)
    also have "concat (map (\<lambda>c. map (path_config junk ?p ?r ?d) (leaf_paths c)) cs) =
        map (path_config junk ?p ?r ?d) (schema_paths (map Some cs))"
      by (simp add: schema_paths_def map_concat o_def)
    also have "\<dots> = map (path_config junk prefix r d)
        (map (\<lambda>(ps, l). ((name, repeated, optional) # ps, l)) (schema_paths (map Some cs)))"
      unfolding map_map o_def
    proof (rule map_cong [OF refl])
      fix l assume "l \<in> set (schema_paths (map Some cs))"
      then have "fst l \<noteq> []" by (auto simp: schema_paths_def dest: leaf_paths_nonempty)
      from path_config_Cons [OF this, of junk prefix r d name repeated optional]
      show "path_config junk ?p ?r ?d l =
          path_config junk prefix r d (case l of (ps, l) \<Rightarrow> ((name, repeated, optional) # ps, l))"
        by (simp add: split_def)
    qed
    finally show ?thesis
      using True fs(1) by (simp add: Let_def leaf_paths_record del: leaf_paths.simps)
  qed
qed

lemma flatColumns_paths:
  assumes "wf_schema ts"
  shows "TableSchema_flatColumns junk ts = Inr (map (path_config junk [] 0 0) (schema_paths ts))"
proof -
  from assms obtain cs where cs: "ts = map Some cs" "\<forall>c \<in> set cs. wf_column c"
    by (auto simp: wf_entries)
  then have "concat_res (map (listFlatColumns junk [] 0 0) cs) =
      Inr (concat (map (\<lambda>c. map (path_config junk [] 0 0) (leaf_paths c)) cs))"
    by (intro concat_res_map) (simp add: listFlatColumns_paths)
  then show ?thesis
    by (simp add: TableSchema_flatColumns_def cs(1) schema_paths_def map_concat o_def)
qed

section \<open>Copies\<close>

lemma mset_concat_map_cong:
  assumes "mset xs = mset ys"
  shows "mset (concat (map f xs)) = mset (concat (map f ys))"
proof -
  have "mset (concat (map f zs)) = sum_mset (image_mset (\<lambda>z. mset (f z)) (mset zs))" for zs
    by (induction zs) simp_all
  with assms show ?thesis by simp
qed

lemma mset_concat_map_eq:
  "\<forall>x \<in> set xs. mset (f x) = mset (g x) \<Longrightarrow> mset (concat (map f xs)) = mset (concat (map g xs))"
  by (induction xs) simp_all

lemma column_copy_paths:
  assumes order: "\<And>cs. mset (order cs) = mset cs"
  shows "wf_column c \<Longrightarrow> wf_column (column_copy order c) \<and>
    mset (leaf_paths (column_copy order c)) = mset (leaf_paths c)"
proof (induction c)
  case (Column name type enc n repeated optional sub)
  show ?case
  proof (cases "type = SUBRECORD")
    case True
    with Column.prems obtain fs where "sub = Some fs" "wf_schema fs"
      by (auto simp: wf_schema_def split: option.splits)
    then obtain cs where fs: "sub = Some (map Some cs)" "\<forall>c \<in> set cs. wf_column c"
      by (auto simp: wf_entries)
    let ?cs' = "order (map (column_copy order) cs)"
    have IH: "\<forall>c \<in> set cs. wf_column (column_copy order c) \<and>
        mset (leaf_paths (column_copy order c)) = mset (leaf_paths c)"
      using Column.IH fs by auto
    have copy: "column_copy order (Column name type enc n repeated optional sub) =
        Column name SUBRECORD enc n repeated optional (Some (map Some ?cs'))"
    proof -
      have "map (map_option (column_copy order)) (map Some cs) = map Some (map (column_copy order) cs)"
        by simp
      then have "live (map (map_option (column_copy order)) (map Some cs)) = map (column_copy order) cs"
        by (simp only: live_simps)
      then show ?thesis by (simp add: True fs(1) o_def)
    qed
    have "set ?cs' = column_copy order ` set cs" using order by (metis mset_eq_setD set_map)
    with IH have wf: "wf_schema (map Some ?cs')" by (auto simp: wf_schema_def list_all_iff)
    have "mset (concat (map leaf_paths ?cs')) = mset (concat (map leaf_paths (map (column_copy order) cs)))"
      by (rule mset_concat_map_cong) (rule order)
    also have "\<dots> = mset (concat (map leaf_paths cs))"
      unfolding map_map o_def by (rule mset_concat_map_eq) (use IH in simp)
    finally have "mset (schema_paths (map Some ?cs')) = mset (schema_paths (map Some cs))"
      by (simp add: schema_paths_def)
    then have "mset (leaf_paths (Column name SUBRECORD enc n repeated optional (Some (map Some ?cs')))) =
        mset (leaf_paths (Column name SUBRECORD enc n repeated optional (Some (map Some cs))))"
      unfolding leaf_paths_record mset_map by simp
    with wf show ?thesis
      unfolding copy using True fs(1) by (simp add: wf_schema_def del: leaf_paths.simps)
  qed simp
qed

lemma TableSchema_copy_paths:
  assumes order: "\<And>cs. mset (order cs) = mset cs" and wf: "wf_schema ts"
  shows "wf_schema (TableSchema_copy order ts)"
    and "mset (schema_paths (TableSchema_copy order ts)) = mset (schema_paths ts)"
proof -
  let ?root = "Column [] SUBRECORD (OtherEncoding 0) 0 False False (Some ts)"
  have copy: "column_copy order ?root = Column [] SUBRECORD (OtherEncoding 0) 0 False False (Some (TableSchema_copy order ts))"
    by (simp add: TableSchema_copy_def)
  have "wf_column ?root" using wf by (simp add: wf_schema_def)
  from column_copy_paths [OF order this] show "wf_schema (TableSchema_copy order ts)"
    unfolding copy by (simp add: wf_schema_def)
  have "mset (map (\<lambda>(ps, l). (([] :: bytes, False, False) # ps, l)) (schema_paths (TableSchema_copy order ts))) =
      mset (map (\<lambda>(ps, l). (([] :: bytes, False, False) # ps, l)) (schema_paths ts))"
    using column_copy_paths [OF order \<open>wf_column ?root\<close>] unfolding copy leaf_paths_record by simp
  moreover have "inj (\<lambda>(ps :: path_step list, l :: ColumnEncoding \<times> ColumnType). (([] :: bytes, False, False) # ps, l))"
    by (auto simp: inj_def)
  ultimately show "mset (schema_paths (TableSchema_copy order ts)) = mset (schema_paths ts)"
    unfolding mset_map by (metis injD multiset.inj_map)
qed

end
