(* ===== verification/CS_Dispatch.thy ===== *)
theory CS_Dispatch
  imports CS_Columns CS_TableSchema
begin

text \<open>
  Virtual dispatch for the columns of the first file format: a \<open>v1::ColumnWriter\<close> or
  \<open>v1::ColumnReader\<close> is one of the seven classes, chosen by the storage type of the column
  (the two functions \<open>openColumnV1\<close> of \<open>cstable/CSTableWriter.cc\<close> and
  \<open>cstable/CSTableReader.cc\<close>). The second half shows, for every storage type, that the cells
  written through the methods of the base class are the cells a reader returns.
\<close>

section \<open>Writers\<close>

datatype column_writer =
    BooleanCW "bp_encoder v1_writer"
  | BitPackedIntCW "bp_int_data v1_writer"
  | UInt32CW "message_writer v1_writer"
  | UInt64CW "message_writer v1_writer"
  | LEB128CW "message_writer v1_writer"
  | DoubleCW "message_writer v1_writer"
  | StringCW "message_writer v1_writer"

fun cw_addDatum :: "u64 \<Rightarrow> u64 \<Rightarrow> bytes \<Rightarrow> column_writer \<Rightarrow> column_writer res" where
  "cw_addDatum rlvl dlvl data (BooleanCW w) = map_sum id BooleanCW (BooleanColumnWriter_addDatum rlvl dlvl data w)"
| "cw_addDatum rlvl dlvl data (BitPackedIntCW w) = map_sum id BitPackedIntCW (BitPackedIntColumnWriter_addDatum rlvl dlvl data w)"
| "cw_addDatum rlvl dlvl data (UInt32CW w) = map_sum id UInt32CW (UInt32ColumnWriter_addDatum rlvl dlvl data w)"
| "cw_addDatum rlvl dlvl data (UInt64CW w) = map_sum id UInt64CW (UInt64ColumnWriter_addDatum rlvl dlvl data w)"
| "cw_addDatum rlvl dlvl data (LEB128CW w) = map_sum id LEB128CW (LEB128ColumnWriter_addDatum rlvl dlvl data w)"
| "cw_addDatum rlvl dlvl data (DoubleCW w) = map_sum id DoubleCW (DoubleColumnWriter_addDatum rlvl dlvl data w)"
| "cw_addDatum rlvl dlvl data (StringCW w) = map_sum id StringCW (StringColumnWriter_addDatum rlvl dlvl data w)"

fun cw_writeNull :: "u64 \<Rightarrow> u64 \<Rightarrow> column_writer \<Rightarrow> column_writer" where
  "cw_writeNull rlvl dlvl (BooleanCW w) = BooleanCW (v1_writeNull rlvl dlvl w)"
| "cw_writeNull rlvl dlvl (BitPackedIntCW w) = BitPackedIntCW (v1_writeNull rlvl dlvl w)"
| "cw_writeNull rlvl dlvl (UInt32CW w) = UInt32CW (v1_writeNull rlvl dlvl w)"
| "cw_writeNull rlvl dlvl (UInt64CW w) = UInt64CW (v1_writeNull rlvl dlvl w)"
| "cw_writeNull rlvl dlvl (LEB128CW w) = LEB128CW (v1_writeNull rlvl dlvl w)"
| "cw_writeNull rlvl dlvl (DoubleCW w) = DoubleCW (v1_writeNull rlvl dlvl w)"
| "cw_writeNull rlvl dlvl (StringCW w) = StringCW (v1_writeNull rlvl dlvl w)"

definition cw_writeBoolean :: "u64 \<Rightarrow> u64 \<Rightarrow> bool \<Rightarrow> column_writer \<Rightarrow> column_writer res" where
  "cw_writeBoolean rlvl dlvl value = cw_addDatum rlvl dlvl (u64_bytes (if value then 1 else 0))"

definition cw_writeUnsignedInt :: "u64 \<Rightarrow> u64 \<Rightarrow> u64 \<Rightarrow> column_writer \<Rightarrow> column_writer res" where
  "cw_writeUnsignedInt rlvl dlvl value = cw_addDatum rlvl dlvl (u64_bytes value)"

definition cw_writeSignedInt :: "u64 \<Rightarrow> u64 \<Rightarrow> u64 \<Rightarrow> column_writer \<Rightarrow> column_writer res" where
  "cw_writeSignedInt rlvl dlvl value = cw_addDatum rlvl dlvl (u64_bytes value)"

definition cw_writeFloat :: "u64 \<Rightarrow> u64 \<Rightarrow> double \<Rightarrow> column_writer \<Rightarrow> column_writer res" where
  "cw_writeFloat rlvl dlvl value = cw_addDatum rlvl dlvl (u64_bytes (IEEE754_toBytes value))"

definition cw_writeString :: "u64 \<Rightarrow> u64 \<Rightarrow> bytes \<Rightarrow> column_writer \<Rightarrow> column_writer res" where
  "cw_writeString rlvl dlvl data = cw_addDatum rlvl dlvl data"

definition cw_writeDateTime :: "u64 \<Rightarrow> u64 \<Rightarrow> u64 \<Rightarrow> column_writer \<Rightarrow> column_writer res" where
  "cw_writeDateTime rlvl dlvl micros = cw_addDatum rlvl dlvl (u64_bytes micros)"

fun cw_commit :: "column_writer \<Rightarrow> column_writer" where
  "cw_commit (BooleanCW w) = BooleanCW (v1_commit be_flush w)"
| "cw_commit (BitPackedIntCW w) = BitPackedIntCW (v1_commit BitPackedIntColumnWriter_flush w)"
| "cw_commit (UInt32CW w) = UInt32CW (v1_commit (\<lambda>w. w) w)"
| "cw_commit (UInt64CW w) = UInt64CW (v1_commit (\<lambda>w. w) w)"
| "cw_commit (LEB128CW w) = LEB128CW (v1_commit (\<lambda>w. w) w)"
| "cw_commit (DoubleCW w) = DoubleCW (v1_commit (\<lambda>w. w) w)"
| "cw_commit (StringCW w) = StringCW (v1_commit (\<lambda>w. w) w)"

fun cw_bodySize :: "column_writer \<Rightarrow> nat" where
  "cw_bodySize (BooleanCW w) = v1_bodySize BooleanColumnWriter_size w"
| "cw_bodySize (BitPackedIntCW w) = v1_bodySize BitPackedIntColumnWriter_size w"
| "cw_bodySize (UInt32CW w) = v1_bodySize UInt32ColumnWriter_size w"
| "cw_bodySize (UInt64CW w) = v1_bodySize UInt64ColumnWriter_size w"
| "cw_bodySize (LEB128CW w) = v1_bodySize LEB128ColumnWriter_size w"
| "cw_bodySize (DoubleCW w) = v1_bodySize DoubleColumnWriter_size w"
| "cw_bodySize (StringCW w) = v1_bodySize StringColumnWriter_size w"

fun cw_write :: "nat \<Rightarrow> column_writer \<Rightarrow> message_writer res" where
  "cw_write buf_len (BooleanCW w) = v1_write BooleanColumnWriter_size BooleanColumnWriter_write buf_len w"
| "cw_write buf_len (BitPackedIntCW w) = v1_write BitPackedIntColumnWriter_size BitPackedIntColumnWriter_write buf_len w"
| "cw_write buf_len (UInt32CW w) = v1_write UInt32ColumnWriter_size UInt32ColumnWriter_write buf_len w"
| "cw_write buf_len (UInt64CW w) = v1_write UInt64ColumnWriter_size UInt64ColumnWriter_write buf_len w"
| "cw_write buf_len (LEB128CW w) = v1_write LEB128ColumnWriter_size LEB128ColumnWriter_write buf_len w"
| "cw_write buf_len (DoubleCW w) = v1_write DoubleColumnWriter_size DoubleColumnWriter_write buf_len w"
| "cw_write buf_len (StringCW w) = v1_write StringColumnWriter_size StringColumnWriter_write buf_len w"

definition openColumnV1_writer :: "ColumnConfig \<Rightarrow> column_writer res" where
  "openColumnV1_writer c =
     (let rmax = cc_rlevel_max c; dmax = cc_dlevel_max c
      in case cc_storage_type c of
           BOOLEAN_BITPACKED \<Rightarrow> Inr (BooleanCW (BooleanColumnWriter rmax dmax))
         | UINT32_BITPACKED \<Rightarrow> Inr (BitPackedIntCW (BitPackedIntColumnWriter rmax dmax 0xffffffff))
         | UINT32_PLAIN \<Rightarrow> Inr (UInt32CW (UInt32ColumnWriter rmax dmax))
         | UINT64_PLAIN \<Rightarrow> Inr (UInt64CW (UInt64ColumnWriter rmax dmax))
         | UINT64_LEB128 \<Rightarrow> Inr (LEB128CW (LEB128ColumnWriter rmax dmax))
         | FLOAT_IEEE754 \<Rightarrow> Inr (DoubleCW (DoubleColumnWriter rmax dmax))
         | STRING_PLAIN \<Rightarrow> Inr (StringCW (StringColumnWriter rmax dmax))
         | OtherEncoding _ \<Rightarrow> Inl RuntimeError)"

section \<open>Readers\<close>

datatype column_reader =
    BooleanCR "bp_decoder v1_reader"
  | BitPackedIntCR "bp_decoder v1_reader"
  | UInt32CR "message_reader v1_reader"
  | UInt64CR "message_reader v1_reader"
  | LEB128CR "message_reader v1_reader"
  | DoubleCR "message_reader v1_reader"
  | StringCR "message_reader v1_reader"

definition lift_reader :: "('s \<Rightarrow> 't) \<Rightarrow> ('v \<times> 's) res \<Rightarrow> ('v \<times> 't) res" where
  "lift_reader C = map_sum id (map_prod id C)"

text \<open>
  \<open>StringColumnReader::readFloat\<close> is the one method that is not modelled; the base class
  method \<open>cr_readFloat\<close> takes it as an argument.
\<close>

fun cr_readBoolean :: "column_reader \<Rightarrow> (bool cell_read \<times> column_reader) res" where
  "cr_readBoolean (BooleanCR cr) = lift_reader BooleanCR (BooleanColumnReader_readBoolean cr)"
| "cr_readBoolean (BitPackedIntCR cr) = lift_reader BitPackedIntCR (BitPackedIntColumnReader_readBoolean cr)"
| "cr_readBoolean (UInt32CR cr) = lift_reader UInt32CR (UInt32ColumnReader_readBoolean cr)"
| "cr_readBoolean (UInt64CR cr) = lift_reader UInt64CR (UInt64ColumnReader_readBoolean cr)"
| "cr_readBoolean (LEB128CR cr) = lift_reader LEB128CR (LEB128ColumnReader_readBoolean cr)"
| "cr_readBoolean (DoubleCR cr) = lift_reader DoubleCR (DoubleColumnReader_readBoolean cr)"
| "cr_readBoolean (StringCR cr) = lift_reader StringCR (StringColumnReader_readBoolean cr)"

fun cr_readUnsignedInt :: "column_reader \<Rightarrow> (u64 cell_read \<times> column_reader) res" where
  "cr_readUnsignedInt (BooleanCR cr) = lift_reader BooleanCR (BooleanColumnReader_readUnsignedInt cr)"
| "cr_readUnsignedInt (BitPackedIntCR cr) = lift_reader BitPackedIntCR (BitPackedIntColumnReader_readUnsignedInt cr)"
| "cr_readUnsignedInt (UInt32CR cr) = lift_reader UInt32CR (UInt32ColumnReader_readUnsignedInt cr)"
| "cr_readUnsignedInt (UInt64CR cr) = lift_reader UInt64CR (UInt64ColumnReader_readUnsignedInt cr)"
| "cr_readUnsignedInt (LEB128CR cr) = lift_reader LEB128CR (LEB128ColumnReader_readUnsignedInt cr)"
| "cr_readUnsignedInt (DoubleCR cr) = lift_reader DoubleCR (DoubleColumnReader_readUnsignedInt cr)"
| "cr_readUnsignedInt (StringCR cr) = lift_reader StringCR (StringColumnReader_readUnsignedInt cr)"

fun cr_readSignedInt :: "column_reader \<Rightarrow> (u64 cell_read \<times> column_reader) res" where
  "cr_readSignedInt (BooleanCR cr) = lift_reader BooleanCR (BooleanColumnReader_readSignedInt cr)"
| "cr_readSignedInt (BitPackedIntCR cr) = lift_reader BitPackedIntCR (BitPackedIntColumnReader_readSignedInt cr)"
| "cr_readSignedInt (UInt32CR cr) = lift_reader UInt32CR (UInt32ColumnReader_readSignedInt cr)"
| "cr_readSignedInt (UInt64CR cr) = lift_reader UInt64CR (UInt64ColumnReader_readSignedInt cr)"
| "cr_readSignedInt (LEB128CR cr) = lift_reader LEB128CR (LEB128ColumnReader_readSignedInt cr)"
| "cr_readSignedInt (DoubleCR cr) = lift_reader DoubleCR (DoubleColumnReader_readSignedInt cr)"
| "cr_readSignedInt (StringCR cr) = lift_reader StringCR (StringColumnReader_readSignedInt cr)"

fun cr_readString :: "column_reader \<Rightarrow> (bytes cell_read \<times> column_reader) res" where
  "cr_readString (BooleanCR cr) = lift_reader BooleanCR (BooleanColumnReader_readString cr)"
| "cr_readString (BitPackedIntCR cr) = lift_reader BitPackedIntCR (BitPackedIntColumnReader_readString cr)"
| "cr_readString (UInt32CR cr) = lift_reader UInt32CR (UInt32ColumnReader_readString cr)"
| "cr_readString (UInt64CR cr) = lift_reader UInt64CR (UInt64ColumnReader_readString cr)"
| "cr_readString (LEB128CR cr) = lift_reader LEB128CR (LEB128ColumnReader_readString cr)"
| "cr_readString (DoubleCR cr) = lift_reader DoubleCR (DoubleColumnReader_readString cr)"
| "cr_readString (StringCR cr) = lift_reader StringCR (StringColumnReader_readString cr)"

fun cr_readFloat :: "(string_reader \<Rightarrow> (double cell_read \<times> string_reader) res) \<Rightarrow> column_reader \<Rightarrow> (double cell_read \<times> column_reader) res" where
  "cr_readFloat string_readFloat (BooleanCR cr) = lift_reader BooleanCR (BooleanColumnReader_readFloat cr)"
| "cr_readFloat string_readFloat (BitPackedIntCR cr) = lift_reader BitPackedIntCR (BitPackedIntColumnReader_readFloat cr)"
| "cr_readFloat string_readFloat (UInt32CR cr) = lift_reader UInt32CR (UInt32ColumnReader_readFloat cr)"
| "cr_readFloat string_readFloat (UInt64CR cr) = lift_reader UInt64CR (UInt64ColumnReader_readFloat cr)"
| "cr_readFloat string_readFloat (LEB128CR cr) = lift_reader LEB128CR (LEB128ColumnReader_readFloat cr)"
| "cr_readFloat string_readFloat (DoubleCR cr) = lift_reader DoubleCR (DoubleColumnReader_readFloat cr)"
| "cr_readFloat string_readFloat (StringCR cr) = lift_reader StringCR (string_readFloat cr)"

fun cr_skipValue :: "column_reader \<Rightarrow> column_reader res" where
  "cr_skipValue (BooleanCR cr) = map_sum id BooleanCR (BooleanColumnReader_skipValue cr)"
| "cr_skipValue (BitPackedIntCR cr) = map_sum id BitPackedIntCR (BitPackedIntColumnReader_skipValue cr)"
| "cr_skipValue (UInt32CR cr) = map_sum id UInt32CR (UInt32ColumnReader_skipValue cr)"
| "cr_skipValue (UInt64CR cr) = map_sum id UInt64CR (UInt64ColumnReader_skipValue cr)"
| "cr_skipValue (LEB128CR cr) = map_sum id LEB128CR (LEB128ColumnReader_skipValue cr)"
| "cr_skipValue (DoubleCR cr) = map_sum id DoubleCR (DoubleColumnReader_skipValue cr)"
| "cr_skipValue (StringCR cr) = map_sum id StringCR (StringColumnReader_skipValue cr)"

fun cr_nextRepetitionLevel :: "column_reader \<Rightarrow> (u64 \<times> column_reader) res" where
  "cr_nextRepetitionLevel (BooleanCR cr) = lift_reader BooleanCR (v1_nextRepetitionLevel cr)"
| "cr_nextRepetitionLevel (BitPackedIntCR cr) = lift_reader BitPackedIntCR (v1_nextRepetitionLevel cr)"
| "cr_nextRepetitionLevel (UInt32CR cr) = lift_reader UInt32CR (v1_nextRepetitionLevel cr)"
| "cr_nextRepetitionLevel (UInt64CR cr) = lift_reader UInt64CR (v1_nextRepetitionLevel cr)"
| "cr_nextRepetitionLevel (LEB128CR cr) = lift_reader LEB128CR (v1_nextRepetitionLevel cr)"
| "cr_nextRepetitionLevel (DoubleCR cr) = lift_reader DoubleCR (v1_nextRepetitionLevel cr)"
| "cr_nextRepetitionLevel (StringCR cr) = lift_reader StringCR (v1_nextRepetitionLevel cr)"

fun cr_eofReached :: "column_reader \<Rightarrow> bool" where
  "cr_eofReached (BooleanCR cr) = v1_eofReached cr"
| "cr_eofReached (BitPackedIntCR cr) = v1_eofReached cr"
| "cr_eofReached (UInt32CR cr) = v1_eofReached cr"
| "cr_eofReached (UInt64CR cr) = v1_eofReached cr"
| "cr_eofReached (LEB128CR cr) = v1_eofReached cr"
| "cr_eofReached (DoubleCR cr) = v1_eofReached cr"
| "cr_eofReached (StringCR cr) = v1_eofReached cr"

fun cr_maxRepetitionLevel :: "column_reader \<Rightarrow> u64" where
  "cr_maxRepetitionLevel (BooleanCR cr) = cr_r_max cr"
| "cr_maxRepetitionLevel (BitPackedIntCR cr) = cr_r_max cr"
| "cr_maxRepetitionLevel (UInt32CR cr) = cr_r_max cr"
| "cr_maxRepetitionLevel (UInt64CR cr) = cr_r_max cr"
| "cr_maxRepetitionLevel (LEB128CR cr) = cr_r_max cr"
| "cr_maxRepetitionLevel (DoubleCR cr) = cr_r_max cr"
| "cr_maxRepetitionLevel (StringCR cr) = cr_r_max cr"

fun cr_maxDefinitionLevel :: "column_reader \<Rightarrow> u64" where
  "cr_maxDefinitionLevel (BooleanCR cr) = cr_d_max cr"
| "cr_maxDefinitionLevel (BitPackedIntCR cr) = cr_d_max cr"
| "cr_maxDefinitionLevel (UInt32CR cr) = cr_d_max cr"
| "cr_maxDefinitionLevel (UInt64CR cr) = cr_d_max cr"
| "cr_maxDefinitionLevel (LEB128CR cr) = cr_d_max cr"
| "cr_maxDefinitionLevel (DoubleCR cr) = cr_d_max cr"
| "cr_maxDefinitionLevel (StringCR cr) = cr_d_max cr"

text \<open>\<open>mem\<close> is the mapped file from \<open>body_offset\<close> on.\<close>

definition openColumnV1_reader :: "ColumnConfig \<Rightarrow> bytes \<Rightarrow> column_reader res" where
  "openColumnV1_reader c mem =
     (let rmax = cc_rlevel_max c; dmax = cc_dlevel_max c; csize = unat (cc_body_size c)
      in case cc_storage_type c of
           BOOLEAN_BITPACKED \<Rightarrow> map_sum id BooleanCR (BooleanColumnReader rmax dmax mem csize)
         | UINT32_BITPACKED \<Rightarrow> map_sum id BitPackedIntCR (BitPackedIntColumnReader rmax dmax mem csize)
         | UINT32_PLAIN \<Rightarrow> map_sum id UInt32CR (UInt32ColumnReader rmax dmax mem csize)
         | UINT64_PLAIN \<Rightarrow> map_sum id UInt64CR (UInt64ColumnReader rmax dmax mem csize)
         | UINT64_LEB128 \<Rightarrow> map_sum id LEB128CR (LEB128ColumnReader rmax dmax mem csize)
         | FLOAT_IEEE754 \<Rightarrow> map_sum id DoubleCR (DoubleColumnReader rmax dmax mem csize)
         | STRING_PLAIN \<Rightarrow> map_sum id StringCR (StringColumnReader rmax dmax mem csize)
         | OtherEncoding _ \<Rightarrow> Inl RuntimeError)"

section \<open>Data of any type\<close>

text \<open>
  \<open>datum\<close> is a value as the program passes it to a column: through \<open>writeBoolean\<close>,
  \<open>writeUnsignedInt\<close>, \<open>writeFloat\<close> or \<open>writeString\<close>. \<open>storable e x\<close>: a column of storage
  type \<open>e\<close> keeps \<open>x\<close> exactly. The \<open>code\<close> functions give the element of the stream that
  stands for a datum, the \<open>decode\<close> functions the datum a reader returns for it.
\<close>

datatype datum = DBool bool | DUInt u64 | DFloat double | DString bytes

fun storable :: "ColumnEncoding \<Rightarrow> datum \<Rightarrow> bool" where
  "storable BOOLEAN_BITPACKED x \<longleftrightarrow> (case x of DBool _ \<Rightarrow> True | _ \<Rightarrow> False)"
| "storable UINT32_BITPACKED x \<longleftrightarrow> (case x of DUInt v \<Rightarrow> unat v < 2 ^ 32 | _ \<Rightarrow> False)"
| "storable UINT32_PLAIN x \<longleftrightarrow> (case x of DUInt v \<Rightarrow> unat v < 2 ^ 32 | _ \<Rightarrow> False)"
| "storable UINT64_PLAIN x \<longleftrightarrow> (case x of DUInt _ \<Rightarrow> True | _ \<Rightarrow> False)"
| "storable UINT64_LEB128 x \<longleftrightarrow> (case x of DUInt _ \<Rightarrow> True | _ \<Rightarrow> False)"
| "storable FLOAT_IEEE754 x \<longleftrightarrow> (case x of DFloat _ \<Rightarrow> True | _ \<Rightarrow> False)"
| "storable STRING_PLAIN x \<longleftrightarrow> (case x of DString s \<Rightarrow> length s < 2 ^ 32 | _ \<Rightarrow> False)"
| "storable (OtherEncoding _) x \<longleftrightarrow> False"

definition bool_code :: "datum \<Rightarrow> u32" where
  "bool_code x = (case x of DBool b \<Rightarrow> if b then 1 else 0 | _ \<Rightarrow> 0)"
definition u32_code :: "datum \<Rightarrow> u32" where
  "u32_code x = (case x of DUInt v \<Rightarrow> ucast v | _ \<Rightarrow> 0)"
definition u64_code :: "datum \<Rightarrow> u64" where
  "u64_code x = (case x of DUInt v \<Rightarrow> v | _ \<Rightarrow> 0)"
definition double_code :: "datum \<Rightarrow> double" where
  "double_code x = (case x of DFloat v \<Rightarrow> v | _ \<Rightarrow> Double 0)"
definition string_code :: "datum \<Rightarrow> bytes" where
  "string_code x = (case x of DString s \<Rightarrow> s | _ \<Rightarrow> [])"

definition bool_decode :: "u32 \<Rightarrow> datum" where "bool_decode v = DBool ((ucast v :: u64) > 0)"
definition u32_decode :: "u32 \<Rightarrow> datum" where "u32_decode v = DUInt (ucast v)"
definition u64_decode :: "u64 \<Rightarrow> datum" where "u64_decode v = DUInt v"
definition double_decode :: "double \<Rightarrow> datum" where "double_decode v = DFloat v"
definition string_decode :: "bytes \<Rightarrow> datum" where "string_decode s = DString s"

lemma code_decode:
  "storable BOOLEAN_BITPACKED x \<Longrightarrow> bool_decode (bool_code x) = x \<and> bool_code x \<le> 1"
  "storable UINT32_BITPACKED x \<Longrightarrow> u32_decode (u32_code x) = x \<and> u32_code x \<le> 0xffffffff"
  "storable UINT32_PLAIN x \<Longrightarrow> u32_decode (u32_code x) = x \<and> True"
  "storable UINT64_PLAIN x \<Longrightarrow> u64_decode (u64_code x) = x \<and> True"
  "storable UINT64_LEB128 x \<Longrightarrow> u64_decode (u64_code x) = x \<and> True"
  "storable FLOAT_IEEE754 x \<Longrightarrow> double_decode (double_code x) = x \<and> True"
  "storable STRING_PLAIN x \<Longrightarrow> string_decode (string_code x) = x \<and> length (string_code x) < 2 ^ 32"
proof -
  have top: "v \<le> 0xffffffff" for v :: u32
  proof -
    have "(0xffffffff :: u32) = - 1" by simp
    then show ?thesis by (metis word_n1_ge)
  qed
  have cast: "unat (v :: u64) < 2 ^ 32 \<Longrightarrow> ucast (ucast v :: u32) = v" for v
    using ucast_level(1) [of v v] by (simp add: level_max_def)
  show "storable UINT32_BITPACKED x \<Longrightarrow> u32_decode (u32_code x) = x \<and> u32_code x \<le> 0xffffffff"
    using top by (auto simp: u32_code_def u32_decode_def cast split: datum.splits)
  show "storable UINT32_PLAIN x \<Longrightarrow> u32_decode (u32_code x) = x \<and> True"
    by (auto simp: u32_code_def u32_decode_def cast split: datum.splits)
qed (auto simp: bool_code_def bool_decode_def u64_code_def u64_decode_def double_code_def double_decode_def
    string_code_def string_decode_def split: datum.splits)

text \<open>A column over a coded type is a column.\<close>

lemma v1_column_code:
  assumes col: "v1_column put fin body opn get valid written holds sz wd"
    and code: "\<And>x. good x \<Longrightarrow> decode (code x) = x \<and> valid (code x)"
  shows "v1_column (\<lambda>x. put (code x)) fin body opn (act_bind get (\<lambda>v. act_return (decode v))) good
    (\<lambda>w xs. written w (map code xs) \<and> (\<forall>x \<in> set xs. good x))
    (\<lambda>r xs. holds r (map code xs) \<and> (\<forall>x \<in> set xs. good x)) sz wd"
proof -
  have vc: "value_codec put (\<lambda>w. body (fin w)) opn get valid written holds"
    using col by (rule v1_column.axioms(1))
  have "value_codec (\<lambda>x. put (code x)) (\<lambda>w. body (fin w)) opn (act_bind get (\<lambda>v. act_return (decode v))) good
    (\<lambda>w xs. written w (map code xs) \<and> (\<forall>x \<in> set xs. good x))
    (\<lambda>r xs. holds r (map code xs) \<and> (\<forall>x \<in> set xs. good x))"
  proof (rule value_codec.intro)
    fix w xs x
    assume "written w (map code xs) \<and> (\<forall>x \<in> set xs. good x)" and "good x"
    then show "\<exists>w'. put (code x) w = Inr w' \<and> written w' (map code (xs @ [x])) \<and> (\<forall>x \<in> set (xs @ [x]). good x)"
      using value_codec.put_written [OF vc, of w "map code xs" "code x"] code by auto
  next
    fix w xs n and mem :: bytes
    assume "written w (map code xs) \<and> (\<forall>x \<in> set xs. good x)" "length (body (fin w)) \<le> n" "n \<le> length mem"
      "length mem < 2 ^ 63" "take (length (body (fin w))) mem = body (fin w)"
    then show "\<exists>r. opn mem n = Inr r \<and> holds r (map code xs) \<and> (\<forall>x \<in> set xs. good x)"
      using value_codec.open_holds [OF vc, of w "map code xs" n mem] by auto
  next
    fix r x xs
    assume r: "holds r (map code (x # xs)) \<and> (\<forall>x \<in> set (x # xs). good x)"
    then obtain r' where "get r = Inr (code x, r')" "holds r' (map code xs)"
      using value_codec.get_holds [OF vc, of r "code x" "map code xs"] by auto
    with r code show "\<exists>r'. act_bind get (\<lambda>v. act_return (decode v)) r = Inr (x, r') \<and>
        holds r' (map code xs) \<and> (\<forall>x \<in> set xs. good x)" by auto
  qed
  then show ?thesis using v1_column.axioms(2) [OF col] by (rule v1_column.intro)
qed

interpretation boolean_datum: v1_column "\<lambda>x e. Inr (be_encode (bool_code x) e)" "be_flush" be_data
  "\<lambda>data n. Inr (bd_new data n 1)" "act_bind bd_next (\<lambda>v. act_return (bool_decode v))" "storable BOOLEAN_BITPACKED"
  "\<lambda>w xs. be_written 1 w (map bool_code xs) \<and> (\<forall>x \<in> set xs. storable BOOLEAN_BITPACKED x)"
  "\<lambda>r xs. bd_holds 1 r (map bool_code xs) \<and> (\<forall>x \<in> set xs. storable BOOLEAN_BITPACKED x)"
  BooleanColumnWriter_size BooleanColumnWriter_write
  by (rule v1_column_code [OF boolean_column.v1_column_axioms]) (rule code_decode)

interpretation bitpacked_datum: v1_column "\<lambda>x. bi_encode (u32_code x)" "BitPackedIntColumnWriter_flush" bi_body
  "bi_open" "act_bind bd_next (\<lambda>v. act_return (u32_decode v))" "storable UINT32_BITPACKED"
  "\<lambda>w xs. bi_written 0xffffffff w (map u32_code xs) \<and> (\<forall>x \<in> set xs. storable UINT32_BITPACKED x)"
  "\<lambda>r xs. bd_holds 0xffffffff r (map u32_code xs) \<and> (\<forall>x \<in> set xs. storable UINT32_BITPACKED x)"
  BitPackedIntColumnWriter_size BitPackedIntColumnWriter_write
  by (rule v1_column_code [OF bitpacked_column.v1_column_axioms [of "0xffffffff"]]) (rule code_decode)

interpretation uint32_datum: v1_column "\<lambda>x. mw_appendUInt32 (u32_code x)" "\<lambda>w. w" mw_data
  "\<lambda>data n. Inr (mr_open data n)" "act_bind mr_readUInt32 (\<lambda>v. act_return (u32_decode v))" "storable UINT32_PLAIN"
  "\<lambda>w xs. u32_codec.written w (map u32_code xs) \<and> (\<forall>x \<in> set xs. storable UINT32_PLAIN x)"
  "\<lambda>r xs. mr_holds u32_bytes (\<lambda>_. True) r (map u32_code xs) \<and> (\<forall>x \<in> set xs. storable UINT32_PLAIN x)"
  UInt32ColumnWriter_size UInt32ColumnWriter_write
  by (rule v1_column_code [OF uint32_column.v1_column_axioms]) (rule code_decode)

interpretation uint64_datum: v1_column "\<lambda>x. mw_appendUInt64 (u64_code x)" "\<lambda>w. w" mw_data
  "\<lambda>data n. Inr (mr_open data n)" "act_bind mr_readUInt64 (\<lambda>v. act_return (u64_decode v))" "storable UINT64_PLAIN"
  "\<lambda>w xs. u64_codec.written w (map u64_code xs) \<and> (\<forall>x \<in> set xs. storable UINT64_PLAIN x)"
  "\<lambda>r xs. mr_holds u64_bytes (\<lambda>_. True) r (map u64_code xs) \<and> (\<forall>x \<in> set xs. storable UINT64_PLAIN x)"
  UInt64ColumnWriter_size UInt64ColumnWriter_write
  by (rule v1_column_code [OF uint64_column.v1_column_axioms]) (rule code_decode)

interpretation leb128_datum: v1_column "\<lambda>x. mw_appendVarUInt (u64_code x)" "\<lambda>w. w" mw_data
  "\<lambda>data n. Inr (mr_open data n)" "act_bind mr_readVarUInt (\<lambda>v. act_return (u64_decode v))" "storable UINT64_LEB128"
  "\<lambda>w xs. varuint_codec.written w (map u64_code xs) \<and> (\<forall>x \<in> set xs. storable UINT64_LEB128 x)"
  "\<lambda>r xs. mr_holds varuint_bytes (\<lambda>_. True) r (map u64_code xs) \<and> (\<forall>x \<in> set xs. storable UINT64_LEB128 x)"
  LEB128ColumnWriter_size LEB128ColumnWriter_write
  by (rule v1_column_code [OF leb128_column.v1_column_axioms]) (rule code_decode)

interpretation double_datum: v1_column "\<lambda>x. mw_appendDouble (double_code x)" "\<lambda>w. w" mw_data
  "\<lambda>data n. Inr (mr_open data n)" "act_bind mr_readDouble (\<lambda>v. act_return (double_decode v))" "storable FLOAT_IEEE754"
  "\<lambda>w xs. double_codec.written w (map double_code xs) \<and> (\<forall>x \<in> set xs. storable FLOAT_IEEE754 x)"
  "\<lambda>r xs. mr_holds (\<lambda>v. u64_bytes (double_bits v)) (\<lambda>_. True) r (map double_code xs) \<and> (\<forall>x \<in> set xs. storable FLOAT_IEEE754 x)"
  DoubleColumnWriter_size DoubleColumnWriter_write
  by (rule v1_column_code [OF double_column.v1_column_axioms]) (rule code_decode)

interpretation string_datum: v1_column "\<lambda>x. string_append (string_code x)" "\<lambda>w. w" mw_data
  "\<lambda>data n. Inr (mr_open data n)" "act_bind string_read (\<lambda>v. act_return (string_decode v))" "storable STRING_PLAIN"
  "\<lambda>w xs. string_codec.written w (map string_code xs) \<and> (\<forall>x \<in> set xs. storable STRING_PLAIN x)"
  "\<lambda>r xs. mr_holds (\<lambda>s. u32_bytes (word_of_nat (length s)) @ s) (\<lambda>s. length s < 2 ^ 32) r (map string_code xs) \<and> (\<forall>x \<in> set xs. storable STRING_PLAIN x)"
  StringColumnWriter_size StringColumnWriter_write
  by (rule v1_column_code [OF string_column.v1_column_axioms]) (rule code_decode)

text \<open>Simplification leaves the stream of values of a column alone.\<close>

lemma column_weak_cong [cong]:
  "r = r' \<Longrightarrow> d = d' \<Longrightarrow> w = w' \<Longrightarrow> cs = cs' \<Longrightarrow> v1_column.column W r d w cs = v1_column.column W r' d' w' cs'"
  by simp

lemma delivers_weak_cong [cong]:
  "r = r' \<Longrightarrow> d = d' \<Longrightarrow> cr = cr' \<Longrightarrow> cs = cs' \<Longrightarrow>
   v1_column.delivers H r d cr cs = v1_column.delivers H r' d' cr' cs'"
  by simp

lemma written_weak_cong [cong]:
  "w = w' \<Longrightarrow> vs = vs' \<Longrightarrow> message_codec.written E V w vs = message_codec.written E V w' vs'"
  by simp

section \<open>The cells of a writer and of a reader\<close>

text \<open>
  \<open>cw_holds r_max d_max w cs\<close>: the cells \<open>cs\<close> were written to \<open>w\<close>; \<open>cr_delivers r_max d_max cr cs\<close>:
  they are what \<open>cr\<close> will return. \<open>cw_write_cell\<close> and \<open>cr_read_cell\<close> write and read one cell
  with the methods for the type of the column.
\<close>

fun cw_encoding :: "column_writer \<Rightarrow> ColumnEncoding" where
  "cw_encoding (BooleanCW w) = BOOLEAN_BITPACKED"
| "cw_encoding (BitPackedIntCW w) = UINT32_BITPACKED"
| "cw_encoding (UInt32CW w) = UINT32_PLAIN"
| "cw_encoding (UInt64CW w) = UINT64_PLAIN"
| "cw_encoding (LEB128CW w) = UINT64_LEB128"
| "cw_encoding (DoubleCW w) = FLOAT_IEEE754"
| "cw_encoding (StringCW w) = STRING_PLAIN"

fun cw_holds :: "u64 \<Rightarrow> u64 \<Rightarrow> column_writer \<Rightarrow> datum cell list \<Rightarrow> bool" where
  "cw_holds r_max d_max (BooleanCW w) cs \<longleftrightarrow> boolean_datum.column r_max d_max w cs"
| "cw_holds r_max d_max (BitPackedIntCW w) cs \<longleftrightarrow> bitpacked_datum.column r_max d_max w cs"
| "cw_holds r_max d_max (UInt32CW w) cs \<longleftrightarrow> uint32_datum.column r_max d_max w cs"
| "cw_holds r_max d_max (UInt64CW w) cs \<longleftrightarrow> uint64_datum.column r_max d_max w cs"
| "cw_holds r_max d_max (LEB128CW w) cs \<longleftrightarrow> leb128_datum.column r_max d_max w cs"
| "cw_holds r_max d_max (DoubleCW w) cs \<longleftrightarrow> double_datum.column r_max d_max w cs"
| "cw_holds r_max d_max (StringCW w) cs \<longleftrightarrow> string_datum.column r_max d_max w cs"

fun cr_delivers :: "u64 \<Rightarrow> u64 \<Rightarrow> column_reader \<Rightarrow> datum cell list \<Rightarrow> bool" where
  "cr_delivers r_max d_max (BooleanCR cr) cs \<longleftrightarrow> boolean_datum.delivers r_max d_max cr cs"
| "cr_delivers r_max d_max (BitPackedIntCR cr) cs \<longleftrightarrow> bitpacked_datum.delivers r_max d_max cr cs"
| "cr_delivers r_max d_max (UInt32CR cr) cs \<longleftrightarrow> uint32_datum.delivers r_max d_max cr cs"
| "cr_delivers r_max d_max (UInt64CR cr) cs \<longleftrightarrow> uint64_datum.delivers r_max d_max cr cs"
| "cr_delivers r_max d_max (LEB128CR cr) cs \<longleftrightarrow> leb128_datum.delivers r_max d_max cr cs"
| "cr_delivers r_max d_max (DoubleCR cr) cs \<longleftrightarrow> double_datum.delivers r_max d_max cr cs"
| "cr_delivers r_max d_max (StringCR cr) cs \<longleftrightarrow> string_datum.delivers r_max d_max cr cs"

fun cw_image :: "column_writer \<Rightarrow> bytes" where
  "cw_image (BooleanCW w) = v1_image BooleanColumnWriter_size be_data w"
| "cw_image (BitPackedIntCW w) = v1_image BitPackedIntColumnWriter_size bi_body w"
| "cw_image (UInt32CW w) = v1_image UInt32ColumnWriter_size mw_data w"
| "cw_image (UInt64CW w) = v1_image UInt64ColumnWriter_size mw_data w"
| "cw_image (LEB128CW w) = v1_image LEB128ColumnWriter_size mw_data w"
| "cw_image (DoubleCW w) = v1_image DoubleColumnWriter_size mw_data w"
| "cw_image (StringCW w) = v1_image StringColumnWriter_size mw_data w"

fun cw_write_cell :: "datum cell \<Rightarrow> column_writer \<Rightarrow> column_writer res" where
  "cw_write_cell (r, d, None) w = Inr (cw_writeNull r d w)"
| "cw_write_cell (r, d, Some (DBool b)) w = cw_writeBoolean r d b w"
| "cw_write_cell (r, d, Some (DUInt v)) w = cw_writeUnsignedInt r d v w"
| "cw_write_cell (r, d, Some (DFloat v)) w = cw_writeFloat r d v w"
| "cw_write_cell (r, d, Some (DString s)) w = cw_writeString r d s w"

fun null_datum :: "ColumnEncoding \<Rightarrow> datum" where
  "null_datum BOOLEAN_BITPACKED = DBool False"
| "null_datum FLOAT_IEEE754 = DFloat (Double 0)"
| "null_datum STRING_PLAIN = DString []"
| "null_datum _ = DUInt 0"

fun cr_encoding :: "column_reader \<Rightarrow> ColumnEncoding" where
  "cr_encoding (BooleanCR cr) = BOOLEAN_BITPACKED"
| "cr_encoding (BitPackedIntCR cr) = UINT32_BITPACKED"
| "cr_encoding (UInt32CR cr) = UINT32_PLAIN"
| "cr_encoding (UInt64CR cr) = UINT64_PLAIN"
| "cr_encoding (LEB128CR cr) = UINT64_LEB128"
| "cr_encoding (DoubleCR cr) = FLOAT_IEEE754"
| "cr_encoding (StringCR cr) = STRING_PLAIN"

fun cr_read_cell :: "column_reader \<Rightarrow> (datum cell_read \<times> column_reader) res" where
  "cr_read_cell (BooleanCR cr) = lift_reader BooleanCR (v1_convert BooleanColumnReader_readBoolean (\<lambda>v. Inr (DBool v)) (DBool False) cr)"
| "cr_read_cell (BitPackedIntCR cr) = lift_reader BitPackedIntCR (v1_convert BitPackedIntColumnReader_readUnsignedInt (\<lambda>v. Inr (DUInt v)) (DUInt 0) cr)"
| "cr_read_cell (UInt32CR cr) = lift_reader UInt32CR (v1_convert UInt32ColumnReader_readUnsignedInt (\<lambda>v. Inr (DUInt v)) (DUInt 0) cr)"
| "cr_read_cell (UInt64CR cr) = lift_reader UInt64CR (v1_convert UInt64ColumnReader_readUnsignedInt (\<lambda>v. Inr (DUInt v)) (DUInt 0) cr)"
| "cr_read_cell (LEB128CR cr) = lift_reader LEB128CR (v1_convert LEB128ColumnReader_readUnsignedInt (\<lambda>v. Inr (DUInt v)) (DUInt 0) cr)"
| "cr_read_cell (DoubleCR cr) = lift_reader DoubleCR (v1_convert DoubleColumnReader_readFloat (\<lambda>v. Inr (DFloat v)) (DFloat (Double 0)) cr)"
| "cr_read_cell (StringCR cr) = lift_reader StringCR (v1_convert StringColumnReader_readString (\<lambda>v. Inr (DString v)) (DString []) cr)"

text \<open>A total conversion after a read is a read of the converted stream.\<close>

lemma v1_convert_read:
  "v1_convert (v1_read get null) (\<lambda>v. Inr (h v)) null' = v1_read (act_bind get (\<lambda>v. act_return (h v))) null'"
  by (rule ext)
     (auto simp: v1_convert_def v1_read_def act_bind_def res_bind_def Let_def split: sum.splits prod.splits if_splits)

lemma act_bind_return_return:
  "act_bind (act_bind get (\<lambda>v. act_return (f v))) (\<lambda>v. act_return (g v)) = act_bind get (\<lambda>v. act_return (g (f v)))"
  by (rule ext) (auto simp: act_bind_def split: sum.splits prod.splits)

lemmas v1_convert_simps = v1_convert_read act_bind_return_return

lemma v1_read_datum:
  "v1_convert BooleanColumnReader_readBoolean (\<lambda>v. Inr (DBool v)) (DBool False) =
     v1_read (act_bind bd_next (\<lambda>v. act_return (bool_decode v))) (DBool False)"
  "v1_convert BitPackedIntColumnReader_readUnsignedInt (\<lambda>v. Inr (DUInt v)) (DUInt 0) =
     v1_read (act_bind bd_next (\<lambda>v. act_return (u32_decode v))) (DUInt 0)"
  "v1_convert UInt32ColumnReader_readUnsignedInt (\<lambda>v. Inr (DUInt v)) (DUInt 0) =
     v1_read (act_bind mr_readUInt32 (\<lambda>v. act_return (u32_decode v))) (DUInt 0)"
  "v1_convert UInt64ColumnReader_readUnsignedInt (\<lambda>v. Inr (DUInt v)) (DUInt 0) =
     v1_read (act_bind mr_readUInt64 (\<lambda>v. act_return (u64_decode v))) (DUInt 0)"
  "v1_convert LEB128ColumnReader_readUnsignedInt (\<lambda>v. Inr (DUInt v)) (DUInt 0) =
     v1_read (act_bind mr_readVarUInt (\<lambda>v. act_return (u64_decode v))) (DUInt 0)"
  "v1_convert DoubleColumnReader_readFloat (\<lambda>v. Inr (DFloat v)) (DFloat (Double 0)) =
     v1_read (act_bind mr_readDouble (\<lambda>v. act_return (double_decode v))) (DFloat (Double 0))"
  "v1_convert StringColumnReader_readString (\<lambda>v. Inr (DString v)) (DString []) =
     v1_read (act_bind string_read (\<lambda>v. act_return (string_decode v))) (DString [])"
  by (simp_all only: BooleanColumnReader_readUnsignedInt_def BitPackedIntColumnReader_readUnsignedInt_def UInt32ColumnReader_readUnsignedInt_def UInt64ColumnReader_readUnsignedInt_def LEB128ColumnReader_readUnsignedInt_def
      BooleanColumnReader_readBoolean_def DoubleColumnReader_readFloat_def StringColumnReader_readString_def
      v1_convert_simps bool_decode_def u32_decode_def u64_decode_def double_decode_def string_decode_def)

section \<open>Writing cells\<close>

lemma ucast_u64_u32_bytes: "bytes_u64 (u64_bytes v) = v" "length (u64_bytes v) = 8"
  by simp_all

lemma cw_writes_datum:
  "cw_write_cell (r, d, Some (DBool b)) (BooleanCW bw) =
     map_sum id BooleanCW (v1_add (\<lambda>e. Inr (be_encode (bool_code (DBool b)) e)) r d bw)"
  "cw_write_cell (r, d, Some (DUInt v)) (BitPackedIntCW pw) =
     map_sum id BitPackedIntCW (v1_add (bi_encode (u32_code (DUInt v))) r d pw)"
  "cw_write_cell (r, d, Some (DUInt v)) (UInt32CW w) =
     map_sum id UInt32CW (v1_add (mw_appendUInt32 (u32_code (DUInt v))) r d w)"
  "cw_write_cell (r, d, Some (DUInt v)) (UInt64CW w) =
     map_sum id UInt64CW (v1_add (mw_appendUInt64 (u64_code (DUInt v))) r d w)"
  "cw_write_cell (r, d, Some (DUInt v)) (LEB128CW w) =
     map_sum id LEB128CW (v1_add (mw_appendVarUInt (u64_code (DUInt v))) r d w)"
  "cw_write_cell (r, d, Some (DFloat x)) (DoubleCW w) =
     map_sum id DoubleCW (v1_add (mw_appendDouble (double_code (DFloat x))) r d w)"
  "cw_write_cell (r, d, Some (DString s)) (StringCW w) =
     map_sum id StringCW (v1_add (string_append (string_code (DString s))) r d w)"
  by (simp_all add: cw_writeBoolean_def cw_writeUnsignedInt_def cw_writeFloat_def cw_writeString_def
      BooleanColumnWriter_addDatum_def BooleanColumnWriter_add_def BitPackedIntColumnWriter_addDatum_def
      BitPackedIntColumnWriter_add_def UInt32ColumnWriter_addDatum_def UInt32ColumnWriter_add_def
      UInt64ColumnWriter_addDatum_def UInt64ColumnWriter_add_def LEB128ColumnWriter_addDatum_def
      LEB128ColumnWriter_add_def DoubleColumnWriter_addDatum_def DoubleColumnWriter_add_def
      StringColumnWriter_addDatum_def StringColumnWriter_add_def IEEE754_toBytes_def
      bool_code_def u32_code_def u64_code_def double_code_def string_code_def)

lemma cw_open:
  assumes "known_encoding (cc_storage_type c)" and "level_max (cc_rlevel_max c)" and "level_max (cc_dlevel_max c)"
  shows "\<exists>w. openColumnV1_writer c = Inr w \<and> cw_encoding w = cc_storage_type c \<and>
    cw_holds (cc_rlevel_max c) (cc_dlevel_max c) w []"
  using assms
  by (cases "cc_storage_type c")
     (auto simp: openColumnV1_writer_def Let_def known_encoding_def be_new_written bi_written_def
       BooleanColumnWriter_def BitPackedIntColumnWriter_def UInt32ColumnWriter_def UInt64ColumnWriter_def LEB128ColumnWriter_def DoubleColumnWriter_def StringColumnWriter_def
       u32_codec.written_def u64_codec.written_def varuint_codec.written_def double_codec.written_def
       string_codec.written_def
       intro!: boolean_datum.column_new bitpacked_datum.column_new uint32_datum.column_new uint64_datum.column_new leb128_datum.column_new double_datum.column_new string_datum.column_new)

lemma cw_write_null:
  assumes "cw_holds r_max d_max w cs" and "cell_ok r_max d_max (r, d, None :: datum option)"
  shows "cw_holds r_max d_max (cw_writeNull r d w) (cs @ [(r, d, None)])"
    "cw_encoding (cw_writeNull r d w) = cw_encoding w"
  using assms by (cases w; simp add: boolean_datum.column_null bitpacked_datum.column_null uint32_datum.column_null uint64_datum.column_null leb128_datum.column_null double_datum.column_null string_datum.column_null)+

lemma map_sum_ex: "\<exists>w'. m = Inr w' \<and> P w' \<Longrightarrow> (\<And>w'. P w' \<Longrightarrow> Q (C w')) \<Longrightarrow> \<exists>v. map_sum id C m = Inr v \<and> Q v"
  by auto

lemma cw_write_value:
  assumes "cw_holds r_max d_max w cs" and "cell_ok r_max d_max (r, d, Some x)" and "storable (cw_encoding w) x"
  shows "\<exists>w'. cw_write_cell (r, d, Some x) w = Inr w' \<and> cw_holds r_max d_max w' (cs @ [(r, d, Some x)]) \<and>
    cw_encoding w' = cw_encoding w"
proof (cases w)
  case (BooleanCW v)
  with assms(3) obtain y where x: "x = DBool y" by (auto split: datum.splits)
  show ?thesis unfolding BooleanCW x cw_writes_datum
    by (rule map_sum_ex [OF boolean_datum.column_add [of r_max d_max v cs r d "DBool y"]])
       (use assms BooleanCW x in simp_all)
next
  case (BitPackedIntCW v)
  with assms(3) obtain y where x: "x = DUInt y" by (auto split: datum.splits)
  show ?thesis unfolding BitPackedIntCW x cw_writes_datum
    by (rule map_sum_ex [OF bitpacked_datum.column_add [of r_max d_max v cs r d "DUInt y"]])
       (use assms BitPackedIntCW x in simp_all)
next
  case (UInt32CW v)
  with assms(3) obtain y where x: "x = DUInt y" by (auto split: datum.splits)
  show ?thesis unfolding UInt32CW x cw_writes_datum
    by (rule map_sum_ex [OF uint32_datum.column_add [of r_max d_max v cs r d "DUInt y"]])
       (use assms UInt32CW x in simp_all)
next
  case (UInt64CW v)
  with assms(3) obtain y where x: "x = DUInt y" by (auto split: datum.splits)
  show ?thesis unfolding UInt64CW x cw_writes_datum
    by (rule map_sum_ex [OF uint64_datum.column_add [of r_max d_max v cs r d "DUInt y"]])
       (use assms UInt64CW x in simp_all)
next
  case (LEB128CW v)
  with assms(3) obtain y where x: "x = DUInt y" by (auto split: datum.splits)
  show ?thesis unfolding LEB128CW x cw_writes_datum
    by (rule map_sum_ex [OF leb128_datum.column_add [of r_max d_max v cs r d "DUInt y"]])
       (use assms LEB128CW x in simp_all)
next
  case (DoubleCW v)
  with assms(3) obtain y where x: "x = DFloat y" by (auto split: datum.splits)
  show ?thesis unfolding DoubleCW x cw_writes_datum
    by (rule map_sum_ex [OF double_datum.column_add [of r_max d_max v cs r d "DFloat y"]])
       (use assms DoubleCW x in simp_all)
next
  case (StringCW v)
  with assms(3) obtain y where x: "x = DString y" by (auto split: datum.splits)
  show ?thesis unfolding StringCW x cw_writes_datum
    by (rule map_sum_ex [OF string_datum.column_add [of r_max d_max v cs r d "DString y"]])
       (use assms StringCW x in simp_all)
qed

lemma cw_write_cell_holds:
  assumes "cw_holds r_max d_max w cs" and "cell_ok r_max d_max c"
    and "case c of (r, d, Some x) \<Rightarrow> storable (cw_encoding w) x | _ \<Rightarrow> True"
  shows "\<exists>w'. cw_write_cell c w = Inr w' \<and> cw_holds r_max d_max w' (cs @ [c]) \<and> cw_encoding w' = cw_encoding w"
proof -
  obtain r d v where c: "c = (r, d, v)" by (cases c)
  show ?thesis
  proof (cases v)
    case None
    with assms cw_write_null [of r_max d_max w cs r d] show ?thesis by (simp add: c)
  next
    case (Some x)
    with assms cw_write_value [of r_max d_max w cs r d x] show ?thesis by (simp add: c)
  qed
qed

section \<open>The written column\<close>

lemma cw_write_image:
  assumes "cw_holds r_max d_max w cs"
  shows "\<exists>m. cw_write (cw_bodySize (cw_commit w)) (cw_commit w) = Inr m \<and> mw_data m = cw_image (cw_commit w) \<and>
    length (cw_image (cw_commit w)) \<le> cw_bodySize (cw_commit w)"
  by (cases w) (simp_all only: cw_commit.simps cw_bodySize.simps cw_write.simps cw_image.simps
      boolean_datum.column_write bitpacked_datum.column_write uint32_datum.column_write uint64_datum.column_write leb128_datum.column_write double_datum.column_write string_datum.column_write)

lemma cr_open:
  assumes w: "cw_holds (cc_rlevel_max c) (cc_dlevel_max c) w cs" and enc: "cc_storage_type c = cw_encoding w"
    and count: "length cs < 2 ^ 64"
    and n: "unat (cc_body_size c) = cw_bodySize (cw_commit w)" "unat (cc_body_size c) \<le> length mem" "length mem < 2 ^ 63"
    and mem: "take (length (cw_image (cw_commit w))) mem = cw_image (cw_commit w)"
  shows "\<exists>cr. openColumnV1_reader c mem = Inr cr \<and> cr_encoding cr = cc_storage_type c \<and>
    cr_delivers (cc_rlevel_max c) (cc_dlevel_max c) cr cs"
proof (cases w)
  case (BooleanCW v)
  then have "cc_storage_type c = BOOLEAN_BITPACKED" using enc by simp
  moreover have "\<exists>cr. BooleanColumnReader (cc_rlevel_max c) (cc_dlevel_max c) mem (unat (cc_body_size c)) = Inr cr \<and>
      boolean_datum.delivers (cc_rlevel_max c) (cc_dlevel_max c) cr cs"
    unfolding BooleanColumnReader_def
    by (rule boolean_datum.column_open [of _ _ v]) (use w n mem count BooleanCW in simp_all)
  ultimately show ?thesis by (auto simp: openColumnV1_reader_def)
next
  case (BitPackedIntCW v)
  then have "cc_storage_type c = UINT32_BITPACKED" using enc by simp
  moreover have "\<exists>cr. BitPackedIntColumnReader (cc_rlevel_max c) (cc_dlevel_max c) mem (unat (cc_body_size c)) = Inr cr \<and>
      bitpacked_datum.delivers (cc_rlevel_max c) (cc_dlevel_max c) cr cs"
    unfolding BitPackedIntColumnReader_def
    by (rule bitpacked_datum.column_open [of _ _ v]) (use w n mem count BitPackedIntCW in simp_all)
  ultimately show ?thesis by (auto simp: openColumnV1_reader_def)
next
  case (UInt32CW v)
  then have "cc_storage_type c = UINT32_PLAIN" using enc by simp
  moreover have "\<exists>cr. UInt32ColumnReader (cc_rlevel_max c) (cc_dlevel_max c) mem (unat (cc_body_size c)) = Inr cr \<and>
      uint32_datum.delivers (cc_rlevel_max c) (cc_dlevel_max c) cr cs"
    unfolding UInt32ColumnReader_def
    by (rule uint32_datum.column_open [of _ _ v]) (use w n mem count UInt32CW in simp_all)
  ultimately show ?thesis by (auto simp: openColumnV1_reader_def)
next
  case (UInt64CW v)
  then have "cc_storage_type c = UINT64_PLAIN" using enc by simp
  moreover have "\<exists>cr. UInt64ColumnReader (cc_rlevel_max c) (cc_dlevel_max c) mem (unat (cc_body_size c)) = Inr cr \<and>
      uint64_datum.delivers (cc_rlevel_max c) (cc_dlevel_max c) cr cs"
    unfolding UInt64ColumnReader_def
    by (rule uint64_datum.column_open [of _ _ v]) (use w n mem count UInt64CW in simp_all)
  ultimately show ?thesis by (auto simp: openColumnV1_reader_def)
next
  case (LEB128CW v)
  then have "cc_storage_type c = UINT64_LEB128" using enc by simp
  moreover have "\<exists>cr. LEB128ColumnReader (cc_rlevel_max c) (cc_dlevel_max c) mem (unat (cc_body_size c)) = Inr cr \<and>
      leb128_datum.delivers (cc_rlevel_max c) (cc_dlevel_max c) cr cs"
    unfolding LEB128ColumnReader_def
    by (rule leb128_datum.column_open [of _ _ v]) (use w n mem count LEB128CW in simp_all)
  ultimately show ?thesis by (auto simp: openColumnV1_reader_def)
next
  case (DoubleCW v)
  then have "cc_storage_type c = FLOAT_IEEE754" using enc by simp
  moreover have "\<exists>cr. DoubleColumnReader (cc_rlevel_max c) (cc_dlevel_max c) mem (unat (cc_body_size c)) = Inr cr \<and>
      double_datum.delivers (cc_rlevel_max c) (cc_dlevel_max c) cr cs"
    unfolding DoubleColumnReader_def
    by (rule double_datum.column_open [of _ _ v]) (use w n mem count DoubleCW in simp_all)
  ultimately show ?thesis by (auto simp: openColumnV1_reader_def)
next
  case (StringCW v)
  then have "cc_storage_type c = STRING_PLAIN" using enc by simp
  moreover have "\<exists>cr. StringColumnReader (cc_rlevel_max c) (cc_dlevel_max c) mem (unat (cc_body_size c)) = Inr cr \<and>
      string_datum.delivers (cc_rlevel_max c) (cc_dlevel_max c) cr cs"
    unfolding StringColumnReader_def
    by (rule string_datum.column_open [of _ _ v]) (use w n mem count StringCW in simp_all)
  ultimately show ?thesis by (auto simp: openColumnV1_reader_def)
qed

section \<open>Reading cells\<close>

lemma lift_reader_ex:
  "\<exists>s'. m = Inr (v, s') \<and> P s' \<Longrightarrow> (\<And>s'. P s' \<Longrightarrow> Q (C s')) \<Longrightarrow> \<exists>t. lift_reader C m = Inr (v, t) \<and> Q t"
  by (auto simp: lift_reader_def)

lemma cr_read_cell_delivers:
  assumes "cr_delivers r_max d_max cr (c # cs)"
  shows "\<exists>cr'. cr_read_cell cr = Inr (cell_result (null_datum (cr_encoding cr)) c, cr') \<and>
    cr_delivers r_max d_max cr' cs \<and> cr_encoding cr' = cr_encoding cr"
proof (cases cr)
  case (BooleanCR q)
  with assms show ?thesis unfolding BooleanCR cr_read_cell.simps v1_read_datum cr_encoding.simps null_datum.simps
    by (intro lift_reader_ex [OF boolean_datum.delivers_read]) simp_all
next
  case (BitPackedIntCR q)
  with assms show ?thesis unfolding BitPackedIntCR cr_read_cell.simps v1_read_datum cr_encoding.simps null_datum.simps
    by (intro lift_reader_ex [OF bitpacked_datum.delivers_read]) simp_all
next
  case (UInt32CR q)
  with assms show ?thesis unfolding UInt32CR cr_read_cell.simps v1_read_datum cr_encoding.simps null_datum.simps
    by (intro lift_reader_ex [OF uint32_datum.delivers_read]) simp_all
next
  case (UInt64CR q)
  with assms show ?thesis unfolding UInt64CR cr_read_cell.simps v1_read_datum cr_encoding.simps null_datum.simps
    by (intro lift_reader_ex [OF uint64_datum.delivers_read]) simp_all
next
  case (LEB128CR q)
  with assms show ?thesis unfolding LEB128CR cr_read_cell.simps v1_read_datum cr_encoding.simps null_datum.simps
    by (intro lift_reader_ex [OF leb128_datum.delivers_read]) simp_all
next
  case (DoubleCR q)
  with assms show ?thesis unfolding DoubleCR cr_read_cell.simps v1_read_datum cr_encoding.simps null_datum.simps
    by (intro lift_reader_ex [OF double_datum.delivers_read]) simp_all
next
  case (StringCR q)
  with assms show ?thesis unfolding StringCR cr_read_cell.simps v1_read_datum cr_encoding.simps null_datum.simps
    by (intro lift_reader_ex [OF string_datum.delivers_read]) simp_all
qed

lemma cr_eof:
  "cr_delivers r_max d_max cr cs \<Longrightarrow> cr_eofReached cr \<longleftrightarrow> cs = []"
  by (cases cr) (simp_all add: v1_eof boolean_datum.delivers_def bitpacked_datum.delivers_def uint32_datum.delivers_def uint64_datum.delivers_def leb128_datum.delivers_def double_datum.delivers_def string_datum.delivers_def)

lemma cr_next_rlvl:
  assumes "cr_delivers r_max d_max cr ((r, d, v) # cs)"
  shows "\<exists>cr'. cr_nextRepetitionLevel cr = Inr (r, cr') \<and> cr_delivers r_max d_max cr' ((r, d, v) # cs) \<and>
    cr_encoding cr' = cr_encoding cr"
proof (cases cr)
  case (BooleanCR q)
  with assms have "v1_cells q ((r, d, v) # cs)" by (simp add: boolean_datum.delivers_def)
  from v1_peek [OF this] BooleanCR assms show ?thesis
    by (auto simp: boolean_datum.delivers_def lift_reader_def)
next
  case (BitPackedIntCR q)
  with assms have "v1_cells q ((r, d, v) # cs)" by (simp add: bitpacked_datum.delivers_def)
  from v1_peek [OF this] BitPackedIntCR assms show ?thesis
    by (auto simp: bitpacked_datum.delivers_def lift_reader_def)
next
  case (UInt32CR q)
  with assms have "v1_cells q ((r, d, v) # cs)" by (simp add: uint32_datum.delivers_def)
  from v1_peek [OF this] UInt32CR assms show ?thesis
    by (auto simp: uint32_datum.delivers_def lift_reader_def)
next
  case (UInt64CR q)
  with assms have "v1_cells q ((r, d, v) # cs)" by (simp add: uint64_datum.delivers_def)
  from v1_peek [OF this] UInt64CR assms show ?thesis
    by (auto simp: uint64_datum.delivers_def lift_reader_def)
next
  case (LEB128CR q)
  with assms have "v1_cells q ((r, d, v) # cs)" by (simp add: leb128_datum.delivers_def)
  from v1_peek [OF this] LEB128CR assms show ?thesis
    by (auto simp: leb128_datum.delivers_def lift_reader_def)
next
  case (DoubleCR q)
  with assms have "v1_cells q ((r, d, v) # cs)" by (simp add: double_datum.delivers_def)
  from v1_peek [OF this] DoubleCR assms show ?thesis
    by (auto simp: double_datum.delivers_def lift_reader_def)
next
  case (StringCR q)
  with assms have "v1_cells q ((r, d, v) # cs)" by (simp add: string_datum.delivers_def)
  from v1_peek [OF this] StringCR assms show ?thesis
    by (auto simp: string_datum.delivers_def lift_reader_def)
qed

end
