(* ===== verification/CS_Stream.thy ===== *)
theory CS_Stream
  imports CS_Reader
begin

text \<open>
  The input streams of libstx (\<open>stx/io/inputstream.cc\<close>): the in-memory streams, the file
  stream with its 8192-byte chunk buffer, and the decoding methods of the base class
  \<open>InputStream\<close>, which are written over the virtual methods \<open>readNextByte\<close> and
  \<open>readNextBytes\<close>. The locale \<open>byte_source\<close> states what a subclass promises; every
  subclass is an interpretation, and the decoding methods are proved once from the
  promise. Output streams (\<open>stx/io/outputstream.cc\<close>) append to the bytes written so far.
\<close>

section \<open>In-memory streams\<close>

record mem_stream =
  ms_data :: bytes
  ms_cur :: nat

definition StringInputStream_readNextByte :: "mem_stream \<Rightarrow> byte option \<times> mem_stream" where
  "StringInputStream_readNextByte s =
     (if ms_cur s < length (ms_data s)
      then (Some (ms_data s ! ms_cur s), s\<lparr>ms_cur := ms_cur s + 1\<rparr>) else (None, s))"

text \<open>
  The cursor, the size and \<open>n\<close> are of type \<open>size_t\<close>: the sums wrap at \<open>2 ^ 64\<close>, so a skip by a huge
  count passes the check and moves the cursor back. This is what \<open>ms_add\<close>
  computes for every stream that can exist: one whose cursor is within its data and whose size is a
  \<open>size_t\<close>.
\<close>

definition ms_add :: "mem_stream \<Rightarrow> nat \<Rightarrow> nat" where
  "ms_add s n = (if ms_cur s \<le> length (ms_data s) \<and> length (ms_data s) < 2 ^ 64
                 then (ms_cur s + n) mod 2 ^ 64 else ms_cur s + n)"

definition StringInputStream_skipNextBytes :: "nat \<Rightarrow> mem_stream \<Rightarrow> nat \<times> mem_stream" where
  "StringInputStream_skipNextBytes n s =
     (let nskipped = (if ms_add s n > length (ms_data s) then length (ms_data s) - ms_cur s else n)
      in (nskipped, s\<lparr>ms_cur := ms_add s nskipped\<rparr>))"

definition StringInputStream_seekTo :: "nat \<Rightarrow> mem_stream \<Rightarrow> mem_stream" where
  "StringInputStream_seekTo offset s =
     (if offset < length (ms_data s) then s\<lparr>ms_cur := offset\<rparr> else s\<lparr>ms_cur := length (ms_data s)\<rparr>)"

definition BufferInputStream_readNextByte :: "mem_stream \<Rightarrow> byte option \<times> mem_stream" where
  "BufferInputStream_readNextByte s =
     (if ms_cur s < length (ms_data s)
      then (Some (ms_data s ! ms_cur s), s\<lparr>ms_cur := ms_cur s + 1\<rparr>) else (None, s))"

definition BufferInputStream_skipNextBytes :: "nat \<Rightarrow> mem_stream \<Rightarrow> nat \<times> mem_stream" where
  "BufferInputStream_skipNextBytes n s =
     (let nskipped = (if ms_add s n > length (ms_data s) then length (ms_data s) - ms_cur s else n)
      in (nskipped, s\<lparr>ms_cur := ms_add s nskipped\<rparr>))"

definition MemoryInputStream_readNextByte :: "mem_stream \<Rightarrow> byte option \<times> mem_stream" where
  "MemoryInputStream_readNextByte s =
     (if ms_cur s < length (ms_data s)
      then (Some (ms_data s ! ms_cur s), s\<lparr>ms_cur := ms_cur s + 1\<rparr>) else (None, s))"

definition MemoryInputStream_skipNextBytes :: "nat \<Rightarrow> mem_stream \<Rightarrow> nat \<times> mem_stream" where
  "MemoryInputStream_skipNextBytes n s =
     (let nskipped = (if ms_add s n > length (ms_data s) then length (ms_data s) - ms_cur s else n)
      in (nskipped, s\<lparr>ms_cur := ms_add s nskipped\<rparr>))"

section \<open>The file stream\<close>

text \<open>
  \<open>fs_content\<close> is the file, \<open>fs_offset\<close> the file offset of the descriptor, \<open>fs_buf\<close> the
  \<open>buf_len_\<close> valid bytes of the chunk buffer and \<open>fs_pos\<close> the position in it. \<open>read\<close>
  on a regular file returns the requested bytes up to the end of the file.
\<close>

record file_stream =
  fs_content :: bytes
  fs_offset :: nat
  fs_buf :: bytes
  fs_pos :: nat

definition kChunkSize :: nat where
  "kChunkSize = 8192"

definition FileInputStream_fromFileDescriptor :: "bytes \<Rightarrow> file_stream" where
  "FileInputStream_fromFileDescriptor content =
     \<lparr>fs_content = content, fs_offset = 0, fs_buf = [], fs_pos = 0\<rparr>"

definition FileInputStream_readNextChunk :: "file_stream \<Rightarrow> bool \<times> file_stream" where
  "FileInputStream_readNextChunk s =
     (let chunk = take kChunkSize (drop (fs_offset s) (fs_content s))
      in (chunk \<noteq> [], s\<lparr>fs_offset := fs_offset s + length chunk, fs_buf := chunk, fs_pos := 0\<rparr>))"

definition FileInputStream_readNextByte :: "file_stream \<Rightarrow> byte option \<times> file_stream" where
  "FileInputStream_readNextByte s =
     (let s = (if fs_pos s \<ge> length (fs_buf s) then snd (FileInputStream_readNextChunk s) else s)
      in if fs_pos s < length (fs_buf s)
         then (Some (fs_buf s ! fs_pos s), s\<lparr>fs_pos := fs_pos s + 1\<rparr>) else (None, s))"

function FileInputStream_readNextBytes :: "nat \<Rightarrow> file_stream \<Rightarrow> bytes \<times> file_stream" where
  "FileInputStream_readNextBytes n s =
     (if n = 0 then ([], s)
      else let (more, s1) = (if fs_pos s \<ge> length (fs_buf s)
                             then FileInputStream_readNextChunk s else (True, s))
           in if \<not> more then ([], s1)
              else let k = min (length (fs_buf s1) - fs_pos s1) n;
                       bs = take k (drop (fs_pos s1) (fs_buf s1));
                       (cs, s2) = FileInputStream_readNextBytes (n - k) (s1\<lparr>fs_pos := fs_pos s1 + k\<rparr>)
                   in (bs @ cs, s2))"
  by pat_completeness auto
termination
  by (relation "measure fst")
     (auto simp: FileInputStream_readNextChunk_def Let_def split: if_splits)

declare FileInputStream_readNextBytes.simps [simp del]

definition FileInputStream_skipNextBytes :: "nat \<Rightarrow> file_stream \<Rightarrow> nat \<times> file_stream" where
  "FileInputStream_skipNextBytes nbytes s =
     (let buf_remaining = length (fs_buf s) - fs_pos s
      in if nbytes \<le> buf_remaining then (nbytes, s\<lparr>fs_pos := fs_pos s + nbytes\<rparr>)
         else (nbytes, s\<lparr>fs_pos := 0, fs_buf := [], fs_offset := fs_offset s + (nbytes - buf_remaining)\<rparr>))"

definition FileInputStream_seekTo :: "nat \<Rightarrow> file_stream \<Rightarrow> file_stream" where
  "FileInputStream_seekTo offset s = s\<lparr>fs_pos := 0, fs_buf := [], fs_offset := offset\<rparr>"

section \<open>The base class\<close>

text \<open>
  The methods of \<open>InputStream\<close> take the virtual methods they call as arguments:
  \<open>read1\<close> is \<open>readNextByte\<close>, \<open>readn\<close> is \<open>readNextBytes(void*, size_t)\<close>.
\<close>

fun InputStream_readNextBytes ::
  "('s \<Rightarrow> byte option \<times> 's) \<Rightarrow> nat \<Rightarrow> 's \<Rightarrow> bytes \<times> 's" where
  "InputStream_readNextBytes read1 0 s = ([], s)"
| "InputStream_readNextBytes read1 (Suc n) s =
     (case read1 s of
        (None, s') \<Rightarrow> ([], s')
      | (Some b, s') \<Rightarrow> (let (bs, s'') = InputStream_readNextBytes read1 n s' in (b # bs, s'')))"

definition InputStream_readExactly ::
  "(nat \<Rightarrow> 's \<Rightarrow> bytes \<times> 's) \<Rightarrow> nat \<Rightarrow> 's \<Rightarrow> (bytes \<times> 's) res" where
  "InputStream_readExactly readn n s =
     (let (bs, s') = readn n s in if length bs \<noteq> n then Inl EOFError else Inr (bs, s'))"

definition InputStream_readUInt8 :: "(nat \<Rightarrow> 's \<Rightarrow> bytes \<times> 's) \<Rightarrow> 's \<Rightarrow> (byte \<times> 's) res" where
  "InputStream_readUInt8 readn = act_bind (InputStream_readExactly readn 1) (\<lambda>bs. act_return (hd bs))"

definition InputStream_readUInt16 :: "(nat \<Rightarrow> 's \<Rightarrow> bytes \<times> 's) \<Rightarrow> 's \<Rightarrow> (u16 \<times> 's) res" where
  "InputStream_readUInt16 readn = act_bind (InputStream_readExactly readn 2) (\<lambda>bs. act_return (bytes_u16 bs))"

definition InputStream_readUInt32 :: "(nat \<Rightarrow> 's \<Rightarrow> bytes \<times> 's) \<Rightarrow> 's \<Rightarrow> (u32 \<times> 's) res" where
  "InputStream_readUInt32 readn = act_bind (InputStream_readExactly readn 4) (\<lambda>bs. act_return (bytes_u32 bs))"

definition InputStream_readUInt64 :: "(nat \<Rightarrow> 's \<Rightarrow> bytes \<times> 's) \<Rightarrow> 's \<Rightarrow> (u64 \<times> 's) res" where
  "InputStream_readUInt64 readn = act_bind (InputStream_readExactly readn 8) (\<lambda>bs. act_return (bytes_u64 bs))"

definition InputStream_readDouble :: "(nat \<Rightarrow> 's \<Rightarrow> bytes \<times> 's) \<Rightarrow> 's \<Rightarrow> (double \<times> 's) res" where
  "InputStream_readDouble readn =
     act_bind (InputStream_readExactly readn 8) (\<lambda>bs. act_return (IEEE754_fromBytes (bytes_u64 bs)))"

definition InputStream_readString :: "(nat \<Rightarrow> 's \<Rightarrow> bytes \<times> 's) \<Rightarrow> nat \<Rightarrow> 's \<Rightarrow> (bytes \<times> 's) res" where
  "InputStream_readString readn n = InputStream_readExactly readn n"

definition InputStream_readByteOrEOF :: "('s \<Rightarrow> byte option \<times> 's) \<Rightarrow> 's \<Rightarrow> (byte \<times> 's) res" where
  "InputStream_readByteOrEOF read1 s =
     (case read1 s of (None, _) \<Rightarrow> Inl EOFError | (Some b, s') \<Rightarrow> Inr (b, s'))"

definition InputStream_readVarUInt :: "('s \<Rightarrow> byte option \<times> 's) \<Rightarrow> 's \<Rightarrow> (u64 \<times> 's) res" where
  "InputStream_readVarUInt read1 = varuint_loop (InputStream_readByteOrEOF read1) 0 0"

definition InputStream_readLenencString ::
  "('s \<Rightarrow> byte option \<times> 's) \<Rightarrow> (nat \<Rightarrow> 's \<Rightarrow> bytes \<times> 's) \<Rightarrow> 's \<Rightarrow> (bytes \<times> 's) res" where
  "InputStream_readLenencString read1 readn =
     act_bind (InputStream_readVarUInt read1) (\<lambda>n. InputStream_readExactly readn (unat n))"

section \<open>What a stream promises\<close>

text \<open>
  \<open>reads_from ok rest f bs v\<close>: with \<open>bs\<close> next in the stream, the operation \<open>f\<close>
  returns \<open>v\<close> and leaves the stream right after them.
\<close>

definition reads_from ::
  "('s \<Rightarrow> bool) \<Rightarrow> ('s \<Rightarrow> bytes) \<Rightarrow> ('s \<Rightarrow> ('v \<times> 's) res) \<Rightarrow> bytes \<Rightarrow> 'v \<Rightarrow> bool" where
  "reads_from ok rest f bs v \<longleftrightarrow>
     (\<forall>s xs. ok s \<longrightarrow> rest s = bs @ xs \<longrightarrow> (\<exists>s'. f s = Inr (v, s') \<and> ok s' \<and> rest s' = xs))"

lemma reads_fromD:
  assumes "reads_from ok rest f bs v" and "ok s" and "rest s = bs @ xs"
  obtains s' where "f s = Inr (v, s')" "ok s'" "rest s' = xs"
  using assms unfolding reads_from_def by blast

lemma reads_from_return: "reads_from ok rest (act_return v) [] v"
  by (simp add: reads_from_def)

lemma reads_from_bind:
  assumes "reads_from ok rest f bs v" and "reads_from ok rest (g v) cs u"
  shows "reads_from ok rest (act_bind f g) (bs @ cs) u"
  unfolding reads_from_def
proof (intro allI impI)
  fix s xs assume s: "ok s" "rest s = (bs @ cs) @ xs"
  then have "rest s = bs @ (cs @ xs)" by simp
  with assms(1) s(1) obtain t where t: "f s = Inr (v, t)" "ok t" "rest t = cs @ xs"
    by (rule reads_fromD)
  from assms(2) t(2,3) obtain s' where "g v t = Inr (u, s')" "ok s'" "rest s' = xs"
    by (rule reads_fromD)
  with t(1) show "\<exists>s'. act_bind f g s = Inr (u, s') \<and> ok s' \<and> rest s' = xs" by simp
qed

lemma reads_from_bind_return:
  "reads_from ok rest f bs v \<Longrightarrow> reads_from ok rest (act_bind f (\<lambda>x. act_return (h x))) bs (h v)"
  using reads_from_bind [of ok rest f bs v "\<lambda>x. act_return (h x)" "[]" "h v"]
  by (simp add: reads_from_return)

lemma reads_from_bind_nil:
  assumes "reads_from ok rest f bs v" and "reads_from ok rest (g v) [] u"
  shows "reads_from ok rest (act_bind f g) bs u"
  using reads_from_bind [of ok rest f bs v g "[]" u] assms by simp

lemma reads_from_repeat:
  "(\<And>x. x \<in> set xs \<Longrightarrow> reads_from ok rest f (g x) (h x)) \<Longrightarrow>
   reads_from ok rest (act_repeat (length xs) f) (concat (map g xs)) (map h xs)"
proof (induction xs)
  case Nil
  then show ?case by (simp add: reads_from_def)
next
  case (Cons x xs)
  then have "reads_from ok rest (act_repeat (length xs) f) (concat (map g xs)) (map h xs)" by simp
  then have "reads_from ok rest (\<lambda>s. act_bind (act_repeat (length xs) f) (\<lambda>vs. act_return (h x # vs)) s)
      (concat (map g xs)) (h x # map h xs)"
    using reads_from_bind_return [of ok rest "act_repeat (length xs) f" _ _ "\<lambda>vs. h x # vs"] by simp
  from reads_from_bind [OF Cons.prems [of x], of _ _ _] this show ?case
    using reads_from_bind [of ok rest f "g x" "h x"
      "\<lambda>v. act_bind (act_repeat (length xs) f) (\<lambda>vs. act_return (v # vs))" "concat (map g xs)" "h x # map h xs"]
      Cons.prems by (simp add: reads_from_def)
qed

locale byte_source =
  fixes read1 :: "'s \<Rightarrow> byte option \<times> 's"
    and readn :: "nat \<Rightarrow> 's \<Rightarrow> bytes \<times> 's"
    and skip :: "nat \<Rightarrow> 's \<Rightarrow> nat \<times> 's"
    and rest :: "'s \<Rightarrow> bytes"
    and ok :: "'s \<Rightarrow> bool"
  assumes read1_Cons: "ok s \<Longrightarrow> rest s = b # bs \<Longrightarrow> \<exists>s'. read1 s = (Some b, s') \<and> ok s' \<and> rest s' = bs"
    and read1_Nil: "ok s \<Longrightarrow> rest s = [] \<Longrightarrow> fst (read1 s) = None"
    and readn_take: "ok s \<Longrightarrow> \<exists>s'. readn n s = (take n (rest s), s') \<and> ok s' \<and> rest s' = drop n (rest s)"
    and skip_drop: "ok s \<Longrightarrow> n \<le> length (rest s) \<Longrightarrow> \<exists>s'. skip n s = (n, s') \<and> ok s' \<and> rest s' = drop n (rest s)"
begin

lemma readExactly_ok: "length bs = n \<Longrightarrow> reads_from ok rest (InputStream_readExactly readn n) bs bs"
  unfolding reads_from_def
proof (intro allI impI)
  fix s xs assume "length bs = n" "ok s" "rest s = bs @ xs"
  with readn_take [of s n] show "\<exists>s'. InputStream_readExactly readn n s = Inr (bs, s') \<and> ok s' \<and> rest s' = xs"
    by (auto simp: InputStream_readExactly_def)
qed

lemma readExactly_short:
  "ok s \<Longrightarrow> length (rest s) < n \<Longrightarrow> InputStream_readExactly readn n s = Inl EOFError"
  using readn_take [of s n] by (auto simp: InputStream_readExactly_def)

lemma readUInt_ok:
  "reads_from ok rest (InputStream_readUInt8 readn) [a] a"
  "reads_from ok rest (InputStream_readUInt16 readn) (u16_bytes b) b"
  "reads_from ok rest (InputStream_readUInt32 readn) (u32_bytes c) c"
  "reads_from ok rest (InputStream_readUInt64 readn) (u64_bytes d) d"
  "reads_from ok rest (InputStream_readDouble readn) (u64_bytes (double_bits e)) e"
  using reads_from_bind_return [OF readExactly_ok, of "[a]" 1 hd]
    reads_from_bind_return [OF readExactly_ok, of "u16_bytes b" 2 bytes_u16]
    reads_from_bind_return [OF readExactly_ok, of "u32_bytes c" 4 bytes_u32]
    reads_from_bind_return [OF readExactly_ok, of "u64_bytes d" 8 bytes_u64]
    reads_from_bind_return [OF readExactly_ok, of "u64_bytes (double_bits e)" 8
      "\<lambda>x. IEEE754_fromBytes (bytes_u64 x)"]
  by (simp_all add: InputStream_readUInt8_def InputStream_readUInt16_def InputStream_readUInt32_def
      InputStream_readUInt64_def InputStream_readDouble_def IEEE754_fromBytes_def)

lemma readUInt_short:
  "ok s \<Longrightarrow> length (rest s) < 4 \<Longrightarrow> InputStream_readUInt32 readn s = Inl EOFError"
  "ok s \<Longrightarrow> length (rest s) < 8 \<Longrightarrow> InputStream_readUInt64 readn s = Inl EOFError"
  by (simp_all add: InputStream_readUInt32_def InputStream_readUInt64_def readExactly_short)

lemma readString_ok: "length bs = n \<Longrightarrow> reads_from ok rest (InputStream_readString readn n) bs bs"
  by (simp add: InputStream_readString_def readExactly_ok)

lemma deliver_source:
  "ok s \<Longrightarrow> rest s = bs @ xs \<Longrightarrow>
   \<exists>s'. deliver (InputStream_readByteOrEOF read1) s bs s' \<and> ok s' \<and> rest s' = xs"
proof (induction bs arbitrary: s)
  case (Cons b bs)
  then obtain t where "read1 s = (Some b, t)" "ok t" "rest t = bs @ xs"
    using read1_Cons [of s b "bs @ xs"] by auto
  with Cons.IH [of t] show ?case by (auto simp: InputStream_readByteOrEOF_def)
qed simp

lemma readVarUInt_ok: "reads_from ok rest (InputStream_readVarUInt read1) (varuint_bytes v) v"
  unfolding reads_from_def
proof (intro allI impI)
  fix s xs assume "ok s" "rest s = varuint_bytes v @ xs"
  then obtain s' where "deliver (InputStream_readByteOrEOF read1) s (varuint_bytes v) s'"
    "ok s'" "rest s' = xs"
    using deliver_source by blast
  then show "\<exists>s'. InputStream_readVarUInt read1 s = Inr (v, s') \<and> ok s' \<and> rest s' = xs"
    by (auto simp: InputStream_readVarUInt_def varuint_loop_inverse)
qed

lemma readVarUInt_eof:
  "ok s \<Longrightarrow> rest s = [] \<Longrightarrow> InputStream_readVarUInt read1 s = Inl EOFError"
proof -
  assume "ok s" "rest s = []"
  then have "InputStream_readByteOrEOF read1 s = Inl EOFError"
    using read1_Nil [of s] by (auto simp: InputStream_readByteOrEOF_def split: prod.splits)
  then show ?thesis
    unfolding InputStream_readVarUInt_def by (subst varuint_loop.simps) simp
qed

lemma readLenencString_ok:
  "length s < 2 ^ 64 \<Longrightarrow> reads_from ok rest (InputStream_readLenencString read1 readn)
     (varuint_bytes (word_of_nat (length s)) @ s) s"
  unfolding InputStream_readLenencString_def
  by (rule reads_from_bind [OF readVarUInt_ok]) (simp add: readExactly_ok unat_of_nat)

end

section \<open>Virtual dispatch\<close>

text \<open>An \<open>InputStream*\<close> is one of the four subclasses.\<close>

datatype input_stream =
    StringIS mem_stream
  | BufferIS mem_stream
  | MemoryIS mem_stream
  | FileIS file_stream

fun is_readNextByte :: "input_stream \<Rightarrow> byte option \<times> input_stream" where
  "is_readNextByte (StringIS m) = map_prod id StringIS (StringInputStream_readNextByte m)"
| "is_readNextByte (BufferIS m) = map_prod id BufferIS (BufferInputStream_readNextByte m)"
| "is_readNextByte (MemoryIS m) = map_prod id MemoryIS (MemoryInputStream_readNextByte m)"
| "is_readNextByte (FileIS f) = map_prod id FileIS (FileInputStream_readNextByte f)"

fun is_readNextBytes :: "nat \<Rightarrow> input_stream \<Rightarrow> bytes \<times> input_stream" where
  "is_readNextBytes n (StringIS m) =
     map_prod id StringIS (InputStream_readNextBytes StringInputStream_readNextByte n m)"
| "is_readNextBytes n (BufferIS m) =
     map_prod id BufferIS (InputStream_readNextBytes BufferInputStream_readNextByte n m)"
| "is_readNextBytes n (MemoryIS m) =
     map_prod id MemoryIS (InputStream_readNextBytes MemoryInputStream_readNextByte n m)"
| "is_readNextBytes n (FileIS f) = map_prod id FileIS (FileInputStream_readNextBytes n f)"

fun is_skipNextBytes :: "nat \<Rightarrow> input_stream \<Rightarrow> nat \<times> input_stream" where
  "is_skipNextBytes n (StringIS m) = map_prod id StringIS (StringInputStream_skipNextBytes n m)"
| "is_skipNextBytes n (BufferIS m) = map_prod id BufferIS (BufferInputStream_skipNextBytes n m)"
| "is_skipNextBytes n (MemoryIS m) = map_prod id MemoryIS (MemoryInputStream_skipNextBytes n m)"
| "is_skipNextBytes n (FileIS f) = map_prod id FileIS (FileInputStream_skipNextBytes n f)"

definition is_readUInt32 :: "input_stream \<Rightarrow> (u32 \<times> input_stream) res" where
  "is_readUInt32 = InputStream_readUInt32 is_readNextBytes"

definition is_readUInt64 :: "input_stream \<Rightarrow> (u64 \<times> input_stream) res" where
  "is_readUInt64 = InputStream_readUInt64 is_readNextBytes"

definition is_readVarUInt :: "input_stream \<Rightarrow> (u64 \<times> input_stream) res" where
  "is_readVarUInt = InputStream_readVarUInt is_readNextByte"

definition is_readString :: "nat \<Rightarrow> input_stream \<Rightarrow> (bytes \<times> input_stream) res" where
  "is_readString = InputStream_readString is_readNextBytes"

definition is_readLenencString :: "input_stream \<Rightarrow> (bytes \<times> input_stream) res" where
  "is_readLenencString = InputStream_readLenencString is_readNextByte is_readNextBytes"

section \<open>Every subclass keeps the promise\<close>

definition ms_rest :: "mem_stream \<Rightarrow> bytes" where
  "ms_rest s = drop (ms_cur s) (ms_data s)"

definition fs_ok :: "file_stream \<Rightarrow> bool" where
  "fs_ok s \<longleftrightarrow> fs_pos s \<le> length (fs_buf s)"

definition fs_rest :: "file_stream \<Rightarrow> bytes" where
  "fs_rest s = drop (fs_pos s) (fs_buf s) @ drop (fs_offset s) (fs_content s)"

fun is_rest :: "input_stream \<Rightarrow> bytes" where
  "is_rest (StringIS m) = ms_rest m"
| "is_rest (BufferIS m) = ms_rest m"
| "is_rest (MemoryIS m) = ms_rest m"
| "is_rest (FileIS f) = fs_rest f"

fun is_ok :: "input_stream \<Rightarrow> bool" where
  "is_ok (FileIS f) = fs_ok f"
| "is_ok _ = True"

text \<open>
  The base-class loop keeps the promise of \<open>readNextBytes\<close> whenever \<open>readNextByte\<close> does.
\<close>

locale byte_reader =
  fixes read1 :: "'s \<Rightarrow> byte option \<times> 's" and rest :: "'s \<Rightarrow> bytes"
  assumes read1_Cons: "rest s = b # bs \<Longrightarrow> \<exists>s'. read1 s = (Some b, s') \<and> rest s' = bs"
    and read1_Nil: "rest s = [] \<Longrightarrow> read1 s = (None, s)"
begin

lemma base_readNextBytes:
  "\<exists>s'. InputStream_readNextBytes read1 n s = (take n (rest s), s') \<and> rest s' = drop n (rest s)"
proof (induction n arbitrary: s)
  case (Suc n)
  show ?case
  proof (cases "rest s")
    case Nil
    then show ?thesis by (simp add: read1_Nil)
  next
    case (Cons b bs)
    then obtain t where t: "read1 s = (Some b, t)" "rest t = bs" using read1_Cons by blast
    with Suc.IH [of t] Cons show ?thesis by auto
  qed
qed simp

end

text \<open>A skip that stays within what is left does not wrap.\<close>

lemma ms_skip_within:
  assumes "n \<le> length (ms_rest s)"
  shows "(if ms_add s n > length (ms_data s) then length (ms_data s) - ms_cur s else n) = n"
    and "ms_add s n = ms_cur s + n"
  using assms by (auto simp: ms_rest_def ms_add_def)

lemma mem_rest_nth: "ms_rest s = b # bs \<longleftrightarrow>
    ms_cur s < length (ms_data s) \<and> ms_data s ! ms_cur s = b \<and> drop (Suc (ms_cur s)) (ms_data s) = bs"
proof (cases "ms_cur s < length (ms_data s)")
  case True
  then show ?thesis by (auto simp: ms_rest_def Cons_nth_drop_Suc [symmetric])
qed (simp add: ms_rest_def)

interpretation string_stream: byte_reader StringInputStream_readNextByte ms_rest
  by unfold_locales
     (auto simp: mem_rest_nth StringInputStream_readNextByte_def, auto simp: ms_rest_def)

interpretation buffer_stream: byte_reader BufferInputStream_readNextByte ms_rest
  by unfold_locales
     (auto simp: mem_rest_nth BufferInputStream_readNextByte_def, auto simp: ms_rest_def)

interpretation memory_stream: byte_reader MemoryInputStream_readNextByte ms_rest
  by unfold_locales
     (auto simp: mem_rest_nth MemoryInputStream_readNextByte_def, auto simp: ms_rest_def)

lemma fs_readNextChunk:
  assumes "fs_pos s \<ge> length (fs_buf s)" and "fs_ok s"
  shows "FileInputStream_readNextChunk s = (fs_rest s \<noteq> [], snd (FileInputStream_readNextChunk s))"
    and "fs_ok (snd (FileInputStream_readNextChunk s))"
    and "fs_rest (snd (FileInputStream_readNextChunk s)) = fs_rest s"
    and "fs_pos (snd (FileInputStream_readNextChunk s)) < length (fs_buf (snd (FileInputStream_readNextChunk s)))
      \<longleftrightarrow> fs_rest s \<noteq> []"
proof -
  let ?s' = "snd (FileInputStream_readNextChunk s)"
  have c: "0 < kChunkSize" by (simp add: kChunkSize_def)
  from assms have r: "fs_rest s = drop (fs_offset s) (fs_content s)" by (simp add: fs_rest_def)
  show "FileInputStream_readNextChunk s = (fs_rest s \<noteq> [], ?s')"
    using c by (auto simp: FileInputStream_readNextChunk_def Let_def r)
  show "fs_ok ?s'" "fs_pos ?s' < length (fs_buf ?s') \<longleftrightarrow> fs_rest s \<noteq> []"
    using c by (auto simp: FileInputStream_readNextChunk_def Let_def r fs_ok_def)
  show "fs_rest ?s' = fs_rest s"
  proof -
    have "take k ys @ drop (length (take k ys)) ys = ys" for k :: nat and ys :: bytes
      by (cases "length ys \<le> k") simp_all
    from this [of kChunkSize "drop (fs_offset s) (fs_content s)"] show ?thesis
      by (simp add: FileInputStream_readNextChunk_def Let_def r)
         (simp add: fs_rest_def add.commute)
  qed
qed

lemma fs_read1:
  assumes "fs_ok s"
  shows "\<exists>s'. FileInputStream_readNextByte s =
      ((case fs_rest s of [] \<Rightarrow> None | b # _ \<Rightarrow> Some b), s') \<and> fs_ok s' \<and> fs_rest s' = tl (fs_rest s)"
proof -
  define t where "t = (if fs_pos s \<ge> length (fs_buf s) then snd (FileInputStream_readNextChunk s) else s)"
  have t: "fs_ok t" "fs_rest t = fs_rest s" "fs_pos t < length (fs_buf t) \<longleftrightarrow> fs_rest s \<noteq> []"
    using fs_readNextChunk [OF _ assms] assms
    by (cases "fs_pos s \<ge> length (fs_buf s)"; auto simp: t_def fs_rest_def)+
  show ?thesis
  proof (cases "fs_pos t < length (fs_buf t)")
    case True
    then have r: "fs_rest t = (fs_buf t ! fs_pos t) # drop (Suc (fs_pos t)) (fs_buf t) @ drop (fs_offset t) (fs_content t)"
      by (simp add: fs_rest_def Cons_nth_drop_Suc [symmetric])
    have "FileInputStream_readNextByte s = (Some (fs_buf t ! fs_pos t), t\<lparr>fs_pos := fs_pos t + 1\<rparr>)"
      using True by (simp add: FileInputStream_readNextByte_def Let_def flip: t_def)
    moreover have "fs_ok (t\<lparr>fs_pos := fs_pos t + 1\<rparr>)" using True by (simp add: fs_ok_def)
    moreover have "fs_rest (t\<lparr>fs_pos := fs_pos t + 1\<rparr>) = tl (fs_rest t)"
      unfolding r by (simp add: fs_rest_def)
    ultimately show ?thesis using r t(2) by simp
  next
    case False
    then have "FileInputStream_readNextByte s = (None, t)"
      by (simp add: FileInputStream_readNextByte_def Let_def flip: t_def)
    with False t show ?thesis by simp
  qed
qed

lemma fs_readn:
  "fs_ok s \<Longrightarrow> \<exists>s'. FileInputStream_readNextBytes n s = (take n (fs_rest s), s') \<and> fs_ok s' \<and>
     fs_rest s' = drop n (fs_rest s)"
proof (induction n arbitrary: s rule: less_induct)
  case (less n)
  obtain more t where t: "(if fs_pos s \<ge> length (fs_buf s)
      then FileInputStream_readNextChunk s else (True, s)) = (more, t)" by fastforce
  have "fs_ok t \<and> fs_rest t = fs_rest s \<and> (more \<longleftrightarrow> fs_pos t < length (fs_buf t)) \<and>
      (\<not> more \<longrightarrow> fs_rest s = [])"
  proof (cases "fs_pos s \<ge> length (fs_buf s)")
    case True
    with t fs_readNextChunk(1) [OF True less.prems]
    have "more \<longleftrightarrow> fs_rest s \<noteq> []" "t = snd (FileInputStream_readNextChunk s)" by auto
    with fs_readNextChunk(2,3,4) [OF True less.prems] show ?thesis by simp
  qed (use t less.prems in auto)
  then have r: "fs_ok t" "fs_rest t = fs_rest s" "more \<longleftrightarrow> fs_pos t < length (fs_buf t)"
    "\<not> more \<Longrightarrow> fs_rest s = []" by auto
  show ?case
  proof (cases "n = 0 \<or> \<not> more")
    case True
    with t r less.prems show ?thesis
      by (subst FileInputStream_readNextBytes.simps) auto
  next
    case False
    define k where "k = min (length (fs_buf t) - fs_pos t) n"
    define u where "u = t\<lparr>fs_pos := fs_pos t + k\<rparr>"
    from False r have k: "0 < k" "k \<le> n" "fs_pos t + k \<le> length (fs_buf t)" by (auto simp: k_def)
    then have u: "fs_ok u" by (simp add: u_def fs_ok_def)
    have ur: "fs_rest u = drop k (fs_rest s)" "take k (drop (fs_pos t) (fs_buf t)) = take k (fs_rest s)"
      unfolding r(2) [symmetric] using k by (simp_all add: u_def fs_rest_def add.commute)
    from less.IH [of "n - k" u] k u False obtain s' where s':
      "FileInputStream_readNextBytes (n - k) u = (take (n - k) (fs_rest u), s')" "fs_ok s'"
      "fs_rest s' = drop (n - k) (fs_rest u)" by auto
    have "FileInputStream_readNextBytes n s =
        (take k (drop (fs_pos t) (fs_buf t)) @ take (n - k) (fs_rest u), s')"
      using False t s'(1) by (subst FileInputStream_readNextBytes.simps) (simp add: Let_def flip: k_def u_def)
    also have "take k (drop (fs_pos t) (fs_buf t)) @ take (n - k) (fs_rest u) = take n (fs_rest s)"
      using k(2) by (simp add: ur flip: take_add)
    finally show ?thesis using s'(2,3) k(2) by (simp add: ur)
  qed
qed

interpretation file_stream: byte_source FileInputStream_readNextByte FileInputStream_readNextBytes
  FileInputStream_skipNextBytes fs_rest fs_ok
proof unfold_locales
  fix s :: file_stream and b bs n
  assume ok: "fs_ok s"
  show "fs_rest s = b # bs \<Longrightarrow>
      \<exists>s'. FileInputStream_readNextByte s = (Some b, s') \<and> fs_ok s' \<and> fs_rest s' = bs"
    using fs_read1 [OF ok] by auto
  show "fs_rest s = [] \<Longrightarrow> fst (FileInputStream_readNextByte s) = None"
    using fs_read1 [OF ok] by auto
  show "\<exists>s'. FileInputStream_readNextBytes n s = (take n (fs_rest s), s') \<and> fs_ok s' \<and>
      fs_rest s' = drop n (fs_rest s)"
    by (rule fs_readn [OF ok])
  show "n \<le> length (fs_rest s) \<Longrightarrow>
      \<exists>s'. FileInputStream_skipNextBytes n s = (n, s') \<and> fs_ok s' \<and> fs_rest s' = drop n (fs_rest s)"
    using ok by (auto simp: FileInputStream_skipNextBytes_def Let_def fs_ok_def fs_rest_def add.commute)
qed

interpretation input: byte_source is_readNextByte is_readNextBytes is_skipNextBytes is_rest is_ok
proof unfold_locales
  fix s :: input_stream and b bs n
  assume ok: "is_ok s"
  show "is_rest s = b # bs \<Longrightarrow>
      \<exists>s'. is_readNextByte s = (Some b, s') \<and> is_ok s' \<and> is_rest s' = bs"
  proof (cases s)
    case (StringIS m)
    then show "is_rest s = b # bs \<Longrightarrow> ?thesis" using string_stream.read1_Cons [of m b bs] by auto
  next
    case (BufferIS m)
    then show "is_rest s = b # bs \<Longrightarrow> ?thesis" using buffer_stream.read1_Cons [of m b bs] by auto
  next
    case (MemoryIS m)
    then show "is_rest s = b # bs \<Longrightarrow> ?thesis" using memory_stream.read1_Cons [of m b bs] by auto
  next
    case (FileIS f)
    then show "is_rest s = b # bs \<Longrightarrow> ?thesis" using ok file_stream.read1_Cons [of f b bs] by auto
  qed
  show "is_rest s = [] \<Longrightarrow> fst (is_readNextByte s) = None"
    by (cases s) (use ok in \<open>simp_all add: string_stream.read1_Nil buffer_stream.read1_Nil
      memory_stream.read1_Nil file_stream.read1_Nil\<close>)
  show "\<exists>s'. is_readNextBytes n s = (take n (is_rest s), s') \<and> is_ok s' \<and> is_rest s' = drop n (is_rest s)"
  proof (cases s)
    case (StringIS m)
    with string_stream.base_readNextBytes [of n m] show ?thesis by auto
  next
    case (BufferIS m)
    with buffer_stream.base_readNextBytes [of n m] show ?thesis by auto
  next
    case (MemoryIS m)
    with memory_stream.base_readNextBytes [of n m] show ?thesis by auto
  next
    case (FileIS f)
    with ok file_stream.readn_take [of f n] show ?thesis by auto
  qed
  show "n \<le> length (is_rest s) \<Longrightarrow>
      \<exists>s'. is_skipNextBytes n s = (n, s') \<and> is_ok s' \<and> is_rest s' = drop n (is_rest s)"
  proof (cases s)
    case (FileIS f)
    assume "n \<le> length (is_rest s)"
    with FileIS ok file_stream.skip_drop [of f n] show ?thesis by auto
  qed (auto simp: StringInputStream_skipNextBytes_def BufferInputStream_skipNextBytes_def
      MemoryInputStream_skipNextBytes_def ms_skip_within Let_def, auto simp: ms_rest_def add.commute)
qed

text \<open>The facts clients of an \<open>InputStream\<close> use, over the dispatched operations.\<close>

abbreviation is_reads :: "(input_stream \<Rightarrow> ('v \<times> input_stream) res) \<Rightarrow> bytes \<Rightarrow> 'v \<Rightarrow> bool" where
  "is_reads \<equiv> reads_from is_ok is_rest"

named_theorems is_reads_intros

lemma is_reads_ops [is_reads_intros]:
  "is_reads is_readUInt32 (u32_bytes a) a"
  "is_reads is_readUInt64 (u64_bytes b) b"
  "is_reads is_readVarUInt (varuint_bytes v) v"
  "length s = n \<Longrightarrow> is_reads (is_readString n) s s"
  "length t < 2 ^ 64 \<Longrightarrow> is_reads is_readLenencString (varuint_bytes (word_of_nat (length t)) @ t) t"
  by (simp_all only: is_readUInt32_def is_readUInt64_def is_readVarUInt_def is_readString_def
      is_readLenencString_def input.readUInt_ok input.readVarUInt_ok input.readString_ok
      input.readLenencString_ok)

end
