(* ===== verification/CS_SHA1.thy ===== *)
theory CS_SHA1
  imports CS_Prelude
begin

text \<open>
  The hash of \<open>stx/SHA1.cc\<close>, which protects the meta blocks of the second file format: the
  80 rounds over the schedule buffer \<open>w\<close>, the loop over the full blocks, the last block that
  is assembled byte by byte, and the output in big-endian order. The loop counters of the C++
  code are \<open>int\<close>, so the model is that of data of less than \<open>2 ^ 31\<close> bytes.
\<close>

type_synonym sha_state = "u32 \<times> u32 \<times> u32 \<times> u32 \<times> u32"

definition rol :: "u32 \<Rightarrow> nat \<Rightarrow> u32" where
  "rol v steps = push_bit steps v OR drop_bit (32 - steps) v"

text \<open>\<open>sha1macro(func, val)\<close>.\<close>

fun sha1macro :: "u32 \<Rightarrow> u32 \<Rightarrow> u32 \<Rightarrow> sha_state \<Rightarrow> sha_state" where
  "sha1macro func val wt (a, b, c, d, e) = (rol a 5 + func + e + val + wt, a, rol b 30, c, d)"

fun innerHash_round :: "nat \<Rightarrow> sha_state \<times> u32 list \<Rightarrow> sha_state \<times> u32 list" where
  "innerHash_round round ((a, b, c, d, e), w) =
     (let w = (if round < 16 then w
               else w[round := rol (w ! (round - 3) XOR w ! (round - 8) XOR w ! (round - 14) XOR w ! (round - 16)) 1]);
          s = (a, b, c, d, e)
      in if round < 20 then (sha1macro ((b AND c) OR (NOT b AND d)) 0x5a827999 (w ! round) s, w)
         else if round < 40 then (sha1macro (b XOR c XOR d) 0x6ed9eba1 (w ! round) s, w)
         else if round < 60 then (sha1macro ((b AND c) OR (b AND d) OR (c AND d)) 0x8f1bbcdc (w ! round) s, w)
         else (sha1macro (b XOR c XOR d) 0xca62c1d6 (w ! round) s, w))"

fun sha_add :: "sha_state \<Rightarrow> sha_state \<Rightarrow> sha_state" where
  "sha_add (a, b, c, d, e) (a', b', c', d', e') = (a + a', b + b', c + c', d + d', e + e')"

definition innerHash :: "sha_state \<times> u32 list \<Rightarrow> sha_state \<times> u32 list" where
  "innerHash s =
     (let (result', w) = foldl (\<lambda>s round. innerHash_round round s) s [0..<80]
      in (sha_add (fst s) result', w))"

definition clearWBuffert :: "u32 list \<Rightarrow> u32 list" where
  "clearWBuffert w = replicate 16 0 @ drop 16 w"

definition be_word :: "byte \<Rightarrow> byte \<Rightarrow> byte \<Rightarrow> byte \<Rightarrow> u32" where
  "be_word b0 b1 b2 b3 = ucast b3 OR push_bit 8 (ucast b2) OR push_bit 16 (ucast b1) OR push_bit 24 (ucast b0)"

definition load_block :: "bytes \<Rightarrow> nat \<Rightarrow> u32 list \<Rightarrow> u32 list" where
  "load_block sarray currentBlock w =
     map (\<lambda>i. let k = currentBlock + 4 * i
              in be_word (sarray ! k) (sarray ! (k + 1)) (sarray ! (k + 2)) (sarray ! (k + 3))) [0..<16]
     @ drop 16 w"

function sha1_blocks :: "bytes \<Rightarrow> nat \<Rightarrow> sha_state \<times> u32 list \<Rightarrow> nat \<times> sha_state \<times> u32 list" where
  "sha1_blocks sarray currentBlock s =
     (if currentBlock + 64 \<le> length sarray
      then sha1_blocks sarray (currentBlock + 64) (innerHash (fst s, load_block sarray currentBlock (snd s)))
      else (currentBlock, s))"
  by pat_completeness auto
termination by (relation "measure (\<lambda>(sarray, cur, _). length sarray - cur)") auto

declare sha1_blocks.simps [simp del]

definition or_byte :: "u32 list \<Rightarrow> nat \<Rightarrow> u32 \<Rightarrow> u32 list" where
  "or_byte w i v = w[i div 4 := w ! (i div 4) OR push_bit ((3 - i mod 4) * 8) v]"

definition sha1_output :: "sha_state \<Rightarrow> bytes" where
  "sha1_output s =
     (case s of (a, b, c, d, e) \<Rightarrow>
        concat (map (\<lambda>r. [ucast (drop_bit 24 r), ucast (drop_bit 16 r), ucast (drop_bit 8 r), ucast r])
          [a, b, c, d, e]))"

definition SHA1_compute :: "bytes \<Rightarrow> bytes" where
  "SHA1_compute sarray =
     (let result = (0x67452301, 0xefcdab89, 0x98badcfe, 0x10325476, 0xc3d2e1f0);
          (currentBlock, result, w) = sha1_blocks sarray 0 (result, replicate 80 0);
          endCurrentBlock = length sarray - currentBlock;
          w = foldl (\<lambda>w i. or_byte w i (ucast (sarray ! (i + currentBlock)))) (clearWBuffert w) [0..<endCurrentBlock];
          w = or_byte w endCurrentBlock 0x80;
          (result, w) = (if endCurrentBlock \<ge> 56
                         then (let (result, w) = innerHash (result, w) in (result, clearWBuffert w))
                         else (result, w));
          w = w[15 := push_bit 3 (word_of_nat (length sarray))];
          (result, w) = innerHash (result, w)
      in sha1_output result)"

lemma length_sha1_output [simp]: "length (sha1_output s) = 20"
  by (cases s) (simp add: sha1_output_def)

lemma length_SHA1_compute [simp]: "length (SHA1_compute data) = 20"
  by (simp add: SHA1_compute_def split_def Let_def)

end
