(* ===== verification/CS_Format.thy ===== *)
theory CS_Format
  imports CS_TableSchema CS_Stream CS_SHA1 "HOL-Library.List_Lexorder"
begin

text \<open>
  The file headers (\<open>cstable/cstable.cc\<close>, \<open>cstable/cstable.h\<close>): the meta blocks of the
  second format with their SHA1 checksum, the headers of both formats, and the choice of the
  meta block when a file is opened. An output stream is the list of bytes written so far.
\<close>

section \<open>Constants and types\<close>

datatype BinaryFormatVersion = V0_1_0 | V0_2_0

definition kMagicBytes :: bytes where
  "kMagicBytes = [0x23, 0x17, 0x23, 0x17]"

definition kSectorSize :: nat where
  "kSectorSize = 512"

definition padToNextSector :: "u64 \<Rightarrow> u64" where
  "padToNextSector val =
     ((val + (word_of_nat kSectorSize - 1)) div word_of_nat kSectorSize) * word_of_nat kSectorSize"

definition kMetaBlockPosition :: nat where
  "kMetaBlockPosition = 14"

definition kMetaBlockSize :: nat where
  "kMetaBlockSize = 56"

definition kMagicBytesUInt32 :: u32 where
  "kMagicBytesUInt32 = 0x17231723"

record MetaBlock =
  mb_transaction_id :: u64
  mb_num_rows :: u64
  mb_head_index_page_offset :: u64
  mb_head_index_page_size :: u32
  mb_file_size :: u64

record PageRef =
  pr_offset :: u64
  pr_size :: u32

record FileHeader =
  fh_columns :: "ColumnConfig list"
  fh_num_rows :: u64

section \<open>Format v0.2.0\<close>

definition metablock_ops :: "MetaBlock \<Rightarrow> (message_writer \<Rightarrow> message_writer res) list" where
  "metablock_ops mb =
     [mw_appendUInt64 (mb_transaction_id mb),
      mw_appendUInt64 (mb_num_rows mb),
      mw_appendUInt64 (mb_head_index_page_offset mb),
      mw_appendUInt32 (mb_head_index_page_size mb),
      mw_appendUInt64 (mb_file_size mb)]"

definition writeMetaBlock :: "MetaBlock \<Rightarrow> bytes \<Rightarrow> (nat \<times> bytes) res" where
  "writeMetaBlock mb os =
     res_bind (mw_seq (metablock_ops mb) (mw_new kInitialDataSize)) (\<lambda>buf.
       let os = os @ mw_data buf;
           hash = SHA1_compute (mw_data buf);
           os = os @ hash
       in Inr (length (mw_data buf) + length hash, os))"

text \<open>
  \<open>readMetaBlock\<close> ignores how many bytes \<open>readNextBytes\<close> delivered; with fewer than 56 the
  rest of the buffer was never written.
\<close>

definition metablock_fields :: "message_reader \<Rightarrow> (MetaBlock \<times> message_reader) res" where
  "metablock_fields =
     act_bind mr_readUInt64 (\<lambda>transaction_id.
     act_bind mr_readUInt64 (\<lambda>num_rows.
     act_bind mr_readUInt64 (\<lambda>head_index_page_offset.
     act_bind mr_readUInt32 (\<lambda>head_index_page_size.
     act_bind mr_readUInt64 (\<lambda>file_size.
       act_return \<lparr>mb_transaction_id = transaction_id, mb_num_rows = num_rows,
         mb_head_index_page_offset = head_index_page_offset,
         mb_head_index_page_size = head_index_page_size, mb_file_size = file_size\<rparr>)))))"

definition readMetaBlock :: "input_stream \<Rightarrow> (MetaBlock option \<times> input_stream) res" where
  "readMetaBlock is =
     (let (buf, is) = is_readNextBytes kMetaBlockSize is
      in if length buf < kMetaBlockSize then Inl Undefined
         else let hash_a = SHA1_compute (take (kMetaBlockSize - 20) buf);
                  hash_b = take 20 (drop (kMetaBlockSize - 20) buf)
              in if hash_a = hash_b
                 then res_bind (metablock_fields (mr_open buf (length buf))) (\<lambda>(mb, _). Inr (Some mb, is))
                 else Inr (None, is))"

definition column_info_ops :: "ColumnConfig \<Rightarrow> (message_writer \<Rightarrow> message_writer res) list" where
  "column_info_ops col =
     [mw_appendVarUInt (ucast (type_code (cc_logical_type col))),
      mw_appendVarUInt (ucast (enc_code (cc_storage_type col))),
      mw_appendVarUInt (ucast (cc_column_id col)),
      mw_appendLenencString (cc_column_name col),
      mw_appendVarUInt (cc_rlevel_max col),
      mw_appendVarUInt (cc_dlevel_max col)]"

definition v2_writeHeader :: "FileHeader \<Rightarrow> bytes \<Rightarrow> (nat \<times> bytes) res" where
  "v2_writeHeader hdr os =
     res_bind (mw_seq [mw_append kMagicBytes, mw_appendUInt16 2, mw_appendUInt64 0] (mw_new kInitialDataSize)) (\<lambda>buf.
     if length (mw_data buf) \<noteq> kMetaBlockPosition then Inl AssertionError
     else
     res_bind (mw_seq
       ([mw_appendString (replicate (kMetaBlockSize * 2) 0),
         mw_appendString (replicate 128 0),
         mw_appendVarUInt (word_of_nat (length (fh_columns hdr)))] @
        concat (map column_info_ops (fh_columns hdr))) buf) (\<lambda>buf.
     let header_padding = padToNextSector (word_of_nat (length (mw_data buf))) - word_of_nat (length (mw_data buf))
     in res_bind (mw_appendString (replicate (unat header_padding) 0) buf) (\<lambda>buf.
        Inr (length (mw_data buf), os @ mw_data buf))))"

text \<open>
  The members of a local \<open>ColumnConfig\<close> that a reader does not set keep what the stack held,
  \<open>col0\<close>.
\<close>

definition v2_readColumn :: "ColumnConfig \<Rightarrow> input_stream \<Rightarrow> (ColumnConfig \<times> input_stream) res" where
  "v2_readColumn col0 =
     act_bind is_readVarUInt (\<lambda>logical_type.
     act_bind is_readVarUInt (\<lambda>storage_type.
     act_bind is_readVarUInt (\<lambda>column_id.
     act_bind is_readLenencString (\<lambda>column_name.
     act_bind is_readVarUInt (\<lambda>rlevel_max.
     act_bind is_readVarUInt (\<lambda>dlevel_max.
       act_return (col0\<lparr>cc_logical_type := type_of_code (ucast logical_type),
         cc_storage_type := enc_of_code (ucast storage_type), cc_column_id := ucast column_id,
         cc_column_name := column_name, cc_rlevel_max := rlevel_max, cc_dlevel_max := dlevel_max\<rparr>)))))))"

definition is_skip :: "nat \<Rightarrow> input_stream \<Rightarrow> (unit \<times> input_stream) res" where
  "is_skip n is = Inr ((), snd (is_skipNextBytes n is))"

definition v2_readHeader ::
  "ColumnConfig \<Rightarrow> FileHeader \<Rightarrow> input_stream \<Rightarrow> ((FileHeader \<times> MetaBlock list) \<times> input_stream) res" where
  "v2_readHeader col0 hdr =
     act_bind is_readUInt64 (\<lambda>flags.
     act_bind (act_repeat 2 readMetaBlock) (\<lambda>mbs.
     act_bind (is_skip 128) (\<lambda>_.
     act_bind is_readVarUInt (\<lambda>ncols.
     act_bind (act_repeat (unat ncols) (v2_readColumn col0)) (\<lambda>cols.
       act_return (hdr\<lparr>fh_columns := fh_columns hdr @ cols\<rparr>, live mbs))))))"

section \<open>Format v0.1.0\<close>

definition v1_readColumn :: "ColumnConfig \<Rightarrow> input_stream \<Rightarrow> (ColumnConfig \<times> input_stream) res" where
  "v1_readColumn col0 =
     act_bind is_readUInt32 (\<lambda>storage_type.
     act_bind (act_bind is_readUInt32 (\<lambda>n. is_readString (unat n))) (\<lambda>column_name.
     act_bind is_readUInt32 (\<lambda>rlevel_max.
     act_bind is_readUInt32 (\<lambda>dlevel_max.
     act_bind is_readUInt64 (\<lambda>body_offset.
     act_bind is_readUInt64 (\<lambda>body_size.
       act_return (col0\<lparr>cc_storage_type := enc_of_code (ucast storage_type), cc_column_name := column_name,
         cc_column_id := 0, cc_rlevel_max := ucast rlevel_max, cc_dlevel_max := ucast dlevel_max,
         cc_body_offset := body_offset, cc_body_size := body_size\<rparr>)))))))"

text \<open>
  \<open>std::sort\<close> by column name, bytes compared unsigned. Columns of the same name stay in
  their order here; the standard library may order them either way.
\<close>

definition v1_readHeader :: "ColumnConfig \<Rightarrow> FileHeader \<Rightarrow> input_stream \<Rightarrow> (FileHeader \<times> input_stream) res" where
  "v1_readHeader col0 hdr =
     act_bind is_readUInt64 (\<lambda>flags.
     act_bind is_readUInt64 (\<lambda>num_rows.
     act_bind is_readUInt32 (\<lambda>ncols.
     act_bind (act_repeat (unat ncols) (v1_readColumn col0)) (\<lambda>cols.
       act_return (hdr\<lparr>fh_num_rows := num_rows,
         fh_columns := sort_key cc_column_name (fh_columns hdr @ cols)\<rparr>)))))"

section \<open>Opening a file\<close>

text \<open>
  \<open>None\<close> for the meta block: the first format has none, the output argument is left alone.
  A short read of the six bytes of the prelude leaves the buffer uninitialised.
\<close>

definition select_metablock :: "MetaBlock list \<Rightarrow> (MetaBlock \<times> PageRef option) res" where
  "select_metablock mbs =
     (case mbs of
        [] \<Rightarrow> Inl RuntimeError
      | [mb] \<Rightarrow> Inr (mb, None)
      | [a, b] \<Rightarrow>
          (if mb_transaction_id a > mb_transaction_id b
           then Inr (a, Some \<lparr>pr_offset = mb_head_index_page_offset b, pr_size = mb_head_index_page_size b\<rparr>)
           else Inr (b, Some \<lparr>pr_offset = mb_head_index_page_offset a, pr_size = mb_head_index_page_size a\<rparr>))
      | _ \<Rightarrow> Inl RuntimeError)"

definition readHeader ::
  "ColumnConfig \<Rightarrow> FileHeader \<Rightarrow> input_stream \<Rightarrow>
   ((BinaryFormatVersion \<times> FileHeader \<times> (MetaBlock \<times> PageRef option) option) \<times> input_stream) res" where
  "readHeader col0 hdr is =
     (let (prelude, is) = is_readNextBytes 6 is
      in if length prelude < 6 then Inl Undefined
         else if take 4 prelude \<noteq> kMagicBytes then Inl RuntimeError
         else let vnum = prelude ! 4
              in if vnum = 1 then
                   res_bind (v1_readHeader col0 hdr is) (\<lambda>(hdr, is). Inr ((V0_1_0, hdr, None), is))
                 else if vnum = 2 then
                   res_bind (v2_readHeader col0 hdr is) (\<lambda>((hdr, mbs), is).
                   res_bind (select_metablock mbs) (\<lambda>m. Inr ((V0_2_0, hdr, Some m), is)))
                 else Inl RuntimeError)"

section \<open>Meta blocks are read back\<close>

definition metablock_bytes :: "MetaBlock \<Rightarrow> bytes" where
  "metablock_bytes mb =
     u64_bytes (mb_transaction_id mb) @ u64_bytes (mb_num_rows mb) @ u64_bytes (mb_head_index_page_offset mb) @
     u32_bytes (mb_head_index_page_size mb) @ u64_bytes (mb_file_size mb)"

definition metablock_image :: "MetaBlock \<Rightarrow> bytes" where
  "metablock_image mb = metablock_bytes mb @ SHA1_compute (metablock_bytes mb)"

lemma length_metablock [simp]: "length (metablock_bytes mb) = 36" "length (metablock_image mb) = 56"
  by (simp_all add: metablock_bytes_def metablock_image_def)

lemma metablock_writes: "mw_writes (mw_seq (metablock_ops mb)) (metablock_bytes mb)"
proof -
  have "mw_writes (mw_seq (metablock_ops mb)) (metablock_bytes mb @ [])"
    unfolding metablock_ops_def metablock_bytes_def append_assoc by (intro mw_writes_intros)
  then show ?thesis by simp
qed

lemma writeMetaBlock_image: "writeMetaBlock mb os = Inr (56, os @ metablock_image mb)"
proof -
  have "mw_room (length (metablock_bytes mb)) (mw_new kInitialDataSize)" by simp
  from mw_writesD [OF metablock_writes this] obtain w where
    "mw_seq (metablock_ops mb) (mw_new kInitialDataSize) = Inr w" "mw_data w = metablock_bytes mb"
    by auto
  then show ?thesis by (simp add: writeMetaBlock_def metablock_image_def Let_def)
qed

lemma metablock_fields_reads: "mr_reads metablock_fields (metablock_bytes mb) mb"
proof -
  have "mr_reads metablock_fields
      (u64_bytes (mb_transaction_id mb) @ u64_bytes (mb_num_rows mb) @ u64_bytes (mb_head_index_page_offset mb) @
       u32_bytes (mb_head_index_page_size mb) @ u64_bytes (mb_file_size mb) @ [])
      \<lparr>mb_transaction_id = mb_transaction_id mb, mb_num_rows = mb_num_rows mb,
       mb_head_index_page_offset = mb_head_index_page_offset mb,
       mb_head_index_page_size = mb_head_index_page_size mb, mb_file_size = mb_file_size mb\<rparr>"
    unfolding metablock_fields_def by (rule mr_reads_bind mr_reads_return mr_reads_ops)+
  then show ?thesis by (cases mb) (simp add: metablock_bytes_def)
qed

lemma is_readNextBytes_exact:
  assumes "is_ok is" and "is_rest is = bs @ xs" and "length bs = n"
  obtains is' where "is_readNextBytes n is = (bs, is')" "is_ok is'" "is_rest is' = xs"
  using input.readn_take [OF assms(1), of n] assms(2,3) by auto

lemma readMetaBlock_ok: "is_reads readMetaBlock (metablock_image mb) (Some mb)"
  unfolding reads_from_def
proof (intro allI impI)
  fix s xs assume s: "is_ok s" "is_rest s = metablock_image mb @ xs"
  have len: "length (metablock_image mb) = kMetaBlockSize" by (simp add: kMetaBlockSize_def)
  from is_readNextBytes_exact [OF s len] obtain s' where
    s': "is_readNextBytes kMetaBlockSize s = (metablock_image mb, s')" "is_ok s'" "is_rest s' = xs" .
  have "mr_ok (mr_open (metablock_image mb) 56)" "mr_rest (mr_open (metablock_image mb) 56) = metablock_bytes mb @ SHA1_compute (metablock_bytes mb)"
    by (simp_all add: mr_ok_def mr_open_def mr_rest_def metablock_image_def)
  from mr_readsD [OF metablock_fields_reads this] have
    "metablock_fields (mr_open (metablock_image mb) 56) = Inr (mb, mr_advance 36 (mr_open (metablock_image mb) 56))"
    by simp
  moreover have "take 36 (metablock_image mb) = metablock_bytes mb"
    "drop 36 (metablock_image mb) = SHA1_compute (metablock_bytes mb)"
    by (simp_all add: metablock_image_def)
  ultimately show "\<exists>s'. readMetaBlock s = Inr (Some mb, s') \<and> is_ok s' \<and> is_rest s' = xs"
    using s' by (simp add: readMetaBlock_def kMetaBlockSize_def Let_def)
qed

text \<open>A block whose checksum does not match is not used.\<close>

lemma readMetaBlock_reject:
  assumes "length bs = 56" and "SHA1_compute (take 36 bs) \<noteq> drop 36 bs"
  shows "is_reads readMetaBlock bs None"
  unfolding reads_from_def
proof (intro allI impI)
  fix s xs assume s: "is_ok s" "is_rest s = bs @ xs"
  have len: "length bs = kMetaBlockSize" using assms(1) by (simp add: kMetaBlockSize_def)
  from is_readNextBytes_exact [OF s len] obtain s' where
    s': "is_readNextBytes kMetaBlockSize s = (bs, s')" "is_ok s'" "is_rest s' = xs" .
  with assms show "\<exists>s'. readMetaBlock s = Inr (None, s') \<and> is_ok s' \<and> is_rest s' = xs"
    by (simp add: readMetaBlock_def kMetaBlockSize_def Let_def)
qed

section \<open>The header of format v0.2.0 is read back\<close>

definition column_info_bytes :: "ColumnConfig \<Rightarrow> bytes" where
  "column_info_bytes col =
     varuint_bytes (ucast (type_code (cc_logical_type col))) @
     varuint_bytes (ucast (enc_code (cc_storage_type col))) @
     varuint_bytes (ucast (cc_column_id col)) @
     (varuint_bytes (word_of_nat (length (cc_column_name col))) @ cc_column_name col) @
     varuint_bytes (cc_rlevel_max col) @ varuint_bytes (cc_dlevel_max col)"

definition v2_columns_bytes :: "ColumnConfig list \<Rightarrow> bytes" where
  "v2_columns_bytes cols =
     varuint_bytes (word_of_nat (length cols)) @ concat (map column_info_bytes cols)"

definition v2_header_body :: "ColumnConfig list \<Rightarrow> bytes" where
  "v2_header_body cols =
     kMagicBytes @ u16_bytes 2 @ u64_bytes 0 @ replicate 112 0 @ replicate 128 0 @ v2_columns_bytes cols"

definition sector_padding :: "nat \<Rightarrow> nat" where
  "sector_padding n = (512 - n mod 512) mod 512"

definition v2_header_image :: "ColumnConfig list \<Rightarrow> bytes" where
  "v2_header_image cols =
     v2_header_body cols @ replicate (sector_padding (length (v2_header_body cols))) 0"

text \<open>What reading a column entry gives: the members of the entry over an indeterminate rest.\<close>

definition v2_config :: "ColumnConfig \<Rightarrow> ColumnConfig \<Rightarrow> ColumnConfig" where
  "v2_config col0 col =
     col0\<lparr>cc_logical_type := cc_logical_type col, cc_storage_type := cc_storage_type col,
          cc_column_id := cc_column_id col, cc_column_name := cc_column_name col,
          cc_rlevel_max := cc_rlevel_max col, cc_dlevel_max := cc_dlevel_max col\<rparr>"

definition v2_config_ok :: "ColumnConfig \<Rightarrow> bool" where
  "v2_config_ok col \<longleftrightarrow> known_type (cc_logical_type col) \<and> known_encoding (cc_storage_type col) \<and>
     length (cc_column_name col) < 2 ^ 64"

lemma sector_padding_mod: "(n + sector_padding n) mod 512 = 0" "sector_padding n < 512"
proof -
  show "sector_padding n < 512" by (simp add: sector_padding_def)
  obtain q m where n: "n = 512 * q + m" "m < 512"
    by (metis mult_div_mod_eq mod_less_divisor zero_less_numeral)
  show "(n + sector_padding n) mod 512 = 0"
  proof (cases "m = 0")
    case False
    with n have "n mod 512 = m" by simp
    with n False have "n + sector_padding n = 512 * (q + 1)" by (simp add: sector_padding_def)
    then show ?thesis by (simp only: mod_mult_self1_is_0)
  qed (simp add: n sector_padding_def)
qed

lemma sector_padding_ceil: "(n + 511) div 512 * 512 = n + sector_padding n"
proof -
  obtain k where k: "n + sector_padding n = 512 * k"
    using sector_padding_mod(1) [of n] by (metis mult_div_mod_eq add.right_neutral)
  then have "n \<le> 512 * k" by (metis le_add1)
  then have "n + 511 < 512 * (k + 1)" by simp
  moreover from k sector_padding_mod(2) [of n] have "512 * k \<le> n + 511" by linarith
  ultimately have "(n + 511) div 512 = k" by (intro div_nat_eqI) (simp_all add: mult.commute)
  with k show ?thesis by simp
qed

lemma padToNextSector_nat:
  assumes "n + 511 < 2 ^ 64"
  shows "unat (padToNextSector (word_of_nat n)) = n + sector_padding n"
proof -
  have u: "unat (word_of_nat n + 511 :: u64) = n + 511"
  proof -
    have "(word_of_nat n + 511 :: u64) = word_of_nat (n + 511)" by simp
    then show ?thesis using assms by (simp only: unat_of_nat mod_less) simp
  qed
  have "unat (padToNextSector (word_of_nat n)) = (n + 511) div 512 * 512 mod 2 ^ 64"
    unfolding padToNextSector_def kSectorSize_def using u
    by (simp add: unat_word_ariths unat_div_distrib)
  also have "\<dots> = (n + 511) div 512 * 512"
  proof -
    have "(n + 511) div 512 * 512 \<le> n + 511" by simp
    with assms show ?thesis by (intro mod_less) linarith
  qed
  also have "\<dots> = n + sector_padding n" by (rule sector_padding_ceil)
  finally show ?thesis .
qed

lemma column_info_writes: "mw_writes (mw_seq (column_info_ops col)) (column_info_bytes col)"
proof -
  have "mw_writes (mw_seq (column_info_ops col)) (varuint_bytes (ucast (type_code (cc_logical_type col))) @
     varuint_bytes (ucast (enc_code (cc_storage_type col))) @ varuint_bytes (ucast (cc_column_id col)) @
     (varuint_bytes (word_of_nat (length (cc_column_name col))) @ cc_column_name col) @
     varuint_bytes (cc_rlevel_max col) @ varuint_bytes (cc_dlevel_max col) @ [])"
    unfolding column_info_ops_def
    by (intro mw_writes_seq_Cons mw_writes_seq_Nil mw_writes_ops mw_writes_lenenc)
  then show ?thesis by (simp add: column_info_bytes_def)
qed

lemma mw_writes_seq_concat:
  "(\<And>x. x \<in> set xs \<Longrightarrow> mw_writes (mw_seq (f x)) (g x)) \<Longrightarrow>
   mw_writes (mw_seq (concat (map f xs))) (concat (map g xs))"
  by (induction xs) (auto intro: mw_writes_intros)

lemma v2_writeHeader_image:
  assumes "length (v2_header_body (fh_columns hdr)) + 511 < 2 ^ 64"
  shows "v2_writeHeader hdr os =
    Inr (length (v2_header_image (fh_columns hdr)), os @ v2_header_image (fh_columns hdr))"
proof -
  let ?cols = "fh_columns hdr" and ?body = "v2_header_body (fh_columns hdr)"
  let ?n = "length ?body"
  have w1: "mw_writes (mw_seq [mw_append kMagicBytes, mw_appendUInt16 2, mw_appendUInt64 0])
      (kMagicBytes @ u16_bytes 2 @ u64_bytes 0 @ [])"
    by (intro mw_writes_seq_Cons mw_writes_seq_Nil mw_writes_ops mw_writes_append)
  obtain b1 where b1: "mw_seq [mw_append kMagicBytes, mw_appendUInt16 2, mw_appendUInt64 0] (mw_new kInitialDataSize) = Inr b1"
    "mw_data b1 = kMagicBytes @ u16_bytes 2 @ u64_bytes 0" "mw_owned b1" "0 < mw_size b1"
    using mw_writes_owned [OF w1, of "mw_new kInitialDataSize"] by auto
  let ?fs = "[mw_appendString (replicate (kMetaBlockSize * 2) 0), mw_appendString (replicate 128 0),
         mw_appendVarUInt (word_of_nat (length ?cols))] @ concat (map column_info_ops ?cols)"
  have w2: "mw_writes (mw_seq ?fs) ((replicate (kMetaBlockSize * 2) 0 @ replicate 128 0 @
      varuint_bytes (word_of_nat (length ?cols)) @ []) @ concat (map column_info_bytes ?cols))"
    by (intro mw_writes_seq_append mw_writes_seq_Cons mw_writes_seq_Nil mw_writes_ops
        mw_writes_seq_concat column_info_writes)
  obtain b2 where b2: "mw_seq ?fs b1 = Inr b2" "mw_data b2 = ?body" "mw_owned b2" "0 < mw_size b2"
    by (rule mw_writes_owned [OF w2 b1(3,4)])
       (simp add: b1(2) v2_header_body_def v2_columns_bytes_def kMetaBlockSize_def)
  have pad: "unat (padToNextSector (word_of_nat ?n) - word_of_nat ?n) = sector_padding ?n"
  proof -
    have p: "unat (padToNextSector (word_of_nat ?n)) = ?n + sector_padding ?n"
      by (rule padToNextSector_nat) (rule assms)
    have n: "unat (word_of_nat ?n :: u64) = ?n" using assms by (simp add: unat_of_nat)
    then have "(word_of_nat ?n :: u64) \<le> padToNextSector (word_of_nat ?n)"
      unfolding word_le_nat_alt p by simp
    then show ?thesis by (simp only: unat_sub p n)
  qed
  obtain b3 where b3: "mw_appendString (replicate (sector_padding ?n) 0) b2 = Inr b3"
    "mw_data b3 = ?body @ replicate (sector_padding ?n) 0"
    by (rule mw_writes_owned [OF mw_writes_ops(6) b2(3,4)]) (simp add: b2(2))
  have "length (mw_data b1) = kMetaBlockPosition"
    by (simp add: b1(2) kMetaBlockPosition_def kMagicBytes_def)
  then show ?thesis
    unfolding v2_writeHeader_def b1(1) res_bind_simps b2(1) b2(2) Let_def pad b3(1)
    by (simp add: b3(2) v2_header_image_def)
qed

lemma v2_header_sectors: "length (v2_header_image cols) mod 512 = 0"
  by (simp add: v2_header_image_def sector_padding_mod)

lemma ucast_code [simp]: "ucast (ucast (b :: byte) :: u64) = b" "ucast (ucast (c :: u32) :: u64) = c"
  by (rule bit_word_eqI; auto simp: bit_simps)+

lemma v2_readColumn_reads:
  assumes "v2_config_ok col"
  shows "is_reads (v2_readColumn col0) (column_info_bytes col) (v2_config col0 col)"
proof -
  from assms have len: "length (cc_column_name col) < 2 ^ 64" by (simp add: v2_config_ok_def)
  have "is_reads (v2_readColumn col0) (varuint_bytes (ucast (type_code (cc_logical_type col))) @
     varuint_bytes (ucast (enc_code (cc_storage_type col))) @ varuint_bytes (ucast (cc_column_id col)) @
     (varuint_bytes (word_of_nat (length (cc_column_name col))) @ cc_column_name col) @
     varuint_bytes (cc_rlevel_max col) @ varuint_bytes (cc_dlevel_max col) @ [])
     (col0\<lparr>cc_logical_type := type_of_code (ucast (ucast (type_code (cc_logical_type col)) :: u64)),
         cc_storage_type := enc_of_code (ucast (ucast (enc_code (cc_storage_type col)) :: u64)),
         cc_column_id := ucast (ucast (cc_column_id col) :: u64),
         cc_column_name := cc_column_name col, cc_rlevel_max := cc_rlevel_max col,
         cc_dlevel_max := cc_dlevel_max col\<rparr>)"
    unfolding v2_readColumn_def
    by (rule reads_from_bind reads_from_return is_reads_ops(3) is_reads_ops(5) [OF len])+
  with assms show ?thesis
    by (simp add: column_info_bytes_def v2_config_def v2_config_ok_def type_code_inverse enc_code_inverse)
qed

lemma is_skip_reads: "length bs = n \<Longrightarrow> is_reads (is_skip n) bs ()"
  unfolding reads_from_def
proof (intro allI impI)
  fix s xs assume "length bs = n" "is_ok s" "is_rest s = bs @ xs"
  with input.skip_drop [of s n] show "\<exists>s'. is_skip n s = Inr ((), s') \<and> is_ok s' \<and> is_rest s' = xs"
    by (auto simp: is_skip_def)
qed

lemma v2_readHeader_reads:
  assumes "is_reads readMetaBlock b0 m0" and "is_reads readMetaBlock b1 m1" and "length reserved = 128"
    and cols: "\<forall>c \<in> set cols. v2_config_ok c" "length cols < 2 ^ 64"
  shows "is_reads (v2_readHeader col0 hdr)
    (u64_bytes flags @ (b0 @ b1) @ reserved @ v2_columns_bytes cols)
    (hdr\<lparr>fh_columns := fh_columns hdr @ map (v2_config col0) cols\<rparr>, live [m0, m1])"
proof -
  have m: "is_reads (act_repeat 2 readMetaBlock) (b0 @ b1) [m0, m1]"
  proof -
    have "is_reads (act_repeat (length [(b0, m0), (b1, m1)]) readMetaBlock)
        (concat (map fst [(b0, m0), (b1, m1)])) (map snd [(b0, m0), (b1, m1)])"
      using assms(1,2) by (intro reads_from_repeat) auto
    then show ?thesis by (simp add: numeral_2_eq_2 del: act_repeat.simps)
  qed
  have n: "unat (word_of_nat (length cols) :: u64) = length cols" using cols(2) by (simp add: unat_of_nat)
  have c: "is_reads (act_repeat (unat (word_of_nat (length cols) :: u64)) (v2_readColumn col0))
      (concat (map column_info_bytes cols)) (map (v2_config col0) cols)"
    unfolding n using cols(1) by (intro reads_from_repeat v2_readColumn_reads) simp
  have "is_reads (v2_readHeader col0 hdr)
    (u64_bytes flags @ (b0 @ b1) @ reserved @ varuint_bytes (word_of_nat (length cols)) @
      concat (map column_info_bytes cols) @ [])
    (hdr\<lparr>fh_columns := fh_columns hdr @ map (v2_config col0) cols\<rparr>, live [m0, m1])"
    unfolding v2_readHeader_def
    by (rule reads_from_bind is_reads_ops(2) m is_skip_reads assms(3) is_reads_ops(3) c reads_from_return)+
  then show ?thesis by (simp add: v2_columns_bytes_def)
qed

section \<open>The header of format v0.1.0 is read back\<close>

definition v1_column_bytes :: "ColumnConfig \<Rightarrow> bytes" where
  "v1_column_bytes col =
     u32_bytes (ucast (enc_code (cc_storage_type col))) @
     (u32_bytes (word_of_nat (length (cc_column_name col))) @ cc_column_name col) @
     u32_bytes (ucast (cc_rlevel_max col)) @ u32_bytes (ucast (cc_dlevel_max col)) @
     u64_bytes (cc_body_offset col) @ u64_bytes (cc_body_size col)"

definition v1_header_bytes :: "u64 \<Rightarrow> ColumnConfig list \<Rightarrow> bytes" where
  "v1_header_bytes num_rows cols =
     u64_bytes 0 @ u64_bytes num_rows @ u32_bytes (word_of_nat (length cols)) @ concat (map v1_column_bytes cols)"

definition v1_config :: "ColumnConfig \<Rightarrow> ColumnConfig \<Rightarrow> ColumnConfig" where
  "v1_config col0 col =
     col0\<lparr>cc_storage_type := cc_storage_type col, cc_column_name := cc_column_name col, cc_column_id := 0,
          cc_rlevel_max := cc_rlevel_max col, cc_dlevel_max := cc_dlevel_max col,
          cc_body_offset := cc_body_offset col, cc_body_size := cc_body_size col\<rparr>"

definition v1_config_ok :: "ColumnConfig \<Rightarrow> bool" where
  "v1_config_ok col \<longleftrightarrow> known_encoding (cc_storage_type col) \<and> length (cc_column_name col) < 2 ^ 32 \<and>
     unat (cc_rlevel_max col) < 2 ^ 32 \<and> unat (cc_dlevel_max col) < 2 ^ 32"

lemma length_v1_column_bytes: "length (v1_column_bytes col) = 32 + length (cc_column_name col)"
  by (simp add: v1_column_bytes_def)

lemma ucast_u64_u32: "unat (v :: u64) < 2 ^ 32 \<Longrightarrow> ucast (ucast v :: u32) = v"
  by (intro word_unat_eq_iff [THEN iffD2]) (simp add: unsigned_ucast_eq take_bit_eq_mod unat_mod_distrib)

lemma ucast_byte_u32 [simp]: "ucast (ucast (b :: byte) :: u32) = b"
  by (rule bit_word_eqI) (auto simp: bit_simps)

lemma v1_readColumn_reads:
  assumes "v1_config_ok col"
  shows "is_reads (v1_readColumn col0) (v1_column_bytes col) (v1_config col0 col)"
proof -
  from assms have n: "unat (word_of_nat (length (cc_column_name col)) :: u32) = length (cc_column_name col)"
    by (simp add: v1_config_ok_def unat_of_nat)
  have name: "is_reads (is_readString (unat (word_of_nat (length (cc_column_name col)) :: u32)))
      (cc_column_name col) (cc_column_name col)"
    by (rule is_reads_ops(4)) (simp only: n)
  have "is_reads (v1_readColumn col0) (u32_bytes (ucast (enc_code (cc_storage_type col))) @
     (u32_bytes (word_of_nat (length (cc_column_name col))) @ cc_column_name col) @
     u32_bytes (ucast (cc_rlevel_max col)) @ u32_bytes (ucast (cc_dlevel_max col)) @
     u64_bytes (cc_body_offset col) @ u64_bytes (cc_body_size col) @ [])
     (col0\<lparr>cc_storage_type := enc_of_code (ucast (ucast (enc_code (cc_storage_type col)) :: u32)),
         cc_column_name := cc_column_name col, cc_column_id := 0,
         cc_rlevel_max := ucast (ucast (cc_rlevel_max col) :: u32),
         cc_dlevel_max := ucast (ucast (cc_dlevel_max col) :: u32),
         cc_body_offset := cc_body_offset col, cc_body_size := cc_body_size col\<rparr>)"
    unfolding v1_readColumn_def
    by (rule reads_from_bind reads_from_return is_reads_ops(1,2) name)+
  with assms show ?thesis
    by (simp add: v1_column_bytes_def v1_config_def v1_config_ok_def enc_code_inverse ucast_u64_u32)
qed

lemma v1_readHeader_reads:
  assumes cols: "\<forall>c \<in> set cols. v1_config_ok c" "length cols < 2 ^ 32"
  shows "is_reads (v1_readHeader col0 hdr) (v1_header_bytes num_rows cols)
    (hdr\<lparr>fh_num_rows := num_rows,
         fh_columns := sort_key cc_column_name (fh_columns hdr @ map (v1_config col0) cols)\<rparr>)"
proof -
  have n: "unat (word_of_nat (length cols) :: u32) = length cols" using cols(2) by (simp add: unat_of_nat)
  have c: "is_reads (act_repeat (unat (word_of_nat (length cols) :: u32)) (v1_readColumn col0))
      (concat (map v1_column_bytes cols)) (map (v1_config col0) cols)"
    unfolding n using cols(1) by (intro reads_from_repeat v1_readColumn_reads) simp
  have "is_reads (v1_readHeader col0 hdr)
      (u64_bytes 0 @ u64_bytes num_rows @ u32_bytes (word_of_nat (length cols)) @
       concat (map v1_column_bytes cols) @ [])
      (hdr\<lparr>fh_num_rows := num_rows,
           fh_columns := sort_key cc_column_name (fh_columns hdr @ map (v1_config col0) cols)\<rparr>)"
    unfolding v1_readHeader_def by (rule reads_from_bind is_reads_ops(1,2) c reads_from_return)+
  then show ?thesis by (simp add: v1_header_bytes_def)
qed

section \<open>The prelude\<close>

lemma kMagicBytes_u32: "u32_bytes kMagicBytesUInt32 = kMagicBytes"
  by (simp add: u32_bytes_def kMagicBytesUInt32_def kMagicBytes_def le_bytes_unfold)

lemma u16_small: "u16_bytes 1 = [1, 0]" "u16_bytes 2 = [2, 0]"
  by (simp_all add: u16_bytes_def le_bytes_unfold)

lemma readHeader_prelude:
  assumes "is_ok s" and "is_rest s = kMagicBytes @ [v, 0] @ xs"
  obtains s' where "is_ok s'" "is_rest s' = xs"
    "readHeader col0 hdr s =
      (if v = 1 then res_bind (v1_readHeader col0 hdr s') (\<lambda>(hdr, is). Inr ((V0_1_0, hdr, None), is))
       else if v = 2 then
         res_bind (v2_readHeader col0 hdr s') (\<lambda>((hdr, mbs), is).
         res_bind (select_metablock mbs) (\<lambda>m. Inr ((V0_2_0, hdr, Some m), is)))
       else Inl RuntimeError)"
proof -
  have "is_rest s = (kMagicBytes @ [v, 0]) @ xs" "length (kMagicBytes @ [v, 0]) = 6"
    using assms(2) by (simp_all add: kMagicBytes_def)
  from is_readNextBytes_exact [OF assms(1) this] obtain s' where
    "is_readNextBytes 6 s = (kMagicBytes @ [v, 0], s')" "is_ok s'" "is_rest s' = xs" .
  then show ?thesis
    by (intro that [of s']) (simp_all add: readHeader_def kMagicBytes_def Let_def)
qed

text \<open>Opening a file of the first format.\<close>

lemma readHeader_v1:
  assumes cols: "\<forall>c \<in> set cols. v1_config_ok c" "length cols < 2 ^ 32"
    and s: "is_ok s" "is_rest s = u32_bytes kMagicBytesUInt32 @ u16_bytes 1 @ v1_header_bytes num_rows cols @ xs"
  shows "\<exists>s'. readHeader col0 hdr s =
    Inr ((V0_1_0, hdr\<lparr>fh_num_rows := num_rows,
         fh_columns := sort_key cc_column_name (fh_columns hdr @ map (v1_config col0) cols)\<rparr>, None), s')"
proof -
  from s(2) have "is_rest s = kMagicBytes @ [1, 0] @ (v1_header_bytes num_rows cols @ xs)"
    by (simp add: kMagicBytes_u32 u16_small)
  from readHeader_prelude [OF s(1) this, of col0 hdr] obtain s1 where s1: "is_ok s1"
    "is_rest s1 = v1_header_bytes num_rows cols @ xs"
    "readHeader col0 hdr s = res_bind (v1_readHeader col0 hdr s1) (\<lambda>(hdr, is). Inr ((V0_1_0, hdr, None), is))"
    by auto
  from reads_fromD [OF v1_readHeader_reads [OF cols] s1(1,2)] obtain s2 where
    "v1_readHeader col0 hdr s1 = Inr (hdr\<lparr>fh_num_rows := num_rows,
         fh_columns := sort_key cc_column_name (fh_columns hdr @ map (v1_config col0) cols)\<rparr>, s2)" .
  with s1(3) show ?thesis by simp
qed

text \<open>Opening a file of the second format with what its two meta block slots hold.\<close>

lemma readHeader_v2:
  assumes mb: "is_reads readMetaBlock b0 m0" "is_reads readMetaBlock b1 m1" "length reserved = 128"
    and cols: "\<forall>c \<in> set cols. v2_config_ok c" "length cols < 2 ^ 64"
    and s: "is_ok s" "is_rest s = kMagicBytes @ u16_bytes 2 @ u64_bytes flags @ b0 @ b1 @ reserved @
      v2_columns_bytes cols @ xs"
  shows "\<exists>s'. readHeader col0 hdr s = res_bind (select_metablock (live [m0, m1])) (\<lambda>m.
    Inr ((V0_2_0, hdr\<lparr>fh_columns := fh_columns hdr @ map (v2_config col0) cols\<rparr>, Some m), s'))"
proof -
  let ?bs = "u64_bytes flags @ (b0 @ b1) @ reserved @ v2_columns_bytes cols"
  from s(2) have "is_rest s = kMagicBytes @ [2, 0] @ (?bs @ xs)" by (simp add: u16_small)
  from readHeader_prelude [OF s(1) this, of col0 hdr] obtain s1 where s1: "is_ok s1" "is_rest s1 = ?bs @ xs"
    "readHeader col0 hdr s = res_bind (v2_readHeader col0 hdr s1) (\<lambda>((hdr, mbs), is).
         res_bind (select_metablock mbs) (\<lambda>m. Inr ((V0_2_0, hdr, Some m), is)))"
    by auto
  from reads_fromD [OF v2_readHeader_reads [OF mb cols] s1(1,2)] obtain s2 where
    "v2_readHeader col0 hdr s1 =
       Inr ((hdr\<lparr>fh_columns := fh_columns hdr @ map (v2_config col0) cols\<rparr>, live [m0, m1]), s2)" .
  with s1(3) show ?thesis by auto
qed

lemma readHeader_bad_magic:
  assumes "is_ok s" and "6 \<le> length (is_rest s)" and "take 4 (is_rest s) \<noteq> kMagicBytes"
  shows "readHeader col0 hdr s = Inl RuntimeError"
proof -
  obtain s' where "is_readNextBytes 6 s = (take 6 (is_rest s), s')"
    using input.readn_take [OF assms(1), of 6] by blast
  with assms(2,3) show ?thesis by (simp add: readHeader_def Let_def)
qed

lemma readHeader_bad_version:
  assumes s: "is_ok s" "is_rest s = kMagicBytes @ [v, 0] @ xs" and v: "v \<noteq> 1" "v \<noteq> 2"
  shows "readHeader col0 hdr s = Inl RuntimeError"
proof -
  obtain s' where "readHeader col0 hdr s =
      (if v = 1 then res_bind (v1_readHeader col0 hdr s') (\<lambda>(hdr, is). Inr ((V0_1_0, hdr, None), is))
       else if v = 2 then
         res_bind (v2_readHeader col0 hdr s') (\<lambda>((hdr, mbs), is).
         res_bind (select_metablock mbs) (\<lambda>m. Inr ((V0_2_0, hdr, Some m), is)))
       else Inl RuntimeError)"
    by (rule readHeader_prelude [OF s])
  with v show ?thesis by (simp only: if_False)
qed

end
