(* ===== verification/CS_PageManager.thy ===== *)
theory CS_PageManager
  imports CS_Format CS_Convert
begin

text \<open>
  Pages and the column writers of the second file format (\<open>cstable/io/PageManager.cc\<close>,
  \<open>cstable/io/PageIndex.cc\<close>, \<open>cstable/columns/UInt64PageWriter.cc\<close>,
  \<open>cstable/ColumnWriter.cc\<close>, \<open>cstable/columns/UnsignedIntColumnWriter.cc\<close>). A file is the
  list of its bytes; the operating system performs every write in full. Page writers are
  shared by pointer between the column that appends to them and the page index that flushes
  them, so they live in a store and are named by their index in it.
\<close>

section \<open>Files\<close>

text \<open>A write behind the end of the file leaves a hole of zeros.\<close>

definition pwrite :: "nat \<Rightarrow> bytes \<Rightarrow> bytes \<Rightarrow> bytes" where
  "pwrite pos data file =
     (if data = [] then file
      else take pos (file @ replicate (pos - length file) 0) @ data @ drop (pos + length data) file)"

section \<open>PageManager\<close>

record page_manager =
  pm_version :: BinaryFormatVersion
  pm_file :: bytes
  pm_offset :: u64
  pm_meta_block_position :: nat
  pm_meta_block_size :: nat

text \<open>The case of version 0.1.0 has no \<open>break\<close> and falls through into the other case.\<close>

definition PageManager :: "BinaryFormatVersion \<Rightarrow> bytes \<Rightarrow> u64 \<Rightarrow> page_manager" where
  "PageManager version file offset =
     \<lparr>pm_version = version, pm_file = file, pm_offset = offset,
      pm_meta_block_position = kMetaBlockPosition, pm_meta_block_size = kMetaBlockSize\<rparr>"

definition pm_allocPage :: "u32 \<Rightarrow> page_manager \<Rightarrow> PageRef \<times> page_manager" where
  "pm_allocPage sz pm =
     (let page = \<lparr>pr_offset = pm_offset pm, pr_size = ucast (padToNextSector (ucast sz))\<rparr>
      in (page, pm\<lparr>pm_offset := pm_offset pm + ucast (pr_size page)\<rparr>))"

definition pm_writePage_at :: "u64 \<Rightarrow> u64 \<Rightarrow> bytes \<Rightarrow> page_manager \<Rightarrow> page_manager" where
  "pm_writePage_at page_offset page_size data pm =
     (let page_data = (if length data < unat page_size
                       then data @ replicate (unat page_size - length data) 0 else data)
      in pm\<lparr>pm_file := pwrite (unat page_offset) (take (unat page_size) page_data) (pm_file pm)\<rparr>)"

definition pm_writePage :: "PageRef \<Rightarrow> bytes \<Rightarrow> page_manager \<Rightarrow> page_manager" where
  "pm_writePage page buffer = pm_writePage_at (pr_offset page) (ucast (pr_size page)) buffer"

definition pm_writeTransaction :: "MetaBlock \<Rightarrow> page_manager \<Rightarrow> page_manager res" where
  "pm_writeTransaction mb pm =
     (if pm_version pm = V0_1_0 then Inl AssertionError
      else res_bind (writeMetaBlock mb []) (\<lambda>(_, buf).
        if length buf \<noteq> pm_meta_block_size pm then Inl AssertionError
        else let mb_index = unat (mb_transaction_id mb mod 2);
                 mb_offset = pm_meta_block_position pm + pm_meta_block_size pm * mb_index
             in Inr (pm\<lparr>pm_file := pwrite mb_offset buf (pm_file pm)\<rparr>)))"

section \<open>Page writers and the page index\<close>

datatype PageIndexEntryType = DATA | RLEVEL | DLEVEL

fun entry_code :: "PageIndexEntryType \<Rightarrow> byte" where
  "entry_code DATA = 1"
| "entry_code RLEVEL = 2"
| "entry_code DLEVEL = 3"

record PageIndexKey =
  pk_column_id :: u32
  pk_entry_type :: PageIndexEntryType

record page_writer =
  pw_has_page :: bool
  pw_page :: PageRef
  pw_page_buf :: bytes
  pw_pages :: "(PageRef \<times> u64) list"

record v2_state =
  vs_pm :: page_manager
  vs_writers :: "page_writer list"
  vs_index :: "(PageIndexKey \<times> nat) list"

definition kPageSize :: u32 where
  "kPageSize = 512 * 2"

definition PageIndex_addPageWriter :: "PageIndexKey \<Rightarrow> nat \<Rightarrow> v2_state \<Rightarrow> v2_state" where
  "PageIndex_addPageWriter key w st = st\<lparr>vs_index := vs_index st @ [(key, w)]\<rparr>"

text \<open>The new writer is the next one of the store; its page reference is not initialised.\<close>

definition UInt64PageWriter :: "PageIndexKey \<Rightarrow> v2_state \<Rightarrow> nat \<times> v2_state" where
  "UInt64PageWriter key st =
     (let w = length (vs_writers st);
          st = st\<lparr>vs_writers := vs_writers st @
            [\<lparr>pw_has_page = False, pw_page = \<lparr>pr_offset = 0, pr_size = 0\<rparr>, pw_page_buf = [], pw_pages = []\<rparr>]\<rparr>
      in (w, PageIndex_addPageWriter key w st))"

definition UInt64PageWriter_append :: "u64 \<Rightarrow> page_writer \<Rightarrow> page_manager \<Rightarrow> page_writer \<times> page_manager" where
  "UInt64PageWriter_append value pw pm =
     (let (pw, pm) =
        (if \<not> pw_has_page pw \<or> length (pw_page_buf pw) + 8 > unat (pr_size (pw_page pw))
         then let (pw, pm) =
                (if pw_has_page pw
                 then (pw\<lparr>pw_pages := pw_pages pw @ [(pw_page pw, word_of_nat (length (pw_page_buf pw)))]\<rparr>,
                       pm_writePage (pw_page pw) (pw_page_buf pw) pm)
                 else (pw, pm));
                (page, pm) = pm_allocPage kPageSize pm
              in (pw\<lparr>pw_page := page, pw_has_page := True\<rparr>, pm)
         else (pw, pm))
      in (pw\<lparr>pw_page_buf := pw_page_buf pw @ u64_bytes value\<rparr>, pm))"

definition UInt64PageWriter_appendValue :: "nat \<Rightarrow> u64 \<Rightarrow> v2_state \<Rightarrow> v2_state" where
  "UInt64PageWriter_appendValue w value st =
     (let (pw, pm) = UInt64PageWriter_append value (vs_writers st ! w) (vs_pm st)
      in st\<lparr>vs_writers := (vs_writers st)[w := pw], vs_pm := pm\<rparr>)"

definition page_entry_bytes :: "PageRef \<times> u64 \<Rightarrow> bytes" where
  "page_entry_bytes p =
     varuint_bytes (pr_offset (fst p)) @ varuint_bytes (ucast (pr_size (fst p))) @ varuint_bytes (snd p)"

text \<open>The bytes written to the output stream, and the flush of the current page.\<close>

definition UInt64PageWriter_writeIndex :: "page_writer \<Rightarrow> page_manager \<Rightarrow> bytes \<times> page_manager" where
  "UInt64PageWriter_writeIndex pw pm =
     (let (pages, pm) =
        (if pw_has_page pw
         then (pw_pages pw @ [(pw_page pw, word_of_nat (length (pw_page_buf pw)))],
               pm_writePage (pw_page pw) (pw_page_buf pw) pm)
         else (pw_pages pw, pm))
      in (varuint_bytes (word_of_nat (length pages)) @ concat (map page_entry_bytes pages), pm))"

fun PageIndex_build :: "page_writer list \<Rightarrow> (PageIndexKey \<times> nat) list \<Rightarrow> page_manager \<Rightarrow> bytes \<times> page_manager" where
  "PageIndex_build writers [] pm = ([], pm)"
| "PageIndex_build writers ((key, w) # ps) pm =
     (let (bs, pm) = UInt64PageWriter_writeIndex (writers ! w) pm;
          (cs, pm) = PageIndex_build writers ps pm
      in (varuint_bytes (ucast (entry_code (pk_entry_type key))) @ varuint_bytes (ucast (pk_column_id key)) @
          bs @ cs, pm))"

definition kIndexPageSize :: nat where "kIndexPageSize = 512 * 1024"
definition kIndexPageOverhead :: nat where "kIndexPageOverhead = 16"

text \<open>
  \<open>pages\<close> has one element or none; with an empty index the final \<open>pages[0]\<close> reads an empty
  vector. The arguments of \<open>std::min\<close> are truncated to 32 bits.
\<close>

definition PageIndex_write :: "PageRef option \<Rightarrow> v2_state \<Rightarrow> (PageRef \<times> v2_state) res" where
  "PageIndex_write head st =
     (let (buf, pm) = PageIndex_build (vs_writers st) (vs_index st) (vs_pm st);
          remaining = length buf
      in if remaining = 0 then Inl Undefined
         else case head of
             Some _ \<Rightarrow> Inl NotImplementedError
           | None \<Rightarrow>
               (let (page, pm) = pm_allocPage (word_of_nat (max kIndexPageSize (remaining + kIndexPageOverhead))) pm;
                    used = min (pr_size page - word_of_nat kIndexPageOverhead) (word_of_nat (length buf));
                    page_buf = u64_bytes 0 @ u32_bytes 0 @ u32_bytes used @ take (unat used) buf;
                    pm = pm_writePage page page_buf pm
                in if unat used \<noteq> length buf then Inl AssertionError
                   else Inr (page, st\<lparr>vs_pm := pm\<rparr>)))"

section \<open>Column writers\<close>

record v2_column =
  vc_config :: ColumnConfig
  vc_rlevel_writer :: "nat option"
  vc_dlevel_writer :: "nat option"
  vc_data_writer :: nat

text \<open>
  \<open>DefaultColumnWriter\<close>: the constructor of a page writer adds itself to the index, and the
  column adds it a second time.
\<close>

definition level_writer :: "u64 \<Rightarrow> PageIndexKey \<Rightarrow> v2_state \<Rightarrow> nat option \<times> v2_state" where
  "level_writer level_max key st =
     (if level_max > 0
      then let (w, st) = UInt64PageWriter key st in (Some w, PageIndex_addPageWriter key w st)
      else (None, st))"

definition DefaultColumnWriter :: "ColumnConfig \<Rightarrow> v2_state \<Rightarrow> (nat option \<times> nat option) \<times> v2_state" where
  "DefaultColumnWriter config st =
     (let (r, st) = level_writer (cc_rlevel_max config)
            \<lparr>pk_column_id = cc_column_id config, pk_entry_type = RLEVEL\<rparr> st;
          (d, st) = level_writer (cc_dlevel_max config)
            \<lparr>pk_column_id = cc_column_id config, pk_entry_type = DLEVEL\<rparr> st
      in ((r, d), st))"

definition UnsignedIntColumnWriter :: "ColumnConfig \<Rightarrow> v2_state \<Rightarrow> (v2_column \<times> v2_state) res" where
  "UnsignedIntColumnWriter config st =
     (let ((r, d), st) = DefaultColumnWriter config st
      in if cc_storage_type config = UINT64_PLAIN
         then let (w, st) = UInt64PageWriter \<lparr>pk_column_id = cc_column_id config, pk_entry_type = DATA\<rparr> st
              in Inr (\<lparr>vc_config = config, vc_rlevel_writer = r, vc_dlevel_writer = d, vc_data_writer = w\<rparr>, st)
         else Inl IllegalArgumentError)"

definition append_level :: "nat option \<Rightarrow> u64 \<Rightarrow> v2_state \<Rightarrow> v2_state" where
  "append_level w level st =
     (case w of Some i \<Rightarrow> UInt64PageWriter_appendValue i level st | None \<Rightarrow> st)"

definition DefaultColumnWriter_writeNull :: "v2_column \<Rightarrow> u64 \<Rightarrow> u64 \<Rightarrow> v2_state \<Rightarrow> v2_state" where
  "DefaultColumnWriter_writeNull c rep_level def_level st =
     append_level (vc_dlevel_writer c) def_level (append_level (vc_rlevel_writer c) rep_level st)"

definition UnsignedIntColumnWriter_writeUnsignedInt :: "v2_column \<Rightarrow> u64 \<Rightarrow> u64 \<Rightarrow> u64 \<Rightarrow> v2_state \<Rightarrow> v2_state" where
  "UnsignedIntColumnWriter_writeUnsignedInt c rlvl dlvl value st =
     UInt64PageWriter_appendValue (vc_data_writer c) value
       (append_level (vc_dlevel_writer c) dlvl (append_level (vc_rlevel_writer c) rlvl st))"

definition UnsignedIntColumnWriter_writeBoolean :: "v2_column \<Rightarrow> u64 \<Rightarrow> u64 \<Rightarrow> bool \<Rightarrow> v2_state \<Rightarrow> v2_state" where
  "UnsignedIntColumnWriter_writeBoolean c rlvl dlvl value =
     UnsignedIntColumnWriter_writeUnsignedInt c rlvl dlvl (if value then 1 else 0)"

definition UnsignedIntColumnWriter_writeSignedInt :: "v2_column \<Rightarrow> u64 \<Rightarrow> u64 \<Rightarrow> u64 \<Rightarrow> v2_state \<Rightarrow> v2_state" where
  "UnsignedIntColumnWriter_writeSignedInt c rlvl dlvl value =
     UnsignedIntColumnWriter_writeUnsignedInt c rlvl dlvl (if value <s 0 then 0 else value)"

definition double_lt_0 :: "double \<Rightarrow> bool" where
  "double_lt_0 x \<longleftrightarrow> 2 ^ 63 < unat (double_bits x) \<and> unat (double_bits x) \<le> 2 ^ 63 + 2047 * 2 ^ 52"

definition UnsignedIntColumnWriter_writeFloat ::
  "v2_column \<Rightarrow> u64 \<Rightarrow> u64 \<Rightarrow> double \<Rightarrow> v2_state \<Rightarrow> v2_state res" where
  "UnsignedIntColumnWriter_writeFloat c rlvl dlvl value st =
     res_bind (double_to_u64 (if double_lt_0 value then Double 0 else value)) (\<lambda>v.
       Inr (UnsignedIntColumnWriter_writeUnsignedInt c rlvl dlvl v st))"

definition UnsignedIntColumnWriter_writeString ::
  "v2_column \<Rightarrow> u64 \<Rightarrow> u64 \<Rightarrow> bytes \<Rightarrow> v2_state \<Rightarrow> v2_state res" where
  "UnsignedIntColumnWriter_writeString c rlvl dlvl data st =
     res_bind (stoull data) (\<lambda>value. Inr (UnsignedIntColumnWriter_writeUnsignedInt c rlvl dlvl value st))"

definition UnsignedIntColumnWriter_writeDateTime :: "v2_column \<Rightarrow> u64 \<Rightarrow> u64 \<Rightarrow> u64 \<Rightarrow> v2_state \<Rightarrow> v2_state" where
  "UnsignedIntColumnWriter_writeDateTime c rlvl dlvl micros =
     UnsignedIntColumnWriter_writeUnsignedInt c rlvl dlvl micros"

section \<open>Writes stay where they belong\<close>

lemma length_pwrite: "data \<noteq> [] \<Longrightarrow> length (pwrite pos data file) = max (length file) (pos + length data)"
  by (auto simp: pwrite_def)

lemma pwrite_data:
  "data \<noteq> [] \<Longrightarrow> take (length data) (drop pos (pwrite pos data file)) = data"
  by (simp add: pwrite_def)

text \<open>A write leaves the bytes in front of it and behind it.\<close>

lemma pwrite_other:
  assumes "b \<le> length file" and "b \<le> pos \<or> pos + length data \<le> a"
  shows "take (b - a) (drop a (pwrite pos data file)) = take (b - a) (drop a file)"
proof (cases "data = [] \<or> b \<le> a")
  case True
  then show ?thesis by (auto simp: pwrite_def)
next
  case False
  show ?thesis
  proof (rule nth_equalityI)
    from False have "b \<le> length (pwrite pos data file)" using assms(1) by (simp add: length_pwrite)
    then show "length (take (b - a) (drop a (pwrite pos data file))) = length (take (b - a) (drop a file))"
      using assms(1) by simp
    fix i assume "i < length (take (b - a) (drop a (pwrite pos data file)))"
    then have i: "a + i < b" "i < b - a" by auto
    have "pwrite pos data file ! (a + i) = file ! (a + i)"
    proof (cases "b \<le> pos")
      case True
      then show ?thesis using i assms(1) False by (simp add: pwrite_def nth_append)
    next
      case False
      with assms(2) have "pos + length data \<le> a + i" by simp
      moreover have "pos \<le> length file" using \<open>pos + length data \<le> a + i\<close> i assms(1) by simp
      moreover from calculation have "\<not> a + i - pos < length data" by linarith
      ultimately show ?thesis using i assms(1) \<open>\<not> (data = [] \<or> b \<le> a)\<close>
        by (simp add: pwrite_def nth_append)
    qed
    with i assms(1) \<open>b \<le> length (pwrite pos data file)\<close>
    show "take (b - a) (drop a (pwrite pos data file)) ! i = take (b - a) (drop a file) ! i" by simp
  qed
qed

section \<open>Pages do not overlap\<close>

text \<open>The bytes of a file from \<open>pos\<close> on.\<close>

definition region :: "nat \<Rightarrow> nat \<Rightarrow> bytes \<Rightarrow> bytes" where
  "region pos n file = take n (drop pos file)"

lemma region_pwrite_same: "data \<noteq> [] \<Longrightarrow> region pos (length data) (pwrite pos data file) = data"
  by (simp add: region_def pwrite_data)

lemma region_pwrite_other:
  "pos' + n \<le> length file \<Longrightarrow> pos' + n \<le> pos \<or> pos + length data \<le> pos' \<Longrightarrow>
   region pos' n (pwrite pos data file) = region pos' n file"
  using pwrite_other [of "pos' + n" "file" pos data pos'] by (simp add: region_def)

abbreviation pw_offset :: "page_writer \<Rightarrow> nat" where
  "pw_offset pw \<equiv> unat (pr_offset (pw_page pw))"

text \<open>
  \<open>pages_ok H offset pws\<close>: the current pages of the writers have 1024 bytes, lie between
  \<open>H\<close> and \<open>offset\<close> and do not overlap.
\<close>

definition page_ok :: "nat \<Rightarrow> nat \<Rightarrow> page_writer \<Rightarrow> bool" where
  "page_ok H offset pw \<longleftrightarrow>
     (pw_has_page pw \<longrightarrow> pr_size (pw_page pw) = 1024 \<and> H \<le> pw_offset pw \<and> pw_offset pw + 1024 \<le> offset)"

definition pages_apart :: "page_writer \<Rightarrow> page_writer \<Rightarrow> bool" where
  "pages_apart p q \<longleftrightarrow> (pw_has_page p \<and> pw_has_page q \<longrightarrow>
     pw_offset p + 1024 \<le> pw_offset q \<or> pw_offset q + 1024 \<le> pw_offset p)"

definition pages_ok :: "nat \<Rightarrow> nat \<Rightarrow> page_writer list \<Rightarrow> bool" where
  "pages_ok H offset pws \<longleftrightarrow> (\<forall>pw \<in> set pws. page_ok H offset pw) \<and>
     (\<forall>i < length pws. \<forall>j < length pws. i \<noteq> j \<longrightarrow> pages_apart (pws ! i) (pws ! j))"

lemma pages_apart_sym: "pages_apart p q \<Longrightarrow> pages_apart q p"
  by (auto simp: pages_apart_def)

text \<open>
  The state of a writer that was given the values \<open>vs\<close>: the page buffer holds all of them,
  since it is never cleared, and at most one finished page was recorded for each.
\<close>

definition pw_values :: "page_writer \<Rightarrow> u64 list \<Rightarrow> bool" where
  "pw_values pw vs \<longleftrightarrow> pw_page_buf pw = concat (map u64_bytes vs) \<and> (pw_has_page pw \<longleftrightarrow> vs \<noteq> []) \<and>
     length (pw_pages pw) \<le> length vs"

definition page_image :: "u64 list \<Rightarrow> bytes" where
  "page_image vs = take 1024 (concat (map u64_bytes vs) @ replicate 1024 0)"

definition page_bytes :: "page_writer \<Rightarrow> bytes" where
  "page_bytes pw = take 1024 (pw_page_buf pw @ replicate 1024 0)"

lemma length_page_bytes [simp]: "length (page_bytes pw) = 1024" "page_bytes pw \<noteq> []"
proof -
  show l: "length (page_bytes pw) = 1024" by (simp add: page_bytes_def)
  then show "page_bytes pw \<noteq> []" by force
qed

lemma pw_values_bytes: "pw_values pw vs \<Longrightarrow> page_bytes pw = page_image vs"
  by (simp add: pw_values_def page_bytes_def page_image_def)

lemma pm_writePage_bytes:
  assumes "pr_size (pw_page pw) = 1024"
  shows "pm_writePage (pw_page pw) (pw_page_buf pw) pm =
    pm\<lparr>pm_file := pwrite (pw_offset pw) (page_bytes pw) (pm_file pm)\<rparr>"
  by (simp add: pm_writePage_def pm_writePage_at_def assms page_bytes_def)

lemma allocPage_1024: "pm_allocPage kPageSize pm =
    (\<lparr>pr_offset = pm_offset pm, pr_size = 1024\<rparr>, pm\<lparr>pm_offset := pm_offset pm + 1024\<rparr>)"
proof -
  have "padToNextSector (ucast kPageSize) = 1024"
    by (simp add: padToNextSector_def kSectorSize_def kPageSize_def)
  then show ?thesis by (simp add: pm_allocPage_def)
qed

lemma region_page_write:
  assumes "pw_has_page pw" "page_ok H offset pw"
    and "pos + n \<le> length file" "pos + n \<le> pw_offset pw \<or> pw_offset pw + 1024 \<le> pos"
  shows "region pos n (pwrite (pw_offset pw) (page_bytes pw) file) = region pos n file"
  using assms by (intro region_pwrite_other) simp_all

section \<open>Appending a value\<close>

text \<open>
  What every operation on the page writers keeps: the header \<open>hdr\<close> at the start of the file,
  the pages behind it, and \<open>k\<close> bytes of address space that may still be allocated.
\<close>

definition vs_ok :: "bytes \<Rightarrow> nat \<Rightarrow> v2_state \<Rightarrow> bool" where
  "vs_ok hdr k st \<longleftrightarrow>
     region 0 (length hdr) (pm_file (vs_pm st)) = hdr \<and> length hdr \<le> length (pm_file (vs_pm st)) \<and>
     length hdr \<le> unat (pm_offset (vs_pm st)) \<and> unat (pm_offset (vs_pm st)) + k \<le> 2 ^ 63 \<and>
     pm_version (vs_pm st) = V0_2_0 \<and> pm_meta_block_position (vs_pm st) = kMetaBlockPosition \<and>
     pm_meta_block_size (vs_pm st) = kMetaBlockSize \<and>
     pages_ok (length hdr) (unat (pm_offset (vs_pm st))) (vs_writers st) \<and>
     (\<forall>(key, w) \<in> set (vs_index st). w < length (vs_writers st))"

lemma unat_add_small: "unat (a :: u64) + n < 2 ^ 64 \<Longrightarrow> unat (a + word_of_nat n) = unat a + n"
  by (simp add: unat_word_ariths unat_of_nat)

text \<open>One page writer: the state after an append, and the bytes of the file it leaves.\<close>

lemma page_append:
  assumes ok: "page_ok H (unat (pm_offset pm)) pw" and room: "unat (pm_offset pm) + 1024 \<le> 2 ^ 63"
    and H: "H \<le> unat (pm_offset pm)" and vals: "pw_values pw vs"
    and app: "UInt64PageWriter_append v pw pm = (pw', pm')"
  shows "pw_values pw' (vs @ [v])" "page_ok H (unat (pm_offset pm')) pw'"
    "pm_offset pm' = pm_offset pm \<or> pm_offset pm' = pm_offset pm + 1024"
    "unat (pm_offset pm) \<le> unat (pm_offset pm') \<and> unat (pm_offset pm') \<le> unat (pm_offset pm) + 1024"
    "pw_page pw' = pw_page pw \<and> pw_has_page pw \<or> unat (pm_offset pm) \<le> pw_offset pw'"
    "pm_version pm' = pm_version pm" "pm_meta_block_position pm' = pm_meta_block_position pm"
    "pm_meta_block_size pm' = pm_meta_block_size pm"
    "pm_file pm' = pm_file pm \<or> (pw_has_page pw \<and> pm_file pm' = pwrite (pw_offset pw) (page_bytes pw) (pm_file pm))"
proof -
  have off: "unat (pm_offset pm + 1024) = unat (pm_offset pm) + 1024"
    using unat_add_small [of "pm_offset pm" 1024] room by simp
  note defs = UInt64PageWriter_append_def Let_def allocPage_1024
  have sz: "pw_has_page pw \<Longrightarrow> pr_size (pw_page pw) = 1024" using ok by (simp add: page_ok_def)
  have wp: "pw_has_page pw \<Longrightarrow> pm_writePage (pw_page pw) (pw_page_buf pw) pm =
      pm\<lparr>pm_file := pwrite (pw_offset pw) (page_bytes pw) (pm_file pm)\<rparr>"
    by (rule pm_writePage_bytes) (rule sz)
  show "pw_values pw' (vs @ [v])"
    using app vals by (auto simp: defs pw_values_def split: if_splits)
  show "page_ok H (unat (pm_offset pm')) pw'"
    using app ok wp off H by (auto simp: defs page_ok_def split: if_splits)
  show "pm_offset pm' = pm_offset pm \<or> pm_offset pm' = pm_offset pm + 1024"
    using app wp by (auto simp: defs split: if_splits)
  then show "unat (pm_offset pm) \<le> unat (pm_offset pm') \<and> unat (pm_offset pm') \<le> unat (pm_offset pm) + 1024"
    using off by auto
  show "pw_page pw' = pw_page pw \<and> pw_has_page pw \<or> unat (pm_offset pm) \<le> pw_offset pw'"
    using app wp by (auto simp: defs split: if_splits)
  show "pm_version pm' = pm_version pm" "pm_meta_block_position pm' = pm_meta_block_position pm"
    "pm_meta_block_size pm' = pm_meta_block_size pm"
    using app wp by (auto simp: defs split: if_splits)
  show "pm_file pm' = pm_file pm \<or> (pw_has_page pw \<and> pm_file pm' = pwrite (pw_offset pw) (page_bytes pw) (pm_file pm))"
    using app wp by (auto simp: defs split: if_splits)
qed

text \<open>Every page writer of the store.\<close>

definition vs_values :: "v2_state \<Rightarrow> u64 list list \<Rightarrow> bool" where
  "vs_values st vss \<longleftrightarrow> list_all2 pw_values (vs_writers st) vss"

lemma pages_ok_nth: "pages_ok H offset pws \<Longrightarrow> i < length pws \<Longrightarrow> page_ok H offset (pws ! i)"
  by (simp add: pages_ok_def)

lemma page_ok_mono: "page_ok H a pw \<Longrightarrow> a \<le> b \<Longrightarrow> page_ok H b pw"
  by (auto simp: page_ok_def)

lemma pages_ok_update:
  assumes ok: "pages_ok H a pws" and w: "w < length pws" and ab: "a \<le> b" and new: "page_ok H b pw"
    and page: "pw_page pw = pw_page (pws ! w) \<and> pw_has_page (pws ! w) \<or> a \<le> pw_offset pw"
  shows "pages_ok H b (pws[w := pw])"
proof -
  have apart: "pages_apart pw (pws ! j)" if j: "j < length pws" "j \<noteq> w" for j
  proof (cases "pw_page pw = pw_page (pws ! w) \<and> pw_has_page (pws ! w)")
    case True
    moreover from ok w j have "pages_apart (pws ! w) (pws ! j)" by (simp add: pages_ok_def)
    ultimately show ?thesis by (simp add: pages_apart_def)
  next
    case False
    with page have "a \<le> pw_offset pw" by simp
    moreover have "pw_has_page (pws ! j) \<longrightarrow> pw_offset (pws ! j) + 1024 \<le> a"
      using pages_ok_nth [OF ok j(1)] by (simp add: page_ok_def)
    ultimately show ?thesis by (auto simp: pages_apart_def)
  qed
  have "page_ok H b q" if "q \<in> set (pws[w := pw])" for q
  proof -
    from that set_update_subset_insert [of pws w pw] have "q = pw \<or> q \<in> set pws" by auto
    with ok new ab show ?thesis by (auto simp: pages_ok_def intro: page_ok_mono)
  qed
  moreover have "pages_apart (pws[w := pw] ! i) (pws[w := pw] ! j)"
    if "i < length pws" "j < length pws" "i \<noteq> j" for i j
    using that ok w apart pages_apart_sym [OF apart] by (auto simp: nth_list_update pages_ok_def)
  ultimately show ?thesis by (simp add: pages_ok_def)
qed

lemma appendValue_ok:
  assumes ok: "vs_ok hdr (k + 1024) st" and w: "w < length (vs_writers st)" and vals: "vs_values st vss"
  shows "vs_ok hdr k (UInt64PageWriter_appendValue w v st)"
    "vs_values (UInt64PageWriter_appendValue w v st) (vss[w := vss ! w @ [v]])"
    "vs_index (UInt64PageWriter_appendValue w v st) = vs_index st"
    "length (vs_writers (UInt64PageWriter_appendValue w v st)) = length (vs_writers st)"
proof -
  let ?pm = "vs_pm st" and ?pw = "vs_writers st ! w"
  obtain pw' pm' where app: "UInt64PageWriter_append v ?pw ?pm = (pw', pm')" by (cases "UInt64PageWriter_append v ?pw ?pm")
  have st': "UInt64PageWriter_appendValue w v st = st\<lparr>vs_writers := (vs_writers st)[w := pw'], vs_pm := pm'\<rparr>"
    by (simp add: UInt64PageWriter_appendValue_def app)
  from ok have pok: "pages_ok (length hdr) (unat (pm_offset ?pm)) (vs_writers st)"
    and room: "unat (pm_offset ?pm) + 1024 + k \<le> 2 ^ 63" and H: "length hdr \<le> unat (pm_offset ?pm)"
    and hdr: "region 0 (length hdr) (pm_file ?pm) = hdr" "length hdr \<le> length (pm_file ?pm)"
    by (simp_all add: vs_ok_def)
  have pw: "page_ok (length hdr) (unat (pm_offset ?pm)) ?pw" by (rule pages_ok_nth [OF pok w])
  from vals w have v0: "pw_values ?pw (vss ! w)" by (auto simp: vs_values_def list_all2_conv_all_nth)
  have room': "unat (pm_offset ?pm) + 1024 \<le> 2 ^ 63" using room by simp
  note pa = page_append [OF pw room' H v0 app]
  have file': "region 0 (length hdr) (pm_file pm') = hdr \<and> length hdr \<le> length (pm_file pm')"
    using pa(9)
  proof
    assume f: "pw_has_page ?pw \<and> pm_file pm' = pwrite (pw_offset ?pw) (page_bytes ?pw) (pm_file ?pm)"
    then have "length hdr \<le> pw_offset ?pw" using pw by (simp add: page_ok_def)
    with f pw hdr show ?thesis using region_page_write [of ?pw "length hdr" _ 0 "length hdr" "pm_file ?pm"]
      by (simp add: length_pwrite)
  qed (use hdr in simp)
  show "vs_ok hdr k (UInt64PageWriter_appendValue w v st)"
    unfolding st' vs_ok_def
    using ok file' pa(4,6,7,8) room H pages_ok_update [OF pok w _ pa(2,5)] by (auto simp: vs_ok_def)
  show "vs_values (UInt64PageWriter_appendValue w v st) (vss[w := vss ! w @ [v]])"
    unfolding st' vs_values_def using vals pa(1) by (simp add: vs_values_def list_all2_update_cong)
  show "vs_index (UInt64PageWriter_appendValue w v st) = vs_index st"
    "length (vs_writers (UInt64PageWriter_appendValue w v st)) = length (vs_writers st)"
    by (simp_all add: st')
qed

section \<open>Flushing the pages\<close>

lemma writeIndex_pm:
  assumes "page_ok H offset pw"
  shows "snd (UInt64PageWriter_writeIndex pw pm) =
    (if pw_has_page pw then pm\<lparr>pm_file := pwrite (pw_offset pw) (page_bytes pw) (pm_file pm)\<rparr> else pm)"
  using assms by (simp add: UInt64PageWriter_writeIndex_def Let_def pm_writePage_bytes page_ok_def)

lemma build_Cons_pm:
  "snd (PageIndex_build writers ((key, w) # ps) pm) =
     snd (PageIndex_build writers ps (snd (UInt64PageWriter_writeIndex (writers ! w) pm)))"
  by (simp add: split_def Let_def)

text \<open>
  Building the index leaves everything outside the current pages alone, and afterwards the
  page of every writer in the index holds the start of its buffer.
\<close>

lemma build_outside:
  assumes ok: "pages_ok H offset pws" and idx: "\<forall>(key, w) \<in> set ps. w < length pws"
    and len: "pos + n \<le> length (pm_file pm)"
    and out: "\<forall>(key, w) \<in> set ps. pw_has_page (pws ! w) \<longrightarrow>
      pos + n \<le> pw_offset (pws ! w) \<or> pw_offset (pws ! w) + 1024 \<le> pos"
  shows "region pos n (pm_file (snd (PageIndex_build pws ps pm))) = region pos n (pm_file pm) \<and>
    length (pm_file pm) \<le> length (pm_file (snd (PageIndex_build pws ps pm))) \<and>
    pm_offset (snd (PageIndex_build pws ps pm)) = pm_offset pm \<and>
    pm_version (snd (PageIndex_build pws ps pm)) = pm_version pm \<and>
    pm_meta_block_position (snd (PageIndex_build pws ps pm)) = pm_meta_block_position pm \<and>
    pm_meta_block_size (snd (PageIndex_build pws ps pm)) = pm_meta_block_size pm"
  using idx len out
proof (induction ps arbitrary: pm)
  case (Cons p ps)
  obtain key w where p: "p = (key, w)" by (cases p)
  define pm1 where "pm1 = snd (UInt64PageWriter_writeIndex (pws ! w) pm)"
  have w: "page_ok H offset (pws ! w)" using pages_ok_nth [OF ok] Cons.prems(1) by (simp add: p)
  note pm1 = writeIndex_pm [OF w, of pm, folded pm1_def]
  have file1: "region pos n (pm_file pm1) = region pos n (pm_file pm)" "length (pm_file pm) \<le> length (pm_file pm1)"
    using Cons.prems(2,3) region_page_write [OF _ w] by (auto simp: pm1 p length_pwrite)
  have "pos + n \<le> length (pm_file pm1)" using Cons.prems(2) file1(2) by simp
  from Cons.IH [OF _ this] Cons.prems(1,3) file1 show ?case
    unfolding p build_Cons_pm pm1_def [symmetric] by (auto simp: pm1 split: if_splits)
qed simp

lemma build_pages:
  assumes ok: "pages_ok H offset pws" and idx: "\<forall>(key, w) \<in> set ps. w < length pws"
    and w: "w \<in> snd ` set ps" "pw_has_page (pws ! w)"
  shows "region (pw_offset (pws ! w)) 1024 (pm_file (snd (PageIndex_build pws ps pm))) = page_bytes (pws ! w) \<and>
    pw_offset (pws ! w) + 1024 \<le> length (pm_file (snd (PageIndex_build pws ps pm)))"
  using idx w
proof (induction ps arbitrary: pm)
  case (Cons p ps)
  obtain key u where p: "p = (key, u)" by (cases p)
  define pm1 where "pm1 = snd (UInt64PageWriter_writeIndex (pws ! u) pm)"
  show ?case
  proof (cases "w \<in> snd ` set ps")
    case True
    with Cons.IH [of pm1] Cons.prems show ?thesis unfolding p build_Cons_pm pm1_def by simp
  next
    case False
    with Cons.prems have u: "u = w" "w < length pws" by (auto simp: p)
    have wok: "page_ok H offset (pws ! w)" by (rule pages_ok_nth [OF ok u(2)])
    have pm1: "pm_file pm1 = pwrite (pw_offset (pws ! w)) (page_bytes (pws ! w)) (pm_file pm)"
      using writeIndex_pm [OF wok, of pm] Cons.prems(3) by (simp add: pm1_def u)
    have len: "pw_offset (pws ! w) + 1024 \<le> length (pm_file pm1)" by (simp add: pm1 length_pwrite)
    have out: "\<forall>(key, x) \<in> set ps. pw_has_page (pws ! x) \<longrightarrow>
        pw_offset (pws ! w) + 1024 \<le> pw_offset (pws ! x) \<or> pw_offset (pws ! x) + 1024 \<le> pw_offset (pws ! w)"
    proof clarify
      fix key x assume x: "(key, x) \<in> set ps" "pw_has_page (pws ! x)"
      with False have "x \<noteq> w" by force
      moreover have "x < length pws" using x(1) Cons.prems(1) by auto
      ultimately have "pages_apart (pws ! w) (pws ! x)" using ok u(2) by (simp add: pages_ok_def)
      with x(2) Cons.prems(3) show "\<not> pw_offset (pws ! x) + 1024 \<le> pw_offset (pws ! w) \<Longrightarrow>
          pw_offset (pws ! w) + 1024 \<le> pw_offset (pws ! x)" by (auto simp: pages_apart_def)
    qed
    from build_outside [OF ok _ len out] Cons.prems(1)
    have "region (pw_offset (pws ! w)) 1024 (pm_file (snd (PageIndex_build pws ps pm1))) =
        region (pw_offset (pws ! w)) 1024 (pm_file pm1)"
      "length (pm_file pm1) \<le> length (pm_file (snd (PageIndex_build pws ps pm1)))" by auto
    moreover have "region (pw_offset (pws ! w)) 1024 (pm_file pm1) = page_bytes (pws ! w)"
      using region_pwrite_same [of "page_bytes (pws ! w)"] by (simp add: pm1)
    ultimately show ?thesis using len unfolding p build_Cons_pm u pm1_def [unfolded u, symmetric] by simp
  qed
qed simp

section \<open>Writing the index\<close>

definition index_bytes :: "v2_state \<Rightarrow> bytes" where
  "index_bytes st = fst (PageIndex_build (vs_writers st) (vs_index st) (vs_pm st))"

definition index_page :: "bytes \<Rightarrow> bytes" where
  "index_page buf = u64_bytes 0 @ u32_bytes 0 @ u32_bytes (word_of_nat (length buf)) @ buf"

lemma varuint_bytes_nonempty [simp]: "varuint_bytes v \<noteq> []"
  by (subst varuint_bytes.simps) (simp add: Let_def)

lemma index_bytes_nonempty: "vs_index st \<noteq> [] \<Longrightarrow> index_bytes st \<noteq> []"
  by (cases "vs_index st") (auto simp: index_bytes_def split_def Let_def)

lemma allocPage_size:
  assumes "n + 511 < 2 ^ 32"
  shows "unat (pr_size (fst (pm_allocPage (word_of_nat n) pm))) = n + sector_padding n"
proof -
  have n: "(ucast (word_of_nat n :: u32) :: u64) = word_of_nat n"
    using assms by (intro word_unat_eq_iff [THEN iffD2]) (simp add: unsigned_ucast_eq unat_of_nat take_bit_eq_mod)
  have "unat (padToNextSector (word_of_nat n)) = n + sector_padding n"
    using assms by (intro padToNextSector_nat) simp
  moreover have "n + sector_padding n < 2 ^ 32" using sector_padding_mod(2) [of n] assms by linarith
  ultimately show ?thesis by (simp add: pm_allocPage_def Let_def n unsigned_ucast_eq take_bit_eq_mod)
qed

lemma allocPage_offset:
  "pr_offset (fst (pm_allocPage n pm)) = pm_offset pm"
  "snd (pm_allocPage n pm) = pm\<lparr>pm_offset := pm_offset pm + ucast (pr_size (fst (pm_allocPage n pm)))\<rparr>"
  by (simp_all add: pm_allocPage_def Let_def)

lemma pm_writePage_padded:
  assumes "length data \<le> unat (pr_size page)"
  shows "pm_writePage page data pm = pm\<lparr>pm_file := pwrite (unat (pr_offset page))
    (data @ replicate (unat (pr_size page) - length data) 0) (pm_file pm)\<rparr>"
  using assms by (simp add: pm_writePage_def pm_writePage_at_def Let_def unat_ucast_u32_u64)

lemma PageIndex_write_ok:
  assumes ok: "vs_ok hdr k st" and k: "2 ^ 32 \<le> k" and idx: "vs_index st \<noteq> []"
    and small: "length (index_bytes st) < 2 ^ 31"
  obtains page st' where "PageIndex_write None st = Inr (page, st')"
    "pr_offset page = pm_offset (vs_pm st)" "vs_writers st' = vs_writers st" "vs_index st' = vs_index st"
    "region (unat (pr_offset page)) (length (index_page (index_bytes st))) (pm_file (vs_pm st')) = index_page (index_bytes st)"
    "vs_ok hdr (k - 2 ^ 32) st'" "unat (pm_offset (vs_pm st')) = unat (pr_offset page) + unat (pr_size page)"
    "\<forall>w \<in> snd ` set (vs_index st). pw_has_page (vs_writers st ! w) \<longrightarrow>
       region (pw_offset (vs_writers st ! w)) 1024 (pm_file (vs_pm st')) = page_bytes (vs_writers st ! w)"
proof -
  let ?pws = "vs_writers st" and ?ps = "vs_index st" and ?off = "unat (pm_offset (vs_pm st))"
  define buf where "buf = index_bytes st"
  define pm1 where "pm1 = snd (PageIndex_build ?pws ?ps (vs_pm st))"
  have build: "PageIndex_build ?pws ?ps (vs_pm st) = (buf, pm1)" by (simp add: buf_def pm1_def index_bytes_def)
  from ok have pok: "pages_ok (length hdr) ?off ?pws" and ix: "\<forall>(key, w) \<in> set ?ps. w < length ?pws"
    and room: "?off + k \<le> 2 ^ 63" and H: "length hdr \<le> ?off"
    and hdr: "region 0 (length hdr) (pm_file (vs_pm st)) = hdr" "length hdr \<le> length (pm_file (vs_pm st))"
    and vers: "pm_version (vs_pm st) = V0_2_0" "pm_meta_block_position (vs_pm st) = kMetaBlockPosition"
      "pm_meta_block_size (vs_pm st) = kMetaBlockSize"
    by (auto simp: vs_ok_def)
  have out: "\<forall>(key, w) \<in> set ?ps. pw_has_page (?pws ! w) \<longrightarrow>
      0 + length hdr \<le> pw_offset (?pws ! w) \<or> pw_offset (?pws ! w) + 1024 \<le> 0"
    using ix pages_ok_nth [OF pok] by (fastforce simp: page_ok_def)
  have "0 + length hdr \<le> length (pm_file (vs_pm st))" using hdr(2) by simp
  note bo = build_outside [OF pok ix this out, folded pm1_def]
  define n where "n = max kIndexPageSize (length buf + kIndexPageOverhead)"
  define page where "page = fst (pm_allocPage (word_of_nat n) pm1)"
  have n: "n + 511 < 2 ^ 32" "length buf + 16 \<le> n" using small
    by (auto simp: n_def kIndexPageSize_def kIndexPageOverhead_def buf_def)
  have psz: "unat (pr_size page) = n + sector_padding n" unfolding page_def by (rule allocPage_size) (rule n(1))
  have poff: "pr_offset page = pm_offset (vs_pm st)" using bo by (simp add: page_def allocPage_offset)
  have alloc: "pm_allocPage (word_of_nat n) pm1 = (page, pm1\<lparr>pm_offset := pm_offset pm1 + ucast (pr_size page)\<rparr>)"
    using allocPage_offset(2) [of "word_of_nat n" pm1] unfolding page_def [symmetric] by (simp add: page_def)
      (metis page_def prod.collapse)
  have u: "unat (pr_size page - word_of_nat kIndexPageOverhead) = unat (pr_size page) - 16"
    using psz n by (subst unat_sub) (simp_all add: word_le_nat_alt kIndexPageOverhead_def)
  have ub: "unat (word_of_nat (length buf) :: u32) = length buf" using small by (simp add: buf_def unat_of_nat)
  have used: "min (pr_size page - word_of_nat kIndexPageOverhead) (word_of_nat (length buf)) = word_of_nat (length buf)"
    by (rule min_absorb2) (use psz n u ub in \<open>simp add: word_le_nat_alt\<close>)
  define pm2 where "pm2 = pm1\<lparr>pm_offset := pm_offset pm1 + ucast (pr_size page)\<rparr>"
  define pm3 where "pm3 = pm_writePage page (index_page buf) pm2"
  have len: "length (index_page buf) = 16 + length buf" by (simp add: index_page_def)
  have pm3: "pm3 = pm2\<lparr>pm_file := pwrite ?off (index_page buf @ replicate (unat (pr_size page) - length (index_page buf)) 0) (pm_file pm1)\<rparr>"
    unfolding pm3_def using pm_writePage_padded [of "index_page buf" page pm2] psz n(2) len
    by (simp add: poff pm2_def)
  have "buf \<noteq> []" using index_bytes_nonempty [OF idx] by (simp add: buf_def)
  then have "PageIndex_write None st = Inr (page, st\<lparr>vs_pm := pm3\<rparr>)"
    unfolding PageIndex_write_def build Let_def prod.case n_def [symmetric] alloc used pm2_def [symmetric]
    by (simp add: ub pm3_def index_page_def)
  moreover
  let ?data = "index_page buf @ replicate (unat (pr_size page) - length (index_page buf)) 0"
  have dl: "length ?data = unat (pr_size page)" "?data \<noteq> []" using psz n(2) len by auto
  have file3: "pm_file pm3 = pwrite ?off ?data (pm_file pm1)" by (simp add: pm3)
  have before: "region pos m (pm_file pm3) = region pos m (pm_file pm1)"
    if "pos + m \<le> ?off" "pos + m \<le> length (pm_file pm1)" for pos m
    unfolding file3 by (rule region_pwrite_other) (use that in simp_all)
  have "region ?off (length (index_page buf)) (pm_file pm3) = index_page buf"
  proof -
    have "region ?off (length ?data) (pm_file pm3) = ?data" unfolding file3 by (rule region_pwrite_same [OF dl(2)])
    then have "take (length (index_page buf)) (region ?off (length ?data) (pm_file pm3)) = index_page buf" by simp
    then show ?thesis using psz n(2) len by (simp add: region_def dl(1) min_def split: if_splits)
  qed
  moreover have offs: "unat (pm_offset pm3) = ?off + unat (pr_size page)"
  proof -
    have "unat (ucast (pr_size page) :: u64) = unat (pr_size page)" by (rule unat_ucast_u32_u64)
    moreover have "pm_offset pm3 = pm_offset (vs_pm st) + ucast (pr_size page)" using bo by (simp add: pm3 pm2_def)
    moreover have "unat (pr_size page) < 2 ^ 32" using unat_word_less(2) [of "pr_size page"] by simp
    ultimately show ?thesis using room k by (simp add: unat_word_ariths)
  qed
  moreover have "vs_ok hdr (k - 2 ^ 32) (st\<lparr>vs_pm := pm3\<rparr>)"
  proof -
    have "unat (pr_size page) < 2 ^ 32" using unat_word_less(2) [of "pr_size page"] by simp
    then have "unat (pm_offset pm3) + (k - 2 ^ 32) \<le> 2 ^ 63" using offs room k by linarith
    moreover have "pages_ok (length hdr) (unat (pm_offset pm3)) ?pws"
      using pok offs by (auto simp: pages_ok_def intro: page_ok_mono)
    moreover have "region 0 (length hdr) (pm_file pm3) = hdr"
      using before [of 0 "length hdr"] H bo hdr by simp
    moreover have "length hdr \<le> length (pm_file pm3)"
    proof -
      have "length hdr \<le> length (pm_file pm1)" using bo hdr(2) by linarith
      then show ?thesis unfolding file3 length_pwrite [OF dl(2)] by (simp add: le_max_iff_disj)
    qed
    ultimately show ?thesis using H offs ix vers bo by (simp add: vs_ok_def pm3 pm2_def)
  qed
  moreover have "\<forall>w \<in> snd ` set ?ps. pw_has_page (?pws ! w) \<longrightarrow>
       region (pw_offset (?pws ! w)) 1024 (pm_file pm3) = page_bytes (?pws ! w)"
  proof (intro ballI impI)
    fix w assume w: "w \<in> snd ` set ?ps" "pw_has_page (?pws ! w)"
    from build_pages [OF pok ix w, of "vs_pm st", folded pm1_def] have
      b: "region (pw_offset (?pws ! w)) 1024 (pm_file pm1) = page_bytes (?pws ! w)"
      "pw_offset (?pws ! w) + 1024 \<le> length (pm_file pm1)" by simp_all
    have "w < length ?pws" using w(1) ix by auto
    from pages_ok_nth [OF pok this] w(2) have "pw_offset (?pws ! w) + 1024 \<le> ?off" by (simp add: page_ok_def)
    with b before show "region (pw_offset (?pws ! w)) 1024 (pm_file pm3) = page_bytes (?pws ! w)" by simp
  qed
  ultimately show ?thesis by (intro that [of page "st\<lparr>vs_pm := pm3\<rparr>"]) (simp_all add: poff buf_def)
qed

end
