(* ===== verification/CS_TableWriter.thy ===== *)
theory CS_TableWriter
  imports CS_File CS_Dispatch CS_PageManager
begin

text \<open>
  \<open>CSTableWriter\<close> (\<open>cstable/CSTableWriter.cc\<close>): the creation of a table file with its column
  writers, the row counter, and the two commit protocols. Column writers are reached by
  pointer; here a pointer is the index of the writer in \<open>column_writers_\<close>.
\<close>

record table_writer =
  tw_version :: BinaryFormatVersion
  tw_schema :: table_schema
  tw_state :: v2_state
  tw_columns :: "ColumnConfig list"
  tw_v1_writers :: "column_writer list"
  tw_v2_writers :: "v2_column list"
  tw_current_txid :: u64
  tw_num_rows :: u64
  tw_cur_idx_ptr :: "PageRef option"
  tw_free_idx_ptr :: "PageRef option"

section \<open>Creating a table\<close>

text \<open>
  For a logical type other than \<open>UNSIGNED_INT\<close> the function \<open>openColumnV2\<close> ends without a
  \<open>return\<close>, which is undefined.
\<close>

definition openColumnV2_writer :: "ColumnConfig \<Rightarrow> v2_state \<Rightarrow> (v2_column \<times> v2_state) res" where
  "openColumnV2_writer c st =
     (case cc_logical_type c of
        UNSIGNED_INT \<Rightarrow> UnsignedIntColumnWriter c st
      | _ \<Rightarrow> Inl Undefined)"

fun open_columns_v1 :: "ColumnConfig list \<Rightarrow> column_writer list res" where
  "open_columns_v1 [] = Inr []"
| "open_columns_v1 (c # cs) =
     res_bind (openColumnV1_writer c) (\<lambda>w. res_bind (open_columns_v1 cs) (\<lambda>ws. Inr (w # ws)))"

fun open_columns_v2 :: "ColumnConfig list \<Rightarrow> v2_state \<Rightarrow> (v2_column list \<times> v2_state) res" where
  "open_columns_v2 [] st = Inr ([], st)"
| "open_columns_v2 (c # cs) st =
     res_bind (openColumnV2_writer c st) (\<lambda>(w, st).
     res_bind (open_columns_v2 cs st) (\<lambda>(ws, st). Inr (w # ws, st)))"

definition CSTableWriter ::
  "BinaryFormatVersion \<Rightarrow> table_schema \<Rightarrow> page_manager \<Rightarrow> ColumnConfig list \<Rightarrow> table_writer res" where
  "CSTableWriter version schema page_mgr columns =
     (let st = \<lparr>vs_pm = page_mgr, vs_writers = [], vs_index = []\<rparr>;
          tw = \<lparr>tw_version = version, tw_schema = schema, tw_state = st, tw_columns = columns,
                tw_v1_writers = [], tw_v2_writers = [], tw_current_txid = 0, tw_num_rows = 0,
                tw_cur_idx_ptr = None, tw_free_idx_ptr = None\<rparr>
      in case version of
           V0_1_0 \<Rightarrow> res_bind (open_columns_v1 columns) (\<lambda>ws. Inr (tw\<lparr>tw_v1_writers := ws\<rparr>))
         | V0_2_0 \<Rightarrow> res_bind (open_columns_v2 columns st) (\<lambda>(ws, st).
                       Inr (tw\<lparr>tw_v2_writers := ws, tw_state := st\<rparr>)))"

text \<open>
  \<open>createFile\<close> opens with \<open>O_CREATE\<close>, which fails for a file that exists (\<open>disk\<close> is what the path
  holds). The file is kept in the page manager.
\<close>

definition CSTableWriter_createFile ::
  "(schema_column list \<Rightarrow> schema_column list) \<Rightarrow> (bytes \<Rightarrow> ColumnConfig) \<Rightarrow> bytes option \<Rightarrow>
   BinaryFormatVersion \<Rightarrow> table_schema \<Rightarrow> table_writer res" where
  "CSTableWriter_createFile order junk disk version schema =
     res_bind (File_openFile (O_WRITE OR O_CREATE) disk) (\<lambda>(_, file).
          (let schema = TableSchema_copy order schema
           in res_bind (TableSchema_flatColumns junk schema) (\<lambda>columns.
              res_bind (case version of
                          V0_1_0 \<Rightarrow> Inr (0, file_content file)
                        | V0_2_0 \<Rightarrow> v2_writeHeader \<lparr>fh_columns = columns, fh_num_rows = 0\<rparr> (file_content file)) (\<lambda>(header_size, file).
              CSTableWriter version schema
                (PageManager version file (word_of_nat header_size)) columns))))"

definition CSTableWriter_addRow :: "table_writer \<Rightarrow> table_writer" where
  "CSTableWriter_addRow tw = tw\<lparr>tw_num_rows := tw_num_rows tw + 1\<rparr>"

definition CSTableWriter_addRows :: "u64 \<Rightarrow> table_writer \<Rightarrow> table_writer" where
  "CSTableWriter_addRows n tw = tw\<lparr>tw_num_rows := tw_num_rows tw + n\<rparr>"

text \<open>
  \<open>column_writers_by_name_\<close> was filled with \<open>emplace\<close>: of columns with the same name the
  first is found.
\<close>

fun first_named :: "bytes \<Rightarrow> ColumnConfig list \<Rightarrow> nat option" where
  "first_named name [] = None"
| "first_named name (c # cs) =
     (if cc_column_name c = name then Some 0 else map_option Suc (first_named name cs))"

definition CSTableWriter_getColumnWriter :: "table_writer \<Rightarrow> bytes \<Rightarrow> nat res" where
  "CSTableWriter_getColumnWriter tw column_name =
     (case first_named column_name (tw_columns tw) of None \<Rightarrow> Inl NotFoundError | Some i \<Rightarrow> Inr i)"

definition CSTableWriter_hasColumn :: "table_writer \<Rightarrow> bytes \<Rightarrow> bool" where
  "CSTableWriter_hasColumn tw column_name \<longleftrightarrow> first_named column_name (tw_columns tw) \<noteq> None"

text \<open>A call of a write method through such a pointer.\<close>

definition tw_write_column ::
  "nat \<Rightarrow> (column_writer \<Rightarrow> column_writer res) \<Rightarrow> table_writer \<Rightarrow> table_writer res" where
  "tw_write_column i f tw =
     res_bind (f (tw_v1_writers tw ! i)) (\<lambda>w. Inr (tw\<lparr>tw_v1_writers := (tw_v1_writers tw)[i := w]\<rparr>))"

section \<open>Commit of format v0.1.0\<close>

definition set_body_size :: "ColumnConfig \<Rightarrow> column_writer \<Rightarrow> ColumnConfig" where
  "set_body_size col w = col\<lparr>cc_body_size := word_of_nat (cw_bodySize w)\<rparr>"

fun set_body_offsets :: "u64 \<Rightarrow> ColumnConfig list \<Rightarrow> ColumnConfig list" where
  "set_body_offsets offset [] = []"
| "set_body_offsets offset (col # cols) =
     col\<lparr>cc_body_offset := offset\<rparr> # set_body_offsets (offset + cc_body_size col) cols"

definition v1_column_ops :: "ColumnConfig \<Rightarrow> (message_writer \<Rightarrow> message_writer res) list" where
  "v1_column_ops col =
     [mw_appendUInt32 (ucast (enc_code (cc_storage_type col))),
      mw_appendUInt32 (word_of_nat (length (cc_column_name col))),
      mw_append (cc_column_name col),
      mw_appendUInt32 (ucast (cc_rlevel_max col)),
      mw_appendUInt32 (ucast (cc_dlevel_max col)),
      mw_appendUInt64 (cc_body_offset col),
      mw_appendUInt64 (cc_body_size col)]"

text \<open>
  The buffer for a column comes from \<open>malloc\<close> and is written from its start; what the column
  does not fill keeps the old contents of the memory, \<open>uninit\<close>.
\<close>

definition column_buffer :: "(nat \<Rightarrow> byte) \<Rightarrow> nat \<Rightarrow> bytes \<Rightarrow> bytes" where
  "column_buffer uninit n data = data @ map uninit [length data..<n]"

fun write_columns ::
  "(nat \<Rightarrow> byte) \<Rightarrow> (ColumnConfig \<times> column_writer) list \<Rightarrow> page_manager \<Rightarrow> page_manager res" where
  "write_columns uninit [] pm = Inr pm"
| "write_columns uninit ((col, w) # cs) pm =
     (let buf_size = unat (cc_body_size col)
      in res_bind (cw_write buf_size w) (\<lambda>mw.
         let buf = column_buffer uninit buf_size (mw_data mw)
         in if length buf \<noteq> unat (cc_body_size col) then Inl AssertionError
            else write_columns uninit cs (pm_writePage_at (cc_body_offset col) (cc_body_size col) buf pm)))"

definition CSTableWriter_commitV1 :: "(nat \<Rightarrow> byte) \<Rightarrow> table_writer \<Rightarrow> table_writer res" where
  "CSTableWriter_commitV1 uninit tw =
     (let writers = map cw_commit (tw_v1_writers tw);
          columns = map2 set_body_size (tw_columns tw) writers
      in res_bind (mw_seq
           [mw_appendUInt32 kMagicBytesUInt32, mw_appendUInt16 1, mw_appendUInt64 0,
            mw_appendUInt64 (tw_num_rows tw), mw_appendUInt32 (word_of_nat (length columns))]
           (mw_new kInitialDataSize)) (\<lambda>header.
         let offset = length (mw_data header) + (\<Sum>col \<leftarrow> columns. 32 + length (cc_column_name col));
             columns = set_body_offsets (word_of_nat offset) columns
         in res_bind (mw_seq (concat (map v1_column_ops columns)) header) (\<lambda>header.
            let n = length (mw_data header);
                pm = pm_writePage_at 0 (word_of_nat n) (mw_data header) (vs_pm (tw_state tw))
            in res_bind (write_columns uninit (zip columns writers) pm) (\<lambda>pm.
               Inr (tw\<lparr>tw_v1_writers := writers, tw_columns := columns,
                       tw_state := (tw_state tw)\<lparr>vs_pm := pm\<rparr>\<rparr>)))))"

section \<open>Commit of format v0.2.0\<close>

definition CSTableWriter_commitV2 :: "table_writer \<Rightarrow> table_writer res" where
  "CSTableWriter_commitV2 tw =
     res_bind (PageIndex_write (tw_free_idx_ptr tw) (tw_state tw)) (\<lambda>(idx_head, st).
       let mb = \<lparr>mb_transaction_id = tw_current_txid tw + 1,
                 mb_num_rows = tw_num_rows tw,
                 mb_head_index_page_offset = pr_offset idx_head,
                 mb_head_index_page_size = pr_size idx_head,
                 mb_file_size = pm_offset (vs_pm st)\<rparr>
       in res_bind (pm_writeTransaction mb (vs_pm st)) (\<lambda>pm.
          Inr (tw\<lparr>tw_state := st\<lparr>vs_pm := pm\<rparr>, tw_free_idx_ptr := tw_cur_idx_ptr tw,
                  tw_cur_idx_ptr := Some idx_head\<rparr>)))"

definition CSTableWriter_commit :: "(nat \<Rightarrow> byte) \<Rightarrow> table_writer \<Rightarrow> table_writer res" where
  "CSTableWriter_commit uninit tw =
     (case tw_version tw of
        V0_1_0 \<Rightarrow> CSTableWriter_commitV1 uninit tw
      | V0_2_0 \<Rightarrow> CSTableWriter_commitV2 tw)"

section \<open>The file of a v0.1.0 commit\<close>

lemma pwrite_end: "pwrite (length file) data file = file @ data"
  by (simp add: pwrite_def)

lemma writePage_at_end:
  assumes "unat offset = length (pm_file pm)" and "length data = unat n"
  shows "pm_writePage_at offset n data pm = pm\<lparr>pm_file := pm_file pm @ data\<rparr>"
  using assms by (simp add: pm_writePage_at_def pwrite_end)

lemma length_column_buffer: "length data \<le> n \<Longrightarrow> length (column_buffer uninit n data) = n"
  by (simp add: column_buffer_def)

lemma take_column_buffer: "take (length data) (column_buffer uninit n data) = data"
  by (simp add: column_buffer_def)

definition column_body :: "(nat \<Rightarrow> byte) \<Rightarrow> column_writer \<Rightarrow> bytes" where
  "column_body uninit w = column_buffer uninit (cw_bodySize w) (cw_image w)"

lemma v1_column_writes: "mw_writes (mw_seq (v1_column_ops col)) (v1_column_bytes col)"
proof -
  have "mw_writes (mw_seq (v1_column_ops col))
    (u32_bytes (ucast (enc_code (cc_storage_type col))) @
     u32_bytes (word_of_nat (length (cc_column_name col))) @ cc_column_name col @
     u32_bytes (ucast (cc_rlevel_max col)) @ u32_bytes (ucast (cc_dlevel_max col)) @
     u64_bytes (cc_body_offset col) @ u64_bytes (cc_body_size col) @ [])"
    unfolding v1_column_ops_def
    by (intro mw_writes_seq_Cons mw_writes_seq_Nil mw_writes_ops mw_writes_append)
  then show ?thesis by (simp add: v1_column_bytes_def)
qed

lemma set_body_offsets_names [simp]:
  "map cc_column_name (set_body_offsets offset cols) = map cc_column_name cols"
  "length (set_body_offsets offset cols) = length cols"
  by (induction cols arbitrary: offset) simp_all

lemma length_v1_columns:
  "length (concat (map v1_column_bytes cols)) = (\<Sum>col \<leftarrow> cols. 32 + length (cc_column_name col))"
  by (induction cols) (simp_all add: length_v1_column_bytes)

lemma sum_names: "(\<Sum>col \<leftarrow> set_body_offsets offset cols. 32 + length (cc_column_name col)) =
    (\<Sum>col \<leftarrow> cols. 32 + length (cc_column_name col))"
  by (induction cols arbitrary: offset) simp_all

text \<open>
  \<open>writers_hold cols ws css\<close>: the writer of every column holds the cells \<open>css\<close> gives for it.
  \<open>v1_layout\<close> is the list of columns a commit writes into the header, \<open>v1_file\<close> the file.
\<close>

definition writers_hold :: "ColumnConfig list \<Rightarrow> column_writer list \<Rightarrow> datum cell list list \<Rightarrow> bool" where
  "writers_hold cols ws css \<longleftrightarrow> length ws = length cols \<and> length css = length cols \<and>
     (\<forall>i < length cols. cw_holds (cc_rlevel_max (cols ! i)) (cc_dlevel_max (cols ! i)) (ws ! i) (css ! i) \<and>
        cw_encoding (ws ! i) = cc_storage_type (cols ! i))"

definition v1_header_size :: "ColumnConfig list \<Rightarrow> nat" where
  "v1_header_size cols = 26 + (\<Sum>col \<leftarrow> cols. 32 + length (cc_column_name col))"

definition v1_layout :: "ColumnConfig list \<Rightarrow> column_writer list \<Rightarrow> ColumnConfig list" where
  "v1_layout cols ws =
     set_body_offsets (word_of_nat (v1_header_size cols)) (map2 set_body_size cols (map cw_commit ws))"

definition v1_file_size :: "ColumnConfig list \<Rightarrow> column_writer list \<Rightarrow> nat" where
  "v1_file_size cols ws = v1_header_size cols + (\<Sum>w \<leftarrow> ws. cw_bodySize (cw_commit w))"

definition v1_file :: "(nat \<Rightarrow> byte) \<Rightarrow> u64 \<Rightarrow> ColumnConfig list \<Rightarrow> column_writer list \<Rightarrow> bytes" where
  "v1_file uninit num_rows cols ws =
     u32_bytes kMagicBytesUInt32 @ u16_bytes 1 @ v1_header_bytes num_rows (v1_layout cols ws) @
     concat (map (\<lambda>w. column_body uninit (cw_commit w)) ws)"

definition writable :: "column_writer \<Rightarrow> bool" where
  "writable w \<longleftrightarrow> (\<exists>m. cw_write (cw_bodySize (cw_commit w)) (cw_commit w) = Inr m \<and>
     mw_data m = cw_image (cw_commit w) \<and> length (cw_image (cw_commit w)) \<le> cw_bodySize (cw_commit w))"

lemma writers_writable: "writers_hold cols ws css \<Longrightarrow> w \<in> set ws \<Longrightarrow> writable w"
proof -
  assume h: "writers_hold cols ws css" and "w \<in> set ws"
  then obtain i where "i < length ws" "w = ws ! i" by (auto simp: in_set_conv_nth)
  with h have "cw_holds (cc_rlevel_max (cols ! i)) (cc_dlevel_max (cols ! i)) w (css ! i)"
    by (simp add: writers_hold_def)
  then show "writable w" unfolding writable_def by (rule cw_write_image)
qed

lemma unat_small: "n < 2 ^ 63 \<Longrightarrow> unat (word_of_nat n :: u64) = n"
  by (simp add: unat_of_nat)

lemma word_of_nat_add: "(word_of_nat a + word_of_nat b :: u64) = word_of_nat (a + b)"
  by simp

lemma length_column_body: "writable w \<Longrightarrow> length (column_body uninit (cw_commit w)) = cw_bodySize (cw_commit w)"
  by (auto simp: writable_def column_body_def length_column_buffer)

lemma write_columns_file:
  assumes "length cols = length ws" and "\<forall>w \<in> set ws. writable w"
    and "length (pm_file pm) + (\<Sum>w \<leftarrow> ws. cw_bodySize (cw_commit w)) < 2 ^ 63"
  shows "write_columns uninit
      (zip (set_body_offsets (word_of_nat (length (pm_file pm))) (map2 set_body_size cols (map cw_commit ws)))
        (map cw_commit ws)) pm =
    Inr (pm\<lparr>pm_file := pm_file pm @ concat (map (\<lambda>w. column_body uninit (cw_commit w)) ws)\<rparr>)"
  using assms
proof (induction ws arbitrary: cols pm)
  case (Cons w ws)
  then obtain c cs where cols: "cols = c # cs" "length cs = length ws" by (cases cols) auto
  let ?n = "cw_bodySize (cw_commit w)" and ?f = "pm_file pm"
  let ?body = "column_body uninit (cw_commit w)"
  define pm1 where "pm1 = pm\<lparr>pm_file := ?f @ ?body\<rparr>"
  from Cons.prems(2) obtain m where m: "cw_write ?n (cw_commit w) = Inr m" "mw_data m = cw_image (cw_commit w)"
    "length (cw_image (cw_commit w)) \<le> ?n" and w: "writable w" by (auto simp: writable_def)
  have n: "?n < 2 ^ 63" "length ?f < 2 ^ 63" "length ?f + ?n + (\<Sum>w \<leftarrow> ws. cw_bodySize (cw_commit w)) < 2 ^ 63"
    using Cons.prems(3) by simp_all
  have len: "length ?body = ?n" by (rule length_column_body [OF w])
  have wr: "pm_writePage_at (word_of_nat (length ?f)) (word_of_nat ?n) ?body pm = pm1"
    unfolding pm1_def by (rule writePage_at_end) (use n len unat_small in simp_all)
  have off: "(word_of_nat (length ?f) + word_of_nat ?n :: u64) = word_of_nat (length (pm_file pm1))"
    by (simp add: pm1_def len)
  have "write_columns uninit (zip (set_body_offsets (word_of_nat (length (pm_file pm1)))
        (map2 set_body_size cs (map cw_commit ws))) (map cw_commit ws)) pm1 =
      Inr (pm1\<lparr>pm_file := pm_file pm1 @ concat (map (\<lambda>w. column_body uninit (cw_commit w)) ws)\<rparr>)"
    by (rule Cons.IH) (use Cons.prems cols n len in \<open>simp_all add: pm1_def\<close>)
  moreover have "column_buffer uninit ?n (mw_data m) = ?body" by (simp add: column_body_def m(2))
  ultimately show ?case
    using m(1) n(1) len by (simp add: cols(1) set_body_size_def unat_small wr off [symmetric] Let_def)
      (simp add: pm1_def)
qed simp

lemma commitV1_file:
  assumes empty: "pm_file (vs_pm (tw_state tw)) = []"
    and holds: "writers_hold (tw_columns tw) (tw_v1_writers tw) css"
    and size: "v1_file_size (tw_columns tw) (tw_v1_writers tw) < 2 ^ 63"
  shows "\<exists>tw'. CSTableWriter_commitV1 uninit tw = Inr tw' \<and>
    pm_file (vs_pm (tw_state tw')) = v1_file uninit (tw_num_rows tw) (tw_columns tw) (tw_v1_writers tw) \<and>
    tw_columns tw' = v1_layout (tw_columns tw) (tw_v1_writers tw)"
proof -
  let ?ws = "tw_v1_writers tw" and ?cols = "tw_columns tw" and ?pm = "vs_pm (tw_state tw)"
  let ?sized = "map2 set_body_size ?cols (map cw_commit ?ws)"
  define laid where "laid = v1_layout ?cols ?ws"
  have lens: "length ?ws = length ?cols" using holds by (simp add: writers_hold_def)
  have w1: "mw_writes (mw_seq [mw_appendUInt32 kMagicBytesUInt32, mw_appendUInt16 1, mw_appendUInt64 0,
      mw_appendUInt64 (tw_num_rows tw), mw_appendUInt32 (word_of_nat (length ?sized))])
      (u32_bytes kMagicBytesUInt32 @ u16_bytes 1 @ u64_bytes 0 @ u64_bytes (tw_num_rows tw) @
       u32_bytes (word_of_nat (length ?sized)) @ [])"
    by (intro mw_writes_seq_Cons mw_writes_seq_Nil mw_writes_ops)
  obtain h1 where h1: "mw_seq [mw_appendUInt32 kMagicBytesUInt32, mw_appendUInt16 1, mw_appendUInt64 0,
      mw_appendUInt64 (tw_num_rows tw), mw_appendUInt32 (word_of_nat (length ?sized))] (mw_new kInitialDataSize) = Inr h1"
    "mw_data h1 = u32_bytes kMagicBytesUInt32 @ u16_bytes 1 @ u64_bytes 0 @ u64_bytes (tw_num_rows tw) @
       u32_bytes (word_of_nat (length ?sized))" "mw_owned h1" "0 < mw_size h1"
    by (rule mw_writes_owned [OF w1, of "mw_new kInitialDataSize"]) simp_all
  have names: "(\<Sum>col \<leftarrow> ?sized. 32 + length (cc_column_name col)) =
      (\<Sum>col \<leftarrow> ?cols. 32 + length (cc_column_name col))"
  proof -
    have "map cc_column_name ?sized = map cc_column_name ?cols"
      using lens by (intro nth_equalityI) (simp_all add: set_body_size_def)
    then have "map (\<lambda>n. 32 + length n) (map cc_column_name ?sized) = map (\<lambda>n. 32 + length n) (map cc_column_name ?cols)"
      by (simp only:)
    then show ?thesis by (simp only: map_map o_def)
  qed
  have offset: "length (mw_data h1) + (\<Sum>col \<leftarrow> ?sized. 32 + length (cc_column_name col)) = v1_header_size ?cols"
    unfolding names by (simp add: h1(2) v1_header_size_def)
  have layout: "set_body_offsets (word_of_nat (v1_header_size ?cols)) ?sized = laid"
    by (simp add: laid_def v1_layout_def)
  have "mw_writes (mw_seq (concat (map v1_column_ops laid))) (concat (map v1_column_bytes laid))"
    by (intro mw_writes_seq_concat v1_column_writes)
  from mw_writes_owned [OF this h1(3,4)] obtain h2 where h2: "mw_seq (concat (map v1_column_ops laid)) h1 = Inr h2"
    "mw_data h2 = mw_data h1 @ concat (map v1_column_bytes laid)" by blast
  have lenl: "length laid = length ?sized" by (simp add: laid_def v1_layout_def)
  have header: "mw_data h2 = u32_bytes kMagicBytesUInt32 @ u16_bytes 1 @ v1_header_bytes (tw_num_rows tw) laid"
    by (simp add: h2(2) h1(2) v1_header_bytes_def lenl)
  have hlen: "length (mw_data h2) = v1_header_size ?cols"
  proof -
    have "(\<Sum>col \<leftarrow> laid. 32 + length (cc_column_name col)) = (\<Sum>col \<leftarrow> ?sized. 32 + length (cc_column_name col))"
      unfolding laid_def v1_layout_def by (rule sum_names)
    with offset show ?thesis by (simp add: h2(2) length_v1_columns)
  qed
  define pm1 where "pm1 = ?pm\<lparr>pm_file := mw_data h2\<rparr>"
  have small: "v1_header_size ?cols < 2 ^ 63" using size by (simp add: v1_file_size_def)
  have wp: "pm_writePage_at 0 (word_of_nat (length (mw_data h2))) (mw_data h2) ?pm = pm1"
    using writePage_at_end [of 0 ?pm "mw_data h2" "word_of_nat (length (mw_data h2))"] empty small hlen
    by (simp add: pm1_def unat_small)
  have "write_columns uninit (zip laid (map cw_commit ?ws)) pm1 =
      Inr (pm1\<lparr>pm_file := pm_file pm1 @ concat (map (\<lambda>w. column_body uninit (cw_commit w)) ?ws)\<rparr>)"
    unfolding laid_def v1_layout_def
    using write_columns_file [of ?cols ?ws pm1 uninit] lens writers_writable [OF holds] size hlen
    by (simp add: pm1_def v1_file_size_def)
  then show ?thesis
    unfolding CSTableWriter_commitV1_def Let_def h1(1) res_bind_simps offset layout h2(1) wp
    by (simp add: pm1_def header v1_file_def laid_def)
qed

end
