(* ===== verification/CS_TableReader.thy ===== *)
theory CS_TableReader
  imports CS_TableWriter
begin

text \<open>
  \<open>CSTableReader\<close> (\<open>cstable/CSTableReader.cc\<close>) and the column reader of the second format
  (\<open>cstable/columns/UnsignedIntColumnReader.cc\<close>, \<open>cstable/columns/UInt64PageReader.cc\<close>). The
  main lemma is the round trip of the first format: for every column, the reader of a
  committed file delivers the cells that were written.
\<close>

section \<open>The column reader of format v0.2.0\<close>

text \<open>
  \<open>UInt64PageReader\<close> is a stub: it returns 0. \<open>openColumnV2\<close> never makes a reader for the
  definition levels.
\<close>

definition UInt64PageReader_readUnsignedInt :: u64 where
  "UInt64PageReader_readUnsignedInt = 0"

record v2_reader =
  vr_config :: ColumnConfig
  vr_has_rlevel_reader :: bool
  vr_has_dlevel_reader :: bool

definition UnsignedIntColumnReader :: "ColumnConfig \<Rightarrow> bool \<Rightarrow> bool \<Rightarrow> v2_reader res" where
  "UnsignedIntColumnReader config has_rlevel has_dlevel =
     (if cc_storage_type config = UINT64_PLAIN
      then Inr \<lparr>vr_config = config, vr_has_rlevel_reader = has_rlevel, vr_has_dlevel_reader = has_dlevel\<rparr>
      else Inl IllegalArgumentError)"

definition UnsignedIntColumnReader_readUnsignedInt :: "v2_reader \<Rightarrow> u64 cell_read" where
  "UnsignedIntColumnReader_readUnsignedInt vr =
     (let rlvl = (if vr_has_rlevel_reader vr then UInt64PageReader_readUnsignedInt else 0);
          dlvl = (if vr_has_dlevel_reader vr then UInt64PageReader_readUnsignedInt else 0)
      in if dlvl = cc_dlevel_max (vr_config vr)
         then (True, rlvl, dlvl, UInt64PageReader_readUnsignedInt)
         else (False, rlvl, dlvl, 0))"

definition v2_convert :: "u64 cell_read \<Rightarrow> (u64 \<Rightarrow> 'u) \<Rightarrow> 'u \<Rightarrow> 'u cell_read" where
  "v2_convert c f null = (case c of (present, r, d, tmp) \<Rightarrow> if present then (True, r, d, f tmp) else (False, r, d, null))"

definition UnsignedIntColumnReader_readBoolean :: "v2_reader \<Rightarrow> bool cell_read" where
  "UnsignedIntColumnReader_readBoolean vr =
     v2_convert (UnsignedIntColumnReader_readUnsignedInt vr) (\<lambda>tmp. tmp > 1) False"

definition UnsignedIntColumnReader_readSignedInt :: "v2_reader \<Rightarrow> u64 cell_read" where
  "UnsignedIntColumnReader_readSignedInt vr =
     v2_convert (UnsignedIntColumnReader_readUnsignedInt vr) (\<lambda>tmp. tmp) 0"

definition UnsignedIntColumnReader_readFloat :: "v2_reader \<Rightarrow> double cell_read" where
  "UnsignedIntColumnReader_readFloat vr =
     v2_convert (UnsignedIntColumnReader_readUnsignedInt vr) u64_to_double (Double 0)"

definition UnsignedIntColumnReader_readString :: "v2_reader \<Rightarrow> bytes cell_read" where
  "UnsignedIntColumnReader_readString vr =
     v2_convert (UnsignedIntColumnReader_readUnsignedInt vr) toString_u64 []"

section \<open>CSTableReader\<close>

record table_reader =
  tr_version :: BinaryFormatVersion
  tr_columns :: "ColumnConfig list"
  tr_v1_readers :: "column_reader list"
  tr_v2_readers :: "v2_reader list"
  tr_num_rows :: u64

definition openColumnV2_reader :: "ColumnConfig \<Rightarrow> v2_reader res" where
  "openColumnV2_reader c =
     (let has_rlevel = cc_rlevel_max c > 0
      in case cc_logical_type c of
           UNSIGNED_INT \<Rightarrow> UnsignedIntColumnReader c has_rlevel False
         | _ \<Rightarrow> Inl RuntimeError)"

fun res_map :: "('a \<Rightarrow> 'b res) \<Rightarrow> 'a list \<Rightarrow> 'b list res" where
  "res_map f [] = Inr []"
| "res_map f (x # xs) = res_bind (f x) (\<lambda>y. res_bind (res_map f xs) (\<lambda>ys. Inr (y # ys)))"

text \<open>
  \<open>openFile\<close> opens the file for reading, reads the header through a file stream and maps the whole
  file for the first format; the mapping of an empty file raises. \<open>disk\<close> is what the path holds, \<open>col0\<close> and
  \<open>hdr0\<close> the indeterminate contents of the local variables.
\<close>

definition CSTableReader_openFile ::
  "ColumnConfig \<Rightarrow> u64 \<Rightarrow> bytes option \<Rightarrow> table_reader res" where
  "CSTableReader_openFile col0 num_rows0 disk =
     res_bind (File_openFile O_READ disk) (\<lambda>(_, file).
       let content = file_content file
       in res_bind (readHeader col0 \<lparr>fh_columns = [], fh_num_rows = num_rows0\<rparr>
            (FileIS (FileInputStream_fromFileDescriptor content))) (\<lambda>((version, header, metablock), _).
          case version of
            V0_1_0 \<Rightarrow>
              (if content = [] then Inl IllegalArgumentError
               else res_bind (res_map (\<lambda>col. openColumnV1_reader col (drop (unat (cc_body_offset col)) content))
                      (fh_columns header)) (\<lambda>readers.
                 Inr \<lparr>tr_version = version, tr_columns = fh_columns header, tr_v1_readers = readers,
                      tr_v2_readers = [], tr_num_rows = fh_num_rows header\<rparr>))
          | V0_2_0 \<Rightarrow>
              res_bind (res_map openColumnV2_reader (fh_columns header)) (\<lambda>readers.
                 Inr \<lparr>tr_version = version, tr_columns = fh_columns header, tr_v1_readers = [],
                      tr_v2_readers = readers,
                      tr_num_rows = (case metablock of Some (mb, _) \<Rightarrow> mb_num_rows mb | None \<Rightarrow> 0)\<rparr>)))"

definition CSTableReader_getColumnReader :: "table_reader \<Rightarrow> bytes \<Rightarrow> nat res" where
  "CSTableReader_getColumnReader tr column_name =
     (case first_named column_name (tr_columns tr) of None \<Rightarrow> Inl NotFoundError | Some i \<Rightarrow> Inr i)"

definition CSTableReader_hasColumn :: "table_reader \<Rightarrow> bytes \<Rightarrow> bool" where
  "CSTableReader_hasColumn tr column_name \<longleftrightarrow> first_named column_name (tr_columns tr) \<noteq> None"

definition CSTableReader_numRecords :: "table_reader \<Rightarrow> u64" where
  "CSTableReader_numRecords tr = tr_num_rows tr"

section \<open>Lists of results\<close>

lemma res_map_ok:
  assumes "\<And>x. x \<in> set xs \<Longrightarrow> \<exists>y. f x = Inr y \<and> P x y"
  shows "\<exists>ys. res_map f xs = Inr ys \<and> list_all2 P xs ys"
  using assms
proof (induction xs)
  case (Cons x xs)
  then obtain y ys where "f x = Inr y" "P x y" "res_map f xs = Inr ys" "list_all2 P xs ys"
    by (metis list.set_intros)
  then show ?case by auto
qed simp

lemma drop_prefix: "xs = ys @ zs \<Longrightarrow> length ys = n \<Longrightarrow> drop n xs = zs"
  by auto

lemma first_named_ok:
  assumes "name \<in> cc_column_name ` set cols"
  shows "\<exists>j < length cols. first_named name cols = Some j \<and> cc_column_name (cols ! j) = name"
  using assms
proof (induction cols)
  case (Cons c cols)
  show ?case
  proof (cases "cc_column_name c = name")
    case False
    with Cons obtain j where "j < length cols" "first_named name cols = Some j" "cc_column_name (cols ! j) = name"
      by auto
    with False show ?thesis by (intro exI [of _ "Suc j"]) simp
  qed auto
qed simp

lemma first_named_None: "first_named name cols = None \<longleftrightarrow> name \<notin> cc_column_name ` set cols"
  by (induction cols) auto

section \<open>The round trip of format v0.1.0\<close>

lemma set_body_offsets_nth:
  "i < length cols \<Longrightarrow> set_body_offsets offset cols ! i =
     (cols ! i)\<lparr>cc_body_offset := offset + (\<Sum>c \<leftarrow> take i cols. cc_body_size c)\<rparr>"
proof (induction cols arbitrary: offset i)
  case (Cons c cols)
  then show ?case by (cases i) (simp_all add: add.assoc)
qed simp

lemma sum_list_word_of_nat: "(\<Sum>x \<leftarrow> xs. word_of_nat (f x) :: u64) = word_of_nat (\<Sum>x \<leftarrow> xs. f x)"
  by (induction xs) simp_all

text \<open>Column \<open>i\<close> of the layout, and the bytes of the file at its offset.\<close>

lemma v1_layout_nth:
  assumes lens: "length ws = length cols" and i: "i < length cols"
  shows "v1_layout cols ws ! i = (cols ! i)\<lparr>cc_body_size := word_of_nat (cw_bodySize (cw_commit (ws ! i))),
    cc_body_offset := word_of_nat (v1_header_size cols + (\<Sum>w \<leftarrow> take i ws. cw_bodySize (cw_commit w)))\<rparr>"
proof -
  have "take i (map2 set_body_size cols (map cw_commit ws)) =
      map2 set_body_size (take i cols) (map cw_commit (take i ws))"
    by (simp add: take_map take_zip)
  moreover have "(\<Sum>c \<leftarrow> map2 set_body_size cs (map cw_commit us). cc_body_size c) =
      word_of_nat (\<Sum>w \<leftarrow> us. cw_bodySize (cw_commit w))" if "length cs = length us" for cs us
    using that by (induction cs us rule: list_induct2) (simp_all add: set_body_size_def)
  ultimately show ?thesis
    using assms by (simp add: v1_layout_def set_body_offsets_nth set_body_size_def)
qed

lemma length_v1_layout [simp]: "length (v1_layout cols ws) = min (length cols) (length ws)"
  by (simp add: v1_layout_def)

lemma v1_layout_names: "length ws = length cols \<Longrightarrow> map cc_column_name (v1_layout cols ws) = map cc_column_name cols"
  by (rule nth_equalityI) (simp_all add: v1_layout_nth)

lemma v1_file_drop:
  assumes ws: "\<forall>w \<in> set ws. writable w" and lens: "length ws = length cols" and i: "i < length cols"
  shows "drop (v1_header_size cols + (\<Sum>w \<leftarrow> take i ws. cw_bodySize (cw_commit w)))
      (v1_file uninit num_rows cols ws) =
    column_body uninit (cw_commit (ws ! i)) @
    concat (map (\<lambda>w. column_body uninit (cw_commit w)) (drop (Suc i) ws))"
proof -
  let ?H = "u32_bytes kMagicBytesUInt32 @ u16_bytes 1 @ v1_header_bytes num_rows (v1_layout cols ws)"
  let ?b = "\<lambda>w. column_body uninit (cw_commit w)"
  have "length (concat (map v1_column_bytes (v1_layout cols ws))) = (\<Sum>col \<leftarrow> cols. 32 + length (cc_column_name col))"
  proof -
    have "map (\<lambda>n. 32 + length n) (map cc_column_name (v1_layout cols ws)) =
        map (\<lambda>n. 32 + length n) (map cc_column_name cols)"
      by (simp only: v1_layout_names [OF lens])
    then show ?thesis by (simp only: length_v1_columns map_map o_def)
  qed
  then have H: "length ?H = v1_header_size cols" by (simp add: v1_header_bytes_def v1_header_size_def)
  have pre: "length (concat (map ?b us)) = (\<Sum>w \<leftarrow> us. cw_bodySize (cw_commit w))" if "set us \<subseteq> set ws" for us
    using that ws by (induction us) (simp_all add: length_column_body)
  have split: "ws = take i ws @ ws ! i # drop (Suc i) ws" using i lens by (simp add: id_take_nth_drop)
  have "concat (map ?b ws) = concat (map ?b (take i ws)) @ ?b (ws ! i) @ concat (map ?b (drop (Suc i) ws))"
    by (subst split) simp
  then have "v1_file uninit num_rows cols ws =
      (?H @ concat (map ?b (take i ws))) @ (?b (ws ! i) @ concat (map ?b (drop (Suc i) ws)))"
    by (simp add: v1_file_def)
  moreover have "length (?H @ concat (map ?b (take i ws))) =
      v1_header_size cols + (\<Sum>w \<leftarrow> take i ws. cw_bodySize (cw_commit w))"
    using H pre [of "take i ws"] set_take_subset [of i ws] by (simp del: append_assoc)
  ultimately show ?thesis by (rule drop_prefix)
qed

lemma v1_open_column:
  assumes holds: "writers_hold cols ws css" and i: "i < length cols" and count: "length (css ! i) < 2 ^ 64"
    and size: "v1_file_size cols ws < 2 ^ 63" and c: "c = v1_config col0 (v1_layout cols ws ! i)"
  shows "\<exists>cr. openColumnV1_reader c (drop (unat (cc_body_offset c)) (v1_file uninit num_rows cols ws)) = Inr cr \<and>
    cr_encoding cr = cc_storage_type (cols ! i) \<and>
    cr_delivers (cc_rlevel_max (cols ! i)) (cc_dlevel_max (cols ! i)) cr (css ! i)"
proof -
  have lens: "length ws = length cols" and w: "cw_holds (cc_rlevel_max (cols ! i)) (cc_dlevel_max (cols ! i)) (ws ! i) (css ! i)"
    and enc: "cw_encoding (ws ! i) = cc_storage_type (cols ! i)"
    using holds i by (simp_all add: writers_hold_def)
  let ?n = "cw_bodySize (cw_commit (ws ! i))"
  let ?off = "v1_header_size cols + (\<Sum>w \<leftarrow> take i ws. cw_bodySize (cw_commit w))"
  let ?rest = "concat (map (\<lambda>w. column_body uninit (cw_commit w)) (drop (Suc i) ws))"
  let ?body = "column_body uninit (cw_commit (ws ! i))"
  have wr: "\<forall>w \<in> set ws. writable w" using writers_writable [OF holds] by blast
  have "(\<Sum>w \<leftarrow> ws. cw_bodySize (cw_commit w)) =
      (\<Sum>w \<leftarrow> take i ws. cw_bodySize (cw_commit w)) + (?n + (\<Sum>w \<leftarrow> drop (Suc i) ws. cw_bodySize (cw_commit w)))"
    using i lens by (subst id_take_nth_drop [of i ws]) simp_all
  with size have small: "?off + ?n + (\<Sum>w \<leftarrow> drop (Suc i) ws. cw_bodySize (cw_commit w)) < 2 ^ 63"
    by (simp add: v1_file_size_def)
  then have u: "unat (word_of_nat ?off :: u64) = ?off" "unat (word_of_nat ?n :: u64) = ?n"
    by (intro unat_small; linarith)+
  have cfg: "cc_body_offset c = word_of_nat ?off" "cc_body_size c = word_of_nat ?n"
    "cc_rlevel_max c = cc_rlevel_max (cols ! i)" "cc_dlevel_max c = cc_dlevel_max (cols ! i)"
    "cc_storage_type c = cc_storage_type (cols ! i)"
    using v1_layout_nth [OF lens i] by (simp_all add: c v1_config_def)
  have mem: "drop (unat (cc_body_offset c)) (v1_file uninit num_rows cols ws) = ?body @ ?rest"
    unfolding cfg(1) u(1) by (rule v1_file_drop [OF wr lens i])
  have wi: "writable (ws ! i)" using wr i lens by simp
  have "set (drop (Suc i) ws) \<subseteq> set ws" by (rule set_drop_subset)
  with wr have rest: "length ?rest = (\<Sum>w \<leftarrow> drop (Suc i) ws. cw_bodySize (cw_commit w))"
    by (induction "drop (Suc i) ws") (auto simp: length_concat o_def length_column_body intro!: arg_cong [where f = sum_list] map_cong)
  have img: "take (length (cw_image (cw_commit (ws ! i)))) (?body @ ?rest) = cw_image (cw_commit (ws ! i))"
    using length_column_body [OF wi] wi take_column_buffer by (auto simp: writable_def column_body_def)
  have "\<exists>cr. openColumnV1_reader c (?body @ ?rest) = Inr cr \<and> cr_encoding cr = cc_storage_type c \<and>
      cr_delivers (cc_rlevel_max c) (cc_dlevel_max c) cr (css ! i)"
  proof (rule cr_open)
    show "cw_holds (cc_rlevel_max c) (cc_dlevel_max c) (ws ! i) (css ! i)" by (simp only: cfg w)
    show "cc_storage_type c = cw_encoding (ws ! i)" by (simp only: cfg enc)
    show "length (css ! i) < 2 ^ 64" by (rule count)
    show "unat (cc_body_size c) = ?n" by (simp only: cfg u)
    then show "unat (cc_body_size c) \<le> length (?body @ ?rest)" using length_column_body [OF wi] by simp
    show "length (?body @ ?rest) < 2 ^ 63" using length_column_body [OF wi] rest small by simp
    show "take (length (cw_image (cw_commit (ws ! i)))) (?body @ ?rest) = cw_image (cw_commit (ws ! i))" by (rule img)
  qed
  then show ?thesis unfolding mem by (simp only: cfg)
qed

text \<open>The columns of a table that can be committed and read back.\<close>

definition v1_table_ok :: "ColumnConfig list \<Rightarrow> bool" where
  "v1_table_ok cols \<longleftrightarrow> (\<forall>c \<in> set cols. v1_config_ok c) \<and> length cols < 2 ^ 32 \<and>
     distinct (map cc_column_name cols)"

lemma v1_file_is_rest:
  "is_ok (FileIS (FileInputStream_fromFileDescriptor content))"
  "is_rest (FileIS (FileInputStream_fromFileDescriptor content)) = content"
  by (simp_all add: FileInputStream_fromFileDescriptor_def fs_ok_def fs_rest_def)

lemma v1_open_file:
  assumes ok: "v1_table_ok cols" and holds: "writers_hold cols ws css"
    and counts: "\<forall>cs \<in> set css. length cs < 2 ^ 64" and size: "v1_file_size cols ws < 2 ^ 63"
  shows "\<exists>tr. CSTableReader_openFile col0 n0 (Some (v1_file uninit num_rows cols ws)) = Inr tr \<and>
    tr_version tr = V0_1_0 \<and> CSTableReader_numRecords tr = num_rows \<and>
    (\<forall>i < length cols. \<exists>j < length (tr_v1_readers tr). CSTableReader_getColumnReader tr (cc_column_name (cols ! i)) = Inr j \<and>
       cr_encoding (tr_v1_readers tr ! j) = cc_storage_type (cols ! i) \<and>
       cr_delivers (cc_rlevel_max (cols ! i)) (cc_dlevel_max (cols ! i)) (tr_v1_readers tr ! j) (css ! i))"
proof -
  let ?file = "v1_file uninit num_rows cols ws" and ?lay = "v1_layout cols ws"
  let ?s = "FileIS (FileInputStream_fromFileDescriptor ?file)" and ?hdr = "\<lparr>fh_columns = [], fh_num_rows = n0\<rparr>"
  define hcols where "hcols = sort_key cc_column_name (map (v1_config col0) ?lay)"
  have lens: "length ws = length cols" "length css = length cols" using holds by (simp_all add: writers_hold_def)
  have lay_ok: "\<forall>c \<in> set ?lay. v1_config_ok c"
  proof
    fix c assume "c \<in> set ?lay"
    then obtain i where "i < length cols" "c = ?lay ! i" using lens(1) by (auto simp: in_set_conv_nth)
    with ok lens(1) show "v1_config_ok c"
      by (auto simp: v1_layout_nth v1_table_ok_def v1_config_ok_def)
  qed
  have len: "length ?lay < 2 ^ 32" using ok lens(1) by (simp add: v1_table_ok_def)
  have rest: "is_rest ?s = u32_bytes kMagicBytesUInt32 @ u16_bytes 1 @ v1_header_bytes num_rows ?lay @
      concat (map (\<lambda>w. column_body uninit (cw_commit w)) ws)"
    by (simp only: v1_file_is_rest v1_file_def)
  obtain s' where
    "readHeader col0 ?hdr ?s = Inr ((V0_1_0, ?hdr\<lparr>fh_num_rows := num_rows,
       fh_columns := sort_key cc_column_name (fh_columns ?hdr @ map (v1_config col0) ?lay)\<rparr>, None), s')"
    using readHeader_v1 [OF lay_ok len v1_file_is_rest(1) rest, of col0 ?hdr] by blast
  then have hd: "readHeader col0 ?hdr ?s = Inr ((V0_1_0, \<lparr>fh_columns = hcols, fh_num_rows = num_rows\<rparr>, None), s')"
    by (simp add: hcols_def)
  have hset: "set hcols = v1_config col0 ` set ?lay" by (simp add: hcols_def)
  let ?P = "\<lambda>c cr. \<forall>i < length cols. cc_column_name c = cc_column_name (cols ! i) \<longrightarrow>
    cr_encoding cr = cc_storage_type (cols ! i) \<and>
    cr_delivers (cc_rlevel_max (cols ! i)) (cc_dlevel_max (cols ! i)) cr (css ! i)"
  have opens: "\<exists>cr. openColumnV1_reader c (drop (unat (cc_body_offset c)) ?file) = Inr cr \<and> ?P c cr"
    if "c \<in> set hcols" for c
  proof -
    from that obtain i where i: "i < length cols" "c = v1_config col0 (?lay ! i)"
      using lens(1) by (auto simp: hset in_set_conv_nth)
    have cnt: "length (css ! i) < 2 ^ 64" using counts i(1) lens(2) by simp
    from v1_open_column [OF holds i(1) cnt size i(2)] obtain cr where cr:
      "openColumnV1_reader c (drop (unat (cc_body_offset c)) ?file) = Inr cr"
      "cr_encoding cr = cc_storage_type (cols ! i)"
      "cr_delivers (cc_rlevel_max (cols ! i)) (cc_dlevel_max (cols ! i)) cr (css ! i)" by blast
    have name: "cc_column_name c = cc_column_name (cols ! i)"
      using v1_layout_nth [OF lens(1) i(1)] by (simp add: i(2) v1_config_def)
    have "k = i" if "k < length cols" "cc_column_name c = cc_column_name (cols ! k)" for k
    proof -
      have "map cc_column_name cols ! k = map cc_column_name cols ! i" using that i(1) name by simp
      moreover have "distinct (map cc_column_name cols)" using ok by (simp add: v1_table_ok_def)
      ultimately show ?thesis using that(1) i(1) by (simp only: nth_eq_iff_index_eq length_map)
    qed
    with cr show ?thesis by blast
  qed
  obtain readers where readers:
    "res_map (\<lambda>col. openColumnV1_reader col (drop (unat (cc_body_offset col)) ?file)) hcols = Inr readers"
    "list_all2 ?P hcols readers"
    using res_map_ok [of hcols "\<lambda>col. openColumnV1_reader col (drop (unat (cc_body_offset col)) ?file)" ?P] opens
    by blast
  define tr where "tr = \<lparr>tr_version = V0_1_0, tr_columns = hcols, tr_v1_readers = readers, tr_v2_readers = [],
    tr_num_rows = num_rows\<rparr>"
  have "?file \<noteq> []"
  proof -
    have "u32_bytes kMagicBytesUInt32 \<noteq> []" by (metis length_word_bytes(2) list.size(3) zero_neq_numeral)
    then show ?thesis by (simp add: v1_file_def)
  qed
  then have "CSTableReader_openFile col0 n0 (Some ?file) = Inr tr"
    using hd readers(1) by (simp add: CSTableReader_openFile_def tr_def)
  moreover have "\<exists>j < length (tr_v1_readers tr). CSTableReader_getColumnReader tr (cc_column_name (cols ! i)) = Inr j \<and>
       cr_encoding (tr_v1_readers tr ! j) = cc_storage_type (cols ! i) \<and>
       cr_delivers (cc_rlevel_max (cols ! i)) (cc_dlevel_max (cols ! i)) (tr_v1_readers tr ! j) (css ! i)"
    if i: "i < length cols" for i
  proof -
    have "v1_config col0 (?lay ! i) \<in> set hcols" using i lens(1) by (simp add: hset)
    moreover have "cc_column_name (v1_config col0 (?lay ! i)) = cc_column_name (cols ! i)"
      using v1_layout_nth [OF lens(1) i] by (simp add: v1_config_def)
    ultimately have "cc_column_name (cols ! i) \<in> cc_column_name ` set hcols" by (metis imageI)
    from first_named_ok [OF this] obtain j where j: "j < length hcols"
      "first_named (cc_column_name (cols ! i)) hcols = Some j" "cc_column_name (hcols ! j) = cc_column_name (cols ! i)"
      by blast
    with readers(2) i have "cr_encoding (readers ! j) = cc_storage_type (cols ! i) \<and>
        cr_delivers (cc_rlevel_max (cols ! i)) (cc_dlevel_max (cols ! i)) (readers ! j) (css ! i)"
      using list_all2_nthD [OF readers(2) j(1)] by blast
    with j(1,2) list_all2_lengthD [OF readers(2)] show ?thesis by (simp add: CSTableReader_getColumnReader_def tr_def)
  qed
  ultimately show ?thesis by (intro exI [of _ tr]) (simp add: tr_def CSTableReader_numRecords_def)
qed

section \<open>A session with a v0.1.0 table\<close>

text \<open>
  A client looks a column up by name and writes a cell to it, any number of times:
  \<open>tw_put\<close> is one such step. \<open>cells_of name ops\<close> are the cells it gave to one column.
\<close>

definition tw_put :: "bytes \<times> datum cell \<Rightarrow> table_writer \<Rightarrow> table_writer res" where
  "tw_put op tw =
     (case op of (name, cell) \<Rightarrow>
        res_bind (CSTableWriter_getColumnWriter tw name) (\<lambda>i. tw_write_column i (cw_write_cell cell) tw))"

definition cells_of :: "bytes \<Rightarrow> (bytes \<times> 'c) list \<Rightarrow> 'c list" where
  "cells_of name ops = map snd (filter (\<lambda>(n, c). n = name) ops)"

definition op_ok :: "ColumnConfig list \<Rightarrow> bytes \<times> datum cell \<Rightarrow> bool" where
  "op_ok cols op \<longleftrightarrow>
     (case op of (name, (r, d, v)) \<Rightarrow>
        name \<in> cc_column_name ` set cols \<and>
        (\<forall>c \<in> set cols. cc_column_name c = name \<longrightarrow>
           cell_ok (cc_rlevel_max c) (cc_dlevel_max c) (r, d, v) \<and>
           (case v of None \<Rightarrow> True | Some x \<Rightarrow> storable (cc_storage_type c) x)))"

lemma cells_of_simps [simp]:
  "cells_of name [] = []"
  "cells_of name (ops @ [(n, c)]) = cells_of name ops @ (if n = name then [c] else [])"
  by (simp_all add: cells_of_def)

text \<open>The state of a writer of the table after the steps \<open>ops\<close>.\<close>

definition tw_session :: "ColumnConfig list \<Rightarrow> table_writer \<Rightarrow> (bytes \<times> datum cell) list \<Rightarrow> bool" where
  "tw_session cols tw ops \<longleftrightarrow>
     tw_version tw = V0_1_0 \<and> tw_columns tw = cols \<and> pm_file (vs_pm (tw_state tw)) = [] \<and> tw_num_rows tw = 0 \<and>
     writers_hold cols (tw_v1_writers tw) (map (\<lambda>c. cells_of (cc_column_name c) ops) cols)"

lemma open_columns_v1_ok:
  assumes "\<forall>c \<in> set cols. v1_config_ok c"
  shows "\<exists>ws. open_columns_v1 cols = Inr ws \<and> writers_hold cols ws (map (\<lambda>c. []) cols)"
  using assms
proof (induction cols)
  case Nil
  then show ?case by (simp add: writers_hold_def)
next
  case (Cons c cols)
  then obtain ws where ws: "open_columns_v1 cols = Inr ws" "writers_hold cols ws (map (\<lambda>c. []) cols)" by auto
  from Cons.prems cw_open [of c] obtain w where w: "openColumnV1_writer c = Inr w"
    "cw_encoding w = cc_storage_type c" "cw_holds (cc_rlevel_max c) (cc_dlevel_max c) w []"
    by (auto simp: v1_config_ok_def level_max_def)
  have "writers_hold (c # cols) (w # ws) (map (\<lambda>c. []) (c # cols))"
    unfolding writers_hold_def
  proof (intro conjI allI impI)
    fix i assume "i < length (c # cols)"
    then show "cw_holds (cc_rlevel_max ((c # cols) ! i)) (cc_dlevel_max ((c # cols) ! i)) ((w # ws) ! i) (map (\<lambda>c. []) (c # cols) ! i)"
      "cw_encoding ((w # ws) ! i) = cc_storage_type ((c # cols) ! i)"
      using w ws(2) by (cases i; simp add: writers_hold_def)+
  qed (use ws(2) in \<open>simp_all add: writers_hold_def\<close>)
  with w(1) ws(1) show ?case by simp
qed

lemma createFile_v1:
  assumes "TableSchema_flatColumns junk (TableSchema_copy order schema) = Inr cols" and "v1_table_ok cols"
  shows "\<exists>tw. CSTableWriter_createFile order junk None V0_1_0 schema = Inr tw \<and> tw_session cols tw []"
proof -
  from assms(2) obtain ws where "open_columns_v1 cols = Inr ws" "writers_hold cols ws (map (\<lambda>c. []) cols)"
    using open_columns_v1_ok by (auto simp: v1_table_ok_def)
  then show ?thesis
    by (simp add: CSTableWriter_createFile_def assms(1) CSTableWriter_def Let_def tw_session_def PageManager_def)
qed

lemma tw_put_session:
  assumes ok: "v1_table_ok cols" and s: "tw_session cols tw ops" and op: "op_ok cols op"
  shows "\<exists>tw'. tw_put op tw = Inr tw' \<and> tw_session cols tw' (ops @ [op])"
proof -
  obtain name r d v where o: "op = (name, (r, d, v))" by (cases op) auto
  let ?ws = "tw_v1_writers tw" and ?css = "\<lambda>ops. map (\<lambda>c. cells_of (cc_column_name c) ops) cols"
  from s have cols: "tw_columns tw = cols" and holds: "writers_hold cols ?ws (?css ops)"
    by (simp_all add: tw_session_def)
  from op obtain i where i: "i < length cols" "first_named name cols = Some i" "cc_column_name (cols ! i) = name"
    using first_named_ok [of name cols] by (auto simp: op_ok_def o)
  have lens: "length ?ws = length cols" using holds by (simp add: writers_hold_def)
  have w: "cw_holds (cc_rlevel_max (cols ! i)) (cc_dlevel_max (cols ! i)) (?ws ! i) (?css ops ! i)"
    "cw_encoding (?ws ! i) = cc_storage_type (cols ! i)"
    using holds i(1) by (simp_all add: writers_hold_def)
  have cell: "cell_ok (cc_rlevel_max (cols ! i)) (cc_dlevel_max (cols ! i)) (r, d, v)"
    "case (r, d, v) of (r, d, Some x) \<Rightarrow> storable (cw_encoding (?ws ! i)) x | _ \<Rightarrow> True"
    using op i w(2) by (auto simp: op_ok_def o split: option.splits)
  from cw_write_cell_holds [OF w(1) cell] obtain w' where w':
    "cw_write_cell (r, d, v) (?ws ! i) = Inr w'"
    "cw_holds (cc_rlevel_max (cols ! i)) (cc_dlevel_max (cols ! i)) w' (?css ops ! i @ [(r, d, v)])"
    "cw_encoding w' = cw_encoding (?ws ! i)" by blast
  have "writers_hold cols (?ws[i := w']) (?css (ops @ [op]))"
    unfolding writers_hold_def
  proof (intro conjI allI impI)
    fix k assume k: "k < length cols"
    have same: "cc_column_name (cols ! k) = name \<longleftrightarrow> k = i"
    proof -
      have "map cc_column_name cols ! k = map cc_column_name cols ! i \<longleftrightarrow> k = i"
        using ok k i(1) by (simp only: nth_eq_iff_index_eq length_map v1_table_ok_def)
      with k i(1,3) show ?thesis by simp
    qed
    show "cw_holds (cc_rlevel_max (cols ! k)) (cc_dlevel_max (cols ! k)) (?ws[i := w'] ! k) (?css (ops @ [op]) ! k)"
      "cw_encoding (?ws[i := w'] ! k) = cc_storage_type (cols ! k)"
      using holds w' w(2) k same lens i by (cases "k = i"; auto simp: writers_hold_def o)+
  qed (use lens in simp_all)
  with s i(2) w'(1) show ?thesis
    by (simp add: tw_put_def o CSTableWriter_getColumnWriter_def cols tw_write_column_def tw_session_def)
qed

lemma tw_puts_session:
  assumes "v1_table_ok cols" and "tw_session cols tw []" and "\<forall>op \<in> set ops. op_ok cols op"
  shows "\<exists>tw'. res_fold tw_put ops tw = Inr tw' \<and> tw_session cols tw' ops"
  using res_fold_rel [of "tw_session cols" tw "[]" ops "op_ok cols" tw_put] assms tw_put_session by simp

lemma length_cells_of: "length (cells_of name ops) \<le> length ops"
  by (simp add: cells_of_def)

lemma cr_read_cells:
  assumes "cr_delivers r_max d_max cr cs"
  shows "\<exists>cr'. act_repeat (length cs) cr_read_cell cr =
      Inr (map (cell_result (null_datum (cr_encoding cr))) cs, cr') \<and> cr_eofReached cr'"
proof -
  let ?R = "\<lambda>q cs. cr_delivers r_max d_max q cs \<and> cr_encoding q = cr_encoding cr"
  have "\<exists>cr'. act_repeat (length cs) cr_read_cell cr =
      Inr (map (cell_result (null_datum (cr_encoding cr))) cs, cr') \<and> ?R cr' []"
  proof (rule act_repeat_rel [where R = ?R])
    show "?R cr (cs @ [])" using assms by simp
    fix q c cs assume "?R q (c # cs)"
    then show "\<exists>q'. cr_read_cell q = Inr (cell_result (null_datum (cr_encoding cr)) c, q') \<and> ?R q' cs"
      using cr_read_cell_delivers [of r_max d_max q c cs] by auto
  qed
  then show ?thesis using cr_eof by fastforce
qed

lemma v1_session_readers:
  assumes ok: "v1_table_ok cols" and s: "tw_session cols tw ops" and len: "length ops < 2 ^ 64"
    and size: "v1_file_size cols (tw_v1_writers tw) < 2 ^ 63"
  shows "\<exists>tw' tr. CSTableWriter_commit uninit (CSTableWriter_addRows n tw) = Inr tw' \<and>
    CSTableReader_openFile col0 n0 (Some (pm_file (vs_pm (tw_state tw')))) = Inr tr \<and>
    CSTableReader_numRecords tr = n \<and> tr_version tr = V0_1_0 \<and>
    (\<forall>c \<in> set cols. \<exists>j < length (tr_v1_readers tr). CSTableReader_getColumnReader tr (cc_column_name c) = Inr j \<and>
       cr_encoding (tr_v1_readers tr ! j) = cc_storage_type c \<and>
       cr_delivers (cc_rlevel_max c) (cc_dlevel_max c) (tr_v1_readers tr ! j) (cells_of (cc_column_name c) ops))"
proof -
  let ?tw = "CSTableWriter_addRows n tw" and ?css = "map (\<lambda>c. cells_of (cc_column_name c) ops) cols"
  from s have tw: "tw_version ?tw = V0_1_0" "tw_columns ?tw = cols" "pm_file (vs_pm (tw_state ?tw)) = []"
    "tw_num_rows ?tw = n" "tw_v1_writers ?tw = tw_v1_writers tw" "writers_hold cols (tw_v1_writers tw) ?css"
    by (simp_all add: tw_session_def CSTableWriter_addRows_def)
  have holds: "writers_hold (tw_columns ?tw) (tw_v1_writers ?tw) ?css" using tw by simp
  have "v1_file_size (tw_columns ?tw) (tw_v1_writers ?tw) < 2 ^ 63" using size tw by simp
  from commitV1_file [OF tw(3) holds this, of uninit] obtain tw' where tw':
    "CSTableWriter_commit uninit ?tw = Inr tw'"
    "pm_file (vs_pm (tw_state tw')) = v1_file uninit n cols (tw_v1_writers tw)"
    using tw by (auto simp: CSTableWriter_commit_def)
  have counts: "\<forall>cs \<in> set ?css. length cs < 2 ^ 64"
    using len length_cells_of by (auto intro: le_less_trans)
  from v1_open_file [OF ok tw(6) counts size, of col0 n0 uninit n] obtain tr where tr:
    "CSTableReader_openFile col0 n0 (Some (v1_file uninit n cols (tw_v1_writers tw))) = Inr tr"
    "tr_version tr = V0_1_0" "CSTableReader_numRecords tr = n"
    "\<And>i. i < length cols \<Longrightarrow> \<exists>j < length (tr_v1_readers tr). CSTableReader_getColumnReader tr (cc_column_name (cols ! i)) = Inr j \<and>
       cr_encoding (tr_v1_readers tr ! j) = cc_storage_type (cols ! i) \<and>
       cr_delivers (cc_rlevel_max (cols ! i)) (cc_dlevel_max (cols ! i)) (tr_v1_readers tr ! j) (?css ! i)"
    by blast
  have "\<exists>j < length (tr_v1_readers tr). CSTableReader_getColumnReader tr (cc_column_name c) = Inr j \<and>
       cr_encoding (tr_v1_readers tr ! j) = cc_storage_type c \<and>
       cr_delivers (cc_rlevel_max c) (cc_dlevel_max c) (tr_v1_readers tr ! j) (cells_of (cc_column_name c) ops)"
    if "c \<in> set cols" for c
  proof -
    from that obtain i where i: "i < length cols" "c = cols ! i" by (auto simp: in_set_conv_nth)
    show ?thesis using tr(4) [OF i(1)] i by simp
  qed
  with tw' tr(1-3) show ?thesis by auto
qed

lemma v1_session_roundtrip:
  assumes ok: "v1_table_ok cols" and s: "tw_session cols tw ops" and len: "length ops < 2 ^ 64"
    and size: "v1_file_size cols (tw_v1_writers tw) < 2 ^ 63"
  shows "\<exists>tw' tr. CSTableWriter_commit uninit (CSTableWriter_addRows n tw) = Inr tw' \<and>
    CSTableReader_openFile col0 n0 (Some (pm_file (vs_pm (tw_state tw')))) = Inr tr \<and>
    CSTableReader_numRecords tr = n \<and>
    (\<forall>c \<in> set cols. \<exists>j cr'. CSTableReader_getColumnReader tr (cc_column_name c) = Inr j \<and>
       act_repeat (length (cells_of (cc_column_name c) ops)) cr_read_cell (tr_v1_readers tr ! j) =
         Inr (map (cell_result (null_datum (cc_storage_type c))) (cells_of (cc_column_name c) ops), cr') \<and>
       cr_eofReached cr')"
proof -
  from v1_session_readers [OF assms, of uninit n col0 n0] obtain tw' tr where t:
    "CSTableWriter_commit uninit (CSTableWriter_addRows n tw) = Inr tw'"
    "CSTableReader_openFile col0 n0 (Some (pm_file (vs_pm (tw_state tw')))) = Inr tr" "CSTableReader_numRecords tr = n"
    and j: "\<forall>c \<in> set cols. \<exists>j < length (tr_v1_readers tr). CSTableReader_getColumnReader tr (cc_column_name c) = Inr j \<and>
       cr_encoding (tr_v1_readers tr ! j) = cc_storage_type c \<and>
       cr_delivers (cc_rlevel_max c) (cc_dlevel_max c) (tr_v1_readers tr ! j) (cells_of (cc_column_name c) ops)" by blast
  have "\<exists>j cr'. CSTableReader_getColumnReader tr (cc_column_name c) = Inr j \<and>
       act_repeat (length (cells_of (cc_column_name c) ops)) cr_read_cell (tr_v1_readers tr ! j) =
         Inr (map (cell_result (null_datum (cc_storage_type c))) (cells_of (cc_column_name c) ops), cr') \<and>
       cr_eofReached cr'" if "c \<in> set cols" for c
  proof -
    from j that obtain j where j: "CSTableReader_getColumnReader tr (cc_column_name c) = Inr j"
      "cr_encoding (tr_v1_readers tr ! j) = cc_storage_type c"
      "cr_delivers (cc_rlevel_max c) (cc_dlevel_max c) (tr_v1_readers tr ! j) (cells_of (cc_column_name c) ops)" by blast
    from cr_read_cells [OF j(3)] j(1,2) show ?thesis by auto
  qed
  with t show ?thesis by blast
qed

end
