(* ===== verification/CS_SessionV1.thy ===== *)
theory CS_SessionV1
  imports CS_TableReader
begin

text \<open>
  A whole session with a table of the first format, from \<open>createFile\<close> to the last cell a
  reader returns. The size of the file is bounded from the cells alone, so that the theorem
  speaks of what the client passed in.
\<close>

section \<open>The size of a column\<close>

fun cell_bytes :: "datum cell \<Rightarrow> nat" where
  "cell_bytes (r, d, Some (DString s)) = 32 + length s"
| "cell_bytes _ = 32"

definition cells_bytes :: "datum cell list \<Rightarrow> nat" where
  "cells_bytes cs = 2048 + (\<Sum>c \<leftarrow> cs. cell_bytes c)"

lemma cell_bytes_32: "32 \<le> cell_bytes c"
  by (induction c rule: cell_bytes.induct) simp_all

lemma cells_bytes_count: "2048 + 32 * length cs \<le> cells_bytes cs"
proof -
  have "32 * length cs \<le> (\<Sum>c \<leftarrow> cs. cell_bytes c)"
    by (induction cs) (use cell_bytes_32 in \<open>auto intro: add_mono\<close>)
  then show ?thesis by (simp add: cells_bytes_def)
qed

lemma be_size_bound:
  assumes "be_written m e vs"
  shows "be_size (be_flush e) \<le> 4 * length vs + 512"
proof -
  have "16 * bits m * ((length vs + 127) div 128) \<le> 16 * 32 * ((length vs + 127) div 128)"
    using bits_le_32 [of m] by simp
  also have "\<dots> = 4 * (128 * ((length vs + 127) div 128))" by simp
  also have "\<dots> \<le> 4 * (length vs + 127)" by (intro mult_left_mono) simp_all
  finally show ?thesis using be_flush_size [OF assms] by simp
qed

lemma length_cell_values: "length (cell_values cs) \<le> length cs"
proof (induction cs)
  case (Cons c cs)
  then show ?case by (cases c rule: prod_cases3) (rename_tac v, case_tac v, simp_all)
qed simp

text \<open>The two level streams and the data stream of a committed column.\<close>

lemma v1_body_bound:
  assumes "v1_levels w cs" and "sz (fin (cw_data_writer w)) \<le> 516 + n"
  shows "v1_bodySize sz (v1_commit fin w) \<le> 1572 + 8 * length cs + n"
proof -
  have "be_size (be_flush (cw_rlvl_writer w)) \<le> 4 * length cs + 512"
    "be_size (be_flush (cw_dlvl_writer w)) \<le> 4 * length cs + 512"
    using assms(1) be_size_bound by (fastforce simp: v1_levels_def)+
  then show ?thesis using assms(2) by (simp add: v1_bodySize_def v1_commit_def)
qed

lemma length_codes: "(\<And>x. length (f x) = n) \<Longrightarrow> length (concat (map f xs)) = n * length xs"
  by (induction xs) simp_all

lemma length_string_codes:
  "length (concat (map (\<lambda>s. u32_bytes (word_of_nat (length s)) @ s) (map string_code (cell_values cs)))) \<le>
     (\<Sum>c \<leftarrow> cs. cell_bytes c - 24)"
proof (induction cs)
  case (Cons c cs)
  obtain r d v where c: "c = (r, d, v)" by (cases c) auto
  show ?case
  proof (cases v)
    case (Some x)
    with Cons c show ?thesis by (cases x) (simp_all add: string_code_def)
  qed (use Cons c in simp)
qed simp

lemma cells_bytes_split: "1572 + 8 * length cs + (\<Sum>c \<leftarrow> cs. cell_bytes c - 24) \<le> cells_bytes cs"
proof -
  have "8 * length cs + (\<Sum>c \<leftarrow> cs. cell_bytes c - 24) \<le> (\<Sum>c \<leftarrow> cs. cell_bytes c)"
  proof (induction cs)
    case (Cons c cs)
    then show ?case using cell_bytes_32 [of c] by simp
  qed simp
  then show ?thesis by (simp add: cells_bytes_def)
qed

lemma cw_body_bound:
  assumes "cw_holds r_max d_max w cs"
  shows "cw_bodySize (cw_commit w) \<le> cells_bytes cs"
proof -
  have n: "1572 + 8 * length cs + 10 * length cs \<le> cells_bytes cs" using cells_bytes_count [of cs] by simp
  have len: "length (cell_values cs) \<le> length cs" by (rule length_cell_values)
  have bound: "v1_bodySize sz (v1_commit fin x) \<le> cells_bytes cs"
    if "v1_levels x cs" "sz (fin (cw_data_writer x)) \<le> 516 + 10 * length cs"
    for sz fin and x :: "'w v1_writer"
    using v1_body_bound [of x cs sz fin "10 * length cs", OF that] n by (rule order_trans)
  show ?thesis
  proof (cases w)
    case (BooleanCW x)
    with assms have x: "v1_levels x cs" "be_written 1 (cw_data_writer x) (map bool_code (cell_values cs))"
      by (simp_all add: boolean_datum.column_def)
    from be_size_bound [OF x(2)] len bound [OF x(1)] show ?thesis
      by (simp add: BooleanCW BooleanColumnWriter_size_def)
  next
    case (BitPackedIntCW x)
    with assms have x: "v1_levels x cs"
        "be_written 0xffffffff (bi_data_writer (cw_data_writer x)) (map u32_code (cell_values cs))"
      by (simp_all add: bitpacked_datum.column_def bi_written_def)
    from be_size_bound [OF x(2)] len bound [OF x(1)] show ?thesis
      by (simp add: BitPackedIntCW BitPackedIntColumnWriter_size_def BitPackedIntColumnWriter_flush_def)
  next
    case (UInt32CW x)
    with assms have x: "v1_levels x cs" "length (mw_data (cw_data_writer x)) = 4 * length (cell_values cs)"
      by (simp_all add: uint32_datum.column_def u32_codec.written_def mw_holds_def length_codes)
    from x(2) len bound [OF x(1)] show ?thesis by (simp add: UInt32CW UInt32ColumnWriter_size_def)
  next
    case (UInt64CW x)
    with assms have x: "v1_levels x cs" "length (mw_data (cw_data_writer x)) = 8 * length (cell_values cs)"
      by (simp_all add: uint64_datum.column_def u64_codec.written_def mw_holds_def length_codes)
    from x(2) len bound [OF x(1)] show ?thesis by (simp add: UInt64CW UInt64ColumnWriter_size_def)
  next
    case (LEB128CW x)
    with assms have x: "v1_levels x cs"
        "mw_data (cw_data_writer x) = concat (map varuint_bytes (map u64_code (cell_values cs)))"
      by (simp_all add: leb128_datum.column_def varuint_codec.written_def mw_holds_def)
    have "length (mw_data (cw_data_writer x)) \<le> 10 * length (map u64_code (cell_values cs))"
      unfolding x(2) by (rule length_concat_le) (rule length_varuint_10)
    with len bound [OF x(1)] show ?thesis by (simp add: LEB128CW LEB128ColumnWriter_size_def)
  next
    case (DoubleCW x)
    with assms have x: "v1_levels x cs" "length (mw_data (cw_data_writer x)) = 8 * length (cell_values cs)"
      by (simp_all add: double_datum.column_def double_codec.written_def mw_holds_def length_codes)
    from x(2) len bound [OF x(1)] show ?thesis by (simp add: DoubleCW DoubleColumnWriter_size_def)
  next
    case (StringCW x)
    with assms have x: "v1_levels x cs" "length (mw_data (cw_data_writer x)) \<le> (\<Sum>c \<leftarrow> cs. cell_bytes c - 24)"
      using length_string_codes [of cs] by (simp_all add: string_datum.column_def string_codec.written_def mw_holds_def)
    have "v1_bodySize StringColumnWriter_size (v1_commit (\<lambda>w. w) x) \<le>
        1572 + 8 * length cs + (\<Sum>c \<leftarrow> cs. cell_bytes c - 24)"
      by (rule v1_body_bound [OF x(1)]) (use x(2) in \<open>simp add: StringColumnWriter_size_def\<close>)
    also have "\<dots> \<le> cells_bytes cs" by (rule cells_bytes_split)
    finally show ?thesis by (simp add: StringCW)
  qed
qed

section \<open>The session\<close>

definition session_bytes :: "ColumnConfig list \<Rightarrow> (bytes \<times> datum cell) list \<Rightarrow> nat" where
  "session_bytes cols ops =
     v1_header_size cols + (\<Sum>c \<leftarrow> cols. cells_bytes (cells_of (cc_column_name c) ops))"

lemma session_size:
  assumes "tw_session cols tw ops"
  shows "v1_file_size cols (tw_v1_writers tw) \<le> session_bytes cols ops"
proof -
  let ?ws = "tw_v1_writers tw"
  from assms have h: "length ?ws = length cols"
    "\<And>i. i < length cols \<Longrightarrow> cw_holds (cc_rlevel_max (cols ! i)) (cc_dlevel_max (cols ! i)) (?ws ! i)
      (cells_of (cc_column_name (cols ! i)) ops)"
    by (simp_all add: tw_session_def writers_hold_def)
  have "(\<Sum>w \<leftarrow> ?ws. cw_bodySize (cw_commit w)) = (\<Sum>i < length cols. cw_bodySize (cw_commit (?ws ! i)))"
    by (simp add: sum_list_sum_nth h(1) atLeast0LessThan)
  also have "\<dots> \<le> (\<Sum>i < length cols. cells_bytes (cells_of (cc_column_name (cols ! i)) ops))"
    by (intro sum_mono) (rule cw_body_bound, rule h(2), simp)
  also have "\<dots> = (\<Sum>c \<leftarrow> cols. cells_bytes (cells_of (cc_column_name c) ops))"
    by (simp add: sum_list_sum_nth atLeast0LessThan)
  finally show ?thesis by (simp add: v1_file_size_def session_bytes_def)
qed

lemma v1_session:
  assumes flat: "TableSchema_flatColumns junk (TableSchema_copy order schema) = Inr cols"
    and ok: "v1_table_ok cols" and ops: "\<forall>op \<in> set ops. op_ok cols op" and len: "length ops < 2 ^ 64"
    and size: "session_bytes cols ops < 2 ^ 63"
  shows "\<exists>tw tw1 tw2 tr. CSTableWriter_createFile order junk None V0_1_0 schema = Inr tw \<and>
    res_fold tw_put ops tw = Inr tw1 \<and> CSTableWriter_commit uninit (CSTableWriter_addRows n tw1) = Inr tw2 \<and>
    CSTableReader_openFile col0 n0 (Some (pm_file (vs_pm (tw_state tw2)))) = Inr tr \<and>
    CSTableReader_numRecords tr = n \<and>
    (\<forall>c \<in> set cols. \<exists>j cr'. CSTableReader_getColumnReader tr (cc_column_name c) = Inr j \<and>
       act_repeat (length (cells_of (cc_column_name c) ops)) cr_read_cell (tr_v1_readers tr ! j) =
         Inr (map (cell_result (null_datum (cc_storage_type c))) (cells_of (cc_column_name c) ops), cr') \<and>
       cr_eofReached cr')"
proof -
  from createFile_v1 [OF flat ok] obtain tw where
    tw: "CSTableWriter_createFile order junk None V0_1_0 schema = Inr tw" "tw_session cols tw []" by blast
  from tw_puts_session [OF ok tw(2) ops] obtain tw1 where
    tw1: "res_fold tw_put ops tw = Inr tw1" "tw_session cols tw1 ops" by blast
  from session_size [OF tw1(2)] size have "v1_file_size cols (tw_v1_writers tw1) < 2 ^ 63" by simp
  from v1_session_roundtrip [OF ok tw1(2) len this, of uninit n col0 n0] tw(1) tw1(1) show ?thesis by blast
qed

section \<open>One column\<close>

definition cell_storable :: "ColumnConfig \<Rightarrow> datum cell \<Rightarrow> bool" where
  "cell_storable c cell \<longleftrightarrow> cell_ok (cc_rlevel_max c) (cc_dlevel_max c) cell \<and>
     (case cell of (r, d, None) \<Rightarrow> True | (r, d, Some x) \<Rightarrow> storable (cc_storage_type c) x)"

lemma cw_write_cells:
  assumes "known_encoding (cc_storage_type c)" and "level_max (cc_rlevel_max c)" and "level_max (cc_dlevel_max c)"
    and "\<forall>cell \<in> set cs. cell_storable c cell"
  shows "\<exists>w w'. openColumnV1_writer c = Inr w \<and> res_fold cw_write_cell cs w = Inr w' \<and>
    cw_encoding w' = cc_storage_type c \<and> cw_holds (cc_rlevel_max c) (cc_dlevel_max c) w' cs"
proof -
  let ?R = "\<lambda>w cs. cw_holds (cc_rlevel_max c) (cc_dlevel_max c) w cs \<and> cw_encoding w = cc_storage_type c"
  from cw_open [OF assms(1-3)] obtain w where w: "openColumnV1_writer c = Inr w" "?R w []" by blast
  have step: "\<exists>w'. cw_write_cell x w = Inr w' \<and> ?R w' (xs @ [x])" if "?R w xs" "cell_storable c x" for w xs x
    using cw_write_cell_holds [of "cc_rlevel_max c" "cc_dlevel_max c" w xs x] that
    by (auto simp: cell_storable_def split: prod.splits option.splits)
  have "\<exists>w'. res_fold cw_write_cell cs w = Inr w' \<and> ?R w' ([] @ cs)"
    by (rule res_fold_rel [of ?R w "[]" cs "cell_storable c" cw_write_cell]) (use w(2) assms(4) step in auto)
  with w(1) show ?thesis by auto
qed

text \<open>Reading some of the cells, looking ahead, and reading on.\<close>

lemma cr_read_some:
  assumes "cr_delivers r_max d_max cr (xs @ ys)" and "cr_encoding cr = e"
  shows "\<exists>q. act_repeat (length xs) cr_read_cell cr = Inr (map (cell_result (null_datum e)) xs, q) \<and>
    cr_delivers r_max d_max q ys \<and> cr_encoding q = e"
proof -
  let ?R = "\<lambda>q cs. cr_delivers r_max d_max q cs \<and> cr_encoding q = e"
  show ?thesis
  proof (rule act_repeat_rel [where R = ?R])
    show "?R cr (xs @ ys)" using assms by simp
    fix q c cs assume "?R q (c # cs)"
    then show "\<exists>q'. cr_read_cell q = Inr (cell_result (null_datum e) c, q') \<and> ?R q' cs"
      using cr_read_cell_delivers [of r_max d_max q c cs] by auto
  qed
qed

definition reads_cells :: "ColumnEncoding \<Rightarrow> datum cell list \<Rightarrow> column_reader \<Rightarrow> bool" where
  "reads_cells e cs cr \<longleftrightarrow>
     (\<exists>q. act_repeat (length cs) cr_read_cell cr = Inr (map (cell_result (null_datum e)) cs, q) \<and> cr_eofReached q)"

lemma delivers_reads_cells: "cr_delivers r d q cs \<Longrightarrow> cr_encoding q = e \<Longrightarrow> reads_cells e cs q"
  using cr_read_cells [of r d q cs] by (auto simp: reads_cells_def)

definition column_api :: "ColumnEncoding \<Rightarrow> datum cell list \<Rightarrow> column_reader \<Rightarrow> bool" where
  "column_api e cs cr \<longleftrightarrow> (\<forall>k \<le> length cs. \<exists>q.
     act_repeat k cr_read_cell cr = Inr (map (cell_result (null_datum e)) (take k cs), q) \<and>
     (cr_eofReached q \<longleftrightarrow> k = length cs) \<and> reads_cells e (drop k cs) q \<and>
     (k < length cs \<longrightarrow> (\<exists>q'. cr_nextRepetitionLevel q = Inr (fst (cs ! k), q') \<and> reads_cells e (drop k cs) q')))"

lemma delivers_api:
  assumes d: "cr_delivers r_max d_max cr cs" and e: "cr_encoding cr = e"
  shows "column_api e cs cr"
  unfolding column_api_def
proof (intro allI impI)
  fix k assume k: "k \<le> length cs"
  from cr_read_some [of r_max d_max cr "take k cs" "drop k cs" e] d e k obtain q where q:
    "act_repeat k cr_read_cell cr = Inr (map (cell_result (null_datum e)) (take k cs), q)"
    "cr_delivers r_max d_max q (drop k cs)" "cr_encoding q = e" by (auto simp: min_absorb2)
  have "\<exists>q'. cr_nextRepetitionLevel q = Inr (fst (cs ! k), q') \<and> reads_cells e (drop k cs) q'" if "k < length cs"
  proof -
    obtain r d v where c: "cs ! k = (r, d, v)" by (cases "cs ! k") auto
    then have "drop k cs = (r, d, v) # drop (Suc k) cs" using that by (metis Cons_nth_drop_Suc)
    with cr_next_rlvl [of r_max d_max q r d v "drop (Suc k) cs"] q c show ?thesis
      using delivers_reads_cells [of r_max d_max _ "drop k cs" e] by fastforce
  qed
  then show "\<exists>q. act_repeat k cr_read_cell cr = Inr (map (cell_result (null_datum e)) (take k cs), q) \<and>
     (cr_eofReached q \<longleftrightarrow> k = length cs) \<and> reads_cells e (drop k cs) q \<and>
     (k < length cs \<longrightarrow> (\<exists>q'. cr_nextRepetitionLevel q = Inr (fst (cs ! k), q') \<and> reads_cells e (drop k cs) q'))"
    using q cr_eof [OF q(2)] delivers_reads_cells [OF q(2,3)] k by auto
qed

lemma v1_column_session:
  assumes "known_encoding (cc_storage_type c)" and "level_max (cc_rlevel_max c)" and "level_max (cc_dlevel_max c)"
    and "\<forall>cell \<in> set cs. cell_storable c cell" and "cells_bytes cs < 2 ^ 63"
  shows "\<exists>w w' m. openColumnV1_writer c = Inr w \<and> res_fold cw_write_cell cs w = Inr w' \<and>
    cw_write (cw_bodySize (cw_commit w')) (cw_commit w') = Inr m \<and>
    (\<forall>uninit. let mem = column_buffer uninit (cw_bodySize (cw_commit w')) (mw_data m) in
       \<exists>cr. openColumnV1_reader (c\<lparr>cc_body_size := word_of_nat (length mem)\<rparr>) mem = Inr cr \<and>
         column_api (cc_storage_type c) cs cr)"
proof -
  from cw_write_cells [OF assms(1-4)] obtain w w' where w: "openColumnV1_writer c = Inr w"
    "res_fold cw_write_cell cs w = Inr w'" "cw_encoding w' = cc_storage_type c"
    "cw_holds (cc_rlevel_max c) (cc_dlevel_max c) w' cs" by blast
  let ?n = "cw_bodySize (cw_commit w')"
  from cw_write_image [OF w(4)] obtain m where m: "cw_write ?n (cw_commit w') = Inr m"
    "mw_data m = cw_image (cw_commit w')" "length (cw_image (cw_commit w')) \<le> ?n" by blast
  have n: "?n < 2 ^ 63" using cw_body_bound [OF w(4)] assms(5) by simp
  have count: "length cs < 2 ^ 64" using cells_bytes_count [of cs] assms(5) by simp
  have "\<exists>cr. openColumnV1_reader (c\<lparr>cc_body_size := word_of_nat (length mem)\<rparr>) mem = Inr cr \<and>
      column_api (cc_storage_type c) cs cr" if mem: "mem = column_buffer uninit ?n (mw_data m)" for uninit mem
  proof -
    have len: "length mem = ?n" using length_column_buffer m by (simp add: mem)
    let ?c = "c\<lparr>cc_body_size := word_of_nat (length mem)\<rparr>"
    have u: "unat (word_of_nat (length mem) :: u64) = ?n" using n len by (simp only: unat_small)
    have pre: "take (length (cw_image (cw_commit w'))) mem = cw_image (cw_commit w')"
      using take_column_buffer [of "mw_data m" uninit ?n] by (simp add: mem m(2))
    have "\<exists>cr. openColumnV1_reader ?c mem = Inr cr \<and> cr_encoding cr = cc_storage_type ?c \<and>
        cr_delivers (cc_rlevel_max ?c) (cc_dlevel_max ?c) cr cs"
    proof (rule cr_open)
      show "cw_holds (cc_rlevel_max ?c) (cc_dlevel_max ?c) w' cs" using w(4) by simp
      show "cc_storage_type ?c = cw_encoding w'" using w(3) by simp
      show "unat (cc_body_size ?c) = cw_bodySize (cw_commit w')" using u by simp
      show "unat (cc_body_size ?c) \<le> length mem" using u len by simp
      show "length mem < 2 ^ 63" using len n by simp
    qed (use count pre in simp_all)
    then obtain cr where cr: "openColumnV1_reader ?c mem = Inr cr" "cr_encoding cr = cc_storage_type c"
      "cr_delivers (cc_rlevel_max c) (cc_dlevel_max c) cr cs" by auto
    from delivers_api [OF cr(3,2)] cr(1) show ?thesis by blast
  qed
  then have "\<forall>uninit. let mem = column_buffer uninit ?n (mw_data m) in
      \<exists>cr. openColumnV1_reader (c\<lparr>cc_body_size := word_of_nat (length mem)\<rparr>) mem = Inr cr \<and>
        column_api (cc_storage_type c) cs cr" unfolding Let_def by blast
  with w(1,2) m(1) show ?thesis by blast
qed

end
