(* ===== verification/CS_TableV2.thy ===== *)
theory CS_TableV2
  imports CS_TableReader
begin

text \<open>
  Transactions of the second file format. A commit writes the page index, then the meta block
  into the slot of its transaction id, and a reader takes the valid meta block with the
  greater transaction id: the lemmas show that a commit is published by that one write, that
  a torn write leaves the previous transaction in force, and what a committed file holds.
\<close>

section \<open>The two slots\<close>

text \<open>The header of a file, with its two meta block slots.\<close>

definition v2_head :: "bytes \<Rightarrow> bytes \<Rightarrow> bytes \<Rightarrow> bytes" where
  "v2_head b0 b1 tail = kMagicBytes @ u16_bytes 2 @ u64_bytes 0 @ b0 @ b1 @ tail"

definition v2_tail :: "ColumnConfig list \<Rightarrow> bytes \<Rightarrow> bytes" where
  "v2_tail cols pad = replicate 128 0 @ v2_columns_bytes cols @ pad"

lemma length_magic [simp]: "length kMagicBytes = 4"
  by (simp add: kMagicBytes_def)

lemma length_v2_head: "length (v2_head b0 b1 tail) = 14 + length b0 + length b1 + length tail"
  by (simp add: v2_head_def)

lemma v2_header_head:
  "v2_header_image cols = v2_head (replicate 56 0) (replicate 56 0)
     (v2_tail cols (replicate (sector_padding (length (v2_header_body cols))) 0))"
  by (simp add: v2_header_image_def v2_header_body_def v2_head_def v2_tail_def flip: replicate_add)

text \<open>What a slot gives: the meta block whose image it is, or nothing.\<close>

lemma metablock_bytes_surj:
  assumes "length bs = 36"
  shows "\<exists>mb. bs = metablock_bytes mb"
proof -
  define mb where "mb = \<lparr>mb_transaction_id = bytes_u64 (take 8 bs), mb_num_rows = bytes_u64 (take 8 (drop 8 bs)),
    mb_head_index_page_offset = bytes_u64 (take 8 (drop 16 bs)),
    mb_head_index_page_size = bytes_u32 (take 4 (drop 24 bs)), mb_file_size = bytes_u64 (drop 28 bs)\<rparr>"
  have "metablock_bytes mb = take 8 bs @ take 8 (drop 8 bs) @ take 8 (drop 16 bs) @ take 4 (drop 24 bs) @ drop 28 bs"
    using assms by (simp add: metablock_bytes_def mb_def word_bytes_inverse)
  also have "\<dots> = bs"
  proof -
    have "take 4 (drop 24 bs) @ drop 28 bs = drop 24 bs" using append_take_drop_id [of 4 "drop 24 bs"] by simp
    then have "take 8 (drop 16 bs) @ take 4 (drop 24 bs) @ drop 28 bs = drop 16 bs"
      using append_take_drop_id [of 8 "drop 16 bs"] by simp
    then have "take 8 (drop 8 bs) @ take 8 (drop 16 bs) @ take 4 (drop 24 bs) @ drop 28 bs = drop 8 bs"
      using append_take_drop_id [of 8 "drop 8 bs"] by simp
    then show ?thesis by simp
  qed
  finally show ?thesis by (intro exI [of _ mb]) simp
qed

definition slot_holds :: "bytes \<Rightarrow> MetaBlock option \<Rightarrow> bool" where
  "slot_holds b m \<longleftrightarrow> length b = 56 \<and>
     (case m of Some mb \<Rightarrow> b = metablock_image mb | None \<Rightarrow> SHA1_compute (take 36 b) \<noteq> drop 36 b)"

lemma slot_total:
  assumes len: "length b = 56"
  shows "\<exists>m. slot_holds b m"
proof (cases "SHA1_compute (take 36 b) = drop 36 b")
  case True
  from metablock_bytes_surj [of "take 36 b"] len obtain mb where mb: "take 36 b = metablock_bytes mb" by auto
  have "b = take 36 b @ drop 36 b" by simp
  also have "\<dots> = metablock_image mb" unfolding metablock_image_def mb [symmetric] True ..
  finally show ?thesis using len by (intro exI [of _ "Some mb"]) (simp add: slot_holds_def)
next
  case False
  with len show ?thesis by (intro exI [of _ None]) (simp add: slot_holds_def)
qed

lemma slot_reads: "slot_holds b m \<Longrightarrow> is_reads readMetaBlock b m"
  by (cases m) (simp_all add: slot_holds_def readMetaBlock_ok readMetaBlock_reject)

lemma metablock_bytes_inject: "metablock_bytes a = metablock_bytes b \<Longrightarrow> mb_transaction_id a = mb_transaction_id b"
  by (simp add: metablock_bytes_def)

text \<open>An empty slot holds nothing, or (should the hash of 36 zeros be zero) transaction 0.\<close>

lemma empty_slot: "slot_holds (replicate 56 0) (Some mb) \<Longrightarrow> mb_transaction_id mb = 0"
proof -
  assume "slot_holds (replicate 56 0) (Some mb)"
  then have "replicate 56 0 = metablock_image mb" unfolding slot_holds_def by simp
  then have "take 8 (replicate 56 0) = take 8 (metablock_image mb)" by (rule arg_cong)
  moreover have "take 8 (metablock_image mb) = u64_bytes (mb_transaction_id mb)"
    by (simp add: metablock_image_def metablock_bytes_def)
  ultimately have "bytes_u64 (u64_bytes (mb_transaction_id mb)) = bytes_u64 (take 8 (replicate 56 0))"
    by (simp only:)
  moreover have "le_val (replicate n 0) = 0" for n by (induction n) simp_all
  ultimately have "bytes_u64 (u64_bytes (mb_transaction_id mb)) = 0" by (simp only: bytes_u64_def take_replicate, simp)
  then show ?thesis by (simp only: bytes_word_inverse)
qed

section \<open>Reading a file with two slots\<close>

text \<open>Which of two meta blocks a reader takes, and the index page it may reuse.\<close>

lemma select_two:
  "select_metablock (live [Some a, Some b]) =
     (if mb_transaction_id b < mb_transaction_id a
      then Inr (a, Some \<lparr>pr_offset = mb_head_index_page_offset b, pr_size = mb_head_index_page_size b\<rparr>)
      else Inr (b, Some \<lparr>pr_offset = mb_head_index_page_offset a, pr_size = mb_head_index_page_size a\<rparr>))"
  "select_metablock (live [Some a, None]) = Inr (a, None)"
  "select_metablock (live [None, Some b]) = Inr (b, None)"
  "select_metablock (live [None, None]) = Inl RuntimeError"
  by (simp_all add: select_metablock_def)

lemma readHeader_head:
  assumes "slot_holds b0 m0" and "slot_holds b1 m1"
    and cols: "\<forall>c \<in> set cols. v2_config_ok c" "length cols < 2 ^ 64"
    and f: "content = v2_head b0 b1 (v2_tail cols pad) @ body"
  shows "\<exists>s'. readHeader col0 hdr (FileIS (FileInputStream_fromFileDescriptor content)) =
    res_bind (select_metablock (live [m0, m1])) (\<lambda>m.
      Inr ((V0_2_0, hdr\<lparr>fh_columns := fh_columns hdr @ map (v2_config col0) cols\<rparr>, Some m), s'))"
proof (rule readHeader_v2)
  show "is_reads readMetaBlock b0 m0" "is_reads readMetaBlock b1 m1"
    by (rule slot_reads, rule assms)+
  show "length (replicate 128 (0 :: byte)) = 128" by simp
  show "is_rest (FileIS (FileInputStream_fromFileDescriptor content)) =
      kMagicBytes @ u16_bytes 2 @ u64_bytes 0 @ b0 @ b1 @ replicate 128 0 @ v2_columns_bytes cols @ (pad @ body)"
    by (simp only: v1_file_is_rest f v2_head_def v2_tail_def append_assoc)
qed (use cols v1_file_is_rest in simp_all)

section \<open>Writing a transaction\<close>

definition txid_slot :: "MetaBlock \<Rightarrow> nat" where
  "txid_slot mb = unat (mb_transaction_id mb) mod 2"

lemma writeTransaction_head:
  assumes pm: "pm_version pm = V0_2_0" "pm_meta_block_position pm = kMetaBlockPosition"
      "pm_meta_block_size pm = kMetaBlockSize"
    and b: "length b0 = 56" "length b1 = 56" and f: "pm_file pm = v2_head b0 b1 tail @ body"
  shows "pm_writeTransaction mb pm = Inr (pm\<lparr>pm_file :=
    (if txid_slot mb = 0 then v2_head (metablock_image mb) b1 tail
     else v2_head b0 (metablock_image mb) tail) @ body\<rparr>)"
proof -
  let ?img = "metablock_image mb"
  have "?img \<noteq> []" by (metis length_metablock(2) list.size(3) zero_neq_numeral)
  then have p0: "pwrite 14 ?img (v2_head b0 b1 tail @ body) = v2_head ?img b1 tail @ body"
    and p1: "pwrite 70 ?img (v2_head b0 b1 tail @ body) = v2_head b0 ?img tail @ body"
    using b by (simp_all add: pwrite_def v2_head_def)
  have "unat (mb_transaction_id mb mod 2) = txid_slot mb" by (simp add: txid_slot_def unat_mod_distrib)
  moreover have "txid_slot mb = 0 \<or> txid_slot mb = 1" by (auto simp: txid_slot_def)
  ultimately show ?thesis
    using p0 p1 pm by (auto simp: pm_writeTransaction_def writeMetaBlock_image f kMetaBlockPosition_def kMetaBlockSize_def)
qed

text \<open>A transaction newer than the one in the other slot is what every later reader sees.\<close>

lemma transaction_published:
  assumes pm: "pm_version pm = V0_2_0" "pm_meta_block_position pm = kMetaBlockPosition"
      "pm_meta_block_size pm = kMetaBlockSize"
    and f: "pm_file pm = v2_head b0 b1 (v2_tail cols pad) @ body"
    and slots: "slot_holds b0 m0" "slot_holds b1 m1"
    and newer: "\<And>other. (if txid_slot mb = 0 then m1 else m0) = Some other \<Longrightarrow>
      mb_transaction_id other < mb_transaction_id mb"
    and cols: "\<forall>c \<in> set cols. v2_config_ok c" "length cols < 2 ^ 64"
  shows "\<exists>pm' free s'. pm_writeTransaction mb pm = Inr pm' \<and> pm_offset pm' = pm_offset pm \<and>
    drop (length (v2_head b0 b1 (v2_tail cols pad))) (pm_file pm') = body \<and>
    readHeader col0 hdr (FileIS (FileInputStream_fromFileDescriptor (pm_file pm'))) =
      Inr ((V0_2_0, hdr\<lparr>fh_columns := fh_columns hdr @ map (v2_config col0) cols\<rparr>, Some (mb, free)), s')"
proof -
  let ?img = "metablock_image mb" and ?t = "v2_tail cols pad"
  have b: "length b0 = 56" "length b1 = 56" using slots by (simp_all add: slot_holds_def)
  have img: "slot_holds ?img (Some mb)" by (simp add: slot_holds_def)
  note wt = writeTransaction_head [OF pm b f, of mb]
  show ?thesis
  proof (cases "txid_slot mb = 0")
    case True
    from readHeader_head [OF img slots(2) cols, of "v2_head ?img b1 ?t @ body" pad body col0 hdr] obtain s' where
      "readHeader col0 hdr (FileIS (FileInputStream_fromFileDescriptor (v2_head ?img b1 ?t @ body))) =
        res_bind (select_metablock (live [Some mb, m1])) (\<lambda>m.
          Inr ((V0_2_0, hdr\<lparr>fh_columns := fh_columns hdr @ map (v2_config col0) cols\<rparr>, Some m), s'))" by blast
    moreover have "\<exists>free. select_metablock (live [Some mb, m1]) = Inr (mb, free)"
      using newer True by (cases m1) (simp_all only: select_two, auto)
    ultimately show ?thesis using wt True b by (auto simp: length_v2_head)
  next
    case False
    from readHeader_head [OF slots(1) img cols, of "v2_head b0 ?img ?t @ body" pad body col0 hdr] obtain s' where
      "readHeader col0 hdr (FileIS (FileInputStream_fromFileDescriptor (v2_head b0 ?img ?t @ body))) =
        res_bind (select_metablock (live [m0, Some mb])) (\<lambda>m.
          Inr ((V0_2_0, hdr\<lparr>fh_columns := fh_columns hdr @ map (v2_config col0) cols\<rparr>, Some m), s'))" by blast
    moreover have "\<exists>free. select_metablock (live [m0, Some mb]) = Inr (mb, free)"
      using newer False by (cases m0) (simp_all only: select_two, auto)
    ultimately show ?thesis using wt False b by (auto simp: length_v2_head)
  qed
qed

text \<open>
  Atomicity: whatever a crash leaves in the slot that was being written, a reader gets the
  other slot's meta block, as long as the checksum does not hold.
\<close>

lemma torn_transaction:
  assumes torn: "length torn = 56" "SHA1_compute (take 36 torn) \<noteq> drop 36 torn"
    and cols: "\<forall>c \<in> set cols. v2_config_ok c" "length cols < 2 ^ 64"
    and f: "content = v2_head torn (metablock_image mb) (v2_tail cols pad) @ body \<or>
            content = v2_head (metablock_image mb) torn (v2_tail cols pad) @ body"
  shows "\<exists>s'. readHeader col0 hdr (FileIS (FileInputStream_fromFileDescriptor content)) =
    Inr ((V0_2_0, hdr\<lparr>fh_columns := fh_columns hdr @ map (v2_config col0) cols\<rparr>, Some (mb, None)), s')"
proof -
  have t: "slot_holds torn None" and m: "slot_holds (metablock_image mb) (Some mb)"
    using torn by (simp_all add: slot_holds_def)
  from f show ?thesis
  proof
    assume "content = v2_head torn (metablock_image mb) (v2_tail cols pad) @ body"
    from readHeader_head [OF t m cols this, of col0 hdr] show ?thesis by (simp add: select_metablock_def)
  next
    assume "content = v2_head (metablock_image mb) torn (v2_tail cols pad) @ body"
    from readHeader_head [OF m t cols this, of col0 hdr] show ?thesis by (simp add: select_metablock_def)
  qed
qed

end
