(* ===== verification/CS_SessionV2.thy ===== *)
theory CS_SessionV2
  imports CS_TableV2
begin

text \<open>
  A whole session with a table of the second format: creation, any number of cells, one commit.
  The state of the session is related to the cells written so far; the last lemma says what the
  committed file holds and what a reader that opens it sees.
\<close>

section \<open>Opening the columns\<close>

definition fresh_writer :: page_writer where
  "fresh_writer = \<lparr>pw_has_page = False, pw_page = \<lparr>pr_offset = 0, pr_size = 0\<rparr>, pw_page_buf = [], pw_pages = []\<rparr>"

definition optional_page :: "nat option \<Rightarrow> nat list" where
  "optional_page w = (case w of None \<Rightarrow> [] | Some i \<Rightarrow> [i])"

definition column_pages :: "v2_column \<Rightarrow> nat list" where
  "column_pages vc = optional_page (vc_rlevel_writer vc) @ optional_page (vc_dlevel_writer vc) @ [vc_data_writer vc]"

text \<open>The store of page writers while columns are being opened: \<open>n\<close> of them, all unused.\<close>

definition fresh_store :: "page_manager \<Rightarrow> nat \<Rightarrow> nat \<Rightarrow> v2_state \<Rightarrow> bool" where
  "fresh_store pm n entries st \<longleftrightarrow> vs_pm st = pm \<and> vs_writers st = replicate n fresh_writer \<and>
     snd ` set (vs_index st) = {..<n} \<and> length (vs_index st) \<le> entries"

lemma UInt64PageWriter_fresh:
  assumes "fresh_store pm n entries st"
  shows "fst (UInt64PageWriter key st) = n" "fresh_store pm (Suc n) (entries + 1) (snd (UInt64PageWriter key st))"
proof -
  have "vs_writers (snd (UInt64PageWriter key st)) = replicate (Suc n) fresh_writer"
    using assms by (simp add: fresh_store_def UInt64PageWriter_def PageIndex_addPageWriter_def Let_def
        replicate_append_same flip: fresh_writer_def)
  then show "fst (UInt64PageWriter key st) = n" "fresh_store pm (Suc n) (entries + 1) (snd (UInt64PageWriter key st))"
    using assms by (auto simp: fresh_store_def UInt64PageWriter_def PageIndex_addPageWriter_def Let_def lessThan_Suc)
qed

lemma addPageWriter_fresh:
  "fresh_store pm n entries st \<Longrightarrow> w < n \<Longrightarrow> fresh_store pm n (entries + 1) (PageIndex_addPageWriter key w st)"
  by (auto simp: fresh_store_def PageIndex_addPageWriter_def)

lemma level_writer_fresh:
  assumes "fresh_store pm n entries st"
  shows "\<exists>w st' n'. level_writer m key st = (w, st') \<and> fresh_store pm n' (entries + 2) st' \<and> n \<le> n' \<and>
    optional_page w = [n..<n'] \<and> (w = None \<longleftrightarrow> m = 0)"
proof (cases "m = 0")
  case True
  with assms show ?thesis by (auto simp: level_writer_def optional_page_def fresh_store_def)
next
  case False
  let ?st = "snd (UInt64PageWriter key st)"
  have "fresh_store pm (Suc n) (entries + 1) ?st" "fst (UInt64PageWriter key st) = n"
    by (rule UInt64PageWriter_fresh [OF assms])+
  moreover from addPageWriter_fresh [OF this(1), of n key]
  have "fresh_store pm (Suc n) (entries + 2) (PageIndex_addPageWriter key n ?st)" by simp
  moreover have "0 < m" using False by (simp add: word_neq_0_conv)
  ultimately show ?thesis
    by (intro exI [of _ "Some n"] exI [of _ "PageIndex_addPageWriter key n ?st"] exI [of _ "Suc n"])
      (auto simp: level_writer_def optional_page_def split_def)
qed

definition v2_column_ok :: "ColumnConfig \<Rightarrow> bool" where
  "v2_column_ok c \<longleftrightarrow> cc_logical_type c = UNSIGNED_INT \<and> cc_storage_type c = UINT64_PLAIN \<and> v2_config_ok c"

lemma openColumnV2_fresh:
  assumes st: "fresh_store pm n entries st" and c: "v2_column_ok c"
  shows "\<exists>vc st' n'. openColumnV2_writer c st = Inr (vc, st') \<and> fresh_store pm n' (entries + 5) st' \<and>
    column_pages vc = [n..<n'] \<and> n \<le> n' \<and> vc_config vc = c"
proof -
  from level_writer_fresh [OF st] obtain r st1 n1 where 1:
    "level_writer (cc_rlevel_max c) \<lparr>pk_column_id = cc_column_id c, pk_entry_type = RLEVEL\<rparr> st = (r, st1)"
    "fresh_store pm n1 (entries + 2) st1" "n \<le> n1" "optional_page r = [n..<n1]" by metis
  from level_writer_fresh [OF 1(2)] obtain d st2 n2 where 2:
    "level_writer (cc_dlevel_max c) \<lparr>pk_column_id = cc_column_id c, pk_entry_type = DLEVEL\<rparr> st1 = (d, st2)"
    "fresh_store pm n2 (entries + 2 + 2) st2" "n1 \<le> n2" "optional_page d = [n1..<n2]" by metis
  let ?key = "\<lparr>pk_column_id = cc_column_id c, pk_entry_type = DATA\<rparr>"
  obtain st3 where 3: "UInt64PageWriter ?key st2 = (n2, st3)" "fresh_store pm (Suc n2) (entries + 5) st3"
    using UInt64PageWriter_fresh [OF 2(2), of ?key] by (cases "UInt64PageWriter ?key st2") (auto simp: numeral_eq_Suc)
  let ?vc = "\<lparr>vc_config = c, vc_rlevel_writer = r, vc_dlevel_writer = d, vc_data_writer = n2\<rparr>"
  have open_eq: "openColumnV2_writer c st = Inr (?vc, st3)"
    using c 1(1) 2(1) 3(1) by (simp add: openColumnV2_writer_def v2_column_ok_def UnsignedIntColumnWriter_def
        DefaultColumnWriter_def)
  have "[n1..<n2] @ [n2] = [n1..<Suc n2]" using 2(3) by simp
  moreover have "[n..<n1] @ [n1..<Suc n2] = [n..<Suc n2]"
    using upt_add_eq_append [OF 1(3), of "Suc n2 - n1"] 2(3) by simp
  ultimately have "column_pages ?vc = [n..<Suc n2]" by (simp only: column_pages_def 1(4) 2(4) v2_column.simps)
  moreover have "n \<le> Suc n2" using 1(3) 2(3) by simp
  moreover have "vc_config ?vc = c" by simp
  ultimately show ?thesis using open_eq 3(2) by blast
qed

lemma open_columns_v2_fresh:
  assumes "fresh_store pm n entries st" and "\<forall>c \<in> set cs. v2_column_ok c"
  shows "\<exists>vcs st' n'. open_columns_v2 cs st = Inr (vcs, st') \<and>
    fresh_store pm n' (entries + 5 * length cs) st' \<and> concat (map column_pages vcs) = [n..<n'] \<and> n \<le> n' \<and>
    map vc_config vcs = cs"
  using assms
proof (induction cs arbitrary: st n entries)
  case Nil
  then show ?case by auto
next
  case (Cons c cs)
  have "v2_column_ok c" using Cons.prems(2) by simp
  from openColumnV2_fresh [OF Cons.prems(1) this] obtain vc st1 n1 where 1:
    "openColumnV2_writer c st = Inr (vc, st1)" "fresh_store pm n1 (entries + 5) st1"
    "column_pages vc = [n..<n1]" "n \<le> n1" "vc_config vc = c" by blast
  from Cons.IH [OF 1(2)] Cons.prems(2) obtain vcs st2 n2 where 2:
    "open_columns_v2 cs st1 = Inr (vcs, st2)" "fresh_store pm n2 (entries + 5 + 5 * length cs) st2"
    "concat (map column_pages vcs) = [n1..<n2]" "n1 \<le> n2" "map vc_config vcs = cs" by auto
  have "[n..<n1] @ [n1..<n2] = [n..<n2]" using upt_add_eq_append [OF 1(4), of "n2 - n1"] 2(4) by simp
  moreover have "entries + 5 + 5 * length cs = entries + 5 * length (c # cs)" by simp
  ultimately show ?case using 1 2 by (intro exI [of _ "vc # vcs"] exI [of _ st2] exI [of _ n2]) (simp add: ac_simps)
qed

section \<open>Writing cells\<close>

definition v2_write_cell :: "v2_column \<Rightarrow> u64 cell \<Rightarrow> v2_state \<Rightarrow> v2_state" where
  "v2_write_cell vc cell st =
     (case cell of
        (r, d, Some v) \<Rightarrow> UnsignedIntColumnWriter_writeUnsignedInt vc r d v st
      | (r, d, None) \<Rightarrow> DefaultColumnWriter_writeNull vc r d st)"

definition append_to :: "'a list list \<Rightarrow> nat option \<Rightarrow> 'a \<Rightarrow> 'a list list" where
  "append_to vss w v = (case w of None \<Rightarrow> vss | Some i \<Rightarrow> vss[i := vss ! i @ [v]])"

lemma length_append_to [simp]: "length (append_to vss w v) = length vss"
  by (simp add: append_to_def split: option.splits)

lemma nth_append_to:
  "j < length vss \<Longrightarrow> append_to vss w v ! j = (if w = Some j then vss ! j @ [v] else vss ! j)"
  by (auto simp: append_to_def split: option.splits)

lemma vs_ok_mono: "vs_ok hdr k st \<Longrightarrow> j \<le> k \<Longrightarrow> vs_ok hdr j st"
  by (auto simp: vs_ok_def)

lemma append_level_ok:
  assumes ok: "vs_ok hdr (k + 1024) st" and w: "\<forall>i \<in> set (optional_page w). i < length (vs_writers st)"
    and vals: "vs_values st vss"
  shows "vs_ok hdr k (append_level w v st)" "vs_values (append_level w v st) (append_to vss w v)"
    "vs_index (append_level w v st) = vs_index st"
    "length (vs_writers (append_level w v st)) = length (vs_writers st)"
proof -
  have "vs_ok hdr k (append_level w v st) \<and> vs_values (append_level w v st) (append_to vss w v) \<and>
    vs_index (append_level w v st) = vs_index st \<and>
    length (vs_writers (append_level w v st)) = length (vs_writers st)"
  proof (cases w)
    case None
    then show ?thesis using vs_ok_mono [OF ok] vals by (simp add: append_level_def append_to_def)
  next
    case (Some i)
    then have "i < length (vs_writers st)" using w by (simp add: optional_page_def)
    from appendValue_ok [OF ok this vals] Some show ?thesis by (simp add: append_level_def append_to_def)
  qed
  then show "vs_ok hdr k (append_level w v st)" "vs_values (append_level w v st) (append_to vss w v)"
    "vs_index (append_level w v st) = vs_index st"
    "length (vs_writers (append_level w v st)) = length (vs_writers st)" by blast+
qed

lemma append_data_level: "UInt64PageWriter_appendValue w v st = append_level (Some w) v st"
  by (simp add: append_level_def)

text \<open>What the page writers of a column were given.\<close>

definition column_holds :: "u64 list list \<Rightarrow> v2_column \<Rightarrow> u64 cell list \<Rightarrow> bool" where
  "column_holds vss vc cs \<longleftrightarrow> vss ! vc_data_writer vc = cell_values cs \<and>
     (\<forall>w. vc_rlevel_writer vc = Some w \<longrightarrow> vss ! w = map (\<lambda>(r, d, v). r) cs) \<and>
     (\<forall>w. vc_dlevel_writer vc = Some w \<longrightarrow> vss ! w = map (\<lambda>(r, d, v). d) cs)"

lemma in_optional_page [simp]: "i \<in> set (optional_page w) \<longleftrightarrow> w = Some i" "distinct (optional_page w)"
  by (auto simp: optional_page_def split: option.splits)

lemma v2_write_cell_ok:
  assumes ok: "vs_ok hdr (k + 3 * 1024) st" and vals: "vs_values st vss"
    and pages: "\<forall>i \<in> set (column_pages vc). i < length (vs_writers st)" "distinct (column_pages vc)"
  shows "\<exists>vss'. vs_ok hdr k (v2_write_cell vc cell st) \<and> vs_values (v2_write_cell vc cell st) vss' \<and>
    vs_index (v2_write_cell vc cell st) = vs_index st \<and>
    length (vs_writers (v2_write_cell vc cell st)) = length (vs_writers st) \<and>
    (\<forall>j < length vss. length (vss' ! j) \<le> Suc (length (vss ! j)) \<and>
       (j \<notin> set (column_pages vc) \<longrightarrow> vss' ! j = vss ! j)) \<and>
    (column_holds vss vc cs \<longrightarrow> column_holds vss' vc (cs @ [cell]))"
proof -
  obtain r d v where cell: "cell = (r, d, v)" by (cases cell) auto
  let ?r = "vc_rlevel_writer vc" and ?d = "vc_dlevel_writer vc" and ?x = "map_option (\<lambda>_. vc_data_writer vc) v"
  let ?st1 = "append_level ?r r st" and ?v1 = "append_to vss ?r r"
  let ?st2 = "append_level ?d d ?st1" and ?v2 = "append_to ?v1 ?d d"
  let ?st3 = "append_level ?x (case v of None \<Rightarrow> 0 | Some x \<Rightarrow> x) ?st2"
  let ?v3 = "append_to ?v2 ?x (case v of None \<Rightarrow> 0 | Some x \<Rightarrow> x)"
  have st3: "v2_write_cell vc cell st = ?st3"
    by (simp add: v2_write_cell_def cell DefaultColumnWriter_writeNull_def
        UnsignedIntColumnWriter_writeUnsignedInt_def append_level_def split: option.splits)
  have len: "length vss = length (vs_writers st)" using vals by (simp add: vs_values_def list_all2_lengthD)
  have ok1: "vs_ok hdr ((k + 1024 + 1024) + 1024) st" using ok by (simp add: algebra_simps)
  have p: "\<forall>i \<in> set (optional_page ?r). i < length (vs_writers st)"
      "\<forall>i \<in> set (optional_page ?d). i < length (vs_writers st)" "\<forall>i \<in> set (optional_page ?x). i < length (vs_writers st)"
    using pages(1) by (auto simp: column_pages_def)
  note 1 = append_level_ok [OF ok1 p(1) vals, of r]
  have p2: "\<forall>i \<in> set (optional_page ?d). i < length (vs_writers ?st1)" using p(2) 1(4) by simp
  note 2 = append_level_ok [OF 1(1) p2 1(2), of d]
  have p3: "\<forall>i \<in> set (optional_page ?x). i < length (vs_writers ?st2)" using p(3) 1(4) 2(4) by simp
  note 3 = append_level_ok [OF 2(1) p3 2(2), of "case v of None \<Rightarrow> 0 | Some x \<Rightarrow> x"]
  have nth: "?v3 ! j = ((vss ! j @ (if ?r = Some j then [r] else [])) @ (if ?d = Some j then [d] else [])) @
      (if ?x = Some j then [case v of None \<Rightarrow> 0 | Some x \<Rightarrow> x] else [])" if "j < length vss" for j
    using that by (simp add: nth_append_to)
  have apart: "?r \<noteq> None \<and> ?r = ?d \<longrightarrow> False" "?r \<noteq> Some (vc_data_writer vc)" "?d \<noteq> Some (vc_data_writer vc)"
    using pages(2) by (cases ?r; cases ?d; auto simp: column_pages_def optional_page_def)+
  have range: "vc_data_writer vc < length vss" "\<And>w. ?r = Some w \<Longrightarrow> w < length vss" "\<And>w. ?d = Some w \<Longrightarrow> w < length vss"
    using pages(1) len by (auto simp: column_pages_def)
  have bound: "length (?v3 ! j) \<le> Suc (length (vss ! j))" if "j < length vss" for j
    using apart unfolding nth [OF that] by auto
  have other: "?v3 ! j = vss ! j" if "j < length vss" "j \<notin> set (column_pages vc)" for j
    using that(2) unfolding nth [OF that(1)] by (auto simp: column_pages_def)
  have holds: "column_holds ?v3 vc (cs @ [cell])" if "column_holds vss vc cs"
    unfolding column_holds_def
  proof (intro conjI allI impI)
    show "?v3 ! vc_data_writer vc = cell_values (cs @ [cell])"
      using that apart unfolding nth [OF range(1)] column_holds_def cell by (cases v) simp_all
    fix w
    show "?v3 ! w = map (\<lambda>(r, d, v). r) (cs @ [cell])" if w: "?r = Some w"
      using w apart \<open>column_holds vss vc cs\<close> unfolding nth [OF range(2) [OF w]] column_holds_def cell by auto
    show "?v3 ! w = map (\<lambda>(r, d, v). d) (cs @ [cell])" if w: "?d = Some w"
      using w apart \<open>column_holds vss vc cs\<close> unfolding nth [OF range(3) [OF w]] column_holds_def cell by auto
  qed
  show ?thesis
    unfolding st3 using 1 2 3 bound other holds by (intro exI [of _ ?v3]) simp
qed

section \<open>The session\<close>

text \<open>A client looks a column up by name and writes a cell to it.\<close>

definition tw_put2 :: "bytes \<times> u64 cell \<Rightarrow> table_writer \<Rightarrow> table_writer res" where
  "tw_put2 op tw =
     (case op of (name, cell) \<Rightarrow>
        res_bind (CSTableWriter_getColumnWriter tw name) (\<lambda>i.
          Inr (tw\<lparr>tw_state := v2_write_cell (tw_v2_writers tw ! i) cell (tw_state tw)\<rparr>)))"

definition v2_session :: "ColumnConfig list \<Rightarrow> nat \<Rightarrow> table_writer \<Rightarrow> (bytes \<times> u64 cell) list \<Rightarrow> bool" where
  "v2_session cols k tw ops \<longleftrightarrow>
     tw_version tw = V0_2_0 \<and> tw_columns tw = cols \<and> tw_num_rows tw = 0 \<and> tw_current_txid tw = 0 \<and>
     tw_free_idx_ptr tw = None \<and> length (tw_v2_writers tw) = length cols \<and>
     vs_ok (v2_header_image cols) k (tw_state tw) \<and> length (vs_index (tw_state tw)) \<le> 5 * length cols \<and>
     distinct (concat (map column_pages (tw_v2_writers tw))) \<and>
     set (concat (map column_pages (tw_v2_writers tw))) = {..<length (vs_writers (tw_state tw))} \<and>
     snd ` set (vs_index (tw_state tw)) = {..<length (vs_writers (tw_state tw))} \<and>
     (\<exists>vss. vs_values (tw_state tw) vss \<and> (\<forall>j < length vss. length (vss ! j) \<le> length ops) \<and>
        (\<forall>i < length cols. column_holds vss (tw_v2_writers tw ! i) (cells_of (cc_column_name (cols ! i)) ops)))"

definition v2_table_ok :: "ColumnConfig list \<Rightarrow> bool" where
  "v2_table_ok cols \<longleftrightarrow> cols \<noteq> [] \<and> (\<forall>c \<in> set cols. v2_column_ok c) \<and> distinct (map cc_column_name cols)"

lemma fresh_values: "fresh_store pm n entries st \<Longrightarrow> vs_values st (replicate n [])"
  by (simp add: fresh_store_def vs_values_def list_all2_conv_all_nth pw_values_def fresh_writer_def)

lemma createFile_v2:
  assumes flat: "TableSchema_flatColumns junk (TableSchema_copy order schema) = Inr cols"
    and ok: "v2_table_ok cols" and size: "length (v2_header_image cols) + k \<le> 2 ^ 63"
  shows "\<exists>tw. CSTableWriter_createFile order junk None V0_2_0 schema = Inr tw \<and> v2_session cols k tw []"
proof -
  let ?img = "v2_header_image cols"
  have body: "length (v2_header_body cols) \<le> length ?img" by (simp add: v2_header_image_def)
  have hdr: "v2_writeHeader \<lparr>fh_columns = cols, fh_num_rows = 0\<rparr> [] = Inr (length ?img, ?img)"
    using v2_writeHeader_image [of "\<lparr>fh_columns = cols, fh_num_rows = 0\<rparr>" "[]"] body size by simp
  let ?pm = "PageManager V0_2_0 ?img (word_of_nat (length ?img))"
  let ?st = "\<lparr>vs_pm = ?pm, vs_writers = [], vs_index = []\<rparr>"
  have st: "fresh_store ?pm 0 0 ?st" by (simp add: fresh_store_def)
  have "\<forall>c \<in> set cols. v2_column_ok c" using ok by (simp add: v2_table_ok_def)
  from open_columns_v2_fresh [OF st this] obtain vcs st' n where o: "open_columns_v2 cols ?st = Inr (vcs, st')"
    "fresh_store ?pm n (5 * length cols) st'" "concat (map column_pages vcs) = [0..<n]" "map vc_config vcs = cols"
    by auto
  let ?tw = "\<lparr>tw_version = V0_2_0, tw_schema = TableSchema_copy order schema, tw_state = st', tw_columns = cols,
    tw_v1_writers = [], tw_v2_writers = vcs, tw_current_txid = 0, tw_num_rows = 0, tw_cur_idx_ptr = None,
    tw_free_idx_ptr = None\<rparr>"
  have tw: "CSTableWriter_createFile order junk None V0_2_0 schema = Inr ?tw"
    by (simp add: CSTableWriter_createFile_def flat hdr CSTableWriter_def o(1) Let_def)
  have writers: "vs_pm st' = ?pm" "vs_writers st' = replicate n fresh_writer" "snd ` set (vs_index st') = {..<n}"
    "length (vs_index st') \<le> 5 * length cols" using o(2) by (simp_all add: fresh_store_def)
  have off: "unat (word_of_nat (length ?img) :: u64) = length ?img" using size by (simp add: unat_of_nat)
  have lens: "length vcs = length cols" using o(4) by (metis length_map)
  have "w < n" if "(key, w) \<in> set (vs_index st')" for key w
  proof -
    from that have "w \<in> snd ` set (vs_index st')" by force
    then show ?thesis unfolding writers(3) by simp
  qed
  then have "\<forall>(key, w) \<in> set (vs_index st'). w < n" by blast
  then have "vs_ok ?img k st'"
    using size writers off by (auto simp: vs_ok_def PageManager_def region_def pages_ok_def page_ok_def pages_apart_def
        fresh_writer_def)
  moreover have "column_holds (replicate n []) (vcs ! i) []" if "i < length cols" for i
  proof -
    have "w < n" if "w \<in> set (column_pages (vcs ! i))" for w
    proof -
      from that \<open>i < length cols\<close> lens have "w \<in> set (concat (map column_pages vcs))" by auto
      then show ?thesis unfolding o(3) by simp
    qed
    then show ?thesis by (auto simp: column_holds_def column_pages_def)
  qed
  ultimately have "v2_session cols k ?tw []"
    unfolding v2_session_def using writers lens o(3) fresh_values [OF o(2)]
    by (auto intro!: exI [of _ "replicate n []"] simp: atLeast0LessThan)
  with tw show ?thesis by blast
qed

text \<open>
  Only the plain encoding is opened: an unsigned column of any other encoding, \<open>UINT64_LEB128\<close> of
  \<open>addUnsignedInteger\<close> by default among them, makes the creation of the file raise.
\<close>

lemma open_unsigned_plain:
  assumes "cc_logical_type c = UNSIGNED_INT"
  shows "cc_storage_type c = UINT64_PLAIN \<Longrightarrow> \<exists>x. openColumnV2_writer c st = Inr x"
    and "cc_storage_type c \<noteq> UINT64_PLAIN \<Longrightarrow> openColumnV2_writer c st = Inl IllegalArgumentError"
  using assms by (simp_all add: openColumnV2_writer_def UnsignedIntColumnWriter_def Let_def split_def)

lemma open_columns_v2_refused:
  assumes "\<forall>c \<in> set good. cc_logical_type c = UNSIGNED_INT \<and> cc_storage_type c = UINT64_PLAIN"
    and "cc_logical_type c = UNSIGNED_INT" and "cc_storage_type c \<noteq> UINT64_PLAIN"
  shows "open_columns_v2 (good @ c # rest) st = Inl IllegalArgumentError"
  using assms(1)
proof (induction good arbitrary: st)
  case Nil
  show ?case by (simp add: open_unsigned_plain(2) [OF assms(2,3)])
next
  case (Cons g good)
  then obtain w st' where "openColumnV2_writer g st = Inr (w, st')" using open_unsigned_plain(1) [of g st] by auto
  with Cons show ?case by simp
qed

lemma createFile_v2_refused:
  assumes flat: "TableSchema_flatColumns junk (TableSchema_copy order schema) = Inr (good @ c # rest)"
    and "\<forall>c \<in> set good. cc_logical_type c = UNSIGNED_INT \<and> cc_storage_type c = UINT64_PLAIN"
    and "cc_logical_type c = UNSIGNED_INT" and "cc_storage_type c \<noteq> UINT64_PLAIN"
    and size: "length (v2_header_image (good @ c # rest)) \<le> 2 ^ 63"
  shows "CSTableWriter_createFile order junk None V0_2_0 schema = Inl IllegalArgumentError"
proof -
  let ?cols = "good @ c # rest"
  let ?img = "v2_header_image ?cols"
  have body: "length (v2_header_body ?cols) \<le> length ?img" by (simp add: v2_header_image_def)
  have "v2_writeHeader \<lparr>fh_columns = ?cols, fh_num_rows = 0\<rparr> [] = Inr (length ?img, ?img)"
    using v2_writeHeader_image [of "\<lparr>fh_columns = ?cols, fh_num_rows = 0\<rparr>" "[]"] body size by simp
  then show ?thesis
    by (simp add: CSTableWriter_createFile_def flat CSTableWriter_def open_columns_v2_refused [OF assms(2-4)] Let_def)
qed

lemma in_column_pages:
  assumes "i < length vcs" and "w \<in> set (column_pages (vcs ! i))"
  shows "w \<in> set (concat (map column_pages vcs))"
  using assms by auto

lemma column_pages_disjoint:
  "distinct (concat (map column_pages vcs)) \<Longrightarrow> i < length vcs \<Longrightarrow> j < length vcs \<Longrightarrow> i \<noteq> j \<Longrightarrow>
   w \<in> set (column_pages (vcs ! i)) \<Longrightarrow> w \<notin> set (column_pages (vcs ! j))"
proof (induction vcs arbitrary: i j)
  case (Cons vc vcs)
  have sep: "x \<notin> set (column_pages (vcs ! m))" if "x \<in> set (column_pages vc)" "m < length vcs" for x m
    using Cons.prems(1) that in_column_pages [OF that(2)] by auto
  show ?case
  proof (cases i)
    case 0
    with Cons.prems sep [of w] show ?thesis by (cases j) auto
  next
    case (Suc i')
    show ?thesis
    proof (cases j)
      case 0
      with Suc Cons.prems sep [of w i'] show ?thesis by auto
    next
      case (Suc j')
      with \<open>i = Suc i'\<close> Cons.prems Cons.IH [of i' j'] show ?thesis by simp
    qed
  qed
qed simp

lemma distinct_column_pages:
  "distinct (concat (map column_pages vcs)) \<Longrightarrow> i < length vcs \<Longrightarrow> distinct (column_pages (vcs ! i))"
  by (auto simp: distinct_concat_iff)

lemma tw_put2_session:
  assumes ok: "v2_table_ok cols" and s: "v2_session cols (k + 3 * 1024) tw ops"
    and op: "fst op \<in> cc_column_name ` set cols"
  shows "\<exists>tw'. tw_put2 op tw = Inr tw' \<and> v2_session cols k tw' (ops @ [op])"
proof -
  obtain name cell where o: "op = (name, cell)" by (cases op)
  let ?vcs = "tw_v2_writers tw" and ?st = "tw_state tw"
  from op first_named_ok [of name cols] obtain i where i: "i < length cols" "first_named name cols = Some i"
    "cc_column_name (cols ! i) = name" by (auto simp: o)
  from s obtain vss where vss: "vs_values ?st vss" "\<forall>j < length vss. length (vss ! j) \<le> length ops"
    "\<forall>i < length cols. column_holds vss (?vcs ! i) (cells_of (cc_column_name (cols ! i)) ops)"
    unfolding v2_session_def by blast
  from s have lens: "length ?vcs = length cols" and vs: "vs_ok (v2_header_image cols) (k + 3 * 1024) ?st"
    and dist: "distinct (concat (map column_pages ?vcs))" and cols: "tw_columns tw = cols"
    and range: "set (concat (map column_pages ?vcs)) = {..<length (vs_writers ?st)}"
    by (simp_all only: v2_session_def)
  have lv: "length vss = length (vs_writers ?st)" using vss(1) by (simp add: vs_values_def list_all2_lengthD)
  have pages: "\<forall>w \<in> set (column_pages (?vcs ! i)). w < length (vs_writers ?st)"
    using in_column_pages [of i ?vcs] i(1) lens range by (metis lessThan_iff)
  have "distinct (column_pages (?vcs ! i))" using distinct_column_pages [OF dist] i(1) lens by simp
  from v2_write_cell_ok [OF vs vss(1) pages this, of cell "cells_of name ops"] obtain vss' where
    1: "vs_ok (v2_header_image cols) k (v2_write_cell (?vcs ! i) cell ?st)"
    and 2: "vs_values (v2_write_cell (?vcs ! i) cell ?st) vss'"
    and 3: "vs_index (v2_write_cell (?vcs ! i) cell ?st) = vs_index ?st"
      "length (vs_writers (v2_write_cell (?vcs ! i) cell ?st)) = length (vs_writers ?st)"
    and 4: "\<And>j. j < length vss \<Longrightarrow> length (vss' ! j) \<le> Suc (length (vss ! j))"
    and 5: "\<And>j. j < length vss \<Longrightarrow> j \<notin> set (column_pages (?vcs ! i)) \<Longrightarrow> vss' ! j = vss ! j"
    and 6: "column_holds vss (?vcs ! i) (cells_of name ops) \<Longrightarrow> column_holds vss' (?vcs ! i) (cells_of name ops @ [cell])"
    by blast
  have lv': "length vss' = length vss" using 2 3(2) lv by (simp add: vs_values_def list_all2_lengthD)
  have "column_holds vss' (?vcs ! m) (cells_of (cc_column_name (cols ! m)) (ops @ [op]))" if m: "m < length cols" for m
  proof (cases "m = i")
    case True
    have "column_holds vss (?vcs ! i) (cells_of name ops)" using vss(3) i(1,3) by auto
    from 6 [OF this] True i(3) show ?thesis by (simp add: o)
  next
    case False
    have "map cc_column_name cols ! m \<noteq> map cc_column_name cols ! i"
      using ok False m i(1) by (simp only: v2_table_ok_def nth_eq_iff_index_eq length_map simp_thms)
    then have "cc_column_name (cols ! m) \<noteq> name" using m i by simp
    moreover have "vss' ! w = vss ! w" if w: "w \<in> set (column_pages (?vcs ! m))" for w
    proof (rule 5)
      show "w < length vss" using in_column_pages [OF _ w] m lens range lv by (metis lessThan_iff)
      show "w \<notin> set (column_pages (?vcs ! i))" using column_pages_disjoint [OF dist _ _ False w] m i(1) lens by simp
    qed
    moreover have "column_holds vss (?vcs ! m) (cells_of (cc_column_name (cols ! m)) ops)" using vss(3) m by blast
    ultimately show ?thesis by (simp add: o column_holds_def column_pages_def)
  qed
  moreover have "\<forall>j < length vss'. length (vss' ! j) \<le> length (ops @ [op])"
  proof (intro allI impI)
    fix j assume "j < length vss'"
    with 4 [of j] vss(2) [rule_format, of j] lv' show "length (vss' ! j) \<le> length (ops @ [op])" by simp
  qed
  ultimately have "v2_session cols k (tw\<lparr>tw_state := v2_write_cell (?vcs ! i) cell ?st\<rparr>) (ops @ [op])"
    using s 1 2 3 unfolding v2_session_def by auto
  then show ?thesis by (simp add: tw_put2_def o CSTableWriter_getColumnWriter_def cols i(2))
qed

lemma tw_puts2_session:
  assumes "v2_table_ok cols"
  shows "v2_session cols (k + 3 * 1024 * length ops') tw ops \<Longrightarrow>
    \<forall>op \<in> set ops'. fst op \<in> cc_column_name ` set cols \<Longrightarrow>
    \<exists>tw'. res_fold tw_put2 ops' tw = Inr tw' \<and> v2_session cols k tw' (ops @ ops')"
proof (induction ops' arbitrary: tw ops)
  case Nil
  then show ?case by simp
next
  case (Cons op ops')
  have "v2_session cols ((k + 3 * 1024 * length ops') + 3 * 1024) tw ops"
    using Cons.prems(1) by (simp add: algebra_simps)
  from tw_put2_session [OF assms this, of op] Cons.prems(2) obtain tw' where
    "tw_put2 op tw = Inr tw'" "v2_session cols (k + 3 * 1024 * length ops') tw' (ops @ [op])" by auto
  with Cons.IH [of tw' "ops @ [op]"] Cons.prems(2) show ?case by auto
qed

section \<open>The size of the index\<close>

lemma length_page_entry: "length (page_entry_bytes p) \<le> 30"
  using length_varuint_10 [of "pr_offset (fst p)"] length_varuint_10 [of "ucast (pr_size (fst p))"]
    length_varuint_10 [of "snd p"] by (simp add: page_entry_bytes_def)

lemma length_writeIndex:
  assumes "length (pw_pages pw) \<le> n"
  shows "length (fst (UInt64PageWriter_writeIndex pw pm)) \<le> 10 + 30 * (n + 1)"
proof -
  have "length (varuint_bytes (word_of_nat (length ps)) @ concat (map page_entry_bytes ps)) \<le> 10 + 30 * (n + 1)"
    if "length ps \<le> n + 1" for ps :: "(PageRef \<times> u64) list"
  proof -
    have "length (concat (map page_entry_bytes ps)) \<le> 30 * length ps"
      by (rule length_concat_le) (rule length_page_entry)
    also have "\<dots> \<le> 30 * (n + 1)" using that by simp
    finally show ?thesis using length_varuint_10 [of "word_of_nat (length ps)"] by simp
  qed
  moreover define ps where "ps = (if pw_has_page pw
    then pw_pages pw @ [(pw_page pw, word_of_nat (length (pw_page_buf pw)))] else pw_pages pw)"
  moreover have "fst (UInt64PageWriter_writeIndex pw pm) =
      varuint_bytes (word_of_nat (length ps)) @ concat (map page_entry_bytes ps)"
    by (simp only: UInt64PageWriter_writeIndex_def ps_def Let_def split: if_split) (simp only: split_def fst_conv, simp)
  moreover have "length ps \<le> n + 1" using assms by (simp add: ps_def)
  ultimately show ?thesis by simp
qed

lemma length_build:
  assumes "\<forall>(key, w) \<in> set ps. length (pw_pages (writers ! w)) \<le> n"
  shows "length (fst (PageIndex_build writers ps pm)) \<le> (60 + 30 * n) * length ps"
  using assms
proof (induction ps arbitrary: pm)
  case (Cons p ps)
  obtain key w where p: "p = (key, w)" by (cases p)
  let ?pm = "snd (UInt64PageWriter_writeIndex (writers ! w) pm)"
  have 1: "length (fst (UInt64PageWriter_writeIndex (writers ! w) pm)) \<le> 10 + 30 * (n + 1)"
    using Cons.prems by (intro length_writeIndex) (simp add: p)
  have 2: "length (fst (PageIndex_build writers ps ?pm)) \<le> (60 + 30 * n) * length ps"
    using Cons.prems by (intro Cons.IH) simp
  have "length (fst (PageIndex_build writers (p # ps) pm)) =
      length (varuint_bytes (ucast (entry_code (pk_entry_type key)))) + length (varuint_bytes (ucast (pk_column_id key))) +
      length (fst (UInt64PageWriter_writeIndex (writers ! w) pm)) + length (fst (PageIndex_build writers ps ?pm))"
    by (simp add: p split_def Let_def)
  also have "\<dots> \<le> 10 + 10 + (10 + 30 * (n + 1)) + (60 + 30 * n) * length ps"
    by (intro add_mono 1 2 length_varuint_10)
  finally show ?case by simp
qed simp

lemma length_index_bytes:
  assumes vals: "vs_values st vss" and n: "\<forall>j < length vss. length (vss ! j) \<le> n"
    and idx: "snd ` set (vs_index st) \<subseteq> {..<length (vs_writers st)}"
  shows "length (index_bytes st) \<le> (60 + 30 * n) * length (vs_index st)"
  unfolding index_bytes_def
proof (rule length_build, clarify)
  fix key w assume "(key, w) \<in> set (vs_index st)"
  then have "w \<in> snd ` set (vs_index st)" by force
  with idx have w: "w < length (vs_writers st)" by blast
  then have "pw_values (vs_writers st ! w) (vss ! w)" using vals by (simp add: vs_values_def list_all2_conv_all_nth)
  moreover have "length (vss ! w) \<le> n" using n w vals by (simp add: vs_values_def list_all2_lengthD)
  ultimately show "length (pw_pages (vs_writers st ! w)) \<le> n" by (simp add: pw_values_def)
qed

section \<open>Committing\<close>

text \<open>
  The first commit: the index and every data page are on disk, the meta block with transaction 1
  is in the second slot, and the header names the columns.
\<close>

definition v2_committed :: "v2_state \<Rightarrow> u64 list list \<Rightarrow> MetaBlock \<Rightarrow> bytes \<Rightarrow> bool" where
  "v2_committed st vss mb content \<longleftrightarrow>
     region (unat (mb_head_index_page_offset mb)) (length (index_page (index_bytes st))) content =
       index_page (index_bytes st) \<and>
     (\<forall>w < length vss. vss ! w \<noteq> [] \<longrightarrow> region (pw_offset (vs_writers st ! w)) 1024 content = page_image (vss ! w))"

lemma region_same_tail:
  "drop n xs = drop n ys \<Longrightarrow> n \<le> pos \<Longrightarrow> region pos m xs = region pos m ys"
  unfolding region_def by (metis drop_drop le_add_diff_inverse2)

lemma commitV2_ok:
  assumes s: "v2_session cols k tw ops" and k: "2 ^ 32 \<le> k" and cols: "v2_table_ok cols"
    and small: "5 * length cols * (60 + 30 * length ops) < 2 ^ 31" "length cols < 2 ^ 64"
  shows "\<exists>tw' mb free s' vss. CSTableWriter_commit uninit (CSTableWriter_addRows n tw) = Inr tw' \<and>
    readHeader col0 hdr (FileIS (FileInputStream_fromFileDescriptor (pm_file (vs_pm (tw_state tw'))))) =
      Inr ((V0_2_0, hdr\<lparr>fh_columns := fh_columns hdr @ map (v2_config col0) cols\<rparr>, Some (mb, free)), s') \<and>
    mb_transaction_id mb = 1 \<and> mb_num_rows mb = n \<and> vs_values (tw_state tw) vss \<and>
    v2_committed (tw_state tw) vss mb (pm_file (vs_pm (tw_state tw'))) \<and>
    (\<forall>i < length cols. column_holds vss (tw_v2_writers tw ! i) (cells_of (cc_column_name (cols ! i)) ops))"
proof -
  let ?st = "tw_state tw" and ?img = "v2_header_image cols"
  from s obtain vss where vss: "vs_values ?st vss" "\<forall>j < length vss. length (vss ! j) \<le> length ops"
    "\<forall>i < length cols. column_holds vss (tw_v2_writers tw ! i) (cells_of (cc_column_name (cols ! i)) ops)"
    unfolding v2_session_def by blast
  from s have tw: "tw_version tw = V0_2_0" "tw_current_txid tw = 0" "tw_num_rows tw = 0" "tw_free_idx_ptr tw = None"
    and vs: "vs_ok ?img k ?st" and entries: "length (vs_index ?st) \<le> 5 * length cols"
    and idx: "snd ` set (vs_index ?st) = {..<length (vs_writers ?st)}"
    and pages: "set (concat (map column_pages (tw_v2_writers tw))) = {..<length (vs_writers ?st)}"
    and lens: "length (tw_v2_writers tw) = length cols"
    by (simp_all only: v2_session_def)
  have "vs_index ?st \<noteq> []"
  proof
    assume "vs_index ?st = []"
    then have "set (concat (map column_pages (tw_v2_writers tw))) = {}" using idx pages by simp
    moreover from cols lens have "tw_v2_writers tw \<noteq> []" by (auto simp: v2_table_ok_def)
    ultimately show False by (cases "tw_v2_writers tw") (auto simp: column_pages_def)
  qed
  moreover have "length (index_bytes ?st) < 2 ^ 31"
  proof -
    have "length (index_bytes ?st) \<le> (60 + 30 * length ops) * length (vs_index ?st)"
      by (rule length_index_bytes [OF vss(1,2)]) (simp add: idx)
    also have "\<dots> \<le> (60 + 30 * length ops) * (5 * length cols)" using entries by (rule mult_le_mono2)
    finally show ?thesis using small(1) by (simp add: algebra_simps)
  qed
  ultimately obtain page st' where w: "PageIndex_write None ?st = Inr (page, st')"
    "pr_offset page = pm_offset (vs_pm ?st)"
    "region (unat (pr_offset page)) (length (index_page (index_bytes ?st))) (pm_file (vs_pm st')) = index_page (index_bytes ?st)"
    "vs_ok ?img (k - 2 ^ 32) st'"
    "\<forall>w \<in> snd ` set (vs_index ?st). pw_has_page (vs_writers ?st ! w) \<longrightarrow>
       region (pw_offset (vs_writers ?st ! w)) 1024 (pm_file (vs_pm st')) = page_bytes (vs_writers ?st ! w)"
    using PageIndex_write_ok [OF vs k] by metis
  let ?pad = "replicate (sector_padding (length (v2_header_body cols))) 0"
  let ?z = "replicate 56 0" and ?t = "v2_tail cols ?pad" and ?body = "drop (length ?img) (pm_file (vs_pm st'))"
  let ?mb = "\<lparr>mb_transaction_id = 1, mb_num_rows = n, mb_head_index_page_offset = pr_offset page,
    mb_head_index_page_size = pr_size page, mb_file_size = pm_offset (vs_pm st')\<rparr>"
  have image: "pm_file (vs_pm st') = v2_head ?z ?z ?t @ ?body"
    using w(4) by (simp only: vs_ok_def region_def drop_0 flip: v2_header_head) (metis append_take_drop_id)
  obtain m where m: "slot_holds ?z m" using slot_total [of ?z] by auto
  have newer: "mb_transaction_id other < mb_transaction_id ?mb" if "(if txid_slot ?mb = 0 then m else m) = Some other" for other
    using that m empty_slot [of other] by simp
  have "\<forall>c \<in> set cols. v2_config_ok c" using cols by (auto simp: v2_table_ok_def v2_column_ok_def)
  then obtain pm' free s' where pm': "pm_writeTransaction ?mb (vs_pm st') = Inr pm'"
    "drop (length (v2_head ?z ?z ?t)) (pm_file pm') = ?body"
    "readHeader col0 hdr (FileIS (FileInputStream_fromFileDescriptor (pm_file pm'))) =
      Inr ((V0_2_0, hdr\<lparr>fh_columns := fh_columns hdr @ map (v2_config col0) cols\<rparr>, Some (?mb, free)), s')"
    using transaction_published [OF _ _ _ image m m newer _ small(2), of col0 hdr] w(4) unfolding vs_ok_def by blast
  have tail: "region pos l (pm_file pm') = region pos l (pm_file (vs_pm st'))" if "length ?img \<le> pos" for pos l
    using pm'(2) that by (intro region_same_tail [of "length ?img"]) (simp_all flip: v2_header_head)
  have "v2_committed ?st vss ?mb (pm_file pm')"
    unfolding v2_committed_def
  proof (intro conjI allI impI)
    have "length ?img \<le> unat (pr_offset page)" using vs w(2) by (simp add: vs_ok_def)
    from tail [OF this] w(3)
    show "region (unat (mb_head_index_page_offset ?mb)) (length (index_page (index_bytes ?st))) (pm_file pm') =
      index_page (index_bytes ?st)" by simp
    fix i assume i: "i < length vss" "vss ! i \<noteq> []"
    have lw: "i < length (vs_writers ?st)" using vss(1) i(1) by (simp add: vs_values_def list_all2_lengthD)
    have v: "pw_values (vs_writers ?st ! i) (vss ! i)"
      using vss(1) lw by (simp add: vs_values_def list_all2_conv_all_nth)
    have p: "pw_has_page (vs_writers ?st ! i)" using v i(2) by (simp add: pw_values_def)
    have "page_ok (length ?img) (unat (pm_offset (vs_pm ?st))) (vs_writers ?st ! i)"
      using vs lw by (intro pages_ok_nth) (simp_all add: vs_ok_def)
    then have "length ?img \<le> pw_offset (vs_writers ?st ! i)" using p by (simp add: page_ok_def)
    from tail [OF this] w(5) p lw idx pw_values_bytes [OF v]
    show "region (pw_offset (vs_writers ?st ! i)) 1024 (pm_file pm') = page_image (vss ! i)" by simp
  qed
  moreover have "CSTableWriter_commit uninit (CSTableWriter_addRows n tw) =
      Inr ((CSTableWriter_addRows n tw)\<lparr>tw_state := st'\<lparr>vs_pm := pm'\<rparr>,
        tw_free_idx_ptr := tw_cur_idx_ptr (CSTableWriter_addRows n tw), tw_cur_idx_ptr := Some page\<rparr>)"
    using tw w(1) pm'(1) by (simp add: CSTableWriter_commit_def CSTableWriter_commitV2_def CSTableWriter_addRows_def)
  ultimately show ?thesis using pm'(3) vss(1,3)
    by (intro exI conjI) (assumption | simp)+
qed

text \<open>A reader that opens a committed file.\<close>

lemma openFile_v2:
  assumes hdr: "readHeader col0 \<lparr>fh_columns = [], fh_num_rows = n0\<rparr> (FileIS (FileInputStream_fromFileDescriptor content)) =
      Inr ((V0_2_0, \<lparr>fh_columns = map (v2_config col0) cols, fh_num_rows = n0\<rparr>, Some (mb, free)), s')"
    and cols: "\<forall>c \<in> set cols. v2_column_ok c"
  shows "\<exists>tr. CSTableReader_openFile col0 n0 (Some content) = Inr tr \<and> CSTableReader_numRecords tr = mb_num_rows mb \<and>
    tr_version tr = V0_2_0 \<and> tr_columns tr = map (v2_config col0) cols"
proof -
  have "\<exists>y. openColumnV2_reader x = Inr y \<and> True" if "x \<in> set (map (v2_config col0) cols)" for x
    using that cols by (auto simp: openColumnV2_reader_def UnsignedIntColumnReader_def v2_column_ok_def v2_config_def)
  then obtain rs where "res_map openColumnV2_reader (map (v2_config col0) cols) = Inr rs"
    using res_map_ok [of "map (v2_config col0) cols" openColumnV2_reader "\<lambda>_ _. True"] by blast
  then show ?thesis by (simp add: CSTableReader_openFile_def hdr CSTableReader_numRecords_def)
qed

lemma v2_session_commit:
  assumes flat: "TableSchema_flatColumns junk (TableSchema_copy order schema) = Inr cols"
    and ok: "v2_table_ok cols" and ops: "\<forall>op \<in> set ops. fst op \<in> cc_column_name ` set cols"
    and size: "length (v2_header_image cols) + (2 ^ 32 + 3 * 1024 * length ops) \<le> 2 ^ 63"
    and small: "5 * length cols * (60 + 30 * length ops) < 2 ^ 31"
  shows "\<exists>tw tw1 tw2 tr. CSTableWriter_createFile order junk None V0_2_0 schema = Inr tw \<and>
    res_fold tw_put2 ops tw = Inr tw1 \<and> CSTableWriter_commit uninit (CSTableWriter_addRows n tw1) = Inr tw2 \<and>
    CSTableReader_openFile col0 n0 (Some (pm_file (vs_pm (tw_state tw2)))) = Inr tr \<and>
    CSTableReader_numRecords tr = n \<and> tr_version tr = V0_2_0 \<and> tr_columns tr = map (v2_config col0) cols \<and>
    (\<forall>i < length cols. cell_values (cells_of (cc_column_name (cols ! i)) ops) \<noteq> [] \<longrightarrow>
       region (pw_offset (vs_writers (tw_state tw1) ! vc_data_writer (tw_v2_writers tw1 ! i))) 1024
           (pm_file (vs_pm (tw_state tw2))) =
         page_image (cell_values (cells_of (cc_column_name (cols ! i)) ops)))"
proof -
  from createFile_v2 [OF flat ok size] obtain tw where tw:
    "CSTableWriter_createFile order junk None V0_2_0 schema = Inr tw"
    "v2_session cols (2 ^ 32 + 3 * 1024 * length ops) tw []" by blast
  from tw_puts2_session [OF ok tw(2) ops] obtain tw1 where tw1: "res_fold tw_put2 ops tw = Inr tw1"
    "v2_session cols (2 ^ 32) tw1 ops" by auto
  have "length cols \<le> 5 * length cols * (60 + 30 * length ops)" by (simp add: algebra_simps)
  also note small
  also have "(2 :: nat) ^ 31 \<le> 2 ^ 64" by simp
  finally have "length cols < 2 ^ 64" .
  from commitV2_ok [OF tw1(2) order_refl ok small this, of uninit n col0 "\<lparr>fh_columns = [], fh_num_rows = n0\<rparr>"]
  obtain tw2 mb free s' vss where c: "CSTableWriter_commit uninit (CSTableWriter_addRows n tw1) = Inr tw2"
    "readHeader col0 \<lparr>fh_columns = [], fh_num_rows = n0\<rparr>
      (FileIS (FileInputStream_fromFileDescriptor (pm_file (vs_pm (tw_state tw2))))) =
      Inr ((V0_2_0, \<lparr>fh_columns = map (v2_config col0) cols, fh_num_rows = n0\<rparr>, Some (mb, free)), s')"
    "mb_num_rows mb = n" "vs_values (tw_state tw1) vss"
    "v2_committed (tw_state tw1) vss mb (pm_file (vs_pm (tw_state tw2)))"
    "\<forall>i < length cols. column_holds vss (tw_v2_writers tw1 ! i) (cells_of (cc_column_name (cols ! i)) ops)"
    by auto
  have "\<forall>c \<in> set cols. v2_column_ok c" using ok by (simp add: v2_table_ok_def)
  from openFile_v2 [OF c(2) this] c(3) obtain tr where tr:
    "CSTableReader_openFile col0 n0 (Some (pm_file (vs_pm (tw_state tw2)))) = Inr tr"
    "CSTableReader_numRecords tr = n" "tr_version tr = V0_2_0" "tr_columns tr = map (v2_config col0) cols" by auto
  have "region (pw_offset (vs_writers (tw_state tw1) ! vc_data_writer (tw_v2_writers tw1 ! i))) 1024
      (pm_file (vs_pm (tw_state tw2))) = page_image (cell_values (cells_of (cc_column_name (cols ! i)) ops))"
    if i: "i < length cols" "cell_values (cells_of (cc_column_name (cols ! i)) ops) \<noteq> []" for i
  proof -
    let ?w = "vc_data_writer (tw_v2_writers tw1 ! i)"
    have v: "vss ! ?w = cell_values (cells_of (cc_column_name (cols ! i)) ops)"
      using c(6) i(1) by (simp add: column_holds_def)
    have ws: "length (tw_v2_writers tw1) = length cols"
      "set (concat (map column_pages (tw_v2_writers tw1))) = {..<length (vs_writers (tw_state tw1))}"
      using tw1(2) by (simp_all only: v2_session_def)
    have "?w \<in> set (column_pages (tw_v2_writers tw1 ! i))" by (simp add: column_pages_def)
    with in_column_pages [of i "tw_v2_writers tw1" ?w] i(1) ws have "?w < length (vs_writers (tw_state tw1))"
      by (metis lessThan_iff)
    then have "?w < length vss" using c(4) by (simp add: vs_values_def list_all2_lengthD)
    with c(5) v i(2) show ?thesis by (simp add: v2_committed_def)
  qed
  with tw(1) tw1(1) c(1) tr show ?thesis by blast
qed

section \<open>What a page keeps\<close>

text \<open>
  A page writer never clears its buffer, so what it puts on disk are the first 128 values it
  was given.
\<close>

lemma length_u64_list [simp]: "length (concat (map u64_bytes vs)) = 8 * length vs"
  by (induction vs) simp_all

lemma page_image_overflow: "128 \<le> length vs \<Longrightarrow> page_image vs = page_image (take 128 vs)"
proof -
  assume len: "128 \<le> length vs"
  have "concat (map u64_bytes vs) = concat (map u64_bytes (take 128 vs)) @ concat (map u64_bytes (drop 128 vs))"
    by (metis append_take_drop_id concat_append map_append)
  with len show ?thesis by (simp add: page_image_def)
qed

lemma page_image_values:
  assumes "length vs \<le> 128"
  shows "take (8 * length vs) (page_image vs) = concat (map u64_bytes vs)"
  using assms by (simp add: page_image_def)

end
