(* ===== verification/CS_Fields.thy ===== *)
theory CS_Fields
  imports CS_Stream CS_BitPack
begin

text \<open>
  Clients of the streams: a message of fields of any kind, written with \<open>BinaryMessageWriter\<close>
  and read back with \<open>BinaryMessageReader\<close> or from an \<open>InputStream\<close>; the chunked file
  stream against the plain bytes of the file; a whole bit-packed stream.
\<close>

section \<open>Messages\<close>

datatype field =
    FUInt8 byte
  | FUInt16 u16
  | FUInt32 u32
  | FUInt64 u64
  | FDouble double
  | FVarUInt u64
  | FLenenc bytes

fun field_ok :: "field \<Rightarrow> bool" where
  "field_ok (FLenenc s) \<longleftrightarrow> length s < 2 ^ 64"
| "field_ok _ \<longleftrightarrow> True"

fun mw_field :: "field \<Rightarrow> message_writer \<Rightarrow> message_writer res" where
  "mw_field (FUInt8 v) = mw_appendUInt8 v"
| "mw_field (FUInt16 v) = mw_appendUInt16 v"
| "mw_field (FUInt32 v) = mw_appendUInt32 v"
| "mw_field (FUInt64 v) = mw_appendUInt64 v"
| "mw_field (FDouble v) = mw_appendDouble v"
| "mw_field (FVarUInt v) = mw_appendVarUInt v"
| "mw_field (FLenenc s) = mw_appendLenencString s"

fun field_bytes :: "field \<Rightarrow> bytes" where
  "field_bytes (FUInt8 v) = [v]"
| "field_bytes (FUInt16 v) = u16_bytes v"
| "field_bytes (FUInt32 v) = u32_bytes v"
| "field_bytes (FUInt64 v) = u64_bytes v"
| "field_bytes (FDouble v) = u64_bytes (double_bits v)"
| "field_bytes (FVarUInt v) = varuint_bytes v"
| "field_bytes (FLenenc s) = varuint_bytes (word_of_nat (length s)) @ s"

text \<open>Reading a field of the kind of a given one, whose value does not matter.\<close>

definition reading :: "('s \<Rightarrow> ('v \<times> 's) res) \<Rightarrow> ('v \<Rightarrow> field) \<Rightarrow> 's \<Rightarrow> (field \<times> 's) res" where
  "reading rd C = act_bind rd (\<lambda>v. act_return (C v))"

fun mr_field :: "field \<Rightarrow> message_reader \<Rightarrow> (field \<times> message_reader) res" where
  "mr_field (FUInt8 _) = reading mr_readUInt8 FUInt8"
| "mr_field (FUInt16 _) = reading mr_readUInt16 FUInt16"
| "mr_field (FUInt32 _) = reading mr_readUInt32 FUInt32"
| "mr_field (FUInt64 _) = reading mr_readUInt64 FUInt64"
| "mr_field (FDouble _) = reading mr_readDouble FDouble"
| "mr_field (FVarUInt _) = reading mr_readVarUInt FVarUInt"
| "mr_field (FLenenc _) = reading mr_readLenencString FLenenc"

fun is_field :: "field \<Rightarrow> input_stream \<Rightarrow> (field \<times> input_stream) res" where
  "is_field (FUInt8 _) = reading (InputStream_readUInt8 is_readNextBytes) FUInt8"
| "is_field (FUInt16 _) = reading (InputStream_readUInt16 is_readNextBytes) FUInt16"
| "is_field (FUInt32 _) = reading is_readUInt32 FUInt32"
| "is_field (FUInt64 _) = reading is_readUInt64 FUInt64"
| "is_field (FDouble _) = reading (InputStream_readDouble is_readNextBytes) FDouble"
| "is_field (FVarUInt _) = reading is_readVarUInt FVarUInt"
| "is_field (FLenenc _) = reading is_readLenencString FLenenc"

fun read_all :: "('k \<Rightarrow> 's \<Rightarrow> ('v \<times> 's) res) \<Rightarrow> 'k list \<Rightarrow> 's \<Rightarrow> ('v list \<times> 's) res" where
  "read_all rd [] = act_return []"
| "read_all rd (k # ks) = act_bind (rd k) (\<lambda>v. act_bind (read_all rd ks) (\<lambda>vs. act_return (v # vs)))"

lemma mw_field_writes: "mw_writes (mw_field f) (field_bytes f)"
  by (cases f) (simp_all add: mw_writes_ops mw_writes_lenenc)

lemma mr_field_reads: "field_ok f \<Longrightarrow> mr_reads (mr_field f) (field_bytes f) f"
  by (cases f) (auto simp: reading_def intro!: mr_reads_bind_return intro: mr_reads_intros)

lemma is_field_reads: "field_ok f \<Longrightarrow> is_reads (is_field f) (field_bytes f) f"
  by (cases f) (auto simp: reading_def intro!: reads_from_bind_return intro: is_reads_intros input.readUInt_ok)

lemma mw_fields_writes: "mw_writes (mw_seq (map mw_field fs)) (concat (map field_bytes fs))"
  by (rule mw_writes_seq_map) (rule mw_field_writes)

lemma mr_fields_reads:
  "\<forall>f \<in> set fs. field_ok f \<Longrightarrow> mr_reads (read_all mr_field fs) (concat (map field_bytes fs)) fs"
proof (induction fs)
  case Nil
  show ?case unfolding read_all.simps list.map concat.simps by (rule mr_reads_return)
next
  case (Cons f fs)
  then show ?case by (auto intro!: mr_reads_bind mr_reads_bind_return mr_field_reads)
qed

lemma is_fields_reads:
  "\<forall>f \<in> set fs. field_ok f \<Longrightarrow> is_reads (read_all is_field fs) (concat (map field_bytes fs)) fs"
proof (induction fs)
  case Nil
  show ?case unfolding read_all.simps list.map concat.simps by (rule reads_from_return)
next
  case (Cons f fs)
  then show ?case by (auto intro!: reads_from_bind reads_from_bind_return is_field_reads)
qed

section \<open>Streams and the bytes behind them\<close>

text \<open>
  A client reads bytes one by one or in blocks and skips; the plain list of bytes that are left
  is what every stream should look like. A stream may be asked to skip past its end only as the
  last operation: the classes disagree on the number of bytes they then report.
\<close>

datatype stream_op = ReadByte | ReadBytes nat | SkipBytes nat

fun is_step :: "stream_op \<Rightarrow> input_stream \<Rightarrow> bytes \<times> input_stream" where
  "is_step ReadByte s = map_prod (\<lambda>b. case b of None \<Rightarrow> [] | Some b \<Rightarrow> [b]) id (is_readNextByte s)"
| "is_step (ReadBytes n) s = is_readNextBytes n s"
| "is_step (SkipBytes n) s = map_prod (\<lambda>_. []) id (is_skipNextBytes n s)"

fun list_step :: "stream_op \<Rightarrow> bytes \<Rightarrow> bytes \<times> bytes" where
  "list_step ReadByte bs = (take 1 bs, drop 1 bs)"
| "list_step (ReadBytes n) bs = (take n bs, drop n bs)"
| "list_step (SkipBytes n) bs = ([], drop n bs)"

fun op_bytes :: "stream_op \<Rightarrow> nat" where
  "op_bytes ReadByte = 0"
| "op_bytes (ReadBytes n) = 0"
| "op_bytes (SkipBytes n) = n"

fun run_ops :: "(stream_op \<Rightarrow> 's \<Rightarrow> bytes \<times> 's) \<Rightarrow> stream_op list \<Rightarrow> 's \<Rightarrow> bytes list" where
  "run_ops step [] s = []"
| "run_ops step (op # ops) s = (case step op s of (out, s') \<Rightarrow> out # run_ops step ops s')"

text \<open>Every skip of the sequence stays within the bytes that are left.\<close>

fun skips_ok :: "stream_op list \<Rightarrow> bytes \<Rightarrow> bool" where
  "skips_ok [] bs \<longleftrightarrow> True"
| "skips_ok (op # ops) bs \<longleftrightarrow> op_bytes op \<le> length bs \<and> skips_ok ops (snd (list_step op bs))"

lemma is_readNextByte_eof: "is_ok s \<Longrightarrow> is_rest s = [] \<Longrightarrow> \<exists>s'. is_readNextByte s = (None, s') \<and> is_ok s' \<and> is_rest s' = []"
proof (cases s)
  case (FileIS f)
  assume "is_ok s" "is_rest s = []"
  with FileIS fs_read1 [of f] show ?thesis by auto
qed (auto simp: string_stream.read1_Nil buffer_stream.read1_Nil memory_stream.read1_Nil)

lemma is_step_refines:
  assumes "is_ok s" and "op_bytes op \<le> length (is_rest s)"
  shows "\<exists>s'. is_step op s = (fst (list_step op (is_rest s)), s') \<and> is_ok s' \<and> is_rest s' = snd (list_step op (is_rest s))"
proof (cases op)
  case ReadByte
  show ?thesis
  proof (cases "is_rest s")
    case Nil
    with is_readNextByte_eof [OF assms(1)] ReadByte show ?thesis by auto
  next
    case (Cons b bs)
    with input.read1_Cons [OF assms(1)] ReadByte show ?thesis by fastforce
  qed
next
  case (ReadBytes n)
  with input.readn_take [OF assms(1), of n] show ?thesis by auto
next
  case (SkipBytes n)
  with input.skip_drop [OF assms(1), of n] assms(2) show ?thesis by auto
qed

lemma run_ops_refines:
  "is_ok s \<Longrightarrow> skips_ok ops (is_rest s) \<Longrightarrow> run_ops is_step ops s = run_ops list_step ops (is_rest s)"
proof (induction ops arbitrary: s)
  case (Cons op ops)
  with is_step_refines [of s op] obtain s' where "is_step op s = (fst (list_step op (is_rest s)), s')"
    "is_ok s'" "is_rest s' = snd (list_step op (is_rest s))" by auto
  with Cons show ?case by (simp add: split_def)
qed simp

section \<open>Bit-packed streams\<close>

lemma be_encode_all:
  "be_written m e us \<Longrightarrow> \<forall>v \<in> set vs. v \<le> m \<Longrightarrow> be_written m (fold be_encode vs e) (us @ vs)"
proof (induction vs arbitrary: e us)
  case (Cons v vs)
  then have "be_written m (be_encode v e) (us @ [v])" by (intro be_encode_written) simp_all
  with Cons show ?case by fastforce
qed simp

lemma bd_next_all:
  assumes "bd_holds m d vs"
  shows "\<exists>d'. act_repeat (length vs) bd_next d = Inr (vs, d')"
  using act_repeat_rel [of "bd_holds m" d vs "[]" bd_next "\<lambda>v. v"] bd_next_holds [of m] assms by fastforce

lemma bitpack_all:
  assumes "\<forall>v \<in> set vs. v \<le> m"
  shows "be_size (be_flush (fold be_encode vs (be_new m))) = 16 * bits m * ((length vs + 127) div 128) \<and>
    (\<exists>d'. act_repeat (length vs) bd_next
       (bd_new (be_data (be_flush (fold be_encode vs (be_new m))) @ junk)
          (be_size (be_flush (fold be_encode vs (be_new m)))) m) = Inr (vs, d'))"
proof -
  let ?e = "fold be_encode vs (be_new m)"
  have w: "be_written m ?e vs" using be_encode_all [OF be_new_written assms] by simp
  have "be_size (be_flush ?e) \<le> length (be_data (be_flush ?e) @ junk)" by (simp add: be_size_def be_data_def)
  moreover have "take (be_size (be_flush ?e)) (be_data (be_flush ?e) @ junk) = be_data (be_flush ?e)"
    by (simp add: be_size_def be_data_def)
  ultimately have "bd_holds m (bd_new (be_data (be_flush ?e) @ junk) (be_size (be_flush ?e)) m) vs"
    by (rule bd_new_holds [OF w order_refl])
  from bd_next_all [OF this] be_flush_size [OF w] show ?thesis by blast
qed

end
