(* ===== verification/CS_Message.thy ===== *)
theory CS_Message
  imports CS_Reader
begin

text \<open>
  Messages and their schemas (\<open>stx/protobuf/MessageObject.cc\<close>, \<open>MessageSchema.cc\<close>): the tree of
  typed values a table stores one row of, the schema that names and types its fields, and the
  binary form of a schema. The maps of a schema from names and ids are kept as the code keeps
  them, beside the list of fields; a reference to a subschema may be null.
\<close>

section \<open>MessageObject\<close>

datatype FieldType = F_OBJECT | F_BOOLEAN | F_UINT32 | F_STRING | F_UINT64 | F_DOUBLE | F_DATETIME | F_Other byte

text \<open>A message of type \<open>DATETIME\<close> holds the microseconds of its \<open>UnixTime\<close>.\<close>

datatype message_object =
    MObject (mo_id: u32) "message_object list"
  | MBoolean (mo_id: u32) bool
  | MUInt32 (mo_id: u32) u32
  | MString (mo_id: u32) bytes
  | MUInt64 (mo_id: u32) u64
  | MDouble (mo_id: u32) double
  | MDateTime (mo_id: u32) u64

fun mo_type :: "message_object \<Rightarrow> FieldType" where
  "mo_type (MObject _ _) = F_OBJECT"
| "mo_type (MBoolean _ _) = F_BOOLEAN"
| "mo_type (MUInt32 _ _) = F_UINT32"
| "mo_type (MString _ _) = F_STRING"
| "mo_type (MUInt64 _ _) = F_UINT64"
| "mo_type (MDouble _ _) = F_DOUBLE"
| "mo_type (MDateTime _ _) = F_DATETIME"

fun asObject :: "message_object \<Rightarrow> message_object list res" where
  "asObject (MObject _ fs) = Inr fs"
| "asObject _ = Inl TypeError"

fun asString :: "message_object \<Rightarrow> bytes res" where
  "asString (MString _ s) = Inr s"
| "asString _ = Inl TypeError"

fun asUInt32 :: "message_object \<Rightarrow> u32 res" where
  "asUInt32 (MUInt64 _ v) = Inr (ucast v)"
| "asUInt32 (MUInt32 _ v) = Inr v"
| "asUInt32 _ = Inl TypeError"

fun asUInt64 :: "message_object \<Rightarrow> u64 res" where
  "asUInt64 (MUInt32 _ v) = Inr (ucast v)"
| "asUInt64 (MUInt64 _ v) = Inr v"
| "asUInt64 (MDateTime _ v) = Inr v"
| "asUInt64 _ = Inl TypeError"

fun asDouble :: "message_object \<Rightarrow> double res" where
  "asDouble (MDouble _ v) = Inr v"
| "asDouble _ = Inl TypeError"

fun asBool :: "message_object \<Rightarrow> bool res" where
  "asBool (MUInt32 _ v) = Inr (v > 0)"
| "asBool (MBoolean _ b) = Inr b"
| "asBool _ = Inl TypeError"

fun asUnixTime :: "message_object \<Rightarrow> u64 res" where
  "asUnixTime (MDateTime _ v) = Inr v"
| "asUnixTime _ = Inl TypeError"

text \<open>
  \<open>addChild\<close> appends to the vector of an object; \<open>children i\<close> are the children with an id, in
  order. The getters take the first.
\<close>

fun addChild :: "message_object \<Rightarrow> message_object \<Rightarrow> message_object res" where
  "addChild c (MObject i fs) = Inr (MObject i (fs @ [c]))"
| "addChild c _ = Inl TypeError"

definition children :: "u32 \<Rightarrow> message_object list \<Rightarrow> message_object list" where
  "children i fs = filter (\<lambda>f. mo_id f = i) fs"

fun first_child :: "u32 \<Rightarrow> message_object list \<Rightarrow> message_object res" where
  "first_child i [] = Inl IndexError"
| "first_child i (f # fs) = (if mo_id f = i then Inr f else first_child i fs)"

definition getObject :: "u32 \<Rightarrow> message_object \<Rightarrow> message_object res" where
  "getObject i msg = res_bind (asObject msg) (first_child i)"

definition getObjects :: "u32 \<Rightarrow> message_object \<Rightarrow> message_object list res" where
  "getObjects i msg = res_bind (asObject msg) (\<lambda>fs. Inr (children i fs))"

definition getUInt32 :: "u32 \<Rightarrow> message_object \<Rightarrow> u32 res" where
  "getUInt32 i msg = res_bind (getObject i msg) asUInt32"

definition getUInt64 :: "u32 \<Rightarrow> message_object \<Rightarrow> u64 res" where
  "getUInt64 i msg = res_bind (getObject i msg) asUInt64"

definition getString :: "u32 \<Rightarrow> message_object \<Rightarrow> bytes res" where
  "getString i msg = res_bind (getObject i msg) asString"

definition getUnixTime :: "u32 \<Rightarrow> message_object \<Rightarrow> u64 res" where
  "getUnixTime i msg = res_bind (getObject i msg) asUnixTime"

definition getDouble :: "u32 \<Rightarrow> message_object \<Rightarrow> double res" where
  "getDouble i msg = res_bind (getObject i msg) asDouble"

definition getBool :: "u32 \<Rightarrow> message_object \<Rightarrow> bool res" where
  "getBool i msg = res_bind (getObject i msg) asBool"

section \<open>MessageSchema\<close>

datatype EncodingHint = Hint_NONE | Hint_BITPACK | Hint_LEB128 | Hint_Other byte

datatype schema_field =
  MessageSchemaField (sf_id: u32) (sf_name: bytes) (sf_type: FieldType) (sf_type_size: u64) (sf_repeated: bool)
    (sf_optional: bool) (sf_encoding: EncodingHint) (sf_schema: "message_schema option")
and message_schema =
  Schema (ms_name: bytes) (ms_fields: "schema_field list") (ms_field_ids: "bytes \<Rightarrow> u32 option")
    (ms_field_types: "u32 \<Rightarrow> FieldType option") (ms_field_names: "u32 \<Rightarrow> bytes option")

text \<open>\<open>emplace\<close> leaves an entry that is there.\<close>

definition emplace :: "'k \<Rightarrow> 'v \<Rightarrow> ('k \<Rightarrow> 'v option) \<Rightarrow> 'k \<Rightarrow> 'v option" where
  "emplace k v m = (case m k of None \<Rightarrow> m(k := Some v) | Some _ \<Rightarrow> m)"

definition empty_schema :: message_schema where
  "empty_schema = Schema [] [] (\<lambda>_. None) (\<lambda>_. None) (\<lambda>_. None)"

fun MessageSchema_addField :: "schema_field \<Rightarrow> message_schema \<Rightarrow> message_schema" where
  "MessageSchema_addField f (Schema name flds ids types names) =
     Schema name (flds @ [f]) (emplace (sf_name f) (sf_id f) ids) (emplace (sf_id f) (sf_type f) types)
       (emplace (sf_id f) (sf_name f) names)"

fun MessageSchema_setName :: "bytes \<Rightarrow> message_schema \<Rightarrow> message_schema" where
  "MessageSchema_setName name (Schema _ flds ids types names) = Schema name flds ids types names"

definition MessageSchema :: "bytes \<Rightarrow> schema_field list \<Rightarrow> message_schema" where
  "MessageSchema name flds = fold MessageSchema_addField flds (MessageSchema_setName name empty_schema)"

definition mkObjectField :: "u32 \<Rightarrow> bytes \<Rightarrow> bool \<Rightarrow> bool \<Rightarrow> message_schema option \<Rightarrow> schema_field" where
  "mkObjectField i name repeated optional schema =
     MessageSchemaField i name F_OBJECT 0 repeated optional Hint_NONE schema"

definition MessageSchema_hasFieldNamed :: "message_schema \<Rightarrow> bytes \<Rightarrow> bool" where
  "MessageSchema_hasFieldNamed schema path \<longleftrightarrow> ms_field_ids schema path \<noteq> None"

definition MessageSchema_hasField :: "message_schema \<Rightarrow> u32 \<Rightarrow> bool" where
  "MessageSchema_hasField schema i \<longleftrightarrow> ms_field_types schema i \<noteq> None"

definition MessageSchema_fieldId :: "message_schema \<Rightarrow> bytes \<Rightarrow> u32 res" where
  "MessageSchema_fieldId schema path = (case ms_field_ids schema path of None \<Rightarrow> Inl IndexError | Some i \<Rightarrow> Inr i)"

definition MessageSchema_fieldType :: "message_schema \<Rightarrow> u32 \<Rightarrow> FieldType res" where
  "MessageSchema_fieldType schema i =
     (if i = 0 then Inr F_OBJECT
      else case ms_field_types schema i of None \<Rightarrow> Inl IndexError | Some t \<Rightarrow> Inr t)"

definition MessageSchema_fieldName :: "message_schema \<Rightarrow> u32 \<Rightarrow> bytes res" where
  "MessageSchema_fieldName schema i =
     (if i = 0 then Inr (ms_name schema)
      else case ms_field_names schema i of None \<Rightarrow> Inl IndexError | Some n \<Rightarrow> Inr n)"

fun first_field :: "u32 \<Rightarrow> schema_field list \<Rightarrow> schema_field option" where
  "first_field i [] = None"
| "first_field i (f # fs) = (if sf_id f = i then Some f else first_field i fs)"

definition MessageSchema_fieldSchema :: "message_schema \<Rightarrow> u32 \<Rightarrow> message_schema option res" where
  "MessageSchema_fieldSchema schema i =
     (case first_field i (ms_fields schema) of None \<Rightarrow> Inl IndexError | Some f \<Rightarrow> Inr (sf_schema f))"

fun remove_first :: "u32 \<Rightarrow> schema_field list \<Rightarrow> schema_field list" where
  "remove_first i [] = []"
| "remove_first i (f # fs) = (if sf_id f = i then fs else f # remove_first i fs)"

definition MessageSchema_removeField :: "u32 \<Rightarrow> message_schema \<Rightarrow> message_schema res" where
  "MessageSchema_removeField i schema =
     (case first_field i (ms_fields schema) of
        None \<Rightarrow> Inl NotFoundError
      | Some f \<Rightarrow> Inr (Schema (ms_name schema) (remove_first i (ms_fields schema))
          ((ms_field_ids schema)(sf_name f := None)) ((ms_field_types schema)(sf_id f := None))
          ((ms_field_names schema)(sf_id f := None))))"

text \<open>A null reference is followed by \<open>maxFieldId\<close>, \<open>columns\<close> and \<open>encode\<close> only for \<open>OBJECT\<close> fields.\<close>

definition follow :: "('a \<Rightarrow> 'b res) \<Rightarrow> 'a option \<Rightarrow> 'b res" where
  "follow f p = (case p of None \<Rightarrow> Inl Undefined | Some x \<Rightarrow> f x)"

lemma follow_simps [simp]: "follow f None = Inl Undefined" "follow f (Some x) = f x"
  by (simp_all add: follow_def)

lemma follow_cong [fundef_cong]: "p = q \<Longrightarrow> (\<And>x. q = Some x \<Longrightarrow> f x = g x) \<Longrightarrow> follow f p = follow g q"
  by (cases q) simp_all

fun MessageSchema_maxFieldId :: "message_schema \<Rightarrow> u32 res" and field_maxFieldId :: "schema_field \<Rightarrow> u32 res" where
  "MessageSchema_maxFieldId (Schema _ flds _ _ _) =
     res_fold (\<lambda>f m. res_bind (field_maxFieldId f) (\<lambda>i. Inr (max m i))) flds 0"
| "field_maxFieldId (MessageSchemaField i _ type _ _ _ _ schema) =
     (if type = F_OBJECT then res_bind (follow MessageSchema_maxFieldId schema) (\<lambda>n. Inr (max i n)) else Inr i)"

fun MessageSchema_columns :: "message_schema \<Rightarrow> (bytes \<times> schema_field) list res"
  and field_columns :: "schema_field \<Rightarrow> (bytes \<times> schema_field) list res" where
  "MessageSchema_columns (Schema _ flds _ _ _) =
     res_fold (\<lambda>f cols. res_bind (field_columns f) (\<lambda>cs. Inr (cols @ cs))) flds []"
| "field_columns (MessageSchemaField i name type n rep opt enc schema) =
     (if type = F_OBJECT
      then res_bind (follow MessageSchema_columns schema) (\<lambda>cs. Inr (map (\<lambda>(c, f). (name @ [46] @ c, f)) cs))
      else Inr [(name, MessageSchemaField i name type n rep opt enc schema)])"

section \<open>The binary form of a schema\<close>

fun field_type_code :: "FieldType \<Rightarrow> byte" where
  "field_type_code F_OBJECT = 0"
| "field_type_code F_BOOLEAN = 1"
| "field_type_code F_UINT32 = 2"
| "field_type_code F_STRING = 3"
| "field_type_code F_UINT64 = 4"
| "field_type_code F_DOUBLE = 5"
| "field_type_code F_DATETIME = 6"
| "field_type_code (F_Other b) = b"

definition field_type_of_code :: "byte \<Rightarrow> FieldType" where
  "field_type_of_code b =
     (if b = 0 then F_OBJECT else if b = 1 then F_BOOLEAN else if b = 2 then F_UINT32 else if b = 3 then F_STRING
      else if b = 4 then F_UINT64 else if b = 5 then F_DOUBLE else if b = 6 then F_DATETIME else F_Other b)"

fun hint_code :: "EncodingHint \<Rightarrow> byte" where
  "hint_code Hint_NONE = 0"
| "hint_code Hint_BITPACK = 1"
| "hint_code Hint_LEB128 = 2"
| "hint_code (Hint_Other b) = b"

definition hint_of_code :: "byte \<Rightarrow> EncodingHint" where
  "hint_of_code b =
     (if b = 0 then Hint_NONE else if b = 1 then Hint_BITPACK else if b = 2 then Hint_LEB128 else Hint_Other b)"

definition flag_byte :: "bool \<Rightarrow> byte" where
  "flag_byte b = (if b then 1 else 0)"

fun MessageSchema_encode :: "message_schema \<Rightarrow> message_writer \<Rightarrow> message_writer res"
  and field_encode :: "schema_field \<Rightarrow> message_writer \<Rightarrow> message_writer res" where
  "MessageSchema_encode (Schema name flds _ _ _) =
     mw_seq ([mw_appendUInt8 1, mw_appendLenencString name, mw_appendVarUInt (word_of_nat (length flds))] @
       map field_encode flds)"
| "field_encode (MessageSchemaField i name type n rep opt enc schema) =
     mw_seq ([mw_appendVarUInt (ucast i), mw_appendLenencString name, mw_appendUInt8 (field_type_code type),
        mw_appendVarUInt n, mw_appendUInt8 (flag_byte rep), mw_appendUInt8 (flag_byte opt),
        mw_appendUInt8 (hint_code enc)] @
       (if type = F_OBJECT
        then [case schema of None \<Rightarrow> (\<lambda>_. Inl Undefined) | Some s \<Rightarrow> MessageSchema_encode s] else []))"

text \<open>
  \<open>decode\<close> reads into a schema: the fields are added to those it has. The loop counter is an
  \<open>int\<close>, which overflows at \<open>2^31\<close>. \<open>fuel\<close> bounds the depth of the nesting; a schema takes at
  least one byte, so the number of bytes left is enough (\<open>schema_read_fuel\<close>).
\<close>

definition field_read :: "message_reader \<Rightarrow> (schema_field \<times> message_reader) res" where
  "field_read =
     act_bind mr_readVarUInt (\<lambda>id.
     act_bind mr_readLenencString (\<lambda>name.
     act_bind mr_readUInt8 (\<lambda>type.
     act_bind mr_readVarUInt (\<lambda>type_size.
     act_bind mr_readUInt8 (\<lambda>rep.
     act_bind mr_readUInt8 (\<lambda>opt.
     act_bind mr_readUInt8 (\<lambda>enc.
       act_return (MessageSchemaField (ucast id) name (field_type_of_code type) type_size (rep > 0) (opt > 0)
         (hint_of_code enc) None))))))))"

fun set_schema :: "message_schema \<Rightarrow> schema_field \<Rightarrow> schema_field" where
  "set_schema s (MessageSchemaField i name type n rep opt enc _) = MessageSchemaField i name type n rep opt enc (Some s)"

function (sequential) MessageSchema_read ::
    "nat \<Rightarrow> message_schema \<Rightarrow> message_reader \<Rightarrow> (message_schema \<times> message_reader) res"
  and fields_read ::
    "nat \<Rightarrow> nat \<Rightarrow> nat \<Rightarrow> message_schema \<Rightarrow> message_reader \<Rightarrow> (message_schema \<times> message_reader) res" where
  "MessageSchema_read 0 schema = (\<lambda>_. Inl Undefined)"
| "MessageSchema_read (Suc fuel) schema =
     act_bind mr_readUInt8 (\<lambda>version.
     act_bind mr_readLenencString (\<lambda>name.
     act_bind mr_readVarUInt (\<lambda>nfields.
       fields_read fuel 0 (unat nfields) (MessageSchema_setName name schema))))"
| "fields_read fuel i nfields schema =
     (if i \<ge> 2 ^ 31 then (\<lambda>_. Inl Undefined)
      else if i \<ge> nfields then act_return schema
      else act_bind field_read (\<lambda>f.
           act_bind (if sf_type f = F_OBJECT
                     then act_bind (MessageSchema_read fuel empty_schema) (\<lambda>s. act_return (set_schema s f))
                     else act_return f) (\<lambda>f.
             fields_read fuel (i + 1) nfields (MessageSchema_addField f schema))))"
  by pat_completeness auto
termination
  by (relation "measures [case_sum fst fst, case_sum (\<lambda>_. 0) (\<lambda>_. 1), case_sum (\<lambda>_. 0) (\<lambda>(_, i, n, _). n - i)]") auto

declare fields_read.simps [simp del]

definition MessageSchema_decode :: "bytes \<Rightarrow> message_schema res" where
  "MessageSchema_decode data =
     res_bind (MessageSchema_read (length data + 1) empty_schema (mr_open data (length data))) (\<lambda>(s, _). Inr s)"

section \<open>Readers move forward\<close>

text \<open>\<open>mr_moves k f\<close>: when \<open>f\<close> returns it has moved the cursor by at least \<open>k\<close> bytes of the allocation.\<close>

definition mr_left :: "message_reader \<Rightarrow> nat" where
  "mr_left r = length (mr_mem r) - mr_pos r"

definition mr_moves :: "nat \<Rightarrow> (message_reader \<Rightarrow> ('v \<times> message_reader) res) \<Rightarrow> bool" where
  "mr_moves k f \<longleftrightarrow> (\<forall>r v r'. f r = Inr (v, r') \<longrightarrow> mr_left r' + k \<le> mr_left r)"

named_theorems mr_moves_intros

lemma mr_movesD: "mr_moves k f \<Longrightarrow> f r = Inr (v, r') \<Longrightarrow> mr_left r' + k \<le> mr_left r"
  by (auto simp: mr_moves_def)

lemma mr_moves_read: "mr_moves n (mr_read n)"
  by (auto simp: mr_moves_def mr_read_def mr_readString_def mr_left_def split: if_splits)

lemma mr_moves_return [mr_moves_intros]: "mr_moves 0 (act_return v)" "mr_moves k (\<lambda>_. Inl e)"
  by (simp_all add: mr_moves_def)

lemma mr_moves_bind [mr_moves_intros]:
  assumes "mr_moves k f" and "\<And>v. mr_moves 0 (g v)"
  shows "mr_moves k (act_bind f g)"
  unfolding mr_moves_def
proof (intro allI impI)
  fix r v r' assume "act_bind f g r = Inr (v, r')"
  then obtain a s where s: "f r = Inr (a, s)" "g a s = Inr (v, r')" by (auto simp: act_bind_eq_Inr)
  from mr_movesD [OF assms(1) s(1)] mr_movesD [OF assms(2) s(2)] show "mr_left r' + k \<le> mr_left r" by simp
qed

lemma mr_moves_weaken: "mr_moves k f \<Longrightarrow> l \<le> k \<Longrightarrow> mr_moves l f"
  by (fastforce simp: mr_moves_def)

lemma mr_moves_UInt8: "mr_moves 1 mr_readUInt8"
  unfolding mr_readUInt8_def by (intro mr_moves_intros mr_moves_read)

lemma mr_moves_varuint_loop: "varuint_loop mr_readUInt8 i v r = Inr (u, r') \<Longrightarrow> mr_left r' + 1 \<le> mr_left r"
proof (induction "mr_readUInt8" i v r rule: varuint_loop.induct)
  case (1 i v r)
  from 1(2) obtain b s where b: "mr_readUInt8 r = Inr (b, s)"
    by (subst (asm) varuint_loop.simps) (auto simp: act_bind_eq_Inr)
  then have s: "mr_left s + 1 \<le> mr_left r" by (rule mr_movesD [OF mr_moves_UInt8])
  show ?case
  proof (cases "b AND 0x80 = 0 \<or> 64 \<le> 7 * i")
    case True
    with 1(2) b s show ?thesis by (subst (asm) varuint_loop.simps) (auto simp: Let_def split: if_splits)
  next
    case False
    with 1(2) b have "varuint_loop mr_readUInt8 (i + 1) (v OR push_bit (7 * i) (ucast (b AND 0x7f))) s = Inr (u, r')"
      by (subst (asm) varuint_loop.simps) (simp add: Let_def)
    with 1(1) [OF b] False s show ?thesis by simp
  qed
qed

lemma mr_moves_VarUInt: "mr_moves 1 mr_readVarUInt"
  unfolding mr_moves_def mr_readVarUInt_def using mr_moves_varuint_loop by blast

lemma mr_moves_Lenenc: "mr_moves 1 mr_readLenencString"
  unfolding mr_readLenencString_def
  by (intro mr_moves_intros mr_moves_VarUInt) (rule mr_moves_weaken [OF mr_moves_read], simp)

lemmas mr_moves_ops = mr_moves_weaken [OF mr_moves_UInt8] mr_moves_weaken [OF mr_moves_VarUInt]
  mr_moves_weaken [OF mr_moves_Lenenc]

section \<open>The fuel of the schema reader\<close>

lemma act_bind_cong_left:
  assumes "mr_moves k f" and "\<And>v s. mr_left s + k \<le> mr_left r \<Longrightarrow> g v s = h v s"
  shows "act_bind f g r = act_bind f h r"
  using mr_movesD [OF assms(1)] assms(2) by (auto simp: act_bind_def split: sum.splits)

lemma mr_moves_field: "mr_moves 1 field_read"
  unfolding field_read_def by (intro mr_moves_intros mr_moves_ops) simp_all

lemma schema_read_moves:
  "mr_moves 0 (MessageSchema_read fuel schema)"
  "mr_moves 0 (fields_read fuel i n schema)"
proof (induction fuel schema and fuel i n schema rule: MessageSchema_read_fields_read.induct)
  case (2 fuel schema)
  then show ?case by (simp only: MessageSchema_read.simps) (intro mr_moves_intros mr_moves_ops, simp_all)
next
  case (3 fuel i n schema)
  then show ?case
    by (subst fields_read.simps) (auto intro!: mr_moves_intros mr_moves_weaken [OF mr_moves_field])
qed (simp add: mr_moves_intros)

lemma schema_read_fuel:
  "mr_left r < fuel \<Longrightarrow> MessageSchema_read (Suc fuel) schema r = MessageSchema_read fuel schema r"
  "mr_left r < fuel \<Longrightarrow> fields_read (Suc fuel) i n schema r = fields_read fuel i n schema r"
proof (induction fuel schema and fuel i n schema arbitrary: r and r rule: MessageSchema_read_fields_read.induct)
  case (2 fuel schema)
  show ?case unfolding MessageSchema_read.simps
  proof (rule act_bind_cong_left [OF mr_moves_UInt8], rule act_bind_cong_left [OF mr_moves_Lenenc],
      rule act_bind_cong_left [OF mr_moves_VarUInt])
    fix name s t u v and n :: u64
    assume "mr_left t + 1 \<le> mr_left r" "mr_left u + 1 \<le> mr_left t" "mr_left s + 1 \<le> mr_left u"
    with 2(2) have "mr_left s < fuel" by simp
    from 2(1) [OF this] show "fields_read (Suc fuel) 0 (unat n) (MessageSchema_setName name schema) s =
        fields_read fuel 0 (unat n) (MessageSchema_setName name schema) s" .
  qed
next
  case (3 fuel i n schema)
  show ?case
  proof (cases "i \<ge> 2 ^ 31 \<or> i \<ge> n")
    case True
    then show ?thesis by (auto simp: fields_read.simps)
  next
    case False
    let ?sub = "\<lambda>fuel f. if sf_type f = F_OBJECT
      then act_bind (MessageSchema_read fuel empty_schema) (\<lambda>s. act_return (set_schema s f)) else act_return f"
    have moves: "mr_moves 0 (?sub fuel f)" for f by (auto intro!: mr_moves_intros schema_read_moves)
    have "act_bind (?sub (Suc fuel) f) (\<lambda>f. fields_read (Suc fuel) (i + 1) n (MessageSchema_addField f schema)) s =
        act_bind (?sub fuel f) (\<lambda>f. fields_read fuel (i + 1) n (MessageSchema_addField f schema)) s"
      if s: "mr_left s < fuel" for f s
    proof -
      have "?sub (Suc fuel) f s = ?sub fuel f s" using 3(1) [of f s] False s by (auto simp: act_bind_def)
      then have "act_bind (?sub (Suc fuel) f) (\<lambda>f. fields_read (Suc fuel) (i + 1) n (MessageSchema_addField f schema)) s =
          act_bind (?sub fuel f) (\<lambda>f. fields_read (Suc fuel) (i + 1) n (MessageSchema_addField f schema)) s"
        by (simp add: act_bind_def)
      also have "\<dots> = act_bind (?sub fuel f) (\<lambda>f. fields_read fuel (i + 1) n (MessageSchema_addField f schema)) s"
        by (rule act_bind_cong_left [OF moves]) (use 3(2) False s in simp)
      finally show ?thesis .
    qed
    then have "act_bind field_read (\<lambda>f. act_bind (?sub (Suc fuel) f)
          (\<lambda>f. fields_read (Suc fuel) (i + 1) n (MessageSchema_addField f schema))) r =
        act_bind field_read (\<lambda>f. act_bind (?sub fuel f)
          (\<lambda>f. fields_read fuel (i + 1) n (MessageSchema_addField f schema))) r"
      by (intro act_bind_cong_left [OF mr_moves_field]) (use 3(3) in simp)
    with False show ?thesis by (simp add: fields_read.simps [of _ i])
  qed
qed simp

text \<open>The fuel of \<open>decode\<close> is enough: more changes nothing.\<close>

lemma MessageSchema_decode_fuel:
  assumes "length data < fuel"
  shows "MessageSchema_decode data = res_bind (MessageSchema_read fuel empty_schema (mr_open data (length data))) (\<lambda>(s, _). Inr s)"
proof -
  have "MessageSchema_read (Suc (length data) + k) empty_schema (mr_open data (length data)) =
      MessageSchema_read (Suc (length data)) empty_schema (mr_open data (length data))" for k
  proof (induction k)
    case (Suc k)
    have "mr_left (mr_open data (length data)) < Suc (length data) + k" by (simp add: mr_left_def mr_open_def)
    from schema_read_fuel(1) [OF this] Suc show ?case by (simp only: add_Suc_right)
  qed (simp only: add_0_right)
  from this [of "fuel - Suc (length data)"] assms show ?thesis by (simp add: MessageSchema_decode_def)
qed

section \<open>Schemas survive encoding\<close>

text \<open>
  \<open>schema_ok\<close>: the schema was made by adding its fields to an empty one, its sizes fit, and
  exactly the object fields have a subschema.
\<close>

fun schema_ok :: "message_schema \<Rightarrow> bool" and schema_field_ok :: "schema_field \<Rightarrow> bool" where
  "schema_ok (Schema name fs ids types names) \<longleftrightarrow>
     length name < 2 ^ 64 \<and> length fs < 2 ^ 31 \<and> Schema name fs ids types names = MessageSchema name fs \<and>
     (\<forall>f \<in> set fs. schema_field_ok f)"
| "schema_field_ok (MessageSchemaField i name type n rep opt enc sub) \<longleftrightarrow>
     length name < 2 ^ 64 \<and> field_type_of_code (field_type_code type) = type \<and> hint_of_code (hint_code enc) = enc \<and>
     (case sub of None \<Rightarrow> type \<noteq> F_OBJECT | Some s \<Rightarrow> type = F_OBJECT \<and> schema_ok s)"

fun schema_bytes :: "message_schema \<Rightarrow> bytes" and schema_field_bytes :: "schema_field \<Rightarrow> bytes" where
  "schema_bytes (Schema name fs _ _ _) =
     [1] @ (varuint_bytes (word_of_nat (length name)) @ name) @ varuint_bytes (word_of_nat (length fs)) @
     concat (map schema_field_bytes fs)"
| "schema_field_bytes (MessageSchemaField i name type n rep opt enc sub) =
     (varuint_bytes (ucast i) @ (varuint_bytes (word_of_nat (length name)) @ name) @ [field_type_code type] @
      varuint_bytes n @ [flag_byte rep] @ [flag_byte opt] @ [hint_code enc]) @
     (case sub of None \<Rightarrow> [] | Some s \<Rightarrow> schema_bytes s)"

lemma mw_writes_seq_all:
  "mw_writes (mw_seq fs) bs \<Longrightarrow> (\<And>x. x \<in> set xs \<Longrightarrow> mw_writes (f x) (g x)) \<Longrightarrow>
     mw_writes (mw_seq (fs @ map f xs)) (bs @ concat (map g xs))"
  by (intro mw_writes_intros mw_writes_seq_map)

lemma mw_writes_cons3:
  "mw_writes (mw_seq (a # b # fs)) xs \<Longrightarrow> mw_writes c ys \<Longrightarrow> mw_writes (mw_seq (c # a # b # fs)) (ys @ xs)"
  by (intro mw_writes_intros)

lemma schema_encode_writes:
  "schema_ok s \<Longrightarrow> mw_writes (MessageSchema_encode s) (schema_bytes s)"
  "schema_field_ok f \<Longrightarrow> mw_writes (field_encode f) (schema_field_bytes f)"
proof (induction s and f rule: MessageSchema_encode_field_encode.induct)
  case (1 name fs ids types names)
  have "mw_writes (mw_seq ([mw_appendUInt8 1, mw_appendLenencString name, mw_appendVarUInt (word_of_nat (length fs))] @
       map field_encode fs)) (([1] @ (varuint_bytes (word_of_nat (length name)) @ name) @
       varuint_bytes (word_of_nat (length fs)) @ []) @ concat (map schema_field_bytes fs))"
  proof (rule mw_writes_seq_all)
    fix f assume "f \<in> set fs"
    with 1 show "mw_writes (field_encode f) (schema_field_bytes f)" by simp
  qed (intro mw_writes_intros)
  then show ?case
    by (simp only: MessageSchema_encode.simps schema_bytes.simps append_assoc append.simps append_Nil2)
next
  case (2 i name type n rep opt enc sub)
  have "mw_writes (mw_seq ([mw_appendVarUInt (ucast i), mw_appendLenencString name, mw_appendUInt8 (field_type_code type),
        mw_appendVarUInt n, mw_appendUInt8 (flag_byte rep), mw_appendUInt8 (flag_byte opt), mw_appendUInt8 (hint_code enc)] @
       (if type = F_OBJECT then [case sub of None \<Rightarrow> (\<lambda>_. Inl Undefined) | Some s \<Rightarrow> MessageSchema_encode s] else [])))
    ((varuint_bytes (ucast i) @ (varuint_bytes (word_of_nat (length name)) @ name) @ [field_type_code type] @
      varuint_bytes n @ [flag_byte rep] @ [flag_byte opt] @ [hint_code enc] @ []) @
     (case sub of None \<Rightarrow> [] | Some s \<Rightarrow> schema_bytes s @ []))"
  proof (rule mw_writes_seq_append)
    show "mw_writes (mw_seq (if type = F_OBJECT
        then [case sub of None \<Rightarrow> (\<lambda>_. Inl Undefined) | Some s \<Rightarrow> MessageSchema_encode s] else []))
       (case sub of None \<Rightarrow> [] | Some s \<Rightarrow> schema_bytes s @ [])"
    proof (cases sub)
      case (Some s)
      with 2 have "mw_writes (MessageSchema_encode s) (schema_bytes s)" "type = F_OBJECT" by auto
      from mw_writes_seq_Cons [OF this(1) mw_writes_seq_Nil] this(2) show ?thesis by (simp only: Some option.case simp_thms if_True)
    qed (use 2 in \<open>simp add: mw_writes_seq_Nil del: mw_seq.simps\<close>)
  qed (intro mw_writes_intros)
  then show ?case
    by (cases sub) (simp_all only: field_encode.simps schema_field_bytes.simps append_assoc append.simps append_Nil2 option.case)
qed

lemma flag_byte_gt [simp]: "0 < flag_byte b \<longleftrightarrow> b"
  by (simp add: flag_byte_def)

lemma field_read_reads:
  assumes "schema_field_ok (MessageSchemaField i name type n rep opt enc sub)"
  shows "mr_reads field_read (varuint_bytes (ucast i) @ (varuint_bytes (word_of_nat (length name)) @ name) @
      [field_type_code type] @ varuint_bytes n @ [flag_byte rep] @ [flag_byte opt] @ [hint_code enc])
    (MessageSchemaField i name type n rep opt enc None)"
proof -
  have name: "length name < 2 ^ 64" using assms by simp
  have "mr_reads field_read (varuint_bytes (ucast i) @ (varuint_bytes (word_of_nat (length name)) @ name) @
      [field_type_code type] @ varuint_bytes n @ [flag_byte rep] @ [flag_byte opt] @ [hint_code enc])
    (MessageSchemaField (ucast (ucast i :: u64)) name (field_type_of_code (field_type_code type)) n
       (0 < flag_byte rep) (0 < flag_byte opt) (hint_of_code (hint_code enc)) None)"
    unfolding field_read_def
    by (intro mr_reads_bind_return mr_reads_bind [OF mr_reads_varuint] mr_reads_bind [OF mr_reads_lenenc [OF name]]
        mr_reads_bind [OF mr_reads_ops(1)] mr_reads_ops)
  with assms show ?thesis by simp
qed

lemma sf_schema_ok: "schema_field_ok f \<Longrightarrow> sf_type f = F_OBJECT \<longleftrightarrow> sf_schema f \<noteq> None"
  by (cases f) (auto split: option.splits)

lemma fields_read_reads:
  assumes "\<And>f s. f \<in> set fs \<Longrightarrow> sf_schema f = Some s \<Longrightarrow> mr_reads (MessageSchema_read fuel empty_schema) (schema_bytes s) s"
    and "\<forall>f \<in> set fs. schema_field_ok f" and "i + length fs = n" and "n < 2 ^ 31"
  shows "mr_reads (fields_read fuel i n schema) (concat (map schema_field_bytes fs)) (fold MessageSchema_addField fs schema)"
  using assms
proof (induction fs arbitrary: i schema)
  case Nil
  then have "fields_read fuel i n schema = act_return schema" by (subst fields_read.simps) simp
  then show ?case by (simp only: list.map concat.simps fold_simps mr_reads_return)
next
  case (Cons f fs)
  obtain j name type m rep opt enc sub where f: "f = MessageSchemaField j name type m rep opt enc sub" by (cases f)
  let ?f = "MessageSchemaField j name type m rep opt enc None"
  have ok: "schema_field_ok f" using Cons.prems(2) by simp
  have sub: "mr_reads (if sf_type ?f = F_OBJECT
      then act_bind (MessageSchema_read fuel empty_schema) (\<lambda>s. act_return (set_schema s ?f)) else act_return ?f)
     (case sub of None \<Rightarrow> [] | Some s \<Rightarrow> schema_bytes s) f"
  proof (cases sub)
    case None
    then show ?thesis using sf_schema_ok [OF ok] mr_reads_return by (simp add: f)
  next
    case (Some s)
    then have "mr_reads (MessageSchema_read fuel empty_schema) (schema_bytes s) s"
      using Cons.prems(1) [of f s] by (simp add: f)
    from mr_reads_bind_return [OF this, of "\<lambda>s. set_schema s ?f"] show ?thesis
      using Some sf_schema_ok [OF ok] by (simp add: f)
  qed
  have "mr_reads (fields_read fuel (i + 1) n (MessageSchema_addField f schema)) (concat (map schema_field_bytes fs))
      (fold MessageSchema_addField fs (MessageSchema_addField f schema))"
    by (rule Cons.IH) (use Cons.prems in auto)
  then have "mr_reads (act_bind field_read (\<lambda>f. act_bind (if sf_type f = F_OBJECT
        then act_bind (MessageSchema_read fuel empty_schema) (\<lambda>s. act_return (set_schema s f)) else act_return f)
        (\<lambda>f. fields_read fuel (i + 1) n (MessageSchema_addField f schema))))
      ((varuint_bytes (ucast j) @ (varuint_bytes (word_of_nat (length name)) @ name) @ [field_type_code type] @
        varuint_bytes m @ [flag_byte rep] @ [flag_byte opt] @ [hint_code enc]) @
       (case sub of None \<Rightarrow> [] | Some s \<Rightarrow> schema_bytes s) @ concat (map schema_field_bytes fs))
      (fold MessageSchema_addField fs (MessageSchema_addField f schema))"
    by (intro mr_reads_bind [where v = ?f] mr_reads_bind [where v = f] field_read_reads [OF ok [unfolded f]] sub)
  then show ?case using Cons.prems(3,4) by (simp add: fields_read.simps [of _ i] f)
qed

lemma schema_read_reads:
  "schema_ok s \<Longrightarrow> length (schema_bytes s) \<le> fuel \<Longrightarrow> mr_reads (MessageSchema_read fuel empty_schema) (schema_bytes s) s"
  "schema_field_ok f \<Longrightarrow> sf_schema f = Some s' \<Longrightarrow> length (schema_bytes s') \<le> fuel \<Longrightarrow>
     mr_reads (MessageSchema_read fuel empty_schema) (schema_bytes s') s'"
proof (induction s and f arbitrary: fuel and fuel s' rule: MessageSchema_encode_field_encode.induct)
  case (1 name fs ids types names)
  let ?s = "Schema name fs ids types names"
  from 1(3) obtain k where k: "fuel = Suc k" by (cases fuel) simp_all
  have s: "?s = fold MessageSchema_addField fs (MessageSchema_setName name empty_schema)"
    using 1(2) by (simp add: MessageSchema_def)
  have "mr_reads (fields_read k 0 (unat (word_of_nat (length fs) :: u64)) (MessageSchema_setName name empty_schema))
      (concat (map schema_field_bytes fs)) ?s"
    unfolding s
  proof (rule fields_read_reads)
    fix f s assume f: "f \<in> set fs" "sf_schema f = Some s"
    then have "schema_field_ok f" using 1(2) by simp
    moreover have "length (schema_bytes s) \<le> length (schema_field_bytes f)" using f(2) by (cases f) simp
    moreover have "length (schema_field_bytes f) \<le> length (concat (map schema_field_bytes fs))"
      using f(1) by (auto simp: length_concat intro!: member_le_sum_list)
    moreover have "length (concat (map schema_field_bytes fs)) \<le> k" using 1(3) by (simp add: k)
    ultimately show "mr_reads (MessageSchema_read k empty_schema) (schema_bytes s) s"
      using 1(1) [OF f(1) _ f(2)] by simp
  qed (use 1(2) in \<open>auto simp: unat_of_nat\<close>)
  note flds = this
  have name: "length name < 2 ^ 64" using 1(2) by simp
  show ?case unfolding k MessageSchema_read.simps schema_bytes.simps
    by (rule mr_reads_bind, rule mr_reads_ops, rule mr_reads_bind, rule mr_reads_lenenc [OF name], rule mr_reads_bind,
        rule mr_reads_varuint, rule flds)
next
  case (2 i name type n rep opt enc sub)
  then show ?case by auto
qed

lemma schema_decode_encode:
  assumes "schema_ok s" and "0 < k" and "length (schema_bytes s) < 2 ^ 63"
  shows "\<exists>w. MessageSchema_encode s (mw_new k) = Inr w \<and> MessageSchema_decode (mw_data w) = Inr s"
proof -
  obtain w where w: "MessageSchema_encode s (mw_new k) = Inr w" "mw_data w = mw_data (mw_new k) @ schema_bytes s"
    using mw_writes_owned [OF schema_encode_writes(1) [OF assms(1)], of "mw_new k"] assms(2) by auto
  have data: "mw_data w = schema_bytes s" using w(2) by simp
  let ?r = "mr_open (schema_bytes s) (length (schema_bytes s))"
  have "mr_ok ?r" "mr_rest ?r = schema_bytes s @ []"
    using assms(3) by (simp_all add: mr_ok_def mr_rest_def mr_open_def)
  from mr_readsD [OF schema_read_reads(1) [OF assms(1), of "length (schema_bytes s) + 1"] this]
  have "MessageSchema_decode (schema_bytes s) = Inr s" by (simp add: MessageSchema_decode_def)
  with w(1) show ?thesis by (simp add: data)
qed

end
