(* ===== verification/CS_MessageCodec.thy ===== *)
theory CS_MessageCodec
  imports CS_Message
begin

text \<open>
  The wire format of messages (\<open>stx/protobuf/MessageEncoder.cc\<close>, \<open>MessageDecoder.cc\<close>): fields as
  key and payload, objects as length-prefixed sequences of fields. A reader may know fewer
  fields than the writer: it skips those its schema lacks.
\<close>

section \<open>MessageEncoder\<close>

text \<open>
  The key is computed in 32 bits. An exception of the body is caught, and raised again with the
  name of the field in its text; looking that name up may raise itself.
\<close>

definition field_key :: "u32 \<Rightarrow> u32 \<Rightarrow> u64" where
  "field_key i wire_type = ucast (push_bit 3 i OR wire_type)"

definition encode_guard :: "message_schema \<Rightarrow> u32 \<Rightarrow> 'a res \<Rightarrow> 'a res" where
  "encode_guard schema i body =
     (case body of
        Inr a \<Rightarrow> Inr a
      | Inl e \<Rightarrow> (if e = Undefined then Inl Undefined
                  else res_bind (MessageSchema_fieldName schema i) (\<lambda>_. Inl RuntimeError)))"

lemma asObject_size: "asObject msg = Inr fs \<Longrightarrow> f \<in> set fs \<Longrightarrow> size f < size msg"
  by (cases msg) (auto dest: size_list_estimation' [where f = size, OF _ order_refl])

function encodeObject :: "message_object \<Rightarrow> message_schema \<Rightarrow> message_writer \<Rightarrow> message_writer res" where
  "encodeObject msg schema data =
     encode_guard schema (mo_id msg) (res_bind (MessageSchema_fieldType schema (mo_id msg)) (\<lambda>type.
       case type of
         F_OBJECT \<Rightarrow>
           res_bind (MessageSchema_fieldSchema schema (mo_id msg)) (\<lambda>obj_schema.
           res_bind (asObject msg) (\<lambda>fs.
           res_bind (res_fold (\<lambda>f cld. follow (\<lambda>s. encodeObject f s cld) obj_schema) fs (mw_new kInitialDataSize)) (\<lambda>cld.
             mw_seq [mw_appendVarUInt (field_key (mo_id msg) 2), mw_appendVarUInt (word_of_nat (length (mw_data cld))),
                     mw_append (mw_data cld)] data)))
       | F_STRING \<Rightarrow>
           res_bind (asString msg) (\<lambda>str.
             mw_seq [mw_appendVarUInt (field_key (mo_id msg) 2), mw_appendVarUInt (word_of_nat (length str)),
                     mw_append str] data)
       | F_UINT32 \<Rightarrow>
           mw_seq [mw_appendVarUInt (field_key (mo_id msg) 0),
                   (\<lambda>data. res_bind (asUInt32 msg) (\<lambda>v. mw_appendVarUInt (ucast v) data))] data
       | F_UINT64 \<Rightarrow>
           mw_seq [mw_appendVarUInt (field_key (mo_id msg) 0),
                   (\<lambda>data. res_bind (asUInt64 msg) (\<lambda>v. mw_appendVarUInt v data))] data
       | F_DATETIME \<Rightarrow>
           mw_seq [mw_appendVarUInt (field_key (mo_id msg) 0),
                   (\<lambda>data. res_bind (asUInt64 msg) (\<lambda>v. mw_appendVarUInt v data))] data
       | F_DOUBLE \<Rightarrow>
           mw_seq [mw_appendVarUInt (field_key (mo_id msg) 1),
                   (\<lambda>data. res_bind (asDouble msg) (\<lambda>v. mw_appendDouble v data))] data
       | F_BOOLEAN \<Rightarrow>
           mw_seq [mw_appendVarUInt (field_key (mo_id msg) 0),
                   (\<lambda>data. res_bind (asBool msg) (\<lambda>b. mw_appendVarUInt (if b then 1 else 0) data))] data
       | F_Other _ \<Rightarrow> Inr data))"
  by pat_completeness auto
termination
  by (relation "measure (\<lambda>(msg, _). size msg)") (auto dest: asObject_size)

declare encodeObject.simps [simp del]

definition MessageEncoder_encode :: "message_object \<Rightarrow> message_schema \<Rightarrow> bytes \<Rightarrow> bytes res" where
  "MessageEncoder_encode msg schema buf =
     res_bind (asObject msg) (\<lambda>fs.
     res_bind (res_fold (\<lambda>f. encodeObject f schema) fs (mw_new kInitialDataSize)) (\<lambda>body.
       Inr (buf @ mw_data body)))"

section \<open>MessageDecoder\<close>

text \<open>
  The loop of \<open>decode\<close> over the fields of one object, which appends to the children \<open>fs\<close> that
  object already has. Ids are 32 bits wide: the upper bits of a longer key are cut off.
\<close>

definition skip_field :: "u64 \<Rightarrow> message_reader \<Rightarrow> (unit \<times> message_reader) res" where
  "skip_field wire_type =
     (if wire_type = 0 then act_bind mr_readVarUInt (\<lambda>_. act_return ())
      else if wire_type = 2 then act_bind mr_readVarUInt (\<lambda>len. act_bind (mr_read (unat len)) (\<lambda>_. act_return ()))
      else if wire_type = 5 then act_bind mr_readUInt32 (\<lambda>_. act_return ())
      else if wire_type = 1 then act_bind mr_readUInt64 (\<lambda>_. act_return ())
      else (\<lambda>_. Inl RuntimeError))"

lemma mr_moves_skip: "mr_moves 0 (skip_field wire_type)"
  unfolding skip_field_def mr_readUInt32_def mr_readUInt64_def
  by (auto intro!: mr_moves_intros mr_moves_ops mr_moves_weaken [OF mr_moves_read])

definition scalar_read :: "u32 \<Rightarrow> FieldType \<Rightarrow> message_reader \<Rightarrow> (message_object list \<times> message_reader) res" where
  "scalar_read fid type =
     (case type of
        F_UINT32 \<Rightarrow> act_bind mr_readVarUInt (\<lambda>v. act_return [MUInt32 fid (ucast v)])
      | F_UINT64 \<Rightarrow> act_bind mr_readVarUInt (\<lambda>v. act_return [MUInt64 fid v])
      | F_DATETIME \<Rightarrow> act_bind mr_readVarUInt (\<lambda>v. act_return [MDateTime fid v])
      | F_DOUBLE \<Rightarrow> act_bind mr_readDouble (\<lambda>v. act_return [MDouble fid v])
      | F_BOOLEAN \<Rightarrow> act_bind mr_readVarUInt (\<lambda>v. act_return [MBoolean fid (v = 1)])
      | F_STRING \<Rightarrow> act_bind mr_readVarUInt (\<lambda>len. act_bind (mr_read (unat len)) (\<lambda>s. act_return [MString fid s]))
      | _ \<Rightarrow> act_return [])"

lemma mr_moves_scalar: "mr_moves 0 (scalar_read fid type)"
  unfolding scalar_read_def mr_readDouble_def
  by (cases type) (auto intro!: mr_moves_intros mr_moves_ops mr_moves_weaken [OF mr_moves_read])

text \<open>An object is read from the bytes of its own length.\<close>

definition object_read :: "message_reader \<Rightarrow> (bytes \<times> message_reader) res" where
  "object_read = act_bind mr_readVarUInt (\<lambda>len r.
     if unat len > mr_remaining r then Inl BufferOverflowError else mr_read (unat len) r)"

lemma object_read_moves:
  assumes "object_read r = Inr (bs, r')"
  shows "mr_left r' + length bs < mr_left r" "length bs < mr_left r"
proof -
  from assms obtain len s where s: "mr_readVarUInt r = Inr (len, s)" "mr_read (unat len) s = Inr (bs, r')"
    by (auto simp: object_read_def act_bind_eq_Inr split: if_splits)
  from mr_movesD [OF mr_moves_VarUInt s(1)] have "mr_left s < mr_left r" by simp
  moreover have "mr_left r' + length bs \<le> mr_left s"
    using s(2) by (auto simp: mr_read_def mr_readString_def mr_left_def split: if_splits)
  ultimately show "mr_left r' + length bs < mr_left r" "length bs < mr_left r" by simp_all
qed

lemma decode_moves:
  "mr_readVarUInt r = Inr (v, s) \<Longrightarrow> mr_left s < mr_left r"
  "skip_field w r = Inr (u, s) \<Longrightarrow> mr_left s \<le> mr_left r"
  "scalar_read fid type r = Inr (c, s) \<Longrightarrow> mr_left s \<le> mr_left r"
  "object_read r = Inr (bs, s) \<Longrightarrow> mr_left s < mr_left r \<and> mr_left (mr_open bs (length bs)) < mr_left r"
  using mr_movesD [OF mr_moves_VarUInt, of r v s] mr_movesD [OF mr_moves_skip, of w r u s]
    mr_movesD [OF mr_moves_scalar, of fid type r c s] object_read_moves [of r bs s]
  by (simp_all add: mr_left_def mr_open_def)

function md_decode :: "message_schema \<Rightarrow> message_object list \<Rightarrow> message_reader \<Rightarrow> message_object list res" where
  "md_decode schema fs r =
     (if mr_remaining r = 0 then Inr fs
      else case mr_readVarUInt r of
        Inl e \<Rightarrow> Inl e
      | Inr (fkey, r1) \<Rightarrow>
          let fid = ucast (drop_bit 3 fkey) :: u32
          in if \<not> MessageSchema_hasField schema fid
             then (case skip_field (fkey AND 7) r1 of Inl e \<Rightarrow> Inl e | Inr (_, r2) \<Rightarrow> md_decode schema fs r2)
             else (case MessageSchema_fieldType schema fid of
                Inl e \<Rightarrow> Inl e
              | Inr type \<Rightarrow>
                  if type = F_OBJECT
                  then (case object_read r1 of
                          Inl e \<Rightarrow> Inl e
                        | Inr (bs, r2) \<Rightarrow>
                            (case MessageSchema_fieldSchema schema fid of
                               Inl e \<Rightarrow> Inl e
                             | Inr None \<Rightarrow> Inl Undefined
                             | Inr (Some s) \<Rightarrow>
                                 (case md_decode s [] (mr_open bs (length bs)) of
                                    Inl e \<Rightarrow> Inl e
                                  | Inr cld \<Rightarrow> md_decode schema (fs @ [MObject fid cld]) r2)))
                  else (case scalar_read fid type r1 of
                          Inl e \<Rightarrow> Inl e
                        | Inr (c, r2) \<Rightarrow> md_decode schema (fs @ c) r2)))"
  by pat_completeness auto
termination
  by (relation "measure (\<lambda>(schema, fs, r). mr_left r)") (auto dest!: decode_moves)

declare md_decode.simps [simp del]

definition MessageDecoder_decode :: "bytes \<Rightarrow> message_schema \<Rightarrow> message_object list \<Rightarrow> message_object list res" where
  "MessageDecoder_decode data schema fs = md_decode schema fs (mr_open data (length data))"

section \<open>What a reader with another schema gets\<close>

text \<open>
  \<open>conforms S m\<close>: the schema \<open>S\<close> describes the message \<open>m\<close>, with ids that fit beside the wire
  type. \<open>readable S m\<close>: where \<open>S\<close> has the field, it has it with the type of \<open>m\<close>. \<open>restrict S m\<close>
  is what is left of \<open>m\<close> when everything \<open>S\<close> does not know is dropped, at every depth.
\<close>

definition subschema :: "message_schema \<Rightarrow> u32 \<Rightarrow> message_schema option" where
  "subschema S i = (case MessageSchema_fieldSchema S i of Inr s \<Rightarrow> s | Inl _ \<Rightarrow> None)"

fun conforms :: "message_schema \<Rightarrow> message_object \<Rightarrow> bool" where
  "conforms S (MObject i fs) \<longleftrightarrow> i \<noteq> 0 \<and> unat i < 2 ^ 29 \<and> MessageSchema_fieldType S i = Inr F_OBJECT \<and>
     (case subschema S i of None \<Rightarrow> False | Some s \<Rightarrow> list_all (conforms s) fs)"
| "conforms S m \<longleftrightarrow> mo_id m \<noteq> 0 \<and> unat (mo_id m) < 2 ^ 29 \<and> MessageSchema_fieldType S (mo_id m) = Inr (mo_type m)"

fun readable :: "message_schema \<Rightarrow> message_object \<Rightarrow> bool" where
  "readable S (MObject i fs) \<longleftrightarrow> (MessageSchema_hasField S i \<longrightarrow> MessageSchema_fieldType S i = Inr F_OBJECT \<and>
     (case subschema S i of None \<Rightarrow> False | Some s \<Rightarrow> list_all (readable s) fs))"
| "readable S m \<longleftrightarrow> (MessageSchema_hasField S (mo_id m) \<longrightarrow> MessageSchema_fieldType S (mo_id m) = Inr (mo_type m))"

fun restrict :: "message_schema \<Rightarrow> message_object \<Rightarrow> message_object list" where
  "restrict S (MObject i fs) =
     (if MessageSchema_hasField S i
      then [MObject i (case subschema S i of None \<Rightarrow> [] | Some s \<Rightarrow> concat (map (restrict s) fs))] else [])"
| "restrict S m = (if MessageSchema_hasField S (mo_id m) then [m] else [])"

lemma fieldType_hasField: "MessageSchema_fieldType S i = Inr t \<Longrightarrow> i \<noteq> 0 \<Longrightarrow> MessageSchema_hasField S i"
  by (auto simp: MessageSchema_fieldType_def MessageSchema_hasField_def split: option.splits)

lemma conforms_id: "conforms S m \<Longrightarrow> mo_id m \<noteq> 0 \<and> unat (mo_id m) < 2 ^ 29 \<and> MessageSchema_fieldType S (mo_id m) = Inr (mo_type m)"
  by (cases m) auto

lemma subschema_Some: "subschema S i = Some s \<longleftrightarrow> MessageSchema_fieldSchema S i = Inr (Some s)"
  by (simp add: subschema_def split: sum.splits)

text \<open>A message can be read with the schema it was written with, and nothing of it is dropped.\<close>

lemma conforms_restrict: "conforms S m \<Longrightarrow> readable S m \<and> restrict S m = [m]"
proof (induction S m rule: conforms.induct)
  case (1 S i fs)
  then obtain s where s: "subschema S i = Some s" "list_all (conforms s) fs" by (auto split: option.splits)
  with 1 have all: "\<forall>f \<in> set fs. readable s f \<and> restrict s f = [f]" by (auto simp: list_all_iff)
  then have "map (restrict s) fs = map (\<lambda>f. [f]) fs" by simp
  then have "concat (map (restrict s) fs) = fs" by (simp only: concat_map_singleton list.map_ident)
  with all s 1(2) show ?case using fieldType_hasField [of S i] by (auto simp: list_all_iff)
qed (use fieldType_hasField in \<open>auto\<close>)

section \<open>The bytes of a message\<close>

fun wire_type :: "message_object \<Rightarrow> u32" where
  "wire_type (MObject _ _) = 2"
| "wire_type (MString _ _) = 2"
| "wire_type (MDouble _ _) = 1"
| "wire_type _ = 0"

fun mo_payload :: "message_object \<Rightarrow> bytes" where
  "mo_payload (MObject i fs) =
     (let bs = concat (map (\<lambda>f. varuint_bytes (field_key (mo_id f) (wire_type f)) @ mo_payload f) fs)
      in varuint_bytes (word_of_nat (length bs)) @ bs)"
| "mo_payload (MBoolean i b) = varuint_bytes (if b then 1 else 0)"
| "mo_payload (MUInt32 i v) = varuint_bytes (ucast v)"
| "mo_payload (MString i s) = varuint_bytes (word_of_nat (length s)) @ s"
| "mo_payload (MUInt64 i v) = varuint_bytes v"
| "mo_payload (MDouble i v) = u64_bytes (double_bits v)"
| "mo_payload (MDateTime i v) = varuint_bytes v"

definition mo_bytes :: "message_object \<Rightarrow> bytes" where
  "mo_bytes m = varuint_bytes (field_key (mo_id m) (wire_type m)) @ mo_payload m"

lemma mo_payload_object:
  "mo_payload (MObject i fs) = varuint_bytes (word_of_nat (length (concat (map mo_bytes fs)))) @ concat (map mo_bytes fs)"
  by (simp add: mo_bytes_def [abs_def] Let_def)

lemma guard_Inr [simp]: "encode_guard schema i (Inr a) = Inr a"
  by (simp add: encode_guard_def)

lemma mw_writes_guard: "mw_writes f bs \<Longrightarrow> mw_writes (\<lambda>w. encode_guard schema i (f w)) bs"
  unfolding mw_writes_def by fastforce

lemma mw_writes_fold:
  assumes "\<And>x. x \<in> set xs \<Longrightarrow> mw_writes (f x) (g x)"
  shows "mw_writes (res_fold f xs) (concat (map g xs))"
  using assms
proof (induction xs)
  case Nil
  show ?case by (simp add: mw_writes_def)
next
  case (Cons x xs)
  then show ?case using mw_writes_bind [of "f x" "g x" "res_fold f xs" "concat (map g xs)"] by (simp add: mw_writes_def)
qed

lemma encode_scalars:
  "conforms S (MBoolean i b) \<Longrightarrow> encodeObject (MBoolean i b) S = (\<lambda>w. encode_guard S i
     (mw_seq [mw_appendVarUInt (field_key i 0), mw_appendVarUInt (if b then 1 else 0)] w))"
  "conforms S (MUInt32 i u) \<Longrightarrow> encodeObject (MUInt32 i u) S = (\<lambda>w. encode_guard S i
     (mw_seq [mw_appendVarUInt (field_key i 0), mw_appendVarUInt (ucast u)] w))"
  "conforms S (MString i s) \<Longrightarrow> encodeObject (MString i s) S = (\<lambda>w. encode_guard S i
     (mw_seq [mw_appendVarUInt (field_key i 2), mw_appendVarUInt (word_of_nat (length s)), mw_append s] w))"
  "conforms S (MUInt64 i v) \<Longrightarrow> encodeObject (MUInt64 i v) S = (\<lambda>w. encode_guard S i
     (mw_seq [mw_appendVarUInt (field_key i 0), mw_appendVarUInt v] w))"
  "conforms S (MDouble i x) \<Longrightarrow> encodeObject (MDouble i x) S = (\<lambda>w. encode_guard S i
     (mw_seq [mw_appendVarUInt (field_key i 1), mw_appendDouble x] w))"
  "conforms S (MDateTime i t) \<Longrightarrow> encodeObject (MDateTime i t) S = (\<lambda>w. encode_guard S i
     (mw_seq [mw_appendVarUInt (field_key i 0), mw_appendVarUInt t] w))"
  by ((rule ext, subst encodeObject.simps, simp)+)

lemma encode_object:
  assumes "conforms S (MObject i fs)" and "subschema S i = Some s"
    and "res_fold (\<lambda>f. encodeObject f s) fs (mw_new kInitialDataSize) = Inr cld"
  shows "encodeObject (MObject i fs) S = (\<lambda>w. encode_guard S i (mw_seq [mw_appendVarUInt (field_key i 2),
    mw_appendVarUInt (word_of_nat (length (mw_data cld))), mw_append (mw_data cld)] w))"
proof (rule ext)
  fix w
  have "MessageSchema_fieldType S i = Inr F_OBJECT" "MessageSchema_fieldSchema S i = Inr (Some s)"
    using assms(1,2) by (simp_all add: subschema_Some)
  with assms(3) show "encodeObject (MObject i fs) S w = encode_guard S i (mw_seq [mw_appendVarUInt (field_key i 2),
      mw_appendVarUInt (word_of_nat (length (mw_data cld))), mw_append (mw_data cld)] w)"
    by (subst encodeObject.simps) simp
qed

lemma mw_writes_pair: "mw_writes f xs \<Longrightarrow> mw_writes g ys \<Longrightarrow> mw_writes (mw_seq [f, g]) (xs @ ys)"
  using mw_writes_seq_Cons [OF _ mw_writes_seq_Cons [OF _ mw_writes_seq_Nil], of f xs g ys] by simp

lemma mw_writes_triple:
  "mw_writes f xs \<Longrightarrow> mw_writes g ys \<Longrightarrow> mw_writes h zs \<Longrightarrow> mw_writes (mw_seq [f, g, h]) (xs @ ys @ zs)"
  using mw_writes_seq_Cons [OF _ mw_writes_pair, of f xs g ys h zs] by simp

lemma encodeObject_writes: "conforms S m \<Longrightarrow> mw_writes (encodeObject m S) (mo_bytes m)"
proof (induction m arbitrary: S)
  case (MObject i fs)
  then obtain s where s: "subschema S i = Some s" "list_all (conforms s) fs" by (auto split: option.splits)
  have "mw_writes (res_fold (\<lambda>f. encodeObject f s) fs) (concat (map mo_bytes fs))"
    by (rule mw_writes_fold) (use MObject s in \<open>auto simp: list_all_iff\<close>)
  from mw_writes_owned [OF this, of "mw_new kInitialDataSize"] obtain cld where cld:
    "res_fold (\<lambda>f. encodeObject f s) fs (mw_new kInitialDataSize) = Inr cld" "mw_data cld = concat (map mo_bytes fs)"
    by auto
  show ?case unfolding encode_object [OF MObject.prems s(1) cld(1)] cld(2) mo_bytes_def mo_payload_object
    message_object.sel wire_type.simps
    by (intro mw_writes_guard mw_writes_triple mw_writes_intros)
qed (simp only: encode_scalars mo_bytes_def mo_payload.simps message_object.sel wire_type.simps, intro mw_writes_guard mw_writes_pair mw_writes_triple mw_writes_intros)+

section \<open>Decoding\<close>

lemma key_bits:
  assumes "unat (i :: u32) < 2 ^ 29" shows "\<not> bit i (n + 29)"
proof -
  have "take_bit 29 (unat i) = unat i" using assms by (simp add: take_bit_nat_eq_self_iff)
  then have "bit (unat i) (n + 29) \<longleftrightarrow> bit (take_bit 29 (unat i)) (n + 29)" by simp
  then have "\<not> bit (unat i) (n + 29)" by (simp add: bit_take_bit_iff)
  then show ?thesis by (simp add: bit_unsigned_iff)
qed
lemma small_bits: "(w :: u32) \<in> {0, 1, 2} \<Longrightarrow> bit w n \<longleftrightarrow> w = 1 \<and> n = 0 \<or> w = 2 \<and> n = 1"
  by (auto simp: bit_1_iff bit_2_iff)
lemma field_key_parts:
  assumes "unat (i::u32) < 2 ^ 29" and "w \<in> {0, 1, 2}"
  shows "ucast (drop_bit 3 (field_key i w)) = i" "field_key i w AND 7 = ucast w"
  unfolding field_key_def
proof -
  show "ucast (drop_bit 3 (ucast (push_bit 3 i OR w) :: u64)) = i"
  proof (rule bit_word_eqI)
    fix n assume "n < LENGTH(32)"
    then show "bit (ucast (drop_bit 3 (ucast (push_bit 3 i OR w) :: u64)) :: u32) n = bit i n"
      using key_bits [OF assms(1), of "n - 29"] small_bits [OF assms(2), of "n + 3"] assms(2)
      by (cases "n < 29") (auto simp: bit_simps)
  qed
  have "(ucast (push_bit 3 i OR w) :: u64) AND 7 = take_bit 3 (ucast (push_bit 3 i OR w))"
    by (simp add: take_bit_eq_mask mask_eq_exp_minus_1)
  also have "\<dots> = ucast w"
  proof (rule bit_word_eqI)
    fix n assume "n < LENGTH(64)"
    show "bit (take_bit 3 (ucast (push_bit 3 i OR w) :: u64)) n = bit (ucast w :: u64) n"
      unfolding bit_take_bit_iff bit_ucast_iff bit_or_iff bit_push_bit_iff small_bits [OF assms(2)] by auto
  qed
  finally show "(ucast (push_bit 3 i OR w) :: u64) AND 7 = ucast w" .
qed

lemma wire_type_cases: "wire_type m \<in> {0, 1, 2}"
  by (cases m) simp_all

lemma skip_field_reads:
  assumes "length (mo_payload m) < 2 ^ 64"
  shows "mr_reads (skip_field (ucast (wire_type m))) (mo_payload m) ()"
proof -
  have "length s < 2 ^ 64 \<Longrightarrow> mr_reads (act_bind mr_readVarUInt (\<lambda>len. act_bind (mr_read (unat len)) (\<lambda>_. act_return ())))
      (varuint_bytes (word_of_nat (length s)) @ s) ()" for s
    by (rule mr_reads_bind [OF mr_reads_varuint], rule mr_reads_bind_return [where h = "\<lambda>_. ()"], rule mr_reads_read)
       (simp add: unat_of_nat)
  note lenenc = this
  have bytes8: "mr_reads (act_bind mr_readUInt64 (\<lambda>_. act_return ())) (u64_bytes v) ()" for v
    by (rule mr_reads_bind_return [where h = "\<lambda>_. ()"], rule mr_reads_ops)
  have varint: "mr_reads (act_bind mr_readVarUInt (\<lambda>_. act_return ())) (varuint_bytes v) ()" for v
    by (rule mr_reads_bind_return [where h = "\<lambda>_. ()"], rule mr_reads_varuint)
  show ?thesis
  proof (cases m)
    case (MObject i fs)
    with assms lenenc [of "concat (map mo_bytes fs)"] show ?thesis by (simp add: skip_field_def mo_payload_object del: mo_payload.simps)
  next
    case (MString i s)
    with assms lenenc [of s] show ?thesis by (simp add: skip_field_def)
  qed (simp_all add: skip_field_def varint bytes8)
qed

lemma scalar_read_reads:
  assumes "length (mo_payload m) < 2 ^ 64" and "mo_type m \<noteq> F_OBJECT"
  shows "mr_reads (scalar_read (mo_id m) (mo_type m)) (mo_payload m) [m]"
proof (cases m)
  case (MString i s)
  have "mr_reads (act_bind mr_readVarUInt (\<lambda>len. act_bind (mr_read (unat len)) (\<lambda>s. act_return [MString i s])))
      (varuint_bytes (word_of_nat (length s)) @ s) [MString i s]"
    using assms(1) MString
    by (intro mr_reads_bind [OF mr_reads_varuint] mr_reads_bind_return [where h = "\<lambda>s. [MString i s]"] mr_reads_read)
       (simp add: unat_of_nat)
  then show ?thesis by (simp add: MString scalar_read_def)
next
  case (MUInt32 i v)
  from mr_reads_bind_return [OF mr_reads_varuint [of "ucast v"], where h = "\<lambda>v. [MUInt32 i (ucast v)]"]
  show ?thesis by (simp add: MUInt32 scalar_read_def)
next
  case (MBoolean i b)
  from mr_reads_bind_return [OF mr_reads_varuint [of "if b then 1 else 0"], where h = "\<lambda>v. [MBoolean i (v = 1)]"]
  show ?thesis by (cases b) (simp_all add: MBoolean scalar_read_def)
next
  case (MDouble i x)
  from mr_reads_bind_return [OF mr_reads_ops(5) [of x], where h = "\<lambda>v. [MDouble i v]"]
  show ?thesis by (simp add: MDouble scalar_read_def)
qed (use assms(2) mr_reads_bind_return [OF mr_reads_varuint] in \<open>simp_all add: scalar_read_def\<close>)

lemma mr_remaining_rest: "mr_ok r \<Longrightarrow> mr_remaining r = length (mr_rest r)"
  by (simp add: mr_remaining_def length_mr_rest)

lemma object_read_reads:
  assumes "length bs < 2 ^ 64"
  shows "mr_reads object_read (varuint_bytes (word_of_nat (length bs)) @ bs) bs"
  unfolding object_read_def
proof (rule mr_reads_bind [OF mr_reads_varuint])
  have "unat (word_of_nat (length bs) :: u64) = length bs" using assms by (simp add: unat_of_nat)
  then show "mr_reads (\<lambda>r. if mr_remaining r < unat (word_of_nat (length bs) :: u64) then Inl BufferOverflowError
      else mr_read (unat (word_of_nat (length bs) :: u64)) r) bs bs"
    using mr_reads_read [of bs "length bs"] by (simp add: mr_reads_def mr_remaining_rest)
qed

text \<open>Every id of the message fits beside the wire type.\<close>

fun ids_ok :: "message_object \<Rightarrow> bool" where
  "ids_ok (MObject i fs) \<longleftrightarrow> unat i < 2 ^ 29 \<and> list_all ids_ok fs"
| "ids_ok m \<longleftrightarrow> unat (mo_id m) < 2 ^ 29"

lemma ids_ok_id: "ids_ok m \<Longrightarrow> unat (mo_id m) < 2 ^ 29"
  by (cases m) auto

lemma conforms_ids_ok: "conforms S m \<Longrightarrow> ids_ok m"
proof (induction S m rule: conforms.induct)
  case (1 S i fs)
  then show ?case by (auto simp: list_all_iff split: option.splits)
qed auto

lemma md_decode_nil: "mr_ok r \<Longrightarrow> mr_rest r = [] \<Longrightarrow> md_decode S fs r = Inr fs"
  by (subst md_decode.simps) (simp add: mr_remaining_rest)

lemma varuint_nonempty: "varuint_bytes v \<noteq> []"
  by (subst varuint_bytes.simps) (simp add: Let_def)

lemma mr_after:
  assumes "mr_ok r" and "mr_rest r = bs @ xs"
  shows "mr_ok (mr_advance (length bs) r)" "mr_rest (mr_advance (length bs) r) = xs" "length (bs @ xs) < 2 ^ 63"
proof -
  have "length (mr_rest r) < 2 ^ 63" using assms(1) length_mr_rest [OF assms(1)] by (auto simp: mr_ok_def)
  then show "length (bs @ xs) < 2 ^ 63" using assms(2) by simp
qed (use assms in simp_all)

lemma readable_known:
  "readable S m \<Longrightarrow> MessageSchema_hasField S (mo_id m) \<Longrightarrow> MessageSchema_fieldType S (mo_id m) = Inr (mo_type m)"
  by (cases m) auto

lemma md_decode_messages:
  "mr_ok r \<Longrightarrow> mr_rest r = concat (map mo_bytes ms) \<Longrightarrow> list_all ids_ok ms \<Longrightarrow> list_all (readable S) ms \<Longrightarrow>
     md_decode S fs r = Inr (fs @ concat (map (restrict S) ms))"
proof (induction ms arbitrary: S fs r rule: measure_induct_rule [where f = "size_list size"])
  case (less ms)
  show ?case
  proof (cases ms)
    case Nil
    with less.prems md_decode_nil show ?thesis by simp
  next
    case (Cons m ns)
    let ?key = "field_key (mo_id m) (wire_type m)"
    let ?r1 = "mr_advance (length (varuint_bytes ?key)) r"
    have i: "unat (mo_id m) < 2 ^ 29" using less.prems(3) ids_ok_id by (simp add: Cons)
    have rest: "mr_rest r = varuint_bytes ?key @ mo_payload m @ concat (map mo_bytes ns)"
      using less.prems(2) by (simp add: Cons mo_bytes_def [of m])
    note r1 = mr_after [OF less.prems(1) rest]
    let ?r2 = "mr_advance (length (mo_payload m)) ?r1"
    note r2 = mr_after [OF r1(1,2)]
    have key: "mr_readVarUInt r = Inr (?key, ?r1)" by (rule mr_readsD [OF mr_reads_varuint less.prems(1) rest])
    have fid: "ucast (drop_bit 3 ?key) = mo_id m" and wt: "?key AND 7 = ucast (wire_type m)"
      using field_key_parts [OF i wire_type_cases] by auto
    have size: "length (mo_payload m) < 2 ^ 64" using r2(3) by simp
    have more: "mr_remaining r \<noteq> 0"
      using varuint_nonempty [of ?key] by (simp add: mr_remaining_rest [OF less.prems(1)] rest)
    have tl: "md_decode S gs ?r2 = Inr (gs @ concat (map (restrict S) ns))" for gs
      using less.IH [of ns ?r2 S gs] r2(1,2) less.prems(3,4) by (simp add: Cons)
    show ?thesis
    proof (cases "MessageSchema_hasField S (mo_id m)")
      case False
      have "skip_field (?key AND 7) ?r1 = Inr ((), ?r2)"
        unfolding wt by (rule mr_readsD [OF skip_field_reads [OF size] r1(1,2)])
      with False more key fid tl [of fs] show ?thesis
        by (subst md_decode.simps) (cases m, simp_all add: Cons)
    next
      case True
      have type: "MessageSchema_fieldType S (mo_id m) = Inr (mo_type m)"
        using readable_known True less.prems(4) by (simp add: Cons)
      show ?thesis
      proof (cases "mo_type m = F_OBJECT")
        case False
        have "scalar_read (mo_id m) (mo_type m) ?r1 = Inr ([m], ?r2)"
          by (rule mr_readsD [OF scalar_read_reads [OF size False] r1(1,2)])
        with True False more key fid type tl [of "fs @ [m]"] show ?thesis
          by (subst md_decode.simps) (cases m, simp_all add: Cons)
      next
        case object: True
        then obtain j cs where m: "m = MObject j cs" by (cases m) auto
        let ?bs = "concat (map mo_bytes cs)"
        from less.prems(4) True obtain s where s: "subschema S j = Some s" "list_all (readable s) cs"
          by (auto simp: Cons m split: option.splits)
        have payload: "mo_payload m = varuint_bytes (word_of_nat (length ?bs)) @ ?bs" unfolding m by (rule mo_payload_object)
        have bs: "length ?bs < 2 ^ 63" using r2(3) by (simp add: payload)
        then have "length ?bs < 2 ^ 64" by simp
        from mr_readsD [OF object_read_reads [OF this] r1(1), unfolded payload [symmetric], OF r1(2)]
        have obj: "object_read ?r1 = Inr (?bs, ?r2)" .
        have "mr_ok (mr_open ?bs (length ?bs))" "mr_rest (mr_open ?bs (length ?bs)) = ?bs"
          using bs by (simp_all add: mr_ok_def mr_open_def mr_rest_def)
        then have cld: "md_decode s [] (mr_open ?bs (length ?bs)) = Inr (concat (map (restrict s) cs))"
          using less.IH [of cs _ s "[]"] less.prems(3) s(2) by (simp add: Cons m)
        have sch: "MessageSchema_fieldSchema S j = Inr (Some s)" using s(1) by (simp add: subschema_Some)
        show ?thesis
          using True more key fid type obj cld sch tl [of "fs @ [MObject j (concat (map (restrict s) cs))]"] s(1)
          by (subst md_decode.simps) (simp add: Cons m)
      qed
    qed
  qed
qed

lemma MessageEncoder_decode:
  assumes enc: "\<forall>m \<in> set ms. conforms S m" and dec: "\<forall>m \<in> set ms. readable S' m"
    and size: "length (concat (map mo_bytes ms)) < 2 ^ 63"
  shows "\<exists>data. MessageEncoder_encode (MObject i ms) S buf = Inr (buf @ data) \<and>
    MessageDecoder_decode data S' fs = Inr (fs @ concat (map (restrict S') ms))"
proof -
  have "mw_writes (res_fold (\<lambda>f. encodeObject f S) ms) (concat (map mo_bytes ms))"
    by (rule mw_writes_fold) (use enc encodeObject_writes in auto)
  from mw_writes_owned [OF this, of "mw_new kInitialDataSize"] obtain w where w:
    "res_fold (\<lambda>f. encodeObject f S) ms (mw_new kInitialDataSize) = Inr w" "mw_data w = concat (map mo_bytes ms)"
    by auto
  let ?r = "mr_open (mw_data w) (length (mw_data w))"
  have "mr_ok ?r" "mr_rest ?r = concat (map mo_bytes ms)"
    using size by (simp_all add: w(2) mr_ok_def mr_open_def mr_rest_def)
  then have "md_decode S' fs ?r = Inr (fs @ concat (map (restrict S') ms))"
    using md_decode_messages [of ?r ms S' fs] enc dec conforms_ids_ok by (auto simp: list_all_iff)
  with w(1) show ?thesis by (simp add: MessageEncoder_encode_def MessageDecoder_decode_def)
qed

lemma MessageEncoder_decode_both:
  assumes enc: "\<forall>m \<in> set ms. conforms S m" and "\<forall>m \<in> set ms. readable S' m"
    and "length (concat (map mo_bytes ms)) < 2 ^ 63"
  shows "\<exists>data. MessageEncoder_encode (MObject i ms) S buf = Inr (buf @ data) \<and>
    MessageDecoder_decode data S' fs = Inr (fs @ concat (map (restrict S') ms)) \<and>
    MessageDecoder_decode data S fs = Inr (fs @ ms)"
proof -
  have same: "\<forall>m \<in> set ms. readable S m" "map (restrict S) ms = map (\<lambda>m. [m]) ms"
    using enc conforms_restrict by auto
  have all: "concat (map (restrict S) ms) = ms" by (simp only: same(2) concat_map_singleton list.map_ident)
  from MessageEncoder_decode [OF assms, of i buf fs] MessageEncoder_decode [OF enc same(1) assms(3), of i buf fs] all
  show ?thesis by auto
qed

end
