(* ===== verification/CS_Allocation.thy ===== *)
theory CS_Allocation
  imports CS_PageManager
begin

text \<open>
  The pages a page manager hands out: each large enough and sector aligned in size, one behind the
  other, so that writing one leaves the others as they are.
\<close>

fun alloc_pages :: "nat list \<Rightarrow> page_manager \<Rightarrow> PageRef list \<times> page_manager" where
  "alloc_pages [] pm = ([], pm)"
| "alloc_pages (n # ns) pm =
     (let (p, pm) = pm_allocPage (word_of_nat n) pm; (ps, pm) = alloc_pages ns pm in (p # ps, pm))"

definition page_start :: "PageRef \<Rightarrow> nat" where "page_start p = unat (pr_offset p)"
definition page_end :: "PageRef \<Rightarrow> nat" where "page_end p = unat (pr_offset p) + unat (pr_size p)"

lemma alloc_page_ok:
  assumes "n + 511 < 2 ^ 32" and "unat (pm_offset pm) + n + 511 < 2 ^ 64"
  shows "\<exists>p pm'. pm_allocPage (word_of_nat n) pm = (p, pm') \<and> page_start p = unat (pm_offset pm) \<and>
    unat (pm_offset pm') = page_end p \<and> unat (pr_size p) = n + sector_padding n"
proof -
  let ?p = "fst (pm_allocPage (word_of_nat n) pm)" and ?pm = "snd (pm_allocPage (word_of_nat n) pm)"
  have sz: "unat (pr_size ?p) = n + sector_padding n" by (rule allocPage_size [OF assms(1)])
  have "n + sector_padding n \<le> n + 511" using sector_padding_mod(2) [of n] by simp
  then have "unat (pm_offset pm) + unat (pr_size ?p) < 2 ^ 64" using sz assms(2) by simp
  from unat_add_small [OF this] have "unat (pm_offset ?pm) = unat (pm_offset pm) + unat (pr_size ?p)"
    by (simp add: allocPage_offset(2))
  then show ?thesis using sz allocPage_offset(1) [of "word_of_nat n" pm]
    by (intro exI [of _ ?p] exI [of _ ?pm]) (simp add: page_start_def page_end_def)
qed

lemma alloc_pages_ok:
  "\<forall>n \<in> set ns. n + 511 < 2 ^ 32 \<Longrightarrow> unat (pm_offset pm) + (\<Sum>n \<leftarrow> ns. n + 511) < 2 ^ 64 \<Longrightarrow>
     alloc_pages ns pm = (ps, pm') \<Longrightarrow>
     list_all2 (\<lambda>n p. n \<le> unat (pr_size p) \<and> 512 dvd unat (pr_size p)) ns ps \<and>
     sorted_wrt (\<lambda>p q. page_end p \<le> page_start q) ps \<and>
     (\<forall>p \<in> set ps. unat (pm_offset pm) \<le> page_start p \<and> page_end p \<le> unat (pm_offset pm')) \<and>
     unat (pm_offset pm) \<le> unat (pm_offset pm')"
proof (induction ns arbitrary: pm ps)
  case (Cons n ns)
  have n: "n + 511 < 2 ^ 32" "unat (pm_offset pm) + n + 511 < 2 ^ 64" using Cons.prems(1,2) by auto
  from alloc_page_ok [OF n] obtain p pm1 where p: "pm_allocPage (word_of_nat n) pm = (p, pm1)"
    "page_start p = unat (pm_offset pm)" "unat (pm_offset pm1) = page_end p" "unat (pr_size p) = n + sector_padding n" by blast
  obtain qs pm2 where qs: "alloc_pages ns pm1 = (qs, pm2)" by (cases "alloc_pages ns pm1")
  with Cons.prems(3) p(1) have ps: "ps = p # qs" "pm2 = pm'" by (simp_all add: Let_def)
  have bound: "unat (pm_offset pm1) \<le> unat (pm_offset pm) + n + 511"
    using p sector_padding_mod(2) [of n] by (simp add: page_end_def page_start_def)
  have IH: "list_all2 (\<lambda>n p. n \<le> unat (pr_size p) \<and> 512 dvd unat (pr_size p)) ns qs \<and>
     sorted_wrt (\<lambda>p q. page_end p \<le> page_start q) qs \<and>
     (\<forall>p \<in> set qs. unat (pm_offset pm1) \<le> page_start p \<and> page_end p \<le> unat (pm_offset pm')) \<and>
     unat (pm_offset pm1) \<le> unat (pm_offset pm')"
    by (rule Cons.IH [OF _ _ qs [unfolded ps(2)]]) (use Cons.prems(1,2) bound in auto)
  have "unat (pm_offset pm) \<le> unat (pm_offset pm1)" using p(2,3) by (simp add: page_end_def page_start_def)
  moreover have "512 dvd unat (pr_size p)" using sector_padding_mod(1) [of n] by (simp only: p(4) dvd_eq_mod_eq_0)
  ultimately show ?case using IH p(2-4) by (auto simp: ps)
qed simp

lemma writePage_other:
  assumes "length data \<le> unat (pr_size p)" and "page_end q \<le> page_start p \<or> page_end p \<le> page_start q"
    and "page_end q \<le> length (pm_file pm)"
  shows "region (page_start q) (unat (pr_size q)) (pm_file (pm_writePage p data pm)) =
    region (page_start q) (unat (pr_size q)) (pm_file pm)"
  using assms by (simp add: pm_writePage_padded page_start_def page_end_def region_pwrite_other)

lemma sorted_pages_apart:
  "sorted_wrt (\<lambda>p q. page_end p \<le> page_start q) ps \<Longrightarrow> i < length ps \<Longrightarrow> j < length ps \<Longrightarrow> i \<noteq> j \<Longrightarrow>
     page_end (ps ! j) \<le> page_start (ps ! i) \<or> page_end (ps ! i) \<le> page_start (ps ! j)"
  by (metis nat_neq_iff sorted_wrt_nth_less)

end
