(* ===== verification/CS_Shredder.thy ===== *)
theory CS_Shredder
  imports CS_SessionV1 CS_Message
begin

text \<open>
  \<open>TableSchema::fromProtobuf\<close> (\<open>cstable/TableSchema.cc\<close>) and the shredding of a message into the
  columns of a table (\<open>cstable/RecordShredder.cc\<close>): one cell for every leaf of the message, with
  the repetition and definition level that place it, and a null for every branch that is
  missing.
\<close>

section \<open>The columns of a message schema\<close>

text \<open>
  A returned \<open>TableSchema\<close> is constructed in place; it is copied once, where it becomes a
  subschema. A field type outside the enumeration adds no column.
\<close>

fun TableSchema_fromProtobuf ::
    "(schema_column list \<Rightarrow> schema_column list) \<Rightarrow> message_schema \<Rightarrow> table_schema res"
  and field_fromProtobuf ::
    "(schema_column list \<Rightarrow> schema_column list) \<Rightarrow> schema_field \<Rightarrow> table_schema \<Rightarrow> table_schema res" where
  "TableSchema_fromProtobuf order (Schema _ fs _ _ _) = res_fold (field_fromProtobuf order) fs []"
| "field_fromProtobuf order (MessageSchemaField i name type n rep opt enc schema) rs =
     (case type of
        F_OBJECT \<Rightarrow> res_bind (follow (TableSchema_fromProtobuf order) schema) (\<lambda>sub.
          Inr (if rep then TableSchema_addSubrecordArray order name sub opt rs
               else TableSchema_addSubrecord order name sub opt rs))
      | F_BOOLEAN \<Rightarrow> Inr (TableSchema_addColumn name BOOLEAN BOOLEAN_BITPACKED rep opt 0 rs)
      | F_STRING \<Rightarrow> Inr (TableSchema_addColumn name STRING STRING_PLAIN rep opt 0 rs)
      | F_UINT64 \<Rightarrow> Inr (TableSchema_addColumn name UNSIGNED_INT UINT64_LEB128 rep opt 0 rs)
      | F_UINT32 \<Rightarrow> Inr (TableSchema_addColumn name UNSIGNED_INT UINT64_LEB128 rep opt 0 rs)
      | F_DOUBLE \<Rightarrow> Inr (TableSchema_addColumn name FLOAT FLOAT_IEEE754 rep opt 0 rs)
      | F_DATETIME \<Rightarrow> Inr (TableSchema_addColumn name DATETIME UINT64_LEB128 rep opt 0 rs)
      | F_Other _ \<Rightarrow> Inr rs)"

section \<open>Writing through a column pointer\<close>

text \<open>
  A \<open>ColumnWriter\<close> of the table is one of the classes of the first format or the paged column
  of the second, by the format of the table. \<open>i\<close> is the index \<open>getColumnWriter\<close> returns.
\<close>

definition tw_write ::
  "(column_writer \<Rightarrow> column_writer res) \<Rightarrow> (v2_column \<Rightarrow> v2_state \<Rightarrow> v2_state res) \<Rightarrow> nat \<Rightarrow> table_writer \<Rightarrow> table_writer res" where
  "tw_write f1 f2 i tw =
     (case tw_version tw of
        V0_1_0 \<Rightarrow> tw_write_column i f1 tw
      | V0_2_0 \<Rightarrow> res_bind (f2 (tw_v2_writers tw ! i) (tw_state tw)) (\<lambda>st. Inr (tw\<lparr>tw_state := st\<rparr>)))"

definition tw_writeNull :: "u64 \<Rightarrow> u64 \<Rightarrow> nat \<Rightarrow> table_writer \<Rightarrow> table_writer res" where
  "tw_writeNull r d = tw_write (\<lambda>w. Inr (cw_writeNull r d w)) (\<lambda>c st. Inr (DefaultColumnWriter_writeNull c r d st))"

definition tw_writeBoolean :: "u64 \<Rightarrow> u64 \<Rightarrow> bool \<Rightarrow> nat \<Rightarrow> table_writer \<Rightarrow> table_writer res" where
  "tw_writeBoolean r d v =
     tw_write (cw_writeBoolean r d v) (\<lambda>c st. Inr (UnsignedIntColumnWriter_writeBoolean c r d v st))"

definition tw_writeUnsignedInt :: "u64 \<Rightarrow> u64 \<Rightarrow> u64 \<Rightarrow> nat \<Rightarrow> table_writer \<Rightarrow> table_writer res" where
  "tw_writeUnsignedInt r d v =
     tw_write (cw_writeUnsignedInt r d v) (\<lambda>c st. Inr (UnsignedIntColumnWriter_writeUnsignedInt c r d v st))"

definition tw_writeFloat :: "u64 \<Rightarrow> u64 \<Rightarrow> double \<Rightarrow> nat \<Rightarrow> table_writer \<Rightarrow> table_writer res" where
  "tw_writeFloat r d v = tw_write (cw_writeFloat r d v) (\<lambda>c. UnsignedIntColumnWriter_writeFloat c r d v)"

definition tw_writeString :: "u64 \<Rightarrow> u64 \<Rightarrow> bytes \<Rightarrow> nat \<Rightarrow> table_writer \<Rightarrow> table_writer res" where
  "tw_writeString r d v = tw_write (cw_writeString r d v) (\<lambda>c. UnsignedIntColumnWriter_writeString c r d v)"

definition tw_writeDateTime :: "u64 \<Rightarrow> u64 \<Rightarrow> u64 \<Rightarrow> nat \<Rightarrow> table_writer \<Rightarrow> table_writer res" where
  "tw_writeDateTime r d v =
     tw_write (cw_writeDateTime r d v) (\<lambda>c st. Inr (UnsignedIntColumnWriter_writeDateTime c r d v st))"

section \<open>RecordShredder\<close>

fun writeProtoNull :: "u32 \<Rightarrow> u32 \<Rightarrow> bytes \<Rightarrow> schema_column \<Rightarrow> table_writer \<Rightarrow> table_writer res" where
  "writeProtoNull r d column (Column name type enc n rep opt sub) tw =
     (if type = SUBRECORD
      then deref (\<lambda>fs. res_fold (\<lambda>f tw. deref (\<lambda>c. writeProtoNull r d (column @ [46] @ col_name c) c tw) f) fs tw) sub
      else res_bind (CSTableWriter_getColumnWriter tw column) (\<lambda>col. tw_writeNull (ucast r) (ucast d) col tw))"

definition writeProtoField ::
  "u32 \<Rightarrow> u32 \<Rightarrow> message_object \<Rightarrow> bytes \<Rightarrow> ColumnType \<Rightarrow> table_writer \<Rightarrow> table_writer res" where
  "writeProtoField r d msg column type tw =
     res_bind (CSTableWriter_getColumnWriter tw column) (\<lambda>col.
       case type of
         STRING \<Rightarrow> res_bind (asString msg) (\<lambda>str. tw_writeString (ucast r) (ucast d) str col tw)
       | UNSIGNED_INT \<Rightarrow> res_bind (asUInt64 msg) (\<lambda>v. tw_writeUnsignedInt (ucast r) (ucast d) v col tw)
       | SIGNED_INT \<Rightarrow> Inl NotImplementedError
       | DATETIME \<Rightarrow> res_bind (asUnixTime msg) (\<lambda>v. tw_writeDateTime (ucast r) (ucast d) v col tw)
       | FLOAT \<Rightarrow> res_bind (asDouble msg) (\<lambda>v. tw_writeFloat (ucast r) (ucast d) v col tw)
       | BOOLEAN \<Rightarrow> res_bind (asBool msg) (\<lambda>v. tw_writeBoolean (ucast r) (ucast d) v col tw)
       | SUBRECORD \<Rightarrow> Inl IllegalStateError
       | OtherType _ \<Rightarrow> Inr tw)"

text \<open>
  The loop over the children of \<open>msg\<close> carries \<open>next_r\<close>, the number of matches \<open>n\<close> and the
  writer. \<open>col_name\<close>, \<open>type\<close> and so on are the members of \<open>field\<close>.
\<close>

fun addProtoRecordField ::
  "u32 \<Rightarrow> u32 \<Rightarrow> u32 \<Rightarrow> message_object \<Rightarrow> message_schema \<Rightarrow> bytes \<Rightarrow> schema_column \<Rightarrow> table_writer \<Rightarrow> table_writer res" where
  "addProtoRecordField r rmax d msg msg_schema column (Column name type enc m repeated optional sub) tw =
     (let rmax' = (if repeated then rmax + 1 else rmax);
          next_d = (if optional \<or> repeated then d + 1 else d)
      in res_bind (MessageSchema_fieldId msg_schema name) (\<lambda>field_id.
         res_bind (asObject msg) (\<lambda>os.
         res_bind (res_fold (\<lambda>obj (next_r, n, tw).
             if mo_id obj \<noteq> field_id then Inr (next_r, n, tw)
             else res_bind
                (if type = SUBRECORD
                 then res_bind (MessageSchema_fieldSchema msg_schema field_id) (\<lambda>o_schema.
                      deref (\<lambda>fs. res_fold (\<lambda>f tw. deref (\<lambda>c. follow (\<lambda>s.
                        addProtoRecordField next_r rmax' next_d obj s (column @ name @ [46]) c tw) o_schema) f) fs tw) sub)
                 else writeProtoField next_r next_d obj (column @ name) type tw)
                (\<lambda>tw. Inr (rmax', n + 1, tw)))
           os (r, 0 :: nat, tw)) (\<lambda>(_, n, tw).
           if n = 0
           then (if \<not> (optional \<or> repeated) then Inl IllegalArgumentError
                 else writeProtoNull r d (column @ name) (Column name type enc m repeated optional sub) tw)
           else Inr tw))))"

definition addRecordFromProtobuf ::
  "table_schema \<Rightarrow> message_object \<Rightarrow> message_schema \<Rightarrow> table_writer \<Rightarrow> table_writer res" where
  "addRecordFromProtobuf schema msg msg_schema tw =
     res_bind (res_fold (\<lambda>f tw. deref (\<lambda>c. addProtoRecordField 0 0 0 msg msg_schema [] c tw) f) schema tw) (\<lambda>tw.
       Inr (CSTableWriter_addRow tw))"

section \<open>What shredding writes\<close>

text \<open>
  The cells a message gives, in the order they are written, each with the name of its column.
  Levels are counted in natural numbers here; \<open>level\<close> is the 32-bit counter of the code
  passed on as 64 bits. \<open>datum_of\<close> is the value of a leaf.
\<close>

definition level :: "nat \<Rightarrow> u64" where
  "level n = ucast (word_of_nat n :: u32)"

fun datum_of :: "message_object \<Rightarrow> datum" where
  "datum_of (MBoolean _ b) = DBool b"
| "datum_of (MUInt32 _ v) = DUInt (ucast v)"
| "datum_of (MString _ s) = DString s"
| "datum_of (MUInt64 _ v) = DUInt v"
| "datum_of (MDouble _ v) = DFloat v"
| "datum_of (MDateTime _ v) = DUInt v"
| "datum_of (MObject _ _) = DUInt 0"

fun mo_children :: "message_object \<Rightarrow> message_object list" where
  "mo_children (MObject _ fs) = fs"
| "mo_children _ = []"

definition field_id :: "message_schema \<Rightarrow> bytes \<Rightarrow> u32" where
  "field_id S name = (case ms_field_ids S name of Some i \<Rightarrow> i | None \<Rightarrow> 0)"

definition field_schema :: "message_schema \<Rightarrow> bytes \<Rightarrow> message_schema" where
  "field_schema S name =
     (case first_field (field_id S name) (ms_fields S) of
        Some f \<Rightarrow> (case sf_schema f of Some s \<Rightarrow> s | None \<Rightarrow> empty_schema) | None \<Rightarrow> empty_schema)"

definition subcolumns :: "table_schema option \<Rightarrow> schema_column list" where
  "subcolumns sub = (case sub of None \<Rightarrow> [] | Some fs \<Rightarrow> live fs)"

lemma live_size: "Some c \<in> set fs \<Longrightarrow> size c < Suc (size_list (size_option size) fs)"
  by (induction fs) auto

lemma set_live: "c \<in> set (live fs) \<longleftrightarrow> Some c \<in> set fs"
  by (induction fs) (auto simp: live_def List.map_filter_def split: option.splits)

lemma subcolumns_size [termination_simp]: "c \<in> set (subcolumns sub) \<Longrightarrow> size c < Suc (size_option (size_list (size_option size)) sub)"
  by (auto simp: subcolumns_def set_live split: option.splits dest!: live_size)

fun null_ops :: "nat \<Rightarrow> nat \<Rightarrow> bytes \<Rightarrow> schema_column \<Rightarrow> (bytes \<times> datum cell) list" where
  "null_ops r d column (Column name type enc n rep opt sub) =
     (if type = SUBRECORD then concat (map (\<lambda>c. null_ops r d (column @ [46] @ col_name c) c) (subcolumns sub))
      else [(column, (level r, level d, None))])"

fun shred_ops ::
  "nat \<Rightarrow> nat \<Rightarrow> nat \<Rightarrow> message_object list \<Rightarrow> message_schema \<Rightarrow> bytes \<Rightarrow> schema_column \<Rightarrow> (bytes \<times> datum cell) list" where
  "shred_ops r rm d os S column (Column name type enc n rep opt sub) =
     (let rm' = (if rep then rm + 1 else rm);
          d' = (if opt \<or> rep then d + 1 else d);
          ms = children (field_id S name) os
      in if ms = [] then null_ops r d (column @ name) (Column name type enc n rep opt sub)
         else concat (map (\<lambda>(r, m).
                if type = SUBRECORD
                then concat (map (\<lambda>c. shred_ops r rm' d' (mo_children m) (field_schema S name) (column @ name @ [46]) c)
                       (subcolumns sub))
                else [(column @ name, (level r, level d', Some (datum_of m)))])
              (zip (r # replicate (length ms - 1) rm') ms)))"

definition shred_record :: "table_schema \<Rightarrow> message_object list \<Rightarrow> message_schema \<Rightarrow> (bytes \<times> datum cell) list" where
  "shred_record ts os S = concat (map (shred_ops 0 0 0 os S []) (live ts))"

section \<open>Schemas and rows that fit\<close>

text \<open>
  \<open>schema_wf\<close>: names and ids are distinct at every level, ids are not 0, object fields have a
  schema with at least one field. \<open>row_ok S os\<close>: the children \<open>os\<close> are a row of \<open>S\<close>: every one
  is a field of \<open>S\<close> with its type, its strings have a 32-bit length, and fields occur as often as
  they may.
\<close>

fun known_field_type :: "FieldType \<Rightarrow> bool" where
  "known_field_type (F_Other b) = False"
| "known_field_type _ = True"

fun schema_wf :: "message_schema \<Rightarrow> bool" and field_wf :: "schema_field \<Rightarrow> bool" where
  "schema_wf (Schema nm fs ids types names) \<longleftrightarrow>
     Schema nm fs ids types names = MessageSchema nm fs \<and> distinct (map sf_name fs) \<and> distinct (map sf_id fs) \<and>
     fs \<noteq> [] \<and> list_all field_wf fs"
| "field_wf (MessageSchemaField i name type n rep opt enc sub) \<longleftrightarrow>
     i \<noteq> 0 \<and> known_field_type type \<and>
     (case sub of None \<Rightarrow> type \<noteq> F_OBJECT | Some s \<Rightarrow> type = F_OBJECT \<and> schema_wf s)"

definition counts_ok :: "message_schema \<Rightarrow> message_object list \<Rightarrow> bool" where
  "counts_ok S os \<longleftrightarrow> list_all (\<lambda>f. let n = length (children (sf_id f) os)
     in (sf_repeated f \<or> n \<le> 1) \<and> (sf_repeated f \<or> sf_optional f \<or> n \<noteq> 0)) (ms_fields S)"

fun value_ok :: "message_schema \<Rightarrow> message_object \<Rightarrow> bool" where
  "value_ok S (MObject i os) \<longleftrightarrow>
     (case first_field i (ms_fields S) of None \<Rightarrow> False
      | Some f \<Rightarrow> sf_type f = F_OBJECT \<and>
          (case sf_schema f of None \<Rightarrow> False | Some s \<Rightarrow> list_all (value_ok s) os \<and> counts_ok s os))"
| "value_ok S m \<longleftrightarrow>
     (case first_field (mo_id m) (ms_fields S) of None \<Rightarrow> False | Some f \<Rightarrow> sf_type f = mo_type m) \<and>
     (case m of MString _ s \<Rightarrow> length s < 2 ^ 32 | _ \<Rightarrow> True)"

definition row_ok :: "message_schema \<Rightarrow> message_object list \<Rightarrow> bool" where
  "row_ok S os \<longleftrightarrow> list_all (value_ok S) os \<and> counts_ok S os"

fun column_type :: "FieldType \<Rightarrow> ColumnType" where
  "column_type F_OBJECT = SUBRECORD"
| "column_type F_BOOLEAN = BOOLEAN"
| "column_type F_UINT32 = UNSIGNED_INT"
| "column_type F_STRING = STRING"
| "column_type F_UINT64 = UNSIGNED_INT"
| "column_type F_DOUBLE = FLOAT"
| "column_type F_DATETIME = DATETIME"
| "column_type (F_Other b) = OtherType b"

fun column_encoding :: "FieldType \<Rightarrow> ColumnEncoding" where
  "column_encoding F_BOOLEAN = BOOLEAN_BITPACKED"
| "column_encoding F_STRING = STRING_PLAIN"
| "column_encoding F_DOUBLE = FLOAT_IEEE754"
| "column_encoding F_OBJECT = OtherEncoding 0"
| "column_encoding _ = UINT64_LEB128"

definition field_named :: "bytes \<Rightarrow> message_schema \<Rightarrow> schema_field option" where
  "field_named name S = find (\<lambda>f. sf_name f = name) (ms_fields S)"

text \<open>\<open>shaped S c\<close>: the column tree \<open>c\<close> is one \<open>fromProtobuf\<close> makes of a field of \<open>S\<close>, in any order.\<close>

fun shaped :: "message_schema \<Rightarrow> schema_column \<Rightarrow> bool" where
  "shaped S (Column name type enc n rep opt sub) \<longleftrightarrow>
     (case field_named name S of None \<Rightarrow> False
      | Some f \<Rightarrow> rep = sf_repeated f \<and> opt = sf_optional f \<and> type = column_type (sf_type f) \<and>
          enc = column_encoding (sf_type f) \<and>
          (type = SUBRECORD \<longrightarrow> sub \<noteq> None \<and> None \<notin> set (the sub) \<and>
             (case sf_schema f of None \<Rightarrow> False
              | Some s \<Rightarrow> mset (map col_name (subcolumns sub)) = mset (map sf_name (ms_fields s)) \<and>
                  list_all (shaped s) (subcolumns sub))))"

text \<open>\<open>covers S cs\<close>: the columns \<open>cs\<close> are those of the fields of \<open>S\<close>, one each.\<close>

definition covers :: "message_schema \<Rightarrow> schema_column list \<Rightarrow> bool" where
  "covers S cs \<longleftrightarrow> mset (map col_name cs) = mset (map sf_name (ms_fields S)) \<and> (\<forall>c \<in> set cs. shaped S c)"

lemma schema_eqD:
  assumes "schema_wf S"
  shows "S = MessageSchema (ms_name S) (ms_fields S) \<and> distinct (map sf_name (ms_fields S)) \<and>
    distinct (map sf_id (ms_fields S)) \<and> ms_fields S \<noteq> [] \<and> (\<forall>f \<in> set (ms_fields S). field_wf f)"
proof -
  obtain n fs a b c where S: "S = Schema n fs a b c" by (cases S)
  have sel: "ms_name S = n" "ms_fields S = fs" by (simp_all only: S message_schema.sel)
  from assms show ?thesis unfolding sel unfolding S by (simp only: schema_wf.simps list_all_iff) blast
qed

lemma addField_sel:
  "ms_fields (MessageSchema_addField f S) = ms_fields S @ [f]"
  "ms_field_ids (MessageSchema_addField f S) name =
     (if ms_field_ids S name = None \<and> sf_name f = name then Some (sf_id f) else ms_field_ids S name)"
  by (cases S; simp add: emplace_def split: option.splits)+

lemma ms_fields_fold [simp]: "ms_fields (fold MessageSchema_addField fs S) = ms_fields S @ fs"
  by (induction fs arbitrary: S) (simp_all add: addField_sel)

lemma ms_field_ids_fold:
  "ms_field_ids (fold MessageSchema_addField fs S) name =
     (case ms_field_ids S name of Some i \<Rightarrow> Some i | None \<Rightarrow> map_option sf_id (find (\<lambda>f. sf_name f = name) fs))"
  by (induction fs arbitrary: S) (auto simp: addField_sel split: option.splits)

lemma field_idD:
  assumes "schema_wf S" and "field_named name S = Some f"
  shows "MessageSchema_fieldId S name = Inr (sf_id f)" "field_id S name = sf_id f"
    "f \<in> set (ms_fields S)" "sf_name f = name"
proof -
  let ?e = "MessageSchema_setName (ms_name S) empty_schema"
  have "ms_field_ids (fold MessageSchema_addField (ms_fields S) ?e) name =
      map_option sf_id (find (\<lambda>f. sf_name f = name) (ms_fields S))"
    by (simp add: ms_field_ids_fold empty_schema_def)
  moreover have "S = fold MessageSchema_addField (ms_fields S) ?e"
    using schema_eqD [OF assms(1)] by (simp add: MessageSchema_def)
  ultimately have "ms_field_ids S name = Some (sf_id f)" using assms(2) by (simp add: field_named_def)
  then show "MessageSchema_fieldId S name = Inr (sf_id f)" "field_id S name = sf_id f"
    by (simp_all add: MessageSchema_fieldId_def field_id_def)
  show "f \<in> set (ms_fields S)" "sf_name f = name"
    using assms(2) by (auto simp: field_named_def find_Some_iff)
qed

lemma first_field_distinct:
  "distinct (map sf_id fs) \<Longrightarrow> f \<in> set fs \<Longrightarrow> first_field (sf_id f) fs = Some f"
  by (induction fs) auto

lemma field_schemaD:
  assumes "schema_wf S" and "field_named name S = Some f"
  shows "first_field (sf_id f) (ms_fields S) = Some f"
    "MessageSchema_fieldSchema S (sf_id f) = Inr (sf_schema f)"
    "sf_schema f = Some s \<Longrightarrow> field_schema S name = s \<and> schema_wf s"
proof -
  note f = field_idD [OF assms]
  show first: "first_field (sf_id f) (ms_fields S) = Some f"
    using schema_eqD [OF assms(1)] f(3) by (intro first_field_distinct) auto
  then show "MessageSchema_fieldSchema S (sf_id f) = Inr (sf_schema f)" by (simp add: MessageSchema_fieldSchema_def)
  have "field_wf f" using schema_eqD [OF assms(1)] f(3) by blast
  then show "field_schema S name = s \<and> schema_wf s" if "sf_schema f = Some s"
    using that first by (cases f) (simp add: field_schema_def f(2))
qed

section \<open>Shredding writes those cells\<close>

text \<open>\<open>v1_runs F ops\<close>: on a table of the first format \<open>F\<close> does what putting the cells \<open>ops\<close> does.\<close>

definition v1_runs :: "(table_writer \<Rightarrow> table_writer res) \<Rightarrow> (bytes \<times> datum cell) list \<Rightarrow> bool" where
  "v1_runs F ops \<longleftrightarrow> (\<forall>tw. tw_version tw = V0_1_0 \<longrightarrow> F tw = res_fold tw_put ops tw)"

lemma tw_put_version: "tw_put op tw = Inr tw' \<Longrightarrow> tw_version tw' = tw_version tw"
  by (auto simp: tw_put_def tw_write_column_def res_bind_Inr split: prod.splits)

lemma tw_puts_version: "res_fold tw_put ops tw = Inr tw' \<Longrightarrow> tw_version tw' = tw_version tw"
  by (induction ops arbitrary: tw) (auto simp: res_bind_Inr dest: tw_put_version)

lemma v1_runs_bind:
  assumes "v1_runs F xs" and "v1_runs G ys"
  shows "v1_runs (\<lambda>tw. res_bind (F tw) G) (xs @ ys)"
  unfolding v1_runs_def
proof (intro allI impI)
  fix tw :: table_writer assume tw: "tw_version tw = V0_1_0"
  then have "F tw = res_fold tw_put xs tw" using assms(1) by (simp add: v1_runs_def)
  moreover have "res_bind (res_fold tw_put xs tw) G = res_bind (res_fold tw_put xs tw) (res_fold tw_put ys)"
  proof (rule res_bind_cong [OF refl])
    fix tw' assume "res_fold tw_put xs tw = Inr tw'"
    with tw have "tw_version tw' = V0_1_0" using tw_puts_version by metis
    then show "G tw' = res_fold tw_put ys tw'" using assms(2) by (simp add: v1_runs_def)
  qed
  ultimately show "res_bind (F tw) G = res_fold tw_put (xs @ ys) tw" by (simp add: res_fold_append)
qed

lemma v1_runs_Nil: "v1_runs Inr []"
  by (simp add: v1_runs_def)

lemma v1_runs_fold:
  assumes "\<And>x. x \<in> set xs \<Longrightarrow> v1_runs (F x) (g x)"
  shows "v1_runs (res_fold F xs) (concat (map g xs))"
  using assms
proof (induction xs)
  case Nil
  show ?case by (simp add: v1_runs_def)
next
  case (Cons x xs)
  then show ?case using v1_runs_bind [of "F x" "g x" "res_fold F xs"] by (simp add: v1_runs_def)
qed

lemma cw_write_cell_fun:
  "cw_write_cell (r, d, None) = (\<lambda>w. Inr (cw_writeNull r d w))"
  "cw_write_cell (r, d, Some (DBool b)) = cw_writeBoolean r d b"
  "cw_write_cell (r, d, Some (DUInt v)) = cw_writeUnsignedInt r d v"
  "cw_write_cell (r, d, Some (DFloat x)) = cw_writeFloat r d x"
  "cw_write_cell (r, d, Some (DString s)) = cw_writeString r d s"
  by (rule ext, simp)+

lemma res_fold_deref: "res_fold (\<lambda>f s. deref (\<lambda>c. g c s) f) (map Some cs) = res_fold g cs"
proof (induction cs)
  case (Cons c cs)
  show ?case by (rule ext) (simp only: list.map res_fold.simps deref_simps Cons)
qed (simp add: fun_eq_iff)

lemma live_all: "None \<notin> set cs \<Longrightarrow> map Some (live cs) = cs"
proof (induction cs)
  case (Cons f cs)
  then show ?case by (cases f) simp_all
qed simp

lemma live_Some [simp]: "live (map Some cs) = cs"
  by simp

lemma shaped_sub:
  assumes "shaped S (Column name SUBRECORD enc n rep opt sub)"
  shows "\<exists>f s cs. field_named name S = Some f \<and> sf_schema f = Some s \<and> sub = Some (map Some cs) \<and> covers s cs"
proof -
  from assms obtain f where f: "field_named name S = Some f" "sub \<noteq> None" "None \<notin> set (the sub)"
    "case sf_schema f of None \<Rightarrow> False
     | Some s \<Rightarrow> mset (map col_name (subcolumns sub)) = mset (map sf_name (ms_fields s)) \<and> list_all (shaped s) (subcolumns sub)"
    by (auto split: option.splits)
  then obtain s fs where s: "sf_schema f = Some s" "sub = Some fs" by (cases "sf_schema f") auto
  with f have "sub = Some (map Some (live fs)) \<and> covers s (live fs)"
    using live_all [of fs] by (simp add: subcolumns_def list_all_iff covers_def)
  with f(1) s(1) show ?thesis by blast
qed

lemma writeProtoNull_runs:
  "wf_column c \<Longrightarrow> v1_runs (writeProtoNull (word_of_nat r) (word_of_nat d) column c) (null_ops r d column c)"
proof (induction c arbitrary: column)
  case (Column name type enc n rep opt sub)
  show ?case
  proof (cases "type = SUBRECORD")
    case False
    then show ?thesis by (simp add: v1_runs_def tw_put_def tw_writeNull_def tw_write_def level_def res_fold_single cw_write_cell_fun del: res_fold.simps)
  next
    case True
    with Column.prems obtain cs where cs: "sub = Some (map Some cs)" "\<forall>c \<in> set cs. wf_column c"
      by (auto simp: wf_entries wf_schema_def [symmetric] split: option.splits)
    have "v1_runs (res_fold (\<lambda>c. writeProtoNull (word_of_nat r) (word_of_nat d) (column @ [46] @ col_name c) c) cs)
        (concat (map (\<lambda>c. null_ops r d (column @ [46] @ col_name c) c) cs))"
      by (rule v1_runs_fold) (use Column.IH cs in auto)
    then show ?thesis using True cs(1) by (simp add: v1_runs_def subcolumns_def res_fold_deref)
  qed
qed

lemma writeProtoField_runs:
  assumes "mo_type m \<noteq> F_OBJECT"
  shows "v1_runs (writeProtoField (word_of_nat r) (word_of_nat d) m column (column_type (mo_type m)))
    [(column, (level r, level d, Some (datum_of m)))]"
  using assms
  by (cases m) (simp_all add: v1_runs_def writeProtoField_def tw_put_def tw_write_def level_def res_fold_single cw_write_cell_fun
      tw_writeBoolean_def tw_writeUnsignedInt_def tw_writeFloat_def tw_writeString_def tw_writeDateTime_def
      cw_writeDateTime_def cw_writeUnsignedInt_def del: res_fold.simps)

text \<open>The loop over the children of one id.\<close>

lemma match_loop_runs:
  fixes rm :: nat
  assumes "\<And>r m. m \<in> set os \<Longrightarrow> mo_id m = i \<Longrightarrow> v1_runs (F (word_of_nat r :: u32) m) (g r m)"
  defines "step \<equiv> \<lambda>m (next_r, n :: nat, tw). if mo_id m \<noteq> i then Inr (next_r, n, tw)
    else res_bind (F next_r m tw) (\<lambda>tw. Inr (word_of_nat rm, n + 1, tw))"
  shows "tw_version tw = V0_1_0 \<Longrightarrow> res_fold step os (word_of_nat r, n, tw) =
    res_bind (res_fold tw_put (concat (map (\<lambda>(r, m). g r m) (zip (r # replicate (length (children i os) - 1) rm) (children i os)))) tw)
      (\<lambda>tw. Inr (word_of_nat (if children i os = [] then r else rm), n + length (children i os), tw))"
  using assms(1)
proof (induction os arbitrary: r n tw)
  case Nil
  then show ?case by (simp add: children_def)
next
  case (Cons m os)
  show ?case
  proof (cases "mo_id m = i")
    case False
    with Cons show ?thesis by (simp add: step_def children_def)
  next
    case True
    have m: "F (word_of_nat r) m tw = res_fold tw_put (g r m) tw" using Cons.prems True by (simp add: v1_runs_def)
    have c: "children i (m # os) = m # children i os" using True by (simp add: children_def)
    show ?thesis
    proof (cases "res_fold tw_put (g r m) tw")
      case (Inl e)
      then show ?thesis using True m c by (simp add: step_def res_fold_append)
    next
      case (Inr tw')
      then have "tw_version tw' = V0_1_0" using Cons.prems(1) tw_puts_version by metis
      from Cons.IH [OF this, of rm "Suc n"] Cons.prems(2)
      have "res_fold step os (word_of_nat rm, Suc n, tw') = res_bind (res_fold tw_put (concat (map (\<lambda>(r, m). g r m)
          (zip (rm # replicate (length (children i os) - 1) rm) (children i os)))) tw')
          (\<lambda>tw. Inr (word_of_nat (if children i os = [] then rm else rm), Suc n + length (children i os), tw))" by simp
      moreover have "zip (rm # replicate (length (children i os) - 1) rm) (children i os) =
          zip (replicate (length (children i os)) rm) (children i os)"
        by (cases "children i os") simp_all
      ultimately show ?thesis using True m c Inr by (simp add: step_def res_fold_append)
    qed
  qed
qed

lemma res_bind_count:
  "m = res_bind a (\<lambda>tw. Inr (x, n, tw)) \<Longrightarrow>
     res_bind m (\<lambda>(_, n, tw). if n = 0 then N tw else Inr tw) = res_bind a (\<lambda>tw. if n = (0 :: nat) then N tw else Inr tw)"
  by (simp add: res_bind_assoc)

lemma column_type_SUBRECORD: "column_type t = SUBRECORD \<longleftrightarrow> t = F_OBJECT"
  by (cases t) simp_all

lemma shaped_wf: "shaped S c \<Longrightarrow> wf_column c"
proof (induction c arbitrary: S)
  case (Column name type enc n rep opt sub)
  show ?case
  proof (cases "type = SUBRECORD")
    case True
    with Column.prems shaped_sub obtain s cs where "sub = Some (map Some cs)" "\<forall>c \<in> set cs. shaped s c"
      by (fastforce simp: covers_def)
    then show ?thesis using True Column.IH [of "map Some cs" _ _ s] by (auto simp: list_all_iff)
  qed simp
qed

lemma value_okD:
  assumes "value_ok S m" and "first_field (mo_id m) (ms_fields S) = Some f"
  shows "mo_type m = sf_type f"
    "sf_type f = F_OBJECT \<Longrightarrow> \<exists>s. sf_schema f = Some s \<and> row_ok s (mo_children m) \<and> asObject m = Inr (mo_children m)"
  using assms by (cases m; auto simp: row_ok_def split: option.splits)+

lemma addProtoRecordField_runs:
  "schema_wf S \<Longrightarrow> shaped S c \<Longrightarrow> row_ok S os \<Longrightarrow> asObject msg = Inr os \<Longrightarrow>
     v1_runs (addProtoRecordField (word_of_nat r) (word_of_nat rm) (word_of_nat d) msg S column c)
       (shred_ops r rm d os S column c)"
proof (induction c arbitrary: S os msg r rm d column)
  case (Column name type enc n rep opt sub)
  let ?c = "Column name type enc n rep opt sub"
  from Column.prems(2) obtain f where f: "field_named name S = Some f"
    and shape: "rep = sf_repeated f" "opt = sf_optional f" "type = column_type (sf_type f)"
    by (auto split: option.splits)
  note fid = field_idD [OF Column.prems(1) f] and fs = field_schemaD [OF Column.prems(1) f]
  have fwf: "field_wf f" using schema_eqD [OF Column.prems(1)] fid(3) by blast
  then have obj: "type = SUBRECORD \<longleftrightarrow> sf_type f = F_OBJECT"
    by (cases f) (simp add: shape(3) column_type_SUBRECORD)
  let ?i = "sf_id f" and ?rm = "if rep then rm + 1 else rm" and ?d = "if opt \<or> rep then d + 1 else d"
  let ?F = "\<lambda>next_r m tw. if type = SUBRECORD
     then res_bind (MessageSchema_fieldSchema S ?i) (\<lambda>o_schema. deref (\<lambda>fs. res_fold (\<lambda>f tw. deref (\<lambda>c. follow (\<lambda>s.
            addProtoRecordField next_r (word_of_nat ?rm) (word_of_nat ?d) m s (column @ name @ [46]) c tw) o_schema) f) fs tw) sub)
     else writeProtoField next_r (word_of_nat ?d) m (column @ name) type tw"
  let ?g = "\<lambda>r m. if type = SUBRECORD
     then concat (map (\<lambda>c. shred_ops r ?rm ?d (mo_children m) (field_schema S name) (column @ name @ [46]) c) (subcolumns sub))
     else [(column @ name, (level r, level ?d, Some (datum_of m)))]"
  have runs: "v1_runs (?F (word_of_nat r) m) (?g r m)" if m: "m \<in> set os" "mo_id m = ?i" for r m
  proof -
    have ok: "value_ok S m" using Column.prems(3) m(1) by (simp add: row_ok_def list_all_iff)
    have first: "first_field (mo_id m) (ms_fields S) = Some f" using fs(1) m(2) by simp
    show ?thesis
    proof (cases "type = SUBRECORD")
      case False
      then show ?thesis using writeProtoField_runs [of m r ?d "column @ name"] value_okD(1) [OF ok first] obj shape(3) by simp
    next
      case True
      from value_okD(2) [OF ok first] obj True obtain s where s: "sf_schema f = Some s" "row_ok s (mo_children m)"
        "asObject m = Inr (mo_children m)" by blast
      from shaped_sub [of S name enc n rep opt sub] Column.prems(2) True f s(1) obtain cs where
        cs: "sub = Some (map Some cs)" "\<forall>c \<in> set cs. shaped s c" by (auto simp: covers_def)
      have "v1_runs (res_fold (\<lambda>c. addProtoRecordField (word_of_nat r) (word_of_nat ?rm) (word_of_nat ?d) m s (column @ name @ [46]) c) cs)
          (concat (map (\<lambda>c. shred_ops r ?rm ?d (mo_children m) s (column @ name @ [46]) c) cs))"
      proof (rule v1_runs_fold)
        fix c assume c: "c \<in> set cs"
        show "v1_runs (addProtoRecordField (word_of_nat r) (word_of_nat ?rm) (word_of_nat ?d) m s (column @ name @ [46]) c)
            (shred_ops r ?rm ?d (mo_children m) s (column @ name @ [46]) c)"
          by (rule Column.IH [of "map Some cs" "Some c" c]) (use c cs s fs(3) [OF s(1)] in auto)
      qed
      moreover have "deref (\<lambda>fs. res_fold (\<lambda>f tw. deref (\<lambda>c. follow (\<lambda>s. addProtoRecordField (word_of_nat r)
            (word_of_nat ?rm) (word_of_nat ?d) m s (column @ name @ [46]) c tw) (Some s)) f) fs tw) sub =
          res_fold (\<lambda>c. addProtoRecordField (word_of_nat r) (word_of_nat ?rm) (word_of_nat ?d) m s (column @ name @ [46]) c) cs tw"
        for tw
        unfolding cs(1) deref_simps follow_simps by (simp only: res_fold_deref)
      ultimately show ?thesis using True s(1) fs(2,3) cs(1) by (simp add: subcolumns_def)
    qed
  qed
  have plus: "(if rep then word_of_nat rm + 1 else word_of_nat rm) = (word_of_nat ?rm :: u32)"
    "(if opt \<or> rep then word_of_nat d + 1 else word_of_nat d) = (word_of_nat ?d :: u32)" by simp_all
  have count: "children ?i os = [] \<Longrightarrow> opt \<or> rep"
  proof -
    assume "children ?i os = []"
    moreover have "counts_ok S os" using Column.prems(3) by (simp add: row_ok_def)
    ultimately show "opt \<or> rep" using fid(3) shape(1,2) by (auto simp: counts_ok_def list_all_iff Let_def)
  qed
  show ?case
    unfolding v1_runs_def
  proof (intro allI impI)
    fix tw :: table_writer assume tw: "tw_version tw = V0_1_0"
    have null: "writeProtoNull (word_of_nat r) (word_of_nat d) (column @ name) ?c tw =
        res_fold tw_put (null_ops r d (column @ name) ?c) tw"
      using writeProtoNull_runs [OF shaped_wf [OF Column.prems(2)], of r d "column @ name"] tw by (simp add: v1_runs_def)
        note loop = match_loop_runs [where os = os and i = ?i and F = ?F and g = ?g and rm = ?rm and r = r and n = 0, OF runs tw]
    have eq: "addProtoRecordField (word_of_nat r) (word_of_nat rm) (word_of_nat d) msg S column ?c tw =
        res_bind (res_fold (\<lambda>m (next_r, n, tw). if mo_id m \<noteq> ?i then Inr (next_r, n, tw)
            else res_bind (?F next_r m tw) (\<lambda>tw. Inr (word_of_nat ?rm, n + 1, tw))) os (word_of_nat r, 0 :: nat, tw))
          (\<lambda>(_, n, tw). if n = 0
             then (if \<not> (opt \<or> rep) then Inl IllegalArgumentError
                   else writeProtoNull (word_of_nat r) (word_of_nat d) (column @ name) ?c tw)
             else Inr tw)"
      by (simp only: addProtoRecordField.simps Let_def plus fid(1) Column.prems(4) res_bind_simps)
    show "addProtoRecordField (word_of_nat r) (word_of_nat rm) (word_of_nat d) msg S column ?c tw =
        res_fold tw_put (shred_ops r rm d os S column ?c) tw"
      by (rule trans [OF eq], rule trans [OF res_bind_count], rule loop, cases "children ?i os = []")
        (use count null in \<open>simp_all add: fid(2) Let_def del: writeProtoNull.simps null_ops.simps\<close>)
  qed
qed

end
