(* ===== verification/CS_SchemaPaths.thy ===== *)
theory CS_SchemaPaths
  imports CS_Shredder
begin

text \<open>
  The columns \<open>TableSchema::fromProtobuf\<close> makes of a message schema: one for every field, and
  for every leaf of the message schema a flat column whose path has the names and cardinalities
  of the fields above it.
\<close>

section \<open>The columns of a schema\<close>

lemma ts_add_new:
  "col_name c \<notin> col_name ` set cs \<Longrightarrow> ts_add c (map Some cs) = map Some (cs @ [c])"
  by (simp add: ts_add_def)

lemma first_named_field:
  "distinct (map sf_name fs) \<Longrightarrow> f \<in> set fs \<Longrightarrow> find (\<lambda>g. sf_name g = sf_name f) fs = Some f"
  by (induction fs) auto

lemma field_named_iff:
  assumes "schema_wf S"
  shows "field_named n S = Some f \<longleftrightarrow> f \<in> set (ms_fields S) \<and> sf_name f = n"
  using first_named_field [of "ms_fields S" f] schema_eqD [OF assms] field_idD [OF assms, of n f]
  by (auto simp: field_named_def)

lemma shaped_field:
  assumes "schema_wf S" and "f \<in> set (ms_fields S)"
  shows "shaped S (Column (sf_name f) type enc n rep opt sub) \<longleftrightarrow>
    rep = sf_repeated f \<and> opt = sf_optional f \<and> type = column_type (sf_type f) \<and> enc = column_encoding (sf_type f) \<and>
    (type = SUBRECORD \<longrightarrow> (\<exists>s cs. sf_schema f = Some s \<and> sub = Some (map Some cs) \<and> covers s cs))"
proof -
  have f: "field_named (sf_name f) S = Some f" using assms by (simp add: field_named_iff)
  show ?thesis
  proof
    assume sh: "shaped S (Column (sf_name f) type enc n rep opt sub)"
    show "rep = sf_repeated f \<and> opt = sf_optional f \<and> type = column_type (sf_type f) \<and> enc = column_encoding (sf_type f) \<and>
      (type = SUBRECORD \<longrightarrow> (\<exists>s cs. sf_schema f = Some s \<and> sub = Some (map Some cs) \<and> covers s cs))"
    proof (intro conjI impI)
      assume "type = SUBRECORD"
      with sh have "shaped S (Column (sf_name f) SUBRECORD enc n rep opt sub)" by simp
      from shaped_sub [OF this] f show "\<exists>s cs. sf_schema f = Some s \<and> sub = Some (map Some cs) \<and> covers s cs" by auto
    qed (use sh f in simp_all)
  qed (use f in \<open>auto simp: covers_def subcolumns_def list_all_iff\<close>)
qed

lemma names_copy:
  assumes "mset (order (map (column_copy order) cs)) = mset (map (column_copy order) cs)"
  shows "mset (map col_name (order (map (column_copy order) cs))) = mset (map col_name cs)"
proof -
  have "col_name (column_copy order c) = col_name c" for c by (cases c) simp
  then have "map col_name (map (column_copy order) cs) = map col_name cs" by simp
  moreover have "mset (map col_name (order (map (column_copy order) cs))) = mset (map col_name (map (column_copy order) cs))"
    using assms by (metis mset_map)
  ultimately show ?thesis by (simp only:)
qed

lemma shaped_copy:
  assumes order: "\<And>cs. mset (order cs) = mset cs"
  shows "shaped S c \<Longrightarrow> shaped S (column_copy order c)"
proof (induction c arbitrary: S)
  case (Column name type enc n rep opt sub)
  show ?case
  proof (cases "type = SUBRECORD")
    case False
    then show ?thesis using Column.prems by (simp split: option.splits)
  next
    case True
    with Column.prems have "shaped S (Column name SUBRECORD enc n rep opt sub)" by simp
    from shaped_sub [OF this] obtain f s cs where f: "field_named name S = Some f" "sf_schema f = Some s"
      "sub = Some (map Some cs)" "covers s cs" by blast
    let ?cs = "order (map (column_copy order) cs)"
    have "map (map_option (column_copy order)) (map Some cs) = map Some (map (column_copy order) cs)" by simp
    then have copy: "column_copy order (Column name type enc n rep opt sub) =
        Column name type enc n rep opt (Some (map Some ?cs))" by (simp only: f(3) column_copy.simps live_simps option.map)
    have set: "set ?cs = column_copy order ` set cs" using order by (metis mset_eq_setD set_map)
    have "mset (map col_name ?cs) = mset (map col_name cs)" by (rule names_copy [OF order])
    with f(4) have m: "mset (map col_name ?cs) = mset (map sf_name (ms_fields s))" by (simp only: covers_def)
    have "\<forall>c \<in> set ?cs. shaped s c" using Column.IH f(3,4) by (auto simp: set covers_def)
    then show ?thesis using Column.prems True f m unfolding copy by (simp add: subcolumns_def list_all_iff)
  qed
qed

lemma covers_copy:
  assumes order: "\<And>cs. mset (order cs) = mset cs" and "covers S cs"
  shows "\<exists>cs'. TableSchema_copy order (map Some cs) = map Some cs' \<and> covers S cs'"
proof -
  let ?cs = "order (map (column_copy order) cs)"
  have "map (map_option (column_copy order)) (map Some cs) = map Some (map (column_copy order) cs)" by simp
  then have "TableSchema_copy order (map Some cs) = map Some ?cs" by (simp only: TableSchema_copy_def live_simps)
  moreover have "set ?cs = column_copy order ` set cs" using order by (metis mset_eq_setD set_map)
  moreover have "mset (map col_name ?cs) = mset (map col_name cs)" by (rule names_copy [OF order])
  ultimately show ?thesis using assms(2) shaped_copy [OF order] unfolding covers_def by auto
qed

lemma field_fromProtobuf_ok:
  assumes order: "\<And>cs. mset (order cs) = mset cs" and S: "schema_wf S" and f: "f \<in> set (ms_fields S)"
    and sub: "\<And>s. sf_schema f = Some s \<Longrightarrow> \<exists>cs. TableSchema_fromProtobuf order s = Inr (map Some cs) \<and> covers s cs"
    and new: "sf_name f \<notin> col_name ` set cs"
  shows "\<exists>c. field_fromProtobuf order f (map Some cs) = Inr (map Some (cs @ [c])) \<and> col_name c = sf_name f \<and> shaped S c"
proof -
  have "field_wf f" using schema_eqD [OF S] f by blast
  obtain i name type n rep opt enc schema where fe: "f = MessageSchemaField i name type n rep opt enc schema" by (cases f)
  note sh = shaped_field [OF S f]
  show ?thesis
  proof (cases "type = F_OBJECT")
    case True
    with \<open>field_wf f\<close> fe obtain s where s: "schema = Some s" by (auto split: option.splits)
    with sub fe obtain ds where ds: "TableSchema_fromProtobuf order s = Inr (map Some ds)" "covers s ds" by auto
    from covers_copy [OF order ds(2)] obtain ds' where ds': "TableSchema_copy order (map Some ds) = map Some ds'" "covers s ds'"
      by blast
    let ?c = "Column name SUBRECORD (OtherEncoding 0) 0 rep opt (Some (map Some ds'))"
    have "field_fromProtobuf order f (map Some cs) = Inr (ts_add ?c (map Some cs))"
      using True s ds ds' by (simp add: fe TableSchema_addSubrecordArray_def TableSchema_addSubrecord_def)
    moreover have "shaped S ?c" using sh [of SUBRECORD "OtherEncoding 0" 0 rep opt "Some (map Some ds')"] True s ds'(2)
      by (auto simp only: fe schema_field.sel simp_thms column_type.simps column_encoding.simps)
    moreover have "ts_add ?c (map Some cs) = map Some (cs @ [?c])" using new by (simp add: ts_add_new fe)
    ultimately show ?thesis by (intro exI [of _ ?c]) (simp only: fe schema_field.sel schema_column.sel)
  next
    case False
    let ?c = "Column name (column_type type) (column_encoding type) 0 rep opt None"
    have "known_field_type type" using \<open>field_wf f\<close> fe by simp
    then have "field_fromProtobuf order f (map Some cs) = Inr (ts_add ?c (map Some cs))" "column_type type \<noteq> SUBRECORD"
      using False by (cases type; simp add: fe TableSchema_addColumn_def)+
    moreover from this(2) have "shaped S ?c" using sh [of "column_type type" "column_encoding type" 0 rep opt None] by (simp only: fe schema_field.sel simp_thms)
    moreover have "ts_add ?c (map Some cs) = map Some (cs @ [?c])" using new by (simp add: ts_add_new fe)
    ultimately show ?thesis by (intro exI [of _ ?c]) (simp only: fe schema_field.sel schema_column.sel)
  qed
qed

lemma fields_fromProtobuf_ok:
  assumes order: "\<And>cs. mset (order cs) = mset cs" and S: "schema_wf S"
    and sub: "\<And>f s. f \<in> set (ms_fields S) \<Longrightarrow> sf_schema f = Some s \<Longrightarrow>
      \<exists>cs. TableSchema_fromProtobuf order s = Inr (map Some cs) \<and> covers s cs"
  shows "set fs \<subseteq> set (ms_fields S) \<Longrightarrow> distinct (map sf_name fs) \<Longrightarrow> sf_name ` set fs \<inter> col_name ` set cs = {} \<Longrightarrow>
    (\<forall>c \<in> set cs. shaped S c) \<Longrightarrow>
    \<exists>ds. res_fold (field_fromProtobuf order) fs (map Some cs) = Inr (map Some (cs @ ds)) \<and>
      map col_name ds = map sf_name fs \<and> (\<forall>c \<in> set ds. shaped S c)"
proof (induction fs arbitrary: cs)
  case (Cons f fs)
  then obtain c where c: "field_fromProtobuf order f (map Some cs) = Inr (map Some (cs @ [c]))" "col_name c = sf_name f" "shaped S c"
    using field_fromProtobuf_ok [where order = order and S = S and f = f and cs = cs, OF order S] sub by auto
  from Cons.IH [of "cs @ [c]"] Cons.prems c(2,3) obtain ds where
    "res_fold (field_fromProtobuf order) fs (map Some (cs @ [c])) = Inr (map Some ((cs @ [c]) @ ds))"
    "map col_name ds = map sf_name fs" "\<forall>c \<in> set ds. shaped S c" by auto
  with c show ?case by (intro exI [of _ "c # ds"]) simp
qed simp

lemma fromProtobuf_covers:
  assumes order: "\<And>cs. mset (order cs) = mset cs"
  shows "schema_wf S \<Longrightarrow> \<exists>cs. TableSchema_fromProtobuf order S = Inr (map Some cs) \<and> covers S cs"
    and "field_wf f \<Longrightarrow> sf_schema f = Some s \<Longrightarrow> \<exists>cs. TableSchema_fromProtobuf order s = Inr (map Some cs) \<and> covers s cs"
proof (induction S and f arbitrary: and s)
  case (Schema nm fs ids types names)
  let ?S = "Schema nm fs ids types names"
  have flds: "ms_fields ?S = fs" by simp
  note S = schema_eqD [OF Schema.prems, unfolded flds]
  have sub: "\<exists>cs. TableSchema_fromProtobuf order s = Inr (map Some cs) \<and> covers s cs"
    if "f \<in> set fs" "sf_schema f = Some s" for f s
    using Schema.IH that S by blast
  have "\<exists>ds. res_fold (field_fromProtobuf order) fs (map Some []) = Inr (map Some ([] @ ds)) \<and>
      map col_name ds = map sf_name fs \<and> (\<forall>c \<in> set ds. shaped ?S c)"
    by (rule fields_fromProtobuf_ok [OF order Schema.prems]) (use sub S in \<open>simp_all only: flds, simp_all\<close>)
  then obtain ds where
    "res_fold (field_fromProtobuf order) fs [] = Inr (map Some ds)" "map col_name ds = map sf_name fs"
    "\<forall>c \<in> set ds. shaped ?S c" by (auto simp del: shaped.simps)
  moreover from this(2) have "mset (map col_name ds) = mset (map sf_name (ms_fields ?S))" by (simp only: flds)
  ultimately show ?case by (auto simp: covers_def simp del: mset_map shaped.simps)
next
  case (MessageSchemaField i name type n rep opt enc schema)
  then show ?case by (cases schema) auto
qed

section \<open>The paths of a schema\<close>

text \<open>
  The leaves of a message schema: the path of fields from the root, each with its id, name and
  cardinality, and the type of the leaf. \<open>column_path\<close> is the path of the column it becomes.
\<close>

type_synonym field_step = "u32 \<times> path_step"

fun message_paths :: "message_schema \<Rightarrow> (field_step list \<times> FieldType) list"
  and field_paths :: "schema_field \<Rightarrow> (field_step list \<times> FieldType) list" where
  "message_paths (Schema _ fs _ _ _) = concat (map field_paths fs)"
| "field_paths (MessageSchemaField i name type n rep opt enc sub) =
     (if type = F_OBJECT
      then case sub of None \<Rightarrow> [] | Some s \<Rightarrow> map (\<lambda>(ps, t). ((i, name, rep, opt) # ps, t)) (message_paths s)
      else [([(i, name, rep, opt)], type)])"

definition column_path :: "field_step list \<times> FieldType \<Rightarrow> path_step list \<times> ColumnEncoding \<times> ColumnType" where
  "column_path l = (map snd (fst l), column_encoding (snd l), column_type (snd l))"

lemma message_paths_fields: "message_paths S = concat (map field_paths (ms_fields S))"
  by (cases S) simp

lemma field_paths_nonempty: "l \<in> set (field_paths f) \<Longrightarrow> fst l \<noteq> []"
  by (cases f) (auto split: if_splits option.splits)

lemma covers_concat:
  assumes S: "schema_wf S" and "covers S cs"
    and eq: "\<And>c f. c \<in> set cs \<Longrightarrow> f \<in> set (ms_fields S) \<Longrightarrow> col_name c = sf_name f \<Longrightarrow> mset (g c) = mset (h f)"
  shows "mset (concat (map g cs)) = mset (concat (map h (ms_fields S)))"
proof -
  let ?k = "\<lambda>n. mset (h (the (field_named n S)))"
  have names: "mset (map col_name cs) = mset (map sf_name (ms_fields S))" using assms(2) by (simp only: covers_def)
  have f: "field_named (sf_name f) S = Some f" if "f \<in> set (ms_fields S)" for f using that S by (simp add: field_named_iff)
  have sum: "mset (concat (map u xs)) = sum_mset (image_mset (\<lambda>x. mset (u x)) (mset xs))" for u :: "'z \<Rightarrow> 'y list" and xs
    by (induction xs) simp_all
  have "mset (g c) = ?k (col_name c)" if "c \<in> set cs" for c
  proof -
    have "col_name c \<in> sf_name ` set (ms_fields S)" using that names by (metis mset_eq_setD list.set_map imageI)
    then obtain f where "f \<in> set (ms_fields S)" "col_name c = sf_name f" by auto
    with eq [OF that] f show ?thesis by simp
  qed
  then have "mset (concat (map g cs)) = sum_mset (image_mset (\<lambda>c. ?k (col_name c)) (mset cs))"
    unfolding sum by (intro arg_cong [where f = sum_mset] image_mset_cong) simp
  also have "\<dots> = sum_mset (image_mset ?k (mset (map col_name cs)))" by (simp add: image_mset.compositionality o_def)
  also have "\<dots> = sum_mset (image_mset (\<lambda>f. ?k (sf_name f)) (mset (ms_fields S)))"
    unfolding names by (simp add: image_mset.compositionality o_def)
  also have "\<dots> = mset (concat (map h (ms_fields S)))"
    unfolding sum by (intro arg_cong [where f = sum_mset] image_mset_cong) (simp add: f)
  finally show ?thesis .
qed

lemma shaped_paths:
  "schema_wf S \<Longrightarrow> f \<in> set (ms_fields S) \<Longrightarrow> shaped S c \<Longrightarrow> col_name c = sf_name f \<Longrightarrow>
     mset (leaf_paths c) = mset (map column_path (field_paths f))"
proof (induction c arbitrary: S f)
  case (Column name type enc n rep opt sub)
  obtain i type' m enc' schema where f: "f = MessageSchemaField i name type' m rep opt enc' schema"
    and ty: "type = column_type type'" "enc = column_encoding type'"
    using Column.prems shaped_field [OF Column.prems(1,2)] by (cases f) auto
  show ?case
  proof (cases "type = SUBRECORD")
    case False
    then show ?thesis using ty by (auto simp: f column_path_def column_type_SUBRECORD)
  next
    case True
    with Column.prems(3) have "shaped S (Column name SUBRECORD enc n rep opt sub)" by simp
    from shaped_sub [OF this] obtain g s cs where g: "field_named name S = Some g" "sf_schema g = Some s"
      "sub = Some (map Some cs)" "covers s cs" by blast
    have "g = f" using g(1) Column.prems(2,4) field_named_iff [OF Column.prems(1)] schema_eqD [OF Column.prems(1)]
      by (auto dest: inj_onD simp: distinct_map)
    have s: "schema_wf s" using field_schemaD(3) [OF Column.prems(1) g(1,2)] by blast
    have "mset (concat (map leaf_paths cs)) = mset (concat (map (\<lambda>f. map column_path (field_paths f)) (ms_fields s)))"
    proof (rule covers_concat [OF s g(4)])
      fix c f assume c: "c \<in> set cs" "f \<in> set (ms_fields s)" "col_name c = sf_name f"
      then have "shaped s c" using g(4) by (simp add: covers_def)
      from Column.IH [OF _ _ _ s c(2) this c(3), of "map Some cs" "Some c"] c(1) g(3)
      show "mset (leaf_paths c) = mset (map column_path (field_paths f))" by simp
    qed
    then have eq: "mset (schema_paths (map Some cs)) = mset (map column_path (message_paths s))"
      by (simp add: schema_paths_def message_paths_fields map_concat o_def)
    have "mset (map (\<lambda>(ps, l). ((name, rep, opt) # ps, l)) (schema_paths (map Some cs))) =
        mset (map (\<lambda>(ps, l). ((name, rep, opt) # ps, l)) (map column_path (message_paths s)))"
      using arg_cong [OF eq, where f = "image_mset (\<lambda>(ps, l). ((name, rep, opt) # ps, l))"] by (simp only: mset_map)
    also have "map (\<lambda>(ps, l). ((name, rep, opt) # ps, l)) (map column_path (message_paths s)) =
        map column_path (map (\<lambda>(ps, t). ((i, name, rep, opt) # ps, t)) (message_paths s))"
      by (simp add: column_path_def split_def)
    finally have m: "mset (map (\<lambda>(ps, l). ((name, rep, opt) # ps, l)) (schema_paths (map Some cs))) =
        mset (map column_path (map (\<lambda>(ps, t). ((i, name, rep, opt) # ps, t)) (message_paths s)))" .
    have "type' = F_OBJECT" using True ty by (simp add: column_type_SUBRECORD)
    moreover have "f = MessageSchemaField i name type' m rep opt enc' schema" using f Column.prems(4) by simp
    ultimately have "field_paths f = map (\<lambda>(ps, t). ((i, name, rep, opt) # ps, t)) (message_paths s)"
      using g(2) \<open>g = f\<close> by simp
    then show ?thesis by (simp only: True g(3) leaf_paths_record m)
  qed
qed

lemma covers_paths:
  assumes "schema_wf S" and "covers S cs"
  shows "mset (schema_paths (map Some cs)) = mset (map column_path (message_paths S))"
proof -
  have "mset (concat (map leaf_paths cs)) = mset (concat (map (\<lambda>f. map column_path (field_paths f)) (ms_fields S)))"
    by (rule covers_concat [OF assms], rule shaped_paths [OF assms(1)]) (use assms(2) in \<open>simp_all add: covers_def\<close>)
  then show ?thesis by (simp add: schema_paths_def message_paths_fields map_concat o_def)
qed

end
