(* ===== verification/CS_Stripes.thy ===== *)
theory CS_Stripes
  imports CS_SchemaPaths
begin

text \<open>
  The cells that shredding a row gives to each column of a table: its stripe, described by the
  path of field ids that leads to the column. The writers of a table made for the schema accept
  the cells of a row that fits it.
\<close>

section \<open>Stripes\<close>

text \<open>
  \<open>stripe r rm d ps m\<close>: the levels and values a message \<open>m\<close> gives to the column at the path
  \<open>ps\<close> below it. \<open>r\<close> is the repetition level of the first cell, \<open>rm\<close> and \<open>d\<close> count the repeated
  fields and the repeated or optional fields above.
\<close>

type_synonym level_cell = "nat \<times> nat \<times> datum option"

fun stripe :: "nat \<Rightarrow> nat \<Rightarrow> nat \<Rightarrow> field_step list \<Rightarrow> message_object \<Rightarrow> level_cell list" where
  "stripe r rm d [] m = [(r, d, Some (datum_of m))]"
| "stripe r rm d ((i, name, rep, opt) # ps) m =
     (let rm' = (if rep then rm + 1 else rm);
          d' = (if opt \<or> rep then d + 1 else d);
          ms = children i (mo_children m)
      in if ms = [] then [(r, d, None)]
         else concat (map (\<lambda>(r, m). stripe r rm' d' ps m) (zip (r # replicate (length ms - 1) rm') ms)))"

fun to_cell :: "level_cell \<Rightarrow> datum cell" where
  "to_cell (r, d, v) = (level r, level d, v)"

lemma cells_of_append: "cells_of n (xs @ ys) = cells_of n xs @ cells_of n ys"
  by (simp add: cells_of_def)

lemma cells_of_concat: "cells_of n (concat (map f xs)) = concat (map (\<lambda>x. cells_of n (f x)) xs)"
  by (induction xs) (simp_all add: cells_of_append)

lemma cells_of_none: "n \<notin> fst ` set ops \<Longrightarrow> cells_of n ops = []"
  by (force simp: cells_of_def filter_empty_conv)

lemma cells_of_only:
  assumes "distinct cs" and "c \<in> set cs" and "\<And>x. x \<in> set cs \<Longrightarrow> x \<noteq> c \<Longrightarrow> n \<notin> fst ` set (F x)"
  shows "cells_of n (concat (map F cs)) = cells_of n (F c)"
  using assms
proof (induction cs)
  case (Cons x cs)
  show ?case
  proof (cases "x = c")
    case True
    then have "\<forall>y \<in> set cs. cells_of n (F y) = []" using Cons.prems by (auto intro: cells_of_none)
    then show ?thesis using True by (simp add: cells_of_append cells_of_concat)
  next
    case False
    then show ?thesis using Cons by (simp add: cells_of_append cells_of_none)
  qed
qed simp

lemma subcolumns_Some [simp]: "subcolumns (Some (map Some cs)) = cs"
  by (simp add: subcolumns_def)

definition leaf_names :: "schema_column \<Rightarrow> bytes list" where
  "leaf_names c = map (\<lambda>l. path_name (fst l)) (leaf_paths c)"

lemma leaf_names_record:
  "leaf_names (Column name SUBRECORD enc n rep opt (Some (map Some cs))) =
     map (\<lambda>q. name @ [46] @ q) (concat (map leaf_names cs))"
proof -
  have "map (\<lambda>l. path_name ((name, rep, opt) # fst l)) (schema_paths (map Some cs)) =
      map (\<lambda>l. name @ [46] @ path_name (fst l)) (schema_paths (map Some cs))"
    by (intro map_cong refl path_name_Cons) (auto simp: schema_paths_def dest: leaf_paths_nonempty)
  then show ?thesis unfolding leaf_names_def leaf_paths_record
    by (simp add: schema_paths_def map_concat o_def split_def)
qed

lemma leaf_names_leaf: "type \<noteq> SUBRECORD \<Longrightarrow> leaf_names (Column name type enc n rep opt sub) = [name]"
  by (simp add: leaf_names_def)

lemma null_ops_names:
  "wf_column c \<Longrightarrow> null_ops r d (col @ col_name c) c = map (\<lambda>n. (col @ n, (level r, level d, None))) (leaf_names c)"
proof (induction c arbitrary: col)
  case (Column name type enc n rep opt sub)
  show ?case
  proof (cases "type = SUBRECORD")
    case False
    then show ?thesis by (simp add: leaf_names_leaf)
  next
    case True
    with Column.prems obtain cs where cs: "sub = Some (map Some cs)" "\<forall>c \<in> set cs. wf_column c"
      by (auto simp: wf_entries wf_schema_def [symmetric] split: option.splits)
    have "null_ops r d (col @ name @ [46] @ col_name c) c =
        map (\<lambda>n. (col @ name @ [46] @ n, (level r, level d, None))) (leaf_names c)" if "c \<in> set cs" for c
      using Column.IH [of "map Some cs" "Some c" c "col @ name @ [46]"] cs that by simp
    then have "concat (map (\<lambda>c. null_ops r d (col @ name @ [46] @ col_name c) c) cs) =
        concat (map (\<lambda>c. map (\<lambda>n. (col @ name @ [46] @ n, (level r, level d, None))) (leaf_names c)) cs)"
      by (intro arg_cong [where f = concat] map_cong refl)
    then show ?thesis
      using True cs(1) by (simp add: leaf_names_record map_concat o_def)
  qed
qed

lemma shred_ops_names:
  "shaped S c \<Longrightarrow> fst ` set (shred_ops r rm d os S' col c) \<subseteq> (\<lambda>n. col @ n) ` set (leaf_names c)"
proof (induction c arbitrary: S r rm d os S' col)
  case (Column name type enc n rep opt sub)
  let ?c = "Column name type enc n rep opt sub"
  have null: "fst ` set (null_ops r d (col @ name) ?c) \<subseteq> (\<lambda>n. col @ n) ` set (leaf_names ?c)"
    using null_ops_names [OF shaped_wf [OF Column.prems], of r d col] by (auto simp del: null_ops.simps)
  show ?case
  proof (cases "type = SUBRECORD")
    case False
    then show ?thesis using null by (auto simp: Let_def leaf_names_leaf)
  next
    case True
    with Column.prems have "shaped S (Column name SUBRECORD enc n rep opt sub)" by simp
    from shaped_sub [OF this] obtain s cs where s: "sub = Some (map Some cs)" "covers s cs" by blast
    have sub: "fst ` set (shred_ops r rm d os S' (col @ name @ [46]) c) \<subseteq> (\<lambda>n. col @ n) ` set (leaf_names ?c)"
      if c: "c \<in> set cs" for c r rm d os S'
    proof -
      have "fst ` set (shred_ops r rm d os S' (col @ name @ [46]) c) \<subseteq> (\<lambda>n. (col @ name @ [46]) @ n) ` set (leaf_names c)"
        by (rule Column.IH [of "map Some cs" "Some c" c s]) (use c s in \<open>auto simp: covers_def\<close>)
      also have "\<dots> \<subseteq> (\<lambda>n. col @ n) ` set (leaf_names ?c)"
      proof
        fix x assume "x \<in> (\<lambda>n. (col @ name @ [46]) @ n) ` set (leaf_names c)"
        then obtain n where "n \<in> set (leaf_names c)" "x = col @ (name @ [46] @ n)" by auto
        then show "x \<in> (\<lambda>n. col @ n) ` set (leaf_names ?c)" using c True s(1) by (auto simp: leaf_names_record intro!: imageI)
      qed
      finally show ?thesis .
    qed
    show ?thesis
    proof (cases "children (field_id S' name) os = []")
      case True
      then show ?thesis using null by (simp add: Let_def del: null_ops.simps)
    next
      case False
      then show ?thesis
        unfolding shred_ops.simps Let_def
        using \<open>type = SUBRECORD\<close> s(1) by (simp add: image_UN split_def split del: if_split) (intro UN_least sub [unfolded \<open>type = SUBRECORD\<close> s(1)])
    qed
  qed
qed

text \<open>The cells of one column are its stripe.\<close>

lemma column_path_names: "map (\<lambda>l. path_name (fst l)) (map column_path ls) = map (\<lambda>l. path_name (map snd (fst l))) ls"
  by (simp add: column_path_def)

lemma shaped_leaf_names:
  assumes "schema_wf S" and "f \<in> set (ms_fields S)" and "shaped S c" and "col_name c = sf_name f"
  shows "mset (leaf_names c) = mset (map (\<lambda>l. path_name (map snd (fst l))) (field_paths f))"
  using arg_cong [OF shaped_paths [OF assms], where f = "image_mset (\<lambda>l. path_name (fst l))"]
  by (simp only: leaf_names_def mset_map [symmetric] column_path_names)

lemma cells_of_null:
  assumes "distinct ns" and "n \<in> set ns"
  shows "cells_of (col @ n) (map (\<lambda>n. (col @ n, x)) ns) = [x]"
  using assms
proof (induction ns)
  case (Cons k ns)
  have none: "cells_of (col @ n) (map (\<lambda>n. (col @ n, x)) ns) = []" if "n \<notin> set ns"
    by (rule cells_of_none) (use that in auto)
  have cons: "cells_of m ((k', x) # ops) = (if k' = m then x # cells_of m ops else cells_of m ops)" for m k' ops
    by (simp add: cells_of_def)
  show ?case using Cons none by (cases "k = n") (simp_all add: cons)
qed simp

lemma stripe_children:
  "ps \<noteq> [] \<Longrightarrow> mo_children m = mo_children m' \<Longrightarrow> stripe r rm d ps m = stripe r rm d ps m'"
  by (cases ps) (auto simp: Let_def)

lemma distinct_concat_others:
  assumes "distinct (concat (map F cs))" and "c \<in> set cs" and "x \<in> set cs" and "x \<noteq> c" and "y \<in> set (F c)"
  shows "y \<notin> set (F x)"
  using assms by (induction cs) auto

text \<open>Of the columns of a schema only one has the cells of a path.\<close>

lemma covers_only:
  assumes s: "schema_wf s" and cov: "covers s cs" and qs: "(qs, t) \<in> set (message_paths s)"
    and dist: "distinct (concat (map leaf_names cs))"
    and names: "\<And>c. c \<in> set cs \<Longrightarrow> fst ` set (F c) \<subseteq> (\<lambda>n. col @ n) ` set (leaf_names c)"
    and cells: "\<And>c f. c \<in> set cs \<Longrightarrow> f \<in> set (ms_fields s) \<Longrightarrow> shaped s c \<Longrightarrow> col_name c = sf_name f \<Longrightarrow>
      (qs, t) \<in> set (field_paths f) \<Longrightarrow> distinct (leaf_names c) \<Longrightarrow> cells_of (col @ path_name (map snd qs)) (F c) = X"
  shows "cells_of (col @ path_name (map snd qs)) (concat (map F cs)) = X"
proof -
  from qs obtain f0 where f0: "f0 \<in> set (ms_fields s)" "(qs, t) \<in> set (field_paths f0)" by (auto simp: message_paths_fields)
  have cols: "mset (map col_name cs) = mset (map sf_name (ms_fields s))" and sh: "\<And>c. c \<in> set cs \<Longrightarrow> shaped s c"
    using cov by (simp_all only: covers_def)
  from mset_eq_setD [OF cols] f0(1) have "sf_name f0 \<in> col_name ` set cs" by simp
  then obtain c0 where c0: "c0 \<in> set cs" "col_name c0 = sf_name f0" by auto
  have "distinct (map sf_name (ms_fields s))" using s schema_eqD by blast
  then have cs: "distinct cs" using cols by (metis mset_eq_imp_distinct_iff distinct_map)
  have q: "path_name (map snd qs) \<in> set (leaf_names c0)"
    using f0(2) mset_eq_setD [OF shaped_leaf_names [OF s f0(1) sh [OF c0(1)] c0(2)]] by force
  have "cells_of (col @ path_name (map snd qs)) (concat (map F cs)) = cells_of (col @ path_name (map snd qs)) (F c0)"
  proof (rule cells_of_only [OF cs c0(1)])
    fix x assume x: "x \<in> set cs" "x \<noteq> c0"
    have "path_name (map snd qs) \<notin> set (leaf_names x)" by (rule distinct_concat_others [OF dist c0(1) x q])
    then have "col @ path_name (map snd qs) \<notin> (\<lambda>n. col @ n) ` set (leaf_names x)" by auto
    then show "col @ path_name (map snd qs) \<notin> fst ` set (F x)" by (rule contra_subsetD [OF names [OF x(1)]])
  qed
  moreover have "distinct (leaf_names c0)" using dist c0(1) by (simp add: distinct_concat_iff)
  ultimately show ?thesis using cells [OF c0(1) f0(1) sh [OF c0(1)] c0(2) f0(2)] by simp
qed

lemma shred_stripe:
  "schema_wf S \<Longrightarrow> f \<in> set (ms_fields S) \<Longrightarrow> shaped S c \<Longrightarrow> col_name c = sf_name f \<Longrightarrow> (ps, t) \<in> set (field_paths f) \<Longrightarrow>
     distinct (leaf_names c) \<Longrightarrow>
     cells_of (col @ path_name (map snd ps)) (shred_ops r rm d os S col c) = map to_cell (stripe r rm d ps (MObject k os))"
proof (induction c arbitrary: S f ps r rm d os k col)
  case (Column name type enc n rep opt sub)
  let ?c = "Column name type enc n rep opt sub"
  note S = Column.prems(1) and f = Column.prems(2)
  have named: "field_named name S = Some f" using f Column.prems(4) field_named_iff [OF S] by simp
  note fid = field_idD [OF S named]
  obtain i type' m enc' schema where fe: "f = MessageSchemaField i name type' m rep opt enc' schema"
    and ty: "type = column_type type'"
    using Column.prems shaped_field [OF S f] by (cases f) auto
  have i: "field_id S name = i" using fid(2) by (simp add: fe)
  let ?ms = "children i os" and ?rm = "if rep then rm + 1 else rm" and ?d = "if opt \<or> rep then d + 1 else d"
  have mem: "path_name (map snd ps) \<in> set (leaf_names ?c)"
    using Column.prems(5) mset_eq_setD [OF shaped_leaf_names [OF S f Column.prems(3,4)]] by force
  have null: "cells_of (col @ path_name (map snd ps)) (null_ops r d (col @ name) ?c) = [(level r, level d, None)]"
    using null_ops_names [OF shaped_wf [OF Column.prems(3)], of r d col] cells_of_null [OF Column.prems(6) mem]
    by (simp del: null_ops.simps)
  show ?case
  proof (cases "type = SUBRECORD")
    case False
    then have ps: "ps = [(i, name, rep, opt)]" using Column.prems(5) ty by (simp add: fe column_type_SUBRECORD)
    have leaf: "cells_of (col @ name) (concat (map (\<lambda>(r, m). [(col @ name, (level r, level ?d, Some (datum_of m)))]) zs)) =
        map to_cell (concat (map (\<lambda>(r, m). stripe r ?rm ?d [] m) zs))" for zs
      by (induction zs) (auto simp: cells_of_def)
    show ?thesis
    proof (cases "?ms = []")
      case True
      then show ?thesis using null by (simp add: ps i Let_def del: null_ops.simps)
    next
      case ms: False
      then show ?thesis using False leaf [of "zip (r # replicate (length ?ms - 1) ?rm) ?ms"]
        by (simp add: ps i Let_def del: null_ops.simps stripe.simps(1))
    qed
  next
    case True
    with Column.prems(3) have "shaped S (Column name SUBRECORD enc n rep opt sub)" by simp
    from shaped_sub [OF this] named obtain s cs where s: "sf_schema f = Some s" "sub = Some (map Some cs)" "covers s cs"
      by auto
    note swf = field_schemaD(3) [OF S named s(1)]
    have "type' = F_OBJECT" using True ty by (simp add: column_type_SUBRECORD)
    with Column.prems(5) s(1) obtain qs where ps: "ps = (i, name, rep, opt) # qs" "(qs, t) \<in> set (message_paths s)"
      by (auto simp: fe)
    have qs: "qs \<noteq> []" using ps(2) field_paths_nonempty by (fastforce simp: message_paths_fields)
    have sh: "\<And>c. c \<in> set cs \<Longrightarrow> shaped s c" using s(3) by (simp add: covers_def)
    have "distinct (map (\<lambda>q. name @ [46] @ q) (concat (map leaf_names cs)))"
      using Column.prems(6) by (simp only: True s(2) leaf_names_record)
    then have dist: "distinct (concat (map leaf_names cs))" by (simp only: distinct_map)
    have inner: "cells_of (col @ path_name (map snd ps))
        (concat (map (\<lambda>c. shred_ops r ?rm ?d (mo_children m) s (col @ name @ [46]) c) cs)) =
        map to_cell (stripe r ?rm ?d qs m)" for r m
    proof -
      have pn: "col @ path_name (map snd ps) = (col @ name @ [46]) @ path_name (map snd qs)"
        using qs by (simp add: ps(1) path_name_Cons)
      have m: "stripe r ?rm ?d qs m = stripe r ?rm ?d qs (MObject 0 (mo_children m))" by (rule stripe_children [OF qs]) simp
      show ?thesis unfolding pn m
      proof (rule covers_only [OF conjunct2 [OF swf] s(3) ps(2) dist])
        fix c f0 assume "c \<in> set cs" "f0 \<in> set (ms_fields s)" "shaped s c" "col_name c = sf_name f0"
          "(qs, t) \<in> set (field_paths f0)" "distinct (leaf_names c)"
        then show "cells_of ((col @ name @ [46]) @ path_name (map snd qs))
            (shred_ops r ?rm ?d (mo_children m) s (col @ name @ [46]) c) =
            map to_cell (stripe r ?rm ?d qs (MObject 0 (mo_children m)))"
          by (intro Column.IH [of "map Some cs" "Some c" c s f0]) (use s(2) swf in auto)
      qed (rule shred_ops_names [OF sh])
    qed
    show ?thesis
    proof (cases "?ms = []")
      case True
      then show ?thesis using null by (simp add: ps i Let_def del: null_ops.simps)
    next
      case ms: False
      then show ?thesis
        using True s(2) swf inner by (simp add: ps(1) i Let_def cells_of_concat map_concat o_def split_def
          del: null_ops.simps cong: map_cong)
    qed
  qed
qed

section \<open>A whole row\<close>

lemma record_stripe:
  assumes S: "schema_wf S" and cov: "covers S cs" and ps: "(ps, t) \<in> set (message_paths S)"
    and dist: "distinct (concat (map leaf_names cs))"
  shows "cells_of (path_name (map snd ps)) (shred_record (map Some cs) os S) = map to_cell (stripe 0 0 0 ps (MObject 0 os))"
proof -
  have sh: "\<And>c. c \<in> set cs \<Longrightarrow> shaped S c" using cov by (simp add: covers_def)
  have "cells_of ([] @ path_name (map snd ps)) (concat (map (shred_ops 0 0 0 os S []) cs)) =
      map to_cell (stripe 0 0 0 ps (MObject 0 os))"
    by (rule covers_only [OF S cov ps dist shred_ops_names [OF sh]], assumption, rule shred_stripe [OF S])
  then show ?thesis by (simp add: shred_record_def)
qed

text \<open>
  \<open>path_ok t ps m\<close>: along the path, the fields of \<open>m\<close> occur as often as they may and its
  leaves have the type \<open>t\<close>.
\<close>

fun path_ok :: "FieldType \<Rightarrow> field_step list \<Rightarrow> message_object \<Rightarrow> bool" where
  "path_ok t [] m \<longleftrightarrow> mo_type m = t \<and> (case m of MString _ s \<Rightarrow> length s < 2 ^ 32 | _ \<Rightarrow> True)"
| "path_ok t ((i, name, rep, opt) # ps) m \<longleftrightarrow>
     (let ms = children i (mo_children m)
      in (rep \<or> length ms \<le> 1) \<and> (rep \<or> opt \<or> ms \<noteq> []) \<and> list_all (path_ok t ps) ms)"

lemma value_ok_string: "value_ok S m \<Longrightarrow> case m of MString _ s \<Rightarrow> length s < 2 ^ 32 | _ \<Rightarrow> True"
  by (cases m) auto

lemma row_path_ok:
  "schema_wf S \<Longrightarrow> row_ok S os \<Longrightarrow> mo_children m = os \<Longrightarrow> (ps, t) \<in> set (message_paths S) \<Longrightarrow> path_ok t ps m"
proof (induction ps arbitrary: S os m)
  case Nil
  then show ?case by (auto simp: message_paths_fields dest: field_paths_nonempty)
next
  case (Cons p ps)
  note S = schema_eqD [OF Cons.prems(1)]
  from Cons.prems(4) obtain f where f: "f \<in> set (ms_fields S)" "(p # ps, t) \<in> set (field_paths f)"
    by (auto simp: message_paths_fields)
  obtain i name type n rep opt enc sub where fe: "f = MessageSchemaField i name type n rep opt enc sub" by (cases f)
  have p: "p = (i, name, rep, opt)" using f(2) by (auto simp: fe split: if_splits option.splits)
  let ?ms = "children i os"
  have first: "first_field i (ms_fields S) = Some f" using S first_field_distinct [of "ms_fields S" f] f(1) by (simp add: fe)
  have "counts_ok S os" and ok: "list_all (value_ok S) os" using Cons.prems(2) by (simp_all add: row_ok_def)
  then have counts: "(rep \<or> length ?ms \<le> 1) \<and> (rep \<or> opt \<or> ?ms \<noteq> [])"
    using f(1) by (fastforce simp: counts_ok_def list_all_iff Let_def fe)
  have "path_ok t ps c" if c: "c \<in> set ?ms" for c
  proof -
    have co: "c \<in> set os" "mo_id c = i" using c by (auto simp: children_def)
    have vo: "value_ok S c" using ok co(1) by (simp add: list_all_iff)
    have cf: "first_field (mo_id c) (ms_fields S) = Some f" using first co(2) by simp
    note ty = value_okD [OF vo cf]
    show ?thesis
    proof (cases "type = F_OBJECT")
      case False
      then have "ps = []" "t = type" using f(2) by (auto simp: fe)
      then show ?thesis using ty(1) value_ok_string [OF vo] by (simp add: fe)
    next
      case True
      then obtain s where s: "sub = Some s" "row_ok s (mo_children c)" using ty(2) by (auto simp: fe)
      then have "(ps, t) \<in> set (message_paths s)" using f(2) True by (auto simp: fe)
      moreover have "schema_wf s" using S f(1) s(1) by (auto simp: fe)
      ultimately show ?thesis using Cons.IH [of s "mo_children c" c] s(2) by simp
    qed
  qed
  then show ?case using counts Cons.prems(3) by (simp add: p Let_def list_all_iff)
qed

lemma datum_storable:
  "mo_type m \<noteq> F_OBJECT \<Longrightarrow> (case m of MString _ s \<Rightarrow> length s < 2 ^ 32 | _ \<Rightarrow> True) \<Longrightarrow>
     storable (column_encoding (mo_type m)) (datum_of m)"
  by (cases m) simp_all

abbreviation rlevel :: "field_step list \<Rightarrow> nat" where
  "rlevel ps \<equiv> path_rlevel (map snd ps)"

abbreviation dlevel :: "field_step list \<Rightarrow> nat" where
  "dlevel ps \<equiv> path_dlevel (map snd ps)"

lemma level_Cons [simp]:
  "path_rlevel ((name, rep, opt) # ps) = (if rep then Suc (path_rlevel ps) else path_rlevel ps)"
  "path_dlevel ((name, rep, opt) # ps) = (if rep \<or> opt then Suc (path_dlevel ps) else path_dlevel ps)"
  "path_rlevel [] = 0" "path_dlevel [] = 0"
  by (simp_all add: path_rlevel_def path_dlevel_def)

lemma set_zip_levels:
  "(r', m) \<in> set (zip (r # replicate n k) ms) \<Longrightarrow> m \<in> set ms \<and> (r' = r \<or> r' = k)"
  by (auto dest!: set_zip_leftD set_zip_rightD split: if_splits simp: set_zip)
     (metis in_set_conv_nth length_replicate nth_Cons_0 nth_replicate old.nat.exhaust nth_Cons_Suc not_less_eq)

lemma stripe_levels:
  "path_ok t ps m \<Longrightarrow> t \<noteq> F_OBJECT \<Longrightarrow> (r', d', v) \<in> set (stripe r rm d ps m) \<Longrightarrow> r \<le> rm \<Longrightarrow>
     r' \<le> rm + rlevel ps \<and> d \<le> d' \<and> d' \<le> d + dlevel ps \<and> (v = None \<longleftrightarrow> d' \<noteq> d + dlevel ps) \<and>
     (\<forall>x. v = Some x \<longrightarrow> storable (column_encoding t) x)"
proof (induction ps arbitrary: m r rm d)
  case Nil
  then show ?case using datum_storable [of m] by simp
next
  case (Cons p ps)
  obtain i name rep opt where p: "p = (i, name, rep, opt)" by (cases p) auto
  let ?ms = "children i (mo_children m)" and ?rm = "if rep then rm + 1 else rm" and ?d = "if opt \<or> rep then d + 1 else d"
  have ok: "rep \<or> opt \<or> ?ms \<noteq> []" "\<forall>c \<in> set ?ms. path_ok t ps c" using Cons.prems(1) by (simp_all add: p Let_def list_all_iff)
  show ?case
  proof (cases "?ms = []")
    case True
    then show ?thesis using Cons.prems(3,4) ok(1) by (auto simp: p Let_def)
  next
    case False
    with Cons.prems(3) obtain r1 c where c: "(r1, c) \<in> set (zip (r # replicate (length ?ms - 1) ?rm) ?ms)"
      "(r', d', v) \<in> set (stripe r1 ?rm ?d ps c)" by (auto simp: p Let_def split_def split del: if_split)
    from set_zip_levels [OF c(1)] have r1: "c \<in> set ?ms" "r1 \<le> ?rm" using Cons.prems(4) by auto
    from Cons.IH [OF _ Cons.prems(2) c(2) r1(2)] ok(2) r1(1) show ?thesis by (auto simp: p)
  qed
qed

section \<open>The writers accept a row\<close>

lemma unat_level: "n < 2 ^ 32 \<Longrightarrow> unat (level n) = n"
  by (simp add: level_def unsigned_ucast_eq take_bit_eq_mod unat_of_nat)

lemma level_le: "a \<le> b \<Longrightarrow> b < 2 ^ 32 \<Longrightarrow> level a \<le> level b"
  by (simp add: word_le_nat_alt unat_level)

lemma level_eq: "a < 2 ^ 32 \<Longrightarrow> b < 2 ^ 32 \<Longrightarrow> level a = level b \<longleftrightarrow> a = b"
  by (metis unat_level)

lemma path_levels_le: "path_rlevel ps \<le> length ps" "path_dlevel ps \<le> length ps"
  by (simp_all add: path_rlevel_def path_dlevel_def)

definition depth_ok :: "message_schema \<Rightarrow> bool" where
  "depth_ok S \<longleftrightarrow> (\<forall>l \<in> set (message_paths S). length (fst l) < 2 ^ 32)"

lemma covers_flat:
  assumes "covers S cs"
  shows "TableSchema_flatColumns junk (map Some cs) = Inr (map (path_config junk [] 0 0) (schema_paths (map Some cs)))"
  by (rule flatColumns_paths) (use assms shaped_wf in \<open>force simp: covers_def wf_schema_def list_all_iff\<close>)

lemma path_config_fields:
  "cc_column_name (path_config junk [] 0 0 (column_path (ps, t))) = path_name (map snd ps)"
  "cc_rlevel_max (path_config junk [] 0 0 (column_path (ps, t))) = level (rlevel ps)"
  "cc_dlevel_max (path_config junk [] 0 0 (column_path (ps, t))) = level (dlevel ps)"
  "cc_storage_type (path_config junk [] 0 0 (column_path (ps, t))) = column_encoding t"
  "cc_logical_type (path_config junk [] 0 0 (column_path (ps, t))) = column_type t"
  by (simp_all add: path_config_def column_path_def level_def)

lemma flat_names: "map cc_column_name (map (path_config junk [] 0 0) (schema_paths (map Some cs))) = concat (map leaf_names cs)"
proof -
  have "cc_column_name (path_config junk [] 0 0 l) = path_name (fst l)" for l by (cases l) (simp add: path_config_def)
  then show ?thesis unfolding leaf_names_def by (simp add: schema_paths_def map_concat o_def)
qed

lemma field_types_known:
  shows "schema_wf S \<Longrightarrow> (ps, t) \<in> set (message_paths S) \<Longrightarrow> t \<noteq> F_OBJECT \<and> known_field_type t"
    and "field_wf f \<Longrightarrow> (ps, t) \<in> set (field_paths f) \<Longrightarrow> t \<noteq> F_OBJECT \<and> known_field_type t"
proof (induction S and f arbitrary: ps and ps)
  case (Schema nm fs ids types names)
  from Schema.prems(2) obtain f where f: "f \<in> set fs" "(ps, t) \<in> set (field_paths f)" by auto
  moreover have "ms_fields (Schema nm fs ids types names) = fs" by simp
  then have "field_wf f" using schema_eqD [OF Schema.prems(1)] f(1) by metis
  ultimately show ?case using Schema.IH by blast
next
  case (MessageSchemaField i name type n rep opt enc sub)
  then show ?case by (cases sub) (auto split: if_splits)
qed

lemma record_ops_ok:
  assumes S: "schema_wf S" and cov: "covers S cs" and depth: "depth_ok S" and row: "row_ok S os"
    and flat: "TableSchema_flatColumns junk (map Some cs) = Inr cols" and ok: "v1_table_ok cols"
  shows "\<forall>op \<in> set (shred_record (map Some cs) os S). op_ok cols op"
proof
  fix op assume op: "op \<in> set (shred_record (map Some cs) os S)"
  obtain name r d v where o: "op = (name, (r, d, v))" by (cases op) auto
  have cols: "cols = map (path_config junk [] 0 0) (schema_paths (map Some cs))" using flat covers_flat [OF cov] by simp
  then have dist: "distinct (concat (map leaf_names cs))" using ok flat_names by (simp only: v1_table_ok_def)
  from op obtain c where c: "c \<in> set cs" "op \<in> set (shred_ops 0 0 0 os S [] c)" by (auto simp: shred_record_def)
  then have "name \<in> set (leaf_names c)" using shred_ops_names [of S c 0 0 0 os S "[]"] cov by (force simp: covers_def o)
  then have "name \<in> set (concat (map leaf_names cs))" using c(1) by auto
  then have mem: "name \<in> cc_column_name ` set cols" unfolding cols flat_names [symmetric, of cs junk] by (simp only: set_map)
  have "cell_ok (cc_rlevel_max cfg) (cc_dlevel_max cfg) (r, d, v) \<and> (case v of None \<Rightarrow> True | Some x \<Rightarrow> storable (cc_storage_type cfg) x)"
    if cfg: "cfg \<in> set cols" "cc_column_name cfg = name" for cfg
  proof -
    have "set (schema_paths (map Some cs)) = column_path ` set (message_paths S)"
      using mset_eq_setD [OF covers_paths [OF S cov]] by simp
    with cfg(1) obtain ps t where ps: "(ps, t) \<in> set (message_paths S)" "cfg = path_config junk [] 0 0 (column_path (ps, t))"
      by (auto simp: cols)
    note f = path_config_fields [of junk ps t, folded ps(2)]
    have "(r, d, v) \<in> set (cells_of name (shred_record (map Some cs) os S))" using op by (force simp: cells_of_def o)
    then obtain r' d' where cell: "(r', d', v) \<in> set (stripe 0 0 0 ps (MObject 0 os))" "r = level r'" "d = level d'"
      using record_stripe [OF S cov ps(1) dist, of os] f(1) cfg(2) by auto
    have t: "t \<noteq> F_OBJECT" using field_types_known(1) [OF S ps(1)] by blast
    have pok: "path_ok t ps (MObject 0 os)" by (rule row_path_ok [OF S row _ ps(1)]) simp
    from stripe_levels [OF pok t cell(1)] have
      lv: "r' \<le> rlevel ps" "d' \<le> dlevel ps" "v = None \<longleftrightarrow> d' \<noteq> dlevel ps" "\<forall>x. v = Some x \<longrightarrow> storable (column_encoding t) x"
      by auto
    have "length ps < 2 ^ 32" using depth ps(1) by (force simp: depth_ok_def)
    then have b: "rlevel ps < 2 ^ 32" "dlevel ps < 2 ^ 32" using path_levels_le [of "map snd ps"] by simp_all
    show ?thesis using lv b level_le [of r' "rlevel ps"] level_le [of d' "dlevel ps"] level_eq [of d' "dlevel ps"]
      by (auto simp: cell_ok_def cell f split: option.splits)
  qed
  with mem show "op_ok cols op" by (simp add: op_ok_def o)
qed

section \<open>Rows\<close>

text \<open>Writing a row of the schema is putting its cells and counting it.\<close>

lemma addRecord_puts:
  assumes S: "schema_wf S" and cov: "covers S cs" and row: "row_ok S os" and tw: "tw_version tw = V0_1_0"
  shows "addRecordFromProtobuf (map Some cs) (MObject k os) S tw =
    res_bind (res_fold tw_put (shred_record (map Some cs) os S) tw) (\<lambda>tw. Inr (CSTableWriter_addRow tw))"
proof -
  have "v1_runs (res_fold (addProtoRecordField 0 0 0 (MObject k os) S []) cs) (concat (map (shred_ops 0 0 0 os S []) cs))"
  proof (rule v1_runs_fold)
    fix c assume "c \<in> set cs"
    then have "shaped S c" using cov by (simp add: covers_def)
    from addProtoRecordField_runs [OF S this row, of "MObject k os" 0 0 0 "[]"]
    show "v1_runs (addProtoRecordField 0 0 0 (MObject k os) S [] c) (shred_ops 0 0 0 os S [] c)" by simp
  qed
  then show ?thesis using tw by (simp add: addRecordFromProtobuf_def shred_record_def v1_runs_def res_fold_deref)
qed

lemma tw_put_addRows: "tw_put op (CSTableWriter_addRows n tw) = res_bind (tw_put op tw) (\<lambda>tw. Inr (CSTableWriter_addRows n tw))"
  by (simp add: tw_put_def CSTableWriter_addRows_def CSTableWriter_getColumnWriter_def tw_write_column_def res_bind_def
      split: prod.splits option.splits sum.splits)

lemma tw_puts_addRows:
  "res_fold tw_put ops (CSTableWriter_addRows n tw) = res_bind (res_fold tw_put ops tw) (\<lambda>tw. Inr (CSTableWriter_addRows n tw))"
  by (induction ops arbitrary: tw) (simp_all add: tw_put_addRows res_bind_assoc)

lemma addRows_add: "CSTableWriter_addRows n (CSTableWriter_addRows k tw) = CSTableWriter_addRows (n + k) tw"
  by (simp add: CSTableWriter_addRows_def add.assoc add.commute)

lemma addRow_addRows: "CSTableWriter_addRow tw = CSTableWriter_addRows 1 tw"
  by (simp add: CSTableWriter_addRow_def CSTableWriter_addRows_def)

lemma addRecords_puts:
  assumes S: "schema_wf S" and cov: "covers S cs" and rows: "\<forall>os \<in> set rows. row_ok S os"
  shows "tw_version tw = V0_1_0 \<Longrightarrow>
    res_fold (\<lambda>os. addRecordFromProtobuf (map Some cs) (MObject k os) S) rows tw =
    res_bind (res_fold tw_put (concat (map (\<lambda>os. shred_record (map Some cs) os S) rows)) tw)
      (\<lambda>tw. Inr (CSTableWriter_addRows (word_of_nat (length rows)) tw))"
  using rows
proof (induction rows arbitrary: tw)
  case Nil
  then show ?case by (simp add: CSTableWriter_addRows_def)
next
  case (Cons os rows)
  let ?ops = "shred_record (map Some cs) os S" and ?rest = "concat (map (\<lambda>os. shred_record (map Some cs) os S) rows)"
  have "row_ok S os" using Cons.prems(2) by simp
  note row = addRecord_puts [OF S cov this Cons.prems(1), of k]
  show ?case
  proof (cases "res_fold tw_put ?ops tw")
    case (Inl e)
    then show ?thesis using row by (simp add: res_fold_append)
  next
    case (Inr tw1)
    then have "tw_version (CSTableWriter_addRow tw1) = V0_1_0"
      using tw_puts_version [OF Inr] Cons.prems(1) by (simp add: CSTableWriter_addRow_def)
    from Cons.IH [OF this] Cons.prems(2) Inr row show ?thesis
      by (simp add: res_fold_append addRow_addRows tw_puts_addRows res_bind_assoc addRows_add add.commute)
  qed
qed

end
