(* ===== verification/CS_Rebuild.thy ===== *)
theory CS_Rebuild
  imports CS_Stripes
begin

text \<open>
  What inserting the cells of a stripe does to a message, on lists of children: the message
  gains, along the path of the column, the parts of the row it came from. Doing so for every
  column gives the row back, up to the order of children with different ids.
\<close>

section \<open>Inserting\<close>

text \<open>
  \<open>upd_child i k g\<close> applies \<open>g\<close> to the children of the child number \<open>k\<close> with id \<open>i\<close>. \<open>ins\<close> inserts
  one cell with definition level \<open>d\<close> below the objects of the path, \<open>play\<close> all cells of a
  column, counting the indexes from the repetition levels.
\<close>

fun upd_child :: "u32 \<Rightarrow> nat \<Rightarrow> (message_object list \<Rightarrow> message_object list) \<Rightarrow> message_object list \<Rightarrow> message_object list" where
  "upd_child i k g [] = replicate k (MObject i []) @ [MObject i (g [])]"
| "upd_child i k g (c # cs) =
     (if mo_id c = i then (if k = 0 then MObject i (g (mo_children c)) # cs else c # upd_child i (k - 1) g cs)
      else c # upd_child i k g cs)"

fun ins :: "nat \<Rightarrow> field_step list \<Rightarrow> nat list \<Rightarrow> nat \<Rightarrow> message_object option \<Rightarrow> message_object list \<Rightarrow> message_object list" where
  "ins d0 [] idx d v os = os @ (case v of None \<Rightarrow> [] | Some x \<Rightarrow> [x])"
| "ins d0 ((i, name, rep, opt) # ps) idx d v os =
     (let d' = (if opt \<or> rep then d0 + 1 else d0)
      in if d < d' then os
         else upd_child i (if rep then hd idx else 0) (ins d' ps (if rep then tl idx else idx) d v) os)"

fun bump :: "nat \<Rightarrow> nat list \<Rightarrow> nat list" where
  "bump 0 idx = idx"
| "bump (Suc r) idx = take r idx @ [Suc (idx ! r)] @ replicate (length idx - Suc r) 0"

fun leaf_object :: "FieldType \<Rightarrow> u32 \<Rightarrow> datum \<Rightarrow> message_object" where
  "leaf_object F_BOOLEAN i (DBool b) = MBoolean i b"
| "leaf_object F_UINT32 i (DUInt v) = MUInt32 i (ucast v)"
| "leaf_object F_UINT64 i (DUInt v) = MUInt64 i v"
| "leaf_object F_DATETIME i (DUInt v) = MDateTime i v"
| "leaf_object F_DOUBLE i (DFloat v) = MDouble i v"
| "leaf_object F_STRING i (DString s) = MString i s"
| "leaf_object _ i _ = MObject i []"

fun play ::
  "FieldType \<Rightarrow> u32 \<Rightarrow> nat \<Rightarrow> nat \<Rightarrow> field_step list \<Rightarrow> level_cell list \<Rightarrow> nat list \<Rightarrow> message_object list \<Rightarrow> message_object list" where
  "play t l rm d0 ps [] idx os = os"
| "play t l rm d0 ps ((r, d, v) # cs) idx os =
     play t l rm d0 ps cs (bump (r - rm) idx) (ins d0 ps (bump (r - rm) idx) d (map_option (leaf_object t l) v) os)"

definition idx_after :: "nat \<Rightarrow> level_cell list \<Rightarrow> nat list \<Rightarrow> nat list" where
  "idx_after rm cs idx = fold (\<lambda>(r, d, v). bump (r - rm)) cs idx"

text \<open>
  \<open>merge\<close>: what a column takes over from a row \<open>m\<close>, a path of field steps ending with the leaf.
\<close>

fun merge :: "field_step list \<Rightarrow> message_object \<Rightarrow> message_object list \<Rightarrow> message_object list" where
  "merge [] m os = os"
| "merge ((i, _) # ps) m os =
     (let ms = children i (mo_children m)
      in if ps = [] then os @ ms else fold (\<lambda>(k, c). upd_child i k (merge ps c)) (enumerate 0 ms) os)"

lemma length_bump [simp]: "r \<le> length idx \<Longrightarrow> length (bump r idx) = length idx"
  by (cases r) auto

lemma idx_after_simps [simp]:
  "idx_after rm [] idx = idx"
  "idx_after rm ((r, d, v) # cs) idx = idx_after rm cs (bump (r - rm) idx)"
  by (simp_all add: idx_after_def)

lemma play_append:
  "play t l rm d0 ps (xs @ ys) idx os = play t l rm d0 ps ys (idx_after rm xs idx) (play t l rm d0 ps xs idx os)"
  by (induction t l rm d0 ps xs idx os rule: play.induct) simp_all

lemma bump_Cons: "r \<noteq> 0 \<Longrightarrow> bump (Suc r) (h # idx) = h # bump r idx"
  by (cases r) simp_all

lemma bump_one: "bump 1 (h # idx) = Suc h # replicate (length idx) 0"
  by simp

lemma upd_child_upd_child: "upd_child i k g (upd_child i k f os) = upd_child i k (\<lambda>fs. g (f fs)) os"
proof (induction i k f os rule: upd_child.induct)
  case (1 i k f)
  have "upd_child i k g (replicate k (MObject i []) @ [MObject i fs]) = replicate k (MObject i []) @ [MObject i (g fs)]" for fs
    by (induction k) simp_all
  then show ?case by simp
qed auto

section \<open>The cells of a stripe\<close>

lemma zip_replicate_map: "length ys = n \<Longrightarrow> map f (zip (replicate n x) ys) = map (\<lambda>y. f (x, y)) ys"
proof (induction ys arbitrary: n)
  case (Cons y ys)
  then show ?case by (cases n) simp_all
qed simp

lemma stripe_blocks:
  "stripe r rm d ((i, name, rep, opt) # ps) m =
     (let rm' = (if rep then rm + 1 else rm); d' = (if opt \<or> rep then d + 1 else d)
      in case children i (mo_children m) of
           [] \<Rightarrow> [(r, d, None)]
         | c # cs \<Rightarrow> stripe r rm' d' ps c @ concat (map (stripe rm' rm' d' ps) cs))"
  by (simp add: Let_def zip_replicate_map split: list.split)

lemma stripe_shape:
  "path_ok t ps m \<Longrightarrow> r \<le> rm \<Longrightarrow>
     \<exists>d1 v1 rest. stripe r rm d ps m = (r, d1, v1) # rest \<and> (\<forall>(r', d', v') \<in> set rest. rm < r' \<and> r' \<le> rm + rlevel ps)"
proof (induction ps arbitrary: r rm d m)
  case (Cons p ps)
  obtain i name rep opt where p: "p = (i, name, rep, opt)" by (cases p) auto
  let ?rm = "if rep then rm + 1 else rm" and ?d = "if opt \<or> rep then d + 1 else d"
  show ?case
  proof (cases "children i (mo_children m)")
    case Nil
    then show ?thesis by (simp add: p Let_def)
  next
    case ms: (Cons c cs)
    have ok: "path_ok t ps c" "\<forall>c \<in> set cs. path_ok t ps c" "rep \<or> cs = []"
      using Cons.prems(1) ms by (auto simp: p Let_def list_all_iff)
    have "r \<le> ?rm" using Cons.prems by simp
    from Cons.IH [OF ok(1) this, of ?d] obtain d1 v1 rest where
      h: "stripe r ?rm ?d ps c = (r, d1, v1) # rest" "\<forall>(r', d', v') \<in> set rest. ?rm < r' \<and> r' \<le> ?rm + rlevel ps" by blast
    have "rm < r' \<and> r' \<le> rm + rlevel (p # ps)" if c': "c' \<in> set cs" "(r', d', v') \<in> set (stripe ?rm ?rm ?d ps c')" for c' r' d' v'
    proof -
      have "rep" "path_ok t ps c'" using ok c'(1) by auto
      with Cons.IH [of c' ?rm ?rm ?d] c'(2) show ?thesis by (fastforce simp: p)
    qed
    moreover have "rm < r' \<and> r' \<le> rm + rlevel (p # ps)" if "(r', d', v') \<in> set rest" for r' d' v'
      using h(2) that by (auto simp: p split: if_splits)
    moreover have "stripe r rm d (p # ps) m = (r, d1, v1) # (rest @ concat (map (stripe ?rm ?rm ?d ps) cs))"
      unfolding p stripe_blocks Let_def ms using h(1) by simp
    ultimately show ?thesis by (intro exI conjI) (assumption, fastforce)
  qed
qed simp

section \<open>One column\<close>

text \<open>Cells that stay below the first step of the path act on one child.\<close>

lemma play_below:
  assumes "rm' = (if rep then rm + 1 else rm)" and "d' = (if opt \<or> rep then d0 + 1 else d0)"
  shows "\<forall>(r, d, v) \<in> set cs. rm' < r \<and> d' \<le> d \<Longrightarrow>
    play t l rm d0 ((i, name, rep, opt) # ps) cs (if rep then h # idx else idx) (upd_child i (if rep then h else 0) g os) =
      upd_child i (if rep then h else 0) (\<lambda>fs. play t l rm' d' ps cs idx (g fs)) os"
proof (induction cs arbitrary: idx g)
  case (Cons c cs)
  obtain r d v where c: "c = (r, d, v)" by (cases c)
  have r: "rm' < r" "d' \<le> d" using Cons.prems by (auto simp: c)
  have b: "bump (r - rm) (if rep then h # idx else idx) = (if rep then h # bump (r - rm') idx else bump (r - rm') idx)"
    using r(1) assms(1) bump_Cons [of "r - rm'" h idx] by (cases rep) (auto simp: Suc_diff_Suc)
  have i: "ins d0 ((i, name, rep, opt) # ps) (if rep then h # bump (r - rm') idx else bump (r - rm') idx) d v'
      (upd_child i (if rep then h else 0) g os) =
      upd_child i (if rep then h else 0) (\<lambda>fs. ins d' ps (bump (r - rm') idx) d v' (g fs)) os" for v'
    using r(2) assms(2) by (simp add: Let_def upd_child_upd_child)
  show ?case using Cons by (simp only: c play.simps b i) simp
qed simp

lemma idx_below:
  assumes "rm' = (if rep then rm + 1 else rm)"
  shows "\<forall>(r, d, v) \<in> set cs. rm' < r \<Longrightarrow>
    idx_after rm cs (if rep then h # idx else idx) = (if rep then h # idx_after rm' cs idx else idx_after rm' cs idx)"
proof (induction cs arbitrary: idx)
  case (Cons c cs)
  obtain r d v where c: "c = (r, d, v)" by (cases c)
  have "rm' < r" using Cons.prems by (auto simp: c)
  then have "bump (r - rm) (if rep then h # idx else idx) = (if rep then h # bump (r - rm') idx else bump (r - rm') idx)"
    using assms bump_Cons [of "r - rm'" h idx] by (cases rep) (auto simp: Suc_diff_Suc)
  then show ?case using Cons by (simp only: c idx_after_simps) simp
qed simp

lemma length_idx_after:
  "\<forall>(r, d, v) \<in> set cs. r \<le> rm + length idx \<Longrightarrow> length (idx_after rm cs idx) = length idx"
proof (induction cs arbitrary: idx)
  case (Cons c cs)
  obtain r d v where c: "c = (r, d, v)" by (cases c)
  have "length (bump (r - rm) idx) = length idx" using Cons.prems by (intro length_bump) (auto simp: c)
  then show ?case using Cons by (simp add: c)
qed simp

lemma play_block:
  assumes rm': "rm' = (if rep then rm + 1 else rm)" and d': "d' = (if opt \<or> rep then d0 + 1 else d0)"
    and ok: "path_ok t ps c" "t \<noteq> F_OBJECT" and q: "q \<le> rm'"
    and inner: "\<And>os. play t l rm' d' P (stripe q rm' d' ps c) (replicate (rlevel ps) 0) os = g os"
    and idx: "bump (q - rm) idx = (if rep then h # replicate (rlevel ps) 0 else replicate (rlevel ps) 0)"
  shows "play t l rm d0 ((i, name, rep, opt) # P) (stripe q rm' d' ps c) idx os = upd_child i (if rep then h else 0) g os"
    and "\<exists>idx2. idx_after rm (stripe q rm' d' ps c) idx = (if rep then h # idx2 else idx2) \<and> length idx2 = rlevel ps"
proof -
  let ?zs = "replicate (rlevel ps) 0 :: nat list" and ?k = "if rep then h else 0"
  from stripe_shape [OF ok(1) q, of d'] obtain d1 v1 rest where cells: "stripe q rm' d' ps c = (q, d1, v1) # rest"
    "\<forall>(r, d, v) \<in> set rest. rm' < r \<and> r \<le> rm' + rlevel ps" by blast
  have d: "d' \<le> d" if "(r, d, v) \<in> set (stripe q rm' d' ps c)" for r d v
    using stripe_levels [OF ok that q] by blast
  have d1: "d' \<le> d1" and below: "\<forall>(r, d, v) \<in> set rest. rm' < r \<and> d' \<le> d"
    using d cells by auto
  let ?v = "map_option (leaf_object t l) v1" and ?I = "if rep then h # ?zs else ?zs"
  have "play t l rm d0 ((i, name, rep, opt) # P) (stripe q rm' d' ps c) idx os =
      play t l rm d0 ((i, name, rep, opt) # P) rest ?I (upd_child i ?k (ins d' P ?zs d1 ?v) os)"
    using d1 by (simp only: cells(1) play.simps idx) (simp add: d' Let_def)
  also have "\<dots> = upd_child i ?k (\<lambda>fs. play t l rm' d' P rest ?zs (ins d' P ?zs d1 ?v fs)) os"
    by (rule play_below [OF rm' d' below])
  also have "(\<lambda>fs. play t l rm' d' P rest ?zs (ins d' P ?zs d1 ?v fs)) = g"
    using inner q by (simp add: cells(1) fun_eq_iff)
  finally show "play t l rm d0 ((i, name, rep, opt) # P) (stripe q rm' d' ps c) idx os = upd_child i ?k g os" .
  have "idx_after rm rest ?I = (if rep then h # idx_after rm' rest ?zs else idx_after rm' rest ?zs)"
    by (rule idx_below [OF rm']) (use below in auto)
  moreover have "length (idx_after rm' rest ?zs) = rlevel ps"
    using length_idx_after [of rest rm' ?zs] cells(2) by auto
  ultimately show "\<exists>idx2. idx_after rm (stripe q rm' d' ps c) idx = (if rep then h # idx2 else idx2) \<and> length idx2 = rlevel ps"
    by (simp only: cells(1) idx_after_simps idx) blast
qed

lemma play_blocks:
  assumes ok: "\<forall>c \<in> set cs. path_ok t ps c" "t \<noteq> F_OBJECT" and d': "d' = d0 + 1"
    and inner: "\<And>c os. c \<in> set cs \<Longrightarrow>
      play t l (rm + 1) d' P (stripe (rm + 1) (rm + 1) d' ps c) (replicate (rlevel ps) 0) os = g c os"
  shows "length idx2 = rlevel ps \<Longrightarrow>
    play t l rm d0 ((i, name, True, opt) # P) (concat (map (stripe (rm + 1) (rm + 1) d' ps) cs)) (h # idx2) os =
      fold (\<lambda>(k, c). upd_child i k (g c)) (enumerate (Suc h) cs) os"
  using ok(1) inner
proof (induction cs arbitrary: h idx2 os)
  case (Cons c cs)
  have okc: "path_ok t ps c" using Cons.prems(2) by simp
  have b: "bump (rm + 1 - rm) (h # idx2) = (if True then Suc h # replicate (rlevel ps) 0 else replicate (rlevel ps) 0)"
    using Cons.prems(1) by simp
  have inn: "play t l (rm + 1) d' P (stripe (rm + 1) (rm + 1) d' ps c) (replicate (rlevel ps) 0) os = g c os" for os
    using Cons.prems(3) by simp
  note block = play_block [where rm' = "rm + 1" and rep = True and d' = d' and ?d0.0 = d0 and opt = opt, OF _ _ okc ok(2) _ inn b]
  from block(1) [of i name] d' have "play t l rm d0 ((i, name, True, opt) # P) (stripe (rm + 1) (rm + 1) d' ps c) (h # idx2) os =
      upd_child i (Suc h) (g c) os" by simp
  moreover from block(2) d' obtain idx3 where "idx_after rm (stripe (rm + 1) (rm + 1) d' ps c) (h # idx2) = Suc h # idx3"
    "length idx3 = rlevel ps" by auto
  ultimately show ?case using Cons by (simp add: play_append)
qed simp

lemma play_leaf:
  "play t l rm d0 [] cs idx os = os @ concat (map (\<lambda>(r, d, v). case v of None \<Rightarrow> [] | Some x \<Rightarrow> [leaf_object t l x]) cs)"
proof (induction cs arbitrary: idx os)
  case (Cons c cs)
  then show ?case by (cases c rule: prod_cases3) (auto split: option.splits)
qed simp

lemma leaf_object_datum: "mo_type m = t \<Longrightarrow> t \<noteq> F_OBJECT \<Longrightarrow> leaf_object t (mo_id m) (datum_of m) = m"
  by (cases m) auto

lemma play_stripe:
  "path_ok t (P @ [(l, name, rep, opt)]) m \<Longrightarrow> t \<noteq> F_OBJECT \<Longrightarrow> r \<le> rm \<Longrightarrow>
     play t l rm d0 P (stripe r rm d0 (P @ [(l, name, rep, opt)]) m) (replicate (rlevel (P @ [(l, name, rep, opt)])) 0) os =
       merge (P @ [(l, name, rep, opt)]) m os"
proof (induction P arbitrary: r rm d0 m os)
  case Nil
  let ?ms = "children l (mo_children m)"
  have "leaf_object t l (datum_of c) = c" if "c \<in> set ?ms" for c
  proof -
    from that have "mo_id c = l" "mo_type c = t" using Nil.prems(1) by (auto simp: children_def Let_def list_all_iff)
    then show ?thesis using leaf_object_datum [of c t] Nil.prems(2) by simp
  qed
  then have "concat (map (\<lambda>c. [leaf_object t l (datum_of c)]) ?ms) = concat (map (\<lambda>c. [c]) ?ms)"
    by (intro arg_cong [where f = concat] map_cong refl) simp
  then show ?case unfolding append_Nil stripe_blocks play_leaf Let_def
    by (cases ?ms) (simp_all add: map_concat o_def)
next
  case (Cons p P)
  obtain i name' rep' opt' where p: "p = (i, name', rep', opt')" by (cases p) auto
  let ?ps = "P @ [(l, name, rep, opt)]"
  let ?rm = "if rep' then rm + 1 else rm" and ?d = "if opt' \<or> rep' then d0 + 1 else d0"
  let ?idx = "replicate (rlevel (p # ?ps)) 0 :: nat list"
  have idx: "?idx = (if rep' then 0 # replicate (rlevel ?ps) 0 else replicate (rlevel ?ps) 0)" by (simp add: p)
  show ?case
  proof (cases "children i (mo_children m)")
    case ms: Nil
    then have "opt' \<or> rep'" using Cons.prems(1) by (auto simp: p Let_def)
    then show ?thesis unfolding append_Cons p stripe_blocks Let_def ms using Cons.prems(3) by (simp add: Let_def ms)
  next
    case ms: (Cons c cs)
    have ok: "path_ok t ?ps c" "\<forall>c \<in> set cs. path_ok t ?ps c" "rep' \<or> cs = []"
      using Cons.prems(1) ms by (auto simp: p Let_def list_all_iff)
    have "r \<le> ?rm" using Cons.prems(3) by simp
    have b: "bump (r - rm) ?idx = (if rep' then 0 # replicate (rlevel ?ps) 0 else replicate (rlevel ?ps) 0)"
      using Cons.prems(3) idx by simp
    note block = play_block [OF refl refl ok(1) Cons.prems(2) \<open>r \<le> ?rm\<close> Cons.IH [OF ok(1) Cons.prems(2) \<open>r \<le> ?rm\<close>] b]
    from block(2) obtain idx2 where idx2: "idx_after rm (stripe r ?rm ?d ?ps c) ?idx = (if rep' then 0 # idx2 else idx2)"
      "length idx2 = rlevel ?ps" by blast
    have rest: "play t l rm d0 (p # P) (concat (map (stripe ?rm ?rm ?d ?ps) cs)) (if rep' then 0 # idx2 else idx2) os =
        fold (\<lambda>(k, c). upd_child i k (merge ?ps c)) (enumerate (Suc 0) cs) os" for os
    proof (cases rep')
      case True
      have "play t l rm d0 ((i, name', True, opt') # P) (concat (map (stripe (rm + 1) (rm + 1) (d0 + 1) ?ps) cs)) (0 # idx2) os =
          fold (\<lambda>(k, c). upd_child i k (merge ?ps c)) (enumerate (Suc 0) cs) os"
        by (rule play_blocks [OF ok(2) Cons.prems(2) refl _ idx2(2)]) (rule Cons.IH [OF _ Cons.prems(2)], use ok(2) in auto)
      then show ?thesis using True by (simp add: p)
    next
      case False
      then show ?thesis using ok(3) by simp
    qed
    have "play t l rm d0 (p # P) (stripe r rm d0 (p # ?ps) m) ?idx os =
        play t l rm d0 (p # P) (concat (map (stripe ?rm ?rm ?d ?ps) cs)) (if rep' then 0 # idx2 else idx2)
          (upd_child i 0 (merge ?ps c) os)"
      unfolding p stripe_blocks Let_def ms using block(1) idx2(1) by (simp add: play_append p)
    also have "\<dots> = merge (p # ?ps) m os" unfolding rest by (simp add: p Let_def ms)
    finally show ?thesis by simp
  qed
qed

section \<open>Children after inserting\<close>

definition pick :: "message_object list \<Rightarrow> nat \<Rightarrow> message_object list" where
  "pick old k = (if k < length old then mo_children (old ! k) else [])"

lemma children_Nil [simp]: "children i [] = []"
  by (simp add: children_def)

lemma children_Cons [simp]: "children i (c # cs) = (if mo_id c = i then c # children i cs else children i cs)"
  by (simp add: children_def)

lemma children_append [simp]: "children i (xs @ ys) = children i xs @ children i ys"
  by (simp add: children_def)

lemma children_idem [simp]: "children i (children i xs) = children i xs"
  by (simp add: children_def)

lemma children_other: "i \<noteq> j \<Longrightarrow> children j (children i xs) = []"
  by (auto simp: children_def filter_empty_conv)

lemma children_replicate [simp]: "children j (replicate k (MObject i [])) = (if i = j then replicate k (MObject i []) else [])"
  by (induction k) auto

lemma children_upd:
  "children i (upd_child i k g os) =
     (let old = children i os
      in if k < length old then old[k := MObject i (g (pick old k))]
         else old @ replicate (k - length old) (MObject i []) @ [MObject i (g [])])"
proof (induction i k g os rule: upd_child.induct)
  case (2 i k g c cs)
  then show ?case by (cases k) (auto simp: Let_def pick_def)
qed (simp add: Let_def)

lemma children_upd_other: "i \<noteq> j \<Longrightarrow> children j (upd_child i k g os) = children j os"
  by (induction i k g os rule: upd_child.induct) auto

lemma children_fold:
  "h \<le> length (children i os) \<Longrightarrow> length (children i os) \<le> h + length cs \<Longrightarrow>
     children i (fold (\<lambda>(k, c). upd_child i k (G c)) (enumerate h cs) os) =
       take h (children i os) @ map (\<lambda>(k, c). MObject i (G c (pick (children i os) k))) (enumerate h cs)"
proof (induction cs arbitrary: h os)
  case (Cons c cs)
  let ?old = "children i os" and ?os = "upd_child i h (G c) os"
  let ?X = "MObject i (G c (pick ?old h))"
  have new: "children i ?os = (if h < length ?old then ?old[h := ?X] else ?old @ [?X])"
    using Cons.prems(1) by (simp add: children_upd Let_def pick_def)
  have "h + 1 \<le> length (children i ?os)" "length (children i ?os) \<le> (h + 1) + length cs"
    using Cons.prems by (simp_all add: new)
  from Cons.IH [OF this] have "children i (fold (\<lambda>(k, c). upd_child i k (G c)) (enumerate h (c # cs)) os) =
      take (h + 1) (children i ?os) @ map (\<lambda>(k, c). MObject i (G c (pick (children i ?os) k))) (enumerate (h + 1) cs)"
    by simp
  also have "take (h + 1) (children i ?os) = take h ?old @ [?X]"
    using Cons.prems(1) by (auto simp: new take_Suc_conv_app_nth)
  also have "map (\<lambda>(k, c). MObject i (G c (pick (children i ?os) k))) (enumerate (h + 1) cs) =
      map (\<lambda>(k, c). MObject i (G c (pick ?old k))) (enumerate (h + 1) cs)"
  proof (rule map_cong [OF refl])
    fix x assume mem: "x \<in> set (enumerate (h + 1) cs)"
    obtain k c' where x: "x = (k, c')" by (cases x)
    with mem have "h + 1 \<le> k" by (simp only: in_set_enumerate_eq fst_conv)
    have "pick (children i ?os) k = pick ?old k" using \<open>h + 1 \<le> k\<close> Cons.prems(1) by (auto simp: new pick_def nth_append)
    then show "(case x of (k, c) \<Rightarrow> MObject i (G c (pick (children i ?os) k))) = (case x of (k, c) \<Rightarrow> MObject i (G c (pick ?old k)))"
      by (simp add: x)
  qed
  finally show ?case by simp
qed simp

lemma children_merge_other: "i \<noteq> j \<Longrightarrow> children j (merge ((i, x) # ps) m os) = children j os"
proof -
  assume "i \<noteq> j"
  then have "children j (fold (\<lambda>(k, c). upd_child i k (merge ps c)) xs os) = children j os" for xs
    by (induction xs arbitrary: os) (auto simp: children_upd_other)
  then show ?thesis using \<open>i \<noteq> j\<close> by (simp add: Let_def children_other)
qed

lemma children_merge:
  assumes "ps \<noteq> []" and "length (children i os) \<le> length (children i (mo_children m))"
  shows "children i (merge ((i, x) # ps) m os) =
    map (\<lambda>(k, c). MObject i (merge ps c (pick (children i os) k))) (enumerate 0 (children i (mo_children m)))"
  using children_fold [of 0 i os "children i (mo_children m)" "merge ps"] assms by (simp add: Let_def)

section \<open>All columns\<close>

definition merges :: "field_step list list \<Rightarrow> message_object \<Rightarrow> message_object list \<Rightarrow> message_object list" where
  "merges L m os = fold (\<lambda>ps. merge ps m) L os"

abbreviation starts :: "u32 \<Rightarrow> field_step list \<Rightarrow> bool" where
  "starts i ps \<equiv> fst (hd ps) = i"

lemma merges_simps [simp]: "merges [] m os = os" "merges (ps # L) m os = merges L m (merge ps m os)"
  by (simp_all add: merges_def)

lemma pick_map2:
  "length fss = length ms \<Longrightarrow> map (\<lambda>(k, c). F c (pick (map2 (\<lambda>c fs. MObject i fs) ms fss) k)) (enumerate 0 ms) =
     map2 (\<lambda>c fs. F c fs) ms fss"
  by (rule nth_equalityI) (simp_all add: pick_def nth_enumerate_eq)

lemma merges_leaf:
  "\<forall>ps \<in> set L. ps \<noteq> [] \<and> (starts i ps \<longrightarrow> tl ps = []) \<Longrightarrow>
     children i (merges L m os) = children i os @ concat (map (\<lambda>_. children i (mo_children m)) (filter (starts i) L))"
proof (induction L arbitrary: os)
  case (Cons ps L)
  obtain j x qs where ps: "ps = (j, x) # qs" using Cons.prems by (cases ps) auto
  show ?case
  proof (cases "j = i")
    case True
    then have "qs = []" using Cons.prems by (simp add: ps)
    then show ?thesis using Cons True by (simp add: ps Let_def)
  next
    case False
    then show ?thesis using Cons children_merge_other [of j i x qs m os] by (simp add: ps)
  qed
qed simp

lemma merges_object:
  assumes "ms = children i (mo_children m)"
  shows "\<forall>ps \<in> set L. ps \<noteq> [] \<and> (starts i ps \<longrightarrow> tl ps \<noteq> []) \<Longrightarrow> length fss = length ms \<Longrightarrow>
     children i os = map2 (\<lambda>c fs. MObject i fs) ms fss \<Longrightarrow>
     children i (merges L m os) = map2 (\<lambda>c fs. MObject i (merges (map tl (filter (starts i) L)) c fs)) ms fss"
proof (induction L arbitrary: os fss)
  case (Cons ps L)
  obtain j x qs where ps: "ps = (j, x) # qs" using Cons.prems by (cases ps) auto
  show ?case
  proof (cases "j = i")
    case True
    then have qs: "qs \<noteq> []" using Cons.prems by (simp add: ps)
    let ?fss = "map2 (\<lambda>c fs. merge qs c fs) ms fss"
    have "children i (merge ps m os) = map (\<lambda>(k, c). MObject i (merge qs c (pick (children i os) k))) (enumerate 0 ms)"
      using children_merge [OF qs, of i os m x] Cons.prems(2,3) by (simp add: ps True assms)
    also have "\<dots> = map2 (\<lambda>c fs. MObject i (merge qs c fs)) ms fss"
      unfolding Cons.prems(3) by (rule pick_map2 [OF Cons.prems(2)])
    also have "\<dots> = map2 (\<lambda>c fs. MObject i fs) ms ?fss"
      using Cons.prems(2) by (intro nth_equalityI) simp_all
    finally have "children i (merges L m (merge ps m os)) = map2 (\<lambda>c fs. MObject i (merges (map tl (filter (starts i) L)) c fs)) ms ?fss"
      using Cons by simp
    also have "\<dots> = map2 (\<lambda>c fs. MObject i (merges (map tl (filter (starts i) (ps # L))) c fs)) ms fss"
      using Cons.prems(2) by (intro nth_equalityI) (simp_all add: ps True)
    finally show ?thesis by simp
  next
    case False
    then show ?thesis using Cons children_merge_other [of j i x qs m os] by (simp add: ps)
  qed
qed simp

lemma merges_objects:
  "\<forall>ps \<in> set L. ps \<noteq> [] \<and> (starts i ps \<longrightarrow> tl ps \<noteq> []) \<Longrightarrow> children i os = [] \<Longrightarrow> filter (starts i) L \<noteq> [] \<Longrightarrow>
     children i (merges L m os) =
       map (\<lambda>c. MObject i (merges (map tl (filter (starts i) L)) c [])) (children i (mo_children m))"
proof (induction L arbitrary: os)
  case (Cons ps L)
  obtain j x qs where ps: "ps = (j, x) # qs" using Cons.prems by (cases ps) auto
  let ?ms = "children i (mo_children m)"
  show ?case
  proof (cases "j = i")
    case True
    then have qs: "qs \<noteq> []" using Cons.prems by (simp add: ps)
    let ?fss = "map (\<lambda>c. merge qs c []) ?ms"
    have "children i (merge ps m os) = map (\<lambda>(k, c). MObject i (merge qs c (pick [] k))) (enumerate 0 ?ms)"
      using children_merge [OF qs, of i os m x] Cons.prems(2) by (simp add: ps True)
    also have "\<dots> = map2 (\<lambda>c fs. MObject i fs) ?ms ?fss"
      by (rule nth_equalityI) (simp_all add: pick_def nth_enumerate_eq)
    finally have "children i (merges L m (merge ps m os)) = map2 (\<lambda>c fs. MObject i (merges (map tl (filter (starts i) L)) c fs)) ?ms ?fss"
      using Cons.prems(1) by (intro merges_object [OF refl]) simp_all
    also have "\<dots> = map (\<lambda>c. MObject i (merges (map tl (filter (starts i) (ps # L))) c [])) ?ms"
      by (intro nth_equalityI) (simp_all add: ps True)
    finally show ?thesis by simp
  next
    case False
    then show ?thesis using Cons children_merge_other [of j i x qs m os] by (simp add: ps)
  qed
qed simp

section \<open>The same message\<close>

text \<open>
  Two messages are the same when they agree up to the order of children with different ids: for
  every id, the children with it agree in their order.
\<close>

lemma children_size: "c \<in> set (children i os) \<Longrightarrow> size c < Suc (size_list size os)"
  by (induction os) (auto split: if_splits)

function (sequential) same :: "message_object \<Rightarrow> message_object \<Rightarrow> bool" where
  "same (MObject i os) (MObject j os') \<longleftrightarrow>
     i = j \<and> (\<forall>k \<in> mo_id ` set (os @ os'). list_all2 same (children k os) (children k os'))"
| "same m m' \<longleftrightarrow> m = m'"
  by pat_completeness auto
termination by (relation "measure (\<lambda>(m, m'). size m)") (auto dest: children_size)

declare same.simps [simp del]

lemma same_object:
  "same (MObject i os) (MObject j os') \<longleftrightarrow> i = j \<and> (\<forall>k. list_all2 same (children k os) (children k os'))"
proof -
  have "children k os = [] \<and> children k os' = []" if "k \<notin> mo_id ` set (os @ os')" for k
    using that by (auto simp: children_def filter_empty_conv)
  then show ?thesis unfolding same.simps by (metis list_all2_Nil)
qed

lemma same_leaf: "mo_type m \<noteq> F_OBJECT \<Longrightarrow> same m m' \<longleftrightarrow> m = m'"
  by (cases m) (simp_all add: same.simps)

lemma message_paths_nonempty:
  shows "schema_wf S \<Longrightarrow> message_paths S \<noteq> []" and "field_wf f \<Longrightarrow> field_paths f \<noteq> []"
proof (induction S and f)
  case (Schema nm fs ids types names)
  have "ms_fields (Schema nm fs ids types names) = fs" by simp
  from schema_eqD [OF Schema.prems, unfolded this] have "fs \<noteq> []" "\<forall>f \<in> set fs. field_wf f" by auto
  with Schema.IH show ?case by (cases fs) auto
next
  case (MessageSchemaField i name type n rep opt enc sub)
  then show ?case by (cases sub) auto
qed

lemma field_paths_starts: "(ps, t) \<in> set (field_paths f) \<Longrightarrow> ps \<noteq> [] \<and> fst (hd ps) = sf_id f"
  by (cases f) (auto split: if_splits option.splits)

lemma filter_starts:
  assumes "distinct (map sf_id fs)" and "f \<in> set fs"
  shows "filter (starts (sf_id f)) (map fst (concat (map field_paths fs))) = map fst (field_paths f)"
proof -
  have own: "filter (starts (sf_id g)) (map fst (field_paths g)) = map fst (field_paths g)" for g
    by (rule filter_True) (use field_paths_starts in force)
  have other: "filter (starts i) (map fst (field_paths g)) = []" if "sf_id g \<noteq> i" for i g
    by (rule filter_False) (use field_paths_starts that in force)
  have rest: "filter (starts i) (map fst (concat (map field_paths gs))) = []" if "i \<notin> sf_id ` set gs" for i gs
    using that other by (induction gs) auto
  show ?thesis using assms
  proof (induction fs)
    case (Cons g fs)
    show ?case
    proof (cases "g = f")
      case True
      then have "sf_id f \<notin> sf_id ` set fs" using Cons.prems by auto
      then show ?thesis using True own rest by simp
    next
      case False
      then have "f \<in> set fs" "sf_id g \<noteq> sf_id f" using Cons.prems by auto
      then show ?thesis using Cons other by simp
    qed
  qed simp
qed

lemma row_children:
  assumes S: "schema_wf S" and row: "row_ok S os" and c: "c \<in> set os"
  shows "\<exists>f \<in> set (ms_fields S). sf_id f = mo_id c \<and> mo_type c = sf_type f \<and>
    (sf_type f = F_OBJECT \<longrightarrow> (\<exists>s. sf_schema f = Some s \<and> row_ok s (mo_children c) \<and> schema_wf s))"
proof -
  have ok: "value_ok S c" using row c by (simp add: row_ok_def list_all_iff)
  then obtain f where f: "first_field (mo_id c) (ms_fields S) = Some f" by (cases c) (auto split: option.splits)
  have first: "f \<in> set fs \<and> sf_id f = i" if "first_field i fs = Some f" for i fs
    using that by (induction fs) (auto split: if_splits)
  have mem: "f \<in> set (ms_fields S)" "sf_id f = mo_id c" using first [OF f] by auto
  have "field_wf f" using schema_eqD [OF S] mem(1) by blast
  then have "schema_wf s" if "sf_schema f = Some s" for s using that by (cases f) simp
  with mem value_okD [OF ok f] show ?thesis by blast
qed

text \<open>Taking over every column of a row into an empty message gives the row.\<close>

lemma rebuild_row:
  "schema_wf S \<Longrightarrow> row_ok S (mo_children m) \<Longrightarrow> mset L = mset (map fst (message_paths S)) \<Longrightarrow>
     list_all2 same (children k (merges L m [])) (children k (mo_children m))"
proof (induction "size m" arbitrary: S m L k rule: less_induct)
  case less
  note S = schema_eqD [OF less.prems(1)] and row = less.prems(2)
  let ?ms = "children k (mo_children m)"
  have L: "set L = fst ` set (message_paths S)" using mset_eq_setD [OF less.prems(3)] by simp
  have path: "\<exists>f t. f \<in> set (ms_fields S) \<and> (ps, t) \<in> set (field_paths f)" if "ps \<in> set L" for ps
    using that L unfolding message_paths_fields by auto blast
  have ne: "ps \<noteq> []" if "ps \<in> set L" for ps using path [OF that] field_paths_starts by blast
  show ?case
  proof (cases "k \<in> sf_id ` set (ms_fields S)")
    case False
    have "filter (starts k) L = []" using path field_paths_starts False by (fastforce simp: filter_empty_conv)
    then have "children k (merges L m []) = []" using merges_leaf [of L k m "[]"] ne by (fastforce simp: filter_empty_conv)
    moreover have "mo_id c \<noteq> k" if "c \<in> set (mo_children m)" for c
      using row_children [OF less.prems(1) row that] False by (metis imageI)
    then have "?ms = []" by (auto simp: children_def filter_empty_conv)
    ultimately show ?thesis by simp
  next
    case True
    then obtain f where f: "f \<in> set (ms_fields S)" "sf_id f = k" by auto
    obtain name type n rep opt enc sub where fe: "f = MessageSchemaField k name type n rep opt enc sub" using f(2) by (cases f) auto
    have own: "g = f" if "g \<in> set (ms_fields S)" "sf_id g = k" for g
      using that f S by (auto dest: inj_onD simp: distinct_map)
    have dist: "distinct (map sf_id (ms_fields S))" using S by blast
    have "filter (starts k) (map fst (message_paths S)) = map fst (field_paths f)"
      using filter_starts [OF dist f(1)] f(2) by (simp add: message_paths_fields)
    moreover have "mset (filter (starts k) L) = mset (filter (starts k) (map fst (message_paths S)))"
      using less.prems(3) by (simp only: mset_filter)
    ultimately have fil: "mset (filter (starts k) L) = mset (map fst (field_paths f))" by simp
    have ms: "mo_id c = k \<and> mo_type c = type \<and> (type = F_OBJECT \<longrightarrow> (\<exists>s. sub = Some s \<and> row_ok s (mo_children c) \<and> schema_wf s)) \<and> c \<in> set (mo_children m)"
      if "c \<in> set ?ms" for c
    proof -
      from that have c: "c \<in> set (mo_children m)" "mo_id c = k" by (auto simp: children_def)
      from row_children [OF less.prems(1) row c(1)] obtain g where g: "g \<in> set (ms_fields S)" "sf_id g = mo_id c" "mo_type c = sf_type g"
        "sf_type g = F_OBJECT \<longrightarrow> (\<exists>s. sf_schema g = Some s \<and> row_ok s (mo_children c) \<and> schema_wf s)" by blast
      have "g = f" by (rule own) (use g(1,2) c(2) in simp_all)
      with g(3,4) have "mo_type c = type \<and>
          (type = F_OBJECT \<longrightarrow> (\<exists>s. sub = Some s \<and> row_ok s (mo_children c) \<and> schema_wf s))" by (simp add: fe)
      with c show ?thesis by blast
    qed
    show ?thesis
    proof (cases "type = F_OBJECT")
      case False
      then have "mset (filter (starts k) L) = {#[(k, name, rep, opt)]#}" unfolding fil by (simp add: fe)
      then have "filter (starts k) L = [[(k, name, rep, opt)]]" by (simp only: mset_single_iff)
      moreover have "\<forall>ps \<in> set L. ps \<noteq> [] \<and> (starts k ps \<longrightarrow> tl ps = [])"
      proof (intro ballI conjI impI)
        fix ps assume ps: "ps \<in> set L"
        show "ps \<noteq> []" by (rule ne [OF ps])
        assume "starts k ps"
        with ps have "ps \<in> set (filter (starts k) L)" by simp
        with calculation show "tl ps = []" by simp
      qed
      ultimately have "children k (merges L m []) = ?ms" using merges_leaf [of L k m "[]"] by simp
      moreover have "same c c" if "c \<in> set ?ms" for c using ms [OF that] False by (simp add: same_leaf)
      ultimately show ?thesis by (simp add: list_all2_same)
    next
      case True
      have "field_wf f" using S f(1) by blast
      then obtain s where s: "sub = Some s" "schema_wf s" using True by (auto simp: fe split: option.splits)
      let ?L = "map tl (filter (starts k) L)"
      have fp: "map fst (field_paths f) = map ((#) (k, name, rep, opt)) (map fst (message_paths s))"
        using True s(1) by (simp add: fe split_def)
      have sub: "mset ?L = mset (map fst (message_paths s))"
        using arg_cong [OF fil, where f = "image_mset tl"] by (simp only: fp mset_map [symmetric] map_map o_def list.sel)
      have "\<forall>ps \<in> set L. ps \<noteq> [] \<and> (starts k ps \<longrightarrow> tl ps \<noteq> [])"
      proof (intro ballI conjI impI)
        fix ps assume ps: "ps \<in> set L"
        show "ps \<noteq> []" by (rule ne [OF ps])
        assume "starts k ps"
        with ps have "tl ps \<in> set ?L" by force
        then have "tl ps \<in> fst ` set (message_paths s)" using mset_eq_setD [OF sub] by simp
        then show "tl ps \<noteq> []" using field_paths_nonempty by (fastforce simp: message_paths_fields)
      qed
      moreover have "filter (starts k) L \<noteq> []"
      proof
        assume "filter (starts k) L = []"
        then have "mset (map fst (field_paths f)) = {#}" using fil by simp
        then have "message_paths s = []" by (simp only: fp) simp
        then show False using message_paths_nonempty(1) [OF s(2)] by blast
      qed
      ultimately have "children k (merges L m []) = map (\<lambda>c. MObject k (merges ?L c [])) ?ms"
        by (intro merges_objects) simp_all
      moreover have "same (MObject k (merges ?L c [])) c" if c: "c \<in> set ?ms" for c
      proof -
        from ms [OF c] True s(1) have c': "mo_id c = k" "mo_type c = F_OBJECT" "row_ok s (mo_children c)" "c \<in> set (mo_children m)"
          by auto
        then have "c = MObject k (mo_children c)" by (cases c) auto
        moreover have "size c < size m" using c'(4) by (cases m) (auto simp: children_size [of _ 0] less_Suc_eq_le size_list_estimation')
        then have "list_all2 same (children j (merges ?L c [])) (children j (mo_children c))" for j
          by (rule less.hyps [OF _ s(2) c'(3) sub])
        ultimately show ?thesis by (metis same_object)
      qed
      ultimately show ?thesis by (simp add: list_all2_conv_all_nth)
    qed
  qed
qed

end
