(* ===== verification/CS_Materializer.thy ===== *)
theory CS_Materializer
  imports CS_TableReader CS_Message
begin

text \<open>
  \<open>RecordMaterializer\<close> (\<open>cstable/RecordMaterializer.cc\<close>): rebuilds messages from the columns of a
  table. Every column of the schema keeps its reader and the cell it has fetched; a record takes
  the cells up to the next repetition level 0 and inserts each at the place its levels and the
  indexes counted from them give.
\<close>

section \<open>Readers behind a pointer\<close>

text \<open>
  A column reader belongs to the table reader and is shared through its pointer: \<open>i\<close> is the index
  \<open>getColumnReader\<close> returns. \<open>stod\<close> is the conversion of the standard library, a parameter.
\<close>

fun cr_type :: "column_reader \<Rightarrow> ColumnType" where
  "cr_type (BooleanCR _) = BOOLEAN"
| "cr_type (BitPackedIntCR _) = UNSIGNED_INT"
| "cr_type (UInt32CR _) = UNSIGNED_INT"
| "cr_type (UInt64CR _) = UNSIGNED_INT"
| "cr_type (LEB128CR _) = UNSIGNED_INT"
| "cr_type (DoubleCR _) = FLOAT"
| "cr_type (StringCR _) = STRING"

definition StringColumnReader_readFloat ::
  "(bytes \<Rightarrow> double res) \<Rightarrow> string_reader \<Rightarrow> (double cell_read \<times> string_reader) res" where
  "StringColumnReader_readFloat stod = v1_convert StringColumnReader_readString stod (Double 0)"

definition tr_read ::
  "(column_reader \<Rightarrow> ('v cell_read \<times> column_reader) res) \<Rightarrow> (v2_reader \<Rightarrow> 'v cell_read) \<Rightarrow> nat \<Rightarrow> table_reader
     \<Rightarrow> ('v cell_read \<times> table_reader) res" where
  "tr_read f1 f2 i tr =
     (case tr_version tr of
        V0_1_0 \<Rightarrow> res_bind (f1 (tr_v1_readers tr ! i)) (\<lambda>(c, cr). Inr (c, tr\<lparr>tr_v1_readers := (tr_v1_readers tr)[i := cr]\<rparr>))
      | V0_2_0 \<Rightarrow> Inr (f2 (tr_v2_readers tr ! i), tr))"

definition tr_readUnsignedInt :: "nat \<Rightarrow> table_reader \<Rightarrow> (u64 cell_read \<times> table_reader) res" where
  "tr_readUnsignedInt = tr_read cr_readUnsignedInt UnsignedIntColumnReader_readUnsignedInt"

definition tr_readSignedInt :: "nat \<Rightarrow> table_reader \<Rightarrow> (u64 cell_read \<times> table_reader) res" where
  "tr_readSignedInt = tr_read cr_readSignedInt UnsignedIntColumnReader_readSignedInt"

definition tr_readString :: "nat \<Rightarrow> table_reader \<Rightarrow> (bytes cell_read \<times> table_reader) res" where
  "tr_readString = tr_read cr_readString UnsignedIntColumnReader_readString"

definition tr_readFloat :: "(bytes \<Rightarrow> double res) \<Rightarrow> nat \<Rightarrow> table_reader \<Rightarrow> (double cell_read \<times> table_reader) res" where
  "tr_readFloat stod = tr_read (cr_readFloat (StringColumnReader_readFloat stod)) UnsignedIntColumnReader_readFloat"

definition tr_eofReached :: "nat \<Rightarrow> table_reader \<Rightarrow> bool" where
  "tr_eofReached i tr = (case tr_version tr of V0_1_0 \<Rightarrow> cr_eofReached (tr_v1_readers tr ! i) | V0_2_0 \<Rightarrow> False)"

definition tr_maxRepetitionLevel :: "nat \<Rightarrow> table_reader \<Rightarrow> u64" where
  "tr_maxRepetitionLevel i tr =
     (case tr_version tr of
        V0_1_0 \<Rightarrow> cr_maxRepetitionLevel (tr_v1_readers tr ! i)
      | V0_2_0 \<Rightarrow> cc_rlevel_max (vr_config (tr_v2_readers tr ! i)))"

definition tr_type :: "nat \<Rightarrow> table_reader \<Rightarrow> ColumnType" where
  "tr_type i tr = (case tr_version tr of V0_1_0 \<Rightarrow> cr_type (tr_v1_readers tr ! i) | V0_2_0 \<Rightarrow> UNSIGNED_INT)"

section \<open>ColumnState\<close>

text \<open>
  A parent is the id of a field, whether it is repeated, and the definition level at which it is
  there. The constructor leaves the values and the members \<open>createColumns\<close> sets indeterminate:
  \<open>junk\<close>.
\<close>

type_synonym parent = "u64 \<times> bool \<times> u32"

record column_state =
  cs_reader :: nat
  cs_r :: u64
  cs_d :: u64
  cs_pending :: bool
  cs_defined :: bool
  cs_parents :: "parent list"
  cs_field_id :: u32
  cs_field_type :: FieldType
  cs_col_type :: ColumnType
  cs_val_str :: bytes
  cs_val_uint :: u64
  cs_val_sint :: u64
  cs_val_float :: double

definition ColumnState :: "column_state \<Rightarrow> nat \<Rightarrow> column_state" where
  "ColumnState junk reader =
     junk\<lparr>cs_reader := reader, cs_r := 0, cs_d := 0, cs_pending := False, cs_defined := False, cs_parents := [],
       cs_val_str := []\<rparr>"

definition ColumnState_fetch ::
  "(nat \<Rightarrow> table_reader \<Rightarrow> ('v cell_read \<times> table_reader) res) \<Rightarrow> ('v \<Rightarrow> column_state \<Rightarrow> column_state) \<Rightarrow> column_state
     \<Rightarrow> table_reader \<Rightarrow> (column_state \<times> table_reader) res" where
  "ColumnState_fetch read set_val cs tr =
     res_bind (read (cs_reader cs) tr) (\<lambda>((defined, r, d, v), tr).
       Inr ((set_val v cs)\<lparr>cs_r := r, cs_d := d, cs_defined := defined, cs_pending := True\<rparr>, tr))"

definition ColumnState_fetchIfNotPending ::
  "(bytes \<Rightarrow> double res) \<Rightarrow> column_state \<Rightarrow> table_reader \<Rightarrow> (column_state \<times> table_reader) res" where
  "ColumnState_fetchIfNotPending stod cs tr =
     (if cs_pending cs then Inr (cs, tr)
      else case cs_col_type cs of
        SUBRECORD \<Rightarrow> Inl IllegalStateError
      | BOOLEAN \<Rightarrow> ColumnState_fetch tr_readUnsignedInt (\<lambda>v cs. cs\<lparr>cs_val_uint := v\<rparr>) cs tr
      | UNSIGNED_INT \<Rightarrow> ColumnState_fetch tr_readUnsignedInt (\<lambda>v cs. cs\<lparr>cs_val_uint := v\<rparr>) cs tr
      | SIGNED_INT \<Rightarrow> ColumnState_fetch tr_readSignedInt (\<lambda>v cs. cs\<lparr>cs_val_sint := v\<rparr>) cs tr
      | STRING \<Rightarrow> ColumnState_fetch tr_readString (\<lambda>v cs. cs\<lparr>cs_val_str := v\<rparr>) cs tr
      | FLOAT \<Rightarrow> ColumnState_fetch (tr_readFloat stod) (\<lambda>v cs. cs\<lparr>cs_val_float := v\<rparr>) cs tr
      | DATETIME \<Rightarrow> ColumnState_fetch tr_readUnsignedInt (\<lambda>v cs. cs\<lparr>cs_val_uint := v\<rparr>) cs tr
      | OtherType _ \<Rightarrow> Inr (cs\<lparr>cs_pending := True\<rparr>, tr))"

definition ColumnState_consume :: "column_state \<Rightarrow> column_state" where
  "ColumnState_consume cs = cs\<lparr>cs_pending := False\<rparr>"

text \<open>
  The getters convert the value that was fetched. A column type outside the enumeration runs off
  the end of the function. \<open>getSignedInteger\<close> is not called.
\<close>

definition i64_to_double :: "u64 \<Rightarrow> double" where
  "i64_to_double v =
     (if sint v < 0 then Double (double_bits (u64_to_double (- v)) OR push_bit 63 1) else u64_to_double v)"

definition toString_i64 :: "u64 \<Rightarrow> bytes" where
  "toString_i64 v = (if sint v < 0 then 45 # toString_u64 (- v) else toString_u64 v)"

definition ColumnState_getUnsignedInteger :: "column_state \<Rightarrow> u64 res" where
  "ColumnState_getUnsignedInteger cs =
     (case cs_col_type cs of
        SUBRECORD \<Rightarrow> Inl IllegalStateError
      | BOOLEAN \<Rightarrow> Inr (cs_val_uint cs) | UNSIGNED_INT \<Rightarrow> Inr (cs_val_uint cs) | DATETIME \<Rightarrow> Inr (cs_val_uint cs)
      | SIGNED_INT \<Rightarrow> Inr (cs_val_sint cs)
      | STRING \<Rightarrow> stoull (cs_val_str cs)
      | FLOAT \<Rightarrow> double_to_u64 (cs_val_float cs)
      | OtherType _ \<Rightarrow> Inl Undefined)"

definition ColumnState_getSignedInteger :: "column_state \<Rightarrow> u64 res" where
  "ColumnState_getSignedInteger cs =
     (case cs_col_type cs of
        SUBRECORD \<Rightarrow> Inl IllegalStateError
      | BOOLEAN \<Rightarrow> Inr (cs_val_uint cs) | UNSIGNED_INT \<Rightarrow> Inr (cs_val_uint cs) | DATETIME \<Rightarrow> Inr (cs_val_uint cs)
      | SIGNED_INT \<Rightarrow> Inr (cs_val_sint cs)
      | STRING \<Rightarrow> stoll (cs_val_str cs)
      | FLOAT \<Rightarrow> double_to_i64 (cs_val_float cs)
      | OtherType _ \<Rightarrow> Inl Undefined)"

definition ColumnState_getString :: "column_state \<Rightarrow> bytes res" where
  "ColumnState_getString cs =
     (case cs_col_type cs of
        SUBRECORD \<Rightarrow> Inl IllegalStateError
      | BOOLEAN \<Rightarrow> Inr (toString_u64 (cs_val_uint cs)) | UNSIGNED_INT \<Rightarrow> Inr (toString_u64 (cs_val_uint cs))
      | DATETIME \<Rightarrow> Inr (toString_u64 (cs_val_uint cs))
      | SIGNED_INT \<Rightarrow> Inr (toString_i64 (cs_val_sint cs))
      | STRING \<Rightarrow> Inr (cs_val_str cs)
      | FLOAT \<Rightarrow> toString_double (cs_val_float cs)
      | OtherType _ \<Rightarrow> Inl Undefined)"

definition ColumnState_getFloat :: "(bytes \<Rightarrow> double res) \<Rightarrow> column_state \<Rightarrow> double res" where
  "ColumnState_getFloat stod cs =
     (case cs_col_type cs of
        SUBRECORD \<Rightarrow> Inl IllegalStateError
      | BOOLEAN \<Rightarrow> Inr (u64_to_double (cs_val_uint cs)) | UNSIGNED_INT \<Rightarrow> Inr (u64_to_double (cs_val_uint cs))
      | DATETIME \<Rightarrow> Inr (u64_to_double (cs_val_uint cs))
      | SIGNED_INT \<Rightarrow> Inr (i64_to_double (cs_val_sint cs))
      | STRING \<Rightarrow> stod (cs_val_str cs)
      | FLOAT \<Rightarrow> Inr (cs_val_float cs)
      | OtherType _ \<Rightarrow> Inl Undefined)"

section \<open>Inserting a cell\<close>

text \<open>
  \<open>update_nth i k f\<close>: \<open>f\<close> on the child number \<open>k\<close> among those with the id; where there are fewer,
  empty objects are appended. A child that is not repeated is number 0.
\<close>

fun update_nth ::
  "u64 \<Rightarrow> nat \<Rightarrow> (message_object \<Rightarrow> message_object res) \<Rightarrow> message_object list \<Rightarrow> message_object list res" where
  "update_nth i k f [] =
     res_bind (f (MObject (ucast i) [])) (\<lambda>c. Inr (replicate k (MObject (ucast i) []) @ [c]))"
| "update_nth i k f (c # cs) =
     (if ucast (mo_id c) = i \<and> k = 0 then res_bind (f c) (\<lambda>c. Inr (c # cs))
      else res_bind (update_nth i (if ucast (mo_id c) = i then k - 1 else k) f cs) (\<lambda>cs. Inr (c # cs)))"

definition update_child ::
  "u64 \<Rightarrow> nat \<Rightarrow> (message_object \<Rightarrow> message_object res) \<Rightarrow> message_object \<Rightarrow> message_object res" where
  "update_child i k f msg =
     res_bind (asObject msg) (\<lambda>os. res_bind (update_nth i k f os) (\<lambda>os. Inr (MObject (mo_id msg) os)))"

definition insert_leaf :: "(bytes \<Rightarrow> double res) \<Rightarrow> column_state \<Rightarrow> message_object \<Rightarrow> message_object res" where
  "insert_leaf stod cs msg =
     (let i = cs_field_id cs
      in case cs_field_type cs of
           F_OBJECT \<Rightarrow> Inr msg
         | F_UINT32 \<Rightarrow> res_bind (ColumnState_getUnsignedInteger cs) (\<lambda>v. addChild (MUInt32 i (ucast v)) msg)
         | F_UINT64 \<Rightarrow> res_bind (ColumnState_getUnsignedInteger cs) (\<lambda>v. addChild (MUInt64 i v) msg)
         | F_DATETIME \<Rightarrow> res_bind (ColumnState_getUnsignedInteger cs) (\<lambda>v. addChild (MDateTime i v) msg)
         | F_STRING \<Rightarrow> res_bind (ColumnState_getString cs) (\<lambda>s. addChild (MString i s) msg)
         | F_BOOLEAN \<Rightarrow> res_bind (ColumnState_getUnsignedInteger cs) (\<lambda>v. addChild (MBoolean i (v = 1)) msg)
         | F_DOUBLE \<Rightarrow> res_bind (ColumnState_getFloat stod cs) (\<lambda>v. addChild (MDouble i v) msg)
         | F_Other _ \<Rightarrow> Inr msg)"

text \<open>\<open>indexes[0]\<close> of an empty vector is undefined.\<close>

fun insertValue ::
  "(bytes \<Rightarrow> double res) \<Rightarrow> column_state \<Rightarrow> parent list \<Rightarrow> nat list \<Rightarrow> message_object \<Rightarrow> message_object res" where
  "insertValue stod cs [] indexes msg = insert_leaf stod cs msg"
| "insertValue stod cs ((i, repeated, _) # parents) indexes msg =
     (if repeated
      then (case indexes of
              [] \<Rightarrow> Inl Undefined
            | k # indexes \<Rightarrow> update_child i k (insertValue stod cs parents indexes) msg)
      else update_child i 0 (insertValue stod cs parents indexes) msg)"

fun insertNull :: "column_state \<Rightarrow> parent list \<Rightarrow> nat list \<Rightarrow> message_object \<Rightarrow> message_object res" where
  "insertNull cs [] indexes msg = Inr msg"
| "insertNull cs ((i, repeated, d) # parents) indexes msg =
     (if ucast d > cs_d cs then Inr msg
      else if repeated
      then (case indexes of
              [] \<Rightarrow> Inl Undefined
            | k # indexes \<Rightarrow> update_child i k (insertNull cs parents indexes) msg)
      else update_child i 0 (insertNull cs parents indexes) msg)"

section \<open>Records\<close>

text \<open>
  \<open>bump_indexes r\<close>: \<open>++indexes[r - 1]\<close> and the deeper indexes reset. The loop of \<open>loadColumn\<close> ends
  at the end of the column or at the first cell of the next record, which stays pending; a value
  \<open>None\<close> would mean that it does not end.
\<close>

definition bump_indexes :: "nat \<Rightarrow> nat list \<Rightarrow> nat list res" where
  "bump_indexes r indexes =
     (if r = 0 then Inr indexes
      else if r > length indexes then Inl Undefined
      else Inr (take (r - 1) indexes @ [Suc (indexes ! (r - 1))] @ replicate (length indexes - r) 0))"

partial_function (option) loadColumn_loop ::
  "(bytes \<Rightarrow> double res) \<Rightarrow> nat list \<Rightarrow> column_state \<Rightarrow> table_reader \<Rightarrow> message_object
     \<Rightarrow> (column_state \<times> table_reader \<times> message_object) res option" where
  "loadColumn_loop stod indexes cs tr msg =
     (case ColumnState_fetchIfNotPending stod cs tr of
        Inl e \<Rightarrow> Some (Inl e)
      | Inr (cs, tr) \<Rightarrow>
     (case bump_indexes (unat (cs_r cs)) indexes of
        Inl e \<Rightarrow> Some (Inl e)
      | Inr indexes \<Rightarrow>
     (case (if cs_defined cs then insertValue stod cs (cs_parents cs) indexes msg
            else insertNull cs (cs_parents cs) indexes msg) of
        Inl e \<Rightarrow> Some (Inl e)
      | Inr msg \<Rightarrow>
     (if tr_eofReached (cs_reader cs) tr then Some (Inr (ColumnState_consume cs, tr, msg))
      else case ColumnState_fetchIfNotPending stod (ColumnState_consume cs) tr of
             Inl e \<Rightarrow> Some (Inl e)
           | Inr (cs, tr) \<Rightarrow>
               if cs_r cs = 0 then Some (Inr (cs, tr, msg)) else loadColumn_loop stod indexes cs tr msg))))"

definition loadColumn ::
  "(bytes \<Rightarrow> double res) \<Rightarrow> column_state \<Rightarrow> table_reader \<Rightarrow> message_object
     \<Rightarrow> (column_state \<times> table_reader \<times> message_object) res option" where
  "loadColumn stod cs tr msg =
     loadColumn_loop stod (replicate (unat (tr_maxRepetitionLevel (cs_reader cs) tr)) 0) cs tr msg"

text \<open>A materializer is its columns, in the order the hash map iterates over them.\<close>

type_synonym materializer = "(bytes \<times> column_state) list"

fun nextRecord ::
  "(bytes \<Rightarrow> double res) \<Rightarrow> materializer \<Rightarrow> table_reader \<Rightarrow> message_object
     \<Rightarrow> (materializer \<times> table_reader \<times> message_object) res option" where
  "nextRecord stod [] tr msg = Some (Inr ([], tr, msg))"
| "nextRecord stod ((name, cs) # cols) tr msg =
     (case loadColumn stod cs tr msg of
        None \<Rightarrow> None
      | Some (Inl e) \<Rightarrow> Some (Inl e)
      | Some (Inr (cs, tr, msg)) \<Rightarrow>
     (case nextRecord stod cols tr msg of
        None \<Rightarrow> None
      | Some (Inl e) \<Rightarrow> Some (Inl e)
      | Some (Inr (cols, tr, msg)) \<Rightarrow> Some (Inr ((name, cs) # cols, tr, msg))))"

partial_function (option) skipColumn ::
  "(bytes \<Rightarrow> double res) \<Rightarrow> column_state \<Rightarrow> table_reader \<Rightarrow> (column_state \<times> table_reader) res option" where
  "skipColumn stod cs tr =
     (case ColumnState_fetchIfNotPending stod cs tr of
        Inl e \<Rightarrow> Some (Inl e)
      | Inr (cs, tr) \<Rightarrow>
     (if tr_eofReached (cs_reader cs) tr then Some (Inr (ColumnState_consume cs, tr))
      else case ColumnState_fetchIfNotPending stod (ColumnState_consume cs) tr of
             Inl e \<Rightarrow> Some (Inl e)
           | Inr (cs, tr) \<Rightarrow> if cs_r cs = 0 then Some (Inr (cs, tr)) else skipColumn stod cs tr))"

fun skipRecord ::
  "(bytes \<Rightarrow> double res) \<Rightarrow> materializer \<Rightarrow> table_reader \<Rightarrow> (materializer \<times> table_reader) res option" where
  "skipRecord stod [] tr = Some (Inr ([], tr))"
| "skipRecord stod ((name, cs) # cols) tr =
     (case skipColumn stod cs tr of
        None \<Rightarrow> None
      | Some (Inl e) \<Rightarrow> Some (Inl e)
      | Some (Inr (cs, tr)) \<Rightarrow>
     (case skipRecord stod cols tr of
        None \<Rightarrow> None
      | Some (Inl e) \<Rightarrow> Some (Inl e)
      | Some (Inr (cols, tr)) \<Rightarrow> Some (Inr ((name, cs) # cols, tr))))"

section \<open>The columns of a materializer\<close>

text \<open>\<open>emplace\<close> keeps the column that is there. An empty set of columns selects all.\<close>

fun createColumns ::
    "column_state \<Rightarrow> table_reader \<Rightarrow> bytes set \<Rightarrow> bytes \<Rightarrow> u32 \<Rightarrow> parent list \<Rightarrow> schema_field \<Rightarrow> materializer \<Rightarrow> materializer res"
  and createColumns_all ::
    "column_state \<Rightarrow> table_reader \<Rightarrow> bytes set \<Rightarrow> bytes \<Rightarrow> u32 \<Rightarrow> parent list \<Rightarrow> message_schema \<Rightarrow> materializer \<Rightarrow> materializer res" where
  "createColumns junk tr columns prefix dmax parents (MessageSchemaField i name type n rep opt enc schema) cols =
     (let colname = prefix @ name;
          dmax = (if rep \<or> opt then dmax + 1 else dmax)
      in case type of
           F_OBJECT \<Rightarrow> follow (\<lambda>s.
             createColumns_all junk tr columns (colname @ [46]) dmax (parents @ [(ucast i, rep, dmax)]) s cols) schema
         | _ \<Rightarrow>
             if CSTableReader_hasColumn tr colname \<and> (columns = {} \<or> colname \<in> columns)
             then res_bind (CSTableReader_getColumnReader tr colname) (\<lambda>reader.
                    if colname \<in> fst ` set cols then Inr cols
                    else Inr (cols @ [(colname, (ColumnState junk reader)\<lparr>cs_parents := parents, cs_field_id := i,
                      cs_field_type := type, cs_col_type := tr_type reader tr\<rparr>)]))
             else Inr cols)"
| "createColumns_all junk tr columns prefix dmax parents (Schema _ fs _ _ _) cols =
     res_fold (createColumns junk tr columns prefix dmax parents) fs cols"

text \<open>\<open>order\<close> is the order in which the hash map iterates.\<close>

definition RecordMaterializer ::
  "(materializer \<Rightarrow> materializer) \<Rightarrow> column_state \<Rightarrow> message_schema \<Rightarrow> table_reader \<Rightarrow> bytes set \<Rightarrow> materializer res" where
  "RecordMaterializer order junk schema tr columns =
     res_bind (createColumns_all junk tr columns [] 0 [] schema []) (\<lambda>cols. Inr (order cols))"

end
