(* ===== verification/CS_LoadColumn.thy ===== *)
theory CS_LoadColumn
  imports CS_Rebuild CS_Materializer
begin

text \<open>
  \<open>loadColumn\<close> and \<open>nextRecord\<close> against their specification: on columns that deliver the stripes
  of a row, they end, take over the row and leave each column at the start of the next record.
\<close>

section \<open>Inserting into typed messages\<close>

text \<open>
  \<open>typed S m\<close>: the message \<open>m\<close> is a field of \<open>S\<close>, and an object exactly when the field has a
  subschema, recursively. It need not be complete.
\<close>

fun typed :: "message_schema \<Rightarrow> message_object \<Rightarrow> bool" where
  "typed S (MObject i os) \<longleftrightarrow>
     (case first_field i (ms_fields S) of None \<Rightarrow> False
      | Some f \<Rightarrow> (case sf_schema f of None \<Rightarrow> False | Some s \<Rightarrow> list_all (typed s) os))"
| "typed S m \<longleftrightarrow>
     (case first_field (mo_id m) (ms_fields S) of None \<Rightarrow> False | Some f \<Rightarrow> sf_schema f = None)"

text \<open>The parents of a column below definition level \<open>d\<close>.\<close>

fun parents_of :: "nat \<Rightarrow> field_step list \<Rightarrow> parent list" where
  "parents_of d [] = []"
| "parents_of d ((i, name, rep, opt) # ps) =
     (let d' = (if rep \<or> opt then d + 1 else d) in (ucast i, rep, word_of_nat d') # parents_of d' ps)"

lemma path_step:
  assumes S: "schema_wf S" and ps: "((i, name, rep, opt) # qs, t) \<in> set (message_paths S)"
  shows "\<exists>f. first_field i (ms_fields S) = Some f \<and>
    (if qs = [] then sf_schema f = None
     else \<exists>s. sf_schema f = Some s \<and> schema_wf s \<and> (qs, t) \<in> set (message_paths s))"
proof -
  from ps obtain f where f: "f \<in> set (ms_fields S)" "((i, name, rep, opt) # qs, t) \<in> set (field_paths f)"
    by (auto simp: message_paths_fields)
  obtain j nm type n rp op enc sub where fe: "f = MessageSchemaField j nm type n rp op enc sub" by (cases f)
  have "sf_id f = i" using field_paths_starts [OF f(2)] by simp
  then have first: "first_field i (ms_fields S) = Some f"
    using first_field_distinct [of "ms_fields S" f] schema_eqD [OF S] f(1) by simp
  have wf: "field_wf f" using schema_eqD [OF S] f(1) by blast
  show ?thesis
  proof (cases "type = F_OBJECT")
    case False
    then have "qs = []" "sub = None" using f(2) wf by (auto simp: fe split: option.splits)
    then show ?thesis using first by (simp add: fe)
  next
    case True
    then obtain s where s: "sub = Some s" "schema_wf s" using wf by (auto simp: fe split: option.splits)
    then have "(qs, t) \<in> set (message_paths s)" using f(2) True by (auto simp: fe)
    moreover from this have "qs \<noteq> []" using field_paths_nonempty by (fastforce simp: message_paths_fields)
    ultimately show ?thesis using first s by (simp add: fe)
  qed
qed

lemma path_object:
  assumes "schema_wf S" and "((p # P) @ [q], t) \<in> set (message_paths S)"
  shows "\<exists>f i name rep opt s. first_field i (ms_fields S) = Some f \<and> p = (i, name, rep, opt) \<and> sf_schema f = Some s \<and>
    schema_wf s \<and> (P @ [q], t) \<in> set (message_paths s)"
proof -
  obtain i name rep opt where p: "p = (i, name, rep, opt)" by (cases p) auto
  from path_step [OF assms(1), of i name rep opt "P @ [q]" t] assms(2) p show ?thesis by auto
qed

lemma path_leaf:
  assumes "schema_wf S" and "([(l, name, rep, opt)], t) \<in> set (message_paths S)"
  shows "\<exists>f. first_field l (ms_fields S) = Some f \<and> sf_schema f = None"
  using path_step [OF assms] by simp

lemma update_nth_upd:
  assumes "\<And>c. c \<in> set os \<Longrightarrow> mo_id c = i \<Longrightarrow> \<exists>fs. c = MObject i fs \<and> P fs" and "P []"
    and "\<And>fs. P fs \<Longrightarrow> f (MObject i fs) = Inr (MObject i (g fs))"
  shows "update_nth (ucast i) k f os = Inr (upd_child i k g os)"
  using assms(1)
proof (induction os arbitrary: k)
  case Nil
  then show ?case using assms(2,3) by simp
next
  case (Cons c os)
  have eq: "(ucast (mo_id c) :: u64) = ucast i \<longleftrightarrow> mo_id c = i" by (metis ucast_u32_u64)
  show ?case
  proof (cases "mo_id c = i \<and> k = 0")
    case True
    with Cons.prems obtain fs where "c = MObject i fs" "P fs" by auto
    with True assms(3) show ?thesis by simp
  next
    case False
    then show ?thesis using Cons by (auto simp: eq)
  qed
qed

lemma typed_children:
  assumes "first_field i (ms_fields S) = Some f" and "sf_schema f = Some s" and "typed S c" and "mo_id c = i"
  shows "\<exists>fs. c = MObject i fs \<and> list_all (typed s) fs"
  using assms by (cases c) auto

lemma insertValue_ins:
  assumes leaf: "\<And>j fs. insert_leaf stod cs (MObject j fs) = Inr (MObject j (fs @ [x]))"
  shows "schema_wf S \<Longrightarrow> (P @ [(l, name, rep, opt)], t) \<in> set (message_paths S) \<Longrightarrow> list_all (typed S) os \<Longrightarrow>
     rlevel P \<le> length idx \<Longrightarrow> d0 + dlevel P \<le> d \<Longrightarrow>
     insertValue stod cs (parents_of d0 P) idx (MObject j os) = Inr (MObject j (ins d0 P idx d (Some x) os))"
proof (induction P arbitrary: S os idx d0 j)
  case Nil
  then show ?case by (simp add: leaf)
next
  case (Cons p P)
  from path_object [OF Cons.prems(1,2)] obtain f i name' rep' opt' s where f: "first_field i (ms_fields S) = Some f"
    "p = (i, name', rep', opt')" "sf_schema f = Some s" "schema_wf s" "(P @ [(l, name, rep, opt)], t) \<in> set (message_paths s)" by blast
  let ?d = "if rep' \<or> opt' then d0 + 1 else d0"
  have upd: "update_nth (ucast i) k (insertValue stod cs (parents_of ?d P) idx') os = Inr (upd_child i k (ins ?d P idx' d (Some x)) os)"
    if "rlevel P \<le> length idx'" for k idx'
  proof (rule update_nth_upd [where P = "\<lambda>fs. list_all (typed s) fs"])
    fix c assume "c \<in> set os" "mo_id c = i"
    then show "\<exists>fs. c = MObject i fs \<and> list_all (typed s) fs" using Cons.prems(3) typed_children [OF f(1,3)] by (simp add: list_all_iff)
  next
    fix fs assume "list_all (typed s) fs"
    then show "insertValue stod cs (parents_of ?d P) idx' (MObject i fs) = Inr (MObject i (ins ?d P idx' d (Some x) fs))"
      using Cons.IH [OF f(4,5)] that Cons.prems(5) f(2) by (auto split: if_splits)
  qed simp
  have d: "\<not> d < ?d" using Cons.prems(5) f(2) by (auto split: if_splits)
  show ?case
  proof (cases rep')
    case False
    then show ?thesis using upd [of idx 0] Cons.prems(4) d f(2) by (simp add: Let_def update_child_def)
  next
    case True
    then obtain k idx' where idx: "idx = k # idx'" "rlevel P \<le> length idx'" using Cons.prems(4) f(2) by (cases idx) auto
    then show ?thesis using upd [of idx' k] True d f(2) by (simp add: Let_def update_child_def)
  qed
qed

lemma insertNull_ins:
  assumes "cs_d cs = level d" and "d < 2 ^ 32"
  shows "schema_wf S \<Longrightarrow> (P @ [(l, name, rep, opt)], t) \<in> set (message_paths S) \<Longrightarrow> list_all (typed S) os \<Longrightarrow>
     rlevel P \<le> length idx \<Longrightarrow> d0 + dlevel P < 2 ^ 32 \<Longrightarrow>
     insertNull cs (parents_of d0 P) idx (MObject j os) = Inr (MObject j (ins d0 P idx d None os))"
proof (induction P arbitrary: S os idx d0 j)
  case Nil
  then show ?case by simp
next
  case (Cons p P)
  from path_object [OF Cons.prems(1,2)] obtain f i name' rep' opt' s where f: "first_field i (ms_fields S) = Some f"
    "p = (i, name', rep', opt')" "sf_schema f = Some s" "schema_wf s" "(P @ [(l, name, rep, opt)], t) \<in> set (message_paths s)" by blast
  let ?d = "if rep' \<or> opt' then d0 + 1 else d0"
  have upd: "update_nth (ucast i) k (insertNull cs (parents_of ?d P) idx') os = Inr (upd_child i k (ins ?d P idx' d None) os)"
    if "rlevel P \<le> length idx'" for k idx'
  proof (rule update_nth_upd [where P = "\<lambda>fs. list_all (typed s) fs"])
    fix c assume "c \<in> set os" "mo_id c = i"
    then show "\<exists>fs. c = MObject i fs \<and> list_all (typed s) fs" using Cons.prems(3) typed_children [OF f(1,3)] by (simp add: list_all_iff)
  next
    fix fs assume "list_all (typed s) fs"
    then show "insertNull cs (parents_of ?d P) idx' (MObject i fs) = Inr (MObject i (ins ?d P idx' d None fs))"
      using Cons.IH [OF f(4,5)] that Cons.prems(5) f(2) by (auto split: if_splits)
  qed simp
  have "?d < 2 ^ 32" using Cons.prems(5) f(2) by (auto split: if_splits)
  then have d: "(ucast (word_of_nat ?d :: u32) :: u64) > cs_d cs \<longleftrightarrow> d < ?d"
    using unat_level [of ?d] unat_level [OF assms(2)] by (simp only: assms(1) word_less_nat_alt level_def [symmetric])
  show ?case
  proof (cases rep')
    case False
    then show ?thesis using upd [of idx 0] Cons.prems(4) d f(2) by (cases opt') (simp_all add: Let_def update_child_def)
  next
    case True
    then obtain k idx' where idx: "idx = k # idx'" "rlevel P \<le> length idx'" using Cons.prems(4) f(2) by (cases idx) auto
    then show ?thesis using upd [of idx' k] True d f(2) by (simp add: Let_def update_child_def)
  qed
qed

lemma typed_upd:
  assumes "first_field i (ms_fields S) = Some f" and "sf_schema f = Some s"
    and g: "\<And>fs. list_all (typed s) fs \<Longrightarrow> list_all (typed s) (g fs)"
  shows "list_all (typed S) os \<Longrightarrow> list_all (typed S) (upd_child i k g os)"
proof (induction os arbitrary: k)
  case Nil
  have "typed S (MObject i (g []))" "typed S (MObject i [])" using assms(1,2) g [of "[]"] by simp_all
  then show ?case by (simp add: list_all_iff)
next
  case (Cons c os)
  show ?case
  proof (cases "mo_id c = i \<and> k = 0")
    case True
    with Cons.prems typed_children [OF assms(1,2), of c] obtain fs where "c = MObject i fs" "list_all (typed s) fs" by auto
    then show ?thesis using True Cons.prems g [of fs] assms(1,2) by simp
  next
    case False
    then show ?thesis using Cons by auto
  qed
qed

lemma typed_ins:
  assumes leaf: "\<forall>x. v = Some x \<longrightarrow> mo_id x = l \<and> mo_type x \<noteq> F_OBJECT"
  shows "schema_wf S \<Longrightarrow> (P @ [(l, name, rep, opt)], t) \<in> set (message_paths S) \<Longrightarrow> list_all (typed S) os \<Longrightarrow>
     list_all (typed S) (ins d0 P idx d v os)"
proof (induction P arbitrary: S os idx d0)
  case Nil
  from path_leaf [OF Nil.prems(1), of l name rep opt t] Nil.prems(2) obtain f where
    f: "first_field l (ms_fields S) = Some f" "sf_schema f = None" by auto
  have "typed S x" if "v = Some x" for x using leaf that f by (cases x) auto
  then show ?case using Nil.prems(3) by (auto split: option.splits)
next
  case (Cons p P)
  from path_object [OF Cons.prems(1,2)] obtain f i name' rep' opt' s where f: "first_field i (ms_fields S) = Some f"
    "p = (i, name', rep', opt')" "sf_schema f = Some s" "schema_wf s" "(P @ [(l, name, rep, opt)], t) \<in> set (message_paths s)" by blast
  show ?case using typed_upd [OF f(1,3) Cons.IH [OF f(4,5)] Cons.prems(3)] Cons.prems(3) by (simp add: f(2) Let_def)
qed

section \<open>Fetching\<close>

text \<open>\<open>holds_cell st c\<close>: the members of \<open>st\<close> are those of the cell.\<close>

fun enc_type :: "ColumnEncoding \<Rightarrow> ColumnType" where
  "enc_type BOOLEAN_BITPACKED = BOOLEAN"
| "enc_type FLOAT_IEEE754 = FLOAT"
| "enc_type STRING_PLAIN = STRING"
| "enc_type _ = UNSIGNED_INT"

lemma cr_type_encoding: "cr_type cr = enc_type (cr_encoding cr)"
  by (cases cr) simp_all

fun holds_datum :: "column_state \<Rightarrow> datum \<Rightarrow> bool" where
  "holds_datum st (DBool b) \<longleftrightarrow> cs_val_uint st = (if b then 1 else 0)"
| "holds_datum st (DUInt v) \<longleftrightarrow> cs_val_uint st = v"
| "holds_datum st (DFloat x) \<longleftrightarrow> cs_val_float st = x"
| "holds_datum st (DString s) \<longleftrightarrow> cs_val_str st = s"

definition holds_cell :: "column_state \<Rightarrow> datum cell \<Rightarrow> bool" where
  "holds_cell st c \<longleftrightarrow>
     (case c of (r, d, v) \<Rightarrow> cs_r st = r \<and> cs_d st = d \<and> (cs_defined st \<longleftrightarrow> v \<noteq> None) \<and> (\<forall>x. v = Some x \<longrightarrow> holds_datum st x))"

lemma v1_convertD:
  assumes "v1_convert rd (\<lambda>v. Inr (K v)) k cr = Inr ((present, r, d, x), q)"
  shows "\<exists>v. rd cr = Inr ((present, r, d, v), q) \<and> (present \<longrightarrow> x = K v)"
  using assms by (auto simp: v1_convert_def act_bind_def res_bind_def split: sum.splits prod.splits if_splits)

lemma lift_readerD: "lift_reader C m = Inr (v, t) \<Longrightarrow> \<exists>q. m = Inr (v, q) \<and> t = C q"
  by (cases m) (auto simp: lift_reader_def)

text \<open>A boolean column holds zeros and ones.\<close>

lemma boolean_delivers:
  assumes "boolean_datum.delivers r_max d_max cr cs"
  shows "boolean_column.delivers r_max d_max cr (map (\<lambda>(r, d, v). (r, d, map_option bool_code v)) cs)"
proof -
  define ys where "ys = map (\<lambda>(r, d, v). (r, d, map_option bool_code v)) cs"
  have "cell_values ys = map bool_code (cell_values cs)"
    unfolding ys_def
  proof (induction cs)
    case (Cons c cs)
    then show ?case by (cases c rule: prod_cases3) (rename_tac v, case_tac v, simp_all)
  qed simp
  moreover have "map (\<lambda>(r, d, v). ucast r) ys = map (\<lambda>(r, d, v). ucast r :: u32) cs"
    "map (\<lambda>(r, d, v). ucast d) ys = map (\<lambda>(r, d, v). ucast d :: u32) cs" "length ys = length cs"
    by (simp_all add: ys_def split_def)
  moreover have "(\<forall>c \<in> set ys. cell_ok r_max d_max c) \<longleftrightarrow> (\<forall>c \<in> set cs. cell_ok r_max d_max c)"
    by (auto simp: cell_ok_def ys_def)
  ultimately show ?thesis using assms
    unfolding ys_def [symmetric] boolean_datum.delivers_def boolean_column.delivers_def v1_cells_def by auto
qed

text \<open>The method for the type of the column returns the cell.\<close>

lemma reader_method:
  assumes d: "cr_delivers r_max d_max (C q) (c # cs)"
    and read: "cr_read_cell (C q) = lift_reader C (v1_convert rd (\<lambda>v. Inr (K v)) k q)"
  shows "\<exists>present r d v q'. rd q = Inr ((present, r, d, v), q') \<and> cr_delivers r_max d_max (C q') cs \<and>
    cr_encoding (C q') = cr_encoding (C q) \<and> c = (r, d, if present then Some (K v) else None)"
proof -
  obtain r d x where c: "c = (r, d, x)" by (cases c) auto
  from cr_read_cell_delivers [OF d] obtain cr' where cr': "cr_read_cell (C q) = Inr (cell_result (null_datum (cr_encoding (C q))) c, cr')"
    "cr_delivers r_max d_max cr' cs" "cr_encoding cr' = cr_encoding (C q)" by blast
  obtain present r' d' y where res: "cell_result (null_datum (cr_encoding (C q))) c = (present, r', d', y)"
    by (cases "cell_result (null_datum (cr_encoding (C q))) c") auto
  from cr'(1) read have "lift_reader C (v1_convert rd (\<lambda>v. Inr (K v)) k q) = Inr ((present, r', d', y), cr')" by (simp add: res)
  from lift_readerD [OF this] obtain q' where q': "v1_convert rd (\<lambda>v. Inr (K v)) k q = Inr ((present, r', d', y), q')" "cr' = C q'"
    by blast
  from v1_convertD [OF q'(1)] obtain v where "rd q = Inr ((present, r', d', v), q')" "present \<longrightarrow> y = K v" by blast
  moreover have "c = (r', d', if present then Some y else None)" using res by (auto simp: c cell_result_def split: option.splits)
  ultimately show ?thesis using cr'(2,3) q'(2) by auto
qed

lemma boolean_method:
  assumes d: "cr_delivers r_max d_max (BooleanCR q) (c # cs)"
  shows "\<exists>present r d v q'. BooleanColumnReader_readUnsignedInt q = Inr ((present, r, d, v), q') \<and>
    cr_delivers r_max d_max (BooleanCR q') cs \<and>
    (\<exists>b. c = (r, d, if present then Some (DBool b) else None) \<and> (present \<longrightarrow> v = (if b then 1 else 0)))"
proof -
  obtain r d x where c: "c = (r, d, x)" by (cases c) auto
  have "boolean_datum.delivers r_max d_max q (c # cs)" using d by simp
  from boolean_delivers [OF this] have "boolean_column.delivers r_max d_max q ((r, d, map_option bool_code x) # map (\<lambda>(r, d, v). (r, d, map_option bool_code v)) cs)"
    by (simp add: c)
  from boolean_column.delivers_read [OF this, of 0] obtain q1 where
    q1: "v1_read bd_next 0 q = Inr (cell_result 0 (r, d, map_option bool_code x), q1)" by blast
  from reader_method [where C = BooleanCR and rd = BooleanColumnReader_readBoolean and K = DBool and k = "DBool False", OF d] obtain present r' d' b q' where
    q': "BooleanColumnReader_readBoolean q = Inr ((present, r', d', b), q')" "cr_delivers r_max d_max (BooleanCR q') cs"
    "c = (r', d', if present then Some (DBool b) else None)" by auto
  let ?v = "if present then (if b then 1 else 0) else 0 :: u64"
  have "BooleanColumnReader_readUnsignedInt q = Inr ((present, r, d, ?v), q1)"
    using q1 q'(3) unfolding BooleanColumnReader_readUnsignedInt_def
    by (auto simp: v1_convert_def act_bind_def cell_result_def c bool_code_def split: if_splits)
  moreover from this have "q1 = q'" using q'(1)
    by (auto simp: BooleanColumnReader_readBoolean_def v1_convert_def act_bind_def split: if_splits)
  ultimately show ?thesis using q'(2,3) c by auto
qed

text \<open>What a fetch leaves alone.\<close>

definition same_column :: "column_state \<Rightarrow> column_state \<Rightarrow> bool" where
  "same_column st st' \<longleftrightarrow> cs_reader st' = cs_reader st \<and> cs_parents st' = cs_parents st \<and> cs_field_id st' = cs_field_id st \<and>
     cs_field_type st' = cs_field_type st \<and> cs_col_type st' = cs_col_type st"

definition only_reader :: "nat \<Rightarrow> table_reader \<Rightarrow> table_reader \<Rightarrow> bool" where
  "only_reader j tr tr' \<longleftrightarrow> tr_version tr' = tr_version tr \<and> length (tr_v1_readers tr') = length (tr_v1_readers tr) \<and>
     (\<forall>k. k \<noteq> j \<longrightarrow> tr_v1_readers tr' ! k = tr_v1_readers tr ! k)"

lemma same_column_refl [simp]: "same_column st st"
  by (simp add: same_column_def)

lemma same_column_trans: "same_column a b \<Longrightarrow> same_column b c \<Longrightarrow> same_column a c"
  by (simp add: same_column_def)

lemma only_reader_refl [simp]: "only_reader j tr tr"
  by (simp add: only_reader_def)

lemma only_reader_trans: "only_reader j a b \<Longrightarrow> only_reader j b c \<Longrightarrow> only_reader j a c"
  by (simp add: only_reader_def)

lemma tr_read_v1:
  assumes "tr_version tr = V0_1_0" and "f1 (tr_v1_readers tr ! j) = Inr (c, cr)"
  shows "tr_read f1 f2 j tr = Inr (c, tr\<lparr>tr_v1_readers := (tr_v1_readers tr)[j := cr]\<rparr>)"
  using assms by (simp add: tr_read_def)

lemma cr_readUnsignedInt_method:
  assumes "cr_delivers r_max d_max cr (c # cs)" and "enc_type (cr_encoding cr) = UNSIGNED_INT"
  shows "\<exists>present r d v cr'. cr_readUnsignedInt cr = Inr ((present, r, d, v), cr') \<and> cr_delivers r_max d_max cr' cs \<and>
    cr_encoding cr' = cr_encoding cr \<and> c = (r, d, if present then Some (DUInt v) else None)"
proof (cases cr)
  case (BitPackedIntCR q)
  from reader_method [where C = BitPackedIntCR and q = q and rd = BitPackedIntColumnReader_readUnsignedInt and K = DUInt and k = "DUInt 0",
      OF assms(1) [unfolded BitPackedIntCR]] show ?thesis unfolding BitPackedIntCR by (fastforce simp: lift_reader_def)
next
  case (UInt32CR q)
  from reader_method [where C = UInt32CR and q = q and rd = UInt32ColumnReader_readUnsignedInt and K = DUInt and k = "DUInt 0",
      OF assms(1) [unfolded UInt32CR]] show ?thesis unfolding UInt32CR by (fastforce simp: lift_reader_def)
next
  case (UInt64CR q)
  from reader_method [where C = UInt64CR and q = q and rd = UInt64ColumnReader_readUnsignedInt and K = DUInt and k = "DUInt 0",
      OF assms(1) [unfolded UInt64CR]] show ?thesis unfolding UInt64CR by (fastforce simp: lift_reader_def)
next
  case (LEB128CR q)
  from reader_method [where C = LEB128CR and q = q and rd = LEB128ColumnReader_readUnsignedInt and K = DUInt and k = "DUInt 0",
      OF assms(1) [unfolded LEB128CR]] show ?thesis unfolding LEB128CR by (fastforce simp: lift_reader_def)
qed (use assms(2) in simp_all)

lemma holds_datum_levels [simp]:
  "holds_datum (st\<lparr>cs_r := r\<rparr>) x = holds_datum st x" "holds_datum (st\<lparr>cs_d := d\<rparr>) x = holds_datum st x"
  "holds_datum (st\<lparr>cs_defined := b\<rparr>) x = holds_datum st x" "holds_datum (st\<lparr>cs_pending := b\<rparr>) x = holds_datum st x"
  by (cases x; simp)+

lemma fetch_step:
  assumes tr: "cs_reader st < length (tr_v1_readers tr)"
    and sel: "ColumnState_fetchIfNotPending stod st tr = ColumnState_fetch read set_val st tr"
    and read: "read (cs_reader st) tr = Inr ((present, r, d, v), tr\<lparr>tr_v1_readers := (tr_v1_readers tr)[cs_reader st := cr']\<rparr>)"
    and val: "same_column st (set_val v st)" "c = (r, d, if present then Some x else None)" "present \<Longrightarrow> holds_datum (set_val v st) x"
  shows "\<exists>st' tr'. ColumnState_fetchIfNotPending stod st tr = Inr (st', tr') \<and> only_reader (cs_reader st) tr tr' \<and>
    tr_v1_readers tr' ! cs_reader st = cr' \<and> same_column st st' \<and> holds_cell st' c \<and> cs_pending st'"
proof -
  let ?st = "(set_val v st)\<lparr>cs_r := r, cs_d := d, cs_defined := present, cs_pending := True\<rparr>"
    and ?tr = "tr\<lparr>tr_v1_readers := (tr_v1_readers tr)[cs_reader st := cr']\<rparr>"
  have "ColumnState_fetchIfNotPending stod st tr = Inr (?st, ?tr)" using sel read by (simp add: ColumnState_fetch_def)
  moreover have "only_reader (cs_reader st) tr ?tr" "tr_v1_readers ?tr ! cs_reader st = cr'" using tr by (simp_all add: only_reader_def)
  moreover have "same_column st ?st" using val(1) by (simp add: same_column_def)
  moreover have "holds_cell ?st c" using val(2,3) by (simp add: holds_cell_def)
  moreover have "cs_pending ?st" by simp
  ultimately show ?thesis by blast
qed

lemma fetch_cell:
  assumes tr: "tr_version tr = V0_1_0" "cs_reader st < length (tr_v1_readers tr)"
    and cr: "cr = tr_v1_readers tr ! cs_reader st" "cr_delivers r_max d_max cr (c # cs)"
    and st: "\<not> cs_pending st" "cs_col_type st = enc_type (cr_encoding cr)"
  shows "\<exists>st' tr'. ColumnState_fetchIfNotPending stod st tr = Inr (st', tr') \<and> only_reader (cs_reader st) tr tr' \<and>
    cr_delivers r_max d_max (tr_v1_readers tr' ! cs_reader st) cs \<and>
    cr_encoding (tr_v1_readers tr' ! cs_reader st) = cr_encoding cr \<and>
    same_column st st' \<and> holds_cell st' c \<and> cs_pending st'"
proof -
  let ?tr = "\<lambda>cr'. tr\<lparr>tr_v1_readers := (tr_v1_readers tr)[cs_reader st := cr']\<rparr>"
  consider "enc_type (cr_encoding cr) = UNSIGNED_INT" | q where "cr = BooleanCR q" | q where "cr = DoubleCR q" | q where "cr = StringCR q"
    by (cases cr) simp_all
  then show ?thesis
  proof cases
    case 1
    from cr_readUnsignedInt_method [OF cr(2) 1] obtain present r d v cr' where r: "cr_readUnsignedInt cr = Inr ((present, r, d, v), cr')"
      "cr_delivers r_max d_max cr' cs" "cr_encoding cr' = cr_encoding cr" "c = (r, d, if present then Some (DUInt v) else None)" by blast
    have "tr_readUnsignedInt (cs_reader st) tr = Inr ((present, r, d, v), ?tr cr')"
      unfolding tr_readUnsignedInt_def by (rule tr_read_v1) (use tr(1) r(1) cr(1) in simp_all)
    from fetch_step [where read = "tr_readUnsignedInt" and set_val = "\<lambda>v cs. cs\<lparr>cs_val_uint := v\<rparr>" and stod = stod and st = st and tr = tr,
        OF tr(2) _ this _ r(4)] st 1 r(2,3) show ?thesis
      by (fastforce simp: ColumnState_fetchIfNotPending_def same_column_def)
  next
    case 2
    from boolean_method [OF cr(2) [unfolded 2]] obtain present r d v q' b where r:
      "BooleanColumnReader_readUnsignedInt q = Inr ((present, r, d, v), q')" "cr_delivers r_max d_max (BooleanCR q') cs"
      "c = (r, d, if present then Some (DBool b) else None)" "present \<longrightarrow> v = (if b then 1 else 0)" by blast
    have "tr_readUnsignedInt (cs_reader st) tr = Inr ((present, r, d, v), ?tr (BooleanCR q'))"
      unfolding tr_readUnsignedInt_def by (rule tr_read_v1) (use tr(1) r(1) in \<open>simp_all add: cr(1) [symmetric] 2 lift_reader_def\<close>)
    from fetch_step [where read = "tr_readUnsignedInt" and set_val = "\<lambda>v cs. cs\<lparr>cs_val_uint := v\<rparr>" and stod = stod and st = st and tr = tr,
        OF tr(2) _ this _ r(3)] st 2 r(2,4) show ?thesis
      by (fastforce simp: ColumnState_fetchIfNotPending_def same_column_def)
  next
    case 3
    from reader_method [where C = DoubleCR and q = q and rd = DoubleColumnReader_readFloat and K = DFloat and k = "DFloat (Double 0)",
        OF cr(2) [unfolded 3]] obtain present r d v q' where r: "DoubleColumnReader_readFloat q = Inr ((present, r, d, v), q')"
      "cr_delivers r_max d_max (DoubleCR q') cs" "c = (r, d, if present then Some (DFloat v) else None)" by auto
    have "tr_readFloat stod (cs_reader st) tr = Inr ((present, r, d, v), ?tr (DoubleCR q'))"
      unfolding tr_readFloat_def by (rule tr_read_v1) (use tr(1) r(1) in \<open>simp_all add: cr(1) [symmetric] 3 lift_reader_def\<close>)
    from fetch_step [where read = "tr_readFloat stod" and set_val = "\<lambda>v cs. cs\<lparr>cs_val_float := v\<rparr>" and stod = stod and st = st and tr = tr,
        OF tr(2) _ this _ r(3)] st 3 r(2) show ?thesis
      by (fastforce simp: ColumnState_fetchIfNotPending_def same_column_def)
  next
    case 4
    from reader_method [where C = StringCR and q = q and rd = StringColumnReader_readString and K = DString and k = "DString []",
        OF cr(2) [unfolded 4]] obtain present r d v q' where r: "StringColumnReader_readString q = Inr ((present, r, d, v), q')"
      "cr_delivers r_max d_max (StringCR q') cs" "c = (r, d, if present then Some (DString v) else None)" by auto
    have "tr_readString (cs_reader st) tr = Inr ((present, r, d, v), ?tr (StringCR q'))"
      unfolding tr_readString_def by (rule tr_read_v1) (use tr(1) r(1) in \<open>simp_all add: cr(1) [symmetric] 4 lift_reader_def\<close>)
    from fetch_step [where read = "tr_readString" and set_val = "\<lambda>v cs. cs\<lparr>cs_val_str := v\<rparr>" and stod = stod and st = st and tr = tr,
        OF tr(2) _ this _ r(3)] st 4 r(2) show ?thesis
      by (fastforce simp: ColumnState_fetchIfNotPending_def same_column_def)
  qed
qed

section \<open>A column\<close>

lemma leaf_object_type:
  "storable (column_encoding t) x \<Longrightarrow> known_field_type t \<Longrightarrow> t \<noteq> F_OBJECT \<Longrightarrow>
     mo_id (leaf_object t l x) = l \<and> mo_type (leaf_object t l x) = t"
  by (cases t; cases x) auto

lemma insert_leaf_ok:
  assumes "storable (column_encoding t) x" and "known_field_type t" and "t \<noteq> F_OBJECT"
    and "cs_col_type st = enc_type (column_encoding t)" and "cs_field_type st = t" and "cs_field_id st = l" and "holds_datum st x"
  shows "insert_leaf stod st (MObject j fs) = Inr (MObject j (fs @ [leaf_object t l x]))"
  using assms
  by (cases t; cases x)
     (auto simp: insert_leaf_def Let_def ColumnState_getUnsignedInteger_def ColumnState_getString_def ColumnState_getFloat_def)

text \<open>
  \<open>feeds tr st t r_max d_max cs\<close>: the column state \<open>st\<close>, for a leaf of type \<open>t\<close>, still has the cells
  \<open>cs\<close>; the first is in the state itself when it is pending.
\<close>

definition feeds :: "table_reader \<Rightarrow> column_state \<Rightarrow> FieldType \<Rightarrow> u64 \<Rightarrow> u64 \<Rightarrow> datum cell list \<Rightarrow> bool" where
  "feeds tr st t r_max d_max cs \<longleftrightarrow>
     tr_version tr = V0_1_0 \<and> cs_reader st < length (tr_v1_readers tr) \<and>
     (let cr = tr_v1_readers tr ! cs_reader st
      in cr_encoding cr = column_encoding t \<and> cs_col_type st = enc_type (column_encoding t) \<and>
         (if cs_pending st then (\<exists>c rest. cs = c # rest \<and> holds_cell st c \<and> cr_delivers r_max d_max cr rest)
          else cr_delivers r_max d_max cr cs))"

lemma feeds_other:
  "feeds tr st t r d cs \<Longrightarrow> only_reader j tr tr' \<Longrightarrow> cs_reader st \<noteq> j \<Longrightarrow> feeds tr' st t r d cs"
  by (simp add: feeds_def only_reader_def)

lemma feeds_fetch:
  assumes "feeds tr st t r_max d_max (c # cs)"
  shows "\<exists>st' tr'. ColumnState_fetchIfNotPending stod st tr = Inr (st', tr') \<and> only_reader (cs_reader st) tr tr' \<and>
    same_column st st' \<and> holds_cell st' c \<and> cs_pending st' \<and> feeds tr' st' t r_max d_max (c # cs)"
proof (cases "cs_pending st")
  case True
  then have "ColumnState_fetchIfNotPending stod st tr = Inr (st, tr)" by (simp add: ColumnState_fetchIfNotPending_def)
  moreover have "holds_cell st c" using assms True by (auto simp: feeds_def Let_def)
  ultimately show ?thesis using assms True by auto
next
  case False
  have st: "tr_version tr = V0_1_0" "cs_reader st < length (tr_v1_readers tr)"
    "cr_delivers r_max d_max (tr_v1_readers tr ! cs_reader st) (c # cs)"
    "cs_col_type st = enc_type (cr_encoding (tr_v1_readers tr ! cs_reader st))"
    "cr_encoding (tr_v1_readers tr ! cs_reader st) = column_encoding t"
    using assms False by (simp_all add: feeds_def Let_def)
  from fetch_cell [OF st(1,2) refl st(3) False st(4)] obtain st' tr' where f:
    "ColumnState_fetchIfNotPending stod st tr = Inr (st', tr')" "only_reader (cs_reader st) tr tr'"
    "cr_delivers r_max d_max (tr_v1_readers tr' ! cs_reader st) cs"
    "cr_encoding (tr_v1_readers tr' ! cs_reader st) = cr_encoding (tr_v1_readers tr ! cs_reader st)"
    "same_column st st'" "holds_cell st' c" "cs_pending st'" by blast
  then have "feeds tr' st' t r_max d_max (c # cs)"
    using st by (auto simp: feeds_def Let_def only_reader_def same_column_def)
  with f show ?thesis by blast
qed

lemma feeds_consume:
  assumes "feeds tr st t r_max d_max (c # cs)" and "cs_pending st"
  shows "feeds tr (ColumnState_consume st) t r_max d_max cs" and "same_column st (ColumnState_consume st)"
    and "tr_eofReached (cs_reader st) tr \<longleftrightarrow> cs = []"
proof -
  from assms have d: "cr_delivers r_max d_max (tr_v1_readers tr ! cs_reader st) cs" "tr_version tr = V0_1_0"
    by (auto simp: feeds_def Let_def)
  then show "tr_eofReached (cs_reader st) tr \<longleftrightarrow> cs = []" using cr_eof [OF d(1)] by (simp add: tr_eofReached_def)
  show "feeds tr (ColumnState_consume st) t r_max d_max cs" using assms d by (auto simp: feeds_def Let_def ColumnState_consume_def)
  show "same_column st (ColumnState_consume st)" by (simp add: same_column_def ColumnState_consume_def)
qed

lemma bump_indexes_ok: "r \<le> length idx \<Longrightarrow> bump_indexes r idx = Inr (bump r idx)"
  by (cases r) (auto simp: bump_indexes_def)

definition cell_fits :: "FieldType \<Rightarrow> nat \<Rightarrow> nat \<Rightarrow> level_cell \<Rightarrow> bool" where
  "cell_fits t rm dm c \<longleftrightarrow>
     (case c of (r, d, v) \<Rightarrow> r \<le> rm \<and> d \<le> dm \<and> (v = None \<longleftrightarrow> d \<noteq> dm) \<and> (\<forall>x. v = Some x \<longrightarrow> storable (column_encoding t) x))"

text \<open>One turn of the loop, before it looks for the end.\<close>

lemma insert_cell:
  assumes S: "schema_wf S" and ps: "(P @ [(l, name, rep, opt)], t) \<in> set (message_paths S)"
    and dm: "dm = dlevel (P @ [(l, name, rep, opt)])" "dm < 2 ^ 32" and len: "rlevel P \<le> length idx"
    and fits: "cell_fits t rm dm (r, d, v)" and os: "list_all (typed S) os"
    and st: "holds_cell st (to_cell (r, d, v))" "cs_parents st = parents_of 0 P" "cs_field_id st = l" "cs_field_type st = t"
      "cs_col_type st = enc_type (column_encoding t)"
  shows "(if cs_defined st then insertValue stod st (cs_parents st) idx (MObject j os)
     else insertNull st (cs_parents st) idx (MObject j os)) = Inr (MObject j (ins 0 P idx d (map_option (leaf_object t l) v) os))"
    and "list_all (typed S) (ins 0 P idx d (map_option (leaf_object t l) v) os)"
proof -
  have t: "t \<noteq> F_OBJECT" "known_field_type t" using field_types_known(1) [OF S ps] by blast+
  have lv: "dlevel P \<le> dm" "d \<le> dm" using fits dm(1) by (auto simp: cell_fits_def path_dlevel_def)
  show "(if cs_defined st then insertValue stod st (cs_parents st) idx (MObject j os)
     else insertNull st (cs_parents st) idx (MObject j os)) = Inr (MObject j (ins 0 P idx d (map_option (leaf_object t l) v) os))"
  proof (cases v)
    case None
    then have "\<not> cs_defined st" "cs_d st = level d" using st(1) by (simp_all add: holds_cell_def)
    moreover have "0 + dlevel P < 2 ^ 32" "d < 2 ^ 32" using lv dm(2) by simp_all
    ultimately show ?thesis using insertNull_ins [OF _ _ S ps os len, of st d 0 j] None st(2) by simp
  next
    case (Some x)
    then have x: "cs_defined st" "holds_datum st x" "d = dm" "storable (column_encoding t) x"
      using st(1) fits by (auto simp: holds_cell_def cell_fits_def)
    have "insert_leaf stod st (MObject j fs) = Inr (MObject j (fs @ [leaf_object t l x]))" for j fs
      by (rule insert_leaf_ok) (use x t st in simp_all)
    from insertValue_ins [OF this S ps os len, of 0 d j] x lv st(2) Some show ?thesis by simp
  qed
  show "list_all (typed S) (ins 0 P idx d (map_option (leaf_object t l) v) os)"
  proof (rule typed_ins [OF _ S ps os])
    show "\<forall>x. map_option (leaf_object t l) v = Some x \<longrightarrow> mo_id x = l \<and> mo_type x \<noteq> F_OBJECT"
      using leaf_object_type [OF _ t(2,1), of _ l] fits t(1) by (auto simp: cell_fits_def)
  qed
qed

text \<open>
  A column state for the path \<open>P @ [(l, name, rep, opt)]\<close>; \<open>column_at\<close> is what the materializer
  keeps of it.
\<close>

definition column_at :: "column_state \<Rightarrow> field_step list \<Rightarrow> FieldType \<Rightarrow> bool" where
  "column_at st ps t \<longleftrightarrow> ps \<noteq> [] \<and> cs_parents st = parents_of 0 (butlast ps) \<and> cs_field_id st = fst (last ps) \<and>
     cs_field_type st = t \<and> cs_col_type st = enc_type (column_encoding t)"

lemma column_at_same: "column_at st ps t \<Longrightarrow> same_column st st' \<Longrightarrow> column_at st' ps t"
  by (simp add: column_at_def same_column_def)

lemma loop_turn:
  assumes S: "schema_wf S" and ps: "(P @ [(l, name, rep, opt)], t) \<in> set (message_paths S)"
    and dm: "dm = dlevel (P @ [(l, name, rep, opt)])" "dm < 2 ^ 32"
    and rm: "rm = rlevel (P @ [(l, name, rep, opt)])" "rm < 2 ^ 32"
    and fd: "feeds tr st t R D (to_cell (r, d, v) # cells)" and idx: "length idx = rm" and fits: "cell_fits t rm dm (r, d, v)"
    and os: "list_all (typed S) os" and at: "column_at st (P @ [(l, name, rep, opt)]) t"
    and os': "os' = ins 0 P (bump r idx) d (map_option (leaf_object t l) v) os"
  shows "\<exists>st' tr'. loadColumn_loop stod idx st tr (MObject j os) =
      (if cells = [] \<or> cs_r st' = 0 then Some (Inr (st', tr', MObject j os'))
       else loadColumn_loop stod (bump r idx) st' tr' (MObject j os')) \<and>
    feeds tr' st' t R D cells \<and> only_reader (cs_reader st) tr tr' \<and> same_column st st' \<and> list_all (typed S) os' \<and>
    (cells \<noteq> [] \<longrightarrow> holds_cell st' (hd cells))"
proof -
  have r: "r \<le> length idx" "r < 2 ^ 32" using fits idx rm(2) by (auto simp: cell_fits_def)
  from feeds_fetch [OF fd, of stod] obtain st1 tr1 where f:
    "ColumnState_fetchIfNotPending stod st tr = Inr (st1, tr1)" "only_reader (cs_reader st) tr tr1" "same_column st st1"
    "holds_cell st1 (to_cell (r, d, v))" "cs_pending st1" "feeds tr1 st1 t R D (to_cell (r, d, v) # cells)" by blast
  have r1: "unat (cs_r st1) = r" using f(4) unat_level [OF r(2)] by (simp add: holds_cell_def)
  have at1: "column_at st1 (P @ [(l, name, rep, opt)]) t" by (rule column_at_same [OF at f(3)])
  have len: "rlevel P \<le> length (bump r idx)" using idx r(1) rm(1) by (simp add: path_rlevel_def)
  note ins = insert_cell [OF S ps dm len fits os f(4)]
  have ins1: "(if cs_defined st1 then insertValue stod st1 (cs_parents st1) (bump r idx) (MObject j os)
     else insertNull st1 (cs_parents st1) (bump r idx) (MObject j os)) = Inr (MObject j os')"
    "list_all (typed S) os'" using ins(1) [of stod j] ins(2) at1 by (simp_all add: column_at_def os')
  note con = feeds_consume [OF f(6,5)] and rd = f(3) [unfolded same_column_def]
  show ?thesis
  proof (cases cells)
    case Nil
    then have "loadColumn_loop stod idx st tr (MObject j os) = Some (Inr (ColumnState_consume st1, tr1, MObject j os'))"
      using con(3) by (subst loadColumn_loop.simps) (simp add: f(1) r1 bump_indexes_ok [OF r(1)] ins1(1))
    then show ?thesis using Nil f(2,3) con(1,2) ins1(2) by (auto intro: same_column_trans)
  next
    case (Cons c cs)
    from feeds_fetch [of tr1 "ColumnState_consume st1" t R D c cs stod] con(1) Cons obtain st2 tr2 where g:
      "ColumnState_fetchIfNotPending stod (ColumnState_consume st1) tr1 = Inr (st2, tr2)"
      "only_reader (cs_reader (ColumnState_consume st1)) tr1 tr2" "same_column (ColumnState_consume st1) st2"
      "holds_cell st2 c" "feeds tr2 st2 t R D cells" by auto
    then have "loadColumn_loop stod idx st tr (MObject j os) = (if cells = [] \<or> cs_r st2 = 0 then Some (Inr (st2, tr2, MObject j os'))
       else loadColumn_loop stod (bump r idx) st2 tr2 (MObject j os'))"
      using con(3) Cons by (subst loadColumn_loop.simps) (simp add: f(1) r1 bump_indexes_ok [OF r(1)] ins1(1))
    moreover have "only_reader (cs_reader st) tr tr2" using f(2) g(2) rd con(2) by (auto intro: only_reader_trans simp: same_column_def)
    moreover have "same_column st st2" using f(3) con(2) g(3) same_column_trans by blast
    ultimately show ?thesis using g(4,5) ins1(2) Cons by auto
  qed
qed

lemma loop_ok:
  assumes S: "schema_wf S" and ps: "(P @ [(l, name, rep, opt)], t) \<in> set (message_paths S)"
    and dm: "dm = dlevel (P @ [(l, name, rep, opt)])" "dm < 2 ^ 32"
    and rm: "rm = rlevel (P @ [(l, name, rep, opt)])" "rm < 2 ^ 32" and rest: "rest = [] \<or> fst (hd rest) = 0"
  shows "feeds tr st t R D (map to_cell (c # ys) @ rest) \<Longrightarrow> length idx = rm \<Longrightarrow>
    (\<forall>c \<in> set (c # ys). cell_fits t rm dm c) \<Longrightarrow> (\<forall>(r, d, v) \<in> set ys. 0 < r) \<Longrightarrow> list_all (typed S) os \<Longrightarrow>
    column_at st (P @ [(l, name, rep, opt)]) t \<Longrightarrow>
    \<exists>st' tr'. loadColumn_loop stod idx st tr (MObject j os) = Some (Inr (st', tr', MObject j (play t l 0 0 P (c # ys) idx os))) \<and>
      feeds tr' st' t R D rest \<and> only_reader (cs_reader st) tr tr' \<and> same_column st st' \<and>
      list_all (typed S) (play t l 0 0 P (c # ys) idx os)"
proof (induction ys arbitrary: c idx st tr os)
  case (Nil c)
  obtain r d v where c: "c = (r, d, v)" by (cases c) auto
  have fd: "feeds tr st t R D (to_cell (r, d, v) # rest)" and fits: "cell_fits t rm dm (r, d, v)" using Nil.prems(1,3) by (simp_all add: c)
  let ?os = "ins 0 P (bump r idx) d (map_option (leaf_object t l) v) os"
  from loop_turn [OF S ps dm rm fd Nil.prems(2) fits Nil.prems(5,6) refl, of stod j] obtain st' tr' where
    h: "loadColumn_loop stod idx st tr (MObject j os) =
      (if rest = [] \<or> cs_r st' = 0 then Some (Inr (st', tr', MObject j ?os)) else loadColumn_loop stod (bump r idx) st' tr' (MObject j ?os))"
    "feeds tr' st' t R D rest" "only_reader (cs_reader st) tr tr'" "same_column st st'" "list_all (typed S) ?os"
    "rest \<noteq> [] \<longrightarrow> holds_cell st' (hd rest)" by blast
  have "rest = [] \<or> cs_r st' = 0" using rest h(6) by (cases rest) (auto simp: holds_cell_def)
  then show ?case using h by (auto simp: c)
next
  case (Cons c' ys c)
  obtain r d v where c: "c = (r, d, v)" by (cases c) auto
  obtain r' d' v' where c': "c' = (r', d', v')" by (cases c') auto
  have fd: "feeds tr st t R D (to_cell (r, d, v) # (map to_cell (c' # ys) @ rest))" and fits: "cell_fits t rm dm (r, d, v)"
    using Cons.prems(1,3) by (simp_all add: c)
  let ?os = "ins 0 P (bump r idx) d (map_option (leaf_object t l) v) os"
  from loop_turn [OF S ps dm rm fd Cons.prems(2) fits Cons.prems(5,6) refl, of stod j] obtain st' tr' where
    h: "loadColumn_loop stod idx st tr (MObject j os) =
      (if cs_r st' = 0 then Some (Inr (st', tr', MObject j ?os)) else loadColumn_loop stod (bump r idx) st' tr' (MObject j ?os))"
    "feeds tr' st' t R D (map to_cell (c' # ys) @ rest)" "only_reader (cs_reader st) tr tr'" "same_column st st'"
    "list_all (typed S) ?os" "holds_cell st' (to_cell c')" by auto
  have "0 < r'" "r' < 2 ^ 32" using Cons.prems(3,4) rm(2) by (simp_all add: c' cell_fits_def)
  then have step: "loadColumn_loop stod idx st tr (MObject j os) = loadColumn_loop stod (bump r idx) st' tr' (MObject j ?os)"
    using h(1,6) level_eq [of r' 0] by (auto simp: holds_cell_def c' level_def)
  have idx: "length (bump r idx) = rm" using Cons.prems(2) fits by (auto simp: cell_fits_def)
  from Cons.IH [OF h(2) idx _ _ h(5) column_at_same [OF Cons.prems(6) h(4)]] Cons.prems(3,4) obtain st3 tr3 where k:
    "loadColumn_loop stod (bump r idx) st' tr' (MObject j ?os) =
       Some (Inr (st3, tr3, MObject j (play t l 0 0 P (c' # ys) (bump r idx) ?os)))"
    "feeds tr3 st3 t R D rest" "only_reader (cs_reader st') tr' tr3" "same_column st' st3"
    "list_all (typed S) (play t l 0 0 P (c' # ys) (bump r idx) ?os)" by auto
  have "cs_reader st' = cs_reader st" using h(4) by (simp add: same_column_def)
  from only_reader_trans [OF h(3) k(3) [unfolded this]] have "only_reader (cs_reader st) tr tr3" .
  moreover have "same_column st st3" using h(4) k(4) by (rule same_column_trans)
  moreover have "play t l 0 0 P (c # c' # ys) idx os = play t l 0 0 P (c' # ys) (bump r idx) ?os" by (simp add: c)
  ultimately show ?case using step k(1,2,5) by (intro exI [of _ st3] exI [of _ tr3]) (simp only: simp_thms)
qed

text \<open>One column of one row.\<close>

lemma cr_maxRepetitionLevel_delivers: "cr_delivers r_max d_max cr cs \<Longrightarrow> cr_maxRepetitionLevel cr = r_max"
  by (cases cr) (simp_all add: boolean_datum.delivers_def bitpacked_datum.delivers_def uint32_datum.delivers_def
      uint64_datum.delivers_def leb128_datum.delivers_def double_datum.delivers_def string_datum.delivers_def)

definition stripe_of :: "field_step list \<Rightarrow> message_object list \<Rightarrow> datum cell list" where
  "stripe_of ps os = map to_cell (stripe 0 0 0 ps (MObject 0 os))"

lemma feeds_max:
  assumes "feeds tr st t r_max d_max cs"
  shows "tr_version tr = V0_1_0" "cr_maxRepetitionLevel (tr_v1_readers tr ! cs_reader st) = r_max"
proof -
  from assms obtain cs' where "cr_delivers r_max d_max (tr_v1_readers tr ! cs_reader st) cs'"
    by (cases "cs_pending st") (auto simp: feeds_def Let_def)
  then show "cr_maxRepetitionLevel (tr_v1_readers tr ! cs_reader st) = r_max" by (rule cr_maxRepetitionLevel_delivers)
  show "tr_version tr = V0_1_0" using assms by (simp add: feeds_def)
qed

lemma loadColumn_ok:
  assumes S: "schema_wf S" and depth: "depth_ok S" and ps: "(ps, t) \<in> set (message_paths S)" and row: "row_ok S row"
    and fd: "feeds tr st t (level (rlevel ps)) D (stripe_of ps row @ rest)" and rest: "rest = [] \<or> fst (hd rest) = 0"
    and os: "list_all (typed S) os" and at: "column_at st ps t"
  shows "\<exists>st' tr'. loadColumn stod st tr (MObject j os) = Some (Inr (st', tr', MObject j (merge ps (MObject 0 row) os))) \<and>
    feeds tr' st' t (level (rlevel ps)) D rest \<and> only_reader (cs_reader st) tr tr' \<and> same_column st st' \<and>
    list_all (typed S) (merge ps (MObject 0 row) os)"
proof -
  from at obtain P q where "ps = P @ [q]" by (metis column_at_def append_butlast_last_id)
  then obtain l name rep opt where psq: "ps = P @ [(l, name, rep, opt)]" by (cases q) auto
  have t: "t \<noteq> F_OBJECT" using field_types_known(1) [OF S ps] by blast
  have ok: "path_ok t ps (MObject 0 row)" by (rule row_path_ok [OF S row _ ps]) simp
  have "length ps < 2 ^ 32" using depth ps by (force simp: depth_ok_def)
  then have lv: "rlevel ps < 2 ^ 32" "dlevel ps < 2 ^ 32" using path_levels_le [of "map snd ps"] by simp_all
  have fits: "\<forall>c \<in> set (stripe 0 0 0 ps (MObject 0 row)). cell_fits t (rlevel ps) (dlevel ps) c"
    using stripe_levels [OF ok t] by (fastforce simp: cell_fits_def)
  from stripe_shape [OF ok, of 0 0 0] obtain d v ys where cells: "stripe 0 0 0 ps (MObject 0 row) = (0, d, v) # ys"
    "\<forall>(r', d', v') \<in> set ys. 0 < r' \<and> r' \<le> 0 + rlevel ps" by blast
  then have pos: "\<forall>(r, d, v) \<in> set ys. 0 < r" by auto
  let ?idx = "replicate (rlevel ps) 0 :: nat list"
  note feeds_max [OF fd]
  then have idx: "replicate (unat (tr_maxRepetitionLevel (cs_reader st) tr)) 0 = ?idx"
    using lv(1) by (simp add: tr_maxRepetitionLevel_def unat_level)
  have fd': "feeds tr st t (level (rlevel ps)) D (map to_cell ((0, d, v) # ys) @ rest)"
    using fd cells(1) by (simp only: stripe_of_def)
  have "play t l 0 0 P ((0, d, v) # ys) ?idx os = merge ps (MObject 0 row) os"
    using play_stripe [where r = 0 and rm = 0 and ?d0.0 = 0 and os = os, OF ok [unfolded psq] t le_refl] cells(1)
    by (simp only: psq)
  moreover have "\<forall>c \<in> set ((0, d, v) # ys). cell_fits t (rlevel ps) (dlevel ps) c" using fits by (simp only: cells(1))
  moreover have "length ?idx = rlevel ps" by simp
  ultimately show ?thesis
    using loop_ok [where idx = ?idx and stod = stod and j = j, OF S ps [unfolded psq] arg_cong [OF psq, of dlevel] lv(2)
      arg_cong [OF psq, of rlevel] lv(1) rest fd' _ _ pos os at [unfolded psq]]
    unfolding loadColumn_def idx by metis
qed

end
