(* ===== verification/CS_ReaderFacts.thy ===== *)
theory CS_ReaderFacts
  imports CS_LoadColumn CS_SessionV1
begin

text \<open>
  What a reader answers on inputs a table session does not produce: files that are not tables, and
  columns read through a method of another type.
\<close>

section \<open>Opening\<close>

lemma readHeader_not_table:
  assumes "6 \<le> length content" and "take 4 content \<noteq> kMagicBytes \<or> content ! 4 \<notin> {1, 2}"
  shows "readHeader col0 hdr (FileIS (FileInputStream_fromFileDescriptor content)) = Inl RuntimeError"
proof -
  obtain s' where "is_readNextBytes 6 (FileIS (FileInputStream_fromFileDescriptor content)) = (take 6 content, s')"
    using input.readn_take [OF v1_file_is_rest(1), of 6] v1_file_is_rest(2) by metis
  with assms show ?thesis by (auto simp: readHeader_def Let_def min_absorb2)
qed

lemma openFile_rejects:
  assumes "6 \<le> length content" and "take 4 content \<noteq> kMagicBytes \<or> content ! 4 \<notin> {1, 2}"
  shows "CSTableReader_openFile col0 n0 (Some content) = Inl RuntimeError \<and> CSTableReader_openFile col0 n0 None = Inl IOError"
  by (simp add: CSTableReader_openFile_def readHeader_not_table [OF assms])

lemma first_named_nth: "first_named name cols = Some j \<Longrightarrow> j < length cols \<and> cc_column_name (cols ! j) = name"
  by (induction cols arbitrary: j) (auto split: if_splits)

lemma getColumnReader_name:
  assumes "CSTableReader_getColumnReader tr n = Inr j"
  shows "cc_column_name (tr_columns tr ! j) = n" "j < length (tr_columns tr)"
  using assms by (auto simp: CSTableReader_getColumnReader_def dest: first_named_nth split: option.splits)

lemma res_map_Inr: "res_map f xs = Inr ys \<Longrightarrow> list_all2 (\<lambda>x y. f x = Inr y) xs ys"
  by (induction xs arbitrary: ys) (auto simp: res_bind_def split: sum.splits)

lemma openFile_v2_readers:
  assumes "CSTableReader_openFile col0 n0 (Some content) = Inr tr" and "tr_version tr = V0_2_0"
  shows "list_all2 (\<lambda>c vr. openColumnV2_reader c = Inr vr) (tr_columns tr) (tr_v2_readers tr)"
  using assms
  by (auto simp: CSTableReader_openFile_def res_bind_def dest: res_map_Inr
      split: sum.splits prod.splits BinaryFormatVersion.splits if_splits)

lemma openColumnV2_reader_config: "openColumnV2_reader c = Inr vr \<Longrightarrow> vr_config vr = c \<and> \<not> vr_has_dlevel_reader vr"
  by (auto simp: openColumnV2_reader_def UnsignedIntColumnReader_def Let_def split: ColumnType.splits if_splits)

lemma openFile_v2_zero:
  assumes "CSTableReader_openFile col0 n0 (Some content) = Inr tr" and "tr_version tr = V0_2_0"
    and "CSTableReader_getColumnReader tr name = Inr j"
  shows "tr_readUnsignedInt j tr = Inr ((cc_dlevel_max (tr_columns tr ! j) = 0, 0, 0, 0), tr) \<and> \<not> tr_eofReached j tr"
proof -
  have "j < length (tr_columns tr)" using getColumnReader_name [OF assms(3)] by simp
  from list_all2_nthD [OF openFile_v2_readers [OF assms(1,2)] this]
  have "vr_config (tr_v2_readers tr ! j) = tr_columns tr ! j" "\<not> vr_has_dlevel_reader (tr_v2_readers tr ! j)"
    by (simp_all add: openColumnV2_reader_config)
  then show ?thesis
    using assms(2) by (auto simp: tr_readUnsignedInt_def tr_read_def tr_eofReached_def Let_def
        UnsignedIntColumnReader_readUnsignedInt_def UInt64PageReader_readUnsignedInt_def)
qed

section \<open>An integer column read as booleans\<close>

lemma uint_to_bool_convert:
  "rd q = Inr ((True, r, d, v), q') \<Longrightarrow> v1_convert rd uint_to_bool False q = Inr ((True, r, d, v > 1), q')"
  by (simp add: v1_convert_def act_bind_def uint_to_bool_def)

lemma lift_reader_Inr: "m = Inr (v, q) \<Longrightarrow> lift_reader C m = Inr (v, C q)"
  by (simp add: lift_reader_def)

lemma cr_readBoolean_convert:
  "cr_readUnsignedInt cr = Inr ((True, r, d, v), cr') \<Longrightarrow> enc_type (cr_encoding cr) = UNSIGNED_INT \<Longrightarrow>
     cr_readBoolean cr = Inr ((True, r, d, v > 1), cr')"
  by (cases cr)
     (auto dest!: lift_readerD intro!: lift_reader_Inr uint_to_bool_convert simp: UInt32ColumnReader_readBoolean_def
        UInt64ColumnReader_readBoolean_def LEB128ColumnReader_readBoolean_def BitPackedIntColumnReader_readBoolean_def)

lemma cr_readBoolean_integer:
  assumes "cr_delivers r_max d_max cr ((r, d, Some (DUInt v)) # cs)" and "enc_type (cr_encoding cr) = UNSIGNED_INT"
  shows "\<exists>cr'. cr_readBoolean cr = Inr ((True, r, d, v > 1), cr') \<and> cr_delivers r_max d_max cr' cs"
proof -
  from cr_readUnsignedInt_method [OF assms] obtain present r' d' v' cr' where
    "cr_readUnsignedInt cr = Inr ((present, r', d', v'), cr')" "cr_delivers r_max d_max cr' cs"
    "(r, d, Some (DUInt v)) = (r', d', if present then Some (DUInt v') else None)" by blast
  then show ?thesis using cr_readBoolean_convert [OF _ assms(2), of r d v cr'] by (cases present) auto
qed

text \<open>Some reader delivers any cells its column can store.\<close>

lemma delivering_reader:
  assumes "known_encoding (cc_storage_type c)" and "level_max (cc_rlevel_max c)" and "level_max (cc_dlevel_max c)"
    and cs: "\<forall>cell \<in> set cs. cell_storable c cell" and size: "cells_bytes cs < 2 ^ 63"
  shows "\<exists>w w' cr. openColumnV1_writer c = Inr w \<and> res_fold cw_write_cell cs w = Inr w' \<and>
    cw_holds (cc_rlevel_max c) (cc_dlevel_max c) w' cs \<and>
    cr_delivers (cc_rlevel_max c) (cc_dlevel_max c) cr cs \<and> cr_encoding cr = cc_storage_type c"
proof -
  from cw_write_cells [OF assms(1-4)] obtain w w' where w: "openColumnV1_writer c = Inr w" "res_fold cw_write_cell cs w = Inr w'"
    "cw_encoding w' = cc_storage_type c" "cw_holds (cc_rlevel_max c) (cc_dlevel_max c) w' cs" by blast
  let ?n = "cw_bodySize (cw_commit w')"
  have m: "length (cw_image (cw_commit w')) \<le> ?n" using cw_write_image [OF w(4)] by blast
  let ?mem = "cw_image (cw_commit w') @ replicate (?n - length (cw_image (cw_commit w'))) 0"
  let ?c = "c\<lparr>cc_body_size := word_of_nat ?n\<rparr>"
  have n: "?n < 2 ^ 63" using cw_body_bound [OF w(4)] size by simp
  have len: "length ?mem = ?n" "unat (cc_body_size ?c) = ?n" using n m by (simp_all add: unat_small)
  have "\<exists>cr. openColumnV1_reader ?c ?mem = Inr cr \<and> cr_encoding cr = cc_storage_type ?c \<and>
      cr_delivers (cc_rlevel_max ?c) (cc_dlevel_max ?c) cr cs"
    by (rule cr_open [where w = w']) (use w n len cells_bytes_count [of cs] size in simp_all)
  then show ?thesis using w by auto
qed

end
