(* ===== verification/CS_RecordSession.thy ===== *)
theory CS_RecordSession
  imports CS_ReaderFacts
begin

text \<open>
  Whole records: \<open>nextRecord\<close> over all columns of a materializer, the columns the constructor
  makes from a schema, and a session that writes records through the shredder, commits the table,
  opens it and reads the records back.
\<close>

section \<open>One record\<close>

text \<open>
  \<open>column_has S tr rows cs l\<close>: the column state \<open>cs\<close> of the leaf \<open>l\<close> still has the stripes of
  \<open>rows\<close>.
\<close>

definition rows_stripe :: "field_step list \<Rightarrow> message_object list list \<Rightarrow> datum cell list" where
  "rows_stripe ps rows = concat (map (stripe_of ps) rows)"

definition column_has ::
  "message_schema \<Rightarrow> table_reader \<Rightarrow> message_object list list \<Rightarrow> bytes \<times> column_state \<Rightarrow> field_step list \<times> FieldType \<Rightarrow> bool" where
  "column_has S tr rows col l \<longleftrightarrow>
     l \<in> set (message_paths S) \<and> column_at (snd col) (fst l) (snd l) \<and>
     (\<exists>D. feeds tr (snd col) (snd l) (level (rlevel (fst l))) D (rows_stripe (fst l) rows))"

abbreviation col_reader :: "bytes \<times> column_state \<Rightarrow> nat" where
  "col_reader col \<equiv> cs_reader (snd col)"

lemma stripe_starts:
  assumes "schema_wf S" and "row_ok S row" and "(ps, t) \<in> set (message_paths S)"
  shows "stripe_of ps row \<noteq> [] \<and> fst (hd (stripe_of ps row)) = 0"
proof -
  have "path_ok t ps (MObject 0 row)" by (rule row_path_ok [OF assms(1,2) _ assms(3)]) simp
  from stripe_shape [OF this, of 0 0 0] obtain d v ys where "stripe 0 0 0 ps (MObject 0 row) = (0, d, v) # ys" by blast
  then show ?thesis by (simp add: stripe_of_def level_def)
qed

lemma rows_stripe_starts:
  assumes "schema_wf S" and "\<forall>row \<in> set rows. row_ok S row" and "(ps, t) \<in> set (message_paths S)"
  shows "rows_stripe ps rows = [] \<or> fst (hd (rows_stripe ps rows)) = 0"
proof (cases rows)
  case (Cons row rest)
  with assms(2) stripe_starts [OF assms(1) _ assms(3), of row] show ?thesis by (simp add: rows_stripe_def)
qed (simp add: rows_stripe_def)

definition other_readers :: "nat set \<Rightarrow> table_reader \<Rightarrow> table_reader \<Rightarrow> bool" where
  "other_readers J tr tr' \<longleftrightarrow> tr_version tr' = tr_version tr \<and> length (tr_v1_readers tr') = length (tr_v1_readers tr) \<and>
     (\<forall>k. k \<notin> J \<longrightarrow> tr_v1_readers tr' ! k = tr_v1_readers tr ! k)"

lemma other_readers_only: "only_reader j tr tr' \<longleftrightarrow> other_readers {j} tr tr'"
  by (simp add: only_reader_def other_readers_def)

lemma other_readers_trans: "other_readers J a b \<Longrightarrow> other_readers K b c \<Longrightarrow> other_readers (J \<union> K) a c"
  by (simp add: other_readers_def)

lemma column_has_other:
  assumes "column_has S tr rows col l" and "other_readers J tr tr'" and "col_reader col \<notin> J"
  shows "column_has S tr' rows col l"
  using assms by (auto simp: column_has_def other_readers_def feeds_def Let_def)

lemma loadColumn_row:
  assumes S: "schema_wf S" and depth: "depth_ok S" and rows: "\<forall>r \<in> set (row # rows). row_ok S r"
    and has: "column_has S tr (row # rows) (name, cs) (ps, t)" and os: "list_all (typed S) os"
  shows "\<exists>cs' tr'. loadColumn stod cs tr (MObject j os) = Some (Inr (cs', tr', MObject j (merge ps (MObject 0 row) os))) \<and>
    column_has S tr' rows (name, cs') (ps, t) \<and> other_readers {cs_reader cs} tr tr' \<and> cs_reader cs' = cs_reader cs \<and>
    list_all (typed S) (merge ps (MObject 0 row) os)"
proof -
  from has obtain D where h: "(ps, t) \<in> set (message_paths S)" "column_at cs ps t"
    "feeds tr cs t (level (rlevel ps)) D (stripe_of ps row @ rows_stripe ps rows)"
    by (auto simp: column_has_def rows_stripe_def)
  have row: "row_ok S row" and rows': "\<forall>r \<in> set rows. row_ok S r" using rows by simp_all
  from loadColumn_ok [OF S depth h(1) row h(3) rows_stripe_starts [OF S rows' h(1)] os h(2), of stod j]
  obtain cs' tr' where l:
    "loadColumn stod cs tr (MObject j os) = Some (Inr (cs', tr', MObject j (merge ps (MObject 0 row) os)))"
    "feeds tr' cs' t (level (rlevel ps)) D (rows_stripe ps rows)" "only_reader (cs_reader cs) tr tr'" "same_column cs cs'"
    "list_all (typed S) (merge ps (MObject 0 row) os)" by blast
  have "column_has S tr' rows (name, cs') (ps, t)"
    using h(1) l(2) column_at_same [OF h(2) l(4)] by (auto simp: column_has_def)
  moreover have "cs_reader cs' = cs_reader cs" using l(4) by (simp add: same_column_def)
  ultimately show ?thesis using l(1,3,5) by (auto simp: other_readers_only)
qed

lemma nextRecord_row:
  assumes S: "schema_wf S" and depth: "depth_ok S" and rows: "\<forall>r \<in> set (row # rows). row_ok S r"
  shows "list_all2 (column_has S tr (row # rows)) cols L \<Longrightarrow> distinct (map col_reader cols) \<Longrightarrow> list_all (typed S) os \<Longrightarrow>
    \<exists>cols' tr'. nextRecord stod cols tr (MObject j os) =
        Some (Inr (cols', tr', MObject j (merges (map fst L) (MObject 0 row) os))) \<and>
      list_all2 (column_has S tr' rows) cols' L \<and> map col_reader cols' = map col_reader cols \<and>
      other_readers (set (map col_reader cols)) tr tr'"
proof (induction cols arbitrary: L tr os)
  case Nil
  then show ?case by (simp add: other_readers_def)
next
  case (Cons col cols)
  obtain name cs where col: "col = (name, cs)" by (cases col)
  from Cons.prems(1) obtain ps t L' where L: "L = (ps, t) # L'" "column_has S tr (row # rows) (name, cs) (ps, t)"
    "list_all2 (column_has S tr (row # rows)) cols L'" by (auto simp: list_all2_Cons1 col)
  from loadColumn_row [OF S depth rows L(2) Cons.prems(3), of stod j] obtain cs' tr' where l:
    "loadColumn stod cs tr (MObject j os) = Some (Inr (cs', tr', MObject j (merge ps (MObject 0 row) os)))"
    "column_has S tr' rows (name, cs') (ps, t)" "other_readers {cs_reader cs} tr tr'" "cs_reader cs' = cs_reader cs"
    "list_all (typed S) (merge ps (MObject 0 row) os)" by blast
  have "cs_reader cs \<notin> set (map col_reader cols)" using Cons.prems(2) by (simp add: col)
  have "list_all2 (column_has S tr' (row # rows)) cols L'"
    by (rule list.rel_mono_strong [OF L(3)], rule column_has_other [OF _ l(3)])
      (use \<open>cs_reader cs \<notin> _\<close> in force)+
  from Cons.IH [OF this _ l(5)] Cons.prems(2) obtain cols' tr2 where n:
    "nextRecord stod cols tr' (MObject j (merge ps (MObject 0 row) os)) =
       Some (Inr (cols', tr2, MObject j (merges (map fst L') (MObject 0 row) (merge ps (MObject 0 row) os))))"
    "list_all2 (column_has S tr2 rows) cols' L'" "map col_reader cols' = map col_reader cols"
    "other_readers (set (map col_reader cols)) tr' tr2" by auto
  have "column_has S tr2 rows (name, cs') (ps, t)"
    using column_has_other [OF l(2) n(4)] l(4) \<open>cs_reader cs \<notin> _\<close> by simp
  moreover have "other_readers (set (map col_reader (col # cols))) tr tr2"
    using other_readers_trans [OF l(3) n(4)] by (simp add: col)
  ultimately show ?case using n(1-3) l(1,4) by (simp add: L(1) col)
qed

text \<open>A client reads a number of records, each into an empty message.\<close>

fun read_records ::
  "(bytes \<Rightarrow> double res) \<Rightarrow> nat \<Rightarrow> materializer \<Rightarrow> table_reader
     \<Rightarrow> (materializer \<times> table_reader \<times> message_object list) res option" where
  "read_records stod 0 cols tr = Some (Inr (cols, tr, []))"
| "read_records stod (Suc n) cols tr =
     (case nextRecord stod cols tr (MObject 0 []) of
        None \<Rightarrow> None
      | Some (Inl e) \<Rightarrow> Some (Inl e)
      | Some (Inr (cols, tr, m)) \<Rightarrow>
     (case read_records stod n cols tr of
        None \<Rightarrow> None
      | Some (Inl e) \<Rightarrow> Some (Inl e)
      | Some (Inr (cols, tr, ms)) \<Rightarrow> Some (Inr (cols, tr, m # ms))))"

lemma read_records_rows:
  assumes S: "schema_wf S" and depth: "depth_ok S" and L: "mset (map fst L) = mset (map fst (message_paths S))"
  shows "\<forall>r \<in> set rows. row_ok S r \<Longrightarrow> list_all2 (column_has S tr rows) cols L \<Longrightarrow> distinct (map col_reader cols) \<Longrightarrow>
    \<exists>cols' tr' ms. read_records stod (length rows) cols tr = Some (Inr (cols', tr', ms)) \<and>
      list_all2 same ms (map (MObject 0) rows)"
proof (induction rows arbitrary: tr cols)
  case Nil
  then show ?case by simp
next
  case (Cons row rows)
  from nextRecord_row [OF S depth Cons.prems(1,2,3), of "[]" stod 0] obtain cols' tr' where n:
    "nextRecord stod cols tr (MObject 0 []) = Some (Inr (cols', tr', MObject 0 (merges (map fst L) (MObject 0 row) [])))"
    "list_all2 (column_has S tr' rows) cols' L" "map col_reader cols' = map col_reader cols" by auto
  have rows: "\<forall>r \<in> set rows. row_ok S r" using Cons.prems(1) by simp
  have dist: "distinct (map col_reader cols')" using Cons.prems(3) by (simp only: n(3))
  from Cons.IH [OF rows n(2) dist] obtain cols2 tr2 ms where r:
    "read_records stod (length rows) cols' tr' = Some (Inr (cols2, tr2, ms))" "list_all2 same ms (map (MObject 0) rows)" by blast
  have "same (MObject 0 (merges (map fst L) (MObject 0 row) [])) (MObject 0 row)"
    using rebuild_row [OF S _ L, of "MObject 0 row"] Cons.prems(1) by (simp add: same_object)
  then show ?case using n(1) r by simp
qed

section \<open>Skipping a record\<close>

lemma skip_turn:
  assumes "feeds tr st t R D (c # cells)"
  shows "\<exists>st' tr'. skipColumn stod st tr =
      (if cells = [] \<or> cs_r st' = 0 then Some (Inr (st', tr')) else skipColumn stod st' tr') \<and>
    feeds tr' st' t R D cells \<and> only_reader (cs_reader st) tr tr' \<and> same_column st st' \<and>
    (cells \<noteq> [] \<longrightarrow> holds_cell st' (hd cells))"
proof -
  from feeds_fetch [OF assms, of stod] obtain st1 tr1 where f:
    "ColumnState_fetchIfNotPending stod st tr = Inr (st1, tr1)" "only_reader (cs_reader st) tr tr1" "same_column st st1"
    "cs_pending st1" "feeds tr1 st1 t R D (c # cells)" by blast
  note con = feeds_consume [OF f(5,4)]
  show ?thesis
  proof (cases cells)
    case Nil
    then have "skipColumn stod st tr = Some (Inr (ColumnState_consume st1, tr1))"
      using con(3) by (subst skipColumn.simps) (simp add: f(1))
    then show ?thesis using Nil f(2,3) con(1,2) by (auto intro: same_column_trans)
  next
    case (Cons d ds)
    from feeds_fetch [of tr1 "ColumnState_consume st1" t R D d ds stod] con(1) Cons obtain st2 tr2 where g:
      "ColumnState_fetchIfNotPending stod (ColumnState_consume st1) tr1 = Inr (st2, tr2)"
      "only_reader (cs_reader (ColumnState_consume st1)) tr1 tr2" "same_column (ColumnState_consume st1) st2"
      "holds_cell st2 d" "feeds tr2 st2 t R D cells" by auto
    have "skipColumn stod st tr = (if cells = [] \<or> cs_r st2 = 0 then Some (Inr (st2, tr2)) else skipColumn stod st2 tr2)"
      using con(3) Cons g(1) by (subst skipColumn.simps) (simp add: f(1))
    moreover have "cs_reader (ColumnState_consume st1) = cs_reader st" using f(3) con(2) by (simp add: same_column_def)
    with f(2) g(2) have "only_reader (cs_reader st) tr tr2" using only_reader_trans by simp
    moreover have "same_column st st2" using f(3) con(2) g(3) same_column_trans by blast
    ultimately show ?thesis using g(4,5) Cons by auto
  qed
qed

lemma skip_cells:
  assumes rest: "rest = [] \<or> fst (hd rest) = 0"
  shows "feeds tr st t R D (c # ys @ rest) \<Longrightarrow> \<forall>y \<in> set ys. fst y \<noteq> 0 \<Longrightarrow>
    \<exists>st' tr'. skipColumn stod st tr = Some (Inr (st', tr')) \<and> feeds tr' st' t R D rest \<and>
      only_reader (cs_reader st) tr tr' \<and> same_column st st'"
proof (induction ys arbitrary: c st tr)
  case Nil
  from skip_turn [OF Nil.prems(1), of stod] obtain st' tr' where s:
    "skipColumn stod st tr = (if rest = [] \<or> cs_r st' = 0 then Some (Inr (st', tr')) else skipColumn stod st' tr')"
    "feeds tr' st' t R D rest" "only_reader (cs_reader st) tr tr'" "same_column st st'"
    "rest \<noteq> [] \<longrightarrow> holds_cell st' (hd rest)" by auto
  have "rest = [] \<or> cs_r st' = 0" using rest s(5) by (cases rest) (auto simp: holds_cell_def)
  then show ?case using s by auto
next
  case (Cons y ys)
  from skip_turn [OF Cons.prems(1), of stod] obtain st' tr' where s:
    "skipColumn stod st tr = (if cs_r st' = 0 then Some (Inr (st', tr')) else skipColumn stod st' tr')"
    "feeds tr' st' t R D (y # ys @ rest)" "only_reader (cs_reader st) tr tr'" "same_column st st'" "holds_cell st' y" by auto
  have "cs_r st' \<noteq> 0" using s(5) Cons.prems(2) by (auto simp: holds_cell_def)
  moreover from Cons.IH [OF s(2)] Cons.prems(2) obtain st2 tr2 where k: "skipColumn stod st' tr' = Some (Inr (st2, tr2))"
    "feeds tr2 st2 t R D rest" "only_reader (cs_reader st') tr' tr2" "same_column st' st2" by auto
  moreover have "cs_reader st' = cs_reader st" using s(4) by (simp add: same_column_def)
  with s(3) k(3) have "only_reader (cs_reader st) tr tr2" using only_reader_trans by simp
  moreover have "same_column st st2" using s(4) k(4) by (rule same_column_trans)
  ultimately show ?case using s(1) by simp
qed

lemma skipColumn_row:
  assumes S: "schema_wf S" and depth: "depth_ok S" and rows: "\<forall>r \<in> set (row # rows). row_ok S r"
    and has: "column_has S tr (row # rows) (name, cs) (ps, t)"
  shows "\<exists>cs' tr'. skipColumn stod cs tr = Some (Inr (cs', tr')) \<and> column_has S tr' rows (name, cs') (ps, t) \<and>
    other_readers {cs_reader cs} tr tr' \<and> cs_reader cs' = cs_reader cs"
proof -
  from has obtain D where h: "(ps, t) \<in> set (message_paths S)" "column_at cs ps t"
    "feeds tr cs t (level (rlevel ps)) D (stripe_of ps row @ rows_stripe ps rows)"
    by (auto simp: column_has_def rows_stripe_def)
  have row: "row_ok S row" and rows': "\<forall>r \<in> set rows. row_ok S r" using rows by simp_all
  have "path_ok t ps (MObject 0 row)" by (rule row_path_ok [OF S row _ h(1)]) simp
  from stripe_shape [OF this, of 0 0 0] obtain d v ys where ys: "stripe 0 0 0 ps (MObject 0 row) = (0, d, v) # ys"
    "\<forall>(r', d', v') \<in> set ys. 0 < r' \<and> r' \<le> 0 + rlevel ps" by blast
  have "length ps < 2 ^ 32" using depth h(1) by (force simp: depth_ok_def)
  then have lv: "rlevel ps < 2 ^ 32" using path_levels_le(1) [of "map snd ps"] by simp
  have pos: "\<forall>y \<in> set (map to_cell ys). fst y \<noteq> 0"
  proof
    fix y assume "y \<in> set (map to_cell ys)"
    then obtain r d v where "(r, d, v) \<in> set ys" "y = to_cell (r, d, v)" by auto
    moreover from this have "0 < r" "r < 2 ^ 32" using ys(2) lv by auto
    ultimately show "fst y \<noteq> 0" using level_eq [of r 0] by (simp add: level_def)
  qed
  have "feeds tr cs t (level (rlevel ps)) D (to_cell (0, d, v) # map to_cell ys @ rows_stripe ps rows)"
    using h(3) ys(1) by (simp add: stripe_of_def)
  from skip_cells [OF rows_stripe_starts [OF S rows' h(1)] this pos, of stod] obtain cs' tr' where
    "skipColumn stod cs tr = Some (Inr (cs', tr'))" "feeds tr' cs' t (level (rlevel ps)) D (rows_stripe ps rows)"
    "only_reader (cs_reader cs) tr tr'" "same_column cs cs'" by blast
  then show ?thesis
    using h(1) column_at_same [OF h(2)] by (fastforce simp: column_has_def other_readers_only same_column_def)
qed

lemma skipRecord_row:
  assumes S: "schema_wf S" and depth: "depth_ok S" and rows: "\<forall>r \<in> set (row # rows). row_ok S r"
  shows "list_all2 (column_has S tr (row # rows)) cols L \<Longrightarrow> distinct (map col_reader cols) \<Longrightarrow>
    \<exists>cols' tr'. skipRecord stod cols tr = Some (Inr (cols', tr')) \<and>
      list_all2 (column_has S tr' rows) cols' L \<and> map col_reader cols' = map col_reader cols \<and>
      other_readers (set (map col_reader cols)) tr tr'"
proof (induction cols arbitrary: L tr)
  case Nil
  then show ?case by (simp add: other_readers_def)
next
  case (Cons col cols)
  obtain name cs where col: "col = (name, cs)" by (cases col)
  from Cons.prems(1) obtain ps t L' where L: "L = (ps, t) # L'" "column_has S tr (row # rows) (name, cs) (ps, t)"
    "list_all2 (column_has S tr (row # rows)) cols L'" by (auto simp: list_all2_Cons1 col)
  from skipColumn_row [OF S depth rows L(2), of stod] obtain cs' tr' where l: "skipColumn stod cs tr = Some (Inr (cs', tr'))"
    "column_has S tr' rows (name, cs') (ps, t)" "other_readers {cs_reader cs} tr tr'" "cs_reader cs' = cs_reader cs" by blast
  have new: "cs_reader cs \<notin> set (map col_reader cols)" using Cons.prems(2) by (simp add: col)
  have "list_all2 (column_has S tr' (row # rows)) cols L'"
    by (rule list.rel_mono_strong [OF L(3)], rule column_has_other [OF _ l(3)]) (use new in force)+
  from Cons.IH [OF this] Cons.prems(2) obtain cols' tr2 where n: "skipRecord stod cols tr' = Some (Inr (cols', tr2))"
    "list_all2 (column_has S tr2 rows) cols' L'" "map col_reader cols' = map col_reader cols"
    "other_readers (set (map col_reader cols)) tr' tr2" by auto
  have "column_has S tr2 rows (name, cs') (ps, t)" using column_has_other [OF l(2) n(4)] l(4) new by simp
  moreover have "other_readers (set (map col_reader (col # cols))) tr tr2"
    using other_readers_trans [OF l(3) n(4)] by (simp add: col)
  ultimately show ?case using n(1-3) l(1,4) by (simp add: L(1) col)
qed

fun skip_records ::
  "(bytes \<Rightarrow> double res) \<Rightarrow> nat \<Rightarrow> materializer \<Rightarrow> table_reader \<Rightarrow> (materializer \<times> table_reader) res option" where
  "skip_records stod 0 cols tr = Some (Inr (cols, tr))"
| "skip_records stod (Suc n) cols tr =
     (case skipRecord stod cols tr of
        None \<Rightarrow> None
      | Some (Inl e) \<Rightarrow> Some (Inl e)
      | Some (Inr (cols, tr)) \<Rightarrow> skip_records stod n cols tr)"

lemma skip_records_rows:
  assumes S: "schema_wf S" and depth: "depth_ok S"
  shows "\<forall>r \<in> set rows. row_ok S r \<Longrightarrow> list_all2 (column_has S tr rows) cols L \<Longrightarrow> distinct (map col_reader cols) \<Longrightarrow>
    k \<le> length rows \<Longrightarrow>
    \<exists>cols' tr'. skip_records stod k cols tr = Some (Inr (cols', tr')) \<and>
      list_all2 (column_has S tr' (drop k rows)) cols' L \<and> map col_reader cols' = map col_reader cols"
proof (induction k arbitrary: rows tr cols)
  case 0
  then show ?case by simp
next
  case (Suc k)
  then obtain row rest where rows: "rows = row # rest" by (cases rows) auto
  from skipRecord_row [OF S depth Suc.prems(1,2,3) [unfolded rows], of stod] obtain cols' tr' where n:
    "skipRecord stod cols tr = Some (Inr (cols', tr'))" "list_all2 (column_has S tr' rest) cols' L"
    "map col_reader cols' = map col_reader cols" by auto
  have dist: "distinct (map col_reader cols')" using Suc.prems(3) by (simp only: n(3))
  from Suc.IH [of rest tr' cols', OF _ n(2) dist] Suc.prems(1,4) n(1,3) show ?case by (simp add: rows)
qed

section \<open>The columns of a schema\<close>

text \<open>
  The columns \<open>createColumns\<close> makes when the table has them all: one for every leaf, in the order of
  the schema. \<open>rd\<close> gives the reader of each name.
\<close>

definition leaf_column ::
  "column_state \<Rightarrow> table_reader \<Rightarrow> (bytes \<Rightarrow> nat) \<Rightarrow> bytes \<Rightarrow> nat \<Rightarrow> parent list \<Rightarrow> field_step list \<times> FieldType
     \<Rightarrow> bytes \<times> column_state" where
  "leaf_column junk tr rd prefix d parents l =
     (let name = prefix @ path_name (map snd (fst l))
      in (name, (ColumnState junk (rd name))\<lparr>cs_parents := parents @ parents_of d (butlast (fst l)),
            cs_field_id := fst (last (fst l)), cs_field_type := snd l, cs_col_type := tr_type (rd name) tr\<rparr>))"

definition leaf_name :: "bytes \<Rightarrow> field_step list \<times> FieldType \<Rightarrow> bytes" where
  "leaf_name prefix l = prefix @ path_name (map snd (fst l))"

definition reads_all :: "table_reader \<Rightarrow> (bytes \<Rightarrow> nat) \<Rightarrow> bytes set \<Rightarrow> bool" where
  "reads_all tr rd ns \<longleftrightarrow> (\<forall>n \<in> ns. CSTableReader_getColumnReader tr n = Inr (rd n))"

lemma reads_all_has: "reads_all tr rd ns \<Longrightarrow> n \<in> ns \<Longrightarrow> CSTableReader_hasColumn tr n"
  by (fastforce simp: reads_all_def CSTableReader_getColumnReader_def CSTableReader_hasColumn_def split: option.splits)

lemma leaf_column_name: "fst (leaf_column junk tr rd prefix d parents l) = leaf_name prefix l"
  by (simp add: leaf_column_def leaf_name_def Let_def)

lemma leaf_names_below:
  "ps \<noteq> [] \<Longrightarrow> leaf_name prefix ((i, name, x) # ps, t) = leaf_name (prefix @ name @ [46]) (ps, t)"
  by (simp add: leaf_name_def path_name_Cons)

lemma leaf_column_below:
  "ps \<noteq> [] \<Longrightarrow> leaf_column junk tr rd prefix d parents ((i, name, rep, opt) # ps, t) =
     leaf_column junk tr rd (prefix @ name @ [46]) (if rep \<or> opt then d + 1 else d)
       (parents @ [(ucast i, rep, word_of_nat (if rep \<or> opt then d + 1 else d))]) (ps, t)"
  by (simp add: leaf_column_def path_name_Cons Let_def)

lemma res_fold_columns:
  assumes step: "\<And>f cols. f \<in> set fs \<Longrightarrow> distinct (map fst cols @ map N (P f)) \<Longrightarrow> F f cols = Inr (cols @ map G (P f))"
    and name: "\<And>l. fst (G l) = N l"
  shows "distinct (map fst cols @ map N (concat (map P fs))) \<Longrightarrow> res_fold F fs cols = Inr (cols @ map G (concat (map P fs)))"
  using step
proof (induction fs arbitrary: cols)
  case (Cons f fs)
  have "F f cols = Inr (cols @ map G (P f))" by (rule Cons.prems(2)) (use Cons.prems(1) in auto)
  moreover have "res_fold F fs (cols @ map G (P f)) = Inr ((cols @ map G (P f)) @ map G (concat (map P fs)))"
    by (rule Cons.IH) (use Cons.prems in \<open>auto simp: name o_def\<close>)
  ultimately show ?case by simp
qed simp

lemma createColumns_ok:
  shows "schema_wf S \<Longrightarrow> reads_all tr rd (leaf_name prefix ` set (message_paths S)) \<Longrightarrow>
      distinct (map fst cols @ map (leaf_name prefix) (message_paths S)) \<Longrightarrow>
      createColumns_all junk tr {} prefix (word_of_nat d) parents S cols =
        Inr (cols @ map (leaf_column junk tr rd prefix d parents) (message_paths S))"
    and "field_wf f \<Longrightarrow> reads_all tr rd (leaf_name prefix ` set (field_paths f)) \<Longrightarrow>
      distinct (map fst cols @ map (leaf_name prefix) (field_paths f)) \<Longrightarrow>
      createColumns junk tr {} prefix (word_of_nat d) parents f cols =
        Inr (cols @ map (leaf_column junk tr rd prefix d parents) (field_paths f))"
proof (induction S and f arbitrary: prefix d parents cols and prefix d parents cols)
  case (Schema nm fs ids types names)
  have "ms_fields (Schema nm fs ids types names) = fs" by simp
  then have wf: "field_wf f" if "f \<in> set fs" for f using schema_eqD [OF Schema.prems(1)] that by metis
  have "res_fold (createColumns junk tr {} prefix (word_of_nat d) parents) fs cols =
      Inr (cols @ map (leaf_column junk tr rd prefix d parents) (concat (map field_paths fs)))"
  proof (rule res_fold_columns [where N = "leaf_name prefix"])
    fix f and cols :: materializer assume f: "f \<in> set fs" and dist: "distinct (map fst cols @ map (leaf_name prefix) (field_paths f))"
    have "reads_all tr rd (leaf_name prefix ` set (field_paths f))" using Schema.prems(2) f by (auto simp: reads_all_def)
    from Schema.IH [OF f wf [OF f] this dist] show "createColumns junk tr {} prefix (word_of_nat d) parents f cols =
        Inr (cols @ map (leaf_column junk tr rd prefix d parents) (field_paths f))" .
  qed (use Schema.prems(3) in \<open>simp_all add: leaf_column_name\<close>)
  then show ?case by simp
next
  case (MessageSchemaField i name type n rep opt enc sub)
  let ?d = "if rep \<or> opt then d + 1 else d"
  have d: "(if rep \<or> opt then word_of_nat d + 1 else word_of_nat d :: u32) = word_of_nat ?d" by simp
  show ?case
  proof (cases "type = F_OBJECT")
    case False
    then have "createColumns junk tr {} prefix (word_of_nat d) parents (MessageSchemaField i name type n rep opt enc sub) cols =
        Inr (cols @ [leaf_column junk tr rd prefix d parents ([(i, name, rep, opt)], type)])"
      using MessageSchemaField.prems(2,3) reads_all_has [OF MessageSchemaField.prems(2), of "prefix @ name"]
      by (cases type) (simp_all add: Let_def leaf_column_def leaf_name_def reads_all_def image_def)
    then show ?thesis using False by simp
  next
    case True
    then obtain s where s: "sub = Some s" "schema_wf s" using MessageSchemaField.prems(1) by (cases sub) auto
    let ?below = "\<lambda>(ps, t). ((i, name, rep, opt) # ps, t)" and ?prefix = "prefix @ name @ [46]"
    have paths: "field_paths (MessageSchemaField i name type n rep opt enc sub) = map ?below (message_paths s)"
      using True s(1) by simp
    have ne: "fst l \<noteq> []" if "l \<in> set (message_paths s)" for l
      using that field_paths_nonempty by (fastforce simp: message_paths_fields)
    have names: "map (leaf_name prefix) (map ?below (message_paths s)) = map (leaf_name ?prefix) (message_paths s)"
      using ne leaf_names_below by (auto simp: o_def)
    have columns: "map (leaf_column junk tr rd prefix d parents) (map ?below (message_paths s)) =
        map (leaf_column junk tr rd ?prefix ?d (parents @ [(ucast i, rep, word_of_nat ?d)])) (message_paths s)"
      using ne leaf_column_below by (auto simp: o_def)
    have "leaf_name ?prefix ` set (message_paths s) = leaf_name prefix ` set (map ?below (message_paths s))"
      using arg_cong [OF names, of set] by (simp only: set_map)
    then have "reads_all tr rd (leaf_name ?prefix ` set (message_paths s))"
      using MessageSchemaField.prems(2) by (simp only: paths)
    moreover have "distinct (map fst cols @ map (leaf_name ?prefix) (message_paths s))"
      using MessageSchemaField.prems(3) by (simp only: paths names)
    ultimately have "createColumns_all junk tr {} ?prefix (word_of_nat ?d) (parents @ [(ucast i, rep, word_of_nat ?d)]) s cols =
        Inr (cols @ map (leaf_column junk tr rd ?prefix ?d (parents @ [(ucast i, rep, word_of_nat ?d)])) (message_paths s))"
      using MessageSchemaField.IH s by blast
    moreover have "createColumns junk tr {} prefix (word_of_nat d) parents (MessageSchemaField i name type n rep opt enc sub) cols =
        createColumns_all junk tr {} ?prefix (word_of_nat ?d) (parents @ [(ucast i, rep, word_of_nat ?d)]) s cols"
      using True s(1) by (cases "rep \<or> opt") (simp_all add: Let_def add.commute)
    ultimately show ?thesis by (simp only: paths columns)
  qed
qed

section \<open>A session with records\<close>

lemma permuted_map: "mset ys = mset (map F P) \<Longrightarrow> \<exists>L. mset L = mset P \<and> ys = map F L"
proof (induction ys arbitrary: P)
  case (Cons y ys)
  then have "y \<in> set (map F P)" by (metis list.set_intros(1) mset_eq_setD)
  then obtain p where p: "p \<in> set P" "y = F p" by auto
  from split_list [OF p(1)] obtain A B where P: "P = A @ p # B" by blast
  have "add_mset y (mset ys) = add_mset (F p) (mset (map F (A @ B)))" using Cons.prems by (simp add: P)
  then have "mset ys = mset (map F (A @ B))" by (simp only: p(2) add_mset_add_mset_same_iff)
  from Cons.IH [OF this] obtain L where L: "mset L = mset (A @ B)" "ys = map F L" by blast
  have "mset (p # L) = mset P" using L(1) by (simp add: P)
  moreover have "y # ys = map F (p # L)" using L(2) p(2) by simp
  ultimately show ?case by (intro exI [of _ "p # L"] conjI)
qed simp

text \<open>Columns that hold the stripes of the rows make a materializer that gives the rows back.\<close>

definition leaf_reader :: "table_reader \<Rightarrow> bytes \<Rightarrow> nat" where
  "leaf_reader tr n = projr (CSTableReader_getColumnReader tr n)"

lemma leaf_column_has:
  assumes S: "schema_wf S" and l: "(ps, t) \<in> set (message_paths S)" and v: "tr_version tr = V0_1_0"
    and j: "j < length (tr_v1_readers tr)" "CSTableReader_getColumnReader tr (path_name (map snd ps)) = Inr j"
      "cr_encoding (tr_v1_readers tr ! j) = column_encoding t"
      "cr_delivers (level (rlevel ps)) D (tr_v1_readers tr ! j) (rows_stripe ps rows)"
  shows "column_has S tr rows (leaf_column junk tr (leaf_reader tr) [] 0 [] (ps, t)) (ps, t)"
proof -
  have "ps \<noteq> []" using l field_paths_nonempty by (fastforce simp: message_paths_fields)
  then show ?thesis using l v j
    by (auto simp: column_has_def leaf_column_def Let_def column_at_def feeds_def leaf_reader_def ColumnState_def tr_type_def
        cr_type_encoding)
qed

lemma materializer_reads:
  assumes S: "schema_wf S" and depth: "depth_ok S" and rows: "\<forall>r \<in> set rows. row_ok S r"
    and order: "\<And>cols. mset (order cols) = mset cols" and v: "tr_version tr = V0_1_0"
    and dist: "distinct (map (leaf_name []) (message_paths S))"
    and cols: "\<And>ps t. (ps, t) \<in> set (message_paths S) \<Longrightarrow> \<exists>j D. j < length (tr_v1_readers tr) \<and>
      CSTableReader_getColumnReader tr (path_name (map snd ps)) = Inr j \<and>
      cr_encoding (tr_v1_readers tr ! j) = column_encoding t \<and>
      cr_delivers (level (rlevel ps)) D (tr_v1_readers tr ! j) (rows_stripe ps rows)"
    and k: "k \<le> length rows"
  shows "\<exists>mat mat1 tr1 mat2 tr2 ms. RecordMaterializer order junk S tr {} = Inr mat \<and>
    skip_records stod k mat tr = Some (Inr (mat1, tr1)) \<and>
    read_records stod (length rows - k) mat1 tr1 = Some (Inr (mat2, tr2, ms)) \<and>
    list_all2 same ms (map (MObject 0) (drop k rows))"
proof -
  let ?rd = "leaf_reader tr" and ?col = "leaf_column junk tr (leaf_reader tr) [] 0 []"
  have rd: "CSTableReader_getColumnReader tr (leaf_name [] l) = Inr (?rd (leaf_name [] l))" if "l \<in> set (message_paths S)" for l
    using cols [of "fst l" "snd l"] that by (auto simp: leaf_reader_def leaf_name_def)
  then have "reads_all tr ?rd (leaf_name [] ` set (message_paths S))" by (simp add: reads_all_def)
  from createColumns_ok(1) [OF S this, of "[]" junk 0 "[]"] dist
  have mat: "RecordMaterializer order junk S tr {} = Inr (order (map ?col (message_paths S)))"
    by (simp add: RecordMaterializer_def)
  from permuted_map [OF order] obtain L where L: "mset L = mset (message_paths S)" "order (map ?col (message_paths S)) = map ?col L"
    by blast
  have set: "set L = set (message_paths S)" using L(1) by (rule mset_eq_setD)
  have has: "list_all2 (column_has S tr rows) (map ?col L) L"
    using leaf_column_has [OF S _ v] cols set by (fastforce simp: list_all2_map1 intro!: list.rel_refl_strong)
  have "mset (map (leaf_name []) L) = mset (map (leaf_name []) (message_paths S))" using L(1) by simp
  then have "distinct (map (leaf_name []) L)" using dist by (metis mset_eq_imp_distinct_iff)
  moreover have "inj_on ?rd (set (map (leaf_name []) L))"
  proof (rule inj_onI)
    fix m n assume mn: "m \<in> set (map (leaf_name []) L)" "n \<in> set (map (leaf_name []) L)" "?rd m = ?rd n"
    have "CSTableReader_getColumnReader tr k = Inr (?rd k)" if "k \<in> set (map (leaf_name []) L)" for k
      using that rd set by auto
    from this [OF mn(1)] this [OF mn(2)] show "m = n" using mn(3) getColumnReader_name(1) by metis
  qed
  ultimately have "distinct (map ?rd (map (leaf_name []) L))" by (simp only: distinct_map)
  moreover have "map col_reader (map ?col L) = map ?rd (map (leaf_name []) L)"
    by (simp add: leaf_column_def leaf_name_def Let_def ColumnState_def)
  ultimately have dist': "distinct (map col_reader (map ?col L))" by (simp only:)
  have paths: "mset (map fst L) = mset (map fst (message_paths S))" using L(1) by simp
  from skip_records_rows [OF S depth rows has dist' k, of stod] obtain mat1 tr1 where s:
    "skip_records stod k (map ?col L) tr = Some (Inr (mat1, tr1))" "list_all2 (column_has S tr1 (drop k rows)) mat1 L"
    "map col_reader mat1 = map col_reader (map ?col L)" by blast
  have "\<forall>r \<in> set (drop k rows). row_ok S r" using rows by (auto dest: in_set_dropD)
  from read_records_rows [OF S depth paths this s(2), of stod] dist' s(3) obtain mat2 tr2 ms where
    "read_records stod (length (drop k rows)) mat1 tr1 = Some (Inr (mat2, tr2, ms))"
    "list_all2 same ms (map (MObject 0) (drop k rows))" by auto
  with mat s(1) show ?thesis by (auto simp: L(2))
qed

lemma createFile_schema:
  "CSTableWriter_createFile order junk None V0_1_0 ts = Inr tw \<Longrightarrow> tw_schema tw = TableSchema_copy order ts"
  by (auto simp: CSTableWriter_createFile_def CSTableWriter_def Let_def res_bind_def split: sum.splits)

definition shredded :: "table_schema \<Rightarrow> message_schema \<Rightarrow> message_object list list \<Rightarrow> (bytes \<times> datum cell) list" where
  "shredded ts S rows = concat (map (\<lambda>row. shred_record ts row S) rows)"

lemma shredded_cells:
  assumes "schema_wf S" and "covers S cs" and "(ps, t) \<in> set (message_paths S)" and "distinct (concat (map leaf_names cs))"
  shows "cells_of (path_name (map snd ps)) (shredded (map Some cs) S rows) = rows_stripe ps rows"
  using record_stripe [OF assms] by (simp add: shredded_def cells_of_concat rows_stripe_def stripe_of_def [abs_def])

lemma covers_column:
  assumes S: "schema_wf S" and cov: "covers S cs" and flat: "TableSchema_flatColumns junk (map Some cs) = Inr cols"
  shows "(ps, t) \<in> set (message_paths S) \<Longrightarrow> path_config junk [] 0 0 (column_path (ps, t)) \<in> set cols"
    and "mset (map cc_column_name cols) = mset (map (leaf_name []) (message_paths S))"
proof -
  let ?cfg = "path_config junk [] 0 0"
  have cols: "cols = map ?cfg (schema_paths (map Some cs))" using flat covers_flat [OF cov] by simp
  note paths = covers_paths [OF S cov]
  have "set (schema_paths (map Some cs)) = column_path ` set (message_paths S)" using mset_eq_setD [OF paths] by simp
  then show "(ps, t) \<in> set (message_paths S) \<Longrightarrow> ?cfg (column_path (ps, t)) \<in> set cols" by (auto simp: cols)
  have "mset (map cc_column_name cols) = image_mset (\<lambda>l. cc_column_name (?cfg l)) (mset (schema_paths (map Some cs)))"
    by (simp add: cols o_def)
  also have "\<dots> = mset (map (\<lambda>l. cc_column_name (?cfg (column_path l))) (message_paths S))" by (simp add: paths multiset.map_comp o_def)
  also have "(\<lambda>l. cc_column_name (?cfg (column_path l))) = leaf_name []" by (rule ext) (simp add: leaf_name_def path_config_def column_path_def)
  finally show "mset (map cc_column_name cols) = mset (map (leaf_name []) (message_paths S))" .
qed

lemma record_session:
  assumes order: "\<And>cs. mset (order cs) = mset cs" and order': "\<And>cols. mset (order' cols) = mset cols"
    and S: "schema_wf S" and depth: "depth_ok S" and ts: "TableSchema_fromProtobuf order S = Inr ts"
    and flat: "TableSchema_flatColumns junk (TableSchema_copy order ts) = Inr cols" and ok: "v1_table_ok cols"
    and rows: "\<forall>row \<in> set rows. row_ok S row"
    and len: "length (shredded (TableSchema_copy order ts) S rows) < 2 ^ 64"
    and size: "session_bytes cols (shredded (TableSchema_copy order ts) S rows) < 2 ^ 63" and k: "k \<le> length rows"
  shows "\<exists>tw tw1 tw2 tr mat mat1 tr1 mat2 tr2 ms. CSTableWriter_createFile order junk None V0_1_0 ts = Inr tw \<and>
    res_fold (\<lambda>row. addRecordFromProtobuf (tw_schema tw) (MObject 0 row) S) rows tw = Inr tw1 \<and>
    CSTableWriter_commit uninit tw1 = Inr tw2 \<and>
    CSTableReader_openFile col0 n0 (Some (pm_file (vs_pm (tw_state tw2)))) = Inr tr \<and>
    CSTableReader_numRecords tr = word_of_nat (length rows) \<and>
    RecordMaterializer order' junk' S tr {} = Inr mat \<and>
    skip_records stod k mat tr = Some (Inr (mat1, tr1)) \<and>
    read_records stod (length rows - k) mat1 tr1 = Some (Inr (mat2, tr2, ms)) \<and>
    list_all2 same ms (map (MObject 0) (drop k rows))"
proof -
  let ?ts = "TableSchema_copy order ts"
  from fromProtobuf_covers(1) [OF order S] ts covers_copy [OF order] obtain cs where cs: "?ts = map Some cs" "covers S cs"
    by fastforce
  let ?ops = "shredded ?ts S rows"
  have flat': "TableSchema_flatColumns junk (map Some cs) = Inr cols" using flat by (simp only: cs(1))
  have cols: "cols = map (path_config junk [] 0 0) (schema_paths (map Some cs))" using flat' covers_flat [OF cs(2)] by simp
  have dist: "distinct (map cc_column_name cols)" using ok by (simp add: v1_table_ok_def)
  then have leafs: "distinct (concat (map leaf_names cs))" by (simp only: cols flat_names)
  have ops: "\<forall>op \<in> set ?ops. op_ok cols op"
    using record_ops_ok [OF S cs(2) depth _ flat' ok] rows by (auto simp: shredded_def cs(1))
  from createFile_v1 [OF flat ok] obtain tw where
    tw: "CSTableWriter_createFile order junk None V0_1_0 ts = Inr tw" "tw_session cols tw []" by blast
  from tw_puts_session [OF ok tw(2) ops] obtain tw1 where
    tw1: "res_fold tw_put ?ops tw = Inr tw1" "tw_session cols tw1 ?ops" by blast
  let ?n = "word_of_nat (length rows) :: u64"
  have "tw_version tw = V0_1_0" using tw(2) by (simp add: tw_session_def)
  from addRecords_puts [OF S cs(2) rows this, of 0] tw1(1)
  have add: "res_fold (\<lambda>row. addRecordFromProtobuf (tw_schema tw) (MObject 0 row) S) rows tw = Inr (CSTableWriter_addRows ?n tw1)"
    by (simp add: createFile_schema [OF tw(1)] cs(1) shredded_def)
  have "v1_file_size cols (tw_v1_writers tw1) < 2 ^ 63" using session_size [OF tw1(2)] size by simp
  from v1_session_readers [OF ok tw1(2) len this, of uninit ?n col0 n0] obtain tw2 tr where r:
    "CSTableWriter_commit uninit (CSTableWriter_addRows ?n tw1) = Inr tw2"
    "CSTableReader_openFile col0 n0 (Some (pm_file (vs_pm (tw_state tw2)))) = Inr tr"
    "CSTableReader_numRecords tr = ?n" "tr_version tr = V0_1_0"
    and del: "\<forall>c \<in> set cols. \<exists>j < length (tr_v1_readers tr). CSTableReader_getColumnReader tr (cc_column_name c) = Inr j \<and>
       cr_encoding (tr_v1_readers tr ! j) = cc_storage_type c \<and>
       cr_delivers (cc_rlevel_max c) (cc_dlevel_max c) (tr_v1_readers tr ! j) (cells_of (cc_column_name c) ?ops)" by blast
  have "\<exists>j D. j < length (tr_v1_readers tr) \<and> CSTableReader_getColumnReader tr (path_name (map snd ps)) = Inr j \<and>
      cr_encoding (tr_v1_readers tr ! j) = column_encoding t \<and>
      cr_delivers (level (rlevel ps)) D (tr_v1_readers tr ! j) (rows_stripe ps rows)"
    if l: "(ps, t) \<in> set (message_paths S)" for ps t
    using bspec [OF del covers_column(1) [OF S cs(2) flat' l]] shredded_cells [OF S cs(2) l leafs, of rows]
    by (auto simp: path_config_fields cs(1))
  moreover have "distinct (map (leaf_name []) (message_paths S))"
    using dist covers_column(2) [OF S cs(2) flat'] mset_eq_imp_distinct_iff by blast
  ultimately obtain mat mat1 tr1 mat2 tr2 ms where "RecordMaterializer order' junk' S tr {} = Inr mat"
    "skip_records stod k mat tr = Some (Inr (mat1, tr1))"
    "read_records stod (length rows - k) mat1 tr1 = Some (Inr (mat2, tr2, ms))"
    "list_all2 same ms (map (MObject 0) (drop k rows))"
    using materializer_reads [OF S depth rows order' r(4) _ _ k, of junk' stod] by blast
  with tw(1) add r(1-3) show ?thesis by blast
qed

text \<open>One row, and the columns of the schema.\<close>

lemma record_shreds:
  assumes order: "\<And>cs. mset (order cs) = mset cs" and S: "schema_wf S" and ts: "TableSchema_fromProtobuf order S = Inr ts"
    and flat: "TableSchema_flatColumns junk (TableSchema_copy order ts) = Inr cols" and dist: "distinct (map cc_column_name cols)"
    and row: "row_ok S row"
  shows "\<exists>ops. (\<forall>tw. tw_version tw = V0_1_0 \<longrightarrow> addRecordFromProtobuf (TableSchema_copy order ts) (MObject i row) S tw =
      res_bind (res_fold tw_put ops tw) (\<lambda>tw. Inr (CSTableWriter_addRow tw))) \<and>
    (\<forall>(ps, t) \<in> set (message_paths S). cells_of (path_name (map snd ps)) ops = map to_cell (stripe 0 0 0 ps (MObject 0 row)))"
proof -
  from fromProtobuf_covers(1) [OF order S] ts covers_copy [OF order] obtain cs where
    cs: "TableSchema_copy order ts = map Some cs" "covers S cs" by fastforce
  have "cols = map (path_config junk [] 0 0) (schema_paths (map Some cs))" using flat covers_flat [OF cs(2)] by (simp add: cs(1))
  with dist have leafs: "distinct (concat (map leaf_names cs))" by (simp only: flat_names)
  show ?thesis
    using addRecord_puts [OF S cs(2) row] record_stripe [OF S cs(2) _ leafs]
    by (intro exI [of _ "shred_record (map Some cs) row S"]) (auto simp: cs(1))
qed

lemma fromProtobuf_flat:
  assumes order: "\<And>cs. mset (order cs) = mset cs" and S: "schema_wf S"
  shows "\<exists>ts cols. TableSchema_fromProtobuf order S = Inr ts \<and>
    TableSchema_flatColumns junk (TableSchema_copy order ts) = Inr cols \<and>
    mset (map (\<lambda>c. (cc_column_name c, cc_rlevel_max c, cc_dlevel_max c, cc_storage_type c, cc_logical_type c)) cols) =
      mset (map (\<lambda>(ps, t). (path_name (map snd ps), level (rlevel ps), level (dlevel ps), column_encoding t, column_type t))
        (message_paths S))"
proof -
  let ?cfg = "path_config junk [] 0 0"
    and ?view = "\<lambda>c. (cc_column_name c, cc_rlevel_max c, cc_dlevel_max c, cc_storage_type c, cc_logical_type c)"
  from fromProtobuf_covers(1) [OF order S] covers_copy [OF order] obtain ts cs where
    cs: "TableSchema_fromProtobuf order S = Inr ts" "TableSchema_copy order ts = map Some cs" "covers S cs" by fastforce
  let ?cols = "map ?cfg (schema_paths (map Some cs))"
  have "mset (map ?view ?cols) = image_mset (\<lambda>l. ?view (?cfg l)) (mset (schema_paths (map Some cs)))" by (simp add: o_def)
  also have "\<dots> = image_mset (\<lambda>l. ?view (?cfg (column_path l))) (mset (message_paths S))"
    by (simp add: covers_paths [OF S cs(3)] multiset.map_comp o_def)
  also have "\<dots> = mset (map (\<lambda>(ps, t). (path_name (map snd ps), level (rlevel ps), level (dlevel ps), column_encoding t,
      column_type t)) (message_paths S))"
    by (simp only: mset_map) (rule image_mset_cong, auto simp: path_config_fields)
  finally have "mset (map ?view ?cols) = \<dots>" .
  moreover have "TableSchema_flatColumns junk (TableSchema_copy order ts) = Inr ?cols" using covers_flat [OF cs(3)] by (simp only: cs(2))
  ultimately show ?thesis using cs(1) by blast
qed

section \<open>Schemas built by the constructor\<close>

lemma MessageSchema_sel: "ms_name (MessageSchema nm fs) = nm" "ms_fields (MessageSchema nm fs) = fs"
proof -
  have "ms_name (MessageSchema_addField f S) = ms_name S" for f S by (cases S) simp
  then have "ms_name (fold MessageSchema_addField fs S) = ms_name S" for S by (induction fs arbitrary: S) simp_all
  then show "ms_name (MessageSchema nm fs) = nm" "ms_fields (MessageSchema nm fs) = fs"
    by (simp_all add: MessageSchema_def empty_schema_def)
qed

lemma schema_wf_MessageSchema:
  "schema_wf (MessageSchema nm fs) \<longleftrightarrow>
     distinct (map sf_name fs) \<and> distinct (map sf_id fs) \<and> fs \<noteq> [] \<and> list_all field_wf fs"
proof -
  obtain n gs a b c where S: "MessageSchema nm fs = Schema n gs a b c" by (cases "MessageSchema nm fs")
  have "n = nm" "gs = fs" using MessageSchema_sel [of nm fs] by (simp_all add: S)
  then show ?thesis by (simp add: S)
qed

lemma schema_ok_MessageSchema:
  "schema_ok (MessageSchema nm fs) \<longleftrightarrow> length nm < 2 ^ 64 \<and> length fs < 2 ^ 31 \<and> (\<forall>f \<in> set fs. schema_field_ok f)"
proof -
  obtain n gs a b c where S: "MessageSchema nm fs = Schema n gs a b c" by (cases "MessageSchema nm fs")
  have "n = nm" "gs = fs" using MessageSchema_sel [of nm fs] by (simp_all add: S)
  then show ?thesis by (simp add: S)
qed

end
