(* ===== verification/CS_Example.thy ===== *)
theory CS_Example
  imports CS_RecordSession CS_MessageCodec
begin

text \<open>
  A schema with a repeated subrecord, two rows of it, and the table, columns and cells they become:
  the values the theorems on records are applied to.
\<close>

definition person_schema :: message_schema where
  "person_schema = MessageSchema [80]
     [MessageSchemaField 1 [105, 100] F_UINT64 0 False False Hint_NONE None,
      mkObjectField 2 [116] True False (Some (MessageSchema []
        [MessageSchemaField 1 [107] F_UINT64 0 False True Hint_NONE None,
         MessageSchemaField 2 [118] F_STRING 0 True False Hint_NONE None]))]"

definition person_rows :: "message_object list list" where
  "person_rows =
     [[MUInt64 1 7, MObject 2 [MUInt64 1 3, MString 2 [97], MString 2 [98]], MObject 2 []],
      [MObject 2 [MString 2 []], MUInt64 1 8]]"

lemma person_fields:
  "ms_fields person_schema = [MessageSchemaField 1 [105, 100] F_UINT64 0 False False Hint_NONE None,
      mkObjectField 2 [116] True False (Some (MessageSchema []
        [MessageSchemaField 1 [107] F_UINT64 0 False True Hint_NONE None,
         MessageSchemaField 2 [118] F_STRING 0 True False Hint_NONE None]))]"
  by (simp add: person_schema_def MessageSchema_sel)

lemma person_wf: "schema_wf person_schema" "depth_ok person_schema"
  by (simp_all add: person_schema_def schema_wf_MessageSchema mkObjectField_def depth_ok_def message_paths_fields MessageSchema_sel)

lemma person_rows_ok: "\<forall>row \<in> set person_rows. row_ok person_schema row"
  by (simp add: person_rows_def row_ok_def counts_ok_def person_fields MessageSchema_sel mkObjectField_def children_def)

definition person_table :: table_schema where
  "person_table =
     [Some (Column [105, 100] UNSIGNED_INT UINT64_LEB128 0 False False None),
      Some (Column [116] SUBRECORD (OtherEncoding 0) 0 True False
        (Some [Some (Column [107] UNSIGNED_INT UINT64_LEB128 0 False True None),
               Some (Column [118] STRING STRING_PLAIN 0 True False None)]))]"

definition person_config :: "bytes \<Rightarrow> ColumnEncoding \<Rightarrow> ColumnType \<Rightarrow> u64 \<Rightarrow> u64 \<Rightarrow> ColumnConfig" where
  "person_config name enc type r d =
     \<lparr>cc_column_id = 0, cc_column_name = name, cc_storage_type = enc, cc_logical_type = type,
       cc_rlevel_max = r, cc_dlevel_max = d, cc_body_offset = 0, cc_body_size = 0\<rparr>"

definition person_columns :: "ColumnConfig list" where
  "person_columns =
     [person_config [105, 100] UINT64_LEB128 UNSIGNED_INT 0 0, person_config [116, 46, 107] UINT64_LEB128 UNSIGNED_INT 1 2,
      person_config [116, 46, 118] STRING_PLAIN STRING 2 2]"

definition person_junk :: "bytes \<Rightarrow> ColumnConfig" where
  "person_junk _ = person_config [] UINT64_PLAIN UNSIGNED_INT 0 0"

lemma person_tables:
  "TableSchema_fromProtobuf (\<lambda>cs. cs) person_schema = Inr person_table"
  "TableSchema_copy (\<lambda>cs. cs) person_table = person_table"
  "TableSchema_flatColumns person_junk person_table = Inr person_columns"
  by code_simp+

definition person_cells :: "(bytes \<times> datum cell) list" where
  "person_cells =
     [([105, 100], 0, 0, Some (DUInt 7)), ([116, 46, 107], 0, 2, Some (DUInt 3)),
      ([116, 46, 118], 0, 2, Some (DString [97])), ([116, 46, 118], 2, 2, Some (DString [98])),
      ([116, 46, 107], 1, 1, None), ([116, 46, 118], 1, 1, None),
      ([105, 100], 0, 0, Some (DUInt 8)), ([116, 46, 107], 0, 1, None), ([116, 46, 118], 0, 2, Some (DString []))]"

lemma person_shredded: "shredded person_table person_schema person_rows = person_cells"
  by code_simp

lemma person_small: "length person_cells < 2 ^ 64" "session_bytes person_columns person_cells < 2 ^ 63" "v1_table_ok person_columns"
  by (simp_all add: person_cells_def person_columns_def person_config_def session_bytes_def cells_bytes_def v1_header_size_def
      cells_of_def v1_table_ok_def v1_config_ok_def known_type_def known_encoding_def)

definition person_paths :: "(field_step list \<times> FieldType) list" where
  "person_paths =
     [([(1, [105, 100], False, False)], F_UINT64),
      ([(2, [116], True, False), (1, [107], False, True)], F_UINT64),
      ([(2, [116], True, False), (2, [118], True, False)], F_STRING)]"

lemma person_paths: "message_paths person_schema = person_paths"
  by (simp add: message_paths_fields person_fields mkObjectField_def MessageSchema_sel person_paths_def)

definition person_state :: column_state where
  "person_state = \<lparr>cs_reader = 0, cs_r = 0, cs_d = 0, cs_pending = False, cs_defined = False, cs_parents = [],
     cs_field_id = 0, cs_field_type = F_OBJECT, cs_col_type = UNSIGNED_INT, cs_val_str = [], cs_val_uint = 0, cs_val_sint = 0,
     cs_val_float = Double 0\<rparr>"

text \<open>A reader that knows only the integers of the subrecords.\<close>

definition person_reader :: message_schema where
  "person_reader = MessageSchema []
     [mkObjectField 2 [116] True False (Some (MessageSchema [] [MessageSchemaField 1 [107] F_UINT64 0 False True Hint_NONE None]))]"

lemma person_schema_size: "length (schema_bytes person_schema) = 40"
  by code_simp

lemma person_bytes: "length (concat (map mo_bytes (hd person_rows))) = 14"
  by code_simp

lemma person_conforms:
  "\<forall>m \<in> set (hd person_rows). conforms person_schema m"
  "\<forall>m \<in> set (hd person_rows). readable person_reader m"
  "concat (map (restrict person_reader) (hd person_rows)) = [MObject 2 [MUInt64 1 3], MObject 2 []]"
  by (simp_all add: person_rows_def person_schema_def person_reader_def MessageSchema_def empty_schema_def emplace_def
      mkObjectField_def MessageSchema_fieldType_def MessageSchema_hasField_def subschema_def MessageSchema_fieldSchema_def)

definition example_pages :: page_manager where
  "example_pages = \<lparr>pm_version = V0_2_0, pm_file = replicate 4096 0, pm_offset = 512, pm_meta_block_position = 14,
     pm_meta_block_size = 56\<rparr>"

end
