(* ===== verification/CS_Csv.thy ===== *)
theory CS_Csv
  imports CS_Stream
begin

text \<open>
  The rest of \<open>stx/io\<close> that the row formats use (output streams, end-of-file tests, rewinding,
  the byte order mark) and the row streams of \<open>stx/csv\<close>: \<open>CSVInputStream\<close>,
  \<open>CSVOutputStream\<close> and their binary variants. Reading a row is shown to refine a function on
  the bytes that are left in the stream.
\<close>

section \<open>Output streams\<close>

text \<open>
  The streams into memory, \<open>StringOutputStream\<close> and \<open>BufferOutputStream\<close>: the state is the text
  written so far, and a write is always complete.
\<close>

definition os_write :: "bytes \<Rightarrow> bytes \<Rightarrow> bytes" where
  "os_write data out = out @ data"

definition os_appendUInt8 :: "byte \<Rightarrow> bytes \<Rightarrow> bytes" where "os_appendUInt8 v = os_write [v]"
definition os_appendUInt16 :: "u16 \<Rightarrow> bytes \<Rightarrow> bytes" where "os_appendUInt16 v = os_write (u16_bytes v)"
definition os_appendUInt32 :: "u32 \<Rightarrow> bytes \<Rightarrow> bytes" where "os_appendUInt32 v = os_write (u32_bytes v)"
definition os_appendUInt64 :: "u64 \<Rightarrow> bytes \<Rightarrow> bytes" where "os_appendUInt64 v = os_write (u64_bytes v)"
definition os_appendDouble :: "double \<Rightarrow> bytes \<Rightarrow> bytes" where
  "os_appendDouble v = os_write (u64_bytes (IEEE754_toBytes v))"
definition os_appendString :: "bytes \<Rightarrow> bytes \<Rightarrow> bytes" where "os_appendString s = os_write s"
definition os_appendVarUInt :: "u64 \<Rightarrow> bytes \<Rightarrow> bytes" where "os_appendVarUInt v = os_write (varuint_bytes v)"
definition os_appendLenencString :: "bytes \<Rightarrow> bytes \<Rightarrow> bytes" where
  "os_appendLenencString s out = os_write s (os_appendVarUInt (word_of_nat (length s)) out)"

section \<open>End of file, rewinding, byte order marks\<close>

definition ms_eof :: "mem_stream \<Rightarrow> bool" where
  "ms_eof s \<longleftrightarrow> ms_cur s \<ge> length (ms_data s)"

definition FileInputStream_eof :: "file_stream \<Rightarrow> bool \<times> file_stream" where
  "FileInputStream_eof s =
     (let s = (if fs_pos s \<ge> length (fs_buf s) then snd (FileInputStream_readNextChunk s) else s)
      in (fs_pos s \<ge> length (fs_buf s), s))"

fun is_eof :: "input_stream \<Rightarrow> bool \<times> input_stream" where
  "is_eof (StringIS m) = (ms_eof m, StringIS m)"
| "is_eof (BufferIS m) = (ms_eof m, BufferIS m)"
| "is_eof (MemoryIS m) = (ms_eof m, MemoryIS m)"
| "is_eof (FileIS f) = map_prod id FileIS (FileInputStream_eof f)"

fun is_rewind :: "input_stream \<Rightarrow> input_stream" where
  "is_rewind (StringIS m) = StringIS (m\<lparr>ms_cur := 0\<rparr>)"
| "is_rewind (BufferIS m) = BufferIS (m\<lparr>ms_cur := 0\<rparr>)"
| "is_rewind (MemoryIS m) = MemoryIS (m\<lparr>ms_cur := 0\<rparr>)"
| "is_rewind (FileIS f) = FileIS (FileInputStream_seekTo 0 f)"

datatype byte_order_mark = BOM_UTF8 | BOM_UTF16 | BOM_UNKNOWN

definition FileInputStream_readByteOrderMark :: "file_stream \<Rightarrow> byte_order_mark \<times> file_stream" where
  "FileInputStream_readByteOrderMark s =
     (let s = (if fs_pos s \<ge> length (fs_buf s) then snd (FileInputStream_readNextChunk s) else s)
      in if fs_pos s + 3 \<le> length (fs_buf s) \<and> take 3 (drop (fs_pos s) (fs_buf s)) = [0xEF, 0xBB, 0xBF]
         then (BOM_UTF8, s\<lparr>fs_pos := fs_pos s + 3\<rparr>)
         else if fs_pos s + 2 \<le> length (fs_buf s) \<and> take 2 (drop (fs_pos s) (fs_buf s)) = [0xFF, 0xFE]
         then (BOM_UTF16, s\<lparr>fs_pos := fs_pos s + 2\<rparr>)
         else (BOM_UNKNOWN, s))"

section \<open>Text rows\<close>

record csv_format =
  column_separator :: byte
  row_separator :: byte
  quote_char :: byte

text \<open>
  The inner loop of \<open>readNextRow\<close> reads a column and ends at a separator, which it returns, or
  at the end of the file. \<open>None\<close> outside is a call that does not return.
\<close>

partial_function (option) csv_column ::
  "csv_format \<Rightarrow> bool \<Rightarrow> bytes \<Rightarrow> input_stream \<Rightarrow> (byte option \<times> bytes \<times> input_stream) option" where
  "csv_column fmt quoted column input =
     (case is_readNextByte input of
        (None, input) \<Rightarrow> Some (None, column, input)
      | (Some b, input) \<Rightarrow>
          if \<not> quoted \<and> b = column_separator fmt then Some (Some b, column, input)
          else if \<not> quoted \<and> b = row_separator fmt then Some (Some b, column, input)
          else if b = quote_char fmt then csv_column fmt (\<not> quoted) column input
          else csv_column fmt quoted (column @ [b]) input)"

partial_function (option) csv_columns ::
  "csv_format \<Rightarrow> bytes list \<Rightarrow> input_stream \<Rightarrow> (bool \<times> bytes list \<times> input_stream) option" where
  "csv_columns fmt target input =
     (case csv_column fmt False [] input of
        None \<Rightarrow> None
      | Some (sep, column, input) \<Rightarrow>
          if sep = None \<or> sep = Some (row_separator fmt) then Some (sep \<noteq> None, target @ [column], input)
          else csv_columns fmt (target @ [column]) input)"

definition CSV_readNextRow ::
  "csv_format \<Rightarrow> input_stream \<Rightarrow> (bool \<times> bytes list \<times> input_stream) option" where
  "CSV_readNextRow fmt input = csv_columns fmt [] input"

definition CSV_skipNextRow :: "csv_format \<Rightarrow> input_stream \<Rightarrow> (bool \<times> input_stream) option" where
  "CSV_skipNextRow fmt input =
     map_option (\<lambda>(found, devnull, input). (found, input)) (CSV_readNextRow fmt input)"

definition CSV_openFile :: "bytes \<Rightarrow> input_stream" where
  "CSV_openFile content =
     FileIS (snd (FileInputStream_readByteOrderMark (FileInputStream_fromFileDescriptor content)))"

text \<open>The writer puts separators between the fields and behind the row; it does not quote.\<close>

fun csv_fields :: "bytes \<Rightarrow> bytes list \<Rightarrow> bytes" where
  "csv_fields col_sep [] = []"
| "csv_fields col_sep [x] = x"
| "csv_fields col_sep (x # y # row) = x @ col_sep @ csv_fields col_sep (y # row)"

definition CSVOutputStream_appendRow :: "bytes \<Rightarrow> bytes \<Rightarrow> bytes list \<Rightarrow> bytes \<Rightarrow> bytes" where
  "CSVOutputStream_appendRow col_sep row_sep row = os_write (csv_fields col_sep row @ row_sep)"

section \<open>Binary rows\<close>

definition BinaryCSV_readNextRow :: "input_stream \<Rightarrow> (bytes list option \<times> input_stream) res" where
  "BinaryCSV_readNextRow input =
     (let (eof, input) = is_eof input
      in if eof then Inr (None, input)
         else act_bind is_readVarUInt (\<lambda>row_size.
                act_bind (act_repeat (unat row_size) is_readLenencString) (\<lambda>row. act_return (Some row))) input)"

definition BinaryCSV_appendRow :: "bytes list \<Rightarrow> bytes \<Rightarrow> bytes" where
  "BinaryCSV_appendRow row out =
     fold os_appendLenencString row (os_appendVarUInt (word_of_nat (length row)) out)"

section \<open>Reading a row, on the bytes that are left\<close>

text \<open>\<open>csv_row\<close> gives whether a row separator ended the row, its columns and what is left.\<close>

fun csv_row :: "csv_format \<Rightarrow> bool \<Rightarrow> bytes \<Rightarrow> bytes \<Rightarrow> bool \<times> bytes list \<times> bytes" where
  "csv_row fmt quoted column [] = (False, [column], [])"
| "csv_row fmt quoted column (b # s) =
     (if \<not> quoted \<and> b = row_separator fmt then (True, [column], s)
      else if \<not> quoted \<and> b = column_separator fmt
      then (let (found, row, r) = csv_row fmt False [] s in (found, column # row, r))
      else if b = quote_char fmt then csv_row fmt (\<not> quoted) column s
      else csv_row fmt quoted (column @ [b]) s)"

text \<open>The rows a client gets from calling \<open>readNextRow\<close> until it returns \<open>false\<close>.\<close>

lemma csv_row_shorter: "csv_row fmt quoted column s = (True, row, r) \<Longrightarrow> length r < length s"
  by (induction fmt quoted column s arbitrary: row rule: csv_row.induct) (auto split: if_splits prod.splits)

function csv_rows :: "csv_format \<Rightarrow> bytes \<Rightarrow> bytes list list" where
  "csv_rows fmt s =
     (case csv_row fmt False [] s of
        (found, row, r) \<Rightarrow> if found then row # csv_rows fmt r else [])"
  by pat_completeness auto

termination
  by (relation "measure (length \<circ> snd)") (auto dest: csv_row_shorter csv_row_shorter [OF sym])

declare csv_rows.simps [simp del]

text \<open>
  One column of the stream is one step of \<open>csv_row\<close>: what it yields for the rest of the row is the
  row without its first column.
\<close>

lemma read_at_end:
  assumes "is_ok input" and "is_rest input = []"
  shows "\<exists>input'. is_readNextByte input = (None, input') \<and> is_ok input' \<and> is_rest input' = []"
proof (cases input)
  case (FileIS f)
  with assms have f: "fs_ok f" "fs_rest f = []" by simp_all
  then have p: "fs_pos f \<ge> length (fs_buf f)" by (simp add: fs_rest_def)
  from fs_readNextChunk [OF p f(1)] f(2) show ?thesis
    by (simp add: FileIS FileInputStream_readNextByte_def p split: prod.splits)
qed (use assms in \<open>simp_all add: string_stream.read1_Nil buffer_stream.read1_Nil memory_stream.read1_Nil\<close>)

lemma csv_column_row:
  assumes "is_ok input" and "is_rest input = s"
  shows "\<exists>sep c input'. csv_column fmt quoted column input = Some (sep, c, input') \<and>
    (case sep of
       None \<Rightarrow> is_ok input' \<and> is_rest input' = [] \<and> csv_row fmt quoted column s = (False, [c], [])
     | Some b \<Rightarrow> is_ok input' \<and> length (is_rest input') < length s \<and>
         csv_row fmt quoted column s =
           (if b = row_separator fmt then (True, [c], is_rest input')
            else let (found, row, r) = csv_row fmt False [] (is_rest input') in (found, c # row, r)))"
  using assms
proof (induction s arbitrary: quoted column input)
  case Nil
  from read_at_end [OF Nil] obtain input' where
    "is_readNextByte input = (None, input')" "is_ok input'" "is_rest input' = []" by blast
  then show ?case by (subst csv_column.simps) simp
next
  case (Cons b s)
  from input.read1_Cons [OF Cons.prems] obtain input' where
    r: "is_readNextByte input = (Some b, input')" "is_ok input'" "is_rest input' = s" by blast
  note ih = Cons.IH [OF r(2,3)]
  consider (sep) "\<not> quoted" "b = column_separator fmt \<or> b = row_separator fmt"
    | (quote) "\<not> (\<not> quoted \<and> (b = column_separator fmt \<or> b = row_separator fmt))" "b = quote_char fmt"
    | (plain) "\<not> (\<not> quoted \<and> (b = column_separator fmt \<or> b = row_separator fmt))" "b \<noteq> quote_char fmt"
    by blast
  then show ?case
  proof cases
    case sep
    then have "csv_column fmt quoted column input = Some (Some b, column, input')"
      by (subst csv_column.simps) (auto simp: r(1))
    with sep r(2,3) show ?thesis by auto
  next
    case quote
    then have c: "csv_column fmt quoted column input = csv_column fmt (\<not> quoted) column input'"
      by (subst csv_column.simps) (auto simp: r(1))
    have w: "csv_row fmt quoted column (b # s) = csv_row fmt (\<not> quoted) column s" using quote by auto
    from ih [of "\<not> quoted" column] show ?thesis unfolding c w by (fastforce split: option.splits)
  next
    case plain
    then have c: "csv_column fmt quoted column input = csv_column fmt quoted (column @ [b]) input'"
      by (subst csv_column.simps) (auto simp: r(1))
    have w: "csv_row fmt quoted column (b # s) = csv_row fmt quoted (column @ [b]) s" using plain by auto
    from ih [of quoted "column @ [b]"] show ?thesis unfolding c w by (fastforce split: option.splits)
  qed
qed

lemma csv_columns_row:
  assumes "is_ok input" and "csv_row fmt False [] (is_rest input) = (found, row, r)"
  shows "\<exists>input'. csv_columns fmt target input = Some (found, target @ row, input') \<and> is_ok input' \<and> is_rest input' = r"
  using assms
proof (induction "length (is_rest input)" arbitrary: input target row rule: less_induct)
  case less
  from csv_column_row [OF less.prems(1) refl, of fmt False "[]"] obtain sep c input' where
    col: "csv_column fmt False [] input = Some (sep, c, input')" and
    res: "case sep of None \<Rightarrow> is_ok input' \<and> is_rest input' = [] \<and> csv_row fmt False [] (is_rest input) = (False, [c], [])
     | Some b \<Rightarrow> is_ok input' \<and> length (is_rest input') < length (is_rest input) \<and>
         csv_row fmt False [] (is_rest input) =
           (if b = row_separator fmt then (True, [c], is_rest input')
            else let (found, row, r) = csv_row fmt False [] (is_rest input') in (found, c # row, r))" by blast
  show ?case
  proof (cases "sep = None \<or> sep = Some (row_separator fmt)")
    case True
    then have "csv_columns fmt target input = Some (sep \<noteq> None, target @ [c], input')"
      by (subst csv_columns.simps) (simp add: col)
    with True res less.prems(2) show ?thesis by (auto split: option.splits)
  next
    case False
    then obtain b where b: "sep = Some b" "b \<noteq> row_separator fmt" by auto
    obtain found' row' r' where w: "csv_row fmt False [] (is_rest input') = (found', row', r')"
      by (cases "csv_row fmt False [] (is_rest input')") auto
    have i: "is_ok input'" "length (is_rest input') < length (is_rest input)" and
      eq: "found = found'" "row = c # row'" "r = r'" using res less.prems(2) by (simp_all add: b w)
    from less.hyps [OF i(2,1), of row' "target @ [c]"] w eq
    obtain input'' where "csv_columns fmt (target @ [c]) input' = Some (found, target @ row, input'')"
      "is_ok input''" "is_rest input'' = r" by auto
    moreover have "csv_columns fmt target input = csv_columns fmt (target @ [c]) input'"
      using b by (subst csv_columns.simps) (simp add: col)
    ultimately show ?thesis by auto
  qed
qed

lemma readNextRow_refines:
  assumes "is_ok input" and "csv_row fmt False [] (is_rest input) = (found, row, r)"
  shows "\<exists>input'. CSV_readNextRow fmt input = Some (found, row, input') \<and> is_ok input' \<and> is_rest input' = r"
  using csv_columns_row [OF assms, of "[]"] by (simp add: CSV_readNextRow_def)

section \<open>Reading what was written\<close>

text \<open>A field is plain when none of the three special characters occurs in it.\<close>

definition csv_plain :: "csv_format \<Rightarrow> bytes \<Rightarrow> bool" where
  "csv_plain fmt x \<longleftrightarrow> column_separator fmt \<notin> set x \<and> row_separator fmt \<notin> set x \<and> quote_char fmt \<notin> set x"

definition csv_format_ok :: "csv_format \<Rightarrow> bool" where
  "csv_format_ok fmt \<longleftrightarrow> distinct [column_separator fmt, row_separator fmt, quote_char fmt]"

lemma csv_row_plain:
  "csv_plain fmt x \<Longrightarrow> csv_row fmt quoted column (x @ s) = csv_row fmt quoted (column @ x) s"
  by (induction x arbitrary: column) (auto simp: csv_plain_def)

text \<open>Between quotes the separators are part of the field.\<close>

lemma csv_row_quoted:
  assumes "csv_format_ok fmt" and "quote_char fmt \<notin> set x"
  shows "csv_row fmt False column (quote_char fmt # x @ quote_char fmt # s) = csv_row fmt False (column @ x) s"
proof -
  have "csv_row fmt True column (x @ quote_char fmt # s) = csv_row fmt False (column @ x) s"
    using assms(2) by (induction x arbitrary: column) auto
  then show ?thesis using assms(1) by (auto simp: csv_format_ok_def)
qed

lemma csv_row_fields:
  assumes "csv_format_ok fmt" and "row \<noteq> []" and "\<forall>x \<in> set row. csv_plain fmt x"
  shows "csv_row fmt False [] (csv_fields [column_separator fmt] row @ row_separator fmt # s) = (True, row, s)"
  using assms
proof (induction "[column_separator fmt]" row rule: csv_fields.induct)
  case (2 x)
  then show ?case by (simp add: csv_row_plain)
next
  case (3 x y row)
  then show ?case by (simp add: csv_row_plain csv_format_ok_def)
qed simp

definition csv_text :: "csv_format \<Rightarrow> bytes list list \<Rightarrow> bytes" where
  "csv_text fmt rows = fold (CSVOutputStream_appendRow [column_separator fmt] [row_separator fmt]) rows []"

lemma csv_text_simps [simp]:
  "csv_text fmt [] = []"
  "csv_text fmt (row # rows) = csv_fields [column_separator fmt] row @ row_separator fmt # csv_text fmt rows"
proof -
  let ?f = "CSVOutputStream_appendRow [column_separator fmt] [row_separator fmt]"
  have "fold ?f rows out = out @ fold ?f rows []" for out
  proof (induction rows arbitrary: out)
    case (Cons row rows)
    show ?case using Cons [of "?f row out"] Cons [of "?f row []"]
      by (simp add: CSVOutputStream_appendRow_def os_write_def)
  qed simp
  from this [of "?f row []"]
  show "csv_text fmt (row # rows) = csv_fields [column_separator fmt] row @ row_separator fmt # csv_text fmt rows"
    by (simp add: csv_text_def CSVOutputStream_appendRow_def os_write_def)
qed (simp add: csv_text_def)

definition csv_rows_plain :: "csv_format \<Rightarrow> bytes list list \<Rightarrow> bool" where
  "csv_rows_plain fmt rows \<longleftrightarrow> (\<forall>row \<in> set rows. row \<noteq> [] \<and> (\<forall>x \<in> set row. csv_plain fmt x))"

lemma csv_rows_text:
  assumes "csv_format_ok fmt" and "csv_rows_plain fmt rows"
  shows "csv_rows fmt (csv_text fmt rows) = rows"
  using assms(2)
proof (induction rows)
  case Nil
  show ?case by (subst csv_rows.simps) simp
next
  case (Cons row rows)
  then show ?case using csv_row_fields [OF assms(1), of row]
    by (subst csv_rows.simps) (simp add: csv_rows_plain_def)
qed

text \<open>What follows the last row separator is not delivered as a row.\<close>

lemma csv_last_row_lost:
  assumes "csv_format_ok fmt" and "csv_rows_plain fmt rows" and "csv_plain fmt x"
  shows "csv_rows fmt (csv_text fmt rows @ x) = rows"
  using assms(2)
proof (induction rows)
  case Nil
  show ?case using csv_row_plain [OF assms(3), of False "[]" "[]"] by (subst csv_rows.simps) simp
next
  case (Cons row rows)
  then show ?case using csv_row_fields [OF assms(1), of row]
    by (subst csv_rows.simps) (simp add: csv_rows_plain_def)
qed

text \<open>A file is read behind its byte order mark.\<close>

definition skip_bom :: "bytes \<Rightarrow> bytes" where
  "skip_bom s = (if take 3 s = [0xEF, 0xBB, 0xBF] then drop 3 s else if take 2 s = [0xFF, 0xFE] then drop 2 s else s)"

lemma CSV_openFile_rest: "is_ok (CSV_openFile content)" "is_rest (CSV_openFile content) = skip_bom content"
proof -
  define chunk where "chunk = take kChunkSize content"
  have c: "content = chunk @ drop (length chunk) content"
    unfolding chunk_def by (metis append_take_drop_id length_take min.commute min_def take_all_iff drop_all append_Nil2 le_cases)
  have t: "take 3 content = take 3 chunk" "take 2 content = take 2 chunk"
    by (simp_all add: chunk_def kChunkSize_def)
  have len: "take 3 chunk = [a, b, d] \<Longrightarrow> 3 \<le> length chunk" "take 2 chunk = [a, b] \<Longrightarrow> 2 \<le> length chunk" for a b d
    by (auto dest!: arg_cong [where f = length])
  have o: "CSV_openFile content = FileIS
      (let s = \<lparr>fs_content = content, fs_offset = length chunk, fs_buf = chunk, fs_pos = 0\<rparr>
       in if 3 \<le> length chunk \<and> take 3 chunk = [0xEF, 0xBB, 0xBF] then s\<lparr>fs_pos := 3\<rparr>
          else if 2 \<le> length chunk \<and> take 2 chunk = [0xFF, 0xFE] then s\<lparr>fs_pos := 2\<rparr> else s)"
    by (simp add: CSV_openFile_def FileInputStream_readByteOrderMark_def FileInputStream_fromFileDescriptor_def
        FileInputStream_readNextChunk_def Let_def chunk_def kChunkSize_def)
  show "is_ok (CSV_openFile content)" by (auto simp: o fs_ok_def Let_def)
  have d: "drop k chunk @ drop (length chunk) content = drop k content" if "k \<le> length chunk" for k
    using arg_cong [OF c, of "drop k"] that by simp
  show "is_rest (CSV_openFile content) = skip_bom content"
    unfolding o skip_bom_def t Let_def using len d by (auto simp: fs_rest_def c [symmetric])
qed

section \<open>Binary rows are read back\<close>

lemma is_eof_rest:
  "is_ok input \<Longrightarrow> \<exists>input'. is_eof input = (is_rest input = [], input') \<and> is_ok input' \<and> is_rest input' = is_rest input"
proof (cases input)
  case (FileIS f)
  moreover assume "is_ok input"
  ultimately have ok: "fs_ok f" by simp
  define s where "s = (if fs_pos f \<ge> length (fs_buf f) then snd (FileInputStream_readNextChunk f) else f)"
  have "fs_ok s" "fs_rest s = fs_rest f" "fs_pos s < length (fs_buf s) \<longleftrightarrow> fs_rest f \<noteq> []"
    using fs_readNextChunk [OF _ ok] ok
    by (cases "fs_pos f \<ge> length (fs_buf f)"; auto simp: s_def fs_rest_def)+
  then show ?thesis using FileIS
    by (simp add: FileInputStream_eof_def Let_def flip: s_def) (auto simp: not_less)
qed (auto simp: ms_eof_def ms_rest_def)

lemma binary_row_bytes:
  "BinaryCSV_appendRow row out =
     out @ varuint_bytes (word_of_nat (length row)) @
     concat (map (\<lambda>x. varuint_bytes (word_of_nat (length x)) @ x) row)"
proof -
  have "fold os_appendLenencString row out =
      out @ concat (map (\<lambda>x. varuint_bytes (word_of_nat (length x)) @ x) row)" for out
    by (induction row arbitrary: out) (simp_all add: os_appendLenencString_def os_appendVarUInt_def os_write_def)
  then show ?thesis by (simp add: BinaryCSV_appendRow_def os_appendVarUInt_def os_write_def)
qed

lemma varuint_not_empty: "varuint_bytes v \<noteq> []"
  by (subst varuint_bytes.simps) (simp add: Let_def)

lemma binary_row_roundtrip:
  assumes "length row < 2 ^ 64" and "\<forall>x \<in> set row. length x < 2 ^ 64"
    and ok: "is_ok input" and rest: "is_rest input = BinaryCSV_appendRow row [] @ s"
  shows "\<exists>input'. BinaryCSV_readNextRow input = Inr (Some row, input') \<and> is_ok input' \<and> is_rest input' = s"
proof -
  from is_eof_rest [OF ok] obtain input1 where
    e: "is_eof input = (False, input1)" "is_ok input1" "is_rest input1 = BinaryCSV_appendRow row [] @ s"
    using rest varuint_not_empty by (fastforce simp: binary_row_bytes)
  have u: "unat (word_of_nat (length row) :: u64) = length row" using assms(1) by (simp add: unat_of_nat)
  have "is_reads (act_repeat (length row) is_readLenencString)
      (concat (map (\<lambda>x. varuint_bytes (word_of_nat (length x)) @ x) row)) (map (\<lambda>x. x) row)"
    by (rule reads_from_repeat) (use assms(2) in \<open>simp add: is_reads_ops\<close>)
  then have "is_reads (act_bind is_readVarUInt (\<lambda>n. act_bind (act_repeat (unat n) is_readLenencString) (\<lambda>row. act_return (Some row))))
      (varuint_bytes (word_of_nat (length row)) @ concat (map (\<lambda>x. varuint_bytes (word_of_nat (length x)) @ x) row)) (Some row)"
    using reads_from_bind_return [of is_ok is_rest "act_repeat (length row) is_readLenencString" _ row Some]
    by (intro reads_from_bind [OF is_reads_ops(3)]) (simp add: u)
  from reads_fromD [OF this e(2), of s] e(3) obtain input' where
    "act_bind is_readVarUInt (\<lambda>n. act_bind (act_repeat (unat n) is_readLenencString) (\<lambda>row. act_return (Some row))) input1 = Inr (Some row, input')"
    "is_ok input'" "is_rest input' = s" by (auto simp: binary_row_bytes)
  then show ?thesis by (simp add: BinaryCSV_readNextRow_def e(1))
qed

end
