(* ===== verification/CS_StringUtil.thy ===== *)
theory CS_StringUtil
  imports CS_Convert "HOL-Library.List_Lexorder"
begin

text \<open>
  The string routines of libstx (\<open>stx/stringutil.cc\<close>). Strings are lists of bytes in ASCII;
  the character classes and the case mapping are those of the C locale. \<open>None\<close> is a call that
  does not return.
\<close>

section \<open>Searching\<close>

text \<open>
  \<open>str_find str pattern pos\<close> is \<open>str.find(pattern, pos)\<close> of the standard library, \<open>None\<close> for
  \<open>npos\<close>.
\<close>

fun str_search :: "bytes \<Rightarrow> bytes \<Rightarrow> nat option" where
  "str_search pattern [] = (if pattern = [] then Some 0 else None)"
| "str_search pattern (c # s) =
     (if take (length pattern) (c # s) = pattern then Some 0
      else map_option Suc (str_search pattern s))"

definition str_find :: "bytes \<Rightarrow> bytes \<Rightarrow> nat \<Rightarrow> nat option" where
  "str_find str pattern pos =
     (if pos > length str then None else map_option (\<lambda>i. pos + i) (str_search pattern (drop pos str)))"

definition StringUtil_includes :: "bytes \<Rightarrow> bytes \<Rightarrow> bool" where
  "StringUtil_includes str subject \<longleftrightarrow> str_find str subject 0 \<noteq> None"

definition beginsWith :: "bytes \<Rightarrow> bytes \<Rightarrow> bool" where
  "beginsWith str pre \<longleftrightarrow> \<not> length str < length pre \<and> take (length pre) str = pre"

definition endsWith :: "bytes \<Rightarrow> bytes \<Rightarrow> bool" where
  "endsWith str suf \<longleftrightarrow> \<not> length str < length suf \<and> drop (length str - length suf) str = suf"

text \<open>\<open>find\<close> and \<open>findLast\<close> return \<open>(size_t) -1\<close> when the character does not occur.\<close>

fun find_char :: "nat \<Rightarrow> bytes \<Rightarrow> byte \<Rightarrow> u64" where
  "find_char i [] chr = - 1"
| "find_char i (c # s) chr = (if c = chr then word_of_nat i else find_char (Suc i) s chr)"

definition StringUtil_find :: "bytes \<Rightarrow> byte \<Rightarrow> u64" where
  "StringUtil_find str chr = find_char 0 str chr"

fun find_last :: "bytes \<Rightarrow> byte \<Rightarrow> nat \<Rightarrow> u64" where
  "find_last str chr 0 = - 1"
| "find_last str chr (Suc i) = (if str ! i = chr then word_of_nat i else find_last str chr i)"

definition StringUtil_findLast :: "bytes \<Rightarrow> byte \<Rightarrow> u64" where
  "StringUtil_findLast str chr = find_last str chr (length str)"

text \<open>The three-way comparison of two buffers.\<close>

fun StringUtil_compare :: "bytes \<Rightarrow> bytes \<Rightarrow> int" where
  "StringUtil_compare (a # s1) (b # s2) =
     (if a \<noteq> b then (if a < b then - 1 else 1) else StringUtil_compare s1 s2)"
| "StringUtil_compare (a # s1) [] = 1"
| "StringUtil_compare [] (b # s2) = - 1"
| "StringUtil_compare [] [] = 0"

section \<open>Character classes\<close>

definition isDigitString :: "bytes \<Rightarrow> bool" where
  "isDigitString str \<longleftrightarrow> list_all is_digit str"

text \<open>
  \<open>isNumber\<close> runs three loops one after the other: the first returns at any character that is
  not a digit, so the separator and the digits behind it are only looked at when the input is
  used up.
\<close>

fun skip_digits :: "bytes \<Rightarrow> bytes option" where
  "skip_digits [] = Some []"
| "skip_digits (c # cur) = (if is_digit c then skip_digits cur else None)"

definition isNumber :: "bytes \<Rightarrow> bool" where
  "isNumber str =
     (let cur = (case str of c # s \<Rightarrow> if c = 45 then s else str | [] \<Rightarrow> str)
      in case skip_digits cur of
           None \<Rightarrow> False
         | Some cur \<Rightarrow>
             (let cur = (case cur of c # s \<Rightarrow> if c = 46 \<or> c = 44 then s else cur | [] \<Rightarrow> cur)
              in skip_digits cur \<noteq> None))"

definition is_upper :: "byte \<Rightarrow> bool" where "is_upper c \<longleftrightarrow> 65 \<le> unat c \<and> unat c \<le> 90"
definition is_lower :: "byte \<Rightarrow> bool" where "is_lower c \<longleftrightarrow> 97 \<le> unat c \<and> unat c \<le> 122"

definition isHexString :: "bytes \<Rightarrow> bool" where
  "isHexString str \<longleftrightarrow> list_all (\<lambda>c. is_digit c \<or> (97 \<le> unat c \<and> unat c \<le> 102) \<or> (65 \<le> unat c \<and> unat c \<le> 70)) str"

definition isAlphanumeric_char :: "byte \<Rightarrow> bool" where
  "isAlphanumeric_char c \<longleftrightarrow> is_digit c \<or> is_lower c \<or> is_upper c"

definition isAlphanumeric :: "bytes \<Rightarrow> bool" where
  "isAlphanumeric str \<longleftrightarrow> list_all isAlphanumeric_char str"

definition isShellSafe_char :: "byte \<Rightarrow> bool" where
  "isShellSafe_char c \<longleftrightarrow> is_digit c \<or> is_lower c \<or> is_upper c \<or> c = 95 \<or> c = 45 \<or> c = 46"

definition isShellSafe :: "bytes \<Rightarrow> bool" where
  "isShellSafe str \<longleftrightarrow> list_all isShellSafe_char str"

definition stripShell :: "bytes \<Rightarrow> bytes" where
  "stripShell str = filter (\<lambda>c. isAlphanumeric_char c \<or> c = 95 \<or> c = 45 \<or> c = 46) str"

definition tolower :: "byte \<Rightarrow> byte" where
  "tolower c = (if is_upper c then c + 32 else c)"

definition toupper :: "byte \<Rightarrow> byte" where
  "toupper c = (if is_lower c then c - 32 else c)"

definition toLower :: "bytes \<Rightarrow> bytes" where "toLower str = map tolower str"
definition toUpper :: "bytes \<Rightarrow> bytes" where "toUpper str = map toupper str"

definition includesi :: "bytes \<Rightarrow> bytes \<Rightarrow> bool" where
  "includesi str subject \<longleftrightarrow> StringUtil_includes (toLower str) (toLower subject)"

section \<open>Splitting, joining, replacing\<close>

text \<open>\<open>back()\<close> of an empty string is undefined: the loop has no test for it.\<close>

fun strip_slashes_rev :: "bytes \<Rightarrow> bytes res" where
  "strip_slashes_rev [] = Inl Undefined"
| "strip_slashes_rev (c # s) = (if c = 47 then strip_slashes_rev s else Inr (rev (c # s)))"

definition stripTrailingSlashes :: "bytes \<Rightarrow> bytes res" where
  "stripTrailingSlashes str = strip_slashes_rev (rev str)"

partial_function (option) split_loop :: "bytes \<Rightarrow> bytes \<Rightarrow> nat \<Rightarrow> bytes list \<Rightarrow> bytes list option" where
  "split_loop str pattern begin parts =
     (case str_find str pattern begin of
        None \<Rightarrow> Some (parts @ [drop begin str])
      | Some end_ \<Rightarrow>
          split_loop str pattern (end_ + length pattern) (parts @ [take (end_ - begin) (drop begin str)]))"

definition StringUtil_split :: "bytes \<Rightarrow> bytes \<Rightarrow> bytes list option" where
  "StringUtil_split str pattern = split_loop str pattern 0 []"

fun StringUtil_join :: "bytes list \<Rightarrow> bytes \<Rightarrow> bytes" where
  "StringUtil_join [] sep = []"
| "StringUtil_join [x] sep = x"
| "StringUtil_join (x # xs) sep = x @ sep @ StringUtil_join xs sep"

text \<open>
  The position \<open>cur\<close> is an \<open>int\<close>: what happens for a match at or behind \<open>2 ^ 31\<close> is up to the
  implementation.
\<close>

partial_function (option) replace_loop :: "bytes \<Rightarrow> bytes \<Rightarrow> bytes \<Rightarrow> nat \<Rightarrow> bytes res option" where
  "replace_loop str pattern replacement cur =
     (case str_find str pattern cur of
        None \<Rightarrow> Some (Inr str)
      | Some i \<Rightarrow>
          if i + length replacement \<ge> 2 ^ 31 then Some (Inl Undefined)
          else replace_loop (take i str @ replacement @ drop (i + length pattern) str) pattern replacement
                 (i + length replacement))"

definition replaceAll :: "bytes \<Rightarrow> bytes \<Rightarrow> bytes \<Rightarrow> bytes res option" where
  "replaceAll str pattern replacement =
     (if length str = 0 then Some (Inr str) else replace_loop str pattern replacement 0)"

text \<open>\<open>formatv\<close> replaces \<open>$0\<close>, \<open>$1\<close> and so on, one after the other, in the whole text.\<close>

fun format_values :: "nat \<Rightarrow> bytes list \<Rightarrow> bytes \<Rightarrow> bytes res option" where
  "format_values i [] str = Some (Inr str)"
| "format_values i (v # values) str =
     (case replaceAll str (36 # digits i) v of
        None \<Rightarrow> None
      | Some (Inl e) \<Rightarrow> Some (Inl e)
      | Some (Inr str) \<Rightarrow> format_values (Suc i) values str)"

definition StringUtil_formatv :: "bytes \<Rightarrow> bytes list \<Rightarrow> bytes res option" where
  "StringUtil_formatv fmt values = format_values 0 values fmt"

section \<open>Splitting against a reference\<close>

lemma str_search_Some:
  "str_search p s = Some i \<Longrightarrow> s = take i s @ p @ drop (i + length p) s"
proof (induction s arbitrary: i)
  case (Cons c s)
  show ?case
  proof (cases "take (length p) (c # s) = p")
    case True
    with Cons.prems have "i = 0" by simp
    then show ?thesis using True append_take_drop_id [of "length p" "c # s"] by simp
  next
    case False
    with Cons.prems obtain j where "i = Suc j" "str_search p s = Some j" by auto
    with Cons.IH show ?thesis by simp
  qed
qed (simp split: if_splits)

lemma str_search_length: "str_search p s = Some i \<Longrightarrow> i + length p \<le> length s"
proof (induction s arbitrary: i)
  case (Cons c s)
  show ?case
  proof (cases "take (length p) (c # s) = p")
    case True
    then have "length p \<le> length (c # s)" by (metis length_take min.cobounded1)
    then show ?thesis using Cons.prems True by simp
  next
    case False
    with Cons.prems obtain j where "i = Suc j" "str_search p s = Some j" by auto
    with Cons.IH show ?thesis by simp
  qed
qed (simp split: if_splits)

text \<open>
  The reference cuts the text at the first occurrence of the pattern and goes on behind it.
\<close>

function split_ref :: "bytes \<Rightarrow> bytes \<Rightarrow> bytes list" where
  "split_ref pattern s =
     (case str_search pattern s of
        None \<Rightarrow> [s]
      | Some i \<Rightarrow> if pattern = [] then [s] else take i s # split_ref pattern (drop (i + length pattern) s))"
  by pat_completeness auto

termination
proof (relation "measure (length \<circ> snd)", simp, goal_cases)
  case (1 p s i)
  then show ?case using str_search_length [of p s i] by (cases p) auto
qed

declare split_ref.simps [simp del]

lemma split_ref_simps:
  "str_search p s = None \<Longrightarrow> split_ref p s = [s]"
  "str_search p s = Some i \<Longrightarrow> p \<noteq> [] \<Longrightarrow> split_ref p s = take i s # split_ref p (drop (i + length p) s)"
  by (simp_all add: split_ref.simps [of p s])

lemma split_ref_ne [simp]: "split_ref p s \<noteq> []"
  by (subst split_ref.simps) (simp split: option.split)

lemma StringUtil_join_Cons: "xs \<noteq> [] \<Longrightarrow> StringUtil_join (x # xs) sep = x @ sep @ StringUtil_join xs sep"
  by (cases xs) simp_all

lemma split_loop_ref:
  "p \<noteq> [] \<Longrightarrow> b \<le> length str \<Longrightarrow>
     split_loop str p b parts = Some (parts @ split_ref p (drop b str))"
proof (induction "length str - b" arbitrary: b parts rule: less_induct)
  case less
  show ?case
  proof (cases "str_search p (drop b str)")
    case None
    then show ?thesis using less.prems by (simp add: split_loop.simps [of str] str_find_def split_ref_simps)
  next
    case (Some i)
    let ?e = "b + i + length p"
    have e: "?e \<le> length str" using str_search_length [OF Some] less.prems by simp
    moreover have "0 < length p" using less.prems by simp
    ultimately have "length str - ?e < length str - b" by linarith
    then have ih: "split_loop str p ?e ps = Some (ps @ split_ref p (drop ?e str))" for ps
      using less.hyps e less.prems(1) by blast
    have "drop ?e str = drop (i + length p) (drop b str)" by (simp add: add.commute add.left_commute)
    then show ?thesis using less.prems Some
      by (subst split_loop.simps) (simp add: str_find_def ih [simplified add.assoc] split_ref_simps add.commute add.left_commute)
  qed
qed

lemma split_reference: "p \<noteq> [] \<Longrightarrow> StringUtil_split s p = Some (split_ref p s)"
  by (simp add: StringUtil_split_def split_loop_ref)

lemma join_split_ref: "StringUtil_join (split_ref p s) p = s"
proof (induction p s rule: split_ref.induct)
  case (1 p s)
  show ?case
  proof (cases "str_search p s = None \<or> p = []")
    case True
    then show ?thesis by (subst split_ref.simps) (auto split: option.split)
  next
    case False
    then obtain i where i: "str_search p s = Some i" "p \<noteq> []" by auto
    then show ?thesis using 1 str_search_Some [OF i(1)] by (simp add: split_ref_simps StringUtil_join_Cons)
  qed
qed

text \<open>A replacement is the text split at the pattern and joined with the replacement.\<close>

lemma replace_loop_ref:
  assumes "p \<noteq> []" and "length (d @ StringUtil_join (split_ref p s) r) < 2 ^ 31"
  shows "replace_loop (d @ s) p r (length d) = Some (Inr (d @ StringUtil_join (split_ref p s) r))"
  using assms
proof (induction p s arbitrary: d rule: split_ref.induct)
  case (1 p s)
  show ?case
  proof (cases "str_search p s")
    case None
    then show ?thesis by (simp add: replace_loop.simps [of "d @ s"] str_find_def split_ref_simps)
  next
    case (Some i)
    let ?d = "d @ take i s @ r" and ?s = "drop (i + length p) s"
    have i: "i \<le> length s" using str_search_length [OF Some] by simp
    have j: "StringUtil_join (split_ref p s) r = take i s @ r @ StringUtil_join (split_ref p ?s) r"
      using Some 1(2) by (simp add: split_ref_simps StringUtil_join_Cons)
    have "replace_loop (?d @ ?s) p r (length ?d) = Some (Inr (?d @ StringUtil_join (split_ref p ?s) r))"
      by (rule 1(1) [OF Some 1(2) 1(2)]) (use 1(3) j in simp)
    moreover have "length d + i + length r < 2 ^ 31" using 1(3) j i by simp
    ultimately show ?thesis using Some i
      by (simp add: replace_loop.simps [of "d @ s"] str_find_def j add.assoc)
  qed
qed

lemma replaceAll_reference:
  assumes "p \<noteq> []" and "length (StringUtil_join (split_ref p s) r) < 2 ^ 31"
  shows "replaceAll s p r = Some (Inr (StringUtil_join (split_ref p s) r))"
proof (cases "s = []")
  case True
  then have "str_search p s = None" using assms(1) by simp
  then show ?thesis using True by (simp add: replaceAll_def split_ref_simps)
next
  case False
  then show ?thesis using replace_loop_ref [of p "[]" s r] assms by (simp add: replaceAll_def)
qed

text \<open>With a separator of one character that no part contains, splitting undoes joining.\<close>

lemma str_search_char: "c \<notin> set x \<Longrightarrow> str_search [c] (x @ c # s) = Some (length x)"
  by (induction x) auto

lemma str_search_absent: "c \<notin> set x \<Longrightarrow> str_search [c] x = None"
  by (induction x) auto

lemma split_join_char:
  assumes "xs \<noteq> []" and "\<forall>x \<in> set xs. c \<notin> set x"
  shows "StringUtil_split (StringUtil_join xs [c]) [c] = Some xs"
proof -
  have "split_ref [c] (StringUtil_join xs [c]) = xs" using assms
  proof (induction xs)
    case (Cons x xs)
    show ?case
    proof (cases "xs = []")
      case True
      then show ?thesis using Cons.prems by (simp add: split_ref_simps str_search_absent)
    next
      case False
      then show ?thesis using Cons
        by (simp add: StringUtil_join_Cons split_ref_simps(2) [OF str_search_char])
    qed
  qed simp
  then show ?thesis by (simp add: split_reference)
qed

text \<open>Splitting at the empty pattern does not return.\<close>

lemma str_search_empty [simp]: "str_search [] s = Some 0"
  by (cases s) simp_all

lemma split_empty_pattern: "StringUtil_split s [] = None"
proof -
  have "False" if "split_loop s [] 0 ps = Some v" for s ps v
  proof -
    have "p = [] \<longrightarrow> b = 0 \<longrightarrow> False" if "split_loop s p b ps = Some v" for s p b ps v
      by (rule split_loop.raw_induct [of "\<lambda>s p b ps v. p = [] \<longrightarrow> b = 0 \<longrightarrow> False", OF _ that])
        (auto simp: str_find_def split: option.splits if_splits)
    with that show False by blast
  qed
  then show ?thesis unfolding StringUtil_split_def by (cases "split_loop s [] 0 []") auto
qed

section \<open>Numbers and comparison\<close>

lemma skip_digits_iff: "skip_digits s = (if isDigitString s then Some [] else None)"
  by (induction s) (auto simp: isDigitString_def)

lemma isNumber_iff: "isNumber s \<longleftrightarrow> isDigitString (if s \<noteq> [] \<and> hd s = 45 then tl s else s)"
  by (cases s) (auto simp: isNumber_def skip_digits_iff isDigitString_def)

lemma compare_lexord:
  "StringUtil_compare a b = (if a = b then 0 else if a < b then - 1 else 1)"
  by (induction a b rule: StringUtil_compare.induct) auto

lemma tolower_toupper: "tolower (toupper c) = tolower c"
  by (cases "is_lower c") (auto simp: tolower_def toupper_def is_upper_def is_lower_def unat_sub_if' unat_word_ariths)

end
