(* ===== verification/CS_Time.thy ===== *)
theory CS_Time
  imports CS_StringUtil "HOL-Library.Signed_Division"
begin

text \<open>
  Time in libstx: \<open>CivilTime\<close>, \<open>ISO8601\<close>, \<open>Duration\<close> and the conversion of a civil time to a
  timestamp, \<open>UnixTime(const CivilTime\&)\<close> (\<open>stx/CivilTime.cc\<close>, \<open>ISO8601.cc\<close>, \<open>duration_impl.h\<close>,
  \<open>UnixTime.cc\<close>). A \<open>UnixTime\<close> and a \<open>Duration\<close> are their 64-bit counts of microseconds.
\<close>

section \<open>Civil time\<close>

text \<open>The offset is an \<open>int32_t\<close>, kept as its word.\<close>

record CivilTime =
  ct_year :: u16
  ct_month :: byte
  ct_day :: byte
  ct_hour :: byte
  ct_minute :: byte
  ct_second :: byte
  ct_millisecond :: u16
  ct_offset :: u32

definition CivilTime_null :: CivilTime where
  "CivilTime_null = \<lparr>ct_year = 0, ct_month = 0, ct_day = 0, ct_hour = 0, ct_minute = 0, ct_second = 0,
     ct_millisecond = 0, ct_offset = 0\<rparr>"

definition isLeapYear :: "u16 \<Rightarrow> bool" where
  "isLeapYear year \<longleftrightarrow> (year mod 4 = 0 \<and> year mod 100 \<noteq> 0) \<or> year mod 400 = 0"

definition daysInMonth :: "u16 \<Rightarrow> byte \<Rightarrow> byte" where
  "daysInMonth year month =
     (if month = 2 then 28 + (if isLeapYear year then 1 else 0)
      else word_of_int (31 - (uint month - 1) smod 7 smod 2))"

section \<open>Parsing ISO 8601\<close>

text \<open>
  The parser walks over the characters of a string that ends with a \<open>NUL\<close>; \<open>char_at\<close> is the
  character at a pointer and \<open>char_range\<close> the string copied from a range, which are undefined
  behind the \<open>NUL\<close>.
\<close>

definition char_at :: "bytes \<Rightarrow> nat \<Rightarrow> byte res" where
  "char_at str i = (if i < length str then Inr (str ! i) else if i = length str then Inr 0 else Inl Undefined)"

definition char_range :: "bytes \<Rightarrow> nat \<Rightarrow> nat \<Rightarrow> bytes res" where
  "char_range str i n = (if i + n \<le> length str + 1 then Inr (take n (drop i (str @ [0]))) else Inl Undefined)"

fun isDigitString_at :: "bytes \<Rightarrow> nat \<Rightarrow> nat \<Rightarrow> bool res" where
  "isDigitString_at str i 0 = Inr True"
| "isDigitString_at str i (Suc n) =
     res_bind (char_at str i) (\<lambda>c. if is_digit c then isDigitString_at str (Suc i) n else Inr False)"

definition stoi :: "bytes \<Rightarrow> int res" where
  "stoi s =
     (case strtol_parse s of
        None \<Rightarrow> Inl StdInvalidArgument
      | Some (neg, n) \<Rightarrow>
          (if n > (if neg then 2 ^ 31 else 2 ^ 31 - 1) then Inl StdOutOfRange
           else Inr (if neg then - int n else int n)))"

text \<open>
  A field is a run of \<open>n\<close> digits whose value is in bounds; an exception of \<open>stoi\<close> is caught.
  The digits are tested in place (\<open>ptr_field\<close>) or in a copy of the range (\<open>copy_field\<close>).
\<close>

definition int_field :: "bytes \<Rightarrow> int \<Rightarrow> int \<Rightarrow> int option" where
  "int_field s lo hi =
     (case stoi s of Inl e \<Rightarrow> None | Inr v \<Rightarrow> if lo \<le> v \<and> v \<le> hi then Some v else None)"

definition ptr_field :: "bytes \<Rightarrow> nat \<Rightarrow> nat \<Rightarrow> int \<Rightarrow> int \<Rightarrow> int option res" where
  "ptr_field str i n lo hi =
     res_bind (isDigitString_at str i n) (\<lambda>ok.
       if \<not> ok then Inr None else res_bind (char_range str i n) (\<lambda>s. Inr (int_field s lo hi)))"

definition copy_field :: "bytes \<Rightarrow> nat \<Rightarrow> nat \<Rightarrow> int \<Rightarrow> int \<Rightarrow> int option res" where
  "copy_field str i n lo hi =
     res_bind (char_range str i n) (\<lambda>s. Inr (if isDigitString s then int_field s lo hi else None))"

type_synonym date_parser = "bytes \<Rightarrow> nat \<Rightarrow> CivilTime \<Rightarrow> (bool \<times> CivilTime) res"

definition parseTimeOffset :: date_parser where
  "parseTimeOffset str i date =
     res_bind (char_at str i) (\<lambda>c.
       if i + 1 = length str \<and> (c = 122 \<or> c = 90) then Inr (True, date\<lparr>ct_offset := 0\<rparr>)
       else if c \<noteq> 43 \<and> c \<noteq> 45 then Inr (False, date)
       else if i + 3 > length str then Inr (False, date)
       else res_bind (ptr_field str (i + 1) 2 0 24) (\<lambda>hour.
         case hour of
           None \<Rightarrow> Inr (False, date)
         | Some hour \<Rightarrow>
             if i + 6 > length str then Inr (False, date)
             else res_bind (char_at str (i + 3)) (\<lambda>colon.
               if colon \<noteq> 58 then Inr (False, date)
               else res_bind (ptr_field str (i + 4) 2 0 59) (\<lambda>minute.
                 case minute of
                   None \<Rightarrow> Inr (False, date)
                 | Some minute \<Rightarrow>
                     Inr (True, date\<lparr>ct_offset :=
                       word_of_int ((if c = 43 then 1 else - 1) * (hour * 3600 + minute * 60))\<rparr>)))))"

text \<open>
  \<open>frac_len\<close> counts digits; there is a character that is no digit, the \<open>NUL\<close>, at the end at
  the latest.
\<close>

definition parseSecondFrac :: date_parser where
  "parseSecondFrac str i date =
     (if i + 1 > length str then Inr (False, date)
      else res_bind (char_at str i) (\<lambda>c.
        if c \<noteq> 46 then Inr (False, date)
        else
          (let frac = takeWhile is_digit (drop (i + 1) str)
           in if length frac < 1 \<or> length frac > 3 then Inr (False, date)
              else case strtol_parse frac of
                     None \<Rightarrow> Inr (False, date)
                   | Some (_, millis) \<Rightarrow>
                       parseTimeOffset str (i + 1 + length frac)
                         (date\<lparr>ct_millisecond := word_of_nat (millis * 10 ^ (3 - length frac))\<rparr>))))"

definition parseSecond :: date_parser where
  "parseSecond str i date =
     (if i + 1 > length str then Inr (False, date)
      else res_bind (char_at str i) (\<lambda>c.
        if c \<noteq> 58 then Inr (False, date)
        else res_bind (ptr_field str (i + 1) 2 0 59) (\<lambda>second.
          case second of
            None \<Rightarrow> Inr (False, date)
          | Some second \<Rightarrow>
              res_bind (parseSecondFrac str (i + 3) (date\<lparr>ct_second := word_of_int second\<rparr>)) (\<lambda>(ok, date).
                if ok then Inr (True, date) else parseTimeOffset str (i + 3) date))))"

definition parseMinute :: date_parser where
  "parseMinute str i date =
     (if i + 1 > length str then Inr (False, date)
      else res_bind (char_at str i) (\<lambda>c.
        if c \<noteq> 58 then Inr (False, date)
        else res_bind (ptr_field str (i + 1) 2 0 59) (\<lambda>minute.
          case minute of
            None \<Rightarrow> Inr (False, date)
          | Some minute \<Rightarrow> parseSecond str (i + 3) (date\<lparr>ct_minute := word_of_int minute\<rparr>))))"

definition parseHour :: date_parser where
  "parseHour str i date =
     (if i + 1 > length str then Inr (False, date)
      else res_bind (char_at str i) (\<lambda>c.
        if c \<noteq> 84 \<and> c \<noteq> 116 then Inr (False, date)
        else res_bind (ptr_field str (i + 1) 2 0 24) (\<lambda>hour.
          case hour of
            None \<Rightarrow> Inr (False, date)
          | Some hour \<Rightarrow> parseMinute str (i + 3) (date\<lparr>ct_hour := word_of_int hour\<rparr>))))"

text \<open>The day is tested against \<open>daysInMonth(date->year(), day)\<close>: the month is not passed.\<close>

definition parseDay :: date_parser where
  "parseDay str i date =
     (if i + 1 > length str then Inr (False, date)
      else res_bind (char_at str i) (\<lambda>c.
        if c \<noteq> 45 then Inr (False, date)
        else res_bind (copy_field str (i + 1) 2 0 (2 ^ 31)) (\<lambda>day.
          case day of
            None \<Rightarrow> Inr (False, date)
          | Some day \<Rightarrow>
              if \<not> (day > 0 \<and> day \<le> uint (daysInMonth (ct_year date) (word_of_int day))) then Inr (False, date)
              else (let date = date\<lparr>ct_day := word_of_int day\<rparr>
                    in if i + 3 < length str then parseHour str (i + 3) date else Inr (True, date)))))"

definition parseMonth :: date_parser where
  "parseMonth str i date =
     (if i + 3 > length str then Inr (False, date)
      else res_bind (char_at str i) (\<lambda>c.
        if c \<noteq> 45 then Inr (False, date)
        else res_bind (copy_field str (i + 1) 2 1 12) (\<lambda>month.
          case month of
            None \<Rightarrow> Inr (False, date)
          | Some month \<Rightarrow>
              (let date = date\<lparr>ct_month := word_of_int month\<rparr>
               in if i + 3 < length str then parseDay str (i + 3) date else Inr (True, date)))))"

definition parseYear :: date_parser where
  "parseYear str i date =
     (if i + 4 > length str then Inr (False, date)
      else res_bind (copy_field str i 4 0 (2 ^ 31)) (\<lambda>year.
        case year of
          None \<Rightarrow> Inr (False, date)
        | Some year \<Rightarrow>
            (let date = date\<lparr>ct_year := word_of_int year\<rparr>
             in if i + 4 < length str then parseMonth str (i + 4) date else Inr (True, date))))"

definition ISO8601_parse :: "bytes \<Rightarrow> CivilTime option res" where
  "ISO8601_parse str =
     res_bind (parseYear str 0 CivilTime_null) (\<lambda>(ok, date). Inr (if ok then Some date else None))"

section \<open>Timestamps\<close>

definition kMicrosPerSecond :: u64 where "kMicrosPerSecond = 1000000"
definition kMicrosPerMinute :: u64 where "kMicrosPerMinute = 60 * kMicrosPerSecond"
definition kMicrosPerHour :: u64 where "kMicrosPerHour = 60 * 60 * kMicrosPerSecond"
definition kMicrosPerDay :: u64 where "kMicrosPerDay = 60 * 60 * 24 * kMicrosPerSecond"
definition kMicrosPerWeek :: u64 where "kMicrosPerWeek = 60 * 60 * 24 * 7 * kMicrosPerSecond"
definition kMicrosPerYear :: u64 where "kMicrosPerYear = 365 * kMicrosPerDay"

definition add_year :: "nat \<Rightarrow> u64 \<Rightarrow> u64" where
  "add_year i days = days + (365 + (if isLeapYear (word_of_nat i) then 1 else 0))"

definition add_month :: "u16 \<Rightarrow> nat \<Rightarrow> u64 \<Rightarrow> u64" where
  "add_month year i days = days + ucast (daysInMonth year (word_of_nat i))"

definition UnixTime_civil :: "CivilTime \<Rightarrow> u64" where
  "UnixTime_civil civil =
     (let days = (word_of_int (uint (ct_day civil) - 1) :: u64);
          days = fold add_year [1970..<unat (ct_year civil)] days;
          days = fold (add_month (ct_year civil)) [1..<unat (ct_month civil)] days
      in days * kMicrosPerDay +
         ucast (ct_hour civil) * kMicrosPerHour +
         ucast (ct_minute civil) * kMicrosPerMinute +
         ucast (ct_second civil) * kMicrosPerSecond +
         word_of_nat (unat (ct_millisecond civil) * 1000) +
         scast (ct_offset civil) * kMicrosPerSecond * - 1)"

section \<open>Durations\<close>

text \<open>A \<open>timeval\<close> and a \<open>timespec\<close> are their seconds and their micro- or nanoseconds.\<close>

definition Duration_timeval :: "u64 \<times> u64 \<Rightarrow> u64" where
  "Duration_timeval value = fst value + snd value * kMicrosPerSecond"

definition Duration_timespec :: "u64 \<times> u64 \<Rightarrow> u64" where
  "Duration_timespec value = fst value + snd value * kMicrosPerSecond div 1000"

definition timeval_of :: "u64 \<Rightarrow> u64 \<times> u64" where
  "timeval_of micros = (micros div kMicrosPerSecond, micros mod kMicrosPerSecond)"

definition timespec_of :: "u64 \<Rightarrow> u64 \<times> u64" where
  "timespec_of micros = (micros div kMicrosPerSecond, micros mod kMicrosPerSecond * 1000)"

definition Duration_milliseconds :: "u64 \<Rightarrow> u64" where "Duration_milliseconds d = d div 1000"
definition Duration_seconds :: "u64 \<Rightarrow> u64" where "Duration_seconds d = d div kMicrosPerSecond"
definition Duration_minutes :: "u64 \<Rightarrow> u64" where "Duration_minutes d = Duration_seconds d div 60"
definition Duration_hours :: "u64 \<Rightarrow> u64" where "Duration_hours d = Duration_minutes d div 60"
definition Duration_days :: "u64 \<Rightarrow> u64" where "Duration_days d = Duration_hours d div 24"

definition fromDays :: "u64 \<Rightarrow> u64" where "fromDays v = v * kMicrosPerSecond * (60 * 60 * 24)"
definition fromHours :: "u64 \<Rightarrow> u64" where "fromHours v = v * kMicrosPerSecond * (60 * 60)"
definition fromMinutes :: "u64 \<Rightarrow> u64" where "fromMinutes v = v * kMicrosPerSecond * 60"
definition fromSeconds :: "u64 \<Rightarrow> u64" where "fromSeconds v = v * kMicrosPerSecond"
definition fromMilliseconds :: "u64 \<Rightarrow> u64" where "fromMilliseconds v = v * 1000"
definition fromNanoseconds :: "u64 \<Rightarrow> u64" where "fromNanoseconds v = v div 1000"

text \<open>The difference of two timestamps has no sign.\<close>

definition UnixTime_diff :: "u64 \<Rightarrow> u64 \<Rightarrow> u64" where
  "UnixTime_diff a b = (if a > b then a - b else b - a)"

definition UnixTime_plus :: "u64 \<Rightarrow> u64 \<Rightarrow> u64" where "UnixTime_plus t d = t + d"
definition UnixTime_minus :: "u64 \<Rightarrow> u64 \<Rightarrow> u64" where "UnixTime_minus t d = t - d"

section \<open>The calendar in closed form\<close>

definition leap_year :: "nat \<Rightarrow> bool" where
  "leap_year y \<longleftrightarrow> (y mod 4 = 0 \<and> y mod 100 \<noteq> 0) \<or> y mod 400 = 0"

text \<open>Days from 1 January 1970 to 1 January of a year, and to the first of a month in the year.\<close>

definition days_before_year :: "nat \<Rightarrow> int" where
  "days_before_year y =
     365 * (int y - 1970) + (int y - 1) div 4 - (int y - 1) div 100 + (int y - 1) div 400 - 477"

definition days_before_month :: "nat \<Rightarrow> nat \<Rightarrow> int" where
  "days_before_month y m =
     [0, 31, 59, 90, 120, 151, 181, 212, 243, 273, 304, 334] ! (m - 1) + (if leap_year y \<and> m > 2 then 1 else 0)"

definition civil_micros :: "CivilTime \<Rightarrow> int" where
  "civil_micros c =
     (let days = days_before_year (unat (ct_year c)) + days_before_month (unat (ct_year c)) (unat (ct_month c)) +
                 int (unat (ct_day c)) - 1
      in ((days * 24 + int (unat (ct_hour c))) * 60 + int (unat (ct_minute c))) * 60 * 1000000 +
         (int (unat (ct_second c)) - sint (ct_offset c)) * 1000000 + int (unat (ct_millisecond c)) * 1000)"

lemma isLeapYear_nat: "y < 65536 \<Longrightarrow> isLeapYear (word_of_nat y) \<longleftrightarrow> leap_year y"
  by (simp add: isLeapYear_def leap_year_def word_unat_eq_iff unat_mod unat_of_nat)

lemma div_pred:
  assumes "0 < d"
  shows "int y div d = (int y - 1) div d + (if int y mod d = 0 then 1 else 0)"
proof -
  have y: "int y = d * (int y div d) + int y mod d" by simp
  show ?thesis
  proof (cases "int y mod d = 0")
    case True
    then have "int y - 1 = d * (int y div d - 1) + (d - 1)" using y by (simp add: right_diff_distrib)
    then have "(int y - 1) div d = int y div d - 1" by (rule int_div_pos_eq) (use assms in simp_all)
    with True show ?thesis by simp
  next
    case False
    then have "0 < int y mod d" using assms by (simp add: order_less_le)
    moreover have "int y mod d < d" using assms by simp
    moreover have "int y - 1 = d * (int y div d) + (int y mod d - 1)" using y by simp
    ultimately have "(int y - 1) div d = int y div d"
      using assms by (intro int_div_pos_eq [where r = "int y mod d - 1"]) linarith+
    with False show ?thesis by simp
  qed
qed

lemma leap_sum:
  fixes a b c :: int
  assumes "p100 \<Longrightarrow> p4" and "p400 \<Longrightarrow> p100"
  shows "a + (if p4 then 1 else 0) - (b + (if p100 then 1 else 0)) + (c + (if p400 then 1 else 0)) =
    a - b + c + (if (p4 \<and> \<not> p100) \<or> p400 then 1 else 0)"
  using assms by (cases p4; cases p100; cases p400) auto

lemma days_before_year_Suc:
  "days_before_year (Suc y) = days_before_year y + 365 + (if leap_year y then 1 else 0)"
proof -
  let ?a = "(int y - 1) div 4" and ?b = "(int y - 1) div 100" and ?c = "(int y - 1) div 400"
  have z: "int y mod 4 = int (y mod 4)" "int y mod 100 = int (y mod 100)" "int y mod 400 = int (y mod 400)"
    by (simp_all add: of_nat_mod)
  have iff: "int y mod 4 = 0 \<longleftrightarrow> y mod 4 = 0" "int y mod 100 = 0 \<longleftrightarrow> y mod 100 = 0"
    "int y mod 400 = 0 \<longleftrightarrow> y mod 400 = 0"
    unfolding z by (simp_all only: of_nat_eq_0_iff)
  have imp: "y mod 100 = 0 \<Longrightarrow> y mod 4 = 0" "y mod 400 = 0 \<Longrightarrow> y mod 100 = 0"
    using dvd_trans [of 4 100 y] dvd_trans [of 100 400 y] by (simp_all add: mod_eq_0_iff_dvd)
  have "int y div 4 - int y div 100 + int y div 400 = ?a - ?b + ?c + (if leap_year y then 1 else 0)"
    unfolding div_pred [of 4 y, simplified] div_pred [of 100 y, simplified] div_pred [of 400 y, simplified]
      iff leap_year_def
    by (rule leap_sum [OF imp])
  moreover have "int (Suc y) - 1970 = (int y - 1970) + 1" "int (Suc y) - 1 = int y" by simp_all
  ultimately show ?thesis unfolding days_before_year_def by (simp only: distrib_left)
qed

lemma fold_add_year:
  "y \<le> 65536 \<Longrightarrow> 1970 \<le> y \<Longrightarrow> fold add_year [1970..<y] days = days + word_of_int (days_before_year y)"
proof (induction y)
  case (Suc y)
  show ?case
  proof (cases "1970 \<le> y")
    case True
    then show ?thesis using Suc
      by (simp add: add_year_def isLeapYear_nat days_before_year_Suc)
  next
    case False
    then have "Suc y = 1970" using Suc.prems by simp
    then show ?thesis by (simp add: days_before_year_def)
  qed
qed simp

lemma daysInMonth_simps:
  "daysInMonth y 1 = 31" "daysInMonth y 2 = 28 + (if isLeapYear y then 1 else 0)" "daysInMonth y 3 = 31"
  "daysInMonth y 4 = 30" "daysInMonth y 5 = 31" "daysInMonth y 6 = 30" "daysInMonth y 7 = 31"
  "daysInMonth y 8 = 31" "daysInMonth y 9 = 30" "daysInMonth y 10 = 31" "daysInMonth y 11 = 30"
  "daysInMonth y 12 = 31"
  by (simp_all add: daysInMonth_def signed_modulo_int_def)

lemma fold_add_month:
  assumes "1 \<le> m" and "m \<le> 12"
  shows "fold (add_month y) [1..<m] days = days + word_of_int (days_before_month (unat y) m)"
proof -
  have ly: "leap_year (unat y) = isLeapYear y"
    using isLeapYear_nat [of "unat y"] unat_word_less(1) [of y] by simp
  have "m = 1 \<or> m = 2 \<or> m = 3 \<or> m = 4 \<or> m = 5 \<or> m = 6 \<or> m = 7 \<or> m = 8 \<or> m = 9 \<or> m = 10 \<or> m = 11 \<or> m = 12"
    using assms by presburger
  then show ?thesis
    by (elim disjE)
      (simp_all add: upt_rec days_before_month_def add_month_def daysInMonth_simps ly)
qed

text \<open>The conversion computes the civil time modulo \<open>2 ^ 64\<close>, and never wraps after the epoch.\<close>

lemma UnixTime_civil_micros:
  assumes "1970 \<le> ct_year c" and "1 \<le> ct_month c" and "ct_month c \<le> 12"
  shows "UnixTime_civil c = word_of_int (civil_micros c)"
proof -
  let ?y = "unat (ct_year c)" and ?m = "unat (ct_month c)"
  have y: "1970 \<le> ?y" "?y \<le> 65536" and m: "1 \<le> ?m" "?m \<le> 12"
    using assms unat_word_less(1) [of "ct_year c"] by (simp_all add: word_le_nat_alt)
  show ?thesis
    by (simp add: UnixTime_civil_def civil_micros_def fold_add_year [OF y(2,1)] fold_add_month [OF m, unfolded One_nat_def]
        kMicrosPerDay_def kMicrosPerHour_def kMicrosPerMinute_def kMicrosPerSecond_def Let_def
        algebra_simps)
qed

end
