(* ===== verification/CS_TimeText.thy ===== *)
theory CS_TimeText
  imports CS_Time
begin

text \<open>
  What \<open>ISO8601::parse\<close> reads: the fields of a timestamp text, which days it accepts, and the
  timestamps of the texts it reads.
\<close>

section \<open>Reading back a timestamp text\<close>

text \<open>The digits of a field of a fixed width.\<close>

definition digits2 :: "nat \<Rightarrow> bytes" where "digits2 n = [digit_char (n div 10), digit_char (n mod 10)]"
definition digits3 :: "nat \<Rightarrow> bytes" where
  "digits3 n = [digit_char (n div 100), digit_char (n div 10 mod 10), digit_char (n mod 10)]"
definition digits4 :: "nat \<Rightarrow> bytes" where
  "digits4 n = [digit_char (n div 1000), digit_char (n div 100 mod 10), digit_char (n div 10 mod 10), digit_char (n mod 10)]"

lemma is_digit_char: "n < 10 \<Longrightarrow> is_digit (digit_char n)"
  by (simp add: is_digit_def)

lemma is_space_digit: "is_digit c \<Longrightarrow> \<not> is_space c \<and> c \<noteq> 45 \<and> c \<noteq> 43"
  by (auto simp: is_digit_def is_space_def)

lemma strtol_digits:
  assumes "ds \<noteq> []" and "list_all is_digit ds"
  shows "strtol_parse ds = Some (False, digits_value ds)"
proof -
  from assms obtain c s where ds: "ds = c # s" "is_digit c" "list_all is_digit s" by (cases ds) auto
  then have "\<forall>x \<in> set s. is_digit x" by (simp add: list_all_iff)
  with ds show ?thesis using is_space_digit [of c]
    by (simp add: strtol_parse_def takeWhile_eq_all_conv [THEN iffD2])
qed

lemma decimal_parts:
  fixes n :: nat
  shows "10 * (n div 10) + n mod 10 = n" "n div 100 = n div 10 div 10" "n div 1000 = n div 100 div 10"
  by (simp_all add: div_mult2_eq [symmetric])

lemma digits_field:
  "n < 100 \<Longrightarrow> list_all is_digit (digits2 n)" "n < 100 \<Longrightarrow> digits_value (digits2 n) = n"
  "n < 1000 \<Longrightarrow> list_all is_digit (digits3 n)" "n < 1000 \<Longrightarrow> digits_value (digits3 n) = n"
  "n < 10000 \<Longrightarrow> list_all is_digit (digits4 n)" "n < 10000 \<Longrightarrow> digits_value (digits4 n) = n"
  by (simp_all add: digits2_def digits3_def digits4_def is_digit_char digits_value_def)
    (use decimal_parts(1) [of n] decimal_parts(1) [of "n div 10"] decimal_parts(1) [of "n div 100"] decimal_parts(2,3) [of n] in linarith)+

lemma stoi_digits:
  assumes "ds \<noteq> []" and "list_all is_digit ds" and "digits_value ds < 10000"
  shows "stoi ds = Inr (int (digits_value ds))"
  using assms by (simp add: stoi_def strtol_digits)

lemma isDigitString_at_take:
  "i + n \<le> length str \<Longrightarrow> isDigitString_at str i n = Inr (list_all is_digit (take n (drop i str)))"
proof (induction n arbitrary: i)
  case (Suc n)
  then have "drop i str = str ! i # drop (Suc i) str" by (simp add: Cons_nth_drop_Suc)
  with Suc show ?case by (simp add: char_at_def)
qed simp

lemma fields_digits2:
  assumes "i + 2 \<le> length str" and "take 2 (drop i str) = digits2 n" and "n < 100"
  shows "ptr_field str i 2 lo hi = Inr (if lo \<le> int n \<and> int n \<le> hi then Some (int n) else None)"
    and "copy_field str i 2 lo hi = Inr (if lo \<le> int n \<and> int n \<le> hi then Some (int n) else None)"
proof -
  have r: "char_range str i 2 = Inr (digits2 n)" using assms(1,2) by (simp add: char_range_def)
  have s: "stoi (digits2 n) = Inr (int n)"
    using stoi_digits [of "digits2 n"] digits_field(1,2) [of n] assms(3) by (simp add: digits2_def)
  show "ptr_field str i 2 lo hi = Inr (if lo \<le> int n \<and> int n \<le> hi then Some (int n) else None)"
    using digits_field(1) [OF assms(3)]
    by (simp add: ptr_field_def isDigitString_at_take [OF assms(1)] assms(2) r int_field_def s)
  show "copy_field str i 2 lo hi = Inr (if lo \<le> int n \<and> int n \<le> hi then Some (int n) else None)"
    using digits_field(1) [OF assms(3)]
    by (simp add: copy_field_def r isDigitString_def int_field_def s)
qed

lemma day_check:
  assumes "n < 100"
  shows "int n > 0 \<and> int n \<le> uint (daysInMonth y (word_of_int (int n))) \<longleftrightarrow> 1 \<le> n \<and> n \<le> 31"
proof -
  have "\<forall>n \<in> set [0..<100]. \<forall>leap. (int n > 0 \<and> int n \<le> uint (if word_of_int (int n) = (2 :: byte)
      then 28 + (if leap then 1 else 0) else word_of_int (31 - (uint (word_of_int (int n) :: byte) - 1) smod 7 smod 2) :: byte)) =
      (1 \<le> n \<and> n \<le> 31)"
    by code_simp
  then show ?thesis using assms unfolding daysInMonth_def by auto
qed

section \<open>Timestamps of texts\<close>

text \<open>
  The conversion does not wrap for times after the epoch: the timestamp is the number of
  microseconds.
\<close>

lemma micros_bound:
  fixes y m d h mi s ms off :: int
  assumes "- 2147483648 \<le> off" and "ms \<le> 65535" and "y \<le> 24000000" and "m \<le> 335"
    and "d \<le> 255" and "h \<le> 255" and "mi \<le> 255" and "s \<le> 255"
  shows "(((y + m + d - 1) * 24 + h) * 60 + mi) * 60 * 1000000 + (s - off) * 1000000 + ms * 1000 < 18446744073709551616"
  using assms by (simp add: algebra_simps)

lemma civil_micros_bound:
  assumes "1970 \<le> ct_year c" and "1 \<le> ct_month c" and "ct_month c \<le> 12"
  shows "civil_micros c < 2 ^ 64"
proof -
  have y: "int (unat (ct_year c)) \<le> 65535" using unat_word_less(1) [of "ct_year c"] by linarith
  have dy: "days_before_year (unat (ct_year c)) \<le> 24000000"
  proof -
    have "(int (unat (ct_year c)) - 1) div 4 \<le> 65534 div 4" "(int (unat (ct_year c)) - 1) div 400 \<le> 65534 div 400"
      using y by (intro zdiv_mono1; simp)+
    moreover have "0 \<le> (int (unat (ct_year c)) - 1) div 100"
      using assms(1) by (simp add: word_le_def pos_imp_zdiv_nonneg_iff)
    ultimately show ?thesis using y by (simp add: days_before_year_def)
  qed
  have "unat (ct_month c) - 1 < 12" using assms(3) by (simp add: word_le_nat_alt)
  then have "\<forall>i < 12. [0, 31, 59, 90, 120, 151, 181, 212, 243, 273, 304, 334] ! i \<le> (334 :: int) \<Longrightarrow>
      days_before_month (unat (ct_year c)) (unat (ct_month c)) \<le> 335"
    by (fastforce simp: days_before_month_def)
  moreover have "\<forall>i \<in> set [0..<12]. [0, 31, 59, 90, 120, 151, 181, 212, 243, 273, 304, 334] ! i \<le> (334 :: int)"
    by code_simp
  ultimately have dm: "days_before_month (unat (ct_year c)) (unat (ct_month c)) \<le> 335" by simp
  have b: "int (unat x) \<le> 255" for x :: byte using unat_byte_less [of x] by linarith
  have p: "(2 :: int) ^ 64 = 18446744073709551616" by simp
  have "- 2147483648 \<le> sint (ct_offset c)" using sint_greater_eq [of "ct_offset c"] by simp
  moreover have "int (unat (ct_millisecond c)) \<le> 65535"
    using unat_word_less(1) [of "ct_millisecond c"] by linarith
  ultimately show ?thesis
    unfolding civil_micros_def Let_def p using dy dm b by (intro micros_bound)
qed

lemma UnixTime_civil_exact:
  assumes "1970 \<le> ct_year c" and "1 \<le> ct_month c" and "ct_month c \<le> 12" and "0 \<le> civil_micros c"
  shows "uint (UnixTime_civil c) = civil_micros c"
  using UnixTime_civil_micros [OF assms(1-3)] civil_micros_bound [OF assms(1-3)] assms(4)
  by (simp add: uint_word_of_int take_bit_int_eq_self)

text \<open>
  A text that ends after the month leaves the day 0: its timestamp is that of the day before the
  month begins.
\<close>

lemma length_digits [simp]: "length (digits2 n) = 2" "length (digits3 n) = 3" "length (digits4 n) = 4"
  by (simp_all add: digits2_def digits3_def digits4_def)

lemma month_text_parsed:
  assumes "y < 10000" and "1 \<le> mo" and "mo \<le> 12"
  shows "ISO8601_parse (digits4 y @ 45 # digits2 mo) =
    Inr (Some (CivilTime_null\<lparr>ct_year := word_of_nat y, ct_month := word_of_nat mo\<rparr>))"
proof -
  let ?t = "digits4 y @ 45 # digits2 mo"
  have len: "length ?t = 7" by (simp add: digits2_def digits4_def)
  have parts: "take 4 ?t = digits4 y" "?t ! 4 = 45" "take 2 (drop 5 ?t) = digits2 mo"
    by (simp_all add: digits2_def digits4_def)
  have "copy_field ?t 0 4 0 (2 ^ 31) = Inr (Some (int y))"
    using parts(1) stoi_digits [of "digits4 y"] digits_field(5,6) [OF assms(1)] assms(1)
    by (simp add: copy_field_def char_range_def isDigitString_def int_field_def) (simp add: digits4_def digits2_def)
  moreover have "copy_field ?t 5 2 1 12 = Inr (Some (int mo))"
    using fields_digits2(2) [of 5 ?t mo 1 12] parts(3) assms len by simp
  ultimately show ?thesis
    using parts(2) by (simp add: ISO8601_parse_def parseYear_def parseMonth_def char_at_def)
qed

lemma day_zero:
  assumes "1970 \<le> ct_year c" and "1 \<le> ct_month c" and "ct_month c \<le> 12"
  shows "UnixTime_civil (c\<lparr>ct_day := 0\<rparr>) = UnixTime_civil (c\<lparr>ct_day := 1\<rparr>) - kMicrosPerDay"
proof -
  have "civil_micros (c\<lparr>ct_day := 0\<rparr>) = civil_micros (c\<lparr>ct_day := 1\<rparr>) - 86400000000"
    by (simp add: civil_micros_def Let_def)
  then show ?thesis
    using UnixTime_civil_micros [of "c\<lparr>ct_day := 0\<rparr>"] UnixTime_civil_micros [of "c\<lparr>ct_day := 1\<rparr>"] assms
    by (simp add: kMicrosPerDay_def kMicrosPerSecond_def)
qed

text \<open>Years before the epoch are taken for 1970.\<close>

lemma before_epoch:
  assumes "ct_year c < 1970" and "ct_month c \<le> 2"
  shows "UnixTime_civil c = UnixTime_civil (c\<lparr>ct_year := 1970\<rparr>)"
proof -
  have "unat (ct_year c) \<le> 1970" using assms(1) by (simp add: word_less_nat_alt)
  then have y: "fold add_year [1970..<unat (ct_year c)] days = days" for days by simp
  have m: "fold (add_month (ct_year c)) [1..<unat (ct_month c)] days = fold (add_month 1970) [1..<unat (ct_month c)] days" for days
  proof (rule fold_cong [OF refl refl])
    fix i assume "i \<in> set [1..<unat (ct_month c)]"
    then have "i = 1" using assms(2) by (simp add: word_le_nat_alt)
    then show "add_month (ct_year c) i = add_month 1970 i" by (simp add: fun_eq_iff add_month_def daysInMonth_simps)
  qed
  show ?thesis unfolding UnixTime_civil_def Let_def y m by simp
qed

text \<open>The conversions between a duration and a \<open>timeval\<close> are no inverses.\<close>

lemma timeval_not_inverse: "Duration_timeval (timeval_of 2000001) = 1000002"
  by (simp add: Duration_timeval_def timeval_of_def kMicrosPerSecond_def)

section \<open>Staying inside the text\<close>

text \<open>
  The parser looks ahead with tests that mostly stop at the terminating \<open>NUL\<close>. \<open>reads_ok\<close>: the
  parser has a defined result at that position.
\<close>

definition ret_ok :: "'a res \<Rightarrow> ('a \<Rightarrow> bool) \<Rightarrow> bool" where
  "ret_ok m P \<longleftrightarrow> (\<exists>a. m = Inr a \<and> P a)"

definition reads_ok :: "date_parser \<Rightarrow> bytes \<Rightarrow> nat \<Rightarrow> bool" where
  "reads_ok p str i \<longleftrightarrow> (\<forall>date. ret_ok (p str i date) (\<lambda>r. True))"

lemma ret_ok_Inr [simp]: "ret_ok (Inr a) P \<longleftrightarrow> P a"
  by (simp add: ret_ok_def)

lemma ret_ok_bind: "ret_ok m P \<Longrightarrow> (\<And>a. P a \<Longrightarrow> ret_ok (f a) Q) \<Longrightarrow> ret_ok (res_bind m f) Q"
  by (auto simp: ret_ok_def)

lemma ret_ok_if:
  "(b \<Longrightarrow> ret_ok x Q) \<Longrightarrow> (\<not> b \<Longrightarrow> ret_ok y Q) \<Longrightarrow> ret_ok (if b then x else y) Q"
  by simp

lemma ret_ok_option:
  "(v = None \<Longrightarrow> ret_ok x Q) \<Longrightarrow> (\<And>a. v = Some a \<Longrightarrow> ret_ok (f a) Q) \<Longrightarrow>
     ret_ok (case v of None \<Rightarrow> x | Some a \<Rightarrow> f a) Q"
  by (cases v) simp_all

lemma isDigitString_at_ok:
  "i \<le> length str \<Longrightarrow> ret_ok (isDigitString_at str i n) (\<lambda>b. b \<longrightarrow> i + n \<le> length str)"
proof (induction n arbitrary: i)
  case (Suc n)
  show ?case
  proof (cases "i < length str")
    case True
    then show ?thesis using Suc.IH [of "Suc i"] by (auto simp: char_at_def)
  next
    case False
    then show ?thesis using Suc.prems by (simp add: char_at_def is_digit_def)
  qed
qed simp

lemma ptr_field_ok:
  "i \<le> length str \<Longrightarrow> ret_ok (ptr_field str i n lo hi) (\<lambda>v. v \<noteq> None \<longrightarrow> i + n \<le> length str)"
  unfolding ptr_field_def
  by (intro ret_ok_bind [OF isDigitString_at_ok] ret_ok_if) (auto simp: char_range_def)

lemma char_at_ok: "i \<le> length str \<Longrightarrow> ret_ok (char_at str i) (\<lambda>c. i < length str \<longrightarrow> c = str ! i)"
  by (simp add: char_at_def)

lemmas ret_ok_intros = ret_ok_if ret_ok_option ret_ok_bind [OF ptr_field_ok] ret_ok_bind [OF char_at_ok]

lemma parseTimeOffset_ok: "i \<le> length str \<Longrightarrow> reads_ok parseTimeOffset str i"
  unfolding reads_ok_def parseTimeOffset_def by (intro allI ret_ok_intros) simp_all

lemma parseSecondFrac_ok: "i \<le> length str \<Longrightarrow> reads_ok parseSecondFrac str i"
proof -
  assume i: "i \<le> length str"
  define frac where "frac = takeWhile is_digit (drop (i + 1) str)"
  have "i + 1 + length frac \<le> length str \<or> i + 1 > length str"
    using length_takeWhile_le [of is_digit "drop (i + 1) str"] by (auto simp: frac_def)
  then have ok: "i + 1 \<le> length str \<Longrightarrow> ret_ok (parseTimeOffset str (i + 1 + length frac) date) (\<lambda>r. True)" for date
    using parseTimeOffset_ok [of "i + 1 + length frac" str] by (auto simp: reads_ok_def)
  show ?thesis
    unfolding reads_ok_def parseSecondFrac_def frac_def [symmetric] Let_def
    by (intro allI ret_ok_intros) (use i ok in \<open>auto split: prod.split\<close>)
qed

lemma parseSecond_ok: "i \<le> length str \<Longrightarrow> reads_ok parseSecond str i"
proof -
  assume i: "i \<le> length str"
  have "ret_ok (case r of (ok, date) \<Rightarrow> if ok then Inr (True, date) else parseTimeOffset str (i + 3) date) (\<lambda>r. True)"
    if "i + 3 \<le> length str" for r
    using parseTimeOffset_ok [OF that] by (cases r) (simp add: reads_ok_def)
  moreover have "ret_ok (parseSecondFrac str (i + 3) date) (\<lambda>r. True)" if "i + 3 \<le> length str" for date
    using parseSecondFrac_ok [OF that] by (simp add: reads_ok_def)
  ultimately show ?thesis unfolding reads_ok_def parseSecond_def
    by (intro allI ret_ok_intros ret_ok_bind [where P = "\<lambda>r. True" and m = "parseSecondFrac str (i + 3) d" for d])
      (use i in simp_all)
qed

lemma parseMinute_ok: "i \<le> length str \<Longrightarrow> reads_ok parseMinute str i"
  using parseSecond_ok [of "i + 3" str]
  unfolding reads_ok_def parseMinute_def by (intro allI ret_ok_intros) simp_all

lemma parseHour_ok: "i \<le> length str \<Longrightarrow> reads_ok parseHour str i"
  using parseMinute_ok [of "i + 3" str]
  unfolding reads_ok_def parseHour_def by (intro allI ret_ok_intros) simp_all

lemma copy_field_ok: "i + n \<le> length str + 1 \<Longrightarrow> ret_ok (copy_field str i n lo hi) (\<lambda>r. True)"
  by (simp add: copy_field_def char_range_def)

lemma parseDay_ok:
  assumes "i < length str" and "\<not> (length str = i + 1 \<and> str ! i = 45)"
  shows "reads_ok parseDay str i"
  using parseHour_ok [of "i + 3" str] assms
  unfolding reads_ok_def parseDay_def Let_def
  by (intro allI ret_ok_intros ret_ok_bind [OF copy_field_ok]) auto

lemma parseMonth_ok:
  assumes "i \<le> length str" and "\<not> (length str = i + 4 \<and> str ! (i + 3) = 45)"
  shows "reads_ok parseMonth str i"
  using parseDay_ok [of "i + 3" str] assms
  unfolding reads_ok_def parseMonth_def Let_def
  by (intro allI ret_ok_intros ret_ok_bind [OF copy_field_ok]) auto

lemma ISO8601_parse_inside:
  assumes "\<not> (length str = 8 \<and> str ! 7 = 45)"
  shows "\<exists>c. ISO8601_parse str = Inr c"
proof -
  have "4 \<le> length str \<Longrightarrow> reads_ok parseMonth str 4" using parseMonth_ok [of 4 str] assms by simp
  then have "ret_ok (parseYear str 0 CivilTime_null) (\<lambda>r. True)"
    unfolding reads_ok_def parseYear_def Let_def
    by (intro ret_ok_intros ret_ok_bind [OF copy_field_ok]) auto
  then show ?thesis by (auto simp: ISO8601_parse_def ret_ok_def)
qed

text \<open>A text that ends with the second dash is read past its end.\<close>

lemma ISO8601_reads_outside:
  assumes "y < 10000" and "1 \<le> mo" and "mo \<le> 12"
  shows "ISO8601_parse (digits4 y @ 45 # digits2 mo @ [45]) = Inl Undefined"
proof -
  let ?t = "digits4 y @ 45 # digits2 mo @ [45]"
  have parts: "take 4 ?t = digits4 y" "?t ! 4 = 45" "take 2 (drop 5 ?t) = digits2 mo" "?t ! 7 = 45"
    by (simp_all add: digits2_def digits4_def)
  have "copy_field ?t 0 4 0 (2 ^ 31) = Inr (Some (int y))"
    using parts(1) stoi_digits [of "digits4 y"] digits_field(5,6) [OF assms(1)] assms(1)
    by (simp add: copy_field_def char_range_def isDigitString_def int_field_def) (simp add: digits4_def digits2_def)
  moreover have "copy_field ?t 5 2 1 12 = Inr (Some (int mo))"
    using fields_digits2(2) [of 5 ?t mo 1 12] parts(3) assms by simp
  moreover have "copy_field ?t 8 2 lo hi = Inl Undefined" for lo hi
    by (simp add: copy_field_def char_range_def)
  ultimately show ?thesis
    using parts(2,4) by (simp add: ISO8601_parse_def parseYear_def parseMonth_def parseDay_def char_at_def)
qed

end
