(* ===== verification/CS_Bits.thy ===== *)
theory CS_Bits
  imports CS_Prelude
begin

text \<open>
  Equality of bytes and of 32-bit words bit by bit, for the components that pack values with
  shifts and masks (the UTF-8 and Base64 codecs): after rewriting with these lemmas and
  \<open>bit_simps\<close> an identity between packed words is propositional.
\<close>

lemma byte_eq_bits: "(a :: byte) = b \<longleftrightarrow> list_all (\<lambda>n. bit a n = bit b n) [0, 1, 2, 3, 4, 5, 6, 7]"
proof
  assume r: "list_all (\<lambda>n. bit a n = bit b n) [0, 1, 2, 3, 4, 5, 6, 7]"
  show "a = b"
  proof (rule bit_word_eqI)
    fix n assume "n < LENGTH(8)"
    then have "n \<in> set [0..<8]" by simp
    also have "[0..<8] = [0, 1, 2, 3, 4, 5, 6, 7]" by (simp add: upt_rec)
    finally show "bit a n = bit b n" using r by (auto simp del: set_simps simp: list_all_iff)
  qed
qed (simp add: list_all_iff)

lemma u32_eq_bits: "(a :: u32) = b \<longleftrightarrow> list_all (\<lambda>n. bit a n = bit b n)
    [0, 1, 2, 3, 4, 5, 6, 7, 8, 9, 10, 11, 12, 13, 14, 15, 16, 17, 18, 19,
     20, 21, 22, 23, 24, 25, 26, 27, 28, 29, 30, 31]"
proof
  assume r: "list_all (\<lambda>n. bit a n = bit b n)
    [0, 1, 2, 3, 4, 5, 6, 7, 8, 9, 10, 11, 12, 13, 14, 15, 16, 17, 18, 19,
     20, 21, 22, 23, 24, 25, 26, 27, 28, 29, 30, 31]"
  show "a = b"
  proof (rule bit_word_eqI)
    fix n assume "n < LENGTH(32)"
    then have "n \<in> set [0..<32]" by simp
    also have "[0..<32] =
    [0, 1, 2, 3, 4, 5, 6, 7, 8, 9, 10, 11, 12, 13, 14, 15, 16, 17, 18, 19,
     20, 21, 22, 23, 24, 25, 26, 27, 28, 29, 30, 31]" by (simp add: upt_rec)
    finally show "bit a n = bit b n" using r by (auto simp del: set_simps simp: list_all_iff)
  qed
qed (simp add: list_all_iff)

text \<open>A word is below a power of two exactly when its high bits are clear.\<close>

lemma unat_less_bits: "unat (c :: 'a::len word) < 2 ^ k \<longleftrightarrow> (\<forall>n\<ge>k. \<not> bit c n)"
proof
  assume "unat c < 2 ^ k"
  then have t: "take_bit k (unat c) = unat c" by (simp add: take_bit_nat_eq_self_iff)
  show "\<forall>n\<ge>k. \<not> bit c n"
  proof (intro allI impI)
    fix n assume "k \<le> n"
    then have "\<not> bit (take_bit k (unat c)) n" by (simp add: bit_take_bit_iff)
    then show "\<not> bit c n" by (simp add: t bit_unsigned_iff)
  qed
next
  assume h: "\<forall>n\<ge>k. \<not> bit c n"
  have "bit (take_bit k (unat c)) n = bit (unat c) n" for n
    using h by (cases "n < k") (auto simp: bit_take_bit_iff bit_unsigned_iff)
  then have "take_bit k (unat c) = unat c" by (auto intro: bit_eqI)
  then show "unat c < 2 ^ k" by (simp add: take_bit_nat_eq_self_iff)
qed

lemma byte_less_128: "(x :: byte) < 0x80 \<longleftrightarrow> \<not> bit x 7"
proof -
  have "(\<forall>n\<ge>7. \<not> bit x n) \<longleftrightarrow> \<not> bit x 7"
  proof
    assume b: "\<not> bit x 7"
    show "\<forall>n\<ge>7. \<not> bit x n"
    proof (intro allI impI)
      fix n :: nat assume "7 \<le> n"
      then show "\<not> bit x n" using b bit_imp_le_length [of x n] by (cases "n = 7") auto
    qed
  qed simp
  then show ?thesis using unat_less_bits [of x 7] by (simp add: word_less_nat_alt)
qed

lemma u32_less_bits:
  "(c :: u32) < 0x80 \<Longrightarrow> \<forall>n\<ge>7. \<not> bit c n" "c < 0x800 \<Longrightarrow> \<forall>n\<ge>11. \<not> bit c n"
  "c < 0x10000 \<Longrightarrow> \<forall>n\<ge>16. \<not> bit c n" "c < 0x200000 \<Longrightarrow> \<forall>n\<ge>21. \<not> bit c n"
  "c < 0x1000000 \<Longrightarrow> \<forall>n\<ge>24. \<not> bit c n" "c < 0x4000000 \<Longrightarrow> \<forall>n\<ge>26. \<not> bit c n"
  using unat_less_bits [of c 7] unat_less_bits [of c 11] unat_less_bits [of c 16]
    unat_less_bits [of c 21] unat_less_bits [of c 24] unat_less_bits [of c 26]
  by (simp_all add: word_less_nat_alt)

end
