(* ===== verification/CS_UTF8.thy ===== *)
theory CS_UTF8
  imports CS_Bits
begin

text \<open>
  The UTF-8 routines of libstx: \<open>UTF8::nextCodepoint\<close>, \<open>encodeCodepoint\<close> and \<open>isValidUTF8\<close>
  (\<open>stx/UTF8.cc\<close>) and the conversions of \<open>StringUtil\<close> built on them (\<open>stx/stringutil.cc\<close>).
  The pair of pointers \<open>cur\<close>, \<open>end\<close> is the list of the bytes that are left.
\<close>

section \<open>Decoding and encoding\<close>

definition low6 :: "byte \<Rightarrow> u32" where
  "low6 b = ucast (b AND 0x3F)"

definition nextCodepoint :: "bytes \<Rightarrow> (u32 \<times> bytes) res" where
  "nextCodepoint cur =
     (case cur of
        [] \<Rightarrow> Inr (0, [])
      | b0 # s \<Rightarrow>
          if b0 < 0x80 then Inr (ucast b0, s)
          else if b0 AND 0xE0 = 0xC0 then
            (case s of b1 # r \<Rightarrow> Inr (push_bit 6 (ucast (b0 AND 0x1F)) OR low6 b1, r)
             | _ \<Rightarrow> Inl EncodingError)
          else if b0 AND 0xF0 = 0xE0 then
            (case s of b1 # b2 # r \<Rightarrow>
               Inr (push_bit 12 (ucast (b0 AND 0x0F)) OR push_bit 6 (low6 b1) OR low6 b2, r)
             | _ \<Rightarrow> Inl EncodingError)
          else if b0 AND 0xF8 = 0xF0 then
            (case s of b1 # b2 # b3 # r \<Rightarrow>
               Inr (push_bit 18 (ucast (b0 AND 0x07)) OR push_bit 12 (low6 b1) OR
                    push_bit 6 (low6 b2) OR low6 b3, r)
             | _ \<Rightarrow> Inl EncodingError)
          else if b0 AND 0xFC = 0xF8 then
            (case s of b1 # b2 # b3 # b4 # r \<Rightarrow>
               Inr (push_bit 14 (ucast (b0 AND 0x03)) OR push_bit 18 (low6 b1) OR
                    push_bit 12 (low6 b2) OR push_bit 6 (low6 b3) OR low6 b4, r)
             | _ \<Rightarrow> Inl EncodingError)
          else if b0 AND 0xFE = 0xFC then
            (case s of b1 # b2 # b3 # b4 # b5 # r \<Rightarrow>
               Inr (push_bit 30 (ucast (b0 AND 0x01)) OR push_bit 24 (low6 b1) OR
                    push_bit 18 (low6 b2) OR push_bit 12 (low6 b3) OR push_bit 6 (low6 b4) OR low6 b5, r)
             | _ \<Rightarrow> Inl EncodingError)
          else Inl EncodingError)"

text \<open>
  \<open>lead m k msk c\<close> is \<open>(char) (m | ((c >> k) & msk))\<close>, \<open>trail k c\<close> the same for a
  continuation byte.
\<close>

definition lead :: "u32 \<Rightarrow> nat \<Rightarrow> u32 \<Rightarrow> u32 \<Rightarrow> byte" where
  "lead m k msk c = ucast (m OR (drop_bit k c AND msk))"

definition trail :: "nat \<Rightarrow> u32 \<Rightarrow> byte" where
  "trail k c = lead 0x80 k 0x3F c"

definition encodeCodepoint :: "u32 \<Rightarrow> bytes \<Rightarrow> bytes" where
  "encodeCodepoint c target =
     (if c < 0x80 then target @ [ucast c]
      else if c < 0x800 then target @ [lead 0xC0 6 0x1F c, trail 0 c]
      else if c < 0x10000 then target @ [lead 0xE0 12 0x0F c, trail 6 c, trail 0 c]
      else if c < 0x200000 then target @ [lead 0xF0 18 0x07 c, trail 12 c, trail 6 c, trail 0 c]
      else if c < 0x4000000 then
        target @ [lead 0xF8 24 0x03 c, trail 18 c, trail 12 c, trail 6 c, trail 0 c]
      else target @ [lead 0xFC 30 0x01 c, trail 24 c, trail 18 c, trail 11 c, trail 6 c, trail 0 c])"

lemma nextCodepoint_shorter:
  "nextCodepoint s = Inr (c, r) \<Longrightarrow> c \<noteq> 0 \<Longrightarrow> length r < length s"
  by (auto simp: nextCodepoint_def split: list.splits if_splits)

text \<open>
  The conversions read code points up to the first that is 0 (the end of the text is 0 too).
  The 16-bit variant cuts every code point to \<open>char16_t\<close>.
\<close>

function convertUTF8To32 :: "bytes \<Rightarrow> u32 list res" where
  "convertUTF8To32 s =
     (case nextCodepoint s of
        Inl e \<Rightarrow> Inl e
      | Inr (chr, r) \<Rightarrow>
          if chr = 0 then Inr [] else res_bind (convertUTF8To32 r) (\<lambda>out. Inr (chr # out)))"
  by pat_completeness auto

termination
  by (relation "measure length") (auto dest: nextCodepoint_shorter)

function convertUTF8To16 :: "bytes \<Rightarrow> u16 list res" where
  "convertUTF8To16 s =
     (case nextCodepoint s of
        Inl e \<Rightarrow> Inl e
      | Inr (cp, r) \<Rightarrow>
          let chr = (ucast cp :: u16)
          in if chr = 0 then Inr [] else res_bind (convertUTF8To16 r) (\<lambda>out. Inr (chr # out)))"
  by pat_completeness auto

termination
  by (relation "measure length") (auto intro!: nextCodepoint_shorter)

declare convertUTF8To32.simps [simp del] convertUTF8To16.simps [simp del]

definition convertUTF32To8 :: "u32 list \<Rightarrow> bytes" where
  "convertUTF32To8 str = fold encodeCodepoint str []"

definition convertUTF16To8 :: "u16 list \<Rightarrow> bytes" where
  "convertUTF16To8 str = fold (\<lambda>c. encodeCodepoint (ucast c)) str []"

section \<open>Validation\<close>

text \<open>
  The loop of \<open>isValidUTF8\<close> has no branch for a byte that starts no sequence: it then goes
  round without moving. \<open>None\<close> is a call that does not return.
\<close>

partial_function (option) isValidUTF8 :: "bytes \<Rightarrow> bool option" where
  "isValidUTF8 cur =
     (case cur of
        [] \<Rightarrow> Some True
      | b # _ \<Rightarrow>
          if b < 0x80 then Some True
          else if b AND 0xE0 = 0xC0 then
            (if length cur \<le> 1 then Some False else isValidUTF8 (drop 2 cur))
          else if b AND 0xF0 = 0xE0 then
            (if length cur \<le> 2 then Some False else isValidUTF8 (drop 3 cur))
          else if b AND 0xF8 = 0xF0 then
            (if length cur \<le> 3 then Some False else isValidUTF8 (drop 4 cur))
          else if b AND 0xFC = 0xF8 then
            (if length cur \<le> 4 then Some False else isValidUTF8 (drop 5 cur))
          else if b AND 0xFE = 0xFC then
            (if length cur \<le> 5 then Some False else isValidUTF8 (drop 6 cur))
          else isValidUTF8 cur)"

section \<open>Round trip\<close>

lemmas utf8_bits = byte_eq_bits u32_eq_bits byte_less_128 bit_simps lead_def trail_def low6_def

lemma lead_class:
  "\<not> lead 0xC0 k 0x1F c < 0x80" "lead 0xC0 k 0x1F c AND 0xE0 = 0xC0"
  "\<not> lead 0xE0 k 0x0F c < 0x80" "lead 0xE0 k 0x0F c AND 0xE0 \<noteq> 0xC0" "lead 0xE0 k 0x0F c AND 0xF0 = 0xE0"
  "\<not> lead 0xF0 k 0x07 c < 0x80" "lead 0xF0 k 0x07 c AND 0xE0 \<noteq> 0xC0" "lead 0xF0 k 0x07 c AND 0xF0 \<noteq> 0xE0"
  "lead 0xF0 k 0x07 c AND 0xF8 = 0xF0"
  "\<not> lead 0xF8 k 0x03 c < 0x80" "lead 0xF8 k 0x03 c AND 0xE0 \<noteq> 0xC0" "lead 0xF8 k 0x03 c AND 0xF0 \<noteq> 0xE0"
  "lead 0xF8 k 0x03 c AND 0xF8 \<noteq> 0xF0" "lead 0xF8 k 0x03 c AND 0xFC = 0xF8"
  "\<not> lead 0xFC k 0x01 c < 0x80" "lead 0xFC k 0x01 c AND 0xE0 \<noteq> 0xC0" "lead 0xFC k 0x01 c AND 0xF0 \<noteq> 0xE0"
  "lead 0xFC k 0x01 c AND 0xF8 \<noteq> 0xF0" "lead 0xFC k 0x01 c AND 0xFC \<noteq> 0xF8" "lead 0xFC k 0x01 c AND 0xFE = 0xFC"
  by (simp_all add: utf8_bits)

text \<open>The five-byte form puts the top bits of the code point at bit 14 instead of 24.\<close>

definition five_byte_read :: "u32 \<Rightarrow> u32" where
  "five_byte_read c = push_bit 14 (drop_bit 24 c) OR take_bit 24 c"

lemma nextCodepoint_encode:
  "c < 0x200000 \<Longrightarrow> nextCodepoint (encodeCodepoint c [] @ r) = Inr (c, r)"
  "0x200000 \<le> c \<Longrightarrow> c < 0x4000000 \<Longrightarrow> nextCodepoint (encodeCodepoint c [] @ r) = Inr (five_byte_read c, r)"
proof -
  assume c: "c < 0x200000"
  consider (1) "c < 0x80" | (2) "\<not> c < 0x80" "c < 0x800" | (3) "\<not> c < 0x80" "\<not> c < 0x800" "c < 0x10000"
    | (4) "\<not> c < 0x80" "\<not> c < 0x800" "\<not> c < 0x10000" by blast
  then show "nextCodepoint (encodeCodepoint c [] @ r) = Inr (c, r)"
  proof cases
    case 1
    with u32_less_bits(1) [of c] show ?thesis
      by (simp add: nextCodepoint_def encodeCodepoint_def utf8_bits)
  next
    case 2
    with u32_less_bits(2) [of c] show ?thesis
      by (simp add: nextCodepoint_def encodeCodepoint_def lead_class) (simp add: utf8_bits)
  next
    case 3
    with u32_less_bits(3) [of c] show ?thesis
      by (simp add: nextCodepoint_def encodeCodepoint_def lead_class) (simp add: utf8_bits)
  next
    case 4
    with c u32_less_bits(4) [of c] show ?thesis
      by (simp add: nextCodepoint_def encodeCodepoint_def lead_class) (simp add: utf8_bits)
  qed
next
  assume c: "0x200000 \<le> c" "c < 0x4000000"
  then have "\<not> c < 0x80" "\<not> c < 0x800" "\<not> c < 0x10000" "\<not> c < 0x200000"
    by (simp_all add: word_less_nat_alt word_le_nat_alt)
  with c u32_less_bits(6) [of c] show "nextCodepoint (encodeCodepoint c [] @ r) = Inr (five_byte_read c, r)"
    by (simp add: nextCodepoint_def encodeCodepoint_def lead_class) (simp add: utf8_bits five_byte_read_def)
qed

lemma five_byte_read_small: "c < 0x1000000 \<Longrightarrow> five_byte_read c = c"
  using u32_less_bits(5) [of c] by (simp add: five_byte_read_def utf8_bits)

lemma five_byte_read_less: "c < 0x4000000 \<Longrightarrow> five_byte_read c < 0x1000000"
proof -
  assume "c < 0x4000000"
  then have "unat (five_byte_read c) < 2 ^ 24"
    unfolding unat_less_bits using u32_less_bits(6) [of c]
    by (auto simp: five_byte_read_def bit_simps)
  then show ?thesis by (simp add: word_less_nat_alt)
qed

lemma encodeCodepoint_append: "encodeCodepoint c t = t @ encodeCodepoint c []"
  by (simp add: encodeCodepoint_def)

lemma convertUTF32To8_simps [simp]:
  "convertUTF32To8 [] = []" "convertUTF32To8 (c # cs) = encodeCodepoint c [] @ convertUTF32To8 cs"
proof -
  have "fold encodeCodepoint cs t = t @ fold encodeCodepoint cs []" for t
  proof (induction cs arbitrary: t)
    case (Cons c cs)
    show ?case using Cons [of "encodeCodepoint c t"] Cons [of "encodeCodepoint c []"]
      by (simp add: encodeCodepoint_append [of c t])
  qed simp
  from this [of "encodeCodepoint c []"]
  show "convertUTF32To8 (c # cs) = encodeCodepoint c [] @ convertUTF32To8 cs"
    by (simp add: convertUTF32To8_def)
qed (simp add: convertUTF32To8_def)

lemma encode_decode: "c < 0x1000000 \<Longrightarrow> nextCodepoint (encodeCodepoint c [] @ r) = Inr (c, r)"
  using nextCodepoint_encode(1) [of c r] nextCodepoint_encode(2) [of c r] five_byte_read_small [of c]
  by (cases "c < 0x200000") (simp_all add: not_less word_less_nat_alt word_le_nat_alt)

section \<open>What \<open>isValidUTF8\<close> accepts\<close>

text \<open>
  The length of the sequence a byte starts, as the validation reads it, and the texts it walks
  over without meeting an ASCII character.
\<close>

definition seq_len :: "byte \<Rightarrow> nat option" where
  "seq_len b =
     (if b < 0x80 then Some 1 else if b AND 0xE0 = 0xC0 then Some 2 else if b AND 0xF0 = 0xE0 then Some 3
      else if b AND 0xF8 = 0xF0 then Some 4 else if b AND 0xFC = 0xF8 then Some 5
      else if b AND 0xFE = 0xFC then Some 6 else None)"

lemma isValidUTF8_simp:
  "isValidUTF8 [] = Some True"
  "isValidUTF8 (b # s) =
     (case seq_len b of
        None \<Rightarrow> None
      | Some n \<Rightarrow> if n = 1 then Some True else if length s < n - 1 then Some False else isValidUTF8 (drop (n - 1) s))"
proof -
  show "isValidUTF8 [] = Some True" by (subst isValidUTF8.simps) simp
  have stuck: "s \<noteq> [] \<longrightarrow> seq_len (hd s) \<noteq> None" if "isValidUTF8 s = Some v" for s v
  proof (rule isValidUTF8.raw_induct [of "\<lambda>s v. s \<noteq> [] \<longrightarrow> seq_len (hd s) \<noteq> None", OF _ that])
    fix f :: "bytes \<Rightarrow> bool option" and cur v
    assume ih: "\<And>x y. f x = Some y \<Longrightarrow> x \<noteq> [] \<longrightarrow> seq_len (hd x) \<noteq> None"
      and body: "(case cur of [] \<Rightarrow> Some True
        | b # _ \<Rightarrow> if b < 0x80 then Some True
            else if b AND 0xE0 = 0xC0 then (if length cur \<le> 1 then Some False else f (drop 2 cur))
            else if b AND 0xF0 = 0xE0 then (if length cur \<le> 2 then Some False else f (drop 3 cur))
            else if b AND 0xF8 = 0xF0 then (if length cur \<le> 3 then Some False else f (drop 4 cur))
            else if b AND 0xFC = 0xF8 then (if length cur \<le> 4 then Some False else f (drop 5 cur))
            else if b AND 0xFE = 0xFC then (if length cur \<le> 5 then Some False else f (drop 6 cur))
            else f cur) = Some v"
    show "cur \<noteq> [] \<longrightarrow> seq_len (hd cur) \<noteq> None"
      using ih [of cur v] body by (auto simp: seq_len_def split: list.splits if_splits)
  qed
  show "isValidUTF8 (b # s) =
     (case seq_len b of
        None \<Rightarrow> None
      | Some n \<Rightarrow> if n = 1 then Some True else if length s < n - 1 then Some False else isValidUTF8 (drop (n - 1) s))"
  proof (cases "seq_len b")
    case None
    then have "isValidUTF8 (b # s) = None" using stuck [of "b # s"] by (cases "isValidUTF8 (b # s)") auto
    with None show ?thesis by simp
  next
    case (Some n)
    then show ?thesis by (subst isValidUTF8.simps) (auto simp: seq_len_def numeral_eq_Suc split: if_splits)
  qed
qed

lemma seq_len_encode: "\<exists>b s. encodeCodepoint c [] = b # s \<and> seq_len b = Some (Suc (length s))"
  by (simp add: encodeCodepoint_def seq_len_def lead_class) (auto simp: word_less_nat_alt unsigned_ucast_eq take_bit_eq_mod)

lemma utf8_text_roundtrip:
  "\<forall>c \<in> set cs. c \<noteq> 0 \<and> c < 0x1000000 \<Longrightarrow> convertUTF8To32 (convertUTF32To8 cs) = Inr cs"
proof (induction cs)
  case Nil
  show ?case by (subst convertUTF8To32.simps) (simp add: nextCodepoint_def)
next
  case (Cons c cs)
  then show ?case by (subst convertUTF8To32.simps) (simp add: encode_decode)
qed

lemma five_byte_damaged:
  assumes "0x1000000 \<le> c" and "c < 0x4000000"
  shows "nextCodepoint (encodeCodepoint c [] @ r) = Inr (five_byte_read c, r)" and "five_byte_read c \<noteq> c"
  using nextCodepoint_encode(2) [of c r] five_byte_read_less [of c] assms
  by (auto simp: word_less_nat_alt word_le_nat_alt)

lemma utf8_text_valid: "isValidUTF8 (convertUTF32To8 cs) = Some True"
proof (induction cs)
  case (Cons c cs)
  obtain b s where e: "encodeCodepoint c [] = b # s" "seq_len b = Some (Suc (length s))"
    using seq_len_encode by blast
  then show ?case using Cons by (simp add: isValidUTF8_simp)
qed (simp add: isValidUTF8_simp)

text \<open>
  A chunk is a multi-byte sequence as the validation skips it. The validation hangs exactly on
  the texts where a byte that starts no sequence follows chunks only.
\<close>

definition utf8_chunk :: "bytes \<Rightarrow> bool" where
  "utf8_chunk u \<longleftrightarrow> 1 < length u \<and> seq_len (hd u) = Some (length u)"

lemma isValidUTF8_chunk: "utf8_chunk u \<Longrightarrow> isValidUTF8 (u @ s) = isValidUTF8 s"
  by (cases u) (auto simp: utf8_chunk_def isValidUTF8_simp)

lemma isValidUTF8_hangs:
  "isValidUTF8 s = None \<longleftrightarrow>
     (\<exists>us b t. s = concat us @ b # t \<and> (\<forall>u \<in> set us. utf8_chunk u) \<and> seq_len b = None)"
proof
  show "isValidUTF8 s = None \<Longrightarrow>
     \<exists>us b t. s = concat us @ b # t \<and> (\<forall>u \<in> set us. utf8_chunk u) \<and> seq_len b = None"
  proof (induction s rule: length_induct)
    case (1 s)
    then obtain b s' where s: "s = b # s'" by (cases s) (auto simp: isValidUTF8_simp)
    show ?case
    proof (cases "seq_len b")
      case None
      then show ?thesis by (intro exI [of _ "[]"]) (simp add: s)
    next
      case (Some n)
      define u where "u = b # take (n - 1) s'"
      have n: "1 < n" "n - 1 \<le> length s'" and hang: "isValidUTF8 (drop (n - 1) s') = None"
        using 1(2) Some by (auto simp: s isValidUTF8_simp seq_len_def split: if_splits)
      have "length (drop (n - 1) s') < length s" by (simp add: s)
      with 1(1) hang obtain us c t where rest: "drop (n - 1) s' = concat us @ c # t"
        "\<forall>u \<in> set us. utf8_chunk u" "seq_len c = None" by blast
      have "s = u @ drop (n - 1) s'" by (simp add: s u_def)
      then have "s = concat (u # us) @ c # t" by (simp only: rest(1) concat.simps append_assoc)
      moreover have "utf8_chunk u" using n Some by (simp add: utf8_chunk_def u_def)
      ultimately show ?thesis using rest(2,3) by (intro exI [of _ "u # us"] exI conjI) auto
    qed
  qed
next
  assume "\<exists>us b t. s = concat us @ b # t \<and> (\<forall>u \<in> set us. utf8_chunk u) \<and> seq_len b = None"
  then obtain us b t where h: "s = concat us @ b # t" "\<forall>u \<in> set us. utf8_chunk u" "seq_len b = None"
    by blast
  have "isValidUTF8 (concat us @ b # t) = None" using h(2)
    by (induction us) (simp_all add: isValidUTF8_chunk isValidUTF8_simp h(3))
  then show "isValidUTF8 s = None" by (simp add: h(1))
qed

end
