(* ===== verification/CS_Human.thy ===== *)
theory CS_Human
  imports CS_TimeText CS_UTF8 "HOL-Library.Multiset"
begin

text \<open>
  \<open>stx/human.cc\<close>: how times, durations, booleans and missing values are read from text, and
  how the type of a column of text is guessed. \<open>strptime\<close> belongs to the C library: it is a
  parameter, for the format \<open>"%Y-%m-%d %H:%M:%S"\<close> and with the fields of the \<open>struct tm\<close> it
  fills. The current time is a parameter too.
\<close>

definition ascii :: "string \<Rightarrow> bytes" where
  "ascii s = map of_char s"

section \<open>Times\<close>

record tm =
  tm_sec :: int
  tm_min :: int
  tm_hour :: int
  tm_mday :: int
  tm_mon :: int
  tm_year :: int

definition CivilTime_parseString :: "(bytes \<Rightarrow> tm option) \<Rightarrow> bytes \<Rightarrow> CivilTime option" where
  "CivilTime_parseString strptime str =
     map_option (\<lambda>t. CivilTime_null
       \<lparr>ct_second := word_of_int (tm_sec t), ct_minute := word_of_int (tm_min t),
        ct_hour := word_of_int (tm_hour t), ct_day := word_of_int (tm_mday t),
        ct_month := word_of_int (tm_mon t + 1), ct_year := word_of_int (tm_year t + 1900)\<rparr>)
       (strptime str)"

definition UnixTime_parseString :: "(bytes \<Rightarrow> tm option) \<Rightarrow> bytes \<Rightarrow> u64 option" where
  "UnixTime_parseString strptime str = map_option UnixTime_civil (CivilTime_parseString strptime str)"

text \<open>\<open>std::stoull(str, \&sz)\<close> also stores how many characters it used.\<close>

definition stoull_size :: "bytes \<Rightarrow> nat" where
  "stoull_size s =
     (let n = length (takeWhile is_space s); s' = drop n s;
          k = (if s' \<noteq> [] \<and> (hd s' = 45 \<or> hd s' = 43) then 1 else 0)
      in n + k + length (takeWhile is_digit (drop k s')))"

definition duration_unit :: "bytes \<Rightarrow> u64 option" where
  "duration_unit time_suffix =
     (if time_suffix \<in> set (map ascii [''s'', ''sec'', ''secs'', ''second'', ''seconds'']) then
        Some kMicrosPerSecond
      else if time_suffix \<in> set (map ascii [''m'', ''min'', ''mins'', ''minute'', ''minutes'']) then
        Some kMicrosPerMinute
      else if time_suffix \<in> set (map ascii [''h'', ''hour'', ''hours'']) then Some kMicrosPerHour
      else if time_suffix \<in> set (map ascii [''d'', ''day'', ''days'']) then Some kMicrosPerDay
      else if time_suffix \<in> set (map ascii [''w'', ''week'', ''weeks'']) then Some kMicrosPerWeek
      else if time_suffix \<in> set (map ascii [''y'', ''year'', ''years'']) then Some kMicrosPerYear
      else None)"

definition parseDuration :: "bytes \<Rightarrow> u64 option res" where
  "parseDuration str =
     res_bind (stoull str) (\<lambda>v. Inr (map_option (\<lambda>k. v * k) (duration_unit (drop (stoull_size str) str))))"

definition bound_milli :: u64 where "bound_milli = 30000000000"
definition bound_micro :: u64 where "bound_micro = 30000000000000"

definition raw_timestamp :: "bytes \<Rightarrow> u64 option" where
  "raw_timestamp str =
     (if \<not> isDigitString str then None
      else case stoull str of
             Inl e \<Rightarrow> None
           | Inr ts \<Rightarrow>
               if ts < bound_milli then Some (ts * kMicrosPerSecond)
               else if ts > bound_milli \<and> ts < bound_micro then Some (ts * 1000)
               else if ts > bound_micro then Some ts
               else None)"

definition parseTime :: "(bytes \<Rightarrow> tm option) \<Rightarrow> bytes \<Rightarrow> u64 \<Rightarrow> u64 option res" where
  "parseTime strptime str now =
     (if str = ascii ''now'' then Inr (Some now)
      else res_bind
        (if beginsWith str (ascii ''-'') \<and> length str > 1 \<and> is_digit (str ! 1)
         then parseDuration (drop 1 str) else Inr None) (\<lambda>offset.
        case offset of
          Some d \<Rightarrow> Inr (Some (now - d))
        | None \<Rightarrow>
            (case raw_timestamp str of
               Some t \<Rightarrow> Inr (Some t)
             | None \<Rightarrow>
                 res_bind (ISO8601_parse str) (\<lambda>civil.
                   Inr (case civil of
                          Some c \<Rightarrow> Some (UnixTime_civil c)
                        | None \<Rightarrow>
                            (case CivilTime_parseString strptime str of
                               Some c \<Rightarrow> Some (UnixTime_civil c)
                             | None \<Rightarrow> if str = ascii ''0000-00-00 00:00:00'' then Some 0 else None))))))"

section \<open>Booleans and missing values\<close>

definition parseBoolean :: "bytes \<Rightarrow> bool option" where
  "parseBoolean v =
     (if v = ascii ''true'' \<or> v = ascii ''TRUE'' \<or> v = ascii ''yes'' \<or> v = ascii ''YES'' then Some True
      else if v = ascii ''false'' \<or> v = ascii ''FALSE'' \<or> v = ascii ''no'' \<or> v = ascii ''NO'' then Some False
      else None)"

definition isNullOrEmpty :: "bytes \<Rightarrow> bool" where
  "isNullOrEmpty v \<longleftrightarrow> v = [] \<or> v = ascii ''null'' \<or> v = ascii ''NULL''"

section \<open>The type of a column of text\<close>

datatype HumanDataType =
    HDT_UNKNOWN
  | HDT_DATETIME
  | HDT_DATETIME_NULLABLE
  | HDT_URL
  | HDT_URL_NULLABLE
  | HDT_CURRENCY
  | HDT_CURRENCY_NULLABLE
  | HDT_UNSIGNED_INTEGER
  | HDT_UNSIGNED_INTEGER_NULLABLE
  | HDT_SIGNED_INTEGER
  | HDT_SIGNED_INTEGER_NULLABLE
  | HDT_FLOAT
  | HDT_FLOAT_NULLABLE
  | HDT_BOOLEAN
  | HDT_BOOLEAN_NULLABLE
  | HDT_NULL_OR_EMPTY
  | HDT_TEXT
  | HDT_BINARY

text \<open>\<open>None\<close> is a call that does not return, which the validation of UTF-8 brings in.\<close>

definition detectDataType :: "(bytes \<Rightarrow> tm option) \<Rightarrow> u64 \<Rightarrow> bytes \<Rightarrow> HumanDataType res option" where
  "detectDataType strptime now v =
     (if isNumber v then
        Some (Inr (if StringUtil_includes v (ascii ''.'') \<or> StringUtil_includes v (ascii '','') then HDT_FLOAT
                   else if beginsWith v (ascii ''-'') then HDT_SIGNED_INTEGER else HDT_UNSIGNED_INTEGER))
      else if isNullOrEmpty v then Some (Inr HDT_NULL_OR_EMPTY)
      else if v = ascii ''true'' \<or> v = ascii ''TRUE'' \<or> v = ascii ''false'' \<or> v = ascii ''FALSE'' \<or>
              v = ascii ''yes'' \<or> v = ascii ''YES'' \<or> v = ascii ''no'' \<or> v = ascii ''NO''
      then Some (Inr HDT_BOOLEAN)
      else case parseTime strptime v now of
             Inl e \<Rightarrow> Some (Inl e)
           | Inr (Some t) \<Rightarrow> Some (Inr HDT_DATETIME)
           | Inr None \<Rightarrow>
               map_option (\<lambda>valid. Inr (if valid then HDT_TEXT else HDT_BINARY)) (isValidUTF8 v))"

text \<open>The type seen so far is widened to a type that holds the new value too.\<close>

definition null_type :: "HumanDataType \<Rightarrow> HumanDataType" where
  "null_type prev =
     (case prev of
        HDT_DATETIME \<Rightarrow> HDT_DATETIME_NULLABLE | HDT_DATETIME_NULLABLE \<Rightarrow> HDT_DATETIME_NULLABLE
      | HDT_URL \<Rightarrow> HDT_URL_NULLABLE | HDT_URL_NULLABLE \<Rightarrow> HDT_URL_NULLABLE
      | HDT_CURRENCY \<Rightarrow> HDT_CURRENCY_NULLABLE | HDT_CURRENCY_NULLABLE \<Rightarrow> HDT_CURRENCY_NULLABLE
      | HDT_UNSIGNED_INTEGER \<Rightarrow> HDT_UNSIGNED_INTEGER_NULLABLE
      | HDT_UNSIGNED_INTEGER_NULLABLE \<Rightarrow> HDT_UNSIGNED_INTEGER_NULLABLE
      | HDT_SIGNED_INTEGER \<Rightarrow> HDT_SIGNED_INTEGER_NULLABLE
      | HDT_SIGNED_INTEGER_NULLABLE \<Rightarrow> HDT_SIGNED_INTEGER_NULLABLE
      | HDT_FLOAT \<Rightarrow> HDT_FLOAT_NULLABLE | HDT_FLOAT_NULLABLE \<Rightarrow> HDT_FLOAT_NULLABLE
      | HDT_BOOLEAN \<Rightarrow> HDT_BOOLEAN_NULLABLE | HDT_BOOLEAN_NULLABLE \<Rightarrow> HDT_BOOLEAN_NULLABLE
      | HDT_TEXT \<Rightarrow> HDT_TEXT | HDT_BINARY \<Rightarrow> HDT_BINARY
      | HDT_UNKNOWN \<Rightarrow> HDT_NULL_OR_EMPTY | HDT_NULL_OR_EMPTY \<Rightarrow> HDT_NULL_OR_EMPTY)"

definition unsigned_nullable_type :: "HumanDataType \<Rightarrow> HumanDataType" where
  "unsigned_nullable_type prev =
     (if prev \<in> {HDT_FLOAT, HDT_FLOAT_NULLABLE} then HDT_FLOAT_NULLABLE
      else if prev \<in> {HDT_SIGNED_INTEGER, HDT_SIGNED_INTEGER_NULLABLE} then HDT_SIGNED_INTEGER_NULLABLE
      else if prev \<in> {HDT_NULL_OR_EMPTY, HDT_UNSIGNED_INTEGER, HDT_UNSIGNED_INTEGER_NULLABLE}
      then HDT_UNSIGNED_INTEGER_NULLABLE
      else HDT_TEXT)"

definition signed_nullable_type :: "HumanDataType \<Rightarrow> HumanDataType" where
  "signed_nullable_type prev =
     (if prev \<in> {HDT_FLOAT, HDT_FLOAT_NULLABLE} then HDT_FLOAT_NULLABLE
      else if prev \<in> {HDT_NULL_OR_EMPTY, HDT_UNSIGNED_INTEGER, HDT_UNSIGNED_INTEGER_NULLABLE,
                       HDT_SIGNED_INTEGER, HDT_SIGNED_INTEGER_NULLABLE} then HDT_SIGNED_INTEGER_NULLABLE
      else HDT_TEXT)"

definition float_nullable_type :: "HumanDataType \<Rightarrow> HumanDataType" where
  "float_nullable_type prev =
     (if prev \<in> {HDT_NULL_OR_EMPTY, HDT_FLOAT_NULLABLE, HDT_UNSIGNED_INTEGER, HDT_UNSIGNED_INTEGER_NULLABLE,
                  HDT_SIGNED_INTEGER, HDT_SIGNED_INTEGER_NULLABLE} then HDT_FLOAT_NULLABLE
      else HDT_TEXT)"

fun widen_type :: "HumanDataType \<Rightarrow> HumanDataType \<Rightarrow> HumanDataType" where
  "widen_type HDT_UNKNOWN prev = HDT_UNKNOWN"
| "widen_type HDT_TEXT prev = HDT_TEXT"
| "widen_type HDT_BINARY prev = HDT_BINARY"
| "widen_type HDT_NULL_OR_EMPTY prev = null_type prev"
| "widen_type HDT_DATETIME prev =
     (if prev \<in> {HDT_NULL_OR_EMPTY, HDT_DATETIME_NULLABLE} then HDT_DATETIME_NULLABLE else HDT_TEXT)"
| "widen_type HDT_DATETIME_NULLABLE prev =
     (if prev \<in> {HDT_NULL_OR_EMPTY, HDT_DATETIME_NULLABLE} then HDT_DATETIME_NULLABLE else HDT_TEXT)"
| "widen_type HDT_URL prev = (if prev \<in> {HDT_NULL_OR_EMPTY, HDT_URL_NULLABLE} then HDT_URL_NULLABLE else HDT_TEXT)"
| "widen_type HDT_URL_NULLABLE prev =
     (if prev \<in> {HDT_NULL_OR_EMPTY, HDT_URL_NULLABLE} then HDT_URL_NULLABLE else HDT_TEXT)"
| "widen_type HDT_CURRENCY prev =
     (if prev \<in> {HDT_NULL_OR_EMPTY, HDT_CURRENCY_NULLABLE} then HDT_CURRENCY_NULLABLE else HDT_TEXT)"
| "widen_type HDT_CURRENCY_NULLABLE prev =
     (if prev \<in> {HDT_NULL_OR_EMPTY, HDT_CURRENCY_NULLABLE} then HDT_CURRENCY_NULLABLE else HDT_TEXT)"
| "widen_type HDT_UNSIGNED_INTEGER prev =
     (if prev = HDT_FLOAT then HDT_FLOAT else if prev = HDT_SIGNED_INTEGER then HDT_SIGNED_INTEGER
      else unsigned_nullable_type prev)"
| "widen_type HDT_UNSIGNED_INTEGER_NULLABLE prev = unsigned_nullable_type prev"
| "widen_type HDT_SIGNED_INTEGER prev =
     (if prev = HDT_FLOAT then HDT_FLOAT else if prev = HDT_UNSIGNED_INTEGER then HDT_SIGNED_INTEGER
      else signed_nullable_type prev)"
| "widen_type HDT_SIGNED_INTEGER_NULLABLE prev = signed_nullable_type prev"
| "widen_type HDT_FLOAT prev =
     (if prev \<in> {HDT_UNSIGNED_INTEGER, HDT_SIGNED_INTEGER} then HDT_FLOAT else float_nullable_type prev)"
| "widen_type HDT_FLOAT_NULLABLE prev = float_nullable_type prev"
| "widen_type HDT_BOOLEAN prev =
     (if prev \<in> {HDT_NULL_OR_EMPTY, HDT_BOOLEAN_NULLABLE} then HDT_BOOLEAN_NULLABLE else HDT_TEXT)"
| "widen_type HDT_BOOLEAN_NULLABLE prev =
     (if prev \<in> {HDT_NULL_OR_EMPTY, HDT_BOOLEAN_NULLABLE} then HDT_BOOLEAN_NULLABLE else HDT_TEXT)"

definition merge_type :: "HumanDataType \<Rightarrow> HumanDataType \<Rightarrow> HumanDataType" where
  "merge_type type prev =
     (if type = prev \<or> prev = HDT_UNKNOWN then type else widen_type type prev)"

definition detectDataTypeSeries ::
  "(bytes \<Rightarrow> tm option) \<Rightarrow> u64 \<Rightarrow> bytes \<Rightarrow> HumanDataType \<Rightarrow> HumanDataType res option" where
  "detectDataTypeSeries strptime now v prev =
     (if prev = HDT_BINARY then Some (Inr prev)
      else map_option (map_sum id (\<lambda>type. merge_type type prev)) (detectDataType strptime now v))"

section \<open>The order of the values does not matter\<close>

fun detect_series :: "(bytes \<Rightarrow> tm option) \<Rightarrow> u64 \<Rightarrow> bytes list \<Rightarrow> HumanDataType \<Rightarrow> HumanDataType res option" where
  "detect_series strptime now [] prev = Some (Inr prev)"
| "detect_series strptime now (v # vs) prev =
     (case detectDataTypeSeries strptime now v prev of
        None \<Rightarrow> None
      | Some (Inl e) \<Rightarrow> Some (Inl e)
      | Some (Inr type) \<Rightarrow> detect_series strptime now vs type)"

definition detected_types :: "HumanDataType list" where
  "detected_types =
     [HDT_DATETIME, HDT_UNSIGNED_INTEGER, HDT_SIGNED_INTEGER, HDT_FLOAT, HDT_BOOLEAN, HDT_NULL_OR_EMPTY,
      HDT_TEXT, HDT_BINARY]"

definition series_step :: "HumanDataType \<Rightarrow> HumanDataType \<Rightarrow> HumanDataType" where
  "series_step type prev = (if prev = HDT_BINARY then HDT_BINARY else merge_type type prev)"

lemma all_data_types:
  "p \<in> set [HDT_UNKNOWN, HDT_DATETIME, HDT_DATETIME_NULLABLE, HDT_URL, HDT_URL_NULLABLE, HDT_CURRENCY,
     HDT_CURRENCY_NULLABLE, HDT_UNSIGNED_INTEGER, HDT_UNSIGNED_INTEGER_NULLABLE, HDT_SIGNED_INTEGER,
     HDT_SIGNED_INTEGER_NULLABLE, HDT_FLOAT, HDT_FLOAT_NULLABLE, HDT_BOOLEAN, HDT_BOOLEAN_NULLABLE,
     HDT_NULL_OR_EMPTY, HDT_TEXT, HDT_BINARY]"
  by (cases p) simp_all

lemma series_step_commute:
  assumes "a \<in> set detected_types" and "b \<in> set detected_types"
  shows "series_step a \<circ> series_step b = series_step b \<circ> series_step a"
proof
  fix p
  have "list_all (\<lambda>a. list_all (\<lambda>b. list_all (\<lambda>p. series_step a (series_step b p) = series_step b (series_step a p))
      [HDT_UNKNOWN, HDT_DATETIME, HDT_DATETIME_NULLABLE, HDT_URL, HDT_URL_NULLABLE, HDT_CURRENCY,
     HDT_CURRENCY_NULLABLE, HDT_UNSIGNED_INTEGER, HDT_UNSIGNED_INTEGER_NULLABLE, HDT_SIGNED_INTEGER,
     HDT_SIGNED_INTEGER_NULLABLE, HDT_FLOAT, HDT_FLOAT_NULLABLE, HDT_BOOLEAN, HDT_BOOLEAN_NULLABLE,
     HDT_NULL_OR_EMPTY, HDT_TEXT, HDT_BINARY]) detected_types) detected_types"
    by code_simp
  then show "(series_step a \<circ> series_step b) p = (series_step b \<circ> series_step a) p"
    unfolding list_all_iff o_def using assms all_data_types [of p] by blast
qed

lemma isNumber_no_separator:
  assumes "isNumber v" and "c = 46 \<or> c = 44"
  shows "\<not> StringUtil_includes v [c]"
proof -
  have "c \<notin> set v"
    using assms by (cases v) (auto simp: isNumber_iff isDigitString_def list_all_iff is_digit_def split: if_splits)
  then show ?thesis by (simp add: StringUtil_includes_def str_find_def str_search_absent)
qed

lemma never_float: "detectDataType strptime now v \<noteq> Some (Inr HDT_FLOAT)"
  using isNumber_no_separator [of v 46] isNumber_no_separator [of v 44]
  by (auto simp: detectDataType_def ascii_def split: sum.splits option.splits if_splits)

lemma detected_type: "detectDataType strptime now v = Some (Inr t) \<Longrightarrow> t \<in> set detected_types"
  by (auto simp: detectDataType_def detected_types_def split: sum.splits option.splits if_splits)

lemma detect_series_fold:
  assumes "\<forall>v \<in> set vs. detectDataType strptime now v = Some (Inr (type v))"
  shows "detect_series strptime now vs prev = Some (Inr (fold series_step (map type vs) prev))"
  using assms
proof (induction vs arbitrary: prev)
  case (Cons v vs)
  then show ?case by (simp add: detectDataTypeSeries_def series_step_def)
qed simp

lemma detect_series_order:
  assumes "\<forall>v \<in> set vs. \<exists>t. detectDataType strptime now v = Some (Inr t)" and "mset vs = mset ws"
  shows "detect_series strptime now vs prev = detect_series strptime now ws prev"
proof -
  from assms(1) obtain type where type: "\<forall>v \<in> set vs. detectDataType strptime now v = Some (Inr (type v))"
    by metis
  have ws: "set ws = set vs" using assms(2) by (metis set_mset_mset)
  have "fold series_step (map type vs) = fold series_step (map type ws)"
  proof (rule fold_multiset_equiv)
    fix x y assume "x \<in> set (map type vs)" "y \<in> set (map type vs)"
    then show "series_step x \<circ> series_step y = series_step y \<circ> series_step x"
      using type detected_type by (intro series_step_commute) auto
  qed (simp only: mset_map assms(2))
  then show ?thesis
    using detect_series_fold [OF type] detect_series_fold [of ws strptime now type] type ws by simp
qed

section \<open>The type of a series, from the kinds of its values\<close>

text \<open>
  The kinds of single values: digits only (the empty text is one of them), a minus sign and digits,
  \<open>null\<close> or \<open>NULL\<close>, the words for booleans, what is a time, other text, bytes that are not UTF-8. A value
  whose parsing raises, or whose validation does not return, has no kind.
\<close>

datatype value_kind = KUnsigned | KSigned | KNull | KBool | KTime | KText | KBinary

definition value_kind :: "(bytes \<Rightarrow> tm option) \<Rightarrow> u64 \<Rightarrow> bytes \<Rightarrow> value_kind option" where
  "value_kind strptime now v =
     (if \<forall>c \<in> set v. is_digit c then Some KUnsigned
      else if hd v = 45 \<and> (\<forall>c \<in> set (tl v). is_digit c) then Some KSigned
      else if v \<in> set (map ascii [''null'', ''NULL'']) then Some KNull
      else if v \<in> set (map ascii [''true'', ''TRUE'', ''false'', ''FALSE'', ''yes'', ''YES'', ''no'', ''NO'']) then Some KBool
      else case parseTime strptime v now of
             Inl e \<Rightarrow> None
           | Inr (Some t) \<Rightarrow> Some KTime
           | Inr None \<Rightarrow> map_option (\<lambda>valid. if valid then KText else KBinary) (isValidUTF8 v))"

text \<open>The type that fits a set of kinds.\<close>

definition series_type :: "value_kind set \<Rightarrow> HumanDataType" where
  "series_type K =
     (if KBinary \<in> K then HDT_BINARY
      else if K \<subseteq> {KNull} then HDT_NULL_OR_EMPTY
      else if K \<subseteq> {KNull, KUnsigned} then
        (if KNull \<in> K then HDT_UNSIGNED_INTEGER_NULLABLE else HDT_UNSIGNED_INTEGER)
      else if K \<subseteq> {KNull, KUnsigned, KSigned} then
        (if KNull \<in> K then HDT_SIGNED_INTEGER_NULLABLE else HDT_SIGNED_INTEGER)
      else if K \<subseteq> {KNull, KBool} then (if KNull \<in> K then HDT_BOOLEAN_NULLABLE else HDT_BOOLEAN)
      else if K \<subseteq> {KNull, KTime} then (if KNull \<in> K then HDT_DATETIME_NULLABLE else HDT_DATETIME)
      else HDT_TEXT)"

text \<open>The same, from what is among the kinds.\<close>

definition kinds_type :: "bool \<Rightarrow> bool \<Rightarrow> bool \<Rightarrow> bool \<Rightarrow> bool \<Rightarrow> bool \<Rightarrow> bool \<Rightarrow> HumanDataType" where
  "kinds_type u s n b t x y =
     (if y then HDT_BINARY
      else if \<not> (u \<or> s \<or> b \<or> t \<or> x) then HDT_NULL_OR_EMPTY
      else if \<not> (s \<or> b \<or> t \<or> x) then (if n then HDT_UNSIGNED_INTEGER_NULLABLE else HDT_UNSIGNED_INTEGER)
      else if \<not> (b \<or> t \<or> x) then (if n then HDT_SIGNED_INTEGER_NULLABLE else HDT_SIGNED_INTEGER)
      else if \<not> (u \<or> s \<or> t \<or> x) then (if n then HDT_BOOLEAN_NULLABLE else HDT_BOOLEAN)
      else if \<not> (u \<or> s \<or> b \<or> x) then (if n then HDT_DATETIME_NULLABLE else HDT_DATETIME)
      else HDT_TEXT)"

lemma kinds_subset:
  "K \<subseteq> S \<longleftrightarrow> (KUnsigned \<in> K \<longrightarrow> KUnsigned \<in> S) \<and> (KSigned \<in> K \<longrightarrow> KSigned \<in> S) \<and> (KNull \<in> K \<longrightarrow> KNull \<in> S) \<and>
     (KBool \<in> K \<longrightarrow> KBool \<in> S) \<and> (KTime \<in> K \<longrightarrow> KTime \<in> S) \<and> (KText \<in> K \<longrightarrow> KText \<in> S) \<and>
     (KBinary \<in> K \<longrightarrow> KBinary \<in> S)" (is "_ \<longleftrightarrow> ?all")
proof
  assume all: ?all
  show "K \<subseteq> S"
  proof
    fix k assume "k \<in> K"
    with all show "k \<in> S" by (cases k) simp_all
  qed
qed blast

lemma series_type_kinds:
  "series_type K = kinds_type (KUnsigned \<in> K) (KSigned \<in> K) (KNull \<in> K) (KBool \<in> K) (KTime \<in> K) (KText \<in> K) (KBinary \<in> K)"
proof (cases "KBinary \<in> K")
  case False
  then show ?thesis
    unfolding series_type_def kinds_subset [of K] kinds_type_def by (simp only: if_False insert_iff empty_iff value_kind.distinct simp_thms) argo
qed (simp add: series_type_def kinds_type_def)

lemmas series_step_simps = series_step_def merge_type_def null_type_def unsigned_nullable_type_def signed_nullable_type_def

lemma kinds_step:
  assumes "u \<or> s \<or> n \<or> b \<or> t \<or> x \<or> y"
  shows "kinds_type True s n b t x y = series_step HDT_UNSIGNED_INTEGER (kinds_type u s n b t x y)"
    "kinds_type u True n b t x y = series_step HDT_SIGNED_INTEGER (kinds_type u s n b t x y)"
    "kinds_type u s True b t x y = series_step HDT_NULL_OR_EMPTY (kinds_type u s n b t x y)"
    "kinds_type u s n True t x y = series_step HDT_BOOLEAN (kinds_type u s n b t x y)"
    "kinds_type u s n b True x y = series_step HDT_DATETIME (kinds_type u s n b t x y)"
    "kinds_type u s n b t True y = series_step HDT_TEXT (kinds_type u s n b t x y)"
    "kinds_type u s n b t x True = series_step HDT_BINARY (kinds_type u s n b t x y)"
  using assms by (cases u; cases s; cases n; cases b; cases t; cases x; cases y; simp add: kinds_type_def series_step_simps)+

lemma series_type_single:
  "series_type {k} = (case k of KUnsigned \<Rightarrow> HDT_UNSIGNED_INTEGER | KSigned \<Rightarrow> HDT_SIGNED_INTEGER | KNull \<Rightarrow> HDT_NULL_OR_EMPTY
     | KBool \<Rightarrow> HDT_BOOLEAN | KTime \<Rightarrow> HDT_DATETIME | KText \<Rightarrow> HDT_TEXT | KBinary \<Rightarrow> HDT_BINARY)"
  by (cases k) (simp_all add: series_type_kinds kinds_type_def)

lemma series_type_insert:
  assumes "K \<noteq> {}"
  shows "series_type (insert k K) = series_step (series_type {k}) (series_type K)"
proof -
  have "KUnsigned \<in> K \<or> KSigned \<in> K \<or> KNull \<in> K \<or> KBool \<in> K \<or> KTime \<in> K \<or> KText \<in> K \<or> KBinary \<in> K"
    using assms kinds_subset [of K "{}"] by blast
  note step = kinds_step [OF this]
  show ?thesis
    unfolding series_type_single unfolding series_type_kinds
    by (cases k) (simp_all add: step(1) [symmetric] step(2) [symmetric] step(3) [symmetric] step(4) [symmetric]
        step(5) [symmetric] step(6) [symmetric] step(7) [symmetric])
qed

lemma isNumber_cases:
  "isNumber v \<longleftrightarrow> (\<forall>c \<in> set v. is_digit c) \<or> v \<noteq> [] \<and> hd v = 45 \<and> (\<forall>c \<in> set (tl v). is_digit c)"
  by (cases v) (simp_all add: isNumber_iff isDigitString_def list_all_iff is_digit_def)

lemma detect_number:
  assumes "isNumber v"
  shows "detectDataType strptime now v =
    Some (Inr (if \<forall>c \<in> set v. is_digit c then HDT_UNSIGNED_INTEGER else HDT_SIGNED_INTEGER))"
proof -
  have minus: "beginsWith v (ascii ''-'') \<longleftrightarrow> v \<noteq> [] \<and> hd v = 45"
    by (cases v) (auto simp: beginsWith_def ascii_def)
  have "\<not> is_digit 45" by (simp add: is_digit_def)
  then have "(\<forall>c \<in> set v. is_digit c) \<longleftrightarrow> \<not> (v \<noteq> [] \<and> hd v = 45)"
    using assms unfolding isNumber_cases by (metis list.set_sel(1))
  then show ?thesis
    using assms isNumber_no_separator [OF assms, of 46] isNumber_no_separator [OF assms, of 44] minus
    by (simp add: detectDataType_def ascii_def)
qed

lemma detect_other:
  assumes "\<not> isNumber v" and "\<not> isNullOrEmpty v"
  shows "detectDataType strptime now v =
    (if v \<in> set (map ascii [''true'', ''TRUE'', ''false'', ''FALSE'', ''yes'', ''YES'', ''no'', ''NO'']) then Some (Inr HDT_BOOLEAN)
     else case parseTime strptime v now of
            Inl e \<Rightarrow> Some (Inl e)
          | Inr (Some t) \<Rightarrow> Some (Inr HDT_DATETIME)
          | Inr None \<Rightarrow> map_option (\<lambda>valid. Inr (if valid then HDT_TEXT else HDT_BINARY)) (isValidUTF8 v))"
  using assms by (simp add: detectDataType_def cong: sum.case_cong option.case_cong)

lemma detect_kind:
  assumes "value_kind strptime now v = Some k"
  shows "detectDataType strptime now v = Some (Inr (series_type {k}))"
proof (cases "isNumber v")
  case True
  then have "k = (if \<forall>c \<in> set v. is_digit c then KUnsigned else KSigned)"
    using assms isNumber_cases [of v] by (simp add: value_kind_def split: if_splits)
  then show ?thesis using detect_number [OF True] by (simp add: series_type_single)
next
  case False
  then have n: "(\<forall>c \<in> set v. is_digit c) = False" "(hd v = 45 \<and> (\<forall>c \<in> set (tl v). is_digit c)) = False" "v \<noteq> []"
    using isNumber_cases [of v] by auto
  show ?thesis
  proof (cases "isNullOrEmpty v")
    case True
    then have "v \<in> set (map ascii [''null'', ''NULL''])" using n(3) by (auto simp: isNullOrEmpty_def)
    then have "k = KNull" using assms by (simp only: value_kind_def n if_False if_True option.inject)
    then show ?thesis using True False by (simp add: detectDataType_def series_type_single)
  next
    case null: False
    then have "(v \<in> set (map ascii [''null'', ''NULL''])) = False" by (auto simp: isNullOrEmpty_def)
    with assms show ?thesis
      unfolding detect_other [OF False null] value_kind_def n
      by (auto simp only: if_False if_True series_type_single value_kind.case option.inject map_option_case
          split: if_splits sum.splits option.splits)
  qed
qed

lemma detect_series_kinds:
  assumes "\<forall>v \<in> set vs. value_kind strptime now v = Some (kind v)" and "vs \<noteq> []"
  shows "detect_series strptime now vs HDT_UNKNOWN = Some (Inr (series_type (kind ` set vs)))"
proof -
  have "\<forall>v \<in> set vs. detectDataType strptime now v = Some (Inr (series_type {kind v}))"
    using assms(1) detect_kind by blast
  note fold = detect_series_fold [OF this]
  have rest: "fold series_step (map (\<lambda>v. series_type {kind v}) ws) (series_type K) = series_type (kind ` set ws \<union> K)"
    if "K \<noteq> {}" for ws K using that
  proof (induction ws arbitrary: K)
    case (Cons w ws)
    from Cons.IH [of "insert (kind w) K"] series_type_insert [OF Cons.prems, of "kind w"] show ?case by simp
  qed simp
  obtain w ws where vs: "vs = w # ws" using assms(2) by (cases vs) auto
  have "series_step (series_type {kind w}) HDT_UNKNOWN = series_type {kind w}"
    by (simp add: series_step_def merge_type_def)
  with fold [of HDT_UNKNOWN] rest [of "{kind w}" ws] show ?thesis by (simp add: vs)
qed

text \<open>An empty value counts as a number: missing values are taken for unsigned integers.\<close>

lemma empty_is_unsigned: "detectDataType strptime now [] = Some (Inr HDT_UNSIGNED_INTEGER)"
  by (simp add: detectDataType_def isNumber_iff isDigitString_def StringUtil_includes_def str_find_def ascii_def
      beginsWith_def)

section \<open>Timestamps and durations\<close>

lemma digits_isDigitString: "isDigitString (digits n)" and digits_not_empty: "digits n \<noteq> []"
  using digits_props [of n] by (simp_all add: isDigitString_def list_all_iff)

lemma digits_not_ascii: "c \<in> set s \<Longrightarrow> \<not> is_digit (of_char c) \<Longrightarrow> digits n \<noteq> ascii s"
  using digits_props [of n] by (auto simp: ascii_def)

lemma stoull_digits: "n < 2 ^ 64 \<Longrightarrow> stoull (digits n) = Inr (word_of_nat n)"
  by (simp add: stoull_def strtol_parse_digits)

lemma hd_digits: "is_digit (hd (digits n))"
  using digits_props [of n] by simp

lemma parseTime_timestamp:
  assumes "n < 2 ^ 64" and "n \<noteq> 30000000000" and "n \<noteq> 30000000000000"
  shows "parseTime strptime (digits n) now =
    Inr (Some (word_of_nat (if n < 30000000000 then n * 1000000 else if n < 30000000000000 then n * 1000 else n)))"
proof -
  have now: "digits n \<noteq> ascii ''now''" by (rule digits_not_ascii [of "CHR ''n''"]) (simp_all add: is_digit_def)
  have minus: "\<not> beginsWith (digits n) (ascii ''-'')"
    using hd_digits [of n] by (cases "digits n") (auto simp: beginsWith_def ascii_def is_digit_def)
  have u: "unat (word_of_nat n :: u64) = n" using assms(1) by (simp add: unat_of_nat)
  have "raw_timestamp (digits n) =
      Some (word_of_nat (if n < 30000000000 then n * 1000000 else if n < 30000000000000 then n * 1000 else n))"
    using assms u by (simp add: raw_timestamp_def digits_isDigitString stoull_digits bound_milli_def bound_micro_def
        word_less_nat_alt kMicrosPerSecond_def)
  then show ?thesis by (simp add: parseTime_def now minus)
qed

text \<open>A minus sign and a number with a unit is a time before now.\<close>

lemma drop_sign_digits:
  assumes "s \<noteq> []" and "\<not> is_digit (hd s)"
  shows "stoull (digits n @ s) = stoull (digits n)" and "drop (stoull_size (digits n @ s)) (digits n @ s) = s"
proof -
  obtain c cs where c: "digits n = c # cs" "is_digit c" "\<forall>x \<in> set cs. is_digit x"
    using digits_props [of n] by (cases "digits n") auto
  have tw: "takeWhile is_digit (cs @ s) = cs" using assms c(3) by (cases s) simp_all
  have tw': "takeWhile is_digit cs = cs" using c(3) by (simp only: takeWhile_eq_all_conv)
  show "stoull (digits n @ s) = stoull (digits n)"
    using is_space_digit [OF c(2)] c(2) by (simp add: c(1) stoull_def strtol_parse_def tw, simp only: tw', simp)
  show "drop (stoull_size (digits n @ s)) (digits n @ s) = s"
    using is_space_digit [OF c(2)] c(2) by (simp add: c(1) stoull_size_def tw)
qed

lemma ascii_word:
  "u \<in> set (map ascii ns) \<Longrightarrow> list_all (\<lambda>s. s \<noteq> [] \<and> \<not> is_digit (of_char (hd s))) ns \<Longrightarrow>
     u \<noteq> [] \<and> \<not> is_digit (hd u)"
  by (auto simp: ascii_def list_all_iff hd_map)

lemma duration_unit_word:
  assumes "duration_unit u = Some k"
  shows "u \<noteq> [] \<and> \<not> is_digit (hd u)"
proof (rule ccontr)
  assume h: "\<not> (u \<noteq> [] \<and> \<not> is_digit (hd u))"
  have n: "u \<notin> set (map ascii ns)" if "list_all (\<lambda>s. s \<noteq> [] \<and> \<not> is_digit (of_char (hd s))) ns" for ns
    using ascii_word [of u ns] that h by blast
  have "u \<notin> set (map ascii [''s'', ''sec'', ''secs'', ''second'', ''seconds''])"
    "u \<notin> set (map ascii [''m'', ''min'', ''mins'', ''minute'', ''minutes''])"
    "u \<notin> set (map ascii [''h'', ''hour'', ''hours''])" "u \<notin> set (map ascii [''d'', ''day'', ''days''])"
    "u \<notin> set (map ascii [''w'', ''week'', ''weeks''])" "u \<notin> set (map ascii [''y'', ''year'', ''years''])"
    by (rule n, simp add: is_digit_def)+
  with assms show False by (simp only: duration_unit_def if_False option.distinct)
qed

lemma parseDuration_unit:
  assumes "n < 2 ^ 64" and "duration_unit u = Some k"
  shows "parseDuration (digits n @ u) = Inr (Some (word_of_nat n * k))"
proof -
  have u: "u \<noteq> []" "\<not> is_digit (hd u)" using duration_unit_word [OF assms(2)] by simp_all
  show ?thesis
    unfolding parseDuration_def drop_sign_digits [OF u] stoull_digits [OF assms(1)] assms(2) by simp
qed

lemma parseTime_before:
  assumes "n < 2 ^ 64" and "duration_unit u = Some k"
  shows "parseTime strptime (45 # digits n @ u) now = Inr (Some (now - word_of_nat n * k))"
proof -
  have "is_digit ((digits n @ u) ! 0)"
    using hd_digits [of n] digits_not_empty [of n] by (cases "digits n") auto
  then show ?thesis
    using parseDuration_unit [OF assms] digits_not_empty [of n]
    by (simp add: parseTime_def ascii_def beginsWith_def)
qed

end
