(* ===== verification/CS_CsvImport.thy ===== *)
theory CS_CsvImport
  imports CS_Csv CS_Human CS_Stripes
begin

text \<open>
  \<open>RecordShredder::addRecordsFromCSV\<close> (\<open>cstable/RecordShredder.cc\<close>): the import of a CSV stream
  into a table. \<open>strptime\<close> and \<open>stod\<close> are the functions of the C library, \<open>now r j\<close> is the clock
  when the field \<open>j\<close> of row \<open>r\<close> is parsed.
\<close>

section \<open>The import\<close>

text \<open>
  The type a column writer reports. That of the boolean column is \<open>UNSIGNED_INT\<close>; a paged column
  has the type of \<open>DefaultColumnWriter\<close>.
\<close>

definition ColumnWriter_type :: "table_writer \<Rightarrow> nat \<Rightarrow> ColumnType" where
  "ColumnWriter_type tw i =
     (case tw_version tw of
        V0_2_0 \<Rightarrow> UNSIGNED_INT
      | V0_1_0 \<Rightarrow>
          (case tw_v1_writers tw ! i of
             BooleanCW _ \<Rightarrow> UNSIGNED_INT
           | BitPackedIntCW _ \<Rightarrow> UNSIGNED_INT
           | UInt32CW _ \<Rightarrow> cc_logical_type (tw_columns tw ! i)
           | UInt64CW _ \<Rightarrow> cc_logical_type (tw_columns tw ! i)
           | LEB128CW _ \<Rightarrow> cc_logical_type (tw_columns tw ! i)
           | DoubleCW _ \<Rightarrow> FLOAT
           | StringCW _ \<Rightarrow> STRING))"

definition ColumnWriter_maxDefinitionLevel :: "table_writer \<Rightarrow> nat \<Rightarrow> u64" where
  "ColumnWriter_maxDefinitionLevel tw i = cc_dlevel_max (tw_columns tw ! i)"

definition tw_writeSignedInt :: "u64 \<Rightarrow> u64 \<Rightarrow> u64 \<Rightarrow> nat \<Rightarrow> table_writer \<Rightarrow> table_writer res" where
  "tw_writeSignedInt r d v =
     tw_write (cw_writeSignedInt r d v) (\<lambda>c st. Inr (UnsignedIntColumnWriter_writeSignedInt c r d v st))"

text \<open>The exceptions of \<open>stoull\<close>, \<open>stoll\<close> and \<open>stod\<close> become a \<open>TypeError\<close>.\<close>

definition csv_write_field ::
  "(bytes \<Rightarrow> tm option) \<Rightarrow> (bytes \<Rightarrow> double res) \<Rightarrow> u64 \<Rightarrow> bytes \<Rightarrow> nat \<times> ColumnType \<Rightarrow>
   table_writer \<Rightarrow> table_writer res" where
  "csv_write_field strptime stod now v = (\<lambda>(col, type) tw.
     let d = ColumnWriter_maxDefinitionLevel tw col
     in if isNullOrEmpty v
        then (if d = 0 then Inl RuntimeError else tw_writeNull 0 0 col tw)
        else case type of
               STRING \<Rightarrow> tw_writeString 0 d v col tw
             | UNSIGNED_INT \<Rightarrow>
                 (case stoull v of Inl _ \<Rightarrow> Inl TypeError | Inr n \<Rightarrow> tw_writeUnsignedInt 0 d n col tw)
             | SIGNED_INT \<Rightarrow>
                 (case stoll v of Inl _ \<Rightarrow> Inl TypeError | Inr n \<Rightarrow> tw_writeSignedInt 0 d n col tw)
             | DATETIME \<Rightarrow>
                 res_bind (parseTime strptime v now) (\<lambda>t.
                   case t of None \<Rightarrow> Inl TypeError | Some t \<Rightarrow> tw_writeDateTime 0 d t col tw)
             | FLOAT \<Rightarrow> (case stod v of Inl _ \<Rightarrow> Inl TypeError | Inr x \<Rightarrow> tw_writeFloat 0 d x col tw)
             | BOOLEAN \<Rightarrow> tw_writeBoolean 0 d (parseBoolean v = Some True) col tw
             | SUBRECORD \<Rightarrow> Inl IllegalStateError
             | OtherType _ \<Rightarrow> Inr tw)"

text \<open>A row has values for its first fields; the missing columns get a null.\<close>

definition csv_import_row ::
  "(bytes \<Rightarrow> tm option) \<Rightarrow> (bytes \<Rightarrow> double res) \<Rightarrow> (nat \<Rightarrow> u64) \<Rightarrow> (nat \<times> ColumnType) list \<Rightarrow> nat list \<Rightarrow>
   bytes list \<Rightarrow> table_writer \<Rightarrow> table_writer res" where
  "csv_import_row strptime stod now writers missing row tw =
     res_bind (res_fold (\<lambda>(i, v, col). csv_write_field strptime stod (now i) v col)
                 (enumerate 0 (zip row writers)) tw) (\<lambda>tw.
     res_bind (res_fold (tw_writeNull 0 0) missing tw) (\<lambda>tw. Inr (CSTableWriter_addRow tw)))"

partial_function (option) csv_import_rows ::
  "(bytes \<Rightarrow> tm option) \<Rightarrow> (bytes \<Rightarrow> double res) \<Rightarrow> (nat \<Rightarrow> nat \<Rightarrow> u64) \<Rightarrow> csv_format \<Rightarrow>
   (nat \<times> ColumnType) list \<Rightarrow> nat list \<Rightarrow> nat \<Rightarrow> input_stream \<Rightarrow> table_writer \<Rightarrow> table_writer res option" where
  "csv_import_rows strptime stod now fmt writers missing r input tw =
     (case CSV_readNextRow fmt input of
        None \<Rightarrow> None
      | Some (found, row, input) \<Rightarrow>
          if \<not> found then Some (Inr tw)
          else case csv_import_row strptime stod (now r) writers missing row tw of
                 Inl e \<Rightarrow> Some (Inl e)
               | Inr tw \<Rightarrow> csv_import_rows strptime stod now fmt writers missing (Suc r) input tw)"

definition csv_header_writers :: "bytes list \<Rightarrow> table_writer \<Rightarrow> (nat \<times> ColumnType) list res" where
  "csv_header_writers columns tw =
     res_fold (\<lambda>col ws.
       if \<not> CSTableWriter_hasColumn tw col then Inl RuntimeError
       else res_bind (CSTableWriter_getColumnWriter tw col) (\<lambda>i. Inr (ws @ [(i, ColumnWriter_type tw i)])))
     columns []"

text \<open>The set of the missing columns is walked in the order of their names.\<close>

definition csv_missing :: "bytes list \<Rightarrow> table_writer \<Rightarrow> bytes list" where
  "csv_missing columns tw = sort (remdups (filter (\<lambda>n. n \<notin> set columns) (map cc_column_name (tw_columns tw))))"

definition csv_missing_writers :: "bytes list \<Rightarrow> table_writer \<Rightarrow> nat list res" where
  "csv_missing_writers names tw =
     res_fold (\<lambda>col ws.
       res_bind (CSTableWriter_getColumnWriter tw col) (\<lambda>i.
         if ColumnWriter_maxDefinitionLevel tw i = 0 then Inl RuntimeError else Inr (ws @ [i])))
     names []"

definition addRecordsFromCSV ::
  "(bytes \<Rightarrow> tm option) \<Rightarrow> (bytes \<Rightarrow> double res) \<Rightarrow> (nat \<Rightarrow> nat \<Rightarrow> u64) \<Rightarrow> csv_format \<Rightarrow> input_stream \<Rightarrow>
   table_writer \<Rightarrow> table_writer res option" where
  "addRecordsFromCSV strptime stod now fmt input tw =
     (case CSV_readNextRow fmt input of
        None \<Rightarrow> None
      | Some (_, columns, input) \<Rightarrow>
          (case csv_header_writers columns tw of
             Inl e \<Rightarrow> Some (Inl e)
           | Inr writers \<Rightarrow>
               (case csv_missing_writers (csv_missing columns tw) tw of
                  Inl e \<Rightarrow> Some (Inl e)
                | Inr missing \<Rightarrow> csv_import_rows strptime stod now fmt writers missing 0 input tw)))"

section \<open>The cells of a row\<close>

text \<open>
  What the import stores for a value: \<open>csv_cell\<close> is the cell, \<open>None\<close> where the import raises.
\<close>

definition csv_datum :: "(bytes \<Rightarrow> tm option) \<Rightarrow> (bytes \<Rightarrow> double res) \<Rightarrow> u64 \<Rightarrow> ColumnType \<Rightarrow> bytes \<Rightarrow> datum option" where
  "csv_datum strptime stod now type v =
     (case type of
        STRING \<Rightarrow> Some (DString v)
      | UNSIGNED_INT \<Rightarrow> (case stoull v of Inl _ \<Rightarrow> None | Inr n \<Rightarrow> Some (DUInt n))
      | SIGNED_INT \<Rightarrow> (case stoll v of Inl _ \<Rightarrow> None | Inr n \<Rightarrow> Some (DUInt n))
      | DATETIME \<Rightarrow> (case parseTime strptime v now of Inr (Some t) \<Rightarrow> Some (DUInt t) | _ \<Rightarrow> None)
      | FLOAT \<Rightarrow> (case stod v of Inl _ \<Rightarrow> None | Inr x \<Rightarrow> Some (DFloat x))
      | BOOLEAN \<Rightarrow> Some (DBool (parseBoolean v = Some True))
      | _ \<Rightarrow> None)"

definition csv_cell ::
  "(bytes \<Rightarrow> tm option) \<Rightarrow> (bytes \<Rightarrow> double res) \<Rightarrow> u64 \<Rightarrow> u64 \<Rightarrow> ColumnType \<Rightarrow> bytes \<Rightarrow> datum cell option" where
  "csv_cell strptime stod now d type v =
     (if isNullOrEmpty v then (if d = 0 then None else Some (0, 0, None))
      else map_option (\<lambda>x. (0, d, Some x)) (csv_datum strptime stod now type v))"

lemma csv_write_field_put:
  assumes "tw_version tw = V0_1_0" and "first_named name (tw_columns tw) = Some i"
    and "csv_cell strptime stod now (cc_dlevel_max (tw_columns tw ! i)) type v = Some cell"
  shows "csv_write_field strptime stod now v (i, type) tw = tw_put (name, cell) tw"
proof -
  have put: "tw_put (name, c) tw = tw_write_column i (cw_write_cell c) tw" for c
    using assms(2) by (simp add: tw_put_def CSTableWriter_getColumnWriter_def)
  show ?thesis using assms(1,3) unfolding put
    by (auto simp: csv_write_field_def csv_cell_def csv_datum_def ColumnWriter_maxDefinitionLevel_def Let_def
        tw_writeNull_def tw_writeString_def tw_writeUnsignedInt_def tw_writeSignedInt_def tw_writeDateTime_def
        tw_writeFloat_def tw_writeBoolean_def tw_write_def cw_write_cell_fun cw_writeSignedInt_def
        cw_writeUnsignedInt_def cw_writeDateTime_def
        split: if_splits ColumnType.splits sum.splits option.splits)
qed

section \<open>The import is a sequence of cell writes\<close>

lemma res_fold_map_inv:
  assumes "\<And>i s. i \<in> set xs \<Longrightarrow> I s \<Longrightarrow> f (a i) s = g (b i) s" and "\<And>y s s'. I s \<Longrightarrow> g y s = Inr s' \<Longrightarrow> I s'"
    and "I s"
  shows "res_fold f (map a xs) s = res_fold g (map b xs) s"
  using assms(1,3)
proof (induction xs arbitrary: s)
  case (Cons x xs)
  then have "f (a x) s = g (b x) s" by simp
  with Cons assms(2) show ?case by (cases "g (b x) s") auto
qed simp

lemma res_fold_collect:
  "(\<And>x ws. x \<in> set xs \<Longrightarrow> f x ws = Inr (ws @ [h x])) \<Longrightarrow> res_fold f xs ws = Inr (ws @ map h xs)"
  by (induction xs arbitrary: ws) auto

definition v1_writes :: "ColumnConfig list \<Rightarrow> table_writer \<Rightarrow> bool" where
  "v1_writes cols tw \<longleftrightarrow> tw_version tw = V0_1_0 \<and> tw_columns tw = cols"

lemma tw_put_v1_writes: "v1_writes cols tw \<Longrightarrow> tw_put op tw = Inr tw' \<Longrightarrow> v1_writes cols tw'"
  by (auto simp: v1_writes_def tw_put_def CSTableWriter_getColumnWriter_def tw_write_column_def res_bind_Inr
      split: prod.splits option.splits)

lemma tw_puts_v1_writes: "v1_writes cols tw \<Longrightarrow> res_fold tw_put ops tw = Inr tw' \<Longrightarrow> v1_writes cols tw'"
  by (induction ops arbitrary: tw) (auto simp: res_bind_Inr dest: tw_put_v1_writes)

text \<open>The type a column reports, from its configuration.\<close>

definition reported_type :: "ColumnConfig \<Rightarrow> ColumnType" where
  "reported_type c =
     (case cc_storage_type c of
        BOOLEAN_BITPACKED \<Rightarrow> UNSIGNED_INT
      | UINT32_BITPACKED \<Rightarrow> UNSIGNED_INT
      | FLOAT_IEEE754 \<Rightarrow> FLOAT
      | STRING_PLAIN \<Rightarrow> STRING
      | _ \<Rightarrow> cc_logical_type c)"

definition column_index :: "ColumnConfig list \<Rightarrow> bytes \<Rightarrow> nat" where
  "column_index cols name = the (first_named name cols)"

lemma column_index:
  assumes "name \<in> cc_column_name ` set cols"
  shows "first_named name cols = Some (column_index cols name)" "column_index cols name < length cols"
    "cc_column_name (cols ! column_index cols name) = name"
  using first_named_ok [OF assms] by (auto simp: column_index_def)

lemma column_index_name:
  assumes "distinct (map cc_column_name cols)" and "c \<in> set cols"
  shows "cols ! column_index cols (cc_column_name c) = c"
proof -
  have "cc_column_name c \<in> cc_column_name ` set cols" using assms(2) by simp
  note i = column_index [OF this]
  then have "cols ! column_index cols (cc_column_name c) \<in> set cols" by simp
  with assms i(3) show ?thesis by (metis distinct_map inj_onD)
qed

lemma session_type:
  assumes "tw_session cols tw ops" and "i < length cols"
  shows "ColumnWriter_type tw i = reported_type (cols ! i)"
proof -
  have "cw_encoding (tw_v1_writers tw ! i) = cc_storage_type (cols ! i)" "tw_version tw = V0_1_0" "tw_columns tw = cols"
    using assms by (simp_all add: tw_session_def writers_hold_def)
  then show ?thesis
    by (cases "tw_v1_writers tw ! i") (simp_all add: ColumnWriter_type_def reported_type_def flip: \<open>cw_encoding _ = _\<close>)
qed

text \<open>
  The cell a row holds for a column, and when the import accepts it. Nothing is asked for the columns
  behind the last field of a short row: the import writes nothing for them.
\<close>

definition csv_row_cell ::
  "(bytes \<Rightarrow> tm option) \<Rightarrow> (bytes \<Rightarrow> double res) \<Rightarrow> (nat \<Rightarrow> u64) \<Rightarrow> bytes list \<Rightarrow> bytes list \<Rightarrow> ColumnConfig \<Rightarrow>
   datum cell option" where
  "csv_row_cell strptime stod now names row c =
     (case map_of (zip names (enumerate 0 row)) (cc_column_name c) of
        None \<Rightarrow> if cc_dlevel_max c = 0 then None else Some (0, 0, None)
      | Some (j, v) \<Rightarrow> csv_cell strptime stod (now j) (cc_dlevel_max c) (reported_type c) v)"

definition csv_row_ok ::
  "(bytes \<Rightarrow> tm option) \<Rightarrow> (bytes \<Rightarrow> double res) \<Rightarrow> (nat \<Rightarrow> u64) \<Rightarrow> bytes list \<Rightarrow> bytes list \<Rightarrow> ColumnConfig \<Rightarrow> bool" where
  "csv_row_ok strptime stod now names row c \<longleftrightarrow> cc_column_name c \<in> set (drop (length row) names) \<or>
     (case csv_row_cell strptime stod now names row c of
        None \<Rightarrow> False
      | Some (_, _, None) \<Rightarrow> True
      | Some (_, _, Some x) \<Rightarrow> storable (cc_storage_type c) x)"

definition csv_row_ops ::
  "(bytes \<Rightarrow> tm option) \<Rightarrow> (bytes \<Rightarrow> double res) \<Rightarrow> (nat \<Rightarrow> u64) \<Rightarrow> ColumnConfig list \<Rightarrow> bytes list \<Rightarrow> bytes list \<Rightarrow>
   bytes list \<Rightarrow> (bytes \<times> datum cell) list" where
  "csv_row_ops strptime stod now cols names missing row =
     map (\<lambda>n. (n, the (csv_row_cell strptime stod now names row (cols ! column_index cols n))))
       (take (length row) names @ missing)"

lemma map_of_zip_index:
  assumes "distinct xs" and "i < length xs" and "i < length ys"
  shows "map_of (zip xs ys) (xs ! i) = Some (ys ! i)"
proof (rule map_of_is_SomeI)
  show "distinct (map fst (zip xs ys))" using assms(1) by (simp add: map_fst_zip_take)
  show "(xs ! i, ys ! i) \<in> set (zip xs ys)" using assms by (auto simp: set_zip)
qed

lemma csv_row_cell_index:
  assumes "distinct names" and "i < length names" and "i < length row" and "cc_column_name c = names ! i"
  shows "csv_row_cell strptime stod now names row c =
    csv_cell strptime stod (now i) (cc_dlevel_max c) (reported_type c) (row ! i)"
  using map_of_zip_index [of names i "enumerate 0 row"] assms
  by (simp add: csv_row_cell_def nth_enumerate_eq)

lemma csv_row_cell_missing:
  assumes "cc_column_name c \<notin> set names" and "cc_dlevel_max c \<noteq> 0"
  shows "csv_row_cell strptime stod now names row c = Some (0, 0, None)"
proof -
  have "map_of (zip names (enumerate 0 row)) (cc_column_name c) = None"
    using assms(1) by (auto simp: map_of_eq_None_iff dest: set_zip_leftD)
  with assms(2) show ?thesis by (simp add: csv_row_cell_def)
qed

definition csv_writers :: "ColumnConfig list \<Rightarrow> bytes list \<Rightarrow> (nat \<times> ColumnType) list" where
  "csv_writers cols = map (\<lambda>n. (column_index cols n, reported_type (cols ! column_index cols n)))"

lemma csv_import_row_puts:
  assumes names: "distinct names" "set names \<subseteq> cc_column_name ` set cols"
    and missing: "set missing \<subseteq> cc_column_name ` set cols - set names"
      "\<forall>n \<in> set missing. cc_dlevel_max (cols ! column_index cols n) \<noteq> 0"
    and row: "\<forall>n \<in> set (take (length row) names). csv_row_cell strptime stod now names row (cols ! column_index cols n) \<noteq> None"
    and tw: "v1_writes cols tw"
  shows "csv_import_row strptime stod now (csv_writers cols names) (map (column_index cols) missing) row tw =
    res_bind (res_fold tw_put (csv_row_ops strptime stod now cols names missing row) tw) (\<lambda>tw. Inr (CSTableWriter_addRow tw))"
proof -
  let ?cell = "\<lambda>n. the (csv_row_cell strptime stod now names row (cols ! column_index cols n))"
  define m where "m = min (length row) (length names)"
  let ?g = "\<lambda>n. (column_index cols n, reported_type (cols ! column_index cols n))"
  have z: "enumerate 0 (zip row (csv_writers cols names)) = map (\<lambda>j. (j, row ! j, ?g (names ! j))) [0..<m]"
    by (rule nth_equalityI) (simp_all add: csv_writers_def m_def nth_enumerate_eq)
  have t: "map (\<lambda>n. (n, ?cell n)) (take (length row) names) = map (\<lambda>j. (names ! j, ?cell (names ! j))) [0..<m]"
    by (rule nth_equalityI) (simp_all add: m_def)
  have "res_fold (\<lambda>(i, v, col). csv_write_field strptime stod (now i) v col) (enumerate 0 (zip row (csv_writers cols names))) tw =
      res_fold tw_put (map (\<lambda>n. (n, ?cell n)) (take (length row) names)) tw" unfolding z t
  proof (rule res_fold_map_inv [of _ "v1_writes cols"])
    fix j and s :: table_writer assume "j \<in> set [0..<m]" and s: "v1_writes cols s"
    then have j: "j < length names" "j < length row" by (simp_all add: m_def)
    then have n: "names ! j \<in> cc_column_name ` set cols" using names(2) nth_mem by blast
    note i = column_index [OF n]
    have "names ! j \<in> set (take (length row) names)" using j by (auto simp: in_set_conv_nth)
    with row obtain cell where cell: "csv_row_cell strptime stod now names row (cols ! column_index cols (names ! j)) = Some cell"
      by blast
    with csv_row_cell_index [OF names(1) j, of "cols ! column_index cols (names ! j)"] i(3)
    have "csv_cell strptime stod (now j) (cc_dlevel_max (cols ! column_index cols (names ! j)))
        (reported_type (cols ! column_index cols (names ! j))) (row ! j) = Some cell" by simp
    with s i(1) cell show "(case (j, row ! j, ?g (names ! j)) of (i, v, col) \<Rightarrow> csv_write_field strptime stod (now i) v col) s =
        tw_put (names ! j, ?cell (names ! j)) s"
      by (simp add: csv_write_field_put v1_writes_def)
  qed (use tw in \<open>auto dest: tw_put_v1_writes\<close>)
  moreover have "res_fold (tw_writeNull 0 0) (map (column_index cols) missing) tw' =
      res_fold tw_put (map (\<lambda>n. (n, ?cell n)) missing) tw'" if "v1_writes cols tw'" for tw'
  proof (rule res_fold_map_inv [of _ "v1_writes cols"])
    fix n and s :: table_writer assume n: "n \<in> set missing" and s: "v1_writes cols s"
    then have "n \<in> cc_column_name ` set cols" "n \<notin> set names" using missing(1) by auto
    note i = column_index [OF this(1)]
    have "?cell n = (0, 0, None)" using csv_row_cell_missing missing(2) n i(3) \<open>n \<notin> set names\<close> by simp
    then show "tw_writeNull 0 0 (column_index cols n) s = tw_put (n, ?cell n) s"
      using s i(1) by (simp add: tw_put_def CSTableWriter_getColumnWriter_def v1_writes_def tw_writeNull_def tw_write_def
          cw_write_cell_fun tw_write_column_def)
  qed (use that in \<open>auto dest: tw_put_v1_writes\<close>)
  ultimately show ?thesis using tw
    by (cases "res_fold tw_put (map (\<lambda>n. (n, ?cell n)) (take (length row) names)) tw")
      (auto simp: csv_import_row_def csv_row_ops_def res_fold_append dest: tw_puts_v1_writes)
qed

section \<open>All rows\<close>

text \<open>The loop over the rows returns, and performs the rows the stream still has.\<close>

lemma csv_import_rows_stream:
  assumes "is_ok input"
  shows "csv_import_rows strptime stod now fmt writers missing r input tw =
    Some (res_fold (\<lambda>(r, row). csv_import_row strptime stod (now r) writers missing row)
            (enumerate r (csv_rows fmt (is_rest input))) tw)"
  using assms
proof (induction "length (is_rest input)" arbitrary: input r tw rule: less_induct)
  case less
  obtain found row rest where w: "csv_row fmt False [] (is_rest input) = (found, row, rest)"
    by (cases "csv_row fmt False [] (is_rest input)") auto
  from readNextRow_refines [OF less.prems w] obtain input' where
    n: "CSV_readNextRow fmt input = Some (found, row, input')" "is_ok input'" "is_rest input' = rest" by blast
  show ?case
  proof (cases found)
    case True
    then have i: "length (is_rest input') < length (is_rest input)"
      using n(3) w csv_row_shorter by auto
    have rows: "csv_rows fmt (is_rest input) = row # csv_rows fmt rest"
      using True by (subst csv_rows.simps) (simp add: w)
    show ?thesis using less.hyps [OF i n(2), of "Suc r"] True n(3)
      by (subst csv_import_rows.simps) (simp add: n(1) rows res_bind_def split: sum.splits)
  next
    case False
    have "csv_rows fmt (is_rest input) = []" using False by (subst csv_rows.simps) (simp add: w)
    then show ?thesis using False by (subst csv_import_rows.simps) (simp add: n(1))
  qed
qed

text \<open>The import of any stream returns: with the table filled or with one of its errors.\<close>

lemma addRecordsFromCSV_returns:
  assumes "is_ok input"
  shows "addRecordsFromCSV strptime stod now fmt input tw =
    Some (let (found, columns, rest) = csv_row fmt False [] (is_rest input)
          in res_bind (csv_header_writers columns tw) (\<lambda>writers.
             res_bind (csv_missing_writers (csv_missing columns tw) tw) (\<lambda>missing.
             res_fold (\<lambda>(r, row). csv_import_row strptime stod (now r) writers missing row)
               (enumerate 0 (csv_rows fmt rest)) tw)))"
proof -
  obtain found row rest where w: "csv_row fmt False [] (is_rest input) = (found, row, rest)"
    by (cases "csv_row fmt False [] (is_rest input)") auto
  from readNextRow_refines [OF assms w] obtain input' where
    n: "CSV_readNextRow fmt input = Some (found, row, input')" "is_ok input'" "is_rest input' = rest" by blast
  show ?thesis
    by (simp add: addRecordsFromCSV_def n w csv_import_rows_stream res_bind_def split: sum.splits)
qed

section \<open>The table after the import\<close>

definition csv_missing_names :: "ColumnConfig list \<Rightarrow> bytes list \<Rightarrow> bytes list" where
  "csv_missing_names cols names = sort (remdups (filter (\<lambda>n. n \<notin> set names) (map cc_column_name cols)))"

lemma set_csv_missing_names: "set (csv_missing_names cols names) = cc_column_name ` set cols - set names"
  by (auto simp: csv_missing_names_def)

lemma distinct_csv_missing_names: "distinct (csv_missing_names cols names)"
  by (simp add: csv_missing_names_def)

lemma csv_header_writers_session:
  assumes "tw_session cols tw ops" and "set names \<subseteq> cc_column_name ` set cols"
  shows "csv_header_writers names tw = Inr (csv_writers cols names)"
proof -
  have cols: "tw_columns tw = cols" using assms(1) by (simp add: tw_session_def)
  have "csv_header_writers names tw = Inr ([] @ csv_writers cols names)"
    unfolding csv_header_writers_def csv_writers_def
  proof (rule res_fold_collect)
    fix n and ws :: "(nat \<times> ColumnType) list" assume "n \<in> set names"
    then have "n \<in> cc_column_name ` set cols" using assms(2) by blast
    note i = column_index [OF this]
    show "(if \<not> CSTableWriter_hasColumn tw n then Inl RuntimeError
        else res_bind (CSTableWriter_getColumnWriter tw n) (\<lambda>i. Inr (ws @ [(i, ColumnWriter_type tw i)]))) =
      Inr (ws @ [(column_index cols n, reported_type (cols ! column_index cols n))])"
      using i session_type [OF assms(1) i(2)]
      by (simp add: CSTableWriter_hasColumn_def CSTableWriter_getColumnWriter_def cols)
  qed
  then show ?thesis by simp
qed

lemma csv_missing_writers_session:
  assumes "tw_columns tw = cols" and "set names \<subseteq> cc_column_name ` set cols"
    and "\<forall>n \<in> set names. cc_dlevel_max (cols ! column_index cols n) \<noteq> 0"
  shows "csv_missing_writers names tw = Inr (map (column_index cols) names)"
proof -
  have "csv_missing_writers names tw = Inr ([] @ map (column_index cols) names)"
    unfolding csv_missing_writers_def
  proof (rule res_fold_collect)
    fix n and ws :: "nat list" assume n: "n \<in> set names"
    then have "n \<in> cc_column_name ` set cols" using assms(2) by blast
    from column_index(1) [OF this] n assms(1,3)
    show "res_bind (CSTableWriter_getColumnWriter tw n) (\<lambda>i.
        if ColumnWriter_maxDefinitionLevel tw i = 0 then Inl RuntimeError else Inr (ws @ [i])) =
      Inr (ws @ [column_index cols n])"
      by (simp add: CSTableWriter_getColumnWriter_def ColumnWriter_maxDefinitionLevel_def)
  qed
  then show ?thesis by simp
qed

text \<open>
  The import accepts the rows below the header \<open>names\<close>: every required column is named, and every
  field that has a name above it can be converted and stored. A row may be shorter or longer than the
  header.
\<close>

definition csv_table_ok ::
  "(bytes \<Rightarrow> tm option) \<Rightarrow> (bytes \<Rightarrow> double res) \<Rightarrow> (nat \<Rightarrow> nat \<Rightarrow> u64) \<Rightarrow> ColumnConfig list \<Rightarrow> bytes list \<Rightarrow>
   bytes list list \<Rightarrow> bool" where
  "csv_table_ok strptime stod now cols names rows \<longleftrightarrow>
     distinct names \<and> set names \<subseteq> cc_column_name ` set cols \<and>
     (\<forall>c \<in> set cols. cc_column_name c \<in> set names \<or> cc_dlevel_max c \<noteq> 0) \<and>
     (\<forall>(r, row) \<in> set (enumerate 0 rows). \<forall>c \<in> set cols. csv_row_ok strptime stod (now r) names row c)"

text \<open>
  The cells a row adds to a column: one for a column with a field, one null for a column that the
  header does not name, none for a named column behind the last field.
\<close>

definition csv_row_cells ::
  "(bytes \<Rightarrow> tm option) \<Rightarrow> (bytes \<Rightarrow> double res) \<Rightarrow> (nat \<Rightarrow> u64) \<Rightarrow> bytes list \<Rightarrow> bytes list \<Rightarrow> ColumnConfig \<Rightarrow>
   datum cell list" where
  "csv_row_cells strptime stod now names row c =
     (if cc_column_name c \<in> set (drop (length row) names) then []
      else [the (csv_row_cell strptime stod now names row c)])"

definition csv_table_cells ::
  "(bytes \<Rightarrow> tm option) \<Rightarrow> (bytes \<Rightarrow> double res) \<Rightarrow> (nat \<Rightarrow> nat \<Rightarrow> u64) \<Rightarrow> bytes list \<Rightarrow> bytes list list \<Rightarrow>
   ColumnConfig \<Rightarrow> datum cell list" where
  "csv_table_cells strptime stod now names rows c =
     concat (map (\<lambda>(r, row). csv_row_cells strptime stod (now r) names row c) (enumerate 0 rows))"

definition csv_table_ops ::
  "(bytes \<Rightarrow> tm option) \<Rightarrow> (bytes \<Rightarrow> double res) \<Rightarrow> (nat \<Rightarrow> nat \<Rightarrow> u64) \<Rightarrow> ColumnConfig list \<Rightarrow> bytes list \<Rightarrow>
   (nat \<times> bytes list) list \<Rightarrow> (bytes \<times> datum cell) list" where
  "csv_table_ops strptime stod now cols names rows =
     concat (map (\<lambda>(r, row). csv_row_ops strptime stod (now r) cols names (csv_missing_names cols names) row) rows)"

lemma named_field:
  assumes "distinct names" and "n \<in> set (take k names @ csv_missing_names cols names)"
  shows "n \<notin> set (drop k names)"
proof
  assume n: "n \<in> set (drop k names)"
  have "distinct (take k names @ drop k names)" using assms(1) by simp
  then have "n \<notin> set (take k names)" using n by (auto simp del: append_take_drop_id)
  with assms(2) n show False by (auto simp: set_csv_missing_names dest: in_set_dropD)
qed

lemma csv_row_ops_ok:
  assumes "distinct (map cc_column_name cols)" and "distinct names" and "set names \<subseteq> cc_column_name ` set cols"
    and "\<forall>c \<in> set cols. csv_row_ok strptime stod now names row c"
    and "op \<in> set (csv_row_ops strptime stod now cols names (csv_missing_names cols names) row)"
  shows "op_ok cols op"
proof -
  from assms(5) obtain n where n: "n \<in> set (take (length row) names @ csv_missing_names cols names)"
    and op: "op = (n, the (csv_row_cell strptime stod now names row (cols ! column_index cols n)))"
    unfolding csv_row_ops_def by (auto simp only: set_map image_iff)
  then have mem: "n \<in> cc_column_name ` set cols" using assms(3) by (auto simp: set_csv_missing_names dest: in_set_takeD)
  define c where "c = cols ! column_index cols n"
  have c: "c \<in> set cols" "cc_column_name c = n" using column_index [OF mem] by (simp_all add: c_def)
  have only: "c' = c" if "c' \<in> set cols" "cc_column_name c' = n" for c'
    using column_index_name [OF assms(1) that(1)] that(2) by (simp add: c_def)
  from bspec [OF assms(4) c(1)] named_field [OF assms(2) n] c(2) obtain r d x where cell: "csv_row_cell strptime stod now names row c = Some (r, d, x)"
    and st: "case x of None \<Rightarrow> True | Some x \<Rightarrow> storable (cc_storage_type c) x"
    by (auto simp: csv_row_ok_def split: option.splits)
  have "cell_ok (cc_rlevel_max c) (cc_dlevel_max c) (r, d, x)"
    using cell by (auto simp: csv_row_cell_def csv_cell_def cell_ok_def split: option.splits if_splits)
  with st mem only show ?thesis by (auto simp: op_ok_def op c_def [symmetric] cell)
qed

lemma csv_rows_puts:
  assumes names: "distinct names" "set names \<subseteq> cc_column_name ` set cols"
    and cols: "distinct (map cc_column_name cols)"
    and opt: "\<forall>c \<in> set cols. cc_column_name c \<in> set names \<or> cc_dlevel_max c \<noteq> 0"
    and rows: "\<forall>(r, row) \<in> set rows. \<forall>c \<in> set cols. csv_row_ok strptime stod (now r) names row c"
  shows "v1_writes cols tw \<Longrightarrow>
    res_fold (\<lambda>(r, row). csv_import_row strptime stod (now r) (csv_writers cols names)
        (map (column_index cols) (csv_missing_names cols names)) row) rows tw =
    res_bind (res_fold tw_put (csv_table_ops strptime stod now cols names rows) tw)
      (\<lambda>tw. Inr (CSTableWriter_addRows (word_of_nat (length rows)) tw))"
  using rows
proof (induction rows arbitrary: tw)
  case Nil
  then show ?case by (simp add: csv_table_ops_def CSTableWriter_addRows_def)
next
  case (Cons x rows)
  obtain r row where x: "x = (r, row)" by (cases x)
  let ?missing = "csv_missing_names cols names"
  let ?ops = "csv_row_ops strptime stod (now r) cols names ?missing row"
  have ops: "csv_table_ops strptime stod now cols names ((r, row) # rows) = ?ops @ csv_table_ops strptime stod now cols names rows"
    by (simp add: csv_table_ops_def)
  have at: "cols ! column_index cols n \<in> set cols" if "n \<in> cc_column_name ` set cols" for n
    using column_index(2) [OF that] by simp
  have "\<forall>n \<in> set ?missing. cc_dlevel_max (cols ! column_index cols n) \<noteq> 0"
  proof
    fix n assume "n \<in> set ?missing"
    then have n: "n \<in> cc_column_name ` set cols" "n \<notin> set names" by (simp_all add: set_csv_missing_names)
    show "cc_dlevel_max (cols ! column_index cols n) \<noteq> 0"
      using bspec [OF opt at [OF n(1)]] column_index(3) [OF n(1)] n(2) by simp
  qed
  moreover have "\<forall>n \<in> set (take (length row) names). csv_row_cell strptime stod (now r) names row (cols ! column_index cols n) \<noteq> None"
  proof
    fix n assume "n \<in> set (take (length row) names)"
    then have n: "n \<in> set names" "n \<notin> set (drop (length row) names)"
      using named_field [OF names(1), of n "length row" cols] by (auto dest: in_set_takeD)
    then have c: "n \<in> cc_column_name ` set cols" using names(2) by blast
    have "\<forall>c \<in> set cols. csv_row_ok strptime stod (now r) names row c" using Cons.prems(2) by (simp add: x)
    from bspec [OF this at [OF c]] n(2) column_index(3) [OF c] show "csv_row_cell strptime stod (now r) names row (cols ! column_index cols n) \<noteq> None"
      by (auto simp: csv_row_ok_def split: option.splits)
  qed
  ultimately have row: "csv_import_row strptime stod (now r) (csv_writers cols names) (map (column_index cols) ?missing) row tw =
      res_bind (res_fold tw_put ?ops tw) (\<lambda>tw. Inr (CSTableWriter_addRow tw))"
    by (intro csv_import_row_puts [OF names] Cons.prems(1)) (simp_all add: set_csv_missing_names)
  show ?case
  proof (cases "res_fold tw_put ?ops tw")
    case (Inl e)
    then show ?thesis using row by (simp add: ops x res_fold_append)
  next
    case (Inr tw1)
    then have "v1_writes cols (CSTableWriter_addRow tw1)"
      using tw_puts_v1_writes [OF Cons.prems(1) Inr] by (simp add: v1_writes_def CSTableWriter_addRow_def)
    from Cons.IH [OF this] Cons.prems(2) Inr row show ?thesis
      by (simp add: ops x res_fold_append addRow_addRows tw_puts_addRows res_bind_assoc addRows_add add.commute)
  qed
qed


lemma cells_of_row_ops:
  assumes "distinct names" and "set names \<subseteq> cc_column_name ` set cols"
    and "distinct (map cc_column_name cols)" and "c \<in> set cols"
  shows "cells_of (cc_column_name c) (csv_row_ops strptime stod now cols names (csv_missing_names cols names) row) =
    csv_row_cells strptime stod now names row c"
proof -
  let ?cell = "\<lambda>n. the (csv_row_cell strptime stod now names row (cols ! column_index cols n))"
  let ?f = "\<lambda>n. [(n, ?cell n)]"
  let ?ns = "take (length row) names @ csv_missing_names cols names"
  have ops: "csv_row_ops strptime stod now cols names (csv_missing_names cols names) row = concat (map ?f ?ns)"
    by (simp add: csv_row_ops_def flip: map_append)
  show ?thesis
  proof (cases "cc_column_name c \<in> set (drop (length row) names)")
    case True
    then have "cc_column_name c \<notin> set ?ns" using named_field [OF assms(1), of "cc_column_name c" "length row" cols] by blast
    then show ?thesis unfolding ops by (subst cells_of_none) (use True in \<open>auto simp: csv_row_cells_def\<close>)
  next
    case False
    have "set (take (length row) names) \<inter> set (csv_missing_names cols names) = {}"
      by (auto simp: set_csv_missing_names dest: in_set_takeD)
    then have d: "distinct ?ns" using assms(1) by (simp add: distinct_csv_missing_names)
    have "set names = set (take (length row) names) \<union> set (drop (length row) names)"
      by (metis append_take_drop_id set_append)
    then have m: "cc_column_name c \<in> set ?ns" using False assms(4) by (auto simp: set_csv_missing_names)
    have "cells_of (cc_column_name c) (concat (map ?f ?ns)) = cells_of (cc_column_name c) (?f (cc_column_name c))"
      by (rule cells_of_only [OF d m]) auto
    then show ?thesis using False column_index_name [OF assms(3,4)] unfolding ops
      by (simp add: csv_row_cells_def) (simp add: cells_of_def)
  qed
qed

lemma csv_table_ops_facts:
  assumes ok: "csv_table_ok strptime stod now cols names rows" and cols: "v1_table_ok cols"
  shows "\<forall>op \<in> set (csv_table_ops strptime stod now cols names (enumerate 0 rows)). op_ok cols op"
    and "c \<in> set cols \<Longrightarrow> cells_of (cc_column_name c) (csv_table_ops strptime stod now cols names (enumerate 0 rows)) =
      csv_table_cells strptime stod now names rows c"
proof -
  have dist: "distinct (map cc_column_name cols)" using cols by (simp add: v1_table_ok_def)
  have names: "distinct names" "set names \<subseteq> cc_column_name ` set cols" using ok by (simp_all add: csv_table_ok_def)
  have row: "\<forall>c \<in> set cols. csv_row_ok strptime stod (now r) names row c"
    if "(r, row) \<in> set (enumerate 0 rows)" for r row using ok that by (auto simp: csv_table_ok_def)
  show "\<forall>op \<in> set (csv_table_ops strptime stod now cols names (enumerate 0 rows)). op_ok cols op"
    unfolding csv_table_ops_def using csv_row_ops_ok [OF dist names row] by fastforce
  assume c: "c \<in> set cols"
  show "cells_of (cc_column_name c) (csv_table_ops strptime stod now cols names (enumerate 0 rows)) =
      csv_table_cells strptime stod now names rows c"
    by (simp add: csv_table_ops_def csv_table_cells_def cells_of_concat split_def cells_of_row_ops [OF names dist c])
qed

text \<open>The import of a text into a new table.\<close>

lemma csv_import_puts:
  assumes ok: "csv_table_ok strptime stod now cols names rows" and cols: "v1_table_ok cols"
    and tw: "tw_session cols tw []"
    and input: "is_ok input" "csv_row fmt False [] (is_rest input) = (found, names, rest)" "csv_rows fmt rest = rows"
  shows "addRecordsFromCSV strptime stod now fmt input tw =
    Some (res_bind (res_fold tw_put (csv_table_ops strptime stod now cols names (enumerate 0 rows)) tw)
      (\<lambda>tw. Inr (CSTableWriter_addRows (word_of_nat (length rows)) tw)))"
proof -
  have names: "distinct names" "set names \<subseteq> cc_column_name ` set cols"
    and opt: "\<forall>c \<in> set cols. cc_column_name c \<in> set names \<or> cc_dlevel_max c \<noteq> 0"
    and rows: "\<forall>(r, row) \<in> set (enumerate 0 rows). \<forall>c \<in> set cols. csv_row_ok strptime stod (now r) names row c"
    using ok by (auto simp: csv_table_ok_def)
  have dist: "distinct (map cc_column_name cols)" using cols by (simp add: v1_table_ok_def)
  have w: "v1_writes cols tw" "tw_columns tw = cols" using tw by (simp_all add: v1_writes_def tw_session_def)
  have missing: "csv_missing names tw = csv_missing_names cols names"
    by (simp add: csv_missing_def csv_missing_names_def w(2))
  have "csv_missing_writers (csv_missing_names cols names) tw =
      Inr (map (column_index cols) (csv_missing_names cols names))"
  proof (rule csv_missing_writers_session [OF w(2)])
    show "\<forall>n \<in> set (csv_missing_names cols names). cc_dlevel_max (cols ! column_index cols n) \<noteq> 0"
    proof
      fix n assume "n \<in> set (csv_missing_names cols names)"
      then have n: "n \<in> cc_column_name ` set cols" "n \<notin> set names" by (simp_all add: set_csv_missing_names)
      have "cols ! column_index cols n \<in> set cols" using column_index(2) [OF n(1)] by simp
      from bspec [OF opt this] n(2) column_index(3) [OF n(1)]
      show "cc_dlevel_max (cols ! column_index cols n) \<noteq> 0" by simp
    qed
  qed (auto simp: set_csv_missing_names)
  then show ?thesis
    using csv_rows_puts [OF names dist opt rows w(1)] csv_header_writers_session [OF tw names(2)]
    by (simp add: addRecordsFromCSV_returns [OF input(1)] input(2,3) missing)
qed

text \<open>Every step writes into one of the columns.\<close>

lemma length_cells_of_sum:
  assumes "distinct (map cc_column_name cols)" and "\<forall>op \<in> set ops. fst op \<in> cc_column_name ` set cols"
  shows "(\<Sum>c \<leftarrow> cols. length (cells_of (cc_column_name c) ops)) = length ops"
  using assms(2)
proof (induction ops)
  case (Cons op ops)
  have count: "(\<Sum>c \<leftarrow> cols. if n = cc_column_name c then 1 else 0) = (if n \<in> cc_column_name ` set cols then 1 else (0 :: nat))" for n
    using assms(1) by (induction cols) auto
  have "(\<Sum>c \<leftarrow> cols. if fst op = cc_column_name c then 1 else 0) = (1 :: nat)"
    using Cons.prems unfolding count by simp
  moreover have "(\<Sum>c \<leftarrow> cols. length (cells_of (cc_column_name c) (op # ops))) =
      (\<Sum>c \<leftarrow> cols. (if fst op = cc_column_name c then 1 else 0) + length (cells_of (cc_column_name c) ops))"
    by (rule arg_cong [of _ _ sum_list], rule map_cong) (auto simp: cells_of_def split: prod.splits)
  ultimately show ?case using Cons by (simp add: sum_list_addf)
qed (simp add: cells_of_def)

lemma csv_import_session:
  assumes flat: "TableSchema_flatColumns junk (TableSchema_copy order schema) = Inr cols"
    and cols: "v1_table_ok cols" and ok: "csv_table_ok strptime stod now cols names rows"
    and input: "is_ok input" "csv_row fmt False [] (is_rest input) = (found, names, rest)" "csv_rows fmt rest = rows"
    and size: "v1_header_size cols + (\<Sum>c \<leftarrow> cols. cells_bytes (csv_table_cells strptime stod now names rows c)) < 2 ^ 63"
  shows "\<exists>tw tw1 tw2 tr. CSTableWriter_createFile order junk None V0_1_0 schema = Inr tw \<and>
    addRecordsFromCSV strptime stod now fmt input tw = Some (Inr tw1) \<and>
    CSTableWriter_commit uninit tw1 = Inr tw2 \<and>
    CSTableReader_openFile col0 n0 (Some (pm_file (vs_pm (tw_state tw2)))) = Inr tr \<and>
    CSTableReader_numRecords tr = word_of_nat (length rows) \<and>
    (\<forall>c \<in> set cols. \<exists>j cr'. CSTableReader_getColumnReader tr (cc_column_name c) = Inr j \<and>
       act_repeat (length (csv_table_cells strptime stod now names rows c)) cr_read_cell (tr_v1_readers tr ! j) =
         Inr (map (cell_result (null_datum (cc_storage_type c))) (csv_table_cells strptime stod now names rows c), cr') \<and>
       cr_eofReached cr')"
proof -
  let ?ops = "csv_table_ops strptime stod now cols names (enumerate 0 rows)"
  note facts = csv_table_ops_facts [OF ok cols]
  have "(\<Sum>c \<leftarrow> cols. length (cells_of (cc_column_name c) ?ops)) \<le>
      (\<Sum>c \<leftarrow> cols. cells_bytes (csv_table_cells strptime stod now names rows c))"
  proof (rule sum_list_mono)
    fix c assume "c \<in> set cols"
    then show "length (cells_of (cc_column_name c) ?ops) \<le> cells_bytes (csv_table_cells strptime stod now names rows c)"
      using cells_bytes_count [of "csv_table_cells strptime stod now names rows c"] by (simp add: facts(2))
  qed
  moreover have "(\<Sum>c \<leftarrow> cols. length (cells_of (cc_column_name c) ?ops)) = length ?ops"
    using cols facts(1) by (intro length_cells_of_sum) (auto simp: v1_table_ok_def op_ok_def)
  ultimately have len: "length ?ops < 2 ^ 64" using size by simp
  have "map (\<lambda>c. cells_bytes (cells_of (cc_column_name c) ?ops)) cols =
      map (\<lambda>c. cells_bytes (csv_table_cells strptime stod now names rows c)) cols" by (simp add: facts(2))
  from arg_cong [OF this, of sum_list] size have "session_bytes cols ?ops < 2 ^ 63"
    by (simp only: session_bytes_def)
  from createFile_v1 [OF flat cols] obtain tw where
    tw: "CSTableWriter_createFile order junk None V0_1_0 schema = Inr tw" "tw_session cols tw []" by blast
  from v1_session [OF flat cols facts(1) len \<open>session_bytes cols ?ops < 2 ^ 63\<close>, of uninit "word_of_nat (length rows)" col0 n0]
  obtain tw1 tw2 tr where s: "res_fold tw_put ?ops tw = Inr tw1"
    "CSTableWriter_commit uninit (CSTableWriter_addRows (word_of_nat (length rows)) tw1) = Inr tw2"
    "CSTableReader_openFile col0 n0 (Some (pm_file (vs_pm (tw_state tw2)))) = Inr tr"
    "CSTableReader_numRecords tr = word_of_nat (length rows)"
    and r: "\<forall>c \<in> set cols. \<exists>j cr'. CSTableReader_getColumnReader tr (cc_column_name c) = Inr j \<and>
       act_repeat (length (cells_of (cc_column_name c) ?ops)) cr_read_cell (tr_v1_readers tr ! j) =
         Inr (map (cell_result (null_datum (cc_storage_type c))) (cells_of (cc_column_name c) ?ops), cr') \<and>
       cr_eofReached cr'" using tw(1) by auto
  have "addRecordsFromCSV strptime stod now fmt input tw =
      Some (Inr (CSTableWriter_addRows (word_of_nat (length rows)) tw1))"
    using csv_import_puts [OF ok cols tw(2) input] s(1) by simp
  moreover have "\<forall>c \<in> set cols. \<exists>j cr'. CSTableReader_getColumnReader tr (cc_column_name c) = Inr j \<and>
       act_repeat (length (csv_table_cells strptime stod now names rows c)) cr_read_cell (tr_v1_readers tr ! j) =
         Inr (map (cell_result (null_datum (cc_storage_type c))) (csv_table_cells strptime stod now names rows c), cr') \<and>
       cr_eofReached cr'"
    using r facts(2) by simp
  ultimately show ?thesis using tw(1) s(2-4) by blast
qed

section \<open>Rejected and damaged imports\<close>

text \<open>A header that names an unknown column, and a required column the header does not name.\<close>

lemma csv_header_writers_unknown:
  "(\<exists>n \<in> set names. \<not> CSTableWriter_hasColumn tw n) \<Longrightarrow> csv_header_writers names tw = Inl RuntimeError"
proof -
  assume "\<exists>n \<in> set names. \<not> CSTableWriter_hasColumn tw n"
  then have "res_fold (\<lambda>col ws.
       if \<not> CSTableWriter_hasColumn tw col then Inl RuntimeError
       else res_bind (CSTableWriter_getColumnWriter tw col) (\<lambda>i. Inr (ws @ [(i, ColumnWriter_type tw i)])))
     names ws = Inl RuntimeError" for ws
    by (induction names arbitrary: ws)
      (auto simp: CSTableWriter_hasColumn_def CSTableWriter_getColumnWriter_def split: option.splits)
  then show ?thesis by (simp add: csv_header_writers_def)
qed

lemma csv_missing_required:
  assumes "\<exists>n \<in> set names. cc_dlevel_max (cols ! column_index cols n) = 0" and "tw_columns tw = cols"
    and "set names \<subseteq> cc_column_name ` set cols"
  shows "csv_missing_writers names tw = Inl RuntimeError"
proof -
  have "res_fold (\<lambda>col ws.
       res_bind (CSTableWriter_getColumnWriter tw col) (\<lambda>i.
         if ColumnWriter_maxDefinitionLevel tw i = 0 then Inl RuntimeError else Inr (ws @ [i]))) names ws = Inl RuntimeError" for ws
    using assms(1,3)
  proof (induction names arbitrary: ws)
    case (Cons n names)
    then have "n \<in> cc_column_name ` set cols" by simp
    from column_index(1) [OF this] Cons show ?case
      by (auto simp: CSTableWriter_getColumnWriter_def ColumnWriter_maxDefinitionLevel_def assms(2))
  qed simp
  then show ?thesis by (simp add: csv_missing_writers_def)
qed

text \<open>A column that stores booleans reports an integer type, so only digits are accepted for it.\<close>

lemma csv_boolean_rejected:
  assumes "tw_session cols tw ops" and "i < length cols" and "cc_storage_type (cols ! i) = BOOLEAN_BITPACKED"
  shows "csv_write_field strptime stod now (ascii ''true'') (i, ColumnWriter_type tw i) tw = Inl TypeError"
proof -
  have "stoull (ascii ''true'') = Inl StdInvalidArgument" by code_simp
  moreover have "\<not> isNullOrEmpty (ascii ''true'')" by code_simp
  ultimately show ?thesis
    using assms(3) by (simp add: session_type [OF assms(1,2)] reported_type_def csv_write_field_def Let_def)
qed

text \<open>
  A row shorter than the header counts as a row, but the columns behind its last field get no
  cell: their later cells belong to rows further up.
\<close>

lemma csv_short_row:
  assumes names: "distinct names" "set names \<subseteq> cc_column_name ` set cols" and i: "length row \<le> i" "i < length names"
  shows "cells_of (names ! i) (csv_row_ops strptime stod now cols names (csv_missing_names cols names) row) = []"
proof (rule cells_of_none)
  have "names ! i \<notin> set (take (length row) names)"
    using names(1) i by (auto simp: in_set_conv_nth nth_eq_iff_index_eq)
  moreover have "names ! i \<notin> set (csv_missing_names cols names)" using i(2) by (simp add: set_csv_missing_names)
  ultimately show "names ! i \<notin> fst ` set (csv_row_ops strptime stod now cols names (csv_missing_names cols names) row)"
    by (auto simp: csv_row_ops_def)
qed

end
