(* ===== verification/CS_TimeForms.thy ===== *)
theory CS_TimeForms
  imports CS_TimeText
begin

text \<open>
  The texts \<open>ISO8601::parse\<close> accepts, as a datatype of forms that is printed: a year, a month, a
  day, or a day with a time of day and a zone. Every parser of the chain is shown to accept exactly
  the print of its form.
\<close>

section \<open>Forms\<close>

text \<open>
  A zone is \<open>z\<close> or \<open>Z\<close> at the end of the text, or a sign with hours and minutes; what follows the
  minutes (\<open>rest\<close>) is not looked at. A fraction has up to three digits, none for no fraction at all.
\<close>

datatype iso_zone = Zulu bool | Shift bool nat nat bytes

datatype iso_form =
    IsoYear nat
  | IsoMonth nat nat
  | IsoDay nat nat nat
  | IsoTime nat nat nat bool nat nat nat bytes iso_zone

fun zone_print :: "iso_zone \<Rightarrow> bytes" where
  "zone_print (Zulu lower) = [if lower then 122 else 90]"
| "zone_print (Shift neg oh om rest) = (if neg then 45 else 43) # digits2 oh @ 58 # digits2 om @ rest"

fun zone_ok :: "iso_zone \<Rightarrow> bool" where
  "zone_ok (Zulu lower) = True"
| "zone_ok (Shift neg oh om rest) = (oh \<le> 24 \<and> om \<le> 59)"

fun zone_seconds :: "iso_zone \<Rightarrow> int" where
  "zone_seconds (Zulu lower) = 0"
| "zone_seconds (Shift neg oh om rest) = (if neg then - 1 else 1) * (int oh * 3600 + int om * 60)"

definition frac_print :: "bytes \<Rightarrow> bytes" where
  "frac_print fr = (if fr = [] then [] else 46 # fr)"

definition frac_ok :: "bytes \<Rightarrow> bool" where
  "frac_ok fr \<longleftrightarrow> length fr \<le> 3 \<and> list_all is_digit fr"

text \<open>The digits behind the point, as milliseconds: \<open>.5\<close> is a half second.\<close>

definition frac_millis :: "bytes \<Rightarrow> nat" where
  "frac_millis fr = digits_value fr * 10 ^ (3 - length fr)"

definition second_print :: "nat \<Rightarrow> bytes \<Rightarrow> iso_zone \<Rightarrow> bytes" where
  "second_print s fr z = 58 # digits2 s @ frac_print fr @ zone_print z"

definition minute_print :: "nat \<Rightarrow> nat \<Rightarrow> bytes \<Rightarrow> iso_zone \<Rightarrow> bytes" where
  "minute_print mi s fr z = 58 # digits2 mi @ second_print s fr z"

definition hour_print :: "bool \<Rightarrow> nat \<Rightarrow> nat \<Rightarrow> nat \<Rightarrow> bytes \<Rightarrow> iso_zone \<Rightarrow> bytes" where
  "hour_print lower h mi s fr z = (if lower then 116 else 84) # digits2 h @ minute_print mi s fr z"

fun iso_print :: "iso_form \<Rightarrow> bytes" where
  "iso_print (IsoYear y) = digits4 y"
| "iso_print (IsoMonth y mo) = digits4 y @ 45 # digits2 mo"
| "iso_print (IsoDay y mo d) = digits4 y @ 45 # digits2 mo @ 45 # digits2 d"
| "iso_print (IsoTime y mo d lower h mi s fr z) =
     digits4 y @ 45 # digits2 mo @ 45 # digits2 d @ hour_print lower h mi s fr z"

text \<open>The bounds the parser tests: the day up to 31 in every month, the hour up to 24.\<close>

definition month_ok :: "nat \<Rightarrow> bool" where "month_ok mo \<longleftrightarrow> 1 \<le> mo \<and> mo \<le> 12"
definition day_ok :: "nat \<Rightarrow> bool" where "day_ok d \<longleftrightarrow> 1 \<le> d \<and> d \<le> 31"
definition time_ok :: "nat \<Rightarrow> nat \<Rightarrow> nat \<Rightarrow> bytes \<Rightarrow> iso_zone \<Rightarrow> bool" where
  "time_ok h mi s fr z \<longleftrightarrow> h \<le> 24 \<and> mi \<le> 59 \<and> s \<le> 59 \<and> frac_ok fr \<and> zone_ok z"

fun iso_ok :: "iso_form \<Rightarrow> bool" where
  "iso_ok (IsoYear y) = (y < 10000)"
| "iso_ok (IsoMonth y mo) = (y < 10000 \<and> month_ok mo)"
| "iso_ok (IsoDay y mo d) = (y < 10000 \<and> month_ok mo \<and> day_ok d)"
| "iso_ok (IsoTime y mo d lower h mi s fr z) = (y < 10000 \<and> month_ok mo \<and> day_ok d \<and> time_ok h mi s fr z)"

text \<open>The civil time of a form; fields the text does not have are 0.\<close>

fun iso_value :: "iso_form \<Rightarrow> CivilTime" where
  "iso_value (IsoYear y) = CivilTime_null\<lparr>ct_year := word_of_nat y\<rparr>"
| "iso_value (IsoMonth y mo) = CivilTime_null\<lparr>ct_year := word_of_nat y, ct_month := word_of_nat mo\<rparr>"
| "iso_value (IsoDay y mo d) =
     CivilTime_null\<lparr>ct_year := word_of_nat y, ct_month := word_of_nat mo, ct_day := word_of_nat d\<rparr>"
| "iso_value (IsoTime y mo d lower h mi s fr z) =
     \<lparr>ct_year = word_of_nat y, ct_month = word_of_nat mo, ct_day = word_of_nat d, ct_hour = word_of_nat h,
      ct_minute = word_of_nat mi, ct_second = word_of_nat s, ct_millisecond = word_of_nat (frac_millis fr),
      ct_offset = word_of_int (zone_seconds z)\<rparr>"

section \<open>Fields\<close>

lemma digit_char_unat:
  assumes "is_digit c"
  shows "digit_char (unat c - 48) = c" "unat c - 48 < 10"
proof -
  have c: "48 \<le> unat c" "unat c \<le> 57" using assms by (simp_all add: is_digit_def word_le_nat_alt)
  have "digit_char (unat c - 48) = word_of_nat (48 + (unat c - 48))" by (simp add: digit_char_def)
  with c(1) show "digit_char (unat c - 48) = c" by (simp del: of_nat_add)
  show "unat c - 48 < 10" using c by linarith
qed

lemma two_digits:
  assumes "is_digit a" and "is_digit b"
  shows "\<exists>n < 100. [a, b] = digits2 n"
proof -
  let ?a = "unat a - 48" and ?b = "unat b - 48"
  have ab: "?a < 10" "?b < 10" "digit_char ?a = a" "digit_char ?b = b"
    using digit_char_unat [OF assms(1)] digit_char_unat [OF assms(2)] by simp_all
  then have "digits2 (10 * ?a + ?b) = [a, b]" by (simp add: digits2_def)
  moreover have "10 * ?a + ?b < 100" using ab by linarith
  ultimately show ?thesis by metis
qed

lemma four_digits:
  assumes "is_digit a" and "is_digit b" and "is_digit c" and "is_digit d"
  shows "\<exists>n < 10000. [a, b, c, d] = digits4 n"
proof -
  let ?a = "unat a - 48" and ?b = "unat b - 48" and ?c = "unat c - 48" and ?d = "unat d - 48"
  let ?n = "?d + 10 * (?c + 10 * (?b + 10 * ?a))"
  note digit = digit_char_unat [OF assms(1)] digit_char_unat [OF assms(2)] digit_char_unat [OF assms(3)]
    digit_char_unat [OF assms(4)]
  have step: "(x + 10 * y) div 10 = y" "(x + 10 * y) mod 10 = x" if "x < 10" for x y :: nat
    using that by simp_all
  have "digits4 ?n = [a, b, c, d]"
    unfolding digits4_def decimal_parts(3) decimal_parts(2) step [OF digit(8)] step [OF digit(6)] step [OF digit(4)]
    by (simp only: digit(1,3,5,7))
  moreover have bound: "x + 10 * y < 10 * k" if "x < 10" "y < k" for x y k :: nat
    using that by linarith
  have "?n < 10 * (10 * (10 * 10))" by (intro bound digit)
  ultimately show ?thesis by (intro exI [of _ ?n]) simp
qed

text \<open>A field is accepted exactly where its digits stand.\<close>

lemma ptr_field_iff:
  assumes "i \<le> length str"
  shows "ptr_field str i 2 lo hi = Inr (Some v) \<longleftrightarrow>
    (\<exists>n r. n < 100 \<and> drop i str = digits2 n @ r \<and> v = int n \<and> lo \<le> int n \<and> int n \<le> hi)" (is "?L \<longleftrightarrow> ?R")
proof
  assume ?R
  then obtain n r where n: "n < 100" "drop i str = digits2 n @ r" "v = int n" "lo \<le> int n" "int n \<le> hi" by blast
  from arg_cong [OF n(2), of length] have "i + 2 \<le> length str" by (simp add: assms)
  from fields_digits2(1) [OF this _ n(1), of lo hi] n show ?L by simp
next
  assume L: ?L
  from isDigitString_at_ok [OF assms, of 2] obtain b where b: "isDigitString_at str i 2 = Inr b" "b \<longrightarrow> i + 2 \<le> length str"
    by (auto simp: ret_ok_def)
  with L have len: "i + 2 \<le> length str" by (auto simp: ptr_field_def split: if_splits)
  then have all: "list_all is_digit (take 2 (drop i str))"
    using L by (auto simp: ptr_field_def isDigitString_at_take split: if_splits)
  obtain c d r where s: "drop i str = c # d # r"
    using len by (cases "drop i str"; cases "tl (drop i str)") (auto dest: arg_cong [of _ _ length])
  obtain n where n: "n < 100" "[c, d] = digits2 n" using all two_digits [of c d] by (auto simp: s)
  have t: "take 2 (drop i str) = digits2 n" by (simp add: s n(2) [symmetric])
  from fields_digits2(1) [OF len t n(1), of lo hi] L have "v = int n \<and> lo \<le> int n \<and> int n \<le> hi"
    by (simp split: if_splits)
  moreover have "drop i str = digits2 n @ r" by (simp add: s n(2) [symmetric])
  ultimately show ?R using n(1) by blast
qed

lemma copy_field_iff:
  assumes "i \<le> length str"
  shows "copy_field str i 2 lo hi = Inr (Some v) \<longleftrightarrow>
    (\<exists>n r. n < 100 \<and> drop i str = digits2 n @ r \<and> v = int n \<and> lo \<le> int n \<and> int n \<le> hi)" (is "?L \<longleftrightarrow> ?R")
proof
  assume ?R
  then obtain n r where n: "n < 100" "drop i str = digits2 n @ r" "v = int n" "lo \<le> int n" "int n \<le> hi" by blast
  from arg_cong [OF n(2), of length] have "i + 2 \<le> length str" by (simp add: assms)
  from fields_digits2(2) [OF this _ n(1), of lo hi] n show ?L by simp
next
  assume L: ?L
  then have r: "i + 2 \<le> length str + 1" "list_all is_digit (take 2 (drop i (str @ [0])))"
    by (auto simp: copy_field_def char_range_def isDigitString_def split: if_splits)
  have len: "i + 2 \<le> length str"
  proof (rule ccontr)
    assume "\<not> i + 2 \<le> length str"
    with r(1) have "length str = i + 1" by simp
    then have "drop i (str @ [0]) = [str ! i, 0]" by (simp add: drop_Cons' Cons_nth_drop_Suc [symmetric])
    show False using r(2) unfolding \<open>drop i (str @ [0]) = _\<close> by (simp add: is_digit_def)
  qed
  obtain c d r' where s: "drop i str = c # d # r'"
    using len by (cases "drop i str"; cases "tl (drop i str)") (auto dest: arg_cong [of _ _ length])
  then have "take 2 (drop i (str @ [0])) = [c, d]" using len by simp
  then obtain n where n: "n < 100" "[c, d] = digits2 n" using r(2) two_digits [of c d] by auto
  have t: "take 2 (drop i str) = digits2 n" by (simp add: s n(2) [symmetric])
  from fields_digits2(2) [OF len t n(1), of lo hi] L have "v = int n \<and> lo \<le> int n \<and> int n \<le> hi"
    by (simp split: if_splits)
  moreover have "drop i str = digits2 n @ r'" by (simp add: s n(2) [symmetric])
  ultimately show ?R using n(1) by blast
qed

lemma year_field_iff:
  "4 \<le> length str \<Longrightarrow> copy_field str 0 4 0 (2 ^ 31) = Inr (Some v) \<longleftrightarrow>
    (\<exists>n r. n < 10000 \<and> str = digits4 n @ r \<and> v = int n)" (is "_ \<Longrightarrow> ?L \<longleftrightarrow> ?R")
proof -
  assume len: "4 \<le> length str"
  then obtain a b c d r where s: "str = a # b # c # d # r"
    by (auto simp: Suc_le_length_iff eval_nat_numeral)
  have field: "copy_field (digits4 n @ r) 0 4 0 (2 ^ 31) = Inr (Some (int n))" if "n < 10000" for n r
    using that stoi_digits [of "digits4 n"] digits_field(5,6) [OF that]
    by (simp add: copy_field_def char_range_def isDigitString_def int_field_def) (simp add: digits4_def)
  show "?L \<longleftrightarrow> ?R"
  proof
    assume L: ?L
    then have "list_all is_digit [a, b, c, d]"
      by (auto simp: s copy_field_def char_range_def isDigitString_def split: if_splits)
    then obtain n where n: "n < 10000" "[a, b, c, d] = digits4 n" using four_digits [of a b c d] by auto
    then have "str = digits4 n @ r" by (simp add: s n(2) [symmetric])
    with L field [OF n(1), of r] n(1) show ?R by auto
  qed (use field in auto)
qed

section \<open>The parsers accept exactly the print of a form\<close>

text \<open>The next character, where one is left; behind the text stands the \<open>NUL\<close>.\<close>

lemma char_at_drop:
  "drop i str = c # r \<Longrightarrow> char_at str i = Inr c"
  "i \<le> length str \<Longrightarrow> drop i str = [] \<Longrightarrow> char_at str i = Inr 0"
proof -
  assume d: "drop i str = c # r"
  then have "i < length str" by (metis drop_eq_Nil list.distinct(1) not_le)
  with nth_via_drop [OF d] show "char_at str i = Inr c" by (simp add: char_at_def)
qed (auto simp: char_at_def)

lemma zone_print_not_Nil [simp]: "zone_print z \<noteq> []" "[] \<noteq> zone_print z"
  by (cases z; simp)+

lemma drop_drop_append: "drop i str = xs @ ys \<Longrightarrow> i + length xs = k \<Longrightarrow> drop k str = ys"
  by (metis add.commute append_eq_conv_conj drop_drop)

lemma drop_Cons_length: "drop i str = c # r \<Longrightarrow> length str = i + 1 + length r"
  by (metis Suc_eq_plus1 add.assoc add.commute drop_eq_Nil le_add_diff_inverse length_Cons length_drop linorder_le_cases list.distinct(1))

definition zone_set :: "iso_zone \<Rightarrow> CivilTime \<Rightarrow> CivilTime" where
  "zone_set z date = date\<lparr>ct_offset := word_of_int (zone_seconds z)\<rparr>"

lemma parseTimeOffset_iff:
  assumes "i \<le> length str"
  shows "parseTimeOffset str i date = Inr (True, date') \<longleftrightarrow>
    (\<exists>z. zone_ok z \<and> drop i str = zone_print z \<and> date' = zone_set z date)" (is "?L \<longleftrightarrow> ?R")
proof (cases "drop i str")
  case Nil
  then show ?thesis using char_at_drop(2) [OF assms Nil] assms
    by (auto simp: parseTimeOffset_def)
next
  case (Cons c r)
  note c = char_at_drop(1) [OF Cons] and len = drop_Cons_length [OF Cons]
  have r: "drop (Suc i) str = r" using Cons by (metis drop_Suc list.sel(3) tl_drop)
  show ?thesis
  proof (cases "r = [] \<and> (c = 122 \<or> c = 90)")
    case True
    then have "?L \<longleftrightarrow> date' = date\<lparr>ct_offset := 0\<rparr>" by (auto simp: parseTimeOffset_def c len)
    moreover have "?R \<longleftrightarrow> date' = date\<lparr>ct_offset := 0\<rparr>"
    proof
      assume ?R
      then obtain z where z: "drop i str = zone_print z" "date' = zone_set z date" by blast
      then show "date' = date\<lparr>ct_offset := 0\<rparr>" using True Cons
        by (cases z) (auto simp: zone_set_def digits2_def split: if_splits)
    next
      assume d: "date' = date\<lparr>ct_offset := 0\<rparr>"
      show ?R using True Cons d by (intro exI [of _ "Zulu (c = 122)"]) (auto simp: zone_set_def)
    qed
    ultimately show ?thesis by blast
  next
    case nz: False
    show ?thesis
    proof
      assume L: ?L
      with nz c len have c2: "c = 43 \<or> c = 45" "i + 3 \<le> length str" by (auto simp: parseTimeOffset_def split: if_splits)
      with L nz c len obtain oh where oh: "ptr_field str (i + 1) 2 0 24 = Inr (Some oh)" "i + 6 \<le> length str"
        "char_at str (i + 3) = Inr 58" and L2: "res_bind (ptr_field str (i + 4) 2 0 59) (\<lambda>minute.
                 case minute of
                   None \<Rightarrow> Inr (False, date)
                 | Some minute \<Rightarrow>
                     Inr (True, date\<lparr>ct_offset :=
                       word_of_int ((if c = 43 then 1 else - 1) * (oh * 3600 + minute * 60))\<rparr>)) = Inr (True, date')"
        by (auto simp: parseTimeOffset_def res_bind_Inr split: if_splits option.splits)
      from L2 obtain om where om: "ptr_field str (i + 4) 2 0 59 = Inr (Some om)"
        "date' = date\<lparr>ct_offset := word_of_int ((if c = 43 then 1 else - 1) * (oh * 3600 + om * 60))\<rparr>"
        by (auto simp: res_bind_Inr split: option.splits)
      from oh(1) c2(2) obtain n s where n: "n < 100" "drop (i + 1) str = digits2 n @ s" "oh = int n" "n \<le> 24"
        using ptr_field_iff [of "i + 1" str 0 24 oh] by auto
      from om(1) oh(2) obtain k t where k: "k < 100" "drop (i + 4) str = digits2 k @ t" "om = int k" "k \<le> 59"
        using ptr_field_iff [of "i + 4" str 0 59 om] by auto
      have "drop (i + 3) str = s" using n(2) by (rule drop_drop_append) simp
      moreover have "drop (i + 3) str = str ! (i + 3) # drop (i + 4) str"
        using oh(2) Cons_nth_drop_Suc [of "i + 3" str] by (simp add: add.commute)
      moreover have "str ! (i + 3) = 58" using oh(2,3) by (simp add: char_at_def)
      ultimately have "drop i str = zone_print (Shift (c = 45) n k t)"
        using Cons r n(2) k(2) c2(1) by auto
      moreover have "date' = zone_set (Shift (c = 45) n k t) date" using om(2) n(3) k(3) c2(1) by (auto simp: zone_set_def)
      ultimately show ?R using n(4) k(4) by (intro exI [of _ "Shift (c = 45) n k t"]) simp
    next
      assume ?R
      then obtain z where z: "zone_ok z" "drop i str = zone_print z" "date' = zone_set z date" by blast
      obtain neg n k t where zs: "z = Shift neg n k t" using z(2) nz Cons by (cases z) (auto split: if_splits)
      have cr: "c = (if neg then 45 else 43)" "r = digits2 n @ 58 # digits2 k @ t" using z(2) Cons by (simp_all add: zs)
      have dr: "drop (i + 1) str = digits2 n @ 58 # digits2 k @ t" using r cr(2) by simp
      have d3: "drop (i + 3) str = 58 # digits2 k @ t" using dr by (rule drop_drop_append) simp
      have d4: "drop (i + 4) str = digits2 k @ t" using drop_drop_append [of "i + 3" str "[58]"] d3 by simp
      have l: "i + 6 \<le> length str" using len cr(2) by simp
      have "ptr_field str (i + 1) 2 0 24 = Inr (Some (int n))" "ptr_field str (i + 4) 2 0 59 = Inr (Some (int k))"
        using ptr_field_iff [of "i + 1" str 0 24 "int n"] ptr_field_iff [of "i + 4" str 0 59 "int k"] dr d4 z(1) l
        by (auto simp: zs)
      then show ?L using nz c cr(1) l char_at_drop(1) [OF d3] z(3) by (auto simp: parseTimeOffset_def zs zone_set_def)
    qed
  qed
qed

definition frac_set :: "bytes \<Rightarrow> CivilTime \<Rightarrow> CivilTime" where
  "frac_set fr date = (if fr = [] then date else date\<lparr>ct_millisecond := word_of_nat (frac_millis fr)\<rparr>)"

lemma zone_print_hd: "zone_print z = c # r \<Longrightarrow> \<not> is_digit c \<and> c \<noteq> 46"
  by (cases z) (auto simp: is_digit_def split: if_splits)

lemma parseSecondFrac_iff:
  assumes "i \<le> length str"
  shows "parseSecondFrac str i date = Inr (True, date') \<longleftrightarrow>
    (\<exists>fr z. fr \<noteq> [] \<and> frac_ok fr \<and> zone_ok z \<and> drop i str = 46 # fr @ zone_print z \<and>
       date' = zone_set z (frac_set fr date))" (is "?L \<longleftrightarrow> ?R")
proof (cases "\<exists>r. drop i str = 46 # r")
  case False
  have "\<not> ?L"
  proof (cases "drop i str")
    case Nil
    then show ?thesis using assms char_at_drop(2) [OF assms Nil] by (auto simp: parseSecondFrac_def)
  next
    case (Cons c r)
    then show ?thesis using False char_at_drop(1) [OF Cons] by (auto simp: parseSecondFrac_def)
  qed
  then show ?thesis using False by blast
next
  case True
  then obtain r where r: "drop i str = 46 # r" by blast
  note c = char_at_drop(1) [OF r] and len = drop_Cons_length [OF r]
  have dr: "drop (i + 1) str = r" using drop_drop_append [of i str "[46]"] r by simp
  define fr where "fr = takeWhile is_digit r"
  have tail: "drop (i + 1 + length fr) str = dropWhile is_digit r"
    by (rule drop_drop_append [of "i + 1" str fr]) (use dr in \<open>simp_all add: fr_def\<close>)
  have l: "i + 1 + length fr \<le> length str" using len length_takeWhile_le [of is_digit r] by (simp add: fr_def)
  have digits: "list_all is_digit fr" by (auto simp: fr_def list_all_iff dest: set_takeWhileD)
  have L: "?L \<longleftrightarrow> fr \<noteq> [] \<and> frac_ok fr \<and>
      parseTimeOffset str (i + 1 + length fr) (frac_set fr date) = Inr (True, date')"
  proof (cases "fr = []")
    case True
    then show ?thesis using len unfolding parseSecondFrac_def dr fr_def [symmetric] by (simp add: c)
  next
    case False
    then have "0 < length fr" by simp
    have "parseSecondFrac str i date = (if length fr > 3 then Inr (False, date)
        else parseTimeOffset str (i + 1 + length fr) (frac_set fr date))"
      using len \<open>0 < length fr\<close> unfolding parseSecondFrac_def dr fr_def [symmetric] Let_def
      by (simp only: c strtol_digits [OF False digits]) (simp add: frac_set_def frac_millis_def)
    with False digits show ?thesis by (auto simp: frac_ok_def)
  qed
  show ?thesis
  proof
    assume ?L
    then have "fr \<noteq> []" "frac_ok fr" "parseTimeOffset str (i + 1 + length fr) (frac_set fr date) = Inr (True, date')"
      using L by blast+
    moreover from this(3) parseTimeOffset_iff [OF l] tail obtain z where
      "zone_ok z" "dropWhile is_digit r = zone_print z" "date' = zone_set z (frac_set fr date)" by auto
    ultimately show ?R using r takeWhile_dropWhile_id [of is_digit r] by (metis fr_def)
  next
    assume ?R
    then obtain fr' z where z: "fr' \<noteq> []" "frac_ok fr'" "zone_ok z" "r = fr' @ zone_print z"
      "date' = zone_set z (frac_set fr' date)" using r by auto
    obtain d s where zp: "zone_print z = d # s" by (cases "zone_print z") auto
    have "\<forall>x \<in> set fr'. is_digit x" using z(2) by (simp add: frac_ok_def list_all_iff)
    then have "takeWhile is_digit r = fr'" "dropWhile is_digit r = zone_print z"
      using zone_print_hd [OF zp] by (simp_all add: z(4) zp)
    with L z parseTimeOffset_iff [OF l] tail show ?L by (auto simp: fr_def)
  qed
qed

lemma frac_other:
  assumes "i \<le> length str" and "drop i str = c # r" and "c \<noteq> 46"
  shows "parseSecondFrac str i date = Inr (False, date)"
  using assms char_at_drop(1) [OF assms(2)] drop_Cons_length [OF assms(2)] by (simp add: parseSecondFrac_def)

lemma frac_point:
  assumes "drop i str = 46 # r"
  shows "parseTimeOffset str i date = Inr (False, date)"
  using char_at_drop(1) [OF assms] by (simp add: parseTimeOffset_def)

text \<open>The zone stands behind the fraction, or behind the seconds where there is none.\<close>

lemma second_tail_iff:
  assumes "i \<le> length str"
  shows "res_bind (parseSecondFrac str i date) (\<lambda>(ok, date). if ok then Inr (True, date) else parseTimeOffset str i date) =
      Inr (True, date') \<longleftrightarrow>
    (\<exists>fr z. frac_ok fr \<and> zone_ok z \<and> drop i str = frac_print fr @ zone_print z \<and> date' = zone_set z (frac_set fr date))"
    (is "?L \<longleftrightarrow> ?R")
proof (cases "drop i str")
  case Nil
  then have "parseSecondFrac str i date = Inr (False, date)" "parseTimeOffset str i date = Inr (False, date)"
    using assms char_at_drop(2) [OF assms Nil] by (simp_all add: parseSecondFrac_def parseTimeOffset_def)
  then show ?thesis using Nil by simp
next
  case (Cons c r)
  show ?thesis
  proof (cases "c = 46")
    case True
    obtain b d where p: "parseSecondFrac str i date = Inr (b, d)"
      using parseSecondFrac_ok [OF assms] by (fastforce simp: reads_ok_def ret_ok_def)
    have "?L \<longleftrightarrow> parseSecondFrac str i date = Inr (True, date')"
      using frac_point [of i str r] Cons True by (auto simp: p)
    also have "\<dots> \<longleftrightarrow> ?R"
    proof -
      have "drop i str \<noteq> zone_print z" for z using zone_print_hd [of z c r] Cons True by metis
      then show ?thesis unfolding parseSecondFrac_iff [OF assms] by (auto simp: frac_print_def split: if_splits)
    qed
    finally show ?thesis .
  next
    case False
    have "?L \<longleftrightarrow> parseTimeOffset str i date = Inr (True, date')" using frac_other [OF assms Cons False] by simp
    also have "\<dots> \<longleftrightarrow> ?R"
      unfolding parseTimeOffset_iff [OF assms] using Cons False
      by (auto simp: frac_print_def frac_ok_def frac_set_def split: if_splits)
    finally show ?thesis .
  qed
qed

text \<open>A parser that tests for a character, reads a field of two digits and goes on behind it.\<close>

lemma field_step:
  assumes "i \<le> length str" and "0 \<le> hi \<and> hi < 100"
    and "\<And>n r. i + 3 \<le> length str \<Longrightarrow> drop (i + 3) str = r \<Longrightarrow> lo \<le> int n \<Longrightarrow> int n \<le> hi \<Longrightarrow>
      (next (int n) = Inr (True, date') \<longleftrightarrow> P n r)"
  shows "(if i + 1 > length str then Inr (False, date)
     else res_bind (char_at str i) (\<lambda>c.
       if \<not> t c then Inr (False, date)
       else res_bind (ptr_field str (i + 1) 2 lo hi) (\<lambda>v.
         case v of None \<Rightarrow> Inr (False, date) | Some v \<Rightarrow> next v))) = Inr (True, date') \<longleftrightarrow>
    (\<exists>c n r. drop i str = c # digits2 n @ r \<and> t c \<and> lo \<le> int n \<and> n \<le> nat hi \<and> P n r)" (is "?L \<longleftrightarrow> ?R")
proof (cases "drop i str")
  case Nil
  then show ?thesis using assms(1) by auto
next
  case (Cons c s)
  note c = char_at_drop(1) [OF Cons] and len = drop_Cons_length [OF Cons]
  have ds: "drop (i + 1) str = s" by (rule drop_drop_append [of i str "[c]"]) (use Cons in simp_all)
  have i: "i + 1 \<le> length str" using len by simp
  show ?thesis
  proof
    assume ?L
    then obtain v where v: "t c" "ptr_field str (i + 1) 2 lo hi = Inr (Some v)" "next v = Inr (True, date')"
      using i by (auto simp: c res_bind_Inr split: if_splits option.splits)
    from v(2) obtain n r where n: "n < 100" "drop (i + 1) str = digits2 n @ r" "v = int n" "lo \<le> int n" "int n \<le> hi"
      using ptr_field_iff [OF i] by auto
    have "drop (i + 3) str = r" using n(2) by (rule drop_drop_append) simp
    moreover have "s = digits2 n @ r" using ds n(2) by simp
    then have "i + 3 \<le> length str" using len by simp
    ultimately have "P n r" using assms(3) [of r n] n v(3) by simp
    then show ?R using v(1) n ds Cons by (intro exI [of _ c] exI [of _ n] exI [of _ r]) auto
  next
    assume ?R
    then obtain n r where n: "t c" "lo \<le> int n" "n \<le> nat hi" "s = digits2 n @ r" "P n r" using Cons by auto
    then have h: "int n \<le> hi" "n < 100" using assms(2) by auto
    have dr: "drop (i + 1) str = digits2 n @ r" using ds n(4) by simp
    have "drop (i + 3) str = r" using dr by (rule drop_drop_append) simp
    moreover have "i + 3 \<le> length str" using len n(4) by simp
    ultimately have "next (int n) = Inr (True, date')" using assms(3) [of r n] n h by simp
    moreover have "ptr_field str (i + 1) 2 lo hi = Inr (Some (int n))" using ptr_field_iff [OF i] n h dr by auto
    ultimately show ?L using i n(1) by (simp add: c)
  qed
qed

definition second_set :: "nat \<Rightarrow> bytes \<Rightarrow> iso_zone \<Rightarrow> CivilTime \<Rightarrow> CivilTime" where
  "second_set s fr z date = zone_set z (frac_set fr (date\<lparr>ct_second := word_of_nat s\<rparr>))"

lemma parseSecond_iff:
  assumes "i \<le> length str"
  shows "parseSecond str i date = Inr (True, date') \<longleftrightarrow>
    (\<exists>s fr z. s \<le> 59 \<and> frac_ok fr \<and> zone_ok z \<and> drop i str = second_print s fr z \<and> date' = second_set s fr z date)"
proof -
  have step: "res_bind (parseSecondFrac str (i + 3) (date\<lparr>ct_second := word_of_int (int n)\<rparr>)) (\<lambda>(ok, date).
        if ok then Inr (True, date) else parseTimeOffset str (i + 3) date) = Inr (True, date') \<longleftrightarrow>
      (\<exists>fr z. frac_ok fr \<and> zone_ok z \<and> r = frac_print fr @ zone_print z \<and> date' = second_set n fr z date)"
    if "i + 3 \<le> length str" and "drop (i + 3) str = r" for n r
    using second_tail_iff [OF that(1), of "date\<lparr>ct_second := word_of_int (int n)\<rparr>" date'] that(2)
    by (simp add: second_set_def)
  have "parseSecond str i date = Inr (True, date') \<longleftrightarrow> (\<exists>c n r. drop i str = c # digits2 n @ r \<and> c = 58 \<and> (0 :: int) \<le> int n \<and>
      n \<le> nat 59 \<and> (\<exists>fr z. frac_ok fr \<and> zone_ok z \<and> r = frac_print fr @ zone_print z \<and> date' = second_set n fr z date))"
    unfolding parseSecond_def by (rule field_step [where t = "\<lambda>c. c = 58", OF assms]) (use step in simp_all)
  then show ?thesis unfolding second_print_def by (simp only: of_nat_0_le_iff nat_numeral simp_thms) blast
qed

definition minute_set :: "nat \<Rightarrow> nat \<Rightarrow> bytes \<Rightarrow> iso_zone \<Rightarrow> CivilTime \<Rightarrow> CivilTime" where
  "minute_set mi s fr z date = second_set s fr z (date\<lparr>ct_minute := word_of_nat mi\<rparr>)"

lemma parseMinute_iff:
  assumes "i \<le> length str"
  shows "parseMinute str i date = Inr (True, date') \<longleftrightarrow>
    (\<exists>mi s fr z. mi \<le> 59 \<and> s \<le> 59 \<and> frac_ok fr \<and> zone_ok z \<and> drop i str = minute_print mi s fr z \<and>
       date' = minute_set mi s fr z date)"
proof -
  have "parseMinute str i date = Inr (True, date') \<longleftrightarrow> (\<exists>c n r. drop i str = c # digits2 n @ r \<and> c = 58 \<and> (0 :: int) \<le> int n \<and>
      n \<le> nat 59 \<and> (\<exists>s fr z. s \<le> 59 \<and> frac_ok fr \<and> zone_ok z \<and> r = second_print s fr z \<and> date' = minute_set n s fr z date))"
    unfolding parseMinute_def
    by (rule field_step [where t = "\<lambda>c. c = 58", OF assms]) (use parseSecond_iff in \<open>simp_all add: minute_set_def\<close>)
  then show ?thesis unfolding minute_print_def by (simp only: of_nat_0_le_iff nat_numeral simp_thms) blast
qed

definition hour_set :: "nat \<Rightarrow> nat \<Rightarrow> nat \<Rightarrow> bytes \<Rightarrow> iso_zone \<Rightarrow> CivilTime \<Rightarrow> CivilTime" where
  "hour_set h mi s fr z date = minute_set mi s fr z (date\<lparr>ct_hour := word_of_nat h\<rparr>)"

lemma parseHour_iff:
  assumes "i \<le> length str"
  shows "parseHour str i date = Inr (True, date') \<longleftrightarrow>
    (\<exists>lower h mi s fr z. time_ok h mi s fr z \<and> drop i str = hour_print lower h mi s fr z \<and>
       date' = hour_set h mi s fr z date)" (is "_ \<longleftrightarrow> ?R")
proof -
  have "parseHour str i date = Inr (True, date') \<longleftrightarrow> (\<exists>c n r. drop i str = c # digits2 n @ r \<and> (c = 84 \<or> c = 116) \<and>
      (0 :: int) \<le> int n \<and> n \<le> nat 24 \<and> (\<exists>mi s fr z. mi \<le> 59 \<and> s \<le> 59 \<and> frac_ok fr \<and> zone_ok z \<and>
         r = minute_print mi s fr z \<and> date' = hour_set n mi s fr z date))" (is "_ \<longleftrightarrow> ?M")
    unfolding parseHour_def de_Morgan_disj [symmetric]
    by (rule field_step [where t = "\<lambda>c. c = 84 \<or> c = 116", OF assms]) (use parseMinute_iff in \<open>simp_all add: hour_set_def\<close>)
  also have "?M \<longleftrightarrow> ?R"
  proof
    assume ?M
    then obtain c n mi s fr z where m: "drop i str = c # digits2 n @ minute_print mi s fr z" "c = 84 \<or> c = 116" "n \<le> 24"
      "mi \<le> 59" "s \<le> 59" "frac_ok fr" "zone_ok z" "date' = hour_set n mi s fr z date" by auto
    then have "drop i str = hour_print (c = 116) n mi s fr z" by (auto simp: hour_print_def)
    moreover have "time_ok n mi s fr z" using m(3-7) by (simp add: time_ok_def)
    ultimately show ?R using m(8) by blast
  next
    assume ?R
    then obtain lower h mi s fr z where "time_ok h mi s fr z" "drop i str = hour_print lower h mi s fr z"
      "date' = hour_set h mi s fr z date" by blast
    then show ?M unfolding time_ok_def hour_print_def
      by (intro exI [of _ "if lower then 116 else 84"] exI [of _ h] exI [of _ "minute_print mi s fr z"]) auto
  qed
  finally show ?thesis .
qed

text \<open>The day may be the end, or a time follows; the test of the day bounds it by 31.\<close>

lemma parseDay_iff:
  assumes "i \<le> length str"
  shows "parseDay str i date = Inr (True, date') \<longleftrightarrow>
    (\<exists>d. day_ok d \<and> drop i str = 45 # digits2 d \<and> date' = date\<lparr>ct_day := word_of_nat d\<rparr>) \<or>
    (\<exists>d lower h mi s fr z. day_ok d \<and> time_ok h mi s fr z \<and> drop i str = 45 # digits2 d @ hour_print lower h mi s fr z \<and>
       date' = hour_set h mi s fr z (date\<lparr>ct_day := word_of_nat d\<rparr>))" (is "?L \<longleftrightarrow> ?R")
proof (cases "\<exists>r. drop i str = 45 # r")
  case False
  have "\<not> ?L"
  proof (cases "drop i str")
    case Nil
    then show ?thesis using assms by (auto simp: parseDay_def)
  next
    case (Cons c r)
    then show ?thesis using False char_at_drop(1) [OF Cons] by (auto simp: parseDay_def)
  qed
  then show ?thesis using False by blast
next
  case True
  then obtain r where r: "drop i str = 45 # r" by blast
  note c = char_at_drop(1) [OF r] and len = drop_Cons_length [OF r]
  have dr: "drop (i + 1) str = r" by (rule drop_drop_append [of i str "[45]"]) (use r in simp_all)
  have day: "(0 < int n \<and> int n \<le> uint (daysInMonth y (word_of_int (int n)))) = day_ok n" if "n < 100" for n y
    using day_check [OF that] by (simp add: day_ok_def)
  have "?L \<longleftrightarrow> (\<exists>n. n < 100 \<and> (\<exists>t. r = digits2 n @ t) \<and> day_ok n \<and>
      (if i + 3 < length str then parseHour str (i + 3) (date\<lparr>ct_day := word_of_nat n\<rparr>) = Inr (True, date')
       else date' = date\<lparr>ct_day := word_of_nat n\<rparr>))" (is "_ \<longleftrightarrow> ?M")
  proof
    assume ?L
    then obtain v where v: "copy_field str (i + 1) 2 0 (2 ^ 31) = Inr (Some v)"
      "0 < v \<and> v \<le> uint (daysInMonth (ct_year date) (word_of_int v))"
      "(if i + 3 < length str then parseHour str (i + 3) (date\<lparr>ct_day := word_of_int v\<rparr>)
        else Inr (True, date\<lparr>ct_day := word_of_int v\<rparr>)) = Inr (True, date')"
      using len by (auto simp: parseDay_def c res_bind_Inr Let_def split: if_splits option.splits)
    from v(1) len obtain n t where n: "n < 100" "r = digits2 n @ t" "v = int n"
      using copy_field_iff [of "i + 1" str 0 "2 ^ 31" v] dr by auto
    with v day [OF n(1)] show ?M by (intro exI [of _ n]) (auto split: if_splits)
  next
    assume ?M
    then obtain n t where n: "n < 100" "r = digits2 n @ t" "day_ok n"
      "if i + 3 < length str then parseHour str (i + 3) (date\<lparr>ct_day := word_of_nat n\<rparr>) = Inr (True, date')
       else date' = date\<lparr>ct_day := word_of_nat n\<rparr>" by blast
    have "copy_field str (i + 1) 2 0 (2 ^ 31) = Inr (Some (int n))"
      using copy_field_iff [of "i + 1" str 0 "2 ^ 31" "int n"] dr n(1,2) len by auto
    with n day [OF n(1), of "ct_year date"] show ?L using len
      by (auto simp: parseDay_def c Let_def split: if_splits)
  qed
  also have "?M \<longleftrightarrow> ?R"
  proof
    assume ?M
    then obtain n t where n: "r = digits2 n @ t" "day_ok n"
      "if i + 3 < length str then parseHour str (i + 3) (date\<lparr>ct_day := word_of_nat n\<rparr>) = Inr (True, date')
       else date' = date\<lparr>ct_day := word_of_nat n\<rparr>" by blast
    have l: "length str = i + 3 + length t" using len n(1) by simp
    have t: "drop (i + 3) str = t" by (rule drop_drop_append [of "i + 1" str "digits2 n"]) (use dr n(1) in simp_all)
    show ?R
    proof (cases "t = []")
      case True
      then show ?thesis using n r l by auto
    next
      case False
      then have "parseHour str (i + 3) (date\<lparr>ct_day := word_of_nat n\<rparr>) = Inr (True, date')" using n(3) l by simp
      then obtain lower h mi s fr z where "time_ok h mi s fr z" "t = hour_print lower h mi s fr z"
        "date' = hour_set h mi s fr z (date\<lparr>ct_day := word_of_nat n\<rparr>)"
        using parseHour_iff [of "i + 3" str] l t by auto
      with n(1,2) r show ?thesis by blast
    qed
  next
    assume ?R
    then consider (stop) d where "day_ok d" "r = digits2 d" "date' = date\<lparr>ct_day := word_of_nat d\<rparr>"
      | (time) d lower h mi s fr z where "day_ok d" "time_ok h mi s fr z" "r = digits2 d @ hour_print lower h mi s fr z"
        "date' = hour_set h mi s fr z (date\<lparr>ct_day := word_of_nat d\<rparr>)" using r by auto
    then show ?M
    proof cases
      case stop
      then show ?thesis using len by (intro exI [of _ d]) (auto simp: day_ok_def)
    next
      case time
      have l: "i + 3 < length str" using len time(3) by (simp add: hour_print_def)
      have t: "drop (i + 3) str = hour_print lower h mi s fr z"
        by (rule drop_drop_append [of "i + 1" str "digits2 d"]) (use dr time(3) in simp_all)
      have "parseHour str (i + 3) (date\<lparr>ct_day := word_of_nat d\<rparr>) = Inr (True, date')"
        unfolding parseHour_iff [OF less_imp_le [OF l]] t using time(2,4) by blast
      then show ?thesis using time(1,3) l by (intro exI [of _ d]) (auto simp: day_ok_def)
    qed
  qed
  finally show ?thesis .
qed

lemma parseMonth_iff:
  assumes "i \<le> length str"
  shows "parseMonth str i date = Inr (True, date') \<longleftrightarrow>
    (\<exists>mo. month_ok mo \<and> drop i str = 45 # digits2 mo \<and> date' = date\<lparr>ct_month := word_of_nat mo\<rparr>) \<or>
    (\<exists>mo. month_ok mo \<and> i + 3 < length str \<and> (\<exists>t. drop i str = 45 # digits2 mo @ t) \<and>
       parseDay str (i + 3) (date\<lparr>ct_month := word_of_nat mo\<rparr>) = Inr (True, date'))" (is "?L \<longleftrightarrow> ?R")
proof (cases "\<exists>r. drop i str = 45 # r")
  case False
  have "\<not> ?L"
  proof (cases "drop i str")
    case Nil
    then show ?thesis using assms by (auto simp: parseMonth_def)
  next
    case (Cons c r)
    then show ?thesis using False char_at_drop(1) [OF Cons] by (auto simp: parseMonth_def)
  qed
  then show ?thesis using False by auto
next
  case True
  then obtain r where r: "drop i str = 45 # r" by blast
  note c = char_at_drop(1) [OF r] and len = drop_Cons_length [OF r]
  have dr: "drop (i + 1) str = r" by (rule drop_drop_append [of i str "[45]"]) (use r in simp_all)
  show ?thesis
  proof
    assume ?L
    then obtain v where v: "copy_field str (i + 1) 2 1 12 = Inr (Some v)"
      "(if i + 3 < length str then parseDay str (i + 3) (date\<lparr>ct_month := word_of_int v\<rparr>)
        else Inr (True, date\<lparr>ct_month := word_of_int v\<rparr>)) = Inr (True, date')"
      using len by (auto simp: parseMonth_def c res_bind_Inr Let_def split: if_splits option.splits)
    from v(1) len obtain n t where n: "r = digits2 n @ t" "v = int n" "1 \<le> n" "n \<le> 12"
      using copy_field_iff [of "i + 1" str 1 12 v] dr by auto
    have l: "length str = i + 3 + length t" using len n(1) by simp
    have m: "month_ok n" using n(3,4) by (simp add: month_ok_def)
    show ?R
    proof (cases "t = []")
      case True
      then have "drop i str = 45 # digits2 n" "date' = date\<lparr>ct_month := word_of_nat n\<rparr>" using r n v(2) l by auto
      with m show ?thesis by blast
    next
      case False
      then have "i + 3 < length str" "drop i str = 45 # digits2 n @ t"
        "parseDay str (i + 3) (date\<lparr>ct_month := word_of_nat n\<rparr>) = Inr (True, date')" using r n v(2) l by auto
      with m show ?thesis by blast
    qed
  next
    assume ?R
    then obtain n t where n: "month_ok n" "r = digits2 n @ t"
      "(if t = [] then date' = date\<lparr>ct_month := word_of_nat n\<rparr>
        else parseDay str (i + 3) (date\<lparr>ct_month := word_of_nat n\<rparr>) = Inr (True, date'))"
    proof (elim disjE exE conjE)
      fix mo assume "month_ok mo" "drop i str = 45 # digits2 mo" "date' = date\<lparr>ct_month := word_of_nat mo\<rparr>"
      then show thesis using r that [of mo "[]"] by simp
    next
      fix mo t assume a: "month_ok mo" "i + 3 < length str" "drop i str = 45 # digits2 mo @ t"
        "parseDay str (i + 3) (date\<lparr>ct_month := word_of_nat mo\<rparr>) = Inr (True, date')"
      then have "t \<noteq> []" using len r by auto
      then show thesis using a r that [of mo t] by simp
    qed
    have l: "length str = i + 3 + length t" using len n(2) by simp
    have "copy_field str (i + 1) 2 1 12 = Inr (Some (int n))"
      using copy_field_iff [of "i + 1" str 1 12 "int n"] dr n(1,2) len by (auto simp: month_ok_def)
    with n l show ?L by (auto simp: parseMonth_def c Let_def split: if_splits)
  qed
qed

lemma parseYear_iff:
  "parseYear str 0 date = Inr (True, date') \<longleftrightarrow>
    (\<exists>y t. y < 10000 \<and> str = digits4 y @ t \<and>
      (if t = [] then date' = date\<lparr>ct_year := word_of_nat y\<rparr>
       else parseMonth str 4 (date\<lparr>ct_year := word_of_nat y\<rparr>) = Inr (True, date')))" (is "?L \<longleftrightarrow> ?R")
proof (cases "4 \<le> length str")
  case False
  then show ?thesis by (auto simp: parseYear_def)
next
  case True
  have nil: "4 < length (digits4 y @ t) \<longleftrightarrow> t \<noteq> []" for y t by simp
  show ?thesis
  proof
    assume ?L
    then obtain v where v: "copy_field str 0 4 0 (2 ^ 31) = Inr (Some v)"
      "(if 4 < length str then parseMonth str 4 (date\<lparr>ct_year := word_of_int v\<rparr>)
        else Inr (True, date\<lparr>ct_year := word_of_int v\<rparr>)) = Inr (True, date')"
      using True by (auto simp: parseYear_def res_bind_Inr Let_def split: if_splits option.splits)
    from v(1) [unfolded year_field_iff [OF True]] obtain n t where n: "n < 10000" "str = digits4 n @ t" "v = int n" by blast
    with v(2) nil [of n t] show ?R by (intro exI [of _ n] exI [of _ t]) (auto split: if_splits)
  next
    assume ?R
    then obtain n t where n: "n < 10000" "str = digits4 n @ t" "if t = [] then date' = date\<lparr>ct_year := word_of_nat n\<rparr>
       else parseMonth str 4 (date\<lparr>ct_year := word_of_nat n\<rparr>) = Inr (True, date')" by blast
    have "copy_field str 0 4 0 (2 ^ 31) = Inr (Some (int n))" using year_field_iff [OF True] n(1,2) by blast
    with n(3) nil [of n t] True show ?L by (auto simp: parseYear_def n(2) [symmetric] Let_def split: if_splits)
  qed
qed

lemma hour_value:
  "hour_set h mi s fr z (CivilTime_null\<lparr>ct_year := word_of_nat y, ct_month := word_of_nat mo, ct_day := word_of_nat d\<rparr>) =
     iso_value (IsoTime y mo d lower h mi s fr z)"
  by (simp add: hour_set_def minute_set_def second_set_def zone_set_def frac_set_def frac_millis_def CivilTime_null_def
      digits_value_def)

text \<open>Exactly the printed forms are accepted, each with its value.\<close>

lemma ISO8601_parse_sound:
  assumes "ISO8601_parse str = Inr (Some c)"
  shows "\<exists>f. iso_ok f \<and> str = iso_print f \<and> c = iso_value f"
proof -
  from assms have "parseYear str 0 CivilTime_null = Inr (True, c)"
    by (auto simp: ISO8601_parse_def res_bind_Inr split: if_splits)
  then obtain y t where y: "y < 10000" "str = digits4 y @ t" "if t = [] then c = CivilTime_null\<lparr>ct_year := word_of_nat y\<rparr>
       else parseMonth str 4 (CivilTime_null\<lparr>ct_year := word_of_nat y\<rparr>) = Inr (True, c)"
    unfolding parseYear_iff by blast
  let ?date = "CivilTime_null\<lparr>ct_year := word_of_nat y\<rparr>"
  have len: "4 \<le> length str" and d4: "drop 4 str = t" using y(2) by simp_all
  show ?thesis
  proof (cases "t = []")
    case True
    with y show ?thesis by (intro exI [of _ "IsoYear y"]) simp
  next
    case False
    with y(3) have "parseMonth str 4 ?date = Inr (True, c)" by simp
    then consider (stop) mo where "month_ok mo" "t = 45 # digits2 mo" "c = ?date\<lparr>ct_month := word_of_nat mo\<rparr>"
      | (more) mo u where "month_ok mo" "7 < length str" "t = 45 # digits2 mo @ u"
        "parseDay str 7 (?date\<lparr>ct_month := word_of_nat mo\<rparr>) = Inr (True, c)"
      unfolding parseMonth_iff [OF len] d4 by auto
    then show ?thesis
    proof cases
      case stop
      with y show ?thesis by (intro exI [of _ "IsoMonth y mo"]) simp
    next
      case more
      have d7: "drop 7 str = u" by (simp add: y(2) more(3))
      from more(4) consider (day) d where "day_ok d" "u = 45 # digits2 d"
          "c = ?date\<lparr>ct_month := word_of_nat mo, ct_day := word_of_nat d\<rparr>"
        | (time) d lower h mi s fr z where "day_ok d" "time_ok h mi s fr z" "u = 45 # digits2 d @ hour_print lower h mi s fr z"
          "c = hour_set h mi s fr z (?date\<lparr>ct_month := word_of_nat mo, ct_day := word_of_nat d\<rparr>)"
        unfolding parseDay_iff [OF less_imp_le [OF more(2)]] d7 by blast
      then show ?thesis
      proof cases
        case day
        with y more show ?thesis by (intro exI [of _ "IsoDay y mo d"]) simp
      next
        case time
        with y more hour_value [of h mi s fr z d mo y lower] show ?thesis
          by (intro exI [of _ "IsoTime y mo d lower h mi s fr z"]) simp
      qed
    qed
  qed
qed

lemma parse_month_form:
  assumes "y < 10000" and "str = digits4 y @ 45 # t"
    and "parseMonth str 4 (CivilTime_null\<lparr>ct_year := word_of_nat y\<rparr>) = Inr (True, c)"
  shows "parseYear str 0 CivilTime_null = Inr (True, c)"
  unfolding parseYear_iff using assms by (intro exI [of _ y] exI [of _ "45 # t"]) simp

lemma parse_day_form:
  assumes "y < 10000" and "month_ok mo" and "str = digits4 y @ 45 # digits2 mo @ 45 # t"
    and "parseDay str 7 (CivilTime_null\<lparr>ct_year := word_of_nat y, ct_month := word_of_nat mo\<rparr>) = Inr (True, c)"
  shows "parseYear str 0 CivilTime_null = Inr (True, c)"
proof (rule parse_month_form [OF assms(1,3)])
  have "4 \<le> length str" "drop 4 str = 45 # digits2 mo @ 45 # t" "7 < length str" using assms(3) by simp_all
  then show "parseMonth str 4 (CivilTime_null\<lparr>ct_year := word_of_nat y\<rparr>) = Inr (True, c)"
    using parseMonth_iff [of 4 str "CivilTime_null\<lparr>ct_year := word_of_nat y\<rparr>" c] assms(2,4) by auto
qed

lemma ISO8601_parse_form:
  assumes "iso_ok f" and "str = iso_print f" and "c = iso_value f"
  shows "ISO8601_parse str = Inr (Some c)"
proof -
  note f = assms
  have "parseYear str 0 CivilTime_null = Inr (True, c)"
  proof (cases f)
    case (IsoYear y)
    with f show ?thesis by (auto simp: parseYear_iff)
  next
    case (IsoMonth y mo)
    with f have "drop 4 str = 45 # digits2 mo" "4 \<le> length str" by simp_all
    with f IsoMonth show ?thesis
      by (intro parse_month_form [of y _ "digits2 mo"]) (auto simp: parseMonth_iff)
  next
    case (IsoDay y mo d)
    with f have "drop 7 str = 45 # digits2 d" "7 \<le> length str" by simp_all
    with f IsoDay show ?thesis
      by (intro parse_day_form [of y mo _ "digits2 d"]) (auto simp: parseDay_iff)
  next
    case (IsoTime y mo d lower h mi s fr z)
    with f have d7: "drop 7 str = 45 # digits2 d @ hour_print lower h mi s fr z" "7 \<le> length str" by simp_all
    have "parseDay str 7 (CivilTime_null\<lparr>ct_year := word_of_nat y, ct_month := word_of_nat mo\<rparr>) = Inr (True, c)"
      unfolding parseDay_iff [OF d7(2)] d7(1) using f hour_value [of h mi s fr z d mo y lower] IsoTime
      by (intro disjI2 exI [of _ d] exI [of _ lower] exI [of _ h] exI [of _ mi] exI [of _ s] exI [of _ fr] exI [of _ z]) simp
    with f IsoTime show ?thesis by (intro parse_day_form [of y mo _ "digits2 d @ hour_print lower h mi s fr z"]) simp_all
  qed
  then show ?thesis by (simp add: ISO8601_parse_def)
qed

lemma ISO8601_parse_iff:
  "ISO8601_parse str = Inr (Some c) \<longleftrightarrow> (\<exists>f. iso_ok f \<and> str = iso_print f \<and> c = iso_value f)"
  using ISO8601_parse_sound ISO8601_parse_form by blast

end
