(* ===== verification/CS_Uri.thy ===== *)
theory CS_Uri
  imports CS_Human
begin

text \<open>
  URIs (\<open>stx/uri.cc\<close>): percent encoding, parsing a URI into its parts, writing it, and query
  strings. \<open>StringUtil::format\<close> is \<open>StringUtil_formatv\<close> of the values as strings.
\<close>

section \<open>Percent encoding\<close>

definition url_plain :: "byte \<Rightarrow> bool" where
  "url_plain c \<longleftrightarrow> is_upper c \<or> is_lower c \<or> is_digit c \<or> c = 45 \<or> c = 95 \<or> c = 46 \<or> c = 126"

definition hextbl :: "byte \<Rightarrow> byte" where
  "hextbl n = ascii ''0123456789ABCDEF'' ! unat n"

definition urlEncode :: "bytes \<Rightarrow> bytes" where
  "urlEncode str =
     concat (map (\<lambda>c. if url_plain c then [c] else [37, hextbl (drop_bit 4 c AND 0xF), hextbl (c AND 0xF)]) str)"

text \<open>\<open>stoul\<close> of two hexadecimal digits.\<close>

definition hex_value :: "byte \<Rightarrow> nat" where
  "hex_value c =
     (if is_digit c then unat c - 48 else if is_lower c then unat c - 97 + 10 else unat c - 65 + 10)"

fun urlDecode :: "bytes \<Rightarrow> bytes res" where
  "urlDecode [] = Inr []"
| "urlDecode (c # s) =
     (if c = 37 then
        (case s of
           a # b # r \<Rightarrow>
             if \<not> isHexString [a, b] then res_bind (urlDecode s) (\<lambda>d. Inr (37 # d))
             else res_bind (urlDecode r) (\<lambda>d. Inr (word_of_nat (16 * hex_value a + hex_value b) # d))
         | _ \<Rightarrow> Inl IllegalArgumentError)
      else if c = 43 then res_bind (urlDecode s) (\<lambda>d. Inr (32 # d))
      else res_bind (urlDecode s) (\<lambda>d. Inr (c # d)))"

section \<open>Parts of a URI\<close>

record uri =
  uri_scheme :: bytes
  uri_userinfo :: bytes
  uri_host :: bytes
  uri_port :: u32
  uri_path :: bytes
  uri_query :: bytes
  uri_fragment :: bytes

definition URI_empty :: uri where
  "URI_empty = \<lparr>uri_scheme = [], uri_userinfo = [], uri_host = [], uri_port = 0, uri_path = [], uri_query = [],
     uri_fragment = []\<rparr>"

text \<open>
  Every step takes the text from \<open>begin\<close> on and the object so far, and gives both back. A part
  that does not occur keeps its value.
\<close>

definition uri_parse_scheme :: "bytes \<Rightarrow> uri \<Rightarrow> bytes \<times> uri" where
  "uri_parse_scheme s u =
     (let pre = takeWhile (\<lambda>c. c \<noteq> 47 \<and> c \<noteq> 58) s
      in case drop (length pre) s of
           c # r \<Rightarrow> if c = 58 then (r, u\<lparr>uri_scheme := pre\<rparr>) else (s, u)
         | [] \<Rightarrow> (s, u))"

definition uri_parse_userinfo :: "bytes \<Rightarrow> uri \<Rightarrow> bytes \<times> uri" where
  "uri_parse_userinfo a u =
     (let pre = takeWhile (\<lambda>c. c \<noteq> 64) a
      in case drop (length pre) a of _ # r \<Rightarrow> (r, u\<lparr>uri_userinfo := pre\<rparr>) | [] \<Rightarrow> (a, u))"

text \<open>
  The loop over the digits of the port ends at the end of the authority, which a character that
  is no digit follows.
\<close>

definition uri_parse_host :: "bytes \<Rightarrow> uri \<Rightarrow> uri res" where
  "uri_parse_host a u =
     (let host = takeWhile (\<lambda>c. c \<noteq> 58) a; u = u\<lparr>uri_host := host\<rparr>; r = drop (length host) a
      in if length r > 1 then
           (let port_str = takeWhile is_digit (tl r)
            in if port_str = [] then Inr u
               else case stoi port_str of
                      Inl e \<Rightarrow> Inl RuntimeError
                    | Inr port \<Rightarrow> Inr (u\<lparr>uri_port := word_of_int port\<rparr>))
         else Inr u)"

definition uri_parse_authority :: "bytes \<Rightarrow> uri \<Rightarrow> (bytes \<times> uri) res" where
  "uri_parse_authority s u =
     (if length s > 2 \<and> s ! 0 = 47 \<and> s ! 1 = 47 then
        (let s = drop 2 s; auth = takeWhile (\<lambda>c. c \<noteq> 47 \<and> c \<noteq> 63 \<and> c \<noteq> 35) s; rest = drop (length auth) s
         in if auth = [] then Inr (rest, u)
            else (let (a, u) = uri_parse_userinfo auth u
                  in res_bind (uri_parse_host a u) (\<lambda>u. Inr (rest, u))))
      else Inr (s, u))"

definition uri_parse_path :: "bytes \<Rightarrow> uri \<Rightarrow> bytes \<times> uri" where
  "uri_parse_path s u =
     (let path = takeWhile (\<lambda>c. c \<noteq> 63 \<and> c \<noteq> 35) s
      in (drop (length path) s, if path = [] then u else u\<lparr>uri_path := path\<rparr>))"

definition uri_parse_query :: "bytes \<Rightarrow> uri \<Rightarrow> bytes \<times> uri" where
  "uri_parse_query s u =
     (case s of
        c # r \<Rightarrow>
          if c = 63 then
            (let query = takeWhile (\<lambda>c. c \<noteq> 35) r
             in (drop (length query) r, if query = [] then u else u\<lparr>uri_query := query\<rparr>))
          else (s, u)
      | [] \<Rightarrow> (s, u))"

definition uri_parse_fragment :: "bytes \<Rightarrow> uri \<Rightarrow> uri" where
  "uri_parse_fragment s u = (if length s > 1 \<and> s ! 0 = 35 then u\<lparr>uri_fragment := tl s\<rparr> else u)"

definition URI_parse :: "bytes \<Rightarrow> uri \<Rightarrow> uri res" where
  "URI_parse uri_str u =
     (let (s, u) = uri_parse_scheme uri_str u
      in res_bind (uri_parse_authority s u) (\<lambda>(s, u).
           let (s, u) = uri_parse_path s u; (s, u) = uri_parse_query s u
           in Inr (uri_parse_fragment s u)))"

definition URI_hostAndPort :: "uri \<Rightarrow> bytes res option" where
  "URI_hostAndPort u =
     (if uri_port u > 0 then StringUtil_formatv (ascii ''$0:$1'') [uri_host u, digits (unat (uri_port u))]
      else Some (Inr (uri_host u)))"

definition URI_pathAndQuery :: "uri \<Rightarrow> bytes res option" where
  "URI_pathAndQuery u =
     (if length (uri_query u) > 0 then StringUtil_formatv (ascii ''$0?$1'') [uri_path u, uri_query u]
      else Some (Inr (uri_path u)))"

definition URI_toString :: "uri \<Rightarrow> bytes" where
  "URI_toString u =
     uri_scheme u @ [58] @
     (if uri_host u \<noteq> [] then
        [47, 47] @ (if uri_userinfo u \<noteq> [] then uri_userinfo u @ [64] else []) @ uri_host u @
        (if uri_port u > 0 then [58] @ digits (unat (uri_port u)) else [])
      else []) @
     uri_path u @
     (if uri_query u \<noteq> [] then [63] @ uri_query u else []) @
     (if uri_fragment u \<noteq> [] then [35] @ uri_fragment u else [])"

section \<open>Query strings\<close>

text \<open>The loop ends at the first piece that is not a key, an equals sign and a value.\<close>

function parseQueryString :: "bytes \<Rightarrow> (bytes \<times> bytes) list res" where
  "parseQueryString s =
     (let key = takeWhile (\<lambda>c. c \<noteq> 61 \<and> c \<noteq> 38) s
      in case drop (length key) s of
           c # r \<Rightarrow>
             if key = [] \<or> c \<noteq> 61 then Inr []
             else (let val = takeWhile (\<lambda>c. c \<noteq> 61 \<and> c \<noteq> 38) r
                   in res_bind (urlDecode key) (\<lambda>k. res_bind (urlDecode val) (\<lambda>v.
                      res_bind (parseQueryString (drop (Suc (length val)) r)) (\<lambda>params. Inr ((k, v) # params)))))
         | [] \<Rightarrow> Inr [])"
  by pat_completeness auto

termination
proof (relation "measure length", simp)
  fix s key :: bytes and c r val k v
  assume "drop (length key) s = c # r"
  then have "length (drop (length key) s) = Suc (length r)" by simp
  then show "(drop (Suc (length val)) r, s) \<in> measure length" by simp
qed

declare parseQueryString.simps [simp del]

fun query_pieces :: "bool \<Rightarrow> (bytes \<times> bytes) list \<Rightarrow> bytes \<Rightarrow> bytes res option" where
  "query_pieces first [] out = Some (Inr out)"
| "query_pieces first ((k, v) # params) out =
     (case StringUtil_formatv (ascii ''$0=$1'') [urlEncode k, urlEncode v] of
        None \<Rightarrow> None
      | Some (Inl e) \<Rightarrow> Some (Inl e)
      | Some (Inr piece) \<Rightarrow> query_pieces False params (out @ (if first then [] else [38]) @ piece))"

definition buildQueryString :: "(bytes \<times> bytes) list \<Rightarrow> bytes res option" where
  "buildQueryString params = query_pieces True params []"

fun getParam :: "(bytes \<times> bytes) list \<Rightarrow> bytes \<Rightarrow> bytes option" where
  "getParam [] key = None"
| "getParam ((k, v) # params) key = (if k = key then Some v else getParam params key)"

section \<open>Encoding and decoding\<close>

lemma nibbles:
  "unat (c AND 0xF) = unat c mod 16" "unat (drop_bit 4 (c :: byte) AND 0xF) = unat c div 16"
proof -
  have b: "unat c < 256" using unat_less_exp [of c] by simp
  have m: "x AND 0xF = take_bit 4 x" for x :: byte by (simp add: take_bit_eq_mask mask_eq_exp_minus_1)
  then have u: "unat (x AND 0xF) = unat x mod 16" for x :: byte
    by (simp only: m unsigned_take_bit_eq) (simp add: take_bit_eq_mod)
  show "unat (c AND 0xF) = unat c mod 16" by (rule u)
  have "unat (drop_bit 4 c) = unat c div 16" 
    using b by (simp only: unsigned_drop_bit_eq) (simp add: drop_bit_eq_div take_bit_eq_mod)
  moreover have "unat c div 16 < 16" using unat_less_exp [of c] by (simp add: less_mult_imp_div_less)
  ultimately show "unat (drop_bit 4 c AND 0xF) = unat c div 16" by (simp add: u)
qed

lemma hextbl_props: "unat n < 16 \<Longrightarrow> isHexString [hextbl n] \<and> hex_value (hextbl n) = unat n"
proof -
  assume "unat n < 16"
  then have "unat n \<in> set [0..<16]" by simp
  also have "[0..<16] = [0, 1, 2, 3, 4, 5, 6, 7, 8, 9, 10, 11, 12, 13, 14, 15]" by (simp add: upt_rec)
  finally have n: "unat n \<in> set [0, 1, 2, 3, 4, 5, 6, 7, 8, 9, 10, 11, 12, 13, 14, 15]" .
  have "list_all (\<lambda>k. isHexString [ascii ''0123456789ABCDEF'' ! k] \<and> hex_value (ascii ''0123456789ABCDEF'' ! k) = k)
      [0, 1, 2, 3, 4, 5, 6, 7, 8, 9, 10, 11, 12, 13, 14, 15]" by code_simp
  from this [unfolded list_all_iff] n show ?thesis unfolding hextbl_def by blast
qed

lemma hex_digits:
  "isHexString [hextbl (drop_bit 4 c AND 0xF), hextbl (c AND 0xF)]"
  "word_of_nat (16 * hex_value (hextbl (drop_bit 4 c AND 0xF)) + hex_value (hextbl (c AND 0xF))) = (c :: byte)"
proof -
  have "unat c div 16 < 16" using unat_less_exp [of c] by (simp add: less_mult_imp_div_less)
  then have h: "isHexString [hextbl (drop_bit 4 c AND 0xF)] \<and> hex_value (hextbl (drop_bit 4 c AND 0xF)) = unat c div 16"
    "isHexString [hextbl (c AND 0xF)] \<and> hex_value (hextbl (c AND 0xF)) = unat c mod 16"
    using hextbl_props [of "drop_bit 4 c AND 0xF", unfolded nibbles(2)] hextbl_props [of "c AND 0xF", unfolded nibbles(1)] by simp_all
  show "isHexString [hextbl (drop_bit 4 c AND 0xF), hextbl (c AND 0xF)]" using h by (simp add: isHexString_def)
  have "16 * (unat c div 16) + unat c mod 16 = unat c" by simp
  then show "word_of_nat (16 * hex_value (hextbl (drop_bit 4 c AND 0xF)) + hex_value (hextbl (c AND 0xF))) = c"
    by (simp only: h) simp
qed

lemma urlDecode_urlEncode_append: "urlDecode (urlEncode s @ t) = res_bind (urlDecode t) (\<lambda>d. Inr (s @ d))"
proof (induction s)
  case Nil
  show ?case by (simp add: urlEncode_def)
next
  case (Cons c s)
  have plain: "c \<noteq> 37 \<and> c \<noteq> 43" if "url_plain c"
    using that by (auto simp: url_plain_def is_upper_def is_lower_def is_digit_def)
  have e: "urlEncode (c # s) = (if url_plain c then [c] else [37, hextbl (drop_bit 4 c AND 0xF), hextbl (c AND 0xF)]) @ urlEncode s"
    by (simp add: urlEncode_def)
  show ?case using plain Cons hex_digits [of c] by (simp add: e res_bind_assoc)
qed

lemma urlDecode_urlEncode: "urlDecode (urlEncode s) = Inr s"
  using urlDecode_urlEncode_append [of s "[]"] by simp

section \<open>A URI that was written is read back\<close>

definition uri_ok :: "uri \<Rightarrow> bool" where
  "uri_ok u \<longleftrightarrow>
     (\<forall>c \<in> set (uri_scheme u). c \<noteq> 47 \<and> c \<noteq> 58) \<and>
     (\<forall>c \<in> set (uri_userinfo u). c \<noteq> 47 \<and> c \<noteq> 63 \<and> c \<noteq> 35 \<and> c \<noteq> 64) \<and>
     uri_host u \<noteq> [] \<and> (\<forall>c \<in> set (uri_host u). c \<noteq> 47 \<and> c \<noteq> 63 \<and> c \<noteq> 35 \<and> c \<noteq> 58 \<and> c \<noteq> 64) \<and>
     unat (uri_port u) < 2 ^ 31 \<and>
     (uri_path u = [] \<or> hd (uri_path u) = 47) \<and> (\<forall>c \<in> set (uri_path u). c \<noteq> 63 \<and> c \<noteq> 35) \<and>
     35 \<notin> set (uri_query u)"

lemma takeWhile_stop:
  "\<forall>x \<in> set xs. P x \<Longrightarrow> ys = [] \<or> \<not> P (hd ys) \<Longrightarrow> takeWhile P (xs @ ys) = xs"
  by (cases ys) (simp_all add: takeWhile_append2 takeWhile_eq_all_conv [THEN iffD2])

lemma takeWhile_all: "\<forall>x \<in> set xs. P x \<Longrightarrow> takeWhile P xs = xs"
  using takeWhile_stop [of xs P "[]"] by simp

lemma takeWhile_digits: "takeWhile is_digit (digits n) = digits n"
  by (rule takeWhile_all) (use digits_props [of n] in blast)

lemma stoi_digits_nat: "n < 2 ^ 31 \<Longrightarrow> stoi (digits n) = Inr (int n)"
  by (simp add: stoi_def strtol_parse_digits)

definition uri_authority :: "uri \<Rightarrow> bytes" where
  "uri_authority u =
     (if uri_userinfo u \<noteq> [] then uri_userinfo u @ [64] else []) @ uri_host u @
     (if uri_port u > 0 then [58] @ digits (unat (uri_port u)) else [])"

definition uri_tail :: "uri \<Rightarrow> bytes" where
  "uri_tail u = uri_path u @ (if uri_query u \<noteq> [] then [63] @ uri_query u else []) @
     (if uri_fragment u \<noteq> [] then [35] @ uri_fragment u else [])"

lemma URI_toString_parts:
  "uri_host u \<noteq> [] \<Longrightarrow> URI_toString u = uri_scheme u @ 58 # 47 # 47 # uri_authority u @ uri_tail u"
  by (simp add: URI_toString_def uri_authority_def uri_tail_def)

lemma digits_no: "\<not> is_digit x \<Longrightarrow> x \<notin> set (digits n)"
  using digits_props [of n] by auto

lemma uri_authority_chars:
  assumes "uri_ok u"
  shows "\<forall>c \<in> set (uri_authority u). c \<noteq> 47 \<and> c \<noteq> 63 \<and> c \<noteq> 35" "uri_authority u \<noteq> []"
  using assms digits_no [of 47] digits_no [of 63] digits_no [of 35]
  by (auto simp: uri_ok_def uri_authority_def is_digit_def)

lemma uri_tail_start: "uri_ok u \<Longrightarrow> uri_tail u = [] \<or> \<not> (hd (uri_tail u) \<noteq> 47 \<and> hd (uri_tail u) \<noteq> 63 \<and> hd (uri_tail u) \<noteq> 35)"
  by (auto simp: uri_ok_def uri_tail_def hd_append)

lemma uri_parse_authority_ok:
  assumes ok: "uri_ok u" and "uri_userinfo v = []" and "uri_port v = 0"
  shows "uri_parse_authority (47 # 47 # uri_authority u @ uri_tail u) v =
    Inr (uri_tail u, v\<lparr>uri_userinfo := uri_userinfo u, uri_host := uri_host u, uri_port := uri_port u\<rparr>)"
proof -
  note auth = uri_authority_chars [OF ok]
  define hp where "hp = uri_host u @ (if uri_port u > 0 then [58] @ digits (unat (uri_port u)) else [])"
  have ua: "uri_authority u = (if uri_userinfo u \<noteq> [] then uri_userinfo u @ [64] else []) @ hp"
    by (simp add: uri_authority_def hp_def)
  have tw: "takeWhile (\<lambda>c. c \<noteq> 47 \<and> c \<noteq> 63 \<and> c \<noteq> 35) (uri_authority u @ uri_tail u) = uri_authority u"
    using auth(1) uri_tail_start [OF ok] by (intro takeWhile_stop) auto
  have no64: "64 \<notin> set hp" using ok digits_no [of 64] by (auto simp: uri_ok_def is_digit_def hp_def)
  have ui: "uri_parse_userinfo (uri_authority u) v = (hp, v\<lparr>uri_userinfo := uri_userinfo u\<rparr>)"
  proof (cases "uri_userinfo u = []")
    case True
    have "takeWhile (\<lambda>c. c \<noteq> 64) hp = hp" using no64 by (intro takeWhile_eq_all_conv [THEN iffD2]) auto
    then have "drop (length (takeWhile (\<lambda>c. c \<noteq> 64) hp)) hp = []" by (simp only:) simp
    with True assms(2) show ?thesis by (cases v) (simp add: uri_parse_userinfo_def ua Let_def)
  next
    case False
    have "takeWhile (\<lambda>c. c \<noteq> 64) (uri_userinfo u @ 64 # hp) = uri_userinfo u"
      using ok by (intro takeWhile_stop) (auto simp: uri_ok_def)
    with False show ?thesis by (simp add: uri_parse_userinfo_def ua Let_def)
  qed
  have h: "takeWhile (\<lambda>c. c \<noteq> 58) hp = uri_host u"
    unfolding hp_def using ok by (intro takeWhile_stop) (auto simp: uri_ok_def)
  have p: "uri_parse_host hp w = Inr (w\<lparr>uri_host := uri_host u, uri_port := uri_port u\<rparr>)" if "uri_port w = 0" for w
  proof (cases "uri_port u > 0")
    case True
    have "unat (uri_port u) < 2 ^ 31" using ok by (simp add: uri_ok_def)
    with True h digits_props [of "unat (uri_port u)"] show ?thesis
      by (simp add: uri_parse_host_def Let_def stoi_digits_nat Suc_le_eq hp_def takeWhile_digits)
  next
    case False
    then have "uri_port u = 0" by (simp add: word_greater_zero_iff)
    with h that show ?thesis by (simp add: uri_parse_host_def Let_def hp_def takeWhile_all)
  qed
  have "2 < length (47 # 47 # uri_authority u @ uri_tail u)" using auth(2) by (cases "uri_authority u") simp_all
  then show ?thesis using auth(2) tw assms(3) by (simp add: uri_parse_authority_def Let_def ui p)
qed

lemma uri_roundtrip:
  assumes ok: "uri_ok u"
  shows "URI_parse (URI_toString u) URI_empty = Inr u"
proof -
  let ?v = "URI_empty\<lparr>uri_scheme := uri_scheme u\<rparr>"
  have s: "uri_parse_scheme (URI_toString u) URI_empty = (47 # 47 # uri_authority u @ uri_tail u, ?v)"
  proof -
    have "takeWhile (\<lambda>c. c \<noteq> 47 \<and> c \<noteq> 58) (uri_scheme u @ 58 # r) = uri_scheme u" for r
      using ok by (intro takeWhile_stop) (auto simp: uri_ok_def)
    then show ?thesis using ok by (simp add: URI_toString_parts uri_ok_def uri_parse_scheme_def Let_def)
  qed
  have a: "uri_parse_authority (47 # 47 # uri_authority u @ uri_tail u) ?v =
      Inr (uri_tail u, ?v\<lparr>uri_userinfo := uri_userinfo u, uri_host := uri_host u, uri_port := uri_port u\<rparr>)"
    by (rule uri_parse_authority_ok [OF ok]) (simp_all add: URI_empty_def)
  define f where "f = (if uri_fragment u \<noteq> [] then [35] @ uri_fragment u else [])"
  define q where "q = (if uri_query u \<noteq> [] then [63] @ uri_query u else []) @ f"
  have hd: "f = [] \<or> hd f = 35" "q = [] \<or> \<not> (hd q \<noteq> 63 \<and> hd q \<noteq> 35)" by (simp_all add: f_def q_def)
  have "takeWhile (\<lambda>c. c \<noteq> 63 \<and> c \<noteq> 35) (uri_path u @ q) = uri_path u"
    using ok hd(2) by (intro takeWhile_stop) (auto simp: uri_ok_def)
  moreover have "uri_tail u = uri_path u @ q" by (simp add: uri_tail_def f_def q_def)
  ultimately have p: "uri_parse_path (uri_tail u) v = (q, v\<lparr>uri_path := uri_path u\<rparr>)" if "uri_path v = []" for v
    using that by (cases v) (simp add: uri_parse_path_def Let_def)
  have "takeWhile (\<lambda>c. c \<noteq> 35) (uri_query u @ f) = uri_query u"
    using ok hd(1) by (intro takeWhile_stop) (auto simp: uri_ok_def)
  then have q: "uri_parse_query q v = (f, v\<lparr>uri_query := uri_query u\<rparr>)" if "uri_query v = []" for v
    using that hd(1) by (cases v; cases f) (auto simp add: uri_parse_query_def Let_def q_def takeWhile_all)
  have f: "uri_parse_fragment f v = v\<lparr>uri_fragment := uri_fragment u\<rparr>" if "uri_fragment v = []" for v
    using that by (cases v) (simp add: uri_parse_fragment_def Suc_le_eq f_def)
  have e: "uri_path URI_empty = []" "uri_query URI_empty = []" "uri_fragment URI_empty = []"
    by (simp_all add: URI_empty_def)
  show ?thesis by (simp add: URI_parse_def s a p q f e)
qed


section \<open>Formatting\<close>

text \<open>A placeholder that occurs once, behind text without a dollar sign, is replaced.\<close>

lemma str_search_dollar:
  "36 \<notin> set x \<Longrightarrow> str_search (36 # p) (x @ 36 # p @ y) = Some (length x)"
  by (induction x) auto

lemma replaceAll_once:
  assumes "36 \<notin> set x" and "str_search (36 # p) y = None" and "length (x @ v @ y) < 2 ^ 31"
  shows "replaceAll (x @ 36 # p @ y) (36 # p) v = Some (Inr (x @ v @ y))"
proof -
  have "split_ref (36 # p) (x @ 36 # p @ y) = [x, y]"
    using assms(1,2) by (simp add: split_ref_simps(2) [OF str_search_dollar] split_ref_simps(1))
  with replaceAll_reference [of "36 # p" "x @ 36 # p @ y" v] assms(3) show ?thesis by simp
qed

lemma digits_small: "digits 0 = [48]" "digits 1 = [49]" "digits 2 = [50]"
  by (subst digits.simps, simp add: digit_char_def)+

lemma str_search_no_dollar: "36 \<notin> set y \<Longrightarrow> str_search (36 # p) y = None"
  by (induction y) auto

lemma format_two:
  assumes "36 \<notin> set a" and "36 \<notin> set sep" and "length (a @ sep @ b) < 2 ^ 31 - 2"
  shows "StringUtil_formatv ([36, 48] @ sep @ [36, 49]) [a, b] = Some (Inr (a @ sep @ b))"
proof -
  have "str_search [36, 48] (sep @ [36, 49]) = None" using assms(2) by (induction sep) auto
  then have "replaceAll ([] @ 36 # [48] @ sep @ [36, 49]) (36 # [48]) a = Some (Inr ([] @ a @ sep @ [36, 49]))"
    using assms(3) by (intro replaceAll_once) simp_all
  moreover have "replaceAll ((a @ sep) @ 36 # [49] @ []) (36 # [49]) b = Some (Inr ((a @ sep) @ b @ []))"
    using assms by (intro replaceAll_once) simp_all
  ultimately show ?thesis by (simp add: StringUtil_formatv_def digits_small [unfolded One_nat_def])
qed

section \<open>Query strings are read back\<close>

lemma urlEncode_chars: "c \<in> set (urlEncode s) \<Longrightarrow> url_plain c \<or> c = 37"
proof (induction s)
  case (Cons d s)
  have h: "url_plain (hextbl n)" if "unat n < 16" for n
    using hextbl_props [OF that] by (auto simp: isHexString_def url_plain_def is_lower_def is_upper_def)
  have "unat (d AND 0xF) < 16" "unat (drop_bit 4 d AND 0xF) < 16"
    using unat_less_exp [of d] by (simp_all add: nibbles less_mult_imp_div_less)
  with Cons show ?case by (auto simp: urlEncode_def h split: if_splits)
qed (simp add: urlEncode_def)

lemma urlEncode_no: "c \<in> set (urlEncode s) \<Longrightarrow> c \<noteq> 36 \<and> c \<noteq> 61 \<and> c \<noteq> 38"
  by (drule urlEncode_chars) (auto simp: url_plain_def is_lower_def is_upper_def is_digit_def)

lemma urlEncode_empty [simp]: "urlEncode s = [] \<longleftrightarrow> s = []"
  by (cases s) (auto simp: urlEncode_def)

definition query_text :: "(bytes \<times> bytes) list \<Rightarrow> bytes" where
  "query_text params = StringUtil_join (map (\<lambda>(k, v). urlEncode k @ [61] @ urlEncode v) params) [38]"

lemma query_text_Nil [simp]: "query_text [] = []"
  by (simp add: query_text_def)

definition params_ok :: "(bytes \<times> bytes) list \<Rightarrow> bool" where
  "params_ok params \<longleftrightarrow> (\<forall>(k, v) \<in> set params. k \<noteq> [] \<and> length (urlEncode k) + length (urlEncode v) < 2 ^ 31 - 3)"

lemma query_pieces_text:
  "params_ok params \<Longrightarrow> query_pieces first params out =
     Some (Inr (out @ (if first \<or> params = [] then [] else [38]) @ query_text params))"
proof (induction first params out rule: query_pieces.induct)
  case (1 first out)
  then show ?case by (simp add: query_text_def)
next
  case (2 first k v params out)
  have f: "StringUtil_formatv (ascii ''$0=$1'') [urlEncode k, urlEncode v] = Some (Inr (urlEncode k @ [61] @ urlEncode v))"
    using format_two [of "urlEncode k" "[61]" "urlEncode v"] urlEncode_no [of 36 k] 2(2)
    by (auto simp: ascii_def params_ok_def)
  have q: "query_text ((k, v) # params) = urlEncode k @ [61] @ urlEncode v @ (if params = [] then [] else [38]) @ query_text params"
    by (cases params) (simp_all add: query_text_def split: prod.splits)
  from 2(1) [OF f refl] 2(2) show ?case by (simp add: f q params_ok_def)
qed

lemma parse_query_text: "(\<forall>(k, v) \<in> set params. k \<noteq> []) \<Longrightarrow> parseQueryString (query_text params) = Inr params"
proof (induction params)
  case Nil
  show ?case by (subst parseQueryString.simps) (simp add: query_text_def)
next
  case (Cons p params)
  obtain k v where p: "p = (k, v)" by (cases p)
  let ?t = "(if params = [] then [] else [38]) @ query_text params"
  have q: "query_text (p # params) = urlEncode k @ 61 # urlEncode v @ ?t"
    by (cases params) (simp_all add: query_text_def p split: prod.splits)
  have tk: "takeWhile (\<lambda>c. c \<noteq> 61 \<and> c \<noteq> 38) (urlEncode k @ 61 # urlEncode v @ ?t) = urlEncode k"
    by (rule takeWhile_stop) (use urlEncode_no in auto)
  have tv: "takeWhile (\<lambda>c. c \<noteq> 61 \<and> c \<noteq> 38) (urlEncode v @ ?t) = urlEncode v"
    by (rule takeWhile_stop) (use urlEncode_no in \<open>auto simp: query_text_def\<close>)
  have d: "drop (Suc (length (urlEncode v))) (urlEncode v @ ?t) = query_text params"
    by (cases "params = []") (simp_all add: query_text_def)
  have "parseQueryString (urlEncode k @ 61 # urlEncode v @ ?t) =
      res_bind (parseQueryString (query_text params)) (\<lambda>ps. Inr ((k, v) # ps))"
    using Cons.prems by (subst parseQueryString.simps) (simp only: tk tv d Let_def, simp add: p tv d urlDecode_urlEncode)
  then show ?case using Cons by (simp only: q) (simp add: p)
qed

lemma query_roundtrip:
  assumes "params_ok params"
  shows "buildQueryString params = Some (Inr (query_text params)) \<and> parseQueryString (query_text params) = Inr params"
  using query_pieces_text [OF assms, of True "[]"] parse_query_text [of params] assms
  by (auto simp: buildQueryString_def params_ok_def)

end
