(* ===== verification/CS_Http.thy ===== *)
theory CS_Http
  imports CS_Uri CS_Csv
begin

text \<open>
  HTTP messages (\<open>stx/http\<close>): the incremental \<open>HTTPParser\<close>, the messages themselves, and their
  generator. The callbacks a client sets are the list of events a call returns; an event that
  no callback is set for has no effect, but for \<open>on_method_cb_\<close>, whose presence the parser tests
  for more than the call.
\<close>

section \<open>The parser\<close>

datatype parser_mode = PARSE_HTTP_REQUEST | PARSE_HTTP_RESPONSE

datatype parser_state =
    S_REQ_METHOD
  | S_REQ_URI
  | S_REQ_VERSION
  | S_RES_VERSION
  | S_RES_STATUS_CODE
  | S_RES_STATUS_NAME
  | S_HEADER
  | S_BODY
  | S_DONE

datatype http_method = M_CONNECT | M_DELETE | M_GET | M_HEAD | M_OPTIONS | M_POST | M_PUT | M_TRACE

datatype http_event =
    OnMethod http_method
  | OnURI bytes
  | OnVersion bytes
  | OnStatusCode int
  | OnStatusName bytes
  | OnHeader bytes bytes
  | OnHeadersComplete
  | OnBodyChunk bytes

record http_parser =
  hp_mode :: parser_mode
  hp_state :: parser_state
  hp_buf :: bytes
  hp_body_bytes_read :: u64
  hp_body_bytes_expected :: u64
  hp_expect_body :: bool
  hp_on_method :: bool

definition initial_state :: "parser_mode \<Rightarrow> parser_state" where
  "initial_state mode = (case mode of PARSE_HTTP_REQUEST \<Rightarrow> S_REQ_METHOD | PARSE_HTTP_RESPONSE \<Rightarrow> S_RES_VERSION)"

definition HTTPParser :: "parser_mode \<Rightarrow> bool \<Rightarrow> http_parser" where
  "HTTPParser mode on_method =
     \<lparr>hp_mode = mode, hp_state = initial_state mode, hp_buf = [], hp_body_bytes_read = 0,
      hp_body_bytes_expected = 0, hp_expect_body = True, hp_on_method = on_method\<rparr>"

definition kMaxMethodSize :: nat where "kMaxMethodSize = 16"
definition kMaxURISize :: nat where "kMaxURISize = 8192"
definition kMaxVersionSize :: nat where "kMaxVersionSize = 16"
definition kMaxHeaderSize :: nat where "kMaxHeaderSize = 65535"

text \<open>
  A step takes the bytes from \<open>begin\<close> to \<open>end\<close> and gives those it leaves, the parser, and the
  callbacks it made.
\<close>

type_synonym http_step = "bytes \<Rightarrow> http_parser \<Rightarrow> (bytes \<times> http_parser \<times> http_event list) res"

definition readUntil :: "byte \<Rightarrow> bytes \<Rightarrow> http_parser \<Rightarrow> bool \<times> bytes \<times> http_parser" where
  "readUntil search s p =
     (let pre = takeWhile (\<lambda>c. c \<noteq> search) s; rest = drop (length pre) s
      in (rest \<noteq> [], rest, p\<lparr>hp_buf := hp_buf p @ pre\<rparr>))"

definition stripTrailingBytes :: "byte \<Rightarrow> bytes \<Rightarrow> bytes" where
  "stripTrailingBytes b buf = rev (dropWhile (\<lambda>c. c = b) (rev buf))"

text \<open>\<open>strncasecmp(a, b, n) == 0\<close> for a text \<open>a\<close> of \<open>n\<close> characters and a literal \<open>b\<close>.\<close>

fun strncaseeq :: "bytes \<Rightarrow> bytes \<Rightarrow> bool" where
  "strncaseeq [] b \<longleftrightarrow> True"
| "strncaseeq (x # a) [] \<longleftrightarrow> x = 0"
| "strncaseeq (x # a) (y # b) \<longleftrightarrow> tolower x = tolower y \<and> strncaseeq a b"

definition method_of :: "bytes \<Rightarrow> http_method option" where
  "method_of buf =
     (if buf = ascii ''CONNECT'' then Some M_CONNECT
      else if buf = ascii ''DELETE'' then Some M_DELETE
      else if buf = ascii ''GET'' then Some M_GET
      else if buf = ascii ''HEAD'' then Some M_HEAD
      else if buf = ascii ''OPTIONS'' then Some M_OPTIONS
      else if buf = ascii ''POST'' then Some M_POST
      else if buf = ascii ''PUT'' then Some M_PUT
      else if buf = ascii ''TRACE'' then Some M_TRACE
      else None)"

definition check_size :: "nat \<Rightarrow> http_step" where
  "check_size limit s p = (if length (hp_buf p) > limit then Inl ParseError else Inr (s, p, []))"

definition parseMethod :: http_step where
  "parseMethod s p =
     (let (found, s, p) = readUntil 32 s p
      in if found then
           (let p = p\<lparr>hp_state := S_REQ_URI\<rparr>; s = tl s
            in if hp_on_method p then
                 (case method_of (hp_buf p) of
                    Some m \<Rightarrow> Inr (s, p\<lparr>hp_buf := []\<rparr>, [OnMethod m])
                  | None \<Rightarrow> Inl ParseError)
               else check_size kMaxMethodSize s p)
         else check_size kMaxMethodSize s p)"

definition parseURI :: http_step where
  "parseURI s p =
     (let (found, s, p) = readUntil 32 s p
      in if found then Inr (tl s, p\<lparr>hp_buf := [], hp_state := S_REQ_VERSION\<rparr>, [OnURI (hp_buf p)])
         else check_size kMaxURISize s p)"

definition parseRequestVersion :: http_step where
  "parseRequestVersion s p =
     (let (found, s, p) = readUntil 10 s p
      in if found then
           Inr (tl s, p\<lparr>hp_buf := [], hp_state := S_HEADER\<rparr>, [OnVersion (stripTrailingBytes 13 (hp_buf p))])
         else check_size kMaxVersionSize s p)"

definition parseResponseVersion :: http_step where
  "parseResponseVersion s p =
     (let (found, s, p) = readUntil 32 s p
      in if found then
           (let p' = (if strncaseeq (hp_buf p) (ascii ''HTTP/1.0'') then p\<lparr>hp_body_bytes_expected := - 1\<rparr> else p)
            in Inr (tl s, p'\<lparr>hp_buf := [], hp_state := S_RES_STATUS_CODE\<rparr>, [OnVersion (hp_buf p)]))
         else check_size kMaxVersionSize s p)"

definition parseResponseStatusCode :: http_step where
  "parseResponseStatusCode s p =
     (let (found, s, p) = readUntil 32 s p
      in if found then
           (case stoi (hp_buf p) of
              Inl e \<Rightarrow> Inl ParseError
            | Inr status_code \<Rightarrow>
                Inr (tl s, p\<lparr>hp_buf := [], hp_state := S_RES_STATUS_NAME\<rparr>, [OnStatusCode status_code]))
         else check_size kMaxURISize s p)"

definition parseResponseStatusName :: http_step where
  "parseResponseStatusName s p =
     (let (found, s, p) = readUntil 10 s p
      in if found then
           Inr (tl s, p\<lparr>hp_buf := [], hp_state := S_HEADER\<rparr>, [OnStatusName (stripTrailingBytes 13 (hp_buf p))])
         else check_size kMaxVersionSize s p)"

definition processHeader :: "bytes \<Rightarrow> bytes \<Rightarrow> http_parser \<Rightarrow> (http_parser \<times> http_event list) res" where
  "processHeader key val p =
     res_bind
       (if hp_expect_body p \<and> length key = length ''Content-Length'' \<and> strncaseeq key (ascii ''Content-Length'') then
          (case stoull val of Inl e \<Rightarrow> Inl ParseError | Inr n \<Rightarrow> Inr (p\<lparr>hp_body_bytes_expected := n\<rparr>))
        else Inr p) (\<lambda>p.
       let p = (if hp_mode p = PARSE_HTTP_RESPONSE \<and> hp_expect_body p \<and>
                   length key = length ''Connection'' \<and> strncaseeq key (ascii ''Connection'') \<and>
                   length val = length ''Close'' \<and> strncaseeq val (ascii ''Close'')
                then p\<lparr>hp_body_bytes_expected := - 1\<rparr> else p)
       in Inr (p, [OnHeader key val]))"

definition parseHeader :: http_step where
  "parseHeader s p =
     (let (found, s, p) = readUntil 10 s p
      in if found then
           (let buf = stripTrailingBytes 13 (hp_buf p)
            in if length buf > 0 then
                 (let key = takeWhile (\<lambda>c. c \<noteq> 58) buf
                  in if length key = length buf then Inl ParseError
                     else (let val = dropWhile (\<lambda>c. c = 32) (drop (length key + 1) buf)
                           in res_bind (processHeader key val p) (\<lambda>(p, evs).
                                Inr (tl s, p\<lparr>hp_buf := [], hp_state := S_HEADER\<rparr>, evs))))
               else Inr (tl s,
                      p\<lparr>hp_buf := buf, hp_state := if hp_body_bytes_expected p = 0 then S_DONE else S_BODY\<rparr>,
                      [OnHeadersComplete]))
         else check_size kMaxHeaderSize s p)"

definition readBody :: http_step where
  "readBody s p =
     (let n = hp_body_bytes_read p + word_of_nat (length s)
      in Inr ([], p\<lparr>hp_body_bytes_read := n, hp_state := if n = hp_body_bytes_expected p then S_DONE else hp_state p\<rparr>,
              [OnBodyChunk s]))"

definition parse_step :: http_step where
  "parse_step s p =
     (case hp_state p of
        S_REQ_METHOD \<Rightarrow> parseMethod s p
      | S_REQ_URI \<Rightarrow> parseURI s p
      | S_REQ_VERSION \<Rightarrow> parseRequestVersion s p
      | S_RES_VERSION \<Rightarrow> parseResponseVersion s p
      | S_RES_STATUS_CODE \<Rightarrow> parseResponseStatusCode s p
      | S_RES_STATUS_NAME \<Rightarrow> parseResponseStatusName s p
      | S_HEADER \<Rightarrow> parseHeader s p
      | S_DONE \<Rightarrow> if hp_mode p = PARSE_HTTP_REQUEST then Inl ParseError else readBody s p
      | S_BODY \<Rightarrow> readBody s p)"

text \<open>Every step takes at least one byte.\<close>

lemma readUntil_rest:
  "readUntil b s p = (found, r, p') \<Longrightarrow> length r \<le> length s \<and> (found \<longleftrightarrow> r \<noteq> [])"
  by (auto simp: readUntil_def Let_def)

lemma parse_step_shorter:
  assumes "parse_step s p = Inr (r, p', evs)" and "s \<noteq> []"
  shows "length r < length s"
proof -
  have t: "length (tl x) < length s" if "readUntil b s p = (found, x, q)" "found" for b found x q
    using readUntil_rest [OF that(1)] that(2) by (cases x) auto
  have f: "length x < length s" if "readUntil b s p = (False, x, q)" for b x q
    using readUntil_rest [OF that] assms(2) by auto
  show ?thesis using assms
    by (auto simp: parse_step_def parseMethod_def parseURI_def parseRequestVersion_def parseResponseVersion_def
        parseResponseStatusCode_def parseResponseStatusName_def parseHeader_def readBody_def check_size_def Let_def
        res_bind_Inr split: parser_state.splits if_splits prod.splits option.splits sum.splits
        dest: t [OF _ TrueI] f)
qed

function HTTPParser_parse :: "bytes \<Rightarrow> http_parser \<Rightarrow> (http_parser \<times> http_event list) res" where
  "HTTPParser_parse s p =
     (if s = [] then Inr (p, [])
      else case parse_step s p of
             Inl e \<Rightarrow> Inl e
           | Inr (s, p, evs) \<Rightarrow> res_bind (HTTPParser_parse s p) (\<lambda>(p, evs'). Inr (p, evs @ evs')))"
  by pat_completeness auto

termination
  by (relation "measure (length \<circ> fst)") (auto intro: parse_step_shorter)

declare HTTPParser_parse.simps [simp del]

definition HTTPParser_eof :: "http_parser \<Rightarrow> http_parser res" where
  "HTTPParser_eof p =
     (if hp_state p = S_DONE then Inr p
      else if hp_body_bytes_expected p \<noteq> - 1 \<and> hp_body_bytes_read p < hp_body_bytes_expected p then Inl ParseError
      else Inr (p\<lparr>hp_state := S_DONE\<rparr>))"

definition HTTPParser_reset :: "http_parser \<Rightarrow> http_parser" where
  "HTTPParser_reset p =
     p\<lparr>hp_state := initial_state (hp_mode p), hp_buf := [], hp_body_bytes_read := 0, hp_body_bytes_expected := 0,
       hp_expect_body := True\<rparr>"

definition HTTPParser_ignoreBody :: "http_parser \<Rightarrow> http_parser" where
  "HTTPParser_ignoreBody p = p\<lparr>hp_expect_body := False\<rparr>"

section \<open>Messages\<close>

record http_message =
  hm_version :: bytes
  hm_headers :: "(bytes \<times> bytes) list"
  hm_body :: bytes

record http_request = http_message +
  hreq_method :: http_method
  hreq_uri :: bytes

record http_response = http_message +
  hres_status_code :: int
  hres_status_name :: bytes

definition getHeader :: "bytes \<Rightarrow> 'a http_message_scheme \<Rightarrow> bytes" where
  "getHeader key m = (case map_of (hm_headers m) (toLower key) of None \<Rightarrow> [] | Some v \<Rightarrow> v)"

definition hasHeader :: "bytes \<Rightarrow> 'a http_message_scheme \<Rightarrow> bool" where
  "hasHeader key m \<longleftrightarrow> toLower key \<in> fst ` set (hm_headers m)"

definition addHeader :: "bytes \<Rightarrow> bytes \<Rightarrow> 'a http_message_scheme \<Rightarrow> 'a http_message_scheme" where
  "addHeader key val m = m\<lparr>hm_headers := hm_headers m @ [(toLower key, val)]\<rparr>"

fun set_header :: "bytes \<Rightarrow> bytes \<Rightarrow> (bytes \<times> bytes) list \<Rightarrow> (bytes \<times> bytes) list" where
  "set_header key val [] = [(key, val)]"
| "set_header key val ((k, v) # hs) = (if k = key then (k, val) # hs else (k, v) # set_header key val hs)"

definition setHeader :: "bytes \<Rightarrow> bytes \<Rightarrow> 'a http_message_scheme \<Rightarrow> 'a http_message_scheme" where
  "setHeader key val m = m\<lparr>hm_headers := set_header (toLower key) val (hm_headers m)\<rparr>"

definition appendBody :: "bytes \<Rightarrow> 'a http_message_scheme \<Rightarrow> 'a http_message_scheme" where
  "appendBody data m = m\<lparr>hm_body := hm_body m @ data\<rparr>"

definition HTTPRequest_null :: http_request where
  "HTTPRequest_null = \<lparr>hm_version = [], hm_headers = [], hm_body = [], hreq_method = M_GET, hreq_uri = []\<rparr>"

definition HTTPRequest :: "http_method \<Rightarrow> bytes \<Rightarrow> http_request" where
  "HTTPRequest meth uri =
     \<lparr>hm_version = ascii ''HTTP/1.1'', hm_headers = [], hm_body = [], hreq_method = meth, hreq_uri = uri\<rparr>"

text \<open>The callbacks of \<open>HTTPRequest::parse\<close> and \<open>HTTPResponse::parse\<close>.\<close>

fun request_event :: "http_event \<Rightarrow> http_request \<Rightarrow> http_request" where
  "request_event (OnMethod m) r = r\<lparr>hreq_method := m\<rparr>"
| "request_event (OnURI u) r = r\<lparr>hreq_uri := u\<rparr>"
| "request_event (OnVersion v) r = r\<lparr>hm_version := v\<rparr>"
| "request_event (OnHeader k v) r = addHeader k v r"
| "request_event (OnBodyChunk d) r = appendBody d r"
| "request_event _ r = r"

definition HTTPRequest_parse :: "bytes \<Rightarrow> http_request res" where
  "HTTPRequest_parse str =
     res_bind (HTTPParser_parse str (HTTPParser PARSE_HTTP_REQUEST True)) (\<lambda>(p, evs).
     res_bind (HTTPParser_eof p) (\<lambda>p.
       if hp_state p \<noteq> S_DONE then Inl RuntimeError else Inr (fold request_event evs HTTPRequest_null)))"

definition HTTPRequest_keepalive :: "http_request \<Rightarrow> bool" where
  "HTTPRequest_keepalive r =
     (if getHeader (ascii ''Connection'') r = ascii ''keep-alive'' then True
      else if getHeader (ascii ''Connection'') r = ascii ''close'' then False
      else hm_version r = ascii ''HTTP/1.1'')"

definition HTTPResponse_null :: http_response where
  "HTTPResponse_null =
     \<lparr>hm_version = [], hm_headers = [], hm_body = [], hres_status_code = 404, hres_status_name = ascii ''Not found''\<rparr>"

fun response_event :: "http_event \<Rightarrow> http_response \<Rightarrow> http_response" where
  "response_event (OnVersion v) r = r\<lparr>hm_version := v\<rparr>"
| "response_event (OnStatusName s) r = r\<lparr>hres_status_name := s\<rparr>"
| "response_event (OnStatusCode c) r = r\<lparr>hres_status_code := c\<rparr>"
| "response_event (OnHeader k v) r = addHeader k v r"
| "response_event (OnBodyChunk d) r = appendBody d r"
| "response_event _ r = r"

definition HTTPResponse_parse :: "bytes \<Rightarrow> http_response res" where
  "HTTPResponse_parse str =
     res_bind (HTTPParser_parse str (HTTPParser PARSE_HTTP_RESPONSE False)) (\<lambda>(p, evs).
     res_bind (HTTPParser_eof p) (\<lambda>p.
       if hp_state p \<noteq> S_DONE then Inl RuntimeError else Inr (fold response_event evs HTTPResponse_null)))"

definition populateFromRequest :: "http_request \<Rightarrow> http_response \<Rightarrow> http_response" where
  "populateFromRequest request r =
     (let r = r\<lparr>hm_version := hm_version request\<rparr>
      in if hm_version request = ascii ''HTTP/1.0'' then
           addHeader (ascii ''Connection'')
             (if HTTPRequest_keepalive request then ascii ''keep-alive'' else ascii ''close'') r
         else r)"

section \<open>Writing messages\<close>

fun method_name :: "http_method \<Rightarrow> bytes" where
  "method_name M_CONNECT = ascii ''CONNECT''"
| "method_name M_DELETE = ascii ''DELETE''"
| "method_name M_GET = ascii ''GET''"
| "method_name M_HEAD = ascii ''HEAD''"
| "method_name M_OPTIONS = ascii ''OPTIONS''"
| "method_name M_POST = ascii ''POST''"
| "method_name M_PUT = ascii ''PUT''"
| "method_name M_TRACE = ascii ''TRACE''"

text \<open>Writing a formatted line; \<open>None\<close> is a call that does not return.\<close>

definition crlf :: bytes where "crlf = [13, 10]"

definition write_format :: "bytes \<Rightarrow> bytes list \<Rightarrow> bytes \<Rightarrow> bytes res option" where
  "write_format fmt values out =
     map_option (map_sum id (\<lambda>line. os_write line out)) (StringUtil_formatv fmt values)"

fun write_headers :: "(bytes \<times> bytes) list \<Rightarrow> bytes \<Rightarrow> bytes res option" where
  "write_headers [] out = Some (Inr out)"
| "write_headers ((k, v) # hs) out =
     (case write_format (ascii ''$0: $1'' @ crlf) [k, v] out of
        Some (Inr out) \<Rightarrow> write_headers hs out
      | r \<Rightarrow> r)"

definition toString_int :: "int \<Rightarrow> bytes" where
  "toString_int i = (if i < 0 then 45 # digits (nat (- i)) else digits (nat i))"

definition HTTPGenerator_request :: "http_request \<Rightarrow> bytes \<Rightarrow> bytes res option" where
  "HTTPGenerator_request req out =
     (case write_format (ascii ''$0 $1 $2'' @ crlf) [method_name (hreq_method req), hreq_uri req, hm_version req] out of
        Some (Inr out) \<Rightarrow>
          (case write_headers (hm_headers req) out of
             Some (Inr out) \<Rightarrow>
               (case (if length (hm_body req) > 0 \<and> \<not> hasHeader (ascii ''Content-Length'') req
                      then write_format (ascii ''Content-Length: $0'' @ crlf) [digits (length (hm_body req))] out
                      else Some (Inr out)) of
                  Some (Inr out) \<Rightarrow> Some (Inr (os_write (hm_body req) (os_write crlf out)))
                | r \<Rightarrow> r)
           | r \<Rightarrow> r)
      | r \<Rightarrow> r)"

definition HTTPGenerator_response :: "http_response \<Rightarrow> bytes \<Rightarrow> bytes res option" where
  "HTTPGenerator_response res out =
     (if length (hm_version res) < 4 then Some (Inl RuntimeError)
      else case write_format (ascii ''$0 $1 $2'' @ crlf)
             [hm_version res, toString_int (hres_status_code res), hres_status_name res] out of
             Some (Inr out) \<Rightarrow>
               (case write_headers (hm_headers res) out of
                  Some (Inr out) \<Rightarrow> Some (Inr (os_write (hm_body res) (os_write crlf out)))
                | r \<Rightarrow> r)
           | r \<Rightarrow> r)"

end
