(* ===== verification/CS_HttpText.thy ===== *)
theory CS_HttpText
  imports CS_HttpFacts
begin

text \<open>
  HTTP messages that were generated are parsed again: requests and responses.
\<close>

section \<open>The generator writes plain lines\<close>

lemma format_one:
  assumes "36 \<notin> set s" and "36 \<notin> set t" and "length s + length a + length t < 2 ^ 31"
  shows "StringUtil_formatv (s @ [36, 48] @ t) [a] = Some (Inr (s @ a @ t))"
proof -
  have "replaceAll (s @ 36 # [48] @ t) (36 # [48]) a = Some (Inr (s @ a @ t))"
    using assms by (intro replaceAll_once str_search_no_dollar) simp_all
  then show ?thesis by (simp add: StringUtil_formatv_def digits_small)
qed

lemma search_other:
  assumes "36 \<notin> set s" and "x \<noteq> y" and "x \<noteq> 36" and "y \<noteq> 36" and "str_search [36, x] t = None"
  shows "str_search [36, x] (s @ 36 # y # t) = None"
  using assms by (induction s) auto

text \<open>
  \<open>format\<close> replaces one placeholder after the other in the whole text, so a value that was put in for an
  earlier one is damaged exactly where it holds a later one.
\<close>

fun has_placeholder :: "byte \<Rightarrow> bytes \<Rightarrow> bool" where
  "has_placeholder d (a # b # s) \<longleftrightarrow> a = 36 \<and> b = d \<or> has_placeholder d (b # s)"
| "has_placeholder d s \<longleftrightarrow> False"

lemma search_placeholder: "str_search [36, d] s = None \<longleftrightarrow> \<not> has_placeholder d s"
  by (induction d s rule: has_placeholder.induct) (auto split: option.splits if_splits)

lemma no_placeholder: "36 \<notin> set s \<Longrightarrow> \<not> has_placeholder d s"
  by (induction d s rule: has_placeholder.induct) auto

lemma has_placeholder_append:
  assumes "36 \<notin> set s" and "s \<noteq> []" and "hd s \<noteq> d"
  shows "has_placeholder d (a @ s @ b) \<longleftrightarrow> has_placeholder d a \<or> has_placeholder d b"
proof -
  have tail: "has_placeholder d (s @ b) \<longleftrightarrow> has_placeholder d b"
    if "36 \<notin> set s" for s
    using that
  proof (induction s)
    case (Cons c s)
    then show ?case by (cases "s @ b") (auto simp: Cons_eq_append_conv)
  qed simp
  obtain x s' where x: "s = x # s'" "x \<noteq> d" using assms(2,3) by (cases s) auto
  have "has_placeholder d (a @ x # r) \<longleftrightarrow> has_placeholder d a \<or> has_placeholder d (x # r)" for r
  proof (induction a)
    case (Cons c a)
    then show ?case using x(2) by (cases a) auto
  qed simp
  then show ?thesis using tail [OF assms(1)] by (simp add: x(1))
qed

lemma search_first:
  assumes "d \<noteq> 36" and "\<not> has_placeholder d x"
  shows "str_search [36, d] (x @ 36 # d # y) = Some (length x)"
  using assms by (induction d x rule: has_placeholder.induct) auto

lemma split_placeholder:
  assumes "d \<noteq> 36" and "\<not> has_placeholder d x"
  shows "split_ref [36, d] (x @ 36 # d # y) = x # split_ref [36, d] y"
  using split_ref_simps(2) [OF search_first [OF assms, of y]] by simp

lemma replaceAll_placeholder:
  assumes "d \<noteq> 36" and "\<not> has_placeholder d x" and "\<not> has_placeholder d y" and "length (x @ v @ y) < 2 ^ 31"
  shows "replaceAll (x @ [36, d] @ y) [36, d] v = Some (Inr (x @ v @ y))"
proof -
  have "split_ref [36, d] (x @ 36 # d # y) = [x, y]"
    using assms(3) by (simp add: split_placeholder [OF assms(1,2)] split_ref_simps(1) search_placeholder)
  with replaceAll_reference [of "[36, d]" "x @ [36, d] @ y" v] assms(4) show ?thesis by simp
qed

lemma format_two_more:
  assumes "\<not> has_placeholder 49 a" and "36 \<notin> set s" and "s \<noteq> []" and "hd s \<noteq> 49" and "36 \<notin> set t"
    and "length a + length b + length s + length t < 2 ^ 31 - 4"
  shows "StringUtil_formatv ([36, 48] @ s @ [36, 49] @ t) [a, b] = Some (Inr (a @ s @ b @ t))"
proof -
  have "str_search [36, 48] (s @ 36 # 49 # t) = None"
    using assms(2,5) by (simp add: search_other str_search_no_dollar)
  then have "replaceAll ([] @ 36 # [48] @ s @ [36, 49] @ t) (36 # [48]) a = Some (Inr ([] @ a @ s @ [36, 49] @ t))"
    using assms(6) by (intro replaceAll_once) simp_all
  moreover have "replaceAll ((a @ s) @ [36, 49] @ t) [36, 49] b = Some (Inr ((a @ s) @ b @ t))"
    using assms has_placeholder_append [OF assms(2-4), of a "[]"]
    by (intro replaceAll_placeholder) (simp_all add: search_placeholder [symmetric] str_search_no_dollar)
  ultimately show ?thesis by (simp add: StringUtil_formatv_def digits_small [unfolded One_nat_def])
qed

lemma format_three:
  assumes "\<not> has_placeholder 49 a" and "\<not> has_placeholder 50 a" and "\<not> has_placeholder 50 b"
    and "36 \<notin> set s" and "s \<noteq> []" and "hd s \<notin> {49, 50}" and "36 \<notin> set t" and "t \<noteq> []" and "hd t \<noteq> 50" and "36 \<notin> set u"
    and "length a + length b + length c + length s + length t + length u < 2 ^ 31 - 8"
  shows "StringUtil_formatv ([36, 48] @ s @ [36, 49] @ t @ [36, 50] @ u) [a, b, c] = Some (Inr (a @ s @ b @ t @ c @ u))"
proof -
  have hd: "hd s \<noteq> 49" "hd s \<noteq> 50" using assms(6) by simp_all
  have "str_search [36, 48] (s @ 36 # 49 # t @ 36 # 50 # u) = None"
    using assms(4,7,10) by (simp add: search_other str_search_no_dollar)
  then have "replaceAll ([] @ 36 # [48] @ s @ [36, 49] @ t @ [36, 50] @ u) (36 # [48]) a =
      Some (Inr ([] @ a @ s @ [36, 49] @ t @ [36, 50] @ u))"
    using assms(11) by (intro replaceAll_once) simp_all
  moreover have "str_search [36, 49] (t @ 36 # 50 # u) = None"
    using assms(7,10) by (simp add: search_other str_search_no_dollar)
  then have "replaceAll ((a @ s) @ [36, 49] @ t @ [36, 50] @ u) [36, 49] b =
      Some (Inr ((a @ s) @ b @ t @ [36, 50] @ u))"
    using assms has_placeholder_append [OF assms(4,5) hd(1), of a "[]"]
    by (intro replaceAll_placeholder) (simp_all add: search_placeholder [symmetric])
  moreover have "replaceAll ((a @ s @ b @ t) @ [36, 50] @ u) [36, 50] c = Some (Inr ((a @ s @ b @ t) @ c @ u))"
    using assms has_placeholder_append [OF assms(4,5) hd(2), of a "b @ t @ []"]
      has_placeholder_append [OF assms(7-9), of b "[]"]
    by (intro replaceAll_placeholder) (simp_all add: search_placeholder [symmetric] str_search_no_dollar)
  moreover have "digits (Suc (Suc 0)) = [50]" using digits_small(3) by (simp add: numeral_2_eq_2)
  ultimately show ?thesis by (simp add: StringUtil_formatv_def digits_small [unfolded One_nat_def])
qed

text \<open>A second placeholder in the URI takes the version too: the line that is written is another one.\<close>

lemma request_line_damaged:
  assumes "36 \<notin> set m" and "\<not> has_placeholder 50 u" and "\<not> has_placeholder 50 t" and "36 \<notin> set e"
    and "length m + length u + length t + 2 * length ver + length e < 2 ^ 31 - 16"
  shows "StringUtil_formatv ([36, 48] @ [32] @ [36, 49] @ [32] @ [36, 50] @ e) [m, u @ [36, 50] @ t, ver] =
    Some (Inr (m @ [32] @ u @ ver @ t @ [32] @ ver @ e))"
proof -
  have "str_search [36, 48] ([32] @ 36 # 49 # [32] @ 36 # 50 # e) = None"
    using assms(4) by (simp add: search_other str_search_no_dollar)
  then have "replaceAll ([] @ 36 # [48] @ [32] @ [36, 49] @ [32] @ [36, 50] @ e) (36 # [48]) m =
      Some (Inr ([] @ m @ [32] @ [36, 49] @ [32] @ [36, 50] @ e))"
    using assms(5) by (intro replaceAll_once) simp_all
  moreover have "replaceAll ((m @ [32]) @ [36, 49] @ [32] @ [36, 50] @ e) [36, 49] (u @ [36, 50] @ t) =
      Some (Inr ((m @ [32]) @ (u @ [36, 50] @ t) @ [32] @ [36, 50] @ e))"
  proof (rule replaceAll_placeholder)
    show "\<not> has_placeholder 49 (m @ [32])" by (rule no_placeholder) (use assms(1) in simp)
    show "\<not> has_placeholder 49 ([32] @ [36, 50] @ e)" using assms(4) by (cases e) (auto simp: no_placeholder)
  qed (use assms(5) in simp_all)
  moreover have "replaceAll ((m @ [32] @ u) @ [36, 50] @ (t @ [32]) @ [36, 50] @ e) [36, 50] ver =
      Some (Inr ((m @ [32] @ u) @ ver @ (t @ [32]) @ ver @ e))"
  proof -
    have a: "\<not> has_placeholder 50 (m @ [32] @ u)" "\<not> has_placeholder 50 (t @ [32])"
      using has_placeholder_append [of "[32]" 50 m u] has_placeholder_append [of "[32]" 50 t "[]"] assms(1-3)
      by (simp_all add: no_placeholder)
    have "split_ref [36, 50] ((m @ [32] @ u) @ 36 # 50 # (t @ [32]) @ 36 # 50 # e) = [m @ [32] @ u, t @ [32], e]"
      using split_placeholder [OF _ a(1), of "(t @ [32]) @ 36 # 50 # e"] split_placeholder [OF _ a(2), of e]
        split_ref_simps(1) [OF str_search_no_dollar [OF assms(4)], of "[50]"] by simp
    with replaceAll_reference [of "[36, 50]" "(m @ [32] @ u) @ [36, 50] @ (t @ [32]) @ [36, 50] @ e" ver] assms(5)
    show ?thesis by simp
  qed
  moreover have "digits (Suc (Suc 0)) = [50]" using digits_small(3) by (simp add: numeral_2_eq_2)
  ultimately show ?thesis by (simp add: StringUtil_formatv_def digits_small [unfolded One_nat_def])
qed

definition header_text :: "(bytes \<times> bytes) list \<Rightarrow> bytes" where
  "header_text hs = concat (map (\<lambda>(k, v). k @ [58, 32] @ v @ crlf) hs)"

definition header_ok :: "bytes \<times> bytes \<Rightarrow> bool" where
  "header_ok h \<longleftrightarrow>
     (case h of (k, v) \<Rightarrow> 58 \<notin> set k \<and> 10 \<notin> set k \<and> \<not> has_placeholder 49 k \<and> 10 \<notin> set v \<and>
        (v = [] \<or> hd v \<noteq> 32 \<and> last v \<noteq> 13) \<and> length k + length v < 2 ^ 31 - 8)"

lemma write_headers_text:
  "\<forall>h \<in> set hs. header_ok h \<Longrightarrow> write_headers hs out = Some (Inr (out @ header_text hs))"
proof (induction hs arbitrary: out)
  case (Cons h hs)
  obtain k v where h: "h = (k, v)" by (cases h)
  have "StringUtil_formatv ([36, 48] @ [58, 32] @ [36, 49] @ [13, 10]) [k, v] = Some (Inr (k @ [58, 32] @ v @ [13, 10]))"
    using Cons.prems by (intro format_two_more) (simp_all add: h header_ok_def)
  then have "write_format (ascii ''$0: $1'' @ crlf) [k, v] out = Some (Inr (out @ k @ [58, 32] @ v @ crlf))"
    by (simp add: write_format_def ascii_def crlf_def os_write_def)
  with Cons show ?case by (simp add: h header_text_def)
qed (simp add: header_text_def)


section \<open>The parser reads them\<close>

lemma parse_line:
  assumes "line_state (hp_state p)" and "hp_buf p = []" and "line_end (hp_state p) \<notin> set l"
    and "line_done (p\<lparr>hp_buf := l\<rparr>) = Inr (q, evs)"
  shows "HTTPParser_parse (l @ line_end (hp_state p) # s) p =
    res_bind (HTTPParser_parse s q) (\<lambda>(q, evs'). Inr (q, evs @ evs'))"
proof -
  have tw: "takeWhile (\<lambda>c. c \<noteq> line_end (hp_state p)) (l @ line_end (hp_state p) # s) = l"
    using assms(3) by (intro takeWhile_stop) auto
  then have "readUntil (line_end (hp_state p)) (l @ line_end (hp_state p) # s) p =
      (True, line_end (hp_state p) # s, p\<lparr>hp_buf := l\<rparr>)"
    using assms(2) by (simp add: readUntil_def Let_def)
  then have "parse_step (l @ line_end (hp_state p) # s) p = Inr (s, q, evs)"
    using assms(1,4) by (simp add: parse_step_line line_step_def)
  then show ?thesis by (simp add: parse_unfold)
qed

lemma stripTrailing_snoc: "l = [] \<or> last l \<noteq> 13 \<Longrightarrow> stripTrailingBytes 13 (l @ [13]) = l"
  by (cases l rule: rev_cases) (auto simp: stripTrailingBytes_def)

lemma strncaseeq_lower: "length a = length b \<Longrightarrow> strncaseeq a b \<longleftrightarrow> toLower a = toLower b"
  by (induction a b rule: strncaseeq.induct) (auto simp: toLower_def)

text \<open>What the headers say of the body, as the parser follows them.\<close>

definition header_effect :: "bytes \<times> bytes \<Rightarrow> http_parser \<Rightarrow> http_parser" where
  "header_effect h p =
     (case h of (k, v) \<Rightarrow>
        (let p = (if hp_expect_body p \<and> toLower k = ascii ''content-length'' then
                    p\<lparr>hp_body_bytes_expected := (case stoull v of Inl _ \<Rightarrow> 0 | Inr n \<Rightarrow> n)\<rparr>
                  else p)
         in if hp_mode p = PARSE_HTTP_RESPONSE \<and> hp_expect_body p \<and> toLower k = ascii ''connection'' \<and>
               toLower v = ascii ''close''
            then p\<lparr>hp_body_bytes_expected := - 1\<rparr> else p))"

definition length_readable :: "bytes \<times> bytes \<Rightarrow> bool" where
  "length_readable h \<longleftrightarrow> (toLower (fst h) = ascii ''content-length'' \<longrightarrow> (\<exists>n. stoull (snd h) = Inr n))"

lemma literals:
  "toLower (ascii ''Content-Length'') = ascii ''content-length''" "toLower (ascii ''Connection'') = ascii ''connection''"
  "toLower (ascii ''Close'') = ascii ''close''"
  "length (ascii s) = length s"
  by (code_simp, code_simp, code_simp, simp add: ascii_def)

lemma same_literal:
  "length k = length s \<and> strncaseeq k (ascii s) \<longleftrightarrow> toLower k = toLower (ascii s)"
proof
  assume "toLower k = toLower (ascii s)"
  moreover from this have "length k = length s" by (metis length_map literals(4) toLower_def)
  ultimately show "length k = length s \<and> strncaseeq k (ascii s)" by (simp add: strncaseeq_lower literals(4))
next
  assume h: "length k = length s \<and> strncaseeq k (ascii s)"
  then have "length k = length (ascii s)" by (simp add: literals(4))
  from strncaseeq_lower [OF this] h show "toLower k = toLower (ascii s)" by simp
qed

lemma processHeader_effect:
  assumes "length_readable (k, v)"
  shows "processHeader k v p = Inr (header_effect (k, v) p, [OnHeader k v])"
  using assms same_literal [of k "''Content-Length''"] same_literal [of k "''Connection''"] same_literal [of v "''Close''"]
  by (auto simp: processHeader_def header_effect_def length_readable_def literals Let_def)

lemma header_effect_keeps:
  "hp_state (header_effect h p) = hp_state p" "hp_buf (header_effect h p) = hp_buf p"
  "hp_mode (header_effect h p) = hp_mode p" "hp_body_bytes_read (header_effect h p) = hp_body_bytes_read p"
  "hp_expect_body (header_effect h p) = hp_expect_body p"
  by (simp_all add: header_effect_def Let_def split: prod.splits)

lemma parse_header:
  assumes h: "header_ok (k, v)" "length_readable (k, v)" and p: "hp_state p = S_HEADER" "hp_buf p = []"
  shows "HTTPParser_parse (k @ [58, 32] @ v @ crlf @ s) p =
    res_bind (HTTPParser_parse s (header_effect (k, v) p)) (\<lambda>(q, evs). Inr (q, OnHeader k v # evs))"
proof -
  let ?l = "k @ [58, 32] @ v"
  have strip: "stripTrailingBytes 13 (?l @ [13]) = ?l"
    using h(1) by (intro stripTrailing_snoc) (auto simp: header_ok_def last_append)
  have key: "takeWhile (\<lambda>c. c \<noteq> 58) ?l = k" using h(1) by (intro takeWhile_stop) (auto simp: header_ok_def)
  have val: "dropWhile (\<lambda>c. c = 32) (drop (Suc (length k)) ?l) = v" using h(1) by (cases v) (auto simp: header_ok_def)
  have e: "header_effect (k, v) (p\<lparr>hp_buf := x\<rparr>)\<lparr>hp_buf := [], hp_state := S_HEADER\<rparr> = header_effect (k, v) p" for x
    using p by (cases p) (simp add: header_effect_def Let_def)
  have d: "line_done (p\<lparr>hp_buf := ?l @ [13]\<rparr>) = Inr (header_effect (k, v) p, [OnHeader k v])"
    using p(1) strip key val processHeader_effect [OF h(2)] e
    by (simp add: line_done_def Let_def)
  have n: "10 \<notin> set (?l @ [13])" using h(1) by (auto simp: header_ok_def)
  have "HTTPParser_parse ((?l @ [13]) @ line_end (hp_state p) # s) p =
      res_bind (HTTPParser_parse s (header_effect (k, v) p)) (\<lambda>(q, evs). Inr (q, [OnHeader k v] @ evs))"
    by (rule parse_line [OF _ p(2) _ d]) (use p(1) n in \<open>simp_all add: line_state_def line_end_def\<close>)
  then show ?thesis using p(1) by (simp add: line_end_def crlf_def)
qed

lemma parse_headers:
  "\<forall>h \<in> set hs. header_ok h \<and> length_readable h \<Longrightarrow> hp_state p = S_HEADER \<Longrightarrow> hp_buf p = [] \<Longrightarrow>
   HTTPParser_parse (header_text hs @ s) p =
     res_bind (HTTPParser_parse s (fold header_effect hs p)) (\<lambda>(q, evs). Inr (q, map (\<lambda>(k, v). OnHeader k v) hs @ evs))"
proof (induction hs arbitrary: p)
  case Nil
  then show ?case by (simp add: header_text_def res_bind_def split: sum.splits)
next
  case (Cons h hs)
  obtain k v where h: "h = (k, v)" by (cases h)
  have "HTTPParser_parse (header_text (h # hs) @ s) p =
      res_bind (HTTPParser_parse (header_text hs @ s) (header_effect h p)) (\<lambda>(q, evs). Inr (q, OnHeader k v # evs))"
    using parse_header [of k v p "header_text hs @ s"] Cons.prems by (simp add: h header_text_def)
  with Cons.IH [of "header_effect h p"] Cons.prems show ?case
    by (simp add: h header_effect_keeps res_bind_assoc res_bind_case_prod)
qed

section \<open>The body\<close>

lemma parse_body:
  assumes p: "hp_state p = S_HEADER" "hp_buf p = []" "hp_body_bytes_read p = 0" and len: "length body < 2 ^ 64"
    and e: "hp_body_bytes_expected p = word_of_nat (length body) \<or>
      hp_mode p = PARSE_HTTP_RESPONSE \<and> (hp_body_bytes_expected p = 0 \<or> hp_body_bytes_expected p = - 1)"
  shows "\<exists>q q'. HTTPParser_parse (crlf @ body) p =
      Inr (q, OnHeadersComplete # (if body = [] then [] else [OnBodyChunk body])) \<and>
    HTTPParser_eof q = Inr q' \<and> hp_state q' = S_DONE"
proof -
  let ?p = "p\<lparr>hp_buf := [], hp_state := if hp_body_bytes_expected p = 0 then S_DONE else S_BODY\<rparr>"
  have "stripTrailingBytes 13 [13] = []" by (simp add: stripTrailingBytes_def)
  then have "line_done (p\<lparr>hp_buf := [13]\<rparr>) = Inr (?p, [OnHeadersComplete])"
    using p(1) by (simp add: line_done_def)
  from parse_line [OF _ p(2) _ this, of body] p(1)
  have first: "HTTPParser_parse (crlf @ body) p =
      res_bind (HTTPParser_parse body ?p) (\<lambda>(q, evs). Inr (q, OnHeadersComplete # evs))"
    by (simp add: line_state_def line_end_def crlf_def)
  show ?thesis
  proof (cases "body = []")
    case True
    have r: "HTTPParser_parse (crlf @ body) p = Inr (?p, [OnHeadersComplete])" unfolding first using True by simp
    have "hp_body_bytes_expected p = 0 \<or> hp_body_bytes_expected p = - 1" using e True by auto
    then have "HTTPParser_eof ?p = Inr (?p\<lparr>hp_state := S_DONE\<rparr>)" by (auto simp: HTTPParser_eof_def)
    with r True show ?thesis by auto
  next
    case False
    have "unat (word_of_nat (length body) :: u64) = length body" using len by (simp add: unat_of_nat)
    with False have nz: "word_of_nat (length body) \<noteq> (0 :: u64)" by (metis length_0_conv unsigned_0)
    have b: "HTTPParser_parse body ?p =
        Inr (?p\<lparr>hp_body_bytes_read := word_of_nat (length body),
             hp_state := if word_of_nat (length body) = hp_body_bytes_expected p then S_DONE else hp_state ?p\<rparr>,
          [OnBodyChunk body])"
      using False e nz p(3) by (auto simp: parse_unfold parse_step_def readBody_def Let_def)
    let ?q = "?p\<lparr>hp_body_bytes_read := word_of_nat (length body),
             hp_state := if word_of_nat (length body) = hp_body_bytes_expected p then S_DONE else hp_state ?p\<rparr>"
    have r: "HTTPParser_parse (crlf @ body) p = Inr (?q, [OnHeadersComplete, OnBodyChunk body])" unfolding first b by simp
    have "HTTPParser_eof ?q = Inr (?q\<lparr>hp_state := S_DONE\<rparr>)"
      using e by (cases "word_of_nat (length body) = hp_body_bytes_expected p") (auto simp: HTTPParser_eof_def)
    with r False show ?thesis by auto
  qed
qed

lemma fold_header_keeps:
  "hp_state (fold header_effect hs p) = hp_state p" "hp_buf (fold header_effect hs p) = hp_buf p"
  "hp_mode (fold header_effect hs p) = hp_mode p"
  "hp_body_bytes_read (fold header_effect hs p) = hp_body_bytes_read p"
  by (induction hs arbitrary: p) (simp_all add: header_effect_keeps)

definition lengths_are :: "bytes \<Rightarrow> (bytes \<times> bytes) list \<Rightarrow> bool" where
  "lengths_are body hs \<longleftrightarrow> (\<forall>(k, v) \<in> set hs. toLower k = ascii ''content-length'' \<longrightarrow> v = digits (length body))"

lemma header_effect_expected:
  assumes "length body < 2 ^ 64" and "lengths_are body [h]" and "hp_expect_body p"
  shows "hp_body_bytes_expected (header_effect h p) \<in> {hp_body_bytes_expected p, word_of_nat (length body)} \<or>
      hp_mode p = PARSE_HTTP_RESPONSE \<and> hp_body_bytes_expected (header_effect h p) = - 1"
    and "hp_mode p = PARSE_HTTP_REQUEST \<Longrightarrow> toLower (fst h) = ascii ''content-length'' \<Longrightarrow>
      hp_body_bytes_expected (header_effect h p) = word_of_nat (length body)"
  using assms stoull_digits [OF assms(1)] by (auto simp: header_effect_def lengths_are_def Let_def split: prod.splits)

lemma header_effects_expected:
  assumes "length body < 2 ^ 64" and "lengths_are body hs" and "hp_expect_body p"
  shows "hp_body_bytes_expected (fold header_effect hs p) \<in> {hp_body_bytes_expected p, word_of_nat (length body)} \<or>
      hp_mode p = PARSE_HTTP_RESPONSE \<and> hp_body_bytes_expected (fold header_effect hs p) = - 1"
    and "hp_mode p = PARSE_HTTP_REQUEST \<Longrightarrow>
      (\<exists>h \<in> set hs. toLower (fst h) = ascii ''content-length'') \<or> hp_body_bytes_expected p = word_of_nat (length body) \<Longrightarrow>
      hp_body_bytes_expected (fold header_effect hs p) = word_of_nat (length body)"
proof -
  have "(hp_body_bytes_expected (fold header_effect hs p) \<in> {hp_body_bytes_expected p, word_of_nat (length body)} \<or>
      hp_mode p = PARSE_HTTP_RESPONSE \<and> hp_body_bytes_expected (fold header_effect hs p) = - 1) \<and>
    (hp_mode p = PARSE_HTTP_REQUEST \<longrightarrow>
      (\<exists>h \<in> set hs. toLower (fst h) = ascii ''content-length'') \<or> hp_body_bytes_expected p = word_of_nat (length body) \<longrightarrow>
      hp_body_bytes_expected (fold header_effect hs p) = word_of_nat (length body))"
    using assms(2,3)
  proof (induction hs arbitrary: p)
    case (Cons h hs)
    have h: "lengths_are body [h]" "lengths_are body hs" using Cons.prems(1) by (simp_all add: lengths_are_def)
    note e = header_effect_expected [OF assms(1) h(1) Cons.prems(2)]
    from Cons.IH [OF h(2), of "header_effect h p"] Cons.prems(2) e show ?case
      by (auto simp: header_effect_keeps)
  qed simp
  then show "hp_body_bytes_expected (fold header_effect hs p) \<in> {hp_body_bytes_expected p, word_of_nat (length body)} \<or>
      hp_mode p = PARSE_HTTP_RESPONSE \<and> hp_body_bytes_expected (fold header_effect hs p) = - 1"
    "hp_mode p = PARSE_HTTP_REQUEST \<Longrightarrow>
      (\<exists>h \<in> set hs. toLower (fst h) = ascii ''content-length'') \<or> hp_body_bytes_expected p = word_of_nat (length body) \<Longrightarrow>
      hp_body_bytes_expected (fold header_effect hs p) = word_of_nat (length body)" by blast+
qed

section \<open>Requests and responses\<close>

lemma method_of_name: "method_of (method_name m) = Some m" "32 \<notin> set (method_name m)" "36 \<notin> set (method_name m)"
  "length (method_name m) < 8"
  by (cases m; simp add: method_of_def ascii_def)+

lemma parse_request_line:
  assumes "32 \<notin> set uri" and "10 \<notin> set ver" and "ver = [] \<or> last ver \<noteq> 13"
    and p: "hp_state p = S_REQ_METHOD" "hp_buf p = []" "hp_on_method p"
  shows "HTTPParser_parse (method_name m @ [32] @ uri @ [32] @ ver @ crlf @ s) p =
    res_bind (HTTPParser_parse s (p\<lparr>hp_state := S_HEADER\<rparr>))
      (\<lambda>(q, evs). Inr (q, [OnMethod m, OnURI uri, OnVersion ver] @ evs))"
proof -
  let ?q = "\<lambda>st. p\<lparr>hp_state := st\<rparr>"
  have d1: "line_done (p\<lparr>hp_buf := method_name m\<rparr>) = Inr (?q S_REQ_URI, [OnMethod m])"
    using p by (cases p) (simp add: line_done_def method_of_name)
  have d2: "line_done ((?q S_REQ_URI)\<lparr>hp_buf := uri\<rparr>) = Inr (?q S_REQ_VERSION, [OnURI uri])"
    using p(2) by (cases p) (simp add: line_done_def)
  have d3: "line_done ((?q S_REQ_VERSION)\<lparr>hp_buf := ver @ [13]\<rparr>) = Inr (?q S_HEADER, [OnVersion ver])"
    using p(2) stripTrailing_snoc [OF assms(3)] by (cases p) (simp add: line_done_def)
  have l1: "HTTPParser_parse (method_name m @ 32 # t) p =
      res_bind (HTTPParser_parse t (?q S_REQ_URI)) (\<lambda>(q, evs). Inr (q, [OnMethod m] @ evs))" for t
    using parse_line [OF _ p(2) _ d1, of t] p(1) by (simp add: line_state_def line_end_def method_of_name)
  have l2: "HTTPParser_parse (uri @ 32 # t) (?q S_REQ_URI) =
      res_bind (HTTPParser_parse t (?q S_REQ_VERSION)) (\<lambda>(q, evs). Inr (q, [OnURI uri] @ evs))" for t
    using parse_line [OF _ _ _ d2, of t] p(2) assms(1) by (simp add: line_state_def line_end_def)
  have l3: "HTTPParser_parse (ver @ crlf @ t) (?q S_REQ_VERSION) =
      res_bind (HTTPParser_parse t (?q S_HEADER)) (\<lambda>(q, evs). Inr (q, [OnVersion ver] @ evs))" for t
    using parse_line [OF _ _ _ d3, of t] p(2) assms(2) by (simp add: line_state_def line_end_def crlf_def)
  show ?thesis by (simp add: l1 l2 l3 res_bind_assoc res_bind_case_prod)
qed

definition http_request_ok :: "http_request \<Rightarrow> bool" where
  "http_request_ok req \<longleftrightarrow>
     32 \<notin> set (hreq_uri req) \<and> \<not> has_placeholder 50 (hreq_uri req) \<and>
     10 \<notin> set (hm_version req) \<and> (hm_version req = [] \<or> last (hm_version req) \<noteq> 13) \<and>
     length (hreq_uri req) + length (hm_version req) < 2 ^ 31 - 64 \<and> length (hm_body req) < 2 ^ 64 \<and>
     (\<forall>h \<in> set (hm_headers req). header_ok h \<and> toLower (fst h) = fst h) \<and> lengths_are (hm_body req) (hm_headers req)"

definition added_length :: "http_request \<Rightarrow> (bytes \<times> bytes) list" where
  "added_length req =
     (if hm_body req \<noteq> [] \<and> \<not> hasHeader (ascii ''Content-Length'') req
      then [(ascii ''Content-Length'', digits (length (hm_body req)))] else [])"

definition request_text :: "http_request \<Rightarrow> bytes" where
  "request_text req =
     method_name (hreq_method req) @ [32] @ hreq_uri req @ [32] @ hm_version req @ crlf @
     header_text (hm_headers req @ added_length req) @ crlf @ hm_body req"

lemma length_digits_64: "n < 2 ^ 64 \<Longrightarrow> length (digits n) \<le> 20"
proof -
  have "length (digits n) \<le> Suc k" if "n < 10 ^ Suc k" for n k
    using that
  proof (induction k arbitrary: n)
    case (Suc k)
    then show ?case by (subst digits.simps) (auto simp: less_mult_imp_div_less)
  qed (subst digits.simps, simp)
  moreover assume "n < 2 ^ 64"
  then have "n < 10 ^ Suc 19" by simp
  ultimately show ?thesis by fastforce
qed

lemma generated_request:
  assumes "http_request_ok req"
  shows "HTTPGenerator_request req [] = Some (Inr (request_text req))"
proof -
  have "StringUtil_formatv ([36, 48] @ [32] @ [36, 49] @ [32] @ [36, 50] @ [13, 10])
      [method_name (hreq_method req), hreq_uri req, hm_version req] =
      Some (Inr (method_name (hreq_method req) @ [32] @ hreq_uri req @ [32] @ hm_version req @ [13, 10]))"
    using assms method_of_name(4) [of "hreq_method req"]
    by (intro format_three) (simp_all add: method_of_name(1-3) http_request_ok_def no_placeholder)
  then have f1: "write_format (ascii ''$0 $1 $2'' @ crlf) [method_name (hreq_method req), hreq_uri req, hm_version req] [] =
      Some (Inr (method_name (hreq_method req) @ [32] @ hreq_uri req @ [32] @ hm_version req @ crlf))"
    by (simp add: write_format_def ascii_def crlf_def os_write_def)
  have "length (digits (length (hm_body req))) \<le> 20"
    using assms by (intro length_digits_64) (simp add: http_request_ok_def)
  then have "StringUtil_formatv (ascii ''Content-Length: '' @ [36, 48] @ [13, 10]) [digits (length (hm_body req))] =
      Some (Inr (ascii ''Content-Length: '' @ digits (length (hm_body req)) @ [13, 10]))"
    by (intro format_one) (simp_all add: ascii_def)
  then have f2: "write_format (ascii ''Content-Length: $0'' @ crlf) [digits (length (hm_body req))] out =
      Some (Inr (out @ header_text [(ascii ''Content-Length'', digits (length (hm_body req)))]))" for out
    by (simp add: write_format_def ascii_def crlf_def os_write_def header_text_def)
  have h: "\<forall>h \<in> set (hm_headers req). header_ok h" using assms by (simp add: http_request_ok_def)
  show ?thesis
    by (simp add: HTTPGenerator_request_def f1 f2 write_headers_text [OF h] request_text_def added_length_def
        header_text_def os_write_def)
qed


lemma fold_events_append: "fold f (xs @ ys) r = fold f ys (fold f xs r)"
  by simp

lemma fold_request_headers:
  "fold request_event (map (\<lambda>(k, v). OnHeader k v) hs) r =
     r\<lparr>hm_headers := hm_headers r @ map (\<lambda>(k, v). (toLower k, v)) hs\<rparr>"
  by (induction hs arbitrary: r) (auto simp: addHeader_def)

lemma toLower_headers:
  "\<forall>h \<in> set hs. toLower (fst h) = fst h \<Longrightarrow> map (\<lambda>(k, v). (toLower k, v)) hs = hs"
  by (induction hs) auto

lemma digits_not_special: "\<not> is_digit c \<Longrightarrow> c \<notin> set (digits n)" "digits n \<noteq> []"
  using digits_props [of n] by auto

lemma header_ok_length:
  assumes "n < 2 ^ 64"
  shows "header_ok (ascii ''Content-Length'', digits n)"
proof -
  have "\<not> is_digit 10" "\<not> is_digit 32" "\<not> is_digit 13" by (simp_all add: is_digit_def)
  then have "10 \<notin> set (digits n)" "hd (digits n) \<noteq> 32" "last (digits n) \<noteq> 13"
    using digits_not_special by (metis hd_in_set last_in_set)+
  then show ?thesis using length_digits_64 [OF assms] by (simp add: header_ok_def ascii_def)
qed

lemma lengths_readable: "lengths_are body hs \<Longrightarrow> length body < 2 ^ 64 \<Longrightarrow> h \<in> set hs \<Longrightarrow> length_readable h"
  using stoull_digits [of "length body"] by (cases h) (auto simp: lengths_are_def length_readable_def)

lemma request_text_parsed:
  assumes ok: "http_request_ok req"
  shows "HTTPRequest_parse (request_text req) =
    Inr (req\<lparr>hm_headers := hm_headers req @ map (\<lambda>(k, v). (toLower k, v)) (added_length req)\<rparr>)"
proof -
  let ?hs = "hm_headers req @ added_length req" and ?body = "hm_body req"
  let ?p = "(HTTPParser PARSE_HTTP_REQUEST True)\<lparr>hp_state := S_HEADER\<rparr>"
  have p: "hp_state ?p = S_HEADER" "hp_buf ?p = []" "hp_body_bytes_read ?p = 0" "hp_expect_body ?p"
    "hp_mode ?p = PARSE_HTTP_REQUEST" "hp_body_bytes_expected ?p = 0"
    by (simp_all add: HTTPParser_def)
  have len: "length ?body < 2 ^ 64" using ok by (simp add: http_request_ok_def)
  have lens: "lengths_are ?body ?hs" using ok by (auto simp: http_request_ok_def lengths_are_def added_length_def)
  have hok: "\<forall>h \<in> set ?hs. header_ok h \<and> length_readable h"
    using ok header_ok_length [OF len] lengths_readable [OF lens len] by (auto simp: http_request_ok_def added_length_def)
  let ?e = "fold header_effect ?hs ?p"
  have any: "(\<exists>h \<in> set ?hs. toLower (fst h) = ascii ''content-length'') \<or> ?body = []"
  proof -
    have "\<exists>h \<in> set (hm_headers req). toLower (fst h) = ascii ''content-length''"
      if "hasHeader (ascii ''Content-Length'') req"
    proof -
      from that obtain v where v: "(ascii ''content-length'', v) \<in> set (hm_headers req)"
        by (auto simp: hasHeader_def literals)
      then have "toLower (ascii ''content-length'') = ascii ''content-length''" using ok by (force simp: http_request_ok_def)
      with v show ?thesis by force
    qed
    then show ?thesis
      by (cases "hasHeader (ascii ''Content-Length'') req") (auto simp: added_length_def literals)
  qed
  have "hp_body_bytes_expected ?e = word_of_nat (length ?body)"
    by (rule header_effects_expected(2) [OF len lens p(4,5)]) (use any p(6) in auto)
  moreover have "hp_state ?e = S_HEADER" "hp_buf ?e = []" "hp_body_bytes_read ?e = 0"
    by (simp_all only: fold_header_keeps p)
  ultimately obtain q q' where q: "HTTPParser_parse (crlf @ ?body) ?e =
      Inr (q, OnHeadersComplete # (if ?body = [] then [] else [OnBodyChunk ?body]))"
    "HTTPParser_eof q = Inr q'" "hp_state q' = S_DONE"
    using parse_body [of ?e ?body] len by auto
  let ?evs = "[OnMethod (hreq_method req), OnURI (hreq_uri req), OnVersion (hm_version req)] @
      map (\<lambda>(k, v). OnHeader k v) ?hs @ OnHeadersComplete # (if ?body = [] then [] else [OnBodyChunk ?body])"
  have line: "32 \<notin> set (hreq_uri req)" "10 \<notin> set (hm_version req)" "hm_version req = [] \<or> last (hm_version req) \<noteq> 13"
    using ok by (simp_all add: http_request_ok_def)
  have "HTTPParser_parse (header_text ?hs @ crlf @ ?body) ?p = Inr (q, map (\<lambda>(k, v). OnHeader k v) ?hs @
      OnHeadersComplete # (if ?body = [] then [] else [OnBodyChunk ?body]))"
    by (subst parse_headers [OF hok p(1,2)], subst q(1)) simp
  moreover have "hp_state (HTTPParser PARSE_HTTP_REQUEST True) = S_REQ_METHOD"
    "hp_buf (HTTPParser PARSE_HTTP_REQUEST True) = []" "hp_on_method (HTTPParser PARSE_HTTP_REQUEST True)"
    by (simp_all add: HTTPParser_def initial_state_def)
  ultimately have "HTTPParser_parse (request_text req) (HTTPParser PARSE_HTTP_REQUEST True) = Inr (q, ?evs)"
    unfolding request_text_def by (subst parse_request_line [OF line]) simp_all
  then have "HTTPRequest_parse (request_text req) = Inr (fold request_event ?evs HTTPRequest_null)"
    by (simp add: HTTPRequest_parse_def q(2,3))
  moreover have "fold request_event ?evs HTTPRequest_null =
      req\<lparr>hm_headers := hm_headers req @ map (\<lambda>(k, v). (toLower k, v)) (added_length req)\<rparr>"
    using ok toLower_headers [of "hm_headers req"]
    by (cases req) (simp add: HTTPRequest_null_def fold_request_headers appendBody_def http_request_ok_def)
  ultimately show ?thesis by simp
qed

section \<open>Responses\<close>

definition http_response_ok :: "http_response \<Rightarrow> bool" where
  "http_response_ok res \<longleftrightarrow>
     4 \<le> length (hm_version res) \<and> 32 \<notin> set (hm_version res) \<and> \<not> has_placeholder 49 (hm_version res) \<and> \<not> has_placeholder 50 (hm_version res) \<and>
     0 \<le> hres_status_code res \<and> hres_status_code res < 2 ^ 31 \<and>
     10 \<notin> set (hres_status_name res) \<and> (hres_status_name res = [] \<or> last (hres_status_name res) \<noteq> 13) \<and>
     length (hm_version res) + length (hres_status_name res) < 2 ^ 31 - 64 \<and> length (hm_body res) < 2 ^ 64 \<and>
     (\<forall>h \<in> set (hm_headers res). header_ok h \<and> toLower (fst h) = fst h) \<and> lengths_are (hm_body res) (hm_headers res)"

definition response_text :: "http_response \<Rightarrow> bytes" where
  "response_text res =
     hm_version res @ [32] @ digits (nat (hres_status_code res)) @ [32] @ hres_status_name res @ crlf @
     header_text (hm_headers res) @ crlf @ hm_body res"

lemma generated_response:
  assumes "http_response_ok res"
  shows "HTTPGenerator_response res [] = Some (Inr (response_text res))"
proof -
  let ?code = "digits (nat (hres_status_code res))"
  have "length ?code \<le> 20" using assms by (intro length_digits_64) (simp add: http_response_ok_def nat_less_iff)
  moreover have "36 \<notin> set ?code" by (rule digits_not_special) (simp add: is_digit_def)
  ultimately have "StringUtil_formatv ([36, 48] @ [32] @ [36, 49] @ [32] @ [36, 50] @ [13, 10])
      [hm_version res, ?code, hres_status_name res] =
      Some (Inr (hm_version res @ [32] @ ?code @ [32] @ hres_status_name res @ [13, 10]))"
    using assms by (intro format_three) (simp_all add: http_response_ok_def no_placeholder)
  then have "write_format (ascii ''$0 $1 $2'' @ crlf) [hm_version res, toString_int (hres_status_code res), hres_status_name res] [] =
      Some (Inr (hm_version res @ [32] @ ?code @ [32] @ hres_status_name res @ crlf))"
    using assms by (simp add: write_format_def ascii_def crlf_def os_write_def toString_int_def http_response_ok_def)
  moreover have "\<forall>h \<in> set (hm_headers res). header_ok h" using assms by (simp add: http_response_ok_def)
  moreover have "\<not> length (hm_version res) < 4" using assms by (simp add: http_response_ok_def)
  ultimately show ?thesis
    by (simp add: HTTPGenerator_response_def write_headers_text response_text_def os_write_def)
qed

definition version_effect :: "bytes \<Rightarrow> http_parser \<Rightarrow> http_parser" where
  "version_effect ver p = (if strncaseeq ver (ascii ''HTTP/1.0'') then p\<lparr>hp_body_bytes_expected := - 1\<rparr> else p)"

lemma parse_response_line:
  assumes "32 \<notin> set ver" and "n < 2 ^ 31" and "10 \<notin> set name" and "name = [] \<or> last name \<noteq> 13"
    and p: "hp_state p = S_RES_VERSION" "hp_buf p = []"
  shows "HTTPParser_parse (ver @ [32] @ digits n @ [32] @ name @ crlf @ s) p =
    res_bind (HTTPParser_parse s ((version_effect ver p)\<lparr>hp_state := S_HEADER\<rparr>))
      (\<lambda>(q, evs). Inr (q, [OnVersion ver, OnStatusCode (int n), OnStatusName name] @ evs))"
proof -
  let ?q = "\<lambda>st. (version_effect ver p)\<lparr>hp_state := st\<rparr>"
  have b: "hp_buf (version_effect ver p) = []" using p(2) by (simp add: version_effect_def)
  have d1: "line_done (p\<lparr>hp_buf := ver\<rparr>) = Inr (?q S_RES_STATUS_CODE, [OnVersion ver])"
    using p by (cases p) (simp add: line_done_def version_effect_def)
  have d2: "line_done ((?q S_RES_STATUS_CODE)\<lparr>hp_buf := digits n\<rparr>) = Inr (?q S_RES_STATUS_NAME, [OnStatusCode (int n)])"
    using b stoi_digits_nat [OF assms(2)] by (cases "version_effect ver p") (simp add: line_done_def)
  have d3: "line_done ((?q S_RES_STATUS_NAME)\<lparr>hp_buf := name @ [13]\<rparr>) = Inr (?q S_HEADER, [OnStatusName name])"
    using b stripTrailing_snoc [OF assms(4)] by (cases "version_effect ver p") (simp add: line_done_def)
  have n: "32 \<notin> set (digits n)" by (rule digits_not_special) (simp add: is_digit_def)
  have l1: "HTTPParser_parse (ver @ 32 # t) p =
      res_bind (HTTPParser_parse t (?q S_RES_STATUS_CODE)) (\<lambda>(q, evs). Inr (q, [OnVersion ver] @ evs))" for t
    using parse_line [OF _ p(2) _ d1, of t] p(1) assms(1) by (simp add: line_state_def line_end_def)
  have l2: "HTTPParser_parse (digits n @ 32 # t) (?q S_RES_STATUS_CODE) =
      res_bind (HTTPParser_parse t (?q S_RES_STATUS_NAME)) (\<lambda>(q, evs). Inr (q, [OnStatusCode (int n)] @ evs))" for t
    using parse_line [OF _ _ _ d2, of t] b n by (simp add: line_state_def line_end_def)
  have l3: "HTTPParser_parse (name @ crlf @ t) (?q S_RES_STATUS_NAME) =
      res_bind (HTTPParser_parse t (?q S_HEADER)) (\<lambda>(q, evs). Inr (q, [OnStatusName name] @ evs))" for t
    using parse_line [OF _ _ _ d3, of t] b assms(3) by (simp add: line_state_def line_end_def crlf_def)
  show ?thesis by (simp add: l1 l2 l3 res_bind_assoc res_bind_case_prod)
qed

lemma fold_response_headers:
  "fold response_event (map (\<lambda>(k, v). OnHeader k v) hs) r =
     r\<lparr>hm_headers := hm_headers r @ map (\<lambda>(k, v). (toLower k, v)) hs\<rparr>"
  by (induction hs arbitrary: r) (auto simp: addHeader_def)

lemma response_text_parsed:
  assumes ok: "http_response_ok res"
  shows "HTTPResponse_parse (response_text res) = Inr res"
proof -
  let ?hs = "hm_headers res" and ?body = "hm_body res" and ?start = "HTTPParser PARSE_HTTP_RESPONSE False"
  let ?p = "(version_effect (hm_version res) ?start)\<lparr>hp_state := S_HEADER\<rparr>"
  have p: "hp_state ?p = S_HEADER" "hp_buf ?p = []" "hp_body_bytes_read ?p = 0" "hp_expect_body ?p"
    "hp_mode ?p = PARSE_HTTP_RESPONSE" "hp_body_bytes_expected ?p = 0 \<or> hp_body_bytes_expected ?p = - 1"
    by (simp_all add: HTTPParser_def version_effect_def)
  have len: "length ?body < 2 ^ 64" and lens: "lengths_are ?body ?hs" using ok by (simp_all add: http_response_ok_def)
  have hok: "\<forall>h \<in> set ?hs. header_ok h \<and> length_readable h"
    using ok lengths_readable [OF lens len] by (simp add: http_response_ok_def)
  let ?e = "fold header_effect ?hs ?p"
  have "hp_body_bytes_expected ?e = word_of_nat (length ?body) \<or>
      hp_mode ?e = PARSE_HTTP_RESPONSE \<and> (hp_body_bytes_expected ?e = 0 \<or> hp_body_bytes_expected ?e = - 1)"
    using header_effects_expected(1) [OF len lens p(4)] p(5,6) by (auto simp: fold_header_keeps)
  moreover have "hp_state ?e = S_HEADER" "hp_buf ?e = []" "hp_body_bytes_read ?e = 0"
    by (simp_all only: fold_header_keeps p)
  ultimately obtain q q' where q: "HTTPParser_parse (crlf @ ?body) ?e =
      Inr (q, OnHeadersComplete # (if ?body = [] then [] else [OnBodyChunk ?body]))"
    "HTTPParser_eof q = Inr q'" "hp_state q' = S_DONE"
    using parse_body [of ?e ?body] len by auto
  have code: "nat (hres_status_code res) < 2 ^ 31" "int (nat (hres_status_code res)) = hres_status_code res"
    using ok by (simp_all add: http_response_ok_def nat_less_iff)
  let ?evs = "[OnVersion (hm_version res), OnStatusCode (int (nat (hres_status_code res))), OnStatusName (hres_status_name res)] @
      map (\<lambda>(k, v). OnHeader k v) ?hs @ OnHeadersComplete # (if ?body = [] then [] else [OnBodyChunk ?body])"
  have line: "32 \<notin> set (hm_version res)" "10 \<notin> set (hres_status_name res)"
    "hres_status_name res = [] \<or> last (hres_status_name res) \<noteq> 13"
    using ok by (simp_all add: http_response_ok_def)
  have "HTTPParser_parse (header_text ?hs @ crlf @ ?body) ?p = Inr (q, map (\<lambda>(k, v). OnHeader k v) ?hs @
      OnHeadersComplete # (if ?body = [] then [] else [OnBodyChunk ?body]))"
    by (subst parse_headers [OF hok p(1,2)], subst q(1)) simp
  moreover have "hp_state ?start = S_RES_VERSION" "hp_buf ?start = []"
    by (simp_all add: HTTPParser_def initial_state_def)
  ultimately have "HTTPParser_parse (response_text res) ?start = Inr (q, ?evs)"
    unfolding response_text_def by (subst parse_response_line [OF line(1) code(1) line(2,3)]) simp_all
  then have "HTTPResponse_parse (response_text res) = Inr (fold response_event ?evs HTTPResponse_null)"
    by (simp add: HTTPResponse_parse_def q(2,3))
  moreover have "fold response_event ?evs HTTPResponse_null = res"
    using ok toLower_headers [of ?hs] code(2)
    by (cases res) (simp add: HTTPResponse_null_def fold_response_headers appendBody_def http_response_ok_def)
  ultimately show ?thesis by simp
qed

section \<open>What the parser lets pass\<close>

text \<open>
  The end of the input is accepted in the middle of the headers or before them: nothing is expected
  of a body yet.
\<close>

lemma truncated_request_accepted:
  assumes "32 \<notin> set s" and "length s \<le> 16"
  shows "HTTPRequest_parse s = Inr HTTPRequest_null"
proof -
  let ?p = "HTTPParser PARSE_HTTP_REQUEST True"
  have "takeWhile (\<lambda>c. c \<noteq> 32) s = s" using assms(1) by (intro takeWhile_all) auto
  then have "readUntil 32 s ?p = (False, [], ?p\<lparr>hp_buf := s\<rparr>)"
    unfolding readUntil_def Let_def by (simp only:) (simp add: HTTPParser_def)
  then have "s \<noteq> [] \<Longrightarrow> HTTPParser_parse s ?p = Inr (?p\<lparr>hp_buf := s\<rparr>, [])"
    using assms(2) by (simp add: parse_unfold parse_step_def HTTPParser_def initial_state_def parseMethod_def check_size_def
        kMaxMethodSize_def)
  then have "\<exists>b. HTTPParser_parse s ?p = Inr (?p\<lparr>hp_buf := b\<rparr>, [])"
    by (cases "s = []") (auto intro!: exI [of _ "[]"] simp: HTTPParser_def)
  then show ?thesis by (auto simp: HTTPRequest_parse_def HTTPParser_eof_def HTTPParser_def initial_state_def)
qed

text \<open>A limit only holds for input that ends before the delimiter: in one piece any length passes.\<close>

lemma long_version_accepted:
  assumes "10 \<notin> set l" and "p = (HTTPParser PARSE_HTTP_REQUEST True)\<lparr>hp_state := S_REQ_VERSION\<rparr>"
  shows "HTTPParser_parse (l @ [10]) p = Inr (p\<lparr>hp_state := S_HEADER\<rparr>, [OnVersion (stripTrailingBytes 13 l)])"
  using parse_line [of p l "p\<lparr>hp_state := S_HEADER\<rparr>" "[OnVersion (stripTrailingBytes 13 l)]" "[]"] assms
  by (simp add: line_state_def line_end_def HTTPParser_def line_done_def)

end
