(* ===== verification/CS_Json.thy ===== *)
theory CS_Json
  imports CS_Csv CS_Human
begin

text \<open>
  JSON (\<open>stx/json\<close>): the tokenizer \<open>JSONInputStream\<close> over any input stream, \<open>parseJSON\<close>, the
  writer \<open>JSONOutputStream\<close>, lookups in a token list (\<open>jsonutil.cc\<close>) and its conversions
  (\<open>json.cc\<close>). A JSON document is the list of its tokens; a token that opens an object or an
  array knows how many tokens that takes. Iterators are positions in the list.
\<close>

section \<open>Tokens\<close>

datatype token_type =
    JSON_OBJECT_BEGIN
  | JSON_OBJECT_END
  | JSON_ARRAY_BEGIN
  | JSON_ARRAY_END
  | JSON_STRING
  | JSON_NUMBER
  | JSON_TRUE
  | JSON_FALSE
  | JSON_NULL

record json_token =
  jt_type :: token_type
  jt_data :: bytes
  jt_size :: u32

definition JSONToken :: "token_type \<Rightarrow> bytes \<Rightarrow> json_token" where
  "JSONToken type data = \<lparr>jt_type = type, jt_data = data, jt_size = 1\<rparr>"

type_synonym json_object = "json_token list"

section \<open>JSONInputStream\<close>

record json_stream =
  js_input :: input_stream
  js_cur :: byte

definition JSONInputStream :: "input_stream \<Rightarrow> json_stream" where
  "JSONInputStream input = \<lparr>js_input = input, js_cur = 32\<rparr>"

text \<open>At the end of the input the current character is 0, as it is at a NUL byte of the input.\<close>

definition js_advanceCursor :: "json_stream \<Rightarrow> json_stream" where
  "js_advanceCursor j =
     (case is_readNextByte (js_input j) of
        (None, input) \<Rightarrow> \<lparr>js_input = input, js_cur = 0\<rparr>
      | (Some b, input) \<Rightarrow> \<lparr>js_input = input, js_cur = b\<rparr>)"

definition number_char :: "byte \<Rightarrow> bool" where
  "number_char c \<longleftrightarrow> c = 45 \<or> c = 43 \<or> c = 46 \<or> is_digit c \<or> c = 101 \<or> c = 69"

partial_function (option) js_readNumber :: "bytes \<Rightarrow> json_stream \<Rightarrow> (bytes \<times> json_stream) option" where
  "js_readNumber dst j =
     (if number_char (js_cur j) then js_readNumber (dst @ [js_cur j]) (js_advanceCursor j)
      else if js_cur j = 32 then js_readNumber dst (js_advanceCursor j)
      else Some (dst, j))"

text \<open>The character an escape sequence of two stands for.\<close>

definition unescape :: "byte \<Rightarrow> byte option" where
  "unescape c =
     (if c = 34 then Some 34 else if c = 92 then Some 92 else if c = 47 then Some 47
      else if c = 98 then Some 8 else if c = 102 then Some 12 else if c = 110 then Some 10
      else if c = 114 then Some 13 else if c = 116 then Some 9 else None)"

partial_function (option) js_readString :: "bytes \<Rightarrow> json_stream \<Rightarrow> (bytes \<times> json_stream) res option" where
  "js_readString dst j0 =
     (let j = js_advanceCursor j0; c = js_cur j
      in if c = 92 then
           (let j = js_advanceCursor j
            in case unescape (js_cur j) of
                 Some d \<Rightarrow> js_readString (dst @ [d]) j
               | None \<Rightarrow>
                   if js_cur j = 117 then
                     js_readString dst (js_advanceCursor (js_advanceCursor (js_advanceCursor (js_advanceCursor j))))
                   else Some (Inl RuntimeError))
         else if c = 34 then Some (Inr (dst, js_advanceCursor j))
         else if c = 0 then Some (Inl RuntimeError)
         else js_readString (dst @ [c]) j)"

definition js_expectString :: "bytes \<Rightarrow> json_stream \<Rightarrow> json_stream res" where
  "js_expectString expect j =
     (case is_readNextBytes (length expect - 1) (js_input j) of
        (bs, input) \<Rightarrow>
          if js_cur j # bs \<noteq> expect then Inl RuntimeError else Inr (js_advanceCursor (j\<lparr>js_input := input\<rparr>)))"

text \<open>
  The next token with its text, or \<open>None\<close> at the end. The outer \<open>None\<close> is a call that does not return.
\<close>

type_synonym read_token = "(token_type \<times> bytes) option"

definition js_expect :: "token_type \<Rightarrow> bytes \<Rightarrow> json_stream \<Rightarrow> (read_token \<times> json_stream) res" where
  "js_expect type word j = map_sum id (\<lambda>j. (Some (type, []), j)) (js_expectString word j)"

partial_function (option) js_readNextToken :: "json_stream \<Rightarrow> (read_token \<times> json_stream) res option" where
  "js_readNextToken j =
     (let c = js_cur j; one = (\<lambda>type. Some (Inr (Some (type, []), js_advanceCursor j)))
      in if c = 123 then one JSON_OBJECT_BEGIN
         else if c = 125 then one JSON_OBJECT_END
         else if c = 91 then one JSON_ARRAY_BEGIN
         else if c = 93 then one JSON_ARRAY_END
         else if c = 58 \<or> c = 44 \<or> c = 32 \<or> c = 10 \<or> c = 13 then js_readNextToken (js_advanceCursor j)
         else if c = 45 \<or> is_digit c then map_option (\<lambda>(d, j). Inr (Some (JSON_NUMBER, d), j)) (js_readNumber [] j)
         else if c = 34 then map_option (map_sum id (\<lambda>(d, j). (Some (JSON_STRING, d), j))) (js_readString [] j)
         else if c = 116 then Some (js_expect JSON_TRUE (ascii ''true'') j)
         else if c = 102 then Some (js_expect JSON_FALSE (ascii ''false'') j)
         else if c = 110 then Some (js_expect JSON_NULL (ascii ''null'') j)
         else if c = 0 then Some (Inr (None, j))
         else Some (Inl RuntimeError))"

section \<open>parseJSON\<close>

text \<open>One turn of the loop: the tokens so far, and the positions of those that are still open.\<close>

fun json_add_token :: "token_type \<times> bytes \<Rightarrow> json_object \<times> nat list \<Rightarrow> (json_object \<times> nat list) res" where
  "json_add_token (type, data) (obj, stack) =
     (if type \<in> {JSON_ARRAY_BEGIN, JSON_OBJECT_BEGIN} then Inr (obj @ [JSONToken type []], length obj # stack)
      else if type \<in> {JSON_ARRAY_END, JSON_OBJECT_END} then
        (let obj = obj @ [JSONToken type []]
         in case stack of
              [] \<Rightarrow> Inl ParseError
            | p # stack \<Rightarrow> Inr (obj[p := (obj ! p)\<lparr>jt_size := word_of_nat (length obj - p)\<rparr>], stack))
      else if type \<in> {JSON_STRING, JSON_NUMBER} then Inr (obj @ [JSONToken type data], stack)
      else Inr (obj @ [JSONToken type []], stack))"

partial_function (option) parseJSON_loop :: "json_stream \<Rightarrow> json_object \<Rightarrow> nat list \<Rightarrow> json_object res option" where
  "parseJSON_loop j obj stack =
     (case js_readNextToken j of
        None \<Rightarrow> None
      | Some r \<Rightarrow>
          (case r of
             Inl e \<Rightarrow> Some (Inl e)
           | Inr (tok, j) \<Rightarrow>
               (case tok of
                  None \<Rightarrow> Some (if stack \<noteq> [] then Inl RuntimeError else Inr obj)
                | Some t \<Rightarrow>
                    (case json_add_token t (obj, stack) of
                       Inl e \<Rightarrow> Some (Inl e)
                     | Inr (obj, stack) \<Rightarrow> parseJSON_loop j obj stack))))"

definition parseJSON :: "json_stream \<Rightarrow> json_object res option" where
  "parseJSON j = parseJSON_loop j [] []"

definition parseJSON_string :: "bytes \<Rightarrow> json_object res option" where
  "parseJSON_string json_str = parseJSON (JSONInputStream (StringIS \<lparr>ms_data = json_str, ms_cur = 0\<rparr>))"

definition parseJSON_buffer :: "bytes \<Rightarrow> json_object res option" where
  "parseJSON_buffer json_buf = parseJSON (JSONInputStream (BufferIS \<lparr>ms_data = json_buf, ms_cur = 0\<rparr>))"

section \<open>JSONOutputStream\<close>

text \<open>
  The state is the text written and the stack of open containers, innermost first, with the
  number of values each has (an \<open>int\<close>, here a number). \<open>printf\<close> has a buffer of 8192 bytes and
  takes C strings.
\<close>

record json_writer =
  jw_out :: bytes
  jw_stack :: "(token_type \<times> nat) list"

definition JSONOutputStream :: "bytes \<Rightarrow> json_writer" where
  "JSONOutputStream out = \<lparr>jw_out = out, jw_stack = []\<rparr>"

definition jw_write :: "bytes \<Rightarrow> json_writer \<Rightarrow> json_writer" where
  "jw_write data w = w\<lparr>jw_out := os_write data (jw_out w)\<rparr>"

definition jw_printf :: "bytes \<Rightarrow> json_writer \<Rightarrow> json_writer res" where
  "jw_printf text w =
     (if length text \<ge> 2 ^ 31 then Inl IOError
      else if length text \<ge> 8192 then Inl BufferOverflowError else Inr (jw_write text w))"

definition hex_digit :: "byte \<Rightarrow> byte" where
  "hex_digit n = ascii ''0123456789abcdef'' ! unat n"

definition escape_char :: "byte \<Rightarrow> bytes" where
  "escape_char c =
     (if c = 8 then [92, 98] else if c = 9 then [92, 116] else if c = 10 then [92, 110]
      else if c = 12 then [92, 102] else if c = 13 then [92, 114]
      else if c < 32 then [92, 117, 48, 48, hex_digit (drop_bit 4 c), hex_digit (c AND 15)]
      else if c = 34 then [92, 34] else if c = 92 then [92, 92] else [c])"

definition escapeString :: "bytes \<Rightarrow> bytes" where
  "escapeString str = concat (map escape_char str)"

definition jw_beginObject :: "json_writer \<Rightarrow> json_writer res" where "jw_beginObject = jw_printf [123]"
definition jw_endObject :: "json_writer \<Rightarrow> json_writer res" where "jw_endObject = jw_printf [125]"
definition jw_beginArray :: "json_writer \<Rightarrow> json_writer res" where "jw_beginArray = jw_printf [91]"
definition jw_endArray :: "json_writer \<Rightarrow> json_writer res" where "jw_endArray = jw_printf [93]"
definition jw_addComma :: "json_writer \<Rightarrow> json_writer res" where "jw_addComma = jw_printf [44]"
definition jw_addColon :: "json_writer \<Rightarrow> json_writer res" where "jw_addColon = jw_printf [58]"

definition jw_addObjectEntry :: "bytes \<Rightarrow> json_writer \<Rightarrow> json_writer res" where
  "jw_addObjectEntry key = jw_printf ([34] @ takeWhile (\<lambda>c. c \<noteq> 0) (escapeString key) @ [34, 58, 32])"

definition jw_addString :: "bytes \<Rightarrow> json_writer \<Rightarrow> json_writer res" where
  "jw_addString str w = Inr (jw_write [34] (jw_write (escapeString str) (jw_write [34] w)))"

text \<open>A signed 64-bit integer is its word.\<close>

definition toString_s64 :: "u64 \<Rightarrow> bytes" where
  "toString_s64 value = (if sint value < 0 then 45 # digits (nat (- sint value)) else digits (nat (sint value)))"

definition jw_addInteger :: "u64 \<Rightarrow> json_writer \<Rightarrow> json_writer res" where
  "jw_addInteger value w = Inr (jw_write (toString_s64 value) w)"

definition jw_addNull :: "json_writer \<Rightarrow> json_writer res" where "jw_addNull w = Inr (jw_write (ascii ''null'') w)"
definition jw_addTrue :: "json_writer \<Rightarrow> json_writer res" where "jw_addTrue w = Inr (jw_write (ascii ''true'') w)"
definition jw_addFalse :: "json_writer \<Rightarrow> json_writer res" where "jw_addFalse w = Inr (jw_write (ascii ''false'') w)"

definition jw_addBool :: "bool \<Rightarrow> json_writer \<Rightarrow> json_writer res" where
  "jw_addBool val = (if val then jw_addTrue else jw_addFalse)"

definition jw_addFloat :: "double \<Rightarrow> json_writer \<Rightarrow> json_writer res" where
  "jw_addFloat value w =
     (if double_exp value \<noteq> 0 \<and> double_exp value \<noteq> 2047
      then res_bind (toString_double value) (\<lambda>s. Inr (jw_write s w)) else jw_addNull w)"

text \<open>
  The entry that takes tokens: commas and colons follow from the number of values the innermost
  container has. A number is written as a string.
\<close>

definition jw_pop :: "json_writer \<Rightarrow> json_writer" where
  "jw_pop w = w\<lparr>jw_stack := tl (jw_stack w)\<rparr>"

definition jw_count :: "json_writer \<Rightarrow> json_writer" where
  "jw_count w = w\<lparr>jw_stack := (case jw_stack w of [] \<Rightarrow> [] | (t, n) # st \<Rightarrow> (t, n + 1) # st)\<rparr>"

definition jw_push :: "token_type \<Rightarrow> json_writer \<Rightarrow> json_writer" where
  "jw_push t w = w\<lparr>jw_stack := (t, 0) # jw_stack w\<rparr>"

definition jw_separator :: "json_writer \<Rightarrow> json_writer res" where
  "jw_separator w =
     (case jw_stack w of
        [] \<Rightarrow> Inr w
      | (t, n) # _ \<Rightarrow>
          if n > 0 then
            (if t = JSON_ARRAY_BEGIN then jw_addComma w
             else if t = JSON_OBJECT_BEGIN then (if n mod 2 = 0 then jw_addComma w else jw_addColon w)
             else Inr w)
          else Inr w)"

definition jw_emplace_back :: "token_type \<Rightarrow> bytes \<Rightarrow> json_writer \<Rightarrow> json_writer res" where
  "jw_emplace_back token data w =
     (case token of
        JSON_ARRAY_END \<Rightarrow> res_bind (jw_endArray w) (\<lambda>w. Inr (jw_count (jw_pop w)))
      | JSON_OBJECT_END \<Rightarrow> res_bind (jw_endObject w) (\<lambda>w. Inr (jw_count (jw_pop w)))
      | _ \<Rightarrow>
          res_bind (jw_separator w) (\<lambda>w.
            case token of
              JSON_ARRAY_BEGIN \<Rightarrow> res_bind (jw_beginArray w) (\<lambda>w. Inr (jw_push JSON_ARRAY_BEGIN w))
            | JSON_OBJECT_BEGIN \<Rightarrow> res_bind (jw_beginObject w) (\<lambda>w. Inr (jw_push JSON_OBJECT_BEGIN w))
            | JSON_STRING \<Rightarrow> res_bind (jw_addString data w) (\<lambda>w. Inr (jw_count w))
            | JSON_NUMBER \<Rightarrow> res_bind (jw_addString data w) (\<lambda>w. Inr (jw_count w))
            | JSON_TRUE \<Rightarrow> res_bind (jw_addTrue w) (\<lambda>w. Inr (jw_count w))
            | JSON_FALSE \<Rightarrow> res_bind (jw_addFalse w) (\<lambda>w. Inr (jw_count w))
            | JSON_NULL \<Rightarrow> res_bind (jw_addNull w) (\<lambda>w. Inr (jw_count w))
            | _ \<Rightarrow> Inr w))"

definition JSONOutputStream_write :: "json_object \<Rightarrow> json_writer \<Rightarrow> json_writer res" where
  "JSONOutputStream_write obj w = res_fold (\<lambda>t w. jw_emplace_back (jt_type t) (jt_data t) w) obj w"

section \<open>Lookups\<close>

text \<open>
  Reading behind the tokens is undefined, and so is a loop that does nothing for ever, which a
  token of size 0 would lead to. \<open>e\<close> is the iterator that stands for nothing found.
\<close>

definition tok_at :: "json_object \<Rightarrow> nat \<Rightarrow> json_token res" where
  "tok_at toks p = (if p < length toks then Inr (toks ! p) else Inl Undefined)"

definition tok_end :: "json_object \<Rightarrow> nat \<Rightarrow> nat" where
  "tok_end toks p = p + unat (jt_size (toks ! p))"

function objectLookup_loop :: "json_object \<Rightarrow> nat \<Rightarrow> nat \<Rightarrow> bytes \<Rightarrow> nat \<Rightarrow> nat res" where
  "objectLookup_loop toks oend e key b =
     (if b < e then
        res_bind (tok_at toks b) (\<lambda>t.
          if jt_type t = JSON_STRING \<and> jt_data t = key then Inr (b + 1)
          else if b + 1 = oend then Inr e
          else res_bind (tok_at toks (b + 1)) (\<lambda>t. objectLookup_loop toks oend e key (b + 1 + unat (jt_size t))))
      else Inr e)"
  by pat_completeness auto

termination by (relation "measure (\<lambda>(toks, oend, e, key, b). e - b)") auto

declare objectLookup_loop.simps [simp del]

definition objectLookup :: "json_object \<Rightarrow> nat \<Rightarrow> nat \<Rightarrow> bytes \<Rightarrow> nat res" where
  "objectLookup toks b e key =
     (if b = e then Inr e
      else res_bind (tok_at toks b) (\<lambda>t.
        if jt_type t \<noteq> JSON_OBJECT_BEGIN then Inl ParseError
        else if tok_end toks b > e then Inr e
        else objectLookup_loop toks (tok_end toks b) e key (b + 1)))"

definition objectGetString :: "json_object \<Rightarrow> nat \<Rightarrow> nat \<Rightarrow> bytes \<Rightarrow> bytes option res" where
  "objectGetString toks b e key =
     res_bind (objectLookup toks b e key) (\<lambda>p.
       if p = e then Inr None
       else res_bind (tok_at toks p) (\<lambda>t. Inr (if jt_type t = JSON_STRING then Some (jt_data t) else None)))"

definition objectGetUInt64 :: "json_object \<Rightarrow> nat \<Rightarrow> nat \<Rightarrow> bytes \<Rightarrow> u64 option res" where
  "objectGetUInt64 toks b e key =
     res_bind (objectLookup toks b e key) (\<lambda>p.
       if p = e then Inr None
       else res_bind (tok_at toks p) (\<lambda>t.
         if jt_type t = JSON_STRING \<or> jt_type t = JSON_NUMBER
         then res_bind (stoull (jt_data t)) (\<lambda>n. Inr (Some n)) else Inr None))"

definition objectGetBool :: "json_object \<Rightarrow> nat \<Rightarrow> nat \<Rightarrow> bytes \<Rightarrow> bool option res" where
  "objectGetBool toks b e key =
     res_bind (objectLookup toks b e key) (\<lambda>p.
       if p = e then Inr None
       else res_bind (tok_at toks p) (\<lambda>t. Inr
         (case jt_type t of
            JSON_TRUE \<Rightarrow> Some True
          | JSON_FALSE \<Rightarrow> Some False
          | JSON_STRING \<Rightarrow>
              if jt_data t = ascii ''true'' \<or> jt_data t = ascii ''TRUE'' then Some True
              else if jt_data t = ascii ''false'' \<or> jt_data t = ascii ''FALSE'' then Some False else None
          | _ \<Rightarrow> None)))"

function arrayLength_loop :: "json_object \<Rightarrow> nat \<Rightarrow> nat \<Rightarrow> nat res" where
  "arrayLength_loop toks aend b =
     (if b < aend then
        res_bind (tok_at toks b) (\<lambda>t.
          if jt_size t = 0 then Inl Undefined
          else res_bind (arrayLength_loop toks aend (b + unat (jt_size t))) (\<lambda>n. Inr (n + 1)))
      else Inr 0)"
  by pat_completeness auto

termination
proof (relation "measure (\<lambda>(toks, aend, b). aend - b)")
  fix toks :: json_object and aend b :: nat and t :: json_token
  assume "b < aend" and "jt_size t \<noteq> 0"
  then have "unat (jt_size t) > 0" by (simp add: unat_gt_0)
  with \<open>b < aend\<close> show "((toks, aend, b + unat (jt_size t)), (toks, aend, b)) \<in> measure (\<lambda>(toks, aend, b). aend - b)" by simp
qed simp

declare arrayLength_loop.simps [simp del]

definition arrayLength :: "json_object \<Rightarrow> nat \<Rightarrow> nat \<Rightarrow> nat res" where
  "arrayLength toks b e =
     (if b = e then Inr 0
      else res_bind (tok_at toks b) (\<lambda>t.
        if jt_type t \<noteq> JSON_ARRAY_BEGIN then Inl ParseError
        else if tok_end toks b - 1 > e then Inl IndexError
        else arrayLength_loop toks (tok_end toks b - 1) (b + 1)))"

fun arrayLookup_loop :: "json_object \<Rightarrow> nat \<Rightarrow> nat \<Rightarrow> nat \<Rightarrow> nat res" where
  "arrayLookup_loop toks aend b 0 = (if b < aend then Inr b else Inl IndexError)"
| "arrayLookup_loop toks aend b (Suc index) =
     (if b < aend then res_bind (tok_at toks b) (\<lambda>t. arrayLookup_loop toks aend (b + unat (jt_size t)) index)
      else Inl IndexError)"

definition arrayLookup :: "json_object \<Rightarrow> nat \<Rightarrow> nat \<Rightarrow> nat \<Rightarrow> nat res" where
  "arrayLookup toks b e index =
     (if b = e then Inr e
      else res_bind (tok_at toks b) (\<lambda>t.
        if jt_type t \<noteq> JSON_ARRAY_BEGIN then Inl ParseError
        else if tok_end toks b - 1 > e \<or> b = tok_end toks b - 1 then Inl IndexError
        else arrayLookup_loop toks (tok_end toks b - 1) (b + 1) index))"

definition arrayGetString :: "json_object \<Rightarrow> nat \<Rightarrow> nat \<Rightarrow> nat \<Rightarrow> bytes option res" where
  "arrayGetString toks b e index =
     res_bind (arrayLookup toks b e index) (\<lambda>p.
       if p = e then Inr None
       else res_bind (tok_at toks p) (\<lambda>t. Inr (if jt_type t = JSON_STRING then Some (jt_data t) else None)))"

section \<open>Conversions\<close>

text \<open>
  The instances of \<open>fromJSONImpl\<close>. That of \<open>int\<close>, \<open>unsigned\<close> and the 64-bit types fall through to the
  error when the library raises; \<open>stoul\<close> is \<open>stoull\<close> with the value cut to the type.
\<close>

definition json_scalar :: "json_object \<Rightarrow> nat \<Rightarrow> nat \<Rightarrow> (json_token \<Rightarrow> 'a res) \<Rightarrow> 'a res" where
  "json_scalar toks b e conv = (if b = e then Inl IndexError else res_bind (tok_at toks b) conv)"

definition fromJSON_string :: "json_object \<Rightarrow> nat \<Rightarrow> nat \<Rightarrow> bytes res" where
  "fromJSON_string toks b e = json_scalar toks b e (\<lambda>t.
     case jt_type t of
       JSON_STRING \<Rightarrow> Inr (jt_data t)
     | JSON_NUMBER \<Rightarrow> Inr (jt_data t)
     | JSON_TRUE \<Rightarrow> Inr (ascii ''true'')
     | JSON_FALSE \<Rightarrow> Inr (ascii ''false'')
     | JSON_NULL \<Rightarrow> Inr (ascii ''null'')
     | _ \<Rightarrow> Inl ParseError)"

definition json_number :: "(bytes \<Rightarrow> 'a res) \<Rightarrow> json_token \<Rightarrow> 'a res" where
  "json_number conv t =
     (if jt_type t = JSON_STRING \<or> jt_type t = JSON_NUMBER
      then (case conv (jt_data t) of Inl _ \<Rightarrow> Inl ParseError | Inr v \<Rightarrow> Inr v) else Inl ParseError)"

definition fromJSON_int :: "json_object \<Rightarrow> nat \<Rightarrow> nat \<Rightarrow> int res" where
  "fromJSON_int toks b e = json_scalar toks b e (json_number stoi)"

definition fromJSON_uint :: "json_object \<Rightarrow> nat \<Rightarrow> nat \<Rightarrow> u32 res" where
  "fromJSON_uint toks b e = json_scalar toks b e (json_number (\<lambda>s. res_bind (stoull s) (\<lambda>v. Inr (ucast v))))"

definition fromJSON_ulonglong :: "json_object \<Rightarrow> nat \<Rightarrow> nat \<Rightarrow> u64 res" where
  "fromJSON_ulonglong toks b e = json_scalar toks b e (json_number stoull)"

definition fromJSON_bool :: "json_object \<Rightarrow> nat \<Rightarrow> nat \<Rightarrow> bool res" where
  "fromJSON_bool toks b e = json_scalar toks b e (\<lambda>t.
     case jt_type t of JSON_TRUE \<Rightarrow> Inr True | JSON_FALSE \<Rightarrow> Inr False | _ \<Rightarrow> Inl ParseError)"

definition fromJSON_object :: "json_object \<Rightarrow> nat \<Rightarrow> nat \<Rightarrow> json_object res" where
  "fromJSON_object toks b e =
     res_bind (tok_at toks b) (\<lambda>t.
       if tok_end toks b > e then Inl IndexError else Inr (take (unat (jt_size t)) (drop b toks)))"

function fromJSON_map_loop :: "json_object \<Rightarrow> nat \<Rightarrow> nat \<Rightarrow> (bytes \<Rightarrow> bytes option) \<Rightarrow> (bytes \<Rightarrow> bytes option) res" where
  "fromJSON_map_loop toks e b m =
     (if b = e then Inr m
      else res_bind (tok_at toks b) (\<lambda>k.
        case jt_type k of
          JSON_OBJECT_END \<Rightarrow> Inr m
        | JSON_STRING \<Rightarrow>
            res_bind (tok_at toks (b + 1)) (\<lambda>v.
              case jt_type v of
                JSON_STRING \<Rightarrow> fromJSON_map_loop toks e (b + 2) (m(jt_data k \<mapsto> jt_data v))
              | JSON_NULL \<Rightarrow> fromJSON_map_loop toks e (b + 2) (m(jt_data k \<mapsto> []))
              | _ \<Rightarrow> Inl ParseError)
        | _ \<Rightarrow> Inl ParseError))"
  by pat_completeness auto

termination
  by (relation "measure (\<lambda>(toks, e, b, m). length toks - b)") (auto simp: tok_at_def split: if_splits)

declare fromJSON_map_loop.simps [simp del]

definition fromJSON_map :: "json_object \<Rightarrow> nat \<Rightarrow> nat \<Rightarrow> (bytes \<Rightarrow> bytes option) res" where
  "fromJSON_map toks b e =
     (if b = e then Inl IndexError
      else res_bind (tok_at toks b) (\<lambda>t.
        if tok_end toks b > e then Inl IndexError
        else if jt_type t \<noteq> JSON_OBJECT_BEGIN then Inl ParseError
        else fromJSON_map_loop toks e (b + 1) (\<lambda>_. None)))"

end
