(* ===== verification/CS_JsonText.thy ===== *)
theory CS_JsonText
  imports CS_Json
begin

text \<open>
  Reading JSON as a function of the text that is left, whatever the input stream: the tokenizer and
  \<open>parseJSON\<close> refine \<open>lex_token\<close> and \<open>json_read\<close>, which are total.
\<close>

section \<open>The text left in a stream\<close>

definition js_has :: "json_stream \<Rightarrow> bytes \<Rightarrow> bool" where
  "js_has j t \<longleftrightarrow> is_ok (js_input j) \<and> js_cur j # is_rest (js_input j) = (if t = [] then [0] else t)"

lemma js_has_cur: "js_has j t \<Longrightarrow> js_cur j = (case t of [] \<Rightarrow> 0 | c # _ \<Rightarrow> c)"
  by (auto simp: js_has_def split: list.splits if_splits)

lemma js_has_advance: "js_has j t \<Longrightarrow> js_has (js_advanceCursor j) (tl t)"
proof -
  assume j: "js_has j t"
  then have ok: "is_ok (js_input j)" and r: "is_rest (js_input j) = tl t" by (auto simp: js_has_def split: if_splits)
  show ?thesis
  proof (cases "tl t")
    case Nil
    with read_at_end [OF ok] r show ?thesis by (auto simp: js_advanceCursor_def js_has_def)
  next
    case (Cons b bs)
    with input.read1_Cons [OF ok] r show ?thesis by (fastforce simp: js_advanceCursor_def js_has_def)
  qed
qed

lemma js_has_advance_Cons: "js_has j (c # t) \<Longrightarrow> js_has (js_advanceCursor j) t"
  using js_has_advance [of j "c # t"] by simp

lemma js_has_start: "is_ok input \<Longrightarrow> js_has (JSONInputStream input) (32 # is_rest input)"
  by (simp add: js_has_def JSONInputStream_def)

section \<open>Tokens of a text\<close>

definition lex_number :: "bytes \<Rightarrow> bytes \<times> bytes" where
  "lex_number s =
     (filter number_char (takeWhile (\<lambda>c. number_char c \<or> c = 32) s), dropWhile (\<lambda>c. number_char c \<or> c = 32) s)"

fun lex_string :: "bytes \<Rightarrow> bytes \<Rightarrow> (bytes \<times> bytes) res" where
  "lex_string dst [] = Inl RuntimeError"
| "lex_string dst (c # s) =
     (if c = 92 then
        (case s of
           [] \<Rightarrow> Inl RuntimeError
         | e # s \<Rightarrow>
             (case unescape e of
                Some d \<Rightarrow> lex_string (dst @ [d]) s
              | None \<Rightarrow> if e = 117 then lex_string dst (drop 4 s) else Inl RuntimeError))
      else if c = 34 then Inr (dst, s)
      else if c = 0 then Inl RuntimeError
      else lex_string (dst @ [c]) s)"

definition lex_word :: "token_type \<Rightarrow> bytes \<Rightarrow> bytes \<Rightarrow> (read_token \<times> bytes) res" where
  "lex_word type word s =
     (if take (length word) s = word then Inr (Some (type, []), drop (length word) s) else Inl RuntimeError)"

definition json_blank :: "byte \<Rightarrow> bool" where
  "json_blank c \<longleftrightarrow> c = 58 \<or> c = 44 \<or> c = 32 \<or> c = 10 \<or> c = 13"

fun lex_token :: "bytes \<Rightarrow> (read_token \<times> bytes) res" where
  "lex_token [] = Inr (None, [])"
| "lex_token (c # s) =
     (if c = 123 then Inr (Some (JSON_OBJECT_BEGIN, []), s)
      else if c = 125 then Inr (Some (JSON_OBJECT_END, []), s)
      else if c = 91 then Inr (Some (JSON_ARRAY_BEGIN, []), s)
      else if c = 93 then Inr (Some (JSON_ARRAY_END, []), s)
      else if json_blank c then lex_token s
      else if c = 45 \<or> is_digit c then
        (case lex_number (c # s) of (d, s) \<Rightarrow> Inr (Some (JSON_NUMBER, d), s))
      else if c = 34 then
        (case lex_string [] s of Inl e \<Rightarrow> Inl e | Inr (d, s) \<Rightarrow> Inr (Some (JSON_STRING, d), s))
      else if c = 116 then lex_word JSON_TRUE (ascii ''true'') (c # s)
      else if c = 102 then lex_word JSON_FALSE (ascii ''false'') (c # s)
      else if c = 110 then lex_word JSON_NULL (ascii ''null'') (c # s)
      else if c = 0 then Inr (None, c # s)
      else Inl RuntimeError)"

lemma js_readNumber_lex:
  "js_has j t \<Longrightarrow> \<exists>j'. js_readNumber dst j = Some (dst @ fst (lex_number t), j') \<and> js_has j' (snd (lex_number t))"
proof (induction t arbitrary: j dst)
  case Nil
  then have "js_cur j = 0" by (simp add: js_has_cur)
  with Nil show ?case by (subst js_readNumber.simps) (simp add: lex_number_def number_char_def is_digit_def)
next
  case (Cons c t)
  have c: "js_cur j = c" using js_has_cur [OF Cons.prems] by simp
  have n: "\<not> number_char 32" by (simp add: number_char_def is_digit_def)
  note ih = Cons.IH [OF js_has_advance_Cons [OF Cons.prems]]
  show ?case
  proof (cases "number_char c")
    case True
    with ih [of "dst @ [c]"] show ?thesis by (subst js_readNumber.simps) (simp add: c lex_number_def)
  next
    case False
    with ih [of dst] Cons.prems show ?thesis by (subst js_readNumber.simps) (auto simp: c n lex_number_def)
  qed
qed

lemma unescape_u: "unescape 117 = None"
  by (simp add: unescape_def)

lemma tl4: "drop 4 s = tl (tl (tl (tl s)))"
  by (simp add: drop_Suc numeral_eq_Suc)

text \<open>A call on the stream gives what the function of the text gives, and leaves what that leaves.\<close>

fun js_result :: "('v \<times> json_stream) res option \<Rightarrow> ('v \<times> bytes) res \<Rightarrow> bool" where
  "js_result r (Inl e) \<longleftrightarrow> r = Some (Inl e)"
| "js_result r (Inr (v, s)) \<longleftrightarrow> (\<exists>j'. r = Some (Inr (v, j')) \<and> js_has j' s)"

text \<open>The opening quote is the current character.\<close>

lemma js_readString_lex:
  assumes "js_has (js_advanceCursor j) t"
  shows "js_result (js_readString dst j) (lex_string dst t)"
  using assms
proof (induction dst t arbitrary: j rule: lex_string.induct)
  case (1 dst)
  then have "js_cur (js_advanceCursor j) = 0" by (simp add: js_has_cur)
  then show ?case by (subst js_readString.simps) simp
next
  case (2 dst c s)
  let ?j = "js_advanceCursor j"
  have c: "js_cur ?j = c" using js_has_cur [OF "2.prems"] by simp
  note adv = js_has_advance_Cons [OF "2.prems"]
  show ?case
  proof (cases "c = 92")
    case True
    show ?thesis
    proof (cases s)
      case Nil
      then have "js_cur (js_advanceCursor ?j) = 0" using js_has_cur [OF adv] by simp
      then show ?thesis using True c Nil by (subst js_readString.simps) (simp add: unescape_def)
    next
      case (Cons e s')
      then have e: "js_cur (js_advanceCursor ?j) = e" and adv2: "js_has (js_advanceCursor (js_advanceCursor ?j)) s'"
        using js_has_cur [OF adv] js_has_advance [OF adv] by simp_all
      show ?thesis
      proof (cases "unescape e")
        case (Some d)
        have "js_readString dst j = js_readString (dst @ [d]) (js_advanceCursor ?j)"
          by (subst js_readString.simps) (simp add: c e True Some)
        with "2.IH"(2) [OF True Cons Some adv2] show ?thesis by (simp add: True Cons Some)
      next
        case None
        show ?thesis
        proof (cases "e = 117")
          case u: True
          have a: "js_has (js_advanceCursor (js_advanceCursor (js_advanceCursor (js_advanceCursor (js_advanceCursor (js_advanceCursor ?j))))))
              (drop 4 s')"
            using adv2 by (simp add: tl4 js_has_advance)
          have "js_readString dst j = js_readString dst
              (js_advanceCursor (js_advanceCursor (js_advanceCursor (js_advanceCursor (js_advanceCursor ?j)))))"
            by (subst js_readString.simps) (simp add: c e True None [unfolded u] u Let_def)
          with "2.IH"(1) [OF True Cons None u a] show ?thesis
            by (simp add: True Cons u unescape_u)
        next
          case False
          then show ?thesis using True Cons None by (subst js_readString.simps) (simp add: c e)
        qed
      qed
    qed
  next
    case False
    show ?thesis
    proof (cases "c = 34 \<or> c = 0")
      case True
      then show ?thesis using False adv by (subst js_readString.simps) (auto simp: c)
    next
      case F: False
      have "js_readString dst j = js_readString (dst @ [c]) ?j"
        using False F by (subst js_readString.simps) (simp add: c)
      with "2.IH"(3) [OF False] F adv show ?thesis using False by simp
    qed
  qed
qed

lemma js_expect_lex:
  assumes "js_has j (c # s)" and "word \<noteq> []"
  shows "js_result (Some (js_expect type word j)) (lex_word type word (c # s))"
proof -
  obtain w ws where w: "word = w # ws" using assms(2) by (cases word) auto
  from assms(1) have ok: "is_ok (js_input j)" and c: "js_cur j = c" and r: "is_rest (js_input j) = s"
    by (auto simp: js_has_def)
  from input.readn_take [OF ok, of "length ws"] obtain i where
    i: "is_readNextBytes (length ws) (js_input j) = (take (length ws) s, i)" "is_ok i" "is_rest i = drop (length ws) s"
    by (auto simp: r)
  have "js_has (js_advanceCursor (j\<lparr>js_input := i\<rparr>)) (tl (c # is_rest i))"
    by (rule js_has_advance) (simp add: js_has_def i c)
  then show ?thesis by (auto simp: js_expect_def js_expectString_def w i c lex_word_def)
qed

lemma js_readNextToken_lex:
  "js_has j t \<Longrightarrow> js_result (js_readNextToken j) (lex_token t)"
proof (induction t arbitrary: j)
  case Nil
  then have "js_cur j = 0" by (simp add: js_has_cur)
  with Nil show ?case by (subst js_readNextToken.simps) (simp add: is_digit_def)
next
  case (Cons c s)
  have c: "js_cur j = c" using js_has_cur [OF Cons.prems] by simp
  note adv = js_has_advance_Cons [OF Cons.prems]
  consider (one) "c \<in> {123, 125, 91, 93}" | (blank) "json_blank c" | (num) "c = 45 \<or> is_digit c"
    | (str) "c = 34" | (word) "c \<in> {116, 102, 110}" | (other) "c \<notin> {123, 125, 91, 93, 45, 34, 116, 102, 110}"
      "\<not> json_blank c" "\<not> is_digit c" by auto
  then show ?case
  proof cases
    case one
    then obtain k where "lex_token (c # s) = Inr (Some (k, []), s)"
      and "js_readNextToken j = Some (Inr (Some (k, []), js_advanceCursor j))"
      using js_readNextToken.simps [of j, unfolded c Let_def] by auto
    with adv show ?thesis by simp
  next
    case blank
    then have "js_readNextToken j = js_readNextToken (js_advanceCursor j)"
      by (subst js_readNextToken.simps) (auto simp: c json_blank_def)
    with Cons.IH [OF adv] blank show ?thesis by (auto simp: json_blank_def)
  next
    case num
    then have n: "\<not> json_blank c" "c \<notin> {123, 125, 91, 93}" by (auto simp: json_blank_def is_digit_def)
    then have "js_readNextToken j = map_option (\<lambda>(d, j). Inr (Some (JSON_NUMBER, d), j)) (js_readNumber [] j)"
      using num by (subst js_readNextToken.simps) (auto simp: c json_blank_def)
    with js_readNumber_lex [OF Cons.prems, of "[]"] n num show ?thesis by (auto split: prod.splits)
  next
    case str
    then have "js_readNextToken j = map_option (map_sum id (\<lambda>(d, j). (Some (JSON_STRING, d), j))) (js_readString [] j)"
      by (subst js_readNextToken.simps) (simp add: c is_digit_def)
    with js_readString_lex [OF adv, of "[]"] str show ?thesis
      by (cases "lex_string [] s") (auto simp: json_blank_def is_digit_def)
  next
    case word
    have w: "ascii ''true'' \<noteq> []" "ascii ''false'' \<noteq> []" "ascii ''null'' \<noteq> []" by code_simp+
    from word show ?thesis
      using js_expect_lex [OF Cons.prems w(1), of JSON_TRUE] js_expect_lex [OF Cons.prems w(2), of JSON_FALSE]
        js_expect_lex [OF Cons.prems w(3), of JSON_NULL]
      by (subst js_readNextToken.simps) (auto simp: c json_blank_def is_digit_def)
  next
    case other
    then show ?thesis using Cons.prems by (subst js_readNextToken.simps) (auto simp: c json_blank_def)
  qed
qed

section \<open>Documents\<close>

lemma lex_string_shorter: "lex_string dst t = Inr (d, s) \<Longrightarrow> length s < length t"
proof (induction dst t arbitrary: d s rule: lex_string.induct)
  case (2 dst c s0)
  then show ?case by (fastforce split: if_splits list.splits option.splits)
qed simp

lemma lex_token_shorter: "lex_token t = Inr (Some k, s) \<Longrightarrow> length s < length t"
proof (induction t)
  case (Cons c t)
  have n: "length (dropWhile P xs) \<le> length xs" for P and xs :: bytes by (rule length_dropWhile_le)
  have d: "length (snd (lex_number (c # t))) < length (c # t)" if "c = 45 \<or> is_digit c"
    using that n [of "\<lambda>c. number_char c \<or> c = 32" t] by (auto simp: lex_number_def number_char_def le_imp_less_Suc)
  show ?case
  proof (cases "lex_token (c # t) = lex_token t")
    case True
    with Cons show ?thesis by auto
  next
    case False
    with Cons.prems d show ?thesis
      by (auto simp: lex_word_def dest: lex_string_shorter split: if_splits prod.splits sum.splits)
        (simp_all add: ascii_def less_Suc_eq_le)
  qed
qed simp

text \<open>\<open>parseJSON\<close> on a text, token by token.\<close>

function json_read :: "bytes \<Rightarrow> json_object \<times> nat list \<Rightarrow> json_object res" where
  "json_read t st =
     (case lex_token t of
        Inl e \<Rightarrow> Inl e
      | Inr (None, s) \<Rightarrow> if snd st \<noteq> [] then Inl RuntimeError else Inr (fst st)
      | Inr (Some k, s) \<Rightarrow> res_bind (json_add_token k st) (\<lambda>st. json_read s st))"
  by pat_completeness auto

termination by (relation "measure (\<lambda>(t, st). length t)") (auto dest: lex_token_shorter)

declare json_read.simps [simp del]

lemma parseJSON_loop_read: "js_has j t \<Longrightarrow> parseJSON_loop j (fst st) (snd st) = Some (json_read t st)"
proof (induction t st arbitrary: j rule: json_read.induct)
  case (1 t st)
  note tok = js_readNextToken_lex [OF "1.prems"]
  show ?case
  proof (cases "lex_token t")
    case (Inl e)
    with tok show ?thesis by (subst parseJSON_loop.simps) (simp add: json_read.simps [of t st])
  next
    case (Inr r)
    obtain k s where r: "r = (k, s)" by (cases r)
    with tok Inr obtain j' where j': "js_readNextToken j = Some (Inr (k, j'))" "js_has j' s" by auto
    show ?thesis
    proof (cases k)
      case None
      with j' Inr r show ?thesis by (subst parseJSON_loop.simps) (simp add: json_read.simps [of t st])
    next
      case (Some k')
      show ?thesis
      proof (cases "json_add_token k' st")
        case (Inl e)
        with j' Inr r Some show ?thesis
          by (subst parseJSON_loop.simps) (simp add: json_read.simps [of t st])
      next
        case add: (Inr st')
        have "parseJSON_loop j' (fst st') (snd st') = Some (json_read s st')"
          using "1.IH" [OF Inr [unfolded r Some] refl refl] add j'(2) by simp
        with j' Inr r Some add show ?thesis
          by (subst parseJSON_loop.simps) (cases st', simp add: json_read.simps [of t st])
      qed
    qed
  qed
qed

lemma parseJSON_read: "is_ok input \<Longrightarrow> parseJSON (JSONInputStream input) = Some (json_read (is_rest input) ([], []))"
proof -
  assume ok: "is_ok input"
  have "lex_token (32 # is_rest input) = lex_token (is_rest input)" by (simp add: json_blank_def)
  then have "json_read (32 # is_rest input) ([], []) = json_read (is_rest input) ([], [])"
    by (simp add: json_read.simps [of "32 # _"] json_read.simps [of "is_rest input"])
  with parseJSON_loop_read [OF js_has_start [OF ok], of "([], [])"] show ?thesis by (simp add: parseJSON_def)
qed

end
