(* ===== verification/CS_JsonTree.thy ===== *)
theory CS_JsonTree
  imports CS_JsonText CS_Uri
begin

text \<open>
  JSON documents as trees: their token list, the text \<open>JSONOutputStream\<close> writes for it, what is
  read of that text, and lookups in it.
\<close>

section \<open>Trees and their tokens\<close>

datatype json_value =
    JObj "(bytes \<times> json_value) list"
  | JArr "json_value list"
  | JStr bytes
  | JNum bytes
  | JTrue
  | JFalse
  | JNull

fun jtokens :: "json_value \<Rightarrow> (token_type \<times> bytes) list" where
  "jtokens (JObj kvs) =
     (JSON_OBJECT_BEGIN, []) # concat (map (\<lambda>(k, v). (JSON_STRING, k) # jtokens v) kvs) @ [(JSON_OBJECT_END, [])]"
| "jtokens (JArr vs) = (JSON_ARRAY_BEGIN, []) # concat (map jtokens vs) @ [(JSON_ARRAY_END, [])]"
| "jtokens (JStr s) = [(JSON_STRING, s)]"
| "jtokens (JNum s) = [(JSON_NUMBER, s)]"
| "jtokens JTrue = [(JSON_TRUE, [])]"
| "jtokens JFalse = [(JSON_FALSE, [])]"
| "jtokens JNull = [(JSON_NULL, [])]"

definition container :: "token_type \<Rightarrow> token_type \<Rightarrow> json_object \<Rightarrow> json_object" where
  "container b e body =
     \<lparr>jt_type = b, jt_data = [], jt_size = word_of_nat (length body + 2)\<rparr> # body @ [JSONToken e []]"

fun jflat :: "json_value \<Rightarrow> json_object" where
  "jflat (JObj kvs) =
     container JSON_OBJECT_BEGIN JSON_OBJECT_END (concat (map (\<lambda>(k, v). JSONToken JSON_STRING k # jflat v) kvs))"
| "jflat (JArr vs) = container JSON_ARRAY_BEGIN JSON_ARRAY_END (concat (map jflat vs))"
| "jflat (JStr s) = [JSONToken JSON_STRING s]"
| "jflat (JNum s) = [JSONToken JSON_NUMBER s]"
| "jflat JTrue = [JSONToken JSON_TRUE []]"
| "jflat JFalse = [JSONToken JSON_FALSE []]"
| "jflat JNull = [JSONToken JSON_NULL []]"

abbreviation jpairs :: "(bytes \<times> json_value) list \<Rightarrow> json_object" where
  "jpairs kvs \<equiv> concat (map (\<lambda>(k, v). JSONToken JSON_STRING k # jflat v) kvs)"

lemma res_fold_append_fun: "res_fold f (xs @ ys) = (\<lambda>s. res_bind (res_fold f xs s) (res_fold f ys))"
  by (rule ext) (rule res_fold_append)

lemma json_add_begin:
  "b \<in> {JSON_ARRAY_BEGIN, JSON_OBJECT_BEGIN} \<Longrightarrow>
   json_add_token (b, d) (obj, stack) = Inr (obj @ [JSONToken b []], length obj # stack)"
  by auto

lemma json_add_end:
  assumes "e \<in> {JSON_ARRAY_END, JSON_OBJECT_END}"
  shows "json_add_token (e, d) (obj @ JSONToken b [] # body, length obj # stack) = Inr (obj @ container b e body, stack)"
  using assms by (auto simp: container_def JSONToken_def Let_def list_update_append nth_append)

lemma add_jtokens: "res_fold json_add_token (jtokens v) (obj, stack) = Inr (obj @ jflat v, stack)"
proof (induction v arbitrary: obj stack)
  case (JObj kvs)
  have body: "res_fold json_add_token (concat (map (\<lambda>(k, v). (JSON_STRING, k) # jtokens v) kvs)) (obj, stack) =
      Inr (obj @ jpairs kvs, stack)" for obj stack
    using JObj
  proof (induction kvs arbitrary: obj)
    case (Cons kv kvs)
    obtain k v where kv: "kv = (k, v)" by (cases kv)
    have "res_fold json_add_token (jtokens v) (o', stack) = Inr (o' @ jflat v, stack)" for o'
      using Cons.prems [of kv v] kv by simp
    moreover have "res_fold json_add_token (concat (map (\<lambda>(k, v). (JSON_STRING, k) # jtokens v) kvs)) (o', stack) =
        Inr (o' @ jpairs kvs, stack)" for o'
      by (rule Cons.IH) (rule Cons.prems; simp)
    ultimately show ?case by (simp add: kv res_fold_append)
  qed simp
  show ?case using json_add_end [of JSON_OBJECT_END "[]" obj JSON_OBJECT_BEGIN "jpairs kvs" stack]
    by (simp add: res_fold_append_fun body json_add_begin del: json_add_token.simps)
next
  case (JArr vs)
  have body: "res_fold json_add_token (concat (map jtokens vs)) (obj, stack) = Inr (obj @ concat (map jflat vs), stack)" for obj stack
    using JArr
  proof (induction vs arbitrary: obj)
    case (Cons v vs)
    have "res_fold json_add_token (jtokens v) (o', stack) = Inr (o' @ jflat v, stack)" for o'
      using Cons.prems [of v] by simp
    moreover have "res_fold json_add_token (concat (map jtokens vs)) (o', stack) = Inr (o' @ concat (map jflat vs), stack)" for o'
      by (rule Cons.IH) (rule Cons.prems; simp)
    ultimately show ?case by (simp add: res_fold_append)
  qed simp
  show ?case using json_add_end [of JSON_ARRAY_END "[]" obj JSON_ARRAY_BEGIN "concat (map jflat vs)" stack]
    by (simp add: res_fold_append_fun body json_add_begin del: json_add_token.simps)
qed simp_all

section \<open>Texts that are read as given tokens\<close>

definition lexes :: "(token_type \<times> bytes) list \<Rightarrow> bytes \<Rightarrow> bool" where
  "lexes toks w \<longleftrightarrow> (\<forall>t. json_read (w @ t) = (\<lambda>st. res_bind (res_fold json_add_token toks st) (json_read t)))"

text \<open>The text of a number ends where a character follows that is neither of a number nor a blank.\<close>

definition number_end :: "bytes \<Rightarrow> bool" where
  "number_end t \<longleftrightarrow> t = [] \<or> \<not> number_char (hd t) \<and> hd t \<noteq> 32"

definition lexes_before_end :: "(token_type \<times> bytes) list \<Rightarrow> bytes \<Rightarrow> bool" where
  "lexes_before_end toks w \<longleftrightarrow>
     (\<forall>t. number_end t \<longrightarrow> json_read (w @ t) = (\<lambda>st. res_bind (res_fold json_add_token toks st) (json_read t)))"

lemma lexes_weaken: "lexes toks w \<Longrightarrow> lexes_before_end toks w"
  by (simp add: lexes_def lexes_before_end_def)

lemma lexes_Nil: "lexes [] []"
  by (simp add: lexes_def)

lemma lexes_append: "lexes a w \<Longrightarrow> lexes b v \<Longrightarrow> lexes (a @ b) (w @ v)"
  by (simp add: lexes_def res_fold_append_fun res_bind_assoc)

lemma lexes_append_before: "lexes a w \<Longrightarrow> lexes_before_end b v \<Longrightarrow> lexes_before_end (a @ b) (w @ v)"
  by (simp add: lexes_def lexes_before_end_def res_fold_append_fun res_bind_assoc)

lemma lexes_ended:
  "lexes_before_end a w \<Longrightarrow> lexes b v \<Longrightarrow> v \<noteq> [] \<Longrightarrow> number_end v \<Longrightarrow> lexes (a @ b) (w @ v)"
  by (simp add: lexes_def lexes_before_end_def res_fold_append_fun res_bind_assoc number_end_def)

lemma lexes_token:
  assumes "\<And>t. lex_token (w @ t) = Inr (Some k, t)"
  shows "lexes [k] w"
  unfolding lexes_def by (intro allI ext) (simp add: json_read.simps [of "w @ _"] assms res_fold_single del: res_fold.simps)

lemma lexes_blank: "json_blank c \<Longrightarrow> lexes [] [c]"
proof -
  assume c: "json_blank c"
  then have "lex_token (c # t) = lex_token t" for t by (auto simp: json_blank_def)
  then have "json_read (c # t) st = json_read t st" for t st
    by (simp add: json_read.simps [of "c # t"] json_read.simps [of t])
  then show ?thesis by (simp add: lexes_def fun_eq_iff)
qed

lemma lexes_marks:
  "lexes [(JSON_OBJECT_BEGIN, [])] [123]" "lexes [(JSON_OBJECT_END, [])] [125]"
  "lexes [(JSON_ARRAY_BEGIN, [])] [91]" "lexes [(JSON_ARRAY_END, [])] [93]"
  by (rule lexes_token, simp)+

lemma lexes_words:
  "lexes [(JSON_TRUE, [])] (ascii ''true'')" "lexes [(JSON_FALSE, [])] (ascii ''false'')"
  "lexes [(JSON_NULL, [])] (ascii ''null'')"
  by (rule lexes_token, simp add: ascii_def lex_word_def json_blank_def is_digit_def)+

text \<open>Escaping keeps a string but for the control characters JSON has no short escape for.\<close>

definition clean :: "bytes \<Rightarrow> bytes" where
  "clean s = filter (\<lambda>c. 32 \<le> c \<or> c \<in> {8, 9, 10, 12, 13}) s"

lemma lex_escape_char:
  "lex_string dst (escape_char c @ t) = lex_string (dst @ clean [c]) t"
proof -
  consider "c \<in> {8, 9, 10, 12, 13, 34, 92}" | "c < 32" "c \<notin> {8, 9, 10, 12, 13}" | "\<not> c < 32" "c \<notin> {34, 92}" by auto
  then show ?thesis
  proof cases
    case 1
    then show ?thesis by (auto simp: escape_char_def clean_def unescape_def)
  next
    case 2
    then show ?thesis by (auto simp: escape_char_def clean_def unescape_u)
  next
    case 3
    moreover from 3 have "c \<noteq> 0" "c \<notin> {8, 9, 10, 12, 13}" by auto
    ultimately show ?thesis by (auto simp: escape_char_def clean_def not_less)
  qed
qed

lemma lex_escapeString: "lex_string dst (escapeString s @ t) = lex_string (dst @ clean s) t"
proof (induction s arbitrary: dst)
  case (Cons c s)
  have "clean (c # s) = clean [c] @ clean s" by (simp add: clean_def)
  with Cons lex_escape_char [of dst c "escapeString s @ t"] show ?case by (simp add: escapeString_def)
qed (simp add: escapeString_def clean_def)

lemma lexes_string: "lexes [(JSON_STRING, clean s)] ([34] @ escapeString s @ [34])"
  by (rule lexes_token) (simp add: lex_escapeString json_blank_def is_digit_def)

lemma number_of_digits:
  assumes "\<forall>c \<in> set s. number_char c" and "s \<noteq> []" and "hd s = 45 \<or> is_digit (hd s)"
  shows "lexes_before_end [(JSON_NUMBER, s)] s"
  unfolding lexes_before_end_def
proof (intro allI impI ext)
  fix t st assume t: "number_end t"
  have n: "lex_number (s @ t) = (s, t)"
    using assms(1) takeWhile_stop [of s "\<lambda>c. number_char c \<or> c = 32" t] t
    by (auto simp: lex_number_def number_end_def dropWhile_append filter_id_conv takeWhile_all
        [of s "\<lambda>c. number_char c \<or> c = 32"] dropWhile_eq_Nil_conv dropWhile_eq_self_iff)
  obtain c r where s: "s = c # r" using assms(2) by (cases s) auto
  have "\<not> json_blank c" "c \<notin> {123, 125, 91, 93}" using assms(3) s by (auto simp: json_blank_def is_digit_def)
  then have "lex_token (s @ t) = Inr (Some (JSON_NUMBER, s), t)" using n assms(3) by (auto simp: s)
  then show "json_read (s @ t) st = res_bind (res_fold json_add_token [(JSON_NUMBER, s)] st) (json_read t)"
    by (simp add: json_read.simps [of "s @ t"] res_fold_single del: res_fold.simps)
qed

section \<open>The text of a tree\<close>

definition quoted :: "bytes \<Rightarrow> bytes" where
  "quoted s = [34] @ escapeString s @ [34]"

definition comma_list :: "bytes list \<Rightarrow> bytes" where
  "comma_list xs = (case xs of [] \<Rightarrow> [] | x # xs \<Rightarrow> x @ concat (map (\<lambda>y. 44 # y) xs))"

fun jtext :: "json_value \<Rightarrow> bytes" where
  "jtext (JObj kvs) = [123] @ comma_list (map (\<lambda>(k, v). quoted k @ [58] @ jtext v) kvs) @ [125]"
| "jtext (JArr vs) = [91] @ comma_list (map jtext vs) @ [93]"
| "jtext (JStr s) = quoted s"
| "jtext (JNum s) = quoted s"
| "jtext JTrue = ascii ''true''"
| "jtext JFalse = ascii ''false''"
| "jtext JNull = ascii ''null''"

definition sep_text :: "(token_type \<times> nat) list \<Rightarrow> bytes" where
  "sep_text st =
     (case st of
        [] \<Rightarrow> []
      | (t, n) # _ \<Rightarrow>
          if n > 0 then
            (if t = JSON_ARRAY_BEGIN then [44] else if t = JSON_OBJECT_BEGIN then (if even n then [44] else [58]) else [])
          else [])"

definition count_top :: "(token_type \<times> nat) list \<Rightarrow> (token_type \<times> nat) list" where
  "count_top st = (case st of [] \<Rightarrow> [] | (t, n) # st \<Rightarrow> (t, n + 1) # st)"

abbreviation emplaces :: "json_object \<Rightarrow> json_writer \<Rightarrow> json_writer res" where
  "emplaces \<equiv> res_fold (\<lambda>t w. jw_emplace_back (jt_type t) (jt_data t) w)"

lemma JSONToken_simps [simp]: "jt_type (JSONToken t d) = t" "jt_data (JSONToken t d) = d" "jt_size (JSONToken t d) = 1"
  by (simp_all add: JSONToken_def)

lemma jw_separator_text: "jw_separator \<lparr>jw_out = out, jw_stack = st\<rparr> = Inr \<lparr>jw_out = out @ sep_text st, jw_stack = st\<rparr>"
  by (cases st) (auto simp: jw_separator_def sep_text_def jw_addComma_def jw_addColon_def jw_printf_def jw_write_def
      os_write_def even_iff_mod_2_eq_zero)

lemma jw_count_top: "jw_count \<lparr>jw_out = out, jw_stack = st\<rparr> = \<lparr>jw_out = out, jw_stack = count_top st\<rparr>"
  by (simp add: jw_count_def count_top_def)

lemma emplace_scalar:
  "jw_emplace_back JSON_STRING d \<lparr>jw_out = out, jw_stack = st\<rparr> =
     Inr \<lparr>jw_out = out @ sep_text st @ quoted d, jw_stack = count_top st\<rparr>"
  "jw_emplace_back JSON_NUMBER d \<lparr>jw_out = out, jw_stack = st\<rparr> =
     Inr \<lparr>jw_out = out @ sep_text st @ quoted d, jw_stack = count_top st\<rparr>"
  "jw_emplace_back JSON_TRUE d \<lparr>jw_out = out, jw_stack = st\<rparr> =
     Inr \<lparr>jw_out = out @ sep_text st @ ascii ''true'', jw_stack = count_top st\<rparr>"
  "jw_emplace_back JSON_FALSE d \<lparr>jw_out = out, jw_stack = st\<rparr> =
     Inr \<lparr>jw_out = out @ sep_text st @ ascii ''false'', jw_stack = count_top st\<rparr>"
  "jw_emplace_back JSON_NULL d \<lparr>jw_out = out, jw_stack = st\<rparr> =
     Inr \<lparr>jw_out = out @ sep_text st @ ascii ''null'', jw_stack = count_top st\<rparr>"
  by (simp_all add: jw_emplace_back_def jw_separator_text jw_addString_def jw_addTrue_def jw_addFalse_def jw_addNull_def
      jw_write_def os_write_def quoted_def jw_count_top)

lemma emplace_begin:
  "jw_emplace_back JSON_ARRAY_BEGIN d \<lparr>jw_out = out, jw_stack = st\<rparr> =
     Inr \<lparr>jw_out = out @ sep_text st @ [91], jw_stack = (JSON_ARRAY_BEGIN, 0) # st\<rparr>"
  "jw_emplace_back JSON_OBJECT_BEGIN d \<lparr>jw_out = out, jw_stack = st\<rparr> =
     Inr \<lparr>jw_out = out @ sep_text st @ [123], jw_stack = (JSON_OBJECT_BEGIN, 0) # st\<rparr>"
  by (simp_all add: jw_emplace_back_def jw_separator_text jw_beginArray_def jw_beginObject_def jw_printf_def jw_write_def
      os_write_def jw_push_def)

lemma emplace_end:
  "jw_emplace_back JSON_ARRAY_END d \<lparr>jw_out = out, jw_stack = t # st\<rparr> = Inr \<lparr>jw_out = out @ [93], jw_stack = count_top st\<rparr>"
  "jw_emplace_back JSON_OBJECT_END d \<lparr>jw_out = out, jw_stack = t # st\<rparr> = Inr \<lparr>jw_out = out @ [125], jw_stack = count_top st\<rparr>"
  by (simp_all add: jw_emplace_back_def jw_endArray_def jw_endObject_def jw_printf_def jw_write_def os_write_def jw_pop_def
      jw_count_top)

lemma emplaces_container:
  assumes body: "\<And>out. emplaces body \<lparr>jw_out = out, jw_stack = (b, 0) # st\<rparr> = Inr \<lparr>jw_out = out @ text, jw_stack = t # st\<rparr>"
    and kind: "b = JSON_ARRAY_BEGIN \<and> e = JSON_ARRAY_END \<or> b = JSON_OBJECT_BEGIN \<and> e = JSON_OBJECT_END"
  shows "emplaces (container b e body) \<lparr>jw_out = out, jw_stack = st\<rparr> =
    Inr \<lparr>jw_out = out @ sep_text st @ (if b = JSON_ARRAY_BEGIN then [91] @ text @ [93] else [123] @ text @ [125]),
      jw_stack = count_top st\<rparr>"
  using kind body by (auto simp: container_def res_fold_append_fun emplace_begin emplace_end JSONToken_def)

lemma concat_commas: "n > 0 \<Longrightarrow> sep_text ((JSON_ARRAY_BEGIN, n) # st) = [44]"
  by (simp add: sep_text_def)

lemma emplaces_array:
  assumes "\<And>v out st. v \<in> set vs \<Longrightarrow> emplaces (jflat v) \<lparr>jw_out = out, jw_stack = st\<rparr> =
    Inr \<lparr>jw_out = out @ sep_text st @ jtext v, jw_stack = count_top st\<rparr>"
  shows "emplaces (concat (map jflat vs)) \<lparr>jw_out = out, jw_stack = (JSON_ARRAY_BEGIN, n) # st\<rparr> =
    Inr \<lparr>jw_out = out @ (if n = 0 then comma_list (map jtext vs) else concat (map (\<lambda>v. 44 # jtext v) vs)),
      jw_stack = (JSON_ARRAY_BEGIN, n + length vs) # st\<rparr>"
  using assms
proof (induction vs arbitrary: out n)
  case (Cons v vs)
  have "emplaces (concat (map jflat vs)) \<lparr>jw_out = o', jw_stack = (JSON_ARRAY_BEGIN, Suc n) # st\<rparr> =
    Inr \<lparr>jw_out = o' @ concat (map (\<lambda>v. 44 # jtext v) vs), jw_stack = (JSON_ARRAY_BEGIN, Suc n + length vs) # st\<rparr>" for o'
    using Cons.IH [of o' "Suc n"] Cons.prems by simp
  then show ?case
    by (simp add: res_fold_append_fun Cons.prems count_top_def sep_text_def comma_list_def comp_def)
qed (simp add: comma_list_def)

lemma emplaces_object:
  assumes "\<And>k v out st. (k, v) \<in> set kvs \<Longrightarrow> emplaces (jflat v) \<lparr>jw_out = out, jw_stack = st\<rparr> =
    Inr \<lparr>jw_out = out @ sep_text st @ jtext v, jw_stack = count_top st\<rparr>" and "even n"
  shows "emplaces (jpairs kvs) \<lparr>jw_out = out, jw_stack = (JSON_OBJECT_BEGIN, n) # st\<rparr> =
    Inr \<lparr>jw_out = out @ (if n = 0 then comma_list (map (\<lambda>(k, v). quoted k @ [58] @ jtext v) kvs)
        else concat (map (\<lambda>(k, v). 44 # quoted k @ [58] @ jtext v) kvs)),
      jw_stack = (JSON_OBJECT_BEGIN, n + 2 * length kvs) # st\<rparr>"
  using assms
proof (induction kvs arbitrary: out n)
  case (Cons kv kvs)
  obtain k v where kv: "kv = (k, v)" by (cases kv)
  have h: "emplaces (jflat v) \<lparr>jw_out = out, jw_stack = st\<rparr> =
    Inr \<lparr>jw_out = out @ sep_text st @ jtext v, jw_stack = count_top st\<rparr>" if "(k, v) \<in> set kvs" for k v out st
    using Cons.prems(1) [of k v] that by simp
  have "emplaces (jpairs kvs) \<lparr>jw_out = o', jw_stack = (JSON_OBJECT_BEGIN, Suc (Suc n)) # st\<rparr> =
    Inr \<lparr>jw_out = o' @ concat (map (\<lambda>(k, v). 44 # quoted k @ [58] @ jtext v) kvs),
      jw_stack = (JSON_OBJECT_BEGIN, Suc (Suc n) + 2 * length kvs) # st\<rparr>" for o'
    using Cons.IH [of "Suc (Suc n)" o', OF h] Cons.prems(2) by simp
  moreover have "emplaces (jflat v) \<lparr>jw_out = out, jw_stack = st\<rparr> =
    Inr \<lparr>jw_out = out @ sep_text st @ jtext v, jw_stack = count_top st\<rparr>" for out st
    using Cons.prems(1) [of k v] kv by simp
  ultimately show ?case using Cons.prems(2)
    by (simp add: kv res_fold_append_fun emplace_scalar count_top_def sep_text_def comma_list_def comp_def
        case_prod_unfold)
qed (simp add: comma_list_def)

lemma emplaces_tree:
  "emplaces (jflat v) \<lparr>jw_out = out, jw_stack = st\<rparr> =
    Inr \<lparr>jw_out = out @ sep_text st @ jtext v, jw_stack = count_top st\<rparr>"
proof (induction v arbitrary: out st)
  case (JObj kvs)
  have h: "emplaces (jflat v) \<lparr>jw_out = out, jw_stack = st\<rparr> =
    Inr \<lparr>jw_out = out @ sep_text st @ jtext v, jw_stack = count_top st\<rparr>" if "(k, v) \<in> set kvs" for k v out st
    using JObj [OF that, of v] by simp
  have "emplaces (jpairs kvs) \<lparr>jw_out = o', jw_stack = (JSON_OBJECT_BEGIN, 0) # st\<rparr> =
      Inr \<lparr>jw_out = o' @ comma_list (map (\<lambda>(k, v). quoted k @ [58] @ jtext v) kvs),
        jw_stack = (JSON_OBJECT_BEGIN, 2 * length kvs) # st\<rparr>" for o'
    using emplaces_object [of kvs 0 o' st, OF h] by simp
  from emplaces_container [OF this, of JSON_OBJECT_END out] show ?case by simp
next
  case (JArr vs)
  have "emplaces (concat (map jflat vs)) \<lparr>jw_out = o', jw_stack = (JSON_ARRAY_BEGIN, 0) # st\<rparr> =
      Inr \<lparr>jw_out = o' @ comma_list (map jtext vs), jw_stack = (JSON_ARRAY_BEGIN, length vs) # st\<rparr>" for o'
    using emplaces_array [of vs o' 0 st, OF JArr] by simp
  from emplaces_container [OF this, of JSON_ARRAY_END out] show ?case by simp
qed (simp_all add: JSONToken_def emplace_scalar)

section \<open>Reading the text of a tree\<close>

text \<open>A number that was written is a string, and strings lose the control characters of \<open>clean\<close>.\<close>

fun reread :: "json_value \<Rightarrow> json_value" where
  "reread (JObj kvs) = JObj (map (\<lambda>(k, v). (clean k, reread v)) kvs)"
| "reread (JArr vs) = JArr (map reread vs)"
| "reread (JStr s) = JStr (clean s)"
| "reread (JNum s) = JStr (clean s)"
| "reread v = v"

lemma lexes_quoted: "lexes [(JSON_STRING, clean s)] (quoted s)"
  using lexes_string by (simp add: quoted_def)

lemma lexes_commas:
  assumes "\<And>x. x \<in> set xs \<Longrightarrow> lexes (f x) (g x)"
  shows "lexes (concat (map f xs)) (concat (map (\<lambda>x. 44 # g x) xs))"
  using assms
proof (induction xs)
  case (Cons x xs)
  have "lexes ([] @ f x) ([44] @ g x)" by (rule lexes_append [OF lexes_blank]) (simp_all add: json_blank_def Cons.prems)
  from lexes_append [OF this Cons.IH] Cons.prems show ?case by simp
qed (simp add: lexes_Nil)

lemma lexes_comma_list:
  assumes "\<And>x. x \<in> set xs \<Longrightarrow> lexes (f x) (g x)"
  shows "lexes (concat (map f xs)) (comma_list (map g xs))"
proof (cases xs)
  case (Cons x ys)
  have "lexes (concat (map f ys)) (concat (map (\<lambda>x. 44 # g x) ys))" by (rule lexes_commas) (simp add: assms Cons)
  from lexes_append [OF assms this] Cons show ?thesis by (simp add: comma_list_def comp_def)
qed (simp add: lexes_Nil comma_list_def)

lemma lexes_tree: "lexes (jtokens (reread v)) (jtext v)"
proof (induction v)
  case (JObj kvs)
  have "lexes ((JSON_STRING, clean k) # jtokens (reread v)) (quoted k @ [58] @ jtext v)" if "(k, v) \<in> set kvs" for k v
  proof -
    have "lexes ([(JSON_STRING, clean k)] @ [] @ jtokens (reread v)) (quoted k @ [58] @ jtext v)"
      using JObj [OF that, of v] by (intro lexes_append lexes_quoted lexes_blank) (simp_all add: json_blank_def)
    then show ?thesis by simp
  qed
  then have "lexes (concat (map (\<lambda>(k, v). (JSON_STRING, clean k) # jtokens (reread v)) kvs))
      (comma_list (map (\<lambda>(k, v). quoted k @ [58] @ jtext v) kvs))"
    by (intro lexes_comma_list) auto
  from lexes_append [OF lexes_marks(1) lexes_append [OF this lexes_marks(2)]] show ?case
    by (simp add: comp_def case_prod_unfold)
next
  case (JArr vs)
  then have "lexes (concat (map (\<lambda>v. jtokens (reread v)) vs)) (comma_list (map jtext vs))" by (intro lexes_comma_list)
  from lexes_append [OF lexes_marks(3) lexes_append [OF this lexes_marks(4)]] show ?case by (simp add: comp_def)
qed (simp_all add: lexes_quoted lexes_words)

lemma lexes_parsed: "lexes (jtokens v) w \<Longrightarrow> json_read w ([], []) = Inr (jflat v)"
proof -
  assume "lexes (jtokens v) w"
  then have "json_read (w @ []) ([], []) = json_read [] (jflat v, [])" unfolding lexes_def by (simp only: add_jtokens) simp
  then show ?thesis by (simp add: json_read.simps [of "[]"])
qed

lemma tree_written: "JSONOutputStream_write (jflat v) (JSONOutputStream out) = Inr \<lparr>jw_out = out @ jtext v, jw_stack = []\<rparr>"
  by (simp add: JSONOutputStream_write_def JSONOutputStream_def emplaces_tree sep_text_def count_top_def)

lemma tree_read: "is_ok input \<Longrightarrow> is_rest input = jtext v \<Longrightarrow> parseJSON (JSONInputStream input) = Some (Inr (jflat (reread v)))"
  by (simp add: parseJSON_read lexes_parsed [OF lexes_tree])

end
