(* ===== verification/CS_JsonLookup.thy ===== *)
theory CS_JsonLookup
  imports CS_JsonTree
begin

text \<open>
  Lookups in a token list that holds a tree: \<open>objectLookup\<close> finds the first value of a key,
  \<open>arrayLength\<close> and \<open>arrayLookup\<close> the elements of an array.
\<close>

definition jat :: "json_object \<Rightarrow> nat \<Rightarrow> json_value \<Rightarrow> bool" where
  "jat toks p v \<longleftrightarrow> (\<exists>rest. drop p toks = jflat v @ rest)"

text \<open>The size of a token fits its 32 bits.\<close>

definition jsmall :: "json_value \<Rightarrow> bool" where
  "jsmall v \<longleftrightarrow> length (jflat v) < 2 ^ 32"

lemma jat_start: "jat (jflat v) 0 v"
  by (simp add: jat_def)

lemma drop_Cons_iff: "drop p xs = x # ys \<longleftrightarrow> p < length xs \<and> xs ! p = x \<and> drop (Suc p) xs = ys"
proof (cases "p < length xs")
  case True
  then show ?thesis by (auto simp: Cons_nth_drop_Suc [symmetric])
qed simp

lemma drop_append_iff: "drop p xs = ys @ zs \<Longrightarrow> drop (p + length ys) xs = zs"
  by (metis append_eq_conv_conj drop_drop add.commute)

lemma container_head [simp]: "hd (container b e body) = \<lparr>jt_type = b, jt_data = [], jt_size = word_of_nat (length body + 2)\<rparr>"
  by (simp add: container_def)

lemma length_container [simp]: "length (container b e body) = length body + 2"
  by (simp add: container_def)

lemma jflat_size: "jsmall v \<Longrightarrow> unat (jt_size (hd (jflat v))) = length (jflat v)"
proof -
  assume small: "jsmall v"
  have w: "n < 2 ^ 32 \<Longrightarrow> unat (word_of_nat n :: u32) = n" for n by (simp add: unat_of_nat take_bit_nat_eq_self)
  show ?thesis using small by (cases v) (simp_all add: jsmall_def w del: of_nat_add of_nat_numeral of_nat_Suc)
qed

lemma jflat_Cons: "\<exists>t r. jflat v = t # r"
  by (cases v) (simp_all add: container_def)

lemma jat_head:
  assumes "jat toks p v"
  shows "p < length toks" and "jt_type (toks ! p) = jt_type (hd (jflat v))" and "jt_data (toks ! p) = jt_data (hd (jflat v))"
    and "jsmall v \<Longrightarrow> unat (jt_size (toks ! p)) = length (jflat v)" and "tok_at toks p = Inr (toks ! p)"
    and "p + length (jflat v) \<le> length toks"
proof -
  from assms obtain rest where rest: "drop p toks = jflat v @ rest" by (auto simp: jat_def)
  from jflat_Cons [of v] jflat_size [of v] obtain t r where
    t: "jflat v = t # r" "jsmall v \<longrightarrow> unat (jt_size t) = length (jflat v)" by auto
  from rest t(1) have p: "p < length toks" "toks ! p = t" by (simp_all add: drop_Cons_iff)
  from arg_cong [OF rest, of length] p(1) show "p + length (jflat v) \<le> length toks" by simp
  show "p < length toks" "jt_type (toks ! p) = jt_type (hd (jflat v))" "jt_data (toks ! p) = jt_data (hd (jflat v))"
    "jsmall v \<Longrightarrow> unat (jt_size (toks ! p)) = length (jflat v)" "tok_at toks p = Inr (toks ! p)"
    using p t by (simp_all add: tok_at_def)
qed

lemma jsmall_part: "length (jflat u) \<le> length (jflat v) \<Longrightarrow> jsmall v \<Longrightarrow> jsmall u"
  by (simp add: jsmall_def)

lemma jpairs_part: "(k, v) \<in> set kvs \<Longrightarrow> length (jflat v) < length (jpairs kvs)"
  by (induction kvs) auto

lemma objectLookup_loop_pairs:
  assumes "drop b toks = jpairs kvs @ JSONToken JSON_OBJECT_END [] # rest" and "oend = b + length (jpairs kvs) + 1"
    and "oend \<le> e" and "\<forall>(k, v) \<in> set kvs. jsmall v"
  shows "case map_of kvs key of
    None \<Rightarrow> objectLookup_loop toks oend e key b = Inr e
  | Some v \<Rightarrow> \<exists>p. objectLookup_loop toks oend e key b = Inr p \<and> jat toks p v \<and> b < p \<and> p + length (jflat v) < oend"
  using assms
proof (induction kvs arbitrary: b)
  case Nil
  then have "b < length toks" "toks ! b = JSONToken JSON_OBJECT_END []" by (simp_all add: drop_Cons_iff)
  with Nil show ?case by (simp add: objectLookup_loop.simps [of _ _ _ _ b] tok_at_def)
next
  case (Cons kv kvs)
  obtain k v where kv: "kv = (k, v)" by (cases kv)
  have d: "drop b toks = JSONToken JSON_STRING k # jflat v @ jpairs kvs @ JSONToken JSON_OBJECT_END [] # rest"
    using Cons.prems(1) by (simp add: kv)
  then have b: "tok_at toks b = Inr (JSONToken JSON_STRING k)"
    and s: "drop (Suc b) toks = jflat v @ jpairs kvs @ JSONToken JSON_OBJECT_END [] # rest"
    by (simp_all add: drop_Cons_iff tok_at_def)
  from s have v: "jat toks (Suc b) v" by (auto simp: jat_def)
  have small: "jsmall v" using Cons.prems(4) by (simp add: kv)
  note h = jat_head(4) [OF v small] jat_head(5) [OF v]
  have oend: "oend = Suc (b + length (jflat v) + length (jpairs kvs) + 1)" using Cons.prems(2) by (simp add: kv)
  show ?case
  proof (cases "k = key")
    case True
    then have "objectLookup_loop toks oend e key b = Inr (Suc b)"
      using oend Cons.prems(3) by (simp add: objectLookup_loop.simps [of _ _ _ _ b] b)
    with True v oend show ?thesis by (simp add: kv)
  next
    case False
    then have step: "objectLookup_loop toks oend e key b = objectLookup_loop toks oend e key (Suc b + length (jflat v))"
      using oend Cons.prems(3) h by (simp add: objectLookup_loop.simps [of _ _ _ _ b] b)
    have "case map_of kvs key of
      None \<Rightarrow> objectLookup_loop toks oend e key (Suc b + length (jflat v)) = Inr e
    | Some u \<Rightarrow> \<exists>p. objectLookup_loop toks oend e key (Suc b + length (jflat v)) = Inr p \<and> jat toks p u \<and>
        Suc b + length (jflat v) < p \<and> p + length (jflat u) < oend"
      by (rule Cons.IH) (use drop_append_iff [OF s] oend Cons.prems(3,4) in auto)
    with False show ?thesis unfolding step by (fastforce simp: kv split: option.splits)
  qed
qed

lemma objectLookup_tree:
  assumes v: "jat toks b (JObj kvs)" and e: "b + length (jflat (JObj kvs)) \<le> e" and small: "jsmall (JObj kvs)"
  shows "case map_of kvs key of
    None \<Rightarrow> objectLookup toks b e key = Inr e
  | Some v \<Rightarrow> \<exists>p. objectLookup toks b e key = Inr p \<and> jat toks p v \<and> jsmall v \<and> b < p \<and> p + length (jflat v) < e"
proof -
  obtain rest where rest: "drop b toks = jflat (JObj kvs) @ rest" using v by (auto simp: jat_def)
  then have d: "drop (Suc b) toks = jpairs kvs @ JSONToken JSON_OBJECT_END [] # rest"
    by (simp add: container_def drop_Cons_iff)
  have te: "tok_end toks b = Suc b + length (jpairs kvs) + 1"
    using jat_head(4) [OF v small] by (simp add: tok_end_def)
  have ty: "jt_type (toks ! b) = JSON_OBJECT_BEGIN" using jat_head(2) [OF v] by (simp add: container_def)
  have parts: "\<forall>(k, v) \<in> set kvs. jsmall v" using small jpairs_part by (fastforce simp: jsmall_def)
  have "objectLookup toks b e key = objectLookup_loop toks (tok_end toks b) e key (Suc b)"
    using e te ty jat_head(5) [OF v] by (simp add: objectLookup_def)
  moreover have "tok_end toks b \<le> e" using e te by simp
  moreover note objectLookup_loop_pairs [OF d te this parts, of key]
  ultimately show ?thesis using parts by (fastforce split: option.splits dest: map_of_SomeD)
qed

lemma arrayLookup_loop_elements:
  assumes "drop b toks = concat (map jflat vs) @ rest" and "aend = b + length (concat (map jflat vs))"
    and "\<forall>v \<in> set vs. jsmall v"
  shows "arrayLength_loop toks aend b = Inr (length vs)" (is ?len)
    and "i < length vs \<Longrightarrow> \<exists>p. arrayLookup_loop toks aend b i = Inr p \<and> jat toks p (vs ! i) \<and> b \<le> p \<and> p + length (jflat (vs ! i)) \<le> aend"
    and "length vs \<le> i \<Longrightarrow> arrayLookup_loop toks aend b i = Inl IndexError"
  using assms
proof (induction vs arbitrary: b i)
  case Nil
  { case 1 then show ?case by (simp add: arrayLength_loop.simps [of _ _ b]) }
  { case 2 then show ?case by simp }
  { case 3 then show ?case by (cases i) simp_all }
next
  case (Cons v vs)
  have d: "jat toks b v" "drop (b + length (jflat v)) toks = concat (map jflat vs) @ rest"
    if "drop b toks = concat (map jflat (v # vs)) @ rest" for b
    using that drop_append_iff [of b toks "jflat v" "concat (map jflat vs) @ rest"] by (auto simp: jat_def)
  have l: "length (jflat v) > 0" using jflat_Cons [of v] by auto
  { case 1
    note v = d(1) [OF 1(1)] and small = 1(3)
    have "unat (jt_size (toks ! b)) = length (jflat v)" using jat_head(4) [OF v] small by simp
    moreover from this l have "jt_size (toks ! b) \<noteq> 0" by auto
    moreover have "arrayLength_loop toks aend (b + length (jflat v)) = Inr (length vs)"
      by (rule Cons.IH(1) [OF d(2) [OF 1(1)]]) (use 1 in auto)
    ultimately show ?case using 1(2) l jat_head(5) [OF v] by (simp add: arrayLength_loop.simps [of _ _ b]) }
  { case 2
    note v = d(1) [OF 2(2)]
    have s: "unat (jt_size (toks ! b)) = length (jflat v)" using jat_head(4) [OF v] 2(4) by simp
    show ?case
    proof (cases i)
      case 0
      then show ?thesis using v l 2(3) by simp
    next
      case (Suc j)
      have "\<exists>p. arrayLookup_loop toks aend (b + length (jflat v)) j = Inr p \<and> jat toks p (vs ! j) \<and>
          b + length (jflat v) \<le> p \<and> p + length (jflat (vs ! j)) \<le> aend"
        by (rule Cons.IH(2) [OF _ d(2) [OF 2(2)]]) (use 2 Suc in auto)
      then show ?thesis using Suc s l 2(3) jat_head(5) [OF v] by auto
    qed }
  { case 3
    note v = d(1) [OF 3(2)]
    have s: "unat (jt_size (toks ! b)) = length (jflat v)" using jat_head(4) [OF v] 3(4) by simp
    obtain j where j: "i = Suc j" using 3(1) by (cases i) auto
    have "arrayLookup_loop toks aend (b + length (jflat v)) j = Inl IndexError"
      by (rule Cons.IH(3) [OF _ d(2) [OF 3(2)]]) (use 3 j in auto)
    then show ?case using j s l 3(3) jat_head(5) [OF v] by simp }
qed

lemma array_tree:
  assumes v: "jat toks b (JArr vs)" and e: "b + length (jflat (JArr vs)) \<le> e" and small: "jsmall (JArr vs)"
  shows "arrayLength toks b e = Inr (length vs)"
    and "i < length vs \<Longrightarrow> \<exists>p. arrayLookup toks b e i = Inr p \<and> jat toks p (vs ! i) \<and> jsmall (vs ! i) \<and> b < p \<and>
      p + length (jflat (vs ! i)) < e"
    and "length vs \<le> i \<Longrightarrow> arrayLookup toks b e i = Inl IndexError"
proof -
  obtain rest where rest: "drop b toks = jflat (JArr vs) @ rest" using v by (auto simp: jat_def)
  then have d: "drop (Suc b) toks = concat (map jflat vs) @ JSONToken JSON_ARRAY_END [] # rest"
    by (simp add: container_def drop_Cons_iff)
  have te: "tok_end toks b = Suc (Suc b + length (concat (map jflat vs)))"
    using jat_head(4) [OF v small] by (simp add: tok_end_def)
  have ty: "jt_type (toks ! b) = JSON_ARRAY_BEGIN" using jat_head(2) [OF v] by (simp add: container_def)
  have "length (jflat u) \<le> length (concat (map jflat vs))" if "u \<in> set vs" for u
    using that by (induction vs) auto
  then have parts: "\<forall>v \<in> set vs. jsmall v" using small by (fastforce simp: jsmall_def)
  let ?aend = "Suc b + length (concat (map jflat vs))"
  note loop = arrayLookup_loop_elements [OF d refl parts]
  have "arrayLength toks b e = arrayLength_loop toks ?aend (Suc b)"
    and look: "arrayLookup toks b e i = arrayLookup_loop toks ?aend (Suc b) i" for i
    using e te ty jat_head(5) [OF v] by (simp_all add: arrayLength_def arrayLookup_def)
  with loop(1) show "arrayLength toks b e = Inr (length vs)" by simp
  show "length vs \<le> i \<Longrightarrow> arrayLookup toks b e i = Inl IndexError" using loop(3) look by simp
  show "i < length vs \<Longrightarrow> \<exists>p. arrayLookup toks b e i = Inr p \<and> jat toks p (vs ! i) \<and> jsmall (vs ! i) \<and> b < p \<and>
      p + length (jflat (vs ! i)) < e"
    using loop(2) [of i] look parts e by fastforce
qed

section \<open>Typed lookups\<close>

text \<open>What a getter does depends on the value the key has in the tree.\<close>

lemma getter_tree:
  assumes "jat toks b (JObj kvs)" and "b + length (jflat (JObj kvs)) \<le> e" and "jsmall (JObj kvs)"
  shows "res_bind (objectLookup toks b e key) (\<lambda>p. if p = e then Inr None else res_bind (tok_at toks p) h) =
    (case map_of kvs key of None \<Rightarrow> Inr None | Some v \<Rightarrow>
h (hd (jflat v)))"
proof (cases "map_of kvs key")
  case None
  with objectLookup_tree [OF assms, of key] show ?thesis by simp
next
  case (Some v)
  with objectLookup_tree [OF assms, of key] obtain p where
    p: "objectLookup toks b e key = Inr p" "jat toks p v" "p \<noteq> e" by auto
  from p(2) obtain rest where "drop p toks = jflat v @ rest" by (auto simp: jat_def)
  with jflat_Cons [of v] have "tok_at toks p = Inr (hd (jflat v))" by (auto simp: tok_at_def drop_Cons_iff)
  with p Some show ?thesis by simp
qed

lemma objectGetString_tree:
  assumes "jat toks b (JObj kvs)" and "b + length (jflat (JObj kvs)) \<le> e" and "jsmall (JObj kvs)"
  shows "objectGetString toks b e key = Inr (case map_of kvs key of Some (JStr s) \<Rightarrow> Some s | _ \<Rightarrow> None)"
  unfolding objectGetString_def getter_tree [OF assms] by (auto split: option.splits json_value.splits)

lemma objectGetUInt64_tree:
  assumes "jat toks b (JObj kvs)" and "b + length (jflat (JObj kvs)) \<le> e" and "jsmall (JObj kvs)"
  shows "objectGetUInt64 toks b e key =
    (case map_of kvs key of
       Some (JNum s) \<Rightarrow> res_bind (stoull s) (\<lambda>n. Inr (Some n))
     | Some (JStr s) \<Rightarrow> res_bind (stoull s) (\<lambda>n. Inr (Some n))
     | _ \<Rightarrow> Inr None)"
  unfolding objectGetUInt64_def getter_tree [OF assms] by (auto split: option.splits json_value.splits)

lemma objectGetBool_tree:
  assumes "jat toks b (JObj kvs)" and "b + length (jflat (JObj kvs)) \<le> e" and "jsmall (JObj kvs)"
    and "map_of kvs key = Some (if x then JTrue else JFalse)"
  shows "objectGetBool toks b e key = Inr (Some x)"
  unfolding objectGetBool_def getter_tree [OF assms(1-3)] assms(4) by simp

end
