(* ===== verification/CS_JsonSchema.thy ===== *)
theory CS_JsonSchema
  imports CS_JsonLookup CS_Message
begin

text \<open>
  The JSON form of message schemas (\<open>MessageSchema::toJSON\<close>, \<open>fromJSON\<close>): a schema that was written
  as JSON is read back, without the encoding hints of its fields, which \<open>toJSON\<close> always writes as
  \<open>NONE\<close> and \<open>fromJSON\<close> does not read.
\<close>

section \<open>Writing\<close>

definition fieldTypeToString :: "FieldType \<Rightarrow> bytes res" where
  "fieldTypeToString type =
     (case type of
        F_OBJECT \<Rightarrow> Inr (ascii ''OBJECT'')
      | F_STRING \<Rightarrow> Inr (ascii ''STRING'')
      | F_BOOLEAN \<Rightarrow> Inr (ascii ''BOOLEAN'')
      | F_UINT32 \<Rightarrow> Inr (ascii ''UINT32'')
      | F_UINT64 \<Rightarrow> Inr (ascii ''UINT64'')
      | F_DOUBLE \<Rightarrow> Inr (ascii ''DOUBLE'')
      | F_DATETIME \<Rightarrow> Inr (ascii ''DATETIME'')
      | F_Other _ \<Rightarrow> Inl Undefined)"

definition fieldTypeFromString :: "bytes \<Rightarrow> FieldType res" where
  "fieldTypeFromString str0 =
     (let str = toUpper str0
      in if str = ascii ''OBJECT'' then Inr F_OBJECT
         else if str = ascii ''STRING'' then Inr F_STRING
         else if str = ascii ''BOOLEAN'' then Inr F_BOOLEAN
         else if str = ascii ''UINT32'' then Inr F_UINT32
         else if str = ascii ''UINT64'' then Inr F_UINT64
         else if str = ascii ''DOUBLE'' then Inr F_DOUBLE
         else if str = ascii ''DATETIME'' then Inr F_DATETIME
         else Inl TypeError)"

definition jw_seq :: "(json_writer \<Rightarrow> json_writer res) list \<Rightarrow> json_writer \<Rightarrow> json_writer res" where
  "jw_seq fs = res_fold (\<lambda>f. f) fs"

text \<open>The elements of an array, commas between them.\<close>

definition jw_element ::
  "('a \<Rightarrow> json_writer \<Rightarrow> json_writer res) \<Rightarrow> 'a \<Rightarrow> bool \<times> json_writer \<Rightarrow> (bool \<times> json_writer) res" where
  "jw_element f x s =
     res_bind (if fst s then jw_addComma (snd s) else Inr (snd s)) (\<lambda>w. res_bind (f x w) (\<lambda>w. Inr (True, w)))"

definition jw_elements :: "('a \<Rightarrow> json_writer \<Rightarrow> json_writer res) \<Rightarrow> 'a list \<Rightarrow> json_writer \<Rightarrow> json_writer res" where
  "jw_elements f xs w = res_bind (res_fold (jw_element f) xs (False, w)) (\<lambda>s. Inr (snd s))"

lemma jw_elements_cong [fundef_cong]:
  assumes "xs = ys" and "w = v" and "\<And>x w. x \<in> set ys \<Longrightarrow> f x w = g x w"
  shows "jw_elements f xs w = jw_elements g ys v"
proof -
  have "res_fold (jw_element f) ys s = res_fold (jw_element g) ys s" for s
    by (rule res_fold_cong) (simp_all add: jw_element_def assms(3))
  with assms(1,2) show ?thesis by (simp add: jw_elements_def)
qed

fun MessageSchema_toJSON :: "message_schema \<Rightarrow> json_writer \<Rightarrow> json_writer res"
  and field_toJSON :: "schema_field \<Rightarrow> json_writer \<Rightarrow> json_writer res" where
  "MessageSchema_toJSON (Schema name flds _ _ _) w =
     res_bind (jw_seq [jw_beginObject, jw_addObjectEntry (ascii ''name''), jw_addString name, jw_addComma,
         jw_addObjectEntry (ascii ''columns''), jw_beginArray] w) (\<lambda>w.
     res_bind (jw_elements field_toJSON flds w) (\<lambda>w.
       jw_seq [jw_endArray, jw_endObject] w))"
| "field_toJSON (MessageSchemaField i name type n rep opt enc schema) w =
     res_bind (jw_seq
       [jw_beginObject,
        jw_addObjectEntry (ascii ''id''), jw_addInteger (ucast i), jw_addComma,
        jw_addObjectEntry (ascii ''name''), jw_addString name, jw_addComma,
        jw_addObjectEntry (ascii ''type''), (\<lambda>w. res_bind (fieldTypeToString type) (\<lambda>s. jw_addString s w)), jw_addComma,
        jw_addObjectEntry (ascii ''type_size''), jw_addInteger n, jw_addComma,
        jw_addObjectEntry (ascii ''optional''), jw_addBool opt, jw_addComma,
        jw_addObjectEntry (ascii ''repeated''), jw_addBool rep, jw_addComma,
        jw_addObjectEntry (ascii ''encoding_hint''), jw_addString (ascii ''NONE'')] w) (\<lambda>w.
     res_bind
       (if type = F_OBJECT then
          res_bind (jw_seq [jw_addComma, jw_addObjectEntry (ascii ''schema'')] w) (\<lambda>w.
            follow (\<lambda>s. MessageSchema_toJSON s w) schema)
        else Inr w) (\<lambda>w.
       jw_endObject w))"

section \<open>Reading\<close>

text \<open>A lookup that finds something finds it behind the place it starts at.\<close>

lemma objectLookup_loop_after:
  "objectLookup_loop toks oend e key b = Inr p \<Longrightarrow> p \<noteq> e \<Longrightarrow> b < p \<and> p < e"
proof (induction toks oend e key b rule: objectLookup_loop.induct)
  case (1 toks oend e key b)
  from "1.prems"(1) have b: "b < e"
    using "1.prems"(2) by (simp add: objectLookup_loop.simps [of _ _ _ _ b] split: if_splits)
  with "1.prems" obtain t where t: "tok_at toks b = Inr t" by (auto simp: objectLookup_loop.simps [of _ _ _ _ b] res_bind_Inr)
  show ?case
  proof (cases "jt_type t = JSON_STRING \<and> jt_data t = key")
    case True
    with "1.prems" b t show ?thesis by (simp add: objectLookup_loop.simps [of _ _ _ _ b])
  next
    case False
    with "1.prems" b t obtain u where u: "b + 1 \<noteq> oend" "tok_at toks (b + 1) = Inr u"
      and "objectLookup_loop toks oend e key (b + 1 + unat (jt_size u)) = Inr p"
      by (auto simp: objectLookup_loop.simps [of _ _ _ _ b] res_bind_Inr split: if_splits)
    from "1.IH" [OF b t False u this(3) "1.prems"(2)] show ?thesis by simp
  qed
qed

lemma objectLookup_after: "objectLookup toks b e key = Inr p \<Longrightarrow> p \<noteq> e \<Longrightarrow> b < p \<and> p < e"
  by (auto simp: objectLookup_def res_bind_Inr split: if_splits dest!: objectLookup_loop_after)

lemma arrayLookup_loop_after: "arrayLookup_loop toks aend b i = Inr p \<Longrightarrow> b \<le> p \<and> p < aend"
  by (induction i arbitrary: b) (fastforce simp: res_bind_Inr split: if_splits)+

lemma arrayLookup_after: "arrayLookup toks b e i = Inr p \<Longrightarrow> p \<noteq> e \<Longrightarrow> b < p \<and> p < e"
  by (auto simp: arrayLookup_def res_bind_Inr split: if_splits dest!: arrayLookup_loop_after)

definition required :: "'a option res \<Rightarrow> 'a res" where
  "required r = res_bind r (\<lambda>x. case x of None \<Rightarrow> Inl RuntimeError | Some v \<Rightarrow> Inr v)"

text \<open>What \<open>fromJSON\<close> reads of a column but its subschema; a flag that is missing is false, a size 0.\<close>

definition column_fromJSON :: "json_object \<Rightarrow> nat \<Rightarrow> nat \<Rightarrow> schema_field res" where
  "column_fromJSON toks e col =
     res_bind (required (objectGetUInt64 toks col e (ascii ''id''))) (\<lambda>id.
     res_bind (required (objectGetString toks col e (ascii ''name''))) (\<lambda>name.
     res_bind (required (objectGetString toks col e (ascii ''type''))) (\<lambda>type.
     res_bind (objectGetUInt64 toks col e (ascii ''type_size'')) (\<lambda>type_size.
     res_bind (objectGetBool toks col e (ascii ''optional'')) (\<lambda>opt.
     res_bind (objectGetBool toks col e (ascii ''repeated'')) (\<lambda>rep.
     res_bind (fieldTypeFromString type) (\<lambda>t.
       Inr (MessageSchemaField (ucast id) name t (if t = F_OBJECT then 0 else case type_size of None \<Rightarrow> 0 | Some n \<Rightarrow> n)
         (rep = Some True) (opt = Some True) Hint_NONE None))))))))"

function (sequential) MessageSchema_fromJSON ::
    "json_object \<Rightarrow> nat \<Rightarrow> nat \<Rightarrow> message_schema \<Rightarrow> message_schema res"
  and columns_fromJSON ::
    "json_object \<Rightarrow> nat \<Rightarrow> nat \<Rightarrow> nat \<Rightarrow> nat \<Rightarrow> message_schema \<Rightarrow> message_schema res" where
  "MessageSchema_fromJSON toks e b schema =
     res_bind (objectGetString toks b e (ascii ''name'')) (\<lambda>tname.
     res_bind (objectLookup toks b e (ascii ''columns'')) (\<lambda>cols.
       if cols = e then Inl RuntimeError
       else res_bind (arrayLength toks cols e) (\<lambda>ncols.
         columns_fromJSON toks e cols 0 ncols
           (case tname of None \<Rightarrow> schema | Some name \<Rightarrow> MessageSchema_setName name schema))))"
| "columns_fromJSON toks e cols i ncols schema =
     (if i \<ge> ncols then Inr schema
      else res_bind (arrayLookup toks cols e i) (\<lambda>col.
        res_bind (column_fromJSON toks e col) (\<lambda>f.
        res_bind
          (if sf_type f = F_OBJECT then
             res_bind (objectLookup toks col e (ascii ''schema'')) (\<lambda>child.
               if child = e then Inl RuntimeError
               else res_bind (MessageSchema_fromJSON toks e child empty_schema) (\<lambda>s. Inr (set_schema s f)))
           else Inr f) (\<lambda>f.
          columns_fromJSON toks e cols (i + 1) ncols (MessageSchema_addField f schema)))))"
  by pat_completeness auto

termination
  by (relation "measures [case_sum (\<lambda>(toks, e, b, s). e - b) (\<lambda>(toks, e, cols, i, n, s). e - cols),
      case_sum (\<lambda>_. 0) (\<lambda>(toks, e, cols, i, n, s). n - i)]")
    (auto dest!: objectLookup_after arrayLookup_after)

section \<open>The tree of a schema\<close>

definition type_name :: "FieldType \<Rightarrow> bytes" where
  "type_name type = (case fieldTypeToString type of Inl _ \<Rightarrow> [] | Inr s \<Rightarrow> s)"

abbreviation jbool :: "bool \<Rightarrow> json_value" where
  "jbool b \<equiv> if b then JTrue else JFalse"

fun schema_json :: "message_schema \<Rightarrow> json_value" and column_json :: "schema_field \<Rightarrow> json_value" where
  "schema_json (Schema name flds _ _ _) =
     JObj [(ascii ''name'', JStr name), (ascii ''columns'', JArr (map column_json flds))]"
| "column_json (MessageSchemaField i name type n rep opt enc schema) =
     JObj ([(ascii ''id'', JNum (toString_s64 (ucast i))), (ascii ''name'', JStr name), (ascii ''type'', JStr (type_name type)),
        (ascii ''type_size'', JNum (toString_s64 n)), (ascii ''optional'', jbool opt), (ascii ''repeated'', jbool rep),
        (ascii ''encoding_hint'', JStr (ascii ''NONE''))] @
       (case schema of None \<Rightarrow> [] | Some s \<Rightarrow> [(ascii ''schema'', schema_json s)]))"

text \<open>
  \<open>schema_json_ok\<close>: the schema was made by adding its fields, exactly the object fields have a
  subschema, all types have a name, and no name has control characters JSON loses.
\<close>

fun schema_json_ok :: "message_schema \<Rightarrow> bool" and column_json_ok :: "schema_field \<Rightarrow> bool" where
  "schema_json_ok (Schema name fs ids types names) \<longleftrightarrow>
     clean name = name \<and> Schema name fs ids types names = MessageSchema name fs \<and> (\<forall>f \<in> set fs. column_json_ok f)"
| "column_json_ok (MessageSchemaField i name type n rep opt enc sub) \<longleftrightarrow>
     clean name = name \<and> fieldTypeToString type \<noteq> Inl Undefined \<and>
     (case sub of None \<Rightarrow> type \<noteq> F_OBJECT | Some s \<Rightarrow> type = F_OBJECT \<and> schema_json_ok s)"

text \<open>The schema without encoding hints.\<close>

fun no_hints :: "message_schema \<Rightarrow> message_schema" and no_hints_field :: "schema_field \<Rightarrow> schema_field" where
  "no_hints (Schema name fs _ _ _) = MessageSchema name (map no_hints_field fs)"
| "no_hints_field (MessageSchemaField i name type n rep opt enc sub) =
     MessageSchemaField i name type (if type = F_OBJECT then 0 else n) rep opt Hint_NONE (map_option no_hints sub)"

section \<open>The text of a schema is read as its tree\<close>

text \<open>\<open>jw_lex f toks\<close>: \<open>f\<close> writes a text that is read as \<open>toks\<close>; \<open>jw_num\<close> the same for a number.\<close>

definition jw_lex :: "(json_writer \<Rightarrow> json_writer res) \<Rightarrow> (token_type \<times> bytes) list \<Rightarrow> bool" where
  "jw_lex f toks \<longleftrightarrow> (\<exists>t. (\<forall>w. f w = Inr (jw_write t w)) \<and> lexes toks t)"

definition jw_num :: "(json_writer \<Rightarrow> json_writer res) \<Rightarrow> (token_type \<times> bytes) list \<Rightarrow> bool" where
  "jw_num f toks \<longleftrightarrow> (\<exists>t. (\<forall>w. f w = Inr (jw_write t w)) \<and> lexes_before_end toks t)"

lemma jw_write_write [simp]: "jw_write b (jw_write a w) = jw_write (a @ b) w" "jw_write [] w = w"
  by (simp_all add: jw_write_def os_write_def)

lemma jw_lexI: "(\<And>w. f w = Inr (jw_write t w)) \<Longrightarrow> lexes toks t \<Longrightarrow> jw_lex f toks"
  by (auto simp: jw_lex_def)

lemma jw_lexE:
  assumes "jw_lex f toks"
  obtains t where "\<And>w. f w = Inr (jw_write t w)" "lexes toks t"
  using assms by (auto simp: jw_lex_def)

lemma jw_lex_bind: "jw_lex f a \<Longrightarrow> jw_lex g b \<Longrightarrow> jw_lex (\<lambda>w. res_bind (f w) g) (a @ b)"
  by (elim jw_lexE, rule jw_lexI [OF _ lexes_append]) simp_all

lemma jw_lex_Nil: "jw_lex (jw_seq []) []" "jw_lex Inr []"
  by (rule jw_lexI [OF _ lexes_Nil], simp add: jw_seq_def)+

lemma jw_lex_Cons: "jw_lex f a \<Longrightarrow> jw_lex (jw_seq fs) b \<Longrightarrow> jw_lex (jw_seq (f # fs)) (a @ b)"
  using jw_lex_bind [of f a "jw_seq fs" b] by (simp add: jw_seq_def jw_lex_def)

lemma jw_comma: "jw_addComma w = Inr (jw_write [44] w)"
  by (simp add: jw_addComma_def jw_printf_def)

text \<open>A comma ends a number.\<close>

lemma jw_lex_num:
  assumes "jw_num f a" and "jw_lex (jw_seq fs) b"
  shows "jw_lex (jw_seq (f # jw_addComma # fs)) (a @ b)"
proof -
  from assms(1) obtain t where t: "\<And>w. f w = Inr (jw_write t w)" "lexes_before_end a t" by (auto simp: jw_num_def)
  from assms(2) obtain u where u: "\<And>w. jw_seq fs w = Inr (jw_write u w)" "lexes b u" by (rule jw_lexE) blast
  have c: "lexes ([] @ b) ([44] @ u)" by (rule lexes_append [OF lexes_blank u(2)]) (simp add: json_blank_def)
  show ?thesis
  proof (rule jw_lexI)
    show "jw_seq (f # jw_addComma # fs) w = Inr (jw_write (t @ [44] @ u) w)" for w
      using u(1) by (simp add: jw_seq_def t(1) jw_comma)
    show "lexes (a @ b) (t @ [44] @ u)"
      using lexes_ended [OF t(2) c] by (simp add: number_end_def number_char_def is_digit_def)
  qed
qed

lemma jw_lex_marks:
  "jw_lex jw_beginObject [(JSON_OBJECT_BEGIN, [])]" "jw_lex jw_endObject [(JSON_OBJECT_END, [])]"
  "jw_lex jw_beginArray [(JSON_ARRAY_BEGIN, [])]" "jw_lex jw_endArray [(JSON_ARRAY_END, [])]"
  by (rule jw_lexI [OF _ lexes_marks(1)] jw_lexI [OF _ lexes_marks(2)] jw_lexI [OF _ lexes_marks(3)] jw_lexI [OF _ lexes_marks(4)],
      simp add: jw_beginObject_def jw_endObject_def jw_beginArray_def jw_endArray_def jw_printf_def)+

lemma jw_lex_string: "jw_lex (jw_addString s) [(JSON_STRING, clean s)]"
  by (rule jw_lexI [OF _ lexes_string]) (simp add: jw_addString_def)

lemma jw_lex_bool: "jw_lex (jw_addBool x) (jtokens (jbool x))"
  using jw_lexI [of jw_addTrue, OF _ lexes_words(1)] jw_lexI [of jw_addFalse, OF _ lexes_words(2)]
  by (auto simp: jw_addBool_def jw_addTrue_def jw_addFalse_def)

lemma toString_s64_chars:
  "\<forall>c \<in> set (toString_s64 v). number_char c" "toString_s64 v \<noteq> []" "hd (toString_s64 v) = 45 \<or> is_digit (hd (toString_s64 v))"
  using digits_props [of "nat (- sint v)"] digits_props [of "nat (sint v)"]
  by (auto simp: toString_s64_def number_char_def)

lemma jw_num_integer: "jw_num (jw_addInteger v) [(JSON_NUMBER, toString_s64 v)]"
  unfolding jw_num_def using number_of_digits [OF toString_s64_chars] by (auto simp: jw_addInteger_def)

lemma jw_num_lex: "jw_lex f a \<Longrightarrow> jw_num f a"
  by (auto simp: jw_lex_def jw_num_def intro: lexes_weaken)

definition plain :: "bytes \<Rightarrow> bool" where
  "plain key \<longleftrightarrow> (\<forall>c \<in> set key. 32 \<le> c \<and> c \<noteq> 34 \<and> c \<noteq> 92) \<and> length key < 8000"

lemma escape_plain: "\<forall>c \<in> set key. 32 \<le> c \<and> c \<noteq> 34 \<and> c \<noteq> 92 \<Longrightarrow> escapeString key = key"
proof (induction key)
  case (Cons c key)
  have "c \<noteq> 8 \<and> c \<noteq> 9 \<and> c \<noteq> 10 \<and> c \<noteq> 12 \<and> c \<noteq> 13" using Cons.prems by auto
  then have "escape_char c = [c]" using Cons.prems by (auto simp: escape_char_def not_less)
  with Cons show ?case by (simp add: escapeString_def)
qed (simp add: escapeString_def)

text \<open>A key is short enough for the buffer of \<open>printf\<close>.\<close>

lemma escape_no_zero: "0 \<notin> set (escapeString key)"
proof -
  have l: "length (ascii ''0123456789abcdef'') = 16" "\<forall>x \<in> set (ascii ''0123456789abcdef''). x \<noteq> 0" by code_simp+
  have h: "unat n < 16 \<Longrightarrow> hex_digit n \<noteq> 0" for n
    using l nth_mem [of "unat n" "ascii ''0123456789abcdef''"] by (auto simp: hex_digit_def)
  have "unat (drop_bit 4 c) = unat c div 16" for c :: byte
    using unat_less_exp [of c] by (simp only: unsigned_drop_bit_eq) (simp add: drop_bit_eq_div take_bit_eq_mod)
  then have "unat (drop_bit 4 c) < 16" for c :: byte using unat_less_exp [of c] by (simp add: less_mult_imp_div_less)
  moreover have "unat (c AND 15) < 16" for c :: byte using nibbles(1) [of c] by simp
  ultimately have "0 \<notin> set (escape_char c)" for c using h by (auto simp: escape_char_def dest: sym)
  then show ?thesis by (auto simp: escapeString_def)
qed

lemma jw_lex_entry:
  assumes "length (escapeString key) < 8000"
  shows "jw_lex (jw_addObjectEntry key) [(JSON_STRING, clean key)]"
proof (rule jw_lexI)
  have "takeWhile (\<lambda>c. c \<noteq> 0) (escapeString key) = escapeString key"
    by (rule takeWhile_all) (use escape_no_zero in blast)
  then have "jw_addObjectEntry key = jw_printf ([34] @ escapeString key @ [34, 58, 32])"
    unfolding jw_addObjectEntry_def by (simp only:)
  then show "jw_addObjectEntry key w = Inr (jw_write ([34] @ escapeString key @ [34, 58, 32]) w)" for w
    using assms by (simp add: jw_printf_def)
  have "lexes ([(JSON_STRING, clean key)] @ [] @ []) (([34] @ escapeString key @ [34]) @ [58] @ [32])"
    by (intro lexes_append lexes_string lexes_blank) (simp_all add: json_blank_def)
  then show "lexes [(JSON_STRING, clean key)] ([34] @ escapeString key @ [34, 58, 32])" by simp
qed

lemma clean_plain: "\<forall>c \<in> set key. 32 \<le> c \<Longrightarrow> clean key = key"
  by (simp add: clean_def filter_id_conv)

lemma jw_lex_key: "plain key \<Longrightarrow> jw_lex (jw_addObjectEntry key) [(JSON_STRING, key)]"
  using jw_lex_entry [of key] by (simp add: plain_def escape_plain clean_plain)

lemma jw_element_pair:
  "jw_element f x (comma, w) = res_bind (if comma then jw_addComma w else Inr w) (\<lambda>w. res_bind (f x w) (\<lambda>w. Inr (True, w)))"
  by (simp add: jw_element_def)

lemma jw_lex_elements:
  assumes "\<And>x. x \<in> set xs \<Longrightarrow> jw_lex (f x) (g x)"
  shows "jw_lex (jw_elements f xs) (concat (map g xs))"
proof -
  have "\<exists>t. lexes (concat (map g xs)) t \<and>
      (\<forall>w. res_fold (jw_element f) xs (comma, w) = Inr (comma \<or> xs \<noteq> [], jw_write t w))" for comma
    using assms
  proof (induction xs arbitrary: comma)
    case Nil
    show ?case by (rule exI [of _ "[]"]) (simp add: lexes_Nil)
  next
    case (Cons x xs)
    have "jw_lex (f x) (g x)" by (rule Cons.prems) simp
    then obtain t where t: "\<And>w. f x w = Inr (jw_write t w)" "lexes (g x) t" by (rule jw_lexE) blast
    have "\<exists>t. lexes (concat (map g xs)) t \<and> (\<forall>w. res_fold (jw_element f) xs (True, w) = Inr (True \<or> xs \<noteq> [], jw_write t w))"
      by (rule Cons.IH) (rule Cons.prems; simp)
    then obtain u where u: "lexes (concat (map g xs)) u"
      "\<And>w. res_fold (jw_element f) xs (True, w) = Inr (True, jw_write u w)" by auto
    let ?c = "if comma then [44] else [] :: bytes"
    have "lexes [] ?c" by (simp add: lexes_Nil lexes_blank json_blank_def)
    from lexes_append [OF this lexes_append [OF t(2) u(1)]] show ?case
      by (intro exI [of _ "?c @ t @ u"]) (simp add: jw_element_pair t(1) u(2) jw_comma)
  qed
  from this [of False] obtain t where "lexes (concat (map g xs)) t"
    "\<And>w. res_fold (jw_element f) xs (False, w) = Inr (xs \<noteq> [], jw_write t w)" by auto
  then show ?thesis by (intro jw_lexI) (simp_all add: jw_elements_def)
qed

lemmas jw_lex_rules = jw_lex_num jw_lex_Cons jw_lex_Nil

lemma type_name_ok:
  assumes "fieldTypeToString type \<noteq> Inl Undefined"
  shows "fieldTypeToString type = Inr (type_name type)" and "clean (type_name type) = type_name type"
    and "fieldTypeFromString (type_name type) = Inr type"
  using assms by (cases type; simp add: fieldTypeToString_def type_name_def fieldTypeFromString_def; code_simp)+

lemma plain_keys:
  "plain (ascii ''id'')" "plain (ascii ''name'')" "plain (ascii ''type'')" "plain (ascii ''type_size'')"
  "plain (ascii ''optional'')" "plain (ascii ''repeated'')" "plain (ascii ''encoding_hint'')" "plain (ascii ''schema'')"
  "plain (ascii ''columns'')"
  by (simp_all add: plain_def ascii_def)

lemma jw_num_type:
  assumes "fieldTypeToString type \<noteq> Inl Undefined"
  shows "jw_num (\<lambda>w. res_bind (fieldTypeToString type) (\<lambda>s. jw_addString s w)) [(JSON_STRING, type_name type)]"
  using jw_lex_string [of "type_name type", THEN jw_num_lex] type_name_ok [OF assms] by simp

lemma jw_num_name: "clean s = s \<Longrightarrow> jw_num (jw_addString s) [(JSON_STRING, s)]"
  using jw_lex_string [of s, THEN jw_num_lex] by simp

lemma jw_lex_eq: "jw_lex f a \<Longrightarrow> a = b \<Longrightarrow> jw_lex f b"
  by simp

lemma clean_none: "clean (ascii ''NONE'') = ascii ''NONE''"
  by code_simp

lemma column_head:
  assumes "clean name = name" and "fieldTypeToString type \<noteq> Inl Undefined"
  shows "jw_lex (jw_seq
     [jw_beginObject,
      jw_addObjectEntry (ascii ''id''), jw_addInteger (ucast i), jw_addComma,
      jw_addObjectEntry (ascii ''name''), jw_addString name, jw_addComma,
      jw_addObjectEntry (ascii ''type''), (\<lambda>w. res_bind (fieldTypeToString type) (\<lambda>s. jw_addString s w)), jw_addComma,
      jw_addObjectEntry (ascii ''type_size''), jw_addInteger n, jw_addComma,
      jw_addObjectEntry (ascii ''optional''), jw_addBool opt, jw_addComma,
      jw_addObjectEntry (ascii ''repeated''), jw_addBool rep, jw_addComma,
      jw_addObjectEntry (ascii ''encoding_hint''), jw_addString (ascii ''NONE'')])
    ((JSON_OBJECT_BEGIN, []) # concat (map (\<lambda>(k, v). (JSON_STRING, k) # jtokens v)
      [(ascii ''id'', JNum (toString_s64 (ucast i))), (ascii ''name'', JStr name), (ascii ''type'', JStr (type_name type)),
       (ascii ''type_size'', JNum (toString_s64 n)), (ascii ''optional'', jbool opt), (ascii ''repeated'', jbool rep),
       (ascii ''encoding_hint'', JStr (ascii ''NONE''))]))"
proof (rule jw_lex_eq)
  show "jw_lex (jw_seq
     [jw_beginObject,
      jw_addObjectEntry (ascii ''id''), jw_addInteger (ucast i), jw_addComma,
      jw_addObjectEntry (ascii ''name''), jw_addString name, jw_addComma,
      jw_addObjectEntry (ascii ''type''), (\<lambda>w. res_bind (fieldTypeToString type) (\<lambda>s. jw_addString s w)), jw_addComma,
      jw_addObjectEntry (ascii ''type_size''), jw_addInteger n, jw_addComma,
      jw_addObjectEntry (ascii ''optional''), jw_addBool opt, jw_addComma,
      jw_addObjectEntry (ascii ''repeated''), jw_addBool rep, jw_addComma,
      jw_addObjectEntry (ascii ''encoding_hint''), jw_addString (ascii ''NONE'')])
    ([(JSON_OBJECT_BEGIN, [])] @
     [(JSON_STRING, ascii ''id'')] @ [(JSON_NUMBER, toString_s64 (ucast i))] @
     [(JSON_STRING, ascii ''name'')] @ [(JSON_STRING, name)] @
     [(JSON_STRING, ascii ''type'')] @ [(JSON_STRING, type_name type)] @
     [(JSON_STRING, ascii ''type_size'')] @ [(JSON_NUMBER, toString_s64 n)] @
     [(JSON_STRING, ascii ''optional'')] @ jtokens (jbool opt) @
     [(JSON_STRING, ascii ''repeated'')] @ jtokens (jbool rep) @
     [(JSON_STRING, ascii ''encoding_hint'')] @ [(JSON_STRING, clean (ascii ''NONE''))] @ [])"
    by (rule jw_lex_num jw_lex_Cons jw_lex_Nil jw_lex_marks jw_lex_key plain_keys jw_num_integer jw_num_name [OF assms(1)]
        jw_num_type [OF assms(2)] jw_num_lex [OF jw_lex_bool] jw_lex_string)+
qed (simp add: clean_none)

lemma schema_json_written:
  "schema_json_ok s \<Longrightarrow> jw_lex (MessageSchema_toJSON s) (jtokens (schema_json s))"
  "column_json_ok f \<Longrightarrow> jw_lex (field_toJSON f) (jtokens (column_json f))"
proof (induction s and f rule: schema_json_column_json.induct)
  case (1 name flds ids types names)
  have name: "clean name = name" using 1 by simp
  have "jw_lex (field_toJSON f) (jtokens (column_json f))" if "f \<in> set flds" for f using 1 that by simp
  then have flds: "jw_lex (jw_elements field_toJSON flds) (concat (map (\<lambda>f. jtokens (column_json f)) flds))"
    by (rule jw_lex_elements)
  have "jw_lex (jw_seq [jw_beginObject, jw_addObjectEntry (ascii ''name''), jw_addString name, jw_addComma,
      jw_addObjectEntry (ascii ''columns''), jw_beginArray])
    ([(JSON_OBJECT_BEGIN, [])] @ [(JSON_STRING, ascii ''name'')] @ [(JSON_STRING, name)] @
     [(JSON_STRING, ascii ''columns'')] @ [(JSON_ARRAY_BEGIN, [])] @ [])"
    by (rule jw_lex_num jw_lex_Cons jw_lex_Nil jw_lex_marks jw_lex_key plain_keys jw_num_name [OF name])+
  moreover have "jw_lex (jw_seq [jw_endArray, jw_endObject]) ([(JSON_ARRAY_END, [])] @ [(JSON_OBJECT_END, [])] @ [])"
    by (rule jw_lex_Cons jw_lex_Nil jw_lex_marks)+
  ultimately have "jw_lex (\<lambda>w. res_bind (jw_seq [jw_beginObject, jw_addObjectEntry (ascii ''name''), jw_addString name,
      jw_addComma, jw_addObjectEntry (ascii ''columns''), jw_beginArray] w) (\<lambda>w.
      res_bind (jw_elements field_toJSON flds w) (jw_seq [jw_endArray, jw_endObject])))
    (([(JSON_OBJECT_BEGIN, [])] @ [(JSON_STRING, ascii ''name'')] @ [(JSON_STRING, name)] @
     [(JSON_STRING, ascii ''columns'')] @ [(JSON_ARRAY_BEGIN, [])] @ []) @
     concat (map (\<lambda>f. jtokens (column_json f)) flds) @ ([(JSON_ARRAY_END, [])] @ [(JSON_OBJECT_END, [])] @ []))"
    by (intro jw_lex_bind flds)
  then show ?case by (simp add: comp_def jw_lex_def)
next
  case (2 i name type n rep opt enc sub)
  let ?pre = "jw_seq
     [jw_beginObject,
      jw_addObjectEntry (ascii ''id''), jw_addInteger (ucast i), jw_addComma,
      jw_addObjectEntry (ascii ''name''), jw_addString name, jw_addComma,
      jw_addObjectEntry (ascii ''type''), (\<lambda>w. res_bind (fieldTypeToString type) (\<lambda>s. jw_addString s w)), jw_addComma,
      jw_addObjectEntry (ascii ''type_size''), jw_addInteger n, jw_addComma,
      jw_addObjectEntry (ascii ''optional''), jw_addBool opt, jw_addComma,
      jw_addObjectEntry (ascii ''repeated''), jw_addBool rep, jw_addComma,
      jw_addObjectEntry (ascii ''encoding_hint''), jw_addString (ascii ''NONE'')]"
  have head: "jw_lex ?pre
    ((JSON_OBJECT_BEGIN, []) # concat (map (\<lambda>(k, v). (JSON_STRING, k) # jtokens v)
      [(ascii ''id'', JNum (toString_s64 (ucast i))), (ascii ''name'', JStr name), (ascii ''type'', JStr (type_name type)),
       (ascii ''type_size'', JNum (toString_s64 n)), (ascii ''optional'', jbool opt), (ascii ''repeated'', jbool rep),
       (ascii ''encoding_hint'', JStr (ascii ''NONE''))]))"
    by (rule column_head) (use 2 in simp_all)
  let ?sub = "\<lambda>w. if type = F_OBJECT then
      res_bind (jw_seq [jw_addComma, jw_addObjectEntry (ascii ''schema'')] w) (\<lambda>w. follow (\<lambda>s. MessageSchema_toJSON s w) sub)
    else Inr w"
  have mid: "jw_lex ?sub (case sub of None \<Rightarrow> [] | Some s \<Rightarrow> (JSON_STRING, ascii ''schema'') # jtokens (schema_json s))"
  proof (cases sub)
    case None
    then show ?thesis using 2 jw_lex_Nil(2) by simp
  next
    case (Some s)
    have comma: "jw_lex jw_addComma []" by (rule jw_lexI [OF jw_comma lexes_blank]) (simp add: json_blank_def)
    have s: "jw_lex (MessageSchema_toJSON s) (jtokens (schema_json s))" using 2 Some by simp
    have "jw_lex (jw_seq [jw_addComma, jw_addObjectEntry (ascii ''schema'')]) ([] @ [(JSON_STRING, ascii ''schema'')] @ [])"
      by (rule comma jw_lex_Cons jw_lex_Nil jw_lex_key plain_keys)+
    from jw_lex_bind [OF this s] show ?thesis using 2 Some by simp
  qed
  have "jw_lex (\<lambda>w. res_bind (?pre w) (\<lambda>w. res_bind (?sub w) jw_endObject))
    (((JSON_OBJECT_BEGIN, []) # concat (map (\<lambda>(k, v). (JSON_STRING, k) # jtokens v)
      [(ascii ''id'', JNum (toString_s64 (ucast i))), (ascii ''name'', JStr name), (ascii ''type'', JStr (type_name type)),
       (ascii ''type_size'', JNum (toString_s64 n)), (ascii ''optional'', jbool opt), (ascii ''repeated'', jbool rep),
       (ascii ''encoding_hint'', JStr (ascii ''NONE''))])) @
     (case sub of None \<Rightarrow> [] | Some s \<Rightarrow> (JSON_STRING, ascii ''schema'') # jtokens (schema_json s)) @ [(JSON_OBJECT_END, [])])"
    by (rule jw_lex_bind [OF head jw_lex_bind [OF mid jw_lex_marks(2)]])
  moreover have "field_toJSON (MessageSchemaField i name type n rep opt enc sub) =
      (\<lambda>w. res_bind (?pre w) (\<lambda>w. res_bind (?sub w) jw_endObject))"
    by (rule ext) (simp only: field_toJSON.simps)
  ultimately show ?case by (simp only:) (rule jw_lex_eq, assumption, simp split: option.split)
qed

section \<open>A schema survives its JSON form\<close>

lemma stoull_s64: "stoull (toString_s64 v) = Inr v"
proof (cases "sint v < 0")
  case True
  have l: "- sint v \<le> 2 ^ 63" using sint_ge [of v] by simp
  have s: "\<not> is_space 45" by (simp add: is_space_def)
  have "strtol_parse (toString_s64 v) = Some (True, nat (- sint v))"
    using True s digits_props [of "nat (- sint v)"] by (simp add: toString_s64_def strtol_parse_def Let_def takeWhile_digits)
  moreover have "nat (- sint v) < 2 ^ 64" using l by simp
  moreover have "- word_of_nat (nat (- sint v)) = v" using True by (simp add: of_nat_nat)
  ultimately show ?thesis by (simp add: stoull_def)
next
  case False
  have "sint v < 2 ^ 63" using sint_lt [of v] by simp
  then have "nat (sint v) < 2 ^ 64" by simp
  moreover have "word_of_nat (nat (sint v)) = v" using False by (simp add: of_nat_nat)
  ultimately show ?thesis using False by (simp add: toString_s64_def stoull_digits)
qed

lemma column_read:
  assumes v: "jat toks p (column_json f)" "jsmall (column_json f)" "p + length (jflat (column_json f)) \<le> e"
    and f: "f = MessageSchemaField i name type n rep opt enc sub" and ok: "fieldTypeToString type \<noteq> Inl Undefined"
  shows "column_fromJSON toks e p =
    Inr (MessageSchemaField i name type (if type = F_OBJECT then 0 else n) rep opt Hint_NONE None)"
proof -
  let ?kvs = "[(ascii ''id'', JNum (toString_s64 (ucast i))), (ascii ''name'', JStr name), (ascii ''type'', JStr (type_name type)),
        (ascii ''type_size'', JNum (toString_s64 n)), (ascii ''optional'', jbool opt), (ascii ''repeated'', jbool rep),
        (ascii ''encoding_hint'', JStr (ascii ''NONE''))] @ (case sub of None \<Rightarrow> [] | Some s \<Rightarrow> [(ascii ''schema'', schema_json s)])"
  have kvs: "column_json f = JObj ?kvs" by (simp add: f)
  note v = v [unfolded kvs]
  have keys: "map_of ?kvs (ascii ''id'') = Some (JNum (toString_s64 (ucast i)))" "map_of ?kvs (ascii ''name'') = Some (JStr name)"
    "map_of ?kvs (ascii ''type'') = Some (JStr (type_name type))" "map_of ?kvs (ascii ''type_size'') = Some (JNum (toString_s64 n))"
    "map_of ?kvs (ascii ''optional'') = Some (jbool opt)" "map_of ?kvs (ascii ''repeated'') = Some (jbool rep)"
    by (simp_all add: ascii_def)
  note get = objectGetUInt64_tree [OF v(1) v(3) v(2)] objectGetString_tree [OF v(1) v(3) v(2)]
    objectGetBool_tree [OF v(1) v(3) v(2) keys(5)] objectGetBool_tree [OF v(1) v(3) v(2) keys(6)]
  show ?thesis
    unfolding column_fromJSON_def get keys by (simp add: required_def stoull_s64 type_name_ok [OF ok])
qed

lemma column_child:
  assumes v: "jat toks p (column_json f)" "jsmall (column_json f)" "p + length (jflat (column_json f)) \<le> e"
    and f: "f = MessageSchemaField i name type n rep opt enc (Some s)"
  shows "\<exists>c. objectLookup toks p e (ascii ''schema'') = Inr c \<and> jat toks c (schema_json s) \<and> jsmall (schema_json s) \<and>
    c + length (jflat (schema_json s)) < e"
proof -
  let ?kvs = "[(ascii ''id'', JNum (toString_s64 (ucast i))), (ascii ''name'', JStr name), (ascii ''type'', JStr (type_name type)),
        (ascii ''type_size'', JNum (toString_s64 n)), (ascii ''optional'', jbool opt), (ascii ''repeated'', jbool rep),
        (ascii ''encoding_hint'', JStr (ascii ''NONE''))] @ [(ascii ''schema'', schema_json s)]"
  have kvs: "column_json f = JObj ?kvs" by (simp add: f)
  have "map_of ?kvs (ascii ''schema'') = Some (schema_json s)" by (simp add: ascii_def)
  with objectLookup_tree [OF v(1) [unfolded kvs] v(3) [unfolded kvs] v(2) [unfolded kvs], of "ascii ''schema''"] show ?thesis
    by auto
qed

lemma columns_read:
  assumes v: "jat toks cols (JArr (map column_json fs))" "jsmall (JArr (map column_json fs))"
      "cols + length (jflat (JArr (map column_json fs))) \<le> e"
    and ok: "\<forall>f \<in> set fs. column_json_ok f"
    and sub: "\<And>f s c. f \<in> set fs \<Longrightarrow> sf_schema f = Some s \<Longrightarrow> jat toks c (schema_json s) \<Longrightarrow> jsmall (schema_json s) \<Longrightarrow>
      c + length (jflat (schema_json s)) \<le> e \<Longrightarrow> MessageSchema_fromJSON toks e c empty_schema = Inr (no_hints s)"
    and "i \<le> length fs"
  shows "columns_fromJSON toks e cols i (length fs) schema =
    Inr (fold MessageSchema_addField (map no_hints_field (drop i fs)) schema)"
  using assms(6)
proof (induction "length fs - i" arbitrary: i schema)
  case 0
  then show ?case by simp
next
  case (Suc k)
  then have i: "i < length fs" by simp
  let ?f = "fs ! i"
  from array_tree(2) [OF v(1) v(3) v(2), of i] i obtain p where
    p: "arrayLookup toks cols e i = Inr p" "jat toks p (column_json ?f)" "jsmall (column_json ?f)"
      "p + length (jflat (column_json ?f)) < e" by auto
  obtain j name type n rep opt enc s where f: "?f = MessageSchemaField j name type n rep opt enc s" by (cases ?f)
  have okf: "column_json_ok ?f" using ok i by simp
  have "column_fromJSON toks e p =
      Inr (MessageSchemaField j name type (if type = F_OBJECT then 0 else n) rep opt Hint_NONE None)" (is "_ = Inr ?g")
    by (rule column_read [OF p(2,3) _ f]) (use p(4) okf f in simp_all)
  moreover have "(if sf_type ?g = F_OBJECT then
             res_bind (objectLookup toks p e (ascii ''schema'')) (\<lambda>child.
               if child = e then Inl RuntimeError
               else res_bind (MessageSchema_fromJSON toks e child empty_schema) (\<lambda>s. Inr (set_schema s ?g)))
           else Inr ?g) = Inr (no_hints_field ?f)"
  proof (cases s)
    case None
    then show ?thesis using okf by (simp add: f)
  next
    case (Some s')
    from column_child [OF p(2,3) less_imp_le [OF p(4)] f [unfolded Some]] obtain c where
      c: "objectLookup toks p e (ascii ''schema'') = Inr c" "jat toks c (schema_json s')" "jsmall (schema_json s')"
        "c + length (jflat (schema_json s')) < e" by auto
    have "MessageSchema_fromJSON toks e c empty_schema = Inr (no_hints s')"
      by (rule sub [of ?f, OF nth_mem [OF i] _ c(2,3)]) (use f Some c(4) in simp_all)
    with c(1,4) okf show ?thesis by (simp add: f Some del: MessageSchema_fromJSON.simps)
  qed
  moreover have "columns_fromJSON toks e cols (i + 1) (length fs) (MessageSchema_addField (no_hints_field ?f) schema) =
      Inr (fold MessageSchema_addField (map no_hints_field (drop (i + 1) fs)) (MessageSchema_addField (no_hints_field ?f) schema))"
    by (rule Suc.hyps(1)) (use Suc.hyps(2) i in simp_all)
  moreover have "drop i fs = ?f # drop (i + 1) fs" using i by (simp add: Cons_nth_drop_Suc)
  ultimately show ?case
    by (subst columns_fromJSON.simps) (simp add: p(1) i [folded not_le] del: columns_fromJSON.simps MessageSchema_fromJSON.simps)
qed

lemma schema_json_read:
  "schema_json_ok s \<Longrightarrow> jat toks p (schema_json s) \<Longrightarrow> jsmall (schema_json s) \<Longrightarrow> p + length (jflat (schema_json s)) \<le> e \<Longrightarrow>
     MessageSchema_fromJSON toks e p empty_schema = Inr (no_hints s)"
  "column_json_ok f \<Longrightarrow> sf_schema f = Some s' \<Longrightarrow> jat toks p (schema_json s') \<Longrightarrow> jsmall (schema_json s') \<Longrightarrow>
     p + length (jflat (schema_json s')) \<le> e \<Longrightarrow> MessageSchema_fromJSON toks e p empty_schema = Inr (no_hints s')"
proof (induction s and f arbitrary: p and p s' rule: schema_json_column_json.induct)
  case (1 name flds ids types names)
  let ?kvs = "[(ascii ''name'', JStr name), (ascii ''columns'', JArr (map column_json flds))]"
  have v: "jat toks p (JObj ?kvs)" "jsmall (JObj ?kvs)" "p + length (jflat (JObj ?kvs)) \<le> e"
    using "1.prems"(2-) by (simp_all only: schema_json.simps)
  have keys: "map_of ?kvs (ascii ''name'') = Some (JStr name)"
    "map_of ?kvs (ascii ''columns'') = Some (JArr (map column_json flds))" by (simp_all add: ascii_def)
  have name: "objectGetString toks p e (ascii ''name'') = Inr (Some name)"
    unfolding objectGetString_tree [OF v(1) v(3) v(2)] keys by simp
  from objectLookup_tree [OF v(1) v(3) v(2), of "ascii ''columns''"] keys(2) obtain c where
    c: "objectLookup toks p e (ascii ''columns'') = Inr c" "jat toks c (JArr (map column_json flds))"
      "jsmall (JArr (map column_json flds))" "c + length (jflat (JArr (map column_json flds))) < e" by auto
  have ok: "\<forall>f \<in> set flds. column_json_ok f" using "1.prems"(1) by simp
  have "columns_fromJSON toks e c 0 (length flds) (MessageSchema_setName name empty_schema) =
      Inr (fold MessageSchema_addField (map no_hints_field (drop 0 flds)) (MessageSchema_setName name empty_schema))"
    by (rule columns_read [OF c(2,3) _ ok]) (use c(4) "1.IH" ok in \<open>auto simp del: MessageSchema_fromJSON.simps\<close>)
  moreover have "arrayLength toks c e = Inr (length flds)" using array_tree(1) [OF c(2) _ c(3), of e] c(4) by simp
  ultimately show ?case using c(1,4) name
    by (simp add: MessageSchema_def del: columns_fromJSON.simps)
next
  case (2 i name type n rep opt enc sub)
  then show ?case by (simp del: MessageSchema_fromJSON.simps)
qed

lemma schema_json_roundtrip:
  assumes "schema_json_ok s" and "jsmall (schema_json s)"
  shows "\<exists>w toks. MessageSchema_toJSON s (JSONOutputStream []) = Inr w \<and> parseJSON_string (jw_out w) = Some (Inr toks) \<and>
    MessageSchema_fromJSON toks (length toks) 0 empty_schema = Inr (no_hints s)"
proof -
  from schema_json_written(1) [OF assms(1)] obtain t where
    t: "\<And>w. MessageSchema_toJSON s w = Inr (jw_write t w)" "lexes (jtokens (schema_json s)) t" by (rule jw_lexE) blast
  have "parseJSON_string t = Some (Inr (jflat (schema_json s)))"
    unfolding parseJSON_string_def by (subst parseJSON_read) (simp_all add: ms_rest_def lexes_parsed [OF t(2)])
  moreover have "MessageSchema_fromJSON (jflat (schema_json s)) (length (jflat (schema_json s))) 0 empty_schema = Inr (no_hints s)"
    by (rule schema_json_read(1) [OF assms(1) jat_start assms(2)]) simp
  ultimately show ?thesis using t(1) [of "JSONOutputStream []"] by (simp add: jw_write_def os_write_def JSONOutputStream_def)
qed

end
