(* ===== verification/CS_JsonMessage.thy ===== *)
theory CS_JsonMessage
  imports CS_JsonSchema CS_Rebuild
begin

text \<open>
  The JSON form of messages: \<open>JSONEncoder\<close> writes a message by its schema, \<open>DynamicMessage\<close>
  builds one by field names and reads it from JSON (\<open>stx/protobuf/JSONEncoder.cc\<close>,
  \<open>DynamicMessage.cc\<close>).
\<close>

section \<open>JSONEncoder\<close>

text \<open>
  The fields come in the order of the schema, those without a value are left out. A field that is
  not repeated writes all values it has one after the other. The switch over the types does nothing
  for a type it does not know.
\<close>

fun JSONEncoder_encode :: "message_schema \<Rightarrow> message_object \<Rightarrow> json_writer \<Rightarrow> json_writer res"
  and encodeField :: "schema_field \<Rightarrow> message_object \<Rightarrow> json_writer \<Rightarrow> json_writer res" where
  "JSONEncoder_encode (Schema _ flds _ _ _) msg w =
     res_bind (jw_beginObject w) (\<lambda>w.
     res_bind (asObject msg) (\<lambda>os.
     res_bind (jw_elements (\<lambda>f w.
         res_bind (jw_addObjectEntry (sf_name f) w) (\<lambda>w.
         res_bind (if sf_repeated f then jw_beginArray w else Inr w) (\<lambda>w.
         res_bind (jw_elements (encodeField f) (children (sf_id f) os) w) (\<lambda>w.
           if sf_repeated f then jw_endArray w else Inr w))))
       (filter (\<lambda>f. children (sf_id f) os \<noteq> []) flds) w) jw_endObject))"
| "encodeField (MessageSchemaField _ _ type _ _ _ _ schema) msg w =
     (case type of
        F_OBJECT \<Rightarrow> follow (\<lambda>s. JSONEncoder_encode s msg w) schema
      | F_BOOLEAN \<Rightarrow> res_bind (asBool msg) (\<lambda>b. if b then jw_addTrue w else jw_addFalse w)
      | F_STRING \<Rightarrow> res_bind (asString msg) (\<lambda>s. jw_addString s w)
      | F_UINT32 \<Rightarrow> res_bind (asUInt32 msg) (\<lambda>v. jw_addInteger (ucast v) w)
      | F_UINT64 \<Rightarrow> res_bind (asUInt64 msg) (\<lambda>v. jw_addInteger v w)
      | F_DATETIME \<Rightarrow> res_bind (asUnixTime msg) (\<lambda>t. jw_addInteger t w)
      | F_DOUBLE \<Rightarrow> res_bind (asDouble msg) (\<lambda>v. jw_addFloat v w)
      | F_Other _ \<Rightarrow> Inr w)"

section \<open>DynamicMessage\<close>

record dynamic_message =
  dm_schema :: message_schema
  dm_data :: message_object

definition DynamicMessage :: "message_schema \<Rightarrow> dynamic_message" where
  "DynamicMessage schema = \<lparr>dm_schema = schema, dm_data = MObject 0 []\<rparr>"

definition setData :: "message_object \<Rightarrow> dynamic_message \<Rightarrow> dynamic_message" where
  "setData data dm = dm\<lparr>dm_data := data\<rparr>"

text \<open>An operation that adds answers whether it did.\<close>

type_synonym dm_add = "dynamic_message \<Rightarrow> (bool \<times> dynamic_message) res"

definition dm_refuse :: dm_add where
  "dm_refuse dm = Inr (False, dm)"

definition dm_addChild :: "message_object \<Rightarrow> dm_add" where
  "dm_addChild c dm = res_bind (addChild c (dm_data dm)) (\<lambda>data. Inr (True, dm\<lparr>dm_data := data\<rparr>))"

text \<open>The \<open>try\<close> around the conversions of numbers catches everything.\<close>

definition dm_try :: "dm_add \<Rightarrow> dm_add" where
  "dm_try add dm = (case add dm of Inl _ \<Rightarrow> dm_refuse dm | Inr r \<Rightarrow> Inr r)"

definition addField ::
  "(bytes \<Rightarrow> tm option) \<Rightarrow> (bytes \<Rightarrow> double res) \<Rightarrow> u64 \<Rightarrow> u32 \<Rightarrow> bytes \<Rightarrow> dm_add" where
  "addField strptime stod now i value dm =
     (if \<not> MessageSchema_hasField (dm_schema dm) i then dm_refuse dm
      else res_bind (MessageSchema_fieldType (dm_schema dm) i) (\<lambda>type.
        case type of
          F_BOOLEAN \<Rightarrow> (case parseBoolean value of None \<Rightarrow> dm_refuse dm | Some b \<Rightarrow> dm_addChild (MBoolean i b) dm)
        | F_UINT32 \<Rightarrow> dm_try (\<lambda>dm. res_bind (stoull value) (\<lambda>v. dm_addChild (MUInt32 i (ucast v)) dm)) dm
        | F_UINT64 \<Rightarrow> dm_try (\<lambda>dm. res_bind (stoull value) (\<lambda>v. dm_addChild (MUInt64 i v) dm)) dm
        | F_DOUBLE \<Rightarrow> dm_try (\<lambda>dm. res_bind (stod value) (\<lambda>v. dm_addChild (MDouble i v) dm)) dm
        | F_DATETIME \<Rightarrow>
            res_bind (parseTime strptime value now) (\<lambda>t.
              case t of None \<Rightarrow> dm_refuse dm | Some t \<Rightarrow> dm_addChild (MDateTime i t) dm)
        | F_STRING \<Rightarrow> dm_addChild (MString i value) dm
        | F_OBJECT \<Rightarrow> dm_refuse dm
        | F_Other _ \<Rightarrow> Inl Undefined))"

text \<open>The operations that take a name look up its id.\<close>

definition dm_named :: "bytes \<Rightarrow> (u32 \<Rightarrow> dm_add) \<Rightarrow> dm_add" where
  "dm_named name add dm =
     (if \<not> MessageSchema_hasFieldNamed (dm_schema dm) name then dm_refuse dm
      else res_bind (MessageSchema_fieldId (dm_schema dm) name) (\<lambda>i. add i dm))"

definition addFieldNamed ::
  "(bytes \<Rightarrow> tm option) \<Rightarrow> (bytes \<Rightarrow> double res) \<Rightarrow> u64 \<Rightarrow> bytes \<Rightarrow> bytes \<Rightarrow> dm_add" where
  "addFieldNamed strptime stod now name value = dm_named name (\<lambda>i. addField strptime stod now i value)"

definition dm_typed :: "FieldType \<Rightarrow> (u32 \<Rightarrow> message_object) \<Rightarrow> u32 \<Rightarrow> dm_add" where
  "dm_typed type mk i dm =
     res_bind (MessageSchema_fieldType (dm_schema dm) i) (\<lambda>t. if t \<noteq> type then dm_refuse dm else dm_addChild (mk i) dm)"

definition addUInt32Field :: "bytes \<Rightarrow> u32 \<Rightarrow> dm_add" where
  "addUInt32Field name val = dm_named name (dm_typed F_UINT32 (\<lambda>i. MUInt32 i val))"

definition addUInt64Field :: "bytes \<Rightarrow> u64 \<Rightarrow> dm_add" where
  "addUInt64Field name val = dm_named name (dm_typed F_UINT64 (\<lambda>i. MUInt64 i val))"

definition addDateTimeField :: "u32 \<Rightarrow> u64 \<Rightarrow> dm_add" where
  "addDateTimeField i val dm =
     (if \<not> MessageSchema_hasField (dm_schema dm) i then dm_refuse dm else dm_typed F_DATETIME (\<lambda>i. MDateTime i val) i dm)"

definition addDateTimeFieldNamed :: "bytes \<Rightarrow> u64 \<Rightarrow> dm_add" where
  "addDateTimeFieldNamed name val = dm_named name (\<lambda>i. addDateTimeField i val)"

definition addBoolField :: "bytes \<Rightarrow> bool \<Rightarrow> dm_add" where
  "addBoolField name val = dm_named name (dm_typed F_BOOLEAN (\<lambda>i. MBoolean i val))"

definition addStringField :: "bytes \<Rightarrow> bytes \<Rightarrow> dm_add" where
  "addStringField name value = dm_named name (dm_typed F_STRING (\<lambda>i. MString i value))"

lemma unat_pos: "(w :: u32) \<noteq> 0 \<Longrightarrow> 0 < unat w"
  by (simp add: unat_gt_0)

fun set_mo_id :: "u32 \<Rightarrow> message_object \<Rightarrow> message_object" where
  "set_mo_id i (MObject _ os) = MObject i os"
| "set_mo_id i (MBoolean _ b) = MBoolean i b"
| "set_mo_id i (MUInt32 _ v) = MUInt32 i v"
| "set_mo_id i (MString _ s) = MString i s"
| "set_mo_id i (MUInt64 _ v) = MUInt64 i v"
| "set_mo_id i (MDouble _ v) = MDouble i v"
| "set_mo_id i (MDateTime _ v) = MDateTime i v"

text \<open>\<open>fn\<close> fills the message of the subschema; a null reference to that is followed.\<close>

definition addObject :: "bytes \<Rightarrow> (dynamic_message \<Rightarrow> dynamic_message res) \<Rightarrow> dm_add" where
  "addObject name fn = dm_named name (\<lambda>i dm.
     res_bind (MessageSchema_fieldType (dm_schema dm) i) (\<lambda>t.
       if t \<noteq> F_OBJECT then dm_refuse dm
       else res_bind (MessageSchema_fieldSchema (dm_schema dm) i) (follow (\<lambda>s.
         res_bind (fn (DynamicMessage s)) (\<lambda>submsg. dm_addChild (set_mo_id i (dm_data submsg)) dm)))))"

lemma addObject_cong [fundef_cong]:
  assumes "name = name'" and "\<And>cld. fn cld = fn' cld" and "dm = dm'"
  shows "addObject name fn dm = addObject name' fn' dm'"
proof -
  from assms(2) have "fn = fn'" by (rule ext)
  with assms(1,3) show ?thesis by simp
qed

definition getField :: "u32 \<Rightarrow> dynamic_message \<Rightarrow> bytes option res" where
  "getField i dm =
     (if \<not> MessageSchema_hasField (dm_schema dm) i then Inr None
      else res_bind (MessageSchema_fieldType (dm_schema dm) i) (\<lambda>type.
        case type of
          F_BOOLEAN \<Rightarrow> map_sum id (\<lambda>b. Some (ascii (if b then ''true'' else ''false''))) (getBool i (dm_data dm))
        | F_UINT32 \<Rightarrow> map_sum id (\<lambda>v. Some (digits (unat v))) (getUInt32 i (dm_data dm))
        | F_UINT64 \<Rightarrow> map_sum id (\<lambda>v. Some (digits (unat v))) (getUInt64 i (dm_data dm))
        | F_DOUBLE \<Rightarrow> res_bind (getDouble i (dm_data dm)) (\<lambda>v. map_sum id Some (toString_double v))
        | F_DATETIME \<Rightarrow> map_sum id (\<lambda>v. Some (digits (unat v))) (getUnixTime i (dm_data dm))
        | F_STRING \<Rightarrow> map_sum id Some (getString i (dm_data dm))
        | F_OBJECT \<Rightarrow> Inr None
        | F_Other _ \<Rightarrow> Inl Undefined))"

definition getFieldNamed :: "bytes \<Rightarrow> dynamic_message \<Rightarrow> bytes option res" where
  "getFieldNamed name dm =
     (if \<not> MessageSchema_hasFieldNamed (dm_schema dm) name then Inr None
      else res_bind (MessageSchema_fieldId (dm_schema dm) name) (\<lambda>i. getField i dm))"

definition DynamicMessage_toJSON :: "dynamic_message \<Rightarrow> json_writer \<Rightarrow> json_writer res" where
  "DynamicMessage_toJSON dm = JSONEncoder_encode (dm_schema dm) (dm_data dm)"

text \<open>
  \<open>fromJSON\<close> goes through the fields of the schema. The value of a field is taken by
  \<open>fromJSON_value\<close>, which for an object falls through to the case of strings, as the code does; an
  array is taken element by element, up to and with the token that ends it. \<open>now p\<close> is the clock
  when the value at \<open>p\<close> is converted. The loop over an array never ends at a token of
  size 0, which the parser does not make.
\<close>

function (sequential) fromJSON_fields ::
    "(bytes \<Rightarrow> tm option) \<Rightarrow> (bytes \<Rightarrow> double res) \<Rightarrow> (nat \<Rightarrow> u64) \<Rightarrow> json_object \<Rightarrow> nat \<Rightarrow> nat \<Rightarrow>
     schema_field list \<Rightarrow> dynamic_message \<Rightarrow> dynamic_message res"
  and fromJSON_value ::
    "(bytes \<Rightarrow> tm option) \<Rightarrow> (bytes \<Rightarrow> double res) \<Rightarrow> (nat \<Rightarrow> u64) \<Rightarrow> json_object \<Rightarrow> nat \<Rightarrow> nat \<Rightarrow>
     bytes \<Rightarrow> dynamic_message \<Rightarrow> dynamic_message res"
  and fromJSON_elements ::
    "(bytes \<Rightarrow> tm option) \<Rightarrow> (bytes \<Rightarrow> double res) \<Rightarrow> (nat \<Rightarrow> u64) \<Rightarrow> json_object \<Rightarrow> nat \<Rightarrow> nat \<Rightarrow> nat \<Rightarrow>
     bytes \<Rightarrow> dynamic_message \<Rightarrow> dynamic_message res" where
  "fromJSON_fields strptime stod now toks e b [] dm = Inr dm"
| "fromJSON_fields strptime stod now toks e b (f # fs) dm =
     res_bind (objectLookup toks b e (sf_name f)) (\<lambda>p.
       res_bind
         (if p = e then Inr dm
          else res_bind (tok_at toks p) (\<lambda>t.
            if jt_type t = JSON_ARRAY_BEGIN
            then fromJSON_elements strptime stod now toks e (min e (tok_end toks p)) (p + 1) (sf_name f) dm
            else fromJSON_value strptime stod now toks e p (sf_name f) dm))
         (\<lambda>dm. fromJSON_fields strptime stod now toks e b fs dm))"
| "fromJSON_value strptime stod now toks e p name dm =
     res_bind (tok_at toks p) (\<lambda>t.
       res_bind
         (if jt_type t = JSON_OBJECT_BEGIN
          then res_bind
            (addObject name (\<lambda>cld.
               fromJSON_fields strptime stod now toks (min e (tok_end toks p)) p (ms_fields (dm_schema cld)) cld) dm)
            (\<lambda>r. Inr (snd r))
          else Inr dm) (\<lambda>dm.
         if jt_type t \<in> {JSON_OBJECT_BEGIN, JSON_STRING, JSON_NUMBER, JSON_TRUE, JSON_FALSE}
         then res_bind (addFieldNamed strptime stod (now p) name (jt_data t) dm) (\<lambda>r. Inr (snd r))
         else Inr dm))"
| "fromJSON_elements strptime stod now toks e aend p name dm =
     (if p < min e aend then
        res_bind (tok_at toks p) (\<lambda>t.
          if jt_size t = 0 then Inl Undefined
          else res_bind (fromJSON_value strptime stod now toks e p name dm) (\<lambda>dm.
            fromJSON_elements strptime stod now toks e aend (p + unat (jt_size t)) name dm))
      else Inr dm)"
  by pat_completeness auto

termination
proof (relation "measures
    [case_sum (\<lambda>(strptime, stod, now, toks, e, b, fs, dm). e - b) (case_sum (\<lambda>(strptime, stod, now, toks, e, p, name, dm). e - p)
       (\<lambda>(strptime, stod, now, toks, e, aend, p, name, dm). e - p)),
     case_sum (\<lambda>_. 0) (case_sum (\<lambda>_. 1) (\<lambda>_. 2)),
     case_sum (\<lambda>(strptime, stod, now, toks, e, b, fs, dm). length fs) (\<lambda>_. 0)]", goal_cases)
qed (auto dest!: objectLookup_after dest: unat_pos)

declare fromJSON_elements.simps [simp del]

definition DynamicMessage_fromJSON ::
  "(bytes \<Rightarrow> tm option) \<Rightarrow> (bytes \<Rightarrow> double res) \<Rightarrow> (nat \<Rightarrow> u64) \<Rightarrow> json_object \<Rightarrow> nat \<Rightarrow> nat \<Rightarrow>
   dynamic_message \<Rightarrow> dynamic_message res" where
  "DynamicMessage_fromJSON strptime stod now toks e b dm =
     fromJSON_fields strptime stod now toks e b (ms_fields (dm_schema dm)) dm"

end
