(* ===== verification/CS_JsonRows.thy ===== *)
theory CS_JsonRows
  imports CS_JsonMessage
begin

text \<open>
  Rows of a schema survive their JSON form. \<open>row_json\<close> is the tree of a row, \<open>json_back_row\<close> what is
  read of it.
\<close>

section \<open>The tree of a row and what is read of it\<close>

text \<open>
  Only normal doubles are written as numbers (\<open>std::isnormal\<close>): zero, denormal and infinite ones become
  \<open>null\<close>. The text is that of \<open>toString(double)\<close> when it fits the buffer.
\<close>

definition double_normal :: "double \<Rightarrow> bool" where
  "double_normal v \<longleftrightarrow> double_exp v \<noteq> 0 \<and> double_exp v \<noteq> 2047"

definition double_text :: "double \<Rightarrow> bytes" where
  "double_text v = rev (strip_zeros (rev (printf_f v)))"

fun row_json :: "message_schema \<Rightarrow> message_object list \<Rightarrow> json_value" and value_json :: "schema_field \<Rightarrow> message_object \<Rightarrow> json_value" where
  "row_json (Schema _ flds _ _ _) os =
     JObj (map (\<lambda>f. (sf_name f, if sf_repeated f then JArr (map (value_json f) (children (sf_id f) os))
                              else value_json f (hd (children (sf_id f) os))))
       (filter (\<lambda>f. children (sf_id f) os \<noteq> []) flds))"
| "value_json (MessageSchemaField _ _ _ _ _ _ _ schema) m =
     (case m of
        MObject _ os \<Rightarrow> (case schema of None \<Rightarrow> JNull | Some s \<Rightarrow> row_json s os)
      | MBoolean _ b \<Rightarrow> jbool b
      | MUInt32 _ v \<Rightarrow> JNum (toString_s64 (ucast v))
      | MString _ s \<Rightarrow> JStr (clean s)
      | MUInt64 _ v \<Rightarrow> JNum (toString_s64 v)
      | MDouble _ v \<Rightarrow> (if double_normal v then JNum (double_text v) else JNull)
      | MDateTime _ v \<Rightarrow> JNum (toString_s64 v))"

text \<open>
  Fields come back in the order of the schema; strings lose the control characters JSON loses, and
  booleans do not come back: the text of the token \<open>true\<close> is empty. A double that is not normal does
  not come back, the others as \<open>stod\<close> reads their text, or not at all where it raises. A time is
  taken for seconds below \<open>3 * 10^10\<close> and for milliseconds below \<open>3 * 10^13\<close>.
\<close>

definition time_back :: "u64 \<Rightarrow> u64" where
  "time_back v =
     (let n = nat (sint v)
      in word_of_nat (if n < 30000000000 then n * 1000000 else if n < 30000000000000 then n * 1000 else n))"

definition double_back :: "(bytes \<Rightarrow> double res) \<Rightarrow> double \<Rightarrow> double list" where
  "double_back stod v =
     (if double_normal v then (case stod (double_text v) of Inl _ \<Rightarrow> [] | Inr x \<Rightarrow> [x]) else [])"

fun json_back_row :: "(bytes \<Rightarrow> double res) \<Rightarrow> message_schema \<Rightarrow> message_object list \<Rightarrow> message_object list"
  and json_back :: "(bytes \<Rightarrow> double res) \<Rightarrow> schema_field \<Rightarrow> message_object \<Rightarrow> message_object list" where
  "json_back_row stod (Schema _ flds _ _ _) os =
     concat (map (\<lambda>f. concat (map (json_back stod f) (children (sf_id f) os))) flds)"
| "json_back stod (MessageSchemaField _ _ _ _ _ _ _ schema) m =
     (case m of
        MObject i os \<Rightarrow> (case schema of None \<Rightarrow> [] | Some s \<Rightarrow> [MObject i (json_back_row stod s os)])
      | MBoolean _ _ \<Rightarrow> []
      | MString i s \<Rightarrow> [MString i (clean s)]
      | MDouble i v \<Rightarrow> map (MDouble i) (double_back stod v)
      | MDateTime i v \<Rightarrow> [MDateTime i (time_back v)]
      | m \<Rightarrow> [m])"

text \<open>
  \<open>json_names_ok\<close>: the names of the fields survive as keys. \<open>json_value_ok\<close>: the text of a double fits
  the buffer of 128 bytes it is printed into, and a time is not negative as the signed integer it is
  written as, nor one of the two limits, which are neither seconds nor milliseconds nor microseconds.
\<close>

fun json_names_ok :: "message_schema \<Rightarrow> bool" and json_name_ok :: "schema_field \<Rightarrow> bool" where
  "json_names_ok (Schema _ flds _ _ _) \<longleftrightarrow> (\<forall>f \<in> set flds. json_name_ok f)"
| "json_name_ok (MessageSchemaField _ name _ _ _ _ _ schema) \<longleftrightarrow>
     clean name = name \<and> length (escapeString name) < 8000 \<and> (case schema of None \<Rightarrow> True | Some s \<Rightarrow> json_names_ok s)"

fun json_value_ok :: "message_object \<Rightarrow> bool" where
  "json_value_ok (MObject _ os) \<longleftrightarrow> (\<forall>m \<in> set os. json_value_ok m)"
| "json_value_ok (MDouble _ v) \<longleftrightarrow> (double_normal v \<longrightarrow> length (printf_f v) \<le> 127)"
| "json_value_ok (MDateTime _ v) \<longleftrightarrow> 0 \<le> sint v \<and> sint v \<notin> {30000000000, 30000000000000}"
| "json_value_ok _ \<longleftrightarrow> True"

section \<open>Writing\<close>

definition jw_ends :: "(json_writer \<Rightarrow> json_writer res) \<Rightarrow> (token_type \<times> bytes) list \<Rightarrow> bool" where
  "jw_ends f toks \<longleftrightarrow> (\<exists>t. (\<forall>w. f w = Inr (jw_write t w)) \<and> lexes toks t \<and> t \<noteq> [] \<and> number_end t)"

lemma jw_ends_marks:
  "jw_ends jw_endObject [(JSON_OBJECT_END, [])]" "jw_ends jw_endArray [(JSON_ARRAY_END, [])]" "jw_ends jw_addComma []"
  unfolding jw_ends_def
  by (rule exI [of _ "[125]"], simp add: jw_endObject_def jw_printf_def lexes_marks number_end_def number_char_def is_digit_def)
     (rule exI [of _ "[93]"], simp add: jw_endArray_def jw_printf_def lexes_marks number_end_def number_char_def is_digit_def,
      rule exI [of _ "[44]"], simp add: jw_comma lexes_blank json_blank_def number_end_def number_char_def is_digit_def)

lemma jw_num_ended:
  assumes "jw_num f a" and "jw_ends g b"
  shows "jw_lex (\<lambda>w. res_bind (f w) g) (a @ b)"
proof -
  from assms(1) obtain t where t: "\<And>w. f w = Inr (jw_write t w)" "lexes_before_end a t" by (auto simp: jw_num_def)
  from assms(2) obtain u where u: "\<And>w. g w = Inr (jw_write u w)" "lexes b u" "u \<noteq> []" "number_end u" by (auto simp: jw_ends_def)
  show ?thesis by (rule jw_lexI [of _ "t @ u"]) (simp_all add: t(1) u(1) lexes_ended [OF t(2) u(2-4)])
qed

lemma jw_lex_num_bind: "jw_lex f a \<Longrightarrow> jw_num g b \<Longrightarrow> jw_num (\<lambda>w. res_bind (f w) g) (a @ b)"
proof -
  assume f: "jw_lex f a" and g: "jw_num g b"
  from f obtain t where t: "\<And>w. f w = Inr (jw_write t w)" "lexes a t" by (rule jw_lexE) blast
  from g obtain u where u: "\<And>w. g w = Inr (jw_write u w)" "lexes_before_end b u" by (auto simp: jw_num_def)
  show ?thesis unfolding jw_num_def
    by (rule exI [of _ "t @ u"]) (simp add: t(1) u(1) lexes_append_before [OF t(2) u(2)])
qed

text \<open>The last of several elements may be a number that is still open.\<close>

lemma jw_elements_simps:
  "jw_elements f [] w = Inr w"
  "jw_elements f [x] w = f x w"
  "jw_elements f (x # y # zs) w = res_bind (res_bind (f x w) jw_addComma) (jw_elements f (y # zs))"
proof -
  show "jw_elements f [] w = Inr w" by (simp add: jw_elements_def)
  show "jw_elements f [x] w = f x w" by (cases "f x w") (simp_all add: jw_elements_def jw_element_pair)
  have "res_fold (jw_element f) (y # zs) (True, w) =
      res_bind (jw_addComma w) (\<lambda>w. res_fold (jw_element f) (y # zs) (False, w))" for w
    by (simp add: jw_element_pair jw_comma)
  then show "jw_elements f (x # y # zs) w = res_bind (res_bind (f x w) jw_addComma) (jw_elements f (y # zs))"
    by (cases "f x w") (simp_all add: jw_elements_def jw_element_pair jw_comma del: res_fold.simps(2) add: res_fold.simps(2) [of _ x])
qed

lemma jw_num_elements:
  "(\<And>x. x \<in> set xs \<Longrightarrow> jw_num (f x) (g x)) \<Longrightarrow> jw_num (jw_elements f xs) (concat (map g xs))"
proof (induction xs)
  case Nil
  show ?case using jw_num_lex [OF jw_lex_Nil(2)] by (simp add: jw_elements_simps [abs_def])
next
  case (Cons x xs)
  have x: "jw_num (f x) (g x)" by (rule Cons.prems) simp
  show ?case
  proof (cases xs)
    case Nil
    with x show ?thesis by (simp add: jw_elements_simps(2) [abs_def])
  next
    case (Cons y ys)
    have "jw_num (jw_elements f xs) (concat (map g xs))" by (rule Cons.IH) (rule Cons.prems; simp)
    from jw_lex_num_bind [OF jw_num_ended [OF x jw_ends_marks(3)] this] show ?thesis
      by (simp add: Cons jw_elements_simps(3) [abs_def])
  qed
qed

text \<open>The text of a double is the token of a number.\<close>

lemma strip_zeros_suffix: "\<exists>z. s = z @ strip_zeros s" "s \<noteq> [] \<Longrightarrow> strip_zeros s \<noteq> []"
proof -
  show "\<exists>z. s = z @ strip_zeros s"
  proof (induction s rule: strip_zeros.induct)
    case (1 a b c cs)
    show ?case
    proof (cases "a = 48 \<and> b \<noteq> 46")
      case True
      from 1 [OF this] obtain z where "b # c # cs = z @ strip_zeros (b # c # cs)" by blast
      with True show ?thesis by (intro exI [of _ "a # z"]) simp
    qed (use append_Nil in auto)
  qed simp_all
  show "s \<noteq> [] \<Longrightarrow> strip_zeros s \<noteq> []" by (induction s rule: strip_zeros.induct) simp_all
qed

lemma pad_digits_chars: "c \<in> set (pad_digits k n) \<Longrightarrow> is_digit c"
  by (induction k n rule: pad_digits.induct) (auto simp: is_digit_char)

lemma printf_f_chars:
  assumes "double_exp v \<noteq> 2047"
  shows "\<forall>c \<in> set (printf_f v). number_char c" and "printf_f v \<noteq> []" and "hd (printf_f v) = 45 \<or> is_digit (hd (printf_f v))"
proof -
  obtain n k where p: "printf_f v = (if double_sign v then [45] else []) @ digits n @ [46] @ pad_digits 6 k"
    using assms by (simp add: printf_f_def Let_def)
  show "\<forall>c \<in> set (printf_f v). number_char c" "printf_f v \<noteq> []" "hd (printf_f v) = 45 \<or> is_digit (hd (printf_f v))"
    using digits_props [of n] pad_digits_chars [of _ 6 k] by (auto simp: p number_char_def)
qed

lemma double_text_chars:
  assumes "double_normal v"
  shows "\<forall>c \<in> set (double_text v). number_char c" "double_text v \<noteq> []" "hd (double_text v) = 45 \<or> is_digit (hd (double_text v))"
proof -
  note p = printf_f_chars [of v]
  obtain z where "rev (printf_f v) = z @ strip_zeros (rev (printf_f v))" using strip_zeros_suffix(1) by blast
  then have pre: "printf_f v = double_text v @ rev z" by (metis double_text_def rev_append rev_rev_ident)
  show n: "double_text v \<noteq> []" using strip_zeros_suffix(2) [of "rev (printf_f v)"] p(2) assms by (simp add: double_text_def double_normal_def)
  show "\<forall>c \<in> set (double_text v). number_char c" "hd (double_text v) = 45 \<or> is_digit (hd (double_text v))"
    using p assms n unfolding pre double_normal_def by simp_all
qed

lemma jw_num_float:
  assumes "double_normal v \<longrightarrow> length (printf_f v) \<le> 127"
  shows "jw_num (jw_addFloat v) (jtokens (if double_normal v then JNum (double_text v) else JNull))"
proof (cases "double_normal v")
  case True
  then have "jw_addFloat v w = Inr (jw_write (double_text v) w)" for w
    using assms by (simp add: jw_addFloat_def toString_double_def double_normal_def double_text_def Let_def)
  with True number_of_digits [OF double_text_chars] show ?thesis by (auto simp: jw_num_def)
next
  case False
  then have "jw_addFloat v w = Inr (jw_write (ascii ''null'') w)" for w
    by (auto simp: jw_addFloat_def double_normal_def jw_addNull_def)
  with False jw_lexI [of "jw_addFloat v", OF _ lexes_words(3)] show ?thesis by (auto intro: jw_num_lex)
qed

text \<open>What a value of a row is, by its field.\<close>

definition fits :: "schema_field \<Rightarrow> message_object \<Rightarrow> bool" where
  "fits f m \<longleftrightarrow> mo_id m = sf_id f \<and> mo_type m = sf_type f \<and> (\<forall>s. sf_schema f = Some s \<longrightarrow> row_ok s (mo_children m)) \<and> json_value_ok m"

lemma row_fits:
  assumes "schema_wf S" and "row_ok S os" and "\<forall>m \<in> set os. json_value_ok m" and "f \<in> set (ms_fields S)"
    and "m \<in> set (children (sf_id f) os)"
  shows "fits f m"
proof -
  have m: "m \<in> set os" "mo_id m = sf_id f" using assms(5) by (auto simp: children_def)
  have "first_field (mo_id m) (ms_fields S) = Some f"
    unfolding m(2) using schema_eqD [OF assms(1)] assms(4) by (intro first_field_distinct) auto
  moreover have "value_ok S m" using assms(2) m(1) by (auto simp: row_ok_def list_all_iff)
  ultimately have v: "mo_type m = sf_type f"
    "sf_type f = F_OBJECT \<Longrightarrow> \<exists>s. sf_schema f = Some s \<and> row_ok s (mo_children m) \<and> asObject m = Inr (mo_children m)"
    by (metis value_okD(1), metis value_okD(2))
  have "field_wf f" using schema_eqD [OF assms(1)] assms(4) by blast
  then have "sf_schema f \<noteq> None \<Longrightarrow> sf_type f = F_OBJECT" by (cases f) (auto split: option.splits)
  with v m assms(3) show ?thesis by (auto simp: fits_def)
qed

lemma row_single:
  assumes "row_ok S os" and "f \<in> set (ms_fields S)" and "\<not> sf_repeated f" and "children (sf_id f) os \<noteq> []"
  shows "children (sf_id f) os = [hd (children (sf_id f) os)]"
proof -
  have "length (children (sf_id f) os) \<le> 1" using assms(1-3) by (auto simp: row_ok_def counts_ok_def list_all_iff Let_def)
  with assms(4) show ?thesis by (cases "children (sf_id f) os") auto
qed

lemma row_written:
  shows "schema_wf S \<Longrightarrow> json_names_ok S \<Longrightarrow> row_ok S os \<Longrightarrow> \<forall>m \<in> set os. json_value_ok m \<Longrightarrow>
      jw_lex (JSONEncoder_encode S (MObject i os)) (jtokens (row_json S os))"
    and "field_wf f \<Longrightarrow> json_name_ok f \<Longrightarrow> fits f m \<Longrightarrow> jw_num (encodeField f m) (jtokens (value_json f m))"
proof (induction S and f arbitrary: os i and m)
  case (Schema name flds ids types names)
  let ?S = "Schema name flds ids types names"
  let ?cs = "\<lambda>f. children (sf_id f) os"
  let ?tree = "\<lambda>f. if sf_repeated f then JArr (map (value_json f) (?cs f)) else value_json f (hd (?cs f))"
  let ?entry = "\<lambda>f w. res_bind (jw_addObjectEntry (sf_name f) w) (\<lambda>w.
         res_bind (if sf_repeated f then jw_beginArray w else Inr w) (\<lambda>w.
         res_bind (jw_elements (encodeField f) (?cs f) w) (\<lambda>w.
           if sf_repeated f then jw_endArray w else Inr w)))"
  have entry: "jw_num (?entry f) ((JSON_STRING, sf_name f) # jtokens (?tree f))"
    if f: "f \<in> set flds" and cs: "?cs f \<noteq> []" for f
  proof -
    have fwf: "field_wf f" using schema_eqD [OF Schema.prems(1)] f by simp
    have name: "json_name_ok f" using Schema.prems(2) f by simp
    have val: "jw_num (encodeField f m) (jtokens (value_json f m))" if "m \<in> set (?cs f)" for m
      using Schema.IH [OF f fwf name row_fits [OF Schema.prems(1,3,4)]] f that by simp
    have key: "jw_lex (jw_addObjectEntry (sf_name f)) [(JSON_STRING, sf_name f)]"
      using jw_lex_entry [of "sf_name f"] name by (cases f) simp
    show ?thesis
    proof (cases "sf_repeated f")
      case True
      have "jw_num (jw_elements (encodeField f) (?cs f)) (concat (map (\<lambda>m. jtokens (value_json f m)) (?cs f)))"
        by (rule jw_num_elements) (rule val)
      from jw_lex_bind [OF key jw_lex_bind [OF jw_lex_marks(3) jw_num_ended [OF this jw_ends_marks(2)]]]
      show ?thesis using True by (intro jw_num_lex) (simp add: comp_def)
    next
      case False
      with row_single [OF Schema.prems(3), of f, OF _ False cs] f obtain c where c: "?cs f = [c]" by auto
      have "jw_num (encodeField f c) (jtokens (value_json f c))" by (rule val) (simp add: c)
      from jw_lex_num_bind [OF key this] show ?thesis using False by (simp add: c jw_elements_simps(2) [abs_def])
    qed
  qed
  have "jw_num (jw_elements ?entry (filter (\<lambda>f. ?cs f \<noteq> []) flds))
      (concat (map (\<lambda>f. (JSON_STRING, sf_name f) # jtokens (?tree f)) (filter (\<lambda>f. ?cs f \<noteq> []) flds)))"
    by (rule jw_num_elements) (use entry in auto)
  from jw_lex_bind [OF jw_lex_marks(1) jw_num_ended [OF this jw_ends_marks(1)]]
  show ?case by (simp add: comp_def)
next
  case (MessageSchemaField j name type n rep opt enc sub)
  show ?case
  proof (cases m)
    case (MObject k os)
    with MessageSchemaField.prems obtain s where s: "sub = Some s" "type = F_OBJECT" "schema_wf s" "row_ok s os"
      by (auto simp: fits_def split: option.splits)
    have "jw_lex (JSONEncoder_encode s (MObject k os)) (jtokens (row_json s os))"
      by (rule MessageSchemaField.IH) (use s MObject MessageSchemaField.prems in \<open>auto simp: fits_def\<close>)
    then show ?thesis by (intro jw_num_lex) (simp add: MObject s)
  next
    case (MBoolean k b)
    have "encodeField (MessageSchemaField j name F_BOOLEAN n rep opt enc sub) m = jw_addBool b"
      by (rule ext) (simp add: MBoolean jw_addBool_def)
    with jw_num_lex [OF jw_lex_bool] MessageSchemaField.prems show ?thesis by (simp add: MBoolean fits_def)
  qed (use MessageSchemaField.prems jw_num_integer jw_num_float jw_num_lex [OF jw_lex_string] in \<open>auto simp: fits_def\<close>)
qed

end
