(* ===== verification/CS_JsonReadRows.thy ===== *)
theory CS_JsonReadRows
  imports CS_JsonRows
begin

text \<open>Reading the tree of a row: \<open>fromJSON\<close> adds, field by field, what \<open>json_back\<close> says.\<close>

section \<open>Lookups in a schema\<close>

lemma ms_field_types_fold:
  "ms_field_types (fold MessageSchema_addField fs S) i =
     (case ms_field_types S i of Some t \<Rightarrow> Some t | None \<Rightarrow> map_option sf_type (first_field i fs))"
proof (induction fs arbitrary: S)
  case (Cons f fs)
  have "ms_field_types (MessageSchema_addField f S) i =
      (if ms_field_types S i = None \<and> sf_id f = i then Some (sf_type f) else ms_field_types S i)"
    by (cases S) (simp add: emplace_def split: option.splits)
  with Cons show ?case by (simp split: option.splits)
qed (simp split: option.splits)

lemma field_lookups:
  assumes "schema_wf S" and "f \<in> set (ms_fields S)"
  shows "MessageSchema_hasFieldNamed S (sf_name f)" and "MessageSchema_fieldId S (sf_name f) = Inr (sf_id f)"
    and "MessageSchema_hasField S (sf_id f)" and "MessageSchema_fieldType S (sf_id f) = Inr (sf_type f)"
    and "MessageSchema_fieldSchema S (sf_id f) = Inr (sf_schema f)"
proof -
  have f: "field_named (sf_name f) S = Some f" using assms by (simp add: field_named_iff)
  show id: "MessageSchema_fieldId S (sf_name f) = Inr (sf_id f)" by (rule field_idD(1) [OF assms(1) f])
  then show "MessageSchema_hasFieldNamed S (sf_name f)"
    by (auto simp: MessageSchema_fieldId_def MessageSchema_hasFieldNamed_def split: option.splits)
  note first = field_schemaD(1) [OF assms(1) f]
  let ?e = "MessageSchema_setName (ms_name S) empty_schema"
  have "ms_field_types (fold MessageSchema_addField (ms_fields S) ?e) (sf_id f) = Some (sf_type f)"
    by (simp add: ms_field_types_fold empty_schema_def first)
  moreover have "S = fold MessageSchema_addField (ms_fields S) ?e"
    using schema_eqD [OF assms(1)] by (simp add: MessageSchema_def)
  ultimately have t: "ms_field_types S (sf_id f) = Some (sf_type f)" by simp
  have "field_wf f" using schema_eqD [OF assms(1)] assms(2) by blast
  then have "sf_id f \<noteq> 0" by (cases f) simp
  with t show "MessageSchema_hasField S (sf_id f)" "MessageSchema_fieldType S (sf_id f) = Inr (sf_type f)"
    by (simp_all add: MessageSchema_hasField_def MessageSchema_fieldType_def)
  show "MessageSchema_fieldSchema S (sf_id f) = Inr (sf_schema f)" by (rule field_schemaD(2) [OF assms(1) f])
qed

abbreviation dm_of :: "message_schema \<Rightarrow> message_object list \<Rightarrow> dynamic_message" where
  "dm_of S os \<equiv> \<lparr>dm_schema = S, dm_data = MObject 0 os\<rparr>"

section \<open>One value\<close>

lemma addField_back:
  assumes S: "schema_wf S" "f \<in> set (ms_fields S)" and fits: "fits f m" and t: "mo_type m \<noteq> F_OBJECT"
  shows "jt_type (hd (jflat (value_json f m))) = JSON_NULL \<Longrightarrow> json_back stod f m = []"
    and "jt_type (hd (jflat (value_json f m))) \<noteq> JSON_NULL \<Longrightarrow>
      \<exists>r. addFieldNamed strptime stod now (sf_name f) (jt_data (hd (jflat (value_json f m)))) (dm_of S acc) =
        Inr (r, dm_of S (acc @ json_back stod f m))"
proof -
  note look = field_lookups [OF S]
  have u: "ucast (ucast v :: u64) = v" for v :: u32 by (simp add: unsigned_ucast_eq)
  have time: "parseTime strptime (toString_s64 v) now = Inr (Some (time_back v))"
    if "0 \<le> sint v" "sint v \<noteq> 30000000000" "sint v \<noteq> 30000000000000" for v
  proof -
    have n: "nat (sint v) < 2 ^ 64" using sint_lt [of v] by simp
    have "toString_s64 v = digits (nat (sint v))" using that(1) by (simp add: toString_s64_def)
    then show ?thesis using parseTime_timestamp [OF n, of strptime now] that(2,3) by (simp add: time_back_def Let_def nat_eq_iff)
  qed
  show "jt_type (hd (jflat (value_json f m))) = JSON_NULL \<Longrightarrow> json_back stod f m = []"
    by (cases m; cases f) (use fits t in \<open>auto simp: fits_def double_back_def\<close>)
  show "jt_type (hd (jflat (value_json f m))) \<noteq> JSON_NULL \<Longrightarrow>
      \<exists>r. addFieldNamed strptime stod now (sf_name f) (jt_data (hd (jflat (value_json f m)))) (dm_of S acc) =
        Inr (r, dm_of S (acc @ json_back stod f m))"
    by (cases m; cases f)
       (use fits t look time in \<open>auto simp: fits_def addFieldNamed_def dm_named_def addField_def dm_try_def dm_addChild_def
          dm_refuse_def stoull_s64 u parseBoolean_def ascii_def double_back_def split: sum.split\<close>)
qed

text \<open>What the induction over the schema says of the subschema of a field.\<close>

definition reads_rows ::
  "(bytes \<Rightarrow> tm option) \<Rightarrow> (bytes \<Rightarrow> double res) \<Rightarrow> (nat \<Rightarrow> u64) \<Rightarrow> json_object \<Rightarrow> message_schema \<Rightarrow> bool" where
  "reads_rows strptime stod now toks S \<longleftrightarrow>
     (\<forall>os e b. row_ok S os \<and> (\<forall>m \<in> set os. json_value_ok m) \<and> jat toks b (row_json S os) \<and> jsmall (row_json S os) \<and>
        b + length (jflat (row_json S os)) \<le> e \<longrightarrow>
      fromJSON_fields strptime stod now toks e b (ms_fields S) (DynamicMessage S) = Inr (dm_of S (json_back_row stod S os)))"

lemma value_back:
  assumes S: "schema_wf S" "f \<in> set (ms_fields S)" and fits: "fits f m"
    and v: "jat toks p (value_json f m)" "jsmall (value_json f m)" "p + length (jflat (value_json f m)) \<le> e"
    and sub: "\<And>s. sf_schema f = Some s \<Longrightarrow> reads_rows strptime stod now toks s"
  shows "fromJSON_value strptime stod now toks e p (sf_name f) (dm_of S acc) = Inr (dm_of S (acc @ json_back stod f m))"
proof -
  note look = field_lookups [OF S]
  note head = jat_head [OF v(1)]
  obtain j name type n rep opt enc schema where f: "f = MessageSchemaField j name type n rep opt enc schema" by (cases f)
  show ?thesis
  proof (cases "mo_type m = F_OBJECT")
    case True
    then obtain k os where m: "m = MObject k os" by (cases m) auto
    have "field_wf f" using schema_eqD [OF S(1)] S(2) by blast
    with fits True obtain s where s: "sf_schema f = Some s" "sf_type f = F_OBJECT" "row_ok s os" "\<forall>m \<in> set os. json_value_ok m"
      "k = sf_id f"
      by (auto simp: fits_def f m split: option.splits)
    have tree: "value_json f m = row_json s os" "json_back stod f m = [MObject k (json_back_row stod s os)]" using s by (simp_all add: f m)
    obtain kvs where kvs: "row_json s os = JObj kvs" by (cases s) simp
    have ty: "jt_type (toks ! p) = JSON_OBJECT_BEGIN" "jt_data (toks ! p) = []"
      using head(2,3) by (simp_all add: tree kvs container_def)
    have "tok_end toks p = p + length (jflat (row_json s os))" using head(4) v(2) by (simp add: tok_end_def tree)
    with v(3) have e: "min e (tok_end toks p) = p + length (jflat (row_json s os))" by (simp add: tree)
    have "fromJSON_fields strptime stod now toks (min e (tok_end toks p)) p (ms_fields s) (DynamicMessage s) =
        Inr (dm_of s (json_back_row stod s os))"
      using sub [OF s(1)] s(3,4) v(1,2) by (simp add: reads_rows_def e tree)
    moreover have "dm_schema (DynamicMessage s) = s" by (simp add: DynamicMessage_def)
    ultimately show ?thesis using look s ty head(5)
      by (simp add: tree addObject_def addFieldNamed_def dm_named_def addField_def dm_refuse_def dm_addChild_def)
  next
    case False
    note added = addField_back(1) [OF S fits False, of stod, folded head(2)]
      addField_back(2) [OF S fits False, where stod = stod and strptime = strptime and now = "now p" and acc = acc, folded head(2,3)]
    have "jt_type (toks ! p) \<in> {JSON_STRING, JSON_NUMBER, JSON_TRUE, JSON_FALSE, JSON_NULL}"
      using head(2) False fits by (cases m) (auto simp: f fits_def)
    with added head(5) show ?thesis by (cases "jt_type (toks ! p) = JSON_NULL") auto
  qed
qed

lemma elements_back:
  assumes S: "schema_wf S" "f \<in> set (ms_fields S)" and fits: "\<forall>m \<in> set ms. fits f m"
    and d: "drop p toks = concat (map (\<lambda>m. jflat (value_json f m)) ms) @ JSONToken JSON_ARRAY_END [] # rest"
    and aend: "aend = p + length (concat (map (\<lambda>m. jflat (value_json f m)) ms)) + 1" and e: "aend \<le> e"
    and small: "\<forall>m \<in> set ms. jsmall (value_json f m)"
    and sub: "\<And>s. sf_schema f = Some s \<Longrightarrow> reads_rows strptime stod now toks s"
  shows "fromJSON_elements strptime stod now toks e aend p (sf_name f) (dm_of S acc) =
    Inr (dm_of S (acc @ concat (map (json_back stod f) ms)))"
  using fits d aend small
proof (induction ms arbitrary: p acc)
  case Nil
  then have "p < length toks" "toks ! p = JSONToken JSON_ARRAY_END []" by (simp_all add: drop_Cons_iff)
  then show ?case using Nil(3) e
    by (simp add: fromJSON_elements.simps [of _ _ _ _ _ _ p] fromJSON_elements.simps [of _ _ _ _ _ _ "Suc p"] tok_at_def)
next
  case (Cons m ms)
  let ?v = "value_json f m"
  have v: "jat toks p ?v" using Cons.prems(2) by (simp add: jat_def)
  note head = jat_head [OF v]
  have l: "length (jflat ?v) > 0" using jflat_Cons [of ?v] by auto
  have sz: "unat (jt_size (toks ! p)) = length (jflat ?v)" using head(4) Cons.prems(4) by simp
  moreover from this l have "jt_size (toks ! p) \<noteq> 0" by auto
  moreover have "fromJSON_value strptime stod now toks e p (sf_name f) (dm_of S acc) = Inr (dm_of S (acc @ json_back stod f m))"
    by (rule value_back [OF S _ v _ _ sub]) (use Cons.prems e in auto)
  moreover have "fromJSON_elements strptime stod now toks e aend (p + length (jflat ?v)) (sf_name f) (dm_of S (acc @ json_back stod f m)) =
      Inr (dm_of S ((acc @ json_back stod f m) @ concat (map (json_back stod f) ms)))"
  proof (rule Cons.IH)
    show "drop (p + length (jflat ?v)) toks = concat (map (\<lambda>m. jflat (value_json f m)) ms) @ JSONToken JSON_ARRAY_END [] # rest"
      by (rule drop_append_iff) (use Cons.prems(2) in simp)
  qed (use Cons.prems in auto)
  ultimately show ?case using head(5) Cons.prems(3) e l
    by (simp add: fromJSON_elements.simps [of _ _ _ _ _ _ p])
qed

section \<open>All fields\<close>

lemma map_of_fields:
  assumes "distinct (map sf_name fs)" and "f \<in> set fs"
  shows "map_of (map (\<lambda>f. (sf_name f, g f)) (filter P fs)) (sf_name f) = (if P f then Some (g f) else None)"
  using assms by (induction fs) (auto simp: map_of_eq_None_iff image_iff intro!: map_of_eq_None_iff [THEN iffD2])

lemma value_json_type: "fits f c \<Longrightarrow> field_wf f \<Longrightarrow> jt_type (hd (jflat (value_json f c))) \<noteq> JSON_ARRAY_BEGIN"
proof -
  assume a: "fits f c" "field_wf f"
  have "jt_type (hd (jflat (row_json s os))) = JSON_OBJECT_BEGIN" for s os by (cases s) simp
  with a show ?thesis by (cases f; cases c) (auto simp: fits_def split: option.splits)
qed

lemma length_concat_part: "m \<in> set ms \<Longrightarrow> length (h m) \<le> length (concat (map h ms))"
  by (induction ms) auto

lemma fields_back:
  assumes S: "schema_wf S" and row: "row_ok S os" "\<forall>m \<in> set os. json_value_ok m"
    and v: "jat toks b (row_json S os)" "jsmall (row_json S os)" "b + length (jflat (row_json S os)) \<le> e"
    and sub: "\<And>f s. f \<in> set (ms_fields S) \<Longrightarrow> sf_schema f = Some s \<Longrightarrow> reads_rows strptime stod now toks s"
    and fs: "set fs \<subseteq> set (ms_fields S)"
  shows "fromJSON_fields strptime stod now toks e b fs (dm_of S acc) =
    Inr (dm_of S (acc @ concat (map (\<lambda>f. concat (map (json_back stod f) (children (sf_id f) os))) fs)))"
  using fs
proof (induction fs arbitrary: acc)
  case (Cons f fs)
  let ?cs = "children (sf_id f) os"
  let ?tree = "\<lambda>f. if sf_repeated f then JArr (map (value_json f) (children (sf_id f) os))
      else value_json f (hd (children (sf_id f) os))"
  let ?kvs = "map (\<lambda>f. (sf_name f, ?tree f)) (filter (\<lambda>f. children (sf_id f) os \<noteq> []) (ms_fields S))"
  have kvs: "row_json S os = JObj ?kvs" by (cases S) simp
  from Cons.prems have f: "f \<in> set (ms_fields S)" by simp
  have fits: "\<forall>m \<in> set ?cs. fits f m" using row_fits [OF S row f] by blast
  have key: "map_of ?kvs (sf_name f) = (if ?cs \<noteq> [] then Some (?tree f) else None)"
    by (rule map_of_fields) (use schema_eqD [OF S] f in auto)
  note look = objectLookup_tree [OF v(1) [unfolded kvs] v(3) [unfolded kvs] v(2) [unfolded kvs], of "sf_name f", unfolded key]
  have rest: "fromJSON_fields strptime stod now toks e b fs (dm_of S (acc @ concat (map (json_back stod f) ?cs))) =
      Inr (dm_of S ((acc @ concat (map (json_back stod f) ?cs)) @
        concat (map (\<lambda>f. concat (map (json_back stod f) (children (sf_id f) os))) fs)))"
    by (rule Cons.IH) (use Cons.prems in simp)
  show ?case
  proof (cases "?cs = []")
    case True
    with look rest show ?thesis by simp
  next
    case False
    with look obtain p where p: "objectLookup toks b e (sf_name f) = Inr p" "jat toks p (?tree f)" "jsmall (?tree f)"
      "b < p" "p + length (jflat (?tree f)) < e" by (auto simp del: jflat.simps)
    note head = jat_head [OF p(2)]
    have "(if jt_type (toks ! p) = JSON_ARRAY_BEGIN
            then fromJSON_elements strptime stod now toks e (min e (tok_end toks p)) (p + 1) (sf_name f) (dm_of S acc)
            else fromJSON_value strptime stod now toks e p (sf_name f) (dm_of S acc)) =
        Inr (dm_of S (acc @ concat (map (json_back stod f) ?cs)))"
    proof (cases "sf_repeated f")
      case True
      let ?body = "concat (map (\<lambda>m. jflat (value_json f m)) ?cs)"
      have arr: "jflat (?tree f) = container JSON_ARRAY_BEGIN JSON_ARRAY_END ?body" using True by (simp add: comp_def)
      from p(2) obtain r where "drop p toks = jflat (?tree f) @ r" by (auto simp: jat_def)
      then have d: "drop (p + 1) toks = ?body @ JSONToken JSON_ARRAY_END [] # r"
        unfolding arr by (simp add: container_def drop_Cons_iff)
      have te: "tok_end toks p = p + 1 + length ?body + 1"
        using head(4) [OF p(3)] unfolding tok_end_def arr by simp
      have "length (jflat (value_json f m)) \<le> length ?body" if "m \<in> set ?cs" for m
        using that by (rule length_concat_part)
      moreover have "length ?body < 2 ^ 32" using p(3) unfolding jsmall_def arr by simp
      ultimately have small: "\<forall>m \<in> set ?cs. jsmall (value_json f m)" unfolding jsmall_def by fastforce
      have min: "min e (tok_end toks p) = p + 1 + length ?body + 1" using te p(5) unfolding arr by simp
      have "fromJSON_elements strptime stod now toks e (min e (tok_end toks p)) (p + 1) (sf_name f) (dm_of S acc) =
          Inr (dm_of S (acc @ concat (map (json_back stod f) ?cs)))"
        by (rule elements_back [OF S f fits d _ _ small sub [OF f]]) (use min te in simp_all)
      moreover have "jt_type (toks ! p) = JSON_ARRAY_BEGIN" using head(2) unfolding arr by simp
      ultimately show ?thesis by simp
    next
      case False
      from row_single [OF row(1) f False \<open>?cs \<noteq> []\<close>] obtain c where c: "?cs = [c]" by metis
      have tree: "?tree f = value_json f c" using False by (simp add: c)
      have "fits f c" using fits c by simp
      then have "jt_type (toks ! p) \<noteq> JSON_ARRAY_BEGIN"
        using head(2) value_json_type schema_eqD [OF S] f unfolding tree by metis
      moreover have "fromJSON_value strptime stod now toks e p (sf_name f) (dm_of S acc) = Inr (dm_of S (acc @ json_back stod f c))"
        by (rule value_back [OF S f \<open>fits f c\<close> _ _ _ sub [OF f]]) (use p tree in simp_all)
      ultimately show ?thesis by (simp add: c)
    qed
    with p(1,5) head(5) rest show ?thesis by simp
  qed
qed simp

lemma rows_read:
  shows "schema_wf S \<Longrightarrow> reads_rows strptime stod now toks S"
    and "field_wf f \<Longrightarrow> sf_schema f = Some s \<Longrightarrow> reads_rows strptime stod now toks s"
proof (induction S and f arbitrary: and s)
  case (Schema name flds ids types names)
  have sub: "reads_rows strptime stod now toks s" if "f \<in> set flds" "sf_schema f = Some s" for f s
    using Schema.IH [OF that(1) _ that(2)] schema_eqD [OF Schema.prems] that(1) by simp
  show ?case unfolding reads_rows_def
  proof (intro allI impI)
    let ?S = "Schema name flds ids types names"
    fix os e b
    assume r: "row_ok ?S os \<and> (\<forall>m \<in> set os. json_value_ok m) \<and> jat toks b (row_json ?S os) \<and>
      jsmall (row_json ?S os) \<and> b + length (jflat (row_json ?S os)) \<le> e"
    have "fromJSON_fields strptime stod now toks e b (ms_fields ?S) (dm_of ?S []) =
        Inr (dm_of ?S ([] @ concat (map (\<lambda>f. concat (map (json_back stod f) (children (sf_id f) os))) (ms_fields ?S))))"
      by (rule fields_back [OF Schema.prems]) (use r sub in auto)
    then show "fromJSON_fields strptime stod now toks e b (ms_fields ?S) (DynamicMessage ?S) = Inr (dm_of ?S (json_back_row stod ?S os))"
      by (simp add: DynamicMessage_def)
  qed
next
  case (MessageSchemaField j name type n rep opt enc sub)
  then show ?case by (cases sub) auto
qed

section \<open>Rows survive\<close>

lemma row_json_roundtrip:
  assumes "schema_wf S" and "json_names_ok S" and "row_ok S os" and "\<forall>m \<in> set os. json_value_ok m" and "jsmall (row_json S os)"
  shows "\<exists>w toks. DynamicMessage_toJSON \<lparr>dm_schema = S, dm_data = MObject i os\<rparr> (JSONOutputStream []) = Inr w \<and>
    parseJSON_string (jw_out w) = Some (Inr toks) \<and>
    DynamicMessage_fromJSON strptime stod now toks (length toks) 0 (DynamicMessage S) = Inr (dm_of S (json_back_row stod S os))"
proof -
  from row_written(1) [OF assms(1-4), of i] obtain t where
    t: "\<And>w. JSONEncoder_encode S (MObject i os) w = Inr (jw_write t w)" "lexes (jtokens (row_json S os)) t" by (rule jw_lexE) blast
  have "parseJSON_string t = Some (Inr (jflat (row_json S os)))"
    unfolding parseJSON_string_def by (subst parseJSON_read) (simp_all add: ms_rest_def lexes_parsed [OF t(2)])
  moreover have "DynamicMessage_fromJSON strptime stod now (jflat (row_json S os)) (length (jflat (row_json S os))) 0 (DynamicMessage S) =
      Inr (dm_of S (json_back_row stod S os))"
    using rows_read(1) [OF assms(1), of strptime stod now "jflat (row_json S os)"] assms(3-5) jat_start [of "row_json S os"]
    by (simp add: reads_rows_def DynamicMessage_fromJSON_def DynamicMessage_def)
  ultimately show ?thesis using t(1) [of "JSONOutputStream []"]
    by (simp add: DynamicMessage_toJSON_def jw_write_def os_write_def JSONOutputStream_def)
qed

text \<open>
  Without booleans and lost characters, with normal doubles that \<open>stod\<close> reads back from their text,
  and with times that are not taken for seconds or milliseconds, what comes back is the row, up to the
  order of fields.
\<close>

fun json_kept :: "(bytes \<Rightarrow> double res) \<Rightarrow> message_object \<Rightarrow> bool" where
  "json_kept stod (MObject _ os) \<longleftrightarrow> (\<forall>m \<in> set os. json_kept stod m)"
| "json_kept stod (MBoolean _ _) \<longleftrightarrow> False"
| "json_kept stod (MString _ s) \<longleftrightarrow> clean s = s"
| "json_kept stod (MDouble _ v) \<longleftrightarrow> double_normal v \<and> stod (double_text v) = Inr v"
| "json_kept stod (MDateTime _ v) \<longleftrightarrow> v = 0 \<or> 30000000000000 < sint v"
| "json_kept stod _ \<longleftrightarrow> True"

lemma json_kept_back:
  "json_kept stod (MDouble i v) \<Longrightarrow> double_back stod v = [v]"
  "json_kept stod (MDateTime i t) \<Longrightarrow> time_back t = t"
  by (auto simp: double_back_def time_back_def Let_def of_nat_nat)

lemma concat_first_field:
  "distinct (map sf_id fs) \<Longrightarrow>
   concat (map (\<lambda>f. if sf_id f = k then h f else []) fs) = (case first_field k fs of None \<Rightarrow> [] | Some f \<Rightarrow> h f)"
proof (induction fs)
  case (Cons f fs)
  have "sf_id f = k \<Longrightarrow> concat (map (\<lambda>f. if sf_id f = k then h f else []) fs) = []" using Cons.prems by (auto simp: image_iff)
  with Cons show ?case by auto
qed simp

lemma list_all2_singles:
  "(\<And>m. m \<in> set ms \<Longrightarrow> \<exists>m'. g m = [m'] \<and> r m m') \<Longrightarrow> list_all2 r ms (concat (map g ms))"
proof (induction ms)
  case (Cons m ms)
  from Cons.prems [of m] obtain m' where "g m = [m']" "r m m'" by auto
  moreover have "list_all2 r ms (concat (map g ms))" by (rule Cons.IH) (rule Cons.prems; simp)
  ultimately show ?case by simp
qed simp

lemma json_back_id: "x \<in> set (json_back stod f m) \<Longrightarrow> mo_id x = mo_id m"
  by (cases f; cases m) (auto split: option.splits)

lemma children_back:
  "children k (concat (map (json_back stod f) (children (sf_id f) os))) =
     (if sf_id f = k then concat (map (json_back stod f) (children k os)) else [])"
proof -
  have id: "x \<in> set (concat (map (json_back stod f) (children (sf_id f) os))) \<Longrightarrow> mo_id x = sf_id f" for x
    by (auto simp: children_def dest: json_back_id)
  show ?thesis
  proof (cases "sf_id f = k")
    case True
    then show ?thesis using id unfolding children_def [of k "concat _"] by (simp add: filter_id_conv)
  next
    case False
    then show ?thesis using id unfolding children_def [of k "concat _"] by (simp add: filter_empty_conv)
  qed
qed

lemma row_same:
  shows "schema_wf S \<Longrightarrow> row_ok S os \<Longrightarrow> \<forall>m \<in> set os. json_value_ok m \<and> json_kept stod m \<Longrightarrow>
      same (MObject i os) (MObject i (json_back_row stod S os))"
    and "field_wf f \<Longrightarrow> fits f m \<Longrightarrow> json_kept stod m \<Longrightarrow> \<exists>m'. json_back stod f m = [m'] \<and> same m m'"
proof (induction S and f arbitrary: os i and m)
  case (Schema name flds ids types names)
  let ?S = "Schema name flds ids types names"
  note S = schema_eqD [OF Schema.prems(1)]
  have split: "children k (json_back_row stod ?S os) =
      (case first_field k flds of None \<Rightarrow> [] | Some f \<Rightarrow> concat (map (json_back stod f) (children k os)))" for k
  proof -
    have "children k (json_back_row stod ?S os) =
        concat (map (\<lambda>f. children k (concat (map (json_back stod f) (children (sf_id f) os)))) flds)"
      by (simp add: children_def filter_concat comp_def)
    also have "\<dots> = concat (map (\<lambda>f. if sf_id f = k then concat (map (json_back stod f) (children k os)) else []) flds)"
      by (simp only: children_back)
    also have "\<dots> = (case first_field k flds of None \<Rightarrow> [] | Some f \<Rightarrow> concat (map (json_back stod f) (children k os)))"
      by (rule concat_first_field) (use S in simp)
    finally show ?thesis .
  qed
  have "list_all2 same (children k os) (children k (json_back_row stod ?S os))" for k
  proof (cases "first_field k flds")
    case None
    have "value_ok ?S m" if "m \<in> set os" for m using Schema.prems(2) that by (auto simp: row_ok_def list_all_iff)
    with None have "m \<in> set os \<Longrightarrow> mo_id m \<noteq> k" for m by (cases m) force+
    then have "children k os = []" by (auto simp: children_def filter_empty_conv)
    then show ?thesis using split [of k] None by simp
  next
    case (Some f)
    then have f: "f \<in> set flds" "sf_id f = k" by (induction flds) (auto split: if_splits)
    have "\<exists>m'. json_back stod f m = [m'] \<and> same m m'" if "m \<in> set (children k os)" for m
    proof (rule Schema.IH [OF f(1)])
      show "field_wf f" using S f(1) by simp
      show "fits f m" by (rule row_fits [OF Schema.prems(1,2)]) (use Schema.prems(3) f that in auto)
      show "json_kept stod m" using Schema.prems(3) that by (auto simp: children_def)
    qed
    from list_all2_singles [of "children k os", OF this] show ?thesis using split [of k] Some by simp
  qed
  then show ?case by (simp add: same_object del: json_back_row.simps)
next
  case (MessageSchemaField j name type n rep opt enc sub)
  show ?case
  proof (cases m)
    case (MObject k os)
    with MessageSchemaField.prems obtain s where s: "sub = Some s" "schema_wf s" "row_ok s os"
      by (auto simp: fits_def split: option.splits)
    have "same (MObject k os) (MObject k (json_back_row stod s os))"
      by (rule MessageSchemaField.IH) (use s MObject MessageSchemaField.prems in \<open>auto simp: fits_def\<close>)
    then show ?thesis by (simp add: MObject s)
  qed (use MessageSchemaField.prems json_kept_back [of stod] in \<open>auto simp: same_leaf simp del: json_kept.simps(4,5)\<close>)
qed

end
