(* ===== verification/CS_JsonTyped.thy ===== *)
theory CS_JsonTyped
  imports CS_JsonReadRows
begin

text \<open>
  Whatever tokens \<open>fromJSON\<close> is given, the message it makes has the types of its schema: an invariant
  of every operation of \<open>DynamicMessage\<close>.
\<close>

fun typed :: "message_schema \<Rightarrow> message_object \<Rightarrow> bool" where
  "typed S (MObject i os) \<longleftrightarrow>
     (case first_field i (ms_fields S) of None \<Rightarrow> False
      | Some f \<Rightarrow> sf_type f = F_OBJECT \<and> (case sf_schema f of None \<Rightarrow> False | Some s \<Rightarrow> list_all (typed s) os))"
| "typed S m \<longleftrightarrow> (case first_field (mo_id m) (ms_fields S) of None \<Rightarrow> False | Some f \<Rightarrow> sf_type f = mo_type m)"

definition dm_ok :: "message_schema \<Rightarrow> dynamic_message \<Rightarrow> bool" where
  "dm_ok S dm \<longleftrightarrow> dm_schema dm = S \<and> (\<exists>os. dm_data dm = MObject 0 os \<and> list_all (typed S) os)"

text \<open>\<open>dm_res S r\<close>: the result \<open>r\<close> of an operation that adds is an error or keeps the invariant.\<close>

definition dm_res :: "message_schema \<Rightarrow> (bool \<times> dynamic_message) res \<Rightarrow> bool" where
  "dm_res S r \<longleftrightarrow> (\<forall>x dm. r = Inr (x, dm) \<longrightarrow> dm_ok S dm)"

named_theorems dm_intros

lemma dm_resD: "dm_res S r \<Longrightarrow> r = Inr x \<Longrightarrow> dm_ok S (snd x)"
  by (cases x) (simp add: dm_res_def)

lemma dm_res_rules [dm_intros]:
  "dm_res S (Inl e)"
  "dm_ok S dm \<Longrightarrow> dm_res S (dm_refuse dm)"
  "dm_ok S dm \<Longrightarrow> typed S c \<Longrightarrow> dm_res S (dm_addChild c dm)"
  "dm_ok S dm \<Longrightarrow> dm_res S (add dm) \<Longrightarrow> dm_res S (dm_try add dm)"
  "(\<And>x. r = Inr x \<Longrightarrow> dm_res S (f x)) \<Longrightarrow> dm_res S (res_bind r f)"
  "(\<And>x. q = Some x \<Longrightarrow> dm_res S (f x)) \<Longrightarrow> dm_res S (follow f q)"
  by (cases r; cases q; auto simp: dm_res_def dm_refuse_def dm_addChild_def dm_ok_def dm_try_def split: sum.splits)+

lemma first_field_mem: "first_field i fs = Some f \<Longrightarrow> f \<in> set fs \<and> sf_id f = i"
  by (induction fs) (auto split: if_splits)

lemma field_type_first:
  assumes "schema_wf S" and "MessageSchema_hasField S i \<or> i \<noteq> 0" and "MessageSchema_fieldType S i = Inr t"
  shows "\<exists>f. first_field i (ms_fields S) = Some f \<and> sf_type f = t \<and> f \<in> set (ms_fields S)"
proof -
  let ?e = "MessageSchema_setName (ms_name S) empty_schema"
  have "S = fold MessageSchema_addField (ms_fields S) ?e" using schema_eqD [OF assms(1)] by (simp add: MessageSchema_def)
  moreover have "ms_field_types (fold MessageSchema_addField (ms_fields S) ?e) i = map_option sf_type (first_field i (ms_fields S))"
    by (simp add: ms_field_types_fold empty_schema_def)
  ultimately have types: "ms_field_types S i = map_option sf_type (first_field i (ms_fields S))" by simp
  have "field_wf f \<Longrightarrow> sf_id f \<noteq> 0" for f by (cases f) simp
  then have id: "first_field i (ms_fields S) = Some f \<Longrightarrow> i \<noteq> 0 \<and> f \<in> set (ms_fields S)" for f
    using first_field_mem schema_eqD [OF assms(1)] by blast
  show ?thesis
  proof (cases "first_field i (ms_fields S)")
    case None
    then show ?thesis using assms(2,3) types
      by (auto simp: MessageSchema_hasField_def MessageSchema_fieldType_def split: if_splits)
  next
    case (Some f)
    then show ?thesis using id [OF Some] assms(3) types by (simp add: MessageSchema_fieldType_def)
  qed
qed

lemma typed_leaf:
  assumes "schema_wf S" and "MessageSchema_hasField S (mo_id m)" and "MessageSchema_fieldType S (mo_id m) = Inr (mo_type m)"
    and "mo_type m \<noteq> F_OBJECT"
  shows "typed S m"
  using field_type_first [OF assms(1) disjI1 [OF assms(2)] assms(3)] assms(4) by (cases m) auto

lemma addField_keeps:
  assumes "schema_wf S" and "dm_ok S dm"
  shows "dm_res S (addField strptime stod now i value dm)"
proof -
  have s: "dm_schema dm = S" using assms(2) by (simp add: dm_ok_def)
  show ?thesis unfolding addField_def s
    by (auto intro!: dm_intros assms(2) typed_leaf [OF assms(1)] split: FieldType.split option.split)
qed

lemma dm_named_keeps:
  assumes "dm_ok S dm" and "\<And>i. dm_res S (add i dm)"
  shows "dm_res S (dm_named name add dm)"
  unfolding dm_named_def by (auto intro!: dm_intros assms)

lemma addObject_keeps:
  assumes S: "schema_wf S" and dm: "dm_ok S dm"
    and fn: "\<And>s cld dm'. schema_wf s \<Longrightarrow> dm_ok s cld \<Longrightarrow> fn cld = Inr dm' \<Longrightarrow> dm_ok s dm'"
  shows "dm_res S (addObject name fn dm)"
  unfolding addObject_def
proof (rule dm_named_keeps [OF dm])
  fix i
  have s: "dm_schema dm = S" using dm by (simp add: dm_ok_def)
  have sub: "typed S (set_mo_id i (dm_data sub))"
    if t: "MessageSchema_fieldType S i = Inr F_OBJECT" and p: "MessageSchema_fieldSchema S i = Inr (Some x)"
      and sub: "fn (DynamicMessage x) = Inr sub" for x sub
  proof -
    from p obtain f where f: "first_field i (ms_fields S) = Some f" "sf_schema f = Some x"
      by (auto simp: MessageSchema_fieldSchema_def split: option.splits)
    then have m: "f \<in> set (ms_fields S)" by (simp add: first_field_mem)
    have "field_wf f" using schema_eqD [OF S] m by blast
    with f(2) have x: "schema_wf x" "sf_type f = F_OBJECT" by (cases f; auto)+
    have "dm_ok x (DynamicMessage x)" by (simp add: dm_ok_def DynamicMessage_def)
    from fn [OF x(1) this sub] obtain os where "dm_data sub = MObject 0 os" "list_all (typed x) os" by (auto simp: dm_ok_def)
    with f x(2) show ?thesis by simp
  qed
  then show "dm_res S (res_bind (MessageSchema_fieldType (dm_schema dm) i) (\<lambda>t.
       if t \<noteq> F_OBJECT then dm_refuse dm
       else res_bind (MessageSchema_fieldSchema (dm_schema dm) i) (follow (\<lambda>s.
         res_bind (fn (DynamicMessage s)) (\<lambda>submsg. dm_addChild (set_mo_id i (dm_data submsg)) dm)))))"
    unfolding s by (auto intro!: dm_intros dm sub)
qed

lemma fromJSON_keeps:
  "schema_wf S \<Longrightarrow> dm_ok S dm \<Longrightarrow> fromJSON_fields strptime stod now toks e b fs dm = Inr dm' \<Longrightarrow> dm_ok S dm'"
  "schema_wf S \<Longrightarrow> dm_ok S dm \<Longrightarrow> fromJSON_value strptime stod now toks e p name dm = Inr dm' \<Longrightarrow> dm_ok S dm'"
  "schema_wf S \<Longrightarrow> dm_ok S dm \<Longrightarrow> fromJSON_elements strptime stod now toks e aend p name dm = Inr dm' \<Longrightarrow> dm_ok S dm'"
proof (induction strptime stod now toks e b fs dm and strptime stod now toks e p name dm and strptime stod now toks e aend p name dm
    arbitrary: S dm' and S dm' and S dm' rule: fromJSON_fields_fromJSON_value_fromJSON_elements.induct)
  case (1 strptime stod now toks e b dm)
  then show ?case by simp
next
  case (2 strptime stod now toks e b f fs dm)
  from "2.prems"(3) obtain p dm1 where p: "objectLookup toks b e (sf_name f) = Inr p"
    and dm1: "(if p = e then Inr dm
          else res_bind (tok_at toks p) (\<lambda>t.
            if jt_type t = JSON_ARRAY_BEGIN
            then fromJSON_elements strptime stod now toks e (min e (tok_end toks p)) (p + 1) (sf_name f) dm
            else fromJSON_value strptime stod now toks e p (sf_name f) dm)) = Inr dm1"
    and rest: "fromJSON_fields strptime stod now toks e b fs dm1 = Inr dm'"
    by (auto simp: res_bind_Inr)
  have "dm_ok S dm1"
  proof (cases "p = e")
    case True
    with dm1 "2.prems"(2) show ?thesis by simp
  next
    case False
    with dm1 obtain t where t: "tok_at toks p = Inr t" by (auto simp: res_bind_Inr)
    show ?thesis
    proof (cases "jt_type t = JSON_ARRAY_BEGIN")
      case True
      with dm1 False t have "fromJSON_elements strptime stod now toks e (min e (tok_end toks p)) (p + 1) (sf_name f) dm = Inr dm1"
        by simp
      from "2.IH"(1) [OF p False t True "2.prems"(1,2) this] show ?thesis .
    next
      case nt: False
      with dm1 False t have "fromJSON_value strptime stod now toks e p (sf_name f) dm = Inr dm1" by simp
      from "2.IH"(2) [OF p False t nt "2.prems"(1,2) this] show ?thesis .
    qed
  qed
  from "2.IH"(3) [OF p dm1 "2.prems"(1) this rest] show ?case .
next
  case (3 strptime stod now toks e p name dm)
  from "3.prems"(3) obtain t dm1 where t: "tok_at toks p = Inr t"
    and dm1: "(if jt_type t = JSON_OBJECT_BEGIN
          then res_bind
            (addObject name (\<lambda>cld.
               fromJSON_fields strptime stod now toks (min e (tok_end toks p)) p (ms_fields (dm_schema cld)) cld) dm)
            (\<lambda>r. Inr (snd r))
          else Inr dm) = Inr dm1"
    and rest: "(if jt_type t \<in> {JSON_OBJECT_BEGIN, JSON_STRING, JSON_NUMBER, JSON_TRUE, JSON_FALSE}
         then res_bind (addFieldNamed strptime stod (now p) name (jt_data t) dm1) (\<lambda>r. Inr (snd r))
         else Inr dm1) = Inr dm'"
    by (auto simp: res_bind_Inr)
  have ok1: "dm_ok S dm1"
  proof (cases "jt_type t = JSON_OBJECT_BEGIN")
    case True
    have "dm_res S (addObject name (\<lambda>cld.
        fromJSON_fields strptime stod now toks (min e (tok_end toks p)) p (ms_fields (dm_schema cld)) cld) dm)"
      by (rule addObject_keeps [OF "3.prems"(1,2)]) (rule "3.IH" [OF t True])
    with dm1 True show ?thesis by (auto simp: res_bind_Inr dest: dm_resD)
  qed (use dm1 "3.prems"(2) in simp)
  have "dm_res S (addFieldNamed strptime stod (now p) name (jt_data t) dm1)"
    unfolding addFieldNamed_def by (rule dm_named_keeps [OF ok1]) (rule addField_keeps [OF "3.prems"(1) ok1])
  with rest ok1 show ?case by (auto simp: res_bind_Inr split: if_splits dest: dm_resD)
next
  case (4 strptime stod now toks e aend p name dm)
  show ?case
  proof (cases "p < min e aend")
    case True
    with "4.prems"(3) obtain t dm1 where t: "tok_at toks p = Inr t" "jt_size t \<noteq> 0"
      and dm1: "fromJSON_value strptime stod now toks e p name dm = Inr dm1"
      and rest: "fromJSON_elements strptime stod now toks e aend (p + unat (jt_size t)) name dm1 = Inr dm'"
      by (auto simp: fromJSON_elements.simps [of _ _ _ _ _ _ p] res_bind_Inr split: if_splits)
    from "4.IH"(2) [OF True t dm1 "4.prems"(1) "4.IH"(1) [OF True t "4.prems"(1,2) dm1] rest] show ?thesis .
  next
    case False
    with "4.prems"(2,3) show ?thesis by (auto simp: fromJSON_elements.simps [of _ _ _ _ _ _ p] split: if_splits)
  qed
qed

end
