(* ===== verification/Spec2Isabelle.thy ===== *)
theory Spec2Isabelle
  imports CS_SessionV1 CS_SessionV2 CS_Fields CS_MessageCodec CS_Allocation CS_Example CS_CsvImport CS_TimeForms CS_HttpText CS_JsonTyped
begin

text \<open>
  A model of \<open>libcstable\<close>, a library that stores nested records in columns, and of the parts of
  \<open>libstx\<close> it is built from. Paths below are relative to \<open>src/\<close> for the library
  (\<open>cstable/...\<close>) and to \<open>deps/libstx/src/\<close> for \<open>stx/...\<close>.

  \<^bold>\<open>How the program works.\<close> A client describes its messages with a \<open>MessageSchema\<close>, turns it into a
  \<open>TableSchema\<close> (\<open>fromProtobuf\<close>), and creates a file with \<open>CSTableWriter\<close>, which flattens the schema
  into one column for each leaf. The \<open>RecordShredder\<close> takes a message apart into the cells of these
  columns: a value or a null, with a repetition and a definition level. Column writers encode levels
  by bit packing and values by one of seven encodings; \<open>commit\<close> writes them. Format v0.1.0 writes
  everything at once behind a header; format v0.2.0 allocates pages, writes an index of them and
  publishes the transaction in one of two checksummed meta blocks. \<open>CSTableReader\<close> opens a file,
  makes a reader for each column, and the \<open>RecordMaterializer\<close> puts messages together again.

  \<^bold>\<open>Theories\<close>, in the order of their imports:
  \<^item> \<open>CS_Prelude\<close>, \<open>CS_File\<close> (\<open>stx/io/file.cc\<close>): results with errors (\<open>error_kind\<close> are the exceptions the code raises, \<open>Undefined\<close>
    stands for undefined behaviour and is never a result a theorem promises), state passing, bytes
    and words; the flags a file is opened with and what POSIX \<open>open\<close> answers to them.
  \<^item> \<open>CS_Binary\<close>, \<open>CS_Reader\<close>, \<open>CS_Codec\<close> (\<open>stx/util/binarymessagewriter\<close>, \<open>binarymessagereader\<close>,
    \<open>stx/ieee754\<close>): the growing buffer a message is written to and the cursor it is read with; the
    locales for what a value codec promises.
  \<^item> \<open>CS_Stream\<close>, \<open>CS_Fields\<close> (\<open>stx/io/inputstream\<close>): the input streams, each an interpretation of one
    locale over the bytes it still has; typed fields written with the one and read with the other.
  \<^item> \<open>CS_SimdComp\<close>, \<open>CS_BitPack\<close> (\<open>stx/3rdparty/simdcomp\<close>, \<open>stx/util/BitPackEncoder\<close>, \<open>BitPackDecoder\<close>):
    the packing kernels lane by lane, the encoder and the decoder over blocks of 128 values.
  \<^item> \<open>CS_ColumnV1\<close>, \<open>CS_Convert\<close>, \<open>CS_Columns\<close>, \<open>CS_Dispatch\<close> (\<open>cstable/columns/v1\<close>, \<open>cstable/ColumnWriter.h\<close>,
    \<open>ColumnReader.h\<close>, \<open>stx/stringutil.cc\<close>): level streams and the image of a column, once in a locale over
    the codec of its values; the seven column classes as interpretations; the virtual calls.
  \<^item> \<open>CS_TableSchema\<close> (\<open>cstable/TableSchema.cc\<close>): schemas, copies and flat columns.
  \<^item> \<open>CS_SHA1\<close>, \<open>CS_Format\<close>, \<open>CS_TableV2\<close> (\<open>stx/SHA1.cc\<close>, \<open>cstable/cstable.cc\<close>): headers of both formats,
    meta blocks and the choice between them.
  \<^item> \<open>CS_PageManager\<close>, \<open>CS_Allocation\<close> (\<open>cstable/io\<close>, \<open>cstable/columns\<close>): pages, the page index, paged
    column writers.
  \<^item> \<open>CS_TableWriter\<close>, \<open>CS_TableReader\<close>, \<open>CS_SessionV1\<close>, \<open>CS_SessionV2\<close> (\<open>cstable/CSTableWriter.cc\<close>,
    \<open>CSTableReader.cc\<close>): whole files of both formats, and sessions of a client with them.
  \<^item> \<open>CS_Message\<close>, \<open>CS_MessageCodec\<close> (\<open>stx/protobuf\<close>): messages, their schemas, both wire formats.
  \<^item> \<open>CS_Shredder\<close>, \<open>CS_SchemaPaths\<close>, \<open>CS_Stripes\<close> (\<open>cstable/RecordShredder.cc\<close>, \<open>fromProtobuf\<close>): taking
    records apart. \<open>shred_record\<close> is the sequence of cells as a function of the message, \<open>stripe\<close> the
    cells of one column as a function of the path of its leaf.
  \<^item> \<open>CS_Materializer\<close>, \<open>CS_Rebuild\<close>, \<open>CS_LoadColumn\<close>, \<open>CS_ReaderFacts\<close>, \<open>CS_RecordSession\<close>
    (\<open>cstable/RecordMaterializer.cc\<close>): putting records together. \<open>merge\<close> is what one column adds to a
    record, independent of levels; \<open>loadColumn_ok\<close> is the simulation between the loop of the code and
    \<open>merge\<close>, \<open>rebuild_row\<close> the reason why merging all columns gives the record.
  \<^item> \<open>CS_Bits\<close>, \<open>CS_UTF8\<close>, \<open>CS_StringUtil\<close> (\<open>stx/UTF8.cc\<close>, \<open>stx/stringutil.cc\<close>): text; \<open>split_ref\<close> is splitting
    as a function of the string, to which the loops of \<open>split\<close> and \<open>replaceAll\<close> are shown equal.
  \<^item> \<open>CS_Time\<close>, \<open>CS_TimeText\<close>, \<open>CS_TimeForms\<close>, \<open>CS_Human\<close> (\<open>stx/ISO8601.cc\<close>, \<open>CivilTime\<close>, \<open>UnixTime\<close>, \<open>stx/human.cc\<close>): calendar and
    timestamps, the parsers of values people write, and the detection of data types. \<open>civil_micros\<close>
    is the calendar in closed form, \<open>iso_form\<close> the timestamps the parser accepts, \<open>value_kind\<close> and
    \<open>series_type\<close> the type of a series from the kinds of its values.
  \<^item> \<open>CS_Csv\<close>, \<open>CS_CsvImport\<close> (\<open>stx/csv\<close>, \<open>stx/io/outputstream.cc\<close>, \<open>addRecordsFromCSV\<close>): rows of text and their
    import. \<open>csv_row\<close> is the row reader as a function of the bytes left; \<open>csv_table_cells\<close> says which
    cells an import makes of its rows, \<open>csv_rows_puts\<close> that the import is the sequence of their writes.
  \<^item> \<open>CS_Uri\<close>, \<open>CS_Http\<close>, \<open>CS_HttpFacts\<close>, \<open>CS_HttpText\<close> (\<open>stx/uri.cc\<close>, \<open>stx/http\<close>): URIs and query strings, the
    incremental parser of HTTP messages, messages and their generator. \<open>line_step\<close> is the step all states
    but those of the body share; \<open>request_text\<close> and \<open>response_text\<close> are the generated texts.
  \<^item> \<open>CS_Json\<close>, \<open>CS_JsonText\<close>, \<open>CS_JsonTree\<close>, \<open>CS_JsonLookup\<close>, \<open>CS_JsonSchema\<close> (\<open>stx/json\<close>, \<open>toJSON\<close> and
    \<open>fromJSON\<close> of \<open>MessageSchema\<close>): the tokenizer and \<open>parseJSON\<close>, the writer, lookups. \<open>json_read\<close> is parsing
    as a function of the bytes, \<open>jflat\<close> the token list and \<open>jtext\<close> the text of a tree, \<open>schema_json\<close> the
    tree of a schema; \<open>lexes\<close> relates a text to the tokens it is read as.
  \<^item> \<open>CS_JsonMessage\<close>, \<open>CS_JsonRows\<close>, \<open>CS_JsonReadRows\<close>, \<open>CS_JsonTyped\<close> (\<open>stx/protobuf/JSONEncoder.cc\<close>,
    \<open>DynamicMessage.cc\<close>): messages as JSON and messages built by field name; \<open>row_json\<close> is the tree of a
    row and \<open>json_back_row\<close> what is read of it.
  \<^item> \<open>CS_Example\<close>: a schema and rows the theorems are applied to. This theory: the properties.

  \<^bold>\<open>State.\<close> Every class is a record of its members, updated by functions that return it anew. Column
  writers and readers belong to their table and are named by their index in it, so that a client
  that holds several sees the effects of all. The file is the list of its bytes, kept in the page
  manager. A hash map that the code iterates over is a list with an arbitrary permutation as
  parameter (\<open>order\<close>); memory the code reads without having written it is a parameter too (\<open>junk\<close>,
  \<open>uninit\<close>, \<open>col0\<close>).

  \<^bold>\<open>Machine integers\<close> are words of their width and wrap around. The bounds in the hypotheses are those
  the code needs: counts and sizes fit their field in the header, a file is shorter than \<open>2^63\<close> bytes,
  a path has fewer than \<open>2^32\<close> steps. \<open>session_bytes\<close> bounds the size of a file from the cells alone.
  Counters that only count what is in memory are natural numbers: the loop counters of \<open>escapeString\<close> and
  \<open>StringUtil::join\<close> and the nesting of the JSON writer (\<open>int\<close> in the code) differ from it only beyond \<open>2^31\<close> bytes,
  parts or levels, the capacity of a message writer (\<open>size_t\<close>, doubled until the data fits) only beyond \<open>2^63\<close>
  bytes, which no allocation has. The cursor of a memory stream wraps when it is skipped past \<open>2^64\<close> (\<open>ms_add\<close>).

  \<^bold>\<open>Loops\<close> are recursions with a termination proof. \<open>loadColumn\<close> and \<open>skipColumn\<close> may run for ever on a
  reader that never ends; they are partial functions, and the theorems show that they return. So are
  the loops of the text functions, for which the theorems say when they do not (\<open>isValidUTF8\<close>, \<open>split\<close>).
  \<open>MessageSchema_read\<close> has fuel, the length of its input; \<open>schema_read_fuel\<close> shows that more changes
  nothing.

  \<^bold>\<open>Assumptions.\<close> The code is compiled without \<open>STX_NODEBUG\<close>, on a little-endian 64-bit machine; memory
  allocation succeeds; a return value is moved or elided, not copied. \<open>stod\<close> of the C++ library is a
  parameter of the materializer, the CSV import and \<open>DynamicMessage\<close>, \<open>strptime\<close> of the C library and the clock are parameters of
  the parsers of time; \<open>strtoull\<close>, \<open>stoi\<close>, \<open>printf\<close> and conversions between integers and doubles are
  modelled. Writing to a file does not fail.

  \<^bold>\<open>Not modelled\<close>: protobuf descriptors of message schemas, the page writer for bit-packed
  integers (no column that works uses it), locks and the command line tool, and the parts of
  \<open>libstx\<close> the table code does not reach and that are not listed above (connections and sockets, RPC,
  the classes on top of the JSON parser, executors, statistics).
\<close>

section \<open>A table used by the examples\<close>

definition example_config :: ColumnConfig where
  "example_config = \<lparr>cc_column_id = 1, cc_column_name = [105, 100], cc_storage_type = UINT64_PLAIN,
     cc_logical_type = UNSIGNED_INT, cc_rlevel_max = 0, cc_dlevel_max = 0, cc_body_offset = 0, cc_body_size = 0\<rparr>"

definition example_schema :: table_schema where
  "example_schema = TableSchema_addUnsignedInteger [105, 100] False UINT64_PLAIN 0 []"

lemma example_flat:
  "TableSchema_flatColumns (\<lambda>_. example_config) (TableSchema_copy (\<lambda>cs. cs) example_schema) = Inr [example_config]"
  by code_simp

lemma example_fields:
  "cc_column_name example_config = [105, 100]" "cc_storage_type example_config = UINT64_PLAIN"
  by (simp_all add: example_config_def)

lemma example_levels: "cc_rlevel_max example_config = 0" "cc_dlevel_max example_config = 0"
  by (simp_all add: example_config_def)

lemma example_ok: "v1_table_ok [example_config]" "v2_table_ok [example_config]"
  by (simp_all add: v1_table_ok_def v2_table_ok_def v2_column_ok_def v1_config_ok_def v2_config_ok_def example_config_def
      known_type_def known_encoding_def)

definition example_cells :: "(bytes \<times> datum cell) list" where
  "example_cells = [([105, 100], (0, 0, Some (DUInt 7))), ([105, 100], (0, 0, Some (DUInt 9)))]"

definition example_uints :: "(bytes \<times> u64 cell) list" where
  "example_uints = [([105, 100], (0, 0, Some 7)), ([105, 100], (0, 0, Some 9))]"

section \<open>Whole tables\<close>

text \<open>
  C2. A table of format v0.1.0: for every schema whose flat columns have distinct names and known
  encodings, and every sequence of cells a client writes to its columns, creating the file, writing
  the cells, counting \<open>n\<close> rows and committing succeeds; opening the file again gives a
  reader with \<open>n\<close> records whose column readers return, cell for cell, the levels and values
  written, and are then at the end.
\<close>

theorem v1_table_roundtrip:
  assumes "TableSchema_flatColumns junk (TableSchema_copy order schema) = Inr cols"
    and "v1_table_ok cols" and "\<forall>op \<in> set ops. op_ok cols op" and "length ops < 2 ^ 64"
    and "session_bytes cols ops < 2 ^ 63"
  shows "\<exists>tw tw1 tw2 tr. CSTableWriter_createFile order junk None V0_1_0 schema = Inr tw \<and>
    res_fold tw_put ops tw = Inr tw1 \<and> CSTableWriter_commit uninit (CSTableWriter_addRows n tw1) = Inr tw2 \<and>
    CSTableReader_openFile col0 n0 (Some (pm_file (vs_pm (tw_state tw2)))) = Inr tr \<and>
    CSTableReader_numRecords tr = n \<and>
    (\<forall>c \<in> set cols. \<exists>j cr'. CSTableReader_getColumnReader tr (cc_column_name c) = Inr j \<and>
       act_repeat (length (cells_of (cc_column_name c) ops)) cr_read_cell (tr_v1_readers tr ! j) =
         Inr (map (cell_result (null_datum (cc_storage_type c))) (cells_of (cc_column_name c) ops), cr') \<and>
       cr_eofReached cr')"
  using assms by (rule v1_session)

lemma v1_table_roundtrip_witness:
  "\<exists>tw tw1 tw2 tr j cr'.
    CSTableWriter_createFile (\<lambda>cs. cs) (\<lambda>_. example_config) None V0_1_0 example_schema = Inr tw \<and>
    res_fold tw_put example_cells tw = Inr tw1 \<and>
    CSTableWriter_commit (\<lambda>_. 0) (CSTableWriter_addRows 2 tw1) = Inr tw2 \<and>
    CSTableReader_openFile example_config 0 (Some (pm_file (vs_pm (tw_state tw2)))) = Inr tr \<and>
    CSTableReader_numRecords tr = 2 \<and> CSTableReader_getColumnReader tr [105, 100] = Inr j \<and>
    act_repeat 2 cr_read_cell (tr_v1_readers tr ! j) = Inr ([(True, 0, 0, DUInt 7), (True, 0, 0, DUInt 9)], cr')"
proof -
  have ops: "\<forall>op \<in> set example_cells. op_ok [example_config] op"
    by (simp add: example_cells_def op_ok_def example_config_def cell_ok_def)
  have cells: "cells_of [105, 100] example_cells = [(0, 0, Some (DUInt 7)), (0, 0, Some (DUInt 9))]"
    by (simp add: example_cells_def cells_of_def)
  have "session_bytes [example_config] example_cells < 2 ^ 63"
    by (simp add: session_bytes_def v1_header_size_def cells_bytes_def example_config_def cells)
  moreover have "length example_cells < 2 ^ 64" by (simp add: example_cells_def)
  ultimately have "session_bytes [example_config] example_cells < 2 ^ 63" "length example_cells < 2 ^ 64" by blast+
  from v1_table_roundtrip [OF example_flat example_ok(1) ops this(2,1), of "\<lambda>_. 0" 2 example_config 0]
  obtain tw tw1 tw2 tr where t:
    "CSTableWriter_createFile (\<lambda>cs. cs) (\<lambda>_. example_config) None V0_1_0 example_schema = Inr tw"
    "res_fold tw_put example_cells tw = Inr tw1" "CSTableWriter_commit (\<lambda>_. 0) (CSTableWriter_addRows 2 tw1) = Inr tw2"
    "CSTableReader_openFile example_config 0 (Some (pm_file (vs_pm (tw_state tw2)))) = Inr tr"
    "CSTableReader_numRecords tr = 2"
    and all: "\<forall>c \<in> set [example_config]. \<exists>j cr'. CSTableReader_getColumnReader tr (cc_column_name c) = Inr j \<and>
       act_repeat (length (cells_of (cc_column_name c) example_cells)) cr_read_cell (tr_v1_readers tr ! j) =
         Inr (map (cell_result (null_datum (cc_storage_type c))) (cells_of (cc_column_name c) example_cells), cr') \<and>
       cr_eofReached cr'"
    by blast
  from all obtain j cr' where j: "CSTableReader_getColumnReader tr [105, 100] = Inr j"
    "act_repeat (length (cells_of [105, 100] example_cells)) cr_read_cell (tr_v1_readers tr ! j) =
       Inr (map (cell_result (null_datum UINT64_PLAIN)) (cells_of [105, 100] example_cells), cr')"
    by (auto simp: example_fields)
  have "act_repeat 2 cr_read_cell (tr_v1_readers tr ! j) = Inr ([(True, 0, 0, DUInt 7), (True, 0, 0, DUInt 9)], cr')"
    using j(2) by (simp add: cells cell_result_def numeral_2_eq_2)
  with t j(1) show ?thesis by blast
qed

text \<open>
  C9. A table of format v0.2.0 whose columns are unsigned integers of encoding \<open>UINT64_PLAIN\<close>, the
  only ones this format opens: creating the file, writing any cells
  and committing succeeds, and a schema with an unsigned integer of another encoding behind such
  columns (\<open>UINT64_LEB128\<close> is the default of \<open>addUnsignedInteger\<close>) is refused by
  \<open>createFile_v2_refused\<close>. A reader that opens the file sees the columns and the \<open>n\<close> rows of
  the transaction, and the current data page of every column holds, at the place its page
  reference names, the (first 1024 bytes of the) values written to the column.
\<close>

theorem v2_table_commit:
  assumes "TableSchema_flatColumns junk (TableSchema_copy order schema) = Inr cols"
    and "v2_table_ok cols" and "\<forall>op \<in> set ops. fst op \<in> cc_column_name ` set cols"
    and "length (v2_header_image cols) + (2 ^ 32 + 3 * 1024 * length ops) \<le> 2 ^ 63"
    and "5 * length cols * (60 + 30 * length ops) < 2 ^ 31"
  shows "\<exists>tw tw1 tw2 tr. CSTableWriter_createFile order junk None V0_2_0 schema = Inr tw \<and>
    res_fold tw_put2 ops tw = Inr tw1 \<and> CSTableWriter_commit uninit (CSTableWriter_addRows n tw1) = Inr tw2 \<and>
    CSTableReader_openFile col0 n0 (Some (pm_file (vs_pm (tw_state tw2)))) = Inr tr \<and>
    CSTableReader_numRecords tr = n \<and> tr_version tr = V0_2_0 \<and> tr_columns tr = map (v2_config col0) cols \<and>
    (\<forall>i < length cols. cell_values (cells_of (cc_column_name (cols ! i)) ops) \<noteq> [] \<longrightarrow>
       region (pw_offset (vs_writers (tw_state tw1) ! vc_data_writer (tw_v2_writers tw1 ! i))) 1024
           (pm_file (vs_pm (tw_state tw2))) =
         page_image (cell_values (cells_of (cc_column_name (cols ! i)) ops)))"
  using assms by (rule v2_session_commit)

lemma example_header_size: "length (v2_header_image [example_config]) = 512"
  by code_simp

lemma v2_table_commit_witness:
  "\<exists>tw tw1 tw2 tr.
    CSTableWriter_createFile (\<lambda>cs. cs) (\<lambda>_. example_config) None V0_2_0 example_schema = Inr tw \<and>
    res_fold tw_put2 example_uints tw = Inr tw1 \<and>
    CSTableWriter_commit (\<lambda>_. 0) (CSTableWriter_addRows 2 tw1) = Inr tw2 \<and>
    CSTableReader_openFile example_config 0 (Some (pm_file (vs_pm (tw_state tw2)))) = Inr tr \<and>
    CSTableReader_numRecords tr = 2 \<and> tr_columns tr = [v2_config example_config example_config] \<and>
    region (pw_offset (vs_writers (tw_state tw1) ! vc_data_writer (tw_v2_writers tw1 ! 0))) 1024
      (pm_file (vs_pm (tw_state tw2))) = page_image [7, 9]"
proof -
  have "cell_values (cells_of [105, 100] example_uints) = [7, 9]" by (simp add: example_uints_def cells_of_def)
  then have cells: "cell_values (cells_of (cc_column_name ([example_config] ! 0)) example_uints) = [7, 9]"
    by (simp add: example_config_def)
  have names: "\<forall>op \<in> set example_uints. fst op \<in> cc_column_name ` set [example_config]"
    by (simp add: example_uints_def example_config_def)
  have size: "length (v2_header_image [example_config]) + (2 ^ 32 + 3 * 1024 * length example_uints) \<le> 2 ^ 63"
    by (simp add: example_header_size example_uints_def)
  have small: "5 * length [example_config] * (60 + 30 * length example_uints) < 2 ^ 31" by (simp add: example_uints_def)
  from v2_table_commit [OF example_flat example_ok(2) names size small, of "\<lambda>_. 0" 2 example_config 0]
  obtain tw tw1 tw2 tr where t:
    "CSTableWriter_createFile (\<lambda>cs. cs) (\<lambda>_. example_config) None V0_2_0 example_schema = Inr tw"
    "res_fold tw_put2 example_uints tw = Inr tw1" "CSTableWriter_commit (\<lambda>_. 0) (CSTableWriter_addRows 2 tw1) = Inr tw2"
    "CSTableReader_openFile example_config 0 (Some (pm_file (vs_pm (tw_state tw2)))) = Inr tr"
    "CSTableReader_numRecords tr = 2" "tr_columns tr = map (v2_config example_config) [example_config]"
    and pages: "\<forall>i < length [example_config]. cell_values (cells_of (cc_column_name ([example_config] ! i)) example_uints) \<noteq> [] \<longrightarrow>
       region (pw_offset (vs_writers (tw_state tw1) ! vc_data_writer (tw_v2_writers tw1 ! i))) 1024
           (pm_file (vs_pm (tw_state tw2))) =
         page_image (cell_values (cells_of (cc_column_name ([example_config] ! i)) example_uints))"
    by blast
  have "tr_columns tr = [v2_config example_config example_config]" using t(6) by simp
  moreover have "region (pw_offset (vs_writers (tw_state tw1) ! vc_data_writer (tw_v2_writers tw1 ! 0))) 1024
      (pm_file (vs_pm (tw_state tw2))) = page_image [7, 9]"
    using pages [rule_format, of 0] cells by (simp only: length_Cons list.size One_nat_def zero_less_Suc) simp
  ultimately show ?thesis using t(1-5) by blast
qed

section \<open>Transactions\<close>

text \<open>
  C6. Publishing a transaction: writing the meta block of a transaction newer than the one in the
  other slot makes it the one every later reader gets, and leaves every byte behind the
  header as it was.
\<close>

theorem commit_published:
  assumes "pm_version pm = V0_2_0" and "pm_meta_block_position pm = kMetaBlockPosition"
    and "pm_meta_block_size pm = kMetaBlockSize"
    and "pm_file pm = v2_head b0 b1 (v2_tail cols pad) @ body"
    and "slot_holds b0 m0" and "slot_holds b1 m1"
    and "case (if txid_slot mb = 0 then m1 else m0) of None \<Rightarrow> True
         | Some other \<Rightarrow> mb_transaction_id other < mb_transaction_id mb"
    and "\<forall>c \<in> set cols. v2_config_ok c" and "length cols < 2 ^ 64"
  shows "\<exists>pm' free s'. pm_writeTransaction mb pm = Inr pm' \<and>
    drop (length (v2_head b0 b1 (v2_tail cols pad))) (pm_file pm') = body \<and>
    readHeader col0 hdr (FileIS (FileInputStream_fromFileDescriptor (pm_file pm'))) =
      Inr ((V0_2_0, hdr\<lparr>fh_columns := fh_columns hdr @ map (v2_config col0) cols\<rparr>, Some (mb, free)), s')"
proof -
  have "mb_transaction_id other < mb_transaction_id mb" if "(if txid_slot mb = 0 then m1 else m0) = Some other" for other
    using assms(7) unfolding that by simp
  from transaction_published [OF assms(1-6) this assms(8,9), of col0 hdr] show ?thesis by blast
qed

definition example_block :: "u64 \<Rightarrow> MetaBlock" where
  "example_block txid = \<lparr>mb_transaction_id = txid, mb_num_rows = 2, mb_head_index_page_offset = 1536,
     mb_head_index_page_size = 524288, mb_file_size = 525824\<rparr>"

lemma commit_published_witness:
  "\<exists>pm' free s'. pm_writeTransaction (example_block 2)
      (PageManager V0_2_0 (v2_head (metablock_image (example_block 0)) (metablock_image (example_block 1))
        (v2_tail [example_config] []) @ [1, 2, 3]) 4096) = Inr pm' \<and>
    drop (length (v2_head (metablock_image (example_block 0)) (metablock_image (example_block 1))
      (v2_tail [example_config] []))) (pm_file pm') = [1, 2, 3] \<and>
    readHeader example_config \<lparr>fh_columns = [], fh_num_rows = 0\<rparr>
        (FileIS (FileInputStream_fromFileDescriptor (pm_file pm'))) =
      Inr ((V0_2_0, \<lparr>fh_columns = [v2_config example_config example_config], fh_num_rows = 0\<rparr>,
        Some (example_block 2, free)), s')"
proof -
  let ?b = "\<lambda>n. metablock_image (example_block n)"
  let ?pm = "PageManager V0_2_0 (v2_head (?b 0) (?b 1) (v2_tail [example_config] []) @ [1, 2, 3]) 4096"
  have slots: "slot_holds (?b 0) (Some (example_block 0))" "slot_holds (?b 1) (Some (example_block 1))"
    by (simp_all add: slot_holds_def)
  have newer: "case (if txid_slot (example_block 2) = 0 then Some (example_block 1) else Some (example_block 0)) of
      None \<Rightarrow> True | Some other \<Rightarrow> mb_transaction_id other < mb_transaction_id (example_block 2)"
    by (simp add: txid_slot_def example_block_def)
  have cols: "\<forall>c \<in> set [example_config]. v2_config_ok c" using example_ok(2) by (simp add: v2_table_ok_def v2_column_ok_def)
  have pm: "pm_version ?pm = V0_2_0" "pm_meta_block_position ?pm = kMetaBlockPosition"
    "pm_meta_block_size ?pm = kMetaBlockSize"
    "pm_file ?pm = v2_head (?b 0) (?b 1) (v2_tail [example_config] []) @ [1, 2, 3]"
    by (simp_all add: PageManager_def)
  from commit_published [OF pm slots newer cols, of example_config "\<lparr>fh_columns = [], fh_num_rows = 0\<rparr>"]
  show ?thesis by simp
qed

text \<open>
  C3. Atomicity of a commit: when a crash leaves anything in the slot being written whose checksum
  does not hold, a reader gets the transaction of the other slot, whichever of the two it is.
\<close>

theorem torn_commit_ignored:
  assumes "length torn = 56" and "SHA1_compute (take 36 torn) \<noteq> drop 36 torn"
    and "\<forall>c \<in> set cols. v2_config_ok c" and "length cols < 2 ^ 64"
    and "content \<in> {v2_head torn (metablock_image mb) (v2_tail cols pad) @ body,
                   v2_head (metablock_image mb) torn (v2_tail cols pad) @ body}"
  shows "\<exists>s'. readHeader col0 hdr (FileIS (FileInputStream_fromFileDescriptor content)) =
    Inr ((V0_2_0, hdr\<lparr>fh_columns := fh_columns hdr @ map (v2_config col0) cols\<rparr>, Some (mb, None)), s')"
proof -
  have "content = v2_head torn (metablock_image mb) (v2_tail cols pad) @ body \<or>
      content = v2_head (metablock_image mb) torn (v2_tail cols pad) @ body" using assms(5) by simp
  from torn_transaction [OF assms(1-4) this] show ?thesis .
qed

text \<open>Of two hash values one is not the hash: the example takes the image of a block with one bit changed.\<close>

definition example_torn :: bytes where
  "example_torn = metablock_bytes (example_block 1) @
     (1 + hd (SHA1_compute (metablock_bytes (example_block 1)))) # tl (SHA1_compute (metablock_bytes (example_block 1)))"

lemma example_torn:
  "length example_torn = 56" "SHA1_compute (take 36 example_torn) \<noteq> drop 36 example_torn"
proof -
  let ?h = "SHA1_compute (metablock_bytes (example_block 1))"
  have h: "?h \<noteq> []" using length_SHA1_compute by (metis list.size(3) zero_neq_numeral)
  then show "length example_torn = 56" by (simp add: example_torn_def)
  have "(1 + hd ?h) # tl ?h \<noteq> ?h" using h by (cases ?h) auto
  then show "SHA1_compute (take 36 example_torn) \<noteq> drop 36 example_torn" by (simp add: example_torn_def)
qed

lemma torn_commit_ignored_witness:
  "\<exists>s'. readHeader example_config \<lparr>fh_columns = [], fh_num_rows = 0\<rparr>
      (FileIS (FileInputStream_fromFileDescriptor
        (v2_head (metablock_image (example_block 4)) example_torn (v2_tail [example_config] []) @ [9]))) =
    Inr ((V0_2_0, \<lparr>fh_columns = [v2_config example_config example_config], fh_num_rows = 0\<rparr>,
      Some (example_block 4, None)), s')"
proof -
  have cols: "\<forall>c \<in> set [example_config]. v2_config_ok c" using example_ok(2) by (simp add: v2_table_ok_def v2_column_ok_def)
  from torn_commit_ignored [OF example_torn cols, of
      "v2_head (metablock_image (example_block 4)) example_torn (v2_tail [example_config] []) @ [9]"
      "example_block 4" "[]" "[9]" example_config "\<lparr>fh_columns = [], fh_num_rows = 0\<rparr>"]
  show ?thesis by simp
qed

section \<open>Schemas\<close>

text \<open>
  C11. The flat columns of a schema are its leaves: one for each path from the root to a field that is
  not a subrecord, in the order of the schema, named by the dotted path, with the repeated fields
  of the path counted in the maximum repetition level and the repeated or optional ones in the
  maximum definition level.
\<close>

theorem flat_columns_are_leaves:
  assumes "wf_schema ts"
  shows "TableSchema_flatColumns junk ts = Inr (map (path_config junk [] 0 0) (schema_paths ts))"
  using assms by (rule flatColumns_paths)

definition nested_schema :: table_schema where
  "nested_schema = TableSchema_addSubrecordArray (\<lambda>cs. cs) [97]
     (TableSchema_addString [98] True STRING_PLAIN 0 (TableSchema_addBoolArray [99] False BOOLEAN_BITPACKED []))
     False example_schema"

lemma nested_schema_wf: "wf_schema nested_schema"
  by code_simp

lemma nested_schema_paths: "schema_paths nested_schema =
  [([([105, 100], False, False)], UINT64_PLAIN, UNSIGNED_INT),
   ([([97], True, False), ([99], True, False)], BOOLEAN_BITPACKED, BOOLEAN),
   ([([97], True, False), ([98], False, True)], STRING_PLAIN, STRING)]"
  by code_simp

lemma flat_columns_are_leaves_witness:
  "TableSchema_flatColumns (\<lambda>_. example_config) nested_schema = Inr
     [example_config,
      example_config\<lparr>cc_column_name := [97, 46, 99], cc_storage_type := BOOLEAN_BITPACKED, cc_logical_type := BOOLEAN,
        cc_rlevel_max := 2, cc_dlevel_max := 2\<rparr>,
      example_config\<lparr>cc_column_name := [97, 46, 98], cc_storage_type := STRING_PLAIN, cc_logical_type := STRING,
        cc_rlevel_max := 1, cc_dlevel_max := 2\<rparr>]"
  unfolding flat_columns_are_leaves [OF nested_schema_wf] nested_schema_paths
  by (simp add: path_config_def path_rlevel_def path_dlevel_def example_config_def)

text \<open>
  Copying a schema, whatever order the hash map yields, keeps it well formed and keeps the
  set of leaves with their multiplicities: only the order of the columns may change.
\<close>

lemma schema_copy_leaves:
  assumes "\<And>cs. mset (order cs) = mset cs" and "wf_schema ts"
  shows "wf_schema (TableSchema_copy order ts) \<and>
    mset (schema_paths (TableSchema_copy order ts)) = mset (schema_paths ts)"
  using TableSchema_copy_paths [OF assms] by simp

lemma schema_copy_leaves_witness:
  "wf_schema (TableSchema_copy rev nested_schema) \<and>
   mset (schema_paths (TableSchema_copy rev nested_schema)) = mset (schema_paths nested_schema)"
  using schema_copy_leaves [of rev nested_schema] nested_schema_wf by simp

text \<open>
  Levels of flat columns: a column is never repeated more often than it is defined, and its
  levels fit in the 32 bits of the level encoders, so long as paths are shorter than 2^32.
\<close>

lemma flat_column_levels:
  assumes "wf_schema ts" and "TableSchema_flatColumns junk ts = Inr cols"
    and "\<forall>l \<in> set (schema_paths ts). length (fst l) < 2 ^ 32"
  shows "\<forall>c \<in> set cols. cc_rlevel_max c \<le> cc_dlevel_max c \<and> level_max (cc_rlevel_max c) \<and> level_max (cc_dlevel_max c)"
proof -
  have cols: "cols = map (path_config junk [] 0 0) (schema_paths ts)"
    using assms(2) flatColumns_paths [OF assms(1), of junk] by simp
  have "cc_rlevel_max c \<le> cc_dlevel_max c \<and> level_max (cc_rlevel_max c) \<and> level_max (cc_dlevel_max c)"
    if c: "c = path_config junk [] 0 0 l" and l: "length (fst l) < 2 ^ 32" for c l
  proof -
    obtain ps e t where pl: "l = (ps, e, t)" by (cases l) auto
    have dl: "path_dlevel ps < 2 ^ 32"
      using l unfolding path_dlevel_def pl by (auto intro: le_less_trans [OF length_filter_le])
    have "path_rlevel ps \<le> path_dlevel ps"
      by (induction ps) (auto simp: path_rlevel_def path_dlevel_def)
    moreover have "unat (cc_rlevel_max c) = path_rlevel ps" "unat (cc_dlevel_max c) = path_dlevel ps"
      using dl calculation by (simp_all add: c pl path_config_def unat_ucast_u32_u64 unat_of_nat)
    ultimately show ?thesis using dl by (simp add: word_le_nat_alt level_max_def)
  qed
  then show ?thesis using assms(3) by (auto simp: cols)
qed

lemma flat_column_levels_witness:
  "\<exists>cols. TableSchema_flatColumns (\<lambda>_. example_config) nested_schema = Inr cols \<and> length cols = 3 \<and>
     (\<forall>c \<in> set cols. cc_rlevel_max c \<le> cc_dlevel_max c \<and> level_max (cc_rlevel_max c) \<and> level_max (cc_dlevel_max c))"
proof -
  obtain cols where cols: "TableSchema_flatColumns (\<lambda>_. example_config) nested_schema = Inr cols" "length cols = 3"
    using flatColumns_paths [OF nested_schema_wf] by (simp add: nested_schema_paths)
  have "\<forall>l \<in> set (schema_paths nested_schema). length (fst l) < 2 ^ 32" by (simp add: nested_schema_paths)
  from flat_column_levels [OF nested_schema_wf cols(1) this] cols show ?thesis by blast
qed

section \<open>Columns\<close>

text \<open>
  C8. A column of any of the seven encodings: opening a writer, writing cells, committing and
  writing the body into a buffer of the size the writer reports succeeds, and a reader on that
  buffer, whatever its unused bytes hold, returns after any number of reads exactly the cells
  written so far, reports the end exactly after the last one, and looking ahead gives the
  repetition level of the next cell without disturbing what is read later.
\<close>

theorem v1_column_roundtrip:
  assumes "known_encoding (cc_storage_type c)" and "level_max (cc_rlevel_max c)" and "level_max (cc_dlevel_max c)"
    and "\<forall>cell \<in> set cs. cell_storable c cell" and "cells_bytes cs < 2 ^ 63"
  shows "\<exists>w w' m. openColumnV1_writer c = Inr w \<and> res_fold cw_write_cell cs w = Inr w' \<and>
    cw_write (cw_bodySize (cw_commit w')) (cw_commit w') = Inr m \<and>
    (\<forall>uninit. let mem = column_buffer uninit (cw_bodySize (cw_commit w')) (mw_data m) in
       \<exists>cr. openColumnV1_reader (c\<lparr>cc_body_size := word_of_nat (length mem)\<rparr>) mem = Inr cr \<and>
         column_api (cc_storage_type c) cs cr)"
  using assms by (rule v1_column_session)

definition string_config :: ColumnConfig where
  "string_config = example_config\<lparr>cc_storage_type := STRING_PLAIN, cc_logical_type := STRING,
     cc_rlevel_max := 1, cc_dlevel_max := 2\<rparr>"

lemma v1_column_roundtrip_witness:
  "\<exists>w w' m. openColumnV1_writer string_config = Inr w \<and>
    res_fold cw_write_cell [(0, 2, Some (DString [104, 105])), (1, 1, None), (0, 0, None)] w = Inr w' \<and>
    cw_write (cw_bodySize (cw_commit w')) (cw_commit w') = Inr m \<and>
    (\<forall>uninit. let mem = column_buffer uninit (cw_bodySize (cw_commit w')) (mw_data m) in
       \<exists>cr. openColumnV1_reader (string_config\<lparr>cc_body_size := word_of_nat (length mem)\<rparr>) mem = Inr cr \<and>
         column_api STRING_PLAIN [(0, 2, Some (DString [104, 105])), (1, 1, None), (0, 0, None)] cr)"
proof -
  let ?cs = "[(0, 2, Some (DString [104, 105])), (1, 1, None), (0, 0, None)]"
  have c: "known_encoding (cc_storage_type string_config)" "level_max (cc_rlevel_max string_config)"
    "level_max (cc_dlevel_max string_config)"
    by (simp_all add: string_config_def known_encoding_def level_max_def)
  have "cc_storage_type string_config = STRING_PLAIN" by (simp add: string_config_def)
  moreover have "\<forall>cell \<in> set ?cs. cell_storable string_config cell"
    by (simp add: cell_storable_def cell_ok_def string_config_def)
  moreover have "cells_bytes ?cs < 2 ^ 63" by (simp add: cells_bytes_def)
  ultimately show ?thesis using v1_column_roundtrip [OF c, of ?cs] by simp
qed

section \<open>Bit packing\<close>

text \<open>
  C14. Bit packing: integers up to the maximum an encoder was made for, encoded, flushed and decoded
  from any buffer that starts with the stream, come back in order; the stream has
  16 bytes for each bit of the maximum and each started block of 128 values.
\<close>

theorem bitpack_roundtrip:
  assumes "\<forall>v \<in> set vs. v \<le> m"
  shows "be_size (be_flush (fold be_encode vs (be_new m))) = 16 * bits m * ((length vs + 127) div 128) \<and>
    (\<exists>d'. act_repeat (length vs) bd_next
       (bd_new (be_data (be_flush (fold be_encode vs (be_new m))) @ junk)
          (be_size (be_flush (fold be_encode vs (be_new m)))) m) = Inr (vs, d'))"
  using assms by (rule bitpack_all)

lemma bitpack_roundtrip_witness:
  "bits 5 = 3 \<and> be_size (be_flush (fold be_encode [3, 0, 5] (be_new 5))) = 48 \<and>
    (\<exists>d'. act_repeat 3 bd_next
       (bd_new (be_data (be_flush (fold be_encode [3, 0, 5] (be_new 5))) @ [255])
          (be_size (be_flush (fold be_encode [3, 0, 5] (be_new 5)))) 5) = Inr ([3, 0, 5], d'))"
proof -
  let ?e = "be_flush (fold be_encode [3, 0, 5] (be_new 5))"
  have bits: "bits 5 = 3" by code_simp
  have len: "length [3, 0, 5 :: u32] = 3" by simp
  have "\<forall>v \<in> set [3, 0, 5]. v \<le> (5 :: u32)" by simp
  from bitpack_roundtrip [OF this, of "[255]"]
  have "be_size ?e = 16 * bits 5 * ((3 + 127) div 128)"
    "\<exists>d'. act_repeat 3 bd_next (bd_new (be_data ?e @ [255]) (be_size ?e) 5) = Inr ([3, 0, 5], d')"
    unfolding len by blast+
  moreover have "16 * bits 5 * ((3 + 127) div 128) = 48" unfolding bits by simp
  ultimately show ?thesis using bits by (simp only: HOL.simp_thms)
qed

text \<open>
  C27. The end of a bit-packed stream. Over any \<open>n\<close> bytes, written by an encoder or not, a decoder for a
  positive largest value delivers exactly the values of the complete blocks, 128 for every \<open>16 * bits m\<close>
  bytes, in their order; then the next read raises a buffer overflow, and looking ahead answers 0 and
  leaves the decoder as it is.
\<close>

theorem bitpack_exhausted:
  assumes "bits m \<noteq> 0" and "n \<le> length mem"
  shows "\<exists>d. act_repeat (128 * (n div (16 * bits m))) bd_next (bd_new mem n m) =
      Inr (concat (map (\<lambda>i. simdunpack (u32_of_bytes (take (16 * bits m) (drop (16 * bits m * i) mem))) (bits m))
             [0..<n div (16 * bits m)]), d) \<and>
    bd_next d = Inl BufferOverflowError \<and> bd_peek d = Inr (0, d)"
  using bd_next_end [OF assms] by (simp only: bp_values_def [abs_def])

text \<open>A block of three values and padding, and three bytes behind it that are never read.\<close>

lemma bitpack_exhausted_witness:
  "\<exists>d. act_repeat 128 bd_next (bd_new (bp_block 3 [3, 0, 5] @ [1, 2, 3]) 51 5) = Inr ([3, 0, 5] @ replicate 125 0, d) \<and>
     bd_next d = Inl BufferOverflowError \<and> bd_peek d = Inr (0, d)"
proof -
  define mem :: bytes where "mem = bp_block 3 [3, 0, 5] @ [1, 2, 3]"
  have b: "bits 5 = 3" by code_simp
  have "length (bp_block 3 [3, 0, 5]) = 48" by (simp add: length_bp_block)
  then have "take 48 mem = bp_block 3 [3, 0, 5]" and n: "51 \<le> length mem" by (simp_all add: mem_def)
  moreover have "bp_fits 3 [3, 0, 5]" unfolding bp_fits_def by code_simp
  ultimately have u: "simdunpack (u32_of_bytes (take 48 mem)) 3 = [3, 0, 5] @ replicate 125 0"
    using simdunpack_block [of 3 "[3, 0, 5]"] by simp
  from bitpack_exhausted [of 5 51, OF _ n] show ?thesis unfolding b mem_def [symmetric] by (simp add: u)
qed

text \<open>
  C15. The packing kernels: 128 integers below 2^b packed with \<open>b\<close> bits, for every
  \<open>b\<close> from 1 to 32, take 16 \<open>b\<close> bytes and are unpacked again by the kernel for
  \<open>b\<close>.
\<close>

theorem simd_roundtrip:
  assumes "0 < b" and "b \<le> 32" and "length inp = 128" and "\<forall>v \<in> set inp. unat v < 2 ^ b"
  shows "length (simdpackwithoutmask inp b) = 4 * b \<and> simdunpack (simdpackwithoutmask inp b) b = inp"
proof -
  have "\<forall>v \<in> set inp. take_bit b v = v"
    using assms(4) by (simp add: word_less_take_bit)
  with assms length_simdpack simdunpack_simdpack show ?thesis by blast
qed

text \<open>The kernel witness packs 128 values, the remainders of the positions by 5, in 3 bits each.\<close>

definition example_block_values :: "u32 list" where
  "example_block_values = map (\<lambda>i. word_of_nat (i mod 5)) [0..<128]"

lemma simd_roundtrip_witness:
  "length (simdpackwithoutmask example_block_values 3) = 12 \<and>
   simdunpack (simdpackwithoutmask example_block_values 3) 3 = example_block_values"
proof -
  have "unat (word_of_nat (i mod 5) :: u32) < 2 ^ 3" for i :: nat
  proof -
    have "i mod 5 < 5" by simp
    then show ?thesis by (simp add: unat_of_nat)
  qed
  then have "\<forall>v \<in> set example_block_values. unat v < 2 ^ 3" by (auto simp: example_block_values_def)
  then show ?thesis using simd_roundtrip [of 3 example_block_values] by (simp add: example_block_values_def)
qed

section \<open>Messages and streams\<close>

text \<open>
  A message of any sequence of integers, doubles, variable-length integers and length-prefixed
  strings, written by a writer that grows its buffer as needed, is read back field by field, and
  nothing remains.
\<close>

theorem message_roundtrip:
  assumes "0 < k" and "\<forall>f \<in> set fs. field_ok f" and "length (concat (map field_bytes fs)) < 2 ^ 63"
  shows "\<exists>w r. mw_seq (map mw_field fs) (mw_new k) = Inr w \<and>
    read_all mr_field fs (mr_open (mw_data w) (length (mw_data w))) = Inr (fs, r) \<and> mr_remaining r = 0"
proof -
  obtain w where w: "mw_seq (map mw_field fs) (mw_new k) = Inr w"
    "mw_data w = mw_data (mw_new k) @ concat (map field_bytes fs)"
    using mw_writes_owned [OF mw_fields_writes [of fs], of "mw_new k"] assms(1) by auto
  let ?r = "mr_open (mw_data w) (length (mw_data w))"
  have data: "mw_data w = concat (map field_bytes fs)" using w(2) by simp
  have "mr_ok ?r" "mr_rest ?r = concat (map field_bytes fs) @ []"
    using assms(3) by (simp_all add: mr_ok_def mr_rest_def mr_open_def data)
  from mr_readsD [OF mr_fields_reads [OF assms(2)] this]
  have "read_all mr_field fs ?r = Inr (fs, mr_advance (length (mw_data w)) ?r)" by (simp add: data)
  moreover have "mr_remaining (mr_advance (length (mw_data w)) ?r) = 0"
    by (simp add: mr_remaining_def mr_advance_def mr_open_def)
  ultimately show ?thesis using w(1) by blast
qed

definition example_message :: "field list" where
  "example_message = [FUInt16 513, FVarUInt 300, FLenenc [104, 105], FUInt8 7]"

lemma example_message_ok:
  "\<forall>f \<in> set example_message. field_ok f"
  "concat (map field_bytes example_message) = [1, 2, 172, 2, 2, 104, 105, 7]"
  by (simp add: example_message_def) code_simp

lemma message_roundtrip_witness:
  "\<exists>w r. mw_seq (map mw_field example_message) (mw_new 1) = Inr w \<and>
    read_all mr_field example_message (mr_open (mw_data w) (length (mw_data w))) = Inr (example_message, r) \<and>
    mr_remaining r = 0"
  using message_roundtrip [of 1 example_message] example_message_ok by simp

text \<open>
  C16. The same bytes in a file: wherever in the file the message starts and whatever the 64 KiB
  chunks the stream reads cut apart, skipping to it and reading gives the fields back.
\<close>

theorem message_from_file:
  assumes "\<forall>f \<in> set fs. field_ok f"
  shows "\<exists>s1 s2. is_skipNextBytes (length pre)
      (FileIS (FileInputStream_fromFileDescriptor (pre @ concat (map field_bytes fs) @ rest))) = (length pre, s1) \<and>
    read_all is_field fs s1 = Inr (fs, s2)"
proof -
  let ?s = "FileIS (FileInputStream_fromFileDescriptor (pre @ concat (map field_bytes fs) @ rest))"
  have ok: "is_ok ?s" and all: "is_rest ?s = pre @ concat (map field_bytes fs) @ rest"
    by (rule v1_file_is_rest)+
  have "length pre \<le> length (is_rest ?s)" unfolding all by simp
  from input.skip_drop [OF ok this] obtain s1 where s1: "is_skipNextBytes (length pre) ?s = (length pre, s1)"
    "is_ok s1" "is_rest s1 = drop (length pre) (is_rest ?s)" by blast
  then have "is_rest s1 = concat (map field_bytes fs) @ rest" unfolding all by simp
  with reads_fromD [OF is_fields_reads [OF assms] s1(2)] s1(1) show ?thesis by metis
qed

lemma message_from_file_witness:
  "\<exists>s1 s2. is_skipNextBytes 3 (FileIS (FileInputStream_fromFileDescriptor
      ([9, 9, 9] @ concat (map field_bytes example_message) @ [8]))) = (3, s1) \<and>
    read_all is_field example_message s1 = Inr (example_message, s2)"
proof -
  have len: "length [9, 9, 9 :: byte] = 3" by simp
  from message_from_file [OF example_message_ok(1), of "[9, 9, 9]" "[8]"] show ?thesis unfolding len .
qed

text \<open>
  Growing a message writer: appending terminates exactly when the bytes fit or the capacity is
  not 0, and then the new capacity holds what was asked for and is no smaller than the old one.
\<close>

lemma append_grows:
  "case mw_grow need cap of
     None \<Rightarrow> cap = 0 \<and> 0 < need
   | Some r \<Rightarrow> need \<le> r \<and> cap \<le> r \<and> (0 < cap \<or> need = 0)"
proof (cases "0 < cap")
  case True
  with mw_grow_terminates [of cap need] show ?thesis by auto
next
  case False
  with mw_grow_zero [of need] mw_grow_fits [of need 0] show ?thesis by (cases "0 < need") simp_all
qed

text \<open>
  C26. Bounds of a message reader: a read within the bytes left returns them and moves the cursor
  past them; a longer one, for any length below 2^63, raises a buffer overflow.
\<close>

theorem reader_bounds:
  assumes "mr_ok r" and "n < 2 ^ 63"
  shows "mr_read n r =
    (if n \<le> mr_remaining r then Inr (take n (mr_rest r), mr_advance n r) else Inl BufferOverflowError)"
  using assms mr_read_ok [of r n] mr_read_short [of r n] by (simp add: mr_remaining_def length_mr_rest)

lemma reader_bounds_witness:
  "mr_read 2 (mr_open [5, 6, 7] 3) = Inr ([5, 6], mr_advance 2 (mr_open [5, 6, 7] 3)) \<and>
   mr_read 4 (mr_open [5, 6, 7] 3) = Inl BufferOverflowError"
  using reader_bounds [of "mr_open [5, 6, 7] 3" 2] reader_bounds [of "mr_open [5, 6, 7] 3" 4]
  by (simp add: mr_ok_def mr_open_def mr_remaining_def mr_rest_def)

text \<open>
  C13. Every input stream refines the bytes behind it: a sequence of single-byte reads, block reads
  and skips on a file stream, whatever chunks it reads, or on a stream over a string, a buffer or
  raw memory, answers what taking and dropping on the list of bytes answers, if no skip leaves it.
\<close>

theorem file_stream_refines_bytes:
  assumes "is_ok s" and "skips_ok ops (is_rest s)"
  shows "run_ops is_step ops s = run_ops list_step ops (is_rest s)"
  using assms by (rule run_ops_refines)

lemma file_stream_refines_bytes_witness:
  "run_ops is_step [ReadByte, SkipBytes 1, ReadBytes 5] (FileIS (FileInputStream_fromFileDescriptor [1, 2, 3, 4])) =
    [[1], [], [3, 4]]"
proof -
  let ?s = "FileIS (FileInputStream_fromFileDescriptor [1, 2, 3, 4])"
  have ok: "is_ok ?s" and all: "is_rest ?s = [1, 2, 3, 4]" by (rule v1_file_is_rest)+
  have "skips_ok [ReadByte, SkipBytes 1, ReadBytes 5] (is_rest ?s)" unfolding all by simp
  from file_stream_refines_bytes [OF ok this] show ?thesis unfolding all by simp
qed

text \<open>
  A short read is an error, not a value: reading an integer from a stream raises an end-of-file
  error exactly when fewer bytes are left than it takes.
\<close>

theorem short_read_is_eof:
  assumes "is_ok s"
  shows "(is_readUInt32 s = Inl EOFError \<longleftrightarrow> length (is_rest s) < 4) \<and>
    (is_readUInt64 s = Inl EOFError \<longleftrightarrow> length (is_rest s) < 8)"
proof (intro conjI)
  show "is_readUInt32 s = Inl EOFError \<longleftrightarrow> length (is_rest s) < 4"
  proof (cases "length (is_rest s) < 4")
    case False
    then have "is_rest s = u32_bytes (bytes_u32 (take 4 (is_rest s))) @ drop 4 (is_rest s)"
      by (simp add: word_bytes_inverse)
    from reads_fromD [OF is_reads_ops(1) assms this] False show ?thesis by fastforce
  qed (use input.readUInt_short(1) [OF assms] in \<open>simp add: is_readUInt32_def\<close>)
  show "is_readUInt64 s = Inl EOFError \<longleftrightarrow> length (is_rest s) < 8"
  proof (cases "length (is_rest s) < 8")
    case False
    then have "is_rest s = u64_bytes (bytes_u64 (take 8 (is_rest s))) @ drop 8 (is_rest s)"
      by (simp add: word_bytes_inverse)
    from reads_fromD [OF is_reads_ops(2) assms this] False show ?thesis by fastforce
  qed (use input.readUInt_short(2) [OF assms] in \<open>simp add: is_readUInt64_def\<close>)
qed

lemma short_read_is_eof_witness:
  "is_readUInt32 (FileIS (FileInputStream_fromFileDescriptor [1, 2, 3])) = Inl EOFError"
proof -
  let ?s = "FileIS (FileInputStream_fromFileDescriptor [1, 2, 3])"
  have ok: "is_ok ?s" and all: "is_rest ?s = [1, 2, 3]" by (rule v1_file_is_rest)+
  from short_read_is_eof [OF ok] show ?thesis unfolding all by simp
qed

section \<open>Records\<close>

text \<open>
  C1. Nested records survive a table: for every message schema and all rows that conform to it, a
  table made for the schema, filled by the shredder, committed and opened again, counts the rows; a
  materializer for the schema, whatever order its hash map yields, skips any number \<open>k\<close> of them and
  then returns every further row as it was written, up to the order of fields with different ids.
\<close>

theorem record_roundtrip:
  assumes "\<And>cs. mset (order cs) = mset cs" and "\<And>cols. mset (order' cols) = mset cols"
    and "schema_wf S" and "depth_ok S" and "TableSchema_fromProtobuf order S = Inr ts"
    and "TableSchema_flatColumns junk (TableSchema_copy order ts) = Inr cols" and "v1_table_ok cols"
    and "\<forall>row \<in> set rows. row_ok S row"
    and "length (shredded (TableSchema_copy order ts) S rows) < 2 ^ 64"
    and "session_bytes cols (shredded (TableSchema_copy order ts) S rows) < 2 ^ 63" and "k \<le> length rows"
  shows "\<exists>tw tw1 tw2 tr mat mat1 tr1 mat2 tr2 ms. CSTableWriter_createFile order junk None V0_1_0 ts = Inr tw \<and>
    res_fold (\<lambda>row. addRecordFromProtobuf (tw_schema tw) (MObject 0 row) S) rows tw = Inr tw1 \<and>
    CSTableWriter_commit uninit tw1 = Inr tw2 \<and>
    CSTableReader_openFile col0 n0 (Some (pm_file (vs_pm (tw_state tw2)))) = Inr tr \<and>
    CSTableReader_numRecords tr = word_of_nat (length rows) \<and>
    RecordMaterializer order' junk' S tr {} = Inr mat \<and>
    skip_records stod k mat tr = Some (Inr (mat1, tr1)) \<and>
    read_records stod (length rows - k) mat1 tr1 = Some (Inr (mat2, tr2, ms)) \<and>
    list_all2 same ms (map (MObject 0) (drop k rows))"
  using assms by (rule record_session)

lemma record_roundtrip_witness:
  "\<exists>tw tw1 tw2 tr mat mat1 tr1 mat2 tr2 ms.
    CSTableWriter_createFile (\<lambda>cs. cs) person_junk None V0_1_0 person_table = Inr tw \<and>
    res_fold (\<lambda>row. addRecordFromProtobuf (tw_schema tw) (MObject 0 row) person_schema) person_rows tw = Inr tw1 \<and>
    CSTableWriter_commit (\<lambda>_. 0) tw1 = Inr tw2 \<and>
    CSTableReader_openFile example_config 0 (Some (pm_file (vs_pm (tw_state tw2)))) = Inr tr \<and>
    CSTableReader_numRecords tr = 2 \<and>
    RecordMaterializer rev person_state person_schema tr {} = Inr mat \<and>
    skip_records (\<lambda>_. Inl RuntimeError) 1 mat tr = Some (Inr (mat1, tr1)) \<and>
    read_records (\<lambda>_. Inl RuntimeError) 1 mat1 tr1 = Some (Inr (mat2, tr2, ms)) \<and>
    list_all2 same ms [MObject 0 [MObject 2 [MString 2 []], MUInt64 1 8]]"
proof -
  note facts = person_tables person_shredded person_small
  have "length (shredded (TableSchema_copy (\<lambda>cs. cs) person_table) person_schema person_rows) < 2 ^ 64"
    "session_bytes person_columns (shredded (TableSchema_copy (\<lambda>cs. cs) person_table) person_schema person_rows) < 2 ^ 63"
    "TableSchema_flatColumns person_junk (TableSchema_copy (\<lambda>cs. cs) person_table) = Inr person_columns"
    using facts by simp_all
  moreover have "(1 :: nat) \<le> length person_rows" by (simp add: person_rows_def)
  moreover have n: "length person_rows = 2" "drop 1 person_rows = [[MObject 2 [MString 2 []], MUInt64 1 8]]"
    by (simp_all add: person_rows_def)
  ultimately show ?thesis
    using record_roundtrip [where order = "\<lambda>cs. cs" and order' = rev and S = person_schema and ts = person_table and k = 1
        and junk = person_junk and cols = person_columns and rows = person_rows and uninit = "\<lambda>_. 0" and ?col0.0 = example_config
        and ?n0.0 = 0 and junk' = person_state and stod = "\<lambda>_. Inl RuntimeError"] person_wf person_rows_ok facts
    by (simp only: mset_rev n) simp
qed

text \<open>
  C4. What the shredder writes: for every row that conforms to the schema, whatever its subrecords,
  \<open>addRecordFromProtobuf\<close> on any table of the first format puts a fixed sequence of cells and counts
  one row; the cells of each column are the stripe of the row along the path of its leaf, that is, a
  cell for each value and for each place where an optional or repeated field of the path ends, with
  the repetition level of the field repeated and the definition level of the last field there.
\<close>

theorem record_shredding:
  assumes "\<And>cs. mset (order cs) = mset cs" and "schema_wf S" and "TableSchema_fromProtobuf order S = Inr ts"
    and "TableSchema_flatColumns junk (TableSchema_copy order ts) = Inr cols" and "distinct (map cc_column_name cols)"
    and "row_ok S row"
  shows "\<exists>ops. (\<forall>tw. tw_version tw = V0_1_0 \<longrightarrow> addRecordFromProtobuf (TableSchema_copy order ts) (MObject i row) S tw =
      res_bind (res_fold tw_put ops tw) (\<lambda>tw. Inr (CSTableWriter_addRow tw))) \<and>
    (\<forall>(ps, t) \<in> set (message_paths S). cells_of (path_name (map snd ps)) ops = map to_cell (stripe 0 0 0 ps (MObject 0 row)))"
  using assms by (rule record_shreds)

lemma record_shredding_witness:
  "\<exists>ops. (\<forall>tw. tw_version tw = V0_1_0 \<longrightarrow>
      addRecordFromProtobuf person_table (MObject 0 [MObject 2 [MString 2 []], MUInt64 1 8]) person_schema tw =
      res_bind (res_fold tw_put ops tw) (\<lambda>tw. Inr (CSTableWriter_addRow tw))) \<and>
    cells_of [116, 46, 107] ops = [(0, 1, None)] \<and> cells_of [116, 46, 118] ops = [(0, 2, Some (DString []))]"
proof -
  let ?row = "[MObject 2 [MString 2 []], MUInt64 1 8] :: message_object list"
  have "row_ok person_schema ?row" using person_rows_ok by (simp add: person_rows_def)
  moreover have "distinct (map cc_column_name person_columns)" using person_small(3) by (simp add: v1_table_ok_def)
  ultimately obtain ops where ops: "\<forall>tw. tw_version tw = V0_1_0 \<longrightarrow>
      addRecordFromProtobuf person_table (MObject 0 ?row) person_schema tw =
      res_bind (res_fold tw_put ops tw) (\<lambda>tw. Inr (CSTableWriter_addRow tw))"
    "\<forall>(ps, t) \<in> set (message_paths person_schema).
       cells_of (path_name (map snd ps)) ops = map to_cell (stripe 0 0 0 ps (MObject 0 ?row))"
    using record_shredding [where order = "\<lambda>cs. cs" and S = person_schema and ts = person_table and junk = person_junk
        and cols = person_columns and row = ?row and i = 0] person_wf person_tables by auto
  have "message_paths person_schema = person_paths" by (rule person_paths)
  with ops(2) have "cells_of [116, 46, 107] ops = [(0, 1, None)]" "cells_of [116, 46, 118] ops = [(0, 2, Some (DString []))]"
    by (simp_all add: person_paths_def children_def level_def)
  with ops(1) show ?thesis by blast
qed

text \<open>
  C10. The table of a message schema: \<open>fromProtobuf\<close> succeeds for every well-formed schema, and the
  flat columns of the copy a writer keeps are its leaves, each once, whatever order the hash maps
  yield: the dotted path as name, the counts of repeated and of repeated or optional fields on the
  path as levels, the encoding and logical type of the type of the leaf.
\<close>

theorem schema_columns:
  assumes "\<And>cs. mset (order cs) = mset cs" and "schema_wf S"
  shows "\<exists>ts cols. TableSchema_fromProtobuf order S = Inr ts \<and>
    TableSchema_flatColumns junk (TableSchema_copy order ts) = Inr cols \<and>
    mset (map (\<lambda>c. (cc_column_name c, cc_rlevel_max c, cc_dlevel_max c, cc_storage_type c, cc_logical_type c)) cols) =
      mset (map (\<lambda>(ps, t). (path_name (map snd ps), level (rlevel ps), level (dlevel ps), column_encoding t, column_type t))
        (message_paths S))"
  using assms by (rule fromProtobuf_flat)

lemma schema_columns_witness:
  "\<exists>ts cols. TableSchema_fromProtobuf rev person_schema = Inr ts \<and>
    TableSchema_flatColumns person_junk (TableSchema_copy rev ts) = Inr cols \<and>
    mset (map cc_column_name cols) = {#[105, 100], [116, 46, 107], [116, 46, 118]#}"
proof -
  from schema_columns [where order = rev and S = person_schema and junk = person_junk] person_wf(1) obtain ts cols where t:
    "TableSchema_fromProtobuf rev person_schema = Inr ts" "TableSchema_flatColumns person_junk (TableSchema_copy rev ts) = Inr cols"
    and m: "mset (map (\<lambda>c. (cc_column_name c, cc_rlevel_max c, cc_dlevel_max c, cc_storage_type c, cc_logical_type c)) cols) =
      mset (map (\<lambda>(ps, t). (path_name (map snd ps), level (rlevel ps), level (dlevel ps), column_encoding t, column_type t))
        (message_paths person_schema))" by auto
  from arg_cong [OF m, of "image_mset fst"] have "mset (map cc_column_name cols) = {#[105, 100], [116, 46, 107], [116, 46, 118]#}"
    by (simp add: multiset.map_comp o_def person_paths person_paths_def)
  with t show ?thesis by blast
qed

section \<open>Messages and their schemas\<close>

text \<open>
  C17. A message schema, with subschemas at any depth, encoded into a buffer of any initial size that
  is not 0 and decoded is the same schema, with the indexes by name and by id.
\<close>

theorem schema_codec_roundtrip:
  assumes "schema_ok s" and "0 < k" and "length (schema_bytes s) < 2 ^ 63"
  shows "\<exists>w. MessageSchema_encode s (mw_new k) = Inr w \<and> MessageSchema_decode (mw_data w) = Inr s"
  using assms by (rule schema_decode_encode)

lemma schema_codec_roundtrip_witness:
  "\<exists>w. MessageSchema_encode person_schema (mw_new 1) = Inr w \<and> MessageSchema_decode (mw_data w) = Inr person_schema"
proof -
  have "schema_ok person_schema"
    by (simp add: person_schema_def schema_ok_MessageSchema mkObjectField_def field_type_of_code_def hint_of_code_def)
  moreover have "length (schema_bytes person_schema) < 2 ^ 63" by (simp add: person_schema_size)
  ultimately show ?thesis using schema_codec_roundtrip [of person_schema 1] by simp
qed

text \<open>
  C19. Decoding a schema terminates on every input, a field count or a nesting the input does not
  back included: the recursion of the decoder consumes a byte at every call, so no amount of fuel
  above the length of the input changes the answer.
\<close>

theorem schema_decode_terminates:
  assumes "length data < fuel"
  shows "MessageSchema_decode data =
    res_bind (MessageSchema_read fuel empty_schema (mr_open data (length data))) (\<lambda>(s, _). Inr s)"
  using assms by (rule MessageSchema_decode_fuel)

lemma schema_decode_terminates_witness:
  "MessageSchema_decode [1, 0, 255, 255, 3] =
    res_bind (MessageSchema_read 1000 empty_schema (mr_open [1, 0, 255, 255, 3] 5)) (\<lambda>(s, _). Inr s)"
proof -
  have "length [1, 0, 255, 255, 3 :: byte] < 1000" "length [1, 0, 255, 255, 3 :: byte] = 5" by simp_all
  with schema_decode_terminates [OF this(1)] show ?thesis by (simp only:)
qed

text \<open>
  C7. Messages across schema versions: fields written with one schema are read with another that
  gives every field it shares the same type; exactly the fields it lacks are dropped, at every depth,
  the others arrive in order behind those the object already had. With the same schema nothing is
  dropped.
\<close>

theorem message_codec_roundtrip:
  assumes "\<forall>m \<in> set ms. conforms S m" and "\<forall>m \<in> set ms. readable S' m"
    and "length (concat (map mo_bytes ms)) < 2 ^ 63"
  shows "\<exists>data. MessageEncoder_encode (MObject i ms) S buf = Inr (buf @ data) \<and>
    MessageDecoder_decode data S' fs = Inr (fs @ concat (map (restrict S') ms)) \<and>
    MessageDecoder_decode data S fs = Inr (fs @ ms)"
  using assms by (rule MessageEncoder_decode_both)

lemma message_codec_roundtrip_witness:
  "\<exists>data. MessageEncoder_encode (MObject 0 (hd person_rows)) person_schema [] = Inr data \<and>
    MessageDecoder_decode data person_reader [] = Inr [MObject 2 [MUInt64 1 3], MObject 2 []] \<and>
    MessageDecoder_decode data person_schema [] = Inr (hd person_rows)"
proof -
  have "\<forall>m \<in> set (hd person_rows). conforms person_schema m" by (rule person_conforms(1))
  moreover have "\<forall>m \<in> set (hd person_rows). readable person_reader m" by (rule person_conforms(2))
  moreover have "length (concat (map mo_bytes (hd person_rows))) < 2 ^ 63" by (simp add: person_bytes)
  ultimately show ?thesis
    using message_codec_roundtrip [of "hd person_rows" person_schema person_reader 0 "[]" "[]"] person_conforms(3) by auto
qed

section \<open>Files a reader refuses\<close>

text \<open>
  C21. Files that are refused. A file of at least 6 bytes with other bytes than the magic number at its
  start, or with a version other than 1 and 2, is refused with a runtime error when it is opened (of a
  shorter file the code reads memory it has not written); for a path without a file, \<open>File::openFile\<close> raises
  an I/O error; and a table is not created at a path that holds a file, whatever its content, because the
  writer opens with \<open>O_CREATE\<close>.
\<close>

theorem damaged_file_rejected:
  assumes "6 \<le> length content" and "take 4 content \<noteq> kMagicBytes \<or> content ! 4 \<notin> {1, 2}"
  shows "CSTableReader_openFile col0 n0 (Some content) = Inl RuntimeError \<and>
    CSTableReader_openFile col0 n0 None = Inl IOError \<and>
    CSTableWriter_createFile order junk (Some any) version schema = Inl IOError"
  using openFile_rejects [OF assms] by (simp add: CSTableWriter_createFile_def)

lemma damaged_file_rejected_witness:
  "CSTableReader_openFile example_config 0 (Some (kMagicBytes @ [3, 0])) = Inl RuntimeError"
  using damaged_file_rejected [of "kMagicBytes @ [3, 0]" example_config 0] by (simp add: kMagicBytes_def)

section \<open>Pages\<close>

text \<open>
  C18. The page manager never hands out the same bytes twice: the pages of any sequence of
  allocations hold what was asked for, are whole sectors and lie one behind the other from the end of
  what was allocated before; writing up to a page full into one of them leaves each of the others
  that is in the file as it was.
\<close>

theorem allocated_pages_apart:
  assumes "\<forall>n \<in> set ns. n + 511 < 2 ^ 32" and "unat (pm_offset pm) + (\<Sum>n \<leftarrow> ns. n + 511) < 2 ^ 64"
    and "alloc_pages ns pm = (ps, pm')"
  shows "list_all2 (\<lambda>n p. n \<le> unat (pr_size p) \<and> 512 dvd unat (pr_size p)) ns ps \<and>
    (\<forall>i < length ps. unat (pm_offset pm) \<le> page_start (ps ! i) \<and> page_end (ps ! i) \<le> unat (pm_offset pm') \<and>
      (\<forall>j < length ps. \<forall>data. i \<noteq> j \<and> length data \<le> unat (pr_size (ps ! i)) \<and> page_end (ps ! j) \<le> length (pm_file pm') \<longrightarrow>
        region (page_start (ps ! j)) (unat (pr_size (ps ! j))) (pm_file (pm_writePage (ps ! i) data pm')) =
        region (page_start (ps ! j)) (unat (pr_size (ps ! j))) (pm_file pm')))"
  using alloc_pages_ok [OF assms] writePage_other sorted_pages_apart by (auto simp: all_set_conv_all_nth)

lemma allocated_pages_apart_witness:
  "\<exists>p q pm'. alloc_pages [3, 600] example_pages = ([p, q], pm') \<and> unat (pr_size p) \<ge> 3 \<and> unat (pr_size q) \<ge> 600 \<and>
    region (page_start q) (unat (pr_size q)) (pm_file (pm_writePage p [1, 2, 3] pm')) =
    region (page_start q) (unat (pr_size q)) (pm_file pm')"
proof -
  obtain ps pm' where ps: "alloc_pages [3, 600] example_pages = (ps, pm')" by (cases "alloc_pages [3, 600] example_pages")
  have "\<forall>n \<in> set [3, 600 :: nat]. n + 511 < 2 ^ 32"
    "unat (pm_offset example_pages) + (\<Sum>n \<leftarrow> [3, 600 :: nat]. n + 511) < 2 ^ 64" by (simp_all add: example_pages_def)
  note all = allocated_pages_apart [OF this ps]
  then obtain p q where pq: "ps = [p, q]" "3 \<le> unat (pr_size p)" "600 \<le> unat (pr_size q)"
    by (auto simp: list_all2_Cons1)
  have disk: "fst (alloc_pages [3, 600] example_pages) = [\<lparr>pr_offset = 512, pr_size = 512\<rparr>, \<lparr>pr_offset = 1024, pr_size = 1024\<rparr>]"
    "pm_file (snd (alloc_pages [3, 600] example_pages)) = replicate 4096 0" by (code_simp, code_simp)
  have "q = \<lparr>pr_offset = 1024, pr_size = 1024\<rparr>" "pm_file pm' = replicate 4096 0"
    using disk unfolding ps pq(1) by simp_all
  then have "page_end q \<le> length (pm_file pm')" by (simp add: page_end_def)
  moreover from spec [OF conjunct2 [OF all], of 0] have "\<forall>j. j < 2 \<longrightarrow> (\<forall>data. 0 \<noteq> j \<and> length data \<le> unat (pr_size p) \<and>
      page_end ([p, q] ! j) \<le> length (pm_file pm') \<longrightarrow>
        region (page_start ([p, q] ! j)) (unat (pr_size ([p, q] ! j))) (pm_file (pm_writePage p data pm')) =
        region (page_start ([p, q] ! j)) (unat (pr_size ([p, q] ! j))) (pm_file pm'))"
    by (simp add: pq(1) numeral_2_eq_2) blast
  from spec [OF this, of 1] have "length data \<le> unat (pr_size p) \<and> page_end q \<le> length (pm_file pm') \<longrightarrow>
      region (page_start q) (unat (pr_size q)) (pm_file (pm_writePage p data pm')) =
      region (page_start q) (unat (pr_size q)) (pm_file pm')" for data by simp
  from this [of "[1, 2, 3]"] pq(2) calculation have "region (page_start q) (unat (pr_size q)) (pm_file (pm_writePage p [1, 2, 3] pm')) =
    region (page_start q) (unat (pr_size q)) (pm_file pm')" by simp
  with ps pq show ?thesis by blast
qed

section \<open>Readers that do not return what was written\<close>

text \<open>
  Format v0.2.0 cannot be read: whatever a file of this format holds, every read from every of
  its columns answers the levels 0 and the value 0, a value when the column has no definition levels
  and null otherwise, and the column is never at its end.
\<close>

lemma v2_reader_reads_zero:
  assumes "CSTableReader_openFile col0 n0 (Some content) = Inr tr" and "tr_version tr = V0_2_0"
    and "CSTableReader_getColumnReader tr name = Inr j"
  shows "tr_readUnsignedInt j tr = Inr ((cc_dlevel_max (tr_columns tr ! j) = 0, 0, 0, 0), tr) \<and> \<not> tr_eofReached j tr"
  using assms by (rule openFile_v2_zero)

lemma v2_reader_reads_zero_witness:
  "\<exists>content tr j. CSTableReader_openFile example_config 0 (Some content) = Inr tr \<and>
    CSTableReader_getColumnReader tr [105, 100] = Inr j \<and> tr_readUnsignedInt j tr = Inr ((True, 0, 0, 0), tr)"
proof -
  have names: "\<forall>op \<in> set example_uints. fst op \<in> cc_column_name ` set [example_config]"
    by (simp add: example_uints_def example_config_def)
  have size: "length (v2_header_image [example_config]) + (2 ^ 32 + 3 * 1024 * length example_uints) \<le> 2 ^ 63"
    by (simp add: example_header_size example_uints_def)
  have small: "5 * length [example_config] * (60 + 30 * length example_uints) < 2 ^ 31" by (simp add: example_uints_def)
  from v2_session_commit [OF example_flat example_ok(2) names size small, of "\<lambda>_. 0" 2 example_config 0]
  obtain content tr where tr: "CSTableReader_openFile example_config 0 (Some content) = Inr tr" "tr_version tr = V0_2_0"
    "tr_columns tr = [v2_config example_config example_config]" by auto
  have j: "CSTableReader_getColumnReader tr [105, 100] = Inr 0"
    by (simp add: CSTableReader_getColumnReader_def tr(3) v2_config_def example_config_def)
  have "cc_dlevel_max (tr_columns tr ! 0) = 0" by (simp add: tr(3) v2_config_def example_config_def)
  with v2_reader_reads_zero [OF tr(1,2) j] tr(1) j show ?thesis by auto
qed

text \<open>
  The boolean view of an integer column loses the value \<open>true\<close>: a column of integers from which
  the cell comes that \<open>writeBoolean\<close> puts there for \<open>true\<close>, or for \<open>false\<close>, answers \<open>false\<close> to
  \<open>readBoolean\<close>, and only integers from 2 on are read as \<open>true\<close>. Levels and nulls are right and the
  following cells are undisturbed.
\<close>

lemma integer_as_boolean:
  assumes "cr_delivers r_max d_max cr ((r, d, Some (DUInt v)) # cs)" and "enc_type (cr_encoding cr) = UNSIGNED_INT"
  shows "\<exists>cr'. cr_readBoolean cr = Inr ((True, r, d, v > 1), cr') \<and> cr_delivers r_max d_max cr' cs"
  using assms by (rule cr_readBoolean_integer)

lemma integer_as_boolean_witness:
  "\<exists>w w' cr cr'. openColumnV1_writer example_config = Inr w \<and> cw_writeBoolean 0 0 True w = Inr w' \<and>
    cr_delivers 0 0 cr [(0, 0, Some (DUInt 1))] \<and> cw_holds 0 0 w' [(0, 0, Some (DUInt 1))] \<and>
    cr_readBoolean cr = Inr ((True, 0, 0, False), cr')"
proof -
  let ?c = "(0, 0, Some (DUInt 1)) :: datum cell"
  have cell: "cell_storable example_config ?c" by (simp add: cell_storable_def cell_ok_def example_config_def)
  have small: "cells_bytes [?c] < 2 ^ 63" "level_max 0" by (simp_all add: cells_bytes_def level_max_def)
  from delivering_reader [of example_config "[?c]"] cell small obtain w w' cr where
    "openColumnV1_writer example_config = Inr w" "cw_write_cell ?c w = Inr w'" "cw_holds 0 0 w' [?c]" "cr_delivers 0 0 cr [?c]"
    "cr_encoding cr = UINT64_PLAIN"
    by (auto simp: example_fields known_encoding_def res_fold_single example_levels simp del: res_fold.simps)
  with integer_as_boolean [of 0 0 cr 0 0 1 "[]"] show ?thesis by (auto simp: cw_writeBoolean_def cw_writeUnsignedInt_def)
qed


section \<open>Rows of text\<close>

definition example_format :: csv_format where
  "example_format = \<lparr>column_separator = 59, row_separator = 10, quote_char = 34\<rparr>"


definition no_strptime :: "bytes \<Rightarrow> tm option" where "no_strptime s = None"
definition no_stod :: "bytes \<Rightarrow> double res" where "no_stod s = Inl StdInvalidArgument"
definition no_clock :: "nat \<Rightarrow> nat \<Rightarrow> u64" where "no_clock r j = 0"




text \<open>
  C20. Importing always returns: whatever bytes the stream has left, \<open>addRecordsFromCSV\<close> ends, either
  with the exception of the first header, missing column or field that is refused, or with the
  rows below the header written one after the other; a last line without a row separator is not
  among them.
\<close>

theorem csv_import_returns:
  assumes "is_ok input"
  shows "addRecordsFromCSV strptime stod now fmt input tw =
    Some (let (found, columns, rest) = csv_row fmt False [] (is_rest input)
          in res_bind (csv_header_writers columns tw) (\<lambda>writers.
             res_bind (csv_missing_writers (csv_missing columns tw) tw) (\<lambda>missing.
             res_fold (\<lambda>(r, row). csv_import_row strptime stod (now r) writers missing row)
               (enumerate 0 (csv_rows fmt rest)) tw)))"
  using assms by (rule addRecordsFromCSV_returns)

lemma csv_import_returns_witness:
  "\<forall>tw. addRecordsFromCSV no_strptime no_stod no_clock example_format
     (StringIS \<lparr>ms_data = [120, 10, 55], ms_cur = 0\<rparr>) tw =
   Some (res_bind (csv_header_writers [[120]] tw) (\<lambda>writers.
         res_bind (csv_missing_writers (csv_missing [[120]] tw) tw) (\<lambda>missing. Inr tw)))"
proof -
  have ok: "is_ok (StringIS \<lparr>ms_data = [120, 10, 55], ms_cur = 0\<rparr>)" by simp
  have "csv_row example_format False [] [120, 10, 55] = (True, [[120]], [55])" by code_simp
  moreover have "csv_rows example_format [55] = []"
    by (subst csv_rows.simps) (simp add: example_format_def)
  ultimately show ?thesis
    by (simp add: csv_import_returns [OF ok] ms_rest_def)
qed

text \<open>
  C12. The row reader refines a function on the bytes left in the stream (\<open>csv_row\<close>: separators
  outside quotes end fields and rows, quotes are dropped): for every input stream, wherever its
  chunks end, it returns, with that function's columns, says whether a row separator was found,
  and leaves the stream at the rest.
\<close>

theorem csv_reader_refines:
  assumes "is_ok input" and "csv_row fmt False [] (is_rest input) = (found, row, r)"
  shows "\<exists>input'. CSV_readNextRow fmt input = Some (found, row, input') \<and> is_ok input' \<and> is_rest input' = r"
  using assms by (rule readNextRow_refines)

lemma csv_reader_refines_witness:
  "\<exists>input'. CSV_readNextRow example_format (StringIS \<lparr>ms_data = [34, 59, 34, 59, 97, 10, 98], ms_cur = 0\<rparr>) =
    Some (True, [[59], [97]], input') \<and> is_rest input' = [98]"
proof -
  have "csv_row example_format False [] (is_rest (StringIS \<lparr>ms_data = [34, 59, 34, 59, 97, 10, 98], ms_cur = 0\<rparr>)) =
      (True, [[59], [97]], [98])" by code_simp
  from csv_reader_refines [OF _ this] show ?thesis by auto
qed

text \<open>
  Rows of the binary format: a row of any byte strings, appended by the output stream and read
  from any input stream, is returned, and the stream is at what follows.
\<close>

theorem binary_csv_roundtrip:
  assumes "length row < 2 ^ 64" and "\<forall>x \<in> set row. length x < 2 ^ 64"
    and "is_ok input" and "is_rest input = BinaryCSV_appendRow row [] @ s"
  shows "\<exists>input'. BinaryCSV_readNextRow input = Inr (Some row, input') \<and> is_ok input' \<and> is_rest input' = s"
  using assms by (rule binary_row_roundtrip)

lemma binary_csv_roundtrip_witness:
  "\<exists>input'. BinaryCSV_readNextRow (MemoryIS \<lparr>ms_data = BinaryCSV_appendRow [[97], [], [59, 10]] [] @ [7], ms_cur = 0\<rparr>) =
    Inr (Some [[97], [], [59, 10]], input') \<and> is_rest input' = [7]"
  using binary_csv_roundtrip [of "[[97], [], [59, 10]]"
      "MemoryIS \<lparr>ms_data = BinaryCSV_appendRow [[97], [], [59, 10]] [] @ [7], ms_cur = 0\<rparr>" "[7]"]
  by (auto simp: ms_rest_def)

section \<open>Text and time\<close>

text \<open>
  C25. Replacing is splitting and joining: \<open>replaceAll\<close> with a pattern that is not empty, as long as the result
  fits its 32-bit cursor, gives what \<open>join\<close> with the replacement makes of the parts \<open>split\<close>
  returns, and joining these parts with the pattern gives the string back.
\<close>

theorem replace_is_split_join:
  assumes "p \<noteq> []"
  shows "\<exists>parts. StringUtil_split s p = Some parts \<and> StringUtil_join parts p = s \<and>
    (length (StringUtil_join parts r) < 2 ^ 31 \<longrightarrow> replaceAll s p r = Some (Inr (StringUtil_join parts r)))"
  using split_reference [OF assms] join_split_ref replaceAll_reference [OF assms] by blast

lemma replace_is_split_join_witness: "replaceAll [97, 44, 98] [44] [59, 59] = Some (Inr [97, 59, 59, 98])"
proof -
  have "StringUtil_split [97, 44, 98] [44] = Some [[97], [98]]" using split_join_char [of "[[97], [98]]" 44] by simp
  with replace_is_split_join [of "[44]" "[97, 44, 98]" "[59, 59]"] show ?thesis by simp
qed

text \<open>
  C22. The conversion of a civil time adds up the days of all years and months since 1970 one by one;
  from 1970 on and for months 1 to 12 it equals the closed formula of the Gregorian calendar, and, when
  the time is not before 1970 in universal time, without wrap-around.
\<close>

theorem civil_time_calendar:
  assumes "1970 \<le> ct_year c" and "1 \<le> ct_month c" and "ct_month c \<le> 12"
  shows "UnixTime_civil c = word_of_int (civil_micros c) \<and>
    (0 \<le> civil_micros c \<longrightarrow> uint (UnixTime_civil c) = civil_micros c)"
  using UnixTime_civil_micros [OF assms] UnixTime_civil_exact [OF assms] by simp

lemma civil_time_calendar_witness:
  "uint (UnixTime_civil \<lparr>ct_year = 2016, ct_month = 2, ct_day = 29, ct_hour = 12, ct_minute = 30, ct_second = 5,
     ct_millisecond = 250, ct_offset = 7200\<rparr>) = 1456741805250000"
proof -
  let ?c = "\<lparr>ct_year = 2016, ct_month = 2, ct_day = 29, ct_hour = 12, ct_minute = 30, ct_second = 5,
     ct_millisecond = 250, ct_offset = 7200\<rparr>"
  have m: "civil_micros ?c = 1456741805250000" by code_simp
  have "1970 \<le> ct_year ?c" "1 \<le> ct_month ?c" "ct_month ?c \<le> 12" by simp_all
  from civil_time_calendar [OF this] show ?thesis by (simp add: m)
qed

text \<open>
  C28. Timestamps as text: \<open>ISO8601::parse\<close> accepts exactly the printed forms, each with its value. A form is
  a year of four digits, a year and a month, a date, or a date with \<open>T\<close> or \<open>t\<close>, hours, minutes, seconds, an
  optional fraction of one to three digits (\<open>.5\<close> is half a second) and a zone, which is \<open>Z\<close> or \<open>z\<close> at
  the end of the text or a signed offset \<open>HH:MM\<close> with anything behind it. The month is 1 to 12, the day 1 to 31
  in every month, the hour 0 to 24, minutes and seconds are 0 to 59, the offset up to \<open>24:59\<close>; a time without
  a zone is refused.
\<close>

theorem timestamp_text_parsed:
  "ISO8601_parse str = Inr (Some c) \<longleftrightarrow> (\<exists>f. iso_ok f \<and> str = iso_print f \<and> c = iso_value f)"
  by (rule ISO8601_parse_iff)

lemma timestamp_text_parsed_witness:
  "ISO8601_parse (ascii ''2016-02-29T12:30:05.5-01:45'') =
     Inr (Some \<lparr>ct_year = 2016, ct_month = 2, ct_day = 29, ct_hour = 12, ct_minute = 30, ct_second = 5,
       ct_millisecond = 500, ct_offset = - 6300\<rparr>) \<and>
   ISO8601_parse (ascii ''2016-02'') = Inr (Some (CivilTime_null\<lparr>ct_year := 2016, ct_month := 2\<rparr>))"
proof -
  let ?f = "IsoTime 2016 2 29 False 12 30 5 [53] (Shift True 1 45 [])"
  have "ascii ''2016-02-29T12:30:05.5-01:45'' = iso_print ?f"
    by (simp add: ascii_def digits2_def digits4_def digit_char_def hour_print_def minute_print_def second_print_def frac_print_def)
  moreover have "iso_ok ?f" by (simp add: month_ok_def day_ok_def time_ok_def frac_ok_def is_digit_def)
  moreover have "\<lparr>ct_year = 2016, ct_month = 2, ct_day = 29, ct_hour = 12, ct_minute = 30, ct_second = 5,
       ct_millisecond = 500, ct_offset = - 6300\<rparr> = iso_value ?f"
    by (simp add: frac_millis_def digits_value_def)
  moreover have "ascii ''2016-02'' = iso_print (IsoMonth 2016 2)" "iso_ok (IsoMonth 2016 2)"
    "CivilTime_null\<lparr>ct_year := 2016, ct_month := 2\<rparr> = iso_value (IsoMonth 2016 2)"
    by (simp_all add: ascii_def digits2_def digits4_def digit_char_def month_ok_def)
  ultimately show ?thesis using timestamp_text_parsed by blast
qed

text \<open>
  The timestamp parser never reads outside its argument, on any byte string but those of length 8
  that end in a minus sign.
\<close>

theorem timestamp_reads_inside:
  assumes "\<not> (length str = 8 \<and> str ! 7 = 45)"
  shows "\<exists>c. ISO8601_parse str = Inr c"
  using assms by (rule ISO8601_parse_inside)

lemma timestamp_reads_inside_witness: "\<exists>c. ISO8601_parse (ascii ''2016-02-2'') = Inr c"
  by (rule timestamp_reads_inside) (simp add: ascii_def)

text \<open>
  C24. UTF-8: text of any code points but 0 and below \<open>2^24\<close>, encoded code point by code point, is
  accepted by the validation and decoded to the same code points.
\<close>

theorem utf8_roundtrip:
  assumes "\<forall>c \<in> set cs. c \<noteq> 0 \<and> c < 0x1000000"
  shows "convertUTF8To32 (convertUTF32To8 cs) = Inr cs \<and> isValidUTF8 (convertUTF32To8 cs) = Some True"
  using utf8_text_roundtrip [OF assms] utf8_text_valid by simp

lemma utf8_roundtrip_witness:
  "convertUTF32To8 [0x41, 0xE9, 0x20AC, 0x1F600] = [0x41, 0xC3, 0xA9, 0xE2, 0x82, 0xAC, 0xF0, 0x9F, 0x98, 0x80] \<and>
   convertUTF8To32 (convertUTF32To8 [0x41, 0xE9, 0x20AC, 0x1F600]) = Inr [0x41, 0xE9, 0x20AC, 0x1F600]"
proof -
  have "convertUTF32To8 [0x41, 0xE9, 0x20AC, 0x1F600] = [0x41, 0xC3, 0xA9, 0xE2, 0x82, 0xAC, 0xF0, 0x9F, 0x98, 0x80]"
    by code_simp
  then show ?thesis using utf8_roundtrip [of "[0x41, 0xE9, 0x20AC, 0x1F600]"] by simp
qed

text \<open>
  C29. When the validation of UTF-8 makes no progress: it does not return exactly on the texts that
  begin with any number of multi-byte sequences, cut by their leading bytes, followed by a byte
  that starts none (\<open>0x80\<close> to \<open>0xBF\<close>, \<open>0xFE\<close>, \<open>0xFF\<close>).
\<close>

theorem utf8_validation_stuck:
  "isValidUTF8 s = None \<longleftrightarrow>
     (\<exists>us b t. s = concat us @ b # t \<and> (\<forall>u \<in> set us. utf8_chunk u) \<and> seq_len b = None)"
  by (rule isValidUTF8_hangs)

lemma utf8_validation_stuck_witness: "isValidUTF8 [0xC3, 0xA9, 0x80, 0x41] = None"
proof -
  have "[0xC3, 0xA9, 0x80, 0x41] = concat [[0xC3, 0xA9]] @ 0x80 # [0x41 :: byte]" by simp
  moreover have "\<forall>u \<in> set [[0xC3, 0xA9]]. utf8_chunk u" "seq_len 0x80 = None" by code_simp+
  ultimately show ?thesis using utf8_validation_stuck [of "[0xC3, 0xA9, 0x80, 0x41]"] by blast
qed

text \<open>
  C23. The type detected for a series of values is exactly the one that fits the kinds of its values:
  \<open>BINARY\<close> with a value that is not UTF-8; otherwise, of the kinds that are there, numbers without a sign
  give an unsigned integer, numbers with and without a minus sign a signed integer, words for booleans a
  boolean, times a time, each nullable when a \<open>null\<close> is among them; nulls alone are \<open>NULL_OR_EMPTY\<close> and any other
  mixture is \<open>TEXT\<close>. The empty text counts as a number without a sign. No value is detected as a float: a
  number with a point is text. This holds for every series of at least one value whose values have a kind, that
  is, parse without an exception and are validated in finite time.
\<close>

theorem series_type_exact:
  assumes "\<forall>v \<in> set vs. value_kind strptime now v = Some (kind v)" and "vs \<noteq> []"
  shows "detect_series strptime now vs HDT_UNKNOWN = Some (Inr (series_type (kind ` set vs)))"
  using assms by (rule detect_series_kinds)

lemma series_type_exact_witness:
  "detect_series no_strptime 0 (map ascii [''12'', ''-3'', ''NULL'']) HDT_UNKNOWN = Some (Inr HDT_SIGNED_INTEGER_NULLABLE) \<and>
   detect_series no_strptime 0 [ascii ''12'', []] HDT_UNKNOWN = Some (Inr HDT_UNSIGNED_INTEGER)"
proof -
  let ?kind = "\<lambda>v. if v = ascii ''NULL'' then KNull else if v = ascii ''-3'' then KSigned else KUnsigned"
  have k: "\<forall>v \<in> set (map ascii [''12'', ''-3'', ''NULL'']). value_kind no_strptime 0 v = Some (?kind v)"
    "\<forall>v \<in> set [ascii ''12'', []]. value_kind no_strptime 0 v = Some (?kind v)"
    by (simp_all add: value_kind_def ascii_def is_digit_def)
  have t: "series_type (?kind ` set (map ascii [''12'', ''-3'', ''NULL''])) = HDT_SIGNED_INTEGER_NULLABLE"
    "series_type (?kind ` set [ascii ''12'', []]) = HDT_UNSIGNED_INTEGER"
    by (simp_all add: series_type_def ascii_def)
  show ?thesis using series_type_exact [OF k(1)] series_type_exact [OF k(2)] unfolding t by simp
qed

lemma example_detect:
  "detectDataType strptime now (ascii ''12'') = Some (Inr HDT_UNSIGNED_INTEGER)"
  "detectDataType strptime now (ascii ''-3'') = Some (Inr HDT_SIGNED_INTEGER)"
  "detectDataType strptime now (ascii ''NULL'') = Some (Inr HDT_NULL_OR_EMPTY)"
proof -
  have "isNumber (ascii ''12'')" "\<not> StringUtil_includes (ascii ''12'') (ascii ''.'')"
    "\<not> StringUtil_includes (ascii ''12'') (ascii '','')" "\<not> beginsWith (ascii ''12'') (ascii ''-'')" by code_simp+
  then show "detectDataType strptime now (ascii ''12'') = Some (Inr HDT_UNSIGNED_INTEGER)"
    by (simp add: detectDataType_def)
  have "isNumber (ascii ''-3'')" "\<not> StringUtil_includes (ascii ''-3'') (ascii ''.'')"
    "\<not> StringUtil_includes (ascii ''-3'') (ascii '','')" "beginsWith (ascii ''-3'') (ascii ''-'')" by code_simp+
  then show "detectDataType strptime now (ascii ''-3'') = Some (Inr HDT_SIGNED_INTEGER)"
    by (simp add: detectDataType_def)
  have "\<not> isNumber (ascii ''NULL'')" "isNullOrEmpty (ascii ''NULL'')" by code_simp+
  then show "detectDataType strptime now (ascii ''NULL'') = Some (Inr HDT_NULL_OR_EMPTY)"
    by (simp add: detectDataType_def)
qed

text \<open>
  The type of a series does not depend on the order of its values, whatever was detected before.
\<close>

lemma series_type_order:
  assumes "\<forall>v \<in> set vs. \<exists>t. detectDataType strptime now v = Some (Inr t)" and "mset vs = mset ws"
  shows "detect_series strptime now vs prev = detect_series strptime now ws prev"
  using assms by (rule detect_series_order)

lemma series_type_order_witness:
  "detect_series no_strptime 0 (map ascii [''12'', ''-3'', ''NULL'']) HDT_UNKNOWN =
   detect_series no_strptime 0 (map ascii [''NULL'', ''12'', ''-3'']) HDT_UNKNOWN"
  by (rule series_type_order) (simp_all add: example_detect)

section \<open>URIs and HTTP\<close>

definition example_uri :: uri where
  "example_uri = \<lparr>uri_scheme = ascii ''http'', uri_userinfo = [], uri_host = ascii ''h'', uri_port = 80,
     uri_path = ascii ''/p'', uri_query = [], uri_fragment = ascii ''f''\<rparr>"

definition example_params :: "(bytes \<times> bytes) list" where
  "example_params = [(ascii ''a b'', ascii ''#=&''), (ascii ''c'', [])]"

lemma query_text_no_hash: "35 \<notin> set (query_text params)"
proof (induction params)
  case (Cons p params)
  have "35 \<notin> set (urlEncode s)" for s
    using urlEncode_chars [of 35 s] by (auto simp: url_plain_def is_upper_def is_lower_def is_digit_def)
  with Cons show ?case by (cases p; cases params) (auto simp: query_text_def)
qed simp

text \<open>
  C30. A URI with a query string built of parameters, written and parsed again: the parser gives
  back every part of the URI, and the query of the result decodes to the parameters, whatever bytes
  their keys and values hold.
\<close>

theorem uri_query_roundtrip:
  assumes "uri_ok u" and "params_ok params"
  shows "\<exists>q. buildQueryString params = Some (Inr q) \<and>
    URI_parse (URI_toString (u\<lparr>uri_query := q\<rparr>)) URI_empty = Inr (u\<lparr>uri_query := q\<rparr>) \<and>
    parseQueryString q = Inr params"
proof -
  have "uri_ok (u\<lparr>uri_query := query_text params\<rparr>)"
    using assms(1) query_text_no_hash by (simp add: uri_ok_def)
  with uri_roundtrip query_roundtrip [OF assms(2)] show ?thesis by blast
qed

lemma uri_query_roundtrip_witness:
  "\<exists>q. buildQueryString example_params = Some (Inr q) \<and>
    URI_parse (URI_toString (example_uri\<lparr>uri_query := q\<rparr>)) URI_empty = Inr (example_uri\<lparr>uri_query := q\<rparr>) \<and>
    parseQueryString q = Inr example_params"
proof (rule uri_query_roundtrip)
  show "uri_ok example_uri" by (simp add: uri_ok_def example_uri_def ascii_def)
  have "length (urlEncode (ascii ''a b'')) = 5" "length (urlEncode (ascii ''#=&'')) = 9" "length (urlEncode (ascii ''c'')) = 1"
    "ascii ''a b'' \<noteq> []" "ascii ''c'' \<noteq> []" by code_simp+
  then show "params_ok example_params" by (simp add: params_ok_def example_params_def urlEncode_def [of "[]"])
qed

definition example_request :: http_request where
  "example_request = \<lparr>hm_version = ascii ''HTTP/1.1'', hm_headers = [(ascii ''host'', ascii ''h'')],
     hm_body = [1, 2], hreq_method = M_PUT, hreq_uri = ascii ''/p''\<rparr>"

definition example_response :: http_response where
  "example_response = \<lparr>hm_version = ascii ''HTTP/1.0'', hm_headers = [(ascii ''server'', ascii ''s'')],
     hm_body = [1, 2], hres_status_code = 200, hres_status_name = ascii ''OK''\<rparr>"

text \<open>
  C31. Every request whose parts fit their place in the text is generated, and the text
  parses to the request with the length of its body among the headers when it was not there. The parts fit
  (\<open>http_request_ok\<close>) when the URI has no space and no \<open>$2\<close>, and every header name no colon, no newline and no
  \<open>$1\<close>, since the text is made by replacing one placeholder after the other and a placeholder in a part
  that is already in place is replaced too (\<open>request_line_damaged\<close>: a URI with \<open>$2\<close> gets the version in its
  place); other dollar signs do not matter. The names are in lower case, version and values end before
  their line does and begin without a space, a \<open>Content-Length\<close> among the headers is that of the body,
  and all lengths are below \<open>2^31\<close>.
\<close>

theorem http_request_roundtrip:
  assumes "http_request_ok req"
  shows "\<exists>text. HTTPGenerator_request req [] = Some (Inr text) \<and>
    HTTPRequest_parse text =
      Inr (req\<lparr>hm_headers := hm_headers req @ map (\<lambda>(k, v). (toLower k, v)) (added_length req)\<rparr>)"
  using generated_request [OF assms] request_text_parsed [OF assms] by blast

lemma http_request_roundtrip_witness:
  "\<exists>text. HTTPGenerator_request example_request [] = Some (Inr text) \<and>
    HTTPRequest_parse text = Inr (example_request\<lparr>hm_headers :=
      [(ascii ''host'', ascii ''h''), (ascii ''content-length'', [50])]\<rparr>)"
proof -
  have "http_request_ok example_request"
    by (simp add: http_request_ok_def example_request_def header_ok_def lengths_are_def ascii_def toLower_def tolower_def
        is_upper_def)
  moreover have "hm_headers example_request @ map (\<lambda>(k, v). (toLower k, v)) (added_length example_request) =
      [(ascii ''host'', ascii ''h''), (ascii ''content-length'', [50])]"
    by (simp add: added_length_def hasHeader_def example_request_def ascii_def toLower_def tolower_def is_upper_def
        digits_small(3) [unfolded numeral_2_eq_2])
  ultimately show ?thesis using http_request_roundtrip [of example_request] by simp
qed

text \<open>
  C32. Every response whose parts fit their place in the text is generated, and the text parses to
  the response.
\<close>

theorem http_response_roundtrip:
  assumes "http_response_ok res"
  shows "\<exists>text. HTTPGenerator_response res [] = Some (Inr text) \<and> HTTPResponse_parse text = Inr res"
  using generated_response [OF assms] response_text_parsed [OF assms] by blast

lemma http_response_roundtrip_witness:
  "\<exists>text. HTTPGenerator_response example_response [] = Some (Inr text) \<and> HTTPResponse_parse text = Inr example_response"
  by (rule http_response_roundtrip)
    (simp add: http_response_ok_def example_response_def header_ok_def lengths_are_def ascii_def toLower_def tolower_def
      is_upper_def)

text \<open>
  C33. What a request parser delivers does not depend on how the network cut the input: when the
  pieces are accepted one after the other, so is their concatenation in one call, which leaves the
  parser in the same state and delivers the same callbacks, the body only cut into other chunks.
\<close>

theorem http_pieces_agree:
  assumes "hp_mode p = PARSE_HTTP_REQUEST" and "parse_pieces ss p = Inr (q, evs)"
  shows "\<exists>e. HTTPParser_parse (concat ss) p = Inr (q, e) \<and> head_of e = head_of evs \<and> body_of e = body_of evs"
  using parse_pieces_whole [OF assms] by (simp add: same_events_def)

definition example_pieces :: "bytes list" where
  "example_pieces = [ascii ''GE'', ascii ''T /a '', ascii ''HTTP/1.1'', [13], [10], [104, 58, 49, 13, 10], [13, 10]]"

lemma http_pieces_agree_witness:
  "\<exists>q e. HTTPParser_parse (concat example_pieces) (HTTPParser PARSE_HTTP_REQUEST True) = Inr (q, e) \<and> hp_state q = S_DONE \<and>
    head_of e = [OnMethod M_GET, OnURI (ascii ''/a''), OnVersion (ascii ''HTTP/1.1''), OnHeader [104] [49], OnHeadersComplete]"
proof -
  have "case parse_pieces example_pieces (HTTPParser PARSE_HTTP_REQUEST True) of
      Inr (q, e) \<Rightarrow> hp_state q = S_DONE \<and> head_of e =
        [OnMethod M_GET, OnURI (ascii ''/a''), OnVersion (ascii ''HTTP/1.1''), OnHeader [104] [49], OnHeadersComplete]
    | Inl _ \<Rightarrow> False" by code_simp
  then obtain q e where q: "parse_pieces example_pieces (HTTPParser PARSE_HTTP_REQUEST True) = Inr (q, e)"
    "hp_state q = S_DONE" "head_of e =
      [OnMethod M_GET, OnURI (ascii ''/a''), OnVersion (ascii ''HTTP/1.1''), OnHeader [104] [49], OnHeadersComplete]"
    by (auto split: sum.splits)
  have "hp_mode (HTTPParser PARSE_HTTP_REQUEST True) = PARSE_HTTP_REQUEST" by (simp add: HTTPParser_def)
  from http_pieces_agree [OF this q(1)] q(2,3) show ?thesis by auto
qed

text \<open>
  C34. The memory of a parser is bounded: whatever pieces it accepted, it buffers at most the limit
  of the line it is in (16 bytes of a method or version, 8192 of a URI, 65535 of a header line), and
  nothing once the headers are complete.
\<close>

theorem http_buffer_bounded:
  assumes "parse_pieces ss (HTTPParser mode on_method) = Inr (q, evs)" and "mode = PARSE_HTTP_REQUEST \<longrightarrow> on_method"
  shows "length (hp_buf q) \<le> buffer_limit (hp_state q)"
proof -
  have "buffer_ok (HTTPParser mode on_method)"
    using assms(2) by (cases mode) (simp_all add: buffer_ok_def HTTPParser_def initial_state_def)
  with parse_pieces_ok [OF assms(1)] show ?thesis by (simp add: buffer_ok_def)
qed

lemma http_buffer_bounded_witness:
  "\<exists>q evs. parse_pieces [ascii ''GE''] (HTTPParser PARSE_HTTP_REQUEST True) = Inr (q, evs) \<and> length (hp_buf q) \<le> 16"
proof -
  have "case parse_pieces [ascii ''GE''] (HTTPParser PARSE_HTTP_REQUEST True) of
      Inr (q, e) \<Rightarrow> hp_state q = S_REQ_METHOD | Inl _ \<Rightarrow> False" by code_simp
  then obtain q e where q: "parse_pieces [ascii ''GE''] (HTTPParser PARSE_HTTP_REQUEST True) = Inr (q, e)"
    "hp_state q = S_REQ_METHOD" by (auto split: sum.splits)
  have "buffer_limit S_REQ_METHOD = 16" by code_simp
  with http_buffer_bounded [OF q(1)] q show ?thesis by auto
qed

section \<open>JSON\<close>

definition example_json :: json_value where
  "example_json = JObj [(ascii ''a'', JArr [JStr [34, 10], JTrue]), (ascii ''b'', JNull)]"

lemma example_json_read: "reread example_json = example_json" "jsmall example_json"
proof -
  show "reread example_json = example_json" by (simp add: example_json_def) code_simp
  show "jsmall example_json" by (simp add: example_json_def jsmall_def)
qed

text \<open>
  C35. Every tree of JSON values, given to the writer token by token, is written as a text, and
  the parser reads the text, from whatever stream, as the same tree, but that numbers have become
  strings and strings have lost the control characters that have no escape of two characters.
\<close>

theorem json_text_roundtrip:
  assumes "is_ok input"
  shows "\<exists>w. JSONOutputStream_write (jflat v) (JSONOutputStream []) = Inr w \<and>
    (is_rest input = jw_out w \<longrightarrow> parseJSON (JSONInputStream input) = Some (Inr (jflat (reread v))))"
  using tree_written [of v "[]"] tree_read [OF assms] by auto

lemma json_text_roundtrip_witness:
  "\<exists>w. JSONOutputStream_write (jflat example_json) (JSONOutputStream []) = Inr w \<and>
    parseJSON (JSONInputStream (FileIS (FileInputStream_fromFileDescriptor (jw_out w)))) = Some (Inr (jflat example_json))"
proof -
  let ?s = "FileIS (FileInputStream_fromFileDescriptor (jtext example_json))"
  have ok: "is_ok ?s" and all: "is_rest ?s = jtext example_json" by (rule v1_file_is_rest)+
  from json_text_roundtrip [OF ok, of example_json] tree_written [of example_json "[]"] show ?thesis
    unfolding all by (simp add: example_json_read(1))
qed

text \<open>
  C36. The parser returns on every stream, and what it returns, the tokens or the error, is that
  of reading the bytes the stream has with the lexical rules, one token after the other.
\<close>

theorem json_parse_refines:
  assumes "is_ok input"
  shows "parseJSON (JSONInputStream input) = Some (json_read (is_rest input) ([], []))"
  using assms by (rule parseJSON_read)

lemma json_parse_refines_witness:
  "parseJSON (JSONInputStream (FileIS (FileInputStream_fromFileDescriptor (ascii ''[1]]'')))) = Some (Inl ParseError)"
proof -
  let ?s = "FileIS (FileInputStream_fromFileDescriptor (ascii ''[1]]''))"
  have ok: "is_ok ?s" and all: "is_rest ?s = ascii ''[1]]''" by (rule v1_file_is_rest)+
  have "json_read (ascii ''[1]]'') ([], []) = Inl ParseError" by code_simp
  with json_parse_refines [OF ok] show ?thesis unfolding all by simp
qed

text \<open>What a lookup answers that finds the value \<open>v\<close>.\<close>

definition finds :: "json_object \<Rightarrow> nat \<Rightarrow> nat \<Rightarrow> nat res \<Rightarrow> json_value \<Rightarrow> bool" where
  "finds toks b e r v \<longleftrightarrow> (\<exists>p. r = Inr p \<and> jat toks p v \<and> b < p \<and> p + length (jflat v) < e)"

text \<open>
  C37. Lookups in a list of tokens are lookups in the tree it holds: those in an object find the
  first value of the key, or nothing; arrays have their length, and the element at every index
  below it; everything else is an error.
\<close>

theorem json_lookup:
  assumes "jat toks b v" and "b + length (jflat v) \<le> e" and "jsmall v"
  shows "case v of
    JObj kvs \<Rightarrow> (case map_of kvs key of
        None \<Rightarrow> objectLookup toks b e key = Inr e
      | Some u \<Rightarrow> finds toks b e (objectLookup toks b e key) u) \<and>
      arrayLength toks b e = Inl ParseError \<and> arrayLookup toks b e i = Inl ParseError
  | JArr vs \<Rightarrow> arrayLength toks b e = Inr (length vs) \<and>
      (if i < length vs then finds toks b e (arrayLookup toks b e i) (vs ! i)
       else arrayLookup toks b e i = Inl IndexError) \<and> objectLookup toks b e key = Inl ParseError
  | _ \<Rightarrow> objectLookup toks b e key = Inl ParseError \<and> arrayLength toks b e = Inl ParseError \<and>
      arrayLookup toks b e i = Inl ParseError"
proof -
  from assms(2) jflat_Cons [of v] have ne: "b \<noteq> e" by auto
  note head = jat_head(2,5) [OF assms(1)]
  have o: "jt_type (hd (jflat v)) \<noteq> JSON_OBJECT_BEGIN \<Longrightarrow> objectLookup toks b e key = Inl ParseError"
    using head ne by (simp add: objectLookup_def)
  have a: "jt_type (hd (jflat v)) \<noteq> JSON_ARRAY_BEGIN \<Longrightarrow> arrayLength toks b e = Inl ParseError"
    "jt_type (hd (jflat v)) \<noteq> JSON_ARRAY_BEGIN \<Longrightarrow> arrayLookup toks b e i = Inl ParseError"
    using head ne by (simp_all add: arrayLength_def arrayLookup_def)
  show ?thesis
  proof (cases v)
    case (JObj kvs)
    from objectLookup_tree [OF assms [unfolded JObj], of key] a JObj show ?thesis
      by (auto simp: finds_def split: option.splits)
  next
    case (JArr vs)
    from array_tree(1) [OF assms [unfolded JArr]] array_tree(2,3) [OF assms [unfolded JArr], of i] o JArr show ?thesis
      by (auto simp: finds_def)
  qed (use o a in auto)
qed

lemma json_lookup_witness:
  "finds (jflat example_json) 0 9 (objectLookup (jflat example_json) 0 9 (ascii ''b'')) JNull"
proof -
  have "length (jflat example_json) = 9" by (simp add: example_json_def)
  with json_lookup [OF jat_start [of example_json] _ example_json_read(2), of 9 "ascii ''b''"] show ?thesis
    by (simp add: example_json_def ascii_def)
qed

lemma schema_json_MessageSchema:
  "schema_json_ok (MessageSchema nm fs) \<longleftrightarrow> clean nm = nm \<and> (\<forall>f \<in> set fs. column_json_ok f)"
  "no_hints (MessageSchema nm fs) = MessageSchema nm (map no_hints_field fs)"
  "schema_json (MessageSchema nm fs) =
     JObj [(ascii ''name'', JStr nm), (ascii ''columns'', JArr (map column_json fs))]"
proof -
  obtain n gs a b c where S: "MessageSchema nm fs = Schema n gs a b c" by (cases "MessageSchema nm fs")
  have "n = nm" "gs = fs" using MessageSchema_sel [of nm fs] by (simp_all add: S)
  with S show "schema_json_ok (MessageSchema nm fs) \<longleftrightarrow> clean nm = nm \<and> (\<forall>f \<in> set fs. column_json_ok f)"
    "no_hints (MessageSchema nm fs) = MessageSchema nm (map no_hints_field fs)"
    "schema_json (MessageSchema nm fs) =
       JObj [(ascii ''name'', JStr nm), (ascii ''columns'', JArr (map column_json fs))]"
    by simp_all
qed

text \<open>
  C38. A message schema with subschemas at any depth, written as JSON, is read back without the
  encoding hints of its fields.
\<close>

theorem message_schema_json_roundtrip:
  assumes "schema_json_ok s" and "jsmall (schema_json s)"
  shows "\<exists>w toks. MessageSchema_toJSON s (JSONOutputStream []) = Inr w \<and> parseJSON_string (jw_out w) = Some (Inr toks) \<and>
    MessageSchema_fromJSON toks (length toks) 0 empty_schema = Inr (no_hints s)"
  using assms by (rule schema_json_roundtrip)

lemma message_schema_json_roundtrip_witness:
  "\<exists>w toks. MessageSchema_toJSON person_schema (JSONOutputStream []) = Inr w \<and>
    parseJSON_string (jw_out w) = Some (Inr toks) \<and>
    MessageSchema_fromJSON toks (length toks) 0 empty_schema = Inr person_schema"
proof -
  have c: "clean [c] = [c]" if "32 \<le> c" for c using that by (simp add: clean_def)
  have c2: "clean [105, 100] = [105, 100]" "clean [] = []" by (simp_all add: clean_def)
  have "schema_json_ok person_schema" "no_hints person_schema = person_schema"
    by (simp_all add: person_schema_def schema_json_MessageSchema mkObjectField_def c c2 fieldTypeToString_def)
  moreover have "length (jflat (schema_json person_schema)) < 2 ^ 32"
    by (simp add: person_schema_def schema_json_MessageSchema mkObjectField_def)
  ultimately show ?thesis using message_schema_json_roundtrip [of person_schema] by (simp add: jsmall_def)
qed

lemma row_json_MessageSchema:
  "row_json (MessageSchema nm fs) os =
     JObj (map (\<lambda>f. (sf_name f, if sf_repeated f then JArr (map (value_json f) (children (sf_id f) os))
                              else value_json f (hd (children (sf_id f) os))))
       (filter (\<lambda>f. children (sf_id f) os \<noteq> []) fs))"
  "json_names_ok (MessageSchema nm fs) \<longleftrightarrow> (\<forall>f \<in> set fs. json_name_ok f)"
proof -
  obtain n gs a b c where S: "MessageSchema nm fs = Schema n gs a b c" by (cases "MessageSchema nm fs")
  have "gs = fs" using MessageSchema_sel [of nm fs] by (simp add: S)
  with S show "json_names_ok (MessageSchema nm fs) \<longleftrightarrow> (\<forall>f \<in> set fs. json_name_ok f)"
    "row_json (MessageSchema nm fs) os =
     JObj (map (\<lambda>f. (sf_name f, if sf_repeated f then JArr (map (value_json f) (children (sf_id f) os))
                              else value_json f (hd (children (sf_id f) os))))
       (filter (\<lambda>f. children (sf_id f) os \<noteq> []) fs))"
    by simp_all
qed

text \<open>
  C39. A row of a message schema, written as JSON by \<open>toJSON\<close>, parsed, and read by \<open>fromJSON\<close> with the
  same schema: the message read (\<open>json_back_row\<close>) has the fields in the order of the schema, without booleans, without
  the control characters the parser drops, without doubles that are zero, denormal or infinite, and with
  the other doubles as \<open>stod\<close> reads their text; of times, those below \<open>3 * 10^10\<close> come back multiplied by \<open>10^6\<close>
  and those below \<open>3 * 10^13\<close> by \<open>10^3\<close>. A row in which none of this changes a value (\<open>json_kept\<close>) comes back as the
  same message, up to the order of fields with different ids. Not covered are doubles whose text has more than 127
  characters, times from \<open>2^63\<close> on, which are written as negative numbers, and the times \<open>3 * 10^10\<close> and
  \<open>3 * 10^13\<close> themselves.
\<close>

theorem message_json_roundtrip:
  assumes "schema_wf S" and "json_names_ok S" and "row_ok S os" and "\<forall>m \<in> set os. json_value_ok m" and "jsmall (row_json S os)"
  shows "\<exists>w toks. DynamicMessage_toJSON \<lparr>dm_schema = S, dm_data = MObject 0 os\<rparr> (JSONOutputStream []) = Inr w \<and>
    parseJSON_string (jw_out w) = Some (Inr toks) \<and>
    DynamicMessage_fromJSON strptime stod now toks (length toks) 0 (DynamicMessage S) =
      Inr \<lparr>dm_schema = S, dm_data = MObject 0 (json_back_row stod S os)\<rparr> \<and>
    ((\<forall>m \<in> set os. json_kept stod m) \<longrightarrow> same (MObject 0 os) (MObject 0 (json_back_row stod S os)))"
  using row_json_roundtrip [OF assms, of 0] row_same(1) [OF assms(1,3), of stod 0] assms(4) by blast

lemma person_json:
  assumes "row \<in> set person_rows"
  shows "json_names_ok person_schema" "\<forall>m \<in> set row. json_value_ok m \<and> json_kept stod m" "jsmall (row_json person_schema row)"
proof -
  have c: "clean [c] = [c]" if "32 \<le> c" for c using that by (simp add: clean_def)
  have c2: "clean [105, 100] = [105, 100]" "clean [] = []" by (simp_all add: clean_def)
  show "json_names_ok person_schema"
    by (simp add: person_schema_def row_json_MessageSchema mkObjectField_def c c2) (simp add: escapeString_def escape_char_def)
  show "\<forall>m \<in> set row. json_value_ok m \<and> json_kept stod m" using assms by (auto simp: person_rows_def c c2)
  show "jsmall (row_json person_schema row)" using assms
    by (auto simp: person_rows_def person_schema_def row_json_MessageSchema mkObjectField_def jsmall_def children_def)
qed

text \<open>A point: a double that is written as \<open>1.0\<close>, and a time that is taken for seconds.\<close>

definition point_schema :: message_schema where
  "point_schema = MessageSchema [112]
     [MessageSchemaField 1 [120] F_DOUBLE 0 False False Hint_NONE None,
      MessageSchemaField 2 [116] F_DATETIME 0 False False Hint_NONE None]"

definition one_double :: double where "one_double = Double 0x3FF0000000000000"

definition one_stod :: "bytes \<Rightarrow> double res" where
  "one_stod s = (if s = [49, 46, 48] then Inr one_double else Inl StdInvalidArgument)"

definition point_row :: "message_object list" where
  "point_row = [MDateTime 2 1456741805, MDouble 1 one_double]"

lemma one_double_text: "double_normal one_double" "length (printf_f one_double) \<le> 127" "double_text one_double = [49, 46, 48]"
proof -
  have d: "double_exp one_double = 1023" "double_frac one_double = 0" "\<not> double_sign one_double"
    by (simp_all add: double_exp_def double_frac_def double_sign_def one_double_def)
  have "pad_digits k 0 = replicate k 48" for k by (induction k) (simp_all add: digit_char_def replicate_append_same)
  then have pad: "pad_digits 6 0 = [48, 48, 48, 48, 48, 48]" by (simp add: numeral_eq_Suc)
  have q: "round_div ((2 ^ 52 + 0) * 10 ^ 6) (2 ^ (1075 - max 1 1023)) = 10 ^ 6" by (simp add: round_div_def)
  have m: "(10 ^ 6 :: nat) div 10 ^ 6 = 1" "(10 ^ 6 :: nat) mod 10 ^ 6 = 0" by simp_all
  have c: "(1023 = (0 :: nat)) = False" "(1075 \<le> max 1 (1023 :: nat)) = False" "((1023 :: nat) = 2047) = False" by simp_all
  have p: "printf_f one_double = [49, 46, 48, 48, 48, 48, 48, 48]"
    unfolding printf_f_def Let_def d c if_False q m pad digits_small by (simp only: if_False d append.simps)
  show "double_normal one_double" "length (printf_f one_double) \<le> 127" "double_text one_double = [49, 46, 48]"
    by (simp_all add: double_normal_def d p double_text_def)
qed

lemma point_ok: "schema_wf point_schema" "row_ok point_schema point_row" "\<forall>m \<in> set point_row. json_value_ok m"
  "ms_fields point_schema = [MessageSchemaField 1 [120] F_DOUBLE 0 False False Hint_NONE None,
      MessageSchemaField 2 [116] F_DATETIME 0 False False Hint_NONE None]"
  by (simp_all add: point_schema_def schema_wf_MessageSchema MessageSchema_sel point_row_def row_ok_def counts_ok_def children_def
    one_double_text)

lemma point_json:
  "json_names_ok point_schema" "jsmall (row_json point_schema point_row)"
  "json_back_row one_stod point_schema point_row = [MDouble 1 one_double, MDateTime 2 1456741805000000]"
proof -
  have c: "clean [x] = [x]" if "32 \<le> x" for x using that by (simp add: clean_def)
  show "json_names_ok point_schema"
    by (simp add: point_schema_def row_json_MessageSchema c) (simp add: escapeString_def escape_char_def)
  show "jsmall (row_json point_schema point_row)"
    by (simp add: point_schema_def point_row_def row_json_MessageSchema jsmall_def children_def one_double_text)
  have "sint (1456741805 :: u64) = 1456741805" by (simp add: sint_uint signed_take_bit_int_eq_self)
  then have "time_back 1456741805 = 1456741805000000" by (simp add: time_back_def)
  moreover have "double_back one_stod one_double = [one_double]" by (simp add: double_back_def one_double_text one_stod_def)
  moreover obtain n fs a b d where S: "point_schema = Schema n fs a b d" by (cases point_schema)
  ultimately show "json_back_row one_stod point_schema point_row = [MDouble 1 one_double, MDateTime 2 1456741805000000]"
    using point_ok(4) unfolding S by (simp add: point_row_def children_def)
qed

lemma message_json_roundtrip_witness:
  "(\<exists>w toks dm. DynamicMessage_toJSON \<lparr>dm_schema = person_schema, dm_data = MObject 0 (hd person_rows)\<rparr> (JSONOutputStream []) = Inr w \<and>
    parseJSON_string (jw_out w) = Some (Inr toks) \<and>
    DynamicMessage_fromJSON (\<lambda>_. None) one_stod (\<lambda>_. 0) toks (length toks) 0 (DynamicMessage person_schema) = Inr dm \<and>
    same (MObject 0 (hd person_rows)) (dm_data dm)) \<and>
   (\<exists>w toks. DynamicMessage_toJSON \<lparr>dm_schema = point_schema, dm_data = MObject 0 point_row\<rparr> (JSONOutputStream []) = Inr w \<and>
    parseJSON_string (jw_out w) = Some (Inr toks) \<and>
    DynamicMessage_fromJSON (\<lambda>_. None) one_stod (\<lambda>_. 0) toks (length toks) 0 (DynamicMessage point_schema) =
      Inr \<lparr>dm_schema = point_schema, dm_data = MObject 0 [MDouble 1 one_double, MDateTime 2 1456741805000000]\<rparr>)"
proof -
  have row: "hd person_rows \<in> set person_rows" by (simp add: person_rows_def)
  note json = person_json(1) [OF row] person_json(2) [OF row, of one_stod] person_json(3) [OF row]
  have "row_ok person_schema (hd person_rows)" "\<forall>m \<in> set (hd person_rows). json_value_ok m" "\<forall>m \<in> set (hd person_rows). json_kept one_stod m"
    using person_rows_ok row json(2) by blast+
  from message_json_roundtrip [OF person_wf(1) json(1) this(1,2) json(3), of "\<lambda>_. None" one_stod "\<lambda>_. 0"] this(3)
    message_json_roundtrip [OF point_ok(1) point_json(1) point_ok(2,3) point_json(2), of "\<lambda>_. None" one_stod "\<lambda>_. 0", unfolded point_json(3)]
  show ?thesis by fastforce
qed

text \<open>
  C40. Whatever tokens \<open>fromJSON\<close> is given, the message it makes has the types of the schema at
  every depth: every value has the id of a field and the type of that field.
\<close>

theorem dynamic_message_typed:
  assumes "schema_wf S" and "DynamicMessage_fromJSON strptime stod now toks e b (DynamicMessage S) = Inr dm"
  shows "\<exists>os. dm = \<lparr>dm_schema = S, dm_data = MObject 0 os\<rparr> \<and> list_all (typed S) os"
proof -
  have "dm_ok S (DynamicMessage S)" by (simp add: dm_ok_def DynamicMessage_def)
  from fromJSON_keeps(1) [OF assms(1) this assms(2) [unfolded DynamicMessage_fromJSON_def]] show ?thesis
    by (cases dm) (simp add: dm_ok_def)
qed

lemma dynamic_message_typed_witness:
  "\<exists>dm os. DynamicMessage_fromJSON (\<lambda>_. None) (\<lambda>_. Inl RuntimeError) (\<lambda>_. 0)
      (jflat (row_json person_schema (hd person_rows))) (length (jflat (row_json person_schema (hd person_rows)))) 0
      (DynamicMessage person_schema) = Inr dm \<and>
    dm = \<lparr>dm_schema = person_schema, dm_data = MObject 0 os\<rparr> \<and> list_all (typed person_schema) os"
proof -
  let ?t = "jflat (row_json person_schema (hd person_rows))"
  have row: "hd person_rows \<in> set person_rows" by (simp add: person_rows_def)
  have "reads_rows (\<lambda>_. None) (\<lambda>_. Inl RuntimeError) (\<lambda>_. 0) ?t person_schema" by (rule rows_read(1) [OF person_wf(1)])
  then have "DynamicMessage_fromJSON (\<lambda>_. None) (\<lambda>_. Inl RuntimeError) (\<lambda>_. 0) ?t (length ?t) 0 (DynamicMessage person_schema) =
      Inr (dm_of person_schema (json_back_row (\<lambda>_. Inl RuntimeError) person_schema (hd person_rows)))"
    using person_json [OF row] person_rows_ok row jat_start [of "row_json person_schema (hd person_rows)"]
    by (simp add: reads_rows_def DynamicMessage_fromJSON_def DynamicMessage_def)
  with dynamic_message_typed [OF person_wf(1) this] show ?thesis by blast
qed

end
